(* ===== verification/Prelude.thy ===== *)
theory Prelude
  imports Main "HOL-Library.Word"
begin

text \<open>
  Shared vocabulary of the development.

  \<^item> Names for the C integer types that the sources use: \<open>unsigned long\<close>,
    \<open>uint64_t\<close> and \<open>uintptr_t\<close> are 64-bit words, \<open>uint32_t\<close> is a 32-bit word.
    Signed arithmetic whose overflow is undefined in C is done on \<open>int\<close>; explicit
    conversions to \<open>int\<close> are the function \<open>s32\<close>; division truncates (\<open>cdiv\<close>,
    \<open>cmod\<close>).
  \<^item> Faults: a C operation that traps (division by zero, null dereference, access out
    of the bounds of an array) is the left value of a sum.
  \<^item> Folding a step function over a list of inputs, with and without faults, and the
    two interfaces (\<open>machine\<close>, \<open>fallible_machine\<close>) in which the facts about such
    runs are proved once.
  \<^item> Decimal output as \<open>printf\<close> does it.
\<close>

section \<open>Integers\<close>

type_synonym ulong = "64 word"
type_synonym uint32 = "32 word"

definition s32 :: "int \<Rightarrow> int" where
  "s32 x = (x + 2 ^ 31) mod 2 ^ 32 - 2 ^ 31"

definition u32 :: "int \<Rightarrow> int" where
  "u32 x = x mod 2 ^ 32"

definition u64 :: "int \<Rightarrow> int" where
  "u64 x = x mod 2 ^ 64"

definition cdiv :: "int \<Rightarrow> int \<Rightarrow> int" where
  "cdiv a b = sgn a * sgn b * (\<bar>a\<bar> div \<bar>b\<bar>)"

definition cmod :: "int \<Rightarrow> int \<Rightarrow> int" where
  "cmod a b = a - cdiv a b * b"

named_theorems in_range \<open>conversions that are the identity on values in range\<close>

lemma s32_id [in_range]: "- (2 ^ 31) \<le> x \<Longrightarrow> x < 2 ^ 31 \<Longrightarrow> s32 x = x"
  by (simp add: s32_def)

lemma u32_id [in_range]: "0 \<le> x \<Longrightarrow> x < 2 ^ 32 \<Longrightarrow> u32 x = x"
  by (simp add: u32_def)

lemma u64_id [in_range]: "0 \<le> x \<Longrightarrow> x < 2 ^ 64 \<Longrightarrow> u64 x = x"
  by (simp add: u64_def)

lemma u32_bounds: "0 \<le> u32 x" "u32 x < 2 ^ 32"
  by (simp_all add: u32_def)

lemma s32_bounds: "- (2 ^ 31) \<le> s32 x" "s32 x < 2 ^ 31"
proof -
  have "0 \<le> (x + 2 ^ 31) mod 2 ^ 32" "(x + 2 ^ 31) mod 2 ^ 32 < 2 ^ 32"
    by simp_all
  then show "- (2 ^ 31) \<le> s32 x" "s32 x < 2 ^ 31"
    by (simp_all add: s32_def)
qed

lemma cdiv_pos [in_range]: "0 \<le> a \<Longrightarrow> 0 < b \<Longrightarrow> cdiv a b = a div b"
  by (cases "a = 0") (simp_all add: cdiv_def)

lemma cmod_pos [in_range]: "0 \<le> a \<Longrightarrow> 0 < b \<Longrightarrow> cmod a b = a mod b"
  by (simp add: cmod_def cdiv_pos minus_div_mult_eq_mod)

lemma cdiv_neg: "a < 0 \<Longrightarrow> 0 < b \<Longrightarrow> cdiv a b = - ((- a) div b)"
  by (simp add: cdiv_def)

lemma cdiv_bounds:
  assumes "0 < b"
  shows "b * cdiv a b - b < a" "a < b * cdiv a b + b"
proof -
  have m: "b * (x div b) \<le> x" "x < b * (x div b) + b" for x
    using assms pos_mod_bound [of b x] pos_mod_sign [of b x] mult_div_mod_eq [of b x]
    by linarith+
  show "b * cdiv a b - b < a" "a < b * cdiv a b + b"
    using m [of a] m [of "- a"] assms
    by (cases "a < 0"; simp add: cdiv_neg cdiv_pos; linarith)+
qed

lemma div_eqI:
  fixes a b q :: int
  assumes "q * b \<le> a" and "a < (q + 1) * b" and "0 < b"
  shows "a div b = q" "a mod b = a - q * b"
proof -
  have "a = b * q + (a - q * b)" "0 \<le> a - q * b" "a - q * b < b"
    using assms by (simp_all add: algebra_simps)
  then show "a div b = q" "a mod b = a - q * b"
    using int_div_pos_eq int_mod_pos_eq by blast+
qed

section \<open>Faults\<close>

datatype c_fault = Null_Dereference | Out_Of_Bounds | Division_By_Zero

type_synonym 'a checked = "c_fault + 'a"

definition array_get :: "'a list option \<Rightarrow> nat \<Rightarrow> 'a checked" where
  "array_get a i = (case a of None \<Rightarrow> Inl Null_Dereference
     | Some xs \<Rightarrow> if i < length xs then Inr (xs ! i) else Inl Out_Of_Bounds)"

definition array_set :: "'a list option \<Rightarrow> nat \<Rightarrow> 'a \<Rightarrow> 'a list option checked" where
  "array_set a i v = (case a of None \<Rightarrow> Inl Null_Dereference
     | Some xs \<Rightarrow> if i < length xs then Inr (Some (xs[i := v])) else Inl Out_Of_Bounds)"

lemma array_get_Some [simp]: "i < length xs \<Longrightarrow> array_get (Some xs) i = Inr (xs ! i)"
  by (simp add: array_get_def)

lemma array_set_Some [simp]: "i < length xs \<Longrightarrow> array_set (Some xs) i v = Inr (Some (xs[i := v]))"
  by (simp add: array_set_def)

section \<open>Runs\<close>

fun fold_res :: "('s \<Rightarrow> 'x \<Rightarrow> 'e + 's) \<Rightarrow> 's \<Rightarrow> 'x list \<Rightarrow> 'e + 's" where
  "fold_res f s [] = Inr s"
| "fold_res f s (x # xs) = (case f s x of Inl e \<Rightarrow> Inl e | Inr s' \<Rightarrow> fold_res f s' xs)"

lemma fold_res_append:
  "fold_res f s (xs @ ys) =
     (case fold_res f s xs of Inl e \<Rightarrow> Inl e | Inr s' \<Rightarrow> fold_res f s' ys)"
  by (induction xs arbitrary: s) (auto split: sum.splits)

text \<open>
  A component whose operations cannot fail: a step function and an invariant that every
  step keeps.
\<close>

locale machine =
  fixes step :: "'s \<Rightarrow> 'x \<Rightarrow> 's" and inv :: "'s \<Rightarrow> bool"
  assumes inv_step: "inv s \<Longrightarrow> inv (step s x)"
begin

lemma inv_run: "inv s \<Longrightarrow> inv (foldl step s xs)"
  by (induction xs arbitrary: s) (auto intro: inv_step)

end

text \<open>
  A component whose operations may fail: on a well-formed state no step fails, and the
  next state is well-formed again.
\<close>

locale fallible_machine =
  fixes step :: "'s \<Rightarrow> 'x \<Rightarrow> 'e + 's" and wf :: "'s \<Rightarrow> bool"
  assumes step_ok: "wf s \<Longrightarrow> \<exists>s'. step s x = Inr s' \<and> wf s'"
begin

lemma run_ok: "wf s \<Longrightarrow> \<exists>s'. fold_res step s xs = Inr s' \<and> wf s'"
proof (induction xs arbitrary: s)
  case Nil
  then show ?case by simp
next
  case (Cons x xs)
  from step_ok [OF Cons.prems, of x] obtain t where "step s x = Inr t" "wf t"
    by blast
  with Cons.IH [of t] show ?case by simp
qed

lemma run_wf: "wf s \<Longrightarrow> fold_res step s xs = Inr s' \<Longrightarrow> wf s'"
  using run_ok [of s xs] by auto

end

text \<open>
  A component whose operations may reject their input: what every accepted step keeps
  holds after an accepted run.
\<close>

locale partial_machine =
  fixes step :: "'s \<Rightarrow> 'x \<Rightarrow> 'e + 's" and inv :: "'s \<Rightarrow> bool"
  assumes inv_step: "inv s \<Longrightarrow> step s x = Inr s' \<Longrightarrow> inv s'"
begin

lemma inv_run: "inv s \<Longrightarrow> fold_res step s xs = Inr s' \<Longrightarrow> inv s'"
  by (induction xs arbitrary: s) (auto intro: inv_step split: sum.splits)

end

text \<open>A fallible component with a quantity that every step advances by a known amount.\<close>

locale counted_machine = fallible_machine step wf
  for step :: "'s \<Rightarrow> 'x \<Rightarrow> 'e + 's" and wf :: "'s \<Rightarrow> bool" +
  fixes count :: "'s \<Rightarrow> 'c::comm_monoid_add" and delta :: "'x \<Rightarrow> 'c"
  assumes step_count: "wf s \<Longrightarrow> step s x = Inr s' \<Longrightarrow> count s' = count s + delta x"
begin

lemma run_count:
  "wf s \<Longrightarrow> fold_res step s xs = Inr s' \<Longrightarrow> count s' = count s + (\<Sum>x\<leftarrow>xs. delta x)"
proof (induction xs arbitrary: s)
  case Nil
  then show ?case by simp
next
  case (Cons x xs)
  from step_ok [OF Cons.prems(1), of x] obtain t where t: "step s x = Inr t" "wf t"
    by blast
  with Cons.prems have "count s' = count t + (\<Sum>x\<leftarrow>xs. delta x)"
    by (intro Cons.IH) simp_all
  with step_count [OF Cons.prems(1) t(1)] show ?case by (simp add: ac_simps)
qed

end

section \<open>Decimal output\<close>

fun digits_of :: "nat \<Rightarrow> string" where
  "digits_of n = (if n < 10 then [char_of (48 + n)]
     else digits_of (n div 10) @ [char_of (48 + n mod 10)])"

declare digits_of.simps [simp del]

definition pad_left :: "char \<Rightarrow> nat \<Rightarrow> string \<Rightarrow> string" where
  "pad_left c w s = replicate (w - length s) c @ s"

definition fmt_0u :: "nat \<Rightarrow> ulong \<Rightarrow> string" where
  "fmt_0u w n = pad_left (CHR ''0'') w (digits_of (unat n))"

definition fmt_u :: "ulong \<Rightarrow> string" where
  "fmt_u n = digits_of (unat n)"

definition fmt_d :: "nat \<Rightarrow> int \<Rightarrow> string" where
  "fmt_d w n = pad_left (CHR '' '') w
     (if n < 0 then ''-'' @ digits_of (nat (- n)) else digits_of (nat n))"

definition fmt_0d :: "nat \<Rightarrow> int \<Rightarrow> string" where
  "fmt_0d w n = (if n < 0 then ''-'' @ pad_left (CHR ''0'') (w - 1) (digits_of (nat (- n)))
     else pad_left (CHR ''0'') w (digits_of (nat n)))"

lemma length_pad_left [simp]: "length (pad_left c w s) = max w (length s)"
  by (simp add: pad_left_def)

section \<open>Words and lists\<close>

lemma unat_bound: "unat (x :: 'a::len word) < 2 ^ LENGTH('a)"
  by (rule unsigned_less)

lemma unat_inc: "unat (x :: 'a::len word) < 2 ^ LENGTH('a) - 1 \<Longrightarrow> unat (x + 1) = unat x + 1"
  by (simp add: unat_word_ariths)

lemma unat_lt_word: "unat (x :: 'a::len word) < unat y \<longleftrightarrow> x < y"
  by (simp add: word_less_nat_alt)

lemma uint_word_of_int_id:
  "0 \<le> x \<Longrightarrow> x < 2 ^ LENGTH('a) \<Longrightarrow> uint (word_of_int x :: 'a::len word) = x"
  by (simp add: unsigned_of_int take_bit_int_eq_self)

lemma negative_above:
  fixes d e :: "'a::len word"
  assumes "sint d < 0" and "0 \<le> sint e"
  shows "e \<le> d"
proof -
  let ?m = "2 ^ LENGTH('a) :: int" and ?h = "2 ^ (LENGTH('a) - 1) :: int"
  have h: "?m = 2 * ?h"
    by (cases "LENGTH('a)") (simp_all add: not_gr_zero [symmetric])
  have "sint d mod ?m = (sint d + ?m) mod ?m" by simp
  also have "\<dots> = sint d + ?m"
    using assms(1) sint_ge [of d] h by (intro mod_pos_pos_trivial) linarith+
  finally have "uint d = sint d + ?m" by (simp add: uint_sint take_bit_eq_mod)
  moreover have "uint e = sint e"
    using assms(2) sint_lt [of e] h by (simp add: uint_sint take_bit_eq_mod)
  ultimately show ?thesis
    using sint_lt [of e] sint_ge [of d] h unfolding word_le_def by linarith
qed

lemma sum_list_update_word:
  "i < length xs \<Longrightarrow> sum_list (xs[i := xs ! i + d]) = sum_list xs + (d :: 'a::len word)"
  by (induction xs arbitrary: i) (auto simp: nth_Cons' split: nat.splits simp: add.assoc list_update_code)

end
