(* ===== verification/Histogram.thy ===== *)
theory Histogram
  imports Prelude
begin

text \<open>
  The latency histograms of \<^verbatim>\<open>rt-tests-2.10/src/lib/histogram.c\<close>: a fixed number of
  buckets of equal width, a counter of all events, and for the samples past the last
  bucket a counter, a saturating sum of the distances and an optional log of the event
  numbers. An array allocated by \<open>calloc\<close> is a list, the null pointer is \<open>None\<close>;
  whether an allocation succeeds is decided by the environment (\<open>ok\<close>).
\<close>

section \<open>Data and operations\<close>

record histogram =
  h_buckets :: "ulong list option"
  h_width :: ulong
  h_num :: ulong
  h_events :: ulong
  h_oflows :: "ulong list option"
  h_oflow_bufsize :: ulong
  h_oflow_count :: ulong
  h_oflow_magnitude :: ulong

definition ENOMEM :: int where
  "ENOMEM = 12"

definition EINVAL :: int where
  "EINVAL = 22"

definition HIST_OVERFLOW :: uint32 where
  "HIST_OVERFLOW = 1"

definition HIST_OVERFLOW_MAG :: uint32 where
  "HIST_OVERFLOW_MAG = 2"

definition HIST_OVERFLOW_LOG :: uint32 where
  "HIST_OVERFLOW_LOG = 4"

definition HSET_PRINT_SUM :: ulong where
  "HSET_PRINT_SUM = 1"

unbundle bit_operations_syntax

definition calloc :: "bool \<Rightarrow> ulong \<Rightarrow> ulong list option" where
  "calloc ok n = (if ok then Some (replicate (unat n) 0) else None)"

definition hist_zero :: histogram where
  "hist_zero = \<lparr>h_buckets = None, h_width = 0, h_num = 0, h_events = 0, h_oflows = None,
     h_oflow_bufsize = 0, h_oflow_count = 0, h_oflow_magnitude = 0\<rparr>"

definition hist_init :: "bool \<Rightarrow> ulong \<Rightarrow> ulong \<Rightarrow> histogram \<times> int" where
  "hist_init ok width num =
     (let h = hist_zero\<lparr>h_width := width, h_num := num, h_buckets := calloc ok num\<rparr>
      in case h_buckets h of None \<Rightarrow> (h, - ENOMEM) | Some _ \<Rightarrow> (h, 0))"

definition hist_init_oflow :: "bool \<Rightarrow> histogram \<Rightarrow> ulong \<Rightarrow> histogram \<times> int" where
  "hist_init_oflow ok h num =
     (let h = h\<lparr>h_oflow_bufsize := num, h_oflows := calloc ok num\<rparr>
      in case h_oflows h of None \<Rightarrow> (h, - ENOMEM) | Some _ \<Rightarrow> (h, 0))"

definition hist_destroy :: "histogram \<Rightarrow> histogram" where
  "hist_destroy h = h\<lparr>h_oflows := None, h_buckets := None\<rparr>"

text \<open>The overflow half of \<open>hist_sample\<close>: magnitude, log, counter.\<close>

definition hist_overflow :: "histogram \<Rightarrow> ulong \<Rightarrow> ulong \<Rightarrow> (histogram \<times> uint32) checked" where
  "hist_overflow h bucket event =
     (let ret = HIST_OVERFLOW;
          extra = bucket - h_num h;
          (h, ret) =
            (if h_oflow_magnitude h + extra > h_oflow_magnitude h
             then (h\<lparr>h_oflow_magnitude := h_oflow_magnitude h + extra\<rparr>, ret)
             else (h, ret OR HIST_OVERFLOW_MAG))
      in case h_oflows h of
           None \<Rightarrow> Inr (h\<lparr>h_oflow_count := h_oflow_count h + 1\<rparr>, ret)
         | Some _ \<Rightarrow>
             if h_oflow_count h < h_oflow_bufsize h
             then (case array_set (h_oflows h) (unat (h_oflow_count h)) event of
                     Inl e \<Rightarrow> Inl e
                   | Inr a \<Rightarrow> Inr (h\<lparr>h_oflows := a, h_oflow_count := h_oflow_count h + 1\<rparr>, ret))
             else Inr (h\<lparr>h_oflow_count := h_oflow_count h + 1\<rparr>, ret OR HIST_OVERFLOW_LOG))"

definition hist_sample :: "histogram \<Rightarrow> ulong \<Rightarrow> (histogram \<times> uint32) checked" where
  "hist_sample h sample =
     (if h_width h = 0 then Inl Division_By_Zero
      else
        let bucket = sample div h_width h;
            event = h_events h;
            h = h\<lparr>h_events := h_events h + 1\<rparr>
        in if bucket < h_num h
           then (case array_get (h_buckets h) (unat bucket) of
                   Inl e \<Rightarrow> Inl e
                 | Inr v \<Rightarrow>
                     (case array_set (h_buckets h) (unat bucket) (v + 1) of
                        Inl e \<Rightarrow> Inl e
                      | Inr a \<Rightarrow> Inr (h\<lparr>h_buckets := a\<rparr>, 0)))
           else hist_overflow h bucket event)"

definition hist_step :: "histogram \<Rightarrow> ulong \<Rightarrow> histogram checked" where
  "hist_step h s = map_sum id fst (hist_sample h s)"

section \<open>Sets of histograms\<close>

record histoset =
  hs_histos :: "histogram list option"
  hs_num_histos :: ulong
  hs_num_buckets :: ulong

datatype alloc_site = Histos | Buckets nat | Oflows nat

definition hset_destroy :: "histoset \<Rightarrow> histoset" where
  "hset_destroy hs =
     hs\<lparr>hs_histos := map_option (map hist_destroy) (hs_histos hs)\<rparr>\<lparr>hs_histos := None\<rparr>"

text \<open>
  The loop of \<open>hset_init\<close> over \<open>i\<close>; \<open>done\<close> are the entries of the array already
  initialised, the number \<open>n\<close> the ones left. \<open>Inl\<close> is the jump to the label
  \<open>fail\<close> with the array at that moment: the entries not reached are still zero.
\<close>

fun hset_init_loop ::
  "(alloc_site \<Rightarrow> bool) \<Rightarrow> ulong \<Rightarrow> ulong \<Rightarrow> ulong \<Rightarrow> histogram list \<Rightarrow> nat
     \<Rightarrow> histogram list + histogram list" where
  "hset_init_loop ok bw nb ovf done 0 = Inr done"
| "hset_init_loop ok bw nb ovf done (Suc n) =
     (let (h, r) = hist_init (ok (Buckets (length done))) bw nb
      in if r \<noteq> 0 then Inl (done @ h # replicate n hist_zero)
         else if ovf \<noteq> 0
         then (let (h, r) = hist_init_oflow (ok (Oflows (length done))) h ovf
               in if r \<noteq> 0 then Inl (done @ h # replicate n hist_zero)
                  else hset_init_loop ok bw nb ovf (done @ [h]) n)
         else hset_init_loop ok bw nb ovf (done @ [h]) n)"

definition hset_init ::
  "(alloc_site \<Rightarrow> bool) \<Rightarrow> histoset \<Rightarrow> ulong \<Rightarrow> ulong \<Rightarrow> ulong \<Rightarrow> ulong \<Rightarrow> histoset \<times> int" where
  "hset_init ok hs num_histos bucket_width num_buckets overflow =
     (if num_histos = 0 then (hs, - EINVAL)
      else
        let hs = hs\<lparr>hs_num_histos := num_histos, hs_num_buckets := num_buckets\<rparr>
        in if \<not> ok Histos then (hs\<lparr>hs_histos := None\<rparr>, - ENOMEM)
           else
             case hset_init_loop ok bucket_width num_buckets overflow [] (unat num_histos) of
               Inr ds \<Rightarrow> (hs\<lparr>hs_histos := Some ds\<rparr>, 0)
             | Inl ds \<Rightarrow> (hset_destroy (hs\<lparr>hs_histos := Some ds\<rparr>), - ENOMEM))"

section \<open>Output\<close>

fun bucket_values :: "histogram list \<Rightarrow> nat \<Rightarrow> ulong list checked" where
  "bucket_values [] b = Inr []"
| "bucket_values (h # hs) b =
     (case array_get (h_buckets h) b of
        Inl e \<Rightarrow> Inl e
      | Inr v \<Rightarrow> (case bucket_values hs b of Inl e \<Rightarrow> Inl e | Inr vs \<Rightarrow> Inr (v # vs)))"

fun tab_separated :: "string list \<Rightarrow> string" where
  "tab_separated [] = []"
| "tab_separated [x] = x"
| "tab_separated (x # y # xs) = x @ [CHR 0x09] @ tab_separated (y # xs)"

definition hset_print_bucket ::
  "histoset \<Rightarrow> string option \<Rightarrow> ulong \<Rightarrow> ulong \<Rightarrow> string checked" where
  "hset_print_bucket hs pre bucket flags =
     (if bucket \<ge> hs_num_buckets hs then Inr []
      else
        case hs_histos hs of
          None \<Rightarrow> Inl Null_Dereference
        | Some ds \<Rightarrow>
            (case bucket_values (take (unat (hs_num_histos hs)) ds) (unat bucket) of
               Inl e \<Rightarrow> Inl e
             | Inr vs \<Rightarrow>
                 let sum = sum_list vs
                 in if sum = 0 then Inr []
                    else Inr ((case pre of None \<Rightarrow> [] | Some p \<Rightarrow> p)
                      @ tab_separated (map (fmt_0u 6) vs)
                      @ (if flags AND HSET_PRINT_SUM \<noteq> 0 then [CHR 0x09] @ fmt_0u 6 sum else [])
                      @ [CHR 0x0A])))"

fun json_buckets :: "nat \<Rightarrow> bool \<Rightarrow> ulong list \<Rightarrow> string" where
  "json_buckets i comma [] = []"
| "json_buckets i comma (v # vs) =
     (if v \<noteq> 0
      then (if comma then '','' else [])
             @ [CHR 0x0A] @ ''        '' @ [CHR 0x22] @ digits_of i @ [CHR 0x22] @ '': '' @ fmt_u v
             @ json_buckets (Suc i) True vs
      else json_buckets (Suc i) comma vs)"

definition hist_print_json :: "histogram \<Rightarrow> string checked" where
  "hist_print_json h =
     (if h_num h = 0 then Inr [CHR 0x0A]
      else case h_buckets h of
        None \<Rightarrow> Inl Null_Dereference
      | Some bs \<Rightarrow>
          if unat (h_num h) \<le> length bs
          then Inr (json_buckets 0 False (take (unat (h_num h)) bs) @ [CHR 0x0A])
          else Inl Out_Of_Bounds)"

fun blank_separated :: "string list \<Rightarrow> string" where
  "blank_separated [] = []"
| "blank_separated [x] = x"
| "blank_separated (x # y # xs) = x @ '' '' @ blank_separated (y # xs)"

definition hist_print_oflows :: "histogram \<Rightarrow> string checked" where
  "hist_print_oflows h =
     (let n = min (unat (h_oflow_count h)) (unat (h_oflow_bufsize h));
          others = (if h_oflow_bufsize h \<le> h_oflow_count h
                    then '' # '' @ fmt_0u 5 (h_oflow_count h - h_oflow_bufsize h) @ '' others''
                    else [])
      in if n = 0 then Inr others
         else case h_oflows h of
           None \<Rightarrow> Inl Null_Dereference
         | Some os \<Rightarrow>
             if n \<le> length os
             then Inr (blank_separated (map (fmt_0u 5) (take n os)) @ others)
             else Inl Out_Of_Bounds)"

section \<open>Well-formedness\<close>

definition hist_wf :: "histogram \<Rightarrow> bool" where
  "hist_wf h \<longleftrightarrow> h_width h \<noteq> 0
     \<and> (\<exists>bs. h_buckets h = Some bs \<and> length bs = unat (h_num h))
     \<and> (\<forall>os. h_oflows h = Some os \<longrightarrow> length os = unat (h_oflow_bufsize h))"

definition hist_balanced :: "histogram \<Rightarrow> bool" where
  "hist_balanced h \<longleftrightarrow> hist_wf h
     \<and> h_events h = sum_list (the (h_buckets h)) + h_oflow_count h"

lemma hist_wf_bucket:
  assumes "hist_wf h" and "b < h_num h"
  obtains bs where "h_buckets h = Some bs" "unat b < length bs" "length bs = unat (h_num h)"
  using assms by (auto simp: hist_wf_def word_less_nat_alt)

section \<open>One sample\<close>

lemma hist_sample_in_bucket:
  assumes "hist_wf h" and b: "s div h_width h < h_num h"
  shows "hist_sample h s = Inr
     (h\<lparr>h_events := h_events h + 1,
        h_buckets := Some ((the (h_buckets h))
          [unat (s div h_width h) := the (h_buckets h) ! unat (s div h_width h) + 1])\<rparr>, 0)"
proof -
  obtain bs where "h_buckets h = Some bs" "unat (s div h_width h) < length bs"
    using hist_wf_bucket [OF assms] .
  moreover have "h_width h \<noteq> 0"
    using assms(1) by (simp add: hist_wf_def)
  ultimately show ?thesis
    using b by (simp add: hist_sample_def Let_def)
qed

lemma hist_overflow_ok:
  assumes "hist_wf h"
  shows "\<exists>h' r. hist_overflow h b e = Inr (h', r)
    \<and> h_buckets h' = h_buckets h \<and> h_width h' = h_width h \<and> h_num h' = h_num h
    \<and> h_events h' = h_events h \<and> h_oflow_bufsize h' = h_oflow_bufsize h
    \<and> h_oflow_count h' = h_oflow_count h + 1
    \<and> h_oflows h' = (if h_oflow_count h < h_oflow_bufsize h
         then map_option (\<lambda>os. os[unat (h_oflow_count h) := e]) (h_oflows h) else h_oflows h)"
proof (cases "h_oflows h")
  case None
  then show ?thesis
    by (auto simp: hist_overflow_def Let_def)
next
  case (Some os)
  with assms have "length os = unat (h_oflow_bufsize h)"
    by (simp add: hist_wf_def)
  then have "h_oflow_count h < h_oflow_bufsize h \<longleftrightarrow> unat (h_oflow_count h) < length os"
    by (simp add: word_less_nat_alt)
  with Some show ?thesis
    by (auto simp: hist_overflow_def Let_def)
qed

lemma hist_sample_past_end:
  assumes "hist_wf h" and b: "\<not> s div h_width h < h_num h"
  shows "hist_sample h s =
     hist_overflow (h\<lparr>h_events := h_events h + 1\<rparr>) (s div h_width h) (h_events h)"
  using assms by (simp add: hist_sample_def hist_wf_def Let_def)

lemma hist_wf_events [simp]: "hist_wf (h\<lparr>h_events := e\<rparr>) = hist_wf h"
  by (simp add: hist_wf_def)

text \<open>What one sample does, in one lemma: the cases are the two branches of the code.\<close>

lemma hist_step_cases:
  assumes "hist_wf h"
  obtains (bucket) bs where "s div h_width h < h_num h" "h_buckets h = Some bs"
      "unat (s div h_width h) < length bs"
      "hist_step h s = Inr (h\<lparr>h_events := h_events h + 1,
         h_buckets := Some (bs[unat (s div h_width h) := bs ! unat (s div h_width h) + 1])\<rparr>)"
  | (over) h' where "\<not> s div h_width h < h_num h" "hist_step h s = Inr h'"
      "h_buckets h' = h_buckets h" "h_width h' = h_width h" "h_num h' = h_num h"
      "h_events h' = h_events h + 1" "h_oflow_bufsize h' = h_oflow_bufsize h"
      "h_oflow_count h' = h_oflow_count h + 1"
      "h_oflows h' = (if h_oflow_count h < h_oflow_bufsize h
         then map_option (\<lambda>os. os[unat (h_oflow_count h) := h_events h]) (h_oflows h)
         else h_oflows h)"
proof (cases "s div h_width h < h_num h")
  case True
  obtain bs where bs: "h_buckets h = Some bs" "unat (s div h_width h) < length bs"
    using hist_wf_bucket [OF assms True] .
  then show ?thesis
    using hist_sample_in_bucket [OF assms True]
    by (intro bucket [OF True bs]) (simp add: hist_step_def)
next
  case False
  have wf: "hist_wf (h\<lparr>h_events := h_events h + 1\<rparr>)"
    using assms by simp
  obtain h' r where h': "hist_overflow (h\<lparr>h_events := h_events h + 1\<rparr>) (s div h_width h) (h_events h) = Inr (h', r)"
    and facts: "h_buckets h' = h_buckets h" "h_width h' = h_width h" "h_num h' = h_num h"
    "h_events h' = h_events h + 1" "h_oflow_bufsize h' = h_oflow_bufsize h"
    "h_oflow_count h' = h_oflow_count h + 1"
    "h_oflows h' = (if h_oflow_count h < h_oflow_bufsize h
       then map_option (\<lambda>os. os[unat (h_oflow_count h) := h_events h]) (h_oflows h) else h_oflows h)"
    using hist_overflow_ok [OF wf, of "s div h_width h" "h_events h"] by auto
  show ?thesis
    using hist_sample_past_end [OF assms False] h'
    by (intro over [OF False _ facts]) (simp add: hist_step_def)
qed

lemma hist_step_balanced:
  assumes "hist_balanced h"
  shows "\<exists>h'. hist_step h s = Inr h' \<and> hist_balanced h'"
proof -
  have wf: "hist_wf h" and ev: "h_events h = sum_list (the (h_buckets h)) + h_oflow_count h"
    using assms by (simp_all add: hist_balanced_def)
  from wf show ?thesis
  proof (cases rule: hist_step_cases [of h s, case_names bucket over])
    case (bucket bs)
    then show ?thesis
      using wf ev sum_list_update_word [OF bucket(3), of 1]
      by (auto simp: hist_balanced_def hist_wf_def)
  next
    case (over h')
    then show ?thesis
      using wf ev by (auto simp: hist_balanced_def hist_wf_def)
  qed
qed

lemma hist_step_geometry:
  assumes "hist_balanced h" and "hist_step h s = Inr h'"
  shows "h_width h' = h_width h" "h_num h' = h_num h" "h_events h' = h_events h + 1"
    "h_oflow_bufsize h' = h_oflow_bufsize h"
proof -
  from assms(1) have "hist_wf h" by (simp add: hist_balanced_def)
  then have "h_width h' = h_width h \<and> h_num h' = h_num h \<and> h_events h' = h_events h + 1
    \<and> h_oflow_bufsize h' = h_oflow_bufsize h"
    by (rule hist_step_cases [of h s]) (use assms(2) in auto)
  then show "h_width h' = h_width h" "h_num h' = h_num h" "h_events h' = h_events h + 1"
    "h_oflow_bufsize h' = h_oflow_bufsize h"
    by blast+
qed

interpretation hist: counted_machine hist_step hist_balanced h_events "\<lambda>_. 1"
  by unfold_locales (auto intro: hist_step_balanced hist_step_geometry)

section \<open>Runs\<close>

definition bucket_of :: "histogram \<Rightarrow> nat \<Rightarrow> ulong" where
  "bucket_of h i = the (h_buckets h) ! i"

lemma hist_step_bucket:
  assumes "hist_balanced h" and "hist_step h s = Inr h'" and i: "i < unat (h_num h)"
  shows "h_width h' = h_width h" "h_num h' = h_num h"
    "bucket_of h' i = bucket_of h i + (if s div h_width h = of_nat i then 1 else 0)"
proof -
  have i_lt: "i < 2 ^ 64"
    using i unat_bound [of "h_num h"] by simp
  have eq: "s div h_width h = of_nat i \<longleftrightarrow> unat (s div h_width h) = i"
    using i_lt by (simp add: word_unat_eq_iff take_bit_nat_eq_self unsigned_of_nat)
  have lt: "s div h_width h = of_nat i \<Longrightarrow> s div h_width h < h_num h"
    using i eq by (simp add: word_less_nat_alt)
  from assms(1) have "hist_wf h" by (simp add: hist_balanced_def)
  then have "h_width h' = h_width h \<and> h_num h' = h_num h \<and>
    bucket_of h' i = bucket_of h i + (if s div h_width h = of_nat i then 1 else 0)"
  proof (cases rule: hist_step_cases [of h s, case_names bucket over])
    case (bucket bs)
    then show ?thesis
      using assms(2) eq by (auto simp: bucket_of_def nth_list_update)
  next
    case (over h'')
    then show ?thesis
      using assms(2) lt by (auto simp: bucket_of_def)
  qed
  then show "h_width h' = h_width h" "h_num h' = h_num h"
    "bucket_of h' i = bucket_of h i + (if s div h_width h = of_nat i then 1 else 0)"
    by blast+
qed

lemma hist_run_bucket:
  assumes "hist_balanced h" and "fold_res hist_step h xs = Inr h'" and "i < unat (h_num h)"
  shows "bucket_of h' i = bucket_of h i + of_nat (length (filter (\<lambda>s. s div h_width h = of_nat i) xs))"
  using assms
proof (induction xs arbitrary: h)
  case Nil
  then show ?case by simp
next
  case (Cons x xs)
  from hist.step_ok [OF Cons.prems(1), of x] obtain t where t: "hist_step h x = Inr t" "hist_balanced t"
    by blast
  note st = hist_step_bucket [OF Cons.prems(1) t(1) Cons.prems(3)]
  from Cons.prems(2) t have "fold_res hist_step t xs = Inr h'" by simp
  from Cons.IH [OF t(2) this] st Cons.prems(3) show ?case
    by (simp add: ac_simps)
qed

text \<open>
  The event numbers of the samples that fall past the last bucket, when the first sample
  has the event number \<open>e\<close>.
\<close>

fun overflow_events :: "ulong \<Rightarrow> ulong \<Rightarrow> ulong \<Rightarrow> ulong list \<Rightarrow> ulong list" where
  "overflow_events w n e [] = []"
| "overflow_events w n e (s # ss) =
     (if s div w < n then overflow_events w n (e + 1) ss
      else e # overflow_events w n (e + 1) ss)"

text \<open>The log of a histogram holds the list \<open>L\<close> of overflow events, as far as it has room.\<close>

definition logged :: "histogram \<Rightarrow> ulong list \<Rightarrow> bool" where
  "logged h L \<longleftrightarrow> h_oflow_count h = of_nat (length L)
     \<and> (\<forall>os. h_oflows h = Some os \<longrightarrow> take (length L) os = take (length os) L)"

lemma take_update_append:
  assumes "take (length L) os = take (length os) L"
  shows "take (length (L @ [e]))
           (if length L < length os then os[length L := e] else os)
         = take (length os) (L @ [e])"
proof (cases "length L < length os")
  case True
  then have "take (Suc (length L)) (os[length L := e]) = take (length L) os @ [e]"
    by (simp add: take_Suc_conv_app_nth take_update_cancel)
  with True assms show ?thesis by simp
next
  case False
  with assms show ?thesis by simp
qed

lemma hist_step_logged:
  assumes "hist_balanced h" and "hist_step h s = Inr h'" and "logged h L" and "length L < 2 ^ 64"
  shows "logged h' (L @ overflow_events (h_width h) (h_num h) (h_events h) [s])"
proof -
  from assms(1) have wf: "hist_wf h" by (simp add: hist_balanced_def)
  have cnt: "unat (h_oflow_count h) = length L"
    using assms(3,4) by (simp add: logged_def unsigned_of_nat take_bit_nat_eq_self)
  from wf show ?thesis
  proof (cases rule: hist_step_cases [of h s, case_names bucket over])
    case (bucket bs)
    then show ?thesis using assms by (auto simp: logged_def)
  next
    case (over h'')
    have "h'' = h'" using over assms(2) by simp
    have "take (Suc (length L)) os' = take (length os') (L @ [h_events h])"
      if os': "h_oflows h' = Some os'" for os'
    proof -
      obtain os where os: "h_oflows h = Some os"
        using os' over \<open>h'' = h'\<close> by (cases "h_oflows h") (auto split: if_splits)
      then have len: "length os = unat (h_oflow_bufsize h)"
        using wf by (simp add: hist_wf_def)
      have "os' = (if length L < length os then os[length L := h_events h] else os)"
        using os' over(9) cnt len unfolding \<open>h'' = h'\<close> os
        by (simp add: word_less_nat_alt split: if_splits)
      then show ?thesis
        using take_update_append [of L os "h_events h"] assms(3) os
        by (auto simp: logged_def split: if_splits)
    qed
    then show ?thesis
      using over \<open>h'' = h'\<close> assms(3) by (simp add: logged_def)
  qed
qed

lemma hist_run_logged:
  assumes "hist_balanced h" and "fold_res hist_step h xs = Inr h'" and "logged h L"
    and "length L + length xs \<le> 2 ^ 64"
  shows "logged h' (L @ overflow_events (h_width h) (h_num h) (h_events h) xs)"
  using assms
proof (induction xs arbitrary: h L)
  case Nil
  then show ?case by simp
next
  case (Cons x xs)
  from hist.step_ok [OF Cons.prems(1), of x] obtain t where t: "hist_step h x = Inr t" "hist_balanced t"
    by blast
  have geo: "h_width t = h_width h" "h_num t = h_num h" "h_events t = h_events h + 1"
    by (rule hist_step_geometry [OF Cons.prems(1) t(1)])+
  let ?L = "L @ overflow_events (h_width h) (h_num h) (h_events h) [x]"
  have "logged t ?L"
    using hist_step_logged [OF Cons.prems(1) t(1) Cons.prems(3)] Cons.prems(4) by simp
  moreover have "length ?L + length xs \<le> 2 ^ 64"
    using Cons.prems(4) by (simp split: if_splits)
  moreover have "fold_res hist_step t xs = Inr h'"
    using Cons.prems(2) t(1) by simp
  ultimately have "logged h' (?L @ overflow_events (h_width t) (h_num t) (h_events t) xs)"
    by (intro Cons.IH [OF t(2)])
  then show ?case
    by (simp add: geo split: if_splits)
qed

section \<open>Properties\<close>

lemma hist_init_fresh:
  assumes "hist_init ok w n = (h, 0)" and "w \<noteq> 0"
  shows "hist_balanced h" "h_width h = w" "h_num h = n" "h_events h = 0" "logged h []"
    "bucket_of h = (\<lambda>i. replicate (unat n) 0 ! i)"
  using assms
  by (auto simp: hist_init_def hist_zero_def calloc_def Let_def ENOMEM_def hist_balanced_def
      hist_wf_def logged_def bucket_of_def sum_list_replicate split: if_splits)

lemma hist_init_oflow_fresh:
  assumes "hist_init_oflow ok h k = (h', 0)" and "hist_balanced h" and "logged h []"
  shows "hist_balanced h'" "logged h' []" "h_width h' = h_width h" "h_num h' = h_num h"
    "h_events h' = h_events h" "h_oflow_bufsize h' = k" "h_buckets h' = h_buckets h"
    "\<exists>os. h_oflows h' = Some os \<and> length os = unat k"
  using assms
  by (auto simp: hist_init_oflow_def calloc_def Let_def ENOMEM_def hist_balanced_def hist_wf_def
      logged_def split: if_splits)

text \<open>
  C28. Conservation: a histogram of non-zero bucket width that was just initialised accepts
  any sequence of samples without a fault, its event counter is the number of samples and
  equals the sum of all buckets plus the overflow counter (all modulo \<open>2 ^ 64\<close>, the
  width of the counters).
\<close>

theorem hist_conservation:
  assumes "w \<noteq> 0" and "hist_init ok w n = (h, 0)"
  shows "\<exists>h'. fold_res hist_step h xs = Inr h'
    \<and> h_events h' = of_nat (length xs)
    \<and> h_events h' = sum_list (the (h_buckets h')) + h_oflow_count h'"
proof -
  note fresh = hist_init_fresh [OF assms(2,1)]
  obtain h' where h': "fold_res hist_step h xs = Inr h'" "hist_balanced h'"
    using hist.run_ok [OF fresh(1)] by blast
  have "h_events h' = of_nat (length xs)"
    using hist.run_count [OF fresh(1) h'(1)] fresh(4) by (simp add: sum_list_triv)
  with h' show ?thesis by (auto simp: hist_balanced_def)
qed

theorem hist_conservation_witness:
  "\<exists>h'. fold_res hist_step (fst (hist_init True 10 3)) [5, 12, 99, 31] = Inr h'
    \<and> h_events h' = of_nat (length [5, 12, 99, 31 :: ulong])
    \<and> h_events h' = sum_list (the (h_buckets h')) + h_oflow_count h'"
proof -
  have "hist_init True 10 3 = (fst (hist_init True 10 3), 0)"
    by (simp add: hist_init_def calloc_def hist_zero_def Let_def)
  then show ?thesis
    by (intro hist_conservation [of 10 True 3]) simp_all
qed

text \<open>
  Functional correctness of the buckets: after any sequence of samples bucket \<open>i\<close>
  holds (modulo \<open>2 ^ 64\<close>) the number of samples whose quotient by the bucket width is
  \<open>i\<close>.
\<close>

theorem hist_bucket_counts:
  assumes "w \<noteq> 0" and "hist_init ok w n = (h, 0)" and "fold_res hist_step h xs = Inr h'"
    and "i < unat n"
  shows "the (h_buckets h') ! i = of_nat (length (filter (\<lambda>s. unat s div unat w = i) xs))"
proof -
  note fresh = hist_init_fresh [OF assms(2,1)]
  have "i < 2 ^ 64"
    using assms(4) unat_bound [of n] by simp
  then have "(\<lambda>s. s div w = of_nat i) = (\<lambda>s. unat s div unat w = i)"
    by (auto simp: word_unat_eq_iff unat_div unsigned_of_nat take_bit_nat_eq_self)
  then show ?thesis
    using hist_run_bucket [OF fresh(1) assms(3), of i] fresh(2,3,6) assms(4)
    by (simp add: bucket_of_def)
qed

definition sample_hist :: histogram where
  "sample_hist = fst (hist_init True 10 3)"

definition sample_hist_log :: histogram where
  "sample_hist_log = fst (hist_init_oflow True sample_hist 1)"

lemmas hist_eval = hist_step_def hist_sample_def hist_overflow_def hist_init_def
  hist_init_oflow_def calloc_def hist_zero_def sample_hist_def sample_hist_log_def Let_def

lemma sample_hist_init: "hist_init True 10 3 = (sample_hist, 0)"
  by (simp add: hist_eval)

lemma sample_hist_log_init: "hist_init_oflow True sample_hist 1 = (sample_hist_log, 0)"
  by (simp add: hist_eval)

theorem hist_bucket_counts_witness:
  "\<exists>h'. fold_res hist_step sample_hist [5, 12, 99, 31, 17] = Inr h' \<and> the (h_buckets h') ! 1 = 2"
proof -
  have "hist_balanced sample_hist"
    using hist_init_fresh(1) [OF sample_hist_init] by simp
  then obtain h' where h': "fold_res hist_step sample_hist [5, 12, 99, 31, 17] = Inr h'"
    using hist.run_ok by blast
  have "the (h_buckets h') ! 1
      = of_nat (length (filter (\<lambda>s. unat s div unat (10 :: ulong) = 1) [5, 12, 99, 31, 17 :: ulong]))"
    by (rule hist_bucket_counts [OF _ sample_hist_init h']) simp_all
  with h' show ?thesis by simp
qed

text \<open>
  The overflow log: when the log was allocated for \<open>k\<close> entries, after at most
  \<open>2 ^ 64\<close> samples the overflow counter is the number of samples past the last bucket,
  and the log holds the event numbers of the first \<open>k\<close> of them, in order.
\<close>

theorem hist_overflow_log:
  assumes "w \<noteq> 0" and "hist_init ok w n = (h\<^sub>0, 0)" and "hist_init_oflow ok' h\<^sub>0 k = (h, 0)"
    and "fold_res hist_step h xs = Inr h'" and "length xs \<le> 2 ^ 64"
  shows "h_oflow_count h' = of_nat (length (overflow_events w n 0 xs))
    \<and> (\<forall>os. h_oflows h' = Some os \<longrightarrow>
         take (length (overflow_events w n 0 xs)) os = take (length os) (overflow_events w n 0 xs))"
proof -
  note fresh0 = hist_init_fresh [OF assms(2,1)]
  note fresh = hist_init_oflow_fresh [OF assms(3) fresh0(1,5)]
  have "logged h' ([] @ overflow_events (h_width h) (h_num h) (h_events h) xs)"
    by (rule hist_run_logged [OF fresh(1) assms(4) fresh(2)]) (use assms(5) in simp)
  then show ?thesis
    using fresh(3-5) fresh0(2-4) by (simp add: logged_def)
qed

theorem hist_overflow_log_witness:
  "\<exists>h' os. fold_res hist_step sample_hist_log [5, 12, 99, 31] = Inr h'
    \<and> h_oflow_count h' = 2 \<and> h_oflows h' = Some os \<and> os = [2]"
proof -
  obtain h' where h': "fold_res hist_step sample_hist_log [5, 12, 99, 31] = Inr h'"
    and os: "\<exists>os. h_oflows h' = Some os \<and> length os = 1"
    by (auto simp: hist_eval)
  note log = hist_overflow_log [OF _ sample_hist_init sample_hist_log_init h']
  have "h_oflow_count h' = 2"
    using log by simp
  moreover have "os = [2]" if "h_oflows h' = Some os" for os
    using log that os by (auto simp: length_Suc_conv)
  ultimately show ?thesis
    using h' os by blast
qed

lemma word_add_gt_iff:
  fixes a b :: ulong
  shows "a + b > a \<longleftrightarrow> b \<noteq> 0 \<and> unat a + unat b < 2 ^ 64"
proof (cases "unat a + unat b < 2 ^ 64")
  case True
  then have "unat (a + b) = unat a + unat b"
    by (simp add: unat_word_ariths)
  with True show ?thesis
    by (auto simp: word_less_nat_alt unat_gt_0)
next
  case False
  then have "unat (a + b) = unat a + unat b - 2 ^ 64"
    using unat_bound [of a] unat_bound [of b] by (simp add: unat_word_ariths mod_if)
  then show ?thesis
    using False unat_bound [of b] by (auto simp: word_less_nat_alt)
qed

text \<open>
  C29. The result of \<open>hist_sample\<close> on a well-formed histogram: it is 0 exactly for a sample
  inside the buckets, and the flag \<open>HIST_OVERFLOW_MAG\<close> is set exactly when the sample is
  past the end and the sum of the distances would not grow: it would exceed \<open>2 ^ 64 - 1\<close>,
  or the distance is 0 because the sample lies in the first bucket past the end.
\<close>

theorem hist_sample_result:
  assumes "hist_wf h"
  shows "\<exists>h' r. hist_sample h s = Inr (h', r)
    \<and> (r = 0 \<longleftrightarrow> s div h_width h < h_num h)
    \<and> (r AND HIST_OVERFLOW_MAG \<noteq> 0 \<longleftrightarrow> h_num h \<le> s div h_width h
         \<and> (s div h_width h = h_num h
            \<or> 2 ^ 64 \<le> unat (h_oflow_magnitude h) + unat (s div h_width h - h_num h)))
    \<and> (r AND HIST_OVERFLOW_LOG \<noteq> 0 \<longleftrightarrow> h_num h \<le> s div h_width h
         \<and> h_oflows h \<noteq> None \<and> h_oflow_bufsize h \<le> h_oflow_count h)"
proof (cases "s div h_width h < h_num h")
  case True
  then show ?thesis
    using hist_sample_in_bucket [OF assms True] by (auto simp: not_le)
next
  case False
  let ?e = "s div h_width h - h_num h"
  have e0: "?e = 0 \<longleftrightarrow> s div h_width h = h_num h" by simp
  show ?thesis
  proof (cases "h_oflows h")
    case None
    then show ?thesis
      using False e0 hist_sample_past_end [OF assms False]
      by (auto simp: hist_overflow_def Let_def word_add_gt_iff not_less
          HIST_OVERFLOW_def HIST_OVERFLOW_MAG_def HIST_OVERFLOW_LOG_def)
  next
    case (Some os)
    with assms have "length os = unat (h_oflow_bufsize h)"
      by (simp add: hist_wf_def)
    then have *: "h_oflow_count h < h_oflow_bufsize h \<Longrightarrow> unat (h_oflow_count h) < length os"
      by (simp add: word_less_nat_alt)
    with Some show ?thesis
      using False e0 hist_sample_past_end [OF assms False]
      by (auto simp: hist_overflow_def Let_def word_add_gt_iff not_less
          HIST_OVERFLOW_def HIST_OVERFLOW_MAG_def HIST_OVERFLOW_LOG_def split: if_splits)
  qed
qed

theorem hist_sample_result_witness:
  "hist_wf sample_hist
    \<and> (\<exists>h'. hist_sample sample_hist 30 = Inr (h', HIST_OVERFLOW OR HIST_OVERFLOW_MAG))"
proof -
  have wf: "hist_wf sample_hist"
    by (simp add: hist_eval hist_wf_def)
  obtain h' r where "hist_sample sample_hist 30 = Inr (h', r)"
    "r AND HIST_OVERFLOW_MAG \<noteq> 0"
    using hist_sample_result [OF wf, of 30] by (auto simp: hist_eval)
  then show ?thesis
    using wf by (auto simp: hist_eval HIST_OVERFLOW_def HIST_OVERFLOW_MAG_def)
qed

subsection \<open>Initialisation of a set\<close>

definition hist_ready :: "ulong \<Rightarrow> ulong \<Rightarrow> histogram \<Rightarrow> bool" where
  "hist_ready bw nb h \<longleftrightarrow> hist_balanced h \<and> h_width h = bw \<and> h_num h = nb \<and> h_events h = 0"

lemma hset_init_loop_ready:
  assumes "bw \<noteq> 0" and "hset_init_loop ok bw nb ovf done n = Inr ds"
    and "\<forall>h \<in> set done. hist_ready bw nb h"
  shows "length ds = length done + n \<and> (\<forall>h \<in> set ds. hist_ready bw nb h)"
  using assms(2,3)
proof (induction n arbitrary: "done")
  case 0
  then show ?case by simp
next
  case (Suc n)
  obtain h r where h: "hist_init (ok (Buckets (length done))) bw nb = (h, r)"
    by fastforce
  have "r = 0"
    by (rule ccontr) (use Suc.prems(1) h in simp)
  note fresh = hist_init_fresh [OF h [unfolded \<open>r = 0\<close>] assms(1)]
  have "hist_ready bw nb h"
    using fresh(1-4) by (simp add: hist_ready_def)
  show ?case
  proof (cases "ovf = 0")
    case True
    then have "hset_init_loop ok bw nb ovf (done @ [h]) n = Inr ds"
      using Suc.prems(1) h \<open>r = 0\<close> by simp
    from Suc.IH [OF this] Suc.prems(2) \<open>hist_ready bw nb h\<close> show ?thesis
      by auto
  next
    case False
    obtain h' r' where h': "hist_init_oflow (ok (Oflows (length done))) h ovf = (h', r')"
      by fastforce
    have "r' = 0"
      by (rule ccontr) (use Suc.prems(1) h h' \<open>r = 0\<close> False in simp)
    have rest: "hset_init_loop ok bw nb ovf (done @ [h']) n = Inr ds"
      using Suc.prems(1) h h' \<open>r = 0\<close> \<open>r' = 0\<close> False by simp
    note fresh' = hist_init_oflow_fresh [OF h' [unfolded \<open>r' = 0\<close>] fresh(1,5)]
    have "hist_ready bw nb h'"
      using fresh(2-4) fresh'(1-5) by (simp add: hist_ready_def)
    with Suc.IH [OF rest] Suc.prems(2) show ?thesis
      by auto
  qed
qed

text \<open>
  \<open>hset_init\<close> with a non-zero number of histograms and a non-zero width either returns
  0 with an array of exactly that many histograms, all empty, balanced and of the asked
  geometry, or it returns \<open>-ENOMEM\<close> and leaves the array pointer null: no partly
  initialised set is ever visible.
\<close>

theorem hset_init_all_or_nothing:
  assumes "nh \<noteq> 0" and "bw \<noteq> 0" and "hset_init ok hs nh bw nb ovf = (hs', r)"
  shows "(r = 0 \<and> (\<exists>ds. hs_histos hs' = Some ds \<and> length ds = unat nh
            \<and> (\<forall>h \<in> set ds. hist_ready bw nb h)))
         \<or> (r = - ENOMEM \<and> hs_histos hs' = None)"
proof (cases "ok Histos")
  case False
  with assms show ?thesis by (auto simp: hset_init_def Let_def)
next
  case ok: True
  show ?thesis
  proof (cases "hset_init_loop ok bw nb ovf [] (unat nh)")
    case (Inl ds)
    with ok assms show ?thesis by (auto simp: hset_init_def hset_destroy_def Let_def)
  next
    case (Inr ds)
    with ok assms have "r = 0" "hs_histos hs' = Some ds"
      by (auto simp: hset_init_def Let_def)
    with hset_init_loop_ready [OF assms(2) Inr] show ?thesis by simp
  qed
qed

theorem hset_init_all_or_nothing_witness:
  "let (hs', r) = hset_init (\<lambda>_. True) \<lparr>hs_histos = None, hs_num_histos = 0, hs_num_buckets = 0\<rparr> 1 1 4 4
   in r = 0 \<and> (\<exists>ds. hs_histos hs' = Some ds \<and> length ds = 1)"
proof -
  let ?hs = "\<lparr>hs_histos = None, hs_num_histos = 0, hs_num_buckets = 0\<rparr>"
  obtain hs' r where i: "hset_init (\<lambda>_. True) ?hs 1 1 4 4 = (hs', r)"
    by fastforce
  have "r = 0"
    using i by (auto simp: hset_init_def hist_eval)
  moreover have "\<exists>ds. hs_histos hs' = Some ds \<and> length ds = 1"
    using hset_init_all_or_nothing [OF _ _ i] \<open>r = 0\<close> by (auto simp: ENOMEM_def)
  ultimately show ?thesis using i by simp
qed

end
