(* ===== verification/Timespec.thy ===== *)
theory Timespec
  imports Prelude
begin

text \<open>
  Times as seconds and nanoseconds: the timespec handler of the RTEMS score
  (\<^verbatim>\<open>cpukit/score/src/timespec*.c\<close>), the coding of times as watchdog ticks
  (\<^verbatim>\<open>cpukit/include/rtems/score/watchdogimpl.h\<close>) and the time helpers of rt-tests
  (\<^verbatim>\<open>rt-tests-2.10/src/include/rt-utils.h\<close>).

  \<open>time_t\<close>, \<open>long\<close> and \<open>int64_t\<close> are 64 bits wide; their arithmetic is exact as long
  as it does not overflow (overflow is undefined in C), so it is done on \<open>int\<close>; an
  overflow is not flagged as a fault.
  Unsigned arithmetic wraps around and the wrap-around is written out.
\<close>

section \<open>The score handler\<close>

record timespec =
  tv_sec :: int
  tv_nsec :: int

definition TOD_NANOSECONDS_PER_SECOND :: int where
  "TOD_NANOSECONDS_PER_SECOND = 1000000000"

definition TOD_MICROSECONDS_PER_SECOND :: int where
  "TOD_MICROSECONDS_PER_SECOND = 1000000"

definition TOD_NANOSECONDS_PER_MICROSECOND :: int where
  "TOD_NANOSECONDS_PER_MICROSECOND = 1000"

lemmas tod_consts = TOD_NANOSECONDS_PER_SECOND_def TOD_MICROSECONDS_PER_SECOND_def
  TOD_NANOSECONDS_PER_MICROSECOND_def

text \<open>
  The normalising loop of \<open>_Timespec_Add_to\<close>: it moves whole seconds from the
  nanoseconds \<open>n\<close> to both second counters.
\<close>

function add_to_loop :: "int \<Rightarrow> int \<Rightarrow> int \<Rightarrow> int \<times> int \<times> int" where
  "add_to_loop s n secs =
     (if n \<ge> TOD_NANOSECONDS_PER_SECOND
      then add_to_loop (s + 1) (n - TOD_NANOSECONDS_PER_SECOND) (secs + 1)
      else (s, n, secs))"
  by pat_completeness auto
termination
  by (relation "measure (\<lambda>(s, n, secs). nat n)") (auto simp: tod_consts)

declare add_to_loop.simps [simp del]

definition Timespec_Add_to :: "timespec \<Rightarrow> timespec \<Rightarrow> timespec \<times> int" where
  "Timespec_Add_to time add =
     (let (s, n, seconds) =
        add_to_loop (tv_sec time + tv_sec add) (tv_nsec time + tv_nsec add) (tv_sec add)
      in (\<lparr>tv_sec = s, tv_nsec = n\<rparr>, seconds))"

definition Timespec_Divide :: "timespec \<Rightarrow> timespec \<Rightarrow> int \<times> int" where
  "Timespec_Divide lhs rhs =
     (let left = u64 (u64 (tv_sec lhs * TOD_NANOSECONDS_PER_SECOND) + tv_nsec lhs);
          right = u64 (u64 (tv_sec rhs * TOD_NANOSECONDS_PER_SECOND) + tv_nsec rhs)
      in if right = 0 then (0, 0)
         else
           let answer = u64 (left * 100000) div right
           in (u32 (answer div 1000), u32 (answer mod 1000)))"

definition Timespec_Divide_by_integer :: "timespec \<Rightarrow> int \<Rightarrow> timespec checked" where
  "Timespec_Divide_by_integer time iterations =
     (let t = u64 (tv_sec time);
          t = u64 (t * TOD_NANOSECONDS_PER_SECOND);
          t = u64 (t + tv_nsec time)
      in if iterations = 0 then Inl Division_By_Zero
         else
           let t = t div iterations
           in Inr \<lparr>tv_sec = t div TOD_NANOSECONDS_PER_SECOND,
                   tv_nsec = t mod TOD_NANOSECONDS_PER_SECOND\<rparr>)"

text \<open>The configured length of a clock tick is an argument: \<open>us_per_tick\<close>, \<open>ns_per_tick\<close>.\<close>

definition Timespec_From_ticks :: "int \<Rightarrow> int \<Rightarrow> timespec" where
  "Timespec_From_ticks us_per_tick ticks =
     (let usecs = u32 (ticks * us_per_tick)
      in \<lparr>tv_sec = usecs div TOD_MICROSECONDS_PER_SECOND,
          tv_nsec = u32 ((usecs mod TOD_MICROSECONDS_PER_SECOND) * TOD_NANOSECONDS_PER_MICROSECOND)\<rparr>)"

definition Timespec_To_ticks :: "int \<Rightarrow> int \<Rightarrow> timespec \<Rightarrow> int" where
  "Timespec_To_ticks ticks_per_second ns_per_tick time =
     (if tv_sec time = 0 \<and> tv_nsec time = 0 then 0
      else
        let ticks = u32 (tv_sec time * ticks_per_second);
            ticks = u32 (ticks + cdiv (tv_nsec time) ns_per_tick)
        in if cmod (tv_nsec time) ns_per_tick \<noteq> 0 then u32 (ticks + 1) else ticks)"

definition Timespec_Get_as_nanoseconds :: "timespec \<Rightarrow> int" where
  "Timespec_Get_as_nanoseconds time = u64 (u64 (u64 (tv_sec time) * 1000000000) + tv_nsec time)"

definition Timespec_Is_non_negative :: "timespec \<Rightarrow> bool" where
  "Timespec_Is_non_negative time =
     (if tv_sec time < 0 then False else if tv_nsec time < 0 then False else True)"

definition Timespec_Is_valid :: "timespec option \<Rightarrow> bool" where
  "Timespec_Is_valid time =
     (case time of
        None \<Rightarrow> False
      | Some t \<Rightarrow>
          if tv_sec t < 0 then False
          else if tv_nsec t < 0 then False
          else if tv_nsec t \<ge> TOD_NANOSECONDS_PER_SECOND then False
          else True)"

definition Timespec_Less_than :: "timespec \<Rightarrow> timespec \<Rightarrow> bool" where
  "Timespec_Less_than lhs rhs =
     (if tv_sec lhs < tv_sec rhs then True
      else if tv_sec lhs > tv_sec rhs then False
      else if tv_nsec lhs < tv_nsec rhs then True
      else False)"

definition Timespec_Subtract :: "timespec \<Rightarrow> timespec \<Rightarrow> timespec" where
  "Timespec_Subtract start stop =
     (if tv_nsec stop < tv_nsec start
      then \<lparr>tv_sec = tv_sec stop - tv_sec start - 1,
            tv_nsec = (TOD_NANOSECONDS_PER_SECOND - tv_nsec start) + tv_nsec stop\<rparr>
      else \<lparr>tv_sec = tv_sec stop - tv_sec start,
            tv_nsec = tv_nsec stop - tv_nsec start\<rparr>)"

section \<open>Watchdog ticks\<close>

definition WATCHDOG_MAX_SECONDS :: int where
  "WATCHDOG_MAX_SECONDS = 0x3ffffffff"

definition INT64_MAX :: int where
  "INT64_MAX = 2 ^ 63 - 1"

definition Watchdog_Is_valid_timespec :: "timespec option \<Rightarrow> bool" where
  "Watchdog_Is_valid_timespec ts =
     (case ts of None \<Rightarrow> False | Some t \<Rightarrow> u64 (tv_nsec t) < 1000000000)"

definition Watchdog_Is_valid_interval_timespec :: "timespec option \<Rightarrow> bool" where
  "Watchdog_Is_valid_interval_timespec ts =
     (Watchdog_Is_valid_timespec ts \<and> tv_sec (the ts) \<ge> 0)"

definition Watchdog_Future_timespec :: "timespec \<Rightarrow> timespec option \<Rightarrow> timespec option" where
  "Watchdog_Future_timespec now delta =
     (if \<not> Watchdog_Is_valid_interval_timespec delta then None
      else
        let sec = u64 (tv_sec now);
            sec = u64 (sec + u64 (tv_sec (the delta)));
            nsec = tv_nsec now + tv_nsec (the delta);
            (nsec, sec) = (if nsec \<ge> 1000000000 then (nsec - 1000000000, u64 (sec + 1)) else (nsec, sec))
        in Some \<lparr>tv_sec = (if sec \<le> INT64_MAX then sec else INT64_MAX), tv_nsec = nsec\<rparr>)"

definition Watchdog_Is_far_future_timespec :: "timespec \<Rightarrow> bool" where
  "Watchdog_Is_far_future_timespec ts \<longleftrightarrow> tv_sec ts > WATCHDOG_MAX_SECONDS"

unbundle bit_operations_syntax

definition Watchdog_Ticks_from_seconds :: "uint32 \<Rightarrow> ulong" where
  "Watchdog_Ticks_from_seconds seconds = push_bit 30 (ucast seconds)"

definition Watchdog_Ticks_from_timespec :: "timespec \<Rightarrow> ulong" where
  "Watchdog_Ticks_from_timespec ts =
     push_bit 30 (word_of_int (tv_sec ts)) OR ucast (word_of_int (tv_nsec ts) :: uint32)"

definition Watchdog_Ticks_to_timespec :: "ulong \<Rightarrow> timespec" where
  "Watchdog_Ticks_to_timespec ticks =
     \<lparr>tv_sec = uint (drop_bit 30 ticks), tv_nsec = uint (ticks AND (push_bit 30 1 - 1))\<rparr>"

section \<open>The helpers of rt-tests\<close>

definition NSEC_PER_SEC :: int where
  "NSEC_PER_SEC = 1000000000"

definition USEC_PER_SEC :: int where
  "USEC_PER_SEC = 1000000"

function tsnorm :: "timespec \<Rightarrow> timespec" where
  "tsnorm ts =
     (if tv_nsec ts \<ge> NSEC_PER_SEC
      then tsnorm (ts\<lparr>tv_nsec := tv_nsec ts - NSEC_PER_SEC, tv_sec := tv_sec ts + 1\<rparr>)
      else ts)"
  by pat_completeness auto
termination
  by (relation "measure (\<lambda>ts. nat (tv_nsec ts))") (auto simp: NSEC_PER_SEC_def)

declare tsnorm.simps [simp del]

definition tsgreater :: "timespec \<Rightarrow> timespec \<Rightarrow> bool" where
  "tsgreater a b \<longleftrightarrow>
     tv_sec a > tv_sec b \<or> (tv_sec a = tv_sec b \<and> tv_nsec a > tv_nsec b)"

definition calcdiff :: "timespec \<Rightarrow> timespec \<Rightarrow> int" where
  "calcdiff t1 t2 =
     USEC_PER_SEC * (s32 (tv_sec t1) - s32 (tv_sec t2))
       + cdiv (s32 (tv_nsec t1) - s32 (tv_nsec t2)) 1000"

definition calcdiff_ns :: "timespec \<Rightarrow> timespec \<Rightarrow> int" where
  "calcdiff_ns t1 t2 =
     NSEC_PER_SEC * (s32 (tv_sec t1) - s32 (tv_sec t2))
       + (s32 (tv_nsec t1) - s32 (tv_nsec t2))"

definition calctime :: "timespec \<Rightarrow> int" where
  "calctime t = USEC_PER_SEC * tv_sec t + cdiv (s32 (tv_nsec t)) 1000"

section \<open>Specification: times as nanoseconds\<close>

text \<open>
  Two timespecs denote the same point of time if they have the same number of
  nanoseconds; a normal one has its nanoseconds in range.
\<close>

definition ns :: "timespec \<Rightarrow> int" where
  "ns t = tv_sec t * 1000000000 + tv_nsec t"

definition normal :: "timespec \<Rightarrow> bool" where
  "normal t \<longleftrightarrow> 0 \<le> tv_nsec t \<and> tv_nsec t < 1000000000"

definition of_ns :: "int \<Rightarrow> timespec" where
  "of_ns n = \<lparr>tv_sec = n div 1000000000, tv_nsec = n mod 1000000000\<rparr>"

named_theorems time_simps \<open>timespec operations in terms of nanoseconds\<close>

lemma of_ns_ns [time_simps]: "normal t \<Longrightarrow> of_ns (ns t) = t"
  by (simp add: of_ns_def ns_def normal_def)

lemma ns_of_ns [simp]: "ns (of_ns n) = n"
  by (simp add: of_ns_def ns_def)

lemma normal_of_ns [simp]: "normal (of_ns n)"
  by (simp add: of_ns_def normal_def)

lemma of_ns_split:
  "of_ns (s * 1000000000 + n) = \<lparr>tv_sec = s + n div 1000000000, tv_nsec = n mod 1000000000\<rparr>"
  by (simp add: of_ns_def)

lemma of_ns_carry:
  assumes "0 \<le> n" and "n < 2000000000"
  shows "of_ns (s * 1000000000 + n) =
    (if n \<ge> 1000000000 then \<lparr>tv_sec = s + 1, tv_nsec = n - 1000000000\<rparr>
     else \<lparr>tv_sec = s, tv_nsec = n\<rparr>)"
proof (cases "n \<ge> 1000000000")
  case True
  have r: "0 \<le> n - 1000000000" "n - 1000000000 < 1000000000"
    using True assms by simp_all
  have "of_ns ((s + 1) * 1000000000 + (n - 1000000000)) = \<lparr>tv_sec = s + 1, tv_nsec = n - 1000000000\<rparr>"
    by (simp only: of_ns_split div_pos_pos_trivial [OF r] mod_pos_pos_trivial [OF r]) simp
  with True show ?thesis by (simp add: algebra_simps)
next
  case False
  with assms show ?thesis unfolding of_ns_split by simp
qed

lemma normal_eqI: "normal a \<Longrightarrow> normal b \<Longrightarrow> ns a = ns b \<Longrightarrow> a = b"
  using of_ns_ns by metis

lemma normal_less_iff:
  assumes "normal a" "normal b"
  shows "ns a < ns b \<longleftrightarrow> tv_sec a < tv_sec b \<or> (tv_sec a = tv_sec b \<and> tv_nsec a < tv_nsec b)"
  using assms by (cases "tv_sec a" "tv_sec b" rule: linorder_cases) (auto simp: ns_def normal_def)

lemma add_to_loop_eq:
  "0 \<le> n \<Longrightarrow> add_to_loop s n secs
     = (s + n div 1000000000, n mod 1000000000, secs + n div 1000000000)"
proof (induction s n secs rule: add_to_loop.induct)
  case (1 s n secs)
  show ?case
  proof (cases "n \<ge> 1000000000")
    case True
    have "n div 1000000000 = (n - 1000000000) div 1000000000 + 1"
      "(n - 1000000000) mod 1000000000 = n mod 1000000000"
      using div_add_self2 [of 1000000000 "n - 1000000000"] mod_add_self2 [of "n - 1000000000" 1000000000]
      by simp_all
    with True "1.IH" show ?thesis
      by (subst add_to_loop.simps) (simp add: tod_consts)
  next
    case False
    with "1.prems" show ?thesis
      by (subst add_to_loop.simps) (simp add: tod_consts)
  qed
qed

lemma tsnorm_eq: "0 \<le> tv_nsec t \<Longrightarrow> tsnorm t = of_ns (ns t)"
proof (induction t rule: tsnorm.induct)
  case (1 t)
  show ?case
  proof (cases "tv_nsec t \<ge> 1000000000")
    case True
    with "1.IH" show ?thesis
      by (subst tsnorm.simps) (simp add: NSEC_PER_SEC_def ns_def algebra_simps)
  next
    case False
    with "1.prems" show ?thesis
      by (subst tsnorm.simps) (simp add: NSEC_PER_SEC_def ns_def of_ns_def)
  qed
qed

lemma ns_tsnorm [time_simps]: "0 \<le> tv_nsec t \<Longrightarrow> ns (tsnorm t) = ns t"
  by (simp add: tsnorm_eq)

lemma normal_tsnorm [time_simps]: "0 \<le> tv_nsec t \<Longrightarrow> normal (tsnorm t)"
  by (simp add: tsnorm_eq)

lemma tsgreater_iff [time_simps]: "normal a \<Longrightarrow> normal b \<Longrightarrow> tsgreater a b \<longleftrightarrow> ns b < ns a"
  by (auto simp: tsgreater_def normal_less_iff)

section \<open>Properties of the score handler\<close>

lemma Timespec_Add_to_ns:
  assumes "0 \<le> tv_nsec a + tv_nsec b" and "Timespec_Add_to a b = (c, k)"
  shows "c = of_ns (ns a + ns b)" "k = tv_sec c - tv_sec a"
proof -
  have "of_ns (ns a + ns b)
      = of_ns ((tv_sec a + tv_sec b) * 1000000000 + (tv_nsec a + tv_nsec b))"
    by (rule arg_cong [of _ _ of_ns]) (simp add: ns_def algebra_simps)
  also note of_ns_split
  finally have sum: "of_ns (ns a + ns b) = \<lparr>tv_sec = tv_sec a + tv_sec b
      + (tv_nsec a + tv_nsec b) div 1000000000, tv_nsec = (tv_nsec a + tv_nsec b) mod 1000000000\<rparr>" .
  show "c = of_ns (ns a + ns b)" "k = tv_sec c - tv_sec a"
    using assms unfolding sum by (auto simp: Timespec_Add_to_def add_to_loop_eq Let_def)
qed

lemma Timespec_Subtract_ns:
  assumes "normal a" "normal b"
  shows "ns (Timespec_Subtract a b) = ns b - ns a" "normal (Timespec_Subtract a b)"
  using assms by (auto simp: Timespec_Subtract_def ns_def normal_def tod_consts)

lemma Timespec_Is_valid_iff:
  "Timespec_Is_valid (Some t) \<longleftrightarrow> normal t \<and> 0 \<le> ns t"
  by (auto simp: Timespec_Is_valid_def normal_def ns_def tod_consts)

text \<open>
  C30. Arithmetic of the timespec handler against integer nanoseconds: for normal times the
  comparison is the order of the nanoseconds, the sum is the normal time of the sum and
  returns the seconds by which the first operand advanced, and subtracting the first
  operand from the sum gives the second one back.
\<close>

theorem Timespec_arithmetic:
  assumes "normal a" and "normal b"
  shows "(Timespec_Less_than a b \<longleftrightarrow> ns a < ns b)
    \<and> (fst (Timespec_Add_to a b) = of_ns (ns a + ns b))
    \<and> (tv_sec (fst (Timespec_Add_to a b)) = tv_sec a + snd (Timespec_Add_to a b))
    \<and> (Timespec_Subtract a (fst (Timespec_Add_to a b)) = b)
    \<and> (Timespec_Subtract a b = of_ns (ns b - ns a))"
proof (intro conjI)
  obtain c k where ck: "Timespec_Add_to a b = (c, k)" by fastforce
  have nn: "0 \<le> tv_nsec a + tv_nsec b"
    using assms by (simp add: normal_def)
  note add = Timespec_Add_to_ns [OF nn ck]
  show "Timespec_Less_than a b \<longleftrightarrow> ns a < ns b"
    using assms by (auto simp: Timespec_Less_than_def normal_less_iff)
  show "fst (Timespec_Add_to a b) = of_ns (ns a + ns b)"
    "tv_sec (fst (Timespec_Add_to a b)) = tv_sec a + snd (Timespec_Add_to a b)"
    using add ck by simp_all
  have "normal c" using add(1) by simp
  show "Timespec_Subtract a (fst (Timespec_Add_to a b)) = b"
    using Timespec_Subtract_ns [OF assms(1) \<open>normal c\<close>] add(1) ck assms(2)
    by (intro normal_eqI) simp_all
  show "Timespec_Subtract a b = of_ns (ns b - ns a)"
    using Timespec_Subtract_ns [OF assms] by (intro normal_eqI) simp_all
qed

definition noon :: timespec where
  "noon = \<lparr>tv_sec = 43200, tv_nsec = 999999999\<rparr>"

theorem Timespec_arithmetic_witness:
  "fst (Timespec_Add_to noon noon) = \<lparr>tv_sec = 86401, tv_nsec = 999999998\<rparr>
    \<and> Timespec_Subtract noon (fst (Timespec_Add_to noon noon)) = noon"
proof -
  have n: "normal noon" by (simp add: noon_def normal_def)
  show ?thesis
    using Timespec_arithmetic [OF n n] by (auto simp: of_ns_def ns_def noon_def)
qed

lemma ceiling_step:
  fixes x :: int
  assumes "p * n = x + (if r = 0 then 0 else n)" and "0 \<le> r" and "r < n"
  shows "x + r \<le> p * n \<and> (p - 1) * n < x + r"
  using assms by (auto simp: left_diff_distrib split: if_splits)

text \<open>
  C31. Conversion to clock ticks rounds up: if the tick length divides a second and the
  result fits 32 bits, \<open>_Timespec_To_ticks\<close> is the least number of ticks that is not
  shorter than the interval.
\<close>

theorem Timespec_To_ticks_ceiling:
  assumes "normal t" and "0 \<le> tv_sec t" and "0 < npt" and "tps * npt = 1000000000"
    and "tv_sec t * tps + tps < 2 ^ 32"
  shows "ns t \<le> Timespec_To_ticks tps npt t * npt
    \<and> (Timespec_To_ticks tps npt t - 1) * npt < ns t"
proof -
  let ?n = "tv_nsec t"
  have tps: "0 < tps"
    using assms(3,4) by (metis zero_less_mult_pos2 zero_less_numeral)
  have n: "0 \<le> ?n" "?n < tps * npt"
    using assms(1,4) by (simp_all add: normal_def)
  have q: "?n div npt < tps"
  proof (rule ccontr)
    assume "\<not> ?thesis"
    then have "tps * npt \<le> (?n div npt) * npt"
      using assms(3) by simp
    also have "\<dots> \<le> ?n"
      using div_mult_mod_eq [of ?n npt] pos_mod_sign [OF assms(3), of ?n] by linarith
    finally show False using n by simp
  qed
  have q0: "0 \<le> ?n div npt"
    using n(1) assms(3) by (simp add: pos_imp_zdiv_nonneg_iff)
  have st: "0 \<le> tv_sec t * tps"
    using assms(2) tps by simp
  have split: "?n = npt * (?n div npt) + ?n mod npt" and m: "0 \<le> ?n mod npt" "?n mod npt < npt"
    using assms(3) by simp_all
  have ticks: "Timespec_To_ticks tps npt t
      = tv_sec t * tps + ?n div npt + (if ?n mod npt = 0 then 0 else 1)"
    using n(1) assms(3,5) q q0 st
    by (auto simp: Timespec_To_ticks_def Let_def cdiv_pos cmod_pos u32_id)
  have "ns t = (tv_sec t * tps + ?n div npt) * npt + ?n mod npt"
    using split assms(4) by (simp add: ns_def algebra_simps)
  moreover have "(Timespec_To_ticks tps npt t) * npt = (tv_sec t * tps + ?n div npt) * npt
      + (if ?n mod npt = 0 then 0 else npt)"
    unfolding ticks by (simp add: distrib_right)
  ultimately show ?thesis
    using m ceiling_step by metis
qed

theorem Timespec_To_ticks_ceiling_witness:
  "ns noon \<le> Timespec_To_ticks 100 10000000 noon * 10000000
    \<and> Timespec_To_ticks 100 10000000 noon = 4320100"
proof -
  have "ns noon \<le> Timespec_To_ticks 100 10000000 noon * 10000000"
    by (rule Timespec_To_ticks_ceiling [THEN conjunct1]) (simp_all add: noon_def normal_def)
  then show ?thesis
    by (simp add: Timespec_To_ticks_def noon_def cdiv_pos cmod_pos u32_def Let_def)
qed

section \<open>Properties of the watchdog coding\<close>

lemma Ticks_from_timespec_uint:
  assumes "normal t" and "0 \<le> tv_sec t" and "\<not> Watchdog_Is_far_future_timespec t"
  shows "uint (Watchdog_Ticks_from_timespec t) = tv_sec t * 2 ^ 30 + tv_nsec t"
proof -
  let ?s = "word_of_int (tv_sec t) :: ulong" and ?n = "word_of_int (tv_nsec t) :: uint32"
  have s: "0 \<le> tv_sec t" "tv_sec t < 2 ^ 34"
    using assms by (simp_all add: Watchdog_Is_far_future_timespec_def WATCHDOG_MAX_SECONDS_def)
  have n: "0 \<le> tv_nsec t" "tv_nsec t < 2 ^ 30"
    using assms(1) by (simp_all add: normal_def)
  have us: "uint (push_bit 30 ?s) = tv_sec t * 2 ^ 30"
  proof -
    have "uint ?s = tv_sec t"
      using s by (simp add: unsigned_of_int take_bit_int_eq_self)
    then have "uint (push_bit 30 ?s) = take_bit 64 (push_bit 30 (tv_sec t))"
      by (simp only: unsigned_push_bit_eq) simp
    also have "\<dots> = push_bit 30 (tv_sec t)"
      using s by (intro take_bit_int_eq_self) (simp_all add: push_bit_eq_mult)
    finally show ?thesis by (simp add: push_bit_eq_mult)
  qed
  have un: "uint (ucast ?n :: ulong) = tv_nsec t"
    using n by (simp add: unsigned_ucast_eq unsigned_of_int take_bit_int_eq_self)
  have disj: "(tv_sec t * 2 ^ 30) AND tv_nsec t = 0"
  proof (rule bit_eqI)
    fix k
    have "bit (push_bit 30 (tv_sec t)) k \<Longrightarrow> 30 \<le> k"
      by (simp add: bit_push_bit_iff_int)
    moreover have "tv_nsec t = take_bit 30 (tv_nsec t)"
      using n by (simp add: take_bit_int_eq_self)
    then have "bit (tv_nsec t) k \<Longrightarrow> k < 30"
      by (metis bit_take_bit_iff)
    ultimately show "bit ((tv_sec t * 2 ^ 30) AND tv_nsec t) k = bit (0 :: int) k"
      by (auto simp: bit_and_iff push_bit_eq_mult)
  qed
  have "uint (push_bit 30 ?s OR ucast ?n) = (tv_sec t * 2 ^ 30) OR tv_nsec t"
    by (simp add: unsigned_or_eq us un)
  also have "\<dots> = tv_sec t * 2 ^ 30 + tv_nsec t"
    using disj by (simp add: disjunctive_add_eq_or)
  finally show ?thesis
    by (simp add: Watchdog_Ticks_from_timespec_def)
qed

definition codable :: "timespec \<Rightarrow> bool" where
  "codable t \<longleftrightarrow> normal t \<and> 0 \<le> tv_sec t \<and> \<not> Watchdog_Is_far_future_timespec t"

text \<open>
  C32. The coding of a time as watchdog ticks keeps the order and loses nothing: for the
  times the code admits (normal, not negative, not in the far future) comparing the 64-bit
  tick values is comparing the times, and decoding the ticks gives the time back.
\<close>

theorem Watchdog_Ticks_order_and_roundtrip:
  assumes "codable a" and "codable b"
  shows "(Watchdog_Ticks_from_timespec a < Watchdog_Ticks_from_timespec b \<longleftrightarrow> ns a < ns b)
    \<and> (Watchdog_Ticks_to_timespec (Watchdog_Ticks_from_timespec a) = a)"
proof (intro conjI)
  have u: "uint (Watchdog_Ticks_from_timespec t) = tv_sec t * 2 ^ 30 + tv_nsec t"
    if "codable t" for t
    using that by (intro Ticks_from_timespec_uint) (simp_all add: codable_def)
  have n: "normal a" "normal b"
    using assms by (simp_all add: codable_def)
  then show "Watchdog_Ticks_from_timespec a < Watchdog_Ticks_from_timespec b \<longleftrightarrow> ns a < ns b"
    unfolding word_less_def u [OF assms(1)] u [OF assms(2)] normal_less_iff [OF n]
    by (cases "tv_sec a" "tv_sec b" rule: linorder_cases) (auto simp: normal_def)
  let ?w = "Watchdog_Ticks_from_timespec a"
  have r: "0 \<le> tv_nsec a" "tv_nsec a < 2 ^ 30"
    using n(1) by (simp_all add: normal_def)
  have "uint (drop_bit 30 ?w) = uint ?w div 2 ^ 30"
    by (simp add: uint_div drop_bit_eq_div)
  then have "uint (drop_bit 30 ?w) = tv_sec a"
    using r by (simp add: u [OF assms(1)])
  moreover have "uint (?w AND (push_bit 30 1 - 1)) = uint ?w mod 2 ^ 30"
  proof -
    have "?w AND (push_bit 30 1 - 1) = take_bit 30 ?w"
      by (simp add: take_bit_eq_mask mask_eq_exp_minus_1 push_bit_eq_mult)
    then show ?thesis by (simp add: uint_mod take_bit_eq_mod)
  qed
  ultimately show "Watchdog_Ticks_to_timespec ?w = a"
    using r by (simp add: Watchdog_Ticks_to_timespec_def u [OF assms(1)])
qed

theorem Watchdog_Ticks_order_and_roundtrip_witness:
  "codable noon \<and> Watchdog_Ticks_to_timespec (Watchdog_Ticks_from_timespec noon) = noon"
proof -
  have "codable noon"
    by (simp add: codable_def noon_def normal_def Watchdog_Is_far_future_timespec_def
        WATCHDOG_MAX_SECONDS_def)
  with Watchdog_Ticks_order_and_roundtrip [of noon noon] show ?thesis by simp
qed

text \<open>
  The end of an interval that starts now: for a valid current time after the epoch
  \<open>_Watchdog_Future_timespec\<close> rejects exactly the invalid intervals (null, nanoseconds
  out of range, negative), and otherwise returns a normal time, which is the exact sum or,
  when the sum of the seconds exceeds the 64-bit range, has its seconds saturated.
\<close>

theorem Watchdog_Future_timespec_saturates:
  assumes "normal now" and "0 \<le> tv_sec now" and "tv_sec now \<le> INT64_MAX"
    and "\<forall>d. delta = Some d \<longrightarrow> \<bar>tv_nsec d\<bar> < 2 ^ 63 \<and> tv_sec d \<le> INT64_MAX"
  shows "case delta of
      None \<Rightarrow> Watchdog_Future_timespec now delta = None
    | Some d \<Rightarrow>
        if \<not> (normal d \<and> 0 \<le> tv_sec d) then Watchdog_Future_timespec now delta = None
        else
          let t = of_ns (ns now + ns d)
          in Watchdog_Future_timespec now delta =
               Some (if tv_sec t \<le> INT64_MAX then t else t\<lparr>tv_sec := INT64_MAX\<rparr>)"
proof (cases delta)
  case None
  then show ?thesis
    by (simp add: Watchdog_Future_timespec_def Watchdog_Is_valid_interval_timespec_def
        Watchdog_Is_valid_timespec_def)
next
  case (Some d)
  have d: "\<bar>tv_nsec d\<bar> < 2 ^ 63" "tv_sec d \<le> INT64_MAX"
    using assms(4) Some by simp_all
  have neg: "u64 (tv_nsec d) = tv_nsec d + 2 ^ 64" if "tv_nsec d < 0"
  proof -
    have "u64 (tv_nsec d) = (tv_nsec d + 2 ^ 64) mod 2 ^ 64"
      by (simp only: u64_def mod_add_self2)
    also have "\<dots> = tv_nsec d + 2 ^ 64"
      using d(1) that by (intro mod_pos_pos_trivial) simp_all
    finally show ?thesis .
  qed
  have valid: "Watchdog_Is_valid_interval_timespec (Some d) \<longleftrightarrow> normal d \<and> 0 \<le> tv_sec d"
    using d neg by (cases "tv_nsec d < 0")
      (auto simp: Watchdog_Is_valid_interval_timespec_def Watchdog_Is_valid_timespec_def normal_def u64_id)
  show ?thesis
  proof (cases "normal d \<and> 0 \<le> tv_sec d")
    case False
    then show ?thesis
      using Some valid by (auto simp: Watchdog_Future_timespec_def)
  next
    case True
    let ?s = "tv_sec now + tv_sec d" and ?n = "tv_nsec now + tv_nsec d"
    have "of_ns (ns now + ns d) = of_ns (?s * 1000000000 + ?n)"
      by (rule arg_cong [of _ _ of_ns]) (simp add: ns_def algebra_simps)
    also have "\<dots> = (if ?n \<ge> 1000000000 then \<lparr>tv_sec = ?s + 1, tv_nsec = ?n - 1000000000\<rparr>
           else \<lparr>tv_sec = ?s, tv_nsec = ?n\<rparr>)"
      using assms(1) True by (intro of_ns_carry) (simp_all add: normal_def)
    finally have t: "of_ns (ns now + ns d) = \<dots>" .
    have u: "u64 (tv_sec now) = tv_sec now" "u64 (tv_sec d) = tv_sec d" "u64 ?s = ?s"
        "u64 (?s + 1) = ?s + 1"
      using assms(2,3) True d by (simp_all add: u64_id INT64_MAX_def)
    have f: "Watchdog_Future_timespec now (Some d) =
        (let (nsec, sec) = (if ?n \<ge> 1000000000 then (?n - 1000000000, ?s + 1) else (?n, ?s))
         in Some \<lparr>tv_sec = (if sec \<le> INT64_MAX then sec else INT64_MAX), tv_nsec = nsec\<rparr>)"
      using True unfolding Watchdog_Future_timespec_def valid Let_def by (simp add: u)
    show ?thesis
    proof (cases "?n \<ge> 1000000000")
      case True
      then show ?thesis
        using \<open>normal d \<and> 0 \<le> tv_sec d\<close> unfolding Some f by (simp add: t Let_def)
    next
      case False
      then show ?thesis
        using \<open>normal d \<and> 0 \<le> tv_sec d\<close> unfolding Some f by (simp add: t Let_def)
    qed
  qed
qed

theorem Watchdog_Future_timespec_saturates_witness:
  "Watchdog_Future_timespec noon (Some \<lparr>tv_sec = INT64_MAX, tv_nsec = 0\<rparr>)
    = Some \<lparr>tv_sec = INT64_MAX, tv_nsec = 999999999\<rparr>"
  using Watchdog_Future_timespec_saturates [of noon "Some \<lparr>tv_sec = INT64_MAX, tv_nsec = 0\<rparr>"]
  by (simp add: noon_def normal_def INT64_MAX_def of_ns_def ns_def Let_def)

section \<open>Properties of the rt-tests helpers\<close>

text \<open>
  Latencies: for normal times whose seconds fit a C \<open>int\<close>, \<open>calcdiff_ns\<close> is the exact
  difference in nanoseconds and \<open>calcdiff\<close> the difference in microseconds, off by less
  than one.
\<close>

theorem calcdiff_exact:
  assumes "normal a" and "normal b" and "s32 (tv_sec a) = tv_sec a" and "s32 (tv_sec b) = tv_sec b"
  shows "(calcdiff_ns a b = ns a - ns b)
    \<and> (\<bar>1000 * calcdiff a b - (ns a - ns b)\<bar> < 1000)"
proof (intro conjI)
  have n: "s32 (tv_nsec a) = tv_nsec a" "s32 (tv_nsec b) = tv_nsec b"
    using assms(1,2) by (simp_all add: normal_def s32_id)
  show "calcdiff_ns a b = ns a - ns b"
    using assms n by (simp add: calcdiff_ns_def ns_def NSEC_PER_SEC_def algebra_simps)
  have "1000 * calcdiff a b - (ns a - ns b)
      = 1000 * cdiv (tv_nsec a - tv_nsec b) 1000 - (tv_nsec a - tv_nsec b)"
    using assms n by (simp add: calcdiff_def ns_def USEC_PER_SEC_def algebra_simps)
  then show "\<bar>1000 * calcdiff a b - (ns a - ns b)\<bar> < 1000"
    using cdiv_bounds [of 1000 "tv_nsec a - tv_nsec b"] by simp
qed

theorem calcdiff_exact_witness:
  "calcdiff_ns noon \<lparr>tv_sec = 43199, tv_nsec = 5\<rparr> = 1999999994
    \<and> calcdiff noon \<lparr>tv_sec = 43199, tv_nsec = 5\<rparr> = 1999999"
proof -
  let ?b = "\<lparr>tv_sec = 43199, tv_nsec = 5\<rparr>"
  have n: "normal noon" "normal ?b" "s32 (tv_sec noon) = tv_sec noon" "s32 (tv_sec ?b) = tv_sec ?b"
    by (simp_all add: noon_def normal_def s32_def)
  show ?thesis
    using calcdiff_exact [OF n]
    by (simp add: calcdiff_def ns_def noon_def USEC_PER_SEC_def s32_def cdiv_pos)
qed

end
