(* ===== verification/Status.thy ===== *)
theory Status
  imports Prelude
begin

text \<open>
  Status codes: those of the Classic API (\<^verbatim>\<open>cpukit/include/rtems/rtems/status.h\<close>)
  and the score's own (\<^verbatim>\<open>cpukit/include/rtems/score/status.h\<close>), each score status
  carrying a Classic one in its low byte that \<open>_Status_Get\<close> extracts. The POSIX half of a
  score status is not modelled. \<open>Other_Status\<close> is a value of the C enum without a name.
\<close>

datatype rtems_status_code =
    RTEMS_SUCCESSFUL | RTEMS_TASK_EXITTED | RTEMS_MP_NOT_CONFIGURED | RTEMS_INVALID_NAME
  | RTEMS_INVALID_ID | RTEMS_TOO_MANY | RTEMS_TIMEOUT | RTEMS_OBJECT_WAS_DELETED
  | RTEMS_INVALID_SIZE | RTEMS_INVALID_ADDRESS | RTEMS_INVALID_NUMBER | RTEMS_NOT_DEFINED
  | RTEMS_RESOURCE_IN_USE | RTEMS_UNSATISFIED | RTEMS_INCORRECT_STATE
  | RTEMS_ALREADY_SUSPENDED | RTEMS_ILLEGAL_ON_SELF | RTEMS_ILLEGAL_ON_REMOTE_OBJECT
  | RTEMS_CALLED_FROM_ISR | RTEMS_INVALID_PRIORITY | RTEMS_INVALID_CLOCK
  | RTEMS_INVALID_NODE | RTEMS_NOT_CONFIGURED | RTEMS_NOT_OWNER_OF_RESOURCE
  | RTEMS_NOT_IMPLEMENTED | RTEMS_INTERNAL_ERROR | RTEMS_NO_MEMORY | RTEMS_IO_ERROR
  | RTEMS_INTERRUPTED | RTEMS_PROXY_BLOCKING | Other_Status nat

datatype Status_Control =
    STATUS_BARRIER_AUTOMATICALLY_RELEASED | STATUS_DEADLOCK | STATUS_FLUSHED
  | STATUS_INCORRECT_STATE | STATUS_INTERRUPTED | STATUS_INTERNAL_ERROR
  | STATUS_INVALID_ADDRESS | STATUS_INVALID_ID | STATUS_INVALID_NODE | STATUS_INVALID_NAME
  | STATUS_INVALID_NUMBER | STATUS_INVALID_PRIORITY | STATUS_INVALID_SIZE
  | STATUS_MAXIMUM_COUNT_EXCEEDED | STATUS_MESSAGE_INVALID_SIZE
  | STATUS_MESSAGE_QUEUE_INVALID_NUMBER | STATUS_MESSAGE_QUEUE_INVALID_SIZE
  | STATUS_MESSAGE_QUEUE_NO_MEMORY | STATUS_MESSAGE_QUEUE_WAIT_IN_ISR
  | STATUS_MESSAGE_QUEUE_WAS_DELETED | STATUS_MINUS_ONE | STATUS_MUTEX_CEILING_VIOLATED
  | STATUS_NESTING_NOT_ALLOWED | STATUS_NO_MEMORY | STATUS_NOT_DEFINED | STATUS_NOT_OWNER
  | STATUS_OBJECT_WAS_DELETED | STATUS_PROXY_BLOCKING | STATUS_RESOURCE_IN_USE
  | STATUS_RESULT_TOO_LARGE | STATUS_SUCCESSFUL | STATUS_TIMEOUT | STATUS_TOO_MANY
  | STATUS_UNAVAILABLE | STATUS_UNSATISFIED

fun Status_Get :: "Status_Control \<Rightarrow> rtems_status_code" where
  "Status_Get STATUS_BARRIER_AUTOMATICALLY_RELEASED = RTEMS_SUCCESSFUL"
| "Status_Get STATUS_DEADLOCK = RTEMS_INCORRECT_STATE"
| "Status_Get STATUS_FLUSHED = RTEMS_UNSATISFIED"
| "Status_Get STATUS_INCORRECT_STATE = RTEMS_INCORRECT_STATE"
| "Status_Get STATUS_INTERRUPTED = RTEMS_INTERNAL_ERROR"
| "Status_Get STATUS_INTERNAL_ERROR = RTEMS_INTERNAL_ERROR"
| "Status_Get STATUS_INVALID_ADDRESS = RTEMS_INVALID_ADDRESS"
| "Status_Get STATUS_INVALID_ID = RTEMS_INVALID_ID"
| "Status_Get STATUS_INVALID_NODE = RTEMS_INVALID_NODE"
| "Status_Get STATUS_INVALID_NAME = RTEMS_INVALID_NAME"
| "Status_Get STATUS_INVALID_NUMBER = RTEMS_INVALID_NUMBER"
| "Status_Get STATUS_INVALID_PRIORITY = RTEMS_INVALID_PRIORITY"
| "Status_Get STATUS_INVALID_SIZE = RTEMS_INVALID_SIZE"
| "Status_Get STATUS_MAXIMUM_COUNT_EXCEEDED = RTEMS_UNSATISFIED"
| "Status_Get STATUS_MESSAGE_INVALID_SIZE = RTEMS_INVALID_SIZE"
| "Status_Get STATUS_MESSAGE_QUEUE_INVALID_NUMBER = RTEMS_INVALID_NUMBER"
| "Status_Get STATUS_MESSAGE_QUEUE_INVALID_SIZE = RTEMS_INVALID_SIZE"
| "Status_Get STATUS_MESSAGE_QUEUE_NO_MEMORY = RTEMS_UNSATISFIED"
| "Status_Get STATUS_MESSAGE_QUEUE_WAIT_IN_ISR = RTEMS_INTERNAL_ERROR"
| "Status_Get STATUS_MESSAGE_QUEUE_WAS_DELETED = RTEMS_OBJECT_WAS_DELETED"
| "Status_Get STATUS_MINUS_ONE = Other_Status 255"
| "Status_Get STATUS_MUTEX_CEILING_VIOLATED = RTEMS_INVALID_PRIORITY"
| "Status_Get STATUS_NESTING_NOT_ALLOWED = RTEMS_UNSATISFIED"
| "Status_Get STATUS_NO_MEMORY = RTEMS_NO_MEMORY"
| "Status_Get STATUS_NOT_DEFINED = RTEMS_NOT_DEFINED"
| "Status_Get STATUS_NOT_OWNER = RTEMS_NOT_OWNER_OF_RESOURCE"
| "Status_Get STATUS_OBJECT_WAS_DELETED = RTEMS_OBJECT_WAS_DELETED"
| "Status_Get STATUS_PROXY_BLOCKING = RTEMS_PROXY_BLOCKING"
| "Status_Get STATUS_RESOURCE_IN_USE = RTEMS_RESOURCE_IN_USE"
| "Status_Get STATUS_RESULT_TOO_LARGE = RTEMS_UNSATISFIED"
| "Status_Get STATUS_SUCCESSFUL = RTEMS_SUCCESSFUL"
| "Status_Get STATUS_TIMEOUT = RTEMS_TIMEOUT"
| "Status_Get STATUS_TOO_MANY = RTEMS_TOO_MANY"
| "Status_Get STATUS_UNAVAILABLE = RTEMS_UNSATISFIED"
| "Status_Get STATUS_UNSATISFIED = RTEMS_UNSATISFIED"

end
