(* ===== verification/Calendar.thy ===== *)
theory Calendar
  imports Timespec Status
begin

text \<open>
  The calendar of the Classic API clock manager: validation of a time of day
  (\<^verbatim>\<open>cpukit/rtems/src/clocktodvalidate.c\<close>), its conversion to seconds since the epoch
  (\<^verbatim>\<open>clocktodtoseconds.c\<close>), the conversion of the clock back to a time of day
  (\<^verbatim>\<open>clockgettod.c\<close>), the range check of a new clock value
  (\<^verbatim>\<open>cpukit/score/src/coretodcheck.c\<close>) and the directive that sets the clock
  (\<^verbatim>\<open>clockset.c\<close>). Fields of type \<open>uint32_t\<close> are integers, each assignment
  to one reduced modulo \<open>2 ^ 32\<close>.
\<close>

section \<open>Data\<close>

record rtems_time_of_day =
  year :: int
  month :: int
  day :: int
  hour :: int
  minute :: int
  second :: int
  ticks :: int

definition TOD_SECONDS_PER_MINUTE :: int where "TOD_SECONDS_PER_MINUTE = 60"
definition TOD_MINUTES_PER_HOUR :: int where "TOD_MINUTES_PER_HOUR = 60"
definition TOD_MONTHS_PER_YEAR :: int where "TOD_MONTHS_PER_YEAR = 12"
definition TOD_DAYS_PER_YEAR :: int where "TOD_DAYS_PER_YEAR = 365"
definition TOD_HOURS_PER_DAY :: int where "TOD_HOURS_PER_DAY = 24"
definition TOD_SECONDS_PER_DAY :: int where "TOD_SECONDS_PER_DAY = 86400"
definition TOD_BASE_YEAR :: int where "TOD_BASE_YEAR = 1988"
definition TOD_LATEST_YEAR :: int where "TOD_LATEST_YEAR = 2099"

definition TOD_SECONDS_1970_THROUGH_1988 :: int where
  "TOD_SECONDS_1970_THROUGH_1988 = (1987 - 1970 + 1) * (365 * TOD_SECONDS_PER_DAY) + 4 * TOD_SECONDS_PER_DAY"

definition TOD_SECONDS_1970_THROUGH_2400 :: int where
  "TOD_SECONDS_1970_THROUGH_2400 = 13569465600"

lemmas calendar_consts = TOD_SECONDS_PER_MINUTE_def TOD_MINUTES_PER_HOUR_def
  TOD_MONTHS_PER_YEAR_def TOD_DAYS_PER_YEAR_def TOD_HOURS_PER_DAY_def TOD_SECONDS_PER_DAY_def
  TOD_BASE_YEAR_def TOD_LATEST_YEAR_def TOD_SECONDS_1970_THROUGH_1988_def
  TOD_SECONDS_1970_THROUGH_2400_def

definition TOD_Days_to_date :: "int list list" where
  "TOD_Days_to_date =
     [[0, 0, 31, 60, 91, 121, 152, 182, 213, 244, 274, 305, 335],
      [0, 0, 31, 59, 90, 120, 151, 181, 212, 243, 273, 304, 334]]"

definition TOD_Days_since_last_leap_year :: "int list" where
  "TOD_Days_since_last_leap_year = [0, 366, 731, 1096]"

definition TOD_Days_per_month :: "int list list" where
  "TOD_Days_per_month =
     [[0, 31, 29, 31, 30, 31, 30, 31, 31, 30, 31, 30, 31],
      [0, 31, 28, 31, 30, 31, 30, 31, 31, 30, 31, 30, 31]]"

section \<open>Operations\<close>

definition TOD_Get_leap_year_index :: "int \<Rightarrow> int" where
  "TOD_Get_leap_year_index y = ((y mod 4) + 3) div 4"

text \<open>
  \<open>tps\<close> is the configured number of ticks per second, the Boolean tells whether the ticks
  are validated (the mask is then all ones, otherwise zero).
\<close>

definition TOD_Validate :: "int \<Rightarrow> rtems_time_of_day option \<Rightarrow> bool \<Rightarrow> rtems_status_code" where
  "TOD_Validate tps the_tod enable =
     (case the_tod of
        None \<Rightarrow> RTEMS_INVALID_ADDRESS
      | Some t \<Rightarrow>
          if (if enable then ticks t else 0) \<ge> tps then RTEMS_INVALID_CLOCK
          else if second t \<ge> TOD_SECONDS_PER_MINUTE then RTEMS_INVALID_CLOCK
          else if minute t \<ge> TOD_MINUTES_PER_HOUR then RTEMS_INVALID_CLOCK
          else if hour t \<ge> TOD_HOURS_PER_DAY then RTEMS_INVALID_CLOCK
          else if month t = 0 \<or> month t > TOD_MONTHS_PER_YEAR then RTEMS_INVALID_CLOCK
          else if year t < TOD_BASE_YEAR \<or> year t > TOD_LATEST_YEAR then RTEMS_INVALID_CLOCK
          else if day t = 0 then RTEMS_INVALID_CLOCK
          else if day t > TOD_Days_per_month ! nat (TOD_Get_leap_year_index (year t)) ! nat (month t)
          then RTEMS_INVALID_CLOCK
          else RTEMS_SUCCESSFUL)"

definition TOD_To_seconds :: "rtems_time_of_day \<Rightarrow> int" where
  "TOD_To_seconds t =
     (let time = u32 (day t - 1);
          leap_year_index = TOD_Get_leap_year_index (year t);
          time = u32 (time + TOD_Days_to_date ! nat leap_year_index ! nat (month t));
          time = u32 (time + (u32 (year t - TOD_BASE_YEAR) div 4) * (TOD_DAYS_PER_YEAR * 4 + 1));
          time = u32 (time + TOD_Days_since_last_leap_year ! nat (year t mod 4));
          time = u32 (time * TOD_SECONDS_PER_DAY);
          time = u32 (time + (hour t * TOD_MINUTES_PER_HOUR + minute t) * TOD_SECONDS_PER_MINUTE);
          time = u32 (time + second t);
          time = u32 (time + TOD_SECONDS_1970_THROUGH_1988)
      in time)"

definition Leap_year :: "int \<Rightarrow> bool" where
  "Leap_year y \<longleftrightarrow> (y mod 4 = 0 \<and> y mod 100 \<noteq> 0) \<or> y mod 400 = 0"

definition Leap_years_before :: "int \<Rightarrow> int" where
  "Leap_years_before y = (let y = u32 (y - 1) in u32 (y div 4 - y div 100 + y div 400))"

definition Leap_years_between :: "int \<Rightarrow> int \<Rightarrow> int" where
  "Leap_years_between y1 y2 = u32 (Leap_years_before y2 - Leap_years_before (u32 (y1 + 1)))"

text \<open>
  The loop of \<open>_Year_day_as_month\<close>: \<open>month\<close> counts up to 11 while the day is not before
  the first day of the next month, \<open>table\<close> is the rest of the table from the element the
  pointer \<open>days_to_date\<close> refers to. The result is the month and the element before the
  pointer.
\<close>

fun month_loop :: "nat \<Rightarrow> int \<Rightarrow> int \<Rightarrow> int list \<Rightarrow> nat \<times> int" where
  "month_loop m prev d [] = (m, prev)"
| "month_loop m prev d (x # table) =
     (if m < 11 then (if d < x then (m, prev) else month_loop (Suc m) x d table)
      else (m, prev))"

definition Year_day_as_month :: "int \<Rightarrow> int \<Rightarrow> int \<times> int" where
  "Year_day_as_month y d =
     (let days_to_date = (if Leap_year y then TOD_Days_to_date ! 0 else TOD_Days_to_date ! 1);
          (m, prev) = month_loop 0 (days_to_date ! 1) d (drop 2 days_to_date)
      in (int m, u32 (d - prev)))"

text \<open>
  The part of \<open>rtems_clock_get_tod\<close> that turns the days since the epoch into the year and
  the day of the year.
\<close>

definition tod_year_and_day :: "int \<Rightarrow> int \<times> int" where
  "tod_year_and_day days =
     (let y = u32 (days div 365 + 1970);
          leap_years = Leap_years_between 1970 y;
          year_days = u32 (days - leap_years) mod 365
      in if leap_years > days mod 365
         then (let y = u32 (y - 1)
               in (y, if Leap_year y then u32 (year_days + 1) else year_days))
         else (y, year_days))"

text \<open>The clock is read as seconds and microseconds (\<open>_TOD_Get_timeval\<close>).\<close>

definition rtems_clock_get_tod ::
  "int \<Rightarrow> bool \<Rightarrow> int \<times> int \<Rightarrow> bool \<Rightarrow> rtems_status_code \<times> rtems_time_of_day option" where
  "rtems_clock_get_tod us_per_tick is_set now time_of_day_given =
     (if \<not> time_of_day_given then (RTEMS_INVALID_ADDRESS, None)
      else if \<not> is_set then (RTEMS_NOT_DEFINED, None)
      else
        let days = u32 (u64 (fst now) div 86400);
            day_secs = u32 (u64 (fst now) mod 86400);
            (y, year_days) = tod_year_and_day days;
            (m, d) = Year_day_as_month y year_days
        in (RTEMS_SUCCESSFUL, Some
             \<lparr>year = y, month = u32 (m + 1), day = u32 (d + 1), hour = day_secs div 3600,
              minute = (day_secs mod 3600) div 60, second = (day_secs mod 3600) mod 60,
              ticks = u32 (snd now div us_per_tick)\<rparr>))"

definition TOD_Is_valid_new_time_of_day :: "timespec option \<Rightarrow> Status_Control" where
  "TOD_Is_valid_new_time_of_day tod =
     (if \<not> Watchdog_Is_valid_timespec tod then STATUS_INVALID_NUMBER
      else if tv_sec (the tod) < TOD_SECONDS_1970_THROUGH_1988 then STATUS_INVALID_NUMBER
      else if tv_sec (the tod) > TOD_SECONDS_1970_THROUGH_2400 then STATUS_INVALID_NUMBER
      else STATUS_SUCCESSFUL)"

text \<open>
  \<open>rtems_clock_set\<close>: \<open>tod_set\<close> stands for \<open>_TOD_Set\<close>, which runs the hooks, sets the
  timecounter and returns a score status.
\<close>

definition rtems_clock_set ::
  "int \<Rightarrow> int \<Rightarrow> (timespec \<Rightarrow> Status_Control) \<Rightarrow> rtems_time_of_day option
     \<Rightarrow> rtems_status_code \<times> timespec option" where
  "rtems_clock_set tps ns_per_tick tod_set tod =
     (let status = TOD_Validate tps tod True
      in if status \<noteq> RTEMS_SUCCESSFUL then (status, None)
         else
           let ts = \<lparr>tv_sec = TOD_To_seconds (the tod),
                     tv_nsec = u32 (ticks (the tod) * ns_per_tick)\<rparr>
           in (Status_Get (tod_set ts), Some ts))"

section \<open>The calendar\<close>

text \<open>A time of day whose fields are \<open>uint32_t\<close> values.\<close>

definition tod_u32 :: "rtems_time_of_day \<Rightarrow> bool" where
  "tod_u32 t \<longleftrightarrow> 0 \<le> year t \<and> 0 \<le> month t \<and> 0 \<le> day t \<and> 0 \<le> hour t \<and> 0 \<le> minute t
     \<and> 0 \<le> second t \<and> 0 \<le> ticks t"

text \<open>
  Days from the epoch to the first of January of a year, for the years without a
  century exception since 1970: 365 per year and one for every leap year before it.
\<close>

definition days_to_year :: "int \<Rightarrow> int" where
  "days_to_year y = 365 * (y - 1970) + ((y - 1) div 4 - 492)"

lemma Leap_years_before_eq:
  assumes "1970 < y" and "y \<le> 2100"
  shows "Leap_years_before y = (y - 1) div 4 - 15"
proof -
  have "(y - 1) div 100 - (y - 1) div 400 = 15"
    using assms div_eqI(1) [of 19 100 "y - 1"] div_eqI(1) [of 4 400 "y - 1"]
      div_eqI(1) [of 20 100 "y - 1"] div_eqI(1) [of 5 400 "y - 1"]
    by (cases "y \<le> 2000") simp_all
  moreover have "492 \<le> (y - 1) div 4" "(y - 1) div 4 \<le> 525"
    using assms by linarith+
  ultimately show ?thesis
    using assms by (simp add: Leap_years_before_def u32_id Let_def)
qed

lemma Leap_years_between_eq:
  assumes "1970 < y" and "y \<le> 2100"
  shows "Leap_years_between 1970 y = (y - 1) div 4 - 492"
proof -
  have "492 \<le> (y - 1) div 4" "(y - 1) div 4 \<le> 525"
    using assms by linarith+
  then show ?thesis
    using assms Leap_years_before_eq [of y] Leap_years_before_eq [of 1971]
    by (simp add: Leap_years_between_def u32_id)
qed

lemma Leap_year_iff:
  assumes "1970 < y" and "y \<le> 2099"
  shows "Leap_year y \<longleftrightarrow> y mod 4 = 0"
proof (cases "y = 2000")
  case True
  then show ?thesis by (simp add: Leap_year_def)
next
  case False
  have "y mod 100 = y - 1900" if "y < 2000"
    using that assms div_eqI(2) [of 19 100 y] by simp
  moreover have "y mod 100 = y - 2000" if "2000 < y"
    using that assms div_eqI(2) [of 20 100 y] by simp
  ultimately have "y mod 100 \<noteq> 0"
    using False assms by linarith
  moreover have "y mod 400 \<noteq> 0"
    using \<open>y mod 100 \<noteq> 0\<close> mod_mod_cancel [of 100 400 y] by auto
  ultimately show ?thesis by (simp add: Leap_year_def)
qed

lemma tod_year_and_day_correct:
  assumes "1988 \<le> y" and "y \<le> 2099" and "0 \<le> k" and "k < (if y mod 4 = 0 then 366 else 365)"
  shows "tod_year_and_day (days_to_year y + k) = (y, k)"
proof -
  define L where "L = (y - 1) div 4 - 492"
  have L: "4 \<le> L" "L \<le> 32"
    using assms(1,2) unfolding L_def by linarith+
  let ?days = "days_to_year y + k"
  have days: "?days = (y - 1970) * 365 + (L + k)"
    by (simp add: days_to_year_def L_def)
  have k: "k \<le> 365" using assms(4) by (auto split: if_splits)
  show ?thesis
  proof (cases "L + k < 365")
    case True
    have q: "?days div 365 = y - 1970" "?days mod 365 = L + k"
      using True L assms(3) div_eqI [of "y - 1970" 365 ?days] unfolding days by simp_all
    have r: "(?days - L) mod 365 = k"
      using True L assms(3) div_eqI [of "y - 1970" 365 "?days - L"] unfolding days by simp
    have u: "u32 (?days - L) = ?days - L"
      using assms k L unfolding days by (simp add: u32_id)
    show ?thesis
      using assms L_def r u
      by (simp add: tod_year_and_day_def q Leap_years_between_eq u32_id Let_def)
  next
    case False
    have q: "?days div 365 = y + 1 - 1970" "?days mod 365 = L + k - 365"
      using False L k div_eqI [of "y + 1 - 1970" 365 ?days] unfolding days by simp_all
    define M where "M = y div 4 - 492"
    have M: "M = L + (if y mod 4 = 0 then 1 else 0)"
      unfolding M_def L_def by (cases "y mod 4 = 0"; simp; presburger)
    let ?r = "k - (if y mod 4 = 0 then 1 else 0)"
    have r: "(?days - M) mod 365 = ?r"
      using False L k assms(4) div_eqI [of "y - 1970" 365 "?days - M"] unfolding days M
      by (auto split: if_splits)
    have u: "u32 (?days - M) = ?days - M"
      using assms k L M unfolding days by (auto simp: u32_id split: if_splits)
    have "Leap_years_between 1970 (1 + y) = M"
      using assms by (simp add: Leap_years_between_eq M_def)
    moreover have "L + k - 365 < M"
      using M assms(4) by (auto split: if_splits)
    ultimately show ?thesis
      using assms r u k Leap_year_iff [of y]
      by (simp add: tod_year_and_day_def q u32_id Let_def split: if_splits)
  qed
qed

lemma set_months: "1 \<le> m \<Longrightarrow> m \<le> (12::int) \<Longrightarrow> m \<in> {1, 2, 3, 4, 5, 6, 7, 8, 9, 10, 11, 12}"
  unfolding insert_iff empty_iff by presburger

lemma Year_day_as_month_correct:
  assumes "1970 < y" and "y \<le> 2099" and "1 \<le> m" and "m \<le> 12" and "1 \<le> d"
    and "d \<le> TOD_Days_per_month ! nat (TOD_Get_leap_year_index y) ! nat m"
  shows "Year_day_as_month y (TOD_Days_to_date ! nat (TOD_Get_leap_year_index y) ! nat m + (d - 1))
    = (m - 1, d - 1)"
proof -
  have i: "TOD_Get_leap_year_index y = (if y mod 4 = 0 then 0 else 1)"
    unfolding TOD_Get_leap_year_index_def by (simp split: if_splits) linarith
  show ?thesis
    using set_months [OF assms(3,4)] assms(5,6) Leap_year_iff [OF assms(1,2)]
    by (auto simp: i Year_day_as_month_def TOD_Days_to_date_def TOD_Days_per_month_def u32_id
        split: if_splits)
qed

text \<open>The seconds of a valid time of day, without wrap-around.\<close>

definition tod_seconds :: "rtems_time_of_day \<Rightarrow> int" where
  "tod_seconds t =
     (days_to_year (year t) + TOD_Days_to_date ! nat (TOD_Get_leap_year_index (year t)) ! nat (month t)
        + (day t - 1)) * 86400
     + hour t * 3600 + minute t * 60 + second t"

lemma TOD_Validate_success:
  assumes "TOD_Validate tps (Some t) e = RTEMS_SUCCESSFUL" and "tod_u32 t"
  shows "1988 \<le> year t" "year t \<le> 2099" "1 \<le> month t" "month t \<le> 12" "1 \<le> day t"
    "day t \<le> TOD_Days_per_month ! nat (TOD_Get_leap_year_index (year t)) ! nat (month t)"
    "0 \<le> hour t" "hour t < 24" "0 \<le> minute t" "minute t < 60" "0 \<le> second t" "second t < 60"
    "e \<Longrightarrow> ticks t < tps"
  using assms by (auto simp: TOD_Validate_def tod_u32_def calendar_consts split: if_splits)

lemma year_day_bounds:
  assumes "1 \<le> m" and "m \<le> 12" and "1 \<le> d"
    and "d \<le> TOD_Days_per_month ! nat (TOD_Get_leap_year_index y) ! nat m"
  shows "0 \<le> TOD_Days_to_date ! nat (TOD_Get_leap_year_index y) ! nat m"
    and "TOD_Days_to_date ! nat (TOD_Get_leap_year_index y) ! nat m + (d - 1)
      < (if y mod 4 = 0 then 366 else 365)"
proof -
  have i: "TOD_Get_leap_year_index y = (if y mod 4 = 0 then 0 else 1)"
    unfolding TOD_Get_leap_year_index_def by (simp split: if_splits) linarith
  show "0 \<le> TOD_Days_to_date ! nat (TOD_Get_leap_year_index y) ! nat m"
    using set_months [OF assms(1,2)] by (auto simp: i TOD_Days_to_date_def)
  show "TOD_Days_to_date ! nat (TOD_Get_leap_year_index y) ! nat m + (d - 1)
      < (if y mod 4 = 0 then 366 else 365)"
    using set_months [OF assms(1,2)] assms(3,4)
    by (auto simp: i TOD_Days_to_date_def TOD_Days_per_month_def split: if_splits)
qed

lemma days_to_year_by_table:
  assumes "1988 \<le> y"
  shows "((y - 1988) div 4) * 1461 + TOD_Days_since_last_leap_year ! nat (y mod 4) + 6574 = days_to_year y"
proof -
  define a b where "a = (y - 1988) div 4" and "b = y mod 4"
  have y: "y = 1988 + 4 * a + b"
    unfolding a_def b_def by presburger
  have b: "b = 0 \<or> b = 1 \<or> b = 2 \<or> b = 3"
    unfolding b_def by presburger
  have "(y - 1) div 4 = (if b = 0 then 496 + a else 497 + a)"
    using b unfolding y by auto
  then show ?thesis
    using b unfolding a_def [symmetric] b_def [symmetric]
    by (auto simp: days_to_year_def TOD_Days_since_last_leap_year_def y)
qed

lemma TOD_To_seconds_eq:
  assumes "TOD_Validate tps (Some t) e = RTEMS_SUCCESSFUL" and "tod_u32 t"
  shows "TOD_To_seconds t = tod_seconds t" "0 \<le> tod_seconds t" "tod_seconds t < 2 ^ 32"
proof -
  note v = TOD_Validate_success [OF assms]
  define D where "D = TOD_Days_to_date ! nat (TOD_Get_leap_year_index (year t)) ! nat (month t)"
  define A where "A = (year t - 1988) div 4"
  define B where "B = TOD_Days_since_last_leap_year ! nat (year t mod 4)"
  have D: "0 \<le> D" "D + (day t - 1) < 366"
    using year_day_bounds [OF v(3-6)] unfolding D_def by (auto split: if_splits)
  have A: "0 \<le> A" "A \<le> 27" "u32 (year t - 1988) div 4 = A"
    using v(1,2) by (simp_all add: A_def u32_id)
  have "year t mod 4 \<in> {0, 1, 2, 3}" by auto
  then have B: "0 \<le> B" "B \<le> 1096"
    unfolding B_def by (auto simp: TOD_Days_since_last_leap_year_def)
  have dy: "A * 1461 + B + 6574 = days_to_year (year t)"
    using days_to_year_by_table [OF v(1)] by (simp add: A_def B_def)
  have days: "0 \<le> D + (day t - 1) + A * 1461 + B" "D + (day t - 1) + A * 1461 + B < 40909"
    using v(5) D A B by linarith+
  show "TOD_To_seconds t = tod_seconds t" "0 \<le> tod_seconds t" "tod_seconds t < 2 ^ 32"
    using v(5,7-12) D(1) A(1) B(1) days
    unfolding TOD_To_seconds_def tod_seconds_def calendar_consts dy [symmetric] Let_def
      D_def [symmetric] A(3) B_def [symmetric]
    by (simp_all add: u32_id algebra_simps)
qed

section \<open>Properties\<close>

lemma clock_split:
  fixes d s :: int
  assumes "0 \<le> s" and "s < 86400"
  shows "(d * 86400 + s) div 86400 = d" "(d * 86400 + s) mod 86400 = s"
  using assms by simp_all

lemma clock_split_u32:
  fixes d s :: int
  assumes "0 \<le> s" and "s < 86400" and "0 \<le> d" and "d * 86400 + s < 2 ^ 32"
  shows "u32 (u64 (d * 86400 + s) div 86400) = d" "u32 (u64 (d * 86400 + s) mod 86400) = s"
proof -
  have u: "u64 (d * 86400 + s) = d * 86400 + s" and d: "d < 2 ^ 32"
    using assms by (simp_all add: u64_id)
  show "u32 (u64 (d * 86400 + s) div 86400) = d" "u32 (u64 (d * 86400 + s) mod 86400) = s"
    unfolding u clock_split [OF assms(1,2)] using assms d by (simp_all add: u32_id)
qed

text \<open>
  C33. Round trip of the calendar: for every time of day that \<open>_TOD_Validate\<close> accepts,
  reading the clock at the second \<open>_TOD_To_seconds\<close> computed for it returns the same
  year, month, day, hour, minute and second.
\<close>

theorem tod_roundtrip:
  assumes "TOD_Validate tps (Some t) e = RTEMS_SUCCESSFUL" and "tod_u32 t"
  shows "rtems_clock_get_tod us True (TOD_To_seconds t, usec) True
    = (RTEMS_SUCCESSFUL, Some (t\<lparr>ticks := u32 (usec div us)\<rparr>))"
proof -
  note v = TOD_Validate_success [OF assms]
  note secs = TOD_To_seconds_eq [OF assms]
  define D where "D = TOD_Days_to_date ! nat (TOD_Get_leap_year_index (year t)) ! nat (month t)"
  let ?k = "D + (day t - 1)" and ?s = "hour t * 3600 + minute t * 60 + second t"
  let ?days = "days_to_year (year t) + ?k"
  have k: "0 \<le> ?k" "?k < (if year t mod 4 = 0 then 366 else 365)"
    using year_day_bounds [OF v(3-6)] v(5) unfolding D_def by simp_all
  have s: "0 \<le> ?s" "?s < 86400"
    using v(7-12) by linarith+
  have ts: "tod_seconds t = ?days * 86400 + ?s"
    by (simp add: tod_seconds_def D_def)
  have "0 \<le> ?days"
    using k(1) v(1) zdiv_mono1 [of 1987 "year t - 1" 4] by (simp add: days_to_year_def)
  then have days: "u32 (u64 (TOD_To_seconds t) div 86400) = ?days"
      "u32 (u64 (TOD_To_seconds t) mod 86400) = ?s"
    using clock_split_u32 [OF s] secs(3) unfolding secs(1) ts by blast+
  have hms: "?s div 3600 = hour t" "?s mod 3600 = minute t * 60 + second t"
    using v(7-12) div_eqI [of "hour t" 3600 ?s] by simp_all
  have ms: "(minute t * 60 + second t) div 60 = minute t" "(minute t * 60 + second t) mod 60 = second t"
    using v(9-12) div_eqI [of "minute t" 60 "minute t * 60 + second t"] by simp_all
  have md: "Year_day_as_month (year t) ?k = (month t - 1, day t - 1)"
    unfolding D_def by (rule Year_day_as_month_correct) (use v in simp_all)
  have "day t < 2 ^ 32"
    using k D_def year_day_bounds(1) [OF v(3-6)] by (auto split: if_splits)
  then show ?thesis
    using v(1-5) unfolding rtems_clock_get_tod_def days Let_def fst_conv snd_conv
      tod_year_and_day_correct [OF v(1,2) k] case_prod_conv md hms ms
    by (simp add: u32_id)
qed

definition leap_day :: rtems_time_of_day where
  "leap_day = \<lparr>year = 2024, month = 2, day = 29, hour = 23, minute = 59, second = 58, ticks = 7\<rparr>"

lemma leap_day_valid: "TOD_Validate 100 (Some leap_day) True = RTEMS_SUCCESSFUL" "tod_u32 leap_day"
  by (simp_all add: TOD_Validate_def leap_day_def calendar_consts TOD_Get_leap_year_index_def
      TOD_Days_per_month_def tod_u32_def)

theorem tod_roundtrip_witness:
  "rtems_clock_get_tod 10000 True (TOD_To_seconds leap_day, 70000) True
    = (RTEMS_SUCCESSFUL, Some leap_day)"
  using tod_roundtrip [OF leap_day_valid, of 10000 70000] by (simp add: leap_day_def u32_def)

text \<open>
  Setting the clock: an accepted time of day is turned into a normal time in the range
  that \<open>_TOD_Set\<close> requires of its caller, provided the ticks of a second fit a second.
\<close>

theorem clock_set_in_range:
  assumes "tod_u32 t" and "0 < npt" and "tps * npt \<le> 1000000000"
    and "rtems_clock_set tps npt tod_set (Some t) = (status, Some ts)"
  shows "TOD_Is_valid_new_time_of_day (Some ts) = STATUS_SUCCESSFUL
    \<and> status = Status_Get (tod_set ts) \<and> normal ts \<and> tv_sec ts = tod_seconds t"
proof -
  have ok: "TOD_Validate tps (Some t) True = RTEMS_SUCCESSFUL"
    and ts: "ts = \<lparr>tv_sec = TOD_To_seconds t, tv_nsec = u32 (ticks t * npt)\<rparr>"
    and st: "status = Status_Get (tod_set ts)"
    using assms(4) by (auto simp: rtems_clock_set_def Let_def split: if_splits)
  note v = TOD_Validate_success [OF ok assms(1)]
  note secs = TOD_To_seconds_eq [OF ok assms(1)]
  have "ticks t * npt < tps * npt"
    using v(13) assms(2) by simp
  moreover have "0 \<le> ticks t * npt"
    using assms(1,2) by (simp add: tod_u32_def)
  ultimately have n: "u32 (ticks t * npt) = ticks t * npt" "0 \<le> ticks t * npt" "ticks t * npt < 1000000000"
    using assms(3) by (simp_all add: u32_id)
  have "days_to_year (year t) \<ge> 6574"
    unfolding days_to_year_def using v(1) zdiv_mono1 [of 1987 "year t - 1" 4] by simp
  then have "TOD_SECONDS_1970_THROUGH_1988 \<le> tod_seconds t"
    using year_day_bounds(1) [OF v(3-6)] v(5,7-12) unfolding tod_seconds_def calendar_consts
    by (simp add: algebra_simps)
  then show ?thesis
    using st secs n unfolding ts
    by (simp add: TOD_Is_valid_new_time_of_day_def Watchdog_Is_valid_timespec_def u64_id
        normal_def TOD_SECONDS_1970_THROUGH_2400_def)
qed

theorem clock_set_in_range_witness:
  "\<exists>status ts. rtems_clock_set 100 10000000 (\<lambda>_. STATUS_SUCCESSFUL) (Some leap_day) = (status, Some ts)
    \<and> status = RTEMS_SUCCESSFUL \<and> TOD_Is_valid_new_time_of_day (Some ts) = STATUS_SUCCESSFUL"
proof -
  obtain status ts where
    cs: "rtems_clock_set 100 10000000 (\<lambda>_. STATUS_SUCCESSFUL) (Some leap_day) = (status, Some ts)"
    using leap_day_valid by (simp add: rtems_clock_set_def Let_def)
  show ?thesis
    using clock_set_in_range [OF leap_day_valid(2) _ _ cs] cs by simp
qed

end
