(* ===== verification/Ieee_Double.thy ===== *)
theory Ieee_Double
  imports Prelude
begin

text \<open>
  The use the sources make of the C type \<open>double\<close>: sums of converted unsigned integers,
  and the integer part of a quotient of such a sum and an integer. All sums are
  non-negative integers, so a \<open>double\<close> that holds one is a natural number with at most
  53 significant bits, and addition is rounding to nearest, ties to even, of the exact
  sum. The range of the exponent is never exceeded by these sums (a sum that stays below
  \<open>2 ^ 53\<close> times the largest term no longer grows).
\<close>

definition rne :: "nat \<Rightarrow> nat \<Rightarrow> nat" where
  "rne n d = (let q = n div d; r = n mod d
     in if 2 * r > d \<or> (2 * r = d \<and> odd q) then q + 1 else q)"

fun bits :: "nat \<Rightarrow> nat" where
  "bits n = (if n = 0 then 0 else Suc (bits (n div 2)))"

declare bits.simps [simp del]

definition double_of_nat :: "nat \<Rightarrow> nat" where
  "double_of_nat n = (let k = bits n - 53 in rne n (2 ^ k) * 2 ^ k)"

definition double_add :: "nat \<Rightarrow> nat \<Rightarrow> nat" where
  "double_add a b = double_of_nat (a + b)"

text \<open>
  The exponent \<open>e\<close> of a quotient \<open>a / c\<close> of positive integers, \<open>2 ^ e \<le> a / c < 2 ^ (e + 1)\<close>,
  the quotient rounded to 53 bits and its integer part.
\<close>

definition quotient_exponent :: "nat \<Rightarrow> nat \<Rightarrow> int" where
  "quotient_exponent a c =
     (let b = int (bits a) - int (bits c)
      in if a * 2 ^ nat (- b) \<ge> c * 2 ^ nat b then b else b - 1)"

definition double_div_trunc :: "nat \<Rightarrow> nat \<Rightarrow> nat" where
  "double_div_trunc a c =
     (if a = 0 then 0
      else let s = 52 - quotient_exponent a c
           in if s \<ge> 0 then rne (a * 2 ^ nat s) c div 2 ^ nat s
              else rne a (c * 2 ^ nat (- s)) * 2 ^ nat (- s))"

section \<open>Bits\<close>

lemma bits_0 [simp]: "bits 0 = 0"
  by (simp add: bits.simps)

lemma bits_bounds: "0 < n \<Longrightarrow> 2 ^ (bits n - 1) \<le> n \<and> n < 2 ^ bits n \<and> 0 < bits n"
proof (induction n rule: bits.induct)
  case (1 n)
  show ?case
  proof (cases "n = 1")
    case True
    then show ?thesis by (simp add: bits.simps)
  next
    case False
    with "1.prems" have "0 < n div 2" by simp
    with "1.IH" "1.prems" have ih: "2 ^ (bits (n div 2) - 1) \<le> n div 2" "n div 2 < 2 ^ bits (n div 2)"
      "0 < bits (n div 2)" by auto
    have b: "bits n = Suc (bits (n div 2))"
      using "1.prems" by (simp add: bits.simps [of n])
    have "(2::nat) ^ bits (n div 2) = 2 * 2 ^ (bits (n div 2) - 1)"
      using ih(3) by (cases "bits (n div 2)") simp_all
    moreover have "2 * (n div 2) \<le> n" "n < 2 * (n div 2) + 2" by simp_all
    ultimately show ?thesis
      using ih b by (simp del: One_nat_def) linarith
  qed
qed

lemma bits_le: "n < 2 ^ k \<Longrightarrow> bits n \<le> k"
proof (cases "n = 0")
  case False
  assume "n < 2 ^ k"
  with False bits_bounds [of n] have "(2::nat) ^ (bits n - 1) < 2 ^ k"
    by linarith
  then have "bits n - 1 < k"
    by (simp add: power_strict_increasing_iff)
  with bits_bounds [of n] False show ?thesis by simp
qed simp

section \<open>Exactness below \<open>2 ^ 53\<close>\<close>

lemma rne_1 [simp]: "rne n 1 = n" "rne n (Suc 0) = n"
  by (simp_all add: rne_def)

lemma double_of_nat_exact: "n < 2 ^ 53 \<Longrightarrow> double_of_nat n = n"
  using bits_le [of n 53] by (simp add: double_of_nat_def)

lemma double_add_exact: "a + b < 2 ^ 53 \<Longrightarrow> double_add a b = a + b"
  by (simp add: double_add_def double_of_nat_exact)

lemma rne_bounds:
  assumes "0 < d"
  shows "n div d \<le> rne n d" "rne n d \<le> n div d + 1" "2 * d * rne n d \<le> 2 * n + d"
proof -
  show "n div d \<le> rne n d" "rne n d \<le> n div d + 1"
    by (simp_all add: rne_def Let_def)
  have "2 * d * (n div d) + 2 * (n mod d) = 2 * (d * (n div d) + n mod d)"
    by (simp only: distrib_left mult.assoc)
  then have "2 * d * (n div d) + 2 * (n mod d) = 2 * n"
    by simp
  then show "2 * d * rne n d \<le> 2 * n + d"
    using assms unfolding rne_def Let_def by (simp add: distrib_left)
qed

text \<open>
  The rounding of a quotient never reaches the next integer when the dividend is below
  \<open>2 ^ 53\<close>: the quotient is at least \<open>1 / c\<close> away from it, more than half a unit in the
  last place.
\<close>

lemma quotient_exponent_lower:
  assumes "0 < a" and "0 < c"
  shows "c * 2 ^ nat (quotient_exponent a c) \<le> a * 2 ^ nat (- quotient_exponent a c)"
proof -
  define A C where "A = bits a" and "C = bits c"
  have A: "2 ^ (A - 1) \<le> a" "0 < A" and C: "c < 2 ^ C"
    using bits_bounds [OF assms(1)] bits_bounds [OF assms(2)] by (simp_all add: A_def C_def)
  have below: "c * 2 ^ nat (int A - int C - 1) \<le> a * 2 ^ nat (1 + int C - int A)"
  proof (cases "C < A")
    case True
    then have n: "nat (int A - int C - 1) = A - C - 1" "nat (1 + int C - int A) = 0" by simp_all
    have "c * 2 ^ (A - C - 1) \<le> 2 ^ C * 2 ^ (A - C - 1)"
      using C by simp
    moreover have "(2::nat) ^ C * 2 ^ (A - C - 1) = 2 ^ (A - 1)"
      using True by (simp add: power_add [symmetric])
    ultimately have "c * 2 ^ (A - C - 1) \<le> a" using A(1) by (metis le_trans)
    with n show ?thesis by simp
  next
    case False
    then have n: "nat (int A - int C - 1) = 0" "nat (1 + int C - int A) = 1 + C - A" by simp_all
    have "c \<le> 2 ^ (A - 1) * 2 ^ (1 + C - A)"
      using C A False by (simp add: power_add [symmetric])
    also have "\<dots> \<le> a * 2 ^ (1 + C - A)"
      using A by simp
    finally show ?thesis using n by simp
  qed
  show ?thesis
    using below by (simp add: quotient_exponent_def Let_def A_def [symmetric] C_def [symmetric]
        algebra_simps)
qed

lemma quotient_exponent_bound:
  assumes "0 < a" and "0 < c" and "a < 2 ^ 53"
  shows "quotient_exponent a c \<le> 52" "c < 2 * 2 ^ nat (52 - quotient_exponent a c)"
proof -
  define e where "e = quotient_exponent a c"
  note l = quotient_exponent_lower [OF assms(1,2), folded e_def]
  have "e \<le> 52 \<and> c < 2 * 2 ^ nat (52 - e)"
  proof (cases "0 \<le> e")
    case True
    then obtain k where k: "e = int k" by (metis nonneg_int_cases)
    have lt: "c * 2 ^ k < 2 ^ 53"
      using l assms(3) by (simp add: k)
    have "1 * 2 ^ k \<le> c * (2::nat) ^ k"
      using assms(2) by (intro mult_le_mono1) simp
    with lt have "(2::nat) ^ k < 2 ^ 53" by (metis le_less_trans mult_1)
    then have k53: "k < 53" by (rule power_less_imp_less_exp [rotated]) simp
    then have "(2::nat) ^ 53 = 2 * 2 ^ (52 - k) * 2 ^ k"
      by (simp add: power_add [symmetric] power_Suc [symmetric] del: power_Suc)
    with lt have "c * 2 ^ k < 2 * 2 ^ (52 - k) * 2 ^ k" by (simp only:)
    then have "c < 2 * 2 ^ (52 - k)" by (simp del: power_Suc)
    moreover have "nat (52 - e) = 52 - k" "e \<le> 52" using k k53 by simp_all
    ultimately show ?thesis by simp
  next
    case False
    then obtain k where k: "e = - int k" by (metis minus_minus nle_le nonneg_int_cases neg_0_le_iff_le)
    have "c \<le> a * 2 ^ k" using l by (simp add: k)
    also have "\<dots> < 2 ^ 53 * 2 ^ k" using assms(3) by simp
    finally have "c < 2 * 2 ^ (52 + k)" by (simp add: power_add)
    then show ?thesis by (simp add: k nat_add_distrib)
  qed
  then show "quotient_exponent a c \<le> 52" "c < 2 * 2 ^ nat (52 - quotient_exponent a c)"
    by (simp_all add: e_def)
qed

lemma rne_scaled:
  assumes "0 < c" and "c < 2 * 2 ^ s"
  shows "rne (a * 2 ^ s) c div 2 ^ s = a div c"
proof (rule div_nat_eqI)
  have "a div c * c * 2 ^ s \<le> a * 2 ^ s" by simp
  then have "a div c * 2 ^ s \<le> (a * 2 ^ s) div c"
    using assms(1) by (simp add: less_eq_div_iff_mult_less_eq algebra_simps)
  then show "2 ^ s * (a div c) \<le> rne (a * 2 ^ s) c"
    using rne_bounds(1) [OF assms(1), of "a * 2 ^ s"] by (simp add: mult.commute)
  have "a + 1 \<le> c * (a div c + 1)"
    using mod_less_divisor [OF assms(1), of a] mult_div_mod_eq [of c a]
    unfolding distrib_left by linarith
  then have "(a + 1) * 2 ^ s \<le> c * (a div c + 1) * 2 ^ s" by (rule mult_le_mono1)
  then have "2 * (a * 2 ^ s) + c < 2 * (c * ((a div c + 1) * 2 ^ s))"
    using assms(2) by (simp add: algebra_simps)
  with rne_bounds(3) [OF assms(1), of "a * 2 ^ s"]
  have "2 * (c * rne (a * 2 ^ s) c) < 2 * (c * ((a div c + 1) * 2 ^ s))"
    unfolding mult.assoc by (rule le_less_trans)
  then show "rne (a * 2 ^ s) c < 2 ^ s * Suc (a div c)"
    using assms(1) by (simp add: mult.commute)
qed

lemma double_div_trunc_exact:
  assumes "0 < c" and "a < 2 ^ 53"
  shows "double_div_trunc a c = a div c"
  using quotient_exponent_bound [of a c] rne_scaled [of c] assms
  by (simp add: double_div_trunc_def Let_def)

end
