(* ===== verification/Cyclic_Loop.thy ===== *)
theory Cyclic_Loop
  imports Timespec Histogram Ieee_Double
begin

text \<open>
  The measuring threads of cyclictest (\<^verbatim>\<open>rt-tests-2.10/src/cyclictest/cyclictest.c\<close>):
  the parameters and statistics of a thread, the spike list, \<open>timerthread\<close> from its start
  to its exit, and the reduction of the verbose output.

  A C \<open>long\<close> that is compared with an unsigned value is kept as its 64-bit pattern
  (\<open>min\<close>, \<open>max\<close>, \<open>act\<close> and the buffered values): the code compares \<open>uint64_t diff\<close>
  with them, and C converts the signed side to unsigned first. \<open>sint\<close> reads the pattern
  where the code reads a \<open>long\<close>. The operating system appears as the values its calls
  return: one record \<open>wake\<close> holds those of one round of the loop.
\<close>

section \<open>Parameters, statistics and shared state\<close>

definition MODE_CYCLIC :: int where "MODE_CYCLIC = 0"
definition MODE_CLOCK_NANOSLEEP :: int where "MODE_CLOCK_NANOSLEEP = 1"
definition MODE_SYS_ITIMER :: int where "MODE_SYS_ITIMER = 2"
definition MODE_SYS_NANOSLEEP :: int where "MODE_SYS_NANOSLEEP = 3"
definition TIMER_RELTIME :: int where "TIMER_RELTIME = 0"
definition TIMER_ABSTIME :: int where "TIMER_ABSTIME = 1"
definition VALBUF_SIZE :: nat where "VALBUF_SIZE = 16384"
definition EPERM :: int where "EPERM = 1"

lemmas mode_consts = MODE_CYCLIC_def MODE_CLOCK_NANOSLEEP_def MODE_SYS_ITIMER_def
  MODE_SYS_NANOSLEEP_def TIMER_RELTIME_def TIMER_ABSTIME_def

record thread_param =
  p_prio :: int
  p_policy :: int
  p_mode :: int
  p_timermode :: int
  p_signal :: int
  p_clock :: int
  p_max_cycles :: ulong
  p_bufmsk :: ulong
  p_interval :: ulong
  p_cpu :: int
  p_node :: int
  p_tnum :: int
  p_msr_fd :: int

text \<open>
  The pointer \<open>hist\<close> of a thread, \<open>&hset.histos[i]\<close>, is the index \<open>i\<close>; \<open>avg\<close> is the
  \<open>double\<close> that sums the latencies.
\<close>

record thread_stat =
  s_cycles :: ulong
  s_cyclesread :: ulong
  s_min :: ulong
  s_max :: ulong
  s_act :: ulong
  s_avg :: nat
  s_values :: "ulong list option"
  s_smis :: "ulong list option"
  s_hist :: "nat option"
  s_threadstarted :: int
  s_tid :: int
  s_reduce :: int
  s_redmax :: int
  s_cycleofmax :: ulong
  s_smi_count :: ulong

record thread_trigger =
  t_tnum :: int
  t_ts :: int
  t_diff :: int

text \<open>
  The spike list: the nodes from \<open>head\<close> to \<open>tail\<close> in the order of their links, and
  \<open>current\<close>, the position of a node or \<open>None\<close> for a null pointer.
\<close>

record trigger_list =
  tr_nodes :: "thread_trigger list"
  tr_current :: "nat option"
  tr_spikes :: int

text \<open>The option variables that the threads read.\<close>

record config =
  c_use_nsecs :: bool
  c_refresh_on_max :: bool
  c_trigger :: int
  c_trigger_list_size :: int
  c_duration :: int
  c_tracelimit :: int
  c_histogram :: int
  c_smi :: bool
  c_aligned :: bool
  c_secaligned :: bool
  c_offset :: int
  c_oscope_reduction :: int

datatype event = Cond_Signal | Trace_Stop "ulong \<times> int" | Timer_Delete | Itimer_Off | Msr_Close
  | Sched_Other

text \<open>What the threads share; \<open>g_events\<close> records the calls out of the program, newest first.\<close>

record globals =
  g_shutdown :: int
  g_hset :: histoset
  g_trig :: trigger_list
  g_break_thread_id :: int
  g_break_thread_value :: ulong
  g_events :: "event list"

datatype thread_fault = Fault c_fault | Hang | Fatal

section \<open>The spike list\<close>

text \<open>\<open>ok i\<close> tells whether the i-th \<open>malloc\<close> succeeds.\<close>

fun trigger_init_loop :: "(nat \<Rightarrow> bool) \<Rightarrow> thread_trigger list \<Rightarrow> nat \<Rightarrow> thread_trigger list \<times> bool" where
  "trigger_init_loop ok nodes 0 = (nodes, True)"
| "trigger_init_loop ok nodes (Suc n) =
     (if ok (length nodes)
      then trigger_init_loop ok (nodes @ [\<lparr>t_tnum = int (length nodes), t_ts = 0, t_diff = 0\<rparr>]) n
      else (nodes, False))"

definition trigger_init :: "(nat \<Rightarrow> bool) \<Rightarrow> config \<Rightarrow> trigger_list \<Rightarrow> trigger_list \<times> int" where
  "trigger_init ok cfg t =
     (let (nodes, success) = trigger_init_loop ok [] (nat (c_trigger_list_size cfg))
      in if success
         then (t\<lparr>tr_nodes := nodes, tr_current := (if nodes = [] then None else Some 0)\<rparr>, 0)
         else (t\<lparr>tr_nodes := nodes\<rparr>, - 1))"

definition trigger_next :: "trigger_list \<Rightarrow> nat \<Rightarrow> nat option" where
  "trigger_next t i = (if Suc i < length (tr_nodes t) then Some (Suc i) else None)"

definition trigger_update :: "thread_param \<Rightarrow> int \<Rightarrow> int \<Rightarrow> trigger_list \<Rightarrow> trigger_list" where
  "trigger_update par diff ts t =
     (let t = (case tr_current t of
          None \<Rightarrow> t
        | Some i \<Rightarrow>
            t\<lparr>tr_nodes := (tr_nodes t)
                [i := \<lparr>t_tnum = p_tnum par, t_ts = ts, t_diff = diff\<rparr>],
              tr_current := trigger_next t i\<rparr>)
      in t\<lparr>tr_spikes := s32 (tr_spikes t + 1)\<rparr>)"

definition trigger_line :: "thread_trigger \<Rightarrow> string" where
  "trigger_line n = ''T:'' @ fmt_d 2 (t_tnum n) @ '' Spike:'' @ fmt_d 8 (t_diff n) @ '': TS: ''
     @ fmt_d 12 (t_ts n) @ [CHR 0x0A]"

definition trigger_print :: "trigger_list \<Rightarrow> string" where
  "trigger_print t =
     (let hd = (if tr_nodes t = [] then None else Some 0)
      in if tr_current t = hd then []
         else [CHR 0x0A]
           @ concat (map trigger_line
               (case tr_current t of None \<Rightarrow> tr_nodes t | Some i \<Rightarrow> take i (tr_nodes t)))
           @ ''spikes = '' @ fmt_d 0 (tr_spikes t) @ [CHR 0x0A, CHR 0x0A])"

section \<open>Raising the priority\<close>

text \<open>
  The system calls are parameters over a state of the operating system; a call returns 0
  or, in the place of -1 with \<open>errno\<close>, the error number.
\<close>

definition RLIM_INFINITY :: int where "RLIM_INFINITY = 2 ^ 64 - 1"

record 'o os_calls =
  os_priority_max :: "int \<Rightarrow> int"
  os_errno :: int
  os_getrlimit :: "'o \<Rightarrow> int \<times> int \<times> int"
  os_setrlimit :: "int \<Rightarrow> int \<Rightarrow> 'o \<Rightarrow> int \<times> 'o"
  os_setscheduler :: "int \<Rightarrow> int \<Rightarrow> 'o \<Rightarrow> int \<times> 'o"

definition raise_soft_prio :: "'o os_calls \<Rightarrow> int \<Rightarrow> int \<Rightarrow> 'o \<Rightarrow> int \<times> 'o" where
  "raise_soft_prio sys policy prio os =
     (let policy_max = os_priority_max sys policy
      in if policy_max = - 1 then (os_errno sys, os)
         else
           let (err, cur, max) = os_getrlimit sys os
           in if err \<noteq> 0 then (err, os)
              else
                let soft_max = s32 (if cur = RLIM_INFINITY then u32 policy_max else cur);
                    hard_max = s32 (if max = RLIM_INFINITY then u32 policy_max else max)
                in if prio > soft_max \<and> prio \<le> hard_max
                   then os_setrlimit sys (u64 prio) max os
                   else (- 1, os))"

partial_function (option) setscheduler ::
  "'o os_calls \<Rightarrow> int \<Rightarrow> int \<Rightarrow> 'o \<Rightarrow> (int \<times> 'o) option" where
  "setscheduler sys policy prio os =
     (let (err, os) = os_setscheduler sys policy prio os
      in if err \<noteq> 0 \<and> err = EPERM
         then (let (err1, os) = raise_soft_prio sys policy prio os
               in if err1 = 0 then setscheduler sys policy prio os else Some (err, os))
         else Some (err, os))"

declare setscheduler.simps [code]

section \<open>One round of the measuring loop\<close>

text \<open>
  What one round gets from outside: the change other threads and signal handlers made to
  \<open>shutdown\<close> before it is tested, the result of the sleeping call, the two clock readings
  with their return codes, the SMI counter and the timer overruns.
\<close>

record wake =
  w_shutdown :: int
  w_ret :: int
  w_before :: "int \<times> timespec"
  w_after :: "int \<times> timespec"
  w_smi :: "ulong option"
  w_overrun :: int

record thread_state =
  ts_now :: timespec
  ts_next :: timespec
  ts_stop :: timespec
  ts_stopped :: bool
  ts_smi_old :: ulong
  ts_stat :: thread_stat
  ts_glob :: globals

definition thread_interval :: "thread_param \<Rightarrow> timespec" where
  "thread_interval par =
     \<lparr>tv_sec = uint (p_interval par div 1000000),
      tv_nsec = uint (p_interval par mod 1000000) * 1000\<rparr>"

definition ts_advance :: "timespec \<Rightarrow> timespec \<Rightarrow> timespec" where
  "ts_advance t d = \<lparr>tv_sec = tv_sec t + tv_sec d, tv_nsec = tv_nsec t + tv_nsec d\<rparr>"

text \<open>The \<open>switch\<close> that waits for the next period; \<open>None\<close> is the jump to \<open>out\<close>.\<close>

definition wait_period :: "thread_param \<Rightarrow> wake \<Rightarrow> thread_state \<Rightarrow> thread_state option" where
  "wait_period par w st =
     (let relative =
        (if fst (w_before w) \<noteq> 0 \<or> w_ret w \<noteq> 0 then None
         else Some (st\<lparr>ts_now := snd (w_before w),
                ts_next := tsnorm (ts_advance (snd (w_before w)) (thread_interval par))\<rparr>))
      in if p_mode par = MODE_CYCLIC \<or> p_mode par = MODE_SYS_ITIMER
         then if w_ret w < 0 then None else Some st
         else if p_mode par = MODE_CLOCK_NANOSLEEP
         then if p_timermode par = TIMER_ABSTIME
              then if w_ret w \<noteq> 0 then None else Some st
              else relative
         else if p_mode par = MODE_SYS_NANOSLEEP then relative
         else Some st)"

definition count_smi :: "config \<Rightarrow> wake \<Rightarrow> thread_state \<Rightarrow> (thread_state \<times> ulong) option" where
  "count_smi cfg w st =
     (if \<not> c_smi cfg then Some (st, 0)
      else case w_smi w of
        None \<Rightarrow> None
      | Some smi_now \<Rightarrow>
          let diff_smi = smi_now - ts_smi_old st;
              stat = ts_stat st
          in Some (st\<lparr>ts_stat := stat\<lparr>s_smi_count := s_smi_count stat + diff_smi\<rparr>,
                      ts_smi_old := smi_now\<rparr>, diff_smi))"

definition latency :: "config \<Rightarrow> timespec \<Rightarrow> timespec \<Rightarrow> ulong" where
  "latency cfg now next =
     word_of_int (if c_use_nsecs cfg then calcdiff_ns now next else calcdiff now next)"

definition update_extremes :: "ulong \<Rightarrow> thread_stat \<Rightarrow> thread_stat" where
  "update_extremes diff stat =
     (let stat = (if diff < s_min stat then stat\<lparr>s_min := diff\<rparr> else stat);
          stat = (if diff > s_max stat then stat\<lparr>s_max := diff\<rparr> else stat)
      in stat\<lparr>s_avg := double_add (s_avg stat) (double_of_nat (unat diff))\<rparr>)"

definition signal_new_max :: "config \<Rightarrow> ulong \<Rightarrow> thread_stat \<Rightarrow> globals \<Rightarrow> globals" where
  "signal_new_max cfg diff stat g =
     (if diff > s_max stat \<and> c_refresh_on_max cfg
      then g\<lparr>g_events := Cond_Signal # g_events g\<rparr> else g)"

definition record_spike :: "config \<Rightarrow> thread_param \<Rightarrow> ulong \<Rightarrow> timespec \<Rightarrow> globals \<Rightarrow> globals" where
  "record_spike cfg par diff now g =
     (if c_trigger cfg \<noteq> 0 \<and> diff > word_of_int (c_trigger cfg)
      then g\<lparr>g_trig := trigger_update par (s32 (uint diff)) (calctime now) (g_trig g)\<rparr> else g)"

definition check_duration :: "config \<Rightarrow> timespec \<Rightarrow> timespec \<Rightarrow> globals \<Rightarrow> globals" where
  "check_duration cfg now stop g =
     (if c_duration cfg \<noteq> 0 \<and> calcdiff now stop \<ge> 0
      then g\<lparr>g_shutdown := g_shutdown g + 1\<rparr> else g)"

definition break_trace :: "config \<Rightarrow> ulong \<Rightarrow> thread_state \<Rightarrow> thread_state" where
  "break_trace cfg diff st =
     (if \<not> ts_stopped st \<and> c_tracelimit cfg \<noteq> 0 \<and> diff > word_of_int (c_tracelimit cfg)
      then
        let g = ts_glob st;
            g = g\<lparr>g_shutdown := g_shutdown g + 1\<rparr>;
            g = (if g_break_thread_id g = 0
                 then g\<lparr>g_break_thread_id := s_tid (ts_stat st),
                        g_events := Trace_Stop (diff, c_tracelimit cfg) # g_events g,
                        g_break_thread_value := diff\<rparr>
                 else g)
        in st\<lparr>ts_stopped := True, ts_glob := g\<rparr>
      else st)"

definition buffer_values ::
  "config \<Rightarrow> thread_param \<Rightarrow> ulong \<Rightarrow> ulong \<Rightarrow> thread_stat \<Rightarrow> thread_stat checked" where
  "buffer_values cfg par diff diff_smi stat =
     (if p_bufmsk par = 0 then Inr stat
      else
        let i = unat (s_cycles stat AND p_bufmsk par)
        in case array_set (s_values stat) i diff of
             Inl e \<Rightarrow> Inl e
           | Inr v \<Rightarrow>
               let stat = stat\<lparr>s_values := v\<rparr>
               in if \<not> c_smi cfg then Inr stat
                  else case array_set (s_smis stat) i diff_smi of
                    Inl e \<Rightarrow> Inl e
                  | Inr v \<Rightarrow> Inr (stat\<lparr>s_smis := v\<rparr>))"

definition sample_histogram ::
  "config \<Rightarrow> ulong \<Rightarrow> thread_stat \<Rightarrow> globals \<Rightarrow> globals checked" where
  "sample_histogram cfg diff stat g =
     (if c_histogram cfg = 0 then Inr g
      else case s_hist stat of
        None \<Rightarrow> Inl Null_Dereference
      | Some i \<Rightarrow>
          (case array_get (hs_histos (g_hset g)) i of
             Inl e \<Rightarrow> Inl e
           | Inr h \<Rightarrow>
               (case hist_sample h diff of
                  Inl e \<Rightarrow> Inl e
                | Inr (h, r) \<Rightarrow>
                    (case array_set (hs_histos (g_hset g)) i h of
                       Inl e \<Rightarrow> Inl e
                     | Inr hs \<Rightarrow> Inr (g\<lparr>g_hset := (g_hset g)\<lparr>hs_histos := hs\<rparr>\<rparr>)))))"

text \<open>The loop that skips the periods already missed; it need not end.\<close>

partial_function (option) catch_up :: "timespec \<Rightarrow> timespec \<Rightarrow> timespec \<Rightarrow> timespec option" where
  "catch_up interval now next =
     (if tsgreater now next then catch_up interval now (tsnorm (ts_advance next interval))
      else Some next)"

declare catch_up.simps [code]

definition next_period :: "thread_param \<Rightarrow> int \<Rightarrow> timespec \<Rightarrow> timespec \<Rightarrow> timespec option" where
  "next_period par overrun_count now next =
     (let interval = thread_interval par;
          next = ts_advance next interval;
          next = (if p_mode par = MODE_CYCLIC
                  then \<lparr>tv_sec = tv_sec next + overrun_count * tv_sec interval,
                        tv_nsec = tv_nsec next + overrun_count * tv_nsec interval\<rparr>
                  else next)
      in catch_up interval now (tsnorm next))"

text \<open>
  Everything from the latency to the end of the round. The result tells whether the loop
  is left by the \<open>break\<close> on \<open>max_cycles\<close>.
\<close>

definition account ::
  "config \<Rightarrow> thread_param \<Rightarrow> wake \<Rightarrow> ulong \<Rightarrow> thread_state \<Rightarrow> thread_fault + bool \<times> thread_state" where
  "account cfg par w diff_smi st =
     (let now = ts_now st;
          diff = latency cfg now (ts_next st);
          g = signal_new_max cfg diff (ts_stat st) (ts_glob st);
          st = st\<lparr>ts_stat := update_extremes diff (ts_stat st)\<rparr>;
          g = record_spike cfg par diff now g;
          g = check_duration cfg now (ts_stop st) g;
          st = break_trace cfg diff (st\<lparr>ts_glob := g\<rparr>);
          stat = (ts_stat st)\<lparr>s_act := diff\<rparr>
      in case buffer_values cfg par diff diff_smi stat of
           Inl e \<Rightarrow> Inl (Fault e)
         | Inr stat \<Rightarrow>
             (case sample_histogram cfg diff stat (ts_glob st) of
                Inl e \<Rightarrow> Inl (Fault e)
              | Inr g \<Rightarrow>
                  let stat = stat\<lparr>s_cycles := s_cycles stat + 1\<rparr>
                  in case next_period par (w_overrun w) now (ts_next st) of
                       None \<Rightarrow> Inl Hang
                     | Some next \<Rightarrow>
                         Inr (p_max_cycles par \<noteq> 0 \<and> p_max_cycles par = s_cycles stat,
                              st\<lparr>ts_stat := stat, ts_glob := g, ts_next := next\<rparr>)))"

text \<open>One round: \<open>True\<close> means that the loop is left (\<open>goto out\<close> or \<open>break\<close>).\<close>

definition timer_round ::
  "config \<Rightarrow> thread_param \<Rightarrow> thread_state \<Rightarrow> wake \<Rightarrow> thread_fault + bool \<times> thread_state" where
  "timer_round cfg par st w =
     (case wait_period par w st of
        None \<Rightarrow> Inr (True, st)
      | Some st \<Rightarrow>
          if fst (w_after w) \<noteq> 0 then Inr (True, st)
          else
            case count_smi cfg w (st\<lparr>ts_now := snd (w_after w)\<rparr>) of
              None \<Rightarrow> Inr (True, st\<lparr>ts_now := snd (w_after w)\<rparr>)
            | Some (st, diff_smi) \<Rightarrow> account cfg par w diff_smi st)"

text \<open>What other threads and the signal handler did to \<open>shutdown\<close> before the loop tests it.\<close>

definition others_shutdown :: "wake \<Rightarrow> thread_state \<Rightarrow> thread_state" where
  "others_shutdown w st =
     (let g = ts_glob st in st\<lparr>ts_glob := g\<lparr>g_shutdown := g_shutdown g + w_shutdown w\<rparr>\<rparr>)"

text \<open>
  The loop, driven by the rounds' inputs. \<open>True\<close>: it ended and the code after \<open>out\<close> is
  reached; \<open>False\<close>: it waits for its next round.
\<close>

fun timer_loop ::
  "config \<Rightarrow> thread_param \<Rightarrow> thread_state \<Rightarrow> wake list \<Rightarrow> thread_fault + bool \<times> thread_state" where
  "timer_loop cfg par st [] = Inr (g_shutdown (ts_glob st) \<noteq> 0, st)"
| "timer_loop cfg par st (w # ws) =
     (let st = others_shutdown w st
      in if g_shutdown (ts_glob st) \<noteq> 0 then Inr (True, st)
         else case timer_round cfg par st w of
           Inl e \<Rightarrow> Inl e
         | Inr (leave, st) \<Rightarrow> if leave then Inr (True, st) else timer_loop cfg par st ws)"

section \<open>Start and exit of a thread\<close>

text \<open>
  The start time: \<open>globalt\<close> is the reading thread 0 took between the two barriers (for
  \<open>--secaligned\<close> it is rounded to the next second by \<open>align_globalt\<close>), \<open>clock_now\<close> the
  thread's own reading.
\<close>

definition align_globalt :: "config \<Rightarrow> timespec \<Rightarrow> timespec" where
  "align_globalt cfg globalt =
     (if c_secaligned cfg
      then \<lparr>tv_sec = (if tv_nsec globalt > 900000000 then tv_sec globalt + 2 else tv_sec globalt + 1),
            tv_nsec = 0\<rparr>
      else globalt)"

definition start_time :: "config \<Rightarrow> thread_param \<Rightarrow> timespec \<Rightarrow> timespec \<Rightarrow> timespec" where
  "start_time cfg par globalt clock_now =
     (if c_aligned cfg \<or> c_secaligned cfg
      then if c_offset cfg \<noteq> 0
           then tsnorm (globalt\<lparr>tv_nsec := tv_nsec globalt
                  + (if c_aligned cfg then s32 (c_offset cfg * p_tnum par) else c_offset cfg)\<rparr>)
           else globalt
      else clock_now)"

definition timer_setup ::
  "config \<Rightarrow> thread_param \<Rightarrow> int \<Rightarrow> timespec \<Rightarrow> timespec \<Rightarrow> ulong \<Rightarrow> thread_stat \<Rightarrow> globals \<Rightarrow> thread_state" where
  "timer_setup cfg par tid globalt clock_now smi_old stat g =
     (let now = start_time cfg par globalt clock_now
      in \<lparr>ts_now = now,
          ts_next = tsnorm (ts_advance now (thread_interval par)),
          ts_stop = (if c_duration cfg \<noteq> 0 then now\<lparr>tv_sec := tv_sec now + c_duration cfg\<rparr>
                     else \<lparr>tv_sec = 0, tv_nsec = 0\<rparr>),
          ts_stopped = False,
          ts_smi_old = smi_old,
          ts_stat = stat\<lparr>s_tid := tid, s_threadstarted := s_threadstarted stat + 1\<rparr>,
          ts_glob = g\<rparr>)"

definition timer_exit :: "config \<Rightarrow> thread_param \<Rightarrow> thread_state \<Rightarrow> thread_state" where
  "timer_exit cfg par st =
     (let g = ts_glob st;
          g = (if c_refresh_on_max cfg
               then g\<lparr>g_shutdown := g_shutdown g + 1, g_events := Cond_Signal # g_events g\<rparr> else g);
          ev = (if p_mode par = MODE_CYCLIC then [Timer_Delete] else [])
             @ (if p_mode par = MODE_SYS_ITIMER then [Itimer_Off] else [])
             @ (if c_smi cfg then [Msr_Close] else [])
             @ [Sched_Other]
      in st\<lparr>ts_glob := g\<lparr>g_events := rev ev @ g_events g\<rparr>,
            ts_stat := (ts_stat st)\<lparr>s_threadstarted := - 1\<rparr>\<rparr>)"

text \<open>
  The whole thread. \<open>sched\<close> is the outcome of \<open>setscheduler\<close> (\<open>None\<close>: it does not return),
  \<open>msr\<close> the file descriptor of the MSR interface and \<open>smi0\<close> the first SMI reading.
\<close>

definition timerthread ::
  "config \<Rightarrow> thread_param \<Rightarrow> int \<Rightarrow> int option \<Rightarrow> int \<Rightarrow> ulong option \<Rightarrow> timespec \<Rightarrow> timespec
     \<Rightarrow> thread_stat \<Rightarrow> globals \<Rightarrow> wake list \<Rightarrow> thread_fault + bool \<times> thread_state" where
  "timerthread cfg par tid sched msr smi0 globalt clock_now stat g ws =
     (case sched of
        None \<Rightarrow> Inl Hang
      | Some err \<Rightarrow>
          if err \<noteq> 0 then Inl Fatal
          else if c_smi cfg \<and> (msr < 0 \<or> smi0 = None) then Inl Fatal
          else
            let par = (if c_smi cfg then par\<lparr>p_msr_fd := msr\<rparr> else par);
                smi_old = (if c_smi cfg then the smi0 else 0)
            in case timer_loop cfg par (timer_setup cfg par tid globalt clock_now smi_old stat g) ws of
                 Inl e \<Rightarrow> Inl e
               | Inr (ended, st) \<Rightarrow> Inr (ended, if ended then timer_exit cfg par st else st))"

section \<open>Deadlines\<close>

lemma thread_interval_normal: "normal (thread_interval par)"
  and ns_thread_interval: "ns (thread_interval par) = 1000 * uint (p_interval par)"
proof -
  have m: "uint (p_interval par mod 1000000) = uint (p_interval par) mod 1000000"
    and d: "uint (p_interval par div 1000000) = uint (p_interval par) div 1000000"
    by (simp_all add: uint_mod uint_div)
  show "normal (thread_interval par)"
    unfolding thread_interval_def normal_def m by simp
  show "ns (thread_interval par) = 1000 * uint (p_interval par)"
    using mult_div_mod_eq [of 1000000 "uint (p_interval par)"]
    unfolding thread_interval_def ns_def m d timespec.simps by linarith
qed

lemma ts_advance_ns:
  assumes "normal t" and "normal d"
  shows "tsnorm (ts_advance t d) = of_ns (ns t + ns d)"
proof -
  have "0 \<le> tv_nsec (ts_advance t d)"
    using assms by (simp add: ts_advance_def normal_def)
  moreover have "ns (ts_advance t d) = ns t + ns d"
    by (simp add: ts_advance_def ns_def algebra_simps)
  ultimately show ?thesis by (simp add: tsnorm_eq)
qed

text \<open>The number of periods of length \<open>d\<close> from \<open>b\<close> until a time not before \<open>a\<close>.\<close>

definition periods_until :: "int \<Rightarrow> int \<Rightarrow> int \<Rightarrow> int" where
  "periods_until d a b = (if a \<le> b then 0 else (a - b + d - 1) div d)"

lemma periods_until_step:
  assumes "0 < d" and "b < a"
  shows "periods_until d a b = periods_until d a (b + d) + 1"
proof (cases "a \<le> b + d")
  case True
  have "(a - b + d - 1) div d = 1"
    by (rule div_eqI) (use assms True in simp_all)
  with True assms show ?thesis by (simp add: periods_until_def)
next
  case False
  have "(a - b + d - 1) div d = ((a - (b + d) + d - 1) + d) div d"
    by (simp add: algebra_simps)
  also have "\<dots> = (a - (b + d) + d - 1) div d + 1"
    using assms by (subst div_add_self2) simp_all
  finally show ?thesis using False assms by (simp add: periods_until_def)
qed

lemma periods_until_first:
  assumes "0 < d"
  shows "0 \<le> periods_until d a b" "a \<le> b + periods_until d a b * d"
    "b < a \<Longrightarrow> b + (periods_until d a b - 1) * d < a"
proof -
  have "0 \<le> (a - b + d - 1) div d" if "b < a"
    using that assms by (intro pos_imp_zdiv_nonneg_iff [THEN iffD2]) simp_all
  then show "0 \<le> periods_until d a b"
    by (simp add: periods_until_def)
  let ?q = "(a - b + d - 1) div d"
  have "?q * d + (a - b + d - 1) mod d = a - b + d - 1"
    by (rule div_mult_mod_eq)
  then have q: "?q * d \<le> a - b + d - 1" "a - b + d - 1 < ?q * d + d"
    using pos_mod_bound [OF assms, of "a - b + d - 1"] pos_mod_sign [OF assms, of "a - b + d - 1"]
    by linarith+
  show "a \<le> b + periods_until d a b * d"
    using q by (simp add: periods_until_def)
  show "b < a \<Longrightarrow> b + (periods_until d a b - 1) * d < a"
    using q by (simp add: periods_until_def algebra_simps)
qed

lemma catch_up_returns:
  assumes "normal iv" and "0 < ns iv" and "normal now" and "normal next"
  shows "catch_up iv now next = Some (of_ns (ns next + periods_until (ns iv) (ns now) (ns next) * ns iv))"
  using assms
proof (induction "nat (ns now - ns next)" arbitrary: "next" rule: less_induct)
  case less
  show ?case
  proof (cases "tsgreater now next")
    case False
    then have "ns now \<le> ns next"
      using less.prems by (simp add: tsgreater_iff)
    with False less.prems show ?thesis
      by (subst catch_up.simps) (simp add: periods_until_def of_ns_ns)
  next
    case True
    then have lt: "ns next < ns now"
      using less.prems by (simp add: tsgreater_iff)
    let ?next = "of_ns (ns next + ns iv)"
    have "catch_up iv now next = catch_up iv now ?next"
      using True less.prems by (subst catch_up.simps) (simp add: ts_advance_ns)
    also have "\<dots> = Some (of_ns (ns ?next + periods_until (ns iv) (ns now) (ns ?next) * ns iv))"
      using less.prems lt by (intro less.hyps) simp_all
    finally show ?thesis
      using periods_until_step [OF less.prems(2) lt] by (simp add: algebra_simps)
  qed
qed

lemma next_period_returns:
  assumes "p_interval par \<noteq> 0" and "normal now" and "normal next" and "- 1 \<le> ov"
  defines "d \<equiv> 1000 * uint (p_interval par)"
  defines "k \<equiv> if p_mode par = MODE_CYCLIC then 1 + ov else 1"
  shows "next_period par ov now next
    = Some (of_ns (ns next + (k + periods_until d (ns now) (ns next + k * d)) * d))"
proof -
  let ?iv = "thread_interval par"
  let ?n = "ts_advance next ?iv"
  let ?m = "\<lparr>tv_sec = tv_sec ?n + ov * tv_sec ?iv, tv_nsec = tv_nsec ?n + ov * tv_nsec ?iv\<rparr>"
  let ?l = "if p_mode par = MODE_CYCLIC then ?m else ?n"
  have d: "ns ?iv = d" "0 < d"
    using assms(1) by (simp_all add: ns_thread_interval d_def word_neq_0_conv word_less_def)
  have iv: "0 \<le> tv_nsec ?iv"
    using thread_interval_normal [of par] by (simp add: normal_def)
  then have "0 \<le> (1 + ov) * tv_nsec ?iv"
    using assms(4) by simp
  then have "0 \<le> tv_nsec ?l"
    using assms(3) iv by (auto simp: ts_advance_def normal_def algebra_simps)
  then have "tsnorm ?l = of_ns (ns ?l)" by (rule tsnorm_eq)
  moreover have "ns ?l = ns next + k * d"
    unfolding d(1) [symmetric] by (simp add: k_def ts_advance_def ns_def algebra_simps)
  ultimately have l: "tsnorm ?l = of_ns (ns next + k * d)" by simp
  have "next_period par ov now next = catch_up ?iv now (tsnorm ?l)"
    by (simp add: next_period_def Let_def)
  also have "\<dots> = Some (of_ns (ns next + k * d + periods_until d (ns now) (ns next + k * d) * d))"
    unfolding l using d assms(2) thread_interval_normal [of par]
    by (subst catch_up_returns) simp_all
  finally show ?thesis by (simp add: algebra_simps)
qed

text \<open>
  C36. Deadlines of the measuring loop: with a non-zero interval the search for the next
  deadline ends; the deadline found lies on the grid of the old one (no drift), at least
  one period (and every overrun period of a POSIX timer) later, is not before the time
  just read, and no earlier point of the grid would do.
\<close>

theorem next_period_no_drift:
  assumes "p_interval par \<noteq> 0" and "normal now" and "normal next" and "- 1 \<le> ov"
  defines "d \<equiv> 1000 * uint (p_interval par)"
  defines "least \<equiv> if p_mode par = MODE_CYCLIC then 1 + ov else 1"
  shows "\<exists>next' k. next_period par ov now next = Some next' \<and> normal next'
    \<and> ns next' = ns next + k * d \<and> least \<le> k \<and> ns now \<le> ns next'
    \<and> (k = least \<or> ns next + (k - 1) * d < ns now)"
proof -
  have d: "0 < d"
    using assms(1) by (simp add: d_def word_neq_0_conv word_less_def)
  let ?p = "periods_until d (ns now) (ns next + least * d)"
  note P = periods_until_first [OF d, of "ns now" "ns next + least * d"]
  have "ns next + (least + ?p - 1) * d = ns next + least * d + (?p - 1) * d"
    by (simp add: algebra_simps)
  moreover have "?p = 0" if "\<not> ns next + least * d < ns now"
    using that by (simp add: periods_until_def)
  ultimately have "least + ?p = least \<or> ns next + (least + ?p - 1) * d < ns now"
    using periods_until_first(3) [OF d, of "ns next + least * d" "ns now"] by fastforce
  moreover have "ns now \<le> ns next + (least + ?p) * d"
    using P(2) by (simp add: algebra_simps)
  ultimately show ?thesis
    using next_period_returns [OF assms(1-4)] P(1)
    by (intro exI [of _ "of_ns (ns next + (least + ?p) * d)"] exI [of _ "least + ?p"])
      (simp add: d_def [symmetric] least_def [symmetric])
qed

definition sample_param :: thread_param where
  "sample_param = \<lparr>p_prio = 80, p_policy = 1, p_mode = MODE_CYCLIC, p_timermode = TIMER_ABSTIME,
     p_signal = 14, p_clock = 1, p_max_cycles = 0, p_bufmsk = 0, p_interval = 1000, p_cpu = 0,
     p_node = - 1, p_tnum = 0, p_msr_fd = 0\<rparr>"

theorem next_period_no_drift_witness:
  "\<exists>next' k. next_period sample_param 2 \<lparr>tv_sec = 10, tv_nsec = 7000000\<rparr> \<lparr>tv_sec = 10, tv_nsec = 500\<rparr>
      = Some next' \<and> ns next' = 10000000500 + k * 1000000 \<and> 3 \<le> k \<and> 10007000000 \<le> ns next'"
proof -
  have "p_interval sample_param \<noteq> 0" "normal \<lparr>tv_sec = 10, tv_nsec = 7000000\<rparr>"
    "normal \<lparr>tv_sec = 10, tv_nsec = 500\<rparr>" "- 1 \<le> (2::int)"
    by (simp_all add: sample_param_def normal_def)
  from next_period_no_drift [OF this] show ?thesis
    by (auto simp: sample_param_def ns_def)
qed

text \<open>With interval 0 and a missed deadline the loop never ends.\<close>

lemma catch_up_ends_past:
  assumes "catch_up iv now next = Some y"
  shows "tsnorm (ts_advance next iv) = next \<longrightarrow> \<not> tsgreater now next"
  using assms by (rule catch_up.raw_induct [rotated]) (metis (no_types, lifting))

lemma catch_up_hangs:
  assumes "normal iv" and "ns iv = 0" and "normal next" and "tsgreater now next"
  shows "catch_up iv now next = None"
proof -
  have "tsnorm (ts_advance next iv) = next"
    using assms(1-3) by (simp add: ts_advance_ns of_ns_ns)
  then show ?thesis
    using assms(4) catch_up_ends_past by (metis not_Some_eq)
qed

text \<open>
  C38. A thread with interval 0 that has missed its deadline never finds the next one, in every
  mode but \<open>MODE_CYCLIC\<close>: the skipping loop adds nothing and does not end.
\<close>

theorem next_period_hangs:
  assumes "p_interval par = 0" and "p_mode par \<noteq> MODE_CYCLIC" and "normal next" and "tsgreater now next"
  shows "next_period par ov now next = None"
proof -
  have iv: "ns (thread_interval par) = 0"
    using assms(1) by (simp add: ns_thread_interval)
  have "tsnorm (ts_advance next (thread_interval par)) = next"
    using assms(3) iv thread_interval_normal by (simp add: ts_advance_ns of_ns_ns)
  then show ?thesis
    using assms catch_up_hangs [OF thread_interval_normal iv assms(3,4)]
    by (simp add: next_period_def Let_def)
qed

theorem next_period_hangs_witness:
  "next_period (sample_param\<lparr>p_mode := MODE_CLOCK_NANOSLEEP, p_interval := 0\<rparr>) 0
     \<lparr>tv_sec = 10, tv_nsec = 501\<rparr> \<lparr>tv_sec = 10, tv_nsec = 500\<rparr> = None"
  by (rule next_period_hangs) (simp_all add: sample_param_def mode_consts normal_def tsgreater_def)

section \<open>Setting the priority\<close>

lemma raise_soft_prio_success:
  assumes "raise_soft_prio sys policy prio os = (0, os')" and "os_errno sys \<noteq> 0"
  shows "\<exists>m. os_setrlimit sys (u64 prio) m os = (0, os')"
  using assms by (auto simp: raise_soft_prio_def Let_def split: if_splits prod.splits)

text \<open>
  \<open>setscheduler\<close> returns: when the operating system stores the limit that \<open>setrlimit\<close>
  accepts and \<open>sched_setscheduler\<close> leaves the limits alone, the retry after raising the
  soft limit happens at most once.
\<close>

theorem setscheduler_returns:
  assumes prio: "0 \<le> prio" "prio < 2 ^ 31"
    and set_get: "\<And>c m os os'. os_setrlimit sys c m os = (0, os') \<Longrightarrow> os_getrlimit sys os' = (0, c, m)"
    and frame: "\<And>p q os. os_getrlimit sys (snd (os_setscheduler sys p q os)) = os_getrlimit sys os"
    and errno: "os_errno sys \<noteq> 0"
  shows "\<exists>r. setscheduler sys policy prio os = Some r"
proof -
  let ?attempt = "os_setscheduler sys policy prio"
  have stuck: "\<exists>r. setscheduler sys policy prio os = Some r"
    if "os_getrlimit sys os = (0, prio, m)" for os m
  proof -
    have "os_getrlimit sys (snd (?attempt os)) = (0, prio, m)"
      using frame that by simp
    moreover have "s32 prio = prio" "prio \<noteq> RLIM_INFINITY"
      using prio by (simp_all add: s32_id RLIM_INFINITY_def)
    ultimately have "fst (raise_soft_prio sys policy prio (snd (?attempt os))) \<noteq> 0"
      using errno by (simp add: raise_soft_prio_def Let_def)
    then show ?thesis
      by (subst setscheduler.simps) (auto split: prod.splits)
  qed
  show ?thesis
  proof (cases "fst (raise_soft_prio sys policy prio (snd (?attempt os))) = 0")
    case True
    then obtain os' where r: "raise_soft_prio sys policy prio (snd (?attempt os)) = (0, os')"
      by (metis prod.collapse)
    from raise_soft_prio_success [OF this errno]
    obtain m where "os_setrlimit sys (u64 prio) m (snd (?attempt os)) = (0, os')" ..
    with set_get have "os_getrlimit sys os' = (0, prio, m)"
      using prio by (fastforce simp: u64_id)
    from stuck [OF this] r show ?thesis
      by (subst setscheduler.simps) (auto split: prod.splits)
  next
    case False
    then show ?thesis
      by (subst setscheduler.simps) (auto split: prod.splits)
  qed
qed

text \<open>An operating system whose state is the pair of limits, for the witness.\<close>

definition limit_os :: "(int \<times> int) os_calls" where
  "limit_os = \<lparr>os_priority_max = (\<lambda>_. 99), os_errno = 22, os_getrlimit = (\<lambda>(c, m). (0, c, m)),
     os_setrlimit = (\<lambda>c m (c', m'). if m \<le> m' then (0, (c, m)) else (EPERM, (c', m'))),
     os_setscheduler = (\<lambda>policy prio (c, m). (if prio \<le> c then 0 else EPERM, (c, m)))\<rparr>"

theorem setscheduler_returns_witness: "\<exists>r. setscheduler limit_os 1 80 (0, 99) = Some r"
  by (rule setscheduler_returns)
    (auto simp: limit_os_def EPERM_def split: if_splits prod.splits)

section \<open>Spikes\<close>

text \<open>The list after \<open>trigger_init\<close> with room for \<open>n\<close> spikes, and a run of updates.\<close>

definition empty_triggers :: trigger_list where
  "empty_triggers = \<lparr>tr_nodes = [], tr_current = None, tr_spikes = 0\<rparr>"

definition spike_run :: "(thread_param \<times> int \<times> int) list \<Rightarrow> trigger_list \<Rightarrow> trigger_list" where
  "spike_run xs t = foldl (\<lambda>t (par, diff, ts). trigger_update par diff ts t) t xs"

definition node_of :: "thread_param \<times> int \<times> int \<Rightarrow> thread_trigger" where
  "node_of x = (case x of (par, diff, ts) \<Rightarrow> \<lparr>t_tnum = p_tnum par, t_ts = ts, t_diff = diff\<rparr>)"

text \<open>The nodes filled so far are exactly those before \<open>current\<close>.\<close>

definition triggers_hold :: "nat \<Rightarrow> (thread_param \<times> int \<times> int) list \<Rightarrow> trigger_list \<Rightarrow> bool" where
  "triggers_hold n xs t \<longleftrightarrow> length (tr_nodes t) = n
     \<and> tr_current t = (if length xs < n then Some (length xs) else None)
     \<and> take (length xs) (tr_nodes t) = take n (map node_of xs)
     \<and> tr_spikes t = s32 (int (length xs))"

lemma trigger_init_loop_ok:
  "(\<forall>i < length nodes + n. ok i) \<Longrightarrow> snd (trigger_init_loop ok nodes n)
     \<and> length (fst (trigger_init_loop ok nodes n)) = length nodes + n"
  by (induction n arbitrary: nodes) auto

lemma trigger_init_holds:
  assumes "\<And>i. ok i" and "trigger_init ok cfg empty_triggers = (t, r)"
  shows "r = 0" "triggers_hold (nat (c_trigger_list_size cfg)) [] t"
  using assms trigger_init_loop_ok [of "[]" "nat (c_trigger_list_size cfg)" ok]
  by (auto simp: trigger_init_def triggers_hold_def empty_triggers_def s32_def split: prod.splits if_splits)

lemma s32_add: "s32 (s32 x + y) = s32 (x + y)"
  by (simp add: s32_def mod_simps algebra_simps)

lemma trigger_update_holds:
  assumes "triggers_hold n xs t"
  shows "triggers_hold n (xs @ [(par, diff, ts)]) (trigger_update par diff ts t)"
proof -
  have sp: "s32 (tr_spikes t + 1) = s32 (int (length xs) + 1)"
    using assms by (simp add: triggers_hold_def s32_add)
  show ?thesis
  proof (cases "length xs < n")
    case True
    with assms have l: "length xs < length (tr_nodes t)" "tr_current t = Some (length xs)"
      and tk: "take (length xs) (tr_nodes t) = map node_of xs"
      by (simp_all add: triggers_hold_def)
    show ?thesis
      using assms True l tk sp
      by (auto simp: triggers_hold_def trigger_update_def trigger_next_def take_Suc_conv_app_nth
          node_of_def add.commute)
  next
    case False
    with assms show ?thesis
      using sp by (auto simp: triggers_hold_def trigger_update_def add.commute)
  qed
qed

lemma spike_run_holds:
  "triggers_hold n ys t \<Longrightarrow> triggers_hold n (ys @ xs) (spike_run xs t)"
proof (induction xs arbitrary: ys t)
  case Nil
  then show ?case by (simp add: spike_run_def)
next
  case (Cons x xs)
  obtain par diff ts where x: "x = (par, diff, ts)" by (cases x)
  from Cons.IH [OF trigger_update_holds [OF Cons.prems, of par diff ts]] x show ?case
    by (simp add: spike_run_def)
qed

text \<open>
  Spikes: after an initialisation whose allocations succeed, the list holds the first
  \<open>trigger_list_size\<close> spikes in the order of their arrival, later ones are counted only,
  and the report prints exactly the recorded ones.
\<close>

theorem spikes_recorded:
  assumes "\<And>i. ok i" and "trigger_init ok cfg empty_triggers = (t, r)"
    and "0 < c_trigger_list_size cfg" and "xs \<noteq> []"
  shows "r = 0
    \<and> tr_spikes (spike_run xs t) = s32 (int (length xs))
    \<and> trigger_print (spike_run xs t) = [CHR 0x0A]
        @ concat (map (trigger_line \<circ> node_of) (take (nat (c_trigger_list_size cfg)) xs))
        @ ''spikes = '' @ fmt_d 0 (s32 (int (length xs))) @ [CHR 0x0A, CHR 0x0A]"
proof -
  define n where "n = nat (c_trigger_list_size cfg)"
  have h: "triggers_hold n xs (spike_run xs t)"
    using spike_run_holds [of n "[]" t xs] trigger_init_holds [OF assms(1,2)] by (simp add: n_def)
  have n: "0 < n" using assms(3) by (simp add: n_def)
  then have ne: "tr_nodes (spike_run xs t) \<noteq> []"
    using h by (auto simp: triggers_hold_def)
  have "(case tr_current (spike_run xs t) of None \<Rightarrow> tr_nodes (spike_run xs t)
      | Some i \<Rightarrow> take i (tr_nodes (spike_run xs t))) = map node_of (take n xs)"
    using h by (auto simp: triggers_hold_def take_map)
  with h ne assms(4) show ?thesis
    using trigger_init_holds(1) [OF assms(1,2)] unfolding n_def [symmetric]
    by (simp add: trigger_print_def triggers_hold_def)
qed

definition sample_config :: config where
  "sample_config = \<lparr>c_use_nsecs = False, c_refresh_on_max = False, c_trigger = 50,
     c_trigger_list_size = 1, c_duration = 0, c_tracelimit = 0, c_histogram = 0, c_smi = False,
     c_aligned = False, c_secaligned = False, c_offset = 0, c_oscope_reduction = 1\<rparr>"

theorem spikes_recorded_witness:
  "\<exists>t r. trigger_init (\<lambda>_. True) sample_config empty_triggers = (t, r)
     \<and> tr_spikes (spike_run [(sample_param, 60, 5), (sample_param, 70, 9)] t) = 2
     \<and> trigger_print (spike_run [(sample_param, 60, 5), (sample_param, 70, 9)] t)
       = [CHR 0x0A] @ ''T: 0 Spike:      60: TS:            5'' @ [CHR 0x0A]
         @ ''spikes = 2'' @ [CHR 0x0A, CHR 0x0A]"
proof -
  obtain t r where i: "trigger_init (\<lambda>_. True) sample_config empty_triggers = (t, r)"
    by (cases "trigger_init (\<lambda>_. True) sample_config empty_triggers")
  have l: "trigger_line (node_of (sample_param, 60, 5))
      = ''T: 0 Spike:      60: TS:            5'' @ [CHR 0x0A]" and f: "fmt_d 0 2 = ''2''"
    and c: "0 < c_trigger_list_size sample_config" "nat (c_trigger_list_size sample_config) = 1"
    and s: "s32 2 = 2"
    by code_simp+
  from spikes_recorded [OF _ i c(1), of "[(sample_param, 60, 5), (sample_param, 70, 9)]"] i show ?thesis
    by (simp add: c l f s)
qed

end
