(* ===== verification/Cyclic_Stats.thy ===== *)
theory Cyclic_Stats
  imports Cyclic_Loop
begin

text \<open>
  What cyclictest reports: \<open>print_stat\<close>, \<open>rstat_print_stat\<close>, \<open>print_hist\<close> and \<open>print_tids\<close>
  of \<^verbatim>\<open>cyclictest.c\<close>, and the properties of the statistics a measuring thread keeps.
  The specification is the list \<open>latencies\<close> of the latencies measured, in order: minimum,
  maximum, cycle count, sum, value buffer and histogram are functions of it.
\<close>

section \<open>Output\<close>

definition average :: "thread_stat \<Rightarrow> nat" where
  "average stat = (if s_cycles stat \<noteq> 0
     then double_div_trunc (s_avg stat) (double_of_nat (unat (s_cycles stat))) else 0)"

definition stat_line :: "config \<Rightarrow> thread_param \<Rightarrow> int \<Rightarrow> thread_stat \<Rightarrow> string" where
  "stat_line cfg par index stat =
     (let w = (if c_use_nsecs cfg then 8 else 5)
      in ''T:'' @ fmt_d 2 index @ '' ('' @ fmt_d 5 (s_tid stat) @ '') P:'' @ fmt_d 2 (p_prio par)
        @ '' I:'' @ fmt_d 0 (sint (p_interval par)) @ '' C:'' @ fmt_d 7 (uint (s_cycles stat))
        @ '' Min:'' @ fmt_d 7 (sint (s_min stat)) @ '' Act:'' @ fmt_d w (sint (s_act stat))
        @ '' Avg:'' @ fmt_d w (int (average stat)) @ '' Max:'' @ fmt_d 8 (sint (s_max stat))
        @ (if c_smi cfg then '' SMI:'' @ fmt_d 8 (sint (s_smi_count stat)) else [])
        @ [CHR 0x0A])"

text \<open>
  The loop of the verbose output: it reads the buffered values that are new, keeps the
  largest of \<open>oscope_reduction\<close> consecutive ones and prints it.
\<close>

definition reduce_value ::
  "config \<Rightarrow> int \<Rightarrow> ulong \<Rightarrow> ulong \<Rightarrow> thread_stat \<Rightarrow> thread_stat \<times> string" where
  "reduce_value cfg index diff diff_smi stat =
     (let stat = (if sint diff > s_redmax stat
            then stat\<lparr>s_redmax := sint diff, s_cycleofmax := s_cyclesread stat\<rparr> else stat);
          stat = stat\<lparr>s_reduce := s_reduce stat + 1\<rparr>
      in if s_reduce stat = c_oscope_reduction cfg
         then (stat\<lparr>s_reduce := 0, s_redmax := 0, s_cyclesread := s_cyclesread stat + 1\<rparr>,
               fmt_d 8 index @ '':'' @ fmt_d 8 (uint (s_cycleofmax stat)) @ '':''
                 @ fmt_d 8 (s_redmax stat)
                 @ (if c_smi cfg then fmt_d 8 (sint diff_smi) else []) @ [CHR 0x0A])
         else (stat\<lparr>s_cyclesread := s_cyclesread stat + 1\<rparr>, []))"

lemma reduce_value_cycles [simp]:
  "s_cycles (fst (reduce_value cfg index diff sm stat)) = s_cycles stat"
  "s_cyclesread (fst (reduce_value cfg index diff sm stat)) = s_cyclesread stat + 1"
  "s_values (fst (reduce_value cfg index diff sm stat)) = s_values stat"
  "s_smis (fst (reduce_value cfg index diff sm stat)) = s_smis stat"
  by (simp_all add: reduce_value_def Let_def)

lemma behind_decreases:
  assumes "c \<noteq> (r :: ulong)"
  shows "unat (c - (r + 1)) < unat (c - r)"
proof -
  have "c - r \<noteq> 0" using assms by simp
  then have "unat (c - r - 1) = unat (c - r) - 1" by (rule unat_minus_one)
  moreover have "0 < unat (c - r)" using \<open>c - r \<noteq> 0\<close> by (simp add: unat_gt_0)
  ultimately show ?thesis by (simp add: algebra_simps)
qed

function print_values ::
  "config \<Rightarrow> thread_param \<Rightarrow> int \<Rightarrow> thread_stat \<Rightarrow> (thread_stat \<times> string) checked" where
  "print_values cfg par index stat =
     (if s_cycles stat = s_cyclesread stat then Inr (stat, [])
      else
        let i = unat (s_cyclesread stat AND p_bufmsk par)
        in case array_get (s_values stat) i of
             Inl e \<Rightarrow> Inl e
           | Inr diff \<Rightarrow>
               (case (if c_smi cfg then array_get (s_smis stat) i else Inr 0) of
                  Inl e \<Rightarrow> Inl e
                | Inr diff_smi \<Rightarrow>
                    (let r = reduce_value cfg index diff diff_smi stat
                     in case print_values cfg par index (fst r) of
                          Inl e \<Rightarrow> Inl e
                        | Inr (stat, out) \<Rightarrow> Inr (stat, snd r @ out))))"
  by pat_completeness auto

termination
  by (relation "measure (\<lambda>(cfg, par, index, stat). unat (s_cycles stat - s_cyclesread stat))")
    (auto simp: behind_decreases)

declare print_values.simps [simp del]

definition print_stat ::
  "config \<Rightarrow> thread_param \<Rightarrow> int \<Rightarrow> bool \<Rightarrow> int \<Rightarrow> thread_stat \<Rightarrow> (thread_stat \<times> string) checked" where
  "print_stat cfg par index verbose quiet stat =
     (if \<not> verbose
      then Inr (stat, if quiet \<noteq> 1 then stat_line cfg par index stat else [])
      else print_values cfg par index stat)"

text \<open>The same report to the shared memory file; the text is that of \<open>print_stat\<close>.\<close>

definition rstat_print_stat ::
  "config \<Rightarrow> thread_param \<Rightarrow> int \<Rightarrow> bool \<Rightarrow> int \<Rightarrow> thread_stat \<Rightarrow> (thread_stat \<times> string) checked" where
  "rstat_print_stat cfg par index verbose quiet stat =
     (if \<not> verbose
      then Inr (stat, if quiet \<noteq> 1 then stat_line cfg par index stat else [])
      else print_values cfg par index stat)"

definition print_tids :: "thread_stat list \<Rightarrow> string" where
  "print_tids stats = ''# Thread Ids:''
     @ concat (map (\<lambda>s. '' '' @ fmt_0d 5 (s_tid s)) stats) @ [CHR 0x0A]"

fun print_buckets :: "bool \<Rightarrow> histoset \<Rightarrow> nat \<Rightarrow> nat \<Rightarrow> string checked" where
  "print_buckets histofall hs i 0 = Inr []"
| "print_buckets histofall hs i (Suc n) =
     (case hset_print_bucket hs (Some (fmt_0u 6 (of_nat i) @ '' '')) (of_nat i)
             (if histofall then HSET_PRINT_SUM else 0) of
        Inl e \<Rightarrow> Inl e
      | Inr line \<Rightarrow>
          (case print_buckets histofall hs (Suc i) n of Inl e \<Rightarrow> Inl e | Inr out \<Rightarrow> Inr (line @ out)))"

fun thread_hists :: "histoset \<Rightarrow> thread_stat list \<Rightarrow> histogram list checked" where
  "thread_hists hs [] = Inr []"
| "thread_hists hs (s # ss) =
     (case s_hist s of
        None \<Rightarrow> Inl Null_Dereference
      | Some i \<Rightarrow>
          (case array_get (hs_histos hs) i of
             Inl e \<Rightarrow> Inl e
           | Inr h \<Rightarrow> (case thread_hists hs ss of Inl e \<Rightarrow> Inl e | Inr r \<Rightarrow> Inr (h # r))))"

fun print_oflow_lines :: "nat \<Rightarrow> histogram list \<Rightarrow> string checked" where
  "print_oflow_lines i [] = Inr []"
| "print_oflow_lines i (h # hs) =
     (case hist_print_oflows h of
        Inl e \<Rightarrow> Inl e
      | Inr s \<Rightarrow>
          (case print_oflow_lines (Suc i) hs of
             Inl e \<Rightarrow> Inl e
           | Inr out \<Rightarrow> Inr (''# Thread '' @ digits_of i @ '': '' @ s @ [CHR 0x0A] @ out)))"

text \<open>\<open>None\<close>: the file \<open>--histfile\<close> cannot be opened and nothing is printed.\<close>

definition print_hist ::
  "config \<Rightarrow> bool \<Rightarrow> bool \<Rightarrow> bool \<Rightarrow> histoset \<Rightarrow> thread_stat list \<Rightarrow> string option checked" where
  "print_hist cfg histofall use_histfile fopen_ok hs stats =
     (if use_histfile \<and> \<not> fopen_ok then Inr None
      else
        let column = (\<lambda>v. '' '' @ fmt_0u 5 v);
            total = (\<lambda>v. if histofall \<and> length stats > 1 then column v else [])
        in case print_buckets histofall hs 0 (nat (c_histogram cfg)) of
             Inl e \<Rightarrow> Inl e
           | Inr buckets \<Rightarrow>
               (case thread_hists hs stats of
                  Inl e \<Rightarrow> Inl e
                | Inr hists \<Rightarrow>
                    (case print_oflow_lines 0 hists of
                       Inl e \<Rightarrow> Inl e
                     | Inr oflows \<Rightarrow> Inr (Some (
                         ''# Histogram'' @ [CHR 0x0A] @ buckets
                         @ ''# Min Latencies:'' @ concat (map (column \<circ> s_min) stats) @ [CHR 0x0A]
                         @ ''# Avg Latencies:''
                         @ concat (map (\<lambda>s. column (of_nat (average s))) stats) @ [CHR 0x0A]
                         @ ''# Max Latencies:'' @ concat (map (column \<circ> s_max) stats)
                         @ total (fold (\<lambda>s m. if s_max s > m then s_max s else m) stats 0) @ [CHR 0x0A]
                         @ ''# Histogram Overflows:'' @ concat (map (column \<circ> h_oflow_count) hists)
                         @ total (sum_list (map h_oflow_count hists)) @ [CHR 0x0A]
                         @ ''# Histogram Overflow at cycle number:'' @ [CHR 0x0A] @ oflows
                         @ (if c_smi cfg then ''# SMIs:'' @ concat (map (column \<circ> s_smi_count) stats)
                              @ [CHR 0x0A] else [])
                         @ [CHR 0x0A])))))"

section \<open>Specification: the latencies of a run\<close>

definition round_latency :: "config \<Rightarrow> thread_param \<Rightarrow> thread_state \<Rightarrow> wake \<Rightarrow> ulong option" where
  "round_latency cfg par st w =
     (case wait_period par w st of
        None \<Rightarrow> None
      | Some st1 \<Rightarrow>
          if fst (w_after w) \<noteq> 0 \<or> (c_smi cfg \<and> w_smi w = None) then None
          else Some (latency cfg (snd (w_after w)) (ts_next st1)))"

fun latencies :: "config \<Rightarrow> thread_param \<Rightarrow> thread_state \<Rightarrow> wake list \<Rightarrow> ulong list" where
  "latencies cfg par st [] = []"
| "latencies cfg par st (w # ws) =
     (let st = others_shutdown w st
      in if g_shutdown (ts_glob st) \<noteq> 0 then []
         else case timer_round cfg par st w of
           Inl e \<Rightarrow> []
         | Inr (leave, st') \<Rightarrow>
             (case round_latency cfg par st w of
                None \<Rightarrow> []
              | Some d \<Rightarrow> d # (if leave then [] else latencies cfg par st' ws)))"

text \<open>The statistics as a function of one more latency.\<close>

definition add_latency :: "thread_param \<Rightarrow> ulong \<Rightarrow> thread_stat \<Rightarrow> thread_stat" where
  "add_latency par d s = s\<lparr>s_min := min d (s_min s), s_max := max d (s_max s), s_act := d,
     s_avg := double_add (s_avg s) (double_of_nat (unat d)), s_cycles := s_cycles s + 1,
     s_values := (if p_bufmsk par = 0 then s_values s
        else map_option (\<lambda>v. v[unat (s_cycles s AND p_bufmsk par) := d]) (s_values s))\<rparr>"

text \<open>The two fields that do not depend on the latencies alone are left out of the comparison.\<close>

definition core :: "thread_stat \<Rightarrow> thread_stat" where
  "core s = s\<lparr>s_smis := None, s_smi_count := 0\<rparr>"

section \<open>One round\<close>

lemma update_extremes_eq:
  "update_extremes d s = s\<lparr>s_min := min d (s_min s), s_max := max d (s_max s),
     s_avg := double_add (s_avg s) (double_of_nat (unat d))\<rparr>"
  by (rule thread_stat.equality) (auto simp: update_extremes_def Let_def min_def max_def)

lemma buffer_values_eq:
  assumes "buffer_values cfg par d ds s = Inr s'"
  shows "core s' = (core s)\<lparr>s_values := (if p_bufmsk par = 0 then s_values s
      else map_option (\<lambda>v. v[unat (s_cycles s AND p_bufmsk par) := d]) (s_values s))\<rparr>"
  using assms
  by (auto simp: buffer_values_def core_def Let_def array_set_def
      split: if_splits option.splits sum.splits)

lemma break_trace_stat [simp]:
  "ts_stat (break_trace cfg d st) = ts_stat st" "ts_next (break_trace cfg d st) = ts_next st"
  "ts_now (break_trace cfg d st) = ts_now st"
  "g_hset (ts_glob (break_trace cfg d st)) = g_hset (ts_glob st)"
  by (simp_all add: break_trace_def Let_def)

lemma globals_hset [simp]:
  "g_hset (signal_new_max cfg d s g) = g_hset g"
  "g_hset (record_spike cfg par d now g) = g_hset g"
  "g_hset (check_duration cfg now stop g) = g_hset g"
  by (simp_all add: signal_new_max_def record_spike_def check_duration_def)

text \<open>The histogram of the thread, as the state holds it.\<close>

definition thread_hist :: "thread_state \<Rightarrow> histogram" where
  "thread_hist st = the (hs_histos (g_hset (ts_glob st))) ! the (s_hist (ts_stat st))"

lemma sample_histogram_eq:
  assumes "sample_histogram cfg d s g = Inr g'" and "c_histogram cfg \<noteq> 0"
  shows "\<exists>i hs. s_hist s = Some i \<and> hs_histos (g_hset g) = Some hs \<and> i < length hs
    \<and> hist_step (hs ! i) d = Inr (the (hs_histos (g_hset g')) ! i)"
  using assms
  by (auto simp: sample_histogram_def hist_step_def array_set_def array_get_def
      split: if_splits option.splits sum.splits prod.splits)

lemma account_eq:
  assumes "account cfg par w dsmi st = Inr (leave, st')"
  defines "d \<equiv> latency cfg (ts_now st) (ts_next st)"
  shows "core (ts_stat st') = add_latency par d (core (ts_stat st))"
    and "leave \<longleftrightarrow> p_max_cycles par \<noteq> 0 \<and> p_max_cycles par = s_cycles (ts_stat st')"
    and "next_period par (w_overrun w) (ts_now st) (ts_next st) = Some (ts_next st')"
    and "c_histogram cfg \<noteq> 0 \<Longrightarrow> hist_step (thread_hist st) d = Inr (thread_hist st')"
proof -
  obtain s1 g1 nx where
    b: "buffer_values cfg par d dsmi ((update_extremes d (ts_stat st))\<lparr>s_act := d\<rparr>) = Inr s1"
    and h: "sample_histogram cfg d s1 (ts_glob (break_trace cfg d (st\<lparr>
        ts_stat := update_extremes d (ts_stat st), ts_glob := check_duration cfg (ts_now st) (ts_stop st)
          (record_spike cfg par d (ts_now st) (signal_new_max cfg d (ts_stat st) (ts_glob st)))\<rparr>))) = Inr g1"
    and n: "next_period par (w_overrun w) (ts_now st) (ts_next st) = Some nx"
    using assms(1) unfolding account_def d_def [symmetric]
    by (auto simp: Let_def d_def [symmetric] split: sum.splits option.splits)
  have st': "ts_stat st' = s1\<lparr>s_cycles := s_cycles s1 + 1\<rparr>" "ts_glob st' = g1" "ts_next st' = nx"
    and l: "leave \<longleftrightarrow> p_max_cycles par \<noteq> 0 \<and> p_max_cycles par = s_cycles s1 + 1"
    using assms(1) b h n unfolding account_def d_def [symmetric]
    by (auto simp: Let_def d_def [symmetric])
  note c = buffer_values_eq [OF b]
  have c': "s_cycles s1 = s_cycles (ts_stat st)" "s_hist s1 = s_hist (ts_stat st)"
    using arg_cong [OF c, of s_cycles] arg_cong [OF c, of s_hist]
    by (simp_all add: core_def update_extremes_eq)
  have "core (ts_stat st') = (core s1)\<lparr>s_cycles := s_cycles s1 + 1\<rparr>"
    by (simp add: st' core_def)
  then show "core (ts_stat st') = add_latency par d (core (ts_stat st))"
    unfolding c c' by (simp add: update_extremes_eq add_latency_def core_def)
  show "leave \<longleftrightarrow> p_max_cycles par \<noteq> 0 \<and> p_max_cycles par = s_cycles (ts_stat st')"
    using l by (simp add: st')
  show "next_period par (w_overrun w) (ts_now st) (ts_next st) = Some (ts_next st')"
    using n st' by simp
  show "hist_step (thread_hist st) d = Inr (thread_hist st')" if "c_histogram cfg \<noteq> 0"
    using sample_histogram_eq [OF h that] c' st' by (auto simp: thread_hist_def)
qed

lemma wait_period_keeps:
  assumes "wait_period par w st = Some st1"
  shows "ts_stat st1 = ts_stat st" "ts_glob st1 = ts_glob st"
  using assms by (auto simp: wait_period_def Let_def split: if_splits)

lemma timer_round_measures:
  assumes "timer_round cfg par st w = Inr (leave, st')" and "round_latency cfg par st w = Some d"
  shows "core (ts_stat st') = add_latency par d (core (ts_stat st))"
    and "leave \<longleftrightarrow> p_max_cycles par \<noteq> 0 \<and> p_max_cycles par = s_cycles (ts_stat st')"
    and "c_histogram cfg \<noteq> 0 \<Longrightarrow> hist_step (thread_hist st) d = Inr (thread_hist st')"
proof -
  obtain st1 where st1: "wait_period par w st = Some st1"
    and d: "d = latency cfg (snd (w_after w)) (ts_next st1)"
    and ok: "fst (w_after w) = 0" "\<not> (c_smi cfg \<and> w_smi w = None)"
    using assms(2) by (auto simp: round_latency_def split: option.splits if_splits)
  then obtain st2 dsmi where
    a: "account cfg par w dsmi st2 = Inr (leave, st')"
    and st2: "core (ts_stat st2) = core (ts_stat st1)" "ts_glob st2 = ts_glob st1"
      "ts_now st2 = snd (w_after w)" "ts_next st2 = ts_next st1" "s_hist (ts_stat st2) = s_hist (ts_stat st1)"
    using assms(1)
    by (auto simp: timer_round_def count_smi_def core_def Let_def split: if_splits option.splits)
  note A = account_eq [OF a, unfolded st2, folded d]
  show "core (ts_stat st') = add_latency par d (core (ts_stat st))"
    using A(1) wait_period_keeps [OF st1] by simp
  show "leave \<longleftrightarrow> p_max_cycles par \<noteq> 0 \<and> p_max_cycles par = s_cycles (ts_stat st')"
    by (rule A(2))
  have "thread_hist st2 = thread_hist st"
    using wait_period_keeps [OF st1] st2 by (simp add: thread_hist_def)
  then show "c_histogram cfg \<noteq> 0 \<Longrightarrow> hist_step (thread_hist st) d = Inr (thread_hist st')"
    using A(4) by simp
qed

lemma timer_round_leaves:
  assumes "timer_round cfg par st w = Inr (leave, st')" and "round_latency cfg par st w = None"
  shows "leave" "ts_stat st' = ts_stat st" "g_hset (ts_glob st') = g_hset (ts_glob st)"
proof -
  have "leave \<and> ts_stat st' = ts_stat st \<and> ts_glob st' = ts_glob st"
    using assms wait_period_keeps [of par w st]
    by (auto simp: timer_round_def round_latency_def count_smi_def Let_def
        split: if_splits option.splits)
  then show "leave" "ts_stat st' = ts_stat st" "g_hset (ts_glob st') = g_hset (ts_glob st)"
    by simp_all
qed

section \<open>Runs\<close>

lemma timer_loop_stat:
  assumes "timer_loop cfg par st ws = Inr (ended, st')"
  shows "core (ts_stat st') = fold (add_latency par) (latencies cfg par st ws) (core (ts_stat st))"
    and "c_histogram cfg \<noteq> 0 \<Longrightarrow>
      fold_res hist_step (thread_hist st) (latencies cfg par st ws) = Inr (thread_hist st')"
proof -
  have "core (ts_stat st') = fold (add_latency par) (latencies cfg par st ws) (core (ts_stat st))
    \<and> (c_histogram cfg \<noteq> 0 \<longrightarrow>
      fold_res hist_step (thread_hist st) (latencies cfg par st ws) = Inr (thread_hist st'))"
    using assms
  proof (induction ws arbitrary: st)
    case Nil
    then show ?case by simp
  next
    case (Cons w ws)
    define st0 where "st0 = others_shutdown w st"
    have st0: "ts_stat st0 = ts_stat st" "thread_hist st0 = thread_hist st"
      by (simp_all add: st0_def others_shutdown_def thread_hist_def Let_def)
    show ?case
    proof (cases "g_shutdown (ts_glob st0) \<noteq> 0")
      case True
      with Cons.prems show ?thesis
        using st0 by (auto simp: st0_def [symmetric] Let_def)
    next
      case False
      with Cons.prems obtain leave st1 where r: "timer_round cfg par st0 w = Inr (leave, st1)"
        and rest: "(if leave then Inr (True, st1) else timer_loop cfg par st1 ws) = Inr (ended, st')"
        by (auto simp: st0_def [symmetric] Let_def split: sum.splits)
      have l: "latencies cfg par st (w # ws) = (case round_latency cfg par st0 w of None \<Rightarrow> []
          | Some d \<Rightarrow> d # (if leave then [] else latencies cfg par st1 ws))"
        using False r by (simp add: st0_def [symmetric] Let_def)
      show ?thesis
      proof (cases "round_latency cfg par st0 w")
        case None
        with timer_round_leaves [OF r None] rest l st0 show ?thesis
          by (simp add: thread_hist_def)
      next
        case (Some d)
        with timer_round_measures [OF r Some] rest l st0 Cons.IH [of st1] show ?thesis
          by (auto split: if_splits)
      qed
    qed
  qed
  then show "core (ts_stat st') = fold (add_latency par) (latencies cfg par st ws) (core (ts_stat st))"
    and "c_histogram cfg \<noteq> 0 \<Longrightarrow>
      fold_res hist_step (thread_hist st) (latencies cfg par st ws) = Inr (thread_hist st')"
    by blast+
qed

section \<open>No faults\<close>

definition thread_wf :: "config \<Rightarrow> thread_param \<Rightarrow> thread_state \<Rightarrow> bool" where
  "thread_wf cfg par st \<longleftrightarrow>
     (p_bufmsk par \<noteq> 0 \<longrightarrow> (\<exists>v. s_values (ts_stat st) = Some v \<and> unat (p_bufmsk par) < length v)
        \<and> (c_smi cfg \<longrightarrow> (\<exists>v. s_smis (ts_stat st) = Some v \<and> unat (p_bufmsk par) < length v)))
     \<and> (c_histogram cfg \<noteq> 0 \<longrightarrow> (\<exists>i hs. s_hist (ts_stat st) = Some i
        \<and> hs_histos (g_hset (ts_glob st)) = Some hs \<and> i < length hs \<and> hist_balanced (hs ! i)))
     \<and> normal (ts_next st)"

definition wake_ok :: "wake \<Rightarrow> bool" where
  "wake_ok w \<longleftrightarrow> normal (snd (w_before w)) \<and> normal (snd (w_after w)) \<and> - 1 \<le> w_overrun w"

lemma buffer_index: "unat (c AND m) \<le> unat (m :: ulong)"
  using word_and_le1 word_le_nat_alt by blast

lemma buffer_values_ok:
  assumes "p_bufmsk par \<noteq> 0 \<longrightarrow> (\<exists>v. s_values s = Some v \<and> unat (p_bufmsk par) < length v)
        \<and> (c_smi cfg \<longrightarrow> (\<exists>v. s_smis s = Some v \<and> unat (p_bufmsk par) < length v))"
  shows "\<exists>s'. buffer_values cfg par d dsmi s = Inr s' \<and> s_hist s' = s_hist s
    \<and> (p_bufmsk par \<noteq> 0 \<longrightarrow> (\<exists>v. s_values s' = Some v \<and> unat (p_bufmsk par) < length v)
        \<and> (c_smi cfg \<longrightarrow> (\<exists>v. s_smis s' = Some v \<and> unat (p_bufmsk par) < length v)))"
proof -
  have i: "unat (s_cycles s AND p_bufmsk par) < n" if "unat (p_bufmsk par) < n" for n
    using buffer_index [of "s_cycles s" "p_bufmsk par"] that by simp
  show ?thesis
    using assms i by (auto simp: buffer_values_def Let_def array_set_def)
qed

lemma sample_histogram_ok:
  assumes "c_histogram cfg \<noteq> 0 \<longrightarrow> (\<exists>i hs. s_hist s = Some i
    \<and> hs_histos (g_hset g) = Some hs \<and> i < length hs \<and> hist_balanced (hs ! i))"
  shows "\<exists>g'. sample_histogram cfg d s g = Inr g' \<and>
    (c_histogram cfg \<noteq> 0 \<longrightarrow> (\<exists>i hs. s_hist s = Some i
      \<and> hs_histos (g_hset g') = Some hs \<and> i < length hs \<and> hist_balanced (hs ! i)))"
proof (cases "c_histogram cfg = 0")
  case True
  then show ?thesis by (simp add: sample_histogram_def)
next
  case False
  with assms obtain i hs where hs: "s_hist s = Some i" "hs_histos (g_hset g) = Some hs"
    "i < length hs" "hist_balanced (hs ! i)" by blast
  from hist.step_ok [OF hs(4), of d] obtain h' r where "hist_sample (hs ! i) d = Inr (h', r)"
    "hist_balanced h'"
    by (auto simp: hist_step_def map_sum_def split: sum.splits)
  with False hs show ?thesis by (simp add: sample_histogram_def)
qed

lemma account_ok:
  assumes "thread_wf cfg par st" and "p_interval par \<noteq> 0" and "normal (ts_now st)" and "- 1 \<le> w_overrun w"
  shows "\<exists>leave st'. account cfg par w dsmi st = Inr (leave, st') \<and> thread_wf cfg par st'"
proof -
  define d where "d = latency cfg (ts_now st) (ts_next st)"
  define st1 where "st1 = break_trace cfg d (st\<lparr>ts_stat := update_extremes d (ts_stat st),
    ts_glob := check_duration cfg (ts_now st) (ts_stop st)
      (record_spike cfg par d (ts_now st) (signal_new_max cfg d (ts_stat st) (ts_glob st)))\<rparr>)"
  have st1: "ts_stat st1 = update_extremes d (ts_stat st)" "g_hset (ts_glob st1) = g_hset (ts_glob st)"
    "ts_next st1 = ts_next st"
    by (simp_all add: st1_def)
  let ?s = "(ts_stat st1)\<lparr>s_act := d\<rparr>"
  obtain s' where s': "buffer_values cfg par d dsmi ?s = Inr s'" "s_hist s' = s_hist ?s"
    "p_bufmsk par \<noteq> 0 \<longrightarrow> (\<exists>v. s_values s' = Some v \<and> unat (p_bufmsk par) < length v)
        \<and> (c_smi cfg \<longrightarrow> (\<exists>v. s_smis s' = Some v \<and> unat (p_bufmsk par) < length v))"
    using buffer_values_ok [of par ?s cfg d dsmi] assms(1)
    by (auto simp: thread_wf_def st1 update_extremes_eq)
  obtain g' where g': "sample_histogram cfg d s' (ts_glob st1) = Inr g'"
    "c_histogram cfg \<noteq> 0 \<longrightarrow> (\<exists>i hs. s_hist s' = Some i
      \<and> hs_histos (g_hset g') = Some hs \<and> i < length hs \<and> hist_balanced (hs ! i))"
    using sample_histogram_ok [of cfg s' "ts_glob st1" d] assms(1) s'(2)
    by (auto simp: thread_wf_def st1 update_extremes_eq)
  have "normal (ts_next st)" using assms(1) by (simp add: thread_wf_def)
  from next_period_returns [OF assms(2,3) this assms(4)] obtain nx where
    nx: "next_period par (w_overrun w) (ts_now st) (ts_next st) = Some nx" "normal nx"
    by simp
  show ?thesis
    using s' g' nx unfolding account_def d_def [symmetric] Let_def
    by (simp add: d_def [symmetric] st1_def [symmetric] st1 thread_wf_def)
qed

lemma timer_round_ok:
  assumes "thread_wf cfg par st" and "p_interval par \<noteq> 0" and "wake_ok w"
  shows "\<exists>leave st'. timer_round cfg par st w = Inr (leave, st') \<and> thread_wf cfg par st'"
proof (cases "wait_period par w st")
  case None
  with assms(1) show ?thesis by (auto simp: timer_round_def)
next
  case (Some st1)
  have "normal (ts_next st1)"
    using Some assms thread_interval_normal
    by (auto simp: wait_period_def wake_ok_def thread_wf_def ts_advance_ns Let_def split: if_splits)
  with wait_period_keeps [OF Some] assms(1) have wf: "thread_wf cfg par st1"
    by (simp add: thread_wf_def)
  then have wf': "thread_wf cfg par (st1\<lparr>ts_now := t\<rparr>)" for t
    by (simp add: thread_wf_def)
  show ?thesis
  proof (cases "fst (w_after w) \<noteq> 0 \<or> count_smi cfg w (st1\<lparr>ts_now := snd (w_after w)\<rparr>) = None")
    case True
    with Some wf wf' show ?thesis by (auto simp: timer_round_def)
  next
    case False
    then obtain st2 dsmi where c: "count_smi cfg w (st1\<lparr>ts_now := snd (w_after w)\<rparr>) = Some (st2, dsmi)"
      by auto
    then have "thread_wf cfg par st2" "ts_now st2 = snd (w_after w)"
      using wf' by (auto simp: count_smi_def thread_wf_def Let_def split: if_splits option.splits)
    with account_ok [of cfg par st2 w dsmi] assms(2,3) Some False c show ?thesis
      by (simp add: timer_round_def wake_ok_def)
  qed
qed

lemma timer_loop_ok:
  assumes "thread_wf cfg par st" and "p_interval par \<noteq> 0" and "\<forall>w \<in> set ws. wake_ok w"
  shows "\<exists>ended st'. timer_loop cfg par st ws = Inr (ended, st') \<and> thread_wf cfg par st'"
  using assms
proof (induction ws arbitrary: st)
  case Nil
  then show ?case by simp
next
  case (Cons w ws)
  have wf: "thread_wf cfg par (others_shutdown w st)"
    using Cons.prems(1) by (simp add: thread_wf_def others_shutdown_def Let_def)
  from timer_round_ok [OF wf Cons.prems(2), of w] Cons.prems(3) obtain leave st1 where
    r: "timer_round cfg par (others_shutdown w st) w = Inr (leave, st1)" "thread_wf cfg par st1"
    by auto
  show ?case
    using r wf Cons.IH [OF r(2) Cons.prems(2)] Cons.prems(3) by (auto simp: Let_def)
qed

section \<open>Properties of a measuring thread\<close>

text \<open>The parameters and the state with which the loop of a thread starts.\<close>

definition loop_param :: "config \<Rightarrow> thread_param \<Rightarrow> int \<Rightarrow> thread_param" where
  "loop_param cfg par msr = (if c_smi cfg then par\<lparr>p_msr_fd := msr\<rparr> else par)"

definition loop_start ::
  "config \<Rightarrow> thread_param \<Rightarrow> int \<Rightarrow> int \<Rightarrow> ulong option \<Rightarrow> timespec \<Rightarrow> timespec
     \<Rightarrow> thread_stat \<Rightarrow> globals \<Rightarrow> thread_state" where
  "loop_start cfg par tid msr smi0 globalt clock_now stat g =
     timer_setup cfg (loop_param cfg par msr) tid globalt clock_now
       (if c_smi cfg then the smi0 else 0) stat g"

definition thread_latencies ::
  "config \<Rightarrow> thread_param \<Rightarrow> int \<Rightarrow> int \<Rightarrow> ulong option \<Rightarrow> timespec \<Rightarrow> timespec
     \<Rightarrow> thread_stat \<Rightarrow> globals \<Rightarrow> wake list \<Rightarrow> ulong list" where
  "thread_latencies cfg par tid msr smi0 globalt clock_now stat g ws =
     latencies cfg (loop_param cfg par msr)
       (loop_start cfg par tid msr smi0 globalt clock_now stat g) ws"

lemma timerthread_loop:
  assumes "timerthread cfg par tid sched msr smi0 globalt clock_now stat g ws = Inr (ended, st)"
  shows "\<exists>st1. timer_loop cfg (loop_param cfg par msr)
      (loop_start cfg par tid msr smi0 globalt clock_now stat g) ws = Inr (ended, st1)
    \<and> st = (if ended then timer_exit cfg (loop_param cfg par msr) st1 else st1)"
  using assms
  by (auto simp: timerthread_def loop_start_def loop_param_def Let_def
      split: option.splits if_splits sum.splits)

lemma timer_exit_keeps [simp]:
  "core (ts_stat (timer_exit cfg par st)) = (core (ts_stat st))\<lparr>s_threadstarted := - 1\<rparr>"
  "thread_hist (timer_exit cfg par st) = thread_hist st"
  by (simp_all add: timer_exit_def core_def thread_hist_def Let_def)

lemma Min_insert_min: "finite S \<Longrightarrow> Min (insert (min a b) S) = Min (insert b (insert a S))"
  and Max_insert_max: "finite S \<Longrightarrow> Max (insert (max a b) S) = Max (insert b (insert a S))"
  for a b :: "'a::linorder"
  by (cases "S = {}"; simp add: min.commute max.commute min.left_commute max.left_commute)+

lemma add_latency_simps:
  "s_cycles (add_latency par d s) = s_cycles s + 1"
  "s_min (add_latency par d s) = min d (s_min s)"
  "s_max (add_latency par d s) = max d (s_max s)"
  "s_avg (add_latency par d s) = double_add (s_avg s) (double_of_nat (unat d))"
  "s_values (add_latency par d s) = (if p_bufmsk par = 0 then s_values s
     else map_option (\<lambda>v. v[unat (s_cycles s AND p_bufmsk par) := d]) (s_values s))"
  by (simp_all add: add_latency_def)

lemma fold_add_latency:
  "s_cycles (fold (add_latency par) ds s) = s_cycles s + of_nat (length ds)"
  "s_min (fold (add_latency par) ds s) = Min (insert (s_min s) (set ds))"
  "s_max (fold (add_latency par) ds s) = Max (insert (s_max s) (set ds))"
proof (induction ds arbitrary: s)
  case (Cons d ds)
  case 1 show ?case by (simp add: Cons add_latency_simps)
  case 2 show ?case by (simp add: Cons add_latency_simps Min_insert_min del: Min_insert)
  case 3 show ?case by (simp add: Cons add_latency_simps Max_insert_max del: Max_insert)
qed simp_all

lemma fold_add_latency_sum:
  assumes "s_avg s + (\<Sum>d\<leftarrow>ds. unat d) < 2 ^ 53"
  shows "s_avg (fold (add_latency par) ds s) = s_avg s + (\<Sum>d\<leftarrow>ds. unat d)"
  using assms
proof (induction ds arbitrary: s)
  case (Cons d ds)
  have "s_avg (add_latency par d s) = s_avg s + unat d"
    using Cons.prems by (simp add: add_latency_simps double_of_nat_exact double_add_exact)
  with Cons.IH [of "add_latency par d s"] Cons.prems show ?case by simp
qed simp

lemma timerthread_folds:
  assumes "timerthread cfg par tid sched msr smi0 globalt clock_now stat g ws = Inr (ended, st)"
  defines "ds \<equiv> thread_latencies cfg par tid msr smi0 globalt clock_now stat g ws"
  shows "s_cycles (ts_stat st) = s_cycles stat + of_nat (length ds)"
    and "s_min (ts_stat st) = Min (insert (s_min stat) (set ds))"
    and "s_max (ts_stat st) = Max (insert (s_max stat) (set ds))"
    and "s_avg stat + (\<Sum>d\<leftarrow>ds. unat d) < 2 ^ 53 \<Longrightarrow> s_avg (ts_stat st) = s_avg stat + (\<Sum>d\<leftarrow>ds. unat d)"
proof -
  let ?par = "loop_param cfg par msr"
  let ?st0 = "loop_start cfg par tid msr smi0 globalt clock_now stat g"
  from timerthread_loop [OF assms(1)] obtain st1 where
    loop: "timer_loop cfg ?par ?st0 ws = Inr (ended, st1)"
    and st: "st = (if ended then timer_exit cfg ?par st1 else st1)" by blast
  define f where "f = fold (add_latency ?par) ds (core (ts_stat ?st0))"
  have f: "core (ts_stat st1) = f"
    unfolding f_def ds_def thread_latencies_def by (rule timer_loop_stat(1) [OF loop])
  have f': "s_cycles (ts_stat st) = s_cycles f" "s_min (ts_stat st) = s_min f"
    "s_max (ts_stat st) = s_max f" "s_avg (ts_stat st) = s_avg f"
    unfolding f [symmetric] st by (simp_all add: timer_exit_def core_def Let_def)
  have z: "s_cycles (core (ts_stat ?st0)) = s_cycles stat" "s_min (core (ts_stat ?st0)) = s_min stat"
    "s_max (core (ts_stat ?st0)) = s_max stat" "s_avg (core (ts_stat ?st0)) = s_avg stat"
    by (simp_all add: loop_start_def timer_setup_def core_def Let_def)
  show "s_cycles (ts_stat st) = s_cycles stat + of_nat (length ds)"
    and "s_min (ts_stat st) = Min (insert (s_min stat) (set ds))"
    and "s_max (ts_stat st) = Max (insert (s_max stat) (set ds))"
    by (simp_all only: f' f_def fold_add_latency z)
  show "s_avg stat + (\<Sum>d\<leftarrow>ds. unat d) < 2 ^ 53 \<Longrightarrow> s_avg (ts_stat st) = s_avg stat + (\<Sum>d\<leftarrow>ds. unat d)"
    using fold_add_latency_sum [of "core (ts_stat ?st0)" ds ?par] by (simp only: f' f_def z)
qed

lemma average_exact:
  assumes "s_cycles s = of_nat n" and "s_avg s < 2 ^ 53" and "0 < n" and "n < 2 ^ 53"
  shows "average s = s_avg s div n"
proof -
  have u: "unat (of_nat n :: ulong) = n"
    using assms by (simp add: unsigned_of_nat take_bit_nat_eq_self)
  then have "(of_nat n :: ulong) \<noteq> 0"
    using assms by (metis unat_0 less_irrefl)
  then show ?thesis
    using assms u by (simp add: average_def double_of_nat_exact double_div_trunc_exact)
qed

text \<open>Where all latencies have the same sign, the unsigned comparison of the code is the signed one.\<close>

lemma same_sign_le:
  fixes a b :: ulong
  assumes "0 \<le> sint a \<longleftrightarrow> 0 \<le> sint b"
  shows "a \<le> b \<longleftrightarrow> sint a \<le> sint b"
proof -
  have u: "uint x = (if 0 \<le> sint x then sint x else sint x + 2 ^ 64)" for x :: ulong
  proof (cases "0 \<le> sint x")
    case True
    then show ?thesis
      using sint_lt [of x] by (simp add: uint_sint take_bit_eq_mod)
  next
    case False
    have "uint x = (sint x + 2 ^ 64) mod 2 ^ 64" by (simp add: uint_sint take_bit_eq_mod)
    also have "\<dots> = sint x + 2 ^ 64"
      using False sint_ge [of x] by (intro mod_pos_pos_trivial) simp_all
    finally show ?thesis using False by simp
  qed
  show ?thesis
    using assms by (auto simp: word_le_def u)
qed

lemma same_sign_extremes:
  fixes S :: "ulong set"
  assumes "finite S" and "S \<noteq> {}" and "(\<forall>a \<in> S. 0 \<le> sint a) \<or> (\<forall>a \<in> S. sint a < 0)"
  shows "sint (Max S) = Max (sint ` S)" "sint (Min S) = Min (sint ` S)"
proof -
  have m: "Max S \<in> S" "Min S \<in> S" using assms(1,2) by simp_all
  have "0 \<le> sint a \<longleftrightarrow> 0 \<le> sint b" if "a \<in> S" "b \<in> S" for a b
    using assms(3) that by (metis not_le)
  then have le: "a \<le> b \<longleftrightarrow> sint a \<le> sint b" if "a \<in> S" "b \<in> S" for a b
    using that by (intro same_sign_le)
  have "sint a \<le> sint (Max S)" if "a \<in> S" for a
    using le [OF that m(1)] Max_ge [OF assms(1) that] by blast
  then show "sint (Max S) = Max (sint ` S)"
    using assms(1) m(1) by (intro Max_eqI [symmetric]) auto
  have "sint (Min S) \<le> sint a" if "a \<in> S" for a
    using le [OF m(2) that] Min_le [OF assms(1) that] by blast
  then show "sint (Min S) = Min (sint ` S)"
    using assms(1) m(2) by (intro Min_eqI [symmetric]) auto
qed

text \<open>
  C34. Statistics of a measuring thread: whatever the clock, the timers and the other
  threads do, a thread that started with the statistics \<open>main\<close> sets up (no cycle, minimum
  1000000, maximum 0, sum 0) has at every later moment
  \<^item> counted the latencies it measured, modulo \<open>2 ^ 64\<close>;
  \<^item> as its minimum the smallest of 1000000 and the latencies, and as its maximum the largest
    of 0 and the latencies, both compared as unsigned 64-bit numbers;
  \<^item> if no latency was negative, the same minimum and maximum as signed numbers;
  \<^item> if there was a latency and the sum and the number of the latencies are below \<open>2 ^ 53\<close>,
    their exact average, rounded down, to print.
\<close>

theorem timerthread_statistics:
  assumes "timerthread cfg par tid sched msr smi0 globalt clock_now stat g ws = Inr (ended, st)"
    and "s_cycles stat = 0" and "s_min stat = 1000000" and "s_max stat = 0" and "s_avg stat = 0"
  defines "ds \<equiv> thread_latencies cfg par tid msr smi0 globalt clock_now stat g ws"
  shows "s_cycles (ts_stat st) = of_nat (length ds)
    \<and> s_min (ts_stat st) = Min (insert 1000000 (set ds))
    \<and> s_max (ts_stat st) = Max (insert 0 (set ds))
    \<and> ((\<forall>d \<in> set ds. 0 \<le> sint d)
        \<longrightarrow> sint (s_min (ts_stat st)) = Min (insert 1000000 (sint ` set ds))
          \<and> sint (s_max (ts_stat st)) = Max (insert 0 (sint ` set ds)))
    \<and> ((\<Sum>d\<leftarrow>ds. unat d) < 2 ^ 53 \<and> 0 < length ds \<and> length ds < 2 ^ 53
        \<longrightarrow> average (ts_stat st) = (\<Sum>d\<leftarrow>ds. unat d) div length ds)"
proof -
  note f = timerthread_folds [OF assms(1), folded ds_def, unfolded assms(2-5)]
  have signed: "sint (Min (insert 1000000 (set ds))) = Min (insert 1000000 (sint ` set ds))"
    "sint (Max (insert 0 (set ds))) = Max (insert 0 (sint ` set ds))"
    if "\<forall>d \<in> set ds. 0 \<le> sint d"
    using that same_sign_extremes(1) [of "insert 0 (set ds)"]
      same_sign_extremes(2) [of "insert 1000000 (set ds)"]
    by (simp_all del: Max_insert Min_insert)
  show ?thesis
    using f signed average_exact [of "ts_stat st" "length ds"] by (simp del: Max_insert Min_insert)
qed

text \<open>A run of two rounds, for the witnesses: latencies 12 and 7.\<close>

definition start_stat :: thread_stat where
  "start_stat = \<lparr>s_cycles = 0, s_cyclesread = 0, s_min = 1000000, s_max = 0, s_act = 0, s_avg = 0,
     s_values = Some (replicate 4 0), s_smis = None, s_hist = Some 0, s_threadstarted = 1,
     s_tid = 0, s_reduce = 0, s_redmax = 0, s_cycleofmax = 0, s_smi_count = 0\<rparr>"

definition start_globals :: globals where
  "start_globals = \<lparr>g_shutdown = 0,
     g_hset = \<lparr>hs_histos = Some [fst (hist_init True 1 20)], hs_num_histos = 1, hs_num_buckets = 20\<rparr>,
     g_trig = empty_triggers, g_break_thread_id = 0, g_break_thread_value = 0, g_events = []\<rparr>"

definition run_config :: config where
  "run_config = sample_config\<lparr>c_trigger := 0, c_histogram := 20\<rparr>"

definition run_param :: thread_param where
  "run_param = sample_param\<lparr>p_mode := MODE_CLOCK_NANOSLEEP, p_bufmsk := 3\<rparr>"

definition run_wakes :: "wake list" where
  "run_wakes = map (\<lambda>n. \<lparr>w_shutdown = 0, w_ret = 0, w_before = (0, \<lparr>tv_sec = 0, tv_nsec = 0\<rparr>),
     w_after = (0, \<lparr>tv_sec = 5, tv_nsec = n\<rparr>), w_smi = None, w_overrun = 0\<rparr>) [1012000, 2007000]"

definition run_clock :: timespec where
  "run_clock = \<lparr>tv_sec = 5, tv_nsec = 0\<rparr>"

abbreviation run_result :: "thread_fault + bool \<times> thread_state" where
  "run_result \<equiv> timerthread run_config run_param 4711 (Some 0) 0 None run_clock run_clock start_stat
     start_globals run_wakes"

abbreviation run_latencies :: "ulong list" where
  "run_latencies \<equiv> thread_latencies run_config run_param 4711 0 None run_clock run_clock start_stat
     start_globals run_wakes"

lemma run_params [simp]:
  "p_interval run_param \<noteq> 0" "p_bufmsk run_param = 3" "c_smi run_config = False"
  "c_histogram run_config = 20" "loop_param run_config run_param 0 = run_param"
  by (simp_all add: run_param_def run_config_def sample_param_def sample_config_def loop_param_def)

lemma run_wakes_ok: "\<forall>w \<in> set run_wakes. wake_ok w"
  by (simp add: run_wakes_def wake_ok_def normal_def)

lemma run_start_wf:
  "thread_wf run_config run_param
     (loop_start run_config run_param 4711 0 None run_clock run_clock start_stat start_globals)"
proof -
  have "hist_init True 1 20 = (fst (hist_init True 1 20), 0)"
    by (simp add: hist_init_def calloc_def hist_zero_def Let_def)
  then have "hist_balanced (fst (hist_init True 1 20))"
    by (rule hist_init_fresh) simp
  moreover have "start_time run_config run_param run_clock run_clock = run_clock"
    by (simp add: start_time_def run_config_def sample_config_def)
  moreover have "normal run_clock" by (simp add: run_clock_def normal_def)
  ultimately show ?thesis
    using thread_interval_normal [of run_param]
    by (simp add: thread_wf_def loop_start_def timer_setup_def ts_advance_ns Let_def start_stat_def
        start_globals_def)
qed

text \<open>
  C35. No faults: with a non-zero interval, normal clock readings, a value buffer longer
  than its mask and a histogram from \<open>hset_init\<close>, a measuring thread never leaves the
  bounds of an array, never follows a null pointer, never divides by zero and never
  hangs, whatever the outside does.
\<close>

theorem timerthread_safe:
  assumes "thread_wf cfg (loop_param cfg par msr)
      (loop_start cfg par tid msr smi0 globalt clock_now stat g)"
    and "p_interval par \<noteq> 0" and "\<forall>w \<in> set ws. wake_ok w"
    and "c_smi cfg \<Longrightarrow> 0 \<le> msr \<and> smi0 \<noteq> None"
  shows "\<exists>ended st. timerthread cfg par tid (Some 0) msr smi0 globalt clock_now stat g ws = Inr (ended, st)
    \<and> thread_wf cfg (loop_param cfg par msr) st"
proof -
  have "p_interval (loop_param cfg par msr) \<noteq> 0"
    using assms(2) by (simp add: loop_param_def)
  from timer_loop_ok [OF assms(1) this assms(3)] obtain ended st where
    r: "timer_loop cfg (loop_param cfg par msr) (loop_start cfg par tid msr smi0 globalt clock_now stat g) ws
      = Inr (ended, st)" and wf: "thread_wf cfg (loop_param cfg par msr) st" by blast
  have "timerthread cfg par tid (Some 0) msr smi0 globalt clock_now stat g ws
      = Inr (ended, if ended then timer_exit cfg (loop_param cfg par msr) st else st)"
    using r assms(4) by (auto simp: timerthread_def loop_start_def loop_param_def Let_def)
  moreover have "thread_wf cfg (loop_param cfg par msr) (timer_exit cfg (loop_param cfg par msr) st)"
    using wf by (simp add: thread_wf_def timer_exit_def Let_def)
  ultimately show ?thesis using wf by auto
qed

theorem timerthread_safe_witness:
  "\<exists>ended st. run_result = Inr (ended, st) \<and> thread_wf run_config run_param st"
  using timerthread_safe [of run_config run_param 0 4711 None run_clock run_clock start_stat
      start_globals run_wakes] run_start_wf run_wakes_ok by simp

lemma run_latencies_eq: "run_latencies = [12, 7]"
  by code_simp

theorem timerthread_statistics_witness:
  "\<exists>ended st. run_result = Inr (ended, st) \<and> s_cycles (ts_stat st) = 2 \<and> s_min (ts_stat st) = 7
     \<and> s_max (ts_stat st) = 12 \<and> average (ts_stat st) = 9"
proof -
  from timer_loop_ok [OF run_start_wf _ run_wakes_ok] obtain ended st where r: "run_result = Inr (ended, st)"
    by (auto simp: timerthread_def loop_start_def loop_param_def Let_def)
  have "s_cycles start_stat = 0" "s_min start_stat = 1000000" "s_max start_stat = 0" "s_avg start_stat = 0"
    by (simp_all add: start_stat_def)
  from timerthread_statistics [OF r this] r show ?thesis
    by (simp add: run_latencies_eq flip: numeral_2_eq_2)
qed

text \<open>
  Histogram of a measuring thread: with histograms on, bucket \<open>b\<close> of the thread's
  histogram has grown by the number of measured latencies whose quotient by the bucket
  width is \<open>b\<close>, modulo \<open>2 ^ 64\<close>.
\<close>

theorem timerthread_histogram:
  assumes "timerthread cfg par tid sched msr smi0 globalt clock_now stat g ws = Inr (ended, st)"
    and "c_histogram cfg \<noteq> 0" and "s_hist stat = Some i" and "hs_histos (g_hset g) = Some hs"
    and "hist_balanced (hs ! i)" and "b < unat (h_num (hs ! i))"
  shows "bucket_of (thread_hist st) b = bucket_of (hs ! i) b + of_nat (length (filter
    (\<lambda>d. d div h_width (hs ! i) = of_nat b)
    (thread_latencies cfg par tid msr smi0 globalt clock_now stat g ws)))"
proof -
  from timerthread_loop [OF assms(1)] obtain st1 where
    loop: "timer_loop cfg (loop_param cfg par msr)
      (loop_start cfg par tid msr smi0 globalt clock_now stat g) ws = Inr (ended, st1)"
    and st: "thread_hist st = thread_hist st1" by auto
  have h0: "thread_hist (loop_start cfg par tid msr smi0 globalt clock_now stat g) = hs ! i"
    using assms(3,4) by (simp add: thread_hist_def loop_start_def timer_setup_def Let_def)
  show ?thesis
    unfolding st thread_latencies_def
    by (rule hist_run_bucket [OF assms(5) _ assms(6)])
      (use timer_loop_stat(2) [OF loop assms(2)] h0 in simp)
qed

theorem timerthread_histogram_witness:
  "\<exists>ended st. run_result = Inr (ended, st) \<and> bucket_of (thread_hist st) 12
     = bucket_of (fst (hist_init True 1 20)) 12 + 1"
proof -
  from timer_loop_ok [OF run_start_wf _ run_wakes_ok] obtain ended st where r: "run_result = Inr (ended, st)"
    by (auto simp: timerthread_def loop_start_def loop_param_def Let_def)
  have i: "hist_init True 1 20 = (fst (hist_init True 1 20), 0)"
    by (simp add: hist_init_def calloc_def hist_zero_def Let_def)
  have "h_num (fst (hist_init True 1 20)) = 20" "h_width (fst (hist_init True 1 20)) = 1"
    by (simp_all add: hist_init_def calloc_def hist_zero_def Let_def)
  moreover have "s_hist start_stat = Some 0"
    "hs_histos (g_hset start_globals) = Some [fst (hist_init True 1 20)]"
    by (simp_all add: start_stat_def start_globals_def)
  ultimately show ?thesis
    using timerthread_histogram [OF r, of 0 "[fst (hist_init True 1 20)]" 12] hist_init_fresh(1) [OF i] r
    by (simp add: run_latencies_eq)
qed

section \<open>The value buffer and the verbose output\<close>

lemma buffer_slot: "unat ((of_nat n :: ulong) AND 16383) = n mod 16384"
proof -
  have "(16383 :: ulong) = mask 14" by (simp add: mask_eq_exp_minus_1)
  then have "(of_nat n :: ulong) AND 16383 = take_bit 14 (of_nat n)"
    by (simp add: take_bit_eq_mask)
  then have "unat ((of_nat n :: ulong) AND 16383) = take_bit 14 (take_bit 64 n)"
    by (simp only: unsigned_take_bit_eq unsigned_of_nat) simp
  also have "\<dots> = n mod 16384" by (simp add: take_bit_take_bit) (simp add: take_bit_eq_mod)
  finally show ?thesis .
qed

text \<open>
  The buffer of a thread holds the last 16384 of the latencies \<open>ds\<close>, number \<open>i\<close> at the
  slot \<open>i mod 16384\<close>.
\<close>

definition buffered :: "ulong list \<Rightarrow> thread_stat \<Rightarrow> bool" where
  "buffered ds s \<longleftrightarrow> s_cycles s = of_nat (length ds)
     \<and> (\<exists>v. s_values s = Some v \<and> length v = VALBUF_SIZE
        \<and> (\<forall>i < length ds. length ds \<le> i + VALBUF_SIZE \<longrightarrow> v ! (i mod VALBUF_SIZE) = ds ! i))"

lemma slots_differ: "i < n \<Longrightarrow> n < i + m \<Longrightarrow> i mod m \<noteq> n mod (m :: nat)"
  using mod_eq_dvd_iff_nat [of i n m] nat_dvd_not_less [of "n - i" m] by auto

lemma add_latency_buffered:
  assumes "buffered ds s" and "p_bufmsk par = 16383"
  shows "buffered (ds @ [d]) (add_latency par d s)"
proof -
  from assms(1) obtain v where v: "s_values s = Some v" "length v = 16384"
    "\<forall>i < length ds. length ds \<le> i + 16384 \<longrightarrow> v ! (i mod 16384) = ds ! i"
    and c: "s_cycles s = of_nat (length ds)"
    by (auto simp: buffered_def VALBUF_SIZE_def)
  let ?v = "v[length ds mod 16384 := d]"
  have "?v ! (i mod 16384) = (ds @ [d]) ! i" if "i < length ds + 1" "length ds + 1 \<le> i + 16384" for i
    using that v slots_differ [of i "length ds" 16384]
    by (cases "i = length ds") (auto simp: nth_append nth_list_update)
  moreover have "s_values (add_latency par d s) = Some ?v"
    using assms(2) v(1) c by (simp add: add_latency_simps buffer_slot)
  ultimately show ?thesis
    using v(2) c by (simp add: buffered_def add_latency_simps VALBUF_SIZE_def)
qed

lemma fold_add_latency_buffered:
  "p_bufmsk par = 16383 \<Longrightarrow> buffered es s \<Longrightarrow> buffered (es @ ds) (fold (add_latency par) ds s)"
proof (induction ds arbitrary: es s)
  case (Cons d ds)
  from Cons.IH [OF Cons.prems(1) add_latency_buffered [OF Cons.prems(2,1)], of d] show ?case
    by simp
qed simp

lemma buffered_core [simp]:
  "buffered ds (core s) = buffered ds s" "buffered ds (s\<lparr>s_threadstarted := x\<rparr>) = buffered ds s"
  by (simp_all add: buffered_def core_def)

text \<open>
  Value buffer of a measuring thread: with the mask and the buffer \<open>main\<close> sets up for
  the verbose mode, the slot \<open>i mod 16384\<close> holds latency number \<open>i\<close> for each of the last
  16384 latencies.
\<close>

theorem timerthread_buffer:
  assumes "timerthread cfg par tid sched msr smi0 globalt clock_now stat g ws = Inr (ended, st)"
    and "p_bufmsk par = 16383" and "s_cycles stat = 0"
    and "s_values stat = Some v" and "length v = VALBUF_SIZE"
  shows "buffered (thread_latencies cfg par tid msr smi0 globalt clock_now stat g ws) (ts_stat st)"
proof -
  from timerthread_loop [OF assms(1)] obtain st1 where
    loop: "timer_loop cfg (loop_param cfg par msr)
      (loop_start cfg par tid msr smi0 globalt clock_now stat g) ws = Inr (ended, st1)"
    and st: "st = (if ended then timer_exit cfg (loop_param cfg par msr) st1 else st1)" by blast
  have "buffered [] (core (ts_stat (loop_start cfg par tid msr smi0 globalt clock_now stat g)))"
    using assms(3-5) by (simp add: buffered_def loop_start_def timer_setup_def core_def Let_def)
  from fold_add_latency_buffered [OF _ this] assms(2) timer_loop_stat(1) [OF loop]
  have "buffered (thread_latencies cfg par tid msr smi0 globalt clock_now stat g ws) (core (ts_stat st1))"
    by (simp add: thread_latencies_def loop_param_def)
  then have "buffered (thread_latencies cfg par tid msr smi0 globalt clock_now stat g ws) (core (ts_stat st))"
    by (cases ended) (simp_all add: st del: buffered_core(1))
  then show ?thesis by simp
qed

definition verbose_stat :: thread_stat where
  "verbose_stat = start_stat\<lparr>s_values := Some (replicate 16384 0)\<rparr>"

definition verbose_param :: thread_param where
  "verbose_param = run_param\<lparr>p_bufmsk := 16383\<rparr>"

theorem timerthread_buffer_witness:
  "\<exists>ended st. timerthread run_config verbose_param 4711 (Some 0) 0 None run_clock run_clock verbose_stat
       start_globals run_wakes = Inr (ended, st)
     \<and> buffered (thread_latencies run_config verbose_param 4711 0 None run_clock run_clock verbose_stat
       start_globals run_wakes) (ts_stat st)"
proof -
  have lp: "loop_param run_config verbose_param 0 = verbose_param" "p_interval verbose_param \<noteq> 0"
    by (simp_all add: loop_param_def verbose_param_def)
  have t: "thread_interval verbose_param = thread_interval run_param"
    "start_time run_config verbose_param = start_time run_config run_param"
    by (simp_all add: thread_interval_def verbose_param_def start_time_def fun_eq_iff)
  have "thread_wf run_config verbose_param
     (loop_start run_config verbose_param 4711 0 None run_clock run_clock verbose_stat start_globals)"
    using run_start_wf lp t
    by (simp add: thread_wf_def loop_start_def timer_setup_def Let_def)
      (simp add: verbose_param_def verbose_stat_def start_stat_def)
  from timer_loop_ok [OF this lp(2) run_wakes_ok] obtain ended st where
    r: "timerthread run_config verbose_param 4711 (Some 0) 0 None run_clock run_clock verbose_stat
       start_globals run_wakes = Inr (ended, st)"
    by (auto simp: timerthread_def loop_start_def loop_param_def Let_def)
  moreover have "p_bufmsk verbose_param = 16383" "s_cycles verbose_stat = 0"
    "s_values verbose_stat = Some (replicate 16384 0)" "length (replicate 16384 (0 :: ulong)) = VALBUF_SIZE"
    by (simp_all add: verbose_param_def verbose_stat_def start_stat_def VALBUF_SIZE_def)
  ultimately show ?thesis
    using timerthread_buffer [OF r] by blast
qed

definition value_line :: "int \<Rightarrow> nat \<Rightarrow> ulong \<Rightarrow> string" where
  "value_line index i d = fmt_d 8 index @ '':'' @ fmt_d 8 (int i) @ '':'' @ fmt_d 8 (sint d) @ [CHR 0x0A]"

lemma reduce_value_single:
  assumes "c_oscope_reduction cfg = 1" and "\<not> c_smi cfg" and "s_reduce s = 0" and "s_redmax s = 0"
    and "0 < sint d" and "s_cyclesread s = of_nat i" and "i < 2 ^ 64"
  shows "snd (reduce_value cfg index d sm s) = value_line index i d"
    "s_reduce (fst (reduce_value cfg index d sm s)) = 0" "s_redmax (fst (reduce_value cfg index d sm s)) = 0"
  using assms by (simp_all add: reduce_value_def value_line_def Let_def unsigned_of_nat take_bit_nat_eq_self)

lemma print_values_step:
  assumes "buffered ds s" and "p_bufmsk par = 16383" and "\<not> c_smi cfg" and "s_cyclesread s = of_nat r"
    and "r < length ds" and "length ds \<le> r + VALBUF_SIZE" and "length ds < 2 ^ 64"
  shows "print_values cfg par index s =
    (case print_values cfg par index (fst (reduce_value cfg index (ds ! r) 0 s)) of
       Inl e \<Rightarrow> Inl e | Inr (s', out) \<Rightarrow> Inr (s', snd (reduce_value cfg index (ds ! r) 0 s) @ out))"
proof -
  from assms(1) obtain v where v: "s_values s = Some v" "length v = 16384"
    "v ! (r mod 16384) = ds ! r" and c: "s_cycles s = of_nat (length ds)"
    using assms(5,6) by (auto simp: buffered_def VALBUF_SIZE_def)
  have "(of_nat (length ds) :: ulong) \<noteq> of_nat r"
    using assms(5,7) by (simp add: word_unat_eq_iff unsigned_of_nat take_bit_nat_eq_self)
  then have "s_cycles s \<noteq> s_cyclesread s" using c assms(4) by simp
  then show ?thesis
    using v assms(2-4) by (subst print_values.simps) (simp add: Let_def buffer_slot)
qed

lemma print_values_done:
  "buffered ds s \<Longrightarrow> s_cyclesread s = of_nat (length ds) \<Longrightarrow> print_values cfg par index s = Inr (s, [])"
  by (subst print_values.simps) (simp add: buffered_def)

text \<open>
  Verbose output: as long as the reader is not more than one buffer behind and the
  latencies are positive, the verbose loop with reduction 1 ends, prints one line
  \<open>thread:cycle:latency\<close> for each latency not printed yet, in order and with its own cycle
  number, and leaves nothing unread.
\<close>

theorem verbose_output:
  assumes "buffered ds s" and "p_bufmsk par = 16383" and "\<not> c_smi cfg" and "c_oscope_reduction cfg = 1"
    and "s_cyclesread s = of_nat r" and "r \<le> length ds" and "length ds \<le> r + VALBUF_SIZE"
    and "length ds < 2 ^ 64" and "\<forall>d \<in> set ds. 0 < sint d" and "s_reduce s = 0" and "s_redmax s = 0"
  shows "\<exists>s'. print_stat cfg par index True quiet s
      = Inr (s', concat (map (\<lambda>i. value_line index i (ds ! i)) [r..<length ds]))
    \<and> s_cyclesread s' = s_cycles s' \<and> s_cycles s' = s_cycles s"
proof -
  have "\<exists>s'. print_values cfg par index s
      = Inr (s', concat (map (\<lambda>i. value_line index i (ds ! i)) [r..<length ds]))
    \<and> s_cyclesread s' = s_cycles s' \<and> s_cycles s' = s_cycles s"
    using assms
  proof (induction "length ds - r" arbitrary: r s)
    case 0
    then have "s_cyclesread s = of_nat (length ds)" by simp
    with 0 print_values_done [of ds s cfg par index] show ?case by (simp add: buffered_def)
  next
    case (Suc n)
    let ?r = "reduce_value cfg index (ds ! r) 0 s"
    have r: "r < length ds" using Suc.hyps(2) by simp
    have pos: "0 < sint (ds ! r)" "r < 2 ^ 64" using Suc.prems(8,9) r by auto
    note single = reduce_value_single [OF Suc.prems(4,3,10,11) pos(1) Suc.prems(5) pos(2), of index 0]
    have "buffered ds (fst ?r)"
      using Suc.prems(1) by (simp add: buffered_def)
    moreover have "n = length ds - Suc r" "Suc r \<le> length ds" "length ds \<le> Suc r + VALBUF_SIZE"
      using Suc.hyps(2) Suc.prems(7) r by simp_all
    moreover have "s_cyclesread (fst ?r) = of_nat (Suc r)"
      using Suc.prems(5) by simp
    ultimately obtain s' where "print_values cfg par index (fst ?r)
        = Inr (s', concat (map (\<lambda>i. value_line index i (ds ! i)) [Suc r..<length ds]))"
      "s_cyclesread s' = s_cycles s'" "s_cycles s' = s_cycles s"
      using Suc.hyps(1) [of "Suc r" "fst ?r"] Suc.prems single by auto
    with print_values_step [OF Suc.prems(1-3,5) r Suc.prems(7,8), of index] single r show ?case
      by (simp add: upt_conv_Cons)
  qed
  then show ?thesis by (simp add: print_stat_def)
qed

theorem verbose_output_witness:
  "\<exists>s'. print_stat sample_config verbose_param 2 True 0
       (verbose_stat\<lparr>s_cycles := 1, s_values := Some (12 # replicate 16383 0)\<rparr>)
     = Inr (s', value_line 2 0 12) \<and> s_cyclesread s' = s_cycles s'"
proof -
  let ?s = "verbose_stat\<lparr>s_cycles := 1, s_values := Some (12 # replicate 16383 0)\<rparr>"
  have b: "buffered [12] ?s"
    by (simp add: buffered_def VALBUF_SIZE_def)
  have "p_bufmsk verbose_param = 16383" "\<not> c_smi sample_config" "c_oscope_reduction sample_config = 1"
    "s_cyclesread ?s = of_nat 0" "s_reduce ?s = 0" "s_redmax ?s = 0"
    by (simp_all add: verbose_param_def sample_config_def verbose_stat_def start_stat_def)
  from verbose_output [OF b this(1-4) _ _ _ _ this(5,6), of 2 0] show ?thesis
    by (auto simp: VALBUF_SIZE_def)
qed

text \<open>
  C39. Early wake-ups: a latency below zero is stored as an unsigned value and compared as
  one. As soon as a thread that started with the maximum 0 has measured a negative latency,
  its maximum is negative, namely the negative latency nearest to zero, whatever
  non-negative latencies it measured before or after.
\<close>

theorem negative_latency_pins_max:
  assumes "timerthread cfg par tid sched msr smi0 globalt clock_now stat g ws = Inr (ended, st)"
    and "s_max stat = 0"
    and "d \<in> set (thread_latencies cfg par tid msr smi0 globalt clock_now stat g ws)" and "sint d < 0"
  shows "sint (s_max (ts_stat st)) < 0
    \<and> sint (s_max (ts_stat st)) = Max (sint ` {e \<in> set (thread_latencies cfg par tid msr smi0 globalt
        clock_now stat g ws). sint e < 0})"
proof -
  define N where "N = {e \<in> set (thread_latencies cfg par tid msr smi0 globalt clock_now stat g ws). sint e < 0}"
  have N: "finite N" "N \<noteq> {}" "\<forall>e \<in> N. sint e < 0"
    using assms(3,4) by (auto simp: N_def)
  then have m: "Max N \<in> N" by simp
  with N(3) have neg: "sint (Max N) < 0" by blast
  have "e \<le> Max N" if "e = 0 \<or> e \<in> set (thread_latencies cfg par tid msr smi0 globalt clock_now stat g ws)" for e
    using that N(1) negative_above [OF neg, of e] by (cases "sint e < 0") (auto simp: N_def)
  then have "s_max (ts_stat st) = Max N"
    unfolding timerthread_folds(3) [OF assms(1)] assms(2)
    using m by (intro Max_eqI) (auto simp: N_def)
  moreover have "sint (Max N) = Max (sint ` N)"
    using same_sign_extremes(1) [OF N(1,2)] N(3) by blast
  ultimately show ?thesis
    using neg by (simp add: N_def)
qed

text \<open>A run that wakes up 12 us late and then 3 us too early.\<close>

definition early_wakes :: "wake list" where
  "early_wakes = map (\<lambda>n. \<lparr>w_shutdown = 0, w_ret = 0, w_before = (0, \<lparr>tv_sec = 0, tv_nsec = 0\<rparr>),
     w_after = (0, \<lparr>tv_sec = 5, tv_nsec = n\<rparr>), w_smi = None, w_overrun = 0\<rparr>) [1012000, 1997000]"

abbreviation early_start :: thread_state where
  "early_start \<equiv> loop_start run_config run_param 4711 0 None run_clock run_clock start_stat start_globals"

lemma early_wakes_ok: "\<forall>w \<in> set early_wakes. wake_ok w"
  by (simp add: early_wakes_def wake_ok_def normal_def)

lemma early_first_round:
  "round_latency run_config run_param early_start (early_wakes ! 0) = Some 12"
  "g_shutdown (ts_glob early_start) = 0"
  "case timer_round run_config run_param early_start (early_wakes ! 0) of Inl _ \<Rightarrow> False
     | Inr (leave, st) \<Rightarrow> \<not> leave \<and> g_shutdown (ts_glob st) = 0
         \<and> round_latency run_config run_param st (early_wakes ! 1) = Some (- 3)"
  by code_simp+

lemma early_latencies_eq:
  "thread_latencies run_config run_param 4711 0 None run_clock run_clock start_stat start_globals early_wakes
     = [12, - 3]"
proof -
  have w: "early_wakes = [early_wakes ! 0, early_wakes ! 1]"
    "w_shutdown (early_wakes ! 0) = 0" "w_shutdown (early_wakes ! 1) = 0"
    by (simp_all add: early_wakes_def)
  have "wake_ok (early_wakes ! 0)" "wake_ok (early_wakes ! 1)"
    using early_wakes_ok w(1) by (auto simp: early_wakes_def)
  with timer_round_ok [OF run_start_wf run_params(1)] obtain leave st where
    r: "timer_round run_config run_param early_start (early_wakes ! 0) = Inr (leave, st)"
      "thread_wf run_config run_param st" by blast
  from timer_round_ok [OF r(2) run_params(1) \<open>wake_ok (early_wakes ! 1)\<close>] obtain leave' st' where
    r': "timer_round run_config run_param st (early_wakes ! 1) = Inr (leave', st')" by blast
  have same: "others_shutdown (early_wakes ! 0) early_start = early_start"
    "others_shutdown (early_wakes ! 1) st = st"
    using w by (simp_all add: others_shutdown_def)
  show ?thesis
    unfolding thread_latencies_def run_params(5)
    by (subst w(1)) (use same r r' early_first_round in \<open>simp add: Let_def\<close>)
qed

theorem negative_latency_pins_max_witness:
  "\<exists>ended st. timerthread run_config run_param 4711 (Some 0) 0 None run_clock run_clock start_stat
      start_globals early_wakes = Inr (ended, st) \<and> sint (s_max (ts_stat st)) = - 3"
proof -
  from timer_loop_ok [OF run_start_wf _ early_wakes_ok] obtain ended st where
    r: "timerthread run_config run_param 4711 (Some 0) 0 None run_clock run_clock start_stat
      start_globals early_wakes = Inr (ended, st)"
    by (auto simp: timerthread_def loop_start_def loop_param_def Let_def)
  have "{e \<in> {12, - 3 :: ulong}. sint e < 0} = {- 3}" by auto
  moreover have "s_max start_stat = 0" by (simp add: start_stat_def)
  ultimately show ?thesis
    using negative_latency_pins_max [OF r, of "- 3"] r by (simp add: early_latencies_eq)
qed

end
