(* ===== verification/Rt_Utils.thy ===== *)
theory Rt_Utils
  imports Prelude
begin

text \<open>
  Helpers of rt-tests: numbers and policies on the command line
  (\<^verbatim>\<open>rt-tests-2.10/src/lib/rt-utils.c\<close>, \<open>handlepolicy\<close> and \<open>policyname\<close> of
  \<^verbatim>\<open>cyclictest.c\<close>) and the placement of threads on processors
  (\<^verbatim>\<open>rt-tests-2.10/src/lib/rt-numa.c\<close>).

  Of the C library the sources use \<open>strtol\<close>, \<open>atoi\<close>, \<open>strcmp\<close> and \<open>strncasecmp\<close>; they are
  written out. The bit masks belong to libnuma: a mask is seen through the functions
  \<open>weight\<close> and \<open>isset\<close> that the library documents.
\<close>

section \<open>Numbers\<close>

definition is_space :: "char \<Rightarrow> bool" where
  "is_space c \<longleftrightarrow> c \<in> {CHR '' '', CHR 0x09, CHR 0x0A, CHR 0x0B, CHR 0x0C, CHR 0x0D}"

definition is_digit :: "char \<Rightarrow> bool" where
  "is_digit c \<longleftrightarrow> 48 \<le> (of_char c :: nat) \<and> (of_char c :: nat) \<le> 57"

definition digit_val :: "char \<Rightarrow> int" where
  "digit_val c = int (of_char c) - 48"

definition LONG_MAX :: int where "LONG_MAX = 2 ^ 63 - 1"
definition LONG_MIN :: int where "LONG_MIN = - (2 ^ 63)"

fun read_digits :: "int \<Rightarrow> string \<Rightarrow> int \<times> string" where
  "read_digits acc [] = (acc, [])"
| "read_digits acc (c # cs) =
     (if is_digit c then read_digits (10 * acc + digit_val c) cs else (acc, c # cs))"

text \<open>
  \<open>strtol (s, &end, 10)\<close>: the value, saturated to the range of \<open>long\<close>, and the rest of the
  string; without digits the value is 0 and the rest is the whole string.
\<close>

definition strtol :: "string \<Rightarrow> int \<times> string" where
  "strtol s =
     (let t = dropWhile is_space s;
          (neg, u) = (case t of
             c # cs \<Rightarrow> if c = CHR ''-'' then (True, cs) else if c = CHR ''+'' then (False, cs)
                       else (False, t)
           | [] \<Rightarrow> (False, []))
      in case u of
           [] \<Rightarrow> (0, s)
         | c # cs \<Rightarrow>
             if is_digit c
             then (let (n, rest) = read_digits 0 u;
                       v = (if neg then - n else n)
                   in (max LONG_MIN (min LONG_MAX v), rest))
             else (0, s))"

definition atoi :: "string \<Rightarrow> int" where
  "atoi s = s32 (fst (strtol s))"

definition parse_time_string :: "string \<Rightarrow> int" where
  "parse_time_string val =
     (let (v, end) = strtol val; t = s32 v
      in case end of
           [] \<Rightarrow> t
         | c # _ \<Rightarrow>
             if c = CHR ''m'' \<or> c = CHR ''M'' then s32 (t * 60)
             else if c = CHR ''h'' \<or> c = CHR ''H'' then s32 (t * (60 * 60))
             else if c = CHR ''d'' \<or> c = CHR ''D'' then s32 (t * (24 * 60 * 60))
             else t)"

text \<open>The return value, and what is stored through \<open>val\<close> (\<open>None\<close>: nothing).\<close>

definition parse_mem_string :: "string \<Rightarrow> int \<times> int option" where
  "parse_mem_string str =
     (let (l, endptr) = strtol str; v = s32 l
      in case endptr of
           [] \<Rightarrow> (v, None)
         | c # _ \<Rightarrow>
             let store = (\<lambda>v. (0, Some (u64 v)))
             in if c = CHR ''g'' \<or> c = CHR ''G'' then store (s32 (s32 (s32 (v * 1024) * 1024) * 1024))
                else if c = CHR ''m'' \<or> c = CHR ''M'' then store (s32 (s32 (v * 1024) * 1024))
                else if c = CHR ''k'' \<or> c = CHR ''K'' then store (s32 (v * 1024))
                else if c = CHR ''b'' \<or> c = CHR ''B'' then store v
                else (- 1, None))"

section \<open>Policies\<close>

definition SCHED_OTHER :: int where "SCHED_OTHER = 0"
definition SCHED_FIFO :: int where "SCHED_FIFO = 1"
definition SCHED_RR :: int where "SCHED_RR = 2"
definition SCHED_BATCH :: int where "SCHED_BATCH = 3"
definition SCHED_IDLE :: int where "SCHED_IDLE = 5"
definition SCHED_DEADLINE :: int where "SCHED_DEADLINE = 6"

lemmas sched_consts = SCHED_OTHER_def SCHED_FIFO_def SCHED_RR_def SCHED_BATCH_def SCHED_IDLE_def
  SCHED_DEADLINE_def

definition policy_to_string :: "int \<Rightarrow> string" where
  "policy_to_string policy =
     (if policy = SCHED_OTHER then ''SCHED_OTHER''
      else if policy = SCHED_FIFO then ''SCHED_FIFO''
      else if policy = SCHED_RR then ''SCHED_RR''
      else if policy = SCHED_BATCH then ''SCHED_BATCH''
      else if policy = SCHED_IDLE then ''SCHED_IDLE''
      else if policy = SCHED_DEADLINE then ''SCHED_DEADLINE''
      else ''unknown'')"

definition string_to_policy :: "string \<Rightarrow> int" where
  "string_to_policy str =
     (if str = ''other'' then SCHED_OTHER
      else if str = ''fifo'' then SCHED_FIFO
      else if str = ''rr'' then SCHED_RR
      else if str = ''batch'' then SCHED_BATCH
      else if str = ''idle'' then SCHED_IDLE
      else if str = ''deadline'' then SCHED_DEADLINE
      else 0)"

definition to_lower :: "char \<Rightarrow> char" where
  "to_lower c = (let n = of_char c :: nat in if 65 \<le> n \<and> n \<le> 90 then char_of (n + 32) else c)"

text \<open>\<open>strncasecmp (s, t, n) == 0\<close>; the strings end at their length.\<close>

definition strncaseeq :: "string \<Rightarrow> string \<Rightarrow> nat \<Rightarrow> bool" where
  "strncaseeq s t n \<longleftrightarrow> take n (map to_lower s) = take n (map to_lower t)"

definition handlepolicy :: "string \<Rightarrow> int" where
  "handlepolicy polname =
     (if strncaseeq polname ''other'' 5 then SCHED_OTHER
      else if strncaseeq polname ''batch'' 5 then SCHED_BATCH
      else if strncaseeq polname ''idle'' 4 then SCHED_IDLE
      else if strncaseeq polname ''fifo'' 4 then SCHED_FIFO
      else if strncaseeq polname ''rr'' 2 then SCHED_RR
      else SCHED_OTHER)"

definition policyname :: "int \<Rightarrow> string" where
  "policyname policy =
     (if policy = SCHED_OTHER then ''other''
      else if policy = SCHED_FIFO then ''fifo''
      else if policy = SCHED_RR then ''rr''
      else if policy = SCHED_BATCH then ''batch''
      else if policy = SCHED_IDLE then ''idle''
      else '''')"

section \<open>Processors\<close>

text \<open>The search for the \<open>m\<close>-th set bit from position \<open>i\<close> on, with \<open>n\<close> positions left.\<close>

fun nth_cpu :: "(nat \<Rightarrow> bool) \<Rightarrow> nat \<Rightarrow> nat \<Rightarrow> nat \<Rightarrow> nat \<Rightarrow> nat" where
  "nth_cpu isset m i cpu 0 = 0"
| "nth_cpu isset m i cpu (Suc n) =
     (if isset i then (if cpu = m then i else nth_cpu isset m (Suc i) (cpu + 1) n)
      else nth_cpu isset m (Suc i) cpu n)"

text \<open>\<open>None\<close> is the exit of \<open>fatal\<close>.\<close>

definition cpu_for_thread_sp ::
  "('m \<Rightarrow> nat) \<Rightarrow> ('m \<Rightarrow> nat \<Rightarrow> bool) \<Rightarrow> nat \<Rightarrow> nat \<Rightarrow> 'm \<Rightarrow> nat option" where
  "cpu_for_thread_sp weight isset thread_num max_cpus cpumask =
     (let num_cpus = weight cpumask
      in if num_cpus = 0 then None
         else Some (nth_cpu (isset cpumask) (thread_num mod num_cpus) 0 0 max_cpus))"

text \<open>\<open>cpuset\<close> is the affinity set of the process, \<open>None\<close> if \<open>sched_getaffinity\<close> fails.\<close>

definition cpu_for_thread_ua :: "nat set option \<Rightarrow> nat \<Rightarrow> nat \<Rightarrow> nat checked option" where
  "cpu_for_thread_ua cpuset thread_num max_cpus =
     (case cpuset of
        None \<Rightarrow> None
      | Some s \<Rightarrow>
          if card s = 0 then Some (Inl Division_By_Zero)
          else Some (Inr (nth_cpu (\<lambda>i. i \<in> s) (thread_num mod card s) 0 0 max_cpus)))"

definition get_available_cpus ::
  "('m \<Rightarrow> nat) \<Rightarrow> nat set option \<Rightarrow> 'm option \<Rightarrow> nat option" where
  "get_available_cpus weight cpuset cpumask =
     (case cpumask of Some m \<Rightarrow> Some (weight m) | None \<Rightarrow> map_option card cpuset)"

fun use_current_cpuset ::
  "('m \<Rightarrow> nat \<Rightarrow> bool) \<Rightarrow> ('m \<Rightarrow> nat \<Rightarrow> 'm) \<Rightarrow> 'm \<Rightarrow> nat \<Rightarrow> nat \<Rightarrow> 'm \<Rightarrow> 'm" where
  "use_current_cpuset isset clearbit curmask i 0 cpumask = cpumask"
| "use_current_cpuset isset clearbit curmask i (Suc n) cpumask =
     use_current_cpuset isset clearbit curmask (Suc i) n
       (if \<not> isset cpumask i \<or> \<not> isset curmask i then clearbit cpumask i else cpumask)"

text \<open>
  \<open>parse\<close> is \<open>numa_parse_cpustring_all\<close>, \<open>curmask\<close> the mask of the process. The result is
  the return value and the new value of \<open>*cpumask\<close> (\<open>None\<close>: unchanged).
\<close>

definition parse_cpumask ::
  "(string \<Rightarrow> 'm option) \<Rightarrow> ('m \<Rightarrow> nat) \<Rightarrow> ('m \<Rightarrow> nat \<Rightarrow> bool) \<Rightarrow> ('m \<Rightarrow> nat \<Rightarrow> 'm) \<Rightarrow> 'm
     \<Rightarrow> string \<Rightarrow> nat \<Rightarrow> int \<times> 'm option option" where
  "parse_cpumask parse weight isset clearbit curmask str max_cpus =
     (case parse str of
        None \<Rightarrow> (- 12, None)
      | Some bm \<Rightarrow>
          if weight bm = 0 then (0, Some None)
          else (0, Some (Some
            (if CHR ''!'' \<in> set str \<or> CHR ''+'' \<in> set str
             then use_current_cpuset isset clearbit curmask 0 max_cpus bm else bm))))"

section \<open>Properties\<close>

text \<open>
  The names of the scheduling policies: reading the name that \<open>policyname\<close> prints gives
  the policy back, in any case of the letters.
\<close>

theorem policy_name_roundtrip:
  assumes "policy \<in> {SCHED_OTHER, SCHED_FIFO, SCHED_RR, SCHED_BATCH, SCHED_IDLE}"
    and "map to_lower s = policyname policy"
  shows "(handlepolicy s = policy)
    \<and> (string_to_policy (policyname policy) = policy)"
proof (intro conjI)
  have "map to_lower (policyname policy) = policyname policy"
    using assms(1) by (auto simp: policyname_def sched_consts to_lower_def Let_def)
  then show "handlepolicy s = policy"
    using assms unfolding handlepolicy_def strncaseeq_def
    by (auto simp: policyname_def sched_consts to_lower_def Let_def)
  show "string_to_policy (policyname policy) = policy"
    using assms(1) by (auto simp: string_to_policy_def policyname_def sched_consts)
qed

theorem policy_name_roundtrip_witness:
  "handlepolicy ''FIFO'' = SCHED_FIFO \<and> string_to_policy (policyname SCHED_FIFO) = SCHED_FIFO"
proof -
  have "map to_lower ''FIFO'' = policyname SCHED_FIFO" by code_simp
  from policy_name_roundtrip [of SCHED_FIFO, OF _ this] show ?thesis by simp
qed

lemma nth_cpu_correct:
  assumes "cpu \<le> m" and "m - cpu < card {j \<in> {i..<i + n}. isset j}"
  defines "c \<equiv> nth_cpu isset m i cpu n"
  shows "isset c \<and> i \<le> c \<and> c < i + n \<and> card {j \<in> {i..<c}. isset j} = m - cpu"
  using assms(1,2) unfolding c_def
proof (induction n arbitrary: i cpu)
  case 0
  then show ?case by simp
next
  case (Suc n)
  have split: "{j \<in> {i..<k}. isset j} = (if isset i then {i} else {}) \<union> {j \<in> {Suc i..<k}. isset j}"
    if "i < k" for k
    using that by (auto simp: not_less_eq_eq) (metis Suc_leI le_neq_implies_less)+
  have card: "card {j \<in> {i..<k}. isset j} = (if isset i then 1 else 0) + card {j \<in> {Suc i..<k}. isset j}"
    if "i < k" for k
    unfolding split [OF that] by (subst card_Un_disjoint) auto
  show ?case
  proof (cases "isset i \<and> cpu = m")
    case True
    then show ?thesis by simp
  next
    case False
    let ?cpu = "if isset i then cpu + 1 else cpu"
    have "?cpu \<le> m" "m - ?cpu < card {j \<in> {Suc i..<Suc i + n}. isset j}"
      using Suc.prems False card [of "i + Suc n"] by (auto split: if_splits)
    from Suc.IH [OF this] False Suc.prems(1) show ?thesis
      using card [of "nth_cpu isset m (Suc i) ?cpu n"] by (auto split: if_splits)
  qed
qed

text \<open>
  Placement with an affinity mask: if the library counts the set bits of the mask
  below \<open>max_cpus\<close>, thread \<open>t\<close> runs on the processor of the mask that has exactly
  \<open>t mod weight\<close> others of the mask before it; so two threads share a processor exactly
  when their numbers agree modulo the number of processors.
\<close>

theorem cpu_for_thread_round_robin:
  assumes "weight m = card {i \<in> {0..<max_cpus}. isset m i}" and "weight m \<noteq> 0"
  shows "(\<exists>c. cpu_for_thread_sp weight isset t max_cpus m = Some c \<and> c < max_cpus \<and> isset m c
    \<and> card {i \<in> {0..<c}. isset m i} = t mod weight m)
    \<and> (cpu_for_thread_sp weight isset t max_cpus m = cpu_for_thread_sp weight isset u max_cpus m
      \<longleftrightarrow> t mod weight m = u mod weight m)"
proof (intro conjI)
  have c: "isset m (nth_cpu (isset m) (k mod weight m) 0 0 max_cpus)
      \<and> nth_cpu (isset m) (k mod weight m) 0 0 max_cpus < max_cpus
      \<and> card {j \<in> {0..<nth_cpu (isset m) (k mod weight m) 0 0 max_cpus}. isset m j} = k mod weight m" for k
  proof -
    have "k mod weight m - 0 < card {j \<in> {0..<0 + max_cpus}. isset m j}"
      unfolding add_0 diff_zero assms(1) [symmetric] using assms(2) by (intro mod_less_divisor) simp
    from nth_cpu_correct [OF _ this] show ?thesis by simp
  qed
  then show "\<exists>c. cpu_for_thread_sp weight isset t max_cpus m = Some c \<and> c < max_cpus \<and> isset m c
    \<and> card {i \<in> {0..<c}. isset m i} = t mod weight m"
    using assms(2) by (simp add: cpu_for_thread_sp_def Let_def)
  show "cpu_for_thread_sp weight isset t max_cpus m = cpu_for_thread_sp weight isset u max_cpus m
      \<longleftrightarrow> t mod weight m = u mod weight m"
  proof
    assume "cpu_for_thread_sp weight isset t max_cpus m = cpu_for_thread_sp weight isset u max_cpus m"
    then have "nth_cpu (isset m) (t mod weight m) 0 0 max_cpus = nth_cpu (isset m) (u mod weight m) 0 0 max_cpus"
      using assms(2) by (simp add: cpu_for_thread_sp_def Let_def)
    with c [of t] c [of u] show "t mod weight m = u mod weight m" by metis
  qed (simp add: cpu_for_thread_sp_def Let_def)
qed

theorem cpu_for_thread_round_robin_witness:
  "cpu_for_thread_sp (length \<circ> filter id) (\<lambda>m i. i < length m \<and> m ! i) 5 4 [True, False, True, True]
     = cpu_for_thread_sp (length \<circ> filter id) (\<lambda>m i. i < length m \<and> m ! i) 2 4 [True, False, True, True]"
proof -
  have "{i \<in> {0..<4}. i < length [True, False, True, True] \<and> [True, False, True, True] ! i} = {0, 2, 3}"
    by (auto simp: nth_Cons' numeral_eq_Suc less_Suc_eq)
  then show ?thesis
    by (subst cpu_for_thread_round_robin [THEN conjunct2]) (simp_all del: atLeastLessThan_iff)
qed

text \<open>
  Times on the command line: a decimal number followed by \<open>m\<close>, \<open>h\<close> or \<open>d\<close> (or nothing)
  is the number of seconds it says, if that number fits an \<open>int\<close>.
\<close>

definition unit_seconds :: "string \<Rightarrow> int" where
  "unit_seconds u = (case u of [] \<Rightarrow> 1
     | c # _ \<Rightarrow> if c \<in> {CHR ''m'', CHR ''M''} then 60 else if c \<in> {CHR ''h'', CHR ''H''} then 3600
         else if c \<in> {CHR ''d'', CHR ''D''} then 86400 else 1)"

lemma digit_char:
  assumes "k < 10"
  shows "is_digit (char_of (48 + k :: nat))" "digit_val (char_of (48 + k :: nat)) = int k"
proof -
  have "of_char (char_of (48 + k :: nat) :: char) = 48 + k"
    using assms by (simp add: of_char_of)
  then show "is_digit (char_of (48 + k :: nat))" "digit_val (char_of (48 + k :: nat)) = int k"
    using assms unfolding is_digit_def digit_val_def by simp_all
qed

lemma read_digits_digits_of:
  "read_digits acc (digits_of n @ rest) = read_digits (acc * 10 ^ length (digits_of n) + int n) rest"
proof (induction n arbitrary: rest rule: digits_of.induct)
  case (1 n)
  show ?case
  proof (cases "n < 10")
    case True
    then show ?thesis
      by (simp add: digits_of.simps [of n] digit_char mult.commute)
  next
    case False
    then have "read_digits acc (digits_of n @ rest) = read_digits
        (10 * (acc * 10 ^ length (digits_of (n div 10)) + int (n div 10)) + int (n mod 10)) rest"
      by (simp add: digits_of.simps [of n] "1.IH" digit_char)
    moreover have "10 * (acc * 10 ^ length (digits_of (n div 10)) + int (n div 10)) + int (n mod 10)
        = acc * 10 ^ length (digits_of n) + int n"
      using False by (simp add: digits_of.simps [of n] algebra_simps) presburger
    ultimately show ?thesis by simp
  qed
qed

lemma digits_of_first: "\<exists>c cs. digits_of n = c # cs \<and> is_digit c"
proof (induction n rule: digits_of.induct)
  case (1 n)
  then show ?case
    by (cases "n < 10") (auto simp: digits_of.simps [of n] digit_char)
qed

lemma strtol_digits_of:
  assumes "case u of [] \<Rightarrow> True | c # _ \<Rightarrow> \<not> is_digit c" and "int n \<le> LONG_MAX"
  shows "strtol (digits_of n @ u) = (int n, u)"
proof -
  obtain c cs where c: "digits_of n = c # cs" "is_digit c"
    using digits_of_first by blast
  then have "\<not> is_space c" "c \<noteq> CHR ''-''" "c \<noteq> CHR ''+''"
    by (auto simp: is_space_def is_digit_def)
  moreover have "read_digits 0 (digits_of n @ u) = (int n, u)"
    using assms(1) read_digits_digits_of [of 0 n u] by (cases u) simp_all
  ultimately show ?thesis
    using c assms(2) by (simp add: strtol_def LONG_MIN_def)
qed

theorem parse_time_string_correct:
  assumes "u \<in> {[], ''m'', ''M'', ''h'', ''H'', ''d'', ''D''}"
    and "int n * unit_seconds u < 2 ^ 31"
  shows "parse_time_string (digits_of n @ u) = int n * unit_seconds u"
proof -
  have us: "1 \<le> unit_seconds u" using assms(1) by (auto simp: unit_seconds_def)
  then have "int n * 1 \<le> int n * unit_seconds u" by (intro mult_left_mono) simp_all
  then have n: "int n < 2 ^ 31" using assms(2) by simp
  have "case u of [] \<Rightarrow> True | c # _ \<Rightarrow> \<not> is_digit c"
    using assms(1) by (auto simp: is_digit_def)
  then have "strtol (digits_of n @ u) = (int n, u)"
    using n by (intro strtol_digits_of) (simp_all add: LONG_MAX_def)
  moreover have "s32 (int n) = int n" using n by (simp add: s32_id)
  moreover have "0 \<le> int n * unit_seconds u" using us by simp
  then have "s32 (int n * unit_seconds u) = int n * unit_seconds u"
    using assms(2) by (intro s32_id) linarith+
  ultimately show ?thesis
    using assms(1) by (auto simp: parse_time_string_def unit_seconds_def)
qed

theorem parse_time_string_correct_witness: "parse_time_string ''90m'' = 5400"
proof -
  have "digits_of 90 = ''90''" by code_simp
  with parse_time_string_correct [of "''m''" 90] show ?thesis by (simp add: unit_seconds_def)
qed

text \<open>
  Sizes on the command line: with a suffix the function returns 0 and stores the scaled
  number; without a suffix it stores nothing and returns the number itself.
\<close>

theorem parse_mem_string_correct:
  assumes "int n * k < 2 ^ 31"
    and "(u, k) \<in> {(''b'', 1), (''B'', 1), (''k'', 1024), (''K'', 1024), (''m'', 1048576), (''M'', 1048576),
      (''g'', 1073741824), (''G'', 1073741824)}"
  shows "(parse_mem_string (digits_of n @ u) = (0, Some (int n * k)))
    \<and> (parse_mem_string (digits_of n) = (int n, None))"
proof (intro conjI)
  have k: "1 \<le> k" using assms(2) by auto
  then have "int n * 1 \<le> int n * k" by (intro mult_left_mono) simp_all
  then have n: "int n < 2 ^ 31" using assms(1) by simp
  then have l: "int n \<le> LONG_MAX" by (simp add: LONG_MAX_def)
  have "case u of [] \<Rightarrow> True | c # _ \<Rightarrow> \<not> is_digit c"
    using assms(2) by (auto simp: is_digit_def)
  then have "strtol (digits_of n @ u) = (int n, u)" and e: "strtol (digits_of n @ []) = (int n, [])"
    using l by (intro strtol_digits_of; simp)+
  with assms n show "parse_mem_string (digits_of n @ u) = (0, Some (int n * k))"
    by (auto simp: parse_mem_string_def Let_def s32_id u64_id)
  show "parse_mem_string (digits_of n) = (int n, None)"
    using e n by (simp add: parse_mem_string_def s32_id)
qed

theorem parse_mem_string_correct_witness:
  "parse_mem_string ''64k'' = (0, Some 65536) \<and> parse_mem_string ''64'' = (64, None)"
proof -
  have "digits_of 64 = ''64''" by code_simp
  with parse_mem_string_correct [of 64 1024 "''k''"] show ?thesis by simp
qed

end
