(* ===== verification/Cyclic_Options.thy ===== *)
theory Cyclic_Options
  imports Cyclic_Stats Rt_Utils
begin

text \<open>
  The start of cyclictest (\<^verbatim>\<open>cyclictest.c\<close>): \<open>process_options\<close>, the clock check, and the part
  of \<open>main\<close> that computes the parameters and statistics of the measuring threads.

  \<open>getopt_long\<close> is seen as the sequence of its results: the option found, its argument
  \<open>optarg\<close>, and the next word of the command line \<open>argv[optind]\<close> if there is one. A short
  option is the code of its long form, as in the \<open>case\<close> labels. The parser of CPU lists is
  the parameter \<open>pm\<close>: the result of \<open>Rt_Utils.parse_cpumask\<close> on a string.
\<close>

section \<open>Options\<close>

datatype option_values =
  OPT_AFFINITY | OPT_BREAKTRACE | OPT_CLOCK | OPT_DEFAULT_SYSTEM | OPT_DISTANCE | OPT_DURATION
| OPT_LATENCY | OPT_FIFO | OPT_HISTOGRAM | OPT_HISTOFALL | OPT_HISTFILE | OPT_INTERVAL | OPT_JSON
| OPT_MAINAFFINITY | OPT_LOOPS | OPT_MLOCKALL | OPT_REFRESH | OPT_NSECS | OPT_OSCOPE | OPT_PRIORITY
| OPT_QUIET | OPT_PRIOSPREAD | OPT_RELATIVE | OPT_RESOLUTION | OPT_SYSTEM | OPT_SMP | OPT_THREADS
| OPT_TRIGGER | OPT_TRIGGER_NODES | OPT_UNBUFFERED | OPT_VERBOSE | OPT_DBGCYCLIC | OPT_POLICY
| OPT_HELP | OPT_ALIGNED | OPT_SECALIGNED | OPT_LAPTOP | OPT_SMI | OPT_TRACEMARK
| OPT_POSIX_TIMERS | OPT_DEEPEST_IDLE_STATE

record opt_event =
  ev_code :: option_values
  ev_optarg :: "string option"
  ev_next :: "string option"

datatype affinity = AFFINITY_UNSPECIFIED | AFFINITY_SPECIFIED | AFFINITY_USEALL

record 'm options =
  o_option_affinity :: bool
  o_smp :: bool
  o_numa :: bool
  o_affinity_mask :: "'m option"
  o_main_affinity_mask :: "'m option"
  o_setaffinity :: affinity
  o_aligned :: bool
  o_secaligned :: bool
  o_offset :: int
  o_tracelimit :: int
  o_trace_marker :: bool
  o_clocksel :: int
  o_power_management :: bool
  o_laptop :: bool
  o_distance :: int
  o_duration :: int
  o_use_fifo :: bool
  o_fifopath :: string
  o_histofall :: bool
  o_histogram :: int
  o_use_histfile :: bool
  o_histfile :: string
  o_interval :: int
  o_jsonfile :: string
  o_max_cycles :: int
  o_lockall :: bool
  o_refresh_on_max :: bool
  o_use_nsecs :: bool
  o_oscope_reduction :: int
  o_priority :: int
  o_policy :: int
  o_priospread :: bool
  o_quiet :: bool
  o_timermode :: int
  o_check_clock_resolution :: bool
  o_use_system :: int
  o_use_nanosleep :: int
  o_num_threads :: int
  o_trigger :: int
  o_trigger_list_size :: int
  o_unbuffered :: bool
  o_verbose :: bool
  o_ct_debug :: bool
  o_smi :: bool
  o_latency_target_value :: int
  o_deepest_idle_state :: int

definition initial_options :: "'m options" where
  "initial_options = \<lparr>o_option_affinity = False, o_smp = False, o_numa = False, o_affinity_mask = None,
     o_main_affinity_mask = None, o_setaffinity = AFFINITY_UNSPECIFIED, o_aligned = False,
     o_secaligned = False, o_offset = 0, o_tracelimit = 0, o_trace_marker = False, o_clocksel = 0,
     o_power_management = False, o_laptop = False, o_distance = - 1, o_duration = 0, o_use_fifo = False,
     o_fifopath = [], o_histofall = False, o_histogram = 0, o_use_histfile = False, o_histfile = [],
     o_interval = 1000, o_jsonfile = [], o_max_cycles = 0, o_lockall = False, o_refresh_on_max = False,
     o_use_nsecs = False, o_oscope_reduction = 1, o_priority = 0, o_policy = SCHED_OTHER,
     o_priospread = False, o_quiet = False, o_timermode = TIMER_ABSTIME, o_check_clock_resolution = False,
     o_use_system = 0, o_use_nanosleep = MODE_CLOCK_NANOSLEEP, o_num_threads = 1, o_trigger = 0,
     o_trigger_list_size = 1024, o_unbuffered = False, o_verbose = False, o_ct_debug = False,
     o_smi = False, o_latency_target_value = 0, o_deepest_idle_state = - 2\<rparr>"

datatype exit_reason = Help_Failure | Help_Success | Fatal_Error

definition MAX_PATH :: nat where "MAX_PATH = 256"

text \<open>
  \<open>strncpy (path, optarg, strnlen (optarg, MAX_PATH - 1))\<close> into a static buffer: the
  terminating zero is not copied, so the tail of an earlier, longer name stays.
\<close>

definition copy_path :: "string \<Rightarrow> string \<Rightarrow> string" where
  "copy_path old s = take (MAX_PATH - 1) s @ drop (min (length s) (MAX_PATH - 1)) old"

definition new_mask :: "'m option \<Rightarrow> int \<times> 'm option option \<Rightarrow> 'm option" where
  "new_mask old r = (case snd r of None \<Rightarrow> old | Some m \<Rightarrow> m)"

definition offset_of :: "opt_event \<Rightarrow> int" where
  "offset_of ev =
     (case ev_optarg ev of
        Some a \<Rightarrow> s32 (atoi a * 1000)
      | None \<Rightarrow> (case ev_next ev of
          Some n \<Rightarrow> if atoi n \<noteq> 0 then s32 (atoi n * 1000) else 0
        | None \<Rightarrow> 0))"

definition first_char_in :: "string \<Rightarrow> string \<Rightarrow> bool" where
  "first_char_in s cs = (case s of [] \<Rightarrow> False | c # _ \<Rightarrow> c \<in> set cs)"

definition option_affinity ::
  "(string \<Rightarrow> int \<times> 'm option option) \<Rightarrow> bool \<Rightarrow> opt_event \<Rightarrow> 'm options \<Rightarrow> exit_reason + 'm options" where
  "option_affinity pm numa_avail ev opts =
     (let opts = opts\<lparr>o_option_affinity := True\<rparr>
      in if o_smp opts then Inr opts
         else
           let opts = opts\<lparr>o_numa := numa_avail\<rparr>;
               opts = (case ev_optarg ev of
                  Some a \<Rightarrow> opts\<lparr>o_affinity_mask := new_mask (o_affinity_mask opts) (pm a),
                                 o_setaffinity := AFFINITY_SPECIFIED\<rparr>
                | None \<Rightarrow>
                    (case ev_next ev of
                       Some n \<Rightarrow>
                         if atoi n \<noteq> 0 \<or> first_char_in n ''0!+a''
                         then opts\<lparr>o_affinity_mask := new_mask (o_affinity_mask opts) (pm n),
                                   o_setaffinity := AFFINITY_SPECIFIED\<rparr>
                         else opts\<lparr>o_setaffinity := AFFINITY_USEALL\<rparr>
                     | None \<Rightarrow> opts\<lparr>o_setaffinity := AFFINITY_USEALL\<rparr>))
           in if o_setaffinity opts = AFFINITY_SPECIFIED \<and> o_affinity_mask opts = None
              then Inl Help_Failure else Inr opts)"

definition option_threads :: "opt_event \<Rightarrow> 'm options \<Rightarrow> 'm options" where
  "option_threads ev opts =
     (if o_smp opts then opts
      else opts\<lparr>o_num_threads :=
        (case ev_optarg ev of
           Some a \<Rightarrow> atoi a
         | None \<Rightarrow> (case ev_next ev of
             Some n \<Rightarrow> if atoi n \<noteq> 0 then atoi n else - 1
           | None \<Rightarrow> - 1))\<rparr>)"

definition option_mainaffinity ::
  "(string \<Rightarrow> int \<times> 'm option option) \<Rightarrow> opt_event \<Rightarrow> 'm options \<Rightarrow> 'm options" where
  "option_mainaffinity pm ev opts =
     (case ev_optarg ev of
        Some a \<Rightarrow> opts\<lparr>o_main_affinity_mask := new_mask (o_main_affinity_mask opts) (pm a)\<rparr>
      | None \<Rightarrow>
          (case ev_next ev of
             Some n \<Rightarrow>
               if atoi n \<noteq> 0 \<or> first_char_in n ''0!''
               then opts\<lparr>o_main_affinity_mask := new_mask (o_main_affinity_mask opts) (pm n)\<rparr>
               else opts
           | None \<Rightarrow> opts))"

definition option_histogram :: "string \<Rightarrow> 'm options \<Rightarrow> exit_reason + 'm options" where
  "option_histogram a opts =
     (let opts = opts\<lparr>o_histogram := atoi a\<rparr>
      in if o_histogram opts = 0 then Inl Help_Failure else Inr opts)"

text \<open>The \<open>switch\<close>; \<open>arch_smi\<close> tells whether the program was built with the SMI counter.\<close>

definition process_option ::
  "(string \<Rightarrow> int \<times> 'm option option) \<Rightarrow> bool \<Rightarrow> bool \<Rightarrow> opt_event \<Rightarrow> 'm options
     \<Rightarrow> exit_reason + 'm options" where
  "process_option pm numa_avail arch_smi ev opts =
     (let a = (case ev_optarg ev of Some s \<Rightarrow> s | None \<Rightarrow> [])
      in case ev_code ev of
        OPT_AFFINITY \<Rightarrow> option_affinity pm numa_avail ev opts
      | OPT_ALIGNED \<Rightarrow> Inr (opts\<lparr>o_aligned := True, o_offset := offset_of ev\<rparr>)
      | OPT_BREAKTRACE \<Rightarrow> Inr (opts\<lparr>o_tracelimit := atoi a\<rparr>)
      | OPT_CLOCK \<Rightarrow> Inr (opts\<lparr>o_clocksel := atoi a\<rparr>)
      | OPT_DEFAULT_SYSTEM \<Rightarrow> Inr (opts\<lparr>o_power_management := True\<rparr>)
      | OPT_DISTANCE \<Rightarrow> Inr (opts\<lparr>o_distance := atoi a\<rparr>)
      | OPT_DURATION \<Rightarrow> Inr (opts\<lparr>o_duration := parse_time_string a\<rparr>)
      | OPT_FIFO \<Rightarrow> Inr (opts\<lparr>o_use_fifo := True, o_fifopath := copy_path (o_fifopath opts) a\<rparr>)
      | OPT_HISTOFALL \<Rightarrow> option_histogram a (opts\<lparr>o_histofall := True\<rparr>)
      | OPT_HISTOGRAM \<Rightarrow> option_histogram a opts
      | OPT_HISTFILE \<Rightarrow> Inr (opts\<lparr>o_use_histfile := True, o_histfile := copy_path (o_histfile opts) a\<rparr>)
      | OPT_INTERVAL \<Rightarrow> Inr (opts\<lparr>o_interval := atoi a\<rparr>)
      | OPT_JSON \<Rightarrow> Inr (opts\<lparr>o_jsonfile := copy_path (o_jsonfile opts) a\<rparr>)
      | OPT_LOOPS \<Rightarrow> Inr (opts\<lparr>o_max_cycles := atoi a\<rparr>)
      | OPT_MAINAFFINITY \<Rightarrow> Inr (option_mainaffinity pm ev opts)
      | OPT_MLOCKALL \<Rightarrow> Inr (opts\<lparr>o_lockall := True\<rparr>)
      | OPT_REFRESH \<Rightarrow> Inr (opts\<lparr>o_refresh_on_max := True\<rparr>)
      | OPT_NSECS \<Rightarrow> Inr (opts\<lparr>o_use_nsecs := True\<rparr>)
      | OPT_OSCOPE \<Rightarrow> Inr (opts\<lparr>o_oscope_reduction := atoi a\<rparr>)
      | OPT_PRIORITY \<Rightarrow> Inr (opts\<lparr>o_priority := atoi a,
            o_policy := (if o_policy opts \<noteq> SCHED_FIFO \<and> o_policy opts \<noteq> SCHED_RR then SCHED_FIFO
                         else o_policy opts)\<rparr>)
      | OPT_QUIET \<Rightarrow> Inr (opts\<lparr>o_quiet := True\<rparr>)
      | OPT_RELATIVE \<Rightarrow> Inr (opts\<lparr>o_timermode := TIMER_RELTIME\<rparr>)
      | OPT_RESOLUTION \<Rightarrow> Inr (opts\<lparr>o_check_clock_resolution := True\<rparr>)
      | OPT_SECALIGNED \<Rightarrow> Inr (opts\<lparr>o_secaligned := True, o_offset := offset_of ev\<rparr>)
      | OPT_SYSTEM \<Rightarrow> Inr (opts\<lparr>o_use_system := 2\<rparr>)
      | OPT_SMP \<Rightarrow> (if o_numa opts then Inl Fatal_Error
            else Inr (opts\<lparr>o_smp := True, o_num_threads := - 1, o_setaffinity := AFFINITY_USEALL\<rparr>))
      | OPT_THREADS \<Rightarrow> Inr (option_threads ev opts)
      | OPT_TRIGGER \<Rightarrow> Inr (opts\<lparr>o_trigger := atoi a\<rparr>)
      | OPT_TRIGGER_NODES \<Rightarrow> Inr (if o_trigger opts \<noteq> 0 then opts\<lparr>o_trigger_list_size := atoi a\<rparr> else opts)
      | OPT_UNBUFFERED \<Rightarrow> Inr (opts\<lparr>o_unbuffered := True\<rparr>)
      | OPT_VERBOSE \<Rightarrow> Inr (opts\<lparr>o_verbose := True\<rparr>)
      | OPT_POSIX_TIMERS \<Rightarrow> Inr (opts\<lparr>o_use_nanosleep := MODE_CYCLIC\<rparr>)
      | OPT_HELP \<Rightarrow> Inl Help_Success
      | OPT_PRIOSPREAD \<Rightarrow> Inr (opts\<lparr>o_priospread := True\<rparr>)
      | OPT_LATENCY \<Rightarrow> Inr (opts\<lparr>o_latency_target_value := (if atoi a < 0 then 0 else atoi a)\<rparr>)
      | OPT_POLICY \<Rightarrow> Inr (opts\<lparr>o_policy := handlepolicy a\<rparr>)
      | OPT_DBGCYCLIC \<Rightarrow> Inr (opts\<lparr>o_ct_debug := True\<rparr>)
      | OPT_LAPTOP \<Rightarrow> Inr (opts\<lparr>o_laptop := True\<rparr>)
      | OPT_SMI \<Rightarrow> (if arch_smi then Inr (opts\<lparr>o_smi := True\<rparr>) else Inl Fatal_Error)
      | OPT_TRACEMARK \<Rightarrow> Inr (opts\<lparr>o_trace_marker := True\<rparr>)
      | OPT_DEEPEST_IDLE_STATE \<Rightarrow> Inr (opts\<lparr>o_deepest_idle_state := atoi a\<rparr>))"

section \<open>Validation\<close>

definition HIST_MAX :: int where "HIST_MAX = 1000000"
definition DEFAULT_DISTANCE :: int where "DEFAULT_DISTANCE = 500"
definition clocksources :: "int list" where "clocksources = [1, 0]"

definition realtime :: "int \<Rightarrow> bool" where
  "realtime policy \<longleftrightarrow> policy = SCHED_FIFO \<or> policy = SCHED_RR"

text \<open>The defaults of priority and policy that follow the number of threads.\<close>

definition default_priority :: "'m options \<Rightarrow> 'm options" where
  "default_priority opts =
     (let opts = (if o_priospread opts \<and> o_priority opts = 0
            then opts\<lparr>o_priority := s32 (o_num_threads opts + 1)\<rparr> else opts);
          opts = (if o_priority opts \<noteq> 0 \<and> \<not> realtime (o_policy opts)
            then opts\<lparr>o_policy := SCHED_FIFO\<rparr> else opts)
      in if realtime (o_policy opts) \<and> o_priority opts = 0
         then opts\<lparr>o_priority := s32 (o_num_threads opts + 1)\<rparr> else opts)"

definition fix_modes :: "bool \<Rightarrow> 'm options \<Rightarrow> 'm options" where
  "fix_modes numa_avail opts =
     (let opts = (if o_use_system opts = 2 \<and> o_use_nanosleep opts = MODE_CYCLIC
            then opts\<lparr>o_use_nanosleep := MODE_CLOCK_NANOSLEEP\<rparr> else opts)
      in if o_smp opts then opts else opts\<lparr>o_numa := numa_avail\<rparr>)"

definition early_error :: "'m options \<Rightarrow> bool" where
  "early_error opts \<longleftrightarrow> o_clocksel opts < 0 \<or> o_clocksel opts > int (length clocksources)
     \<or> o_oscope_reduction opts < 1
     \<or> (o_oscope_reduction opts > 1 \<and> \<not> o_verbose opts)
     \<or> o_histogram opts < 0
     \<or> o_priority opts < 0 \<or> o_priority opts > 99"

definition clamp_options :: "'m options \<Rightarrow> 'm options" where
  "clamp_options opts =
     (let opts = (if o_histogram opts > HIST_MAX then opts\<lparr>o_histogram := HIST_MAX\<rparr> else opts)
      in if o_distance opts = - 1 then opts\<lparr>o_distance := DEFAULT_DISTANCE\<rparr> else opts)"

definition count_threads :: "('m option \<Rightarrow> int option) \<Rightarrow> 'm options \<Rightarrow> 'm options option" where
  "count_threads cpus opts =
     (if o_num_threads opts = - 1
      then map_option (\<lambda>n. opts\<lparr>o_num_threads := n\<rparr>) (cpus (o_affinity_mask opts))
      else Some opts)"

definition late_error :: "'m options \<Rightarrow> bool" where
  "late_error opts \<longleftrightarrow> o_num_threads opts < 1 \<or> (o_aligned opts \<and> o_secaligned opts)"

text \<open>
  What follows the option loop: \<open>cpus\<close> is the result of \<open>get_available_cpus\<close>, \<open>None\<close> its
  fatal exit, \<open>has_smi\<close> that of \<open>has_smi_counter\<close>. The code collects the errors in one
  flag and leaves at the end.
\<close>

definition check_options ::
  "bool \<Rightarrow> bool \<Rightarrow> ('m option \<Rightarrow> int option) \<Rightarrow> 'm options \<Rightarrow> exit_reason + 'm options" where
  "check_options numa_avail has_smi cpus opts =
     (let opts = fix_modes numa_avail opts
      in if o_smi opts \<and> (o_setaffinity opts = AFFINITY_UNSPECIFIED \<or> \<not> has_smi) then Inl Fatal_Error
         else
           let error = early_error opts
           in case count_threads cpus (clamp_options opts) of
                None \<Rightarrow> Inl Fatal_Error
              | Some opts \<Rightarrow>
                  let opts = default_priority opts
                  in if error \<or> late_error opts then Inl Help_Failure else Inr opts)"

definition process_options ::
  "(string \<Rightarrow> int \<times> 'm option option) \<Rightarrow> bool \<Rightarrow> bool \<Rightarrow> bool \<Rightarrow> ('m option \<Rightarrow> int option)
     \<Rightarrow> opt_event list \<Rightarrow> exit_reason + 'm options" where
  "process_options pm numa_avail arch_smi has_smi cpus evs =
     (case fold_res (\<lambda>opts ev. process_option pm numa_avail arch_smi ev opts) initial_options evs of
        Inl e \<Rightarrow> Inl e
      | Inr opts \<Rightarrow> check_options numa_avail has_smi cpus opts)"

definition check_timer :: "int \<Rightarrow> timespec \<Rightarrow> bool" where
  "check_timer ret ts \<longleftrightarrow> ret \<noteq> 0 \<or> tv_sec ts \<noteq> 0 \<or> tv_nsec ts \<noteq> 1"

section \<open>The threads that main starts\<close>

text \<open>
  The variables of \<open>main\<close> that the loop over the threads changes. \<open>alloc\<close> tells whether
  the value buffers of a thread can be allocated, \<open>cpu\<close> and \<open>node\<close> are the results of
  \<open>cpu_for_thread_sp\<close>/\<open>_ua\<close> and of libnuma for a thread number.
\<close>

record spawn =
  sp_priority :: int
  sp_interval :: int
  sp_force_sched_other :: bool

datatype spawn_fault = Spawn_Fault c_fault | Out_Of_Memory

definition thread_mode :: "'m options \<Rightarrow> int" where
  "thread_mode opts = o_use_nanosleep opts + o_use_system opts"

definition new_stat :: "'m options \<Rightarrow> nat \<Rightarrow> thread_stat" where
  "new_stat opts i =
     \<lparr>s_cycles = 0, s_cyclesread = 0, s_min = 1000000, s_max = 0, s_act = 0, s_avg = 0,
      s_values = (if o_verbose opts then Some (replicate VALBUF_SIZE 0) else None),
      s_smis = (if o_verbose opts \<and> o_smi opts then Some (replicate VALBUF_SIZE 0) else None),
      s_hist = (if o_histogram opts \<noteq> 0 then Some i else None),
      s_threadstarted = 1, s_tid = 0, s_reduce = 0, s_redmax = 0, s_cycleofmax = 0, s_smi_count = 0\<rparr>"

definition new_param ::
  "'m options \<Rightarrow> int \<Rightarrow> int \<Rightarrow> int \<Rightarrow> nat \<Rightarrow> spawn \<Rightarrow> thread_param" where
  "new_param opts clock cpu node i sp =
     \<lparr>p_prio = sp_priority sp,
      p_policy = (if sp_priority sp \<noteq> 0 \<and> realtime (o_policy opts) then o_policy opts else SCHED_OTHER),
      p_mode = thread_mode opts, p_timermode = o_timermode opts, p_signal = 14, p_clock = clock,
      p_max_cycles = word_of_int (o_max_cycles opts),
      p_bufmsk = (if o_verbose opts then of_nat (VALBUF_SIZE - 1) else 0),
      p_interval = word_of_int (sp_interval sp), p_cpu = cpu, p_node = node, p_tnum = int i, p_msr_fd = 0\<rparr>"

definition next_spawn :: "'m options \<Rightarrow> spawn \<Rightarrow> spawn" where
  "next_spawn opts sp =
     \<lparr>sp_priority = (if o_priospread opts then sp_priority sp - 1 else sp_priority sp),
      sp_interval = (if o_histogram opts = 0 then s32 (sp_interval sp + o_distance opts) else sp_interval sp),
      sp_force_sched_other = (sp_force_sched_other sp
         \<or> \<not> (sp_priority sp \<noteq> 0 \<and> realtime (o_policy opts)))\<rparr>"

fun make_threads ::
  "'m options \<Rightarrow> (nat \<Rightarrow> bool) \<Rightarrow> (nat \<Rightarrow> int) \<Rightarrow> (nat \<Rightarrow> int) \<Rightarrow> nat \<Rightarrow> nat \<Rightarrow> spawn
     \<Rightarrow> spawn_fault + (thread_param \<times> thread_stat) list" where
  "make_threads opts alloc cpu node i 0 sp = Inr []"
| "make_threads opts alloc cpu node i (Suc n) sp =
     (if o_verbose opts \<and> \<not> alloc i then Inl Out_Of_Memory
      else case array_get (Some clocksources) (nat (o_clocksel opts)) of
        Inl e \<Rightarrow> Inl (Spawn_Fault e)
      | Inr clock \<Rightarrow>
          (case make_threads opts alloc cpu node (Suc i) n (next_spawn opts sp) of
             Inl e \<Rightarrow> Inl e
           | Inr ts \<Rightarrow> Inr ((new_param opts clock (cpu i) (node i) i sp, new_stat opts i) # ts)))"

definition start_threads ::
  "'m options \<Rightarrow> (nat \<Rightarrow> bool) \<Rightarrow> (nat \<Rightarrow> int) \<Rightarrow> (nat \<Rightarrow> int)
     \<Rightarrow> spawn_fault + (thread_param \<times> thread_stat) list" where
  "start_threads opts alloc cpu node =
     make_threads opts alloc cpu node 0 (nat (o_num_threads opts))
       \<lparr>sp_priority = o_priority opts, sp_interval = o_interval opts, sp_force_sched_other = False\<rparr>"

section \<open>Properties of accepted options\<close>

definition modes_valid :: "'m options \<Rightarrow> bool" where
  "modes_valid opts \<longleftrightarrow> o_use_nanosleep opts \<in> {0, 1} \<and> o_use_system opts \<in> {0, 2}"

lemma process_option_modes:
  assumes "modes_valid opts" and "process_option pm na as ev opts = Inr opts'"
  shows "modes_valid opts'"
  using assms
  by (cases "ev_code ev")
    (auto simp: process_option_def modes_valid_def mode_consts option_affinity_def option_threads_def
      option_mainaffinity_def option_histogram_def Let_def split: if_splits option.splits)

interpretation opts: partial_machine "\<lambda>opts ev. process_option pm na as ev opts" modes_valid
  by unfold_locales (rule process_option_modes)

lemma default_priority_keeps [simp]:
  "o_clocksel (default_priority opts) = o_clocksel opts"
  "o_oscope_reduction (default_priority opts) = o_oscope_reduction opts"
  "o_histogram (default_priority opts) = o_histogram opts"
  "o_num_threads (default_priority opts) = o_num_threads opts"
  "o_aligned (default_priority opts) = o_aligned opts"
  "o_secaligned (default_priority opts) = o_secaligned opts"
  "o_use_nanosleep (default_priority opts) = o_use_nanosleep opts"
  "o_use_system (default_priority opts) = o_use_system opts"
  by (simp_all add: default_priority_def Let_def)

lemma default_priority_matches:
  "0 \<le> o_num_threads opts \<Longrightarrow> o_num_threads opts < 2 ^ 31 - 1
    \<Longrightarrow> realtime (o_policy (default_priority opts)) \<longleftrightarrow> o_priority (default_priority opts) \<noteq> 0"
  by (auto simp: default_priority_def Let_def realtime_def s32_id)

text \<open>The options that pass all checks, apart from the number of the clock.\<close>

definition options_valid :: "'m options \<Rightarrow> bool" where
  "options_valid opts \<longleftrightarrow> 1 \<le> o_oscope_reduction opts \<and> 0 \<le> o_histogram opts \<and> o_histogram opts \<le> HIST_MAX
     \<and> 1 \<le> o_num_threads opts \<and> \<not> (o_aligned opts \<and> o_secaligned opts)
     \<and> thread_mode opts \<in> {MODE_CYCLIC, MODE_CLOCK_NANOSLEEP, MODE_SYS_NANOSLEEP}"

lemma fix_modes_keeps [simp]:
  "o_clocksel (fix_modes na opts) = o_clocksel opts"
  "o_oscope_reduction (fix_modes na opts) = o_oscope_reduction opts"
  "o_histogram (fix_modes na opts) = o_histogram opts"
  by (simp_all add: fix_modes_def Let_def)

lemma fix_modes_mode:
  "modes_valid opts \<Longrightarrow>
    thread_mode (fix_modes na opts) \<in> {MODE_CYCLIC, MODE_CLOCK_NANOSLEEP, MODE_SYS_NANOSLEEP}"
  by (auto simp: fix_modes_def Let_def modes_valid_def thread_mode_def mode_consts)

lemma clamp_options_keeps [simp]:
  "o_clocksel (clamp_options opts) = o_clocksel opts"
  "o_oscope_reduction (clamp_options opts) = o_oscope_reduction opts"
  "o_histogram (clamp_options opts) = min HIST_MAX (o_histogram opts)"
  "thread_mode (clamp_options opts) = thread_mode opts"
  by (simp_all add: clamp_options_def Let_def thread_mode_def)

lemma count_threads_keeps:
  assumes "count_threads cpus opts = Some opts'"
  shows "o_clocksel opts' = o_clocksel opts" "o_oscope_reduction opts' = o_oscope_reduction opts"
    "o_histogram opts' = o_histogram opts" "thread_mode opts' = thread_mode opts"
  using assms by (auto simp: count_threads_def thread_mode_def split: if_splits)

lemma default_priority_mode [simp]: "thread_mode (default_priority opts) = thread_mode opts"
  by (simp add: thread_mode_def)

lemma check_options_accepts:
  assumes "check_options na hs cpus opts = Inr opts'" and "modes_valid opts"
  shows "options_valid opts' \<and> 0 \<le> o_clocksel opts' \<and> o_clocksel opts' \<le> 2"
proof -
  obtain o1 where o1: "count_threads cpus (clamp_options (fix_modes na opts)) = Some o1"
    and opts': "opts' = default_priority o1"
    and ok: "\<not> early_error (fix_modes na opts)" "\<not> late_error opts'"
    using assms(1) by (auto simp: check_options_def Let_def split: if_splits option.splits)
  show ?thesis
    using count_threads_keeps [OF o1] ok fix_modes_mode [OF assms(2), of na]
    by (simp add: opts' options_valid_def early_error_def late_error_def clocksources_def HIST_MAX_def)
qed

lemma check_options_priority:
  assumes "check_options na hs cpus opts = Inr opts'" and "o_num_threads opts' < 2 ^ 31 - 1"
  shows "realtime (o_policy opts') \<longleftrightarrow> o_priority opts' \<noteq> 0"
proof -
  obtain o1 where "opts' = default_priority o1" "\<not> late_error opts'"
    using assms(1) by (auto simp: check_options_def Let_def split: if_splits option.splits)
  with assms(2) default_priority_matches [of o1] show ?thesis by (simp add: late_error_def)
qed

lemma process_options_valid:
  assumes "process_options pm na as hs cpus evs = Inr opts"
  shows "options_valid opts" "0 \<le> o_clocksel opts" "o_clocksel opts \<le> 2"
    "o_num_threads opts < 2 ^ 31 - 1 \<Longrightarrow> realtime (o_policy opts) \<longleftrightarrow> o_priority opts \<noteq> 0"
proof -
  obtain o1 where run: "fold_res (\<lambda>opts ev. process_option pm na as ev opts) initial_options evs = Inr o1"
    and check: "check_options na hs cpus o1 = Inr opts"
    using assms by (auto simp: process_options_def split: sum.splits)
  have "modes_valid initial_options"
    by (simp add: modes_valid_def initial_options_def mode_consts)
  from opts.inv_run [OF this run] have "modes_valid o1" .
  with check_options_accepts [OF check] check_options_priority [OF check]
  show "options_valid opts" "0 \<le> o_clocksel opts" "o_clocksel opts \<le> 2"
    "o_num_threads opts < 2 ^ 31 - 1 \<Longrightarrow> realtime (o_policy opts) \<longleftrightarrow> o_priority opts \<noteq> 0"
    by blast+
qed

text \<open>
  Accepted command lines: if \<open>process_options\<close> returns, the reduction is at least 1, the
  histogram size is between 0 and 1000000, there is at least one thread, the two kinds of
  alignment are not mixed, the mode is one of the three that the options can select, and
  the policy is a real-time policy exactly when the priority is not 0.
\<close>

theorem process_options_accepted:
  assumes "process_options pm na as hs cpus evs = Inr opts"
  shows "options_valid opts \<and> 0 \<le> o_clocksel opts \<and> o_clocksel opts \<le> 2
    \<and> (o_num_threads opts < 2 ^ 31 - 1 \<longrightarrow> (realtime (o_policy opts) \<longleftrightarrow> o_priority opts \<noteq> 0))"
  using process_options_valid [OF assms] by blast

definition cmdline :: "opt_event list" where
  "cmdline = [\<lparr>ev_code = OPT_PRIOSPREAD, ev_optarg = None, ev_next = None\<rparr>,
     \<lparr>ev_code = OPT_THREADS, ev_optarg = Some ''4'', ev_next = None\<rparr>,
     \<lparr>ev_code = OPT_INTERVAL, ev_optarg = Some ''200'', ev_next = None\<rparr>]"

abbreviation parsed :: "opt_event list \<Rightarrow> exit_reason + nat options" where
  "parsed evs \<equiv> process_options (\<lambda>_. (0, None)) False True False (\<lambda>_. Some 8) evs"

lemma parsed_cmdline:
  "\<exists>opts. parsed cmdline = Inr opts \<and> o_priority opts = 5 \<and> o_num_threads opts = 4 \<and> o_interval opts = 200
     \<and> o_policy opts = SCHED_FIFO \<and> o_priospread opts \<and> o_clocksel opts = 0 \<and> o_histogram opts = 0
     \<and> o_distance opts = 500 \<and> \<not> o_verbose opts"
proof -
  have "atoi ''4'' = 4" "atoi ''200'' = 200" by code_simp+
  then show ?thesis
    by (simp add: process_options_def cmdline_def process_option_def Let_def option_threads_def
        initial_options_def check_options_def fix_modes_def mode_consts early_error_def clamp_options_def
        count_threads_def late_error_def default_priority_def realtime_def sched_consts HIST_MAX_def
        DEFAULT_DISTANCE_def clocksources_def s32_def)
qed

theorem process_options_accepted_witness:
  "\<exists>opts. parsed cmdline = Inr opts \<and> options_valid opts \<and> realtime (o_policy opts)"
proof -
  from parsed_cmdline obtain opts where p: "parsed cmdline = Inr opts" "o_num_threads opts = 4" "o_priority opts = 5"
    by blast
  from process_options_accepted [OF p(1)] p show ?thesis by simp
qed

section \<open>The number of the clock\<close>

lemma fix_modes_clocksel:
  "fix_modes na (opts\<lparr>o_clocksel := c\<rparr>) = (fix_modes na opts)\<lparr>o_clocksel := c\<rparr>"
  by (simp add: fix_modes_def)

lemma clamp_options_clocksel:
  "clamp_options (opts\<lparr>o_clocksel := c\<rparr>) = (clamp_options opts)\<lparr>o_clocksel := c\<rparr>"
  by (simp add: clamp_options_def)

lemma default_priority_clocksel:
  "default_priority (opts\<lparr>o_clocksel := c\<rparr>) = (default_priority opts)\<lparr>o_clocksel := c\<rparr>"
proof -
  define o1 where "o1 = (if o_priospread opts \<and> o_priority opts = 0
    then opts\<lparr>o_priority := s32 (o_num_threads opts + 1)\<rparr> else opts)"
  define o2 where "o2 = (if o_priority o1 \<noteq> 0 \<and> \<not> realtime (o_policy o1)
    then o1\<lparr>o_policy := SCHED_FIFO\<rparr> else o1)"
  have e1: "(if o_priospread (opts\<lparr>o_clocksel := c\<rparr>) \<and> o_priority (opts\<lparr>o_clocksel := c\<rparr>) = 0
      then opts\<lparr>o_clocksel := c, o_priority := s32 (o_num_threads (opts\<lparr>o_clocksel := c\<rparr>) + 1)\<rparr>
      else opts\<lparr>o_clocksel := c\<rparr>) = o1\<lparr>o_clocksel := c\<rparr>"
    by (simp add: o1_def)
  have e2: "(if o_priority (o1\<lparr>o_clocksel := c\<rparr>) \<noteq> 0 \<and> \<not> realtime (o_policy (o1\<lparr>o_clocksel := c\<rparr>))
      then o1\<lparr>o_clocksel := c, o_policy := SCHED_FIFO\<rparr> else o1\<lparr>o_clocksel := c\<rparr>) = o2\<lparr>o_clocksel := c\<rparr>"
    by (simp add: o2_def)
  show ?thesis
    unfolding default_priority_def Let_def e1 o1_def [symmetric] e2 o2_def [symmetric] by simp
qed

lemmas clocksel_commutes = fix_modes_clocksel clamp_options_clocksel default_priority_clocksel

lemma count_threads_clocksel:
  "count_threads cpus opts = Some opts'
    \<Longrightarrow> count_threads cpus (opts\<lparr>o_clocksel := c\<rparr>) = Some (opts'\<lparr>o_clocksel := c\<rparr>)"
  by (auto simp: count_threads_def split: if_splits)

lemma errors_clocksel:
  "late_error (opts\<lparr>o_clocksel := c\<rparr>) = late_error opts"
  "\<not> early_error opts \<Longrightarrow> early_error (opts\<lparr>o_clocksel := c\<rparr>) \<longleftrightarrow> c < 0 \<or> 2 < c"
  by (auto simp: late_error_def early_error_def clocksources_def)

lemma check_options_clocksel:
  assumes "check_options na hs cpus opts = Inr opts'"
  shows "check_options na hs cpus (opts\<lparr>o_clocksel := c\<rparr>) =
    (if 0 \<le> c \<and> c \<le> 2 then Inr (opts'\<lparr>o_clocksel := c\<rparr>) else Inl Help_Failure)"
proof -
  let ?o = "fix_modes na opts"
  obtain o1 where o1: "count_threads cpus (clamp_options ?o) = Some o1"
    and opts': "opts' = default_priority o1"
    and ok: "\<not> early_error ?o" "\<not> late_error (default_priority o1)"
      "\<not> (o_smi ?o \<and> (o_setaffinity ?o = AFFINITY_UNSPECIFIED \<or> \<not> hs))"
    using assms by (auto simp: check_options_def Let_def split: if_splits option.splits)
  show ?thesis
    using ok(3) unfolding check_options_def Let_def clocksel_commutes count_threads_clocksel [OF o1] opts'
    by (simp add: errors_clocksel ok clocksel_commutes not_le not_less disj_commute) linarith
qed

lemma make_threads_in_bounds:
  "nat (o_clocksel opts) < length clocksources
    \<Longrightarrow> make_threads opts alloc cpu node i n sp \<noteq> Inl (Spawn_Fault e)"
  by (induction n arbitrary: i sp) (auto simp: array_get_def split: sum.splits)

lemma start_threads_fault:
  assumes "1 \<le> o_num_threads opts" and "0 \<le> o_clocksel opts" and "o_verbose opts \<longrightarrow> alloc 0"
  shows "start_threads opts alloc cpu node = Inl (Spawn_Fault Out_Of_Bounds) \<longleftrightarrow> 2 \<le> o_clocksel opts"
proof (cases "2 \<le> o_clocksel opts")
  case True
  obtain n where "nat (o_num_threads opts) = Suc n"
    using assms(1) by (cases "nat (o_num_threads opts)") auto
  moreover have "\<not> nat (o_clocksel opts) < length clocksources"
    using True by (simp add: clocksources_def)
  ultimately show ?thesis
    using True assms(3) by (simp add: start_threads_def array_get_def)
next
  case False
  then have "nat (o_clocksel opts) < length clocksources" by (simp add: clocksources_def)
  from make_threads_in_bounds [OF this] False show ?thesis by (simp add: start_threads_def)
qed

text \<open>
  C37. The check of \<open>--clock\<close> lets one value too many pass. Take any accepted command line,
  append one more \<open>--clock\<close> with any argument, and let the value buffer of the first thread
  be allocated where the verbose mode asks for one. The new line is accepted exactly when
  the argument reads as 0, 1 or 2, with no other option changed; and \<open>main\<close> then reads past
  the end of the array \<open>clocksources\<close> exactly when it reads as 2.
\<close>

theorem clock_option_out_of_bounds:
  assumes "process_options pm na as hs cpus evs = Inr opts" and "o_verbose opts \<longrightarrow> alloc 0"
  shows "process_options pm na as hs cpus
      (evs @ [\<lparr>ev_code = OPT_CLOCK, ev_optarg = Some a, ev_next = nx\<rparr>])
      = (if 0 \<le> atoi a \<and> atoi a \<le> 2 then Inr (opts\<lparr>o_clocksel := atoi a\<rparr>) else Inl Help_Failure)
    \<and> (0 \<le> atoi a \<and> atoi a \<le> 2 \<longrightarrow>
        (start_threads (opts\<lparr>o_clocksel := atoi a\<rparr>) alloc cpu node = Inl (Spawn_Fault Out_Of_Bounds)
          \<longleftrightarrow> atoi a = 2))"
proof -
  obtain o1 where run: "fold_res (\<lambda>opts ev. process_option pm na as ev opts) initial_options evs = Inr o1"
    and check: "check_options na hs cpus o1 = Inr opts"
    using assms(1) by (auto simp: process_options_def split: sum.splits)
  have "process_options pm na as hs cpus (evs @ [\<lparr>ev_code = OPT_CLOCK, ev_optarg = Some a, ev_next = nx\<rparr>])
      = check_options na hs cpus (o1\<lparr>o_clocksel := atoi a\<rparr>)"
    using run by (simp add: process_options_def fold_res_append process_option_def)
  moreover have "1 \<le> o_num_threads opts"
    using process_options_valid [OF assms(1)] by (simp add: options_valid_def)
  ultimately show ?thesis
    using check_options_clocksel [OF check, of "atoi a"] assms(2)
      start_threads_fault [of "opts\<lparr>o_clocksel := atoi a\<rparr>" alloc cpu node] by auto
qed

theorem clock_option_out_of_bounds_witness:
  "\<exists>opts. parsed (cmdline @ [\<lparr>ev_code = OPT_CLOCK, ev_optarg = Some ''2'', ev_next = None\<rparr>]) = Inr opts
     \<and> start_threads opts (\<lambda>_. True) (\<lambda>_. - 1) (\<lambda>_. - 1) = Inl (Spawn_Fault Out_Of_Bounds)"
proof -
  have a: "atoi ''2'' = 2" by code_simp
  from parsed_cmdline obtain opts where "parsed cmdline = Inr opts" by blast
  from clock_option_out_of_bounds [OF this, of "\<lambda>_. True" "''2''" None "\<lambda>_. - 1" "\<lambda>_. - 1"] show ?thesis
    by (simp add: a)
qed

section \<open>Properties of the started threads\<close>

lemma make_threads_nth:
  assumes "make_threads opts alloc cpu node i n sp = Inr ts" and "k < n"
  shows "length ts = n" "ts ! k = (new_param opts (clocksources ! nat (o_clocksel opts)) (cpu (i + k))
      (node (i + k)) (i + k) ((next_spawn opts ^^ k) sp), new_stat opts (i + k))"
    "nat (o_clocksel opts) < length clocksources"
proof -
  have "length ts = n \<and> ts ! k = (new_param opts (clocksources ! nat (o_clocksel opts)) (cpu (i + k))
      (node (i + k)) (i + k) ((next_spawn opts ^^ k) sp), new_stat opts (i + k))
      \<and> nat (o_clocksel opts) < length clocksources"
    using assms
  proof (induction n arbitrary: i sp ts k)
    case (Suc n)
    then obtain us where us: "make_threads opts alloc cpu node (Suc i) n (next_spawn opts sp) = Inr us"
      and c: "nat (o_clocksel opts) < length clocksources"
      and ts: "ts = (new_param opts (clocksources ! nat (o_clocksel opts)) (cpu i) (node i) i sp, new_stat opts i) # us"
      by (auto simp: array_get_def split: if_splits sum.splits)
    show ?case
    proof (cases k)
      case 0
      have "length us = n"
        using us Suc.IH [OF us] by (cases n) auto
      with 0 ts c show ?thesis by simp
    next
      case (Suc j)
      with Suc.prems(2) Suc.IH [OF us, of j] ts c show ?thesis
        by (simp add: funpow_swap1)
    qed
  qed simp
  then show "length ts = n" "ts ! k = (new_param opts (clocksources ! nat (o_clocksel opts)) (cpu (i + k))
      (node (i + k)) (i + k) ((next_spawn opts ^^ k) sp), new_stat opts (i + k))"
    "nat (o_clocksel opts) < length clocksources"
    by blast+
qed

lemma next_spawn_simps [simp]:
  "sp_priority (next_spawn opts sp) = (if o_priospread opts then sp_priority sp - 1 else sp_priority sp)"
  "sp_interval (next_spawn opts sp)
    = (if o_histogram opts = 0 then s32 (sp_interval sp + o_distance opts) else sp_interval sp)"
  by (simp_all add: next_spawn_def)

lemma next_spawn_priority:
  "sp_priority ((next_spawn opts ^^ k) sp) = sp_priority sp - (if o_priospread opts then int k else 0)"
  by (induction k) simp_all

lemma next_spawn_interval:
  assumes "o_histogram opts = 0 \<Longrightarrow> 0 \<le> o_distance opts" and "0 \<le> sp_interval sp"
    and "sp_interval sp + int k * o_distance opts < 2 ^ 31" and "sp_interval sp < 2 ^ 31"
  shows "sp_interval ((next_spawn opts ^^ k) sp)
    = sp_interval sp + (if o_histogram opts = 0 then int k * o_distance opts else 0)"
  using assms(3)
proof (induction k)
  case (Suc k)
  show ?case
  proof (cases "o_histogram opts = 0")
    case True
    then have d: "0 \<le> o_distance opts" using assms(1) by simp
    have "sp_interval sp + int k * o_distance opts + o_distance opts < 2 ^ 31"
      using Suc.prems by (simp add: algebra_simps)
    moreover have "0 \<le> int k * o_distance opts" using d by simp
    ultimately have "s32 (sp_interval sp + int k * o_distance opts + o_distance opts)
        = sp_interval sp + int k * o_distance opts + o_distance opts"
      using d assms(2) by (intro s32_id) linarith+
    moreover have "sp_interval sp + int k * o_distance opts < 2 ^ 31"
      using Suc.prems d by (simp add: algebra_simps)
    ultimately show ?thesis
      using Suc.IH True by (simp add: algebra_simps)
  next
    case False
    then show ?thesis
      by (induction k) simp_all
  qed
qed simp

text \<open>
  The threads \<open>main\<close> starts: their number is the one asked for; thread \<open>k\<close> has the number
  \<open>k\<close>, the interval \<open>interval + k * distance\<close> (the same interval with a histogram), the
  priority \<open>priority - k\<close> when priorities are spread and else the common priority, a
  real-time policy exactly when its priority is not 0 and the policy is one, and statistics
  and buffers as the measuring loop expects them.
\<close>

theorem start_threads_parameters:
  assumes "start_threads opts alloc cpu node = Inr ts" and "k < nat (o_num_threads opts)"
    and "o_histogram opts = 0 \<Longrightarrow> 0 \<le> o_distance opts" and "0 \<le> o_interval opts" "o_interval opts < 2 ^ 31"
    and "o_interval opts + int k * o_distance opts < 2 ^ 31"
  shows "length ts = nat (o_num_threads opts)
    \<and> p_tnum (fst (ts ! k)) = int k
    \<and> uint (p_interval (fst (ts ! k)))
        = o_interval opts + (if o_histogram opts = 0 then int k * o_distance opts else 0)
    \<and> p_prio (fst (ts ! k)) = o_priority opts - (if o_priospread opts then int k else 0)
    \<and> (realtime (p_policy (fst (ts ! k))) \<longleftrightarrow> p_prio (fst (ts ! k)) \<noteq> 0 \<and> realtime (o_policy opts))
    \<and> s_cycles (snd (ts ! k)) = 0 \<and> s_min (snd (ts ! k)) = 1000000 \<and> s_max (snd (ts ! k)) = 0
    \<and> s_avg (snd (ts ! k)) = 0
    \<and> (o_verbose opts \<longrightarrow> p_bufmsk (fst (ts ! k)) = 16383 \<and> buffered [] (snd (ts ! k)))"
proof -
  let ?sp = "\<lparr>sp_priority = o_priority opts, sp_interval = o_interval opts, sp_force_sched_other = False\<rparr>"
  define sp where "sp = (next_spawn opts ^^ k) ?sp"
  note t = make_threads_nth [OF assms(1) [unfolded start_threads_def] assms(2)]
  have i: "sp_interval sp = o_interval opts + (if o_histogram opts = 0 then int k * o_distance opts else 0)"
    unfolding sp_def using next_spawn_interval [of opts ?sp k] assms(3-6) by simp
  moreover have "0 \<le> sp_interval sp"
    using i assms(3,4) by (auto intro: add_nonneg_nonneg)
  moreover have "sp_interval sp < 2 ^ 31"
    using i assms(5,6) by (auto split: if_splits)
  ultimately have "uint (word_of_int (sp_interval sp) :: ulong) = sp_interval sp"
    by (intro uint_word_of_int_id) simp_all
  note iv = trans [OF this i]
  have "sp_priority sp = o_priority opts - (if o_priospread opts then int k else 0)"
    unfolding sp_def by (simp add: next_spawn_priority)
  then show ?thesis
    using t(1) iv unfolding t(2) sp_def [symmetric]
    by (simp add: new_param_def new_stat_def realtime_def sched_consts buffered_def VALBUF_SIZE_def)
qed

theorem start_threads_parameters_witness:
  "\<exists>opts ts. parsed cmdline = Inr opts \<and> start_threads opts (\<lambda>_. True) (\<lambda>_. - 1) (\<lambda>_. - 1) = Inr ts
     \<and> uint (p_interval (fst (ts ! 3))) = 1700 \<and> p_prio (fst (ts ! 3)) = 2
     \<and> realtime (p_policy (fst (ts ! 3)))"
proof -
  from parsed_cmdline obtain opts where p: "parsed cmdline = Inr opts" "o_priority opts = 5"
    "o_num_threads opts = 4" "o_interval opts = 200" "o_policy opts = SCHED_FIFO" "o_priospread opts"
    "o_clocksel opts = 0" "o_histogram opts = 0" "o_distance opts = 500" "\<not> o_verbose opts"
    by blast
  have "\<exists>ts. start_threads opts (\<lambda>_. True) (\<lambda>_. - 1) (\<lambda>_. - 1) = Inr ts"
    using p by (simp add: start_threads_def eval_nat_numeral clocksources_def array_get_def)
  then obtain ts where ts: "start_threads opts (\<lambda>_. True) (\<lambda>_. - 1) (\<lambda>_. - 1) = Inr ts" ..
  from start_threads_parameters [OF ts, of 3] p ts show ?thesis
    by (simp add: realtime_def)
qed

end
