(* ===== verification/Linked_List.thy ===== *)
theory Linked_List
  imports Prelude
begin

text \<open>
  Doubly linked lists in memory, as the score uses them for chains and for the free list of
  the heap: two fields \<open>nx\<close> and \<open>pv\<close> as functions of addresses. \<open>linked nx pv L\<close> says that
  the addresses of \<open>L\<close> follow each other in both directions. A list with a sentinel \<open>s\<close> on
  both ends is \<open>s # xs @ [s]\<close>, one with head and tail nodes is \<open>hd # xs @ [tl]\<close>; no address
  occurs twice as a left end and none twice as a right end (\<open>dlist\<close>).
\<close>

fun linked :: "(nat \<Rightarrow> nat) \<Rightarrow> (nat \<Rightarrow> nat) \<Rightarrow> nat list \<Rightarrow> bool" where
  "linked nx pv [] \<longleftrightarrow> True"
| "linked nx pv [x] \<longleftrightarrow> True"
| "linked nx pv (x # y # xs) \<longleftrightarrow> nx x = y \<and> pv y = x \<and> linked nx pv (y # xs)"

definition dlist :: "(nat \<Rightarrow> nat) \<Rightarrow> (nat \<Rightarrow> nat) \<Rightarrow> nat list \<Rightarrow> bool" where
  "dlist nx pv L \<longleftrightarrow> linked nx pv L \<and> distinct (butlast L) \<and> distinct (tl L)"

lemma linked_split: "linked nx pv (xs @ m # ys) \<longleftrightarrow> linked nx pv (xs @ [m]) \<and> linked nx pv (m # ys)"
proof (induction xs)
  case (Cons x xs)
  then show ?case by (cases xs) auto
qed simp

lemma linked_cong:
  assumes "\<And>x. x \<in> set (butlast L) \<Longrightarrow> nx' x = nx x" and "\<And>x. x \<in> set (tl L) \<Longrightarrow> pv' x = pv x"
  shows "linked nx' pv' L = linked nx pv L"
  using assms by (induction nx pv L rule: linked.induct) auto

lemma linked_around:
  "linked nx pv (xs @ p # n # ys) \<longleftrightarrow>
     linked nx pv (xs @ [p]) \<and> nx p = n \<and> pv n = p \<and> linked nx pv (n # ys)"
  by (subst linked_split) simp

lemma in_set_tl: "x \<in> set (tl L) \<Longrightarrow> x \<in> set L"
  by (cases L) simp_all

lemma tl_snoc: "tl (xs @ p # r) = tl (xs @ [p]) @ r"
  by (cases xs) simp_all

lemma dlist_parts:
  "dlist nx pv (xs @ p # n # ys) \<longleftrightarrow>
     linked nx pv (xs @ [p]) \<and> nx p = n \<and> pv n = p \<and> linked nx pv (n # ys)
     \<and> distinct (xs @ p # butlast (n # ys)) \<and> distinct (tl (xs @ [p]) @ n # ys)"
  unfolding dlist_def linked_around by (subst tl_snoc) (auto simp: butlast_append)

text \<open>Insertion of \<open>x\<close> between the neighbours \<open>p\<close> and \<open>n\<close>: the new node first, then its neighbours.\<close>

lemma dlist_insert:
  assumes "dlist nx pv (xs @ p # n # ys)" and x: "x \<notin> set (xs @ p # n # ys)"
  shows "dlist (nx(x := n, p := x)) (pv(x := p, n := x)) (xs @ p # x # n # ys)"
proof -
  note d = assms(1) [unfolded dlist_parts]
  have "linked (nx(x := n, p := x)) (pv(x := p, n := x)) (xs @ [p]) = linked nx pv (xs @ [p])"
    using d x by (intro linked_cong) (auto dest: in_set_tl)
  moreover have "linked (nx(x := n, p := x)) (pv(x := p, n := x)) (n # ys) = linked nx pv (n # ys)"
    using d x by (intro linked_cong) (auto dest: in_set_butlastD split: if_splits)
  ultimately show ?thesis
    using d x unfolding dlist_parts
    by (cases xs; cases ys) (auto dest: in_set_butlastD)
qed

lemma dlist_remove:
  assumes "dlist nx pv (xs @ p # x # n # ys)"
  shows "dlist (nx(p := n)) (pv(n := p)) (xs @ p # n # ys)" "nx x = n" "pv x = p"
proof -
  note d = assms [unfolded dlist_parts]
  have "linked (nx(p := n)) (pv(n := p)) (xs @ [p]) = linked nx pv (xs @ [p])"
    using d by (intro linked_cong) auto
  moreover have "linked (nx(p := n)) (pv(n := p)) (n # ys) = linked nx pv (n # ys)"
    using d by (intro linked_cong) (auto dest: in_set_butlastD split: if_splits)
  ultimately show "dlist (nx(p := n)) (pv(n := p)) (xs @ p # n # ys)"
    using d unfolding dlist_parts by (cases xs; cases ys) auto
  show "nx x = n" "pv x = p" using d by auto
qed

lemma dlist_replace:
  assumes "dlist nx pv (xs @ p # x # n # ys)" and "z \<notin> set (xs @ p # x # n # ys)"
  shows "dlist (nx(z := n, p := z)) (pv(z := p, n := z)) (xs @ p # z # n # ys)"
proof -
  have "dlist ((nx(p := n))(z := n, p := z)) ((pv(n := p))(z := p, n := z)) (xs @ p # z # n # ys)"
    using dlist_insert [OF dlist_remove(1) [OF assms(1)], of z] assms(2) by simp
  moreover have "(nx(p := n))(z := n, p := z) = nx(z := n, p := z)"
    "(pv(n := p))(z := p, n := z) = pv(z := p, n := z)"
    by auto
  ultimately show ?thesis by simp
qed

lemma dlist_cong:
  assumes "\<And>x. x \<in> set L \<Longrightarrow> nx' x = nx x" and "\<And>x. x \<in> set L \<Longrightarrow> pv' x = pv x"
  shows "dlist nx' pv' L = dlist nx pv L"
  unfolding dlist_def using assms
  by (subst linked_cong [of L nx' nx pv' pv]) (auto dest: in_set_butlastD in_set_tl)

end
