(* ===== verification/Heap.thy ===== *)
theory Heap
  imports Linked_List
begin

text \<open>
  The heap handler of the score (\<^verbatim>\<open>cpukit/score/src/heap*.c\<close>,
  \<^verbatim>\<open>cpukit/include/rtems/score/heapimpl.h\<close>), built without \<open>HEAP_PROTECTION\<close> and without
  \<open>RTEMS_DEBUG\<close>: the protection hooks and assertions are empty.

  Addresses and sizes are 64-bit unsigned numbers, kept as \<open>nat\<close> with the wrap-around
  written out (\<open>uadd\<close>, \<open>usub\<close>). The memory of the heap is seen through the four fields of a
  block header, each a function of the address of the block; blocks never overlap, which
  the layout invariant of \<^verbatim>\<open>Heap_Layout\<close> states, so writing a field of one block changes
  no field of another. Clients that write to their areas, where unused fields of headers
  lie, are the subject of \<^verbatim>\<open>Heap_Writes\<close>. A pointer is the address, the null pointer is 0.
\<close>

section \<open>Arithmetic of \<open>uintptr_t\<close>\<close>

definition UW :: nat where "UW = 2 ^ 64"

definition uadd :: "nat \<Rightarrow> nat \<Rightarrow> nat" where
  "uadd a b = (a + b) mod UW"

definition usub :: "nat \<Rightarrow> nat \<Rightarrow> nat" where
  "usub a b = (a + (UW - b mod UW)) mod UW"

definition inc32 :: "nat \<Rightarrow> nat" where
  "inc32 n = (n + 1) mod 2 ^ 32"

definition dec32 :: "nat \<Rightarrow> nat" where
  "dec32 n = (n + (2 ^ 32 - 1)) mod 2 ^ 32"

text \<open>\<open>x | HEAP_PREV_BLOCK_USED\<close>, \<open>x & ~HEAP_PREV_BLOCK_USED\<close>.\<close>

definition set_flag :: "nat \<Rightarrow> nat" where
  "set_flag x = (if even x then x + 1 else x)"

definition clear_flag :: "nat \<Rightarrow> nat" where
  "clear_flag x = x - x mod 2"

definition HEAP_ALLOC_BONUS :: nat where "HEAP_ALLOC_BONUS = 8"
definition HEAP_BLOCK_HEADER_SIZE :: nat where "HEAP_BLOCK_HEADER_SIZE = 16"
definition SIZEOF_HEAP_BLOCK :: nat where "SIZEOF_HEAP_BLOCK = 32"

lemmas heap_consts = HEAP_ALLOC_BONUS_def HEAP_BLOCK_HEADER_SIZE_def SIZEOF_HEAP_BLOCK_def

definition Heap_Is_aligned :: "nat \<Rightarrow> nat \<Rightarrow> bool" where
  "Heap_Is_aligned value alignment \<longleftrightarrow> value mod alignment = 0"

definition Heap_Align_down :: "nat \<Rightarrow> nat \<Rightarrow> nat" where
  "Heap_Align_down value alignment = value - value mod alignment"

definition Heap_Align_up :: "nat \<Rightarrow> nat \<Rightarrow> nat" where
  "Heap_Align_up value alignment =
     (let remainder = value mod alignment
      in if remainder \<noteq> 0 then uadd (value - remainder) alignment else value)"

definition Heap_Min_block_size :: "nat \<Rightarrow> nat" where
  "Heap_Min_block_size page_size = Heap_Align_up SIZEOF_HEAP_BLOCK page_size"

section \<open>Heap control\<close>

record heap_stats =
  st_lifetime_allocated :: nat
  st_lifetime_freed :: nat
  st_size :: nat
  st_free_size :: nat
  st_min_free_size :: nat
  st_free_blocks :: nat
  st_max_free_blocks :: nat
  st_used_blocks :: nat
  st_max_search :: nat
  st_searches :: nat
  st_allocs :: nat
  st_failed_allocs :: nat
  st_frees :: nat
  st_resizes :: nat

definition zero_stats :: heap_stats where
  "zero_stats = \<lparr>st_lifetime_allocated = 0, st_lifetime_freed = 0, st_size = 0, st_free_size = 0,
     st_min_free_size = 0, st_free_blocks = 0, st_max_free_blocks = 0, st_used_blocks = 0,
     st_max_search = 0, st_searches = 0, st_allocs = 0, st_failed_allocs = 0, st_frees = 0,
     st_resizes = 0\<rparr>"

text \<open>The control with the address of its free list node, and the block fields in memory.\<close>

record heap =
  free_list :: nat
  page_size :: nat
  min_block_size :: nat
  area_begin :: nat
  area_end :: nat
  first_block :: nat
  last_block :: nat
  stats :: heap_stats
  prev_size :: "nat \<Rightarrow> nat"
  size_and_flag :: "nat \<Rightarrow> nat"
  "next" :: "nat \<Rightarrow> nat"
  prev :: "nat \<Rightarrow> nat"

definition upd_stats :: "(heap_stats \<Rightarrow> heap_stats) \<Rightarrow> heap \<Rightarrow> heap" where
  "upd_stats f h = h\<lparr>stats := f (stats h)\<rparr>"

definition set_prev_size :: "nat \<Rightarrow> nat \<Rightarrow> heap \<Rightarrow> heap" where
  "set_prev_size b v h = h\<lparr>prev_size := (prev_size h)(b := v)\<rparr>"

definition set_size_and_flag :: "nat \<Rightarrow> nat \<Rightarrow> heap \<Rightarrow> heap" where
  "set_size_and_flag b v h = h\<lparr>size_and_flag := (size_and_flag h)(b := v)\<rparr>"

definition set_next :: "nat \<Rightarrow> nat \<Rightarrow> heap \<Rightarrow> heap" where
  "set_next b v h = h\<lparr>next := (next h)(b := v)\<rparr>"

definition set_prev :: "nat \<Rightarrow> nat \<Rightarrow> heap \<Rightarrow> heap" where
  "set_prev b v h = h\<lparr>prev := (prev h)(b := v)\<rparr>"

section \<open>Blocks and the free list\<close>

definition Heap_Block_at :: "nat \<Rightarrow> nat \<Rightarrow> nat" where
  "Heap_Block_at block offset = uadd block offset"

definition Heap_Prev_block :: "heap \<Rightarrow> nat \<Rightarrow> nat" where
  "Heap_Prev_block h block = usub block (prev_size h block)"

definition Heap_Alloc_area_of_block :: "nat \<Rightarrow> nat" where
  "Heap_Alloc_area_of_block block = uadd block HEAP_BLOCK_HEADER_SIZE"

definition Heap_Block_of_alloc_area :: "nat \<Rightarrow> nat \<Rightarrow> nat" where
  "Heap_Block_of_alloc_area alloc_begin pg = usub (Heap_Align_down alloc_begin pg) HEAP_BLOCK_HEADER_SIZE"

definition Heap_Block_size :: "heap \<Rightarrow> nat \<Rightarrow> nat" where
  "Heap_Block_size h block = clear_flag (size_and_flag h block)"

definition Heap_Is_prev_used :: "heap \<Rightarrow> nat \<Rightarrow> bool" where
  "Heap_Is_prev_used h block \<longleftrightarrow> odd (size_and_flag h block)"

text \<open>\<open>size | flag\<close>; the sizes in use are even.\<close>

definition Heap_Block_set_size :: "nat \<Rightarrow> nat \<Rightarrow> heap \<Rightarrow> heap" where
  "Heap_Block_set_size block sz h =
     set_size_and_flag block (if Heap_Is_prev_used h block then set_flag sz else sz) h"

definition Heap_Is_used :: "heap \<Rightarrow> nat \<Rightarrow> bool" where
  "Heap_Is_used h block \<longleftrightarrow> Heap_Is_prev_used h (Heap_Block_at block (Heap_Block_size h block))"

definition Heap_Is_free :: "heap \<Rightarrow> nat \<Rightarrow> bool" where
  "Heap_Is_free h block \<longleftrightarrow> \<not> Heap_Is_used h block"

definition Heap_Is_block_in_heap :: "heap \<Rightarrow> nat \<Rightarrow> bool" where
  "Heap_Is_block_in_heap h block \<longleftrightarrow> first_block h \<le> block \<and> block \<le> last_block h"

definition Heap_Set_last_block_size :: "heap \<Rightarrow> heap" where
  "Heap_Set_last_block_size h =
     Heap_Block_set_size (last_block h) (usub (first_block h) (last_block h)) h"

definition Heap_Free_list_remove :: "nat \<Rightarrow> heap \<Rightarrow> heap" where
  "Heap_Free_list_remove block h =
     (let n = next h block; p = prev h block in set_prev n p (set_next p n h))"

definition Heap_Free_list_replace :: "nat \<Rightarrow> nat \<Rightarrow> heap \<Rightarrow> heap" where
  "Heap_Free_list_replace old new h =
     (let n = next h old; p = prev h old
      in set_next p new (set_prev n new (set_prev new p (set_next new n h))))"

definition Heap_Free_list_insert_after :: "nat \<Rightarrow> nat \<Rightarrow> heap \<Rightarrow> heap" where
  "Heap_Free_list_insert_after before new h =
     (let n = next h before
      in set_prev n new (set_next before new (set_prev new before (set_next new n h))))"

definition Heap_Free_list_insert_before :: "nat \<Rightarrow> nat \<Rightarrow> heap \<Rightarrow> heap" where
  "Heap_Free_list_insert_before block_next new h =
     (let p = prev h block_next
      in set_prev block_next new (set_next p new (set_prev new p (set_next new block_next h))))"

definition Heap_Free_list_first :: "heap \<Rightarrow> nat" where
  "Heap_Free_list_first h = next h (free_list h)"

section \<open>Initialisation\<close>

definition Heap_Get_first_and_last_block :: "nat \<Rightarrow> nat \<Rightarrow> nat \<Rightarrow> nat \<Rightarrow> (nat \<times> nat) option" where
  "Heap_Get_first_and_last_block begin area_size pg mbs =
     (let heap_area_end = uadd begin area_size;
          alloc_area_begin = Heap_Align_up (uadd begin HEAP_BLOCK_HEADER_SIZE) pg;
          first_block_begin = usub alloc_area_begin HEAP_BLOCK_HEADER_SIZE;
          overhead = uadd HEAP_BLOCK_HEADER_SIZE (usub first_block_begin begin);
          first_block_size = Heap_Align_down (usub area_size overhead) pg;
          lb = Heap_Block_at first_block_begin first_block_size
      in if heap_area_end < begin \<or> area_size \<le> overhead \<or> first_block_size < mbs
         then None else Some (first_block_begin, lb))"

text \<open>\<open>align\<close> is \<open>CPU_ALIGNMENT\<close>; the result is the size, 0 on failure.\<close>

definition Heap_Initialize :: "nat \<Rightarrow> nat \<Rightarrow> nat \<Rightarrow> nat \<Rightarrow> heap \<Rightarrow> heap \<times> nat" where
  "Heap_Initialize align begin area_size pg h =
     (let pg' = (if pg = 0 then align else Heap_Align_up pg align)
      in if pg \<noteq> 0 \<and> pg' < align then (h, 0)
         else
           let mbs = Heap_Min_block_size pg'
           in case Heap_Get_first_and_last_block begin area_size pg' mbs of
                None \<Rightarrow> (h, 0)
              | Some (fb, lb) \<Rightarrow>
                  let first_size = usub lb fb;
                      h = h\<lparr>stats := zero_stats\<rparr>;
                      h = set_prev_size fb (uadd begin area_size) h;
                      h = set_size_and_flag fb (set_flag first_size) h;
                      h = set_next fb (free_list h) h;
                      h = set_prev fb (free_list h) h;
                      h = h\<lparr>page_size := pg', min_block_size := mbs, area_begin := begin,
                            area_end := uadd begin area_size, first_block := fb, last_block := lb\<rparr>;
                      h = set_next (free_list h) fb h;
                      h = set_prev (free_list h) fb h;
                      h = set_prev_size lb first_size h;
                      h = set_size_and_flag lb 0 h;
                      h = Heap_Set_last_block_size h;
                      h = upd_stats (\<lambda>s. s\<lparr>st_size := first_size, st_free_size := first_size,
                            st_min_free_size := first_size, st_free_blocks := 1, st_max_free_blocks := 1\<rparr>) h
                  in (h, first_size))"

section \<open>Allocation of a block\<close>

text \<open>The branch of \<open>_Heap_Block_split\<close> in which the end of the block becomes a free block.\<close>

definition split_free :: "nat \<Rightarrow> nat \<Rightarrow> nat \<Rightarrow> nat \<Rightarrow> heap \<Rightarrow> heap" where
  "split_free block next_block anchor used_block_size h =
     (let block_size = Heap_Block_size h block;
          free_block = Heap_Block_at block used_block_size;
          free_block_size = usub block_size used_block_size;
          next_block_size = Heap_Block_size h next_block;
          next_next_block = Heap_Block_at next_block next_block_size;
          h = Heap_Block_set_size block used_block_size h;
          h = upd_stats (\<lambda>s. s\<lparr>st_free_size := uadd (st_free_size s) free_block_size\<rparr>) h;
          (h, free_block_size, next_block) =
            (if Heap_Is_prev_used h next_next_block
             then (upd_stats (\<lambda>s. s\<lparr>st_free_blocks := inc32 (st_free_blocks s)\<rparr>)
                     (Heap_Free_list_insert_after anchor free_block h),
                   free_block_size, next_block)
             else (Heap_Free_list_replace next_block free_block h,
                   uadd free_block_size next_block_size,
                   Heap_Block_at free_block (uadd free_block_size next_block_size)));
          h = set_size_and_flag free_block (set_flag free_block_size) h;
          h = set_prev_size next_block free_block_size h
      in set_size_and_flag next_block (clear_flag (size_and_flag h next_block)) h)"

definition split_used_size :: "heap \<Rightarrow> nat \<Rightarrow> nat" where
  "split_used_size h alloc_size =
     uadd (max alloc_size (usub (min_block_size h) HEAP_BLOCK_HEADER_SIZE)) HEAP_BLOCK_HEADER_SIZE"

definition Heap_Block_split :: "nat \<Rightarrow> nat \<Rightarrow> nat \<Rightarrow> nat \<Rightarrow> heap \<Rightarrow> heap" where
  "Heap_Block_split block next_block anchor alloc_size h =
     (let used_size = split_used_size h alloc_size;
          free_size = usub (uadd (Heap_Block_size h block) HEAP_ALLOC_BONUS) used_size
      in if free_size \<ge> uadd (min_block_size h) HEAP_ALLOC_BONUS
         then split_free block next_block anchor (Heap_Align_up used_size (page_size h)) h
         else set_size_and_flag next_block (set_flag (size_and_flag h next_block)) h)"

definition Heap_Block_allocate_from_begin :: "nat \<Rightarrow> nat \<Rightarrow> nat \<Rightarrow> nat \<Rightarrow> heap \<Rightarrow> heap \<times> nat" where
  "Heap_Block_allocate_from_begin block next_block anchor alloc_size h =
     (Heap_Block_split block next_block anchor alloc_size h, block)"

definition Heap_Block_allocate_from_end ::
  "nat \<Rightarrow> nat \<Rightarrow> nat \<Rightarrow> nat \<Rightarrow> nat \<Rightarrow> heap \<Rightarrow> heap \<times> nat" where
  "Heap_Block_allocate_from_end block next_block anchor alloc_begin alloc_size h =
     (let new_block = Heap_Block_of_alloc_area alloc_begin (page_size h);
          new_block_size = usub next_block new_block;
          adjusted = usub new_block block;
          h = upd_stats (\<lambda>s. s\<lparr>st_free_size := uadd (st_free_size s) adjusted\<rparr>) h;
          (h, anchor, block, adjusted) =
            (if Heap_Is_prev_used h block
             then (upd_stats (\<lambda>s. s\<lparr>st_free_blocks := inc32 (st_free_blocks s)\<rparr>)
                     (Heap_Free_list_insert_after anchor block h), block, block, adjusted)
             else let prev_block = Heap_Prev_block h block
                  in (h, anchor, prev_block, uadd adjusted (Heap_Block_size h prev_block)));
          h = set_size_and_flag block (set_flag adjusted) h;
          h = set_prev_size new_block adjusted h;
          h = set_size_and_flag new_block new_block_size h
      in (Heap_Block_split new_block next_block anchor alloc_size h, new_block))"

definition Heap_Block_allocate :: "nat \<Rightarrow> nat \<Rightarrow> nat \<Rightarrow> heap \<Rightarrow> heap \<times> nat" where
  "Heap_Block_allocate block alloc_begin alloc_size h =
     (let alloc_area_offset = usub alloc_begin (Heap_Alloc_area_of_block block);
          block_size = Heap_Block_size h block;
          next_block = Heap_Block_at block block_size;
          (h, anchor) =
            (if Heap_Is_prev_used h next_block then (h, free_list h)
             else (upd_stats (\<lambda>s. s\<lparr>st_free_blocks := dec32 (st_free_blocks s),
                       st_used_blocks := inc32 (st_used_blocks s),
                       st_free_size := usub (st_free_size s) block_size\<rparr>)
                     (Heap_Free_list_remove block h), prev h block));
          (h, block) =
            (if alloc_area_offset < page_size h
             then Heap_Block_allocate_from_begin block next_block anchor
                    (uadd alloc_size alloc_area_offset) h
             else Heap_Block_allocate_from_end block next_block anchor alloc_begin alloc_size h)
      in (upd_stats (\<lambda>s. if st_min_free_size s > st_free_size s
            then s\<lparr>st_min_free_size := st_free_size s\<rparr> else s) h, block))"

section \<open>Search\<close>

text \<open>The loop for the boundary constraint: \<open>Some 0\<close> if it cannot be met.\<close>

partial_function (option) boundary_loop ::
  "nat \<Rightarrow> nat \<Rightarrow> nat \<Rightarrow> nat \<Rightarrow> nat \<Rightarrow> nat option" where
  "boundary_loop alloc_size alignment boundary boundary_floor alloc_begin =
     (let alloc_end = uadd alloc_begin alloc_size;
          boundary_line = Heap_Align_down alloc_end boundary
      in if alloc_begin < boundary_line \<and> boundary_line < alloc_end
         then if boundary_line < boundary_floor then Some 0
              else boundary_loop alloc_size alignment boundary boundary_floor
                     (Heap_Align_down (usub boundary_line alloc_size) alignment)
         else Some alloc_begin)"

declare boundary_loop.simps [code]

text \<open>
  When the boundary loop gives up the function returns 0; \<open>0\<close> is also what the test below
  it makes of an \<open>alloc_begin\<close> of 0, which lies before every block.
\<close>

definition Heap_Check_block :: "heap \<Rightarrow> nat \<Rightarrow> nat \<Rightarrow> nat \<Rightarrow> nat \<Rightarrow> nat option" where
  "Heap_Check_block h block alloc_size alignment boundary =
     (let pg = page_size h; mbs = min_block_size h;
          block_end = uadd block (Heap_Block_size h block);
          alloc_begin_floor = Heap_Alloc_area_of_block block;
          alloc_begin_ceiling =
            usub (uadd (uadd (usub block_end mbs) HEAP_BLOCK_HEADER_SIZE) pg) 1;
          alloc_end = uadd block_end HEAP_ALLOC_BONUS;
          alloc_begin = Heap_Align_down (usub alloc_end alloc_size) alignment;
          alloc_begin = (if alloc_begin > alloc_begin_ceiling
                         then Heap_Align_down alloc_begin_ceiling alignment else alloc_begin)
      in case (if boundary \<noteq> 0
               then boundary_loop alloc_size alignment boundary
                      (uadd alloc_begin_floor alloc_size) alloc_begin
               else Some alloc_begin) of
           None \<Rightarrow> None
         | Some alloc_begin \<Rightarrow>
             if alloc_begin \<ge> alloc_begin_floor
             then (let free_size = usub (Heap_Block_of_alloc_area alloc_begin pg) block
                   in if free_size \<ge> mbs \<or> free_size = 0 then Some alloc_begin else Some 0)
             else Some 0)"

text \<open>The search along the free list: the block, the address to return and the blocks looked at.\<close>

partial_function (option) Heap_search ::
  "heap \<Rightarrow> nat \<Rightarrow> nat \<Rightarrow> nat \<Rightarrow> nat \<Rightarrow> nat \<Rightarrow> nat \<Rightarrow> (nat \<times> nat \<times> nat) option" where
  "Heap_search h alloc_size alignment boundary block_size_floor block search_count =
     (if block = free_list h then Some (block, 0, search_count)
      else
        case (if size_and_flag h block > block_size_floor
              then if alignment = 0 then Some (Heap_Alloc_area_of_block block)
                   else Heap_Check_block h block alloc_size alignment boundary
              else Some 0) of
          None \<Rightarrow> None
        | Some alloc_begin \<Rightarrow>
            if alloc_begin \<noteq> 0 then Some (block, alloc_begin, inc32 search_count)
            else Heap_search h alloc_size alignment boundary block_size_floor (next h block)
                   (inc32 search_count))"

declare Heap_search.simps [code]

definition Heap_Allocate_aligned_with_boundary ::
  "heap \<Rightarrow> nat \<Rightarrow> nat \<Rightarrow> nat \<Rightarrow> (heap \<times> nat) option" where
  "Heap_Allocate_aligned_with_boundary h alloc_size alignment boundary =
     (let block_size_floor = usub (uadd alloc_size HEAP_BLOCK_HEADER_SIZE) HEAP_ALLOC_BONUS
      in if block_size_floor < alloc_size then Some (h, 0)
         else if boundary \<noteq> 0 \<and> boundary < alloc_size then Some (h, 0)
         else
           let alignment = (if boundary \<noteq> 0 \<and> alignment = 0 then page_size h else alignment)
           in case Heap_search h alloc_size alignment boundary block_size_floor
                     (Heap_Free_list_first h) 0 of
                None \<Rightarrow> None
              | Some (block, alloc_begin, search_count) \<Rightarrow>
                  let h = (if alloc_begin \<noteq> 0
                     then (let (h, block) = Heap_Block_allocate block alloc_begin alloc_size h
                           in upd_stats (\<lambda>s. s\<lparr>st_allocs := inc32 (st_allocs s),
                                st_searches := (st_searches s + search_count) mod 2 ^ 32,
                                st_lifetime_allocated :=
                                  uadd (st_lifetime_allocated s) (Heap_Block_size h block)\<rparr>) h)
                     else upd_stats (\<lambda>s. s\<lparr>st_failed_allocs := inc32 (st_failed_allocs s)\<rparr>) h)
                  in Some (upd_stats (\<lambda>s. if st_max_search s < search_count
                        then s\<lparr>st_max_search := search_count\<rparr> else s) h, alloc_begin))"

definition Heap_Allocate :: "heap \<Rightarrow> nat \<Rightarrow> (heap \<times> nat) option" where
  "Heap_Allocate h alloc_size = Heap_Allocate_aligned_with_boundary h alloc_size 0 0"

section \<open>Free\<close>

definition free_coalesce :: "heap \<Rightarrow> nat \<Rightarrow> nat \<Rightarrow> nat \<Rightarrow> bool \<Rightarrow> heap option" where
  "free_coalesce h block block_size next_block next_is_free =
     (let next_block_size = Heap_Block_size h next_block
      in if \<not> Heap_Is_prev_used h block
         then
           let psz = prev_size h block;
               prev_block = usub block psz
           in if \<not> Heap_Is_block_in_heap h prev_block \<or> \<not> Heap_Is_prev_used h prev_block then None
              else if next_is_free
              then
                let size = uadd (uadd block_size psz) next_block_size;
                    h = Heap_Free_list_remove next_block h;
                    h = upd_stats (\<lambda>s. s\<lparr>st_free_blocks := dec32 (st_free_blocks s)\<rparr>) h;
                    h = set_size_and_flag prev_block (set_flag size) h
                in Some (set_prev_size (Heap_Block_at prev_block size) size h)
              else
                let size = uadd block_size psz;
                    h = set_size_and_flag prev_block (set_flag size) h;
                    h = set_size_and_flag next_block (clear_flag (size_and_flag h next_block)) h
                in Some (set_prev_size next_block size h)
         else if next_is_free
         then
           let size = uadd block_size next_block_size;
               h = Heap_Free_list_replace next_block block h;
               h = set_size_and_flag block (set_flag size) h
           in Some (set_prev_size (Heap_Block_at block size) size h)
         else
           let h = Heap_Free_list_insert_after (free_list h) block h;
               h = set_size_and_flag block (set_flag block_size) h;
               h = set_size_and_flag next_block (clear_flag (size_and_flag h next_block)) h;
               h = set_prev_size next_block block_size h;
               h = upd_stats (\<lambda>s. s\<lparr>st_free_blocks := inc32 (st_free_blocks s)\<rparr>) h
           in Some (upd_stats (\<lambda>s. if st_max_free_blocks s < st_free_blocks s
                 then s\<lparr>st_max_free_blocks := st_free_blocks s\<rparr> else s) h))"

definition Heap_Free :: "heap \<Rightarrow> nat \<Rightarrow> heap \<times> bool" where
  "Heap_Free h alloc_begin =
     (if alloc_begin = 0 then (h, True)
      else
        let block = Heap_Block_of_alloc_area alloc_begin (page_size h)
        in if \<not> Heap_Is_block_in_heap h block then (h, False)
           else
             let block_size = Heap_Block_size h block;
                 next_block = Heap_Block_at block block_size
             in if \<not> Heap_Is_block_in_heap h next_block then (h, False)
                else if \<not> Heap_Is_prev_used h next_block then (h, False)
                else
                  let next_is_free = (next_block \<noteq> last_block h \<and>
                        \<not> Heap_Is_prev_used h (Heap_Block_at next_block (Heap_Block_size h next_block)))
                  in case free_coalesce h block block_size next_block next_is_free of
                       None \<Rightarrow> (h, False)
                     | Some h \<Rightarrow>
                         (upd_stats (\<lambda>s. s\<lparr>st_used_blocks := dec32 (st_used_blocks s),
                            st_frees := inc32 (st_frees s),
                            st_free_size := uadd (st_free_size s) block_size,
                            st_lifetime_freed := uadd (st_lifetime_freed s) block_size\<rparr>) h, True))"

section \<open>Resize and size\<close>

datatype Heap_Resize_status = HEAP_RESIZE_SUCCESSFUL | HEAP_RESIZE_UNSATISFIED | HEAP_RESIZE_FATAL_ERROR

definition Heap_Resize_block_checked ::
  "heap \<Rightarrow> nat \<Rightarrow> nat \<Rightarrow> nat \<Rightarrow> heap \<times> Heap_Resize_status \<times> nat \<times> nat" where
  "Heap_Resize_block_checked h block alloc_begin new_alloc_size =
     (let block_size = Heap_Block_size h block;
          block_end = uadd block block_size;
          alloc_size = uadd (usub block_end alloc_begin) HEAP_ALLOC_BONUS;
          next_block = Heap_Block_at block block_size;
          next_block_size = Heap_Block_size h next_block;
          next_block_is_free = Heap_Is_free h next_block;
          old_size = alloc_size;
          (block_size, alloc_size) =
            (if next_block_is_free
             then (uadd block_size next_block_size, uadd alloc_size next_block_size)
             else (block_size, alloc_size))
      in if new_alloc_size > alloc_size then (h, HEAP_RESIZE_UNSATISFIED, old_size, 0)
         else
           let h = (if next_block_is_free
                 then
                   let h = Heap_Block_set_size block block_size h;
                       h = Heap_Free_list_remove next_block h;
                       next_block = Heap_Block_at block block_size;
                       h = set_size_and_flag next_block (set_flag (size_and_flag h next_block)) h
                   in upd_stats (\<lambda>s. s\<lparr>st_free_blocks := dec32 (st_free_blocks s),
                        st_free_size := usub (st_free_size s) next_block_size\<rparr>) h
                 else h);
               (h, block) = Heap_Block_allocate block alloc_begin new_alloc_size h;
               next_block = Heap_Block_at block (Heap_Block_size h block)
           in (upd_stats (\<lambda>s. s\<lparr>st_resizes := inc32 (st_resizes s)\<rparr>) h, HEAP_RESIZE_SUCCESSFUL,
               old_size, uadd (usub next_block alloc_begin) HEAP_ALLOC_BONUS))"

definition Heap_Resize_block :: "heap \<Rightarrow> nat \<Rightarrow> nat \<Rightarrow> heap \<times> Heap_Resize_status \<times> nat \<times> nat" where
  "Heap_Resize_block h alloc_begin new_alloc_size =
     (let block = Heap_Block_of_alloc_area alloc_begin (page_size h)
      in if Heap_Is_block_in_heap h block
         then Heap_Resize_block_checked h block alloc_begin new_alloc_size
         else (h, HEAP_RESIZE_FATAL_ERROR, 0, 0))"

definition Heap_Size_of_alloc_area :: "heap \<Rightarrow> nat \<Rightarrow> nat option" where
  "Heap_Size_of_alloc_area h alloc_begin =
     (let block = Heap_Block_of_alloc_area alloc_begin (page_size h)
      in if \<not> Heap_Is_block_in_heap h block then None
         else
           let next_block = Heap_Block_at block (Heap_Block_size h block)
           in if \<not> Heap_Is_block_in_heap h next_block \<or> \<not> Heap_Is_prev_used h next_block then None
              else Some (usub (uadd next_block HEAP_ALLOC_BONUS) alloc_begin))"

end
