(* ===== verification/Heap_Layout.thy ===== *)
theory Heap_Layout
  imports Heap
begin

text \<open>
  The abstract view of a heap and its invariant. The blocks from the first to the last
  block are a list of sizes and use flags, the free list is a list of addresses. \<open>wf_heap\<close>
  relates both to the memory; \<open>heap_inv\<close> adds the statistics. The lemmas describe the
  elementary changes that the operations are made of: taking a block from the free list,
  cutting a block, joining blocks and putting a block on the free list.
\<close>

type_synonym block_list = "(nat \<times> bool) list"

section \<open>Arithmetic without wrap-around\<close>

named_theorems no_wrap \<open>unsigned operations that do not wrap around\<close>

lemma uadd_id [no_wrap]: "a + b < UW \<Longrightarrow> uadd a b = a + b"
  by (simp add: uadd_def)

lemma usub_id [no_wrap]: "b \<le> a \<Longrightarrow> a < UW \<Longrightarrow> usub a b = a - b"
  by (simp add: usub_def mod_if)

lemma set_flag_even [simp]: "even s \<Longrightarrow> set_flag s = s + 1" "odd s \<Longrightarrow> set_flag s = s"
  by (simp_all add: set_flag_def)

lemma clear_flag_of_bool [simp]: "even s \<Longrightarrow> clear_flag (s + of_bool p) = s"
  by (auto simp: clear_flag_def)

lemma clear_flag_Suc [simp]: "even s \<Longrightarrow> clear_flag (Suc s) = s" "even s \<Longrightarrow> clear_flag s = s"
  by (auto simp: clear_flag_def)

lemma set_flag_of_bool [simp]: "even s \<Longrightarrow> set_flag (s + of_bool p) = s + 1"
  by (cases p) (simp_all add: set_flag_def)

lemma odd_of_bool [simp]: "even s \<Longrightarrow> odd (s + of_bool p) = p"
  by (cases p) simp_all

section \<open>Blocks in memory\<close>

fun seg :: "heap \<Rightarrow> nat \<Rightarrow> bool \<Rightarrow> block_list \<Rightarrow> nat \<Rightarrow> bool \<Rightarrow> bool" where
  "seg h a pu [] e eu \<longleftrightarrow> a = e \<and> pu = eu"
| "seg h a pu ((s, u) # bs) e eu \<longleftrightarrow>
     min_block_size h \<le> s \<and> page_size h dvd s \<and> size_and_flag h a = s + of_bool pu
     \<and> (pu \<or> u) \<and> (\<not> u \<longrightarrow> prev_size h (a + s) = s) \<and> seg h (a + s) u bs e eu"

fun span :: "block_list \<Rightarrow> nat" where
  "span [] = 0"
| "span ((s, u) # bs) = s + span bs"

fun addrs :: "bool \<Rightarrow> nat \<Rightarrow> block_list \<Rightarrow> nat set" where
  "addrs v a [] = {}"
| "addrs v a ((s, u) # bs) = (if u = v then {a} else {}) \<union> addrs v (a + s) bs"

lemma total_append [simp]: "span (xs @ ys) = span xs + span ys"
  by (induction xs rule: span.induct) auto

lemma addrs_append [simp]: "addrs v a (xs @ ys) = addrs v a xs \<union> addrs v (a + span xs) ys"
  by (induction xs arbitrary: a rule: span.induct) (auto simp: add.assoc)

lemma seg_end: "seg h a pu bs e eu \<Longrightarrow> e = a + span bs"
proof (induction bs arbitrary: a pu rule: span.induct)
  case (2 s u bs)
  from 2(2) have "seg h (a + s) u bs e eu" by simp
  from "2.IH" [OF this] show ?case by simp
qed simp

lemma seg_append:
  "seg h a pu (xs @ ys) e eu \<longleftrightarrow>
     (\<exists>pm. seg h a pu xs (a + span xs) pm \<and> seg h (a + span xs) pm ys e eu)"
  by (induction xs arbitrary: a pu rule: span.induct) (auto simp: add.assoc)

lemma seg_page: "seg h a pu bs e eu \<Longrightarrow> page_size h dvd span bs"
  by (induction bs arbitrary: a pu rule: span.induct) auto

lemma addrs_in_range:
  "seg h a pu bs e eu \<Longrightarrow> 0 < min_block_size h \<Longrightarrow> x \<in> addrs v a bs \<Longrightarrow> a \<le> x \<and> x < e"
proof (induction bs arbitrary: a pu rule: span.induct)
  case (2 s u bs)
  then have "seg h (a + s) u bs e eu" "0 < s" by auto
  with 2 seg_end [of h "a + s" u bs e eu] show ?case
    by (cases "x \<in> addrs v (a + s) bs") (fastforce split: if_splits)+
qed simp

lemma seg_cong:
  assumes "seg h a pu bs e eu" and "0 < min_block_size h"
    and "page_size h' = page_size h" and "min_block_size h' = min_block_size h"
    and "\<And>x. a \<le> x \<Longrightarrow> x < e \<Longrightarrow> size_and_flag h' x = size_and_flag h x"
    and "\<And>x. a < x \<Longrightarrow> x < e \<Longrightarrow> prev_size h' x = prev_size h x"
    and "\<not> eu \<Longrightarrow> a < e \<Longrightarrow> prev_size h' e = prev_size h e"
  shows "seg h' a pu bs e eu"
  using assms(1,5-7)
proof (induction bs arbitrary: a pu rule: span.induct)
  case (2 s u bs)
  have s: "0 < s" using 2(2) assms(2) by auto
  have rest: "seg h (a + s) u bs e eu" using 2(2) by simp
  then have e: "e = a + s + span bs" using seg_end by blast
  have "prev_size h' (a + s) = prev_size h (a + s)" if "\<not> u"
  proof (cases "bs = []")
    case True
    with rest that e s 2(5) show ?thesis by simp
  next
    case False
    then obtain s2 u2 bs2 where "bs = (s2, u2) # bs2" by (metis list.exhaust surj_pair)
    with rest assms(2) have "0 < span bs" by auto
    with e s 2(4) show ?thesis by simp
  qed
  moreover have "seg h' (a + s) u bs e eu"
    using rest 2(3-5) s e by (intro "2.IH") auto
  moreover have "size_and_flag h' a = size_and_flag h a"
    using 2(3) s e by simp
  ultimately show ?case using 2(2) assms(3,4) by simp
qed simp

section \<open>Well-formed heaps\<close>

text \<open>
  The geometry does not change after initialisation; \<open>lu\<close> in \<open>wf_heap\<close> tells whether the
  block before the last one is used.
\<close>

definition geometry :: "heap \<Rightarrow> bool" where
  "geometry h \<longleftrightarrow> 0 < page_size h \<and> even (page_size h) \<and> 32 \<le> min_block_size h
     \<and> page_size h dvd min_block_size h \<and> page_size h dvd first_block h + 16
     \<and> 0 < first_block h \<and> last_block h + 16 < UW
     \<and> \<not> (first_block h \<le> free_list h \<and> free_list h \<le> last_block h)"

definition wf_heap :: "heap \<Rightarrow> block_list \<Rightarrow> nat list \<Rightarrow> bool" where
  "wf_heap h bs fl \<longleftrightarrow> geometry h \<and> bs \<noteq> []
     \<and> (\<exists>lu. seg h (first_block h) True bs (last_block h) lu
          \<and> size_and_flag h (last_block h) = usub (first_block h) (last_block h) + of_bool lu)
     \<and> dlist (next h) (prev h) (free_list h # fl @ [free_list h])
     \<and> set fl = addrs False (first_block h) bs"

lemma geometry_cong:
  "\<lbrakk>geometry h; page_size h' = page_size h; min_block_size h' = min_block_size h;
    first_block h' = first_block h; last_block h' = last_block h; free_list h' = free_list h\<rbrakk> \<Longrightarrow> geometry h'"
  by (simp add: geometry_def)

lemma geometryD:
  assumes "geometry h"
  shows "0 < page_size h" "even (page_size h)" "32 \<le> min_block_size h" "page_size h dvd min_block_size h"
    "page_size h \<le> min_block_size h" "0 < min_block_size h" "0 < first_block h" "last_block h + 16 < UW"
  using assms by (auto simp: geometry_def intro: dvd_imp_le)

lemma geometry_even: "geometry h \<Longrightarrow> page_size h dvd s \<Longrightarrow> even s"
  using geometryD(2) dvd_trans by blast

lemma last_size_even:
  assumes "geometry h" and "seg h (first_block h) True bs (last_block h) lu"
  shows "even (usub (first_block h) (last_block h))"
proof -
  have e: "even (span bs)" using seg_page [OF assms(2)] assms(1) geometry_even by blast
  have l: "last_block h = first_block h + span bs" using seg_end [OF assms(2)] .
  have lt: "last_block h < UW" using geometryD(8) [OF assms(1)] by simp
  then have "usub (first_block h) (last_block h) = (UW - span bs) mod UW"
    using l by (simp add: usub_def)
  moreover have "even (UW - span bs)" using e lt l by (simp add: UW_def)
  moreover have "even UW" by (simp add: UW_def)
  ultimately show ?thesis by (simp add: dvd_mod)
qed

section \<open>Changing the middle of a heap\<close>

text \<open>
  A change of the flag that a block keeps about its predecessor.
\<close>

lemma seg_flag:
  assumes "seg h n eu ys e lu" and "0 < min_block_size h" and "even (page_size h)"
    and "page_size h' = page_size h" and "min_block_size h' = min_block_size h"
    and "\<And>x. n < x \<Longrightarrow> x \<le> e \<Longrightarrow> size_and_flag h' x = size_and_flag h x"
    and "\<And>x. n < x \<Longrightarrow> x \<le> e \<Longrightarrow> prev_size h' x = prev_size h x"
    and "size_and_flag h' n = clear_flag (size_and_flag h n) + of_bool eu'"
    and "ys \<noteq> [] \<Longrightarrow> eu' \<or> snd (hd ys)"
  shows "seg h' n eu' ys e (if ys = [] then eu' else lu)"
proof (cases ys)
  case Nil
  with assms(1) show ?thesis by simp
next
  case (Cons y zs)
  obtain s u where y: "y = (s, u)" by (cases y)
  note c = assms(1) [unfolded Cons y seg.simps]
  have s: "0 < s" "even s" using c assms(2,3) dvd_trans by auto
  have e: "e = n + s + span zs" using c seg_end by blast
  have "seg h' (n + s) u zs e lu"
    by (rule seg_cong [of h]) (use c s assms in auto)
  then show ?thesis
    using c s e assms(4,5,7,8,9) unfolding Cons y by auto
qed

text \<open>
  The master lemma: the blocks \<open>ms\<close> in the middle are replaced by \<open>ms'\<close>; outside of them
  only the flag of the following block may change.
\<close>

lemma wf_heap_replace:
  assumes wf: "wf_heap h (xs @ ms @ ys) fl"
  defines "a \<equiv> first_block h + span xs"
  defines "n \<equiv> a + span ms"
  assumes pre: "seg h (first_block h) True xs a pm"
    and same: "page_size h' = page_size h" "min_block_size h' = min_block_size h"
      "first_block h' = first_block h" "last_block h' = last_block h" "free_list h' = free_list h"
    and sf: "\<And>x. x < a \<or> n < x \<Longrightarrow> size_and_flag h' x = size_and_flag h x"
    and ps: "\<And>x. x < a \<or> n < x \<or> (x = a \<and> \<not> pm) \<Longrightarrow> prev_size h' x = prev_size h x"
    and mid: "seg h' a pm ms' n eu'" "ms' \<noteq> []"
    and flag: "size_and_flag h' n = clear_flag (size_and_flag h n) + of_bool eu'"
    and adj: "ys \<noteq> [] \<Longrightarrow> eu' \<or> snd (hd ys)"
    and dl: "dlist (next h') (prev h') (free_list h # fl' @ [free_list h])"
    and fl': "set fl' = addrs False (first_block h) (xs @ ms' @ ys)"
  shows "wf_heap h' (xs @ ms' @ ys) fl'"
proof -
  have g: "geometry h" using wf by (simp add: wf_heap_def)
  note gD = geometryD [OF g]
  obtain lu em where suf: "seg h n em ys (last_block h) lu"
    and last: "size_and_flag h (last_block h) = usub (first_block h) (last_block h) + of_bool lu"
    using wf unfolding wf_heap_def seg_append a_def n_def by (auto simp: add.assoc)
  have len: "span ms' = span ms" using seg_end [OF mid(1)] n_def by simp
  have l: "last_block h = n + span ys" using seg_end [OF suf] .
  have "seg h' (first_block h) True xs a pm"
    by (rule seg_cong [OF pre gD(6) same(1,2)]) (use sf ps in auto)
  moreover have S: "seg h' n eu' ys (last_block h) (if ys = [] then eu' else lu)"
    by (rule seg_flag [OF suf gD(6,2) same(1,2)]) (use sf ps flag adj in auto)
  ultimately have "seg h' (first_block h) True (xs @ ms' @ ys) (last_block h) (if ys = [] then eu' else lu)"
    using mid(1) unfolding seg_append a_def n_def len by blast
  moreover have "size_and_flag h' (last_block h)
      = usub (first_block h) (last_block h) + of_bool (if ys = [] then eu' else lu)"
  proof (cases "ys = []")
    case True
    obtain lu' where "seg h (first_block h) True (xs @ ms @ ys) (last_block h) lu'"
      using wf by (auto simp: wf_heap_def)
    from last_size_even [OF g this] True flag last l show ?thesis by simp
  next
    case False
    then obtain s u zs where "ys = (s, u) # zs" by (metis list.exhaust surj_pair)
    with suf gD(6) l have "n < last_block h" by auto
    with False sf last show ?thesis by simp
  qed
  moreover have "geometry h'" using g same geometry_cong by blast
  moreover have "xs @ ms' @ ys \<noteq> []" using mid(2) by simp
  ultimately show ?thesis
    unfolding wf_heap_def same using dl fl' by blast
qed

lemma wf_heap_middle:
  assumes "wf_heap h (xs @ ms @ ys) fl"
  shows "\<exists>pm. seg h (first_block h) True xs (first_block h + span xs) pm
    \<and> (\<exists>em lu. seg h (first_block h + span xs) pm ms (first_block h + span xs + span ms) em
        \<and> seg h (first_block h + span xs + span ms) em ys (last_block h) lu)"
  using assms unfolding wf_heap_def seg_append by (auto simp: add.assoc)

lemma wf_heap_last: "wf_heap h bs fl \<Longrightarrow> last_block h = first_block h + span bs"
  using seg_end by (auto simp: wf_heap_def)

text \<open>The addresses of the blocks of a well-formed heap do not overlap.\<close>

lemma addrs_disjoint:
  assumes "seg h a pu (xs @ (s, u) # ys) e eu" and "0 < min_block_size h"
  shows "a + span xs \<notin> addrs v a xs" "a + span xs \<notin> addrs v (a + span xs + s) ys"
proof -
  obtain pm where x: "seg h a pu xs (a + span xs) pm" and y: "seg h (a + span xs + s) u ys e eu"
    and s: "0 < s"
    using assms unfolding seg_append by auto
  show "a + span xs \<notin> addrs v a xs" using addrs_in_range [OF x assms(2)] by auto
  show "a + span xs \<notin> addrs v (a + span xs + s) ys" using addrs_in_range [OF y assms(2)] s by fastforce
qed

section \<open>The free list\<close>

lemmas heap_updates = set_prev_size_def set_size_and_flag_def set_next_def set_prev_def upd_stats_def
  Heap_Free_list_remove_def Heap_Free_list_replace_def Heap_Free_list_insert_after_def
  Heap_Free_list_insert_before_def Let_def

text \<open>The fields of the control that no operation on blocks changes.\<close>

definition control :: "heap \<Rightarrow> nat list" where
  "control h = [free_list h, page_size h, min_block_size h, area_begin h, area_end h, first_block h, last_block h]"

lemma control_updates [simp]:
  "control (set_prev_size b v h) = control h" "control (set_size_and_flag b v h) = control h"
  "control (set_next b v h) = control h" "control (set_prev b v h) = control h"
  "control (upd_stats f h) = control h" "control (Heap_Free_list_remove b h) = control h"
  "control (Heap_Free_list_replace b v h) = control h" "control (Heap_Free_list_insert_after b v h) = control h"
  by (simp_all add: control_def heap_updates)

lemma free_list_keeps [simp]:
  "page_size (Heap_Free_list_insert_after p x h) = page_size h"
  "min_block_size (Heap_Free_list_insert_after p x h) = min_block_size h"
  "first_block (Heap_Free_list_insert_after p x h) = first_block h"
  "last_block (Heap_Free_list_insert_after p x h) = last_block h"
  "free_list (Heap_Free_list_insert_after p x h) = free_list h"
  "stats (Heap_Free_list_insert_after p x h) = stats h"
  "size_and_flag (Heap_Free_list_insert_after p x h) = size_and_flag h"
  "prev_size (Heap_Free_list_insert_after p x h) = prev_size h"
  "page_size (Heap_Free_list_remove x h) = page_size h"
  "min_block_size (Heap_Free_list_remove x h) = min_block_size h"
  "first_block (Heap_Free_list_remove x h) = first_block h"
  "last_block (Heap_Free_list_remove x h) = last_block h"
  "free_list (Heap_Free_list_remove x h) = free_list h"
  "stats (Heap_Free_list_remove x h) = stats h"
  "size_and_flag (Heap_Free_list_remove x h) = size_and_flag h"
  "prev_size (Heap_Free_list_remove x h) = prev_size h"
  "page_size (Heap_Free_list_replace o' x h) = page_size h"
  "min_block_size (Heap_Free_list_replace o' x h) = min_block_size h"
  "first_block (Heap_Free_list_replace o' x h) = first_block h"
  "last_block (Heap_Free_list_replace o' x h) = last_block h"
  "free_list (Heap_Free_list_replace o' x h) = free_list h"
  "stats (Heap_Free_list_replace o' x h) = stats h"
  "size_and_flag (Heap_Free_list_replace o' x h) = size_and_flag h"
  "prev_size (Heap_Free_list_replace o' x h) = prev_size h"
  by (simp_all add: heap_updates)

abbreviation free_ring :: "heap \<Rightarrow> nat list \<Rightarrow> bool" where
  "free_ring h fl \<equiv> dlist (next h) (prev h) (free_list h # fl @ [free_list h])"

lemma ring_insert_after:
  assumes "free_ring h fl" and "p \<in> insert (free_list h) (set fl)" and "x \<notin> insert (free_list h) (set fl)"
  shows "\<exists>fl'. free_ring (Heap_Free_list_insert_after p x h) fl' \<and> set fl' = insert x (set fl)
    \<and> length fl' = Suc (length fl)"
proof (cases "p = free_list h")
  case True
  obtain n r where nr: "fl @ [free_list h] = n # r" by (cases fl) auto
  have "set (n # r) = insert (free_list h) (set fl)" unfolding nr [symmetric] by auto
  moreover have "dlist (next h) (prev h) ([] @ p # n # r)" using assms(1) nr True by simp
  ultimately have "dlist ((next h)(x := n, p := x)) ((prev h)(x := p, n := x)) ([] @ p # x # n # r)"
    using assms(3) True by (intro dlist_insert) auto
  moreover have "next h p = n" using \<open>dlist (next h) (prev h) ([] @ p # n # r)\<close> by (simp add: dlist_def)
  ultimately show ?thesis
    using nr True by (intro exI [of _ "x # fl"]) (simp add: heap_updates)
next
  case False
  with assms(2) obtain l1 l2 where fl: "fl = l1 @ p # l2" by (auto simp: in_set_conv_decomp)
  obtain n r where nr: "l2 @ [free_list h] = n # r" by (cases l2) auto
  have "set (n # r) = insert (free_list h) (set l2)" unfolding nr [symmetric] by auto
  moreover have d: "dlist (next h) (prev h) ((free_list h # l1) @ p # n # r)" using assms(1) nr fl by simp
  ultimately have "dlist ((next h)(x := n, p := x)) ((prev h)(x := p, n := x)) ((free_list h # l1) @ p # x # n # r)"
    using assms(3) fl by (intro dlist_insert) auto
  moreover have "next h p = n" using d unfolding dlist_parts by simp
  ultimately show ?thesis
    using nr fl by (intro exI [of _ "l1 @ p # x # l2"]) (auto simp: heap_updates)
qed

lemma ring_neighbours:
  assumes "free_ring h fl" and "x \<in> set fl"
  obtains l1 l2 p n as bs where "fl = l1 @ x # l2" "free_list h # fl @ [free_list h] = as @ p # x # n # bs"
    "as @ [p] = free_list h # l1" "n # bs = l2 @ [free_list h]" "next h x = n" "prev h x = p"
    "p \<in> insert (free_list h) (set l1)"
proof -
  obtain l1 l2 where fl: "fl = l1 @ x # l2" using assms(2) by (auto simp: in_set_conv_decomp)
  obtain as p where ap: "as @ [p] = free_list h # l1" by (metis append_butlast_last_id list.distinct(1))
  obtain n bs where nb: "n # bs = l2 @ [free_list h]" by (cases l2) auto
  have e: "free_list h # fl @ [free_list h] = as @ p # x # n # bs"
    using fl ap nb by (metis append.assoc append_Cons append_Nil)
  from assms(1) e dlist_remove(2,3) [of "next h" "prev h" as p x n bs] have "next h x = n" "prev h x = p" by simp_all
  moreover have "p \<in> insert (free_list h) (set l1)" using ap by (metis in_set_conv_decomp list.simps(15))
  ultimately show thesis using that fl ap nb e by blast
qed

lemma ring_distinct: "free_ring h fl \<Longrightarrow> distinct fl \<and> free_list h \<notin> set fl"
  by (auto simp: dlist_def butlast_append)

lemma ring_remove:
  assumes "free_ring h fl" and "x \<in> set fl"
  shows "\<exists>fl'. free_ring (Heap_Free_list_remove x h) fl' \<and> set fl' = set fl - {x}
    \<and> length fl = Suc (length fl') \<and> prev h x \<in> insert (free_list h) (set fl')"
proof -
  obtain l1 l2 p n as bs where r: "fl = l1 @ x # l2" "free_list h # fl @ [free_list h] = as @ p # x # n # bs"
    "as @ [p] = free_list h # l1" "n # bs = l2 @ [free_list h]" "next h x = n" "prev h x = p"
    "p \<in> insert (free_list h) (set l1)"
    using ring_neighbours [OF assms] .
  have "free_list h # (l1 @ l2) @ [free_list h] = as @ p # n # bs"
    using r(3,4) by (metis append.assoc append_Cons append_Nil)
  then have "free_ring (Heap_Free_list_remove x h) (l1 @ l2)"
    using dlist_remove(1) [of "next h" "prev h" as p x n bs] assms(1) r(2,5,6) by (simp add: heap_updates)
  moreover have "set (l1 @ l2) = set fl - {x}"
    using ring_distinct [OF assms(1)] r(1) by auto
  ultimately show ?thesis using r by (intro exI [of _ "l1 @ l2"]) auto
qed

lemma ring_replace:
  assumes "free_ring h fl" and "x \<in> set fl" and "z \<notin> insert (free_list h) (set fl)"
  shows "\<exists>fl'. free_ring (Heap_Free_list_replace x z h) fl' \<and> set fl' = insert z (set fl - {x})
    \<and> length fl' = length fl"
proof -
  obtain l1 l2 p n as bs where r: "fl = l1 @ x # l2" "free_list h # fl @ [free_list h] = as @ p # x # n # bs"
    "as @ [p] = free_list h # l1" "n # bs = l2 @ [free_list h]" "next h x = n" "prev h x = p"
    "p \<in> insert (free_list h) (set l1)"
    using ring_neighbours [OF assms(1,2)] .
  have "set (as @ p # x # n # bs) = insert (free_list h) (set fl)" unfolding r(2) [symmetric] by auto
  then have z: "z \<notin> set (as @ p # x # n # bs)" using assms(3) by blast
  have "free_list h # (l1 @ z # l2) @ [free_list h] = as @ p # z # n # bs"
    using r(3,4) by (metis append.assoc append_Cons append_Nil)
  then have "free_ring (Heap_Free_list_replace x z h) (l1 @ z # l2)"
    using dlist_replace [OF _ z, of "next h" "prev h"] assms(1) r(2,5,6) by (simp add: heap_updates)
  moreover have "set (l1 @ z # l2) = insert z (set fl - {x})"
    using ring_distinct [OF assms(1)] r(1) by auto
  ultimately show ?thesis using r by (intro exI [of _ "l1 @ z # l2"]) auto
qed

end
