(* ===== verification/Heap_Alloc.thy ===== *)
theory Heap_Alloc
  imports Heap_Layout
begin

text \<open>
  Allocation keeps the heap well-formed: taking a block from the free list (\<open>claim\<close>), cutting
  the unused end off (\<open>_Heap_Block_split\<close>), allocating from the end of a block, and the
  search with its alignment and boundary constraints.
\<close>

section \<open>Taking a block from the free list\<close>

definition mark_used :: "nat \<Rightarrow> heap \<Rightarrow> heap" where
  "mark_used n h = set_size_and_flag n (set_flag (size_and_flag h n)) h"

lemma mark_used_simps [simp]:
  "page_size (mark_used n h) = page_size h" "min_block_size (mark_used n h) = min_block_size h"
  "first_block (mark_used n h) = first_block h" "last_block (mark_used n h) = last_block h"
  "free_list (mark_used n h) = free_list h" "stats (mark_used n h) = stats h"
  "prev_size (mark_used n h) = prev_size h" "next (mark_used n h) = next h" "prev (mark_used n h) = prev h"
  "size_and_flag (mark_used n h) = (size_and_flag h)(n := set_flag (size_and_flag h n))"
  by (simp_all add: mark_used_def set_size_and_flag_def)

text \<open>A block of the list, with what the invariant says of it and of the block behind it.\<close>

lemma wf_heap_block:
  assumes "wf_heap h (xs @ (s, u) # ys) fl"
  defines "b \<equiv> first_block h + span xs"
  obtains pm lu where "geometry h" "seg h (first_block h) True xs b pm"
    "min_block_size h \<le> s" "page_size h dvd s" "even s" "size_and_flag h b = s + of_bool pm" "pm \<or> u"
    "\<not> u \<Longrightarrow> prev_size h (b + s) = s"
    "seg h (b + s) u ys (last_block h) lu"
    "\<exists>t. even t \<and> size_and_flag h (b + s) = t + of_bool u
      \<and> (ys = [] \<longrightarrow> t = usub (first_block h) (last_block h)) \<and> (ys \<noteq> [] \<longrightarrow> t = fst (hd ys))"
    "ys \<noteq> [] \<Longrightarrow> u \<or> snd (hd ys)"
    "b + s \<le> last_block h" "first_block h \<le> b"
proof -
  have g: "geometry h" using assms(1) by (simp add: wf_heap_def)
  obtain lu where all: "seg h (first_block h) True (xs @ (s, u) # ys) (last_block h) lu"
    and last: "size_and_flag h (last_block h) = usub (first_block h) (last_block h) + of_bool lu"
    using assms(1) by (auto simp: wf_heap_def)
  obtain pm where pm: "seg h (first_block h) True xs b pm" "seg h b pm ((s, u) # ys) (last_block h) lu"
    using all unfolding seg_append b_def by blast
  have ys: "seg h (b + s) u ys (last_block h) lu" using pm(2) by simp
  have e: "even s" using pm(2) geometry_even [OF g] by auto
  have "\<exists>t. even t \<and> size_and_flag h (b + s) = t + of_bool u
      \<and> (ys = [] \<longrightarrow> t = usub (first_block h) (last_block h)) \<and> (ys \<noteq> [] \<longrightarrow> t = fst (hd ys))"
  proof (cases ys)
    case Nil
    with ys last last_size_even [OF g all] show ?thesis by simp
  next
    case (Cons y zs)
    with ys geometry_even [OF g] show ?thesis by (cases y) auto
  qed
  moreover have "u \<or> snd (hd ys)" if "ys \<noteq> []"
    using ys that by (cases ys) auto
  ultimately show thesis
    using that g pm ys e seg_end [OF ys] by (auto simp: b_def)
qed

lemma claim_ok:
  assumes wf: "wf_heap h (xs @ (s, False) # ys) fl"
  defines "b \<equiv> first_block h + span xs"
  shows "\<exists>fl'. wf_heap (mark_used (b + s) (Heap_Free_list_remove b h)) (xs @ (s, True) # ys) fl'
    \<and> set fl' = set fl - {b} \<and> length fl = Suc (length fl') \<and> prev h b \<in> insert (free_list h) (set fl')"
proof -
  obtain pm lu where B: "geometry h" "seg h (first_block h) True xs b pm"
    "min_block_size h \<le> s" "page_size h dvd s" "even s" "size_and_flag h b = s + of_bool pm" "pm \<or> False"
    "seg h (b + s) False ys (last_block h) lu"
    "\<exists>t. even t \<and> size_and_flag h (b + s) = t + of_bool False
      \<and> (ys = [] \<longrightarrow> t = usub (first_block h) (last_block h)) \<and> (ys \<noteq> [] \<longrightarrow> t = fst (hd ys))"
    using wf_heap_block [OF wf] unfolding b_def by metis
  note gD = geometryD [OF B(1)]
  have s: "0 < s" using B(3) gD(6) by simp
  have fl: "set fl = addrs False (first_block h) (xs @ (s, False) # ys)" and ring: "free_ring h fl"
    using wf by (simp_all add: wf_heap_def)
  have "b \<in> set fl" using fl by (simp add: b_def)
  from ring_remove [OF ring this] obtain fl' where
    fl': "free_ring (Heap_Free_list_remove b h) fl'" "set fl' = set fl - {b}" "length fl = Suc (length fl')"
      "prev h b \<in> insert (free_list h) (set fl')" by blast
  have nb: "b \<notin> addrs False (first_block h) xs" "b \<notin> addrs False (b + s) ys"
    using wf addrs_disjoint [OF _ gD(6)] unfolding wf_heap_def b_def by blast+
  obtain t where t: "even t" "size_and_flag h (b + s) = t" using B(9) by auto
  let ?h = "mark_used (b + s) (Heap_Free_list_remove b h)"
  have "wf_heap ?h (xs @ [(s, True)] @ ys) fl'"
  proof (rule wf_heap_replace [where ms = "[(s, False)]"])
    show "wf_heap h (xs @ [(s, False)] @ ys) fl" using wf by simp
    show "seg h (first_block h) True xs (first_block h + span xs) pm" using B(2) by (simp add: b_def)
    show "seg ?h (first_block h + span xs) pm [(s, True)] (first_block h + span xs + span [(s, False)]) True"
      using B s by (simp add: b_def)
    show "size_and_flag ?h (first_block h + span xs + span [(s, False)])
        = clear_flag (size_and_flag h (first_block h + span xs + span [(s, False)])) + of_bool True"
      using t by (simp add: b_def)
    show "set fl' = addrs False (first_block h) (xs @ [(s, True)] @ ys)"
      using fl'(2) fl nb by (auto simp: b_def add.assoc)
  qed (use s fl' in \<open>auto simp: b_def\<close>)
  then show ?thesis using fl' by auto
qed

section \<open>Cutting a block\<close>

lemma align_up_spec:
  assumes "0 < pg" and "pg dvd m" and "v \<le> m" and "m < UW"
  shows "v \<le> Heap_Align_up v pg" "Heap_Align_up v pg \<le> m" "pg dvd Heap_Align_up v pg"
    "Heap_Align_up v pg < v + pg"
proof -
  have r: "v mod pg < pg" "v mod pg \<le> v" using assms(1) by simp_all
  have d: "pg dvd v - v mod pg" by (simp add: dvd_minus_mod)
  show "v \<le> Heap_Align_up v pg" "Heap_Align_up v pg \<le> m" "pg dvd Heap_Align_up v pg"
    "Heap_Align_up v pg < v + pg"
  proof -
    have le: "v - v mod pg + pg \<le> m" if "v mod pg \<noteq> 0"
    proof -
      have "v - v mod pg < m" using that assms(3) r by linarith
      moreover have "pg dvd m - (v - v mod pg)" using assms(2) d by (rule dvd_diff_nat)
      ultimately have "pg \<le> m - (v - v mod pg)" by (intro dvd_imp_le) simp_all
      then show ?thesis using \<open>v - v mod pg < m\<close> by linarith
    qed
    have u: "Heap_Align_up v pg = (if v mod pg \<noteq> 0 then v - v mod pg + pg else v)"
      using le assms(4) uadd_id [of "v - v mod pg" pg] unfolding Heap_Align_up_def Let_def by auto
    have "v \<le> v - v mod pg + pg" "v mod pg \<noteq> 0 \<Longrightarrow> v - v mod pg + pg < v + pg"
      using r by linarith+
    then show "v \<le> Heap_Align_up v pg" "Heap_Align_up v pg < v + pg"
      unfolding u using assms(1) by auto
    show "Heap_Align_up v pg \<le> m" unfolding u using le assms(3) by simp
    show "pg dvd Heap_Align_up v pg" unfolding u using d by (auto simp: dvd_eq_mod_eq_0)
  qed
qed

text \<open>
  A block that is about to be used: everything is in order once the flag of the block behind
  it is set. The code sets that flag only in the end, or not at all if a free remainder stays.
\<close>

definition claimed :: "heap \<Rightarrow> block_list \<Rightarrow> nat \<Rightarrow> block_list \<Rightarrow> nat list \<Rightarrow> bool" where
  "claimed h xs s ys fl \<longleftrightarrow>
     wf_heap (mark_used (first_block h + span xs + s) h) (xs @ (s, True) # ys) fl
     \<and> (ys \<noteq> [] \<longrightarrow> snd (hd ys))"

lemma claimedD:
  assumes "claimed h xs s ys fl"
  defines "b \<equiv> first_block h + span xs"
  obtains pm lu t where "geometry h" "seg h (first_block h) True xs b pm"
    "min_block_size h \<le> s" "page_size h dvd s" "even s" "0 < s" "size_and_flag h b = s + of_bool pm"
    "even t" "Heap_Block_size h (b + s) = t" "Heap_Is_prev_used h (Heap_Block_at (b + s) t)"
    "clear_flag (size_and_flag h (b + s)) = t" "set_flag (size_and_flag h (b + s)) = t + 1"
    "b + s \<le> last_block h" "first_block h \<le> b" "free_ring h fl"
    "set fl = addrs False (first_block h) (xs @ (s, True) # ys)"
proof -
  let ?n = "b + s" and ?m = "mark_used (first_block h + span xs + s) h"
  have wf: "wf_heap ?m (xs @ (s, True) # ys) fl" using assms(1) by (simp add: claimed_def)
  obtain pm lu where B: "geometry ?m" "seg ?m (first_block ?m) True xs b pm"
    "min_block_size ?m \<le> s" "page_size ?m dvd s" "even s" "size_and_flag ?m b = s + of_bool pm"
    "seg ?m ?n True ys (last_block ?m) lu"
    "\<exists>t. even t \<and> size_and_flag ?m ?n = t + of_bool True
      \<and> (ys = [] \<longrightarrow> t = usub (first_block ?m) (last_block ?m)) \<and> (ys \<noteq> [] \<longrightarrow> t = fst (hd ys))"
    "?n \<le> last_block ?m" "first_block ?m \<le> b"
    using wf_heap_block [OF wf] unfolding b_def by (metis mark_used_simps(3))
  have g: "geometry h" using B(1) by (rule geometry_cong) simp_all
  note gD = geometryD [OF g]
  have s: "0 < s" using B(3) gD(6) by simp
  obtain t where t: "even t" "set_flag (size_and_flag h ?n) = t + 1"
    and tl: "ys = [] \<longrightarrow> t = usub (first_block h) (last_block h)" "ys \<noteq> [] \<longrightarrow> t = fst (hd ys)"
    using B(8) unfolding b_def by auto
  have c: "clear_flag (size_and_flag h ?n) = t"
    using t by (auto simp: set_flag_def clear_flag_def split: if_splits elim: oddE)
  have nn: "Heap_Is_prev_used h (Heap_Block_at ?n t)"
  proof (cases ys)
    case Nil
    then have n: "?n = last_block h" using B(7) by simp
    have lt: "last_block h < UW" using gD(8) by simp
    have "uadd (last_block h) t = first_block h"
      using tl(1) Nil B(9,10) n lt s
      by (simp add: uadd_def usub_def mod_simps)
    moreover have "odd (size_and_flag ?m (first_block h))"
      using wf B(5) geometry_even [OF g] by (cases xs) (auto simp: wf_heap_def)
    moreover have "first_block h \<noteq> ?n" using B(10) s by simp
    ultimately show ?thesis
      using n by (auto simp: Heap_Is_prev_used_def Heap_Block_at_def b_def split: if_splits)
  next
    case (Cons y zs)
    then have y: "y = (t, True)" using tl(2) assms(1) by (cases y) (simp add: claimed_def)
    have wf': "wf_heap ?m ((xs @ [(s, True)]) @ (t, True) # zs) fl" using wf Cons y by simp
    obtain t2 where t2: "even t2" "size_and_flag ?m (?n + t) = t2 + 1" and le: "?n + t \<le> last_block h"
      and "min_block_size h \<le> t"
      using wf_heap_block [OF wf'] unfolding b_def
      by (simp add: add.assoc) (metis of_bool_eq(2))
    have "uadd ?n t = ?n + t" using le gD(8) by (simp add: uadd_id)
    moreover have "?n + t \<noteq> ?n" using \<open>min_block_size h \<le> t\<close> gD(6) by simp
    ultimately show ?thesis
      using t2 by (simp add: Heap_Is_prev_used_def Heap_Block_at_def b_def)
  qed
  have "seg h (first_block h) True xs b pm"
    by (rule seg_cong [OF B(2) [unfolded mark_used_simps]])
      (use gD(6) s in \<open>auto simp: b_def\<close>)
  moreover have "size_and_flag h b = s + of_bool pm" using B(6) s by (simp add: b_def)
  moreover have "free_ring h fl" "set fl = addrs False (first_block h) (xs @ (s, True) # ys)"
    using wf by (simp_all add: wf_heap_def)
  ultimately show thesis
    using that [of pm t] g B(3-5,9,10) s t c nn by (simp add: Heap_Block_size_def)
qed

text \<open>What \<open>_Heap_Block_split\<close> computes, without wrap-around.\<close>

lemma split_sizes:
  assumes "geometry h" and "min_block_size h \<le> s" and "s + 16 < UW" and "alloc_size + 16 \<le> s + 8"
  obtains used where "split_used_size h alloc_size = used"
    "usub (uadd s HEAP_ALLOC_BONUS) used = s + 8 - used" "uadd (min_block_size h) HEAP_ALLOC_BONUS = min_block_size h + 8"
    "used \<le> s + 8" "alloc_size + 16 \<le> used" "min_block_size h \<le> used"
    "used = alloc_size + 16 \<or> used = min_block_size h"
proof -
  note gD = geometryD [OF assms(1)]
  define used where "used = max alloc_size (min_block_size h - 16) + 16"
  have u: "used \<le> s + 8" "alloc_size + 16 \<le> used" "min_block_size h \<le> used"
    "used = alloc_size + 16 \<or> used = min_block_size h"
    using assms(2,4) gD(3) by (auto simp: used_def max_def)
  have "min_block_size h < UW" using assms(2,3) by simp
  then have "split_used_size h alloc_size = used"
    using gD(3) u assms(3) unfolding used_def split_used_size_def
    by (simp add: heap_consts usub_id uadd_id)
  moreover have "uadd s HEAP_ALLOC_BONUS = s + 8" "uadd (min_block_size h) HEAP_ALLOC_BONUS = min_block_size h + 8"
    using assms(2,3) by (simp_all add: heap_consts uadd_id)
  moreover have "usub (s + 8) used = s + 8 - used" using u assms(3) by (simp add: usub_id)
  ultimately show thesis using that u by simp
qed

text \<open>Too small a remainder: the block is used as a whole. Else the end becomes a free block.\<close>

lemma Heap_Block_split_cases:
  assumes c: "claimed h xs s ys fl" and fit: "alloc_size + 16 \<le> s + 8"
  defines "b \<equiv> first_block h + span xs"
  obtains (whole) "Heap_Block_split b (b + s) anchor alloc_size h = mark_used (b + s) h"
  | (cut) u where "Heap_Block_split b (b + s) anchor alloc_size h = split_free b (b + s) anchor u h"
      "alloc_size + 16 \<le> u" "u + min_block_size h \<le> s" "min_block_size h \<le> u" "page_size h dvd u"
proof -
  obtain pm where C: "geometry h" "min_block_size h \<le> s" "page_size h dvd s" "even s"
    "size_and_flag h b = s + of_bool pm" "b + s \<le> last_block h"
    using claimedD [OF c] unfolding b_def by metis
  note gD = geometryD [OF C(1)]
  have lt: "s + 16 < UW" using C(6) gD(8) by simp
  obtain used where S: "split_used_size h alloc_size = used"
    "usub (uadd s HEAP_ALLOC_BONUS) used = s + 8 - used" "uadd (min_block_size h) HEAP_ALLOC_BONUS = min_block_size h + 8"
    "used \<le> s + 8" "alloc_size + 16 \<le> used" "min_block_size h \<le> used"
    using split_sizes [OF C(1,2) lt fit] by metis
  have sz: "Heap_Block_size h b = s" using C(4,5) by (simp add: Heap_Block_size_def)
  show thesis
  proof (cases "used + min_block_size h \<le> s")
    case True
    have "page_size h dvd s - min_block_size h" using C(3) gD(4) by (rule dvd_diff_nat)
    moreover have "used \<le> s - min_block_size h" "s - min_block_size h < UW"
      using True lt by simp_all
    ultimately have "used \<le> Heap_Align_up used (page_size h)"
      "Heap_Align_up used (page_size h) + min_block_size h \<le> s" "page_size h dvd Heap_Align_up used (page_size h)"
      using align_up_spec [OF gD(1), of "s - min_block_size h" used] True by simp_all
    then show thesis
      by (intro cut [of "Heap_Align_up used (page_size h)"])
        (use True S in \<open>simp_all add: Heap_Block_split_def sz\<close>)
  next
    case False
    then show thesis
      by (intro whole) (use S in \<open>simp add: Heap_Block_split_def sz mark_used_def\<close>)
  qed
qed

text \<open>The free remainder: its memory, its place in the free list and the statistics.\<close>

lemma split_free_eq:
  assumes c: "claimed h xs s ys fl" and u: "u + min_block_size h \<le> s" "min_block_size h \<le> u" "page_size h dvd u"
  defines "b \<equiv> first_block h + span xs"
  obtains pm t h1 where
    "size_and_flag h b = s + of_bool pm" "seg h (first_block h) True xs b pm"
    "size_and_flag h1 = (size_and_flag h)(b := u + of_bool pm)" "prev_size h1 = prev_size h"
    "next h1 = next h" "prev h1 = prev h" "page_size h1 = page_size h" "min_block_size h1 = min_block_size h"
    "first_block h1 = first_block h" "last_block h1 = last_block h" "free_list h1 = free_list h"
    "stats h1 = (stats h)\<lparr>st_free_size := uadd (st_free_size (stats h)) (s - u)\<rparr>"
    "even t" "clear_flag (size_and_flag h (b + s)) = t"
    "split_free b (b + s) anchor u h = set_size_and_flag (b + s) t
      (set_prev_size (b + s) (s - u) (set_size_and_flag (b + u) (s - u + 1)
        (upd_stats (\<lambda>s. s\<lparr>st_free_blocks := inc32 (st_free_blocks s)\<rparr>)
          (Heap_Free_list_insert_after anchor (b + u) h1))))"
proof -
  obtain pm t where C: "geometry h" "seg h (first_block h) True xs b pm"
    "page_size h dvd s" "even s" "size_and_flag h b = s + of_bool pm"
    "even t" "Heap_Block_size h (b + s) = t" "Heap_Is_prev_used h (Heap_Block_at (b + s) t)"
    "clear_flag (size_and_flag h (b + s)) = t" "b + s \<le> last_block h" "0 < s"
    using claimedD [OF c] unfolding b_def by metis
  note gD = geometryD [OF C(1)]
  have lt: "b + s + 16 < UW" using C(10) gD(8) by simp
  have us: "0 < u" "u < s" "even u" "even (s - u)"
    using u gD(6) geometry_even [OF C(1) u(3)] C(4) by auto
  have sz: "Heap_Block_size h b = s" using C(4,5) by (simp add: Heap_Block_size_def)
  have at: "Heap_Block_at b u = b + u" "usub s u = s - u"
    using us lt by (simp_all add: Heap_Block_at_def uadd_id usub_id)
  define h1 where "h1 = upd_stats (\<lambda>s'. s'\<lparr>st_free_size := uadd (st_free_size s') (s - u)\<rparr>)
      (Heap_Block_set_size b u h)"
  have f1: "size_and_flag h1 = (size_and_flag h)(b := u + of_bool pm)" "prev_size h1 = prev_size h"
    "next h1 = next h" "prev h1 = prev h" "page_size h1 = page_size h" "min_block_size h1 = min_block_size h"
    "first_block h1 = first_block h" "last_block h1 = last_block h" "free_list h1 = free_list h"
    "stats h1 = (stats h)\<lparr>st_free_size := uadd (st_free_size (stats h)) (s - u)\<rparr>"
    using C(4,5) us(3)
    by (auto simp: h1_def Heap_Block_set_size_def Heap_Is_prev_used_def heap_updates)
  have nn1: "Heap_Is_prev_used h1 (Heap_Block_at (b + s) t)"
    using C(4,5,8) us(3) by (auto simp: Heap_Is_prev_used_def f1)
  have eq: "split_free b (b + s) anchor u h = set_size_and_flag (b + s) t
      (set_prev_size (b + s) (s - u) (set_size_and_flag (b + u) (s - u + 1)
        (upd_stats (\<lambda>s. s\<lparr>st_free_blocks := inc32 (st_free_blocks s)\<rparr>)
          (Heap_Free_list_insert_after anchor (b + u) h1))))"
    (is "_ = set_size_and_flag _ _ (set_prev_size _ _ (set_size_and_flag _ _ ?h2))")
  proof -
    have "size_and_flag (set_prev_size (b + s) (s - u) (set_size_and_flag (b + u) (s - u + 1) ?h2)) (b + s)
        = size_and_flag h (b + s)"
      using us C(11) by (simp add: set_prev_size_def set_size_and_flag_def upd_stats_def f1)
    then show ?thesis
      unfolding split_free_def sz at C(7) Let_def h1_def [symmetric]
      using nn1 us C(9) by simp
  qed
  show thesis
    by (rule that [OF C(5,2) f1 C(6,9) eq])
qed

lemma split_free_ok:
  assumes c: "claimed h xs s ys fl" and u: "u + min_block_size h \<le> s" "min_block_size h \<le> u" "page_size h dvd u"
    and anchor: "anchor \<in> insert (free_list h) (set fl)"
  defines "b \<equiv> first_block h + span xs"
  defines "h' \<equiv> split_free b (b + s) anchor u h"
  shows "\<exists>fl'. wf_heap h' (xs @ (u, True) # (s - u, False) # ys) fl' \<and> set fl' = insert (b + u) (set fl)
      \<and> length fl' = Suc (length fl)"
    and "stats h' = (stats h)\<lparr>st_free_size := uadd (st_free_size (stats h)) (s - u),
      st_free_blocks := inc32 (st_free_blocks (stats h))\<rparr>"
proof -
  let ?m = "mark_used (b + s) h"
  have wf: "wf_heap ?m (xs @ (s, True) # ys) fl" and used: "ys \<noteq> [] \<longrightarrow> snd (hd ys)"
    using c by (simp_all add: claimed_def b_def)
  have g: "geometry h" using wf geometry_cong by (auto simp: wf_heap_def)
  note gD = geometryD [OF g]
  have us: "0 < u" "u < s" using u gD(6) by auto
  obtain pm t h1 where E: "size_and_flag h b = s + of_bool pm" "seg h (first_block h) True xs b pm"
    "size_and_flag h1 = (size_and_flag h)(b := u + of_bool pm)" "prev_size h1 = prev_size h"
    "next h1 = next h" "prev h1 = prev h" "page_size h1 = page_size h" "min_block_size h1 = min_block_size h"
    "first_block h1 = first_block h" "last_block h1 = last_block h" "free_list h1 = free_list h"
    "stats h1 = (stats h)\<lparr>st_free_size := uadd (st_free_size (stats h)) (s - u)\<rparr>"
    "even t" "clear_flag (size_and_flag h (b + s)) = t"
    "h' = set_size_and_flag (b + s) t
      (set_prev_size (b + s) (s - u) (set_size_and_flag (b + u) (s - u + 1)
        (upd_stats (\<lambda>s. s\<lparr>st_free_blocks := inc32 (st_free_blocks s)\<rparr>)
          (Heap_Free_list_insert_after anchor (b + u) h1))))"
    by (rule split_free_eq [OF c u, where anchor = anchor, folded b_def, folded h'_def])
  obtain pm' lu where M: "seg ?m (first_block h) True xs b pm'" "page_size h dvd s" "size_and_flag ?m b = s + of_bool pm'"
    "b + s \<le> last_block h" "first_block h \<le> b" "pm' \<or> True"
    "seg ?m (b + s) True ys (last_block h) lu"
    using wf_heap_block [OF wf] unfolding b_def by (metis mark_used_simps(1,3,4))
  have pm: "pm' = pm"
    using E(1) M(3) us by (cases pm; cases pm') simp_all
  have fl: "set fl = addrs False (first_block h) (xs @ (s, True) # ys)" and ring: "free_ring h fl"
    using wf by (simp_all add: wf_heap_def)
  have "b + u \<notin> addrs False (first_block h) xs" "b + u \<notin> addrs False (b + s) ys"
    using addrs_in_range [OF M(1)] addrs_in_range [OF M(7)] gD(6) us by fastforce+
  moreover have "b + u \<noteq> free_list h"
    using g M(4,5) us by (auto simp: geometry_def)
  ultimately have new: "b + u \<notin> insert (free_list h) (set fl)"
    using fl by (simp add: b_def)
  let ?hi = "Heap_Free_list_insert_after anchor (b + u) h1"
  from ring_insert_after [of h1 fl anchor "b + u"] anchor new ring obtain fl' where
    fl': "free_ring ?hi fl'" "set fl' = insert (b + u) (set fl)" "length fl' = Suc (length fl)"
    by (auto simp: E)
  have f': "page_size h' = page_size h" "min_block_size h' = min_block_size h" "first_block h' = first_block h"
    "last_block h' = last_block h" "free_list h' = free_list h" "next h' = next ?hi" "prev h' = prev ?hi"
    "size_and_flag h' = (size_and_flag h)(b := u + of_bool pm, b + u := s - u + 1, b + s := t)"
    "prev_size h' = (prev_size h)(b + s := s - u)"
    unfolding E(15) by (simp_all add: set_size_and_flag_def set_prev_size_def upd_stats_def E)
  show "stats h' = (stats h)\<lparr>st_free_size := uadd (st_free_size (stats h)) (s - u),
      st_free_blocks := inc32 (st_free_blocks (stats h))\<rparr>"
    unfolding E(15) by (simp add: set_size_and_flag_def set_prev_size_def upd_stats_def E)
  have "wf_heap h' (xs @ [(u, True), (s - u, False)] @ ys) fl'"
  proof (rule wf_heap_replace [where ms = "[(s, True)]" and eu' = False and h = ?m and pm = pm])
    show "wf_heap ?m (xs @ [(s, True)] @ ys) fl" using wf by simp
    show "seg ?m (first_block ?m) True xs (first_block ?m + span xs) pm" using M(1) pm by (simp add: b_def)
    show "seg h' (first_block ?m + span xs) pm [(u, True), (s - u, False)]
        (first_block ?m + span xs + span [(s, True)]) False"
      using us u M(2) by (simp add: f' b_def [symmetric] add.assoc)
    show "size_and_flag h' (first_block ?m + span xs + span [(s, True)])
        = clear_flag (size_and_flag ?m (first_block ?m + span xs + span [(s, True)])) + of_bool False"
      using E(13,14) by (simp add: f' b_def [symmetric]) (auto simp: set_flag_def clear_flag_def)
    show "set fl' = addrs False (first_block ?m) (xs @ [(u, True), (s - u, False)] @ ys)"
      using fl'(2) fl us by (simp add: b_def add.assoc)
    show "dlist (next h') (prev h') (free_list ?m # fl' @ [free_list ?m])"
      using fl'(1) by (simp add: f' E(11))
  qed (use us used in \<open>auto simp: f' b_def\<close>)
  then show "\<exists>fl'. wf_heap h' (xs @ (u, True) # (s - u, False) # ys) fl' \<and> set fl' = insert (b + u) (set fl)
      \<and> length fl' = Suc (length fl)"
    using fl' by auto
qed

section \<open>Allocation from the end of a block\<close>

text \<open>The state before the final split: the lower part \<open>k\<close> of the block is a free block again.\<close>

definition lower_free :: "nat \<Rightarrow> nat \<Rightarrow> nat \<Rightarrow> nat \<Rightarrow> heap \<Rightarrow> heap" where
  "lower_free b k s anchor h =
     set_size_and_flag (b + k) (s - k) (set_prev_size (b + k) k (set_size_and_flag b (k + 1)
       (upd_stats (\<lambda>s. s\<lparr>st_free_blocks := inc32 (st_free_blocks s)\<rparr>)
         (Heap_Free_list_insert_after anchor b
           (upd_stats (\<lambda>s. s\<lparr>st_free_size := uadd (st_free_size s) k\<rparr>) h)))))"

lemma lower_free_ok:
  assumes c: "claimed h xs s ys fl" and k: "min_block_size h \<le> k" "k + min_block_size h \<le> s" "page_size h dvd k"
    and anchor: "anchor \<in> insert (free_list h) (set fl)"
  defines "b \<equiv> first_block h + span xs"
  assumes prev: "Heap_Is_prev_used h b"
  defines "h' \<equiv> lower_free b k s anchor h"
  shows "\<exists>fl'. claimed h' (xs @ [(k, False)]) (s - k) ys fl' \<and> set fl' = insert b (set fl)
      \<and> length fl' = Suc (length fl)"
    and "stats h' = (stats h)\<lparr>st_free_size := uadd (st_free_size (stats h)) k,
      st_free_blocks := inc32 (st_free_blocks (stats h))\<rparr>"
    and "first_block h' = first_block h" "free_list h' = free_list h" "page_size h' = page_size h"
      "min_block_size h' = min_block_size h" "last_block h' = last_block h"
proof -
  let ?m = "mark_used (b + s) h"
  have wf: "wf_heap ?m (xs @ (s, True) # ys) fl" and used: "ys \<noteq> [] \<longrightarrow> snd (hd ys)"
    using c by (simp_all add: claimed_def b_def)
  obtain pm t where C: "geometry h" "seg h (first_block h) True xs b pm"
    "page_size h dvd s" "even s" "size_and_flag h b = s + of_bool pm" "0 < s"
    "even t" "clear_flag (size_and_flag h (b + s)) = t" "set_flag (size_and_flag h (b + s)) = t + 1"
    "b + s \<le> last_block h" "first_block h \<le> b"
    using claimedD [OF c] unfolding b_def by metis
  note gD = geometryD [OF C(1)]
  have ks: "0 < k" "k < s" using k gD(6) by auto
  have pm: "pm" using prev C(4,5) by (simp add: Heap_Is_prev_used_def)
  have fl: "set fl = addrs False (first_block h) (xs @ (s, True) # ys)" and ring: "free_ring h fl"
    using wf by (simp_all add: wf_heap_def)
  obtain lu where M: "seg ?m (b + s) True ys (last_block h) lu"
    using wf_heap_middle [of ?m xs "[(s, True)]" ys fl] wf by (auto simp: b_def)
  have "b \<notin> addrs False (first_block h) xs" "b \<notin> addrs False (b + s) ys"
    using addrs_in_range [OF C(2)] addrs_in_range [OF M] gD(6) C(6) by fastforce+
  moreover have "b \<noteq> free_list h"
    using C(1,10,11) by (auto simp: geometry_def)
  ultimately have new: "b \<notin> insert (free_list h) (set fl)"
    using fl by (simp add: b_def)
  let ?h0 = "upd_stats (\<lambda>s. s\<lparr>st_free_size := uadd (st_free_size s) k\<rparr>) h"
  let ?hi = "Heap_Free_list_insert_after anchor b ?h0"
  have h0: "next ?h0 = next h" "prev ?h0 = prev h" "free_list ?h0 = free_list h"
    by (simp_all add: upd_stats_def)
  from ring_insert_after [of ?h0 fl anchor b] anchor new ring obtain fl' where
    fl': "free_ring ?hi fl'" "set fl' = insert b (set fl)" "length fl' = Suc (length fl)"
    unfolding h0 by blast
  have f': "page_size h' = page_size h" "min_block_size h' = min_block_size h" "first_block h' = first_block h"
    "last_block h' = last_block h" "free_list h' = free_list h" "next h' = next ?hi" "prev h' = prev ?hi"
    "size_and_flag h' = (size_and_flag h)(b := k + 1, b + k := s - k)"
    "prev_size h' = (prev_size h)(b + k := k)"
    unfolding h'_def lower_free_def by (simp_all add: set_size_and_flag_def set_prev_size_def upd_stats_def)
  show "stats h' = (stats h)\<lparr>st_free_size := uadd (st_free_size (stats h)) k,
      st_free_blocks := inc32 (st_free_blocks (stats h))\<rparr>"
    unfolding h'_def lower_free_def by (simp add: set_size_and_flag_def set_prev_size_def upd_stats_def)
  show "first_block h' = first_block h" "free_list h' = free_list h" "page_size h' = page_size h"
      "min_block_size h' = min_block_size h" "last_block h' = last_block h"
    by (simp_all add: f')
  have dv: "page_size h dvd s - k" using C(3) k(3) by (rule dvd_diff_nat)
  let ?m' = "mark_used (b + s) h'"
  have "wf_heap ?m' (xs @ [(k, False), (s - k, True)] @ ys) fl'"
  proof (rule wf_heap_replace [where ms = "[(s, True)]" and eu' = True and h = ?m and pm = pm])
    show "wf_heap ?m (xs @ [(s, True)] @ ys) fl" using wf by simp
    show "seg ?m (first_block ?m) True xs (first_block ?m + span xs) pm"
      unfolding mark_used_simps
      by (rule seg_cong [OF C(2) [unfolded b_def] gD(6)]) (use C(6) in \<open>auto simp: b_def\<close>)
    show "seg ?m' (first_block ?m + span xs) pm [(k, False), (s - k, True)]
        (first_block ?m + span xs + span [(s, True)]) True"
      using ks k dv pm by (simp add: f' b_def [symmetric] add.assoc)
    show "size_and_flag ?m' (first_block ?m + span xs + span [(s, True)])
        = clear_flag (size_and_flag ?m (first_block ?m + span xs + span [(s, True)])) + of_bool True"
      using C(7,9) ks by (simp add: f' b_def [symmetric])
    show "set fl' = addrs False (first_block ?m) (xs @ [(k, False), (s - k, True)] @ ys)"
      using fl'(2) fl ks by (simp add: b_def add.assoc)
    show "dlist (next ?m') (prev ?m') (free_list ?m # fl' @ [free_list ?m])"
      using fl'(1) by (simp add: f' h0)
  qed (use ks used in \<open>auto simp: f' b_def\<close>)
  then have "claimed h' (xs @ [(k, False)]) (s - k) ys fl'"
    using used ks by (simp add: claimed_def f' b_def add.assoc)
  then show "\<exists>fl'. claimed h' (xs @ [(k, False)]) (s - k) ys fl' \<and> set fl' = insert b (set fl)
      \<and> length fl' = Suc (length fl)"
    using fl' by blast
qed

lemma Heap_Block_allocate_from_end_eq:
  assumes c: "claimed h xs s ys fl" and k: "min_block_size h \<le> k" "k + min_block_size h \<le> s" "page_size h dvd k"
  defines "b \<equiv> first_block h + span xs"
  assumes prev: "Heap_Is_prev_used h b" and new: "Heap_Block_of_alloc_area alloc_begin (page_size h) = b + k"
  shows "Heap_Block_allocate_from_end b (b + s) anchor alloc_begin alloc_size h
    = (Heap_Block_split (b + k) (b + s) b alloc_size (lower_free b k s anchor h), b + k)"
proof -
  obtain pm where C: "geometry h" "page_size h dvd s" "b + s \<le> last_block h" "even s" "size_and_flag h b = s + of_bool pm"
    using claimedD [OF c] unfolding b_def by metis
  note gD = geometryD [OF C(1)]
  have lt: "b + s < UW" using C(3) gD(8) by simp
  have "usub (b + s) (b + k) = s - k" "usub (b + k) b = k"
    using k lt gD(6) by (simp_all add: usub_id)
  moreover have "even k" using geometry_even [OF C(1) k(3)] .
  moreover have "Heap_Is_prev_used (upd_stats f h) b" for f
    using prev by (simp add: Heap_Is_prev_used_def upd_stats_def)
  ultimately show ?thesis
    unfolding Heap_Block_allocate_from_end_def new Let_def lower_free_def by simp
qed

section \<open>Statistics and used blocks\<close>

lemma upd_stats_simps [simp]:
  "page_size (upd_stats f h) = page_size h" "min_block_size (upd_stats f h) = min_block_size h"
  "first_block (upd_stats f h) = first_block h" "last_block (upd_stats f h) = last_block h"
  "free_list (upd_stats f h) = free_list h" "stats (upd_stats f h) = f (stats h)"
  "prev_size (upd_stats f h) = prev_size h" "next (upd_stats f h) = next h" "prev (upd_stats f h) = prev h"
  "size_and_flag (upd_stats f h) = size_and_flag h" "mark_used n (upd_stats f h) = upd_stats f (mark_used n h)"
  by (simp_all add: upd_stats_def mark_used_def set_size_and_flag_def)

lemma seg_upd_stats [simp]: "seg (upd_stats f h) a pu bs e eu = seg h a pu bs e eu"
  by (induction bs arbitrary: a pu rule: span.induct) auto

lemma wf_heap_upd_stats [simp]: "wf_heap (upd_stats f h) bs fl = wf_heap h bs fl"
  by (simp add: wf_heap_def geometry_def)

lemma claimed_upd_stats [simp]: "claimed (upd_stats f h) xs s ys fl = claimed h xs s ys fl"
  by (simp add: claimed_def)

fun used_at :: "nat \<Rightarrow> block_list \<Rightarrow> (nat \<times> nat) set" where
  "used_at a [] = {}"
| "used_at a ((s, u) # bs) = (if u then {(a, s)} else {}) \<union> used_at (a + s) bs"

fun free_total :: "block_list \<Rightarrow> nat" where
  "free_total [] = 0"
| "free_total ((s, u) # bs) = (if u then 0 else s) + free_total bs"

definition used_count :: "block_list \<Rightarrow> nat" where
  "used_count bs = length (filter snd bs)"

lemma used_at_append [simp]: "used_at a (xs @ ys) = used_at a xs \<union> used_at (a + span xs) ys"
  by (induction xs arbitrary: a rule: span.induct) (auto simp: add.assoc)

lemma free_total_append [simp]: "free_total (xs @ ys) = free_total xs + free_total ys"
  by (induction xs rule: span.induct) auto

lemma used_count_simps [simp]:
  "used_count [] = 0" "used_count ((s, u) # bs) = of_bool u + used_count bs"
  "used_count (xs @ ys) = used_count xs + used_count ys"
  by (simp_all add: used_count_def)

lemma free_total_le: "free_total bs \<le> span bs"
  by (induction bs rule: span.induct) auto

definition stats_ok :: "heap_stats \<Rightarrow> block_list \<Rightarrow> nat list \<Rightarrow> bool" where
  "stats_ok st bs fl \<longleftrightarrow> st_free_size st = free_total bs \<and> st_free_blocks st = length fl mod 2 ^ 32
     \<and> st_used_blocks st = used_count bs mod 2 ^ 32 \<and> st_size st = span bs"

definition heap_inv :: "heap \<Rightarrow> block_list \<Rightarrow> nat list \<Rightarrow> bool" where
  "heap_inv h bs fl \<longleftrightarrow> wf_heap h bs fl \<and> stats_ok (stats h) bs fl"

lemma inc32_mod: "inc32 (n mod 2 ^ 32) = Suc n mod 2 ^ 32"
  unfolding inc32_def by (metis Suc_eq_plus1 mod_add_left_eq)

lemma dec32_mod: "dec32 (Suc n mod 2 ^ 32) = n mod 2 ^ 32"
proof -
  have "dec32 (Suc n mod 2 ^ 32) = (Suc n + (2 ^ 32 - 1)) mod 2 ^ 32"
    unfolding dec32_def by (rule mod_add_left_eq)
  also have "Suc n + (2 ^ 32 - 1) = n + 2 ^ 32" by simp
  finally show ?thesis by simp
qed

lemmas count32 [simp] = inc32_mod [simplified] dec32_mod [simplified]

lemma heap_inv_free_total_bound:
  assumes "wf_heap h bs fl"
  shows "free_total bs < UW"
  using wf_heap_last [OF assms] free_total_le [of bs] assms geometryD(8) [of h] by (auto simp: wf_heap_def)

section \<open>Allocation of a free block\<close>

text \<open>The part of the block from which on the new block is taken, and the state afterwards.\<close>

definition taken :: "heap \<Rightarrow> nat \<Rightarrow> heap" where
  "taken h b = upd_stats (\<lambda>s. s\<lparr>st_free_blocks := dec32 (st_free_blocks s),
     st_used_blocks := inc32 (st_used_blocks s), st_free_size := usub (st_free_size s) (Heap_Block_size h b)\<rparr>)
     (Heap_Free_list_remove b h)"

lemma taken_claimed:
  assumes inv: "heap_inv h (xs @ (s, False) # ys) fl"
  defines "b \<equiv> first_block h + span xs"
  shows "\<exists>fl'. claimed (taken h b) xs s ys fl' \<and> prev h b \<in> insert (free_list h) (set fl')
      \<and> stats_ok (stats (taken h b)) (xs @ (s, True) # ys) fl'"
    and "first_block (taken h b) = first_block h" "free_list (taken h b) = free_list h"
      "page_size (taken h b) = page_size h" "min_block_size (taken h b) = min_block_size h"
      "Heap_Is_prev_used (taken h b) b" "Heap_Block_size h b = s" "b + s + 16 < UW"
      "\<not> Heap_Is_prev_used h (b + s)" "Heap_Block_at b s = b + s"
proof -
  have wf: "wf_heap h (xs @ (s, False) # ys) fl" and st: "stats_ok (stats h) (xs @ (s, False) # ys) fl"
    using inv by (simp_all add: heap_inv_def)
  obtain pm where B: "geometry h" "even s" "size_and_flag h b = s + of_bool pm" "pm \<or> False"
    "\<exists>t. even t \<and> size_and_flag h (b + s) = t + of_bool False
      \<and> (ys = [] \<longrightarrow> t = usub (first_block h) (last_block h)) \<and> (ys \<noteq> [] \<longrightarrow> t = fst (hd ys))"
    "ys \<noteq> [] \<Longrightarrow> False \<or> snd (hd ys)" "b + s \<le> last_block h"
    using wf_heap_block [OF wf] unfolding b_def by metis
  show sz: "Heap_Block_size h b = s" using B(2,3) by (simp add: Heap_Block_size_def)
  show "Heap_Is_prev_used (taken h b) b" using B(2-4) by (simp add: taken_def Heap_Is_prev_used_def)
  show lt: "b + s + 16 < UW" using B(7) geometryD(8) [OF B(1)] by simp
  then show "Heap_Block_at b s = b + s" by (simp add: Heap_Block_at_def uadd_id)
  show "\<not> Heap_Is_prev_used h (b + s)" using B(5) by (auto simp: Heap_Is_prev_used_def)
  show "first_block (taken h b) = first_block h" "free_list (taken h b) = free_list h"
      "page_size (taken h b) = page_size h" "min_block_size (taken h b) = min_block_size h"
    by (simp_all add: taken_def)
  obtain fl' where fl': "wf_heap (mark_used (b + s) (Heap_Free_list_remove b h)) (xs @ (s, True) # ys) fl'"
    "length fl = Suc (length fl')" "prev h b \<in> insert (free_list h) (set fl')"
    using claim_ok [OF wf] unfolding b_def by blast
  have "claimed (taken h b) xs s ys fl'"
    unfolding taken_def claimed_upd_stats using fl'(1) B(6) by (simp add: claimed_def b_def)
  moreover have "stats_ok (stats (taken h b)) (xs @ (s, True) # ys) fl'"
    using st fl'(2) sz heap_inv_free_total_bound [OF wf]
    by (simp add: taken_def stats_ok_def usub_id)
  ultimately show "\<exists>fl'. claimed (taken h b) xs s ys fl' \<and> prev h b \<in> insert (free_list h) (set fl')
      \<and> stats_ok (stats (taken h b)) (xs @ (s, True) # ys) fl'"
    using fl'(3) by blast
qed

text \<open>The result of allocating from a claimed block: where the new block is and how large.\<close>

lemma Heap_Block_split_inv:
  assumes c: "claimed h xs s ys fl" and fit: "alloc_size + 16 \<le> s + 8"
    and anchor: "anchor \<in> insert (free_list h) (set fl)"
    and st: "stats_ok (stats h) (xs @ (s, True) # ys) fl"
  defines "b \<equiv> first_block h + span xs"
  shows "\<exists>bs' fl' u. heap_inv (Heap_Block_split b (b + s) anchor alloc_size h) (xs @ (u, True) # bs' @ ys) fl'
    \<and> alloc_size + 16 \<le> u + 8 \<and> u \<le> s \<and> used_at 0 bs' = {} \<and> span bs' = s - u"
proof -
  show ?thesis
  proof (cases rule: Heap_Block_split_cases [OF c fit, of anchor, folded b_def, case_names whole cut])
    case whole
    have "wf_heap (mark_used (b + s) h) (xs @ (s, True) # ys) fl"
      using c by (simp add: claimed_def b_def)
    with whole st fit show ?thesis
      by (intro exI [of _ "[]"] exI [of _ fl] exI [of _ s]) (simp add: heap_inv_def)
  next
    case (cut u)
    note sf = split_free_ok [OF c cut(3-5) anchor, folded b_def]
    then obtain fl' where fl': "wf_heap (split_free b (b + s) anchor u h) (xs @ (u, True) # (s - u, False) # ys) fl'"
      "length fl' = Suc (length fl)" by blast
    have lt: "u \<le> s" using cut(3) by simp
    have "free_total (xs @ (u, True) # (s - u, False) # ys) < UW"
      using heap_inv_free_total_bound [OF fl'(1)] .
    then have "stats_ok (stats (split_free b (b + s) anchor u h)) (xs @ (u, True) # (s - u, False) # ys) fl'"
      using st fl'(2) lt unfolding sf(2) stats_ok_def by (simp add: uadd_id algebra_simps)
    with fl' cut lt show ?thesis
      by (intro exI [of _ "[(s - u, False)]"] exI [of _ fl'] exI [of _ u]) (simp add: heap_inv_def)
  qed
qed

lemma used_at_shift: "used_at 0 bs = {} \<Longrightarrow> used_at a bs = {}"
proof -
  have "used_at a bs = {} \<longleftrightarrow> (\<forall>x \<in> set bs. \<not> snd x)" for a
    by (induction bs arbitrary: a rule: span.induct) auto
  then show "used_at 0 bs = {} \<Longrightarrow> used_at a bs = {}" by simp
qed

lemma heap_inv_min_free [simp]:
  "heap_inv (upd_stats (\<lambda>s. if P s then s\<lparr>st_min_free_size := v s\<rparr> else s) h) bs fl = heap_inv h bs fl"
  by (simp add: heap_inv_def stats_ok_def)

text \<open>The block addresses of a well-formed heap, and the page that an address of an area lies in.\<close>

lemma block_page:
  assumes "heap_inv h (xs @ blk # ys) fl"
  shows "page_size h dvd first_block h + span xs + 16"
proof -
  obtain b u where "seg h (first_block h) True xs b u"
    using wf_heap_middle [of h xs "[blk]" ys fl] assms by (auto simp: heap_inv_def)
  then have "page_size h dvd span xs" using seg_page by blast
  moreover have "page_size h dvd first_block h + 16" using assms by (simp add: heap_inv_def wf_heap_def geometry_def)
  ultimately have "page_size h dvd span xs + (first_block h + 16)" by (rule dvd_add)
  then show ?thesis by (simp add: algebra_simps)
qed

lemma block_of_area:
  assumes "pg dvd b + 16" and "q < pg" and "b + 16 < UW"
  shows "Heap_Block_of_alloc_area (b + 16 + q) pg = b"
proof -
  have "(b + 16 + q) mod pg = q" using assms(1,2) by (metis add.commute add_0_right dvd_imp_mod_0 mod_add_right_eq mod_less)
  then show ?thesis using assms(3) by (simp add: Heap_Block_of_alloc_area_def Heap_Align_down_def heap_consts usub_id)
qed

text \<open>
  \<open>_Heap_Block_allocate\<close> on a free block takes it from the free list; the last step is the minimum of the
  free size in the statistics.
\<close>

definition track_min :: "heap_stats \<Rightarrow> heap_stats" where
  "track_min s = (if st_min_free_size s > st_free_size s then s\<lparr>st_min_free_size := st_free_size s\<rparr> else s)"

lemma heap_inv_track_min [simp]: "heap_inv (upd_stats track_min h) bs fl = heap_inv h bs fl"
  unfolding track_min_def by (rule heap_inv_min_free)

lemma Heap_Block_allocate_eq:
  assumes inv: "heap_inv h (xs @ (s, False) # ys) fl"
  defines "b \<equiv> first_block h + span xs"
  assumes "alloc_begin = b + 16 + k" and "b + 16 + k < UW"
  shows "Heap_Block_allocate b alloc_begin alloc_size h =
     (let (h', b') = (if k < page_size h
             then (Heap_Block_split b (b + s) (prev h b) (uadd alloc_size k) (taken h b), b)
             else Heap_Block_allocate_from_end b (b + s) (prev h b) alloc_begin alloc_size (taken h b))
      in (upd_stats track_min h', b'))"
proof -
  note T = taken_claimed(2-) [OF inv, folded b_def]
  have "uadd b HEAP_BLOCK_HEADER_SIZE = b + 16" using T(7) by (simp add: heap_consts uadd_id)
  then have off: "usub alloc_begin (Heap_Alloc_area_of_block b) = k"
    using assms(3,4) by (simp add: Heap_Alloc_area_of_block_def usub_id)
  have m: "(\<lambda>s. if st_min_free_size s > st_free_size s then s\<lparr>st_min_free_size := st_free_size s\<rparr> else s) = track_min"
    by (simp add: fun_eq_iff track_min_def)
  show ?thesis
    unfolding Heap_Block_allocate_def Let_def T(6,9) off m
    using T(3,8) by (simp add: taken_def T(6) Heap_Block_allocate_from_begin_def)
qed

text \<open>
  An address at least one page behind the first possible one: the front becomes a free block again, and the
  rest is split. The offset \<open>q\<close> of the address in its page does not matter.
\<close>

lemma Heap_Block_allocate_lower:
  assumes inv: "heap_inv h (xs @ (s, False) # ys) fl"
  defines "b \<equiv> first_block h + span xs"
  assumes place: "alloc_begin = b + 16 + k + q" "q < page_size h"
    and k: "page_size h dvd k" "min_block_size h \<le> k" "k + min_block_size h \<le> s"
  obtains hl fl' where
    "Heap_Block_allocate b alloc_begin alloc_size h = (upd_stats track_min (Heap_Block_split (b + k) (b + s) b alloc_size hl), b + k)"
    "claimed hl (xs @ [(k, False)]) (s - k) ys fl'" "b \<in> insert (free_list hl) (set fl')"
    "stats_ok (stats hl) ((xs @ [(k, False)]) @ (s - k, True) # ys) fl'"
    "first_block hl = first_block h" "page_size hl = page_size h" "min_block_size hl = min_block_size h"
proof -
  note T = taken_claimed [OF inv, folded b_def]
  then obtain fl1 where c: "claimed (taken h b) xs s ys fl1" and an: "prev h b \<in> insert (free_list (taken h b)) (set fl1)"
    and st: "stats_ok (stats (taken h b)) (xs @ (s, True) # ys) fl1" by auto
  have g: "geometry h" using inv by (simp add: heap_inv_def wf_heap_def)
  note gD = geometryD [OF g]
  have k': "min_block_size (taken h b) \<le> k" "k + min_block_size (taken h b) \<le> s" "page_size (taken h b) dvd k"
    using k T(4,5) by simp_all
  have lt: "b + k + 16 < UW" "b + 16 + (k + q) < UW" using T(8) k(3) place(2) gD(5) by simp_all
  have "page_size h dvd b + 16" using block_page [OF inv] by (simp add: b_def)
  then have "page_size h dvd (b + k) + 16" using k(1) by (metis dvd_add add.assoc add.commute)
  then have nb: "Heap_Block_of_alloc_area alloc_begin (page_size (taken h b)) = b + k"
    using block_of_area [of "page_size h" "b + k" q] place lt(1) T(4) by (simp add: algebra_simps)
  note E = Heap_Block_allocate_from_end_eq [OF c k', of alloc_begin "prev h b" alloc_size, unfolded T(2), folded b_def, OF T(6) nb]
  let ?hl = "lower_free b k s (prev h b) (taken h b)"
  note L = lower_free_ok [OF c k' an, unfolded T(2), folded b_def, OF T(6)]
  from L(1) obtain fl2 where c2: "claimed ?hl (xs @ [(k, False)]) (s - k) ys fl2" "set fl2 = insert b (set fl1)"
    "length fl2 = Suc (length fl1)" by blast
  have ks: "k \<le> s" using k(3) by simp
  have "free_total ((xs @ [(k, False)]) @ (s - k, True) # ys) < UW"
    using heap_inv_free_total_bound c2(1) unfolding claimed_def by blast
  then have st2: "stats_ok (stats ?hl) ((xs @ [(k, False)]) @ (s - k, True) # ys) fl2"
    using st c2(3) ks unfolding L(2) stats_ok_def by (simp add: uadd_id algebra_simps)
  have "\<not> k + q < page_size h" using k(2) gD(5) by simp
  then have "Heap_Block_allocate b alloc_begin alloc_size h = (upd_stats track_min (Heap_Block_split (b + k) (b + s) b alloc_size ?hl), b + k)"
    using Heap_Block_allocate_eq [OF inv, of alloc_begin "k + q" alloc_size, folded b_def] place(1) lt(2) E by simp
  then show thesis using that [OF _ c2(1) _ st2] c2(2) L(3,5,6) T(2,4,5) by simp
qed

text \<open>
  \<open>_Heap_Block_allocate\<close> on a free block: from its begin when the address is less than a page
  behind the first possible one, else from its end at a page boundary.
\<close>

lemma Heap_Block_allocate_free:
  assumes inv: "heap_inv h (xs @ (s, False) # ys) fl"
  defines "b \<equiv> first_block h + span xs"
  assumes place: "alloc_begin = b + 16 + k" "alloc_size + k + 16 \<le> s + 8"
    and page: "k < page_size h \<or> (page_size h dvd k \<and> min_block_size h \<le> k \<and> k + min_block_size h \<le> s)"
  shows "\<exists>bs1 u bs2 fl' nb. Heap_Block_allocate b alloc_begin alloc_size h = (fst (Heap_Block_allocate b alloc_begin alloc_size h), nb)
    \<and> heap_inv (fst (Heap_Block_allocate b alloc_begin alloc_size h)) (xs @ bs1 @ (u, True) # bs2 @ ys) fl'
    \<and> nb = b + span bs1 \<and> nb + 16 \<le> alloc_begin \<and> alloc_begin + alloc_size \<le> nb + u + 8
    \<and> alloc_begin < nb + 16 + page_size h
    \<and> used_at 0 bs1 = {} \<and> used_at 0 bs2 = {} \<and> span bs1 + u + span bs2 = s"
proof (cases "k < page_size h")
  case True
  note T = taken_claimed [OF inv, folded b_def]
  then obtain fl1 where c: "claimed (taken h b) xs s ys fl1" and an: "prev h b \<in> insert (free_list h) (set fl1)"
    and st: "stats_ok (stats (taken h b)) (xs @ (s, True) # ys) fl1" by blast
  have sum: "uadd alloc_size k = alloc_size + k" "b + 16 + k < UW" using place(2) T(8) by (simp_all add: uadd_id)
  from Heap_Block_split_inv [OF c place(2) _ st, of "prev h b"] an T(2,3) obtain bs' fl' u where
    "heap_inv (Heap_Block_split b (b + s) (prev h b) (alloc_size + k) (taken h b)) (xs @ (u, True) # bs' @ ys) fl'"
    "alloc_size + k + 16 \<le> u + 8" "u \<le> s" "used_at 0 bs' = {}" "span bs' = s - u"
    by (auto simp: b_def)
  then show ?thesis
    using Heap_Block_allocate_eq [OF inv, of alloc_begin k alloc_size, folded b_def] True place(1) sum
    by (intro exI [of _ "[]"] exI [of _ u] exI [of _ bs'] exI [of _ fl'] exI [of _ b]) simp
next
  case False
  then have k: "page_size h dvd k" "min_block_size h \<le> k" "k + min_block_size h \<le> s" using page by simp_all
  have pg: "0 < page_size h" using inv geometryD(1) by (auto simp: heap_inv_def wf_heap_def)
  have place0: "alloc_begin = b + 16 + k + 0" using place(1) by simp
  obtain hl fl2 where A: "Heap_Block_allocate b alloc_begin alloc_size h = (upd_stats track_min (Heap_Block_split (b + k) (b + s) b alloc_size hl), b + k)"
    "claimed hl (xs @ [(k, False)]) (s - k) ys fl2" "b \<in> insert (free_list hl) (set fl2)"
    "stats_ok (stats hl) ((xs @ [(k, False)]) @ (s - k, True) # ys) fl2" "first_block hl = first_block h"
    "page_size hl = page_size h" "min_block_size hl = min_block_size h"
    by (rule Heap_Block_allocate_lower [OF inv, where alloc_size = alloc_size, folded b_def, OF place0 pg k])
  have fit: "alloc_size + 16 \<le> s - k + 8" and ks: "k \<le> s" using place(2) k(3) by simp_all
  from Heap_Block_split_inv [OF A(2) fit A(3,4)] obtain bs' fl' u where
    "heap_inv (Heap_Block_split (b + k) (b + s) b alloc_size hl) ((xs @ [(k, False)]) @ (u, True) # bs' @ ys) fl'"
    "alloc_size + 16 \<le> u + 8" "u \<le> s - k" "used_at 0 bs' = {}" "span bs' = s - k - u"
    using ks A(5) by (auto simp: b_def add.assoc)
  then show ?thesis
    unfolding A(1) using place(1) ks pg
    by (intro exI [of _ "[(k, False)]"] exI [of _ u] exI [of _ bs'] exI [of _ fl'] exI [of _ "b + k"]) simp
qed

end
