(* ===== verification/Heap_Search.thy ===== *)
theory Heap_Search
  imports Heap_Alloc
begin

text \<open>
  The search of \<^verbatim>\<open>heapallocate.c\<close> ends, finds a block whenever one fits, and what it finds
  can be allocated. With the facts on the allocation of a block this gives the contract of
  \<open>_Heap_Allocate_aligned_with_boundary\<close>.
\<close>

section \<open>The boundary constraint\<close>

lemma align_down_spec:
  assumes "0 < m"
  shows "Heap_Align_down v m \<le> v" "m dvd Heap_Align_down v m" "v < Heap_Align_down v m + m"
    "m dvd w \<Longrightarrow> w \<le> v \<Longrightarrow> w \<le> Heap_Align_down v m"
proof -
  show "Heap_Align_down v m \<le> v" "m dvd Heap_Align_down v m"
    by (simp_all add: Heap_Align_down_def dvd_minus_mod)
  have "v mod m < m" using assms by simp
  then show "v < Heap_Align_down v m + m" by (simp add: Heap_Align_down_def)
  assume w: "m dvd w" "w \<le> v"
  have e: "Heap_Align_down v m = v div m * m" by (simp add: Heap_Align_down_def minus_mod_eq_div_mult)
  show "w \<le> Heap_Align_down v m"
    unfolding e using w assms by (metis dvd_div_mult_self div_le_mono mult_le_mono1)
qed

text \<open>No multiple of the boundary lies strictly inside the area.\<close>

definition not_crossing :: "nat \<Rightarrow> nat \<Rightarrow> nat \<Rightarrow> bool" where
  "not_crossing boundary p n \<longleftrightarrow> \<not> (\<exists>q. p < q \<and> q < p + n \<and> boundary dvd q)"

lemma not_crossing_line:
  assumes "0 < boundary" and "\<not> (p < Heap_Align_down (p + n) boundary \<and> Heap_Align_down (p + n) boundary < p + n)"
    and "n \<le> boundary"
  shows "not_crossing boundary p n"
proof -
  note A = align_down_spec [OF assms(1)]
  have False if q: "p < q" "q < p + n" "boundary dvd q" for q
  proof -
    have "q \<le> Heap_Align_down (p + n) boundary" using A(4) q by simp
    with assms(2) q A(1) [of "p + n"] have e: "Heap_Align_down (p + n) boundary = p + n" by linarith
    then have "boundary dvd p + n" using A(2) by metis
    then have "boundary dvd p + n - q" using q(3) by (rule dvd_diff_nat)
    moreover have "0 < p + n - q" using q(2) by simp
    ultimately have "boundary \<le> p + n - q" by (rule dvd_imp_le)
    with q assms(3) show False by linarith
  qed
  then show ?thesis by (auto simp: not_crossing_def)
qed

lemma boundary_loop_ok:
  assumes "0 < boundary" "0 < al" "n \<le> boundary" "al dvd p" "p + n < UW" "n \<le> fl"
  shows "\<exists>r. boundary_loop n al boundary fl p = Some r
    \<and> (r = 0 \<or> r \<le> p \<and> al dvd r \<and> not_crossing boundary r n)"
  using assms(4,5)
proof (induction p rule: less_induct)
  case (less p)
  define line where "line = Heap_Align_down (p + n) boundary"
  have e: "uadd p n = p + n" using less.prems by (simp add: uadd_id)
  note line = align_down_spec [OF assms(1), of "p + n", folded line_def]
  show ?case
  proof (cases "p < line \<and> line < p + n")
    case False
    then have "boundary_loop n al boundary fl p = Some p"
      by (subst boundary_loop.simps) (auto simp: Let_def e line_def)
    moreover have "not_crossing boundary p n"
      using False assms(1,3) unfolding line_def by (intro not_crossing_line)
    ultimately show ?thesis using less.prems by simp
  next
    case True
    note inside = this
    show ?thesis
    proof (cases "line < fl")
      case True
      with inside have "boundary_loop n al boundary fl p = Some 0"
        by (subst boundary_loop.simps) (simp add: Let_def e line_def)
      then show ?thesis by simp
    next
      case False
      then have nl: "n \<le> line" using assms(6) by simp
      have ul: "usub line n = line - n" using nl inside less.prems by (simp add: usub_id)
      define q where "q = Heap_Align_down (line - n) al"
      note Q = align_down_spec [OF assms(2), of "line - n", folded q_def]
      have "q < p" using Q(1) inside nl by linarith
      moreover have "q + n < UW" using \<open>q < p\<close> less.prems by simp
      ultimately obtain r where r: "boundary_loop n al boundary fl q = Some r"
        "r = 0 \<or> r \<le> q \<and> al dvd r \<and> not_crossing boundary r n"
        using less.IH [of q] Q(2) by blast
      have "boundary_loop n al boundary fl p = boundary_loop n al boundary fl q"
        using inside False
        by (subst boundary_loop.simps) (simp add: Let_def e ul line_def [symmetric] q_def)
      with r \<open>q < p\<close> show ?thesis by (intro exI [of _ r]) auto
    qed
  qed
qed

section \<open>A block that fits\<close>

text \<open>What the allocation of a block needs of the address that the search gives.\<close>

definition place_ok :: "heap \<Rightarrow> nat \<Rightarrow> nat \<Rightarrow> nat \<Rightarrow> nat \<Rightarrow> nat \<Rightarrow> nat \<Rightarrow> bool" where
  "place_ok h b s n al boundary p \<longleftrightarrow> b + 16 \<le> p \<and> p + n \<le> b + s + 8
     \<and> (p = b + 16 \<or> page_size h dvd p - (b + 16) \<and> min_block_size h \<le> p - (b + 16)
          \<and> p - (b + 16) + min_block_size h \<le> s)
     \<and> (al \<noteq> 0 \<longrightarrow> al dvd p) \<and> (boundary \<noteq> 0 \<longrightarrow> not_crossing boundary p n)"

lemma Heap_Check_block_ok:
  assumes g: "geometry h" and b: "b + s \<le> last_block h" "page_size h dvd b + 16"
    and s: "size_and_flag h b = s + 1" "page_size h dvd s" "min_block_size h \<le> s"
    and n: "n + 8 \<le> s" and al: "0 < al" "page_size h dvd al" and bd: "boundary \<noteq> 0 \<Longrightarrow> n \<le> boundary"
  shows "\<exists>p. Heap_Check_block h b n al boundary = Some p \<and> (p \<noteq> 0 \<longrightarrow> place_ok h b s n al boundary p)"
proof -
  note gD = geometryD [OF g]
  define pg where "pg = page_size h"
  define m where "m = min_block_size h"
  have pm: "0 < pg" "pg dvd m" "pg \<le> m" "32 \<le> m" "m \<le> s" "pg dvd s" "pg dvd al" "pg dvd b + 16"
    using gD s b al by (simp_all add: pg_def m_def)
  have lt: "b + s + 16 < UW" using b gD by simp
  have es: "Heap_Block_size h b = s"
    using s geometry_even [OF g s(2)] by (simp add: Heap_Block_size_def)
  define c where "c = b + s - m + 16 + pg - 1"
  have ceil: "usub (uadd (uadd (usub (uadd b s) m) HEAP_BLOCK_HEADER_SIZE) pg) 1 = c"
    using pm lt by (simp add: c_def heap_consts uadd_id usub_id)
  define a where "a = Heap_Align_down (b + s + 8 - n) al"
  define a' where "a' = (if a > c then Heap_Align_down c al else a)"
  note down = align_down_spec [OF al(1)]
  have a': "a' \<le> b + s + 8 - n" "a' \<le> c" "al dvd a'"
    using down [of "b + s + 8 - n"] down [of c] by (auto simp: a'_def a_def)
  have fl: "uadd b HEAP_BLOCK_HEADER_SIZE = b + 16" "uadd (b + 16) n = b + 16 + n"
    "uadd (uadd b s) HEAP_ALLOC_BONUS = b + s + 8" "usub (b + s + 8) n = b + s + 8 - n"
    using lt n by (simp_all add: heap_consts uadd_id usub_id)
  define r where "r = (if boundary \<noteq> 0 then boundary_loop n al boundary (b + 16 + n) a' else Some a')"
  have "\<exists>p. r = Some p \<and> (p = 0 \<or> p \<le> a' \<and> al dvd p \<and> (boundary \<noteq> 0 \<longrightarrow> not_crossing boundary p n))"
  proof (cases "boundary = 0")
    case True
    then show ?thesis using a' by (simp add: r_def)
  next
    case False
    have "a' + n < UW" using a' n lt by linarith
    from boundary_loop_ok [of boundary al n a' "b + 16 + n", OF _ al(1) bd a'(3) this] False
    show ?thesis by (simp add: r_def)
  qed
  then obtain p where p: "r = Some p" "p = 0 \<or> p \<le> a' \<and> al dvd p \<and> (boundary \<noteq> 0 \<longrightarrow> not_crossing boundary p n)"
    by blast
  have C: "Heap_Check_block h b n al boundary =
      (if b + 16 \<le> p then (let free_size = usub (Heap_Block_of_alloc_area p pg) b
           in if free_size \<ge> m \<or> free_size = 0 then Some p else Some 0) else Some 0)"
    unfolding Heap_Check_block_def Let_def es Heap_Alloc_area_of_block_def fl pg_def [symmetric] m_def [symmetric] ceil
      a_def [symmetric] a'_def [symmetric] r_def [symmetric] p(1) by simp
  show ?thesis
  proof (cases "b + 16 \<le> p")
    case False
    then show ?thesis unfolding C by simp
  next
    case True
    then have P: "p \<le> a'" "al dvd p" "boundary \<noteq> 0 \<longrightarrow> not_crossing boundary p n" using p(2) by auto
    define k where "k = p - (b + 16)"
    have pk: "p = b + 16 + k" using True by (simp add: k_def)
    have "pg dvd p" using P(2) pm(7) dvd_trans by blast
    then have kd: "pg dvd k" using pm(8) by (simp add: k_def)
    have fs: "usub (Heap_Block_of_alloc_area p pg) b = k"
      using \<open>pg dvd p\<close> P(1) a'(1) lt n
      by (simp add: Heap_Block_of_alloc_area_def Heap_Align_down_def heap_consts usub_id pk dvd_imp_mod_0)
    have fit: "p + n \<le> b + s + 8" using P(1) a'(1) n by linarith
    have kc: "k + m < s + pg" using P(1) a'(2) pm pk unfolding c_def by linarith
    have "pg dvd k + m" using kd pm(2) by simp
    then have ks: "k + m \<le> s"
      using kc pm(6) by (metis dvd_diff_nat dvd_imp_le le_diff_conv2 less_diff_conv2 linorder_not_less not_less_iff_gr_or_eq zero_less_diff le_add_diff_inverse nat_le_linear add.commute)
    show ?thesis
      unfolding C fs Let_def using True fit P kd ks
      by (auto simp: place_ok_def pg_def [symmetric] m_def [symmetric] pk)
  qed
qed

section \<open>The search\<close>

lemma addrs_split:
  "x \<in> addrs v a bs \<Longrightarrow> \<exists>xs s ys. bs = xs @ (s, v) # ys \<and> x = a + span xs"
proof (induction bs arbitrary: a rule: span.induct)
  case (2 s u bs)
  show ?case
  proof (cases "u = v \<and> x = a")
    case True
    then show ?thesis by (intro exI [of _ "[]"]) simp
  next
    case False
    with 2(2) have "x \<in> addrs v (a + s) bs" by (auto split: if_splits)
    from "2.IH" [OF this] obtain xs t ys where "bs = xs @ (t, v) # ys" "x = a + s + span xs" by blast
    then show ?thesis by (intro exI [of _ "(s, u) # xs"]) simp
  qed
qed simp

lemma wf_heap_page:
  assumes "wf_heap h (xs @ ys) fl"
  shows "page_size h dvd first_block h + span xs + 16"
proof -
  obtain pm where "seg h (first_block h) True xs (first_block h + span xs) pm"
    using assms unfolding wf_heap_def seg_append by blast
  then have "page_size h dvd span xs" by (rule seg_page)
  moreover have "page_size h dvd first_block h + 16" using assms by (simp add: wf_heap_def geometry_def)
  ultimately have "page_size h dvd span xs + (first_block h + 16)" by (rule dvd_add)
  then show ?thesis by (simp add: algebra_simps)
qed

text \<open>What the search does with one block of the free list.\<close>

definition candidate :: "heap \<Rightarrow> nat \<Rightarrow> nat \<Rightarrow> nat \<Rightarrow> nat \<Rightarrow> nat option" where
  "candidate h n al boundary b =
     (if size_and_flag h b > n + 8
      then if al = 0 then Some (Heap_Alloc_area_of_block b) else Heap_Check_block h b n al boundary
      else Some 0)"

definition valid_request :: "heap \<Rightarrow> nat \<Rightarrow> nat \<Rightarrow> nat \<Rightarrow> bool" where
  "valid_request h n al boundary \<longleftrightarrow> (al = 0 \<or> page_size h dvd al) \<and> (boundary \<noteq> 0 \<longrightarrow> al \<noteq> 0 \<and> n \<le> boundary)"

lemma candidate_ok:
  assumes wf: "wf_heap h bs fl" and x: "x \<in> set fl" and r: "valid_request h n al boundary"
  obtains xs s ys p where "bs = xs @ (s, False) # ys" "x = first_block h + span xs" "size_and_flag h x = s + 1"
    "candidate h n al boundary x = Some p" "p \<noteq> 0 \<longrightarrow> place_ok h x s n al boundary p"
    "al = 0 \<Longrightarrow> n + 8 \<le> s \<Longrightarrow> p \<noteq> 0" "x \<noteq> free_list h"
proof -
  have "x \<in> addrs False (first_block h) bs" using wf x by (simp add: wf_heap_def)
  then obtain xs s ys where bs: "bs = xs @ (s, False) # ys" and b: "x = first_block h + span xs"
    using addrs_split by blast
  obtain pm where B: "geometry h" "min_block_size h \<le> s" "page_size h dvd s" "even s" "size_and_flag h x = s + of_bool pm"
    "pm \<or> False" "x + s \<le> last_block h" "first_block h \<le> x"
    using wf_heap_block [OF wf [unfolded bs]] unfolding b by metis
  have sf: "size_and_flag h x = s + 1" using B(5,6) by simp
  have lt: "x + s + 16 < UW" using B(7) geometryD(8) [OF B(1)] by simp
  have nf: "x \<noteq> free_list h" using B(1,7,8) by (auto simp: geometry_def)
  have pg: "page_size h dvd x + 16" using wf_heap_page [OF wf [unfolded bs]] b by simp
  have a: "Heap_Alloc_area_of_block x = x + 16" using lt by (simp add: Heap_Alloc_area_of_block_def heap_consts uadd_id)
  have "\<exists>p. candidate h n al boundary x = Some p \<and> (p \<noteq> 0 \<longrightarrow> place_ok h x s n al boundary p)
      \<and> (al = 0 \<longrightarrow> n + 8 \<le> s \<longrightarrow> p \<noteq> 0)"
  proof (cases "n + 8 \<le> s")
    case False
    then show ?thesis by (auto simp: candidate_def sf)
  next
    case True
    show ?thesis
    proof (cases "al = 0")
      case al: True
      then show ?thesis using True r by (auto simp: candidate_def sf a place_ok_def valid_request_def)
    next
      case False
      then have "0 < al" "page_size h dvd al" "boundary \<noteq> 0 \<Longrightarrow> n \<le> boundary"
        using r by (auto simp: valid_request_def)
      from Heap_Check_block_ok [OF B(1,7) pg sf B(3,2) True this] True False show ?thesis
        by (simp add: candidate_def sf)
    qed
  qed
  then show thesis using that bs b sf nf by blast
qed

lemma Heap_search_step:
  assumes "x \<noteq> free_list h" and "candidate h n al boundary x = Some p"
  shows "Heap_search h n al boundary (n + 8) x c =
    (if p \<noteq> 0 then Some (x, p, inc32 c) else Heap_search h n al boundary (n + 8) (next h x) (inc32 c))"
  using assms by (subst Heap_search.simps) (simp add: candidate_def split del: if_split)

text \<open>The search returns; it gives up only after every block of the free list was looked at.\<close>

lemma Heap_search_ok:
  assumes wf: "wf_heap h bs (l1 @ l2)" and r: "valid_request h n al boundary"
  shows "\<exists>x p c'. Heap_search h n al boundary (n + 8) (hd (l2 @ [free_list h])) c = Some (x, p, c')
    \<and> (p \<noteq> 0 \<longrightarrow> x \<in> set l2 \<and> candidate h n al boundary x = Some p)
    \<and> (p = 0 \<longrightarrow> (\<forall>y \<in> set l2. candidate h n al boundary y = Some 0))"
  using wf
proof (induction l2 arbitrary: l1 c)
  case Nil
  show ?case by (subst Heap_search.simps) simp
next
  case (Cons y l2)
  have y: "y \<in> set (l1 @ y # l2)" by simp
  obtain p where p: "candidate h n al boundary y = Some p" "y \<noteq> free_list h"
    using candidate_ok [OF Cons.prems y r] by metis
  note step = Heap_search_step [OF p(2,1)]
  show ?case
  proof (cases "p = 0")
    case False
    with p step show ?thesis by simp
  next
    case True
    obtain m r where mr: "l2 @ [free_list h] = m # r" by (cases l2) auto
    have "dlist (next h) (prev h) ((free_list h # l1) @ y # m # r)"
      using Cons.prems mr by (simp add: wf_heap_def)
    then have "next h y = hd (l2 @ [free_list h])" unfolding dlist_parts mr by simp
    then have e: "Heap_search h n al boundary (n + 8) (hd ((y # l2) @ [free_list h])) c
        = Heap_search h n al boundary (n + 8) (hd (l2 @ [free_list h])) (inc32 c)"
      using step True by simp
    have "wf_heap h bs ((l1 @ [y]) @ l2)" using Cons.prems by simp
    from Cons.IH [OF this, of "inc32 c"] show ?thesis
      unfolding e using True p(1) by (elim exE conjE) (intro exI conjI, assumption, auto)
  qed
qed

section \<open>The contract of the allocation\<close>

lemma control_Heap_Block_split [simp]: "control (Heap_Block_split b n anchor k h) = control h"
  by (simp add: Heap_Block_split_def split_free_def Heap_Block_set_size_def Let_def)

lemma control_Heap_Block_allocate [simp]: "control (fst (Heap_Block_allocate b p n h)) = control h"
  by (auto simp: Heap_Block_allocate_def Heap_Block_allocate_from_begin_def Heap_Block_allocate_from_end_def
      Let_def split: prod.splits if_splits)

lemma size_floor: "usub (uadd n HEAP_BLOCK_HEADER_SIZE) HEAP_ALLOC_BONUS = (n + 8) mod UW"
proof -
  have "usub (uadd n 16) 8 = (n + 16 + (UW - 8)) mod UW"
    unfolding usub_def uadd_def mod_add_left_eq by (simp add: UW_def)
  also have "n + 16 + (UW - 8) = n + 8 + UW" by (simp add: UW_def)
  finally show ?thesis by (simp add: heap_consts)
qed

lemma size_floor_cases:
  assumes "n < UW"
  shows "(n + 8) mod UW < n \<longleftrightarrow> UW \<le> n + 8" "\<not> UW \<le> n + 8 \<Longrightarrow> (n + 8) mod UW = n + 8"
proof -
  have "(n + 8) mod UW = n + 8 - UW" if "UW \<le> n + 8"
    using that assms by (simp add: mod_if UW_def)
  moreover have "n + 8 - UW < n" if "UW \<le> n + 8" using that by (simp add: UW_def)
  ultimately show "(n + 8) mod UW < n \<longleftrightarrow> UW \<le> n + 8"
    by (cases "UW \<le> n + 8") simp_all
  show "\<not> UW \<le> n + 8 \<Longrightarrow> (n + 8) mod UW = n + 8" by simp
qed

lemma used_at_range:
  "(a, s) \<in> used_at x bs \<Longrightarrow> x \<le> a \<and> a + s \<le> x + span bs"
  by (induction bs arbitrary: x rule: span.induct) (auto split: if_splits, fastforce+)

lemma used_at_disjoint:
  assumes "(a, s) \<in> used_at x (xs @ (t, u) # ys)" and "(a, s) \<in> used_at x xs \<or> (a, s) \<in> used_at (x + span xs + t) ys"
  shows "a + s \<le> x + span xs \<or> x + span xs + t \<le> a"
  using assms(2) used_at_range [of a s x xs] used_at_range [of a s "x + span xs + t" ys] by auto

text \<open>
  The memory that an allocation of \<open>n\<close> bytes at \<open>p\<close> gives to the caller lies in a block \<open>(b, u)\<close>:
  behind the header of the block, and it may reach into the first field of the next block.
\<close>

definition area_in :: "nat \<Rightarrow> nat \<Rightarrow> nat \<times> nat \<Rightarrow> bool" where
  "area_in p n blk \<longleftrightarrow> fst blk + HEAP_BLOCK_HEADER_SIZE \<le> p \<and> p + n \<le> fst blk + snd blk + HEAP_ALLOC_BONUS"

definition address_of :: "heap \<Rightarrow> nat \<Rightarrow> nat \<times> nat \<Rightarrow> bool" where
  "address_of h p blk \<longleftrightarrow> fst blk + HEAP_BLOCK_HEADER_SIZE \<le> p \<and> p < fst blk + HEAP_BLOCK_HEADER_SIZE + page_size h"

definition apart :: "nat \<times> nat \<Rightarrow> nat \<times> nat \<Rightarrow> bool" where
  "apart x y \<longleftrightarrow> fst x + snd x \<le> fst y \<or> fst y + snd y \<le> fst x"

definition allocated :: "heap \<Rightarrow> block_list \<Rightarrow> (nat \<times> nat) set" where
  "allocated h bs = used_at (first_block h) bs"

lemma Heap_Block_allocate_place:
  assumes inv: "heap_inv h (xs @ (s, False) # ys) fl"
  defines "b \<equiv> first_block h + span xs"
  assumes place: "place_ok h b s n al boundary p"
  obtains h' nb u bs' fl' where "Heap_Block_allocate b p n h = (h', nb)" "heap_inv h' bs' fl'"
    "first_block h' = first_block h"
    "used_at (first_block h) bs' = insert (nb, u) (used_at (first_block h) (xs @ (s, False) # ys))"
    "area_in p n (nb, u)" "\<forall>blk \<in> used_at (first_block h) (xs @ (s, False) # ys). apart blk (nb, u)"
    "address_of h p (nb, u)"
proof -
  define k where "k = p - (b + 16)"
  have g: "geometry h" using inv by (simp add: heap_inv_def wf_heap_def)
  have pk: "p = b + 16 + k" "n + k + 16 \<le> s + 8"
    using place unfolding place_ok_def k_def by linarith+
  have "k < page_size h \<or> (page_size h dvd k \<and> min_block_size h \<le> k \<and> k + min_block_size h \<le> s)"
    using place geometryD(1) [OF g] by (auto simp: place_ok_def k_def)
  from Heap_Block_allocate_free [OF inv, folded b_def, OF pk this] obtain bs1 u bs2 fl' nb where
    A: "Heap_Block_allocate b p n h = (fst (Heap_Block_allocate b p n h), nb)"
      "heap_inv (fst (Heap_Block_allocate b p n h)) (xs @ bs1 @ (u, True) # bs2 @ ys) fl'"
      "nb = b + span bs1" "nb + 16 \<le> p" "p + n \<le> nb + u + 8" "p < nb + 16 + page_size h" "used_at 0 bs1 = {}" "used_at 0 bs2 = {}"
      "span bs1 + u + span bs2 = s"
    by blast
  have nu: "used_at x bs1 = {}" "used_at x bs2 = {}" for x using A(7,8) used_at_shift by blast+
  have s: "b + s = nb + u + span bs2" using A(3,9) by simp
  have apart: "apart (a, t) (nb, u)" if "(a, t) \<in> used_at (first_block h) (xs @ (s, False) # ys)" for a t
  proof -
    from that consider "(a, t) \<in> used_at (first_block h) xs" | "(a, t) \<in> used_at (b + s) ys"
      by (auto simp: b_def)
    then show ?thesis
    proof cases
      case 1
      from used_at_range [OF this] A(3) show ?thesis by (simp add: apart_def b_def)
    next
      case 2
      from used_at_range [OF this] s show ?thesis by (simp add: apart_def)
    qed
  qed
  show thesis
  proof (rule that [OF A(1,2)])
    show "first_block (fst (Heap_Block_allocate b p n h)) = first_block h"
      using control_Heap_Block_allocate [of b p n h] by (simp add: control_def)
    show "used_at (first_block h) (xs @ bs1 @ (u, True) # bs2 @ ys)
        = insert (nb, u) (used_at (first_block h) (xs @ (s, False) # ys))"
      using s A(3) by (auto simp: nu b_def add.assoc)
    show "area_in p n (nb, u)" using A(4,5) by (simp add: area_in_def heap_consts)
    show "\<forall>blk \<in> used_at (first_block h) (xs @ (s, False) # ys). apart blk (nb, u)"
      using apart by auto
    show "address_of h p (nb, u)" using A(4,6) by (simp add: address_of_def heap_consts)
  qed
qed

definition normal_alignment :: "heap \<Rightarrow> nat \<Rightarrow> nat \<Rightarrow> nat" where
  "normal_alignment h al boundary = (if boundary \<noteq> 0 \<and> al = 0 then page_size h else al)"

lemma heap_inv_counts [simp]:
  "heap_inv (upd_stats (\<lambda>s. s\<lparr>st_allocs := a s, st_searches := b s, st_lifetime_allocated := c s\<rparr>) h) bs fl
     = heap_inv h bs fl"
  "heap_inv (upd_stats (\<lambda>s. s\<lparr>st_failed_allocs := a s\<rparr>) h) bs fl = heap_inv h bs fl"
  "heap_inv (upd_stats (\<lambda>s. if P s then s\<lparr>st_max_search := a s\<rparr> else s) h) bs fl = heap_inv h bs fl"
  "heap_inv (upd_stats (\<lambda>s. s\<lparr>st_resizes := a s\<rparr>) h) bs fl = heap_inv h bs fl"
  by (simp_all add: heap_inv_def stats_ok_def)

text \<open>The states that stand for a set of allocated blocks.\<close>

definition heap_rel :: "heap \<Rightarrow> (nat \<times> nat) set \<Rightarrow> bool" where
  "heap_rel h B \<longleftrightarrow> (\<exists>bs fl. heap_inv h bs fl \<and> B = allocated h bs)"

lemma heap_relI: "heap_inv h bs fl \<Longrightarrow> allocated h bs = B \<Longrightarrow> heap_rel h B"
  by (auto simp: heap_rel_def)

lemma Heap_Allocate_found:
  assumes inv: "heap_inv h bs fl" and r: "valid_request h n al boundary" and x: "x \<in> set fl"
    and c: "candidate h n al boundary x = Some p" and p: "p \<noteq> 0"
  obtains h' nb u where "Heap_Block_allocate x p n h = (h', nb)" "heap_rel h' (insert (nb, u) (allocated h bs))"
    "area_in p n (nb, u)" "\<forall>blk \<in> allocated h bs. apart blk (nb, u)"
    "al \<noteq> 0 \<longrightarrow> al dvd p" "boundary \<noteq> 0 \<longrightarrow> not_crossing boundary p n" "control h' = control h"
    "address_of h p (nb, u)"
proof -
  have wf: "wf_heap h bs fl" using inv by (simp add: heap_inv_def)
  obtain xs s ys p' where B: "bs = xs @ (s, False) # ys" "x = first_block h + span xs"
    "candidate h n al boundary x = Some p'" "p' \<noteq> 0 \<longrightarrow> place_ok h x s n al boundary p'"
    using candidate_ok [OF wf x r] by metis
  then have place: "place_ok h x s n al boundary p" using c p by simp
  obtain h' nb u bs' fl' where A: "Heap_Block_allocate x p n h = (h', nb)" "heap_inv h' bs' fl'"
    "first_block h' = first_block h"
    "used_at (first_block h) bs' = insert (nb, u) (used_at (first_block h) (xs @ (s, False) # ys))"
    "area_in p n (nb, u)" "\<forall>blk \<in> used_at (first_block h) (xs @ (s, False) # ys). apart blk (nb, u)"
    "address_of h p (nb, u)"
    using Heap_Block_allocate_place [OF inv [unfolded B(1)], folded B(2), OF place] by metis
  have "allocated h' bs' = insert (nb, u) (allocated h bs)"
    unfolding allocated_def A(3) A(4) B(1) ..
  with A(2) have "heap_rel h' (insert (nb, u) (allocated h bs))" unfolding heap_rel_def by metis
  moreover have "al \<noteq> 0 \<longrightarrow> al dvd p" "boundary \<noteq> 0 \<longrightarrow> not_crossing boundary p n"
    using place by (simp_all add: place_ok_def)
  moreover have "control h' = control h" using control_Heap_Block_allocate [of x p n h] A(1) by simp
  ultimately show thesis
    using that [of h' nb u] A(1,5,6,7) B(1) unfolding allocated_def by blast
qed

lemma heap_rel_upd_stats:
  "(\<And>bs fl. heap_inv (upd_stats f h) bs fl = heap_inv h bs fl) \<Longrightarrow> heap_rel (upd_stats f h) B = heap_rel h B"
  by (simp add: heap_rel_def allocated_def)

lemmas heap_rel_stats [simp] = heap_rel_upd_stats [OF heap_inv_counts(1)] heap_rel_upd_stats [OF heap_inv_counts(2)]
  heap_rel_upd_stats [OF heap_inv_counts(3)] heap_rel_upd_stats [OF heap_inv_counts(4)]

lemma size_beyond_heap:
  assumes "wf_heap h bs fl" and "(s, u) \<in> set bs" and "UW \<le> n + 8"
  shows "u \<or> s < n + 8"
proof -
  obtain xs ys where "bs = xs @ (s, u) # ys" using assms(2) by (auto simp: in_set_conv_decomp)
  then have "span bs \<ge> s" by simp
  moreover have "span bs < UW" using wf_heap_last [OF assms(1)] assms(1) geometryD(8) [of h] by (auto simp: wf_heap_def)
  ultimately show ?thesis using assms(3) by simp
qed

lemma no_candidate_small:
  assumes wf: "wf_heap h bs fl" and A: "A = normal_alignment h 0 0" and r: "valid_request h n A 0"
    and none: "\<forall>y \<in> set fl. candidate h n A 0 y = Some 0" and m: "(s, u) \<in> set bs"
  shows "u \<or> s < n + 8"
proof (rule ccontr)
  assume no: "\<not> (u \<or> s < n + 8)"
  from m no obtain xs ys where bs: "bs = xs @ (s, False) # ys" by (auto simp: in_set_conv_decomp)
  let ?y = "first_block h + span xs"
  have y: "?y \<in> set fl" using wf bs by (simp add: wf_heap_def)
  obtain pm where "size_and_flag h ?y = s + of_bool pm" "pm \<or> False"
    using wf_heap_block [OF wf [unfolded bs]] by metis
  then have big: "size_and_flag h ?y > n + 8" using no by simp
  obtain s' p' where "candidate h n A 0 ?y = Some p'" "size_and_flag h ?y = s' + 1" "A = 0 \<Longrightarrow> n + 8 \<le> s' \<Longrightarrow> p' \<noteq> 0"
    using candidate_ok [OF wf y r] by metis
  then show False using none y big A by (simp add: normal_alignment_def)
qed

lemma Heap_Allocate_returns:
  assumes inv: "heap_inv h bs fl" and n: "n < UW"
    and al: "al = 0 \<or> page_size h dvd al"
  shows "\<exists>h' p. Heap_Allocate_aligned_with_boundary h n al boundary = Some (h', p) \<and> control h' = control h
    \<and> (p = 0 \<longrightarrow> heap_inv h' bs fl \<and> (al = 0 \<and> boundary = 0 \<longrightarrow> (\<forall>(s, u) \<in> set bs. u \<or> s < n + 8)))
    \<and> (p \<noteq> 0 \<longrightarrow> (\<exists>blk. heap_rel h' (insert blk (allocated h bs)) \<and> area_in p n blk
         \<and> address_of h p blk \<and> (\<forall>blk' \<in> allocated h bs. apart blk' blk) \<and> (al \<noteq> 0 \<longrightarrow> al dvd p)
         \<and> (boundary \<noteq> 0 \<longrightarrow> not_crossing boundary p n)))"
proof -
  have wf: "wf_heap h bs fl" using inv by (simp add: heap_inv_def)
  define A where "A = normal_alignment h al boundary"
  show ?thesis
  proof (cases "UW \<le> n + 8 \<or> (boundary \<noteq> 0 \<and> boundary < n)")
    case True
    then have "Heap_Allocate_aligned_with_boundary h n al boundary = Some (h, 0)"
      unfolding Heap_Allocate_aligned_with_boundary_def Let_def size_floor size_floor_cases(1) [OF n] by auto
    then show ?thesis using inv size_beyond_heap [OF wf] True by auto
  next
    case False
    then have fl: "(n + 8) mod UW = n + 8" "\<not> (n + 8) mod UW < n" "\<not> (boundary \<noteq> 0 \<and> boundary < n)"
      using size_floor_cases [OF n] by auto
    have grow: "\<not> n + 8 < n" by simp
    have r: "valid_request h n A boundary"
      using al fl(3) geometryD(1) [of h] wf
      by (auto simp: valid_request_def A_def normal_alignment_def wf_heap_def)
    have first: "Heap_Free_list_first h = hd (fl @ [free_list h])"
      using wf by (cases fl) (auto simp: wf_heap_def dlist_def Heap_Free_list_first_def)
    from Heap_search_ok [of h bs "[]" fl n A boundary 0] wf r obtain x p c where
      S: "Heap_search h n A boundary (n + 8) (Heap_Free_list_first h) 0 = Some (x, p, c)"
        "p \<noteq> 0 \<longrightarrow> x \<in> set fl \<and> candidate h n A boundary x = Some p"
        "p = 0 \<longrightarrow> (\<forall>y \<in> set fl. candidate h n A boundary y = Some 0)"
      unfolding first by auto
    let ?M = "\<lambda>s. if st_max_search s < c then s\<lparr>st_max_search := c\<rparr> else s"
    let ?F = "\<lambda>s. s\<lparr>st_failed_allocs := inc32 (st_failed_allocs s)\<rparr>"
    let ?A = "\<lambda>h'' nb s. s\<lparr>st_allocs := inc32 (st_allocs s), st_searches := (st_searches s + c) mod 2 ^ 32,
                  st_lifetime_allocated := uadd (st_lifetime_allocated s) (Heap_Block_size h'' nb)\<rparr>"
    have E: "Heap_Allocate_aligned_with_boundary h n al boundary = Some (upd_stats ?M
        (if p \<noteq> 0 then (let (h'', nb) = Heap_Block_allocate x p n h in upd_stats (?A h'' nb) h'')
         else upd_stats ?F h), p)"
      unfolding Heap_Allocate_aligned_with_boundary_def Let_def size_floor fl(1) A_def [unfolded normal_alignment_def, symmetric] S(1)
        if_not_P [OF grow] if_not_P [OF fl(3)] option.case prod.case ..
    show ?thesis
    proof (cases "p = 0")
      case True
      have "u \<or> s < n + 8" if "al = 0" "boundary = 0" "(s, u) \<in> set bs" for s u
        by (rule no_candidate_small [OF wf, of A n]) (use that S(3) r True in \<open>auto simp: A_def\<close>)
      then show ?thesis unfolding E using True inv by (auto split del: if_split)
    next
      case False
      then have x: "x \<in> set fl" "candidate h n A boundary x = Some p" using S(2) by auto
      obtain h' nb u where H: "Heap_Block_allocate x p n h = (h', nb)" "heap_rel h' (insert (nb, u) (allocated h bs))"
        "area_in p n (nb, u)" "\<forall>blk \<in> allocated h bs. apart blk (nb, u)"
        "A \<noteq> 0 \<longrightarrow> A dvd p" "boundary \<noteq> 0 \<longrightarrow> not_crossing boundary p n" "control h' = control h"
    "address_of h p (nb, u)"
        using Heap_Allocate_found [OF inv r x False] .
      have "al \<noteq> 0 \<longrightarrow> al dvd p" using H(5) by (auto simp: A_def normal_alignment_def split: if_splits)
      moreover have "heap_rel (upd_stats ?M (upd_stats (?A h' nb) h')) (insert (nb, u) (allocated h bs))"
        using H(2) by simp
      ultimately show ?thesis unfolding E using False H
        by (intro exI [of _ "upd_stats ?M (upd_stats (?A h' nb) h')"] exI [of _ p]) (auto split del: if_split)
    qed
  qed
qed

end
