(* ===== verification/Heap_Release.thy ===== *)
theory Heap_Release
  imports Heap_Search
begin

text \<open>
  \<open>_Heap_Free\<close> gives a block back: the four ways in which it is joined with its neighbours are
  one change of the layout, after which the heap is well-formed and has lost exactly that
  used block.
\<close>

section \<open>Joining blocks\<close>

lemma seg_span_min: "seg h a pu ms e eu \<Longrightarrow> ms \<noteq> [] \<Longrightarrow> min_block_size h \<le> span ms"
  by (cases ms) auto

lemma join_ok:
  assumes wf: "wf_heap h (xs @ ms @ ys) fl" and ms: "ms \<noteq> []"
  defines "a \<equiv> first_block h + span xs"
  defines "n \<equiv> a + span ms"
  assumes pre: "seg h (first_block h) True xs a True"
    and ctl: "control h' = control h"
    and sf: "size_and_flag h' = (size_and_flag h)(a := span ms + 1, n := clear_flag (size_and_flag h n))"
    and ps: "prev_size h' = (prev_size h)(n := span ms)"
    and ys: "ys \<noteq> [] \<Longrightarrow> snd (hd ys)"
    and ring: "free_ring h' fl'"
    and fl': "set fl' = addrs False (first_block h) (xs @ (span ms, False) # ys)"
  shows "wf_heap h' (xs @ (span ms, False) # ys) fl'"
proof -
  obtain pm em where m: "seg h a pm ms n em"
    using wf_heap_middle [OF wf] unfolding a_def n_def by blast
  have g: "geometry h" using wf by (simp add: wf_heap_def)
  have same: "page_size h' = page_size h" "min_block_size h' = min_block_size h"
      "first_block h' = first_block h" "last_block h' = last_block h" "free_list h' = free_list h"
    using ctl by (simp_all add: control_def)
  have big: "min_block_size h \<le> span ms" "page_size h dvd span ms"
    using seg_span_min [OF m ms] seg_page [OF m] by auto
  then have an: "a < n" "0 < span ms" using geometryD(6) [OF g] by (simp_all add: n_def)
  have "wf_heap h' (xs @ [(span ms, False)] @ ys) fl'"
  proof (rule wf_heap_replace [OF wf, where pm = True])
    show "seg h' (first_block h + span xs) True [(span ms, False)] (first_block h + span xs + span ms) False"
      using an big by (simp add: same sf ps a_def [symmetric] n_def [symmetric])
    show "size_and_flag h' (first_block h + span xs + span ms)
        = clear_flag (size_and_flag h (first_block h + span xs + span ms)) + of_bool False"
      by (simp add: sf a_def n_def)
    show "dlist (next h') (prev h') (free_list h # fl' @ [free_list h])" using ring same by simp
  qed (use pre same an ys fl' in \<open>auto simp: sf ps a_def n_def\<close>)
  then show ?thesis by simp
qed

section \<open>The neighbours of a used block\<close>

lemma flag_of_next:
  assumes wf: "wf_heap h (xs @ (s, u) # ys) fl"
  defines "b \<equiv> first_block h + span xs"
  shows "Heap_Is_prev_used h (b + s) = u" "Heap_Block_size h b = s" "Heap_Block_at b s = b + s"
    "b + s \<le> last_block h" "ys = [] \<longleftrightarrow> b + s = last_block h" "first_block h \<le> b"
proof -
  obtain pm lu where B: "geometry h" "even s" "size_and_flag h b = s + of_bool pm"
    "seg h (b + s) u ys (last_block h) lu"
    "\<exists>t. even t \<and> size_and_flag h (b + s) = t + of_bool u
      \<and> (ys = [] \<longrightarrow> t = usub (first_block h) (last_block h)) \<and> (ys \<noteq> [] \<longrightarrow> t = fst (hd ys))"
    "b + s \<le> last_block h" "first_block h \<le> b"
    using wf_heap_block [OF wf] unfolding b_def by metis
  show "Heap_Is_prev_used h (b + s) = u" using B(5) by (auto simp: Heap_Is_prev_used_def)
  show "Heap_Block_size h b = s" using B(2,3) by (simp add: Heap_Block_size_def)
  show "b + s \<le> last_block h" "first_block h \<le> b" by fact+
  then show "Heap_Block_at b s = b + s" using geometryD(8) [OF B(1)] by (simp add: Heap_Block_at_def uadd_id)
  have "span ys \<noteq> 0" if "ys \<noteq> []"
    using seg_span_min [OF B(4) that] geometryD(6) [OF B(1)] by simp
  then show "ys = [] \<longleftrightarrow> b + s = last_block h"
    using seg_end [OF B(4)] by (cases "ys = []") auto
qed

lemma flag_of_block:
  assumes wf: "wf_heap h (xs @ (s, u) # ys) fl"
  shows "Heap_Is_prev_used h (first_block h + span xs) \<longleftrightarrow> xs = [] \<or> snd (last xs)"
    and "seg h (first_block h) True xs (first_block h + span xs) (xs = [] \<or> snd (last xs))"
proof -
  obtain pm where B: "seg h (first_block h) True xs (first_block h + span xs) pm" "even s"
      "size_and_flag h (first_block h + span xs) = s + of_bool pm"
    using wf_heap_block [OF wf] by metis
  have pm: "pm = (xs = [] \<or> snd (last xs))"
  proof (cases xs rule: rev_cases)
    case Nil
    then show ?thesis using B(1) by simp
  next
    case (snoc zs z)
    then show ?thesis using B(1) by (cases z) (auto simp: seg_append)
  qed
  show "Heap_Is_prev_used h (first_block h + span xs) \<longleftrightarrow> xs = [] \<or> snd (last xs)"
    using B(2,3) pm by (simp add: Heap_Is_prev_used_def)
  show "seg h (first_block h) True xs (first_block h + span xs) (xs = [] \<or> snd (last xs))"
    using B(1) pm by simp
qed

lemma next_is_free_iff:
  assumes wf: "wf_heap h (xs @ (s, u) # ys) fl"
  defines "n \<equiv> first_block h + span xs + s"
  shows "(n \<noteq> last_block h \<and> \<not> Heap_Is_prev_used h (Heap_Block_at n (Heap_Block_size h n)))
    \<longleftrightarrow> (ys \<noteq> [] \<and> \<not> snd (hd ys))"
proof (cases ys)
  case Nil
  then show ?thesis using flag_of_next(5) [OF wf] by (simp add: n_def)
next
  case (Cons y zs)
  obtain t v where y: "y = (t, v)" by (cases y)
  have wf2: "wf_heap h ((xs @ [(s, u)]) @ (t, v) # zs) fl" using wf Cons y by simp
  note N = flag_of_next [OF wf2]
  have n: "first_block h + span (xs @ [(s, u)]) = n" by (simp add: n_def add.assoc)
  show ?thesis
    using N(1-3) flag_of_next(5) [OF wf] unfolding n Cons y by (simp add: n_def)
qed

section \<open>Coalescing\<close>

text \<open>The layout and the free list after \<open>free_coalesce\<close> in its four cases.\<close>

definition released :: "heap \<Rightarrow> heap \<Rightarrow> block_list \<Rightarrow> nat list \<Rightarrow> nat \<Rightarrow> bool" where
  "released h h' bs' fl d \<longleftrightarrow> control h' = control h \<and> (\<exists>fl'. wf_heap h' bs' fl' \<and> length fl' + d = length fl + 1)"

lemma coalesce_prev_next:
  fixes f :: "heap_stats \<Rightarrow> heap_stats"
  assumes wf: "wf_heap h ((xs @ [(ps, False)]) @ (s, True) # (t, False) # zs) fl"
  defines "a \<equiv> first_block h + span xs"
  defines "z \<equiv> ps + s + t"
  defines "h' \<equiv> set_prev_size (a + z) z (set_size_and_flag a (z + 1)
     (upd_stats f (Heap_Free_list_remove (a + ps + s) h)))"
  shows "released h h' (xs @ (z, False) # zs) fl 2"
proof -
  let ?ms = "[(ps, False), (s, True), (t, False)]"
  have wf': "wf_heap h (xs @ ?ms @ zs) fl" using wf by simp
  have wfp: "wf_heap h (xs @ (ps, False) # (s, True) # (t, False) # zs) fl"
    and wft: "wf_heap h ((xs @ [(ps, False), (s, True)]) @ (t, False) # zs) fl" using wf by simp_all
  obtain pm where P: "seg h (first_block h) True xs a pm" "pm \<or> False" "geometry h"
    using wf_heap_block [OF wfp] unfolding a_def by metis
  have zs: "zs \<noteq> [] \<Longrightarrow> snd (hd zs)" using wf_heap_block [OF wft] by metis
  have sp: "span ?ms = z" "first_block h + span (xs @ [(ps, False), (s, True)]) = a + ps + s"
    by (simp_all add: z_def a_def add.assoc)
  have pos: "0 < ps" "0 < s" "0 < t" using wf P(3) geometryD(6) [OF P(3)] by (auto simp: wf_heap_def seg_append)
  have fl: "set fl = addrs False (first_block h) (xs @ ?ms @ zs)" and ring: "free_ring h fl"
    using wf' by (simp_all add: wf_heap_def)
  have mem: "a + ps + s \<in> set fl" using fl by (simp add: a_def add.assoc)
  from ring_remove [OF ring mem] obtain fl' where F: "free_ring (Heap_Free_list_remove (a + ps + s) h) fl'"
    "set fl' = set fl - {a + ps + s}" "length fl = Suc (length fl')" by blast
  obtain lu where all: "seg h (first_block h) True ((xs @ [(ps, False), (s, True)]) @ (t, False) # zs) (last_block h) lu"
    using wft by (auto simp: wf_heap_def)
  have nz: "a + ps + s \<notin> addrs False (first_block h) (xs @ [(ps, False), (s, True)])" "a + ps + s \<notin> addrs False (a + ps + s + t) zs"
    using addrs_disjoint [OF all geometryD(6) [OF P(3)], of False] unfolding sp by simp_all
  have odd: "\<not> Heap_Is_prev_used h (a + z)"
    using flag_of_next(1) [OF wft] unfolding sp z_def by (simp add: add.assoc)
  have "wf_heap h' (xs @ (span ?ms, False) # zs) fl'"
  proof (rule join_ok [OF wf'])
    show "size_and_flag h' = (size_and_flag h)(first_block h + span xs := span ?ms + 1,
        first_block h + span xs + span ?ms := clear_flag (size_and_flag h (first_block h + span xs + span ?ms)))"
      using odd pos unfolding sp a_def [symmetric]
      by (auto simp: h'_def set_prev_size_def set_size_and_flag_def Heap_Is_prev_used_def fun_eq_iff z_def)
    show "prev_size h' = (prev_size h)(first_block h + span xs + span ?ms := span ?ms)"
      unfolding sp a_def [symmetric] by (simp add: h'_def set_prev_size_def set_size_and_flag_def)
    show "free_ring h' fl'" using F(1) by (simp add: h'_def set_prev_size_def set_size_and_flag_def)
    show "set fl' = addrs False (first_block h) (xs @ (span ?ms, False) # zs)"
      unfolding F(2) fl sp using nz by (auto simp: a_def z_def add.assoc)
  qed (use P zs in \<open>auto simp: h'_def a_def\<close>)
  then show ?thesis unfolding sp released_def using F(3) by (auto simp: h'_def)
qed

lemma coalesce_prev:
  assumes wf: "wf_heap h ((xs @ [(ps, False)]) @ (s, True) # ys) fl" and ys: "ys \<noteq> [] \<Longrightarrow> snd (hd ys)"
  defines "a \<equiv> first_block h + span xs"
  defines "z \<equiv> ps + s"
  defines "h1 \<equiv> set_size_and_flag a (z + 1) h"
  defines "h' \<equiv> set_prev_size (a + z) z (set_size_and_flag (a + z) (clear_flag (size_and_flag h1 (a + z))) h1)"
  shows "released h h' (xs @ (z, False) # ys) fl 1"
proof -
  let ?ms = "[(ps, False), (s, True)]"
  have wf': "wf_heap h (xs @ ?ms @ ys) fl" using wf by simp
  have wfp: "wf_heap h (xs @ (ps, False) # (s, True) # ys) fl" using wf by simp
  obtain pm where P: "seg h (first_block h) True xs a pm" "pm \<or> False" "geometry h"
    using wf_heap_block [OF wfp] unfolding a_def by metis
  have sp: "span ?ms = z" by (simp add: z_def)
  have pos: "0 < z" using wf P(3) geometryD(6) [OF P(3)] by (auto simp: wf_heap_def seg_append z_def)
  have fl: "set fl = addrs False (first_block h) (xs @ ?ms @ ys)" and ring: "free_ring h fl"
    using wf' by (simp_all add: wf_heap_def)
  have "wf_heap h' (xs @ (span ?ms, False) # ys) fl"
  proof (rule join_ok [OF wf'])
    show "size_and_flag h' = (size_and_flag h)(first_block h + span xs := span ?ms + 1,
        first_block h + span xs + span ?ms := clear_flag (size_and_flag h (first_block h + span xs + span ?ms)))"
      using pos unfolding sp a_def [symmetric]
      by (simp add: h'_def h1_def set_prev_size_def set_size_and_flag_def)
    show "prev_size h' = (prev_size h)(first_block h + span xs + span ?ms := span ?ms)"
      unfolding sp a_def [symmetric] by (simp add: h'_def h1_def set_prev_size_def set_size_and_flag_def)
    show "free_ring h' fl" using ring by (simp add: h'_def h1_def set_prev_size_def set_size_and_flag_def)
    show "set fl = addrs False (first_block h) (xs @ (span ?ms, False) # ys)"
      unfolding fl sp by (auto simp: a_def z_def add.assoc)
  qed (use P ys in \<open>auto simp: h'_def h1_def a_def\<close>)
  then show ?thesis unfolding sp released_def by (auto simp: h'_def h1_def)
qed

lemma used_block_not_free:
  assumes wf: "wf_heap h (xs @ (s, True) # ys) fl"
  shows "first_block h + span xs \<notin> insert (free_list h) (set fl)"
proof -
  obtain lu where S: "seg h (first_block h) True (xs @ (s, True) # ys) (last_block h) lu" "geometry h"
    using wf by (auto simp: wf_heap_def)
  note D = addrs_disjoint [OF S(1) geometryD(6) [OF S(2)], of False]
  have "first_block h + span xs \<noteq> free_list h"
    using S(2) flag_of_next(4,6) [OF wf] by (auto simp: geometry_def)
  then show ?thesis using wf D by (simp add: wf_heap_def)
qed

lemma coalesce_next:
  assumes wf: "wf_heap h (xs @ (s, True) # (t, False) # zs) fl" and prev: "xs = [] \<or> snd (last xs)"
  defines "b \<equiv> first_block h + span xs"
  defines "z \<equiv> s + t"
  defines "h' \<equiv> set_prev_size (b + z) z (set_size_and_flag b (z + 1) (Heap_Free_list_replace (b + s) b h))"
  shows "released h h' (xs @ (z, False) # zs) fl 1"
proof -
  let ?ms = "[(s, True), (t, False)]"
  have wf': "wf_heap h (xs @ ?ms @ zs) fl"
    and wft: "wf_heap h ((xs @ [(s, True)]) @ (t, False) # zs) fl" using wf by simp_all
  have zs: "zs \<noteq> [] \<Longrightarrow> snd (hd zs)" using wf_heap_block [OF wft] by metis
  have g: "geometry h" using wf by (simp add: wf_heap_def)
  have sp: "span ?ms = z" "first_block h + span (xs @ [(s, True)]) = b + s"
    by (simp_all add: z_def b_def add.assoc)
  have pos: "0 < z" using wf geometryD(6) [OF g] by (auto simp: wf_heap_def seg_append z_def)
  have fl: "set fl = addrs False (first_block h) (xs @ ?ms @ zs)" and ring: "free_ring h fl"
    using wf' by (simp_all add: wf_heap_def)
  have mem: "b + s \<in> set fl" using fl by (simp add: b_def add.assoc)
  from ring_replace [OF ring mem used_block_not_free [OF wf, folded b_def]] obtain fl' where
    F: "free_ring (Heap_Free_list_replace (b + s) b h) fl'" "set fl' = insert b (set fl - {b + s})" "length fl' = length fl"
    by blast
  obtain lu where all: "seg h (first_block h) True ((xs @ [(s, True)]) @ (t, False) # zs) (last_block h) lu"
    using wft by (auto simp: wf_heap_def)
  have nz: "b + s \<notin> addrs False (first_block h) (xs @ [(s, True)])" "b + s \<notin> addrs False (b + s + t) zs"
    using addrs_disjoint [OF all geometryD(6) [OF g], of False] unfolding sp by simp_all
  have odd: "\<not> Heap_Is_prev_used h (b + z)"
    using flag_of_next(1) [OF wft] unfolding sp z_def by (simp add: add.assoc)
  have "wf_heap h' (xs @ (span ?ms, False) # zs) fl'"
  proof (rule join_ok [OF wf'])
    show "seg h (first_block h) True xs (first_block h + span xs) True"
      using flag_of_block(2) [OF wf] prev by simp
    show "size_and_flag h' = (size_and_flag h)(first_block h + span xs := span ?ms + 1,
        first_block h + span xs + span ?ms := clear_flag (size_and_flag h (first_block h + span xs + span ?ms)))"
      using odd pos unfolding sp b_def [symmetric]
      by (auto simp: h'_def set_prev_size_def set_size_and_flag_def Heap_Is_prev_used_def fun_eq_iff)
    show "prev_size h' = (prev_size h)(first_block h + span xs + span ?ms := span ?ms)"
      unfolding sp b_def [symmetric] by (simp add: h'_def set_prev_size_def set_size_and_flag_def)
    show "free_ring h' fl'" using F(1) by (simp add: h'_def set_prev_size_def set_size_and_flag_def)
    show "set fl' = addrs False (first_block h) (xs @ (span ?ms, False) # zs)"
      unfolding F(2) fl sp using nz by (auto simp: b_def z_def add.assoc)
  qed (use zs in \<open>auto simp: h'_def\<close>)
  then show ?thesis unfolding sp released_def using F(3) by (auto simp: h'_def)
qed

lemma coalesce_none:
  assumes wf: "wf_heap h (xs @ (s, True) # ys) fl" and prev: "xs = [] \<or> snd (last xs)"
    and ys: "ys \<noteq> [] \<Longrightarrow> snd (hd ys)"
  defines "b \<equiv> first_block h + span xs"
  defines "h1 \<equiv> set_size_and_flag b (s + 1) (Heap_Free_list_insert_after (free_list h) b h)"
  defines "h' \<equiv> set_prev_size (b + s) s (set_size_and_flag (b + s) (clear_flag (size_and_flag h1 (b + s))) h1)"
  shows "released h h' (xs @ (s, False) # ys) fl 0"
proof -
  let ?ms = "[(s, True)]"
  have wf': "wf_heap h (xs @ ?ms @ ys) fl" using wf by simp
  have g: "geometry h" using wf by (simp add: wf_heap_def)
  have pos: "0 < s" using wf geometryD(6) [OF g] by (auto simp: wf_heap_def seg_append)
  have fl: "set fl = addrs False (first_block h) (xs @ ?ms @ ys)" and ring: "free_ring h fl"
    using wf' by (simp_all add: wf_heap_def)
  from ring_insert_after [OF ring _ used_block_not_free [OF wf, folded b_def], of "free_list h"] obtain fl' where
    F: "free_ring (Heap_Free_list_insert_after (free_list h) b h) fl'" "set fl' = insert b (set fl)"
      "length fl' = Suc (length fl)"
    by blast
  have "wf_heap h' (xs @ (span ?ms, False) # ys) fl'"
  proof (rule join_ok [OF wf'])
    show "seg h (first_block h) True xs (first_block h + span xs) True"
      using flag_of_block(2) [OF wf] prev by simp
    show "size_and_flag h' = (size_and_flag h)(first_block h + span xs := span ?ms + 1,
        first_block h + span xs + span ?ms := clear_flag (size_and_flag h (first_block h + span xs + span ?ms)))"
      using pos unfolding b_def [symmetric]
      by (simp add: h'_def h1_def set_prev_size_def set_size_and_flag_def)
    show "prev_size h' = (prev_size h)(first_block h + span xs + span ?ms := span ?ms)"
      unfolding b_def [symmetric] by (simp add: h'_def h1_def set_prev_size_def set_size_and_flag_def)
    show "free_ring h' fl'" using F(1) by (simp add: h'_def h1_def set_prev_size_def set_size_and_flag_def)
    show "set fl' = addrs False (first_block h) (xs @ (span ?ms, False) # ys)"
      unfolding F(2) fl by (auto simp: b_def add.assoc)
  qed (use ys in \<open>auto simp: h'_def h1_def\<close>)
  then show ?thesis unfolding released_def using F(3) by (auto simp: h'_def h1_def)
qed

section \<open>The contract of \<open>_Heap_Free\<close>\<close>

text \<open>What every case of the coalescing has in common.\<close>

definition coalesced :: "heap \<Rightarrow> block_list \<Rightarrow> nat \<Rightarrow> nat \<Rightarrow> heap \<Rightarrow> bool" where
  "coalesced h bs b s h' \<longleftrightarrow> control h' = control h \<and> (\<exists>bs' fl'. wf_heap h' bs' fl'
     \<and> st_free_blocks (stats h') = length fl' mod 2 ^ 32
     \<and> st_free_size (stats h') = st_free_size (stats h) \<and> st_used_blocks (stats h') = st_used_blocks (stats h)
     \<and> st_size (stats h') = st_size (stats h)
     \<and> used_at (first_block h) bs' = used_at (first_block h) bs - {(b, s)}
     \<and> free_total bs' = free_total bs + s \<and> used_count bs = Suc (used_count bs') \<and> span bs' = span bs)"

lemma used_at_remove:
  assumes "wf_heap h (xs @ (s, True) # ys) fl"
  defines "b \<equiv> first_block h + span xs"
  shows "used_at (first_block h) xs \<union> used_at (b + s) ys
    = used_at (first_block h) (xs @ (s, True) # ys) - {(b, s)}"
proof -
  have "0 < s" using assms(1) geometryD(6) [of h] by (auto simp: wf_heap_def seg_append)
  then have "(b, s) \<notin> used_at (first_block h) xs" "(b, s) \<notin> used_at (b + s) ys"
    using used_at_range [of b s "first_block h" xs] used_at_range [of b s "b + s" ys] by (auto simp: b_def)
  then show ?thesis by (auto simp: b_def)
qed

lemma free_coalesce_cases:
  assumes "Heap_Block_size h n = t"
  shows "\<lbrakk>\<not> Heap_Is_prev_used h b; prev_size h b = ps; usub b ps = a; Heap_Is_block_in_heap h a; Heap_Is_prev_used h a;
      uadd (uadd s ps) t = z; even z; Heap_Block_at a z = e\<rbrakk> \<Longrightarrow> free_coalesce h b s n True =
        Some (set_prev_size e z (set_size_and_flag a (z + 1)
          (upd_stats (\<lambda>s. s\<lparr>st_free_blocks := dec32 (st_free_blocks s)\<rparr>) (Heap_Free_list_remove n h))))"
    and "\<lbrakk>\<not> Heap_Is_prev_used h b; prev_size h b = ps; usub b ps = a; Heap_Is_block_in_heap h a; Heap_Is_prev_used h a;
      uadd s ps = z; even z\<rbrakk> \<Longrightarrow> free_coalesce h b s n False = (let h1 = set_size_and_flag a (z + 1) h
        in Some (set_prev_size n z (set_size_and_flag n (clear_flag (size_and_flag h1 n)) h1)))"
    and "\<lbrakk>Heap_Is_prev_used h b; uadd s t = z; even z; Heap_Block_at b z = e\<rbrakk> \<Longrightarrow> free_coalesce h b s n True =
        Some (set_prev_size e z (set_size_and_flag b (z + 1) (Heap_Free_list_replace n b h)))"
    and "\<lbrakk>Heap_Is_prev_used h b; even s\<rbrakk> \<Longrightarrow> free_coalesce h b s n False =
        (let h1 = set_size_and_flag b (s + 1) (Heap_Free_list_insert_after (free_list h) b h) in
         Some (upd_stats (\<lambda>s. if st_max_free_blocks s < st_free_blocks s
                 then s\<lparr>st_max_free_blocks := st_free_blocks s\<rparr> else s)
           (upd_stats (\<lambda>s. s\<lparr>st_free_blocks := inc32 (st_free_blocks s)\<rparr>)
             (set_prev_size n s (set_size_and_flag n (clear_flag (size_and_flag h1 n)) h1)))))"
  using assms by (simp_all add: free_coalesce_def Let_def)

lemma coalescedI:
  assumes "released h h' bs' fl d" and "wf_heap h (xs @ (s, True) # ys) fl"
    and "h'' = upd_stats f h'" and "st_free_size (stats h'') = st_free_size (stats h)"
      "st_used_blocks (stats h'') = st_used_blocks (stats h)" "st_size (stats h'') = st_size (stats h)"
    and "\<And>n. length fl + 1 = n + d \<Longrightarrow> st_free_blocks (stats h'') = n mod 2 ^ 32"
    and "used_at (first_block h) bs' = used_at (first_block h) xs \<union> used_at (first_block h + span xs + s) ys"
      "free_total bs' = free_total xs + s + free_total ys" "used_count bs' = used_count xs + used_count ys"
      "span bs' = span xs + s + span ys"
  shows "coalesced h (xs @ (s, True) # ys) (first_block h + span xs) s h''"
proof -
  obtain fl' where r: "control h' = control h" "wf_heap h' bs' fl'" "length fl' + d = length fl + 1"
    using assms(1) by (auto simp: released_def)
  have "st_free_blocks (stats h'') = length fl' mod 2 ^ 32"
    using assms(7) [of "length fl'"] r(3) by simp
  moreover have "wf_heap h'' bs' fl'" "control h'' = control h" using r assms(3) by simp_all
  ultimately show ?thesis
    unfolding coalesced_def used_at_remove [OF assms(2), symmetric]
    using assms(4-6,8-11) by (intro conjI exI [of _ bs'] exI [of _ fl']) auto
qed

lemma memory_stats [simp]:
  "stats (set_prev_size b v h) = stats h" "stats (set_size_and_flag b v h) = stats h"
  by (simp_all add: set_prev_size_def set_size_and_flag_def)

lemma upd_stats_id [simp]: "upd_stats id h = h"
  by (simp add: upd_stats_def)

text \<open>The block before a used block, if it is free, and the block behind it.\<close>

lemma free_neighbour_before:
  assumes wf: "wf_heap h ((xs @ [(ps, False)]) @ (s, True) # ys) fl"
  defines "a \<equiv> first_block h + span xs"
  shows "\<not> Heap_Is_prev_used h (a + ps)" "prev_size h (a + ps) = ps" "usub (a + ps) ps = a"
    "Heap_Is_block_in_heap h a" "Heap_Is_prev_used h a" "even ps" "even s" "a + ps + s \<le> last_block h"
    "last_block h + 16 < UW"
proof -
  have g: "geometry h" using wf by (simp add: wf_heap_def)
  show lt: "last_block h + 16 < UW" using geometryD(8) [OF g] .
  have wf2: "wf_heap h (xs @ (ps, False) # (s, True) # ys) fl" using wf by simp
  have e: "first_block h + span (xs @ [(ps, False)]) = a + ps" by (simp add: a_def)
  note N = flag_of_next [OF wf2, folded a_def] and M = flag_of_next [OF wf, unfolded e]
  show "\<not> Heap_Is_prev_used h (a + ps)" using N(1) by simp
  obtain pm where B: "prev_size h (a + ps) = ps" "even ps" "size_and_flag h a = ps + of_bool pm" "pm \<or> False"
    using wf_heap_block [OF wf2] unfolding a_def by metis
  show "prev_size h (a + ps) = ps" "even ps" by fact+
  show "Heap_Is_prev_used h a" using B by (simp add: Heap_Is_prev_used_def)
  show "a + ps + s \<le> last_block h" using M(4) .
  then show "Heap_Is_block_in_heap h a" using N(6) by (simp add: Heap_Is_block_in_heap_def)
  show "usub (a + ps) ps = a" using M(4) lt by (simp add: usub_id)
  show "even s" using wf geometry_even [OF g] by (auto simp: wf_heap_def seg_append)
qed

lemma free_neighbour_after:
  assumes wf: "wf_heap h (xs @ (s, True) # (t, v) # zs) fl"
  defines "b \<equiv> first_block h + span xs"
  shows "Heap_Block_size h (b + s) = t" "even s" "even t" "b + s + t \<le> last_block h" "last_block h + 16 < UW"
proof -
  have g: "geometry h" using wf by (simp add: wf_heap_def)
  show lt: "last_block h + 16 < UW" using geometryD(8) [OF g] .
  have wf2: "wf_heap h ((xs @ [(s, True)]) @ (t, v) # zs) fl" using wf by simp
  have e: "first_block h + span (xs @ [(s, True)]) = b + s" by (simp add: b_def)
  show "even s" "even t" using wf geometry_even [OF g] by (auto simp: wf_heap_def seg_append)
  show "Heap_Block_size h (b + s) = t" "b + s + t \<le> last_block h"
    using flag_of_next(2,4) [OF wf2] unfolding e by simp_all
qed

lemma free_coalesce_ok:
  assumes wf: "wf_heap h (xs @ (s, True) # ys) fl" and fb: "st_free_blocks (stats h) = length fl mod 2 ^ 32"
  defines "b \<equiv> first_block h + span xs"
  obtains h' where "free_coalesce h b s (b + s) (ys \<noteq> [] \<and> \<not> snd (hd ys)) = Some h'"
    "coalesced h (xs @ (s, True) # ys) b s h'"
proof -
  note U = flag_of_block(1) [OF wf, folded b_def]
  have g: "geometry h" using wf by (simp add: wf_heap_def)
  have evn: "even s" using wf geometry_even [OF g] by (auto simp: wf_heap_def seg_append)
  consider (both) xs0 ps t zs where "xs = xs0 @ [(ps, False)]" "ys = (t, False) # zs"
    | (before) xs0 ps where "xs = xs0 @ [(ps, False)]" "ys \<noteq> [] \<Longrightarrow> snd (hd ys)"
    | (after) t zs where "xs = [] \<or> snd (last xs)" "ys = (t, False) # zs"
    | (alone) "xs = [] \<or> snd (last xs)" "ys \<noteq> [] \<Longrightarrow> snd (hd ys)"
    by (cases xs rule: rev_cases; cases ys) (auto, (metis surj_pair prod.sel)+)
  then show thesis
  proof cases
    case both
    define a where "a = first_block h + span xs0"
    have b: "b = a + ps" by (simp add: b_def a_def both(1))
    note P = free_neighbour_before [OF wf [unfolded both(1)], folded a_def]
    note X = free_neighbour_after [OF wf [unfolded both(2)], folded b_def]
    have z: "uadd (uadd s ps) t = ps + s + t" "Heap_Block_at a (ps + s + t) = a + (ps + s + t)" "even (ps + s + t)"
      using X P b by (simp_all add: uadd_id Heap_Block_at_def)
    note F = free_coalesce_cases(1) [OF X(1) P(1-5) [folded b] z(1,3,2)]
    show thesis
      by (rule that, (use both F in simp; fail), unfold b_def, rule coalescedI [where f = id,
            OF coalesce_prev_next [OF wf [unfolded both], of "\<lambda>s. s\<lparr>st_free_blocks := dec32 (st_free_blocks s)\<rparr>"] wf])
        (use both fb in \<open>auto simp: add.assoc a_def\<close>)
  next
    case before
    define a where "a = first_block h + span xs0"
    have b: "b = a + ps" by (simp add: b_def a_def before(1))
    note P = free_neighbour_before [OF wf [unfolded before(1)], folded a_def]
    have z: "uadd s ps = ps + s" "even (ps + s)"
      using P b by (simp_all add: uadd_id)
    note F = free_coalesce_cases(2) [OF refl P(1-5) [folded b] z]
    have nf: "(ys \<noteq> [] \<and> \<not> snd (hd ys)) = False" using before(2) by auto
    show thesis
      by (rule that, unfold nf, rule F [unfolded Let_def], unfold b_def, rule coalescedI [where f = id,
            OF coalesce_prev [OF wf [unfolded before(1)] before(2)] wf])
        (use before fb in \<open>auto simp: add.assoc a_def\<close>)
  next
    case after
    note X = free_neighbour_after [OF wf [unfolded after(2)], folded b_def]
    have z: "uadd s t = s + t" "even (s + t)" "Heap_Block_at b (s + t) = b + (s + t)"
      using X by (simp_all add: uadd_id Heap_Block_at_def)
    note F = free_coalesce_cases(3) [OF X(1) _ z]
    show thesis
      by (rule that, (use after F U in simp; fail), unfold b_def, rule coalescedI [where f = id,
            OF coalesce_next [OF wf [unfolded after(2)] after(1)] wf])
        (use after fb in \<open>auto simp: add.assoc\<close>)
  next
    case alone
    note F = free_coalesce_cases(4) [OF refl _ evn, where h = h and b = b and n = "b + s"]
    have nf: "(ys \<noteq> [] \<and> \<not> snd (hd ys)) = False" using alone(2) by auto
    have "Heap_Is_prev_used h b" using U alone(1) by simp
    note F = F [OF this, unfolded Let_def]
    show thesis
      by (rule that, unfold nf, rule F, unfold b_def, rule coalescedI [
            OF coalesce_none [OF wf alone] wf, where f = "\<lambda>s. if st_max_free_blocks (s\<lparr>st_free_blocks := inc32 (st_free_blocks s)\<rparr>) < inc32 (st_free_blocks s)
              then s\<lparr>st_free_blocks := inc32 (st_free_blocks s), st_max_free_blocks := inc32 (st_free_blocks s)\<rparr> else s\<lparr>st_free_blocks := inc32 (st_free_blocks s)\<rparr>"])
        (use alone fb in \<open>auto simp: add.assoc upd_stats_def\<close>)
  qed
qed

lemma used_at_split:
  "(a, s) \<in> used_at x bs \<Longrightarrow> \<exists>xs ys. bs = xs @ (s, True) # ys \<and> a = x + span xs"
proof (induction bs arbitrary: x rule: span.induct)
  case (2 t u bs)
  show ?case
  proof (cases "u \<and> (a, s) = (x, t)")
    case True
    then show ?thesis by (intro exI [of _ "[]"] exI [of _ bs]) simp
  next
    case False
    with 2(2) have "(a, s) \<in> used_at (x + t) bs" by (auto split: if_splits)
    from "2.IH" [OF this] obtain xs ys where "bs = xs @ (s, True) # ys" "a = x + t + span xs" by blast
    then show ?thesis by (intro exI [of _ "(t, u) # xs"] exI [of _ ys]) simp
  qed
qed simp

text \<open>The address of an area leads back to its block.\<close>

lemma block_of_address:
  assumes wf: "wf_heap h (xs @ (s, u) # ys) fl" and p: "address_of h p (first_block h + span xs, s)"
  shows "Heap_Block_of_alloc_area p (page_size h) = first_block h + span xs"
    "Heap_Is_block_in_heap h (first_block h + span xs)" "p \<noteq> 0"
proof -
  define b where "b = first_block h + span xs"
  have g: "geometry h" using wf by (simp add: wf_heap_def)
  note gD = geometryD [OF g]
  note N = flag_of_next [OF wf, folded b_def]
  have pg: "page_size h dvd b + 16" using wf_heap_page [OF wf] by (simp add: b_def)
  obtain k where k: "p = b + 16 + k" "k < page_size h"
    using p by (auto simp: address_of_def heap_consts b_def dest: le_Suc_ex)
  have "p mod page_size h = k" using k pg mod_add_left_eq [of "b + 16" "page_size h" k] by simp
  then have "Heap_Align_down p (page_size h) = b + 16" using k by (simp add: Heap_Align_down_def)
  then show "Heap_Block_of_alloc_area p (page_size h) = first_block h + span xs"
    using N(4) gD(8) by (simp add: Heap_Block_of_alloc_area_def heap_consts usub_id b_def)
  show "Heap_Is_block_in_heap h (first_block h + span xs)" "p \<noteq> 0"
    using N(4,6) k by (simp_all add: Heap_Is_block_in_heap_def b_def)
qed

lemma Heap_Free_inv:
  assumes inv: "heap_inv h (xs @ (s, True) # ys) fl"
  defines "b \<equiv> first_block h + span xs"
  assumes p: "address_of h p (b, s)"
  shows "\<exists>h'. Heap_Free h p = (h', True) \<and> control h' = control h
    \<and> heap_rel h' (allocated h (xs @ (s, True) # ys) - {(b, s)})"
proof -
  have wf: "wf_heap h (xs @ (s, True) # ys) fl" and st: "stats_ok (stats h) (xs @ (s, True) # ys) fl"
    using inv by (simp_all add: heap_inv_def)
  note N = flag_of_next [OF wf, folded b_def]
  note A = block_of_address [OF wf, folded b_def, OF p]
  have "st_free_blocks (stats h) = length fl mod 2 ^ 32" using st by (simp add: stats_ok_def)
  from free_coalesce_ok [OF wf this, folded b_def] obtain h1 where
    F: "free_coalesce h b s (b + s) (ys \<noteq> [] \<and> \<not> snd (hd ys)) = Some h1" "coalesced h (xs @ (s, True) # ys) b s h1" by blast
  note next_free = next_is_free_iff [OF wf, folded b_def]
  have inh: "Heap_Is_block_in_heap h (b + s)" using N(4,6) by (simp add: Heap_Is_block_in_heap_def)
  let ?u = "\<lambda>st. st\<lparr>st_used_blocks := dec32 (st_used_blocks st), st_frees := inc32 (st_frees st),
    st_free_size := uadd (st_free_size st) s, st_lifetime_freed := uadd (st_lifetime_freed st) s\<rparr>"
  have E: "Heap_Free h p = (upd_stats ?u h1, True)"
    unfolding Heap_Free_def Let_def A(1) N(2,3) next_free F(1) using A(2,3) inh N(1) by simp
  obtain bs' fl' where C: "control h1 = control h" "wf_heap h1 bs' fl'"
    "st_free_blocks (stats h1) = length fl' mod 2 ^ 32" "st_free_size (stats h1) = st_free_size (stats h)"
    "st_used_blocks (stats h1) = st_used_blocks (stats h)" "st_size (stats h1) = st_size (stats h)"
    "used_at (first_block h) bs' = used_at (first_block h) (xs @ (s, True) # ys) - {(b, s)}"
    "free_total bs' = free_total (xs @ (s, True) # ys) + s"
    "used_count (xs @ (s, True) # ys) = Suc (used_count bs')" "span bs' = span (xs @ (s, True) # ys)"
    using F(2) by (auto simp: coalesced_def)
  have fb: "first_block h1 = first_block h" using C(1) by (simp add: control_def)
  have "dec32 (st_used_blocks (stats h1)) = used_count bs' mod 2 ^ 32"
    using st unfolding stats_ok_def C(5) C(9) by (simp only: dec32_mod)
  moreover have "uadd (st_free_size (stats h1)) s = free_total bs'"
    using st heap_inv_free_total_bound [OF C(2)] unfolding stats_ok_def C(4) C(8) by (metis uadd_id)
  moreover have "st_size (stats h1) = span bs'" using st unfolding stats_ok_def C(6) C(10) by blast
  ultimately have "stats_ok (?u (stats h1)) bs' fl'" using C(3) by (simp add: stats_ok_def)
  then have "heap_inv (upd_stats ?u h1) bs' fl'" using C(2) by (simp add: heap_inv_def)
  moreover have "allocated (upd_stats ?u h1) bs' = allocated h (xs @ (s, True) # ys) - {(b, s)}"
    unfolding allocated_def upd_stats_simps fb by (rule C(7))
  ultimately have "heap_rel (upd_stats ?u h1) (allocated h (xs @ (s, True) # ys) - {(b, s)})"
    by (rule heap_relI)
  with E C(1) show ?thesis by simp
qed

text \<open>A second release of a block that is still the start of a free block is refused.\<close>

lemma Heap_Free_refuses:
  assumes wf: "wf_heap h (xs @ (s, False) # ys) fl" and p: "address_of h p (first_block h + span xs, s)"
  shows "Heap_Free h p = (h, False)"
  unfolding Heap_Free_def Let_def block_of_address(1) [OF wf p] flag_of_next(2,3) [OF wf]
  using flag_of_next(1) [OF wf] block_of_address(2,3) [OF wf p] by simp

end
