(* ===== verification/Heap_Init.thy ===== *)
theory Heap_Init
  imports Heap_Release
begin

text \<open>
  \<open>_Heap_Initialize\<close> makes a heap of one free block out of a memory area, or refuses the area.
\<close>

lemma align_up_any:
  assumes "0 < pg" and "v + pg < UW"
  shows "v \<le> Heap_Align_up v pg" "Heap_Align_up v pg < v + pg" "pg dvd Heap_Align_up v pg"
proof -
  have r: "v mod pg < pg" "v mod pg \<le> v" using assms(1) by simp_all
  have "v - v mod pg + pg < UW" using r assms by linarith
  then have u: "Heap_Align_up v pg = (if v mod pg \<noteq> 0 then v - v mod pg + pg else v)"
    by (simp add: Heap_Align_up_def Let_def uadd_id)
  show "v \<le> Heap_Align_up v pg" "Heap_Align_up v pg < v + pg" unfolding u using r assms(1) by (split if_split, linarith)+
  have "pg dvd v - v mod pg" by (simp add: dvd_minus_mod)
  then show "pg dvd Heap_Align_up v pg" unfolding u by (auto simp: dvd_eq_mod_eq_0)
qed

lemma Heap_Get_first_and_last_block_ok:
  assumes r: "Heap_Get_first_and_last_block start area_size pg mbs = Some (fb, lb)"
    and pg: "0 < pg" and lt: "start + 16 + pg < UW" and area: "area_size < UW"
  shows "start \<le> fb" "lb + 16 \<le> start + area_size" "start + area_size < UW" "pg dvd fb + 16" "pg dvd lb - fb"
    "mbs \<le> lb - fb" "fb \<le> lb" "start + area_size < lb + 16 + pg"
proof -
  define al where "al = Heap_Align_up (start + 16) pg"
  have b16: "uadd start HEAP_BLOCK_HEADER_SIZE = start + 16" using lt by (simp add: heap_consts uadd_id)
  have al: "start + 16 \<le> al" "al < start + 16 + pg" "pg dvd al"
    using align_up_any [OF pg lt] by (simp_all add: al_def)
  have fb: "usub al HEAP_BLOCK_HEADER_SIZE = al - 16" using al lt by (simp add: heap_consts usub_id)
  have ov: "uadd HEAP_BLOCK_HEADER_SIZE (usub (al - 16) start) = al - start"
    using al lt by (simp add: heap_consts usub_id uadd_id)
  have s: "usub area_size (al - start) = area_size - (al - start)" if "al - start < area_size"
    using that area by (simp add: usub_id)
  define fs where "fs = Heap_Align_down (area_size - (al - start)) pg"
  have c: "\<not> uadd start area_size < start" "al - start < area_size" "mbs \<le> fs" "fb = al - 16" "lb = uadd (al - 16) fs"
    using r s unfolding Heap_Get_first_and_last_block_def Let_def b16 al_def [symmetric] fb ov
    by (auto simp: fs_def Heap_Block_at_def split: if_splits)
  note fs = align_down_spec [OF pg, of "area_size - (al - start)", folded fs_def]
  have "start + area_size < UW"
  proof (rule ccontr)
    assume "\<not> ?thesis"
    then have "uadd start area_size = start + area_size - UW"
      using area lt by (simp add: uadd_def mod_if)
    with c(1) area \<open>\<not> start + area_size < UW\<close> show False by linarith
  qed
  moreover have "lb = al - 16 + fs" using c(2,5) fs(1) calculation al by (simp add: uadd_id)
  ultimately show "start \<le> fb" "lb + 16 \<le> start + area_size" "start + area_size < UW" "pg dvd fb + 16" "pg dvd lb - fb"
    "mbs \<le> lb - fb" "fb \<le> lb" "start + area_size < lb + 16 + pg"
    using c(2-4) al fs by simp_all
qed

text \<open>The heap after initialisation, field by field.\<close>

lemma Heap_Initialize_fields:
  assumes r: "Heap_Initialize align start area_size pg h = (h', n)" "n \<noteq> 0"
  defines "pg' \<equiv> (if pg = 0 then align else Heap_Align_up pg align)"
  defines "mbs \<equiv> Heap_Min_block_size pg'"
  obtains fb lb where "Heap_Get_first_and_last_block start area_size pg' mbs = Some (fb, lb)"
    "n = usub lb fb" "first_block h' = fb" "last_block h' = lb" "page_size h' = pg'" "min_block_size h' = mbs"
    "free_list h' = free_list h" "area_begin h' = start" "area_end h' = uadd start area_size"
    "size_and_flag h' = (size_and_flag h)(fb := set_flag n, lb := usub fb lb)"
    "prev_size h' = (prev_size h)(fb := uadd start area_size, lb := n)"
    "next h' = (next h)(fb := free_list h, free_list h := fb)" "prev h' = (prev h)(fb := free_list h, free_list h := fb)"
    "stats h' = zero_stats\<lparr>st_size := n, st_free_size := n, st_min_free_size := n, st_free_blocks := 1,
      st_max_free_blocks := 1\<rparr>"
proof -
  from r obtain fb lb where B: "Heap_Get_first_and_last_block start area_size pg' mbs = Some (fb, lb)"
    by (auto simp: Heap_Initialize_def Let_def pg'_def [symmetric] mbs_def [symmetric] split: option.splits if_splits)
  have u: "pg = 0 \<or> \<not> pg' < align" using r by (auto simp: Heap_Initialize_def Let_def pg'_def)
  note E = r(1) [unfolded Heap_Initialize_def, folded pg'_def, unfolded Let_def, folded mbs_def, unfolded B option.case prod.case]
  then have n: "n = usub lb fb" using u by (auto split: if_splits)
  show thesis
    by (rule that [OF B n])
      (use E u in \<open>auto simp: heap_updates Heap_Set_last_block_size_def Heap_Block_set_size_def Heap_Is_prev_used_def\<close>)
qed

lemma Heap_Initialize_inv:
  assumes align: "0 < align" "even align" and start: "0 < start" "start + 32 + pg + align < UW" and area: "area_size < UW"
    and fl: "free_list h < start \<or> start + area_size \<le> free_list h"
    and r: "Heap_Initialize align start area_size pg h = (h', n)" "n \<noteq> 0"
  shows "heap_inv h' [(n, False)] [first_block h']"
    "start \<le> first_block h'" "last_block h' + 16 \<le> start + area_size" "start + area_size < last_block h' + 16 + page_size h'"
proof -
  define pg' where "pg' = (if pg = 0 then align else Heap_Align_up pg align)"
  define mbs where "mbs = Heap_Min_block_size pg'"
  have pa: "pg + align < UW" using start by simp
  have pg': "align \<le> pg'" "pg' < pg + align + 1" "align dvd pg'"
    using align_up_any [OF align(1) pa] align by (auto simp: pg'_def dvd_imp_le)
  then have pos: "0 < pg'" "even pg'" using align dvd_trans by auto
  have lt: "start + 16 + pg' < UW" "32 + pg' < UW" using start pg' by simp_all
  have mbs: "32 \<le> mbs" "pg' dvd mbs"
    using align_up_any [OF pos(1) lt(2)] by (simp_all add: mbs_def Heap_Min_block_size_def heap_consts)
  obtain fb lb where H: "Heap_Get_first_and_last_block start area_size pg' mbs = Some (fb, lb)"
    "n = usub lb fb" "first_block h' = fb" "last_block h' = lb" "page_size h' = pg'" "min_block_size h' = mbs"
    "free_list h' = free_list h" "area_begin h' = start" "area_end h' = uadd start area_size"
    "size_and_flag h' = (size_and_flag h)(fb := set_flag n, lb := usub fb lb)"
    "prev_size h' = (prev_size h)(fb := uadd start area_size, lb := n)"
    "next h' = (next h)(fb := free_list h, free_list h := fb)" "prev h' = (prev h)(fb := free_list h, free_list h := fb)"
    "stats h' = zero_stats\<lparr>st_size := n, st_free_size := n, st_min_free_size := n, st_free_blocks := 1,
      st_max_free_blocks := 1\<rparr>"
    using Heap_Initialize_fields [OF r, folded pg'_def, folded mbs_def] .
  note G = Heap_Get_first_and_last_block_ok [OF H(1) pos(1) lt(1) area]
  show "start \<le> first_block h'" "last_block h' + 16 \<le> start + area_size"
    "start + area_size < last_block h' + 16 + page_size h'" using G H by simp_all
  have n: "n = lb - fb" "lb = fb + n" using G H(2) by (simp_all add: usub_id)
  have pn: "pg' dvd n" "mbs \<le> n" using G(5,6) n(1) by simp_all
  then have en: "even n" "0 < n" using pos dvd_trans mbs by auto
  have ne: "free_list h \<noteq> fb" "\<not> (fb \<le> free_list h \<and> free_list h \<le> lb)" using fl G by auto
  have g: "geometry h'" using G pos mbs ne start H by (simp add: geometry_def)
  have "seg h' fb True [(n, False)] lb False" using pn n(2) en by (simp add: H(3-6,10,11))
  moreover have "free_ring h' [fb]" using ne by (simp add: H(7,12,13) dlist_def)
  ultimately have "wf_heap h' [(n, False)] [fb]"
    using g n(2) en by (auto simp: wf_heap_def H(3,4,7,10))
  then show "heap_inv h' [(n, False)] [first_block h']"
    unfolding heap_inv_def by (simp add: H(3,14) stats_ok_def zero_stats_def)
qed

end
