(* ===== verification/Heap_Resize.thy ===== *)
theory Heap_Resize
  imports Heap_Init
begin

text \<open>
  \<open>_Heap_Resize_block\<close>: a used block takes in the free block behind it if there is one and is
  cut to the new size; it stays where it is.
\<close>

lemma mark_used_id: "odd (size_and_flag h n) \<Longrightarrow> mark_used n h = h"
  by (simp add: mark_used_def set_size_and_flag_def)

text \<open>A used block that takes in the free block behind it.\<close>

definition grown :: "heap \<Rightarrow> nat \<Rightarrow> nat \<Rightarrow> nat \<Rightarrow> heap" where
  "grown h b s t = mark_used (b + (s + t)) (Heap_Free_list_remove (b + s) (Heap_Block_set_size b (s + t) h))"

lemma grown_ok:
  assumes wf: "wf_heap h (xs @ (s, True) # (t, False) # zs) fl"
  defines "b \<equiv> first_block h + span xs"
  shows "\<exists>fl'. wf_heap (grown h b s t) (xs @ (s + t, True) # zs) fl' \<and> length fl = Suc (length fl')"
    and "zs \<noteq> [] \<Longrightarrow> snd (hd zs)" and "stats (grown h b s t) = stats h" and "control (grown h b s t) = control h"
proof -
  let ?ms = "[(s, True), (t, False)]" and ?g = "Heap_Block_set_size b (s + t) h" and ?h = "grown h b s t"
  have wf': "wf_heap h (xs @ ?ms @ zs) fl"
    and wft: "wf_heap h ((xs @ [(s, True)]) @ (t, False) # zs) fl" using wf by simp_all
  show zs: "zs \<noteq> [] \<Longrightarrow> snd (hd zs)" using wf_heap_block [OF wft] by metis
  have g: "geometry h" using wf by (simp add: wf_heap_def)
  note N = free_neighbour_after [OF wf, folded b_def]
  have e: "first_block h + span (xs @ [(s, True)]) = b + s" by (simp add: b_def)
  have szs: "min_block_size h \<le> s" "page_size h dvd s" "page_size h dvd t" "0 < s" "0 < t"
    using wf geometryD(6) [OF g] by (auto simp: wf_heap_def seg_append)
  define pm where "pm = (xs = [] \<or> snd (last xs))"
  have pre: "seg h (first_block h) True xs b pm" using flag_of_block(2) [OF wf] by (simp add: b_def pm_def)
  have pu: "Heap_Is_prev_used h b = pm" using flag_of_block(1) [OF wf] by (simp add: b_def pm_def)
  have G: "size_and_flag ?g = (size_and_flag h)(b := s + t + of_bool pm)" "next ?g = next h" "prev ?g = prev h"
    "prev_size ?g = prev_size h" "control ?g = control h" "free_list ?g = free_list h" "stats ?g = stats h"
    using N(2,3) pu by (simp_all add: Heap_Block_set_size_def set_size_and_flag_def control_def)
  have fl: "set fl = addrs False (first_block h) (xs @ ?ms @ zs)" and ring: "free_ring h fl"
    using wf' by (simp_all add: wf_heap_def)
  have mem: "b + s \<in> set fl" using fl by (simp add: b_def add.assoc)
  have "free_ring ?g fl" using ring by (simp add: G)
  from ring_remove [OF this mem] obtain fl' where
    F: "free_ring (Heap_Free_list_remove (b + s) ?g) fl'" "set fl' = set fl - {b + s}" "length fl = Suc (length fl')" by blast
  obtain lu where all: "seg h (first_block h) True ((xs @ [(s, True)]) @ (t, False) # zs) (last_block h) lu"
    using wft by (auto simp: wf_heap_def)
  have nz: "b + s \<notin> addrs False (first_block h) (xs @ [(s, True)])" "b + s \<notin> addrs False (b + s + t) zs"
    using addrs_disjoint [OF all geometryD(6) [OF g], of False] unfolding e by simp_all
  show c: "control ?h = control h" using G(5) by (simp add: grown_def mark_used_def)
  show "stats ?h = stats h" using G(7) by (simp add: grown_def)
  have same: "page_size ?h = page_size h" "min_block_size ?h = min_block_size h" "first_block ?h = first_block h"
    "last_block ?h = last_block h" "free_list ?h = free_list h" using c by (simp_all add: control_def)
  obtain q where q: "even q" "size_and_flag h (b + s + t) = q"
    using wf_heap_block [OF wft] unfolding e by (metis add.right_neutral of_bool_eq(1))
  have H: "size_and_flag ?h = (size_and_flag h)(b := s + t + of_bool pm, b + (s + t) := q + 1)"
    "prev_size ?h = prev_size h" "next ?h = next (Heap_Free_list_remove (b + s) ?g)"
    "prev ?h = prev (Heap_Free_list_remove (b + s) ?g)"
    using q szs(4,5) by (simp_all add: grown_def G add.assoc)
  have "wf_heap ?h (xs @ [(s + t, True)] @ zs) fl'"
  proof (rule wf_heap_replace [OF wf', where pm = pm and eu' = True])
    show "seg ?h (first_block h + span xs) pm [(s + t, True)] (first_block h + span xs + span ?ms) True"
      using szs by (simp add: same H b_def [symmetric])
    show "size_and_flag ?h (first_block h + span xs + span ?ms)
        = clear_flag (size_and_flag h (first_block h + span xs + span ?ms)) + of_bool True"
      using q by (simp add: H b_def [symmetric] add.assoc)
    show "dlist (next ?h) (prev ?h) (free_list h # fl' @ [free_list h])" using F(1) by (simp add: H G)
    show "set fl' = addrs False (first_block h) (xs @ [(s + t, True)] @ zs)"
      unfolding F(2) fl using nz by (auto simp: b_def add.assoc)
  qed (use pre same zs szs in \<open>auto simp: H b_def [symmetric]\<close>)
  then show "\<exists>fl'. wf_heap ?h (xs @ (s + t, True) # zs) fl' \<and> length fl = Suc (length fl')" using F(3) by auto
qed

lemma used_claimed:
  assumes "wf_heap h (xs @ (s, True) # ys) fl" and "ys \<noteq> [] \<Longrightarrow> snd (hd ys)"
  shows "claimed h xs s ys fl"
  using assms mark_used_id [of h "first_block h + span xs + s"] flag_of_next(1) [OF assms(1)]
  by (simp add: claimed_def Heap_Is_prev_used_def)

lemma is_free_next:
  assumes wf: "wf_heap h (xs @ (s, True) # ys) fl"
  shows "Heap_Is_free h (first_block h + span xs + s) \<longleftrightarrow> ys \<noteq> [] \<and> \<not> snd (hd ys)"
proof (cases ys)
  case Nil
  then have "claimed h xs s ys fl" using wf by (intro used_claimed) simp_all
  then obtain t where "Heap_Block_size h (first_block h + span xs + s) = t"
    "Heap_Is_prev_used h (Heap_Block_at (first_block h + span xs + s) t)"
    using claimedD by metis
  then show ?thesis using Nil by (simp add: Heap_Is_free_def Heap_Is_used_def)
next
  case Cons
  then show ?thesis
    using next_is_free_iff [OF wf] flag_of_next(5) [OF wf] by (simp add: Heap_Is_free_def Heap_Is_used_def)
qed

text \<open>\<open>_Heap_Block_allocate\<close> on a block that is used already.\<close>

lemma Heap_Block_allocate_used:
  assumes inv: "heap_inv h (xs @ (s, True) # ys) fl" and ys: "ys \<noteq> [] \<Longrightarrow> snd (hd ys)"
  defines "b \<equiv> first_block h + span xs"
  assumes p: "p = b + 16 + k" "k < page_size h" "n + k + 16 \<le> s + 8"
  shows "\<exists>h' u. Heap_Block_allocate b p n h = (h', b) \<and> control h' = control h \<and> p + n \<le> b + u + 8
    \<and> Heap_Block_size h' b = u \<and> b + u \<le> last_block h
    \<and> heap_rel h' (insert (b, u) (allocated h (xs @ (s, True) # ys) - {(b, s)}))"
proof -
  have wf: "wf_heap h (xs @ (s, True) # ys) fl" and st: "stats_ok (stats h) (xs @ (s, True) # ys) fl"
    using inv by (simp_all add: heap_inv_def)
  note N = flag_of_next [OF wf, folded b_def]
  have g: "geometry h" using wf by (simp add: wf_heap_def)
  have lt: "b + s + 16 < UW" using N(4) geometryD(8) [OF g] by simp
  have off: "usub p (Heap_Alloc_area_of_block b) = k" "uadd n k = n + k"
    using p lt by (simp_all add: Heap_Alloc_area_of_block_def heap_consts uadd_id usub_id)
  define minf :: "heap_stats \<Rightarrow> heap_stats" where "minf = (\<lambda>s. if st_min_free_size s > st_free_size s
            then s\<lparr>st_min_free_size := st_free_size s\<rparr> else s)"
  let ?s = "Heap_Block_split b (b + s) (free_list h) (n + k) h"
  have alloc: "Heap_Block_allocate b p n h = (upd_stats minf ?s, b)"
    unfolding Heap_Block_allocate_def Let_def N(2,3) off minf_def
    using N(1) p(2) by (simp add: Heap_Block_allocate_from_begin_def)
  from Heap_Block_split_inv [OF used_claimed [OF wf ys] p(3) _ st, of "free_list h", folded b_def] obtain bs' fl' u where
    S: "heap_inv ?s (xs @ (u, True) # bs' @ ys) fl'" "n + k + 16 \<le> u + 8" "u \<le> s" "used_at 0 bs' = {}" "span bs' = s - u"
    by auto
  have c: "control (upd_stats minf ?s) = control h" by simp
  have f: "first_block (upd_stats minf ?s) = first_block h" using c by (simp add: control_def)
  have inv': "heap_inv (upd_stats minf ?s) (xs @ (u, True) # bs' @ ys) fl'" using S(1) by (simp add: minf_def)
  moreover have "allocated (upd_stats minf ?s) (xs @ (u, True) # bs' @ ys)
      = insert (b, u) (allocated h (xs @ (s, True) # ys) - {(b, s)})"
    unfolding allocated_def f used_at_remove [OF wf, folded b_def, symmetric]
    using used_at_shift [OF S(4)] S(3,5) by (simp add: b_def add.assoc)
  ultimately have "heap_rel (upd_stats minf ?s) (insert (b, u) (allocated h (xs @ (s, True) # ys) - {(b, s)}))"
    by (rule heap_relI)
  moreover have "Heap_Block_size (upd_stats minf ?s) b = u"
    using flag_of_next(2) [of "upd_stats minf ?s" xs u True "bs' @ ys" fl', unfolded f, folded b_def] inv'
    by (simp add: heap_inv_def)
  ultimately show ?thesis using alloc c S(2,3) N(4) p(1)
    by (intro exI [of _ "upd_stats minf ?s"] exI [of _ u]) simp
qed

lemma area_length: "p \<le> e + 8 \<Longrightarrow> e + 8 < UW \<Longrightarrow> uadd (usub e p) HEAP_ALLOC_BONUS = e + 8 - p"
proof (cases "p \<le> e")
  case False
  assume a: "p \<le> e + 8" "e + 8 < UW"
  then have "usub e p = UW - (p - e)" using False by (simp add: usub_def)
  moreover have "(UW - (p - e) + 8) mod UW = e + 8 - p"
    using a False by (simp add: mod_if)
  ultimately show ?thesis by (simp add: uadd_def heap_consts)
qed (simp add: heap_consts usub_id uadd_id)

text \<open>The two cases of \<open>_Heap_Resize_block_checked\<close>.\<close>

lemma Heap_Resize_keep:
  assumes inv: "heap_inv h (xs @ (s, True) # ys) fl" and ys: "ys \<noteq> [] \<Longrightarrow> snd (hd ys)"
  defines "b \<equiv> first_block h + span xs"
  assumes p: "address_of h p (b, s)" "p \<le> b + s + 8"
  shows "if n \<le> b + s + 8 - p
    then \<exists>h' u. Heap_Resize_block_checked h b p n = (h', HEAP_RESIZE_SUCCESSFUL, b + s + 8 - p, b + u + 8 - p)
      \<and> p + n \<le> b + u + 8 \<and> control h' = control h
      \<and> heap_rel h' (insert (b, u) (allocated h (xs @ (s, True) # ys) - {(b, s)}))
    else Heap_Resize_block_checked h b p n = (h, HEAP_RESIZE_UNSATISFIED, b + s + 8 - p, 0)"
proof -
  have wf: "wf_heap h (xs @ (s, True) # ys) fl" using inv by (simp add: heap_inv_def)
  note N = flag_of_next [OF wf, folded b_def]
  have lt: "last_block h + 16 < UW" using wf geometryD(8) [of h] by (simp add: wf_heap_def)
  have nf: "\<not> Heap_Is_free h (b + s)" using is_free_next [OF wf] ys by (auto simp: b_def)
  have e: "uadd b s = b + s" "uadd (usub (b + s) p) HEAP_ALLOC_BONUS = b + s + 8 - p"
    using N(3,4) lt area_length [of p "b + s"] p(2) by (simp_all add: Heap_Block_at_def)
  show ?thesis
  proof (cases "n \<le> b + s + 8 - p")
    case False
    then show ?thesis
      unfolding Heap_Resize_block_checked_def Let_def N(2,3) e using nf by simp
  next
    case True
    obtain k where k: "p = b + 16 + k" "k < page_size h" "n + k + 16 \<le> s + 8"
      using p True by (auto simp: address_of_def heap_consts dest!: le_Suc_ex)
    obtain h' u where A: "Heap_Block_allocate b p n h = (h', b)" "control h' = control h" "p + n \<le> b + u + 8"
      "Heap_Block_size h' b = u" "b + u \<le> last_block h"
      "heap_rel h' (insert (b, u) (allocated h (xs @ (s, True) # ys) - {(b, s)}))"
      using Heap_Block_allocate_used [OF inv ys, folded b_def, OF _ k] by blast
    have "Heap_Block_at b u = b + u" "uadd (usub (b + u) p) HEAP_ALLOC_BONUS = b + u + 8 - p"
      using A(3,5) lt area_length [of p "b + u"] by (simp_all add: Heap_Block_at_def uadd_id)
    then have "Heap_Resize_block_checked h b p n =
        (upd_stats (\<lambda>s. s\<lparr>st_resizes := inc32 (st_resizes s)\<rparr>) h', HEAP_RESIZE_SUCCESSFUL, b + s + 8 - p, b + u + 8 - p)"
      unfolding Heap_Resize_block_checked_def Let_def N(2,3) e using nf True A(1,4) by simp
    then show ?thesis using True A(2,3,6) by auto
  qed
qed

lemma Heap_Resize_grow:
  assumes inv: "heap_inv h (xs @ (s, True) # (t, False) # zs) fl"
  defines "b \<equiv> first_block h + span xs"
  assumes p: "address_of h p (b, s)" "p \<le> b + s + 8"
  shows "if n \<le> b + s + t + 8 - p
    then \<exists>h' u. Heap_Resize_block_checked h b p n = (h', HEAP_RESIZE_SUCCESSFUL, b + s + 8 - p, b + u + 8 - p)
      \<and> p + n \<le> b + u + 8 \<and> control h' = control h
      \<and> heap_rel h' (insert (b, u) (allocated h (xs @ (s, True) # (t, False) # zs) - {(b, s)}))
    else Heap_Resize_block_checked h b p n = (h, HEAP_RESIZE_UNSATISFIED, b + s + 8 - p, 0)"
proof -
  have wf: "wf_heap h (xs @ (s, True) # (t, False) # zs) fl"
    and st: "stats_ok (stats h) (xs @ (s, True) # (t, False) # zs) fl" using inv by (simp_all add: heap_inv_def)
  note N = flag_of_next [OF wf, folded b_def] and X = free_neighbour_after [OF wf, folded b_def]
  have lt: "last_block h + 16 < UW" using wf geometryD(8) [of h] by (simp add: wf_heap_def)
  have nf: "Heap_Is_free h (b + s)" using is_free_next [OF wf] by (auto simp: b_def)
  have e: "uadd b s = b + s" "uadd (usub (b + s) p) HEAP_ALLOC_BONUS = b + s + 8 - p" "uadd s t = s + t"
    "uadd (b + s + 8 - p) t = b + s + t + 8 - p" "Heap_Block_at b (s + t) = b + (s + t)"
    using N(3,4) X(4) lt area_length [of p "b + s"] p(2) by (simp_all add: Heap_Block_at_def uadd_id)
  show ?thesis
  proof (cases "n \<le> b + s + t + 8 - p")
    case False
    then show ?thesis
      unfolding Heap_Resize_block_checked_def Let_def N(2,3) e X(1) using nf e by simp
  next
    case True
    let ?d = "\<lambda>st. st\<lparr>st_free_blocks := dec32 (st_free_blocks st), st_free_size := usub (st_free_size st) t\<rparr>"
    define h1 where "h1 = upd_stats ?d (grown h b s t)"
    note G = grown_ok [OF wf, folded b_def]
    obtain fl' where fl': "wf_heap (grown h b s t) (xs @ (s + t, True) # zs) fl'" "length fl = Suc (length fl')"
      using G(1) by blast
    have c1: "control h1 = control h" "first_block h1 = first_block h" "page_size h1 = page_size h"
      "last_block h1 = last_block h" using G(4) by (simp_all add: h1_def control_def upd_stats_def)
    have "stats_ok (?d (stats h)) (xs @ (s + t, True) # zs) fl'"
      using st fl'(2) heap_inv_free_total_bound [OF wf] by (simp add: stats_ok_def usub_id)
    then have inv1: "heap_inv h1 (xs @ (s + t, True) # zs) fl'"
      using fl'(1) G(3) by (simp add: heap_inv_def h1_def)
    obtain k where k: "p = b + 16 + k" "k < page_size h1" "n + k + 16 \<le> s + t + 8"
      using p True c1(3) by (auto simp: address_of_def heap_consts dest!: le_Suc_ex)
    obtain h' u where A: "Heap_Block_allocate b p n h1 = (h', b)" "control h' = control h1" "p + n \<le> b + u + 8"
      "Heap_Block_size h' b = u" "b + u \<le> last_block h1"
      "heap_rel h' (insert (b, u) (allocated h1 (xs @ (s + t, True) # zs) - {(b, s + t)}))"
      using Heap_Block_allocate_used [OF inv1 G(2), unfolded c1(2), folded b_def, OF _ k] by blast
    have "wf_heap h1 (xs @ (s + t, True) # zs) fl'" using inv1 by (simp add: heap_inv_def)
    from used_at_remove [OF this, unfolded c1(2), folded b_def] used_at_remove [OF wf, folded b_def]
    have "allocated h1 (xs @ (s + t, True) # zs) - {(b, s + t)}
        = allocated h (xs @ (s, True) # (t, False) # zs) - {(b, s)}"
      unfolding allocated_def c1(2) by (simp add: add.assoc)
    with A(6) have rel: "heap_rel h' (insert (b, u) (allocated h (xs @ (s, True) # (t, False) # zs) - {(b, s)}))" by simp
    have l: "Heap_Block_at b u = b + u" "uadd (usub (b + u) p) HEAP_ALLOC_BONUS = b + u + 8 - p"
      using A(3,5) lt c1(4) area_length [of p "b + u"] by (simp_all add: Heap_Block_at_def uadd_id)
    have "Heap_Resize_block_checked h b p n =
        (upd_stats (\<lambda>s. s\<lparr>st_resizes := inc32 (st_resizes s)\<rparr>) h', HEAP_RESIZE_SUCCESSFUL, b + s + 8 - p, b + u + 8 - p)"
      unfolding Heap_Resize_block_checked_def Let_def N(2,3) e X(1)
      using nf True A(1,4) l e by (simp add: h1_def grown_def mark_used_def)
    then show ?thesis using True A(2,3) c1(1) rel by auto
  qed
qed

section \<open>Properties\<close>

text \<open>The size of a free block at an address.\<close>

definition room_behind :: "heap \<Rightarrow> nat \<Rightarrow> nat" where
  "room_behind h n = (if Heap_Is_free h n then Heap_Block_size h n else 0)"

text \<open>
  C4. \<open>_Heap_Resize_block\<close> of an allocated block reports the usable size of the old area; it
  succeeds exactly if the new size fits in the block together with a free block behind it. Then
  the block has the same address and room for the new size, the reported new size is that room
  and every other allocated block is as before. Otherwise nothing changes.
\<close>

theorem Heap_Resize_contract:
  assumes "heap_inv h bs fl" and "(b, s) \<in> allocated h bs" and "address_of h p (b, s)" and "p \<le> b + s + 8"
  shows "if n \<le> b + s + room_behind h (b + s) + 8 - p
    then \<exists>h' u. Heap_Resize_block h p n = (h', HEAP_RESIZE_SUCCESSFUL, b + s + 8 - p, b + u + 8 - p)
      \<and> p + n \<le> b + u + 8 \<and> control h' = control h \<and> heap_rel h' (insert (b, u) (allocated h bs - {(b, s)}))
    else Heap_Resize_block h p n = (h, HEAP_RESIZE_UNSATISFIED, b + s + 8 - p, 0)"
proof -
  have "(b, s) \<in> used_at (first_block h) bs" using assms(2) by (simp add: allocated_def)
  then obtain xs ys where bs: "bs = xs @ (s, True) # ys" "b = first_block h + span xs" using used_at_split by blast
  note inv = assms(1) [unfolded bs(1)]
  have wf: "wf_heap h (xs @ (s, True) # ys) fl" using inv by (simp add: heap_inv_def)
  have r: "Heap_Resize_block h p n = Heap_Resize_block_checked h b p n"
    using block_of_address [OF wf assms(3) [unfolded bs(2)]] by (simp add: Heap_Resize_block_def bs(2))
  show ?thesis
  proof (cases "ys \<noteq> [] \<and> \<not> snd (hd ys)")
    case True
    then obtain t zs where ys: "ys = (t, False) # zs" by (cases ys) auto
    have "room_behind h (b + s) = t"
      using is_free_next [OF wf] True free_neighbour_after(1) [OF wf [unfolded ys]] bs(2) by (simp add: room_behind_def)
    with Heap_Resize_grow [OF inv [unfolded ys], folded bs(2), OF assms(3,4), of n] show ?thesis
      unfolding r bs(1) ys by simp
  next
    case False
    then have "room_behind h (b + s) = 0" using is_free_next [OF wf] bs(2) by (auto simp: room_behind_def)
    with Heap_Resize_keep [OF inv _ assms(3,4) [unfolded bs(2)], of n] False show ?thesis
      unfolding r bs by auto
  qed
qed

text \<open>
  \<open>_Heap_Size_of_alloc_area\<close> gives the usable size of an allocated area: from its address
  to the end of its block, and 8 bytes more, which belong to the header of the next block.
\<close>

theorem Heap_Size_of_alloc_area_contract:
  assumes "heap_inv h bs fl" and "(b, s) \<in> allocated h bs" and "address_of h p (b, s)" and "p \<le> b + s + 8"
  shows "Heap_Size_of_alloc_area h p = Some (b + s + 8 - p)"
proof -
  have "(b, s) \<in> used_at (first_block h) bs" using assms(2) by (simp add: allocated_def)
  then obtain xs ys where bs: "bs = xs @ (s, True) # ys" "b = first_block h + span xs" using used_at_split by blast
  have wf: "wf_heap h (xs @ (s, True) # ys) fl" using assms(1) bs(1) by (simp add: heap_inv_def)
  note A = block_of_address [OF wf assms(3) [unfolded bs(2)], folded bs(2)] and N = flag_of_next [OF wf, folded bs(2)]
  have "last_block h + 16 < UW" using wf geometryD(8) [of h] by (simp add: wf_heap_def)
  then show ?thesis
    unfolding Heap_Size_of_alloc_area_def Let_def A(1) N(2,3)
    using A(2) N(1,4,6) assms(4) by (simp add: heap_consts uadd_id usub_id Heap_Is_block_in_heap_def)
qed

end
