(* ===== verification/Heap_Info.thy ===== *)
theory Heap_Info
  imports Heap_Release
begin

text \<open>
  Reading a heap: \<open>_Heap_Iterate\<close>, \<open>_Heap_Get_information\<close> and \<open>_Heap_Get_free_information\<close>.
\<close>

section \<open>Definitions\<close>

record heap_information =
  hi_number :: nat
  hi_largest :: nat
  hi_total :: nat

record heap_information_block =
  Free_info :: heap_information
  Used_info :: heap_information
  Stats_info :: heap_stats

definition no_blocks :: heap_information where
  "no_blocks = \<lparr>hi_number = 0, hi_largest = 0, hi_total = 0\<rparr>"

text \<open>The visitor gets the block, its size and whether it is used; it tells whether to stop.\<close>

partial_function (option) iterate_loop ::
  "heap \<Rightarrow> (nat \<Rightarrow> nat \<Rightarrow> bool \<Rightarrow> 'a \<Rightarrow> bool \<times> 'a) \<Rightarrow> nat \<Rightarrow> bool \<Rightarrow> 'a \<Rightarrow> 'a option" where
  "iterate_loop h visitor current stop arg =
     (if \<not> stop \<and> current \<noteq> last_block h
      then
        let sz = Heap_Block_size h current;
            next_block = Heap_Block_at current sz;
            r = visitor current sz (Heap_Is_prev_used h next_block) arg
        in iterate_loop h visitor next_block (fst r) (snd r)
      else Some arg)"

declare iterate_loop.simps [code]

definition Heap_Iterate :: "heap \<Rightarrow> (nat \<Rightarrow> nat \<Rightarrow> bool \<Rightarrow> 'a \<Rightarrow> bool \<times> 'a) \<Rightarrow> 'a \<Rightarrow> 'a option" where
  "Heap_Iterate h visitor arg = iterate_loop h visitor (first_block h) False arg"

definition count_block :: "nat \<Rightarrow> heap_information \<Rightarrow> heap_information" where
  "count_block sz info =
     info\<lparr>hi_number := uadd (hi_number info) 1, hi_total := uadd (hi_total info) sz,
          hi_largest := (if hi_largest info < sz then sz else hi_largest info)\<rparr>"

definition Heap_Get_information_visitor ::
  "nat \<Rightarrow> nat \<Rightarrow> bool \<Rightarrow> heap_information_block \<Rightarrow> bool \<times> heap_information_block" where
  "Heap_Get_information_visitor block sz used info =
     (False, if used then info\<lparr>Used_info := count_block sz (Used_info info)\<rparr>
             else info\<lparr>Free_info := count_block sz (Free_info info)\<rparr>)"

definition Heap_Get_information :: "heap \<Rightarrow> heap_information_block option" where
  "Heap_Get_information h =
     map_option (\<lambda>info. info\<lparr>Stats_info := stats h\<rparr>)
       (Heap_Iterate h Heap_Get_information_visitor
         \<lparr>Free_info = no_blocks, Used_info = no_blocks, Stats_info = zero_stats\<rparr>)"

text \<open>Here the size of a block is first stored in a variable of type \<open>uint32_t\<close>.\<close>

partial_function (option) free_info_loop :: "heap \<Rightarrow> nat \<Rightarrow> heap_information \<Rightarrow> heap_information option" where
  "free_info_loop h block info =
     (if block \<noteq> free_list h
      then free_info_loop h (next h block) (count_block (Heap_Block_size h block mod 2 ^ 32) info)
      else Some info)"

declare free_info_loop.simps [code]

definition Heap_Get_free_information :: "heap \<Rightarrow> heap_information option" where
  "Heap_Get_free_information h = free_info_loop h (Heap_Free_list_first h) no_blocks"

section \<open>Iteration\<close>

text \<open>What a visitor makes of the list of blocks.\<close>

fun visit :: "(nat \<Rightarrow> nat \<Rightarrow> bool \<Rightarrow> 'a \<Rightarrow> bool \<times> 'a) \<Rightarrow> nat \<Rightarrow> block_list \<Rightarrow> 'a \<Rightarrow> 'a" where
  "visit v a [] arg = arg"
| "visit v a ((s, u) # bs) arg = (if fst (v a s u arg) then snd (v a s u arg) else visit v (a + s) bs (snd (v a s u arg)))"

lemma iterate_loop_ok:
  assumes "wf_heap h (xs @ ys) fl"
  shows "iterate_loop h v (first_block h + span xs) False arg = Some (visit v (first_block h + span xs) ys arg)"
  using assms
proof (induction ys arbitrary: xs arg)
  case Nil
  then show ?case using wf_heap_last [of h xs fl] by (subst iterate_loop.simps) simp
next
  case (Cons y ys)
  obtain s u where y: "y = (s, u)" by (cases y)
  have wf: "wf_heap h (xs @ (s, u) # ys) fl" using Cons.prems y by simp
  define a where "a = first_block h + span xs"
  note N = flag_of_next [OF wf, folded a_def]
  have "0 < s" using wf geometryD(6) [of h] by (auto simp: wf_heap_def seg_append)
  then have ne: "a \<noteq> last_block h" using N(4) by simp
  have stop: "iterate_loop h v c True z = Some z" for c z by (subst iterate_loop.simps) simp
  have "iterate_loop h v a False arg = iterate_loop h v (a + s) (fst (v a s u arg)) (snd (v a s u arg))"
    using ne N(1-3) by (subst iterate_loop.simps) (simp add: Let_def)
  moreover have "iterate_loop h v (a + s) False z = Some (visit v (a + s) ys z)" for z
    using Cons.IH [of "xs @ [(s, u)]" z] wf by (simp add: a_def add.assoc)
  ultimately show ?case
    unfolding a_def [symmetric] y by (cases "fst (v a s u arg)") (simp_all add: stop)
qed

text \<open>
  \<open>_Heap_Iterate\<close> returns; it calls the visitor once for each block from the first to the
  last, in the order of their addresses, with the size and state of the block, until the
  visitor asks to stop.
\<close>

theorem Heap_Iterate_visits:
  assumes "heap_inv h bs fl"
  shows "Heap_Iterate h v arg = Some (visit v (first_block h) bs arg)"
  using assms iterate_loop_ok [of h "[]" bs fl v arg] by (simp add: Heap_Iterate_def heap_inv_def)

section \<open>Information\<close>

definition sizes :: "bool \<Rightarrow> block_list \<Rightarrow> nat list" where
  "sizes v bs = map fst (filter (\<lambda>b. snd b = v) bs)"

definition summary :: "nat list \<Rightarrow> heap_information" where
  "summary ss = \<lparr>hi_number = length ss mod UW, hi_largest = Max (insert 0 (set ss)), hi_total = sum_list ss mod UW\<rparr>"

lemma count_block_summary: "count_block t (summary ss) = summary (ss @ [t])"
proof -
  have "Max (insert 0 (set (ss @ [t]))) = Max (insert t (insert 0 (set ss)))" by (simp add: insert_commute)
  also have "\<dots> = max t (Max (insert 0 (set ss)))" by (rule Max_insert) auto
  also have "\<dots> = (if Max (insert 0 (set ss)) < t then t else Max (insert 0 (set ss)))"
    by (simp only: max_def not_less [symmetric] if_not_P split: if_split) linarith
  finally show ?thesis
    unfolding count_block_def summary_def by (simp add: uadd_def mod_simps del: Max_less_iff)
qed

lemma fold_count_block: "fold count_block ts (summary ss) = summary (ss @ ts)"
  by (induction ts arbitrary: ss) (simp_all add: count_block_summary)

lemma sizes_simps [simp]:
  "sizes v [] = []" "sizes v ((s, u) # bs) = (if u = v then s # sizes v bs else sizes v bs)"
  "sizes v (xs @ ys) = sizes v xs @ sizes v ys"
  by (simp_all add: sizes_def)

lemma visit_information:
  "visit Heap_Get_information_visitor a bs info = info\<lparr>Used_info := fold count_block (sizes True bs) (Used_info info),
     Free_info := fold count_block (sizes False bs) (Free_info info)\<rparr>"
  by (induction bs arbitrary: a info rule: span.induct) (auto simp: Heap_Get_information_visitor_def)

lemma no_blocks_summary: "no_blocks = summary []"
  by (simp add: no_blocks_def summary_def)

text \<open>The numbers of a well-formed heap do not overflow.\<close>

lemma sizes_bound:
  assumes "wf_heap h bs fl"
  shows "length (sizes v bs) < UW" "sum_list (sizes v bs) < UW"
proof -
  have "length (sizes v bs) \<le> span bs \<and> sum_list (sizes v bs) \<le> span bs"
    if "seg h a pu bs e eu" "0 < min_block_size h" for a pu e eu
    using that
  proof (induction bs arbitrary: a pu rule: span.induct)
    case (2 s u bs)
    from "2.IH" [of "a + s" u] 2(2,3) show ?case by auto
  qed simp
  moreover have "span bs < UW" using wf_heap_last [OF assms] assms geometryD(8) [of h] by (auto simp: wf_heap_def)
  ultimately show "length (sizes v bs) < UW" "sum_list (sizes v bs) < UW"
    using assms geometryD(6) [of h] by (fastforce simp: wf_heap_def)+
qed

definition exact_summary :: "nat list \<Rightarrow> heap_information" where
  "exact_summary ss = \<lparr>hi_number = length ss, hi_largest = Max (insert 0 (set ss)), hi_total = sum_list ss\<rparr>"

text \<open>
  C6. \<open>_Heap_Get_information\<close> reports the number, the largest size and the total size of the
  free blocks and of the used blocks, exactly.
\<close>

theorem Heap_Get_information_exact:
  assumes "heap_inv h bs fl"
  shows "Heap_Get_information h = Some \<lparr>Free_info = exact_summary (sizes False bs),
    Used_info = exact_summary (sizes True bs), Stats_info = stats h\<rparr>"
proof -
  have wf: "wf_heap h bs fl" using assms by (simp add: heap_inv_def)
  have "summary (sizes v bs) = exact_summary (sizes v bs)" for v
    using sizes_bound [OF wf, of v] by (simp add: summary_def exact_summary_def)
  then show ?thesis
    using iterate_loop_ok [of h "[]" bs fl Heap_Get_information_visitor] wf
    by (simp add: Heap_Get_information_def Heap_Iterate_def visit_information no_blocks_summary fold_count_block)
qed

lemma free_info_loop_ok:
  assumes "dlist (next h) (prev h) (l @ fl @ [free_list h])" and "free_list h \<notin> set fl" and "l \<noteq> []"
  shows "free_info_loop h (hd (fl @ [free_list h])) info
    = Some (fold count_block (map (\<lambda>b. Heap_Block_size h b mod 2 ^ 32) fl) info)"
  using assms
proof (induction fl arbitrary: l info)
  case Nil
  then show ?case by (subst free_info_loop.simps) simp
next
  case (Cons x fl)
  obtain m r where mr: "fl @ [free_list h] = m # r" by (cases fl) auto
  have "dlist (next h) (prev h) (l @ x # m # r)" using Cons.prems(1) mr by simp
  then have nx: "next h x = hd (fl @ [free_list h])" unfolding dlist_parts mr by simp
  have "free_info_loop h x info
      = free_info_loop h (next h x) (count_block (Heap_Block_size h x mod 2 ^ 32) info)"
    using Cons.prems(2) by (subst free_info_loop.simps) auto
  then show ?case
    using Cons.IH [of "l @ [x]"] Cons.prems nx by simp
qed

text \<open>
  \<open>_Heap_Get_free_information\<close> returns, and is exact as long as every free block is smaller
  than 4 GiB; in general it sees the size of each free block only modulo \<open>2 ^ 32\<close>, because it
  keeps the size in a 32-bit variable.
\<close>

theorem Heap_Get_free_information_value:
  assumes "heap_inv h bs fl"
  shows "Heap_Get_free_information h = Some (summary (map (\<lambda>b. Heap_Block_size h b mod 2 ^ 32) fl))"
proof -
  have wf: "wf_heap h bs fl" using assms by (simp add: heap_inv_def)
  have ring: "free_ring h fl" using wf by (simp add: wf_heap_def)
  have first: "Heap_Free_list_first h = hd (fl @ [free_list h])"
    using ring by (cases fl) (auto simp: dlist_def Heap_Free_list_first_def)
  have d: "dlist (next h) (prev h) ([free_list h] @ fl @ [free_list h])" using ring by simp
  have n: "free_list h \<notin> set fl" using ring_distinct [OF ring] by blast
  show ?thesis
    unfolding Heap_Get_free_information_def first no_blocks_summary
    using free_info_loop_ok [OF d n, of "summary []"] fold_count_block [of _ "[]"] by simp
qed

end
