(* ===== verification/Heap_Client.thy ===== *)
theory Heap_Client
  imports Heap_Resize Heap_Info
begin

text \<open>
  What the users of the heap rely on, as an interface: blocks are handed out and taken back,
  no two of them overlap, and no request gets stuck. The interface is proved for the heap
  handler; the facts about clients that allocate and free in any order are proved in it once.
\<close>

section \<open>The interface of an allocator\<close>

text \<open>
  A client of an allocator with the list of its areas: the addresses and the requests they
  were made for. It releases areas by their position in the list.
\<close>

datatype 'r heap_request = Allocate 'r | Release nat

fun client_step :: "('h \<Rightarrow> 'r \<Rightarrow> ('h \<times> nat) option) \<Rightarrow> ('h \<Rightarrow> nat \<Rightarrow> 'h \<times> bool)
    \<Rightarrow> 'h \<times> (nat \<times> 'r) list \<Rightarrow> 'r heap_request \<Rightarrow> ('h \<times> (nat \<times> 'r) list) option" where
  "client_step alloc free (h, live) (Allocate r) =
     (case alloc h r of None \<Rightarrow> None
      | Some (h', p) \<Rightarrow> Some (h', if p = 0 then live else (p, r) # live))"
| "client_step alloc free (h, live) (Release i) =
     (if i < length live
      then case free h (fst (live ! i)) of
             (h', True) \<Rightarrow> Some (h', take i live @ drop (Suc i) live)
           | (h', False) \<Rightarrow> None
      else Some (h, live))"

fun client_run :: "('h \<Rightarrow> 'r \<Rightarrow> ('h \<times> nat) option) \<Rightarrow> ('h \<Rightarrow> nat \<Rightarrow> 'h \<times> bool)
    \<Rightarrow> 'h \<times> (nat \<times> 'r) list \<Rightarrow> 'r heap_request list \<Rightarrow> ('h \<times> (nat \<times> 'r) list) option" where
  "client_run alloc free s [] = Some s"
| "client_run alloc free s (c # cs) =
     (case client_step alloc free s c of None \<Rightarrow> None | Some s' \<Rightarrow> client_run alloc free s' cs)"

locale allocator =
  fixes rel :: "'h \<Rightarrow> 'b set \<Rightarrow> bool" and valid :: "'h \<Rightarrow> 'r \<Rightarrow> bool"
    and alloc :: "'h \<Rightarrow> 'r \<Rightarrow> ('h \<times> nat) option" and free :: "'h \<Rightarrow> nat \<Rightarrow> 'h \<times> bool"
    and frame :: "'h \<Rightarrow> 'c" and owns :: "'h \<Rightarrow> nat \<Rightarrow> 'b \<Rightarrow> bool" and fits :: "nat \<Rightarrow> 'r \<Rightarrow> 'b \<Rightarrow> bool" and disj :: "'b \<Rightarrow> 'b \<Rightarrow> bool"
  assumes alloc_spec: "rel h B \<Longrightarrow> valid h r \<Longrightarrow> \<exists>h' p. alloc h r = Some (h', p) \<and> frame h' = frame h
      \<and> (p = 0 \<longrightarrow> rel h' B)
      \<and> (p \<noteq> 0 \<longrightarrow> (\<exists>blk. blk \<notin> B \<and> rel h' (insert blk B) \<and> owns h p blk \<and> fits p r blk \<and> (\<forall>b \<in> B. disj b blk)))"
    and free_spec: "rel h B \<Longrightarrow> blk \<in> B \<Longrightarrow> owns h p blk \<Longrightarrow>
      \<exists>h'. free h p = (h', True) \<and> frame h' = frame h \<and> rel h' (B - {blk})"
    and frame_valid: "frame h' = frame h \<Longrightarrow> valid h' = valid h"
    and frame_owns: "frame h' = frame h \<Longrightarrow> owns h' = owns h"
    and disj_sym: "disj a b \<Longrightarrow> disj b a"
begin

definition client_ok :: "'h \<Rightarrow> (nat \<times> 'r) list \<Rightarrow> 'b list \<Rightarrow> bool" where
  "client_ok h live blks \<longleftrightarrow> rel h (set blks) \<and> distinct blks
     \<and> list_all2 (\<lambda>(p, r) blk. owns h p blk \<and> fits p r blk) live blks
     \<and> (\<forall>x \<in> set blks. \<forall>y \<in> set blks. x \<noteq> y \<longrightarrow> disj x y)"

abbreviation valid_request :: "'h \<Rightarrow> 'r heap_request \<Rightarrow> bool" where
  "valid_request h c \<equiv> (case c of Allocate r \<Rightarrow> valid h r | Release i \<Rightarrow> True)"

lemma client_allocates:
  assumes "client_ok h live blks" and "valid h r"
  shows "\<exists>h' live' blks'. client_step alloc free (h, live) (Allocate r) = Some (h', live')
    \<and> frame h' = frame h \<and> client_ok h' live' blks'"
proof -
  have c: "rel h (set blks)" "distinct blks" "list_all2 (\<lambda>(p, r) blk. owns h p blk \<and> fits p r blk) live blks"
    "\<forall>x \<in> set blks. \<forall>y \<in> set blks. x \<noteq> y \<longrightarrow> disj x y"
    using assms(1) by (simp_all add: client_ok_def)
  obtain h' p where a: "alloc h r = Some (h', p)" "frame h' = frame h"
    "p = 0 \<longrightarrow> rel h' (set blks)"
    "p \<noteq> 0 \<longrightarrow> (\<exists>blk. blk \<notin> set blks \<and> rel h' (insert blk (set blks)) \<and> owns h p blk \<and> fits p r blk
        \<and> (\<forall>b \<in> set blks. disj b blk))"
    using alloc_spec [OF c(1) assms(2)] by blast
  show ?thesis
  proof (cases "p = 0")
    case True
    with a c frame_owns [OF a(2)] show ?thesis by (auto simp: client_ok_def intro!: exI [of _ blks])
  next
    case False
    then obtain blk where b: "blk \<notin> set blks" "rel h' (insert blk (set blks))" "owns h p blk" "fits p r blk"
      "\<forall>b \<in> set blks. disj b blk" using a(4) by blast
    note o = frame_owns [OF a(2)]
    have "client_ok h' ((p, r) # live) (blk # blks)"
      unfolding client_ok_def using o b c disj_sym by simp
    with a False show ?thesis by auto
  qed
qed

lemma list_all2_remove:
  "list_all2 P xs ys \<Longrightarrow> list_all2 P (take i xs @ drop (Suc i) xs) (take i ys @ drop (Suc i) ys)"
  by (intro list_all2_appendI list_all2_takeI list_all2_dropI)

lemma client_releases:
  assumes "client_ok h live blks"
  shows "\<exists>h' live' blks'. client_step alloc free (h, live) (Release i) = Some (h', live')
    \<and> frame h' = frame h \<and> client_ok h' live' blks'"
proof (cases "i < length live")
  case False
  then show ?thesis using assms by auto
next
  case True
  have c: "rel h (set blks)" "distinct blks" "list_all2 (\<lambda>(p, r) blk. owns h p blk \<and> fits p r blk) live blks"
    "\<forall>x \<in> set blks. \<forall>y \<in> set blks. x \<noteq> y \<longrightarrow> disj x y"
    using assms by (simp_all add: client_ok_def)
  have l: "length live = length blks" using c(3) by (rule list_all2_lengthD)
  then have i: "blks ! i \<in> set blks" "owns h (fst (live ! i)) (blks ! i)"
    using True list_all2_nthD [OF c(3) True] by (auto split: prod.splits)
  obtain h' where f: "free h (fst (live ! i)) = (h', True)" "frame h' = frame h"
    "rel h' (set blks - {blks ! i})"
    using free_spec [OF c(1) i] by blast
  let ?b = "take i blks @ drop (Suc i) blks"
  have "distinct (take i blks @ blks ! i # drop (Suc i) blks)"
    "set (take i blks @ blks ! i # drop (Suc i) blks) = set blks"
    using True l c(2) by (simp_all flip: id_take_nth_drop)
  then have d: "distinct ?b" "set ?b = set blks - {blks ! i}" by auto
  have "client_ok h' (take i live @ drop (Suc i) live) ?b"
    unfolding client_ok_def frame_owns [OF f(2)] d(2) using c(4) f(3) d(1) list_all2_remove [OF c(3), of i] by blast
  with f True show ?thesis by auto
qed

lemma client_run_ok:
  assumes "client_ok h live blks" and "\<forall>r. Allocate r \<in> set cs \<longrightarrow> valid h r"
  shows "\<exists>h' live' blks'. client_run alloc free (h, live) cs = Some (h', live') \<and> frame h' = frame h \<and> client_ok h' live' blks'"
  using assms
proof (induction cs arbitrary: h live blks)
  case Nil
  then show ?case by auto
next
  case (Cons c cs)
  have "\<exists>h' live' blks'. client_step alloc free (h, live) c = Some (h', live') \<and> frame h' = frame h \<and> client_ok h' live' blks'"
    using Cons.prems client_allocates client_releases by (cases c) auto
  then obtain h1 live1 blks1 where s: "client_step alloc free (h, live) c = Some (h1, live1)" "frame h1 = frame h"
    "client_ok h1 live1 blks1" by blast
  with Cons.IH [OF s(3)] Cons.prems(2) frame_valid [OF s(2)] show ?case by auto
qed

lemma alloc_free:
  assumes "rel h B" and "valid h r" and "alloc h r = Some (h', p)" and "p \<noteq> 0"
  shows "\<exists>h''. free h' p = (h'', True) \<and> rel h'' B"
proof -
  obtain blk where b: "blk \<notin> B" "rel h' (insert blk B)" "owns h p blk" "frame h' = frame h"
    using alloc_spec [OF assms(1,2)] assms(3,4) by auto
  from free_spec [OF b(2), of blk p] b frame_owns [OF b(4)] obtain h'' where "free h' p = (h'', True)" "rel h'' (insert blk B - {blk})"
    by auto
  with b(1) show ?thesis by simp
qed

end

section \<open>The heap handler as an allocator\<close>

fun heap_alloc :: "heap \<Rightarrow> nat \<times> nat \<times> nat \<Rightarrow> (heap \<times> nat) option" where
  "heap_alloc h (n, alignment, boundary) = Heap_Allocate_aligned_with_boundary h n alignment boundary"

fun heap_valid :: "heap \<Rightarrow> nat \<times> nat \<times> nat \<Rightarrow> bool" where
  "heap_valid h (n, alignment, boundary) \<longleftrightarrow> n < UW \<and> (alignment = 0 \<or> page_size h dvd alignment)"

fun heap_fits :: "nat \<Rightarrow> nat \<times> nat \<times> nat \<Rightarrow> nat \<times> nat \<Rightarrow> bool" where
  "heap_fits p (n, alignment, boundary) blk \<longleftrightarrow> area_in p n blk \<and> (alignment \<noteq> 0 \<longrightarrow> alignment dvd p)
     \<and> (boundary \<noteq> 0 \<longrightarrow> not_crossing boundary p n)"

lemma allocated_frame: "control h' = control h \<Longrightarrow> allocated h' bs = allocated h bs"
  by (simp add: allocated_def control_def)

lemma heap_alloc_spec:
  assumes "heap_rel h B" and "heap_valid h r"
  shows "\<exists>h' p. heap_alloc h r = Some (h', p) \<and> control h' = control h \<and> (p = 0 \<longrightarrow> heap_rel h' B)
    \<and> (p \<noteq> 0 \<longrightarrow> (\<exists>blk. blk \<notin> B \<and> heap_rel h' (insert blk B) \<and> address_of h p blk \<and> heap_fits p r blk
        \<and> (\<forall>b \<in> B. apart b blk)))"
proof -
  obtain bs fl where inv: "heap_inv h bs fl" and B: "B = allocated h bs" using assms(1) by (auto simp: heap_rel_def)
  obtain n al bd where r: "r = (n, al, bd)" by (cases r)
  then have v: "n < UW" "al = 0 \<or> page_size h dvd al" using assms(2) by auto
  from Heap_Allocate_returns [OF inv v, of bd] obtain h' p where
    A: "Heap_Allocate_aligned_with_boundary h n al bd = Some (h', p)" "control h' = control h"
      "p = 0 \<longrightarrow> heap_inv h' bs fl"
      "p \<noteq> 0 \<longrightarrow> (\<exists>blk. heap_rel h' (insert blk (allocated h bs)) \<and> area_in p n blk
         \<and> address_of h p blk \<and> (\<forall>blk' \<in> allocated h bs. apart blk' blk) \<and> (al \<noteq> 0 \<longrightarrow> al dvd p)
         \<and> (bd \<noteq> 0 \<longrightarrow> not_crossing bd p n))" by blast
  have "blk \<notin> B" if "area_in p n blk" "\<forall>blk' \<in> B. apart blk' blk" for blk
    using that by (auto simp: area_in_def apart_def heap_consts)
  with A(4) have "p \<noteq> 0 \<longrightarrow> (\<exists>blk. blk \<notin> B \<and> heap_rel h' (insert blk B) \<and> address_of h p blk \<and> heap_fits p r blk
        \<and> (\<forall>b \<in> B. apart b blk))"
    unfolding B r heap_fits.simps by metis
  moreover have "p = 0 \<longrightarrow> heap_rel h' B"
    using A(2,3) allocated_frame [OF A(2)] unfolding B by (auto intro: heap_relI)
  ultimately show ?thesis using A(1,2) r by auto
qed

lemma heap_free_spec:
  assumes "heap_rel h B" and "blk \<in> B" and "address_of h p blk"
  shows "\<exists>h'. Heap_Free h p = (h', True) \<and> control h' = control h \<and> heap_rel h' (B - {blk})"
proof -
  obtain bs fl where inv: "heap_inv h bs fl" and B: "B = allocated h bs" using assms(1) by (auto simp: heap_rel_def)
  obtain b s where blk: "blk = (b, s)" by (cases blk)
  with assms(2) B have "(b, s) \<in> used_at (first_block h) bs" by (simp add: allocated_def)
  then obtain xs ys where bs: "bs = xs @ (s, True) # ys" "b = first_block h + span xs" using used_at_split by blast
  from Heap_Free_inv [OF inv [unfolded bs(1)], of p] assms(3) show ?thesis
    unfolding B blk bs by simp
qed

interpretation heap_allocator: allocator heap_rel heap_valid heap_alloc Heap_Free control address_of heap_fits apart
proof (unfold_locales, goal_cases)
  case (1 h B r)
  then show ?case by (rule heap_alloc_spec)
next
  case (2 h B blk p)
  then show ?case by (rule heap_free_spec)
next
  case (3 h' h)
  then show ?case by (auto simp: control_def fun_eq_iff)
next
  case (4 h' h)
  then show ?case by (auto simp: control_def address_of_def fun_eq_iff)
next
  case (5 a b)
  then show ?case by (auto simp: apart_def)
qed

section \<open>Properties\<close>

text \<open>
  C2. \<open>_Heap_Allocate_aligned_with_boundary\<close> returns on every well-formed heap, for every size
  and boundary and every alignment that is a multiple of the page size (or absent). If it
  returns 0, no block changed, and without constraints this means that every free block was too
  small. Else exactly one block became allocated; it overlaps no other allocated block, and the
  area satisfies the alignment and boundary constraints.
\<close>

theorem Heap_Allocate_contract:
  assumes "heap_inv h bs fl" and "n < UW" and "al = 0 \<or> page_size h dvd al"
  shows "\<exists>h' p. Heap_Allocate_aligned_with_boundary h n al boundary = Some (h', p) \<and> control h' = control h
    \<and> (p = 0 \<longrightarrow> heap_inv h' bs fl \<and> (al = 0 \<and> boundary = 0 \<longrightarrow> (\<forall>(s, u) \<in> set bs. u \<or> s < n + 8)))
    \<and> (p \<noteq> 0 \<longrightarrow> (\<exists>blk. heap_rel h' (insert blk (allocated h bs)) \<and> area_in p n blk
         \<and> address_of h p blk \<and> (\<forall>blk' \<in> allocated h bs. apart blk' blk) \<and> (al \<noteq> 0 \<longrightarrow> al dvd p)
         \<and> (boundary \<noteq> 0 \<longrightarrow> not_crossing boundary p n)))"
  using assms by (rule Heap_Allocate_returns)

text \<open>
  C3. \<open>_Heap_Free\<close> of the address of an allocated block succeeds, whatever its neighbours are,
  and releases exactly that block; the address of a block that is free is refused, and so is
  any address outside of the heap, both without a change.
\<close>

theorem Heap_Free_contract:
  assumes "heap_inv h bs fl" and "address_of h p (b, s)"
  shows "((b, s) \<in> allocated h bs \<longrightarrow>
      (\<exists>h'. Heap_Free h p = (h', True) \<and> heap_rel h' (allocated h bs - {(b, s)}) \<and> control h' = control h))
    \<and> (b \<in> addrs False (first_block h) bs \<longrightarrow> Heap_Free h p = (h, False))
    \<and> (\<not> Heap_Is_block_in_heap h (Heap_Block_of_alloc_area p (page_size h)) \<longrightarrow> Heap_Free h p = (h, False))"
proof (intro conjI impI)
  have rel: "heap_rel h (allocated h bs)" using assms(1) by (rule heap_relI) simp
  show "\<exists>h'. Heap_Free h p = (h', True) \<and> heap_rel h' (allocated h bs - {(b, s)}) \<and> control h' = control h"
    if "(b, s) \<in> allocated h bs"
    using heap_free_spec [OF rel that assms(2)] by blast
  show "Heap_Free h p = (h, False)" if "b \<in> addrs False (first_block h) bs"
  proof -
    obtain xs t ys where bs: "bs = xs @ (t, False) # ys" "b = first_block h + span xs" using addrs_split \<open>b \<in> addrs False (first_block h) bs\<close> by blast
    have "wf_heap h (xs @ (t, False) # ys) fl" using assms(1) bs(1) by (simp add: heap_inv_def)
    moreover have "address_of h p (first_block h + span xs, t)" using assms(2) bs(2) by (simp add: address_of_def)
    ultimately show ?thesis by (rule Heap_Free_refuses)
  qed
  show "Heap_Free h p = (h, False)" if "\<not> Heap_Is_block_in_heap h (Heap_Block_of_alloc_area p (page_size h))"
    using that assms(2) by (auto simp: Heap_Free_def address_of_def heap_consts)
qed

fun req_size :: "nat \<times> nat \<times> nat \<Rightarrow> nat" where
  "req_size (n, alignment, boundary) = n"

lemma live_areas:
  assumes "heap_allocator.client_ok h live blks" and "i < length live" and "j < length live" and "i \<noteq> j"
  defines "p \<equiv> fst (live ! i)" and "q \<equiv> fst (live ! j)"
  shows "p + req_size (snd (live ! i)) \<le> q \<or> q + req_size (snd (live ! j)) \<le> p"
proof -
  have c: "distinct blks" "list_all2 (\<lambda>(p, r) blk. address_of h p blk \<and> heap_fits p r blk) live blks"
    "\<forall>x \<in> set blks. \<forall>y \<in> set blks. x \<noteq> y \<longrightarrow> apart x y"
    using assms(1) by (simp_all add: heap_allocator.client_ok_def)
  have l: "length live = length blks" using c(2) by (rule list_all2_lengthD)
  have a: "area_in (fst (live ! k)) (req_size (snd (live ! k))) (blks ! k)" if "k < length live" for k
    using list_all2_nthD [OF c(2) that] by (auto split: prod.splits)
  have "apart (blks ! i) (blks ! j)"
    using c(1,3) assms(2-4) l by (metis nth_eq_iff_index_eq nth_mem)
  with a [OF assms(2)] a [OF assms(3)] show ?thesis
    by (auto simp: apart_def area_in_def heap_consts p_def q_def)
qed

lemma live_area_inside:
  assumes "heap_allocator.client_ok h live blks" and "(p, r) \<in> set live"
  shows "first_block h + 16 \<le> p \<and> p + req_size r \<le> last_block h + 8
    \<and> (\<exists>blk. heap_fits p r blk)"
proof -
  have c: "heap_rel h (set blks)" "list_all2 (\<lambda>(p, r) blk. address_of h p blk \<and> heap_fits p r blk) live blks"
    using assms(1) by (simp_all add: heap_allocator.client_ok_def)
  obtain i where i: "i < length live" "live ! i = (p, r)" using assms(2) by (auto simp: in_set_conv_nth)
  have l: "length live = length blks" using c(2) by (rule list_all2_lengthD)
  have f: "heap_fits p r (blks ! i)" using list_all2_nthD [OF c(2) i(1)] i(2) by simp
  obtain bs fl where inv: "heap_inv h bs fl" "set blks = allocated h bs" using c(1) by (auto simp: heap_rel_def)
  obtain b s where b: "blks ! i = (b, s)" by (cases "blks ! i")
  have "(b, s) \<in> used_at (first_block h) bs"
    using inv(2) i(1) l b nth_mem [of i blks] by (simp add: allocated_def)
  then have "first_block h \<le> b" "b + s \<le> last_block h"
    using used_at_range [of b s] wf_heap_last [of h bs fl] inv(1) by (auto simp: heap_inv_def)
  with f b show ?thesis by (cases r) (auto simp: area_in_def heap_consts)
qed

text \<open>
  C1. From initialisation on, for every sequence of allocations and releases in which the alignments asked for are
  absent or multiples of the page size: no operation gets stuck, every area that is alive lies in the memory that the
  heap was given, satisfies its constraints, and no two of them overlap.
\<close>

theorem heap_client_safe:
  assumes "0 < align" and "even align" and "0 < start" and "start + 32 + pg + align < UW" and "area_size < UW"
    and "free_list h < start \<or> start + area_size \<le> free_list h"
    and "Heap_Initialize align start area_size pg h = (h0, n)" and "n \<noteq> 0"
    and "\<forall>r. Allocate r \<in> set cs \<longrightarrow> heap_valid h0 r"
  shows "\<exists>h' live. client_run heap_alloc Heap_Free (h0, []) cs = Some (h', live)
    \<and> (\<forall>(p, size, alignment, boundary) \<in> set live. start \<le> p \<and> p + size \<le> start + area_size
        \<and> (alignment \<noteq> 0 \<longrightarrow> alignment dvd p) \<and> (boundary \<noteq> 0 \<longrightarrow> not_crossing boundary p size))
    \<and> (\<forall>i < length live. \<forall>j < length live. i \<noteq> j \<longrightarrow>
        fst (live ! i) + req_size (snd (live ! i)) \<le> fst (live ! j)
        \<or> fst (live ! j) + req_size (snd (live ! j)) \<le> fst (live ! i))"
proof -
  note I = Heap_Initialize_inv [OF assms(1-8)]
  have "heap_rel h0 {}" using I(1) by (rule heap_relI) (simp add: allocated_def)
  then have "heap_allocator.client_ok h0 [] []" by (simp add: heap_allocator.client_ok_def)
  from heap_allocator.client_run_ok [OF this assms(9)] obtain h' live blks where
    R: "client_run heap_alloc Heap_Free (h0, []) cs = Some (h', live)" "control h' = control h0"
      "heap_allocator.client_ok h' live blks" by blast
  have "start \<le> p \<and> p + size \<le> start + area_size
      \<and> (alignment \<noteq> 0 \<longrightarrow> alignment dvd p) \<and> (boundary \<noteq> 0 \<longrightarrow> not_crossing boundary p size)"
    if "(p, size, alignment, boundary) \<in> set live" for p size alignment boundary
    using live_area_inside [OF R(3) that] I(2,3) R(2) by (auto simp: control_def)
  with R live_areas [OF R(3)] show ?thesis by blast
qed

definition blank_heap :: heap where
  "blank_heap = \<lparr>free_list = 4096, page_size = 0, min_block_size = 0, area_begin = 0, area_end = 0, first_block = 0,
     last_block = 0, stats = zero_stats, prev_size = (\<lambda>_. 0), size_and_flag = (\<lambda>_. 0), next = (\<lambda>_. 0), prev = (\<lambda>_. 0)\<rparr>"

definition small_heap :: heap where
  "small_heap = fst (Heap_Initialize 16 65536 4096 0 blank_heap)"

lemmas heap_eval = Let_def heap_updates UW_def uadd_def usub_def inc32_def dec32_def set_flag_def clear_flag_def heap_consts
  Heap_Align_up_def Heap_Align_down_def Heap_Min_block_size_def Heap_Block_at_def Heap_Alloc_area_of_block_def
  Heap_Block_of_alloc_area_def Heap_Block_size_def Heap_Is_prev_used_def Heap_Block_set_size_def
  Heap_Is_block_in_heap_def Heap_Free_list_first_def

lemma small_heap_init: "Heap_Initialize 16 65536 4096 0 blank_heap = (small_heap, 4080)"
  "page_size small_heap = 16" "first_block small_heap = 65536" "last_block small_heap = 69616"
  "min_block_size small_heap = 32" "free_list small_heap = 4096"
proof -
  have "Heap_Get_first_and_last_block 65536 4096 16 32 = Some (65536, 69616)"
    by (simp add: Heap_Get_first_and_last_block_def heap_eval)
  moreover have "Heap_Min_block_size 16 = 32" by (simp add: heap_eval)
  ultimately show "Heap_Initialize 16 65536 4096 0 blank_heap = (small_heap, 4080)" "page_size small_heap = 16"
    "first_block small_heap = 65536" "last_block small_heap = 69616" "min_block_size small_heap = 32"
    "free_list small_heap = 4096"
    by (simp_all add: small_heap_def Heap_Initialize_def Heap_Set_last_block_size_def heap_eval blank_heap_def)
qed

lemma small_heap_inv: "heap_inv small_heap [(4080, False)] [65536]"
  using Heap_Initialize_inv(1) [OF _ _ _ _ _ _ small_heap_init(1)] small_heap_init(3)
  by (simp add: UW_def blank_heap_def)

theorem heap_client_safe_witness:
  "\<exists>h' live. client_run heap_alloc Heap_Free (small_heap, [])
     [Allocate (100, 0, 0), Allocate (40, 64, 256), Release 1, Allocate (8, 0, 0)] = Some (h', live)"
proof -
  let ?cs = "[Allocate (100, 0, 0), Allocate (40, 64, 256), Release 1, Allocate (8, 0, 0)]"
  have v: "\<forall>r. Allocate r \<in> set ?cs \<longrightarrow> heap_valid small_heap r" by (auto simp: UW_def small_heap_init)
  have "0 < (16::nat)" "even (16::nat)" "0 < (65536::nat)" "65536 + 32 + 0 + 16 < UW" "4096 < UW"
    "free_list blank_heap < 65536 \<or> 65536 + 4096 \<le> free_list blank_heap"
    by (simp_all add: UW_def blank_heap_def)
  from heap_client_safe [OF this small_heap_init(1) _ v] obtain h' live where
    "client_run heap_alloc Heap_Free (small_heap, []) ?cs = Some (h', live)" by auto
  then show ?thesis by blast
qed

text \<open>
  \<open>_Heap_Initialize\<close> refuses an area without touching the heap, or makes of it a heap that
  is one free block: inside the area, with a page-aligned size, and less than a page of the
  area's end is lost beside the header of the last block.
\<close>

theorem Heap_Initialize_contract:
  assumes "0 < align" and "even align" and "0 < start" and "start + 32 + pg + align < UW" and "area_size < UW"
    and "free_list h < start \<or> start + area_size \<le> free_list h"
    and "Heap_Initialize align start area_size pg h = (h', n)" and "n \<noteq> 0"
  shows "heap_inv h' [(n, False)] [first_block h'] \<and> heap_rel h' {} \<and> page_size h' dvd n
    \<and> start \<le> first_block h' \<and> last_block h' = first_block h' + n
    \<and> last_block h' + HEAP_BLOCK_HEADER_SIZE \<le> start + area_size
    \<and> start + area_size < last_block h' + HEAP_BLOCK_HEADER_SIZE + page_size h'"
proof -
  note I = Heap_Initialize_inv [OF assms]
  have "heap_rel h' {}" using I(1) by (rule heap_relI) (simp add: allocated_def)
  moreover have wf: "wf_heap h' [(n, False)] [first_block h']" using I(1) by (simp add: heap_inv_def)
  moreover have "page_size h' dvd n" using wf by (auto simp: wf_heap_def)
  ultimately show ?thesis using I wf_heap_last [OF wf] by (simp add: heap_consts)
qed

lemma small_init_hyps:
  "0 < (16::nat)" "even (16::nat)" "0 < (65536::nat)" "65536 + 32 + 0 + 16 < UW" "4096 < UW"
  "free_list blank_heap < 65536 \<or> 65536 + 4096 \<le> free_list blank_heap"
  by (simp_all add: UW_def blank_heap_def)

theorem Heap_Initialize_contract_witness:
  "heap_rel small_heap {} \<and> last_block small_heap = first_block small_heap + 4080"
  using Heap_Initialize_contract [OF small_init_hyps small_heap_init(1)] by simp

theorem Heap_Allocate_contract_witness:
  "\<exists>h' p blk. Heap_Allocate_aligned_with_boundary small_heap 100 0 0 = Some (h', p) \<and> p \<noteq> 0
     \<and> heap_rel h' {blk} \<and> area_in p 100 blk"
proof -
  have "100 < UW" "0 = 0 \<or> page_size small_heap dvd 0" by (simp_all add: UW_def)
  from Heap_Allocate_contract [OF small_heap_inv this, of 0] show ?thesis
    by (auto simp: allocated_def)
qed

lemma small_alloc:
  obtains h p b s bs fl where "Heap_Allocate_aligned_with_boundary small_heap 100 0 0 = Some (h, p)" "p \<noteq> 0"
    "heap_inv h bs fl" "allocated h bs = {(b, s)}" "address_of h p (b, s)" "area_in p 100 (b, s)"
proof -
  have "heap_rel small_heap {}" using small_heap_inv by (rule heap_relI) (simp add: allocated_def)
  have v: "100 < UW" "0 = 0 \<or> page_size small_heap dvd 0" by (simp_all add: UW_def)
  from Heap_Allocate_returns [OF small_heap_inv v, of 0] obtain h p where
    A: "Heap_Allocate_aligned_with_boundary small_heap 100 0 0 = Some (h, p)" "control h = control small_heap" "p \<noteq> 0"
      and "\<exists>blk. heap_rel h {blk} \<and> area_in p 100 blk \<and> address_of small_heap p blk"
    by (auto simp: allocated_def)
  then obtain b s where B: "heap_rel h {(b, s)}" "area_in p 100 (b, s)" "address_of small_heap p (b, s)" by auto
  then obtain bs fl where "heap_inv h bs fl" "allocated h bs = {(b, s)}" by (auto simp: heap_rel_def)
  moreover have "address_of h p (b, s)" using B(3) A(2) by (simp add: address_of_def control_def)
  ultimately show thesis using that A B by blast
qed

theorem Heap_Free_contract_witness:
  "\<exists>h p h'. Heap_Allocate_aligned_with_boundary small_heap 100 0 0 = Some (h, p) \<and> p \<noteq> 0
     \<and> Heap_Free h p = (h', True) \<and> heap_rel h' {}"
proof -
  obtain h p b s bs fl where S: "Heap_Allocate_aligned_with_boundary small_heap 100 0 0 = Some (h, p)" "p \<noteq> 0"
    "heap_inv h bs fl" "allocated h bs = {(b, s)}" "address_of h p (b, s)" "area_in p 100 (b, s)"
    using small_alloc .
  from Heap_Free_contract [OF S(3,5)] S show ?thesis by auto
qed

theorem Heap_Resize_contract_witness:
  "\<exists>h p h' old new. Heap_Allocate_aligned_with_boundary small_heap 100 0 0 = Some (h, p)
     \<and> Heap_Resize_block h p 40 = (h', HEAP_RESIZE_SUCCESSFUL, old, new) \<and> 100 \<le> old \<and> 40 \<le> new"
proof -
  obtain h p b s bs fl where S: "Heap_Allocate_aligned_with_boundary small_heap 100 0 0 = Some (h, p)" "p \<noteq> 0"
    "heap_inv h bs fl" "allocated h bs = {(b, s)}" "address_of h p (b, s)" "area_in p 100 (b, s)"
    using small_alloc .
  then have "p + 100 \<le> b + s + 8" by (simp add: area_in_def heap_consts)
  then have le: "p \<le> b + s + 8" "40 \<le> b + s + room_behind h (b + s) + 8 - p" "100 \<le> b + s + 8 - p"
    by linarith+
  have m: "(b, s) \<in> allocated h bs" using S(4) by simp
  from Heap_Resize_contract [OF S(3) m S(5) le(1), of 40] le(2) obtain h' u where
    "Heap_Resize_block h p 40 = (h', HEAP_RESIZE_SUCCESSFUL, b + s + 8 - p, b + u + 8 - p)" "p + 40 \<le> b + u + 8" by auto
  moreover have "40 \<le> b + u + 8 - p" using calculation(2) by linarith
  ultimately show ?thesis using S(1) le(3) by blast
qed

theorem Heap_Size_of_alloc_area_contract_witness:
  "\<exists>h p n. Heap_Allocate_aligned_with_boundary small_heap 100 0 0 = Some (h, p)
     \<and> Heap_Size_of_alloc_area h p = Some n \<and> 100 \<le> n"
proof -
  obtain h p b s bs fl where S: "Heap_Allocate_aligned_with_boundary small_heap 100 0 0 = Some (h, p)" "p \<noteq> 0"
    "heap_inv h bs fl" "allocated h bs = {(b, s)}" "address_of h p (b, s)" "area_in p 100 (b, s)"
    using small_alloc .
  then have "p + 100 \<le> b + s + 8" by (simp add: area_in_def heap_consts)
  then have le: "p \<le> b + s + 8" "100 \<le> b + s + 8 - p" by linarith+
  have m: "(b, s) \<in> allocated h bs" using S(4) by simp
  from Heap_Size_of_alloc_area_contract [OF S(3) m S(5) le(1)] S(1) le(2) show ?thesis by blast
qed

theorem Heap_Get_information_exact_witness:
  "Heap_Get_information small_heap = Some \<lparr>Free_info = \<lparr>hi_number = 1, hi_largest = 4080, hi_total = 4080\<rparr>,
    Used_info = \<lparr>hi_number = 0, hi_largest = 0, hi_total = 0\<rparr>, Stats_info = stats small_heap\<rparr>"
  using Heap_Get_information_exact [OF small_heap_inv] by (simp add: exact_summary_def)

end
