(* ===== verification/Heap_Writes.thy ===== *)
theory Heap_Writes
  imports Heap_Client
begin

text \<open>
  Clients that use their areas: between allocations and releases they write to the memory they were given. The
  fields of the block headers are memory, so this is the question whether an area covers a field that the heap
  still relies on. A write may change every field that shares a byte with an area that is alive, to any value.
\<close>

section \<open>What the invariant depends on\<close>

lemma seg_frame:
  assumes "seg h a pu bs e eu" and "page_size h' = page_size h" and "min_block_size h' = min_block_size h"
    and "even (page_size h)"
    and "\<And>x. x \<in> addrs True a bs \<union> addrs False a bs \<Longrightarrow> size_and_flag h' x = size_and_flag h x"
    and "\<And>x. x \<in> addrs False a bs \<Longrightarrow> prev_size h' (x + Heap_Block_size h x) = prev_size h (x + Heap_Block_size h x)"
  shows "seg h' a pu bs e eu"
  using assms(1,5,6)
proof (induction bs arbitrary: a pu rule: span.induct)
  case (2 s u bs)
  have s: "even s" using 2(2) assms(4) dvd_trans by auto
  have "Heap_Block_size h a = s" using 2(2) s by (simp add: Heap_Block_size_def)
  moreover have "seg h' (a + s) u bs e eu"
    by (rule "2.IH") (use 2(2-4) in auto)
  moreover have "size_and_flag h' a = size_and_flag h a" using 2(3) [of a] by (cases u) simp_all
  moreover have "\<not> u \<Longrightarrow> prev_size h' (a + Heap_Block_size h a) = prev_size h (a + Heap_Block_size h a)"
    using 2(4) [of a] by simp
  ultimately show ?case using 2(2) assms(2,3) by simp
qed simp

text \<open>
  The invariant depends only on the sizes of the blocks, the links of the free blocks and the size fields behind
  free blocks.
\<close>

lemma heap_inv_frame:
  assumes "heap_inv h bs fl" and "control h' = control h" and "stats h' = stats h"
    and "\<And>x. x \<in> insert (last_block h) (addrs True (first_block h) bs \<union> addrs False (first_block h) bs) \<Longrightarrow>
      size_and_flag h' x = size_and_flag h x"
    and "\<And>x. x \<in> insert (free_list h) (addrs False (first_block h) bs) \<Longrightarrow> next h' x = next h x \<and> prev h' x = prev h x"
    and "\<And>x. x \<in> addrs False (first_block h) bs \<Longrightarrow>
      prev_size h' (x + Heap_Block_size h x) = prev_size h (x + Heap_Block_size h x)"
  shows "heap_inv h' bs fl"
proof -
  have same: "page_size h' = page_size h" "min_block_size h' = min_block_size h" "first_block h' = first_block h"
    "last_block h' = last_block h" "free_list h' = free_list h"
    using assms(2) by (simp_all add: control_def)
  have wf: "wf_heap h bs fl" and st: "stats_ok (stats h) bs fl" using assms(1) by (simp_all add: heap_inv_def)
  have g: "geometry h" using wf by (simp add: wf_heap_def)
  obtain lu where lu: "seg h (first_block h) True bs (last_block h) lu"
    "size_and_flag h (last_block h) = usub (first_block h) (last_block h) + of_bool lu"
    using wf by (auto simp: wf_heap_def)
  have "seg h' (first_block h) True bs (last_block h) lu"
    by (rule seg_frame [OF lu(1)]) (use same assms(4,6) geometryD(2) [OF g] in auto)
  moreover have "dlist (next h') (prev h') (free_list h # fl @ [free_list h])"
    using wf assms(5) by (subst dlist_cong [of _ _ "next h" _ "prev h"]) (auto simp: wf_heap_def)
  moreover have "geometry h'" using g same by (rule geometry_cong)
  moreover have "size_and_flag h' (last_block h) = usub (first_block h) (last_block h) + of_bool lu"
    using lu(2) assms(4) by simp
  moreover have "bs \<noteq> []" "set fl = addrs False (first_block h) bs" using wf by (simp_all add: wf_heap_def)
  ultimately have "wf_heap h' bs fl" unfolding wf_heap_def same by blast
  then show ?thesis using st assms(3) by (simp add: heap_inv_def)
qed

section \<open>Writes\<close>

text \<open>The eight bytes at an address share a byte with an area.\<close>

definition touches :: "(nat \<times> nat \<times> nat \<times> nat) list \<Rightarrow> nat \<Rightarrow> bool" where
  "touches live a \<longleftrightarrow> (\<exists>(p, n, alignment, boundary) \<in> set live. p < a + 8 \<and> a < p + n)"

text \<open>The four fields of a header follow each other.\<close>

definition written :: "(nat \<times> nat \<times> nat \<times> nat) list \<Rightarrow> heap \<Rightarrow> heap \<Rightarrow> bool" where
  "written live h h' \<longleftrightarrow> control h' = control h \<and> stats h' = stats h
     \<and> (\<forall>x. \<not> touches live x \<longrightarrow> prev_size h' x = prev_size h x)
     \<and> (\<forall>x. \<not> touches live (x + 8) \<longrightarrow> size_and_flag h' x = size_and_flag h x)
     \<and> (\<forall>x. \<not> touches live (x + 16) \<longrightarrow> next h' x = next h x)
     \<and> (\<forall>x. \<not> touches live (x + 24) \<longrightarrow> prev h' x = prev h x)"

inductive heap_event :: "heap \<times> (nat \<times> nat \<times> nat \<times> nat) list \<Rightarrow> heap \<times> (nat \<times> nat \<times> nat \<times> nat) list \<Rightarrow> bool" where
  call_allocate: "heap_valid (fst s) r \<Longrightarrow> client_step heap_alloc Heap_Free s (Allocate r) = Some s' \<Longrightarrow> heap_event s s'"
| call_release: "client_step heap_alloc Heap_Free s (Release i) = Some s' \<Longrightarrow> heap_event s s'"
| client_write: "written live h h' \<Longrightarrow> heap_event (h, live) (h', live)"

text \<open>Blocks beside a used block.\<close>

lemma block_beside_used: "(b, s) \<in> used_at a bs \<Longrightarrow> y \<in> addrs v a bs \<Longrightarrow> y \<le> b \<or> b + s \<le> y"
proof (induction bs arbitrary: a rule: span.induct)
  case (2 t u bs)
  have "a + t \<le> z" if "z \<in> addrs v (a + t) bs" for z using addrs_split [OF that] by auto
  moreover have "a + t \<le> b" if "(b, s) \<in> used_at (a + t) bs" using used_at_range [OF that] by simp
  ultimately show ?case using 2 by (auto split: if_splits)
qed simp

lemma free_beside_used:
  assumes "wf_heap h bs fl" and "(b, s) \<in> used_at (first_block h) bs" and "y \<in> addrs False (first_block h) bs"
  shows "32 \<le> Heap_Block_size h y" "y + Heap_Block_size h y \<le> b \<or> b + s \<le> y"
proof -
  obtain us t vs where bs: "bs = us @ (t, False) # vs" "y = first_block h + span us" using addrs_split [OF assms(3)] by blast
  obtain pm where B: "geometry h" "min_block_size h \<le> t" "even t" "size_and_flag h y = t + of_bool pm"
    using wf_heap_block [OF assms(1) [unfolded bs(1)]] bs(2) by metis
  have sz: "Heap_Block_size h y = t" using B(3,4) by (simp add: Heap_Block_size_def)
  show "32 \<le> Heap_Block_size h y" using B(2) geometryD(3) [OF B(1)] sz by simp
  have "(b, s) \<in> used_at (first_block h) us \<or> (b, s) \<in> used_at (first_block h + span us + t) vs"
    using assms(2) by (simp add: bs(1))
  then show "y + Heap_Block_size h y \<le> b \<or> b + s \<le> y"
    using used_at_disjoint [OF assms(2) [unfolded bs(1)]] sz bs(2) by auto
qed

lemma untouched_fields:
  assumes "heap_inv h bs fl" and areas: "\<forall>(p, n, alignment, boundary) \<in> set live. \<exists>blk \<in> allocated h bs. area_in p n blk"
    and "free_list h + 16 \<le> first_block h \<or> last_block h < free_list h"
  shows "x \<in> insert (last_block h) (addrs True (first_block h) bs \<union> addrs False (first_block h) bs) \<Longrightarrow> \<not> touches live (x + 8)"
    and "x \<in> insert (free_list h) (addrs False (first_block h) bs) \<Longrightarrow> \<not> touches live (x + 16) \<and> \<not> touches live (x + 24)"
    and "x \<in> addrs False (first_block h) bs \<Longrightarrow> \<not> touches live (x + Heap_Block_size h x)"
proof -
  have wf: "wf_heap h bs fl" using assms(1) by (simp add: heap_inv_def)
  have T: "\<exists>b s. (b, s) \<in> used_at (first_block h) bs \<and> b + 16 < a + 8 \<and> a < b + s + 8" if "touches live a" for a
    using that areas unfolding touches_def allocated_def area_in_def heap_consts by fastforce
  have L: "first_block h \<le> b \<and> b + s \<le> last_block h" if "(b, s) \<in> used_at (first_block h) bs" for b s
    using used_at_range [OF that] wf_heap_last [OF wf] by simp
  show "\<not> touches live (x + 8)" if "x \<in> insert (last_block h) (addrs True (first_block h) bs \<union> addrs False (first_block h) bs)"
  proof
    assume "touches live (x + 8)"
    then obtain b s where b: "(b, s) \<in> used_at (first_block h) bs" "b < x" "x < b + s" using T by fastforce
    then show False using that L [OF b(1)] block_beside_used [OF b(1), of x] by auto
  qed
  show "\<not> touches live (x + 16) \<and> \<not> touches live (x + 24)" if x: "x \<in> insert (free_list h) (addrs False (first_block h) bs)"
  proof -
    have "\<not> (b < x + 16 \<and> x + 8 < b + s)" if "(b, s) \<in> used_at (first_block h) bs" for b s
      using x L [OF that] free_beside_used [OF wf that, of x] assms(3) by auto
    then have "\<not> (b + 16 < x + 24 + 8 \<and> x + 16 < b + s + 8)" if "(b, s) \<in> used_at (first_block h) bs" for b s
      using that by fastforce
    then show ?thesis using T [of "x + 16"] T [of "x + 24"] by fastforce
  qed
  show "\<not> touches live (x + Heap_Block_size h x)" if x: "x \<in> addrs False (first_block h) bs"
  proof
    assume "touches live (x + Heap_Block_size h x)"
    then obtain b s where b: "(b, s) \<in> used_at (first_block h) bs" "b + 8 < x + Heap_Block_size h x" "x + Heap_Block_size h x < b + s + 8"
      using T by fastforce
    then show False using free_beside_used [OF wf b(1) x] by linarith
  qed
qed

lemma written_ok:
  assumes "heap_allocator.client_ok h live blks" and "written live h h'"
    and "free_list h + 16 \<le> first_block h \<or> last_block h < free_list h"
  shows "heap_allocator.client_ok h' live blks"
proof -
  have c: "heap_rel h (set blks)" "distinct blks" "list_all2 (\<lambda>(p, r) blk. address_of h p blk \<and> heap_fits p r blk) live blks"
    "\<forall>x \<in> set blks. \<forall>y \<in> set blks. x \<noteq> y \<longrightarrow> apart x y"
    using assms(1) by (simp_all add: heap_allocator.client_ok_def)
  obtain bs fl where inv: "heap_inv h bs fl" "set blks = allocated h bs" using c(1) by (auto simp: heap_rel_def)
  have w: "control h' = control h" "stats h' = stats h" using assms(2) by (simp_all add: written_def)
  have "\<forall>(p, n, alignment, boundary) \<in> set live. \<exists>blk \<in> allocated h bs. area_in p n blk"
    using c(3) unfolding inv(2) [symmetric] list_all2_conv_all_nth
    by (auto simp: in_set_conv_nth split: prod.splits) (metis nth_mem prod.inject heap_fits.simps)
  note U = untouched_fields [OF inv(1) this assms(3)]
  have "heap_inv h' bs fl"
    by (rule heap_inv_frame [OF inv(1) w]) (use assms(2) U in \<open>auto simp: written_def\<close>)
  then have "heap_rel h' (set blks)" unfolding inv(2) using allocated_frame [OF w(1)] by (rule heap_relI)
  moreover have "address_of h' = address_of h" by (rule heap_allocator.frame_owns [OF w(1)])
  ultimately show ?thesis using c by (simp add: heap_allocator.client_ok_def)
qed

lemma heap_events_ok:
  assumes "heap_event\<^sup>*\<^sup>* s0 s" and "heap_allocator.client_ok (fst s0) (snd s0) blks0"
    and "free_list (fst s0) + 16 \<le> first_block (fst s0) \<or> last_block (fst s0) < free_list (fst s0)"
  shows "control (fst s) = control (fst s0) \<and> (\<exists>blks. heap_allocator.client_ok (fst s) (snd s) blks)"
  using assms(1)
proof (induction rule: rtranclp_induct)
  case base
  then show ?case using assms(2) by blast
next
  case (step s s')
  then obtain blks where I: "control (fst s) = control (fst s0)" "heap_allocator.client_ok (fst s) (snd s) blks" by blast
  have fl: "free_list (fst s) + 16 \<le> first_block (fst s) \<or> last_block (fst s) < free_list (fst s)"
    using I(1) assms(3) by (simp add: control_def)
  from step(2) show ?case
  proof cases
    case (call_allocate r)
    then show ?thesis using heap_allocator.client_allocates [OF I(2), of r] I(1) by (cases s) auto
  next
    case (call_release i)
    then show ?thesis using heap_allocator.client_releases [OF I(2), of i] I(1) by (cases s) auto
  next
    case (client_write live h h')
    then show ?thesis using written_ok [of h live blks h'] I fl by (auto simp: written_def)
  qed
qed

lemma Heap_Initialize_free_list: "Heap_Initialize align start area_size pg h = (h', n) \<Longrightarrow> free_list h' = free_list h"
  by (auto simp: Heap_Initialize_def Heap_Set_last_block_size_def Heap_Block_set_size_def Let_def heap_updates
      split: if_splits option.splits)

section \<open>Properties\<close>

text \<open>
  C5. Clients that stay in their areas cannot damage the heap. From initialisation on, allocations (with alignments
  that are absent or multiples of the page size), releases and writes to areas that are alive may follow each other
  in any order, and a write may leave any values in the fields that share a byte with these areas, such as the links of used
  blocks and the first field behind a used block. In every state that is reached the next allocation or release returns,
  every area lies in the memory of the heap, and no two areas overlap.
\<close>

theorem heap_survives_writes:
  assumes "0 < align" and "even align" and "0 < start" and "start + 32 + pg + align < UW" and "area_size < UW"
    and "free_list h + SIZEOF_HEAP_BLOCK \<le> start \<or> start + area_size \<le> free_list h"
    and "Heap_Initialize align start area_size pg h = (h0, n)" and "n \<noteq> 0"
    and "heap_event\<^sup>*\<^sup>* (h0, []) (h', live)"
  shows "(\<forall>r. heap_valid h' r \<longrightarrow> client_step heap_alloc Heap_Free (h', live) (Allocate r) \<noteq> None)
    \<and> (\<forall>i. client_step heap_alloc Heap_Free (h', live) (Release i) \<noteq> None)
    \<and> (\<forall>(p, size, alignment, boundary) \<in> set live. start \<le> p \<and> p + size \<le> start + area_size)
    \<and> (\<forall>i < length live. \<forall>j < length live. i \<noteq> j \<longrightarrow>
        fst (live ! i) + req_size (snd (live ! i)) \<le> fst (live ! j)
        \<or> fst (live ! j) + req_size (snd (live ! j)) \<le> fst (live ! i))"
proof -
  have fl: "free_list h < start \<or> start + area_size \<le> free_list h" using assms(6) by (auto simp: heap_consts)
  note I = Heap_Initialize_inv [OF assms(1-5) fl assms(7,8)]
  have "heap_rel h0 {}" using I(1) by (rule heap_relI) (simp add: allocated_def)
  then have ok: "heap_allocator.client_ok h0 [] []" by (simp add: heap_allocator.client_ok_def)
  have f: "free_list h0 = free_list h" using Heap_Initialize_free_list [OF assms(7)] .
  have "free_list h0 + 16 \<le> first_block h0 \<or> last_block h0 < free_list h0"
    using assms(6) I(2,3) unfolding f by (auto simp: heap_consts)
  with heap_events_ok [OF assms(9), of "[]"] ok obtain blks where
    R: "control h' = control h0" "heap_allocator.client_ok h' live blks" by auto
  have "client_step heap_alloc Heap_Free (h', live) (Allocate r) \<noteq> None" if "heap_valid h' r" for r
    using heap_allocator.client_allocates [OF R(2) that] by auto
  moreover have "client_step heap_alloc Heap_Free (h', live) (Release i) \<noteq> None" for i
    using heap_allocator.client_releases [OF R(2), of i] by auto
  moreover have "start \<le> p \<and> p + size \<le> start + area_size" if "(p, size, alignment, boundary) \<in> set live" for p size alignment boundary
    using live_area_inside [OF R(2) that] I(2,3) R(1) by (auto simp: control_def)
  ultimately show ?thesis using live_areas [OF R(2)] by blast
qed

text \<open>An area of 100 bytes, filled with arbitrary values, and released.\<close>

lemma small_written:
  obtains h p where "heap_alloc small_heap (100, 0, 0) = Some (h, p)" "p \<noteq> 0"
    "heap_event\<^sup>*\<^sup>* (small_heap, []) (set_next (p - 16) 7 h, [(p, 100, 0, 0)])"
proof -
  obtain h p b s bs fl where S: "Heap_Allocate_aligned_with_boundary small_heap 100 0 0 = Some (h, p)" "p \<noteq> 0"
    "heap_inv h bs fl" "allocated h bs = {(b, s)}" "address_of h p (b, s)" "area_in p 100 (b, s)"
    using small_alloc .
  have p: "16 \<le> p" using S(6) by (simp add: area_in_def heap_consts)
  have "heap_event (small_heap, []) (h, [(p, 100, 0, 0)])"
    by (rule call_allocate [where r = "(100, 0, 0)"]) (use S(1,2) in \<open>simp_all add: UW_def\<close>)
  moreover have "written [(p, 100, 0, 0)] h (set_next (p - 16) 7 h)"
    using p by (auto simp: written_def touches_def set_next_def control_def)
  ultimately have "heap_event\<^sup>*\<^sup>* (small_heap, []) (set_next (p - 16) 7 h, [(p, 100, 0, 0)])"
    by (meson client_write converse_rtranclp_into_rtranclp r_into_rtranclp)
  then show thesis using that S(1,2) by simp
qed

theorem heap_survives_writes_witness:
  "\<exists>h p. heap_alloc small_heap (100, 0, 0) = Some (h, p) \<and> p \<noteq> 0
     \<and> client_step heap_alloc Heap_Free (set_next (p - 16) 7 h, [(p, 100, 0, 0)]) (Release 0) \<noteq> None"
proof -
  obtain h p where S: "heap_alloc small_heap (100, 0, 0) = Some (h, p)" "p \<noteq> 0"
    "heap_event\<^sup>*\<^sup>* (small_heap, []) (set_next (p - 16) 7 h, [(p, 100, 0, 0)])" using small_written .
  have fl: "free_list blank_heap + SIZEOF_HEAP_BLOCK \<le> 65536 \<or> 65536 + 4096 \<le> free_list blank_heap"
    by (simp add: blank_heap_def heap_consts)
  have n0: "(4080 :: nat) \<noteq> 0" by simp
  from heap_survives_writes [OF small_init_hyps(1-5) fl small_heap_init(1) n0 S(3)]
  have "client_step heap_alloc Heap_Free (set_next (p - 16) 7 h, [(p, 100, 0, 0)]) (Release 0) \<noteq> None" by blast
  with S(1,2) show ?thesis by blast
qed

end
