(* ===== verification/Heap_Overlap.thy ===== *)
theory Heap_Overlap
  imports Heap_Client
begin

text \<open>
  Requests whose alignment is no multiple of the page size: the block that
  \<open>_Heap_Block_allocate_from_end\<close> cuts off does not depend on the offset of the area in its page, so the area
  handed out may be larger than the block.
\<close>

section \<open>Allocation from the end of a block\<close>

text \<open>The size of the block that holds an area of \<open>n\<close> bytes at its begin.\<close>

definition area_block_size :: "heap \<Rightarrow> nat \<Rightarrow> nat" where
  "area_block_size h n = Heap_Align_up (max n (min_block_size h - 16) + 16) (page_size h)"

lemma Heap_Block_split_cut:
  assumes c: "claimed h xs s ys fl" and cut: "max n (min_block_size h - 16) + 16 + min_block_size h \<le> s"
    and anchor: "anchor \<in> insert (free_list h) (set fl)" and st: "stats_ok (stats h) (xs @ (s, True) # ys) fl"
  defines "b \<equiv> first_block h + span xs" and "u \<equiv> area_block_size h n"
  shows "\<exists>fl'. heap_inv (Heap_Block_split b (b + s) anchor n h) (xs @ (u, True) # (s - u, False) # ys) fl'"
proof -
  obtain pm where C: "geometry h" "min_block_size h \<le> s" "page_size h dvd s" "even s"
    "size_and_flag h b = s + of_bool pm" "b + s \<le> last_block h"
    using claimedD [OF c] unfolding b_def by metis
  note gD = geometryD [OF C(1)]
  let ?used = "max n (min_block_size h - 16) + 16"
  have lt: "s + 16 < UW" using C(6) gD(8) by simp
  have sz: "Heap_Block_size h b = s" using C(4,5) by (simp add: Heap_Block_size_def)
  have used: "split_used_size h n = ?used" using cut lt gD(3) by (simp add: split_used_size_def heap_consts usub_id uadd_id)
  have free: "usub (uadd s HEAP_ALLOC_BONUS) ?used = s + 8 - ?used" "uadd (min_block_size h) HEAP_ALLOC_BONUS = min_block_size h + 8"
    using cut lt by (simp_all add: heap_consts usub_id uadd_id)
  have m: "page_size h dvd s - min_block_size h" "?used \<le> s - min_block_size h" "s - min_block_size h < UW"
    using C(3) gD(4) cut lt by (simp_all add: dvd_diff_nat)
  note A = align_up_spec [OF gD(1) m, folded area_block_size_def u_def]
  have u: "u + min_block_size h \<le> s" "min_block_size h \<le> u" "page_size h dvd u" using A cut gD(3) by simp_all
  have ge: "uadd (min_block_size h) HEAP_ALLOC_BONUS \<le> usub (uadd s HEAP_ALLOC_BONUS) ?used" unfolding free using cut by linarith
  have split: "Heap_Block_split b (b + s) anchor n h = split_free b (b + s) anchor u h"
    by (simp only: Heap_Block_split_def Let_def sz used if_P [OF ge] u_def area_block_size_def)
  note sf = split_free_ok [OF c u anchor, folded b_def]
  then obtain fl' where fl': "wf_heap (split_free b (b + s) anchor u h) (xs @ (u, True) # (s - u, False) # ys) fl'"
    "length fl' = Suc (length fl)" by blast
  have "stats_ok (stats (split_free b (b + s) anchor u h)) (xs @ (u, True) # (s - u, False) # ys) fl'"
    using st fl'(2) u(1) heap_inv_free_total_bound [OF fl'(1)] unfolding sf(2) stats_ok_def by (simp add: uadd_id algebra_simps)
  then show ?thesis unfolding split using fl'(1) by (auto simp: heap_inv_def)
qed

text \<open>
  C7. An area whose address is not at the begin of a page: if \<open>_Heap_Block_allocate\<close> is called for an address
  \<open>q\<close> bytes behind a page boundary that is far enough from both ends of a free block, the heap stays
  well-formed, but the size of the new block does not depend on \<open>q\<close>. The area of \<open>n\<close> bytes lies in
  the block exactly if \<open>q + n + 8\<close> is at most that size; otherwise its end covers the header of the free block
  that follows. Unlike \<open>_Heap_Block_allocate_from_begin\<close>, the function that allocates from the end does not add the
  offset of the area to the size.
\<close>

theorem from_end_ignores_offset:
  assumes "heap_inv h (xs @ (s, False) # ys) fl" and "b = first_block h + span xs"
    and "p = b + 16 + k + q" and "q < page_size h" and "page_size h dvd k" and "min_block_size h \<le> k"
    and "k + max n (min_block_size h - 16) + 16 + min_block_size h \<le> s"
  shows "\<exists>h' fl'. Heap_Block_allocate b p n h = (h', b + k)
    \<and> heap_inv h' (xs @ (k, False) # (area_block_size h n, True) # (s - k - area_block_size h n, False) # ys) fl'
    \<and> (area_in p n (b + k, area_block_size h n) \<longleftrightarrow> q + n + 8 \<le> area_block_size h n)"
proof -
  have k: "k + min_block_size h \<le> s" and ks: "b + k + (s - k) = b + s" using assms(7) by simp_all
  obtain hl fl2 where A: "Heap_Block_allocate b p n h = (upd_stats track_min (Heap_Block_split (b + k) (b + s) b n hl), b + k)"
    "claimed hl (xs @ [(k, False)]) (s - k) ys fl2" "b \<in> insert (free_list hl) (set fl2)"
    "stats_ok (stats hl) ((xs @ [(k, False)]) @ (s - k, True) # ys) fl2" "first_block hl = first_block h"
    "page_size hl = page_size h" "min_block_size hl = min_block_size h"
    unfolding assms(2) by (rule Heap_Block_allocate_lower [OF assms(1) assms(3) [unfolded assms(2)] assms(4-6) k, where alloc_size = n])
  have "max n (min_block_size hl - 16) + 16 + min_block_size hl \<le> s - k" using assms(7) A(7) by simp
  from Heap_Block_split_cut [OF A(2) this A(3,4)] obtain fl' where
    "heap_inv (Heap_Block_split (b + k) (b + s) b n hl) (xs @ (k, False) # (area_block_size h n, True) # (s - k - area_block_size h n, False) # ys) fl'"
    using ks A(5-7) assms(2) by (auto simp: area_block_size_def add.assoc)
  then show ?thesis using A(1) assms(3) by (auto simp: area_in_def heap_consts)
qed

section \<open>A request that overlaps\<close>

definition page64_heap :: heap where
  "page64_heap = fst (Heap_Initialize 16 65536 4160 64 blank_heap)"

lemma page64_fields: 
  "page_size page64_heap = 64" "min_block_size page64_heap = 64" "first_block page64_heap = 65584" "last_block page64_heap = 69680"
  "free_list page64_heap = 4096" "next page64_heap = (\<lambda>_. 0)(65584 := 4096, 4096 := 65584)" "prev page64_heap = (\<lambda>_. 0)(65584 := 4096, 4096 := 65584)"
  "size_and_flag page64_heap = (\<lambda>_. 0)(65584 := 4097, 69680 := 18446744073709547520)" "snd (Heap_Initialize 16 65536 4160 64 blank_heap) = 4096"
proof -
  have "Heap_Get_first_and_last_block 65536 4160 64 64 = Some (65584, 69680)"
    by (simp add: Heap_Get_first_and_last_block_def heap_eval)
  moreover have "Heap_Min_block_size 64 = 64" "Heap_Align_up 64 16 = 64" by (simp_all add: heap_eval)
  ultimately show "page_size page64_heap = 64" "min_block_size page64_heap = 64" "first_block page64_heap = 65584" "last_block page64_heap = 69680"
  "free_list page64_heap = 4096" "next page64_heap = (\<lambda>_. 0)(65584 := 4096, 4096 := 65584)" "prev page64_heap = (\<lambda>_. 0)(65584 := 4096, 4096 := 65584)"
  "size_and_flag page64_heap = (\<lambda>_. 0)(65584 := 4097, 69680 := 18446744073709547520)" "snd (Heap_Initialize 16 65536 4160 64 blank_heap) = 4096"
    by (simp_all add: page64_heap_def Heap_Initialize_def Heap_Set_last_block_size_def heap_eval blank_heap_def)
qed

lemma page64_boundary: "boundary_loop 80 16 128 65680 69600 = Some 69552"
  by (subst boundary_loop.simps, simp add: heap_eval, subst boundary_loop.simps, simp add: heap_eval)

lemma page64_check: "Heap_Check_block page64_heap 65584 80 16 128 = Some 69552"
  by (simp add: Heap_Check_block_def page64_fields heap_eval page64_boundary)

lemma page64_search: "Heap_search page64_heap 80 16 128 88 65584 0 = Some (65584, 69552, 1)"
  by (subst Heap_search.simps, simp add: page64_check page64_fields inc32_def)

lemma page64_inv: "heap_inv page64_heap [(4096, False)] [65584]"
proof -
  have "Heap_Initialize 16 65536 4160 64 blank_heap = (page64_heap, 4096)"
    using page64_fields(9) by (simp add: page64_heap_def prod_eq_iff)
  from Heap_Initialize_inv(1) [OF _ _ _ _ _ _ this] show ?thesis
    by (simp add: UW_def blank_heap_def page64_fields)
qed

text \<open>
  With pages of 64 bytes, 80 bytes with alignment 16 and boundary 128 are placed at 69552, 48 bytes behind
  the begin of a page, in the block at 69488 of size 128: 8 bytes too few.
\<close>

theorem from_end_ignores_offset_witness:
  "(\<exists>h''. Heap_Allocate_aligned_with_boundary page64_heap 80 16 128 = Some (h'', 69552))
    \<and> (\<exists>h' fl'. Heap_Block_allocate 65584 69552 80 page64_heap = (h', 69488)
      \<and> heap_inv h' [(3904, False), (128, True), (64, False)] fl' \<and> \<not> area_in 69552 80 (69488, 128))"
proof
  obtain h1 b where h1: "Heap_Block_allocate 65584 69552 80 page64_heap = (h1, b)" by fastforce
  show "\<exists>h''. Heap_Allocate_aligned_with_boundary page64_heap 80 16 128 = Some (h'', 69552)"
    unfolding Heap_Allocate_aligned_with_boundary_def
    by (simp add: page64_search page64_fields Let_def heap_consts usub_def uadd_def UW_def h1 Heap_Free_list_first_def)
  have "heap_inv page64_heap ([] @ (4096, False) # []) [65584]" "65584 = first_block page64_heap + span []"
    "69552 = 65584 + 16 + 3904 + (48 :: nat)" "48 < page_size page64_heap" "page_size page64_heap dvd 3904"
    "min_block_size page64_heap \<le> 3904"
    "3904 + max 80 (min_block_size page64_heap - 16) + 16 + min_block_size page64_heap \<le> 4096"
    using page64_inv by (simp_all add: page64_fields)
  from from_end_ignores_offset [OF this] show "\<exists>h' fl'. Heap_Block_allocate 65584 69552 80 page64_heap = (h', 69488)
      \<and> heap_inv h' [(3904, False), (128, True), (64, False)] fl' \<and> \<not> area_in 69552 80 (69488, 128)"
    by (simp add: area_block_size_def page64_fields Heap_Align_up_def uadd_def UW_def)
qed

end
