(* ===== verification/Chain.thy ===== *)
theory Chain
  imports Linked_List
begin

text \<open>
  The chain handler (\<^verbatim>\<open>cpukit/score/src/chain.c\<close>, \<^verbatim>\<open>cpukit/include/rtems/score/chainimpl.h\<close>),
  without \<open>RTEMS_DEBUG\<close>. A chain control at address \<open>c\<close> overlays a head node at \<open>c\<close> and a tail
  node 8 bytes behind; the word they share is the \<open>previous\<close> link of the head and the \<open>next\<close>
  link of the tail, always null. \<open>chain m c xs\<close> says that the control at \<open>c\<close> holds the nodes
  \<open>xs\<close>, in this order; every operation is the corresponding operation on the list.
\<close>

section \<open>Definitions\<close>

record chain_mem =
  cnext :: "nat \<Rightarrow> nat"
  cprev :: "nat \<Rightarrow> nat"

definition set_cnext :: "nat \<Rightarrow> nat \<Rightarrow> chain_mem \<Rightarrow> chain_mem" where
  "set_cnext a v m = m\<lparr>cnext := (cnext m)(a := v)\<rparr>"

definition set_cprev :: "nat \<Rightarrow> nat \<Rightarrow> chain_mem \<Rightarrow> chain_mem" where
  "set_cprev a v m = m\<lparr>cprev := (cprev m)(a := v)\<rparr>"

definition Chain_Head :: "nat \<Rightarrow> nat" where "Chain_Head c = c"
definition Chain_Tail :: "nat \<Rightarrow> nat" where "Chain_Tail c = c + 8"

text \<open>\<open>head->previous = NULL\<close>, which is also the \<open>next\<close> link of the tail.\<close>

definition clear_permanent_null :: "nat \<Rightarrow> chain_mem \<Rightarrow> chain_mem" where
  "clear_permanent_null c m = set_cnext (Chain_Tail c) 0 (set_cprev (Chain_Head c) 0 m)"

definition Chain_First :: "nat \<Rightarrow> chain_mem \<Rightarrow> nat" where
  "Chain_First c m = cnext m (Chain_Head c)"

definition Chain_Last :: "nat \<Rightarrow> chain_mem \<Rightarrow> nat" where
  "Chain_Last c m = cprev m (Chain_Tail c)"

definition Chain_Is_empty :: "nat \<Rightarrow> chain_mem \<Rightarrow> bool" where
  "Chain_Is_empty c m \<longleftrightarrow> Chain_First c m = Chain_Tail c"

definition Chain_Is_first :: "nat \<Rightarrow> chain_mem \<Rightarrow> bool" where
  "Chain_Is_first x m \<longleftrightarrow> cprev m (cprev m x) = 0"

definition Chain_Is_last :: "nat \<Rightarrow> chain_mem \<Rightarrow> bool" where
  "Chain_Is_last x m \<longleftrightarrow> cnext m (cnext m x) = 0"

definition Chain_Has_only_one_node :: "nat \<Rightarrow> chain_mem \<Rightarrow> bool" where
  "Chain_Has_only_one_node c m \<longleftrightarrow> Chain_First c m = Chain_Last c m"

definition Chain_Set_off_chain :: "nat \<Rightarrow> chain_mem \<Rightarrow> chain_mem" where
  "Chain_Set_off_chain x m = set_cnext x 0 m"

definition Chain_Is_node_off_chain :: "nat \<Rightarrow> chain_mem \<Rightarrow> bool" where
  "Chain_Is_node_off_chain x m \<longleftrightarrow> cnext m x = 0"

definition Chain_Initialize_empty :: "nat \<Rightarrow> chain_mem \<Rightarrow> chain_mem" where
  "Chain_Initialize_empty c m =
     set_cprev (Chain_Tail c) (Chain_Head c)
       (clear_permanent_null c (set_cnext (Chain_Head c) (Chain_Tail c) m))"

definition Chain_Initialize_one :: "nat \<Rightarrow> nat \<Rightarrow> chain_mem \<Rightarrow> chain_mem" where
  "Chain_Initialize_one c x m =
     (let m = set_cprev x (Chain_Head c) (set_cnext x (Chain_Tail c) m);
          m = clear_permanent_null c (set_cnext (Chain_Head c) x m)
      in set_cprev (Chain_Tail c) x m)"

text \<open>The loop of \<open>_Chain_Initialize\<close>: it links \<open>count\<close> nodes from \<open>nx\<close> on behind \<open>current\<close>.\<close>

fun link_nodes :: "nat \<Rightarrow> nat \<Rightarrow> nat \<Rightarrow> nat \<Rightarrow> chain_mem \<Rightarrow> nat \<times> chain_mem" where
  "link_nodes 0 node_size current nx m = (current, m)"
| "link_nodes (Suc count) node_size current nx m =
     link_nodes count node_size nx (nx + node_size) (set_cprev nx current (set_cnext current nx m))"

definition Chain_Initialize :: "nat \<Rightarrow> nat \<Rightarrow> nat \<Rightarrow> nat \<Rightarrow> chain_mem \<Rightarrow> chain_mem" where
  "Chain_Initialize c start number_nodes node_size m =
     (let (current, m) = link_nodes number_nodes node_size (Chain_Head c) start (clear_permanent_null c m)
      in set_cprev (Chain_Tail c) current (set_cnext current (Chain_Tail c) m))"

definition Chain_Extract_unprotected :: "nat \<Rightarrow> chain_mem \<Rightarrow> chain_mem" where
  "Chain_Extract_unprotected x m =
     (let n = cnext m x; p = cprev m x in set_cnext p n (set_cprev n p m))"

definition Chain_Get_first_unprotected :: "nat \<Rightarrow> chain_mem \<Rightarrow> nat \<times> chain_mem" where
  "Chain_Get_first_unprotected c m =
     (let old_first = cnext m (Chain_Head c);
          new_first = cnext m old_first
      in (old_first, set_cprev new_first (Chain_Head c) (set_cnext (Chain_Head c) new_first m)))"

definition Chain_Get_unprotected :: "nat \<Rightarrow> chain_mem \<Rightarrow> nat \<times> chain_mem" where
  "Chain_Get_unprotected c m = (if \<not> Chain_Is_empty c m then Chain_Get_first_unprotected c m else (0, m))"

definition Chain_Insert_unprotected :: "nat \<Rightarrow> nat \<Rightarrow> chain_mem \<Rightarrow> chain_mem" where
  "Chain_Insert_unprotected after_node x m =
     (let m = set_cprev x after_node m;
          before_node = cnext m after_node
      in set_cprev before_node x (set_cnext x before_node (set_cnext after_node x m)))"

definition Chain_Append_unprotected :: "nat \<Rightarrow> nat \<Rightarrow> chain_mem \<Rightarrow> chain_mem" where
  "Chain_Append_unprotected c x m =
     (let old_last = cprev m (Chain_Tail c)
      in set_cprev x old_last (set_cnext old_last x
           (set_cprev (Chain_Tail c) x (set_cnext x (Chain_Tail c) m))))"

definition Chain_Append_if_is_off_chain_unprotected :: "nat \<Rightarrow> nat \<Rightarrow> chain_mem \<Rightarrow> chain_mem" where
  "Chain_Append_if_is_off_chain_unprotected c x m =
     (if Chain_Is_node_off_chain x m then Chain_Append_unprotected c x m else m)"

definition Chain_Prepend_unprotected :: "nat \<Rightarrow> nat \<Rightarrow> chain_mem \<Rightarrow> chain_mem" where
  "Chain_Prepend_unprotected c x m = Chain_Insert_unprotected (Chain_Head c) x m"

definition Chain_Append_with_empty_check_unprotected :: "nat \<Rightarrow> nat \<Rightarrow> chain_mem \<Rightarrow> bool \<times> chain_mem" where
  "Chain_Append_with_empty_check_unprotected c x m = (Chain_Is_empty c m, Chain_Append_unprotected c x m)"

definition Chain_Prepend_with_empty_check_unprotected :: "nat \<Rightarrow> nat \<Rightarrow> chain_mem \<Rightarrow> bool \<times> chain_mem" where
  "Chain_Prepend_with_empty_check_unprotected c x m = (Chain_Is_empty c m, Chain_Prepend_unprotected c x m)"

text \<open>The result: whether the chain is empty now, the node (0 if there was none), the memory.\<close>

definition Chain_Get_with_empty_check_unprotected :: "nat \<Rightarrow> chain_mem \<Rightarrow> bool \<times> nat \<times> chain_mem" where
  "Chain_Get_with_empty_check_unprotected c m =
     (let old_first = cnext m (Chain_Head c)
      in if old_first \<noteq> Chain_Tail c
         then (let new_first = cnext m old_first
               in (new_first = Chain_Tail c, old_first,
                   set_cprev new_first (Chain_Head c) (set_cnext (Chain_Head c) new_first m)))
         else (True, 0, m))"

text \<open>The search for the place of an ordered insertion, and the count of the nodes.\<close>

partial_function (option) ordered_place :: "nat \<Rightarrow> chain_mem \<Rightarrow> (nat \<Rightarrow> bool) \<Rightarrow> nat \<Rightarrow> nat \<Rightarrow> nat option" where
  "ordered_place c m order previous nx =
     (if nx \<noteq> Chain_Tail c \<and> \<not> order nx
      then ordered_place c m order nx (cnext m nx)
      else Some previous)"

declare ordered_place.simps [code]

definition Chain_Insert_ordered_unprotected ::
  "nat \<Rightarrow> nat \<Rightarrow> (nat \<Rightarrow> bool) \<Rightarrow> chain_mem \<Rightarrow> chain_mem option" where
  "Chain_Insert_ordered_unprotected c x order m =
     map_option (\<lambda>p. Chain_Insert_unprotected p x m)
       (ordered_place c m order (Chain_Head c) (Chain_First c m))"

partial_function (option) count_nodes :: "nat \<Rightarrow> chain_mem \<Rightarrow> nat \<Rightarrow> nat \<Rightarrow> nat option" where
  "count_nodes c m node count =
     (if node \<noteq> Chain_Tail c then count_nodes c m (cnext m node) (count + 1) else Some count)"

declare count_nodes.simps [code]

definition Chain_Node_count_unprotected :: "nat \<Rightarrow> chain_mem \<Rightarrow> nat option" where
  "Chain_Node_count_unprotected c m = count_nodes c m (Chain_First c m) 0"

section \<open>Chains and lists\<close>

definition nodes :: "nat \<Rightarrow> nat list \<Rightarrow> nat set" where
  "nodes c xs = {Chain_Head c, Chain_Tail c} \<union> set xs"

definition chain :: "chain_mem \<Rightarrow> nat \<Rightarrow> nat list \<Rightarrow> bool" where
  "chain m c xs \<longleftrightarrow> dlist (cnext m) (cprev m) (Chain_Head c # xs @ [Chain_Tail c])
     \<and> cprev m (Chain_Head c) = 0 \<and> cnext m (Chain_Tail c) = 0 \<and> 0 \<notin> nodes c xs
     \<and> Chain_Head c \<notin> set xs \<and> Chain_Tail c \<notin> set xs"

lemmas chain_addr = Chain_Head_def Chain_Tail_def
lemmas chain_updates = set_cnext_def set_cprev_def clear_permanent_null_def

lemma chain_frame:
  assumes "chain m c xs" and "\<And>a. a \<in> nodes c xs \<Longrightarrow> cnext m' a = cnext m a"
    and "\<And>a. a \<in> nodes c xs \<Longrightarrow> cprev m' a = cprev m a"
  shows "chain m' c xs"
proof -
  have "set (Chain_Head c # xs @ [Chain_Tail c]) = nodes c xs" by (auto simp: nodes_def)
  then have "dlist (cnext m') (cprev m') (Chain_Head c # xs @ [Chain_Tail c])
      = dlist (cnext m) (cprev m) (Chain_Head c # xs @ [Chain_Tail c])"
    using assms(2,3) by (intro dlist_cong) auto
  then show ?thesis using assms by (simp add: chain_def nodes_def)
qed

lemma chain_distinct: "chain m c xs \<Longrightarrow> distinct xs"
  by (auto simp: chain_def dlist_def butlast_append)

lemma chain_ends:
  assumes "chain m c xs"
  shows "Chain_First c m = hd (xs @ [Chain_Tail c])" "Chain_Last c m = last (Chain_Head c # xs)"
    "Chain_Is_empty c m \<longleftrightarrow> xs = []"
proof -
  show f: "Chain_First c m = hd (xs @ [Chain_Tail c])"
    using assms by (cases xs) (auto simp: chain_def dlist_def Chain_First_def)
  show "Chain_Last c m = last (Chain_Head c # xs)"
  proof (cases xs rule: rev_cases)
    case Nil
    then show ?thesis using assms by (simp add: chain_def dlist_def Chain_Last_def)
  next
    case (snoc ys y)
    have "dlist (cnext m) (cprev m) ((Chain_Head c # ys) @ y # Chain_Tail c # [])"
      using assms snoc by (simp add: chain_def)
    then have "cprev m (Chain_Tail c) = y" unfolding dlist_parts by simp
    then show ?thesis using snoc by (simp add: Chain_Last_def)
  qed
  show "Chain_Is_empty c m \<longleftrightarrow> xs = []"
    using f assms by (cases xs) (auto simp: Chain_Is_empty_def chain_def)
qed

section \<open>Insertion\<close>

text \<open>Insertion of a node behind \<open>p\<close>, which is the head or a node of the chain.\<close>

lemma Chain_Insert_ok:
  assumes "chain m c (xs @ ys)" and "p = last (Chain_Head c # xs)" and "x \<notin> nodes c (xs @ ys)" and "x \<noteq> 0"
  shows "chain (Chain_Insert_unprotected p x m) c (xs @ x # ys)"
proof -
  obtain n r where nr: "ys @ [Chain_Tail c] = n # r" by (cases ys) auto
  obtain as where as: "Chain_Head c # xs = as @ [p]" using assms(2) by (metis append_butlast_last_id list.distinct(1))
  have L: "Chain_Head c # (xs @ ys) @ [Chain_Tail c] = as @ p # n # r"
    using as nr by (metis append.assoc append_Cons append_Nil)
  have d: "dlist (cnext m) (cprev m) (as @ p # n # r)" using assms(1) unfolding chain_def L by blast
  have s: "set (as @ p # n # r) = nodes c (xs @ ys)" unfolding L [symmetric] by (auto simp: nodes_def)
  have x: "x \<notin> set (as @ p # n # r)" using assms(3) s by simp
  have n: "cnext m p = n" using d unfolding dlist_parts by simp
  have ne: "x \<noteq> p" "x \<noteq> n" using x by auto
  have pn: "p \<in> nodes c (xs @ ys)" "n \<in> nodes c (xs @ ys)" using s by auto
  have mem: "cnext (Chain_Insert_unprotected p x m) = (cnext m)(x := n, p := x)"
    "cprev (Chain_Insert_unprotected p x m) = (cprev m)(x := p, n := x)"
    using n ne by (auto simp: Chain_Insert_unprotected_def chain_updates Let_def fun_upd_twist)
  have "Chain_Head c # (xs @ x # ys) @ [Chain_Tail c] = as @ p # x # n # r"
    using as nr by (metis append.assoc append_Cons append_Nil)
  moreover have "dlist ((cnext m)(x := n, p := x)) ((cprev m)(x := p, n := x)) (as @ p # x # n # r)"
    using d x by (rule dlist_insert)
  moreover have "p \<noteq> Chain_Tail c" "n \<noteq> Chain_Head c"
    using assms(1,2) nr by (cases xs rule: rev_cases; cases ys; auto simp: chain_def chain_addr)+
  ultimately show ?thesis
    using assms(1,3,4) unfolding chain_def mem by (auto simp: nodes_def)
qed

lemma Chain_Append_as_insert:
  assumes "chain m c xs" and "x \<notin> nodes c xs"
  shows "Chain_Append_unprotected c x m = Chain_Insert_unprotected (Chain_Last c m) x m"
proof -
  have l: "Chain_Last c m = last (Chain_Head c # xs)" using chain_ends(2) [OF assms(1)] .
  have "cnext m (last (Chain_Head c # xs)) = Chain_Tail c"
  proof (cases xs rule: rev_cases)
    case Nil
    then show ?thesis using assms(1) by (simp add: chain_def dlist_def)
  next
    case (snoc ys y)
    have "dlist (cnext m) (cprev m) ((Chain_Head c # ys) @ y # Chain_Tail c # [])"
      using assms(1) snoc by (simp add: chain_def)
    then have "cnext m y = Chain_Tail c" unfolding dlist_parts by simp
    then show ?thesis using snoc by simp
  qed
  then have n: "cnext m (Chain_Last c m) = Chain_Tail c" using l by simp
  have "Chain_Last c m \<in> nodes c xs" using l by (cases xs rule: rev_cases) (auto simp: nodes_def)
  then have "x \<noteq> Chain_Last c m" "x \<noteq> Chain_Tail c" using assms(2) by (auto simp: nodes_def)
  with n show ?thesis
    by (auto simp: Chain_Append_unprotected_def Chain_Insert_unprotected_def chain_updates Let_def Chain_Last_def fun_upd_twist)
qed

lemma Chain_Append_ok:
  assumes "chain m c xs" and "x \<notin> nodes c xs" and "x \<noteq> 0"
  shows "chain (Chain_Append_unprotected c x m) c (xs @ [x])"
  unfolding Chain_Append_as_insert [OF assms(1,2)]
  using Chain_Insert_ok [of m c xs "[]" _ x] assms chain_ends(2) [OF assms(1)] by simp

lemma Chain_Prepend_ok:
  assumes "chain m c xs" and "x \<notin> nodes c xs" and "x \<noteq> 0"
  shows "chain (Chain_Prepend_unprotected c x m) c (x # xs)"
  using Chain_Insert_ok [of m c "[]" xs _ x] assms by (simp add: Chain_Prepend_unprotected_def)

text \<open>What an insertion leaves alone.\<close>

lemma Chain_Insert_frame:
  assumes "a \<noteq> x" and "a \<noteq> p" and "a \<noteq> cnext m p" and "x \<noteq> p"
  shows "cnext (Chain_Insert_unprotected p x m) a = cnext m a" "cprev (Chain_Insert_unprotected p x m) a = cprev m a"
  using assms by (auto simp: Chain_Insert_unprotected_def chain_updates Let_def)

lemma Chain_next_in_nodes:
  assumes "chain m c xs" and "p \<in> insert (Chain_Head c) (set xs)"
  shows "cnext m p \<in> nodes c xs"
proof -
  obtain as bs where ab: "Chain_Head c # xs = as @ p # bs"
    using assms(2) by (metis in_set_conv_decomp list.simps(15))
  obtain n r where nr: "bs @ [Chain_Tail c] = n # r" by (cases bs) auto
  have L: "Chain_Head c # xs @ [Chain_Tail c] = as @ p # n # r" using ab nr by (metis append.assoc append_Cons)
  then have "dlist (cnext m) (cprev m) (as @ p # n # r)" using assms(1) unfolding chain_def by simp
  then have "cnext m p = n" unfolding dlist_parts by simp
  moreover have "n \<in> set (Chain_Head c # xs @ [Chain_Tail c])" unfolding L by simp
  ultimately show ?thesis by (auto simp: nodes_def)
qed

lemma insert_keeps_other_chain:
  assumes "chain m c xs" and "chain m d ys" and "p \<in> insert (Chain_Head c) (set xs)"
    and "nodes d ys \<inter> insert x (nodes c xs) = {}" and "x \<noteq> p"
  shows "chain (Chain_Insert_unprotected p x m) d ys"
proof (rule chain_frame [OF assms(2)])
  fix a assume a: "a \<in> nodes d ys"
  have "p \<in> nodes c xs" using assms(3) by (auto simp: nodes_def)
  then have "a \<noteq> x" "a \<noteq> p" "a \<noteq> cnext m p" using a assms(4) Chain_next_in_nodes [OF assms(1,3)] by auto
  then show "cnext (Chain_Insert_unprotected p x m) a = cnext m a" "cprev (Chain_Insert_unprotected p x m) a = cprev m a"
    using assms(5) by (rule Chain_Insert_frame)+
qed

section \<open>Removal\<close>

lemma Chain_Extract_ok:
  assumes "chain m c (xs @ x # ys)"
  shows "chain (Chain_Extract_unprotected x m) c (xs @ ys)"
    "cprev m x = last (Chain_Head c # xs)" "cnext m x = hd (ys @ [Chain_Tail c])"
proof -
  obtain n r where nr: "ys @ [Chain_Tail c] = n # r" by (cases ys) auto
  obtain as p where as: "Chain_Head c # xs = as @ [p]" by (metis append_butlast_last_id list.distinct(1))
  have L: "Chain_Head c # (xs @ x # ys) @ [Chain_Tail c] = as @ p # x # n # r"
    using as nr by (metis append.assoc append_Cons append_Nil)
  have d: "dlist (cnext m) (cprev m) (as @ p # x # n # r)" using assms unfolding chain_def L by blast
  note D = dlist_remove [OF d]
  have "last (Chain_Head c # xs) = p" "hd (ys @ [Chain_Tail c]) = n" using as nr by simp_all
  then show "cprev m x = last (Chain_Head c # xs)" "cnext m x = hd (ys @ [Chain_Tail c])" using D by simp_all
  have mem: "cnext (Chain_Extract_unprotected x m) = (cnext m)(p := n)"
    "cprev (Chain_Extract_unprotected x m) = (cprev m)(n := p)"
    using D(2,3) by (simp_all add: Chain_Extract_unprotected_def chain_updates Let_def)
  have L': "Chain_Head c # (xs @ ys) @ [Chain_Tail c] = as @ p # n # r"
    using as nr by (metis append.assoc append_Cons append_Nil)
  have "p \<noteq> Chain_Tail c" "n \<noteq> Chain_Head c"
    using assms as nr by (cases xs rule: rev_cases; cases ys; auto simp: chain_def chain_addr)+
  then show "chain (Chain_Extract_unprotected x m) c (xs @ ys)"
    using assms D(1) unfolding chain_def mem L' by (auto simp: nodes_def)
qed

lemma Chain_Get_first_as_extract:
  assumes "chain m c (x # xs)"
  shows "Chain_Get_first_unprotected c m = (x, Chain_Extract_unprotected x m)"
proof -
  have "cprev m x = Chain_Head c" using Chain_Extract_ok(2) [of m c "[]" x xs] assms by simp
  moreover have "cnext m (Chain_Head c) = x" using chain_ends(1) [OF assms] by (simp add: Chain_First_def)
  ultimately show ?thesis
    by (simp add: Chain_Get_first_unprotected_def Chain_Extract_unprotected_def chain_updates Let_def)
qed

lemma Chain_Get_ok:
  "chain m c [] \<Longrightarrow> Chain_Get_unprotected c m = (0, m)"
  "chain m c (x # xs) \<Longrightarrow> Chain_Get_unprotected c m = (x, Chain_Extract_unprotected x m)
     \<and> chain (Chain_Extract_unprotected x m) c xs"
  using chain_ends(3) [of m c] Chain_Get_first_as_extract [of m c x xs] Chain_Extract_ok(1) [of m c "[]" x xs]
  by (auto simp: Chain_Get_unprotected_def)

lemma extract_keeps_other_chain:
  assumes "chain m c (xs @ x # ys)" and "chain m d zs" and "nodes d zs \<inter> nodes c (xs @ x # ys) = {}"
  shows "chain (Chain_Extract_unprotected x m) d zs"
proof (rule chain_frame [OF assms(2)])
  fix a assume a: "a \<in> nodes d zs"
  have "cprev m x \<in> nodes c (xs @ x # ys)" "cnext m x \<in> nodes c (xs @ x # ys)"
    unfolding Chain_Extract_ok(2,3) [OF assms(1)]
    by (cases xs rule: rev_cases; cases ys; auto simp: nodes_def)+
  then have "a \<noteq> cprev m x" "a \<noteq> cnext m x" using a assms(3) by auto
  then show "cnext (Chain_Extract_unprotected x m) a = cnext m a" "cprev (Chain_Extract_unprotected x m) a = cprev m a"
    by (simp_all add: Chain_Extract_unprotected_def chain_updates Let_def)
qed

section \<open>Initialisation, queries and ordered insertion\<close>

lemma Chain_Initialize_empty_ok:
  assumes "0 < c"
  shows "chain (Chain_Initialize_empty c m) c []"
  using assms by (simp add: Chain_Initialize_empty_def chain_def chain_updates chain_addr nodes_def dlist_def)

lemma Chain_Initialize_one_ok:
  assumes "0 < c" and "x \<notin> nodes c []" and "x \<noteq> 0"
  shows "chain (Chain_Initialize_one c x m) c [x]"
  using assms by (simp add: Chain_Initialize_one_def chain_def chain_updates chain_addr nodes_def dlist_def Let_def)

text \<open>The addresses of \<open>count\<close> nodes in an array.\<close>

fun node_array :: "nat \<Rightarrow> nat \<Rightarrow> nat \<Rightarrow> nat list" where
  "node_array 0 node_size a = []"
| "node_array (Suc count) node_size a = a # node_array count node_size (a + node_size)"

lemma length_node_array [simp]: "length (node_array n sz a) = n"
  by (induction n sz a rule: node_array.induct) auto

lemma node_array_ge: "x \<in> set (node_array n sz a) \<Longrightarrow> a \<le> x \<and> x + sz \<le> a + n * sz"
  by (induction n sz a rule: node_array.induct) (fastforce simp: add.assoc)+

lemma node_array_distinct: "0 < sz \<Longrightarrow> distinct (node_array n sz a)"
  by (induction n sz a rule: node_array.induct) (auto dest: node_array_ge)

lemma link_nodes_ok:
  assumes "link_nodes n sz cur a m = (cur', m')" and "0 < sz" and "cur \<notin> set (node_array n sz a)"
    and "linked (cnext m) (cprev m) (L @ [cur])" and "distinct (L @ [cur])"
    and "set L \<inter> set (node_array n sz a) = {}"
  shows "linked (cnext m') (cprev m') (L @ cur # node_array n sz a) \<and> cur' = last (cur # node_array n sz a)
    \<and> (\<forall>x. x \<notin> set (node_array n sz a) \<longrightarrow> cprev m' x = cprev m x)
    \<and> (\<forall>x. x \<notin> insert cur (set (node_array n sz a)) \<longrightarrow> cnext m' x = cnext m x)"
  using assms
proof (induction n sz cur a m arbitrary: L rule: link_nodes.induct)
  case (2 n sz cur a m)
  let ?m = "set_cprev a cur (set_cnext cur a m)" and ?r = "node_array n sz (a + sz)"
  have a: "a \<notin> set ?r" "a \<notin> set L" "a \<noteq> cur" using 2(3,4,7) by (auto dest: node_array_ge)
  have "linked (cnext ?m) (cprev ?m) (L @ [cur]) = linked (cnext m) (cprev m) (L @ [cur])"
    using a 2(6) by (intro linked_cong) (auto simp: chain_updates butlast_append dest: in_set_tl)
  then have l: "linked (cnext ?m) (cprev ?m) ((L @ [cur]) @ [a])"
    using 2(5) a(3) linked_around [of _ _ L cur a "[]"] by (simp add: chain_updates)
  have "linked (cnext m') (cprev m') ((L @ [cur]) @ a # ?r) \<and> cur' = last (a # ?r)
    \<and> (\<forall>x. x \<notin> set ?r \<longrightarrow> cprev m' x = cprev ?m x) \<and> (\<forall>x. x \<notin> insert a (set ?r) \<longrightarrow> cnext m' x = cnext ?m x)"
    by (rule "2.IH" [OF _ 2(3) a(1) l]) (use 2(2,4,6,7) a in auto)
  then show ?case by (auto simp: chain_updates)
qed simp

lemma Chain_Initialize_ok:
  assumes "0 < c" and "0 < node_size" and "0 < start"
    and disj: "\<forall>x \<in> {Chain_Head c, Chain_Tail c}. x < start \<or> start + n * node_size \<le> x"
  shows "chain (Chain_Initialize c start n node_size m) c (node_array n node_size start)"
proof -
  let ?A = "node_array n node_size start" and ?m = "clear_permanent_null c m"
  obtain cur m' where l: "link_nodes n node_size (Chain_Head c) start ?m = (cur, m')" by fastforce
  have out: "Chain_Head c \<notin> set ?A" "Chain_Tail c \<notin> set ?A"
    using disj assms(2) by (auto dest!: node_array_ge)
  have "linked (cnext m') (cprev m') ([] @ Chain_Head c # ?A) \<and> cur = last (Chain_Head c # ?A)
    \<and> (\<forall>x. x \<notin> set ?A \<longrightarrow> cprev m' x = cprev ?m x)
    \<and> (\<forall>x. x \<notin> insert (Chain_Head c) (set ?A) \<longrightarrow> cnext m' x = cnext ?m x)"
    using l assms(2) out(1) by (intro link_nodes_ok) simp_all
  then have L: "linked (cnext m') (cprev m') (Chain_Head c # ?A)" "cur = last (Chain_Head c # ?A)"
    "cprev m' (Chain_Head c) = 0" "cnext m' (Chain_Tail c) = 0"
    using out by (simp_all add: chain_updates chain_addr)
  have E: "Chain_Initialize c start n node_size m = set_cprev (Chain_Tail c) cur (set_cnext cur (Chain_Tail c) m')" (is "_ = ?r")
    by (simp add: Chain_Initialize_def l)
  obtain as where as: "Chain_Head c # ?A = as @ [cur]" using L(2) by (metis append_butlast_last_id list.distinct(1))
  have dist: "distinct (Chain_Head c # ?A @ [Chain_Tail c])"
    using node_array_distinct [OF assms(2)] out by (simp add: chain_addr)
  then have "cur \<notin> set as" "Chain_Tail c \<notin> set (as @ [cur])" using as by (metis append_Cons distinct.simps(2) distinct_append not_distinct_conv_prefix, auto simp flip: as)
  then have "linked (cnext ?r) (cprev ?r) (as @ [cur]) = linked (cnext m') (cprev m') (as @ [cur])"
    by (intro linked_cong) (auto simp: chain_updates dest: in_set_tl)
  then have "linked (cnext ?r) (cprev ?r) (as @ cur # [Chain_Tail c])"
    using L(1) as unfolding linked_around by (simp add: chain_updates)
  moreover have "as @ cur # [Chain_Tail c] = Chain_Head c # ?A @ [Chain_Tail c]" using as by (metis append.assoc append_Cons append_Nil)
  ultimately have "dlist (cnext ?r) (cprev ?r) (Chain_Head c # ?A @ [Chain_Tail c])"
    unfolding dlist_def using dist by (simp add: butlast_append)
  moreover have "cur \<noteq> Chain_Tail c" using \<open>Chain_Tail c \<notin> set (as @ [cur])\<close> by auto
  moreover have "0 \<notin> set ?A" using assms(3) by (auto dest: node_array_ge)
  ultimately show ?thesis
    unfolding E chain_def using L(3,4) out assms(1) by (simp add: chain_updates chain_addr nodes_def)
qed

lemma link_nodes_frame:
  "fst (link_nodes n sz cur s m) \<in> insert cur (set (node_array n sz s))
   \<and> (a \<notin> insert cur (set (node_array n sz s)) \<longrightarrow>
       cnext (snd (link_nodes n sz cur s m)) a = cnext m a \<and> cprev (snd (link_nodes n sz cur s m)) a = cprev m a)"
  by (induction n sz cur s m rule: link_nodes.induct) (auto simp: chain_updates)

lemma Chain_Initialize_frame:
  assumes "a \<notin> nodes c (node_array n sz s)"
  shows "cnext (Chain_Initialize c s n sz m) a = cnext m a" "cprev (Chain_Initialize c s n sz m) a = cprev m a"
  using link_nodes_frame [of n sz "Chain_Head c" s "clear_permanent_null c m" a] assms
  by (auto simp: Chain_Initialize_def nodes_def chain_updates Let_def case_prod_unfold)

lemma Chain_Is_first_last:
  assumes "chain m c (xs @ x # ys)"
  shows "Chain_Is_first x m \<longleftrightarrow> xs = []" "Chain_Is_last x m \<longleftrightarrow> ys = []"
proof -
  have nz: "0 \<notin> nodes c (xs @ x # ys)" "cprev m (Chain_Head c) = 0" "cnext m (Chain_Tail c) = 0"
    using assms by (simp_all add: chain_def)
  show "Chain_Is_first x m \<longleftrightarrow> xs = []"
  proof (cases xs rule: rev_cases)
    case Nil
    then show ?thesis using Chain_Extract_ok(2) [OF assms] nz by (simp add: Chain_Is_first_def)
  next
    case (snoc zs z)
    have "chain m c (zs @ z # x # ys)" using assms snoc by simp
    from Chain_Extract_ok(2) [OF this] have "cprev m z \<in> nodes c (xs @ x # ys)"
      using snoc by (cases zs rule: rev_cases) (auto simp: nodes_def)
    then have "cprev m z \<noteq> 0" using nz(1) by metis
    then show ?thesis using Chain_Extract_ok(2) [OF assms] snoc by (simp add: Chain_Is_first_def)
  qed
  show "Chain_Is_last x m \<longleftrightarrow> ys = []"
  proof (cases ys)
    case Nil
    then show ?thesis using Chain_Extract_ok(3) [OF assms] nz by (simp add: Chain_Is_last_def)
  next
    case (Cons z zs)
    have "chain m c ((xs @ [x]) @ z # zs)" using assms Cons by simp
    from Chain_Extract_ok(3) [OF this] have "cnext m z \<in> nodes c (xs @ x # ys)"
      using Cons by (cases zs) (auto simp: nodes_def)
    then have "cnext m z \<noteq> 0" using nz(1) by metis
    then show ?thesis using Chain_Extract_ok(3) [OF assms] Cons by (simp add: Chain_Is_last_def)
  qed
qed

lemma ordered_place_ok:
  assumes "chain m c (xs @ ys)"
  shows "ordered_place c m P (last (Chain_Head c # xs)) (hd (ys @ [Chain_Tail c]))
    = Some (last (Chain_Head c # xs @ takeWhile (\<lambda>y. \<not> P y) ys))"
  using assms
proof (induction ys arbitrary: xs)
  case Nil
  show ?case by (subst ordered_place.simps) simp
next
  case (Cons y ys)
  have ne: "y \<noteq> Chain_Tail c" using Cons.prems by (auto simp: chain_def)
  show ?case
  proof (cases "P y")
    case True
    then show ?thesis by (subst ordered_place.simps) simp
  next
    case False
    have "ordered_place c m P (last (Chain_Head c # xs)) y = ordered_place c m P y (cnext m y)"
      using ne False by (subst ordered_place.simps) simp
    moreover have "cnext m y = hd (ys @ [Chain_Tail c])" using Chain_Extract_ok(3) [OF Cons.prems] .
    ultimately show ?thesis using Cons.IH [of "xs @ [y]"] Cons.prems False by simp
  qed
qed

definition ordered_insert :: "('a \<Rightarrow> bool) \<Rightarrow> 'a \<Rightarrow> 'a list \<Rightarrow> 'a list" where
  "ordered_insert P x xs = takeWhile (\<lambda>y. \<not> P y) xs @ x # dropWhile (\<lambda>y. \<not> P y) xs"

lemma Chain_Insert_ordered_place:
  assumes "chain m c xs"
  shows "Chain_Insert_ordered_unprotected c x P m
    = Some (Chain_Insert_unprotected (last (Chain_Head c # takeWhile (\<lambda>y. \<not> P y) xs)) x m)"
  using ordered_place_ok [of m c "[]" xs P] assms chain_ends(1) [OF assms]
  by (simp add: Chain_Insert_ordered_unprotected_def)

lemma Chain_Insert_ordered_ok:
  assumes "chain m c xs" and "x \<notin> nodes c xs" and "x \<noteq> 0"
  shows "\<exists>m'. Chain_Insert_ordered_unprotected c x P m = Some m' \<and> chain m' c (ordered_insert P x xs)"
proof -
  have "chain m c (takeWhile (\<lambda>y. \<not> P y) xs @ dropWhile (\<lambda>y. \<not> P y) xs)" using assms(1) by simp
  from Chain_Insert_ok [OF this refl] assms(2,3) show ?thesis
    by (simp add: Chain_Insert_ordered_place [OF assms(1)] ordered_insert_def)
qed

lemma count_nodes_ok:
  assumes "chain m c (xs @ ys)"
  shows "count_nodes c m (hd (ys @ [Chain_Tail c])) n = Some (n + length ys)"
  using assms
proof (induction ys arbitrary: xs n)
  case Nil
  show ?case by (subst count_nodes.simps) simp
next
  case (Cons y ys)
  have "y \<noteq> Chain_Tail c" using Cons.prems by (auto simp: chain_def)
  then have "count_nodes c m y n = count_nodes c m (cnext m y) (n + 1)" by (subst count_nodes.simps) simp
  moreover have "cnext m y = hd (ys @ [Chain_Tail c])" using Chain_Extract_ok(3) [OF Cons.prems] .
  ultimately show ?case using Cons.IH [of "xs @ [y]" "n + 1"] Cons.prems by simp
qed

lemma Chain_Node_count_ok: "chain m c xs \<Longrightarrow> Chain_Node_count_unprotected c m = Some (length xs)"
  using count_nodes_ok [of m c "[]" xs 0] chain_ends(1) [of m c xs] by (simp add: Chain_Node_count_unprotected_def)

lemma Chain_Get_with_empty_check_ok:
  "chain m c [] \<Longrightarrow> Chain_Get_with_empty_check_unprotected c m = (True, 0, m)"
  "chain m c (x # xs) \<Longrightarrow> Chain_Get_with_empty_check_unprotected c m = (xs = [], x, Chain_Extract_unprotected x m)"
proof -
  show "chain m c [] \<Longrightarrow> Chain_Get_with_empty_check_unprotected c m = (True, 0, m)"
    using chain_ends(1) [of m c "[]"] by (simp add: Chain_Get_with_empty_check_unprotected_def Chain_First_def)
  assume a: "chain m c (x # xs)"
  have "cnext m x = hd (xs @ [Chain_Tail c])" using Chain_Extract_ok(3) [of m c "[]" x xs] a by simp
  then have "cnext m x = Chain_Tail c \<longleftrightarrow> xs = []" using a by (cases xs) (auto simp: chain_def)
  moreover have "x \<noteq> Chain_Tail c" using a by (auto simp: chain_def)
  ultimately show "Chain_Get_with_empty_check_unprotected c m = (xs = [], x, Chain_Extract_unprotected x m)"
    using Chain_Get_first_as_extract [OF a] chain_ends(1) [OF a]
    by (auto simp: Chain_Get_with_empty_check_unprotected_def Chain_Get_first_unprotected_def Chain_First_def Let_def)
qed

section \<open>Splicing\<close>

text \<open>All nodes of a chain \<open>p\<close> are moved to the front of a chain \<open>c\<close>, as the flush of a message queue does it.\<close>

definition splice :: "nat \<Rightarrow> nat \<Rightarrow> chain_mem \<Rightarrow> chain_mem" where
  "splice p c l =
     (let h = Chain_Head c; n = cnext l h; x = Chain_First p l; y = Chain_Last p l
      in Chain_Initialize_empty p (set_cprev x h (set_cprev n y (set_cnext y n (set_cnext h x l)))))"

lemma chain_linked: "chain m c (x # xs) \<Longrightarrow> linked (cnext m) (cprev m) (x # xs)"
proof -
  assume "chain m c (x # xs)"
  then have "linked (cnext m) (cprev m) (Chain_Head c # (x # xs) @ [Chain_Tail c])" by (simp add: chain_def dlist_def)
  then have "linked (cnext m) (cprev m) ((x # xs) @ [Chain_Tail c])" by simp
  then show ?thesis
    by (cases xs rule: rev_cases) (use linked_around [of "cnext m" "cprev m" "x # _" _ "Chain_Tail c" "[]"] in auto)
qed

lemma splice_links:
  assumes P: "chain l p (x # xs)" and C: "chain l c fs" and D: "nodes p (x # xs) \<inter> nodes c fs = {}"
  shows "linked (cnext (splice p c l)) (cprev (splice p c l)) (Chain_Head c # (x # xs) @ fs @ [Chain_Tail c])"
    "\<And>a. a \<notin> nodes p (x # xs) \<union> nodes c fs \<Longrightarrow> cnext (splice p c l) a = cnext l a \<and> cprev (splice p c l) a = cprev l a"
    "cprev (splice p c l) (Chain_Head c) = 0" "cnext (splice p c l) (Chain_Tail c) = 0"
proof -
  let ?h = "Chain_Head c" and ?t = "Chain_Tail c" and ?s = "splice p c l"
  obtain n r where nr: "fs @ [?t] = n # r" by (cases fs) auto
  obtain B y where A: "x # xs = B @ [y]" by (metis append_butlast_last_id list.distinct(1))
  have ends: "Chain_First p l = x" "Chain_Last p l = y" "cnext l ?h = n"
  proof -
    show "Chain_First p l = x" using chain_ends(1) [OF P] by simp
    show "Chain_Last p l = y" unfolding chain_ends(2) [OF P] A by simp
    show "cnext l ?h = n" using chain_ends(1) [OF C] nr by (simp add: Chain_First_def)
  qed
  have "set (fs @ [?t]) = insert n (set r)" using nr by simp
  then have fsn: "set fs \<union> {?t} = insert n (set r)" by auto
  have dP: "distinct (x # xs)" and dC: "distinct fs" using chain_distinct [OF P] chain_distinct [OF C] by auto
  have out: "?h \<notin> set fs" "?t \<notin> set fs" "?h \<noteq> ?t" using C by (auto simp: chain_def chain_addr)
  have nin: "n \<in> set fs \<union> {?t}" unfolding fsn by simp
  have "?h \<notin> insert n (set r)" unfolding fsn [symmetric] using out by simp
  then have hn: "?h \<noteq> n" "?h \<notin> set r" by auto
  have yP: "y \<in> set (x # xs)" using A by simp
  have sep: "set (x # xs) \<inter> insert ?h (insert n (set r)) = {}"
    unfolding fsn [symmetric] using D by (auto simp: nodes_def)
  have pn: "Chain_Head p \<notin> insert ?h (insert n (set r)) \<union> set (x # xs)" "Chain_Tail p \<notin> insert ?h (insert n (set r)) \<union> set (x # xs)"
    unfolding fsn [symmetric] using D P by (auto simp: nodes_def chain_def)
  have nx: "cnext ?s a = (if a = ?h then x else if a = y then n else cnext l a)"
    and pv: "cprev ?s a = (if a = x then ?h else if a = n then y else cprev l a)"
    if "a \<noteq> Chain_Head p" "a \<noteq> Chain_Tail p" for a
    using that yP sep by (auto simp: splice_def ends Let_def Chain_Initialize_empty_def chain_updates)
  have PA: "a \<noteq> Chain_Head p \<and> a \<noteq> Chain_Tail p \<and> a \<noteq> ?h \<and> a \<noteq> n" if "a \<in> set (x # xs)" for a using that pn sep by blast
  have NA: "a \<noteq> Chain_Head p \<and> a \<noteq> Chain_Tail p \<and> a \<noteq> ?h \<and> a \<notin> set (x # xs)" if "a \<in> insert n (set r)" for a
    using that pn sep hn by blast
  have "linked (cnext ?s) (cprev ?s) (B @ [y]) = linked (cnext l) (cprev l) (B @ [y])"
  proof (rule linked_cong)
    fix a assume a: "a \<in> set (butlast (B @ [y]))"
    then have "a \<in> set (x # xs)" "a \<noteq> y" using A dP by auto
    then show "cnext ?s a = cnext l a" using nx [of a] PA [of a] by simp
  next
    fix a assume a: "a \<in> set (tl (B @ [y]))"
    then have "a \<in> set xs" using A by (metis list.sel(3))
    then have "a \<noteq> x" "a \<in> set (x # xs)" using dP by auto
    then show "cprev ?s a = cprev l a" using pv [of a] PA [of a] by simp
  qed
  then have 1: "linked (cnext ?s) (cprev ?s) (B @ [y])" using chain_linked [OF P] A by simp
  have x0: "cnext ?s ?h = x" "cprev ?s x = ?h" "cnext ?s y = n" "cprev ?s n = y"
    using nx [of ?h] nx [of y] pv [of x] pv [of n] PA [of x] PA [OF yP] NA [of n] pn by auto
  have "linked (cnext l) (cprev l) (?h # n # r)" using C nr by (simp add: chain_def dlist_def)
  moreover have "linked (cnext ?s) (cprev ?s) (n # r) = linked (cnext l) (cprev l) (n # r)"
  proof (rule linked_cong)
    fix a assume "a \<in> set (butlast (n # r))"
    then have "a \<in> insert n (set r)" by (auto dest: in_set_butlastD split: if_splits)
    then show "cnext ?s a = cnext l a" using nx [of a] NA [of a] yP by auto
  next
    fix a assume "a \<in> set (tl (n # r))"
    moreover have "distinct (fs @ [?t])" using dC out by simp
    then have "distinct (n # r)" unfolding nr .
    ultimately have "a \<in> set r" "a \<noteq> n" by auto
    then show "cprev ?s a = cprev l a" using pv [of a] NA [of a] by auto
  qed
  ultimately have 2: "linked (cnext ?s) (cprev ?s) (n # r)" by simp
  have "linked (cnext ?s) (cprev ?s) (?h # x # xs)" using 1 A x0 by (metis linked.simps(3))
  then have "linked (cnext ?s) (cprev ?s) ((?h # B) @ [y])" using A by simp
  then have "linked (cnext ?s) (cprev ?s) ((?h # B) @ y # n # r)" unfolding linked_around using 2 x0 by simp
  then show "linked (cnext ?s) (cprev ?s) (?h # (x # xs) @ fs @ [?t])" using A nr by simp
  show "cnext ?s a = cnext l a \<and> cprev ?s a = cprev l a" if "a \<notin> nodes p (x # xs) \<union> nodes c fs" for a
  proof -
    have "a \<noteq> n" "a \<noteq> y" "a \<noteq> x" "a \<noteq> ?h" "a \<noteq> Chain_Head p" "a \<noteq> Chain_Tail p"
      using that nin yP by (auto simp: nodes_def)
    then show ?thesis using nx [of a] pv [of a] by simp
  qed
  have "?h \<noteq> x" "?t \<noteq> y" "?t \<noteq> ?h" "?t \<noteq> Chain_Head p" "?t \<noteq> Chain_Tail p" "?h \<noteq> Chain_Head p" "?h \<noteq> Chain_Tail p"
    using sep yP out pn D by (auto simp: nodes_def)
  then show "cprev ?s ?h = 0" "cnext ?s ?t = 0" using pv [of ?h] nx [of ?t] C hn by (auto simp: chain_def)
qed

lemma splice_ok:
  assumes P: "chain l p (x # xs)" and C: "chain l c fs" and D: "nodes p (x # xs) \<inter> nodes c fs = {}"
  shows "chain (splice p c l) c ((x # xs) @ fs)" "chain (splice p c l) p []"
proof -
  have dis: "distinct (Chain_Head c # (x # xs) @ fs @ [Chain_Tail c])"
    using chain_distinct [OF P] chain_distinct [OF C] D C by (auto simp: nodes_def chain_def chain_addr)
  have "0 \<notin> nodes c ((x # xs) @ fs)" using P C by (auto simp: chain_def nodes_def)
  then show "chain (splice p c l) c ((x # xs) @ fs)"
    unfolding chain_def dlist_def using splice_links(1,3,4) [OF assms] dis by (auto simp: butlast_append)
  have "0 < p" using P by (auto simp: chain_def nodes_def chain_addr)
  then show "chain (splice p c l) p []" unfolding splice_def Let_def by (rule Chain_Initialize_empty_ok)
qed

section \<open>Queues of nodes as an interface\<close>

text \<open>
  The users of chains keep nodes in several queues that share the memory of the links. The
  interface: a queue at an address holds a list of nodes; adding and taking nodes changes that
  list and no queue whose nodes are different.
\<close>

locale node_queue =
  fixes rel :: "'m \<Rightarrow> nat \<Rightarrow> nat list \<Rightarrow> bool" and own :: "nat \<Rightarrow> nat list \<Rightarrow> nat set"
    and append prepend :: "nat \<Rightarrow> nat \<Rightarrow> 'm \<Rightarrow> 'm" and get :: "nat \<Rightarrow> 'm \<Rightarrow> nat \<times> 'm"
    and add_ordered :: "nat \<Rightarrow> nat \<Rightarrow> (nat \<Rightarrow> bool) \<Rightarrow> 'm \<Rightarrow> 'm option"
  assumes own_nodes: "own c xs = own c [] \<union> set xs"
    and rel_distinct: "rel m c xs \<Longrightarrow> distinct xs" and rel_nonzero: "rel m c xs \<Longrightarrow> 0 \<notin> set xs"
    and rel_ends: "rel m c xs \<Longrightarrow> own c [] \<inter> set xs = {}"
    and append_ok: "rel m c xs \<Longrightarrow> x \<notin> own c xs \<Longrightarrow> x \<noteq> 0 \<Longrightarrow> rel (append c x m) c (xs @ [x])"
    and prepend_ok: "rel m c xs \<Longrightarrow> x \<notin> own c xs \<Longrightarrow> x \<noteq> 0 \<Longrightarrow> rel (prepend c x m) c (x # xs)"
    and ordered_ok: "rel m c xs \<Longrightarrow> x \<notin> own c xs \<Longrightarrow> x \<noteq> 0 \<Longrightarrow>
      \<exists>m'. add_ordered c x P m = Some m' \<and> rel m' c (ordered_insert P x xs)"
    and get_none: "rel m c [] \<Longrightarrow> get c m = (0, m)"
    and get_first: "rel m c (x # xs) \<Longrightarrow> fst (get c m) = x \<and> rel (snd (get c m)) c xs"
    and append_other: "rel m c xs \<Longrightarrow> rel m d ys \<Longrightarrow> own d ys \<inter> insert x (own c xs) = {} \<Longrightarrow> x \<notin> own c xs \<Longrightarrow>
      rel (append c x m) d ys"
    and prepend_other: "rel m c xs \<Longrightarrow> rel m d ys \<Longrightarrow> own d ys \<inter> insert x (own c xs) = {} \<Longrightarrow> x \<notin> own c xs \<Longrightarrow>
      rel (prepend c x m) d ys"
    and ordered_other: "rel m c xs \<Longrightarrow> rel m d ys \<Longrightarrow> own d ys \<inter> insert x (own c xs) = {} \<Longrightarrow> x \<notin> own c xs \<Longrightarrow>
      add_ordered c x P m = Some m' \<Longrightarrow> rel m' d ys"
    and get_other: "rel m c xs \<Longrightarrow> rel m d ys \<Longrightarrow> own d ys \<inter> own c xs = {} \<Longrightarrow> rel (snd (get c m)) d ys"
begin

text \<open>Two queues without common nodes, and a node that is in neither of them.\<close>

definition two_queues :: "'m \<Rightarrow> nat \<Rightarrow> nat list \<Rightarrow> nat \<Rightarrow> nat list \<Rightarrow> bool" where
  "two_queues m c xs d ys \<longleftrightarrow> rel m c xs \<and> rel m d ys \<and> own c xs \<inter> own d ys = {}"

definition loose :: "nat \<Rightarrow> nat \<Rightarrow> nat list \<Rightarrow> nat \<Rightarrow> nat list \<Rightarrow> bool" where
  "loose x c xs d ys \<longleftrightarrow> x \<noteq> 0 \<and> x \<notin> own c xs \<and> x \<notin> own d ys"

lemma two_queues_sym: "two_queues m c xs d ys = two_queues m d ys c xs" "loose x c xs d ys = loose x d ys c xs"
  by (auto simp: two_queues_def loose_def)

lemma take_node:
  assumes "two_queues m c (x # xs) d ys"
  shows "\<exists>m'. get c m = (x, m') \<and> two_queues m' c xs d ys \<and> loose x c xs d ys"
proof -
  have r: "rel m c (x # xs)" "rel m d ys" "own c (x # xs) \<inter> own d ys = {}" using assms by (simp_all add: two_queues_def)
  obtain m' where m': "get c m = (x, m')" "rel m' c xs" using get_first [OF r(1)] by (metis prod.collapse)
  have "rel m' d ys" using get_other [OF r(1,2)] r(3) m'(1) by auto
  moreover have "own c xs \<inter> own d ys = {}" "x \<notin> own d ys" "x \<notin> own c xs"
    using r(3) own_nodes [of c "x # xs"] own_nodes [of c xs] rel_distinct [OF r(1)] rel_ends [OF r(1)] by auto
  ultimately show ?thesis
    using m' rel_nonzero [OF r(1)] by (auto simp: two_queues_def loose_def)
qed

lemma add_node:
  assumes "two_queues m c xs d ys" and "loose x c xs d ys"
  shows "two_queues (append c x m) c (xs @ [x]) d ys" "two_queues (prepend c x m) c (x # xs) d ys"
    "\<exists>m'. add_ordered c x P m = Some m' \<and> two_queues m' c (ordered_insert P x xs) d ys"
proof -
  have r: "rel m c xs" "rel m d ys" "own c xs \<inter> own d ys = {}" "x \<noteq> 0" "x \<notin> own c xs" "x \<notin> own d ys"
    using assms by (simp_all add: two_queues_def loose_def)
  then have o: "own d ys \<inter> insert x (own c xs) = {}" by auto
  have s: "own c zs \<inter> own d ys = {}" if "set zs = insert x (set xs)" for zs
    using own_nodes [of c zs] own_nodes [of c xs] that r by auto
  show "two_queues (append c x m) c (xs @ [x]) d ys" "two_queues (prepend c x m) c (x # xs) d ys"
    unfolding two_queues_def
    using append_ok [OF r(1,5,4)] append_other [OF r(1,2) o r(5)] prepend_ok [OF r(1,5,4)] prepend_other [OF r(1,2) o r(5)] s
    by auto
  have "set (ordered_insert P x xs) = insert x (set xs)"
    unfolding ordered_insert_def by (metis set_append list.simps(15) takeWhile_dropWhile_id Un_insert_right)
  then show "\<exists>m'. add_ordered c x P m = Some m' \<and> two_queues m' c (ordered_insert P x xs) d ys"
    unfolding two_queues_def using ordered_ok [OF r(1,5,4)] ordered_other [OF r(1,2) o r(5)] s r(2) by blast
qed

end

lemma chain_ordered_other:
  assumes "chain m c xs" and "chain m d ys" and "nodes d ys \<inter> insert x (nodes c xs) = {}" and "x \<notin> nodes c xs"
    and "Chain_Insert_ordered_unprotected c x P m = Some m'"
  shows "chain m' d ys"
proof -
  let ?p = "last (Chain_Head c # takeWhile (\<lambda>y. \<not> P y) xs)"
  have p: "?p \<in> insert (Chain_Head c) (set xs)"
    by (metis insertI1 insertI2 last.simps last_in_set set_takeWhileD)
  then have "x \<noteq> ?p" using assms(4) by (auto simp: nodes_def)
  moreover have "m' = Chain_Insert_unprotected ?p x m"
    using assms(5) Chain_Insert_ordered_place [OF assms(1)] by simp
  ultimately show ?thesis using insert_keeps_other_chain [OF assms(1,2) p assms(3)] by simp
qed

interpretation chain_queue: node_queue chain nodes Chain_Append_unprotected Chain_Prepend_unprotected
  Chain_Get_unprotected Chain_Insert_ordered_unprotected
proof (unfold_locales, goal_cases)
  case (5 m c xs x)
  then show ?case by (rule Chain_Append_ok)
next
  case (6 m c xs x)
  then show ?case by (rule Chain_Prepend_ok)
next
  case (7 m c xs x P)
  then show ?case by (rule Chain_Insert_ordered_ok)
next
  case (8 m c)
  then show ?case by (rule Chain_Get_ok(1))
next
  case (9 m c x xs)
  then show ?case using Chain_Get_ok(2) by simp
next
  case (10 m c xs d ys x)
  have "Chain_Last c m = last (Chain_Head c # xs)" using chain_ends(2) [OF 10(1)] .
  then have "Chain_Last c m \<in> insert (Chain_Head c) (set xs)" by (cases xs rule: rev_cases) auto
  moreover have "x \<noteq> Chain_Last c m" using calculation 10(4) by (auto simp: nodes_def)
  ultimately show ?case
    unfolding Chain_Append_as_insert [OF 10(1,4)] using insert_keeps_other_chain [OF 10(1,2) _ 10(3)] by blast
next
  case (11 m c xs d ys x)
  then show ?case
    unfolding Chain_Prepend_unprotected_def
    by (intro insert_keeps_other_chain [of m c xs]) (auto simp: nodes_def)
next
  case (12 m c xs d ys x P m')
  then show ?case by (rule chain_ordered_other)
next
  case (13 m c xs d ys)
  then show ?case
  proof (cases xs)
    case Nil
    then show ?thesis using 13 Chain_Get_ok(1) [of m c] by simp
  next
    case (Cons x zs)
    then show ?thesis
      using 13 Chain_Get_ok(2) [of m c x zs] extract_keeps_other_chain [of m c "[]" x zs d ys] by auto
  qed
qed (auto simp: nodes_def chain_def dlist_def butlast_append)

section \<open>The contract of the chain operations\<close>

lemma Chain_Is_empty_iff: "chain m c xs \<Longrightarrow> Chain_Is_empty c m \<longleftrightarrow> xs = []"
  by (rule chain_ends(3))

lemma chain_moves:
  assumes "chain m c (x # xs)" and "chain m d ys" and "nodes c (x # xs) \<inter> nodes d ys = {}"
  shows "chain (snd (Chain_Get_unprotected c m)) c xs" "chain (snd (Chain_Get_unprotected c m)) d ys"
    "fst (Chain_Get_unprotected c m) = x" "x \<notin> nodes d ys" "x \<noteq> 0" "nodes d ys \<inter> nodes c xs = {}" "x \<notin> nodes c xs"
  using chain_queue.take_node [of m c x xs d ys] assms
  by (auto simp: chain_queue.two_queues_def chain_queue.loose_def)

text \<open>C27. Moving a node from one chain to another: \<open>_Chain_Get_unprotected\<close> takes the first node
  of a chain \<open>c\<close>; appending, prepending or inserting it by an order relation into a chain \<open>d\<close>
  gives exactly the corresponding list there, leaves the rest of \<open>c\<close> in place, and the count,
  first, last and empty queries agree with the lists. The insertion loop ends on every chain.\<close>

theorem chain_move_refines:
  assumes "chain m c (x # xs)" and "chain m d ys" and "nodes c (x # xs) \<inter> nodes d ys = {}"
  shows "(let (y, m1) = Chain_Get_unprotected c m;
              a = Chain_Append_unprotected d y m1; p = Chain_Prepend_unprotected d y m1;
              oi = Chain_Insert_ordered_unprotected d y P m1
          in y = x \<and> chain m1 c xs \<and> chain m1 d ys
           \<and> chain a c xs \<and> chain a d (ys @ [x]) \<and> Chain_Last d a = x
           \<and> chain p c xs \<and> chain p d (x # ys) \<and> Chain_First d p = x
           \<and> (\<exists>m2. oi = Some m2 \<and> chain m2 c xs \<and> chain m2 d (ordered_insert P x ys)
                \<and> Chain_Node_count_unprotected d m2 = Some (length ys + 1))
           \<and> Chain_Is_empty c m1 = (xs = []))"
proof -
  obtain m1 where g: "Chain_Get_unprotected c m = (x, m1)" using chain_moves(3) [OF assms] by (metis prod.collapse)
  have two: "chain_queue.two_queues m1 d ys c xs" "chain_queue.loose x d ys c xs"
    using chain_moves [OF assms] g by (simp_all add: chain_queue.two_queues_def chain_queue.loose_def)
  note add = chain_queue.add_node [OF two, unfolded chain_queue.two_queues_def]
  obtain m2 where m2: "Chain_Insert_ordered_unprotected d x P m1 = Some m2"
    "chain m2 d (ordered_insert P x ys)" "chain m2 c xs" using add(3) [of P] by auto
  have len: "length (ordered_insert P x ys) = length ys + 1"
    unfolding ordered_insert_def by (metis Suc_eq_plus1 add_Suc_right length_Cons length_append takeWhile_dropWhile_id)
  have c1: "chain m1 c xs" "chain m1 d ys" using two(1) by (simp_all add: chain_queue.two_queues_def)
  have a: "chain (Chain_Append_unprotected d x m1) d (ys @ [x])" "chain (Chain_Append_unprotected d x m1) c xs"
    "chain (Chain_Prepend_unprotected d x m1) d (x # ys)" "chain (Chain_Prepend_unprotected d x m1) c xs"
    using add(1,2) by simp_all
  show ?thesis
    using c1 a chain_ends(2) [OF a(1)] chain_ends(1) [OF a(3)] chain_ends(3) [OF c1(1)] m2
      Chain_Node_count_ok [OF m2(2)] len g by simp
qed

text \<open>Two chains at 16 and 64 of the nodes 1000, 1100 and 1200.\<close>

definition two_chains :: chain_mem where
  "two_chains = Chain_Append_unprotected 16 1100 (Chain_Initialize_one 16 1000
     (Chain_Initialize_one 64 1200 \<lparr>cnext = \<lambda>_. 0, cprev = \<lambda>_. 0\<rparr>))"

lemma two_chains_ok: "chain two_chains 16 [1000, 1100]" "chain two_chains 64 [1200]"
  "nodes 16 [1000, 1100] \<inter> nodes 64 [1200] = {}"
  by (simp_all add: two_chains_def chain_def nodes_def dlist_def chain_addr chain_updates
      Chain_Append_unprotected_def Chain_Initialize_one_def Let_def)

theorem chain_move_refines_witness:
  "chain (Chain_Append_unprotected 64 1000 (snd (Chain_Get_unprotected 16 two_chains))) 64 [1200, 1000]"
  using chain_move_refines [OF two_chains_ok, of "\<lambda>_. True"] by (auto simp: Let_def case_prod_unfold)

end
