(* ===== verification/Thread_Queue.thy ===== *)
theory Thread_Queue
  imports Chain Status "HOL-Library.Monad_Syntax"
begin

text \<open>
  Thread queues (\<^verbatim>\<open>cpukit/score/src/threadqops.c\<close>, \<^verbatim>\<open>threadqenqueue.c\<close>, \<^verbatim>\<open>threadqflush.c\<close>,
  \<^verbatim>\<open>threadtimeout.c\<close>) of a uniprocessor build without multiprocessing support. Threads, queues
  and heads are addresses, 0 is the null pointer. The chains of heads and of waiting threads
  are lists, as \<^verbatim>\<open>Chain.thy\<close> justifies; the priority tree of the priority discipline is its
  sequence in order. \<open>None\<close> is undefined behaviour: a null heads, a read of an empty chain,
  the extraction of a thread that does not wait. The priority with which a thread waits does not
  change while it waits, and the callout for a deadlock is the one that reports
  \<open>STATUS_DEADLOCK\<close>.
\<close>

section \<open>Definitions\<close>

subsection \<open>State\<close>

datatype Thread_Wait_class =
    THREAD_WAIT_CLASS_EVENT | THREAD_WAIT_CLASS_SYSTEM_EVENT
  | THREAD_WAIT_CLASS_OBJECT | THREAD_WAIT_CLASS_PERIOD

datatype Thread_Wait_flags =
    THREAD_WAIT_STATE_READY
  | THREAD_WAIT_STATE_INTEND_TO_BLOCK Thread_Wait_class
  | THREAD_WAIT_STATE_BLOCKED Thread_Wait_class

abbreviation THREAD_QUEUE_INTEND_TO_BLOCK :: Thread_Wait_flags where
  "THREAD_QUEUE_INTEND_TO_BLOCK \<equiv> THREAD_WAIT_STATE_INTEND_TO_BLOCK THREAD_WAIT_CLASS_OBJECT"

abbreviation THREAD_QUEUE_BLOCKED :: Thread_Wait_flags where
  "THREAD_QUEUE_BLOCKED \<equiv> THREAD_WAIT_STATE_BLOCKED THREAD_WAIT_CLASS_OBJECT"

datatype operations_table = Operations_default | Operations_FIFO | Operations_priority

record thread_control =
  spare_heads :: nat
  wait_flags :: Thread_Wait_flags
  return_code :: Status_Control
  wait_queue :: nat
  wait_operations :: operations_table
  wait_count :: uint32
  wait_option :: uint32
  return_argument :: nat
  return_argument_second :: nat
  current_state :: uint32
  timer_active :: bool
  wait_priority :: nat

record thread_queues =
  threads :: "nat \<Rightarrow> thread_control"
  queue_heads :: "nat \<Rightarrow> nat"
  queue_owner :: "nat \<Rightarrow> nat"
  Free_chain :: "nat \<Rightarrow> nat list"
  Heads :: "nat \<Rightarrow> nat list"

abbreviation update_thread :: "nat \<Rightarrow> (thread_control \<Rightarrow> thread_control) \<Rightarrow> thread_queues \<Rightarrow> thread_queues" where
  "update_thread t f s \<equiv> s\<lparr>threads := (threads s)(t := f (threads s t))\<rparr>"

unbundle bit_operations_syntax

definition STATES_WAITING_FOR_MESSAGE :: uint32 where "STATES_WAITING_FOR_MESSAGE = 0x10"

definition STATES_BLOCKED :: uint32 where
  "STATES_BLOCKED = 0x10000 OR 0x10 OR 0x2 OR 0x1 OR 0x20 OR 0x4000 OR 0x400 OR 0x800 OR 0x80 OR 0x40 OR 0x1000
     OR 0x100 OR 0x200 OR 0x4 OR 0x20000000 OR 0x8 OR 0x10000000"

definition States_Set :: "uint32 \<Rightarrow> uint32 \<Rightarrow> uint32" where
  "States_Set states_to_set cur = (cur OR states_to_set)"

definition States_Clear :: "uint32 \<Rightarrow> uint32 \<Rightarrow> uint32" where
  "States_Clear states_to_clear cur = (cur AND NOT states_to_clear)"

text \<open>The calls of the scheduler in these two are left to the scheduler component.\<close>

definition Thread_Set_state :: "nat \<Rightarrow> uint32 \<Rightarrow> thread_queues \<Rightarrow> thread_queues" where
  "Thread_Set_state t state = update_thread t (\<lambda>th. th\<lparr>current_state := States_Set state (current_state th)\<rparr>)"

definition Thread_Clear_state :: "nat \<Rightarrow> uint32 \<Rightarrow> thread_queues \<Rightarrow> thread_queues" where
  "Thread_Clear_state t state s =
     (let previous_state = current_state (threads s t)
      in if previous_state AND state \<noteq> 0
         then update_thread t (\<lambda>th. th\<lparr>current_state := States_Clear state previous_state\<rparr>) s
         else s)"

definition Thread_Unblock :: "nat \<Rightarrow> thread_queues \<Rightarrow> thread_queues" where
  "Thread_Unblock t = Thread_Clear_state t STATES_BLOCKED"

definition Thread_Remove_timer_and_unblock :: "nat \<Rightarrow> thread_queues \<Rightarrow> thread_queues" where
  "Thread_Remove_timer_and_unblock t s = Thread_Unblock t (update_thread t (\<lambda>th. th\<lparr>timer_active := False\<rparr>) s)"

subsection \<open>Operations of the disciplines\<close>

definition Queue_enqueue ::
  "(nat \<Rightarrow> nat \<Rightarrow> thread_queues \<Rightarrow> thread_queues) \<Rightarrow> (nat \<Rightarrow> nat \<Rightarrow> thread_queues \<Rightarrow> thread_queues)
    \<Rightarrow> nat \<Rightarrow> nat \<Rightarrow> thread_queues \<Rightarrow> thread_queues option" where
  "Queue_enqueue initialize enqueue q t s =
     (let h = queue_heads s q;
          spare = spare_heads (threads s t);
          s = update_thread t (\<lambda>th. th\<lparr>spare_heads := 0\<rparr>) s
      in if spare = 0 then None
         else if h = 0
         then (let s = s\<lparr>queue_heads := (queue_heads s)(q := spare)\<rparr>;
                   s = s\<lparr>Free_chain := (Free_chain s)(spare := spare # Free_chain s spare)\<rparr>
               in Some (initialize t spare s))
         else Some (enqueue t h (s\<lparr>Free_chain := (Free_chain s)(h := spare # Free_chain s h)\<rparr>)))"

definition Queue_extract ::
  "(nat \<Rightarrow> nat \<Rightarrow> thread_queues \<Rightarrow> thread_queues option) \<Rightarrow> nat \<Rightarrow> nat \<Rightarrow> nat \<Rightarrow> thread_queues \<Rightarrow> thread_queues option" where
  "Queue_extract extract q h t s =
     (case Free_chain s h of
        [] \<Rightarrow> None
      | spare # rest \<Rightarrow>
          (let s = update_thread t (\<lambda>th. th\<lparr>spare_heads := spare\<rparr>) s;
               s = s\<lparr>Free_chain := (Free_chain s)(h := rest)\<rparr>;
               s = (if rest = [] then s\<lparr>queue_heads := (queue_heads s)(q := 0)\<rparr> else s)
           in extract t h s))"

definition FIFO_do_initialize :: "nat \<Rightarrow> nat \<Rightarrow> thread_queues \<Rightarrow> thread_queues" where
  "FIFO_do_initialize t h s = s\<lparr>Heads := (Heads s)(h := [t])\<rparr>"

definition FIFO_do_enqueue :: "nat \<Rightarrow> nat \<Rightarrow> thread_queues \<Rightarrow> thread_queues" where
  "FIFO_do_enqueue t h s = s\<lparr>Heads := (Heads s)(h := Heads s h @ [t])\<rparr>"

definition FIFO_do_extract :: "nat \<Rightarrow> nat \<Rightarrow> thread_queues \<Rightarrow> thread_queues option" where
  "FIFO_do_extract t h s =
     (if t \<in> set (Heads s h) then Some (s\<lparr>Heads := (Heads s)(h := remove1 t (Heads s h))\<rparr>) else None)"

definition Priority_do_initialize :: "nat \<Rightarrow> nat \<Rightarrow> thread_queues \<Rightarrow> thread_queues" where
  "Priority_do_initialize t h s = s\<lparr>Heads := (Heads s)(h := [t])\<rparr>"

definition Priority_do_enqueue :: "nat \<Rightarrow> nat \<Rightarrow> thread_queues \<Rightarrow> thread_queues" where
  "Priority_do_enqueue t h s = s\<lparr>Heads := (Heads s)(h := ordered_insert
     (\<lambda>u. wait_priority (threads s t) < wait_priority (threads s u)) t (Heads s h))\<rparr>"

definition Priority_do_extract :: "nat \<Rightarrow> nat \<Rightarrow> thread_queues \<Rightarrow> thread_queues option" where
  "Priority_do_extract t h s =
     (if t \<in> set (Heads s h) then Some (s\<lparr>Heads := (Heads s)(h := remove1 t (Heads s h))\<rparr>) else None)"

text \<open>The first thread of a FIFO chain, and the minimum of a priority tree.\<close>

definition FIFO_first :: "nat \<Rightarrow> thread_queues \<Rightarrow> nat option" where
  "FIFO_first h s = (case Heads s h of [] \<Rightarrow> None | t # _ \<Rightarrow> Some t)"

definition Priority_first :: "nat \<Rightarrow> thread_queues \<Rightarrow> nat option" where
  "Priority_first h s = (case Heads s h of [] \<Rightarrow> None | t # _ \<Rightarrow> Some t)"

definition FIFO_enqueue :: "nat \<Rightarrow> nat \<Rightarrow> thread_queues \<Rightarrow> thread_queues option" where
  "FIFO_enqueue = Queue_enqueue FIFO_do_initialize FIFO_do_enqueue"

definition FIFO_extract :: "nat \<Rightarrow> nat \<Rightarrow> thread_queues \<Rightarrow> thread_queues option" where
  "FIFO_extract q t s = Queue_extract FIFO_do_extract q (queue_heads s q) t s"

definition FIFO_surrender :: "nat \<Rightarrow> nat \<Rightarrow> thread_queues \<Rightarrow> (nat \<times> thread_queues) option" where
  "FIFO_surrender q h s = do {
     t \<leftarrow> FIFO_first h s;
     s \<leftarrow> Queue_extract FIFO_do_extract q h t s;
     Some (t, s)
   }"

definition Priority_enqueue :: "nat \<Rightarrow> nat \<Rightarrow> thread_queues \<Rightarrow> thread_queues option" where
  "Priority_enqueue = Queue_enqueue Priority_do_initialize Priority_do_enqueue"

definition Priority_extract :: "nat \<Rightarrow> nat \<Rightarrow> thread_queues \<Rightarrow> thread_queues option" where
  "Priority_extract q t s = Queue_extract Priority_do_extract q (queue_heads s q) t s"

definition Priority_surrender :: "nat \<Rightarrow> nat \<Rightarrow> thread_queues \<Rightarrow> (nat \<times> thread_queues) option" where
  "Priority_surrender q h s = do {
     t \<leftarrow> Priority_first h s;
     s \<leftarrow> Queue_extract Priority_do_extract q h t s;
     Some (t, s)
   }"

text \<open>The operation tables. The default operations fail; a thread that waits nowhere has them.\<close>

fun op_enqueue :: "operations_table \<Rightarrow> nat \<Rightarrow> nat \<Rightarrow> thread_queues \<Rightarrow> thread_queues option" where
  "op_enqueue Operations_FIFO q t s = FIFO_enqueue q t s"
| "op_enqueue Operations_priority q t s = Priority_enqueue q t s"
| "op_enqueue Operations_default q t s = None"

fun op_extract :: "operations_table \<Rightarrow> nat \<Rightarrow> nat \<Rightarrow> thread_queues \<Rightarrow> thread_queues option" where
  "op_extract Operations_FIFO q t s = FIFO_extract q t s"
| "op_extract Operations_priority q t s = Priority_extract q t s"
| "op_extract Operations_default q t s = None"

fun op_surrender :: "operations_table \<Rightarrow> nat \<Rightarrow> nat \<Rightarrow> thread_queues \<Rightarrow> (nat \<times> thread_queues) option" where
  "op_surrender Operations_FIFO q h s = FIFO_surrender q h s"
| "op_surrender Operations_priority q h s = Priority_surrender q h s"
| "op_surrender Operations_default q h s = None"

fun op_first :: "operations_table \<Rightarrow> nat \<Rightarrow> thread_queues \<Rightarrow> nat option" where
  "op_first Operations_FIFO h s = FIFO_first h s"
| "op_first Operations_priority h s = Priority_first h s"
| "op_first Operations_default h s = None"

subsection \<open>Waiting\<close>

definition Thread_Wait_claim :: "nat \<Rightarrow> nat \<Rightarrow> thread_queues \<Rightarrow> thread_queues" where
  "Thread_Wait_claim t q = update_thread t (\<lambda>th. th\<lparr>wait_queue := q\<rparr>)"

definition Thread_Wait_claim_finalize :: "nat \<Rightarrow> operations_table \<Rightarrow> thread_queues \<Rightarrow> thread_queues" where
  "Thread_Wait_claim_finalize t ops = update_thread t (\<lambda>th. th\<lparr>wait_operations := ops\<rparr>)"

definition Thread_Wait_restore_default :: "nat \<Rightarrow> thread_queues \<Rightarrow> thread_queues" where
  "Thread_Wait_restore_default t = update_thread t (\<lambda>th. th\<lparr>wait_queue := 0, wait_operations := Operations_default\<rparr>)"

definition Thread_Wait_flags_set :: "nat \<Rightarrow> Thread_Wait_flags \<Rightarrow> thread_queues \<Rightarrow> thread_queues" where
  "Thread_Wait_flags_set t fl = update_thread t (\<lambda>th. th\<lparr>wait_flags := fl\<rparr>)"

definition Thread_Wait_flags_try_change ::
  "nat \<Rightarrow> Thread_Wait_flags \<Rightarrow> Thread_Wait_flags \<Rightarrow> thread_queues \<Rightarrow> bool \<times> thread_queues" where
  "Thread_Wait_flags_try_change t expected desired s =
     (if wait_flags (threads s t) = expected then (True, Thread_Wait_flags_set t desired s) else (False, s))"

text \<open>The uniprocessor variant follows the owners: a deadlock is a path back to the thread.\<close>

partial_function (option) Path_acquire :: "nat \<Rightarrow> nat \<Rightarrow> thread_queues \<Rightarrow> bool option" where
  "Path_acquire q t s =
     (let owner = queue_owner s q
      in if owner = 0 then Some False
         else if owner = t then Some True
         else (let q = wait_queue (threads s owner) in if q \<noteq> 0 then Path_acquire q t s else Some False))"

declare Path_acquire.simps [code]

text \<open>
  \<open>_Thread_queue_Enqueue\<close> in the pieces between which interrupts are possible: the part under
  the lock of the queue, the callout that may start the timer, the change of the state, and
  the decision. The first component of the result says that a deadlock was detected.
\<close>

definition Enqueue_locked :: "nat \<Rightarrow> operations_table \<Rightarrow> nat \<Rightarrow> thread_queues \<Rightarrow> (bool \<times> thread_queues) option" where
  "Enqueue_locked q ops t s = do {
     let s = Thread_Wait_claim t q s;
     deadlock \<leftarrow> Path_acquire q t s;
     if deadlock
     then Some (True, update_thread t (\<lambda>th. th\<lparr>return_code := STATUS_DEADLOCK\<rparr>) (Thread_Wait_restore_default t s))
     else do {
       let s = Thread_Wait_claim_finalize t ops s;
       s \<leftarrow> op_enqueue ops q t s;
       let s = update_thread t (\<lambda>th. th\<lparr>return_code := STATUS_SUCCESSFUL\<rparr>) s;
       Some (False, Thread_Wait_flags_set t THREAD_QUEUE_INTEND_TO_BLOCK s)
     }
   }"

definition Add_timeout_ticks :: "nat \<Rightarrow> uint32 \<Rightarrow> thread_queues \<Rightarrow> thread_queues" where
  "Add_timeout_ticks t ticks s = (if ticks \<noteq> 0 then update_thread t (\<lambda>th. th\<lparr>timer_active := True\<rparr>) s else s)"

definition Enqueue_decide :: "nat \<Rightarrow> thread_queues \<Rightarrow> thread_queues" where
  "Enqueue_decide t s =
     (let (success, s) = Thread_Wait_flags_try_change t THREAD_QUEUE_INTEND_TO_BLOCK THREAD_QUEUE_BLOCKED s
      in if \<not> success then Thread_Remove_timer_and_unblock t s else s)"

definition Thread_queue_Enqueue ::
  "nat \<Rightarrow> operations_table \<Rightarrow> nat \<Rightarrow> uint32 \<Rightarrow> uint32 \<Rightarrow> thread_queues \<Rightarrow> thread_queues option" where
  "Thread_queue_Enqueue q ops t ticks thread_state s = do {
     (deadlock, s) \<leftarrow> Enqueue_locked q ops t s;
     if deadlock then Some s
     else Some (Enqueue_decide t (Thread_Set_state t thread_state (Add_timeout_ticks t ticks s)))
   }"

definition Make_ready_again :: "nat \<Rightarrow> thread_queues \<Rightarrow> bool \<times> thread_queues" where
  "Make_ready_again t s =
     (let (success, s) = Thread_Wait_flags_try_change t THREAD_QUEUE_INTEND_TO_BLOCK THREAD_WAIT_STATE_READY s;
          (unblock, s) = (if success then (False, s) else (True, Thread_Wait_flags_set t THREAD_WAIT_STATE_READY s))
      in (unblock, Thread_Wait_restore_default t s))"

definition Thread_queue_Resume :: "nat \<Rightarrow> thread_queues \<Rightarrow> thread_queues" where
  "Thread_queue_Resume t s =
     (let (unblock, s) = Make_ready_again t s
      in if unblock then Thread_Remove_timer_and_unblock t s else s)"

definition Extract_locked :: "nat \<Rightarrow> operations_table \<Rightarrow> nat \<Rightarrow> thread_queues \<Rightarrow> (bool \<times> thread_queues) option" where
  "Extract_locked q ops t s = do {
     s \<leftarrow> op_extract ops q t s;
     Some (Make_ready_again t s)
   }"

definition Surrender_no_priority :: "nat \<Rightarrow> nat \<Rightarrow> operations_table \<Rightarrow> thread_queues \<Rightarrow> thread_queues option" where
  "Surrender_no_priority q h ops s = do {
     (t, s) \<leftarrow> op_surrender ops q h s;
     Some (Thread_queue_Resume t s)
   }"

text \<open>The hand-over to a new owner, which on one processor is always fully blocked.\<close>

definition Force_ready_again :: "nat \<Rightarrow> thread_queues \<Rightarrow> thread_queues" where
  "Force_ready_again t s = Thread_Wait_restore_default t (Thread_Wait_flags_set t THREAD_WAIT_STATE_READY s)"

definition Thread_queue_Surrender :: "nat \<Rightarrow> nat \<Rightarrow> operations_table \<Rightarrow> thread_queues \<Rightarrow> thread_queues option" where
  "Thread_queue_Surrender q h ops s = do {
     (new_owner, s) \<leftarrow> op_surrender ops q h s;
     let s = s\<lparr>queue_owner := (queue_owner s)(q := new_owner)\<rparr>;
     Some (Thread_Remove_timer_and_unblock new_owner (Force_ready_again new_owner s))
   }"

definition Thread_Wait_cancel :: "nat \<Rightarrow> thread_queues \<Rightarrow> thread_queues option" where
  "Thread_Wait_cancel t s =
     (let q = wait_queue (threads s t)
      in if q \<noteq> 0
         then do {
           s \<leftarrow> op_extract (wait_operations (threads s t)) q t s;
           Some (Thread_Wait_restore_default t s)
         }
         else Some s)"

fun wait_class :: "Thread_Wait_flags \<Rightarrow> Thread_Wait_class" where
  "wait_class (THREAD_WAIT_STATE_INTEND_TO_BLOCK c) = c"
| "wait_class (THREAD_WAIT_STATE_BLOCKED c) = c"
| "wait_class THREAD_WAIT_STATE_READY = THREAD_WAIT_CLASS_OBJECT"

definition Thread_Continue :: "nat \<Rightarrow> Status_Control \<Rightarrow> thread_queues \<Rightarrow> thread_queues option" where
  "Thread_Continue t status s =
     (let flags = wait_flags (threads s t)
      in if flags \<noteq> THREAD_WAIT_STATE_READY
         then do {
           s \<leftarrow> Thread_Wait_cancel t s;
           let s = update_thread t (\<lambda>th. th\<lparr>return_code := status\<rparr>) s;
           let (success, s) = Thread_Wait_flags_try_change t
             (THREAD_WAIT_STATE_INTEND_TO_BLOCK (wait_class flags)) THREAD_WAIT_STATE_READY s;
           Some (if success then s else Thread_Unblock t (Thread_Wait_flags_set t THREAD_WAIT_STATE_READY s))
         }
         else Some s)"

definition Thread_Timeout :: "nat \<Rightarrow> thread_queues \<Rightarrow> thread_queues option" where
  "Thread_Timeout t s = Thread_Continue t STATUS_TIMEOUT s"

text \<open>The two loops of \<open>_Thread_queue_Flush_critical\<close>; the filter sets the status of the thread
  and takes every thread, as the two filters of \<^verbatim>\<open>threadqflush.c\<close> do that set a status. The update of the priority of an owner at the end
  is left out: it concerns queues with priority inheritance only.\<close>

partial_function (option) flush_loop ::
  "nat \<Rightarrow> operations_table \<Rightarrow> Status_Control \<Rightarrow> nat \<Rightarrow> nat list \<Rightarrow> thread_queues \<Rightarrow> (nat \<times> nat list \<times> thread_queues) option" where
  "flush_loop q ops status flushed unblock s =
     (let h = queue_heads s q
      in if h = 0 then Some (flushed, unblock, s)
         else Option.bind (op_first ops h s) (\<lambda>first.
           Option.bind (Extract_locked q ops first (update_thread first (\<lambda>th. th\<lparr>return_code := status\<rparr>) s)) (\<lambda>(do_unblock, s).
             flush_loop q ops status (flushed + 1) (if do_unblock then unblock @ [first] else unblock) s)))"

declare flush_loop.simps [code]

definition Flush_critical ::
  "nat \<Rightarrow> operations_table \<Rightarrow> Status_Control \<Rightarrow> thread_queues \<Rightarrow> (nat \<times> thread_queues) option" where
  "Flush_critical q ops status s = do {
     (flushed, unblock, s) \<leftarrow> flush_loop q ops status 0 [] s;
     Some (flushed, fold Thread_Remove_timer_and_unblock unblock s)
   }"

section \<open>The heads protocol\<close>

text \<open>
  Every thread owns one heads while it does not wait. It donates them to the queue it waits on:
  the first donation becomes the heads of the queue, the others are stored on its free chain.
  A thread that leaves takes the most recent donation along, so that the heads of the queue
  leave with the last thread. The invariant is stated on the five functions of the state that
  matter: spare heads and queue of a thread, heads of a queue, free chain and threads of heads.
\<close>

definition waits :: "(nat \<Rightarrow> nat) \<Rightarrow> (nat \<Rightarrow> nat list) \<Rightarrow> nat \<Rightarrow> nat list" where
  "waits qh wl q = (if qh q = 0 then [] else wl (qh q))"

definition heads_protocol ::
  "nat set \<Rightarrow> (nat \<Rightarrow> nat) \<Rightarrow> (nat \<Rightarrow> nat) \<Rightarrow> (nat \<Rightarrow> nat) \<Rightarrow> (nat \<Rightarrow> nat list) \<Rightarrow> (nat \<Rightarrow> nat list) \<Rightarrow> bool" where
  "heads_protocol T sp wq qh fc wl \<longleftrightarrow>
     qh 0 = 0 \<and> (\<forall>q. distinct (waits qh fc q) \<and> 0 \<notin> set (waits qh fc q))
     \<and> (\<forall>q r. q \<noteq> r \<longrightarrow> set (waits qh fc q) \<inter> set (waits qh fc r) = {})
     \<and> (\<forall>t\<in>T. \<forall>q. sp t \<noteq> 0 \<longrightarrow> sp t \<notin> set (waits qh fc q))
     \<and> (\<forall>t\<in>T. \<forall>u\<in>T. sp t = sp u \<longrightarrow> sp t \<noteq> 0 \<longrightarrow> t = u)
     \<and> (\<forall>q. qh q \<noteq> 0 \<longrightarrow> wl (qh q) \<noteq> [] \<and> length (fc (qh q)) = length (wl (qh q)) \<and> last (fc (qh q)) = qh q)
     \<and> (\<forall>q. \<forall>h\<in>set (waits qh fc q). h \<noteq> qh q \<longrightarrow> fc h = [])
     \<and> (\<forall>t\<in>T. sp t \<noteq> 0 \<longrightarrow> fc (sp t) = [])
     \<and> (\<forall>q. distinct (waits qh wl q) \<and> set (waits qh wl q) = {t \<in> T. wq t = q \<and> q \<noteq> 0})
     \<and> (\<forall>t\<in>T. sp t = 0 \<longleftrightarrow> wq t \<noteq> 0)"

lemma heads_protocolD:
  assumes "heads_protocol T sp wq qh fc wl"
  shows "qh 0 = 0" "distinct (waits qh fc q)" "0 \<notin> set (waits qh fc q)"
    "q \<noteq> r \<Longrightarrow> set (waits qh fc q) \<inter> set (waits qh fc r) = {}"
    "t \<in> T \<Longrightarrow> sp t \<noteq> 0 \<Longrightarrow> sp t \<notin> set (waits qh fc q)"
    "t \<in> T \<Longrightarrow> u \<in> T \<Longrightarrow> sp t = sp u \<Longrightarrow> sp t \<noteq> 0 \<Longrightarrow> t = u"
    "qh q \<noteq> 0 \<Longrightarrow> wl (qh q) \<noteq> []" "qh q \<noteq> 0 \<Longrightarrow> length (fc (qh q)) = length (wl (qh q))"
    "qh q \<noteq> 0 \<Longrightarrow> last (fc (qh q)) = qh q"
    "h \<in> set (waits qh fc q) \<Longrightarrow> h \<noteq> qh q \<Longrightarrow> fc h = []"
    "t \<in> T \<Longrightarrow> sp t \<noteq> 0 \<Longrightarrow> fc (sp t) = []"
    "distinct (waits qh wl q)" "set (waits qh wl q) = {t \<in> T. wq t = q \<and> q \<noteq> 0}"
    "t \<in> T \<Longrightarrow> sp t = 0 \<longleftrightarrow> wq t \<noteq> 0"
  using assms unfolding heads_protocol_def by (meson | simp)+

lemma heads_protocolI:
  assumes "qh 0 = 0" "\<And>q. distinct (waits qh fc q)" "\<And>q. 0 \<notin> set (waits qh fc q)"
    "\<And>q r. q \<noteq> r \<Longrightarrow> set (waits qh fc q) \<inter> set (waits qh fc r) = {}"
    "\<And>t q. t \<in> T \<Longrightarrow> sp t \<noteq> 0 \<Longrightarrow> sp t \<notin> set (waits qh fc q)"
    "\<And>t u. t \<in> T \<Longrightarrow> u \<in> T \<Longrightarrow> sp t = sp u \<Longrightarrow> sp t \<noteq> 0 \<Longrightarrow> t = u"
    "\<And>q. qh q \<noteq> 0 \<Longrightarrow> wl (qh q) \<noteq> []" "\<And>q. qh q \<noteq> 0 \<Longrightarrow> length (fc (qh q)) = length (wl (qh q))"
    "\<And>q. qh q \<noteq> 0 \<Longrightarrow> last (fc (qh q)) = qh q" "\<And>q h. h \<in> set (waits qh fc q) \<Longrightarrow> h \<noteq> qh q \<Longrightarrow> fc h = []"
    "\<And>t. t \<in> T \<Longrightarrow> sp t \<noteq> 0 \<Longrightarrow> fc (sp t) = []"
    "\<And>q. distinct (waits qh wl q)" "\<And>q. set (waits qh wl q) = {t \<in> T. wq t = q \<and> q \<noteq> 0}"
    "\<And>t. t \<in> T \<Longrightarrow> sp t = 0 \<longleftrightarrow> wq t \<noteq> 0"
  shows "heads_protocol T sp wq qh fc wl"
  unfolding heads_protocol_def by (intro conjI allI ballI impI; (rule assms; assumption | rule assms))

text \<open>The heads of different queues are different.\<close>

lemma heads_in_pool:
  assumes "heads_protocol T sp wq qh fc wl" and "qh q \<noteq> 0"
  shows "qh q \<in> set (waits qh fc q)"
proof -
  have "fc (qh q) \<noteq> []" using heads_protocolD(7,8) [OF assms] by auto
  then have "last (fc (qh q)) \<in> set (fc (qh q))" by simp
  then show ?thesis using heads_protocolD(9) [OF assms] assms(2) by (simp add: waits_def)
qed

lemma heads_injective:
  assumes "heads_protocol T sp wq qh fc wl" and "qh q \<noteq> 0" and "qh q = qh r"
  shows "q = r"
  using heads_in_pool [OF assms(1,2)] heads_in_pool [OF assms(1), of r] heads_protocolD(4) [OF assms(1), of q r] assms
  by auto

lemma heads_protocol_enqueue:
  assumes P: "heads_protocol T sp wq qh fc wl" and t: "t \<in> T" "wq t = 0" and q: "q \<noteq> 0"
    and L: "set L = insert t (set (waits qh wl q))" "length L = Suc (length (waits qh wl q))"
    and h: "h = (if qh q = 0 then sp t else qh q)"
  shows "heads_protocol T (sp(t := 0)) (wq(t := q)) (qh(q := h)) (fc(h := sp t # fc h)) (wl(h := L))"
proof -
  let ?qh = "qh(q := h)" and ?fc = "fc(h := sp t # fc h)" and ?wl = "wl(h := L)" and ?sp = "sp(t := 0)"
  note D = heads_protocolD [OF P]
  have s: "sp t \<noteq> 0" using D(14) t by simp
  have h0: "h \<noteq> 0" using h s by simp
  have hne: "h \<noteq> qh r" if "r \<noteq> q" for r
  proof (cases "qh q = 0")
    case True
    then show ?thesis using h D(5) [OF t(1) s, of r] heads_in_pool [OF P, of r] s by auto
  next
    case False
    then show ?thesis using h heads_injective [OF P, of q r] that by auto
  qed
  have pool: "waits ?qh ?fc r = (if r = q then sp t # waits qh fc q else waits qh fc r)" for r
  proof (cases "r = q")
    case True
    then show ?thesis using h0 h D(11) [OF t(1) s] by (auto simp: waits_def)
  next
    case False
    then show ?thesis using hne [OF False] by (simp add: waits_def)
  qed
  have wts: "waits ?qh ?wl r = (if r = q then L else waits qh wl r)" for r
    using hne [of r] h0 by (cases "r = q") (simp_all add: waits_def)
  have tn: "t \<notin> set (waits qh wl q)" using D(13) [of q] t q by auto
  have dL: "distinct L" using L D(12) [of q] tn by (metis card_distinct distinct_card card_insert_disjoint List.finite_set)
  have notin: "h \<notin> set (waits qh fc r)" if "r \<noteq> q" for r
  proof (cases "qh q = 0")
    case True
    then show ?thesis using h D(5) [OF t(1) s] by simp
  next
    case False
    then show ?thesis using h heads_in_pool [OF P False] D(4) [OF that] by auto
  qed
  show ?thesis
  proof (rule heads_protocolI, unfold pool wts)
    show "?qh 0 = 0" using D(1) q by simp
  next
    fix r show "distinct (if r = q then sp t # waits qh fc q else waits qh fc r)"
      using D(2,5) t(1) s by simp
  next
    fix r show "0 \<notin> set (if r = q then sp t # waits qh fc q else waits qh fc r)" using D(3) s by simp
  next
    fix r r' :: nat assume "r \<noteq> r'"
    then show "set (if r = q then sp t # waits qh fc q else waits qh fc r)
        \<inter> set (if r' = q then sp t # waits qh fc q else waits qh fc r') = {}"
      using D(4) [of r r'] D(5) [OF t(1) s, of r] D(5) [OF t(1) s, of r'] by auto
  next
    fix u r assume "u \<in> T" "?sp u \<noteq> 0"
    then show "?sp u \<notin> set (if r = q then sp t # waits qh fc q else waits qh fc r)"
      using D(5) [of u] D(6) [of u t] t(1) by (auto split: if_splits)
  next
    fix u v assume "u \<in> T" "v \<in> T" "?sp u = ?sp v" "?sp u \<noteq> 0"
    then show "u = v" using D(6) [of u v] by (auto split: if_splits)
  next
    fix r assume r: "?qh r \<noteq> 0"
    have "length (sp t # fc h) = length L \<and> last (sp t # fc h) = h"
      using h D(7-9) [of q] D(11) [OF t(1) s] L(2) by (auto simp: waits_def)
    then show "?wl (?qh r) \<noteq> []" "length (?fc (?qh r)) = length (?wl (?qh r))" "last (?fc (?qh r)) = ?qh r"
      using r D(7-9) [of r] hne [of r] L(2) by (cases "r = q"; auto)+
  next
    fix r g assume g: "g \<in> set (if r = q then sp t # waits qh fc q else waits qh fc r)" "g \<noteq> ?qh r"
    then have "g \<noteq> h" using notin by (auto split: if_splits)
    moreover have "fc g = []" if "r = q" "g \<noteq> sp t"
      using g that D(10) [of g q] h by (auto simp: waits_def split: if_splits)
    moreover have "fc g = []" if "r \<noteq> q" using g that D(10) [of g r] by simp
    ultimately show "?fc g = []" using D(11) [OF t(1) s] by (cases "r = q"; cases "g = sp t") auto
  next
    fix u assume u: "u \<in> T" "?sp u \<noteq> 0"
    then have "sp u \<noteq> h" using h D(5) [of u q] D(6) [of u t] t(1) heads_in_pool [OF P, of q] by (auto split: if_splits)
    then show "?fc (?sp u) = []" using u D(11) [of u] by (auto split: if_splits)
  next
    fix r show "distinct (if r = q then L else waits qh wl r)" using dL D(12) by simp
  next
    fix r show "set (if r = q then L else waits qh wl r) = {u \<in> T. (wq(t := q)) u = r \<and> r \<noteq> 0}"
      using L(1) D(13) t q by auto
  next
    fix u assume "u \<in> T" then show "(?sp u = 0) = ((wq(t := q)) u \<noteq> 0)" using D(14) q by simp
  qed
qed

lemma heads_protocol_extract:
  assumes P: "heads_protocol T sp wq qh fc wl" and t: "t \<in> T" "wq t = q" and q: "q \<noteq> 0"
    and F: "fc (qh q) = a # rest"
  shows "heads_protocol T (sp(t := a)) (wq(t := 0)) (if rest = [] then qh(q := 0) else qh)
     (fc(qh q := rest)) (wl(qh q := remove1 t (wl (qh q))))"
proof -
  let ?qh = "if rest = [] then qh(q := 0) else qh" and ?fc = "fc(qh q := rest)"
    and ?wl = "wl(qh q := remove1 t (wl (qh q)))" and ?sp = "sp(t := a)" and ?h = "qh q"
  note D = heads_protocolD [OF P]
  have tw: "t \<in> set (waits qh wl q)" using D(13) [of q] t q by simp
  then have h0: "?h \<noteq> 0" by (cases "?h = 0") (simp_all add: waits_def)
  have tn: "t \<in> set (wl ?h)" "waits qh wl q = wl ?h" "waits qh fc q = a # rest"
    using tw h0 F by (simp_all add: waits_def)
  have hne: "?h \<noteq> qh r" if "r \<noteq> q" for r using heads_injective [OF P h0, of r] that by auto
  have sp0: "sp t = 0" using D(14) t q by simp
  have len: "length (wl ?h) = Suc (length rest)" using D(8) [OF h0] F by simp
  have last: "last (a # rest) = ?h" using D(9) [OF h0] F by simp
  have a: "a \<noteq> 0" "a \<notin> set rest" "distinct rest" "0 \<notin> set rest" using D(2,3) [of q] tn(3) by auto
  have qh0: "?qh r = 0 \<longleftrightarrow> qh r = 0 \<or> (r = q \<and> rest = [])" for r using h0 by auto
  have pool: "waits ?qh ?fc r = (if r = q then rest else waits qh fc r)" for r
    using hne [of r] h0 by (cases "r = q") (auto simp: waits_def)
  have rem: "remove1 t (wl ?h) = [] \<longleftrightarrow> rest = []"
    using len tn(1) by (metis One_nat_def Suc_inject diff_Suc_1 length_0_conv length_remove1)
  have wts: "waits ?qh ?wl r = (if r = q then remove1 t (wl ?h) else waits qh wl r)" for r
    using hne [of r] h0 rem by (cases "r = q") (auto simp: waits_def)
  have ah: "a = ?h \<longleftrightarrow> rest = []" using last a(2) by (metis last_ConsL last_ConsR last_in_set)
  have afc: "fc a = []" if "rest \<noteq> []" using D(10) [of a q] tn(3) ah that by simp
  have out: "a \<notin> set (waits qh fc r)" if "r \<noteq> q" for r using D(4) [of q r] that tn(3) by auto
  show ?thesis
  proof (rule heads_protocolI, unfold pool wts)
    show "?qh 0 = 0" using D(1) q by simp
  next
    fix r show "distinct (if r = q then rest else waits qh fc r)" using D(2) a by simp
  next
    fix r show "0 \<notin> set (if r = q then rest else waits qh fc r)" using D(3) a by simp
  next
    fix r r' :: nat assume "r \<noteq> r'"
    then show "set (if r = q then rest else waits qh fc r) \<inter> set (if r' = q then rest else waits qh fc r') = {}"
      using D(4) [of r r'] tn(3) by auto
  next
    fix u r assume "u \<in> T" "?sp u \<noteq> 0"
    then show "?sp u \<notin> set (if r = q then rest else waits qh fc r)"
      using D(5) [of u r] tn(3) out a(2) by (auto split: if_splits)
  next
    fix u v assume "u \<in> T" "v \<in> T" "?sp u = ?sp v" "?sp u \<noteq> 0"
    then show "u = v" using D(6) [of u v] D(5) [of u q] D(5) [of v q] tn(3) by (auto split: if_splits)
  next
    fix r assume r: "?qh r \<noteq> 0"
    show "?wl (?qh r) \<noteq> []" "length (?fc (?qh r)) = length (?wl (?qh r))" "last (?fc (?qh r)) = ?qh r"
      using r D(7-9) [of r] hne [of r] rem len tn(1) last by (cases "r = q"; auto simp: length_remove1 split: if_splits)+
  next
    fix r g assume g: "g \<in> set (if r = q then rest else waits qh fc r)" "g \<noteq> ?qh r"
    have "g \<noteq> ?h" using g out D(4) [of q r] heads_in_pool [OF P h0] by (auto split: if_splits)
    then show "?fc g = []" using g D(10) [of g r] tn(3) by (auto split: if_splits)
  next
    fix u assume u: "u \<in> T" "?sp u \<noteq> 0"
    have "sp u \<noteq> ?h" if "u \<noteq> t" using D(5) [of u q] heads_in_pool [OF P h0] u that by auto
    then show "?fc (?sp u) = []" using u D(11) [of u] afc ah by (cases "u = t") auto
  next
    fix r show "distinct (if r = q then remove1 t (wl ?h) else waits qh wl r)" using D(12) [of r] tn(2) by (auto simp: distinct_remove1)
  next
    fix r show "set (if r = q then remove1 t (wl ?h) else waits qh wl r) = {u \<in> T. (wq(t := 0)) u = r \<and> r \<noteq> 0}"
    proof (cases "r = q")
      case True
      have "set (remove1 t (wl ?h)) = set (waits qh wl q) - {t}"
        using D(12) [of q] tn(2) by (simp add: set_remove1_eq)
      then show ?thesis using True D(13) [of q] t q by auto
    next
      case False
      then show ?thesis using D(13) [of r] t by auto
    qed
  next
    fix u assume "u \<in> T" then show "(?sp u = 0) = ((wq(t := 0)) u \<noteq> 0)" using D(14) a by simp
  qed
qed

end
