(* ===== verification/Thread_Wait.thy ===== *)
theory Thread_Wait
  imports Thread_Queue
begin

text \<open>
  What the thread queue handler guarantees. A discipline is an interface with two
  interpretations, FIFO and priority; the protocol of the heads is preserved by every
  operation of a discipline. On top of that, the step relation of threads that enqueue
  themselves, are surrendered, flushed or time out, with interrupts between the parts of
  \<open>_Thread_queue_Enqueue\<close>.
\<close>

section \<open>Disciplines\<close>

abbreviation waiting :: "thread_queues \<Rightarrow> nat \<Rightarrow> nat list" where
  "waiting s q \<equiv> waits (queue_heads s) (Heads s) q"

abbreviation protocol :: "nat set \<Rightarrow> (nat \<Rightarrow> nat) \<Rightarrow> thread_queues \<Rightarrow> bool" where
  "protocol T wq s \<equiv>
     heads_protocol T (\<lambda>t. spare_heads (threads s t)) wq (queue_heads s) (Free_chain s) (Heads s)"

abbreviation wait_queues :: "thread_queues \<Rightarrow> nat \<Rightarrow> nat" where
  "wait_queues s \<equiv> \<lambda>t. wait_queue (threads s t)"

text \<open>The states after a thread has entered a queue at a place given by \<open>L\<close>, and after it has left.\<close>

definition enqueued :: "nat \<Rightarrow> nat \<Rightarrow> nat list \<Rightarrow> thread_queues \<Rightarrow> thread_queues" where
  "enqueued q t L s =
     (let spare = spare_heads (threads s t); h = (if queue_heads s q = 0 then spare else queue_heads s q)
      in s\<lparr>threads := (threads s)(t := threads s t\<lparr>spare_heads := 0\<rparr>), queue_heads := (queue_heads s)(q := h),
           Free_chain := (Free_chain s)(h := spare # Free_chain s h), Heads := (Heads s)(h := L)\<rparr>)"

definition extracted :: "nat \<Rightarrow> nat \<Rightarrow> thread_queues \<Rightarrow> thread_queues" where
  "extracted q t s =
     (let h = queue_heads s q; f = Free_chain s h
      in s\<lparr>threads := (threads s)(t := threads s t\<lparr>spare_heads := hd f\<rparr>),
           queue_heads := (if tl f = [] then (queue_heads s)(q := 0) else queue_heads s),
           Free_chain := (Free_chain s)(h := tl f), Heads := (Heads s)(h := remove1 t (Heads s h))\<rparr>)"

locale discipline =
  fixes ins :: "(nat \<Rightarrow> thread_control) \<Rightarrow> nat \<Rightarrow> nat list \<Rightarrow> nat list"
    and enqueue withdraw :: "nat \<Rightarrow> nat \<Rightarrow> thread_queues \<Rightarrow> thread_queues option"
    and surrender :: "nat \<Rightarrow> nat \<Rightarrow> thread_queues \<Rightarrow> (nat \<times> thread_queues) option"
    and first_thread :: "nat \<Rightarrow> thread_queues \<Rightarrow> nat option"
  assumes ins_set: "set (ins th t xs) = insert t (set xs)"
    and ins_length: "length (ins th t xs) = Suc (length xs)"
    and enqueue_eq: "spare_heads (threads s t) \<noteq> 0 \<Longrightarrow>
      enqueue q t s = Some (enqueued q t (ins (threads s) t (waiting s q)) s)"
    and withdraw_eq: "Free_chain s (queue_heads s q) \<noteq> [] \<Longrightarrow> t \<in> set (Heads s (queue_heads s q)) \<Longrightarrow>
      withdraw q t s = Some (extracted q t s)"
    and first_eq: "Heads s h = t # ts \<Longrightarrow> first_thread h s = Some t"
    and surrender_eq: "Free_chain s (queue_heads s q) \<noteq> [] \<Longrightarrow> Heads s (queue_heads s q) = t # ts \<Longrightarrow>
      surrender q (queue_heads s q) s = Some (t, extracted q t s)"
begin

text \<open>A thread of \<open>T\<close> that waits nowhere can always enter a queue; the protocol is kept.\<close>

lemma enqueue_ok:
  assumes "protocol T ((wait_queues s)(t := 0)) s" and "t \<in> T" and "q \<noteq> 0"
  shows "enqueue q t s = Some (enqueued q t (ins (threads s) t (waiting s q)) s)"
    "protocol T ((wait_queues s)(t := q)) (enqueued q t (ins (threads s) t (waiting s q)) s)"
    "waiting (enqueued q t (ins (threads s) t (waiting s q)) s) q = ins (threads s) t (waiting s q)"
proof -
  let ?L = "ins (threads s) t (waiting s q)" and ?sp = "\<lambda>t. spare_heads (threads s t)"
  let ?h = "if queue_heads s q = 0 then ?sp t else queue_heads s q"
  have sp: "?sp t \<noteq> 0" using heads_protocolD(14) [OF assms(1,2)] by simp
  then show "enqueue q t s = Some (enqueued q t ?L s)" by (rule enqueue_eq)
  have w0: "((wait_queues s)(t := 0)) t = 0" by simp
  note P = heads_protocol_enqueue [OF assms(1,2) w0 assms(3) ins_set [of "threads s" t] ins_length [of "threads s" t] refl]
  have E: "(\<lambda>u. spare_heads (threads (enqueued q t ?L s) u)) = ?sp(t := 0)"
    "queue_heads (enqueued q t ?L s) = (queue_heads s)(q := ?h)"
    "Free_chain (enqueued q t ?L s) = (Free_chain s)(?h := ?sp t # Free_chain s ?h)"
    "Heads (enqueued q t ?L s) = (Heads s)(?h := ?L)"
    by (auto simp: enqueued_def Let_def)
  show "protocol T ((wait_queues s)(t := q)) (enqueued q t ?L s)"
    using P unfolding E fun_upd_upd .
  show "waiting (enqueued q t ?L s) q = ?L" using sp by (simp add: enqueued_def Let_def waits_def)
qed

text \<open>A thread that waits can leave its queue; the other threads stay in their order.\<close>

lemma waiting_thread:
  assumes "protocol T wq s" and "t \<in> T" and "wq t = q" and "q \<noteq> 0"
  shows "t \<in> set (Heads s (queue_heads s q))" "Free_chain s (queue_heads s q) \<noteq> []" "queue_heads s q \<noteq> 0"
proof -
  have "t \<in> set (waiting s q)" using heads_protocolD(13) [OF assms(1), of q] assms by simp
  then show h: "queue_heads s q \<noteq> 0" and t: "t \<in> set (Heads s (queue_heads s q))"
    by (auto simp: waits_def split: if_splits)
  then show "Free_chain s (queue_heads s q) \<noteq> []" using heads_protocolD(8) [OF assms(1) h] by auto
qed

lemma withdraw_ok:
  assumes "protocol T (wait_queues s) s" and "t \<in> T" and "wait_queue (threads s t) = q" and "q \<noteq> 0"
  shows "withdraw q t s = Some (extracted q t s)" "protocol T ((wait_queues s)(t := 0)) (extracted q t s)"
    "waiting (extracted q t s) q = remove1 t (waiting s q)"
proof -
  let ?sp = "\<lambda>t. spare_heads (threads s t)"
  note w = waiting_thread [OF assms]
  show "withdraw q t s = Some (extracted q t s)" using w(2,1) by (rule withdraw_eq)
  obtain a rest where F: "Free_chain s (queue_heads s q) = a # rest" using w(2) by (cases "Free_chain s (queue_heads s q)") auto
  note P = heads_protocol_extract [OF assms F]
  have E: "(\<lambda>u. spare_heads (threads (extracted q t s) u)) = ?sp(t := a)"
    "queue_heads (extracted q t s) = (if rest = [] then (queue_heads s)(q := 0) else queue_heads s)"
    "Free_chain (extracted q t s) = (Free_chain s)(queue_heads s q := rest)"
    "Heads (extracted q t s) = (Heads s)(queue_heads s q := remove1 t (Heads s (queue_heads s q)))"
    using F by (auto simp: extracted_def Let_def)
  show "protocol T ((wait_queues s)(t := 0)) (extracted q t s)" using P unfolding E .
  have "length (Heads s (queue_heads s q)) = Suc (length rest)"
    using heads_protocolD(8) [OF assms(1) w(3)] F by simp
  then have "rest = [] \<Longrightarrow> remove1 t (Heads s (queue_heads s q)) = []"
    using w(1) by (metis One_nat_def diff_Suc_1 length_0_conv length_remove1)
  then show "waiting (extracted q t s) q = remove1 t (waiting s q)"
    using w(3) F by (simp add: extracted_def Let_def waits_def)
qed

lemma first_ok:
  assumes "protocol T (wait_queues s) s" and "queue_heads s q \<noteq> 0"
  obtains t ts where "waiting s q = t # ts" "first_thread (queue_heads s q) s = Some t"
    "t \<in> T" "wait_queue (threads s t) = q" "q \<noteq> 0"
    "surrender q (queue_heads s q) s = Some (t, extracted q t s)"
proof -
  obtain t ts where ts: "Heads s (queue_heads s q) = t # ts" using heads_protocolD(7) [OF assms] by (cases "Heads s (queue_heads s q)") auto
  have W: "waiting s q = t # ts" using ts assms(2) by (simp add: waits_def)
  then have t: "t \<in> T" "wait_queue (threads s t) = q" "q \<noteq> 0"
    using heads_protocolD(13) [OF assms(1), of q] by auto
  show thesis
    using that [OF W first_eq [OF ts] t] surrender_eq [OF waiting_thread(2) [OF assms(1) t] ts] by simp
qed

end

definition fifo_insert :: "(nat \<Rightarrow> thread_control) \<Rightarrow> nat \<Rightarrow> nat list \<Rightarrow> nat list" where
  "fifo_insert th t xs = xs @ [t]"

definition priority_insert :: "(nat \<Rightarrow> thread_control) \<Rightarrow> nat \<Rightarrow> nat list \<Rightarrow> nat list" where
  "priority_insert th t xs = ordered_insert (\<lambda>u. wait_priority (th t) < wait_priority (th u)) t xs"

lemma ordered_insert_set_length:
  "set (ordered_insert P x xs) = insert x (set xs)" "length (ordered_insert P x xs) = Suc (length xs)"
proof -
  have "set xs = set (takeWhile (\<lambda>y. \<not> P y) xs) \<union> set (dropWhile (\<lambda>y. \<not> P y) xs)"
    by (metis set_append takeWhile_dropWhile_id)
  then show "set (ordered_insert P x xs) = insert x (set xs)" by (auto simp: ordered_insert_def)
  have "length xs = length (takeWhile (\<lambda>y. \<not> P y) xs) + length (dropWhile (\<lambda>y. \<not> P y) xs)"
    by (metis length_append takeWhile_dropWhile_id)
  then show "length (ordered_insert P x xs) = Suc (length xs)" by (simp add: ordered_insert_def)
qed

lemma ordered_insert_Nil [simp]: "ordered_insert P x [] = [x]"
  by (simp add: ordered_insert_def)

lemmas discipline_defs = Queue_enqueue_def Queue_extract_def enqueued_def extracted_def Let_def waits_def

lemma ordered_insert_cong:
  assumes "\<And>y. y \<in> set xs \<Longrightarrow> P y = Q y"
  shows "ordered_insert P x xs = ordered_insert Q x xs"
proof -
  have "takeWhile (\<lambda>y. \<not> P y) xs = takeWhile (\<lambda>y. \<not> Q y) xs" "dropWhile (\<lambda>y. \<not> P y) xs = dropWhile (\<lambda>y. \<not> Q y) xs"
    using assms by (auto intro: takeWhile_cong dropWhile_cong)
  then show ?thesis by (simp add: ordered_insert_def)
qed

interpretation fifo: discipline fifo_insert FIFO_enqueue FIFO_extract FIFO_surrender FIFO_first
proof (unfold_locales, goal_cases)
  case (3 s t q)
  then show ?case by (simp add: FIFO_enqueue_def FIFO_do_initialize_def FIFO_do_enqueue_def fifo_insert_def discipline_defs)
next
  case (4 s q t)
  then show ?case by (auto simp: FIFO_extract_def FIFO_do_extract_def discipline_defs split: list.splits)
next
  case (6 s q t ts)
  then show ?case by (auto simp: FIFO_surrender_def FIFO_first_def FIFO_do_extract_def discipline_defs split: list.splits)
qed (simp_all add: fifo_insert_def FIFO_first_def)

interpretation prio: discipline priority_insert Priority_enqueue Priority_extract Priority_surrender Priority_first
proof (unfold_locales, goal_cases)
  case (3 s t q)
  have "ordered_insert (\<lambda>u. wait_priority (threads s t) < wait_priority (((threads s)(t := threads s t\<lparr>spare_heads := 0\<rparr>)) u)) t xs
      = priority_insert (threads s) t xs" for xs
    unfolding priority_insert_def by (rule ordered_insert_cong) simp
  then show ?case using 3
    by (simp add: Priority_enqueue_def Priority_do_initialize_def Priority_do_enqueue_def discipline_defs) (simp add: priority_insert_def)
next
  case (4 s q t)
  then show ?case by (auto simp: Priority_extract_def Priority_do_extract_def discipline_defs split: list.splits)
next
  case (6 s q t ts)
  then show ?case by (auto simp: Priority_surrender_def Priority_first_def Priority_do_extract_def discipline_defs split: list.splits)
qed (simp_all add: priority_insert_def Priority_first_def ordered_insert_set_length)

section \<open>Deadlock detection\<close>

text \<open>A thread waits for the owner of the queue it waits on.\<close>

definition waits_for :: "nat set \<Rightarrow> (nat \<Rightarrow> nat) \<Rightarrow> (nat \<Rightarrow> nat) \<Rightarrow> (nat \<times> nat) set" where
  "waits_for T wq own = {(t, u). t \<in> T \<and> wq t \<noteq> 0 \<and> u = own (wq t) \<and> u \<noteq> 0}"

lemma waits_for_fun: "(t, u) \<in> waits_for T wq own \<Longrightarrow> (t, v) \<in> (waits_for T wq own)\<^sup>* \<Longrightarrow> t \<noteq> v \<Longrightarrow> (u, v) \<in> (waits_for T wq own)\<^sup>*"
  by (erule converse_rtranclE) (auto simp: waits_for_def)

lemma waits_for_step:
  assumes "(t, v) \<in> (waits_for T wq own)\<^sup>*" and "t \<noteq> v"
  shows "wq t \<noteq> 0" "own (wq t) \<noteq> 0" "(t, own (wq t)) \<in> waits_for T wq own"
proof -
  obtain w where w: "(t, w) \<in> waits_for T wq own" using assms by (meson converse_rtranclE)
  then show "wq t \<noteq> 0" "own (wq t) \<noteq> 0" "(t, own (wq t)) \<in> waits_for T wq own"
    by (simp_all add: waits_for_def)
qed

text \<open>
  If no circle of waiting threads exists, the loop over the owners ends, and it reports a
  deadlock exactly if the owner of the queue waits, directly or not, for the thread.
\<close>

lemma Path_acquire_ok:
  assumes wf: "wf ((waits_for T wq (queue_owner s))\<inverse>)" and own: "\<And>q. queue_owner s q \<in> insert 0 T"
    and wq: "\<And>u. u \<noteq> t \<Longrightarrow> wait_queue (threads s u) = wq u"
  shows "Path_acquire q t s =
    Some (queue_owner s q \<noteq> 0 \<and> (queue_owner s q, t) \<in> (waits_for T wq (queue_owner s))\<^sup>*)"
proof -
  let ?R = "waits_for T wq (queue_owner s)"
  have "\<forall>q. queue_owner s q = u \<longrightarrow> Path_acquire q t s = Some (u \<noteq> 0 \<and> (u, t) \<in> ?R\<^sup>*)" for u
    using wf
  proof (induction u rule: wf_induct_rule)
    case (less u)
    show ?case
    proof (intro allI impI)
      fix q assume q: "queue_owner s q = u"
      show "Path_acquire q t s = Some (u \<noteq> 0 \<and> (u, t) \<in> ?R\<^sup>*)"
      proof (cases "u = 0 \<or> u = t")
        case True
        then show ?thesis using q by (subst Path_acquire.simps) auto
      next
        case False
        have P: "Path_acquire q t s = (if wq u \<noteq> 0 then Path_acquire (wq u) t s else Some False)"
          using False q wq [of u] by (subst Path_acquire.simps) simp
        show ?thesis
        proof (cases "wq u \<noteq> 0 \<and> queue_owner s (wq u) \<noteq> 0")
          case True
          then have e: "(u, queue_owner s (wq u)) \<in> ?R" using own [of q] q False by (auto simp: waits_for_def)
          then have "Path_acquire (wq u) t s = Some (queue_owner s (wq u) \<noteq> 0 \<and> (queue_owner s (wq u), t) \<in> ?R\<^sup>*)"
            using less.IH by blast
          moreover have "(u, t) \<in> ?R\<^sup>* \<longleftrightarrow> (queue_owner s (wq u), t) \<in> ?R\<^sup>*"
            using waits_for_fun [OF e] False e by (auto intro: converse_rtrancl_into_rtrancl)
          ultimately show ?thesis using P True False by simp
        next
          case no: False
          then have "(u, t) \<notin> ?R\<^sup>*" using waits_for_step [of u t T wq] False by blast
          moreover have "Path_acquire (wq u) t s = Some False" if "wq u \<noteq> 0"
            using that no by (subst Path_acquire.simps) simp
          ultimately show ?thesis using P by simp
        qed
      qed
    qed
  qed
  then show ?thesis by blast
qed

text \<open>What the operations do to the relation.\<close>

lemma waits_for_claim:
  assumes "wf ((waits_for T wq own)\<inverse>)" and "wq t = 0" and "t \<in> T" and "q \<noteq> 0"
    and "own q \<noteq> 0 \<Longrightarrow> (own q, t) \<notin> (waits_for T wq own)\<^sup>*"
  shows "wf ((waits_for T (wq(t := q)) own)\<inverse>)"
proof -
  have "waits_for T (wq(t := q)) own = (if own q \<noteq> 0 then insert (t, own q) (waits_for T wq own) else waits_for T wq own)"
    using assms(2-4) by (auto simp: waits_for_def split: if_splits)
  moreover have "own q \<noteq> 0 \<Longrightarrow> (t, own q) \<notin> ((waits_for T wq own)\<inverse>)\<^sup>*"
    using assms(5) by (simp add: rtrancl_converse)
  moreover have "(insert (t, own q) (waits_for T wq own))\<inverse> = insert (own q, t) ((waits_for T wq own)\<inverse>)" by auto
  ultimately show ?thesis using assms(1) by (simp add: wf_insert)
qed

lemma waits_for_leave:
  assumes "wf ((waits_for T wq own)\<inverse>)"
  shows "wf ((waits_for T (wq(t := 0)) own)\<inverse>)"
  by (rule wf_subset [OF assms]) (auto simp: waits_for_def split: if_splits)

lemma waits_for_new_owner:
  assumes "wf ((waits_for T wq own)\<inverse>)" and "u \<noteq> 0 \<Longrightarrow> wq u = 0"
  shows "wf ((waits_for T wq (own(q := u)))\<inverse>)"
proof -
  let ?E = "{u} \<times> {t. u \<noteq> 0 \<and> wq t \<noteq> 0}" and ?S = "{(t, v) \<in> waits_for T wq own. wq t \<noteq> q}"
  have "wf (?S\<inverse>)" by (rule wf_subset [OF assms(1)]) auto
  moreover have "wf ?E"
  proof (rule wfUNIVI)
    fix P x assume step: "\<forall>x. (\<forall>y. (y, x) \<in> ?E \<longrightarrow> P y) \<longrightarrow> P x"
    have "P u"
    proof (rule step [rule_format])
      fix y assume "(y, u) \<in> ?E"
      then have "u \<noteq> 0" "wq u \<noteq> 0" by auto
      then show "P y" using assms(2) by simp
    qed
    then show "P x" using step [rule_format, of x] by auto
  qed
  moreover have "Domain ?E \<inter> Range (?S\<inverse>) = {}" using assms(2) by (auto simp: waits_for_def)
  ultimately have "wf (?E \<union> ?S\<inverse>)" by (intro wf_Un) blast+
  moreover have "(waits_for T wq (own(q := u)))\<inverse> \<subseteq> ?E \<union> ?S\<inverse>"
    using assms(2) by (auto simp: waits_for_def split: if_splits)
  ultimately show ?thesis by (rule wf_subset)
qed

section \<open>The invariant and the operations\<close>

definition tq_inv :: "nat set \<Rightarrow> (nat \<Rightarrow> operations_table) \<Rightarrow> thread_queues \<Rightarrow> bool" where
  "tq_inv T qops s \<longleftrightarrow> 0 \<notin> T \<and> (\<forall>q. qops q \<noteq> Operations_default) \<and> protocol T (wait_queues s) s
     \<and> (\<forall>t\<in>T. wait_queue (threads s t) \<noteq> 0 \<longrightarrow> wait_operations (threads s t) = qops (wait_queue (threads s t)))
     \<and> (\<forall>q. queue_owner s q \<in> insert 0 T) \<and> wf ((waits_for T (wait_queues s) (queue_owner s))\<inverse>)"

lemma tq_invD:
  assumes "tq_inv T qops s"
  shows "0 \<notin> T" "qops q \<noteq> Operations_default" "protocol T (wait_queues s) s"
    "t \<in> T \<Longrightarrow> wait_queue (threads s t) \<noteq> 0 \<Longrightarrow> wait_operations (threads s t) = qops (wait_queue (threads s t))"
    "queue_owner s q \<in> insert 0 T" "wf ((waits_for T (wait_queues s) (queue_owner s))\<inverse>)"
  using assms unfolding tq_inv_def by meson+

lemma tq_invI:
  assumes "0 \<notin> T" "\<And>q. qops q \<noteq> Operations_default" "wait_queues s = wq" "protocol T wq s"
    "\<And>t. t \<in> T \<Longrightarrow> wq t \<noteq> 0 \<Longrightarrow> wait_operations (threads s t) = qops (wq t)"
    "\<And>q. queue_owner s q \<in> insert 0 T" "wf ((waits_for T wq (queue_owner s))\<inverse>)"
  shows "tq_inv T qops s"
  unfolding tq_inv_def using assms(3) [THEN fun_cong] assms(1,2,4-7)
  by (intro conjI allI ballI impI) (simp_all add: assms(3))

text \<open>Only six fields matter.\<close>

lemma tq_inv_cong:
  assumes "tq_inv T qops s"
    and "\<And>u. spare_heads (threads s' u) = spare_heads (threads s u)"
    and "\<And>u. wait_queue (threads s' u) = wait_queue (threads s u)"
    and "\<And>u. wait_operations (threads s' u) = wait_operations (threads s u) \<or> wait_queue (threads s u) = 0"
    and "queue_heads s' = queue_heads s" "queue_owner s' = queue_owner s" "Free_chain s' = Free_chain s" "Heads s' = Heads s"
  shows "tq_inv T qops s'"
proof -
  have "wait_queues s' = wait_queues s" "(\<lambda>t. spare_heads (threads s' t)) = (\<lambda>t. spare_heads (threads s t))"
    using assms(2,3) by auto
  note E = this assms(5-8)
  note I = tq_invD [OF assms(1)]
  show ?thesis
  proof (rule tq_invI [OF I(1,2) E(1)], unfold E)
    show "protocol T (wait_queues s) s" using I(3) .
    fix t assume "t \<in> T" "wait_queue (threads s t) \<noteq> 0"
    then show "wait_operations (threads s' t) = qops (wait_queue (threads s t))" using I(4) [of t] assms(4) [of t] by simp
  qed (rule I(5), rule I(6))
qed

lemma tq_inv_owner:
  assumes "tq_inv T qops s" and "u \<in> insert 0 T" and "u \<noteq> 0 \<Longrightarrow> wait_queue (threads s u) = 0"
  shows "tq_inv T qops (s\<lparr>queue_owner := (queue_owner s)(q := u)\<rparr>)"
proof (rule tq_invI [OF tq_invD(1,2) [OF assms(1)] refl])
  show "wf ((waits_for T (wait_queues (s\<lparr>queue_owner := (queue_owner s)(q := u)\<rparr>)) (queue_owner (s\<lparr>queue_owner := (queue_owner s)(q := u)\<rparr>)))\<inverse>)"
    using waits_for_new_owner [OF tq_invD(6) [OF assms(1)] assms(3), of q] by simp
qed (use tq_invD(3,4,5) [OF assms(1)] assms(2) in simp_all)

fun table_insert :: "operations_table \<Rightarrow> (nat \<Rightarrow> thread_control) \<Rightarrow> nat \<Rightarrow> nat list \<Rightarrow> nat list" where
  "table_insert Operations_priority th t xs = priority_insert th t xs"
| "table_insert ops th t xs = fifo_insert th t xs"

lemma table_discipline:
  assumes "ops \<noteq> Operations_default"
  shows "discipline (table_insert ops) (op_enqueue ops) (op_extract ops) (op_surrender ops) (op_first ops)"
proof (cases ops)
  case Operations_FIFO
  then have "table_insert ops = fifo_insert" "op_enqueue ops = FIFO_enqueue" "op_extract ops = FIFO_extract"
    "op_surrender ops = FIFO_surrender" "op_first ops = FIFO_first" by (simp_all add: fun_eq_iff)
  then show ?thesis using fifo.discipline_axioms by simp
next
  case Operations_priority
  then have "table_insert ops = priority_insert" "op_enqueue ops = Priority_enqueue" "op_extract ops = Priority_extract"
    "op_surrender ops = Priority_surrender" "op_first ops = Priority_first" by (simp_all add: fun_eq_iff)
  then show ?thesis using prio.discipline_axioms by simp
qed (use assms in simp)

lemma table_insert_cong:
  assumes "\<And>u. wait_priority (th u) = wait_priority (th' u)"
  shows "table_insert ops th t xs = table_insert ops th' t xs"
  using assms by (cases ops) (simp_all add: fifo_insert_def priority_insert_def)

lemma other_threads [simp]:
  "u \<noteq> t \<Longrightarrow> threads (enqueued q t L s) u = threads s u" "u \<noteq> t \<Longrightarrow> threads (extracted q t s) u = threads s u"
  "queue_owner (enqueued q t L s) = queue_owner s" "queue_owner (extracted q t s) = queue_owner s"
  by (simp_all add: enqueued_def extracted_def Let_def)

lemma own_thread [simp]:
  "threads (enqueued q t L s) t = threads s t\<lparr>spare_heads := 0\<rparr>"
  "threads (extracted q t s) t = threads s t\<lparr>spare_heads := hd (Free_chain s (queue_heads s q))\<rparr>"
  by (simp_all add: enqueued_def extracted_def Let_def)

lemmas wait_defs = Thread_Wait_claim_def Thread_Wait_claim_finalize_def Thread_Wait_restore_default_def Thread_Wait_flags_set_def

definition would_deadlock :: "nat set \<Rightarrow> nat \<Rightarrow> nat \<Rightarrow> thread_queues \<Rightarrow> bool" where
  "would_deadlock T q t s \<longleftrightarrow> queue_owner s q \<noteq> 0 \<and> (queue_owner s q, t) \<in> (waits_for T (wait_queues s) (queue_owner s))\<^sup>*"

text \<open>The locked part of an enqueue returns; it refuses exactly the waits that would close a circle.\<close>

lemma Path_acquire_exact:
  assumes "tq_inv T qops s"
  shows "Path_acquire q t (Thread_Wait_claim t q s) = Some (would_deadlock T q t s)"
  using Path_acquire_ok [of T "wait_queues s" "Thread_Wait_claim t q s" t q] tq_invD(5,6) [OF assms]
  by (simp add: would_deadlock_def Thread_Wait_claim_def)

lemma Enqueue_locked_refused:
  assumes I: "tq_inv T qops s" and t: "wait_queue (threads s t) = 0" and dl: "would_deadlock T q t s"
  obtains s' where "Enqueue_locked q ops t s = Some (True, s')" "tq_inv T qops s'"
    "\<And>u. u \<noteq> t \<Longrightarrow> threads s' u = threads s u" "queue_heads s' = queue_heads s" "Heads s' = Heads s"
    "threads s' t = threads s t\<lparr>wait_operations := Operations_default, return_code := STATUS_DEADLOCK\<rparr>"
proof
  let ?s = "update_thread t (\<lambda>th. th\<lparr>return_code := STATUS_DEADLOCK\<rparr>) (Thread_Wait_restore_default t (Thread_Wait_claim t q s))"
  show "Enqueue_locked q ops t s = Some (True, ?s)"
    using Path_acquire_exact [OF I, of q t] dl by (simp add: Enqueue_locked_def Let_def)
  show "tq_inv T qops ?s" by (rule tq_inv_cong [OF I]) (use t in \<open>simp_all add: wait_defs\<close>)
qed (use t in \<open>simp_all add: wait_defs\<close>)

lemma Enqueue_locked_waits:
  assumes I: "tq_inv T qops s" and t: "t \<in> T" "wait_queue (threads s t) = 0" and q: "q \<noteq> 0"
    and dl: "\<not> would_deadlock T q t s"
  obtains s' where "Enqueue_locked q (qops q) t s = Some (False, s')" "tq_inv T qops s'"
    "\<And>u. u \<noteq> t \<Longrightarrow> threads s' u = threads s u" "queue_owner s' = queue_owner s"
    "waiting s' q = table_insert (qops q) (threads s) t (waiting s q)"
    "threads s' t = threads s t\<lparr>wait_queue := q, wait_operations := qops q, spare_heads := 0,
       return_code := STATUS_SUCCESSFUL, wait_flags := THREAD_QUEUE_INTEND_TO_BLOCK\<rparr>"
proof
  note D = tq_invD [OF I]
  let ?f = "Thread_Wait_claim_finalize t (qops q) (Thread_Wait_claim t q s)"
  let ?L = "table_insert (qops q) (threads ?f) t (waiting ?f q)"
  let ?e = "enqueued q t ?L ?f"
  let ?s = "Thread_Wait_flags_set t THREAD_QUEUE_INTEND_TO_BLOCK (update_thread t (\<lambda>th. th\<lparr>return_code := STATUS_SUCCESSFUL\<rparr>) ?e)"
  have w: "(wait_queues ?f)(t := 0) = wait_queues s" "(wait_queues ?f)(t := q) = (wait_queues s)(t := q)"
    using t by (auto simp: wait_defs)
  have "(\<lambda>u. spare_heads (threads ?f u)) = (\<lambda>u. spare_heads (threads s u))" by (auto simp: wait_defs)
  then have "protocol T ((wait_queues ?f)(t := 0)) ?f" unfolding w(1) using D(3) by (simp add: wait_defs)
  note e = discipline.enqueue_ok [OF table_discipline [OF D(2) [of q]] this t(1) q, unfolded w(2)]
  show "Enqueue_locked q (qops q) t s = Some (False, ?s)"
    using Path_acquire_exact [OF I, of q t] dl e(1) by (simp add: Enqueue_locked_def Let_def)
  show "waiting ?s q = table_insert (qops q) (threads s) t (waiting s q)"
    using e(3) table_insert_cong [of "threads ?f" "threads s" "qops q" t] by (simp add: wait_defs)
  have sq: "(\<lambda>u. spare_heads (threads ?s u)) = (\<lambda>u. spare_heads (threads ?e u))" by (auto simp: wait_defs)
  show "tq_inv T qops ?s"
  proof (rule tq_invI [OF D(1,2)])
    show "wait_queues ?s = (wait_queues s)(t := q)" by (auto simp: wait_defs)
    show "protocol T ((wait_queues s)(t := q)) ?s" using e(2) unfolding sq by (simp add: Thread_Wait_flags_set_def)
    show "wf ((waits_for T ((wait_queues s)(t := q)) (queue_owner ?s))\<inverse>)"
      using waits_for_claim [OF D(6) _ t(1) q] t(2) dl by (auto simp: wait_defs would_deadlock_def)
  qed (use D(4,5) in \<open>auto simp: wait_defs\<close>)
qed (simp_all add: wait_defs)

text \<open>A waiting thread can be taken out of its queue, by extraction or, as the first, by a surrender.\<close>

definition left :: "nat \<Rightarrow> nat \<Rightarrow> thread_queues \<Rightarrow> thread_queues" where
  "left q t s = Thread_Wait_restore_default t (extracted q t s)"

lemma leave_ok:
  assumes I: "tq_inv T qops s" and t: "t \<in> T" "wait_queue (threads s t) = q" and q: "q \<noteq> 0"
  shows "op_extract (qops q) q t s = Some (extracted q t s)" "tq_inv T qops (left q t s)"
    "waiting (left q t s) q = remove1 t (waiting s q)"
proof -
  note D = tq_invD [OF I]
  note e = discipline.withdraw_ok [OF table_discipline [OF D(2)] D(3) t q]
  show "op_extract (qops q) q t s = Some (extracted q t s)" by (rule e(1))
  show "waiting (left q t s) q = remove1 t (waiting s q)" using e(3) by (simp add: left_def wait_defs)
  have sq: "(\<lambda>u. spare_heads (threads (left q t s) u)) = (\<lambda>u. spare_heads (threads (extracted q t s) u))"
    by (auto simp: wait_defs left_def)
  show "tq_inv T qops (left q t s)"
  proof (rule tq_invI [OF D(1,2)])
    show "wait_queues (left q t s) = (wait_queues s)(t := 0)" by (auto simp: wait_defs left_def)
    show "protocol T ((wait_queues s)(t := 0)) (left q t s)" using e(2) unfolding sq by (simp add: left_def wait_defs)
    show "wf ((waits_for T ((wait_queues s)(t := 0)) (queue_owner (left q t s)))\<inverse>)"
      using waits_for_leave [OF D(6)] by (simp add: left_def wait_defs)
  qed (use D(4,5) in \<open>auto simp: wait_defs left_def\<close>)
qed

lemma surrender_ok:
  assumes I: "tq_inv T qops s" and "queue_heads s q \<noteq> 0"
  obtains t ts where "waiting s q = t # ts" "t \<in> T" "wait_queue (threads s t) = q" "q \<noteq> 0"
    "op_surrender (qops q) q (queue_heads s q) s = Some (t, extracted q t s)"
    "op_first (qops q) (queue_heads s q) s = Some t"
  using discipline.first_ok [OF table_discipline [OF tq_invD(2) [OF I]] tq_invD(3) [OF I] assms(2)] by metis

end
