(* ===== verification/Thread_Steps.thy ===== *)
theory Thread_Steps
  imports Thread_Wait
begin

text \<open>
  Threads that block and wake up, with interrupts in between. A step is one uninterrupted
  piece of the code: the parts of \<open>_Thread_queue_Enqueue\<close>, a surrender or a flush by some
  other context, a timer that fires, the change of an owner. The invariant says where every
  thread is: no wake-up is lost, no thread is left blocked behind a satisfied request.
\<close>

section \<open>Effects on one thread\<close>

definition blocked_bits :: "thread_control \<Rightarrow> uint32" where
  "blocked_bits th = (current_state th AND STATES_BLOCKED)"

lemma cleared_bits: "(x AND NOT b) AND b = (0 :: uint32)"
  by (simp add: and.assoc)

lemma set_bits: "b AND m \<noteq> 0 \<Longrightarrow> (x OR b) AND m \<noteq> (0 :: uint32)"
  by (simp add: bit.conj_disj_distrib2 bit_eq_iff bit_simps) blast

text \<open>Unblocking, and the two ways to make a thread ready again.\<close>

definition unblocked :: "thread_control \<Rightarrow> thread_control" where
  "unblocked th = (if current_state th AND STATES_BLOCKED \<noteq> 0
     then th\<lparr>current_state := States_Clear STATES_BLOCKED (current_state th)\<rparr> else th)"

lemma blocked_bits_unblocked [simp]: "blocked_bits (unblocked th) = 0"
  by (simp add: blocked_bits_def unblocked_def States_Clear_def cleared_bits)

lemma unblocked_fields [simp]:
  "wait_flags (unblocked th) = wait_flags th" "wait_queue (unblocked th) = wait_queue th"
  "spare_heads (unblocked th) = spare_heads th" "wait_operations (unblocked th) = wait_operations th"
  "timer_active (unblocked th) = timer_active th" "return_code (unblocked th) = return_code th"
  by (simp_all add: unblocked_def)

lemma Thread_Unblock_eq: "Thread_Unblock t s = update_thread t unblocked s"
  by (simp add: Thread_Unblock_def Thread_Clear_state_def unblocked_def Let_def)

lemma Thread_Remove_timer_and_unblock_eq:
  "Thread_Remove_timer_and_unblock t s = update_thread t (\<lambda>th. unblocked (th\<lparr>timer_active := False\<rparr>)) s"
  by (simp add: Thread_Remove_timer_and_unblock_def Thread_Unblock_eq)

text \<open>A change of fields that the queues do not depend on keeps the invariant.\<close>

lemma tq_inv_update:
  assumes "tq_inv T qops s"
    and "\<And>th. spare_heads (f th) = spare_heads th" "\<And>th. wait_queue (f th) = wait_queue th"
    and "\<And>th. wait_operations (f th) = wait_operations th"
  shows "tq_inv T qops (update_thread t f s)"
  by (rule tq_inv_cong [OF assms(1)]) (use assms(2-4) in \<open>simp_all\<close>)

definition resumed :: "thread_control \<Rightarrow> thread_control" where
  "resumed th = (let th' = th\<lparr>wait_flags := THREAD_WAIT_STATE_READY, wait_queue := 0, wait_operations := Operations_default\<rparr>
     in if wait_flags th = THREAD_QUEUE_INTEND_TO_BLOCK then th' else unblocked (th'\<lparr>timer_active := False\<rparr>))"

lemma Thread_queue_Resume_eq: "Thread_queue_Resume t s = update_thread t resumed s"
  by (simp add: Thread_queue_Resume_def Make_ready_again_def Thread_Wait_flags_try_change_def wait_defs resumed_def
      Thread_Remove_timer_and_unblock_eq Let_def)

section \<open>Operations that wake threads up\<close>

text \<open>What a thread is, apart from its spare heads, after it was taken out of a queue.\<close>

abbreviation taken :: "nat \<Rightarrow> nat \<Rightarrow> thread_queues \<Rightarrow> thread_control" where
  "taken q t s \<equiv> threads s t\<lparr>spare_heads := hd (Free_chain s (queue_heads s q))\<rparr>"

lemma inv_after_leaving:
  assumes "tq_inv T qops s" and "t \<in> T" and "wait_queue (threads s t) = q" and "q \<noteq> 0"
    and "\<And>th. wait_queue (f th) = 0" "\<And>th. spare_heads (f th) = spare_heads th"
  shows "tq_inv T qops (update_thread t f (extracted q t s))"
  by (rule tq_inv_cong [OF leave_ok(2) [OF assms(1-4)]]) (use assms(5,6) in \<open>simp_all add: left_def wait_defs\<close>)

lemma resumed_fields [simp]:
  "wait_queue (resumed th) = 0" "spare_heads (resumed th) = spare_heads th" "wait_flags (resumed th) = THREAD_WAIT_STATE_READY"
  "return_code (resumed th) = return_code th"
  by (simp_all add: resumed_def Let_def)

lemma Surrender_no_priority_ok:
  assumes I: "tq_inv T qops s" and h: "queue_heads s q \<noteq> 0"
  obtains t ts where "waiting s q = t # ts" "t \<in> T" "wait_queue (threads s t) = q"
    "Surrender_no_priority q (queue_heads s q) (qops q) s = Some (update_thread t resumed (extracted q t s))"
    "tq_inv T qops (update_thread t resumed (extracted q t s))"
    "waiting (update_thread t resumed (extracted q t s)) q = ts"
proof -
  obtain t ts where t: "waiting s q = t # ts" "t \<in> T" "wait_queue (threads s t) = q" "q \<noteq> 0"
    "op_surrender (qops q) q (queue_heads s q) s = Some (t, extracted q t s)"
    by (rule surrender_ok [OF I h])
  have w: "waiting (update_thread t resumed (extracted q t s)) q = ts"
    using leave_ok(3) [OF I t(2-4)] t(1) by (simp add: left_def wait_defs)
  have i: "tq_inv T qops (update_thread t resumed (extracted q t s))"
    by (rule inv_after_leaving [OF I t(2-4)]) simp_all
  show thesis
    using that [OF t(1-3) _ i w] t(5) by (simp add: Surrender_no_priority_def Thread_queue_Resume_eq)
qed

definition handed_over :: "thread_control \<Rightarrow> thread_control" where
  "handed_over th = unblocked (th\<lparr>wait_flags := THREAD_WAIT_STATE_READY, wait_queue := 0,
     wait_operations := Operations_default, timer_active := False\<rparr>)"

lemma Thread_queue_Surrender_ok:
  assumes I: "tq_inv T qops s" and h: "queue_heads s q \<noteq> 0"
  obtains t s' where "waiting s q \<noteq> []" "t = hd (waiting s q)" "t \<in> T" "wait_queue (threads s t) = q"
    "Thread_queue_Surrender q (queue_heads s q) (qops q) s = Some s'" "tq_inv T qops s'" "queue_owner s' q = t"
    "threads s' t = handed_over (taken q t s)" "\<And>u. u \<noteq> t \<Longrightarrow> threads s' u = threads s u"
proof -
  obtain t ts where t: "waiting s q = t # ts" "t \<in> T" "wait_queue (threads s t) = q" "q \<noteq> 0"
    "op_surrender (qops q) q (queue_heads s q) s = Some (t, extracted q t s)"
    by (rule surrender_ok [OF I h])
  let ?e = "update_thread t handed_over (extracted q t s)"
  let ?s = "update_thread t handed_over ((extracted q t s)\<lparr>queue_owner := (queue_owner s)(q := t)\<rparr>)"
  have e: "tq_inv T qops ?e" by (rule inv_after_leaving [OF I t(2-4)]) (simp_all add: handed_over_def)
  have "wait_queue (threads ?e t) = 0" by (simp add: handed_over_def)
  then have "tq_inv T qops (?e\<lparr>queue_owner := (queue_owner ?e)(q := t)\<rparr>)" using t(2) by (intro tq_inv_owner [OF e]) simp_all
  then have i: "tq_inv T qops ?s" by (rule tq_inv_cong) simp_all
  have sur: "Thread_queue_Surrender q (queue_heads s q) (qops q) s = Some ?s"
    unfolding Thread_queue_Surrender_def t(5) by (simp add: Force_ready_again_def wait_defs handed_over_def
        Thread_Remove_timer_and_unblock_eq Let_def)
  show thesis by (rule that [OF _ _ t(2,3) sur i]) (simp_all add: t(1))
qed

definition continued :: "Status_Control \<Rightarrow> thread_control \<Rightarrow> thread_control" where
  "continued status th = (let th' = th\<lparr>wait_queue := 0, wait_operations := Operations_default,
     return_code := status, wait_flags := THREAD_WAIT_STATE_READY\<rparr>
     in if wait_flags th = THREAD_QUEUE_INTEND_TO_BLOCK then th' else unblocked th')"

lemma continued_fields [simp]:
  "wait_queue (continued st th) = 0" "spare_heads (continued st th) = spare_heads th"
  "wait_flags (continued st th) = THREAD_WAIT_STATE_READY" "timer_active (continued st th) = timer_active th"
  "return_code (continued st th) = st"
  by (simp_all add: continued_def Let_def)

lemma Thread_Continue_ok:
  assumes I: "tq_inv T qops s" and t: "t \<in> T" "wait_queue (threads s t) = q" "q \<noteq> 0"
    and fl: "wait_flags (threads s t) \<in> {THREAD_QUEUE_INTEND_TO_BLOCK, THREAD_QUEUE_BLOCKED}"
  shows "Thread_Continue t status s = Some (update_thread t (continued status) (extracted q t s))"
    "tq_inv T qops (update_thread t (continued status) (extracted q t s))"
proof -
  have "wait_operations (threads s t) = qops q" using tq_invD(4) [OF I t(1)] t by simp
  then have "Thread_Wait_cancel t s = Some (left q t s)"
    using leave_ok(1) [OF I t] t by (simp add: Thread_Wait_cancel_def left_def)
  then show "Thread_Continue t status s = Some (update_thread t (continued status) (extracted q t s))"
    using fl by (auto simp: Thread_Continue_def left_def wait_defs Thread_Wait_flags_try_change_def
        Thread_Unblock_eq continued_def Let_def)
  show "tq_inv T qops (update_thread t (continued status) (extracted q t s))"
    by (rule inv_after_leaving [OF I t]) simp_all
qed

text \<open>The flush takes all threads out in the order of the queue and ends.\<close>

definition awoken :: "Status_Control \<Rightarrow> thread_control \<Rightarrow> thread_control" where
  "awoken status th = th\<lparr>return_code := status, wait_flags := THREAD_WAIT_STATE_READY, wait_queue := 0,
     wait_operations := Operations_default\<rparr>"

lemma Extract_locked_eq:
  assumes I: "tq_inv T qops s" and t: "t \<in> T" "wait_queue (threads s t) = q" "q \<noteq> 0"
  shows "Extract_locked q (qops q) t (update_thread t (\<lambda>th. th\<lparr>return_code := status\<rparr>) s)
      = Some (wait_flags (threads s t) \<noteq> THREAD_QUEUE_INTEND_TO_BLOCK, update_thread t (awoken status) (extracted q t s))"
    (is "Extract_locked _ _ _ ?s = _")
    "tq_inv T qops (update_thread t (awoken status) (extracted q t s))"
    "waiting (update_thread t (awoken status) (extracted q t s)) q = remove1 t (waiting s q)"
proof -
  have "tq_inv T qops ?s" using I by (rule tq_inv_update) simp_all
  then have "op_extract (qops q) q t ?s = Some (extracted q t ?s)" using t by (intro leave_ok(1)) simp_all
  then show "Extract_locked q (qops q) t ?s
      = Some (wait_flags (threads s t) \<noteq> THREAD_QUEUE_INTEND_TO_BLOCK, update_thread t (awoken status) (extracted q t s))"
    by (cases "threads s t") (simp add: Extract_locked_def Make_ready_again_def Thread_Wait_flags_try_change_def wait_defs
        awoken_def extracted_def Let_def)
  show "tq_inv T qops (update_thread t (awoken status) (extracted q t s))"
    by (rule inv_after_leaving [OF I t]) (simp_all add: awoken_def)
  show "waiting (update_thread t (awoken status) (extracted q t s)) q = remove1 t (waiting s q)"
    using leave_ok(3) [OF I t] by (simp add: left_def wait_defs)
qed

lemma empty_waiting: "tq_inv T qops s \<Longrightarrow> waiting s q = [] \<longleftrightarrow> queue_heads s q = 0"
  using heads_protocolD(7) [OF tq_invD(3)] by (auto simp: waits_def)

lemma flush_loop_ok:
  assumes "tq_inv T qops s" and "waiting s q = ws"
  shows "\<exists>s'. flush_loop q (qops q) status n ub s
       = Some (n + length ws, ub @ filter (\<lambda>u. wait_flags (threads s u) \<noteq> THREAD_QUEUE_INTEND_TO_BLOCK) ws, s')
     \<and> tq_inv T qops s' \<and> waiting s' q = [] \<and> queue_owner s' = queue_owner s
     \<and> (\<forall>u. u \<notin> set ws \<longrightarrow> threads s' u = threads s u)
     \<and> (\<forall>u\<in>set ws. \<exists>sp. threads s' u = awoken status (threads s u\<lparr>spare_heads := sp\<rparr>))"
  using assms
proof (induction ws arbitrary: n ub s)
  case Nil
  then have "queue_heads s q = 0" using empty_waiting by blast
  then have "flush_loop q (qops q) status n ub s = Some (n, ub, s)" by (subst flush_loop.simps) simp
  then show ?case using Nil by simp
next
  case (Cons t ts)
  then have h: "queue_heads s q \<noteq> 0" using empty_waiting [OF Cons.prems(1), of q] by simp
  obtain t' ts' where t: "waiting s q = t' # ts'" "t' \<in> T" "wait_queue (threads s t') = q" "q \<noteq> 0"
    "op_first (qops q) (queue_heads s q) s = Some t'"
    by (rule surrender_ok [OF Cons.prems(1) h])
  have [simp]: "t' = t" "ts' = ts" using t(1) Cons.prems(2) by simp_all
  let ?e = "update_thread t (awoken status) (extracted q t s)"
  let ?b = "wait_flags (threads s t) \<noteq> THREAD_QUEUE_INTEND_TO_BLOCK"
  note e = Extract_locked_eq [OF Cons.prems(1), of t q status] 
  have e: "Extract_locked q (qops q) t (update_thread t (\<lambda>th. th\<lparr>return_code := status\<rparr>) s) = Some (?b, ?e)"
    "tq_inv T qops ?e" "waiting ?e q = ts"
    using e t Cons.prems(2) by simp_all
  have "flush_loop q (qops q) status n ub s = flush_loop q (qops q) status (n + 1) (if ?b then ub @ [t] else ub) ?e"
    using h t(5) e(1) by (subst flush_loop.simps) (simp add: Let_def)
  moreover obtain s' where s': "flush_loop q (qops q) status (n + 1) (if ?b then ub @ [t] else ub) ?e
       = Some (n + 1 + length ts, (if ?b then ub @ [t] else ub) @ filter (\<lambda>u. wait_flags (threads ?e u) \<noteq> THREAD_QUEUE_INTEND_TO_BLOCK) ts, s')"
     "tq_inv T qops s'" "waiting s' q = []" "queue_owner s' = queue_owner ?e"
     "\<forall>u. u \<notin> set ts \<longrightarrow> threads s' u = threads ?e u"
     "\<forall>u\<in>set ts. \<exists>sp. threads s' u = awoken status (threads ?e u\<lparr>spare_heads := sp\<rparr>)"
    using Cons.IH [OF e(2,3)] by blast
  moreover have tn: "t \<notin> set ts" using heads_protocolD(12) [OF tq_invD(3) [OF Cons.prems(1)], of q] Cons.prems(2) by simp
  moreover have "filter (\<lambda>u. wait_flags (threads ?e u) \<noteq> THREAD_QUEUE_INTEND_TO_BLOCK) ts
      = filter (\<lambda>u. wait_flags (threads s u) \<noteq> THREAD_QUEUE_INTEND_TO_BLOCK) ts"
    using tn by (intro filter_cong) auto
  moreover have "\<forall>u\<in>set (t # ts). \<exists>sp. threads s' u = awoken status (threads s u\<lparr>spare_heads := sp\<rparr>)"
  proof
    fix u assume u: "u \<in> set (t # ts)"
    show "\<exists>sp. threads s' u = awoken status (threads s u\<lparr>spare_heads := sp\<rparr>)"
    proof (cases "u = t")
      case True
      then show ?thesis using s'(5) tn by auto
    next
      case False
      then show ?thesis using s'(6) [rule_format, of u] u by simp
    qed
  qed
  ultimately show ?case by (intro exI [of _ s']) auto
qed

lemma fold_unblock:
  assumes "tq_inv T qops s" and "distinct us"
  shows "tq_inv T qops (fold Thread_Remove_timer_and_unblock us s)
    \<and> (\<forall>u. threads (fold Thread_Remove_timer_and_unblock us s) u
         = (if u \<in> set us then unblocked (threads s u\<lparr>timer_active := False\<rparr>) else threads s u))
    \<and> waiting (fold Thread_Remove_timer_and_unblock us s) q = waiting s q
    \<and> queue_owner (fold Thread_Remove_timer_and_unblock us s) = queue_owner s"
  using assms
proof (induction us arbitrary: s)
  case (Cons x us)
  have "tq_inv T qops (Thread_Remove_timer_and_unblock x s)"
    unfolding Thread_Remove_timer_and_unblock_eq by (rule tq_inv_update [OF Cons.prems(1)]) simp_all
  from Cons.IH [OF this] show ?case using Cons.prems(2) by (auto simp: Thread_Remove_timer_and_unblock_eq)
qed simp

lemma Flush_critical_ok:
  assumes I: "tq_inv T qops s"
  obtains s' where "Flush_critical q (qops q) status s = Some (length (waiting s q), s')" "tq_inv T qops s'"
    "waiting s' q = []" "queue_owner s' = queue_owner s" "\<And>u. u \<notin> set (waiting s q) \<Longrightarrow> threads s' u = threads s u"
    "\<And>u. u \<in> set (waiting s q) \<Longrightarrow> \<exists>sp. threads s' u = resumed (threads s u\<lparr>spare_heads := sp, return_code := status\<rparr>)"
proof -
  let ?ws = "waiting s q"
  let ?us = "filter (\<lambda>u. wait_flags (threads s u) \<noteq> THREAD_QUEUE_INTEND_TO_BLOCK) ?ws"
  obtain s1 where s1: "flush_loop q (qops q) status 0 [] s = Some (length ?ws, ?us, s1)" "tq_inv T qops s1"
    "waiting s1 q = []" "queue_owner s1 = queue_owner s" "\<forall>u. u \<notin> set ?ws \<longrightarrow> threads s1 u = threads s u"
    "\<forall>u\<in>set ?ws. \<exists>sp. threads s1 u = awoken status (threads s u\<lparr>spare_heads := sp\<rparr>)"
    using flush_loop_ok [OF I refl, of q status 0 "[]"] by auto
  have d: "distinct ?us" using heads_protocolD(12) [OF tq_invD(3) [OF I]] by simp
  let ?s = "fold Thread_Remove_timer_and_unblock ?us s1"
  note f = fold_unblock [OF s1(2) d, of q]
  show thesis
  proof (rule that [of ?s])
    show "Flush_critical q (qops q) status s = Some (length ?ws, ?s)" using s1(1) by (simp add: Flush_critical_def)
    show "threads ?s u = threads s u" if "u \<notin> set ?ws" for u using that f s1(5) by simp
    show "\<exists>sp. threads ?s u = resumed (threads s u\<lparr>spare_heads := sp, return_code := status\<rparr>)" if u: "u \<in> set ?ws" for u
    proof -
      obtain sp where "threads s1 u = awoken status (threads s u\<lparr>spare_heads := sp\<rparr>)" using s1(6) u by blast
      then show ?thesis using f u by (auto simp: awoken_def resumed_def Let_def)
    qed
  qed (use f s1 in simp_all)
qed

section \<open>Steps\<close>

text \<open>Where a thread is in \<open>_Thread_queue_Enqueue\<close>: after the locked part, the callout, the change of the state.\<close>

datatype phase = Outside | Enqueued | Armed | State_set

inductive tq_step :: "nat set \<Rightarrow> (nat \<Rightarrow> operations_table) \<Rightarrow> thread_queues \<times> (nat \<Rightarrow> phase) \<Rightarrow> thread_queues \<times> (nat \<Rightarrow> phase) \<Rightarrow> bool"
  for T :: "nat set" and qops :: "nat \<Rightarrow> operations_table" where
  step_enqueue: "t \<in> T \<Longrightarrow> pc t = Outside \<Longrightarrow> wait_flags (threads s t) = THREAD_WAIT_STATE_READY \<Longrightarrow> q \<noteq> 0 \<Longrightarrow>
    Enqueue_locked q (qops q) t s = Some (deadlock, s') \<Longrightarrow>
    tq_step T qops (s, pc) (s', if deadlock then pc else pc(t := Enqueued))"
| step_callout: "pc t = Enqueued \<Longrightarrow> t \<in> T \<Longrightarrow> tq_step T qops (s, pc) (Add_timeout_ticks t ticks s, pc(t := Armed))"
| step_set_state: "pc t = Armed \<Longrightarrow> t \<in> T \<Longrightarrow> state AND STATES_BLOCKED \<noteq> 0 \<Longrightarrow>
    tq_step T qops (s, pc) (Thread_Set_state t state s, pc(t := State_set))"
| step_decide: "pc t = State_set \<Longrightarrow> t \<in> T \<Longrightarrow> tq_step T qops (s, pc) (Enqueue_decide t s, pc(t := Outside))"
| step_surrender: "queue_heads s q \<noteq> 0 \<Longrightarrow> Surrender_no_priority q (queue_heads s q) (qops q) s = Some s' \<Longrightarrow>
    tq_step T qops (s, pc) (s', pc)"
| step_hand_over: "queue_heads s q \<noteq> 0 \<Longrightarrow> pc (hd (waiting s q)) = Outside \<Longrightarrow>
    Thread_queue_Surrender q (queue_heads s q) (qops q) s = Some s' \<Longrightarrow> tq_step T qops (s, pc) (s', pc)"
| step_owner: "u = 0 \<or> u \<in> T \<and> pc u = Outside \<and> wait_flags (threads s u) = THREAD_WAIT_STATE_READY \<Longrightarrow>
    tq_step T qops (s, pc) (s\<lparr>queue_owner := (queue_owner s)(q := u)\<rparr>, pc)"
| step_timeout: "t \<in> T \<Longrightarrow> timer_active (threads s t) \<Longrightarrow>
    Thread_Timeout t (update_thread t (\<lambda>th. th\<lparr>timer_active := False\<rparr>) s) = Some s' \<Longrightarrow> tq_step T qops (s, pc) (s', pc)"
| step_flush: "Flush_critical q (qops q) status s = Some (n, s') \<Longrightarrow> tq_step T qops (s, pc) (s', pc)"

text \<open>Where a thread can be. Outside of an enqueue it is ready, or waits and is blocked.\<close>

definition thread_ok :: "phase \<Rightarrow> thread_control \<Rightarrow> bool" where
  "thread_ok p th \<longleftrightarrow> (case p of
     Outside \<Rightarrow> (wait_flags th = THREAD_WAIT_STATE_READY \<and> wait_queue th = 0 \<and> blocked_bits th = 0 \<and> \<not> timer_active th)
       \<or> (wait_flags th = THREAD_QUEUE_BLOCKED \<and> wait_queue th \<noteq> 0 \<and> blocked_bits th \<noteq> 0)
   | _ \<Rightarrow> ((wait_flags th = THREAD_WAIT_STATE_READY \<and> wait_queue th = 0)
        \<or> (wait_flags th = THREAD_QUEUE_INTEND_TO_BLOCK \<and> wait_queue th \<noteq> 0))
       \<and> (blocked_bits th \<noteq> 0 \<longleftrightarrow> p = State_set) \<and> (p = Enqueued \<longrightarrow> \<not> timer_active th))"

definition steps_inv :: "nat set \<Rightarrow> (nat \<Rightarrow> operations_table) \<Rightarrow> thread_queues \<times> (nat \<Rightarrow> phase) \<Rightarrow> bool" where
  "steps_inv T qops sp \<longleftrightarrow> tq_inv T qops (fst sp) \<and> (\<forall>t\<in>T. thread_ok (snd sp t) (threads (fst sp) t))"

lemma thread_ok_spare [simp]: "thread_ok p (th\<lparr>spare_heads := x\<rparr>) = thread_ok p th"
  by (simp add: thread_ok_def blocked_bits_def split: phase.splits)

lemma blocked_bits_fields [simp]:
  "blocked_bits (th\<lparr>wait_flags := a\<rparr>) = blocked_bits th" "blocked_bits (th\<lparr>wait_queue := b\<rparr>) = blocked_bits th"
  "blocked_bits (th\<lparr>wait_operations := c\<rparr>) = blocked_bits th" "blocked_bits (th\<lparr>return_code := d\<rparr>) = blocked_bits th"
  "blocked_bits (th\<lparr>timer_active := e\<rparr>) = blocked_bits th" "blocked_bits (th\<lparr>spare_heads := f\<rparr>) = blocked_bits th"
  by (simp_all add: blocked_bits_def)

lemma thread_ok_wakes:
  assumes "thread_ok p th" and "wait_queue th \<noteq> 0"
  shows "thread_ok p (resumed (th\<lparr>spare_heads := x\<rparr>))" "thread_ok p (resumed (th\<lparr>spare_heads := x, return_code := st\<rparr>))"
    "p = Outside \<Longrightarrow> thread_ok p (handed_over (th\<lparr>spare_heads := x\<rparr>))"
    "thread_ok p (continued st (th\<lparr>timer_active := False, spare_heads := x\<rparr>))"
    "wait_flags th \<in> {THREAD_QUEUE_INTEND_TO_BLOCK, THREAD_QUEUE_BLOCKED}"
  using assms by (auto simp: thread_ok_def resumed_def handed_over_def continued_def Let_def split: phase.splits)

lemma steps_invI:
  assumes "tq_inv T qops s'" and "\<And>u. u \<in> T \<Longrightarrow> thread_ok (pc' u) (threads s' u)"
  shows "steps_inv T qops (s', pc')"
  using assms by (simp add: steps_inv_def)

lemma steps_inv_one:
  assumes "steps_inv T qops (s, pc)" and "tq_inv T qops s'" and "thread_ok p (threads s' t)"
    and "\<And>u. u \<noteq> t \<Longrightarrow> threads s' u = threads s u"
  shows "steps_inv T qops (s', pc(t := p))"
  using assms by (auto simp: steps_inv_def)

lemma steps_inv_same:
  assumes "steps_inv T qops (s, pc)" and "tq_inv T qops s'" and "thread_ok (pc t) (threads s' t)"
    and "\<And>u. u \<noteq> t \<Longrightarrow> threads s' u = threads s u"
  shows "steps_inv T qops (s', pc)"
  using steps_inv_one [OF assms] by simp

lemma steps_invD:
  assumes "steps_inv T qops (s, pc)"
  shows "tq_inv T qops s" "t \<in> T \<Longrightarrow> thread_ok (pc t) (threads s t)"
  using assms by (simp_all add: steps_inv_def)

lemma Enqueue_step_inv:
  assumes S: "steps_inv T qops (s, pc)" and t: "t \<in> T" "pc t = Outside" "wait_flags (threads s t) = THREAD_WAIT_STATE_READY"
    and q: "q \<noteq> 0" and e: "Enqueue_locked q (qops q) t s = Some (deadlock, s')"
  shows "steps_inv T qops (s', if deadlock then pc else pc(t := Enqueued))"
proof -
  note I = steps_invD(1) [OF S]
  have ok: "thread_ok Outside (threads s t)" using steps_invD(2) [OF S t(1)] t(2) by simp
  then have w: "wait_queue (threads s t) = 0" "blocked_bits (threads s t) = 0" "\<not> timer_active (threads s t)"
    using t(3) by (auto simp: thread_ok_def)
  show ?thesis
  proof (cases "would_deadlock T q t s")
    case True
    obtain s1 where s1: "Enqueue_locked q (qops q) t s = Some (True, s1)" "tq_inv T qops s1"
      "\<And>u. u \<noteq> t \<Longrightarrow> threads s1 u = threads s u"
      "threads s1 t = threads s t\<lparr>wait_operations := Operations_default, return_code := STATUS_DEADLOCK\<rparr>"
      by (rule Enqueue_locked_refused [where ops = "qops q", OF I w(1) True]) blast
    have "thread_ok (pc t) (threads s1 t)" using w t s1(4) by (simp add: thread_ok_def)
    then show ?thesis using steps_inv_same [OF S s1(2) _ s1(3)] e s1(1) by simp
  next
    case False
    obtain s1 where s1: "Enqueue_locked q (qops q) t s = Some (False, s1)" "tq_inv T qops s1"
      "\<And>u. u \<noteq> t \<Longrightarrow> threads s1 u = threads s u"
      "threads s1 t = threads s t\<lparr>wait_queue := q, wait_operations := qops q, spare_heads := 0,
         return_code := STATUS_SUCCESSFUL, wait_flags := THREAD_QUEUE_INTEND_TO_BLOCK\<rparr>"
      by (rule Enqueue_locked_waits [OF I t(1) w(1) q False]) blast
    have "thread_ok Enqueued (threads s1 t)" using w q s1(4) by (simp add: thread_ok_def)
    then show ?thesis using steps_inv_one [OF S s1(2) _ s1(3)] e s1(1) by simp
  qed
qed

lemma wake_step_inv:
  assumes S: "steps_inv T qops (s, pc)" and h: "queue_heads s q \<noteq> 0"
  shows "Surrender_no_priority q (queue_heads s q) (qops q) s = Some s' \<Longrightarrow> steps_inv T qops (s', pc)"
    "pc (hd (waiting s q)) = Outside \<Longrightarrow> Thread_queue_Surrender q (queue_heads s q) (qops q) s = Some s' \<Longrightarrow>
       steps_inv T qops (s', pc)"
proof -
  note I = steps_invD(1) [OF S]
  have q: "q \<noteq> 0" using h heads_protocolD(1) [OF tq_invD(3) [OF I]] by (cases "q = 0") simp_all
  show "steps_inv T qops (s', pc)" if e: "Surrender_no_priority q (queue_heads s q) (qops q) s = Some s'"
  proof -
    obtain t ts where t: "t \<in> T" "wait_queue (threads s t) = q"
      "Surrender_no_priority q (queue_heads s q) (qops q) s = Some (update_thread t resumed (extracted q t s))"
      "tq_inv T qops (update_thread t resumed (extracted q t s))"
      by (rule Surrender_no_priority_ok [OF I h])
    have "thread_ok (pc t) (resumed (taken q t s))" using t(2) q by (intro thread_ok_wakes(1) steps_invD(2) [OF S t(1)]) simp
    then show ?thesis using e t(3) by (intro steps_inv_same [OF S, of _ t]) (use t(4) in auto)
  qed
  show "steps_inv T qops (s', pc)" if p: "pc (hd (waiting s q)) = Outside"
    and e: "Thread_queue_Surrender q (queue_heads s q) (qops q) s = Some s'"
  proof -
    obtain t s1 where t: "t = hd (waiting s q)" "t \<in> T" "wait_queue (threads s t) = q"
      "Thread_queue_Surrender q (queue_heads s q) (qops q) s = Some s1" "tq_inv T qops s1"
      "threads s1 t = handed_over (taken q t s)" "\<And>u. u \<noteq> t \<Longrightarrow> threads s1 u = threads s u"
      by (rule Thread_queue_Surrender_ok [OF I h]) blast
    have "thread_ok (pc t) (threads s1 t)"
      unfolding t(6) using t(1,3) q p by (intro thread_ok_wakes(3) steps_invD(2) [OF S t(2)]) simp_all
    then show ?thesis using steps_inv_same [OF S t(5) _ t(7)] e t(4) by simp
  qed
qed

lemma timeout_step_inv:
  assumes S: "steps_inv T qops (s, pc)" and t: "t \<in> T" "timer_active (threads s t)"
    and e: "Thread_Timeout t (update_thread t (\<lambda>th. th\<lparr>timer_active := False\<rparr>) s) = Some s'" (is "Thread_Timeout t ?s = _")
  shows "steps_inv T qops (s', pc)"
proof -
  have I: "tq_inv T qops ?s" by (rule tq_inv_update [OF steps_invD(1) [OF S]]) simp_all
  have ok: "thread_ok (pc t) (threads s t)" by (rule steps_invD(2) [OF S t(1)])
  show ?thesis
  proof (cases "wait_queue (threads s t) = 0")
    case True
    then have "wait_flags (threads s t) = THREAD_WAIT_STATE_READY" "pc t \<noteq> Outside"
      using ok t(2) by (auto simp: thread_ok_def split: phase.splits)
    then have "s' = ?s" "thread_ok (pc t) (threads ?s t)"
      using e ok by (auto simp: Thread_Timeout_def Thread_Continue_def thread_ok_def split: phase.splits)
    then show ?thesis using steps_inv_same [OF S I, of t] by simp
  next
    case False
    have fl: "wait_flags (threads ?s t) \<in> {THREAD_QUEUE_INTEND_TO_BLOCK, THREAD_QUEUE_BLOCKED}"
      using thread_ok_wakes(5) [OF ok False] by simp
    let ?q = "wait_queue (threads s t)"
    have r: "wait_queue (threads ?s t) = ?q" by simp
    note c = Thread_Continue_ok [OF I t(1) r False fl, of STATUS_TIMEOUT]
    have "thread_ok (pc t) (continued STATUS_TIMEOUT (taken ?q t ?s))"
      using thread_ok_wakes(4) [OF ok False, of STATUS_TIMEOUT] by simp
    then show ?thesis
      using e c unfolding Thread_Timeout_def by (intro steps_inv_same [OF S, of _ t]) auto
  qed
qed

lemma flush_step_inv:
  assumes S: "steps_inv T qops (s, pc)" and e: "Flush_critical q (qops q) status s = Some (n, s')"
  shows "steps_inv T qops (s', pc)"
proof -
  note I = steps_invD(1) [OF S]
  obtain s1 where s1: "Flush_critical q (qops q) status s = Some (length (waiting s q), s1)" "tq_inv T qops s1"
    "\<And>u. u \<notin> set (waiting s q) \<Longrightarrow> threads s1 u = threads s u"
    "\<And>u. u \<in> set (waiting s q) \<Longrightarrow> \<exists>sp. threads s1 u = resumed (threads s u\<lparr>spare_heads := sp, return_code := status\<rparr>)"
    by (rule Flush_critical_ok [where q = q and status = status, OF I]) blast
  have "thread_ok (pc u) (threads s1 u)" if u: "u \<in> T" for u
  proof (cases "u \<in> set (waiting s q)")
    case True
    then have "wait_queue (threads s u) \<noteq> 0" using heads_protocolD(13) [OF tq_invD(3) [OF I], of q] by auto
    then show ?thesis using s1(4) [OF True] thread_ok_wakes(2) [OF steps_invD(2) [OF S u]] by auto
  next
    case False
    then show ?thesis using s1(3) steps_invD(2) [OF S u] by simp
  qed
  then show ?thesis using s1(1,2) e by (auto intro: steps_invI)
qed

lemma tq_step_inv:
  assumes "tq_step T qops sp sp'" and "steps_inv T qops sp"
  shows "steps_inv T qops sp'"
  using assms
proof (induction rule: tq_step.induct)
  case (step_enqueue t pc s q deadlock s')
  then show ?case using Enqueue_step_inv by blast
next
  case (step_callout pc t s ticks)
  have "thread_ok Armed (threads (Add_timeout_ticks t ticks s) t)"
    using steps_invD(2) [OF step_callout(3,2)] step_callout(1) by (auto simp: thread_ok_def Add_timeout_ticks_def)
  then show ?case
    using tq_inv_update [OF steps_invD(1) [OF step_callout(3)]] steps_invD(1) [OF step_callout(3)]
    by (intro steps_inv_one [OF step_callout(3)]) (auto simp: Add_timeout_ticks_def)
next
  case (step_set_state pc t state s)
  have "thread_ok State_set (threads (Thread_Set_state t state s) t)"
    using steps_invD(2) [OF step_set_state(4,2)] step_set_state(1) set_bits [OF step_set_state(3)]
    by (auto simp: thread_ok_def Thread_Set_state_def States_Set_def blocked_bits_def)
  then show ?case
    using tq_inv_update [OF steps_invD(1) [OF step_set_state(4)]]
    by (intro steps_inv_one [OF step_set_state(4)]) (auto simp: Thread_Set_state_def)
next
  case (step_decide pc t s)
  have "thread_ok Outside (threads (Enqueue_decide t s) t)"
    using steps_invD(2) [OF step_decide(3,2)] step_decide(1)
    by (auto simp: thread_ok_def Enqueue_decide_def Thread_Wait_flags_try_change_def wait_defs Thread_Remove_timer_and_unblock_eq)
  moreover have "tq_inv T qops (Enqueue_decide t s)"
    using tq_inv_update [OF steps_invD(1) [OF step_decide(3)], of "\<lambda>th. unblocked (th\<lparr>timer_active := False\<rparr>)" t]
      tq_inv_update [OF steps_invD(1) [OF step_decide(3)], of "\<lambda>th. th\<lparr>wait_flags := THREAD_QUEUE_BLOCKED\<rparr>" t]
    by (simp add: Enqueue_decide_def Thread_Wait_flags_try_change_def wait_defs Thread_Remove_timer_and_unblock_eq)
  ultimately show ?case
    by (intro steps_inv_one [OF step_decide(3)])
      (auto simp: Enqueue_decide_def Thread_Wait_flags_try_change_def wait_defs Thread_Remove_timer_and_unblock_eq)
next
  case (step_surrender s q s' pc)
  then show ?case using wake_step_inv(1) by blast
next
  case (step_hand_over s q pc s')
  then show ?case using wake_step_inv(2) by blast
next
  case (step_owner u pc s q)
  have "wait_queue (threads s u) = 0" if "u \<noteq> 0"
    using steps_invD(2) [OF step_owner(2), of u] step_owner(1) that by (auto simp: thread_ok_def)
  then have "tq_inv T qops (s\<lparr>queue_owner := (queue_owner s)(q := u)\<rparr>)"
    using step_owner(1) by (intro tq_inv_owner steps_invD(1) [OF step_owner(2)]) auto
  then show ?case using step_owner(2) by (simp add: steps_inv_def)
next
  case (step_timeout t s s' pc)
  then show ?case using timeout_step_inv by blast
next
  case (step_flush q status s n s' pc)
  then show ?case using flush_step_inv by blast
qed

section \<open>Uninterrupted operations\<close>

lemma steps_inv_update:
  assumes "steps_inv T qops (s, pc)"
    and "\<And>th. spare_heads (f th) = spare_heads th" "\<And>th. wait_queue (f th) = wait_queue th"
    and "\<And>th. wait_operations (f th) = wait_operations th" "\<And>p th. thread_ok p (f th) = thread_ok p th"
  shows "steps_inv T qops (update_thread t f s, pc)"
  using assms(1) tq_inv_update [OF steps_invD(1) [OF assms(1)] assms(2-4)] assms(5) by (simp add: steps_inv_def)

lemma steps_inv_leave:
  assumes S: "steps_inv T qops (s, pc)" and t: "t \<in> T" "wait_queue (threads s t) = q" "q \<noteq> 0"
    and "\<And>th. wait_queue (f th) = 0" "\<And>th. spare_heads (f th) = spare_heads th"
    and "thread_ok (pc t) (f (taken q t s))"
  shows "steps_inv T qops (update_thread t f (extracted q t s), pc)"
  by (rule steps_inv_same [OF S inv_after_leaving [OF steps_invD(1) [OF S] t assms(5,6)], of t]) (use assms(7) in simp_all)

text \<open>A ready thread that enqueues itself on a queue without an owner, without interrupts, ends up blocked there.\<close>

lemma Thread_queue_Enqueue_ok:
  assumes S: "steps_inv T qops (s, \<lambda>_. Outside)" and t: "t \<in> T" "wait_flags (threads s t) = THREAD_WAIT_STATE_READY"
    and q: "q \<noteq> 0" "queue_owner s q = 0" and st: "state AND STATES_BLOCKED \<noteq> 0"
  obtains s' th where "Thread_queue_Enqueue q (qops q) t ticks state s = Some s'" "steps_inv T qops (s', \<lambda>_. Outside)"
    "waiting s' q = table_insert (qops q) (threads s) t (waiting s q)" "queue_owner s' = queue_owner s"
    "threads s' = (threads s)(t := th)" "wait_flags th = THREAD_QUEUE_BLOCKED"
    "return_argument th = return_argument (threads s t)" "return_argument_second th = return_argument_second (threads s t)"
    "wait_option th = wait_option (threads s t)" "wait_count th = wait_count (threads s t)"
proof -
  note I = steps_invD(1) [OF S]
  have w: "wait_queue (threads s t) = 0" using steps_invD(2) [OF S t(1)] t(2) by (auto simp: thread_ok_def)
  have dl: "\<not> would_deadlock T q t s" using q by (simp add: would_deadlock_def)
  obtain s1 where s1: "Enqueue_locked q (qops q) t s = Some (False, s1)" "\<And>u. u \<noteq> t \<Longrightarrow> threads s1 u = threads s u"
    "queue_owner s1 = queue_owner s" "waiting s1 q = table_insert (qops q) (threads s) t (waiting s q)"
    "threads s1 t = threads s t\<lparr>wait_queue := q, wait_operations := qops q, spare_heads := 0,
       return_code := STATUS_SUCCESSFUL, wait_flags := THREAD_QUEUE_INTEND_TO_BLOCK\<rparr>"
    by (rule Enqueue_locked_waits [OF I t(1) w q(1) dl]) blast
  let ?a = "Add_timeout_ticks t ticks s1"
  let ?b = "Thread_Set_state t state ?a"
  let ?c = "Enqueue_decide t ?b"
  let ?pc = "(\<lambda>_. Outside)(t := Enqueued) :: nat \<Rightarrow> phase"
  have E: "Thread_queue_Enqueue q (qops q) t ticks state s = Some ?c" using s1(1) by (simp add: Thread_queue_Enqueue_def)
  have 1: "steps_inv T qops (s1, ?pc)" using Enqueue_step_inv [OF S t(1) _ t(2) q(1) s1(1)] by simp
  have 2: "steps_inv T qops (?a, ?pc(t := Armed))" by (rule tq_step_inv [OF tq_step.step_callout 1]) (simp_all add: t)
  have 3: "steps_inv T qops (?b, ?pc(t := Armed, t := State_set))"
    by (rule tq_step_inv [OF tq_step.step_set_state 2]) (simp_all add: t st)
  have 4: "steps_inv T qops (?c, ?pc(t := Armed, t := State_set, t := Outside))"
    by (rule tq_step_inv [OF tq_step.step_decide 3]) (simp_all add: t)
  have pc: "?pc(t := Armed, t := State_set, t := Outside) = (\<lambda>_. Outside)" by auto
  have fl: "wait_flags (threads ?b t) = THREAD_QUEUE_INTEND_TO_BLOCK"
    using s1(5) by (simp add: Thread_Set_state_def Add_timeout_ticks_def)
  then have c: "?c = update_thread t (\<lambda>th. th\<lparr>wait_flags := THREAD_QUEUE_BLOCKED\<rparr>) ?b"
    by (simp add: Enqueue_decide_def Thread_Wait_flags_try_change_def Thread_Wait_flags_set_def)
  have th: "threads ?c = (threads s)(t := threads ?c t)"
    unfolding c using s1(2) by (auto simp: Thread_Set_state_def Add_timeout_ticks_def)
  show thesis
  proof (rule that [OF E 4 [unfolded pc] _ _ th])
    show "waiting ?c q = table_insert (qops q) (threads s) t (waiting s q)" "queue_owner ?c = queue_owner s"
      unfolding c using s1(3,4) by (simp_all add: Thread_Set_state_def Add_timeout_ticks_def)
  qed (unfold c, use s1(5) in \<open>simp_all add: Thread_Set_state_def Add_timeout_ticks_def\<close>)
qed

section \<open>Properties of the thread queue handler\<close>

definition tq_start :: "nat set \<Rightarrow> thread_queues \<Rightarrow> bool" where
  "tq_start T s \<longleftrightarrow> 0 \<notin> T \<and> (\<forall>q. queue_heads s q = 0 \<and> queue_owner s q = 0)
     \<and> inj_on (\<lambda>t. spare_heads (threads s t)) T
     \<and> (\<forall>t\<in>T. spare_heads (threads s t) \<noteq> 0 \<and> Free_chain s (spare_heads (threads s t)) = []
         \<and> wait_flags (threads s t) = THREAD_WAIT_STATE_READY \<and> wait_queue (threads s t) = 0
         \<and> blocked_bits (threads s t) = 0 \<and> \<not> timer_active (threads s t))"

lemma start_inv:
  assumes "tq_start T s" and "\<And>q. qops q \<noteq> Operations_default"
  shows "steps_inv T qops (s, \<lambda>_. Outside)"
proof -
  have p: "protocol T (wait_queues s) s"
    by (rule heads_protocolI) (use assms(1) in \<open>auto simp: tq_start_def waits_def inj_on_def\<close>)
  have "waits_for T (wait_queues s) (queue_owner s) = {}" using assms(1) by (auto simp: tq_start_def waits_for_def)
  then have "tq_inv T qops s"
    using assms(1) by (intro tq_invI [OF _ assms(2) refl p]) (simp_all add: tq_start_def)
  then show ?thesis by (rule steps_invI) (use assms(1) in \<open>auto simp: tq_start_def thread_ok_def\<close>)
qed

lemma reachable_inv:
  assumes "tq_start T s" and "\<And>q. qops q \<noteq> Operations_default" and "(tq_step T qops)\<^sup>*\<^sup>* (s, \<lambda>_. Outside) sp"
  shows "steps_inv T qops sp"
  using assms(3) by (induction rule: rtranclp_induct) (auto intro: start_inv [OF assms(1,2)] tq_step_inv)


text \<open>C25. The heads are conserved. In every reachable state a queue has heads exactly while
  threads wait on it, its free chain holds as many heads as threads wait, every heads belongs
  to one queue or is the spare of one thread, and a waiting thread has no spare: an enqueue
  never lacks heads and no two queues share them.\<close>

theorem heads_conserved:
  assumes "tq_start T s" and "\<And>q. qops q \<noteq> Operations_default"
    and "(tq_step T qops)\<^sup>*\<^sup>* (s, \<lambda>_. Outside) (s', pc)"
  shows "(\<forall>q. queue_heads s' q = 0 \<longleftrightarrow> waiting s' q = [])
    \<and> (\<forall>q. length (waits (queue_heads s') (Free_chain s') q) = length (waiting s' q))
    \<and> (\<forall>q r. q \<noteq> r \<longrightarrow> set (waits (queue_heads s') (Free_chain s') q) \<inter> set (waits (queue_heads s') (Free_chain s') r) = {})
    \<and> (\<forall>t\<in>T. spare_heads (threads s' t) \<noteq> 0 \<longleftrightarrow> (\<forall>q. t \<notin> set (waiting s' q)))
    \<and> (\<forall>t\<in>T. spare_heads (threads s' t) \<noteq> 0 \<longrightarrow>
         (\<forall>q. spare_heads (threads s' t) \<notin> set (waits (queue_heads s') (Free_chain s') q))
         \<and> (\<forall>u\<in>T. spare_heads (threads s' u) = spare_heads (threads s' t) \<longrightarrow> u = t))"
proof -
  note S = reachable_inv [OF assms]
  note I = steps_invD(1) [OF S]
  note P = heads_protocolD [OF tq_invD(3) [OF I]]
  show ?thesis
  proof (intro conjI allI ballI impI)
    show "queue_heads s' q = 0 \<longleftrightarrow> waiting s' q = []" for q using empty_waiting [OF I] by blast
    show "length (waits (queue_heads s') (Free_chain s') q) = length (waiting s' q)" for q using P(8) by (simp add: waits_def)
    show "set (waits (queue_heads s') (Free_chain s') q) \<inter> set (waits (queue_heads s') (Free_chain s') r) = {}" if "q \<noteq> r" for q r
      using P(4) [OF that] .
    show "spare_heads (threads s' t) \<noteq> 0 \<longleftrightarrow> (\<forall>q. t \<notin> set (waiting s' q))" if "t \<in> T" for t
      using P(13,14) that by auto
    show "spare_heads (threads s' t) \<notin> set (waits (queue_heads s') (Free_chain s') q)"
      if "t \<in> T" "spare_heads (threads s' t) \<noteq> 0" for t q using P(5) that by blast
    show "u = t" if "t \<in> T" "spare_heads (threads s' t) \<noteq> 0" "u \<in> T" "spare_heads (threads s' u) = spare_heads (threads s' t)" for t u
      using P(6) that by metis
  qed
qed

text \<open>C26. No operation of the handler gets stuck, and deadlock detection is exact. In every
  reachable state the walk over the owners ends; a thread that wants to wait is refused exactly
  if the owner of the queue waits, directly or through other owners, for that thread, otherwise
  it is entered at the place the discipline gives it; surrendering a queue with waiting threads
  takes the first one out, flushing takes all of them out.\<close>

theorem thread_queue_progress:
  assumes "tq_start T s" and "\<And>q. qops q \<noteq> Operations_default"
    and "(tq_step T qops)\<^sup>*\<^sup>* (s, \<lambda>_. Outside) (s', pc)"
    and "t \<in> T" and "wait_queue (threads s' t) = 0" and "q \<noteq> 0"
  shows "(if queue_owner s' q \<noteq> 0 \<and> (queue_owner s' q, t) \<in> (waits_for T (wait_queues s') (queue_owner s'))\<^sup>*
      then \<exists>s2. Enqueue_locked q (qops q) t s' = Some (True, s2) \<and> return_code (threads s2 t) = STATUS_DEADLOCK
        \<and> waiting s2 q = waiting s' q
      else \<exists>s2. Enqueue_locked q (qops q) t s' = Some (False, s2)
        \<and> waiting s2 q = (if qops q = Operations_priority
             then ordered_insert (\<lambda>u. wait_priority (threads s' t) < wait_priority (threads s' u)) t (waiting s' q)
             else waiting s' q @ [t]))
    \<and> (waiting s' q = [] \<or> (\<exists>s2. Surrender_no_priority q (queue_heads s' q) (qops q) s' = Some s2 \<and> waiting s2 q = tl (waiting s' q)
        \<and> wait_flags (threads s2 (hd (waiting s' q))) = THREAD_WAIT_STATE_READY))
    \<and> (\<exists>s2. Flush_critical q (qops q) status s' = Some (length (waiting s' q), s2) \<and> waiting s2 q = [])"
proof (intro conjI)
  note I = steps_invD(1) [OF reachable_inv [OF assms(1-3)]]
  show "if queue_owner s' q \<noteq> 0 \<and> (queue_owner s' q, t) \<in> (waits_for T (wait_queues s') (queue_owner s'))\<^sup>*
      then \<exists>s2. Enqueue_locked q (qops q) t s' = Some (True, s2) \<and> return_code (threads s2 t) = STATUS_DEADLOCK
        \<and> waiting s2 q = waiting s' q
      else \<exists>s2. Enqueue_locked q (qops q) t s' = Some (False, s2)
        \<and> waiting s2 q = (if qops q = Operations_priority
             then ordered_insert (\<lambda>u. wait_priority (threads s' t) < wait_priority (threads s' u)) t (waiting s' q)
             else waiting s' q @ [t])"
  proof (cases "would_deadlock T q t s'")
    case True
    obtain s2 where "Enqueue_locked q (qops q) t s' = Some (True, s2)" "queue_heads s2 = queue_heads s'" "Heads s2 = Heads s'"
      "threads s2 t = threads s' t\<lparr>wait_operations := Operations_default, return_code := STATUS_DEADLOCK\<rparr>"
      by (rule Enqueue_locked_refused [where ops = "qops q", OF I assms(5) True]) blast
    then show ?thesis using True by (simp add: would_deadlock_def)
  next
    case False
    obtain s2 where "Enqueue_locked q (qops q) t s' = Some (False, s2)"
      "waiting s2 q = table_insert (qops q) (threads s') t (waiting s' q)"
      by (rule Enqueue_locked_waits [OF I assms(4-6) False]) blast
    moreover have "table_insert (qops q) (threads s') t (waiting s' q) = (if qops q = Operations_priority
             then ordered_insert (\<lambda>u. wait_priority (threads s' t) < wait_priority (threads s' u)) t (waiting s' q)
             else waiting s' q @ [t])" by (cases "qops q") (simp_all add: priority_insert_def fifo_insert_def)
    moreover have "\<not> (queue_owner s' q \<noteq> 0 \<and> (queue_owner s' q, t) \<in> (waits_for T (wait_queues s') (queue_owner s'))\<^sup>*)"
      using False unfolding would_deadlock_def .
    ultimately show ?thesis by simp
  qed
  show "waiting s' q = [] \<or> (\<exists>s2. Surrender_no_priority q (queue_heads s' q) (qops q) s' = Some s2
      \<and> waiting s2 q = tl (waiting s' q) \<and> wait_flags (threads s2 (hd (waiting s' q))) = THREAD_WAIT_STATE_READY)"
  proof (cases "queue_heads s' q = 0")
    case True
    then show ?thesis by (simp add: waits_def)
  next
    case False
    show ?thesis by (rule Surrender_no_priority_ok [OF I False]) auto
  qed
  show "\<exists>s2. Flush_critical q (qops q) status s' = Some (length (waiting s' q), s2) \<and> waiting s2 q = []"
    by (rule Flush_critical_ok [where q = q and status = status, OF I]) blast
qed

section \<open>A wake-up in the middle of an enqueue\<close>

text \<open>
  Thread 1 enqueues itself on queue 5; before it starts its timer, an interrupt surrenders the
  queue. The thread completes the enqueue and finds itself ready.
\<close>

definition idle_thread :: "nat \<Rightarrow> thread_control" where
  "idle_thread heads = \<lparr>spare_heads = heads, wait_flags = THREAD_WAIT_STATE_READY, return_code = STATUS_SUCCESSFUL,
     wait_queue = 0, wait_operations = Operations_default, wait_count = 0, wait_option = 0, return_argument = 0,
     return_argument_second = 0, current_state = 0, timer_active = False, wait_priority = 0\<rparr>"

definition idle_queues :: thread_queues where
  "idle_queues = \<lparr>threads = \<lambda>t. idle_thread (100 + t), queue_heads = \<lambda>_. 0, queue_owner = \<lambda>_. 0,
     Free_chain = \<lambda>_. [], Heads = \<lambda>_. []\<rparr>"

lemma idle_queues_start: "tq_start {1, 2} idle_queues"
  by (simp add: tq_start_def idle_queues_def idle_thread_def blocked_bits_def)

definition race_states :: "thread_queues \<times> thread_queues \<times> thread_queues" where
  "race_states =
     (let s1 = snd (the (Enqueue_locked 5 Operations_FIFO 1 idle_queues));
          s2 = the (Surrender_no_priority 5 (queue_heads s1 5) Operations_FIFO s1);
          s3 = Enqueue_decide 1 (Thread_Set_state 1 STATES_WAITING_FOR_MESSAGE (Add_timeout_ticks 1 7 s2))
      in (s1, s2, s3))"

lemmas thread_queue_eval = Enqueue_locked_def FIFO_enqueue_def FIFO_do_initialize_def FIFO_do_enqueue_def Queue_enqueue_def
  FIFO_surrender_def FIFO_first_def FIFO_do_extract_def Queue_extract_def Surrender_no_priority_def Thread_queue_Resume_def
  Make_ready_again_def Thread_Wait_flags_try_change_def Thread_Remove_timer_and_unblock_def Thread_Unblock_def
  Thread_Clear_state_def Thread_Set_state_def Add_timeout_ticks_def Enqueue_decide_def States_Set_def States_Clear_def
  STATES_BLOCKED_def STATES_WAITING_FOR_MESSAGE_def wait_defs idle_queues_def idle_thread_def Let_def
  Path_acquire.simps [of 5]

lemma race_enqueue: "Enqueue_locked 5 Operations_FIFO 1 idle_queues = Some (False, fst race_states)"
  by (simp add: race_states_def thread_queue_eval)

lemma race_surrender:
  "queue_heads (fst race_states) 5 \<noteq> 0"
  "Surrender_no_priority 5 (queue_heads (fst race_states) 5) Operations_FIFO (fst race_states) = Some (fst (snd race_states))"
  by (simp_all add: race_states_def thread_queue_eval)

lemma race_decide:
  "snd (snd race_states) = Enqueue_decide 1 (Thread_Set_state 1 STATES_WAITING_FOR_MESSAGE (Add_timeout_ticks 1 7 (fst (snd race_states))))"
  by (simp add: race_states_def Let_def)

lemma race_run: "(tq_step {1, 2} (\<lambda>_. Operations_FIFO))\<^sup>*\<^sup>* (idle_queues, \<lambda>_. Outside) (snd (snd race_states), \<lambda>_. Outside)"
proof -
  let ?step = "tq_step {1, 2} (\<lambda>_. Operations_FIFO)" and ?pc = "(\<lambda>_. Outside)(1 := Enqueued) :: nat \<Rightarrow> phase"
  let ?a = "Add_timeout_ticks 1 7 (fst (snd race_states))"
  let ?b = "Thread_Set_state 1 STATES_WAITING_FOR_MESSAGE ?a"
  have 1: "?step (idle_queues, \<lambda>_. Outside) (fst race_states, ?pc)"
    using tq_step.step_enqueue [where pc = "\<lambda>_. Outside" and qops = "\<lambda>_. Operations_FIFO" and T = "{1, 2}", OF _ _ _ _ race_enqueue]
    by (simp add: idle_queues_def [THEN arg_cong, where f = threads] idle_thread_def)
  have 2: "?step (fst race_states, ?pc) (fst (snd race_states), ?pc)"
    using tq_step.step_surrender [of "fst race_states" 5 "\<lambda>_. Operations_FIFO"] race_surrender by simp
  have 3: "?step (fst (snd race_states), ?pc) (?a, ?pc(1 := Armed))"
    by (rule tq_step.step_callout) simp_all
  have 4: "?step (?a, ?pc(1 := Armed)) (?b, ?pc(1 := Armed, 1 := State_set))"
    by (rule tq_step.step_set_state) (simp_all add: STATES_BLOCKED_def STATES_WAITING_FOR_MESSAGE_def)
  have 5: "?step (?b, ?pc(1 := Armed, 1 := State_set)) (Enqueue_decide 1 ?b, ?pc(1 := Armed, 1 := State_set, 1 := Outside))"
    by (rule tq_step.step_decide) simp_all
  have pc: "?pc(1 := Armed, 1 := State_set, 1 := Outside) = (\<lambda>_. Outside)" by auto
  show ?thesis
    using 1 2 3 4 5 unfolding pc race_decide [symmetric] by (meson converse_rtranclp_into_rtranclp rtranclp.rtrancl_refl)
qed


theorem heads_conserved_witness:
  "queue_heads (snd (snd race_states)) 5 = 0 \<and> waiting (snd (snd race_states)) 5 = []
   \<and> length (waits (queue_heads (snd (snd race_states))) (Free_chain (snd (snd race_states))) 5) = 0"
proof -
  have "queue_heads (snd (snd race_states)) 5 = 0" by (simp add: race_states_def thread_queue_eval)
  then show ?thesis using heads_conserved [OF idle_queues_start _ race_run] by simp
qed

theorem thread_queue_progress_witness:
  "\<exists>s2. Enqueue_locked 5 Operations_FIFO 1 idle_queues = Some (False, s2) \<and> waiting s2 5 = [1]"
  using thread_queue_progress [OF idle_queues_start _ rtranclp.rtrancl_refl, of "\<lambda>_. Operations_FIFO" 1 5 STATUS_UNSATISFIED]
  by (simp add: idle_queues_def idle_thread_def waits_def)

end
