(* ===== verification/Message_Queue.thy ===== *)
theory Message_Queue
  imports Thread_Steps
begin

text \<open>
  The message queues of the score (\<^verbatim>\<open>cpukit/score/src/coremsg*.c\<close>,
  \<^verbatim>\<open>cpukit/include/rtems/score/coremsgimpl.h\<close>) without notification. Messages are stored in
  buffers that an initialisation cuts out of one area and that move between the chains of
  pending and inactive messages; the links are those of \<^verbatim>\<open>Chain.thy\<close>. Message contents and
  the buffers of the callers are bytes of one memory, so that the sizes of the buffers matter; the
  links, sizes and priorities in front of the contents are functions of their own.
  A directive that has to wait ends with \<open>Waits\<close>: the thread is in the wait queue and gets its
  status when it is made ready.
\<close>

section \<open>Definitions\<close>

type_synonym byte = "8 word"

record memory =
  links :: chain_mem
  bytes :: "nat \<Rightarrow> byte"
  msg_size :: "nat \<Rightarrow> nat"
  msg_priority :: "nat \<Rightarrow> int"
  size_objects :: "nat \<Rightarrow> nat"
  queues :: thread_queues

datatype CORE_message_queue_Disciplines =
  CORE_MESSAGE_QUEUE_DISCIPLINES_FIFO | CORE_MESSAGE_QUEUE_DISCIPLINES_PRIORITY

record message_queue =
  Wait_queue :: nat
  operations :: operations_table
  maximum_pending_messages :: uint32
  number_of_pending_messages :: uint32
  maximum_message_size :: nat
  Pending_messages :: nat
  message_buffers :: nat
  Inactive_messages :: nat

text \<open>A chain node, a size and a priority, padded to a multiple of 8 bytes.\<close>

definition SIZEOF_BUFFER :: nat where "SIZEOF_BUFFER = 32"

definition SIZE_MAX :: nat where "SIZE_MAX = 2 ^ 64 - 1"

definition MESSAGE_SIZE_LIMIT :: nat where
  "MESSAGE_SIZE_LIMIT = SIZE_MAX - 8 + 1 - SIZEOF_BUFFER"

definition CORE_MESSAGE_QUEUE_SEND_REQUEST :: int where "CORE_MESSAGE_QUEUE_SEND_REQUEST = 2 ^ 31 - 1"
definition CORE_MESSAGE_QUEUE_URGENT_REQUEST :: int where "CORE_MESSAGE_QUEUE_URGENT_REQUEST = - (2 ^ 31)"

definition RTEMS_ALIGN_UP :: "nat \<Rightarrow> nat \<Rightarrow> nat" where
  "RTEMS_ALIGN_UP v a = (v + a - 1) div a * a"

datatype outcome = Returned Status_Control | Waits

definition memcpy :: "nat \<Rightarrow> nat \<Rightarrow> nat \<Rightarrow> (nat \<Rightarrow> byte) \<Rightarrow> nat \<Rightarrow> byte" where
  "memcpy destination source n f =
     (\<lambda>a. if destination \<le> a \<and> a < destination + n then f (source + (a - destination)) else f a)"

definition CORE_message_queue_Copy_buffer :: "nat \<Rightarrow> nat \<Rightarrow> nat \<Rightarrow> memory \<Rightarrow> memory" where
  "CORE_message_queue_Copy_buffer source destination n m =
     m\<lparr>bytes := memcpy destination source n (bytes m)\<rparr>"

definition message_area :: "nat \<Rightarrow> nat" where "message_area b = b + SIZEOF_BUFFER"

definition CORE_message_queue_Initialize ::
  "message_queue \<Rightarrow> CORE_message_queue_Disciplines \<Rightarrow> uint32 \<Rightarrow> nat \<Rightarrow> (nat \<Rightarrow> nat) \<Rightarrow> memory
    \<Rightarrow> Status_Control \<times> message_queue \<times> memory" where
  "CORE_message_queue_Initialize mq disc maximum_pending maximum_size allocate_buffers m =
     (if maximum_size > MESSAGE_SIZE_LIMIT then (STATUS_MESSAGE_QUEUE_INVALID_SIZE, mq, m)
      else (let buffer_size = RTEMS_ALIGN_UP maximum_size 8 + SIZEOF_BUFFER
       in if unat maximum_pending > SIZE_MAX div buffer_size then (STATUS_MESSAGE_QUEUE_INVALID_NUMBER, mq, m)
          else (let mq = mq\<lparr>message_buffers := allocate_buffers (unat maximum_pending * buffer_size)\<rparr>
           in if message_buffers mq = 0 then (STATUS_MESSAGE_QUEUE_NO_MEMORY, mq, m)
              else (let
                mq = mq\<lparr>maximum_pending_messages := maximum_pending, number_of_pending_messages := 0,
                  maximum_message_size := maximum_size\<rparr>;
                m = m\<lparr>links := Chain_Initialize_empty (Pending_messages mq) (links m)\<rparr>;
                m = m\<lparr>queues := (queues m)\<lparr>queue_heads := (queue_heads (queues m))(Wait_queue mq := 0),
                  queue_owner := (queue_owner (queues m))(Wait_queue mq := 0)\<rparr>\<rparr>;
                mq = mq\<lparr>operations := (if disc = CORE_MESSAGE_QUEUE_DISCIPLINES_PRIORITY
                  then Operations_priority else Operations_FIFO)\<rparr>;
                m = m\<lparr>links := Chain_Initialize (Inactive_messages mq) (message_buffers mq) (unat maximum_pending) buffer_size (links m)\<rparr>
              in (STATUS_SUCCESSFUL, mq, m)))))"

definition CORE_message_queue_Order :: "int \<Rightarrow> memory \<Rightarrow> nat \<Rightarrow> bool" where
  "CORE_message_queue_Order left_priority m right \<longleftrightarrow> left_priority < msg_priority m right"

definition CORE_message_queue_Insert_message ::
  "message_queue \<Rightarrow> nat \<Rightarrow> nat \<Rightarrow> nat \<Rightarrow> int \<Rightarrow> memory \<Rightarrow> (message_queue \<times> memory) option" where
  "CORE_message_queue_Insert_message mq the_message content_source content_size submit_type m =
     (let m = m\<lparr>msg_size := (msg_size m)(the_message := content_size)\<rparr>;
          m = CORE_message_queue_Copy_buffer content_source (message_area the_message) content_size m;
          m = m\<lparr>msg_priority := (msg_priority m)(the_message := submit_type)\<rparr>;
          mq = mq\<lparr>number_of_pending_messages := number_of_pending_messages mq + 1\<rparr>
      in if submit_type = CORE_MESSAGE_QUEUE_SEND_REQUEST
         then Some (mq, m\<lparr>links := Chain_Append_unprotected (Pending_messages mq) the_message (links m)\<rparr>)
         else if submit_type \<noteq> CORE_MESSAGE_QUEUE_URGENT_REQUEST
         then do {
           l \<leftarrow> Chain_Insert_ordered_unprotected (Pending_messages mq) the_message
             (CORE_message_queue_Order (msg_priority m the_message) m) (links m);
           Some (mq, m\<lparr>links := l\<rparr>)
         }
         else Some (mq, m\<lparr>links := Chain_Prepend_unprotected (Pending_messages mq) the_message (links m)\<rparr>))"

definition CORE_message_queue_Allocate_message_buffer :: "message_queue \<Rightarrow> memory \<Rightarrow> nat \<times> memory" where
  "CORE_message_queue_Allocate_message_buffer mq m =
     (let (b, l) = Chain_Get_unprotected (Inactive_messages mq) (links m) in (b, m\<lparr>links := l\<rparr>))"

definition CORE_message_queue_Free_message_buffer :: "message_queue \<Rightarrow> nat \<Rightarrow> memory \<Rightarrow> memory" where
  "CORE_message_queue_Free_message_buffer mq b m =
     m\<lparr>links := Chain_Append_unprotected (Inactive_messages mq) b (links m)\<rparr>"

definition CORE_message_queue_Get_pending_message :: "message_queue \<Rightarrow> memory \<Rightarrow> nat \<times> memory" where
  "CORE_message_queue_Get_pending_message mq m =
     (let (b, l) = Chain_Get_unprotected (Pending_messages mq) (links m) in (b, m\<lparr>links := l\<rparr>))"

text \<open>The receiver (0 if there is none) and the memory.\<close>

definition CORE_message_queue_Dequeue_receiver ::
  "message_queue \<Rightarrow> nat \<Rightarrow> nat \<Rightarrow> int \<Rightarrow> memory \<Rightarrow> (nat \<times> memory) option" where
  "CORE_message_queue_Dequeue_receiver mq buffer n submit_type m =
     (if number_of_pending_messages mq \<noteq> 0 then Some (0, m)
      else (let heads = queue_heads (queues m) (Wait_queue mq)
       in if heads = 0 then Some (0, m)
          else do {
            (the_thread, s) \<leftarrow> op_surrender (operations mq) (Wait_queue mq) heads (queues m);
            let m = m\<lparr>queues := s\<rparr>;
            let m = m\<lparr>size_objects := (size_objects m)(return_argument (threads s the_thread) := n)\<rparr>;
            let m = m\<lparr>queues := update_thread the_thread (\<lambda>th. th\<lparr>wait_count := word_of_int submit_type\<rparr>) (queues m)\<rparr>;
            let m = CORE_message_queue_Copy_buffer buffer (return_argument_second (threads s the_thread)) n m;
            Some (the_thread, m\<lparr>queues := Thread_queue_Resume the_thread (queues m)\<rparr>)
          }))"

definition Thread_Wait_get_status :: "nat \<Rightarrow> thread_queues \<Rightarrow> outcome" where
  "Thread_Wait_get_status t s =
     (if wait_flags (threads s t) = THREAD_WAIT_STATE_READY then Returned (return_code (threads s t)) else Waits)"

definition CORE_message_queue_Submit ::
  "message_queue \<Rightarrow> nat \<Rightarrow> nat \<Rightarrow> nat \<Rightarrow> int \<Rightarrow> bool \<Rightarrow> bool \<Rightarrow> uint32 \<Rightarrow> memory \<Rightarrow> (outcome \<times> message_queue \<times> memory) option" where
  "CORE_message_queue_Submit mq executing buffer n submit_type wait isr_in_progress ticks m =
     (if n > maximum_message_size mq then Some (Returned STATUS_MESSAGE_INVALID_SIZE, mq, m)
      else do {
        (the_thread, m) \<leftarrow> CORE_message_queue_Dequeue_receiver mq buffer n submit_type m;
        if the_thread \<noteq> 0 then Some (Returned STATUS_SUCCESSFUL, mq, m)
        else (let (the_message, m) = CORE_message_queue_Allocate_message_buffer mq m
          in if the_message \<noteq> 0
             then do {
               (mq, m) \<leftarrow> CORE_message_queue_Insert_message mq the_message buffer n submit_type m;
               Some (Returned STATUS_SUCCESSFUL, mq, m)
             }
             else if \<not> wait then Some (Returned STATUS_TOO_MANY, mq, m)
             else if isr_in_progress then Some (Returned STATUS_MESSAGE_QUEUE_WAIT_IN_ISR, mq, m)
             else do {
               let s = update_thread executing (\<lambda>th. th\<lparr>return_argument_second := buffer,
                 wait_option := word_of_nat n, wait_count := word_of_int submit_type\<rparr>) (queues m);
               s \<leftarrow> Thread_queue_Enqueue (Wait_queue mq) (operations mq) executing ticks STATES_WAITING_FOR_MESSAGE s;
               Some (Thread_Wait_get_status executing s, mq, m\<lparr>queues := s\<rparr>)
             })
      })"

definition CORE_message_queue_Seize ::
  "message_queue \<Rightarrow> nat \<Rightarrow> nat \<Rightarrow> nat \<Rightarrow> bool \<Rightarrow> uint32 \<Rightarrow> memory \<Rightarrow> (outcome \<times> message_queue \<times> memory) option" where
  "CORE_message_queue_Seize mq executing buffer size_p wait ticks m =
     (let (the_message, m) = CORE_message_queue_Get_pending_message mq m
      in if the_message \<noteq> 0
         then (let
           mq = mq\<lparr>number_of_pending_messages := number_of_pending_messages mq - 1\<rparr>;
           m = m\<lparr>size_objects := (size_objects m)(size_p := msg_size m the_message)\<rparr>;
           m = m\<lparr>queues := update_thread executing (\<lambda>th. th\<lparr>wait_count := word_of_int (msg_priority m the_message)\<rparr>) (queues m)\<rparr>;
           m = CORE_message_queue_Copy_buffer (message_area the_message) buffer (size_objects m size_p) m;
           heads = queue_heads (queues m) (Wait_queue mq)
           in if heads = 0
              then Some (Returned STATUS_SUCCESSFUL, mq, CORE_message_queue_Free_message_buffer mq the_message m)
              else do {
                (the_thread, s) \<leftarrow> op_surrender (operations mq) (Wait_queue mq) heads (queues m);
                (mq, m) \<leftarrow> CORE_message_queue_Insert_message mq the_message
                  (return_argument_second (threads s the_thread)) (unat (wait_option (threads s the_thread)))
                  (sint (wait_count (threads s the_thread))) (m\<lparr>queues := s\<rparr>);
                Some (Returned STATUS_SUCCESSFUL, mq, m\<lparr>queues := Thread_queue_Resume the_thread (queues m)\<rparr>)
              })
         else if \<not> wait then Some (Returned STATUS_UNSATISFIED, mq, m)
         else do {
           let s = update_thread executing (\<lambda>th. th\<lparr>return_argument_second := buffer, return_argument := size_p\<rparr>) (queues m);
           s \<leftarrow> Thread_queue_Enqueue (Wait_queue mq) (operations mq) executing ticks STATES_WAITING_FOR_MESSAGE s;
           Some (Thread_Wait_get_status executing s, mq, m\<lparr>queues := s\<rparr>)
         })"

partial_function (option) broadcast_loop :: "message_queue \<Rightarrow> nat \<Rightarrow> nat \<Rightarrow> uint32 \<Rightarrow> memory \<Rightarrow> (uint32 \<times> memory) option" where
  "broadcast_loop mq buffer n number_broadcasted m =
     Option.bind (CORE_message_queue_Dequeue_receiver mq buffer n 0 m) (\<lambda>(t, m).
       if t \<noteq> 0 then broadcast_loop mq buffer n (number_broadcasted + 1) m else Some (number_broadcasted, m))"

declare broadcast_loop.simps [code]

text \<open>The status, and the count unless it was not written.\<close>

definition CORE_message_queue_Broadcast ::
  "message_queue \<Rightarrow> nat \<Rightarrow> nat \<Rightarrow> memory \<Rightarrow> (Status_Control \<times> uint32 option \<times> memory) option" where
  "CORE_message_queue_Broadcast mq buffer n m =
     (if n > maximum_message_size mq then Some (STATUS_MESSAGE_INVALID_SIZE, None, m)
      else do {
        (count, m) \<leftarrow> broadcast_loop mq buffer n 0 m;
        Some (STATUS_SUCCESSFUL, Some count, m)
      })"

definition CORE_message_queue_Flush :: "message_queue \<Rightarrow> memory \<Rightarrow> uint32 \<times> message_queue \<times> memory" where
  "CORE_message_queue_Flush mq m =
     (let count = number_of_pending_messages mq
      in if count \<noteq> 0
         then (let
           mq = mq\<lparr>number_of_pending_messages := 0\<rparr>;
           l = links m;
           inactive_head = Chain_Head (Inactive_messages mq);
           inactive_first = cnext l inactive_head;
           message_queue_first = Chain_First (Pending_messages mq) l;
           message_queue_last = Chain_Last (Pending_messages mq) l;
           l = set_cnext inactive_head message_queue_first l;
           l = set_cnext message_queue_last inactive_first l;
           l = set_cprev inactive_first message_queue_last l;
           l = set_cprev message_queue_first inactive_head l
           in (count, mq, m\<lparr>links := Chain_Initialize_empty (Pending_messages mq) l\<rparr>))
         else (count, mq, m))"

definition CORE_message_queue_Close :: "message_queue \<Rightarrow> memory \<Rightarrow> (nat \<times> memory) option" where
  "CORE_message_queue_Close mq m = do {
     (flushed, s) \<leftarrow> Flush_critical (Wait_queue mq) (operations mq) STATUS_MESSAGE_QUEUE_WAS_DELETED (queues m);
     Some (flushed, m\<lparr>queues := s\<rparr>)
   }"

section \<open>Memory\<close>

definition read_bytes :: "(nat \<Rightarrow> byte) \<Rightarrow> nat \<Rightarrow> nat \<Rightarrow> byte list" where
  "read_bytes f a n = map (\<lambda>i. f (a + i)) [0..<n]"

lemma length_read_bytes [simp]: "length (read_bytes f a n) = n"
  by (simp add: read_bytes_def)

lemma read_bytes_cong: "(\<And>x. a \<le> x \<Longrightarrow> x < a + n \<Longrightarrow> f x = g x) \<Longrightarrow> read_bytes f a n = read_bytes g a n"
  by (simp add: read_bytes_def)

lemma read_copied: "read_bytes (bytes (CORE_message_queue_Copy_buffer src dst n m)) dst n = read_bytes (bytes m) src n"
  by (simp add: read_bytes_def CORE_message_queue_Copy_buffer_def memcpy_def)

lemma read_beside:
  "a + k \<le> dst \<or> dst + n \<le> a \<Longrightarrow> read_bytes (bytes (CORE_message_queue_Copy_buffer src dst n m)) a k = read_bytes (bytes m) a k"
  by (rule read_bytes_cong) (auto simp: CORE_message_queue_Copy_buffer_def memcpy_def)

lemma Copy_buffer_fields [simp]:
  "links (CORE_message_queue_Copy_buffer src dst n m) = links m"
  "msg_size (CORE_message_queue_Copy_buffer src dst n m) = msg_size m"
  "msg_priority (CORE_message_queue_Copy_buffer src dst n m) = msg_priority m"
  "size_objects (CORE_message_queue_Copy_buffer src dst n m) = size_objects m"
  "queues (CORE_message_queue_Copy_buffer src dst n m) = queues m"
  by (simp_all add: CORE_message_queue_Copy_buffer_def)

lemma align_up_ge: "0 < a \<Longrightarrow> v \<le> RTEMS_ALIGN_UP v a"
proof -
  assume a: "0 < a"
  have "(v + a - 1) div a * a + (v + a - 1) mod a = v + a - 1" by simp
  moreover have "(v + a - 1) mod a < a" using a by simp
  ultimately show ?thesis unfolding RTEMS_ALIGN_UP_def using a by linarith
qed

section \<open>Buffers\<close>

definition buffer_size :: "message_queue \<Rightarrow> nat" where
  "buffer_size mq = RTEMS_ALIGN_UP (maximum_message_size mq) 8 + SIZEOF_BUFFER"

definition buffers :: "message_queue \<Rightarrow> nat list" where
  "buffers mq = node_array (unat (maximum_pending_messages mq)) (buffer_size mq) (message_buffers mq)"

text \<open>The memory of all buffers together; a buffer of a caller must be outside of it.\<close>

definition outside :: "message_queue \<Rightarrow> nat \<Rightarrow> bool" where
  "outside mq a \<longleftrightarrow> a + maximum_message_size mq \<le> message_buffers mq
     \<or> message_buffers mq + unat (maximum_pending_messages mq) * buffer_size mq \<le> a"

lemma buffer_size_pos: "0 < buffer_size mq" "maximum_message_size mq + SIZEOF_BUFFER \<le> buffer_size mq"
  using align_up_ge [of 8 "maximum_message_size mq"] by (simp_all add: buffer_size_def SIZEOF_BUFFER_def)

lemma node_array_apart:
  assumes "a \<in> set (node_array n sz s)" and "b \<in> set (node_array n sz s)" and "a \<noteq> b" and "0 < sz"
  shows "a + sz \<le> b \<or> b + sz \<le> a"
  using assms by (induction n sz s rule: node_array.induct) (auto dest: node_array_ge)

lemma areas_apart:
  assumes "a \<in> set (buffers mq)" and "b \<in> set (buffers mq)" and "a \<noteq> b"
    and "k \<le> maximum_message_size mq" and "n \<le> maximum_message_size mq"
  shows "message_area a + k \<le> message_area b \<or> message_area b + n \<le> message_area a"
  using node_array_apart [OF assms(1-3) [unfolded buffers_def] buffer_size_pos(1)] buffer_size_pos(2) [of mq] assms(4,5)
  by (auto simp: message_area_def)

lemma outside_apart:
  assumes "outside mq a" and "b \<in> set (buffers mq)" and "k \<le> maximum_message_size mq" and "n \<le> maximum_message_size mq"
  shows "message_area b + k \<le> a \<or> a + n \<le> message_area b"
  using assms node_array_ge [OF assms(2) [unfolded buffers_def]] buffer_size_pos(2) [of mq]
  by (auto simp: outside_def message_area_def)

definition content :: "memory \<Rightarrow> nat \<Rightarrow> byte list" where
  "content m b = read_bytes (bytes m) (message_area b) (msg_size m b)"

text \<open>A message as its receivers see it: priority and content.\<close>

definition message :: "memory \<Rightarrow> nat \<Rightarrow> int \<times> byte list" where
  "message m b = (msg_priority m b, content m b)"

text \<open>Where a message is inserted.\<close>

definition place_message :: "int \<Rightarrow> int \<times> byte list \<Rightarrow> (int \<times> byte list) list \<Rightarrow> (int \<times> byte list) list" where
  "place_message submit_type x xs =
     (if submit_type = CORE_MESSAGE_QUEUE_SEND_REQUEST then xs @ [x]
      else if submit_type \<noteq> CORE_MESSAGE_QUEUE_URGENT_REQUEST then ordered_insert (\<lambda>y. submit_type < fst y) x xs
      else x # xs)"

lemma map_ordered_insert:
  assumes "\<And>y. y \<in> set xs \<Longrightarrow> P y = Q (f y)"
  shows "map f (ordered_insert P x xs) = ordered_insert Q (f x) (map f xs)"
proof -
  have "takeWhile (\<lambda>y. \<not> Q y) (map f xs) = map f (takeWhile (\<lambda>y. \<not> P y) xs)"
    "dropWhile (\<lambda>y. \<not> Q y) (map f xs) = map f (dropWhile (\<lambda>y. \<not> P y) xs)"
    using assms by (auto simp: takeWhile_map dropWhile_map o_def intro!: arg_cong [where f = "map f"] takeWhile_cong dropWhile_cong)
  then show ?thesis by (simp add: ordered_insert_def)
qed

section \<open>The invariant\<close>

definition storage :: "message_queue \<Rightarrow> memory \<Rightarrow> nat list \<Rightarrow> nat list \<Rightarrow> bool" where
  "storage mq m ps fs \<longleftrightarrow>
     chain_queue.two_queues (links m) (Pending_messages mq) ps (Inactive_messages mq) fs
     \<and> set ps \<subseteq> set (buffers mq) \<and> set fs \<subseteq> set (buffers mq)
     \<and> unat (number_of_pending_messages mq) = length ps
     \<and> (\<forall>b\<in>set ps. msg_size m b \<le> maximum_message_size mq)"

text \<open>The insertion of a message, from a buffer that is in neither chain.\<close>

lemma Insert_message_ok:
  assumes st: "storage mq m ps fs" and b: "chain_queue.loose b (Pending_messages mq) ps (Inactive_messages mq) fs"
    "b \<in> set (buffers mq)" and n: "n \<le> maximum_message_size mq" and full: "length ps < unat (maximum_pending_messages mq)"
  obtains m' ps' where
    "CORE_message_queue_Insert_message mq b src n submit_type m
       = Some (mq\<lparr>number_of_pending_messages := number_of_pending_messages mq + 1\<rparr>, m')"
    "storage (mq\<lparr>number_of_pending_messages := number_of_pending_messages mq + 1\<rparr>) m' ps' fs"
    "length ps' = Suc (length ps)"
    "map (message m') ps' = place_message submit_type (submit_type, read_bytes (bytes m) src n) (map (message m) ps)"
    "queues m' = queues m" "size_objects m' = size_objects m"
    "\<And>a k. a + k \<le> message_area b \<or> message_area b + n \<le> a \<Longrightarrow> read_bytes (bytes m') a k = read_bytes (bytes m) a k"
proof -
  let ?m = "CORE_message_queue_Copy_buffer src (message_area b) n (m\<lparr>msg_size := (msg_size m)(b := n)\<rparr>)
      \<lparr>msg_priority := (msg_priority m)(b := submit_type)\<rparr>"
  let ?mq = "mq\<lparr>number_of_pending_messages := number_of_pending_messages mq + 1\<rparr>"
  let ?P = "CORE_message_queue_Order submit_type ?m"
  define ps' where "ps' = (if submit_type = CORE_MESSAGE_QUEUE_SEND_REQUEST then ps @ [b]
    else if submit_type \<noteq> CORE_MESSAGE_QUEUE_URGENT_REQUEST then ordered_insert ?P b ps else b # ps)"
  have two: "chain_queue.two_queues (links m) (Pending_messages mq) ps (Inactive_messages mq) fs"
    using st by (simp add: storage_def)
  note add = chain_queue.add_node [OF two b(1)]
  obtain lo where lo: "Chain_Insert_ordered_unprotected (Pending_messages mq) b ?P (links m) = Some lo"
    "chain_queue.two_queues lo (Pending_messages mq) (ordered_insert ?P b ps) (Inactive_messages mq) fs"
    using add(3) [of ?P] by blast
  define l where "l = (if submit_type = CORE_MESSAGE_QUEUE_SEND_REQUEST then Chain_Append_unprotected (Pending_messages mq) b (links m)
    else if submit_type \<noteq> CORE_MESSAGE_QUEUE_URGENT_REQUEST then lo else Chain_Prepend_unprotected (Pending_messages mq) b (links m))"
  have two': "chain_queue.two_queues l (Pending_messages mq) ps' (Inactive_messages mq) fs"
    using add(1,2) lo(2) by (simp add: l_def ps'_def)
  have ins: "CORE_message_queue_Insert_message mq b src n submit_type m = Some (?mq, ?m\<lparr>links := l\<rparr>)"
    using lo(1) by (simp add: CORE_message_queue_Insert_message_def l_def Let_def)
  have ps': "set ps' = insert b (set ps)" "length ps' = Suc (length ps)"
    by (auto simp: ps'_def ordered_insert_set_length)
  have bn: "b \<notin> set ps" using b(1) by (auto simp: chain_queue.loose_def nodes_def)
  have inb: "set ps \<subseteq> set (buffers mq)" "set fs \<subseteq> set (buffers mq)"
    and sz: "\<And>y. y \<in> set ps \<Longrightarrow> msg_size m y \<le> maximum_message_size mq"
    and num: "unat (number_of_pending_messages mq) = length ps"
    using st by (simp_all add: storage_def)
  define M where "M = ?m\<lparr>links := l\<rparr>"
  have other: "message M y = message m y" if "y \<in> set ps" for y
  proof -
    have "y \<noteq> b" "y \<in> set (buffers mq)" using that bn inb by auto
    then have "read_bytes (bytes ?m) (message_area y) (msg_size m y) = read_bytes (bytes m) (message_area y) (msg_size m y)"
      using areas_apart [OF _ b(2) _ sz [OF that] n] read_beside by (simp add: areas_apart)
    then show ?thesis using \<open>y \<noteq> b\<close> by (simp add: message_def content_def M_def)
  qed
  have own: "message M b = (submit_type, read_bytes (bytes m) src n)"
    using read_copied [of src "message_area b" n "m\<lparr>msg_size := (msg_size m)(b := n)\<rparr>"] by (simp add: message_def content_def M_def)
  have same: "map (message M) ps = map (message m) ps" using other by simp
  have ord: "map (message M) (ordered_insert ?P b ps)
      = ordered_insert (\<lambda>y. submit_type < fst y) (submit_type, read_bytes (bytes m) src n) (map (message m) ps)"
  proof -
    have "?P y = (submit_type < fst (message M y))" for y
      by (simp add: CORE_message_queue_Order_def message_def M_def)
    then show ?thesis using map_ordered_insert [of ps ?P _ "message M" b] own same by simp
  qed
  have msgs: "map (message M) ps'
      = place_message submit_type (submit_type, read_bytes (bytes m) src n) (map (message m) ps)"
    using ord own same by (simp add: ps'_def place_message_def)
  have "unat (number_of_pending_messages mq + 1) = length ps'"
    using unat_inc [of "number_of_pending_messages mq"] num full unat_bound [of "maximum_pending_messages mq"] ps'(2) by simp
  then have st': "storage ?mq M ps' fs"
    unfolding storage_def using two' inb b(2) ps'(1) sz n by (auto simp: buffers_def buffer_size_def M_def)
  show thesis
    by (rule that [OF ins [folded M_def] st' ps'(2) msgs]) (unfold M_def, use read_beside [of _ _ "message_area b" n src "m\<lparr>msg_size := (msg_size m)(b := n)\<rparr>"] in simp_all)
qed

lemma take_pending:
  assumes "storage mq m (b # ps) fs"
  obtains l where "CORE_message_queue_Get_pending_message mq m = (b, m\<lparr>links := l\<rparr>)"
    "storage (mq\<lparr>number_of_pending_messages := number_of_pending_messages mq - 1\<rparr>) (m\<lparr>links := l\<rparr>) ps fs"
    "chain_queue.loose b (Pending_messages mq) ps (Inactive_messages mq) fs" "b \<noteq> 0"
proof -
  have "chain_queue.two_queues (links m) (Pending_messages mq) (b # ps) (Inactive_messages mq) fs"
    using assms by (simp add: storage_def)
  from chain_queue.take_node [OF this] obtain l where l: "Chain_Get_unprotected (Pending_messages mq) (links m) = (b, l)"
    "chain_queue.two_queues l (Pending_messages mq) ps (Inactive_messages mq) fs"
    "chain_queue.loose b (Pending_messages mq) ps (Inactive_messages mq) fs" by blast
  have num: "unat (number_of_pending_messages mq) = Suc (length ps)" using assms by (simp add: storage_def)
  then have "number_of_pending_messages mq \<noteq> 0" by (metis nat.distinct(1) unsigned_0)
  then have "unat (number_of_pending_messages mq - 1) = length ps" using num by (simp add: unat_minus_one)
  then show thesis
    using assms l by (intro that [of l])
      (auto simp: storage_def CORE_message_queue_Get_pending_message_def chain_queue.loose_def buffers_def buffer_size_def)
qed

lemma take_inactive:
  assumes "storage mq m ps (b # fs)"
  obtains l where "CORE_message_queue_Allocate_message_buffer mq m = (b, m\<lparr>links := l\<rparr>)" "storage mq (m\<lparr>links := l\<rparr>) ps fs"
    "chain_queue.loose b (Pending_messages mq) ps (Inactive_messages mq) fs" "b \<noteq> 0"
proof -
  have "chain_queue.two_queues (links m) (Inactive_messages mq) (b # fs) (Pending_messages mq) ps"
    using assms chain_queue.two_queues_sym(1) by (simp add: storage_def)
  from chain_queue.take_node [OF this] obtain l where l: "Chain_Get_unprotected (Inactive_messages mq) (links m) = (b, l)"
    "chain_queue.two_queues l (Inactive_messages mq) fs (Pending_messages mq) ps"
    "chain_queue.loose b (Inactive_messages mq) fs (Pending_messages mq) ps" by blast
  then show thesis
    using assms l(2,3) [unfolded chain_queue.two_queues_sym [of _ "Inactive_messages mq"]]
    by (intro that [of l]) (auto simp: storage_def CORE_message_queue_Allocate_message_buffer_def chain_queue.loose_def)
qed

lemma nothing_to_take:
  "storage mq m [] fs \<Longrightarrow> CORE_message_queue_Get_pending_message mq m = (0, m)"
  "storage mq m ps [] \<Longrightarrow> CORE_message_queue_Allocate_message_buffer mq m = (0, m)"
  using chain_queue.get_none [of "links m"]
  by (auto simp: storage_def chain_queue.two_queues_def CORE_message_queue_Get_pending_message_def
      CORE_message_queue_Allocate_message_buffer_def)

lemma give_inactive:
  assumes "storage mq m ps fs" and "chain_queue.loose b (Pending_messages mq) ps (Inactive_messages mq) fs" and "b \<in> set (buffers mq)"
  shows "storage mq (CORE_message_queue_Free_message_buffer mq b m) ps (fs @ [b])"
  using chain_queue.add_node(1) [of "links m" "Inactive_messages mq" fs "Pending_messages mq" ps b] assms
    chain_queue.two_queues_sym [of _ "Pending_messages mq" ps "Inactive_messages mq"]
  by (auto simp: storage_def CORE_message_queue_Free_message_buffer_def)

text \<open>
  The whole invariant. Threads in the wait queue are receivers while no message is pending and
  senders while no buffer is free; nobody waits otherwise.
\<close>

abbreviation waiters :: "message_queue \<Rightarrow> memory \<Rightarrow> nat list" where
  "waiters mq m \<equiv> waiting (queues m) (Wait_queue mq)"

definition mq_inv :: "nat set \<Rightarrow> (nat \<Rightarrow> operations_table) \<Rightarrow> message_queue \<Rightarrow> memory \<Rightarrow> nat list \<Rightarrow> nat list \<Rightarrow> bool" where
  "mq_inv T qops mq m ps fs \<longleftrightarrow> storage mq m ps fs
     \<and> length ps + length fs = unat (maximum_pending_messages mq) \<and> 0 < unat (maximum_pending_messages mq)
     \<and> steps_inv T qops (queues m, \<lambda>_. Outside)
     \<and> qops (Wait_queue mq) = operations mq \<and> Wait_queue mq \<noteq> 0 \<and> queue_owner (queues m) (Wait_queue mq) = 0
     \<and> (waiters mq m = [] \<or> ps = [] \<or> fs = [])
     \<and> (\<forall>t\<in>set (waiters mq m). outside mq (return_argument_second (threads (queues m) t))
          \<and> (fs = [] \<longrightarrow> unat (wait_option (threads (queues m) t)) \<le> maximum_message_size mq))"

lemma mq_invD:
  assumes "mq_inv T qops mq m ps fs"
  shows "storage mq m ps fs" "length ps + length fs = unat (maximum_pending_messages mq)" "0 < unat (maximum_pending_messages mq)"
    "steps_inv T qops (queues m, \<lambda>_. Outside)" "qops (Wait_queue mq) = operations mq" "Wait_queue mq \<noteq> 0"
    "queue_owner (queues m) (Wait_queue mq) = 0" "waiters mq m = [] \<or> ps = [] \<or> fs = []"
    "t \<in> set (waiters mq m) \<Longrightarrow> outside mq (return_argument_second (threads (queues m) t))"
    "t \<in> set (waiters mq m) \<Longrightarrow> fs = [] \<Longrightarrow> unat (wait_option (threads (queues m) t)) \<le> maximum_message_size mq"
  using assms unfolding mq_inv_def by auto

text \<open>The first waiting thread: it is in the set of threads, fully blocked, and surrender takes it out.\<close>

lemma first_waiter:
  assumes "mq_inv T qops mq m ps fs" and "waiters mq m = t # ts"
  shows "op_surrender (operations mq) (Wait_queue mq) (queue_heads (queues m) (Wait_queue mq)) (queues m)
      = Some (t, extracted (Wait_queue mq) t (queues m))"
    "queue_heads (queues m) (Wait_queue mq) \<noteq> 0" "t \<in> T" "t \<noteq> 0" "wait_queue (threads (queues m) t) = Wait_queue mq" "t \<notin> set ts"
    "thread_ok Outside (threads (queues m) t)"
    "waiting (update_thread t f (extracted (Wait_queue mq) t (queues m))) (Wait_queue mq) = ts"
proof -
  note D = mq_invD [OF assms(1)]
  note I = steps_invD(1) [OF D(4)]
  show h: "queue_heads (queues m) (Wait_queue mq) \<noteq> 0" using empty_waiting [OF I] assms(2) by force
  obtain t' ts' where t: "waiters mq m = t' # ts'" "t' \<in> T" "wait_queue (threads (queues m) t') = Wait_queue mq"
    "op_surrender (qops (Wait_queue mq)) (Wait_queue mq) (queue_heads (queues m) (Wait_queue mq)) (queues m)
       = Some (t', extracted (Wait_queue mq) t' (queues m))"
    by (rule surrender_ok [OF I h]) blast
  then show "op_surrender (operations mq) (Wait_queue mq) (queue_heads (queues m) (Wait_queue mq)) (queues m)
      = Some (t, extracted (Wait_queue mq) t (queues m))" "t \<in> T" "wait_queue (threads (queues m) t) = Wait_queue mq"
    using assms(2) D(5) by simp_all
  then show "t \<noteq> 0" "thread_ok Outside (threads (queues m) t)"
    using tq_invD(1) [OF I] steps_invD(2) [OF D(4)] by (cases "t = 0"; simp)+
  show "t \<notin> set ts" using heads_protocolD(12) [OF tq_invD(3) [OF I], of "Wait_queue mq"] assms(2) by simp
  show "waiting (update_thread t f (extracted (Wait_queue mq) t (queues m))) (Wait_queue mq) = ts"
    using leave_ok(3) [OF I \<open>t \<in> T\<close> \<open>wait_queue (threads (queues m) t) = Wait_queue mq\<close> D(6)] assms(2)
    by (simp add: left_def wait_defs)
qed

lemma no_waiter: "mq_inv T qops mq m ps fs \<Longrightarrow> waiters mq m = [] \<longleftrightarrow> queue_heads (queues m) (Wait_queue mq) = 0"
  using empty_waiting [OF steps_invD(1) [OF mq_invD(4)]] by blast

lemma pending_count:
  "mq_inv T qops mq m ps fs \<Longrightarrow> number_of_pending_messages mq \<noteq> 0 \<longleftrightarrow> ps \<noteq> []"
  using mq_invD(1) [of T qops mq m ps fs] by (auto simp: storage_def unat_eq_0 [symmetric])

section \<open>Delivery to a waiting receiver\<close>

definition delivered :: "uint32 \<Rightarrow> thread_control \<Rightarrow> thread_control" where
  "delivered c th = resumed (th\<lparr>wait_count := c\<rparr>)"

lemma thread_ok_delivered:
  assumes "thread_ok Outside th" and "wait_queue th \<noteq> 0"
  shows "thread_ok Outside (delivered c (th\<lparr>spare_heads := x\<rparr>))"
  using assms by (auto simp: thread_ok_def delivered_def resumed_def Let_def)

lemma storage_cong:
  assumes "storage mq m ps fs" and "links m' = links m" and "\<And>b. b \<in> set ps \<Longrightarrow> msg_size m' b = msg_size m b"
  shows "storage mq m' ps fs"
  using assms by (simp add: storage_def)

lemma Dequeue_receiver_ok:
  assumes I: "mq_inv T qops mq m [] fs" and w: "waiters mq m = t # ts" and n: "n \<le> maximum_message_size mq"
  obtains m' where "CORE_message_queue_Dequeue_receiver mq buffer n submit_type m = Some (t, m')" "t \<noteq> 0"
    "mq_inv T qops mq m' [] fs" "waiters mq m' = ts"
    "size_objects m' = (size_objects m)(return_argument (threads (queues m) t) := n)"
    "read_bytes (bytes m') (return_argument_second (threads (queues m) t)) n = read_bytes (bytes m) buffer n"
    "\<And>a. a < return_argument_second (threads (queues m) t) \<or> return_argument_second (threads (queues m) t) + n \<le> a \<Longrightarrow> bytes m' a = bytes m a"
    "wait_flags (threads (queues m') t) = THREAD_WAIT_STATE_READY" "current_state (threads (queues m') t) AND STATES_BLOCKED = 0"
    "return_code (threads (queues m') t) = return_code (threads (queues m) t)"
    "\<And>u. u \<noteq> t \<Longrightarrow> threads (queues m') u = threads (queues m) u"
proof -
  note D = mq_invD [OF I] and F = first_waiter [OF I w]
  let ?th = "threads (queues m) t" and ?q = "Wait_queue mq"
  let ?s = "update_thread t (delivered (word_of_int submit_type)) (extracted ?q t (queues m))"
  define m' where "m' = CORE_message_queue_Copy_buffer buffer (return_argument_second ?th) n
      (m\<lparr>size_objects := (size_objects m)(return_argument ?th := n)\<rparr>)\<lparr>queues := ?s\<rparr>"
  have p: "number_of_pending_messages mq = 0" using pending_count [OF I] by simp
  have E: "CORE_message_queue_Dequeue_receiver mq buffer n submit_type m = Some (t, m')"
    using F(1,2) p by (simp add: CORE_message_queue_Dequeue_receiver_def m'_def Let_def Thread_queue_Resume_eq delivered_def
        CORE_message_queue_Copy_buffer_def)
  have W: "waiters mq m' = ts" using F(8) by (simp add: m'_def)
  have "steps_inv T qops (?s, \<lambda>_. Outside)"
    by (rule steps_inv_leave [OF D(4) F(3,5) D(6)]) (use thread_ok_delivered [OF F(7)] F(5) D(6) in \<open>simp_all add: delivered_def\<close>)
  then have inv: "mq_inv T qops mq m' [] fs"
    unfolding mq_inv_def W using D F(6) w by (auto simp: m'_def intro: storage_cong)
  have "thread_ok Outside (threads ?s t)"
    using thread_ok_delivered [OF F(7)] F(5) D(6) by simp
  then have r: "wait_flags (threads ?s t) = THREAD_WAIT_STATE_READY" "current_state (threads ?s t) AND STATES_BLOCKED = 0"
    by (auto simp: thread_ok_def delivered_def blocked_bits_def)
  show thesis
    by (rule that [OF E F(4) inv W])
      (use r read_copied [of buffer "return_argument_second ?th" n m] in
        \<open>auto simp: m'_def delivered_def CORE_message_queue_Copy_buffer_def memcpy_def\<close>)
qed

lemma Dequeue_receiver_none:
  assumes "mq_inv T qops mq m ps fs" and "ps \<noteq> [] \<or> waiters mq m = []"
  shows "CORE_message_queue_Dequeue_receiver mq buffer n submit_type m = Some (0, m)"
  using pending_count [OF assms(1)] no_waiter [OF assms(1)] assms(2)
  by (auto simp: CORE_message_queue_Dequeue_receiver_def Let_def)

section \<open>Submit\<close>

text \<open>Every case of the submission of a message.\<close>

lemma Submit_too_big:
  "n > maximum_message_size mq \<Longrightarrow>
     CORE_message_queue_Submit mq executing buffer n submit_type wait isr ticks m = Some (Returned STATUS_MESSAGE_INVALID_SIZE, mq, m)"
  by (simp add: CORE_message_queue_Submit_def)

lemma Submit_stores:
  assumes I: "mq_inv T qops mq m ps (b # fs)" and w: "ps \<noteq> [] \<or> waiters mq m = []" and n: "n \<le> maximum_message_size mq"
  obtains m' ps' where
    "CORE_message_queue_Submit mq executing buffer n submit_type wait isr ticks m
       = Some (Returned STATUS_SUCCESSFUL, mq\<lparr>number_of_pending_messages := number_of_pending_messages mq + 1\<rparr>, m')"
    "mq_inv T qops (mq\<lparr>number_of_pending_messages := number_of_pending_messages mq + 1\<rparr>) m' ps' fs"
    "map (message m') ps' = place_message submit_type (submit_type, read_bytes (bytes m) buffer n) (map (message m) ps)"
    "queues m' = queues m" "size_objects m' = size_objects m"
    "\<And>a k. a + k \<le> message_area b \<or> message_area b + n \<le> a \<Longrightarrow> read_bytes (bytes m') a k = read_bytes (bytes m) a k"
proof -
  note D = mq_invD [OF I]
  let ?mq = "mq\<lparr>number_of_pending_messages := number_of_pending_messages mq + 1\<rparr>"
  obtain l where l: "CORE_message_queue_Allocate_message_buffer mq m = (b, m\<lparr>links := l\<rparr>)" "storage mq (m\<lparr>links := l\<rparr>) ps fs"
    "chain_queue.loose b (Pending_messages mq) ps (Inactive_messages mq) fs" "b \<noteq> 0"
    by (rule take_inactive [OF D(1)]) blast
  have b: "b \<in> set (buffers mq)" "length ps < unat (maximum_pending_messages mq)" using D(1,2) by (simp_all add: storage_def)
  obtain m' ps' where m': "CORE_message_queue_Insert_message mq b buffer n submit_type (m\<lparr>links := l\<rparr>) = Some (?mq, m')"
    "storage ?mq m' ps' fs" "length ps' = Suc (length ps)"
    "map (message m') ps' = place_message submit_type (submit_type, read_bytes (bytes (m\<lparr>links := l\<rparr>)) buffer n) (map (message (m\<lparr>links := l\<rparr>)) ps)"
    "queues m' = queues (m\<lparr>links := l\<rparr>)" "size_objects m' = size_objects (m\<lparr>links := l\<rparr>)"
    "\<And>a k. a + k \<le> message_area b \<or> message_area b + n \<le> a \<Longrightarrow> read_bytes (bytes m') a k = read_bytes (bytes (m\<lparr>links := l\<rparr>)) a k"
    by (rule Insert_message_ok [where src = buffer and submit_type = submit_type, OF l(2,3) b(1) n b(2)]) blast
  have msg: "message (m\<lparr>links := l\<rparr>) = message m" by (simp add: message_def content_def fun_eq_iff)
  have nw: "waiters mq m = []" using w D(8) by auto
  have inv: "mq_inv T qops ?mq m' ps' fs"
    unfolding mq_inv_def using D m'(2,3,5) nw by (simp add: outside_def buffer_size_def)
  have E: "CORE_message_queue_Submit mq executing buffer n submit_type wait isr ticks m = Some (Returned STATUS_SUCCESSFUL, ?mq, m')"
    using Dequeue_receiver_none [OF I w] l(1,4) m'(1) n by (simp add: CORE_message_queue_Submit_def)
  show thesis by (rule that [OF E inv]) (use m'(4-7) msg in simp_all)
qed

lemma Submit_full:
  assumes I: "mq_inv T qops mq m ps []" and n: "n \<le> maximum_message_size mq"
  shows "CORE_message_queue_Submit mq executing buffer n submit_type False isr ticks m = Some (Returned STATUS_TOO_MANY, mq, m)"
    "CORE_message_queue_Submit mq executing buffer n submit_type True True ticks m = Some (Returned STATUS_MESSAGE_QUEUE_WAIT_IN_ISR, mq, m)"
proof -
  have "ps \<noteq> []" using mq_invD(2,3) [OF I] by auto
  then show "CORE_message_queue_Submit mq executing buffer n submit_type False isr ticks m = Some (Returned STATUS_TOO_MANY, mq, m)"
    "CORE_message_queue_Submit mq executing buffer n submit_type True True ticks m = Some (Returned STATUS_MESSAGE_QUEUE_WAIT_IN_ISR, mq, m)"
    using Dequeue_receiver_none [OF I] nothing_to_take(2) [OF mq_invD(1) [OF I]] n by (simp_all add: CORE_message_queue_Submit_def)
qed

lemma Submit_delivers:
  assumes I: "mq_inv T qops mq m [] fs" and w: "waiters mq m = t # ts" and n: "n \<le> maximum_message_size mq"
    and E: "CORE_message_queue_Dequeue_receiver mq buffer n submit_type m = Some (t, m')" "t \<noteq> 0"
  shows "CORE_message_queue_Submit mq executing buffer n submit_type wait isr ticks m = Some (Returned STATUS_SUCCESSFUL, mq, m')"
  using E n by (simp add: CORE_message_queue_Submit_def)

text \<open>A thread that starts to wait at the queue, with its request stored in its control block.\<close>

lemma thread_ok_request [simp]:
  "thread_ok p (th\<lparr>return_argument_second := a\<rparr>) = thread_ok p th" "thread_ok p (th\<lparr>return_argument := b\<rparr>) = thread_ok p th"
  "thread_ok p (th\<lparr>wait_option := c\<rparr>) = thread_ok p th" "thread_ok p (th\<lparr>wait_count := d\<rparr>) = thread_ok p th"
  by (simp_all add: thread_ok_def blocked_bits_def split: phase.splits)

lemma message_state_blocks: "STATES_WAITING_FOR_MESSAGE AND STATES_BLOCKED \<noteq> 0"
  by (simp add: STATES_WAITING_FOR_MESSAGE_def STATES_BLOCKED_def)

lemma table_insert_set: "set (table_insert ops th t xs) = insert t (set xs)"
  by (cases ops) (simp_all add: fifo_insert_def priority_insert_def ordered_insert_set_length)

lemma wait_at_queue:
  assumes I: "mq_inv T qops mq m ps fs" and e: "executing \<in> T" "wait_flags (threads (queues m) executing) = THREAD_WAIT_STATE_READY"
    and f: "\<And>th. spare_heads (f th) = spare_heads th" "\<And>th. wait_queue (f th) = wait_queue th" "\<And>th. wait_operations (f th) = wait_operations th"
      "\<And>p th. thread_ok p (f th) = thread_ok p th" "\<And>th. wait_flags (f th) = wait_flags th" "\<And>th. wait_priority (f th) = wait_priority th"
    and side: "ps = [] \<or> fs = []" "\<And>th. outside mq (return_argument_second (f th))"
      "\<And>th. fs = [] \<Longrightarrow> unat (wait_option (f th)) \<le> maximum_message_size mq"
  obtains s' where
    "Thread_queue_Enqueue (Wait_queue mq) (operations mq) executing ticks STATES_WAITING_FOR_MESSAGE (update_thread executing f (queues m)) = Some s'"
    "mq_inv T qops mq (m\<lparr>queues := s'\<rparr>) ps fs" "Thread_Wait_get_status executing s' = Waits"
    "waiting s' (Wait_queue mq) = table_insert (operations mq) (threads (queues m)) executing (waiters mq m)"
    "\<And>u. u \<noteq> executing \<Longrightarrow> threads s' u = threads (queues m) u"
    "return_argument (threads s' executing) = return_argument (f (threads (queues m) executing))"
    "return_argument_second (threads s' executing) = return_argument_second (f (threads (queues m) executing))"
    "wait_option (threads s' executing) = wait_option (f (threads (queues m) executing))"
    "wait_count (threads s' executing) = wait_count (f (threads (queues m) executing))"
proof -
  note D = mq_invD [OF I]
  let ?s = "update_thread executing f (queues m)"
  have S: "steps_inv T qops (?s, \<lambda>_. Outside)" by (rule steps_inv_update [OF D(4) f(1-4)])
  have r: "wait_flags (threads ?s executing) = THREAD_WAIT_STATE_READY" using e(2) f(5) by simp
  have o: "queue_owner ?s (Wait_queue mq) = 0" using D(7) by simp
  obtain s' th where s': "Thread_queue_Enqueue (Wait_queue mq) (qops (Wait_queue mq)) executing ticks STATES_WAITING_FOR_MESSAGE ?s = Some s'"
    "steps_inv T qops (s', \<lambda>_. Outside)" "waiting s' (Wait_queue mq) = table_insert (qops (Wait_queue mq)) (threads ?s) executing (waiting ?s (Wait_queue mq))"
    "queue_owner s' = queue_owner ?s" "threads s' = (threads ?s)(executing := th)" "wait_flags th = THREAD_QUEUE_BLOCKED"
    "return_argument th = return_argument (threads ?s executing)" "return_argument_second th = return_argument_second (threads ?s executing)"
    "wait_option th = wait_option (threads ?s executing)" "wait_count th = wait_count (threads ?s executing)"
    by (rule Thread_queue_Enqueue_ok [where ticks = ticks, OF S e(1) r D(6) o message_state_blocks]) blast
  have w: "waiting s' (Wait_queue mq) = table_insert (operations mq) (threads (queues m)) executing (waiters mq m)"
    unfolding s'(3) D(5) using table_insert_cong [of "threads ?s" "threads (queues m)"] f(6) by simp
  have "mq_inv T qops mq (m\<lparr>queues := s'\<rparr>) ps fs"
    unfolding mq_inv_def
  proof (intro conjI ballI)
    fix t assume "t \<in> set (waiters mq (m\<lparr>queues := s'\<rparr>))"
    then have "t = executing \<or> t \<in> set (waiters mq m)" using w by (simp add: table_insert_set)
    then show "outside mq (return_argument_second (threads (queues (m\<lparr>queues := s'\<rparr>)) t))"
      "fs = [] \<longrightarrow> unat (wait_option (threads (queues (m\<lparr>queues := s'\<rparr>)) t)) \<le> maximum_message_size mq"
      using side(2,3) D(9,10) s'(5,8,9) by auto
  qed (use D s'(2,4) side(1) in \<open>simp_all add: storage_def\<close>)
  then show thesis
    using s' D(5) by (intro that [OF _ _ _ w]) (simp_all add: Thread_Wait_get_status_def)
qed

lemma Submit_waits:
  assumes I: "mq_inv T qops mq m ps []" and n: "n \<le> maximum_message_size mq" and e: "executing \<in> T"
    "wait_flags (threads (queues m) executing) = THREAD_WAIT_STATE_READY" and b: "outside mq buffer"
  obtains s' where "CORE_message_queue_Submit mq executing buffer n submit_type True False ticks m = Some (Waits, mq, m\<lparr>queues := s'\<rparr>)"
    "mq_inv T qops mq (m\<lparr>queues := s'\<rparr>) ps []"
    "waiting s' (Wait_queue mq) = table_insert (operations mq) (threads (queues m)) executing (waiters mq m)"
    "\<And>u. u \<noteq> executing \<Longrightarrow> threads s' u = threads (queues m) u" "return_argument_second (threads s' executing) = buffer"
    "wait_option (threads s' executing) = word_of_nat n" "wait_count (threads s' executing) = word_of_int submit_type"
proof -
  let ?f = "\<lambda>th. th\<lparr>return_argument_second := buffer, wait_option := word_of_nat n, wait_count := word_of_int submit_type\<rparr>"
  have ps: "ps \<noteq> []" using mq_invD(2,3) [OF I] by auto
  have o: "unat (word_of_nat n :: uint32) \<le> maximum_message_size mq"
    using n by (simp add: unsigned_of_nat take_bit_eq_mod)
  obtain s' where s': "Thread_queue_Enqueue (Wait_queue mq) (operations mq) executing ticks STATES_WAITING_FOR_MESSAGE (update_thread executing ?f (queues m)) = Some s'"
    "mq_inv T qops mq (m\<lparr>queues := s'\<rparr>) ps []" "Thread_Wait_get_status executing s' = Waits"
    "waiting s' (Wait_queue mq) = table_insert (operations mq) (threads (queues m)) executing (waiters mq m)"
    "\<And>u. u \<noteq> executing \<Longrightarrow> threads s' u = threads (queues m) u"
    "return_argument_second (threads s' executing) = return_argument_second (?f (threads (queues m) executing))"
    "wait_option (threads s' executing) = wait_option (?f (threads (queues m) executing))"
    "wait_count (threads s' executing) = wait_count (?f (threads (queues m) executing))"
    by (rule wait_at_queue [where f = ?f and ticks = ticks, OF I e]) (use b o in simp_all)
  show thesis
    using s' ps Dequeue_receiver_none [OF I] nothing_to_take(2) [OF mq_invD(1) [OF I]] n
    by (intro that [of s']) (simp_all add: CORE_message_queue_Submit_def Let_def)
qed

section \<open>Seize\<close>

text \<open>The part of a successful seizure before the buffer is given back or refilled.\<close>

definition seized :: "message_queue \<Rightarrow> nat \<Rightarrow> nat \<Rightarrow> nat \<Rightarrow> nat \<Rightarrow> memory \<Rightarrow> memory" where
  "seized mq executing buffer size_p b m =
     CORE_message_queue_Copy_buffer (message_area b) buffer (msg_size m b)
       (m\<lparr>size_objects := (size_objects m)(size_p := msg_size m b),
          queues := update_thread executing (\<lambda>th. th\<lparr>wait_count := word_of_int (msg_priority m b)\<rparr>) (queues m)\<rparr>)"

lemma seized_fields [simp]:
  "links (seized mq executing buffer size_p b m) = links m" "msg_size (seized mq executing buffer size_p b m) = msg_size m"
  "msg_priority (seized mq executing buffer size_p b m) = msg_priority m"
  "size_objects (seized mq executing buffer size_p b m) = (size_objects m)(size_p := msg_size m b)"
  "queues (seized mq executing buffer size_p b m)
     = update_thread executing (\<lambda>th. th\<lparr>wait_count := word_of_int (msg_priority m b)\<rparr>) (queues m)"
  "read_bytes (bytes (seized mq executing buffer size_p b m)) buffer (msg_size m b) = content m b"
  by (simp_all add: seized_def content_def) (simp add: CORE_message_queue_Copy_buffer_def memcpy_def read_bytes_def)

lemma seized_message:
  assumes "outside mq buffer" and "b' \<in> set (buffers mq)" and "msg_size m b \<le> maximum_message_size mq"
    and "msg_size m b' \<le> maximum_message_size mq"
  shows "message (seized mq executing buffer size_p b m) b' = message m b'"
  using read_beside [of "message_area b'" "msg_size m b'" buffer "msg_size m b"] outside_apart [OF assms(1,2,4,3)]
  by (simp add: message_def content_def) (auto simp: seized_def)

lemma storage_seized:
  assumes "storage mq (m\<lparr>links := l\<rparr>) ps fs"
  shows "storage mq (seized mq' executing buffer size_p b (m\<lparr>links := l\<rparr>)) ps fs"
  by (rule storage_cong [OF assms]) simp_all

lemma Seize_takes:
  assumes I: "mq_inv T qops mq m (b # ps) fs" and w: "waiters mq m = []" and o: "outside mq buffer"
  obtains m' where
    "CORE_message_queue_Seize mq executing buffer size_p wait ticks m
       = Some (Returned STATUS_SUCCESSFUL, mq\<lparr>number_of_pending_messages := number_of_pending_messages mq - 1\<rparr>, m')"
    "mq_inv T qops (mq\<lparr>number_of_pending_messages := number_of_pending_messages mq - 1\<rparr>) m' ps (fs @ [b])"
    "map (message m') ps = map (message m) ps"
    "read_bytes (bytes m') buffer (msg_size m b) = content m b" "size_objects m' = (size_objects m)(size_p := msg_size m b)"
    "wait_count (threads (queues m') executing) = word_of_int (msg_priority m b)"
    "\<And>u. u \<noteq> executing \<Longrightarrow> threads (queues m') u = threads (queues m) u" "waiters mq m' = []"
proof -
  note D = mq_invD [OF I]
  let ?mq = "mq\<lparr>number_of_pending_messages := number_of_pending_messages mq - 1\<rparr>"
  obtain l where l: "CORE_message_queue_Get_pending_message mq m = (b, m\<lparr>links := l\<rparr>)" "storage ?mq (m\<lparr>links := l\<rparr>) ps fs"
    "chain_queue.loose b (Pending_messages mq) ps (Inactive_messages mq) fs" "b \<noteq> 0"
    by (rule take_pending [OF D(1)]) blast
  let ?m = "seized ?mq executing buffer size_p b (m\<lparr>links := l\<rparr>)"
  let ?m' = "CORE_message_queue_Free_message_buffer ?mq b ?m"
  have h: "queue_heads (queues m) (Wait_queue mq) = 0" using no_waiter [OF I] w by simp
  have E: "CORE_message_queue_Seize mq executing buffer size_p wait ticks m = Some (Returned STATUS_SUCCESSFUL, ?mq, ?m')"
    using l(1,4) h by (simp add: CORE_message_queue_Seize_def seized_def Let_def)
  have bb: "b \<in> set (buffers ?mq)" "msg_size m b \<le> maximum_message_size mq" "set ps \<subseteq> set (buffers mq)"
    "\<And>y. y \<in> set ps \<Longrightarrow> msg_size m y \<le> maximum_message_size mq"
    using D(1) by (simp_all add: storage_def buffers_def buffer_size_def)
  have st: "storage ?mq ?m' ps (fs @ [b])"
    using storage_seized [OF l(2)] l(3) bb(1) by (intro give_inactive) simp_all
  have q: "queues ?m' = update_thread executing (\<lambda>th. th\<lparr>wait_count := word_of_int (msg_priority m b)\<rparr>) (queues m)"
    by (simp add: CORE_message_queue_Free_message_buffer_def)
  have S: "steps_inv T qops (queues ?m', \<lambda>_. Outside)"
    unfolding q by (rule steps_inv_update [OF D(4)]) simp_all
  have W: "waiters mq ?m' = []" using w unfolding q by simp
  have inv: "mq_inv T qops ?mq ?m' ps (fs @ [b])"
    unfolding mq_inv_def using D(2,3,5-7) st S W unfolding q by simp
  have msg: "message ?m' y = message m y" if "y \<in> set ps" for y
    using seized_message [of mq buffer y "m\<lparr>links := l\<rparr>" b executing size_p] o bb(2-4) that
    by (auto simp: message_def content_def CORE_message_queue_Free_message_buffer_def seized_def)
  show thesis
    by (rule that [OF E inv]) (use msg W q seized_fields(6) [of ?mq executing buffer size_p b "m\<lparr>links := l\<rparr>"] in
      \<open>simp_all add: CORE_message_queue_Free_message_buffer_def content_def\<close>)
qed

lemma Seize_refills:
  assumes I: "mq_inv T qops mq m (b # ps) fs" and w: "waiters mq m = t # ts" and o: "outside mq buffer"
    and e: "executing \<notin> set (waiters mq m)"
    and apart: "buffer + maximum_message_size mq \<le> return_argument_second (threads (queues m) t)
      \<or> return_argument_second (threads (queues m) t) + maximum_message_size mq \<le> buffer"
  obtains m' ps' where "CORE_message_queue_Seize mq executing buffer size_p wait ticks m = Some (Returned STATUS_SUCCESSFUL, mq, m')"
    "mq_inv T qops mq m' ps' fs" "fs = []"
    "map (message m') ps' = place_message (sint (wait_count (threads (queues m) t)))
       (sint (wait_count (threads (queues m) t)),
        read_bytes (bytes m) (return_argument_second (threads (queues m) t)) (unat (wait_option (threads (queues m) t))))
       (map (message m) ps)"
    "read_bytes (bytes m') buffer (msg_size m b) = content m b" "size_objects m' = (size_objects m)(size_p := msg_size m b)"
    "waiters mq m' = ts" "wait_flags (threads (queues m') t) = THREAD_WAIT_STATE_READY"
    "current_state (threads (queues m') t) AND STATES_BLOCKED = 0"
proof -
  note D = mq_invD [OF I]
  let ?mq = "mq\<lparr>number_of_pending_messages := number_of_pending_messages mq - 1\<rparr>" and ?q = "Wait_queue mq"
  let ?th = "threads (queues m) t"
  have fs: "fs = []" using D(8) w by simp
  have te: "t \<noteq> executing" using w e by auto
  obtain l where l: "CORE_message_queue_Get_pending_message mq m = (b, m\<lparr>links := l\<rparr>)" "storage ?mq (m\<lparr>links := l\<rparr>) ps fs"
    "chain_queue.loose b (Pending_messages mq) ps (Inactive_messages mq) fs" "b \<noteq> 0"
    by (rule take_pending [OF D(1)]) blast
  let ?m = "seized ?mq executing buffer size_p b (m\<lparr>links := l\<rparr>)"
  have sz: "msg_size m b \<le> maximum_message_size mq" "b \<in> set (buffers ?mq)" "set ps \<subseteq> set (buffers mq)"
    "\<And>y. y \<in> set ps \<Longrightarrow> msg_size m y \<le> maximum_message_size mq"
    using D(1) by (simp_all add: storage_def buffers_def buffer_size_def)
  have qm: "queues ?m = update_thread executing (\<lambda>th. th\<lparr>wait_count := word_of_int (msg_priority m b)\<rparr>) (queues m)" by simp
  have st: "storage ?mq ?m ps fs" by (rule storage_seized [OF l(2)])
  have I': "mq_inv T qops mq (m\<lparr>queues := queues ?m\<rparr>) (b # ps) fs"
    unfolding mq_inv_def qm using D steps_inv_update [OF D(4), of "\<lambda>th. th\<lparr>wait_count := word_of_int (msg_priority m b)\<rparr>" executing]
    by (auto simp: storage_def)
  have w': "waiters mq (m\<lparr>queues := queues ?m\<rparr>) = t # ts" using w by simp
  note F = first_waiter [OF I' w', unfolded memory.simps]
  let ?s = "extracted ?q t (queues ?m)"
  have th: "threads ?s t = ?th\<lparr>spare_heads := hd (Free_chain (queues ?m) (queue_heads (queues ?m) ?q))\<rparr>" using te by simp
  have n: "unat (wait_option ?th) \<le> maximum_message_size ?mq" using D(10) [of t] w fs by simp
  have len: "length ps < unat (maximum_pending_messages ?mq)" using D(2) by simp
  have st2: "storage ?mq (?m\<lparr>queues := ?s\<rparr>) ps fs" by (rule storage_cong [OF st]) simp_all
  have loose: "chain_queue.loose b (Pending_messages ?mq) ps (Inactive_messages ?mq) fs" using l(3) by simp
  obtain m1 ps' where m1: "CORE_message_queue_Insert_message ?mq b (return_argument_second ?th) (unat (wait_option ?th)) (sint (wait_count ?th)) (?m\<lparr>queues := ?s\<rparr>)
      = Some (?mq\<lparr>number_of_pending_messages := number_of_pending_messages ?mq + 1\<rparr>, m1)"
    "storage (?mq\<lparr>number_of_pending_messages := number_of_pending_messages ?mq + 1\<rparr>) m1 ps' fs" "length ps' = Suc (length ps)"
    "map (message m1) ps' = place_message (sint (wait_count ?th)) (sint (wait_count ?th),
       read_bytes (bytes (?m\<lparr>queues := ?s\<rparr>)) (return_argument_second ?th) (unat (wait_option ?th))) (map (message (?m\<lparr>queues := ?s\<rparr>)) ps)"
    "queues m1 = queues (?m\<lparr>queues := ?s\<rparr>)" "size_objects m1 = size_objects (?m\<lparr>queues := ?s\<rparr>)"
    "\<And>a k. a + k \<le> message_area b \<or> message_area b + unat (wait_option ?th) \<le> a \<Longrightarrow> read_bytes (bytes m1) a k = read_bytes (bytes (?m\<lparr>queues := ?s\<rparr>)) a k"
    by (rule Insert_message_ok [where src = "return_argument_second ?th" and submit_type = "sint (wait_count ?th)",
          OF st2 loose sz(2) n len]) blast
  have mq: "?mq\<lparr>number_of_pending_messages := number_of_pending_messages ?mq + 1\<rparr> = mq" by simp
  let ?m' = "m1\<lparr>queues := Thread_queue_Resume t (queues m1)\<rparr>"
  have h: "queue_heads (queues m) ?q \<noteq> 0" using F(2) by simp
  have E: "CORE_message_queue_Seize mq executing buffer size_p wait ticks m = Some (Returned STATUS_SUCCESSFUL, mq, ?m')"
  proof -
    have "CORE_message_queue_Seize mq executing buffer size_p wait ticks m
      = (do { (the_thread, s) \<leftarrow> op_surrender (operations mq) ?q (queue_heads (queues ?m) ?q) (queues ?m);
              (mq, m) \<leftarrow> CORE_message_queue_Insert_message ?mq b (return_argument_second (threads s the_thread))
                (unat (wait_option (threads s the_thread))) (sint (wait_count (threads s the_thread))) (?m\<lparr>queues := s\<rparr>);
              Some (Returned STATUS_SUCCESSFUL, mq, m\<lparr>queues := Thread_queue_Resume the_thread (queues m)\<rparr>) })"
      using l(1,4) h by (simp add: CORE_message_queue_Seize_def seized_def Let_def)
    also have "\<dots> = Some (Returned STATUS_SUCCESSFUL, mq, ?m')"
      using F(1) m1(1) mq th by simp
    finally show ?thesis .
  qed
  have q': "queues ?m' = update_thread t resumed (extracted ?q t (queues ?m))" using m1(5) by (simp add: Thread_queue_Resume_eq)
  have W: "waiters mq ?m' = ts" unfolding q' using F(8) by simp
  have SI: "steps_inv T qops (queues ?m, \<lambda>_. Outside)" and wq: "wait_queue (threads (queues ?m) t) = ?q"
    using mq_invD(4) [OF I'] F(5) by simp_all
  have ok: "thread_ok Outside (resumed (threads (extracted ?q t (queues ?m)) t))"
    using F(5,7) D(6) by (simp add: thread_ok_wakes(1))
  have S: "steps_inv T qops (queues ?m', \<lambda>_. Outside)"
    unfolding q' by (rule steps_inv_leave [OF SI F(3) wq D(6)]) (use ok in simp_all)
  have inv: "mq_inv T qops mq ?m' ps' fs"
  proof (unfold mq_inv_def W, intro conjI ballI)
    show "storage mq ?m' ps' fs" using m1(2) unfolding mq by (rule storage_cong) simp_all
    show "queue_owner (queues ?m') ?q = 0" unfolding q' using D(7) by simp
    fix u assume u: "u \<in> set ts"
    then have "u \<noteq> t" "u \<noteq> executing" using F(6) e w by auto
    then have "threads (queues ?m') u = threads (queues m) u" unfolding q' by simp
    then show "outside mq (return_argument_second (threads (queues ?m') u))"
      "fs = [] \<longrightarrow> unat (wait_option (threads (queues ?m') u)) \<le> maximum_message_size mq"
      using D(9,10) [of u] w u by simp_all
  qed (use D(2,3,5,6) m1(3) S fs in simp_all)
  have keep: "read_bytes (bytes ?m) (return_argument_second ?th) (unat (wait_option ?th)) = read_bytes (bytes m) (return_argument_second ?th) (unat (wait_option ?th))"
    unfolding seized_def using apart n sz(1) by (subst read_beside) auto
  have msgs: "map (message (?m\<lparr>queues := ?s\<rparr>)) ps = map (message m) ps"
    using seized_message [of ?mq buffer _ "m\<lparr>links := l\<rparr>" b executing size_p] o sz
    by (auto simp: message_def content_def seized_def outside_def buffers_def buffer_size_def)
  have "read_bytes (bytes m1) buffer (msg_size m b) = read_bytes (bytes ?m) buffer (msg_size m b)"
    using m1(7) [of buffer "msg_size m b"] outside_apart [OF o, of b "unat (wait_option ?th)" "msg_size m b"] n sz(1,2)
    by (auto simp: buffers_def buffer_size_def)
  then have "read_bytes (bytes ?m') buffer (msg_size m b) = content m b"
    using seized_fields(6) [of ?mq executing buffer size_p b "m\<lparr>links := l\<rparr>"] by (simp add: content_def)
  moreover have "map (message ?m') ps' = place_message (sint (wait_count ?th)) (sint (wait_count ?th),
      read_bytes (bytes m) (return_argument_second ?th) (unat (wait_option ?th))) (map (message m) ps)"
  proof -
    have "map (message ?m') ps' = map (message m1) ps'" by (simp add: message_def content_def)
    moreover have "bytes (?m\<lparr>queues := ?s\<rparr>) = bytes ?m" by simp
    ultimately show ?thesis by (simp only: m1(4) msgs keep)
  qed
  moreover have "size_objects ?m' = (size_objects m)(size_p := msg_size m b)" using m1(6) by simp
  moreover have "threads (queues ?m') t = resumed (threads ?s t)" unfolding q' by simp
  then have "wait_flags (threads (queues ?m') t) = THREAD_WAIT_STATE_READY" "current_state (threads (queues ?m') t) AND STATES_BLOCKED = 0"
    using ok by (auto simp only: thread_ok_def blocked_bits_def resumed_fields phase.case)
  ultimately show thesis by (intro that [OF E inv fs _ _ _ W])
qed

end
