(* ===== verification/Message_Client.thy ===== *)
theory Message_Client
  imports Message_Queue
begin

text \<open>
  The remaining operations of message queues (receiving from an empty queue, broadcast, flush,
  initialisation, close) and what the clients can rely on: every branch of submit and seize,
  and for clients that never wait the refinement of a bounded queue of messages, from the
  initialisation on and for every sequence of operations.
\<close>

section \<open>Seizing from an empty queue\<close>

lemma Seize_empty:
  assumes "mq_inv T qops mq m [] fs"
  shows "CORE_message_queue_Seize mq executing buffer size_p False ticks m = Some (Returned STATUS_UNSATISFIED, mq, m)"
  using nothing_to_take(1) [OF mq_invD(1) [OF assms]] by (simp add: CORE_message_queue_Seize_def)

lemma Seize_waits:
  assumes I: "mq_inv T qops mq m [] fs" and e: "executing \<in> T"
    "wait_flags (threads (queues m) executing) = THREAD_WAIT_STATE_READY" and b: "outside mq buffer"
  obtains s' where "CORE_message_queue_Seize mq executing buffer size_p True ticks m = Some (Waits, mq, m\<lparr>queues := s'\<rparr>)"
    "mq_inv T qops mq (m\<lparr>queues := s'\<rparr>) [] fs"
    "waiting s' (Wait_queue mq) = table_insert (operations mq) (threads (queues m)) executing (waiters mq m)"
    "\<And>u. u \<noteq> executing \<Longrightarrow> threads s' u = threads (queues m) u" "return_argument_second (threads s' executing) = buffer"
    "return_argument (threads s' executing) = size_p"
proof -
  let ?f = "\<lambda>th. th\<lparr>return_argument_second := buffer, return_argument := size_p\<rparr>"
  have fs: "fs \<noteq> []" using mq_invD(2,3) [OF I] by auto
  obtain s' where s': "Thread_queue_Enqueue (Wait_queue mq) (operations mq) executing ticks STATES_WAITING_FOR_MESSAGE (update_thread executing ?f (queues m)) = Some s'"
    "mq_inv T qops mq (m\<lparr>queues := s'\<rparr>) [] fs" "Thread_Wait_get_status executing s' = Waits"
    "waiting s' (Wait_queue mq) = table_insert (operations mq) (threads (queues m)) executing (waiters mq m)"
    "\<And>u. u \<noteq> executing \<Longrightarrow> threads s' u = threads (queues m) u"
    "return_argument (threads s' executing) = return_argument (?f (threads (queues m) executing))"
    "return_argument_second (threads s' executing) = return_argument_second (?f (threads (queues m) executing))"
    by (rule wait_at_queue [where f = ?f and ticks = ticks, OF I e]) (use b fs in simp_all)
  show thesis
    using s' nothing_to_take(1) [OF mq_invD(1) [OF I]]
    by (intro that [of s']) (simp_all add: CORE_message_queue_Seize_def Let_def)
qed

section \<open>Flush, broadcast and close\<close>

lemma Flush_ok:
  assumes I: "mq_inv T qops mq m ps fs" and w: "waiters mq m = [] \<or> ps = []"
  obtains m' where "CORE_message_queue_Flush mq m = (number_of_pending_messages mq, mq\<lparr>number_of_pending_messages := 0\<rparr>, m')"
    "mq_inv T qops (mq\<lparr>number_of_pending_messages := 0\<rparr>) m' [] (ps @ fs)" "bytes m' = bytes m" "queues m' = queues m"
    "size_objects m' = size_objects m"
proof -
  note D = mq_invD [OF I]
  let ?mq = "mq\<lparr>number_of_pending_messages := 0\<rparr>"
  show thesis
  proof (cases ps)
    case Nil
    then have "number_of_pending_messages mq = 0" using pending_count [OF I] by simp
    then have "?mq = mq" "CORE_message_queue_Flush mq m = (number_of_pending_messages mq, mq, m)"
      by (simp_all add: CORE_message_queue_Flush_def Let_def)
    then show thesis using that [of m] I Nil by simp
  next
    case (Cons x xs)
    have "number_of_pending_messages mq \<noteq> 0" using pending_count [OF I] Cons by simp
    then have E: "CORE_message_queue_Flush mq m
        = (number_of_pending_messages mq, ?mq, m\<lparr>links := splice (Pending_messages mq) (Inactive_messages mq) (links m)\<rparr>)"
      by (simp add: CORE_message_queue_Flush_def splice_def Let_def)
    have c: "chain (links m) (Pending_messages mq) (x # xs)" "chain (links m) (Inactive_messages mq) fs"
      "nodes (Pending_messages mq) (x # xs) \<inter> nodes (Inactive_messages mq) fs = {}"
      using D(1) Cons by (simp_all add: storage_def chain_queue.two_queues_def)
    have "nodes (Pending_messages mq) [] \<inter> nodes (Inactive_messages mq) (ps @ fs) = {}"
      using c(1,3) Cons by (auto simp: nodes_def chain_def)
    then have "chain_queue.two_queues (splice (Pending_messages mq) (Inactive_messages mq) (links m))
        (Pending_messages mq) [] (Inactive_messages mq) (ps @ fs)"
      using splice_ok [OF c] Cons by (simp add: chain_queue.two_queues_def)
    then have "storage ?mq (m\<lparr>links := splice (Pending_messages mq) (Inactive_messages mq) (links m)\<rparr>) [] (ps @ fs)"
      using D(1) by (simp add: storage_def buffers_def buffer_size_def)
    moreover have "waiters mq m = []" using w Cons by simp
    ultimately show thesis using D E by (intro that [OF E]) (simp_all add: mq_inv_def)
  qed
qed

text \<open>A broadcast reaches every waiting receiver and nobody else, and ends.\<close>

lemma broadcast_loop_ok:
  assumes "mq_inv T qops mq m [] fs" and "waiters mq m = ts" and "n \<le> maximum_message_size mq"
    and "\<And>t. t \<in> set ts \<Longrightarrow> buffer + n \<le> return_argument_second (threads (queues m) t)
      \<or> return_argument_second (threads (queues m) t) + n \<le> buffer"
  shows "\<exists>m'. broadcast_loop mq buffer n c m = Some (c + word_of_nat (length ts), m') \<and> mq_inv T qops mq m' [] fs
     \<and> waiters mq m' = [] \<and> read_bytes (bytes m') buffer n = read_bytes (bytes m) buffer n
     \<and> (\<forall>u. u \<notin> set ts \<longrightarrow> threads (queues m') u = threads (queues m) u)
     \<and> (\<forall>t\<in>set ts. wait_flags (threads (queues m') t) = THREAD_WAIT_STATE_READY)"
  using assms
proof (induction ts arbitrary: m c)
  case Nil
  have "CORE_message_queue_Dequeue_receiver mq buffer n 0 m = Some (0, m)" using Dequeue_receiver_none [OF Nil(1)] Nil(2) by simp
  then have "broadcast_loop mq buffer n c m = Some (c, m)" by (subst broadcast_loop.simps) simp
  then show ?case using Nil by simp
next
  case (Cons t ts)
  obtain m' where m': "CORE_message_queue_Dequeue_receiver mq buffer n 0 m = Some (t, m')" "t \<noteq> 0"
    "mq_inv T qops mq m' [] fs" "waiters mq m' = ts"
    "\<And>a. a < return_argument_second (threads (queues m) t) \<or> return_argument_second (threads (queues m) t) + n \<le> a \<Longrightarrow> bytes m' a = bytes m a"
    "wait_flags (threads (queues m') t) = THREAD_WAIT_STATE_READY"
    "\<And>u. u \<noteq> t \<Longrightarrow> threads (queues m') u = threads (queues m) u"
    by (rule Dequeue_receiver_ok [where buffer = buffer and submit_type = 0, OF Cons.prems(1-3)]) blast
  have keep: "read_bytes (bytes m') buffer n = read_bytes (bytes m) buffer n"
    using Cons.prems(4) [of t] m'(5) by (intro read_bytes_cong) force
  have step: "broadcast_loop mq buffer n c m = broadcast_loop mq buffer n (c + 1) m'"
    using m'(1,2) by (subst broadcast_loop.simps) simp
  have tn: "t \<notin> set ts" using first_waiter(6) [OF Cons.prems(1,2)] .
  have ap: "buffer + n \<le> return_argument_second (threads (queues m') u) \<or> return_argument_second (threads (queues m') u) + n \<le> buffer"
    if "u \<in> set ts" for u using Cons.prems(4) [of u] m'(7) [of u] tn that by (cases "u = t") auto
  obtain m'' where m'': "broadcast_loop mq buffer n (c + 1) m' = Some (c + 1 + word_of_nat (length ts), m'')" "mq_inv T qops mq m'' [] fs"
     "waiters mq m'' = []" "read_bytes (bytes m'') buffer n = read_bytes (bytes m') buffer n"
     "\<forall>u. u \<notin> set ts \<longrightarrow> threads (queues m'') u = threads (queues m') u"
     "\<forall>u\<in>set ts. wait_flags (threads (queues m'') u) = THREAD_WAIT_STATE_READY"
    using Cons.IH [OF m'(3,4) Cons.prems(3) ap] by blast
  show ?case
  proof (intro exI conjI allI impI ballI)
    show "broadcast_loop mq buffer n c m = Some (c + word_of_nat (length (t # ts)), m'')" using step m''(1) by (simp add: add.assoc)
    show "threads (queues m'') u = threads (queues m) u" if "u \<notin> set (t # ts)" for u using that m''(5) m'(7) by simp
    show "wait_flags (threads (queues m'') u) = THREAD_WAIT_STATE_READY" if "u \<in> set (t # ts)" for u
      using that m''(5,6) m'(6) tn by (cases "u = t") auto
  qed (use m'' keep in simp_all)
qed

lemma Close_ok:
  assumes I: "mq_inv T qops mq m ps fs"
  obtains m' where "CORE_message_queue_Close mq m = Some (length (waiters mq m), m')" "waiters mq m' = []"
    "steps_inv T qops (queues m', \<lambda>_. Outside)"
    "\<And>t. t \<in> set (waiters mq m) \<Longrightarrow> wait_flags (threads (queues m') t) = THREAD_WAIT_STATE_READY
       \<and> return_code (threads (queues m') t) = STATUS_MESSAGE_QUEUE_WAS_DELETED"
proof -
  note D = mq_invD [OF I]
  obtain s' where s': "Flush_critical (Wait_queue mq) (qops (Wait_queue mq)) STATUS_MESSAGE_QUEUE_WAS_DELETED (queues m) = Some (length (waiters mq m), s')"
    "waiting s' (Wait_queue mq) = []"
    "\<And>u. u \<in> set (waiters mq m) \<Longrightarrow> \<exists>sp. threads s' u = resumed (threads (queues m) u\<lparr>spare_heads := sp, return_code := STATUS_MESSAGE_QUEUE_WAS_DELETED\<rparr>)"
    by (rule Flush_critical_ok [where q = "Wait_queue mq" and status = STATUS_MESSAGE_QUEUE_WAS_DELETED, OF steps_invD(1) [OF D(4)]]) blast
  have S: "steps_inv T qops (s', \<lambda>_. Outside)" by (rule flush_step_inv [OF D(4) s'(1)])
  show thesis
  proof (rule that [of "m\<lparr>queues := s'\<rparr>"])
    show "CORE_message_queue_Close mq m = Some (length (waiters mq m), m\<lparr>queues := s'\<rparr>)"
      using s'(1) D(5) by (simp add: CORE_message_queue_Close_def)
    show "wait_flags (threads (queues (m\<lparr>queues := s'\<rparr>)) t) = THREAD_WAIT_STATE_READY
       \<and> return_code (threads (queues (m\<lparr>queues := s'\<rparr>)) t) = STATUS_MESSAGE_QUEUE_WAS_DELETED" if "t \<in> set (waiters mq m)" for t
      using s'(3) [OF that] by auto
  qed (use s'(2) S in simp_all)
qed

section \<open>Initialisation\<close>

text \<open>
  The control blocks of the two chains lie outside of the area that the allocation handler
  returns, and nobody waits at the queue yet.
\<close>

definition fresh_queue :: "nat set \<Rightarrow> (nat \<Rightarrow> operations_table) \<Rightarrow> message_queue \<Rightarrow> nat \<Rightarrow> nat \<Rightarrow> memory \<Rightarrow> bool" where
  "fresh_queue T qops mq area n m \<longleftrightarrow> steps_inv T qops (queues m, \<lambda>_. Outside) \<and> Wait_queue mq \<noteq> 0 \<and> waiters mq m = []
     \<and> 0 < Pending_messages mq \<and> 0 < Inactive_messages mq
     \<and> nodes (Pending_messages mq) [] \<inter> nodes (Inactive_messages mq) [] = {}
     \<and> (\<forall>x \<in> nodes (Pending_messages mq) [] \<union> nodes (Inactive_messages mq) []. x < area \<or> area + n \<le> x)"

lemma node_array_outside:
  assumes "x < area \<or> area + n * sz \<le> x" and "0 < sz"
  shows "x \<notin> set (node_array n sz area)"
  using assms by (auto dest!: node_array_ge)

lemma initialised_storage:
  assumes "fresh_queue T qops mq area (k * sz) m" and sz: "sz = buffer_size mq" "k = unat (maximum_pending_messages mq)"
    and "message_buffers mq = area" "area \<noteq> 0" "number_of_pending_messages mq = 0"
  shows "storage mq (m\<lparr>links := Chain_Initialize (Inactive_messages mq) area k sz (Chain_Initialize_empty (Pending_messages mq) (links m))\<rparr>)
    [] (buffers mq)"
proof -
  let ?P = "Pending_messages mq" and ?C = "Inactive_messages mq"
  let ?l = "Chain_Initialize ?C area k sz (Chain_Initialize_empty ?P (links m))"
  have F: "0 < ?P" "0 < ?C" "nodes ?P [] \<inter> nodes ?C [] = {}"
    "\<And>x. x \<in> nodes ?P [] \<union> nodes ?C [] \<Longrightarrow> x < area \<or> area + k * sz \<le> x"
    using assms(1) by (simp_all add: fresh_queue_def)
  have s0: "0 < sz" using buffer_size_pos(1) sz by simp
  have B: "buffers mq = node_array k sz area" using assms by (simp add: buffers_def)
  have c: "chain ?l ?C (node_array k sz area)"
    using F(2,4) s0 assms(5) by (intro Chain_Initialize_ok) (auto simp: nodes_def)
  have dis: "nodes ?P [] \<inter> nodes ?C (node_array k sz area) = {}"
    using F(3,4) node_array_outside [OF _ s0, of _ area k] by (auto simp: nodes_def)
  have "chain ?l ?P []"
    by (rule chain_frame [OF Chain_Initialize_empty_ok [OF F(1), of "links m"]])
      (use dis in \<open>auto intro!: Chain_Initialize_frame\<close>)
  then show ?thesis using c dis assms(6) by (simp add: storage_def chain_queue.two_queues_def B)
qed

lemma Initialize_ok:
  assumes E: "CORE_message_queue_Initialize mq disc maximum_pending maximum_size allocate m = (STATUS_SUCCESSFUL, mq', m')"
    and F: "fresh_queue T qops mq (allocate (unat maximum_pending * (RTEMS_ALIGN_UP maximum_size 8 + SIZEOF_BUFFER)))
      (unat maximum_pending * (RTEMS_ALIGN_UP maximum_size 8 + SIZEOF_BUFFER)) m"
    and q: "qops (Wait_queue mq) = (if disc = CORE_MESSAGE_QUEUE_DISCIPLINES_PRIORITY then Operations_priority else Operations_FIFO)"
    and p: "0 < unat maximum_pending"
  shows "mq_inv T qops mq' m' [] (buffers mq')" "maximum_pending_messages mq' = maximum_pending" "maximum_message_size mq' = maximum_size"
    "waiters mq' m' = []" "message_buffers mq' = allocate (unat maximum_pending * buffer_size mq')" "threads (queues m') = threads (queues m)"
    "unat maximum_pending * buffer_size mq' \<le> SIZE_MAX"
proof -
  let ?sz = "RTEMS_ALIGN_UP maximum_size 8 + SIZEOF_BUFFER"
  let ?area = "allocate (unat maximum_pending * ?sz)"
  let ?s = "(queues m)\<lparr>queue_heads := (queue_heads (queues m))(Wait_queue mq := 0), queue_owner := (queue_owner (queues m))(Wait_queue mq := 0)\<rparr>"
  have ok: "maximum_size \<le> MESSAGE_SIZE_LIMIT" "unat maximum_pending \<le> SIZE_MAX div ?sz" "?area \<noteq> 0"
    using E by (auto simp: CORE_message_queue_Initialize_def Let_def split: if_splits)
  have R: "mq' = mq\<lparr>message_buffers := ?area, maximum_pending_messages := maximum_pending, number_of_pending_messages := 0,
      maximum_message_size := maximum_size, operations := qops (Wait_queue mq)\<rparr>"
    "m' = m\<lparr>queues := ?s, links := Chain_Initialize (Inactive_messages mq) ?area (unat maximum_pending) ?sz (Chain_Initialize_empty (Pending_messages mq) (links m))\<rparr>"
    using E ok q by (auto simp: CORE_message_queue_Initialize_def Let_def)
  have "queue_heads (queues m) (Wait_queue mq) = 0"
    using F empty_waiting [OF steps_invD(1)] by (auto simp: fresh_queue_def)
  then have s: "?s = (queues m)\<lparr>queue_owner := (queue_owner (queues m))(Wait_queue mq := 0)\<rparr>" by (simp add: fun_upd_idem)
  have S0: "steps_inv T qops (queues m, \<lambda>_. Outside)" using F by (simp add: fresh_queue_def)
  have S: "steps_inv T qops (?s, \<lambda>_. Outside)"
    unfolding s by (rule tq_step_inv [OF tq_step.step_owner S0]) simp
  have bs: "buffer_size mq' = ?sz" unfolding R by (simp add: buffer_size_def)
  have F': "fresh_queue T qops mq' ?area (unat maximum_pending * ?sz) (m\<lparr>queues := ?s\<rparr>)"
    using F S unfolding R fresh_queue_def by (simp add: waits_def)
  have st: "storage mq' m' [] (buffers mq')"
    using initialised_storage [OF F'] bs ok(3) unfolding R by simp
  show W: "waiters mq' m' = []" unfolding R by (simp add: waits_def)
  have "Wait_queue mq \<noteq> 0" using F by (simp add: fresh_queue_def)
  then show "mq_inv T qops mq' m' [] (buffers mq')"
    unfolding mq_inv_def W using st S p by (simp add: R buffers_def)
  show "unat maximum_pending * buffer_size mq' \<le> SIZE_MAX"
    using ok(2) buffer_size_pos(1) [of mq'] unfolding bs by (simp add: less_eq_div_iff_mult_less_eq)
  show "message_buffers mq' = allocate (unat maximum_pending * buffer_size mq')" unfolding bs by (simp add: R)
qed (use E in \<open>auto simp: CORE_message_queue_Initialize_def Let_def split: if_splits\<close>)

section \<open>Clients that do not wait\<close>

text \<open>
  A client writes the message to its buffer and submits it, or receives into another buffer.
  The specification is a list of messages with priorities, bounded in length and message size.
\<close>

record mq_user =
  send_buffer :: nat
  receive_buffer :: nat
  size_pointer :: nat
  user_thread :: nat

datatype mq_op = Send int "byte list" | Receive | Flush_all

datatype mq_result = Sent Status_Control | Received Status_Control "byte list" | Flushed nat

definition store_bytes :: "nat \<Rightarrow> byte list \<Rightarrow> (nat \<Rightarrow> byte) \<Rightarrow> nat \<Rightarrow> byte" where
  "store_bytes a c f = (\<lambda>x. if a \<le> x \<and> x < a + length c then c ! (x - a) else f x)"

fun user_op :: "mq_user \<Rightarrow> mq_op \<Rightarrow> message_queue \<times> memory \<Rightarrow> (mq_result \<times> message_queue \<times> memory) option" where
  "user_op u (Send p c) (mq, m) =
     (case CORE_message_queue_Submit mq (user_thread u) (send_buffer u) (length c) p False False 0
        (m\<lparr>bytes := store_bytes (send_buffer u) c (bytes m)\<rparr>) of
        Some (Returned st, mq, m) \<Rightarrow> Some (Sent st, mq, m) | _ \<Rightarrow> None)"
| "user_op u Receive (mq, m) =
     (case CORE_message_queue_Seize mq (user_thread u) (receive_buffer u) (size_pointer u) False 0 m of
        Some (Returned st, mq, m) \<Rightarrow> Some (Received st (if st = STATUS_SUCCESSFUL
          then read_bytes (bytes m) (receive_buffer u) (size_objects m (size_pointer u)) else []), mq, m)
      | _ \<Rightarrow> None)"
| "user_op u Flush_all (mq, m) =
     (let (count, mq, m) = CORE_message_queue_Flush mq m in Some (Flushed (unat count), mq, m))"

fun user_run :: "mq_user \<Rightarrow> mq_op list \<Rightarrow> message_queue \<times> memory \<Rightarrow> mq_result list option" where
  "user_run u [] s = Some []"
| "user_run u (a # as) s = do { (r, s) \<leftarrow> user_op u a s; rs \<leftarrow> user_run u as s; Some (r # rs) }"

fun spec_op :: "nat \<Rightarrow> nat \<Rightarrow> mq_op \<Rightarrow> (int \<times> byte list) list \<Rightarrow> mq_result \<times> (int \<times> byte list) list" where
  "spec_op cap lim (Send p c) xs =
     (if lim < length c then (Sent STATUS_MESSAGE_INVALID_SIZE, xs)
      else if length xs < cap then (Sent STATUS_SUCCESSFUL, place_message p (p, c) xs)
      else (Sent STATUS_TOO_MANY, xs))"
| "spec_op cap lim Receive [] = (Received STATUS_UNSATISFIED [], [])"
| "spec_op cap lim Receive (x # xs) = (Received STATUS_SUCCESSFUL (snd x), xs)"
| "spec_op cap lim Flush_all xs = (Flushed (length xs), [])"

fun spec_run :: "nat \<Rightarrow> nat \<Rightarrow> mq_op list \<Rightarrow> (int \<times> byte list) list \<Rightarrow> mq_result list" where
  "spec_run cap lim [] xs = []"
| "spec_run cap lim (a # as) xs = (let (r, xs) = spec_op cap lim a xs in r # spec_run cap lim as xs)"

text \<open>The state of the client's queue represents a list of messages; nobody waits.\<close>

definition represents :: "nat set \<Rightarrow> (nat \<Rightarrow> operations_table) \<Rightarrow> message_queue \<times> memory \<Rightarrow> (int \<times> byte list) list \<Rightarrow> bool" where
  "represents T qops s xs \<longleftrightarrow> waiters (fst s) (snd s) = []
     \<and> (\<exists>ps fs. mq_inv T qops (fst s) (snd s) ps fs \<and> map (message (snd s)) ps = xs)"

definition same_shape :: "message_queue \<Rightarrow> message_queue \<Rightarrow> bool" where
  "same_shape mq mq' \<longleftrightarrow> maximum_pending_messages mq' = maximum_pending_messages mq
     \<and> maximum_message_size mq' = maximum_message_size mq \<and> message_buffers mq' = message_buffers mq \<and> Wait_queue mq' = Wait_queue mq"

definition range_outside :: "message_queue \<Rightarrow> nat \<Rightarrow> nat \<Rightarrow> bool" where
  "range_outside mq a n \<longleftrightarrow> a + n \<le> message_buffers mq
     \<or> message_buffers mq + unat (maximum_pending_messages mq) * buffer_size mq \<le> a"

lemma read_stored: "read_bytes (store_bytes a c f) a (length c) = c"
  by (rule nth_equalityI) (auto simp: read_bytes_def store_bytes_def)

lemma store_outside:
  assumes "storage mq m ps fs" and "range_outside mq a (length c)" and "b \<in> set ps"
  shows "message (m\<lparr>bytes := store_bytes a c (bytes m)\<rparr>) b = message m b"
proof -
  have b: "b \<in> set (buffers mq)" "msg_size m b \<le> maximum_message_size mq" using assms(1,3) by (auto simp: storage_def)
  have "read_bytes (store_bytes a c (bytes m)) (message_area b) (msg_size m b) = read_bytes (bytes m) (message_area b) (msg_size m b)"
    using assms(2) b node_array_ge [OF b(1) [unfolded buffers_def]] buffer_size_pos(2) [of mq]
    by (intro read_bytes_cong) (auto simp: store_bytes_def range_outside_def message_area_def)
  then show ?thesis by (simp add: message_def content_def)
qed

lemma mq_inv_bytes: "mq_inv T qops mq (m\<lparr>bytes := f\<rparr>) ps fs = mq_inv T qops mq m ps fs"
  by (simp add: mq_inv_def storage_def)

lemma user_send_ok:
  assumes R: "represents T qops (mq, m) xs" and o: "range_outside mq (send_buffer u) (length c)"
  obtains mq' m' where "user_op u (Send p c) (mq, m)
      = Some (fst (spec_op (unat (maximum_pending_messages mq)) (maximum_message_size mq) (Send p c) xs), mq', m')"
    "represents T qops (mq', m') (snd (spec_op (unat (maximum_pending_messages mq)) (maximum_message_size mq) (Send p c) xs))"
    "same_shape mq mq'"
proof -
  let ?m = "m\<lparr>bytes := store_bytes (send_buffer u) c (bytes m)\<rparr>"
  obtain ps fs where I: "mq_inv T qops mq m ps fs" "map (message m) ps = xs" and w: "waiters mq m = []"
    using R by (auto simp: represents_def)
  have I': "mq_inv T qops mq ?m ps fs" using I(1) by (simp add: mq_inv_bytes)
  have xs: "map (message ?m) ps = xs" using store_outside [OF mq_invD(1) [OF I(1)] o] I(2) by auto
  have w': "waiters mq ?m = []" using w by simp
  have R': "represents T qops (mq, ?m) xs" unfolding represents_def using I' xs w' by auto
  have refl: "same_shape mq mq" by (simp add: same_shape_def)
  have len: "length xs = length ps" using xs by auto
  consider (big) "maximum_message_size mq < length c" | (full) "length c \<le> maximum_message_size mq" "fs = []"
    | (store) b fs' where "length c \<le> maximum_message_size mq" "fs = b # fs'"
    by (cases "maximum_message_size mq < length c"; cases fs) auto
  then show thesis
  proof cases
    case big
    then show thesis using that [of mq ?m] R' refl by (simp add: Submit_too_big)
  next
    case full
    then have "\<not> length xs < unat (maximum_pending_messages mq)" using mq_invD(2) [OF I(1)] len by simp
    then show thesis using that [of mq ?m] R' refl Submit_full(1) [of T qops mq ?m ps] I' full by simp
  next
    case store
    have I2: "mq_inv T qops mq ?m ps (b # fs')" using I' store(2) by simp
    obtain m' ps' where m': "CORE_message_queue_Submit mq (user_thread u) (send_buffer u) (length c) p False False 0 ?m
        = Some (Returned STATUS_SUCCESSFUL, mq\<lparr>number_of_pending_messages := number_of_pending_messages mq + 1\<rparr>, m')"
      "mq_inv T qops (mq\<lparr>number_of_pending_messages := number_of_pending_messages mq + 1\<rparr>) m' ps' fs'"
      "map (message m') ps' = place_message p (p, read_bytes (bytes ?m) (send_buffer u) (length c)) (map (message ?m) ps)"
      "queues m' = queues ?m"
      by (rule Submit_stores [where executing = "user_thread u" and buffer = "send_buffer u" and submit_type = p and wait = False
            and isr = False and ticks = 0, OF I2 disjI2 [OF w'] store(1)]) blast
    have "length xs < unat (maximum_pending_messages mq)" using mq_invD(2) [OF I2] len by simp
    moreover have "represents T qops (mq\<lparr>number_of_pending_messages := number_of_pending_messages mq + 1\<rparr>, m') (place_message p (p, c) xs)"
      unfolding represents_def using m'(2-4) xs w' read_stored by auto
    ultimately show thesis using that m'(1) store(1) by (auto simp: same_shape_def)
  qed
qed

lemma user_receive_ok:
  assumes R: "represents T qops (mq, m) xs" and o: "outside mq (receive_buffer u)"
  obtains mq' m' where "user_op u Receive (mq, m) = Some (fst (spec_op cap lim Receive xs), mq', m')"
    "represents T qops (mq', m') (snd (spec_op cap lim Receive xs))" "same_shape mq mq'"
proof -
  obtain ps fs where I: "mq_inv T qops mq m ps fs" "map (message m) ps = xs" and w: "waiters mq m = []"
    using R by (auto simp: represents_def)
  show thesis
  proof (cases ps)
    case Nil
    then have "user_op u Receive (mq, m) = Some (Received STATUS_UNSATISFIED [], mq, m)" using Seize_empty [of T qops mq m fs] I(1) by simp
    then show thesis using that [of mq m] R Nil I(2) by (auto simp: same_shape_def)
  next
    case (Cons b ps')
    let ?mq = "mq\<lparr>number_of_pending_messages := number_of_pending_messages mq - 1\<rparr>"
    have I2: "mq_inv T qops mq m (b # ps') fs" using I(1) Cons by simp
    obtain m' where m': "CORE_message_queue_Seize mq (user_thread u) (receive_buffer u) (size_pointer u) False 0 m
        = Some (Returned STATUS_SUCCESSFUL, ?mq, m')" "mq_inv T qops ?mq m' ps' (fs @ [b])"
      "map (message m') ps' = map (message m) ps'" "read_bytes (bytes m') (receive_buffer u) (msg_size m b) = content m b"
      "size_objects m' = (size_objects m)(size_pointer u := msg_size m b)" "waiters mq m' = []"
      by (rule Seize_takes [where executing = "user_thread u" and size_p = "size_pointer u" and wait = False and ticks = 0, OF I2 w o]) blast
    have "user_op u Receive (mq, m) = Some (Received STATUS_SUCCESSFUL (content m b), ?mq, m')" using m'(1,4,5) by simp
    moreover have "represents T qops (?mq, m') (map (message m) ps')"
      unfolding represents_def using m'(2,3,6) by auto
    ultimately show thesis using that [of ?mq m'] I(2) Cons by (auto simp: same_shape_def message_def)
  qed
qed

lemma user_flush_ok:
  assumes R: "represents T qops (mq, m) xs"
  obtains mq' m' where "user_op u Flush_all (mq, m) = Some (fst (spec_op cap lim Flush_all xs), mq', m')"
    "represents T qops (mq', m') (snd (spec_op cap lim Flush_all xs))" "same_shape mq mq'"
proof -
  obtain ps fs where I: "mq_inv T qops mq m ps fs" "map (message m) ps = xs" and w: "waiters mq m = []"
    using R by (auto simp: represents_def)
  obtain m' where m': "CORE_message_queue_Flush mq m = (number_of_pending_messages mq, mq\<lparr>number_of_pending_messages := 0\<rparr>, m')"
    "mq_inv T qops (mq\<lparr>number_of_pending_messages := 0\<rparr>) m' [] (ps @ fs)" "queues m' = queues m"
    by (rule Flush_ok [OF I(1) disjI1 [OF w]]) blast
  have n: "unat (number_of_pending_messages mq) = length xs" using mq_invD(1) [OF I(1)] I(2) by (auto simp: storage_def)
  have "represents T qops (mq\<lparr>number_of_pending_messages := 0\<rparr>, m') []"
    unfolding represents_def using m'(2,3) w by auto
  then show thesis using that [of "mq\<lparr>number_of_pending_messages := 0\<rparr>" m'] m'(1) n by (simp add: same_shape_def)
qed

definition fits :: "message_queue \<Rightarrow> mq_user \<Rightarrow> mq_op \<Rightarrow> bool" where
  "fits mq u a \<longleftrightarrow> (case a of Send p c \<Rightarrow> range_outside mq (send_buffer u) (length c) | _ \<Rightarrow> True)"

lemma same_shape_keeps:
  assumes "same_shape mq mq'"
  shows "outside mq' a = outside mq a" "fits mq' u op = fits mq u op"
    "maximum_pending_messages mq' = maximum_pending_messages mq" "maximum_message_size mq' = maximum_message_size mq"
  using assms by (simp_all add: same_shape_def outside_def fits_def range_outside_def buffer_size_def split: mq_op.splits)

lemma user_op_ok:
  assumes "represents T qops (mq, m) xs" and "outside mq (receive_buffer u)" and "fits mq u a"
  obtains mq' m' where "user_op u a (mq, m)
      = Some (fst (spec_op (unat (maximum_pending_messages mq)) (maximum_message_size mq) a xs), mq', m')"
    "represents T qops (mq', m') (snd (spec_op (unat (maximum_pending_messages mq)) (maximum_message_size mq) a xs))" "same_shape mq mq'"
proof (cases a)
  case (Send p c)
  then show thesis using user_send_ok [OF assms(1), of u c p] that assms(3) by (auto simp: fits_def)
next
  case Receive
  then show thesis using user_receive_ok [OF assms(1,2)] that by blast
next
  case Flush_all
  then show thesis using user_flush_ok [OF assms(1)] that by blast
qed

lemma user_run_ok:
  assumes "represents T qops (mq, m) xs" and "outside mq (receive_buffer u)" and "\<And>a. a \<in> set ops \<Longrightarrow> fits mq u a"
  shows "user_run u ops (mq, m) = Some (spec_run (unat (maximum_pending_messages mq)) (maximum_message_size mq) ops xs)"
  using assms
proof (induction ops arbitrary: mq m xs)
  case (Cons a ops)
  obtain mq' m' where s: "user_op u a (mq, m)
      = Some (fst (spec_op (unat (maximum_pending_messages mq)) (maximum_message_size mq) a xs), mq', m')"
    "represents T qops (mq', m') (snd (spec_op (unat (maximum_pending_messages mq)) (maximum_message_size mq) a xs))" "same_shape mq mq'"
    by (rule user_op_ok [OF Cons.prems(1,2), of a]) (use Cons.prems(3) in auto)
  note k = same_shape_keeps [OF s(3)]
  have "user_run u ops (mq', m') = Some (spec_run (unat (maximum_pending_messages mq')) (maximum_message_size mq') ops
      (snd (spec_op (unat (maximum_pending_messages mq)) (maximum_message_size mq) a xs)))"
    by (rule Cons.IH [OF s(2)]) (use k Cons.prems(2,3) in simp_all)
  then show ?case using s(1) k(3,4) by (simp add: Let_def case_prod_unfold)
qed simp

section \<open>Properties\<close>

text \<open>C8. A message queue implements a bounded queue of messages. After every successful
  \<open>_CORE_message_queue_Initialize\<close> for at least one message whose storage area does not overlap the
  control block and the buffers of the clients, every sequence of sends, urgent sends, sends by
  priority, receives and flushes that do not ask to wait (the argument \<open>wait\<close> is false), outside of
  interrupts and with no thread waiting at the queue, returns exactly the status codes and message
  contents of the specification, a list of at most \<open>maximum_pending\<close> messages of at most \<open>maximum_size\<close> bytes:
  nothing is lost, duplicated, reordered, truncated or mixed up, and no call gets stuck.\<close>

theorem message_queue_refines:
  assumes "CORE_message_queue_Initialize mq disc maximum_pending maximum_size allocate m = (STATUS_SUCCESSFUL, mq', m')"
    and "fresh_queue T qops mq (allocate (unat maximum_pending * (RTEMS_ALIGN_UP maximum_size 8 + SIZEOF_BUFFER)))
      (unat maximum_pending * (RTEMS_ALIGN_UP maximum_size 8 + SIZEOF_BUFFER)) m"
    and "qops (Wait_queue mq) = (if disc = CORE_MESSAGE_QUEUE_DISCIPLINES_PRIORITY then Operations_priority else Operations_FIFO)"
    and "0 < unat maximum_pending"
    and "outside mq' (receive_buffer u)" and "\<And>a. a \<in> set ops \<Longrightarrow> fits mq' u a"
  shows "user_run u ops (mq', m') = Some (spec_run (unat maximum_pending) maximum_size ops [])"
proof -
  note I = Initialize_ok [OF assms(1-4)]
  have "represents T qops (mq', m') []" unfolding represents_def using I(1,4) by auto
  from user_run_ok [OF this assms(5,6)] show ?thesis by (simp add: I(2,3))
qed

text \<open>C9. Every branch of \<open>_CORE_message_queue_Submit\<close> on a queue in a consistent state: too big
  messages are refused; the first waiting receiver gets size and content in its own variables
  and is made ready; otherwise the message is stored at the place its type demands; a full
  queue is reported, refused in interrupts, or the sender starts to wait at the place its
  discipline gives it. All of these keep the state consistent.\<close>

theorem Submit_contract:
  assumes I: "mq_inv T qops mq m ps fs" and e: "executing \<in> T"
    "wait_flags (threads (queues m) executing) = THREAD_WAIT_STATE_READY" and b: "outside mq buffer"
  shows "\<exists>r mq' m' ps' fs'. CORE_message_queue_Submit mq executing buffer n submit_type wait isr ticks m = Some (r, mq', m')
    \<and> mq_inv T qops mq' m' ps' fs'
    \<and> (if n > maximum_message_size mq then r = Returned STATUS_MESSAGE_INVALID_SIZE \<and> mq' = mq \<and> m' = m
       else if ps = [] \<and> waiters mq m \<noteq> []
       then r = Returned STATUS_SUCCESSFUL \<and> ps' = [] \<and> waiters mq m' = tl (waiters mq m)
         \<and> (let t = hd (waiters mq m); th = threads (queues m) t
            in size_objects m' (return_argument th) = n
              \<and> read_bytes (bytes m') (return_argument_second th) n = read_bytes (bytes m) buffer n
              \<and> wait_flags (threads (queues m') t) = THREAD_WAIT_STATE_READY
              \<and> return_code (threads (queues m') t) = return_code th)
       else if length ps < unat (maximum_pending_messages mq)
       then r = Returned STATUS_SUCCESSFUL \<and> waiters mq m' = waiters mq m
         \<and> map (message m') ps' = place_message submit_type (submit_type, read_bytes (bytes m) buffer n) (map (message m) ps)
       else if \<not> wait then r = Returned STATUS_TOO_MANY \<and> mq' = mq \<and> m' = m
       else if isr then r = Returned STATUS_MESSAGE_QUEUE_WAIT_IN_ISR \<and> mq' = mq \<and> m' = m
       else r = Waits \<and> mq' = mq \<and> ps' = ps
         \<and> waiters mq m' = table_insert (operations mq) (threads (queues m)) executing (waiters mq m)
         \<and> map (message m') ps' = map (message m) ps)"
proof -
  note D = mq_invD [OF I]
  consider (big) "n > maximum_message_size mq"
    | (deliver) t ts where "n \<le> maximum_message_size mq" "ps = []" "waiters mq m = t # ts"
    | (store) b fs1 where "n \<le> maximum_message_size mq" "ps \<noteq> [] \<or> waiters mq m = []" "fs = b # fs1"
    | (full) "n \<le> maximum_message_size mq" "ps \<noteq> [] \<or> waiters mq m = []" "fs = []"
    by (cases "n > maximum_message_size mq"; cases "waiters mq m"; cases fs; cases ps) auto
  then show ?thesis
  proof cases
    case big
    then show ?thesis using Submit_too_big [OF big] I by (intro exI conjI) simp_all
  next
    case deliver
    have I0: "mq_inv T qops mq m [] fs" using I deliver(2) by simp
    obtain m' where m': "CORE_message_queue_Dequeue_receiver mq buffer n submit_type m = Some (t, m')" "t \<noteq> 0"
      "mq_inv T qops mq m' [] fs" "waiters mq m' = ts"
      "size_objects m' = (size_objects m)(return_argument (threads (queues m) t) := n)"
      "read_bytes (bytes m') (return_argument_second (threads (queues m) t)) n = read_bytes (bytes m) buffer n"
      "wait_flags (threads (queues m') t) = THREAD_WAIT_STATE_READY"
      "return_code (threads (queues m') t) = return_code (threads (queues m) t)"
      by (rule Dequeue_receiver_ok [where buffer = buffer and submit_type = submit_type, OF I0 deliver(3,1)]) blast
    have "CORE_message_queue_Submit mq executing buffer n submit_type wait isr ticks m = Some (Returned STATUS_SUCCESSFUL, mq, m')"
      by (rule Submit_delivers [OF I0 deliver(3,1) m'(1,2)])
    then show ?thesis
      using m' deliver by (intro exI [of _ "Returned STATUS_SUCCESSFUL"] exI [of _ mq] exI [of _ m'] exI [of _ "[]"] exI [of _ fs])
        (simp add: Let_def)
  next
    case store
    have I0: "mq_inv T qops mq m ps (b # fs1)" using I store(3) by simp
    let ?mq = "mq\<lparr>number_of_pending_messages := number_of_pending_messages mq + 1\<rparr>"
    obtain m' ps' where m': "CORE_message_queue_Submit mq executing buffer n submit_type wait isr ticks m
        = Some (Returned STATUS_SUCCESSFUL, ?mq, m')" "mq_inv T qops ?mq m' ps' fs1"
      "map (message m') ps' = place_message submit_type (submit_type, read_bytes (bytes m) buffer n) (map (message m) ps)"
      "queues m' = queues m"
      by (rule Submit_stores [where executing = executing and buffer = buffer and submit_type = submit_type and wait = wait
            and isr = isr and ticks = ticks, OF I0 store(2,1)]) blast
    have "length ps < unat (maximum_pending_messages mq)" using D(2) store(3) by simp
    then show ?thesis
      using m' store by (intro exI [of _ "Returned STATUS_SUCCESSFUL"] exI [of _ ?mq] exI [of _ m'] exI [of _ ps'] exI [of _ fs1]) auto
  next
    case full
    have I0: "mq_inv T qops mq m ps []" and l: "\<not> length ps < unat (maximum_pending_messages mq)" using I D(2) full(3) by simp_all
    show ?thesis
    proof (cases "wait \<and> \<not> isr")
      case True
      obtain s' where s': "CORE_message_queue_Submit mq executing buffer n submit_type True False ticks m = Some (Waits, mq, m\<lparr>queues := s'\<rparr>)"
        "mq_inv T qops mq (m\<lparr>queues := s'\<rparr>) ps []"
        "waiting s' (Wait_queue mq) = table_insert (operations mq) (threads (queues m)) executing (waiters mq m)"
        by (rule Submit_waits [where submit_type = submit_type and ticks = ticks, OF I0 full(1) e b]) blast
      have "map (message (m\<lparr>queues := s'\<rparr>)) ps = map (message m) ps" by (simp add: message_def content_def)
      then show ?thesis
        using s' True full(1,2) l by (intro exI [of _ Waits] exI [of _ mq] exI [of _ "m\<lparr>queues := s'\<rparr>"] exI [of _ ps] exI [of _ "[]"]) auto
    next
      case False
      then show ?thesis
        using Submit_full [OF I0 full(1)] I0 full(1,2) l by (cases wait; cases isr) auto
    qed
  qed
qed

text \<open>C10. Every branch of \<open>_CORE_message_queue_Seize\<close> on a queue in a consistent state: the first
  pending message is copied, with its size, to the variables of the caller; its buffer is
  freed, or, if senders wait, refilled at once with the message of the first of them, which is
  made ready; an empty queue is reported or the caller starts to wait. All of these keep the
  state consistent.\<close>

theorem Seize_contract:
  assumes I: "mq_inv T qops mq m ps fs" and e: "executing \<in> T"
    "wait_flags (threads (queues m) executing) = THREAD_WAIT_STATE_READY" and b: "outside mq buffer"
    and apart: "\<And>t. t \<in> set (waiters mq m) \<Longrightarrow> buffer + maximum_message_size mq \<le> return_argument_second (threads (queues m) t)
      \<or> return_argument_second (threads (queues m) t) + maximum_message_size mq \<le> buffer"
  shows "\<exists>r mq' m' ps' fs'. CORE_message_queue_Seize mq executing buffer size_p wait ticks m = Some (r, mq', m')
    \<and> mq_inv T qops mq' m' ps' fs'
    \<and> (if ps \<noteq> []
       then r = Returned STATUS_SUCCESSFUL \<and> size_objects m' size_p = length (content m (hd ps))
         \<and> read_bytes (bytes m') buffer (size_objects m' size_p) = content m (hd ps)
         \<and> waiters mq m' = tl (waiters mq m)
         \<and> map (message m') ps' = (if waiters mq m = [] then map (message m) (tl ps)
             else let th = threads (queues m) (hd (waiters mq m)); p = sint (wait_count th)
               in place_message p (p, read_bytes (bytes m) (return_argument_second th) (unat (wait_option th))) (map (message m) (tl ps)))
         \<and> (waiters mq m = [] \<or> wait_flags (threads (queues m') (hd (waiters mq m))) = THREAD_WAIT_STATE_READY)
       else if \<not> wait then r = Returned STATUS_UNSATISFIED \<and> mq' = mq \<and> m' = m
       else r = Waits \<and> mq' = mq \<and> ps' = []
         \<and> waiters mq m' = table_insert (operations mq) (threads (queues m)) executing (waiters mq m))"
proof -
  note D = mq_invD [OF I]
  have nw: "executing \<notin> set (waiters mq m)"
  proof
    assume "executing \<in> set (waiters mq m)"
    then have "wait_queue (threads (queues m) executing) \<noteq> 0"
      using heads_protocolD(13) [OF tq_invD(3) [OF steps_invD(1) [OF D(4)]], of "Wait_queue mq"] by auto
    then show False using steps_invD(2) [OF D(4) e(1)] e(2) by (auto simp: thread_ok_def)
  qed
  consider (empty) "ps = []" | (take) x xs where "ps = x # xs" "waiters mq m = []"
    | (refill) x xs t ts where "ps = x # xs" "waiters mq m = t # ts"
    by (cases ps; cases "waiters mq m") auto
  then show ?thesis
  proof cases
    case empty
    have I0: "mq_inv T qops mq m [] fs" using I empty by simp
    show ?thesis
    proof (cases wait)
      case True
      obtain s' where "CORE_message_queue_Seize mq executing buffer size_p True ticks m = Some (Waits, mq, m\<lparr>queues := s'\<rparr>)"
        "mq_inv T qops mq (m\<lparr>queues := s'\<rparr>) [] fs"
        "waiting s' (Wait_queue mq) = table_insert (operations mq) (threads (queues m)) executing (waiters mq m)"
        by (rule Seize_waits [where size_p = size_p and ticks = ticks, OF I0 e b]) blast
      then show ?thesis using True empty
        by (intro exI [of _ Waits] exI [of _ mq] exI [of _ "m\<lparr>queues := s'\<rparr>"] exI [of _ "[]"] exI [of _ fs]) simp
    next
      case False
      then show ?thesis using Seize_empty [OF I0] I0 empty by auto
    qed
  next
    case take
    have I0: "mq_inv T qops mq m (x # xs) fs" using I take(1) by simp
    let ?mq = "mq\<lparr>number_of_pending_messages := number_of_pending_messages mq - 1\<rparr>"
    obtain m' where "CORE_message_queue_Seize mq executing buffer size_p wait ticks m = Some (Returned STATUS_SUCCESSFUL, ?mq, m')"
      "mq_inv T qops ?mq m' xs (fs @ [x])" "map (message m') xs = map (message m) xs"
      "read_bytes (bytes m') buffer (msg_size m x) = content m x" "size_objects m' = (size_objects m)(size_p := msg_size m x)"
      "waiters mq m' = []"
      by (rule Seize_takes [where executing = executing and size_p = size_p and wait = wait and ticks = ticks, OF I0 take(2) b]) blast
    then show ?thesis using take
      by (intro exI [of _ "Returned STATUS_SUCCESSFUL"] exI [of _ ?mq] exI [of _ m'] exI [of _ xs] exI [of _ "fs @ [x]"])
        (simp add: content_def)
  next
    case refill
    have I0: "mq_inv T qops mq m (x # xs) fs" using I refill(1) by simp
    let ?th = "threads (queues m) t"
    obtain m' ps' where "CORE_message_queue_Seize mq executing buffer size_p wait ticks m = Some (Returned STATUS_SUCCESSFUL, mq, m')"
      "mq_inv T qops mq m' ps' fs"
      "map (message m') ps' = place_message (sint (wait_count ?th)) (sint (wait_count ?th),
         read_bytes (bytes m) (return_argument_second ?th) (unat (wait_option ?th))) (map (message m) xs)"
      "read_bytes (bytes m') buffer (msg_size m x) = content m x" "size_objects m' = (size_objects m)(size_p := msg_size m x)"
      "waiters mq m' = ts" "wait_flags (threads (queues m') t) = THREAD_WAIT_STATE_READY"
      by (rule Seize_refills [where size_p = size_p and wait = wait and ticks = ticks, OF I0 refill(2) b nw])
        (use apart [of t] refill(2) in auto)
    then show ?thesis using refill
      by (intro exI [of _ "Returned STATUS_SUCCESSFUL"] exI [of _ mq] exI [of _ m'] exI [of _ ps'] exI [of _ fs])
        (simp add: content_def Let_def)
  qed
qed

section \<open>A small queue\<close>

text \<open>Two messages of at most four bytes, in an area at 4096.\<close>

definition small_queue :: message_queue where
  "small_queue = \<lparr>Wait_queue = 5, operations = Operations_default, maximum_pending_messages = 0, number_of_pending_messages = 0,
     maximum_message_size = 0, Pending_messages = 1000, message_buffers = 0, Inactive_messages = 1100\<rparr>"

definition small_memory :: memory where
  "small_memory = \<lparr>links = \<lparr>cnext = \<lambda>_. 0, cprev = \<lambda>_. 0\<rparr>, bytes = \<lambda>_. 0, msg_size = \<lambda>_. 0, msg_priority = \<lambda>_. 0,
     size_objects = \<lambda>_. 0, queues = idle_queues\<rparr>"

definition small_init :: "Status_Control \<times> message_queue \<times> memory" where
  "small_init = CORE_message_queue_Initialize small_queue CORE_MESSAGE_QUEUE_DISCIPLINES_FIFO 2 4 (\<lambda>_. 4096) small_memory"

definition small_user :: mq_user where
  "small_user = \<lparr>send_buffer = 8192, receive_buffer = 9000, size_pointer = 9500, user_thread = 1\<rparr>"

lemma small_init_ok:
  "CORE_message_queue_Initialize small_queue CORE_MESSAGE_QUEUE_DISCIPLINES_FIFO 2 4 (\<lambda>_. 4096) small_memory
     = (STATUS_SUCCESSFUL, fst (snd small_init), snd (snd small_init))"
  by (simp add: small_init_def CORE_message_queue_Initialize_def MESSAGE_SIZE_LIMIT_def SIZE_MAX_def SIZEOF_BUFFER_def
      RTEMS_ALIGN_UP_def Let_def)

lemma small_fresh: "fresh_queue {1, 2} (\<lambda>_. Operations_FIFO) small_queue 4096 (unat (2 :: uint32) * (RTEMS_ALIGN_UP 4 8 + SIZEOF_BUFFER)) small_memory"
  using start_inv [OF idle_queues_start, of "\<lambda>_. Operations_FIFO"]
  by (simp add: fresh_queue_def small_memory_def small_queue_def waits_def idle_queues_def nodes_def chain_addr SIZEOF_BUFFER_def RTEMS_ALIGN_UP_def)

lemma small_shape:
  "maximum_pending_messages (fst (snd small_init)) = 2" "maximum_message_size (fst (snd small_init)) = 4"
  "message_buffers (fst (snd small_init)) = 4096" "threads (queues (snd (snd small_init))) = threads idle_queues"
  "Wait_queue (fst (snd small_init)) = 5" "waiting (queues (snd (snd small_init))) 5 = []" "operations (fst (snd small_init)) = Operations_FIFO"
  by (simp_all add: small_init_def CORE_message_queue_Initialize_def MESSAGE_SIZE_LIMIT_def SIZE_MAX_def SIZEOF_BUFFER_def
      RTEMS_ALIGN_UP_def Let_def small_memory_def small_queue_def waits_def)

lemma small_outside: "4176 \<le> a \<Longrightarrow> outside (fst (snd small_init)) a" "4176 \<le> a \<Longrightarrow> range_outside (fst (snd small_init)) a n"
  by (simp_all add: outside_def range_outside_def small_shape buffer_size_def SIZEOF_BUFFER_def RTEMS_ALIGN_UP_def)

lemma small_inv: "mq_inv {1, 2} (\<lambda>_. Operations_FIFO) (fst (snd small_init)) (snd (snd small_init)) [] (buffers (fst (snd small_init)))"
  by (rule Initialize_ok(1) [OF small_init_ok small_fresh]) simp_all

theorem message_queue_refines_witness:
  "user_run small_user [Send (2 ^ 31 - 1) [1, 2], Send (- (2 ^ 31)) [3], Send 0 [4], Receive, Receive, Receive, Send 0 [0, 0, 0, 0, 0]]
     (fst (snd small_init), snd (snd small_init))
   = Some [Sent STATUS_SUCCESSFUL, Sent STATUS_SUCCESSFUL, Sent STATUS_TOO_MANY, Received STATUS_SUCCESSFUL [3],
       Received STATUS_SUCCESSFUL [1, 2], Received STATUS_UNSATISFIED [], Sent STATUS_MESSAGE_INVALID_SIZE]"
proof -
  let ?ops = "[Send (2 ^ 31 - 1) [1, 2], Send (- (2 ^ 31)) [3], Send 0 [4], Receive, Receive, Receive, Send 0 [0, 0, 0, 0, 0]]"
  have "user_run small_user ?ops (fst (snd small_init), snd (snd small_init)) = Some (spec_run (unat (2 :: uint32)) 4 ?ops [])"
    by (rule message_queue_refines [OF small_init_ok small_fresh])
      (auto simp: small_user_def fits_def intro!: small_outside)
  then show ?thesis
    by (simp add: place_message_def CORE_MESSAGE_QUEUE_SEND_REQUEST_def CORE_MESSAGE_QUEUE_URGENT_REQUEST_def)
qed

lemma small_ready: "wait_flags (threads (queues (snd (snd small_init))) 1) = THREAD_WAIT_STATE_READY"
  by (simp add: small_shape idle_queues_def idle_thread_def)

theorem Submit_contract_witness:
  "\<exists>mq' m' b. CORE_message_queue_Submit (fst (snd small_init)) 1 8192 3 7 True False 0 (snd (snd small_init))
     = Some (Returned STATUS_SUCCESSFUL, mq', m') \<and> message m' b = (7, read_bytes (bytes (snd (snd small_init))) 8192 3)"
  using Submit_contract [OF small_inv _ small_ready small_outside(1), of 8192 3 7 True False 0]
  by (simp add: small_shape place_message_def CORE_MESSAGE_QUEUE_SEND_REQUEST_def CORE_MESSAGE_QUEUE_URGENT_REQUEST_def) auto

theorem Seize_contract_witness:
  "\<exists>m'. CORE_message_queue_Seize (fst (snd small_init)) 1 9000 9500 True 0 (snd (snd small_init)) = Some (Waits, fst (snd small_init), m')
     \<and> waiters (fst (snd small_init)) m' = [1]"
  using Seize_contract [OF small_inv _ small_ready small_outside(1), of 9000 9500 True 0]
  by (simp add: small_shape fifo_insert_def) blast

end
