(* ===== verification/Priority_Bits.thy ===== *)
theory Priority_Bits
  imports Prelude
begin

text \<open>
  The priority bit map of the deterministic priority scheduler
  (\<^verbatim>\<open>cpukit/include/rtems/score/prioritybitmapimpl.h\<close>, \<^verbatim>\<open>cpukit/score/src/log2table.c\<close>) with the
  generic bit field code: 256 priorities in sixteen 16-bit words and a word that says which of
  them are not zero. The bit of the most important priority is the most significant one. The
  two searches for the first bit, the one with the count of leading zeros of the compiler and
  the one with the table, are equal; the map is the set of the priorities added and not removed,
  and \<open>Priority_bit_map_Get_highest\<close> is the least element of the set.
\<close>

unbundle bit_operations_syntax

section \<open>Definitions\<close>

type_synonym Priority_bit_map_Word = "16 word"

record Priority_bit_map_Control =
  major_bit_map :: Priority_bit_map_Word
  bit_map :: "Priority_bit_map_Word list"

text \<open>The pointer \<open>minor\<close> to a word of \<open>bit_map\<close> is its index.\<close>

record Priority_bit_map_Information =
  minor :: nat
  ready_major :: Priority_bit_map_Word
  ready_minor :: Priority_bit_map_Word
  block_major :: Priority_bit_map_Word
  block_minor :: Priority_bit_map_Word

text \<open>\<open>__builtin_clz\<close>, undefined for 0.\<close>

definition builtin_clz :: "uint32 \<Rightarrow> nat option" where
  "builtin_clz v = find (\<lambda>z. bit v (31 - z)) [0..<32]"

definition Bitfield_Find_first_bit :: "uint32 \<Rightarrow> uint32 option" where
  "Bitfield_Find_first_bit v = map_option (\<lambda>z. of_nat z - 4 * 8 + 16) (builtin_clz v)"

definition Bitfield_Leading_zeros :: "nat list" where
  "Bitfield_Leading_zeros =
     [7, 7, 6, 6, 5, 5, 5, 5, 4, 4, 4, 4, 4, 4, 4, 4, 3, 3, 3, 3, 3, 3, 3, 3, 3, 3, 3, 3, 3, 3, 3, 3,
      2, 2, 2, 2, 2, 2, 2, 2, 2, 2, 2, 2, 2, 2, 2, 2, 2, 2, 2, 2, 2, 2, 2, 2, 2, 2, 2, 2, 2, 2, 2, 2,
      1, 1, 1, 1, 1, 1, 1, 1, 1, 1, 1, 1, 1, 1, 1, 1, 1, 1, 1, 1, 1, 1, 1, 1, 1, 1, 1, 1, 1, 1, 1, 1,
      1, 1, 1, 1, 1, 1, 1, 1, 1, 1, 1, 1, 1, 1, 1, 1, 1, 1, 1, 1, 1, 1, 1, 1, 1, 1, 1, 1, 1, 1, 1, 1,
      0, 0, 0, 0, 0, 0, 0, 0, 0, 0, 0, 0, 0, 0, 0, 0, 0, 0, 0, 0, 0, 0, 0, 0, 0, 0, 0, 0, 0, 0, 0, 0,
      0, 0, 0, 0, 0, 0, 0, 0, 0, 0, 0, 0, 0, 0, 0, 0, 0, 0, 0, 0, 0, 0, 0, 0, 0, 0, 0, 0, 0, 0, 0, 0,
      0, 0, 0, 0, 0, 0, 0, 0, 0, 0, 0, 0, 0, 0, 0, 0, 0, 0, 0, 0, 0, 0, 0, 0, 0, 0, 0, 0, 0, 0, 0, 0,
      0, 0, 0, 0, 0, 0, 0, 0, 0, 0, 0, 0, 0, 0, 0, 0, 0, 0, 0, 0, 0, 0, 0, 0, 0, 0, 0, 0, 0, 0, 0, 0]"

text \<open>The variant for other compilers; an index beyond the table is undefined.\<close>

definition Bitfield_Find_first_bit_table :: "uint32 \<Rightarrow> uint32 option" where
  "Bitfield_Find_first_bit_table v =
     (if v < 0x100 then Some (of_nat (Bitfield_Leading_zeros ! unat v) + 8)
      else if unat (drop_bit 8 v) < length Bitfield_Leading_zeros
      then Some (of_nat (Bitfield_Leading_zeros ! unat (drop_bit 8 v)))
      else None)"

definition Priority_Mask :: "uint32 \<Rightarrow> Priority_bit_map_Word" where
  "Priority_Mask bit_number = ucast (drop_bit (unat bit_number) (0x8000 :: uint32))"

definition Priority_Bits_index :: "uint32 \<Rightarrow> uint32" where
  "Priority_Bits_index bit_number = bit_number"

definition Priority_Major :: "uint32 \<Rightarrow> uint32" where "Priority_Major the_priority = the_priority div 16"
definition Priority_Minor :: "uint32 \<Rightarrow> uint32" where "Priority_Minor the_priority = the_priority mod 16"

definition Priority_bit_map_Initialize :: Priority_bit_map_Control where
  "Priority_bit_map_Initialize = \<lparr>major_bit_map = 0, bit_map = replicate 16 0\<rparr>"

definition Priority_bit_map_Add ::
  "Priority_bit_map_Control \<Rightarrow> Priority_bit_map_Information \<Rightarrow> Priority_bit_map_Control" where
  "Priority_bit_map_Add bm info =
     (let bm = bm\<lparr>bit_map := (bit_map bm)[minor info := bit_map bm ! minor info OR ready_minor info]\<rparr>
      in bm\<lparr>major_bit_map := major_bit_map bm OR ready_major info\<rparr>)"

definition Priority_bit_map_Remove ::
  "Priority_bit_map_Control \<Rightarrow> Priority_bit_map_Information \<Rightarrow> Priority_bit_map_Control" where
  "Priority_bit_map_Remove bm info =
     (let bm = bm\<lparr>bit_map := (bit_map bm)[minor info := bit_map bm ! minor info AND block_minor info]\<rparr>
      in if bit_map bm ! minor info = 0
         then bm\<lparr>major_bit_map := major_bit_map bm AND block_major info\<rparr> else bm)"

definition Priority_bit_map_Get_highest :: "Priority_bit_map_Control \<Rightarrow> uint32 option" where
  "Priority_bit_map_Get_highest bm =
     (case Bitfield_Find_first_bit (ucast (major_bit_map bm)) of
        None \<Rightarrow> None
      | Some major \<Rightarrow>
          map_option (\<lambda>minor. push_bit 4 (Priority_Bits_index major) + Priority_Bits_index minor)
            (Bitfield_Find_first_bit (ucast (bit_map bm ! unat major))))"

definition Priority_bit_map_Is_empty :: "Priority_bit_map_Control \<Rightarrow> bool" where
  "Priority_bit_map_Is_empty bm \<longleftrightarrow> major_bit_map bm = 0"

definition Priority_bit_map_Initialize_information :: "uint32 \<Rightarrow> Priority_bit_map_Information" where
  "Priority_bit_map_Initialize_information new_priority =
     (let major = Priority_Major new_priority;
          minor = Priority_Minor new_priority;
          mask = Priority_Mask major;
          mask' = Priority_Mask minor
      in \<lparr>minor = unat (Priority_Bits_index major), ready_major = mask, ready_minor = mask',
          block_major = NOT mask, block_minor = NOT mask'\<rparr>)"

section \<open>The two searches for the first bit\<close>

lemma table_length [simp]: "length Bitfield_Leading_zeros = 256"
  by (simp add: Bitfield_Leading_zeros_def)

lemma table_ok: "\<forall>n \<in> set [1..<256]. find (\<lambda>z. bit n (7 - z)) [0..<8] = Some (Bitfield_Leading_zeros ! n)"
  by code_simp

text \<open>\<open>k\<close> is the number of the first bit of \<open>v\<close>, from the most significant one.\<close>

definition first_bit :: "Priority_bit_map_Word \<Rightarrow> nat \<Rightarrow> bool" where
  "first_bit v k \<longleftrightarrow> k < 16 \<and> bit v (15 - k) \<and> (\<forall>j < k. \<not> bit v (15 - j))"

lemma first_bit_unique: "first_bit v k \<Longrightarrow> first_bit v l \<Longrightarrow> k = l"
  by (metis first_bit_def linorder_neqE_nat)

lemma find_upt:
  "find P [0..<n] = Some k \<longleftrightarrow> k < n \<and> P k \<and> (\<forall>j < k. \<not> P j)"
  by (auto simp: find_Some_iff)

lemma first_bit_exists:
  assumes "v \<noteq> 0"
  shows "\<exists>k. first_bit v k"
proof -
  obtain n where n: "n < 16" "bit v n"
    using assms by (auto simp: bit_eq_iff intro: bit_imp_le_length dest: bit_imp_le_length)
  then have "bit v (15 - (15 - n))" by simp
  then have "\<exists>k. bit v (15 - k) \<and> (\<forall>j < k. \<not> bit v (15 - j))"
    by (rule exists_least_iff [THEN iffD1, OF exI])
  then obtain k where k: "bit v (15 - k)" "\<forall>j < k. \<not> bit v (15 - j)" by blast
  have "k \<le> 15 - n" using k(2) \<open>bit v (15 - (15 - n))\<close> by (meson not_le_imp_less)
  then have "k < 16" by simp
  with k show ?thesis unfolding first_bit_def by blast
qed

lemma Find_first_bit_ok:
  assumes "first_bit v k"
  shows "Bitfield_Find_first_bit (ucast v) = Some (of_nat k)"
proof -
  have "builtin_clz (ucast v) = Some (k + 16)"
    unfolding builtin_clz_def find_upt
  proof (intro conjI allI impI)
    show "k + 16 < 32" using assms by (simp add: first_bit_def)
    show "bit (ucast v :: uint32) (31 - (k + 16))"
      using assms by (simp add: first_bit_def bit_ucast_iff)
    fix j assume "j < k + 16"
    show "\<not> bit (ucast v :: uint32) (31 - j)"
    proof (cases "j < 16")
      case True
      have "\<not> bit v (31 - j)"
      proof
        assume "bit v (31 - j)"
        then have "31 - j < 16" using bit_imp_le_length [of v "31 - j"] by simp
        with True show False by simp
      qed
      then show ?thesis by (simp add: bit_ucast_iff)
    next
      case False
      then have e: "31 - j = 15 - (j - 16)" and "j - 16 < k" using \<open>j < k + 16\<close> by auto
      then have "\<not> bit v (15 - (j - 16))" using assms unfolding first_bit_def by blast
      then show ?thesis unfolding e by (auto simp: bit_ucast_iff)
    qed
  qed
  then show ?thesis by (simp add: Bitfield_Find_first_bit_def)
qed

lemma table_first_bit:
  assumes "0 < n" and "n < 256"
  shows "Bitfield_Leading_zeros ! n < 8" "bit n (7 - Bitfield_Leading_zeros ! n)"
    "j < Bitfield_Leading_zeros ! n \<Longrightarrow> \<not> bit n (7 - j)"
proof -
  have "n \<in> set [1..<256]" using assms by simp
  with table_ok have "find (\<lambda>z. bit n (7 - z)) [0..<8] = Some (Bitfield_Leading_zeros ! n)" by blast
  then show "Bitfield_Leading_zeros ! n < 8" "bit n (7 - Bitfield_Leading_zeros ! n)"
    "j < Bitfield_Leading_zeros ! n \<Longrightarrow> \<not> bit n (7 - j)"
    unfolding find_upt by auto
qed

lemma nat_bit_lt: "n < 2 ^ i \<Longrightarrow> i \<le> j \<Longrightarrow> \<not> bit (n :: nat) j"
  by (metis bit_nat_iff bit_take_bit_iff not_le take_bit_nat_eq_self)

lemma table_search_ok:
  assumes "v \<noteq> 0"
  shows "\<exists>k. first_bit v k \<and> Bitfield_Find_first_bit_table (ucast v) = Some (of_nat k)"
proof -
  let ?n = "unat v"
  have b: "bit v i = bit ?n i" for i by (simp add: bit_unsigned_iff bit_imp_le_length)
  have n: "0 < ?n" "?n < 2 ^ 16" using assms unsigned_less [of v] by (simp_all add: unat_gt_0)
  have u: "unat (ucast v :: uint32) = ?n" using n(2) by (simp add: unsigned_ucast_eq take_bit_nat_eq_self)
  show ?thesis
  proof (cases "?n < 256")
    case True
    note T = table_first_bit [OF n(1) True]
    have "first_bit v (Bitfield_Leading_zeros ! ?n + 8)"
      unfolding first_bit_def b
    proof (intro conjI allI impI)
      fix j assume j: "j < Bitfield_Leading_zeros ! ?n + 8"
      show "\<not> bit ?n (15 - j)"
        using T(3) [of "j - 8"] j nat_bit_lt [of ?n 8 "15 - j"] True by (cases "j < 8") auto
    qed (use T in auto)
    moreover have "(ucast v :: uint32) < 0x100" using True u by (simp add: word_less_nat_alt)
    ultimately show ?thesis using u by (auto simp: Bitfield_Find_first_bit_table_def)
  next
    case False
    let ?m = "?n div 256"
    have m: "0 < ?m" "?m < 256" using False n(2) by auto
    note T = table_first_bit [OF m]
    have d: "bit ?m i = bit ?n (i + 8)" for i by (simp add: bit_iff_odd power_add div_mult2_eq [symmetric] mult.commute)
    have "first_bit v (Bitfield_Leading_zeros ! ?m)"
      unfolding first_bit_def b
    proof (intro conjI allI impI)
      show "bit ?n (15 - Bitfield_Leading_zeros ! ?m)"
        using T(1,2) d [of "7 - Bitfield_Leading_zeros ! ?m"] by (simp add: algebra_simps)
      fix j assume j: "j < Bitfield_Leading_zeros ! ?m"
      then show "\<not> bit ?n (15 - j)" using T(1) T(3) [of j] d [of "7 - j"] by simp
    qed (use T in auto)
    moreover have "unat (drop_bit 8 (ucast v :: uint32)) = ?m" using u by (simp add: drop_bit_eq_div unat_div)
    moreover have "\<not> (ucast v :: uint32) < 0x100" using False u by (simp add: word_less_nat_alt)
    ultimately show ?thesis using m by (auto simp: Bitfield_Find_first_bit_table_def)
  qed
qed

lemma searches_equal:
  fixes v :: Priority_bit_map_Word
  assumes "v \<noteq> 0"
  shows "Bitfield_Find_first_bit_table (ucast v) = Bitfield_Find_first_bit (ucast v)"
  using table_search_ok [OF assms] Find_first_bit_ok by auto

section \<open>The bit map as a set\<close>

definition priorities :: "Priority_bit_map_Control \<Rightarrow> nat set" where
  "priorities bm = {p. p < 256 \<and> bit (bit_map bm ! (p div 16)) (15 - p mod 16)}"

definition bit_map_inv :: "Priority_bit_map_Control \<Rightarrow> bool" where
  "bit_map_inv bm \<longleftrightarrow> length (bit_map bm) = 16 \<and> (\<forall>i < 16. bit (major_bit_map bm) (15 - i) \<longleftrightarrow> bit_map bm ! i \<noteq> 0)"

lemma unat32: "n < 2 ^ 32 \<Longrightarrow> unat (of_nat n :: uint32) = n"
  by (simp add: unsigned_of_nat take_bit_nat_eq_self)

lemma Priority_Mask_bit:
  assumes "k < 16"
  shows "bit (Priority_Mask (of_nat k)) i \<longleftrightarrow> i = 15 - k"
proof -
  have "bit (push_bit 15 (1 :: uint32)) j \<longleftrightarrow> j = 15" for j
    unfolding bit_push_bit_iff bit_1_iff by auto
  then have b: "bit (0x8000 :: uint32) j \<longleftrightarrow> j = 15" for j by simp
  have "Priority_Mask (of_nat k) = ucast (drop_bit k (0x8000 :: uint32))"
    using assms by (simp add: Priority_Mask_def unat32)
  then show ?thesis
    using assms b [of "k + i"] by (auto simp: bit_ucast_iff bit_drop_bit_eq)
qed

lemma information_ok:
  assumes "p < 256"
  defines "info \<equiv> Priority_bit_map_Initialize_information (of_nat p)"
  shows "minor info = p div 16" "bit (ready_major info) i \<longleftrightarrow> i = 15 - p div 16"
    "bit (ready_minor info) i \<longleftrightarrow> i = 15 - p mod 16" "block_major info = NOT (ready_major info)"
    "block_minor info = NOT (ready_minor info)"
proof -
  have u: "unat (of_nat p :: uint32) = p" using assms(1) by (simp add: unat32)
  have d: "(of_nat p :: uint32) div 16 = of_nat (p div 16)" "(of_nat p :: uint32) mod 16 = of_nat (p mod 16)"
    using assms(1) u by (simp_all add: word_unat_eq_iff unat_div unat_mod unat32)
  show "minor info = p div 16" "bit (ready_major info) i \<longleftrightarrow> i = 15 - p div 16"
    "bit (ready_minor info) i \<longleftrightarrow> i = 15 - p mod 16" "block_major info = NOT (ready_major info)"
    "block_minor info = NOT (ready_minor info)"
    using assms(1) Priority_Mask_bit [of "p div 16" i] Priority_Mask_bit [of "p mod 16" i]
    by (auto simp: info_def Priority_bit_map_Initialize_information_def Priority_Major_def Priority_Minor_def
        Priority_Bits_index_def d Let_def unat32)
qed

lemma bit_map_Initialize_ok: "bit_map_inv Priority_bit_map_Initialize" "priorities Priority_bit_map_Initialize = {}"
  by (auto simp: bit_map_inv_def priorities_def Priority_bit_map_Initialize_def)

lemma priorities_at:
  assumes "p < 256"
  shows "p \<in> priorities bm \<longleftrightarrow> bit (bit_map bm ! (p div 16)) (15 - p mod 16)"
  using assms by (simp add: priorities_def)

lemma same_slot: "p < 256 \<Longrightarrow> q < 256 \<Longrightarrow> p div 16 = q div 16 \<Longrightarrow> 15 - p mod 16 = 15 - q mod 16 \<Longrightarrow> p = (q :: nat)"
  using div_mult_mod_eq [of p 16] div_mult_mod_eq [of q 16] mod_less_divisor [of 16 p] mod_less_divisor [of 16 q] by linarith

lemma masked_zero:
  fixes a b :: Priority_bit_map_Word
  assumes "a AND NOT b = 0" and "bit a i"
  shows "bit b i"
proof (rule ccontr)
  assume "\<not> bit b i"
  then have "bit (a AND NOT b) i" using assms(2) bit_imp_le_length [OF assms(2)] by (simp add: bit_and_iff bit_not_iff)
  with assms(1) show False by simp
qed

lemma bit_map_Add_ok:
  assumes "bit_map_inv bm" and "p < 256"
  defines "info \<equiv> Priority_bit_map_Initialize_information (of_nat p)"
  shows "bit_map_inv (Priority_bit_map_Add bm info)" "priorities (Priority_bit_map_Add bm info) = insert p (priorities bm)"
proof -
  note I = information_ok [OF assms(2), folded info_def]
  have l: "length (bit_map bm) = 16" "p div 16 < 16" using assms(1,2) by (auto simp: bit_map_inv_def)
  have nz: "bit_map bm ! (p div 16) OR ready_minor info \<noteq> 0"
    using I(3) [of "15 - p mod 16"] by (metis bit_0_eq bit_or_iff bot_apply bot_bool_def)
  show "bit_map_inv (Priority_bit_map_Add bm info)"
    using assms(1) l nz
    by (auto simp: bit_map_inv_def Priority_bit_map_Add_def I(1,2) nth_list_update bit_or_iff)
  show "priorities (Priority_bit_map_Add bm info) = insert p (priorities bm)"
  proof (intro set_eqI)
    fix q show "q \<in> priorities (Priority_bit_map_Add bm info) \<longleftrightarrow> q \<in> insert p (priorities bm)"
      using l same_slot [of p q] assms(2)
      by (auto simp: priorities_def Priority_bit_map_Add_def I(1,3) nth_list_update bit_or_iff)
  qed
qed

lemma bit_map_Remove_ok:
  assumes "bit_map_inv bm" and "p < 256"
  defines "info \<equiv> Priority_bit_map_Initialize_information (of_nat p)"
  shows "bit_map_inv (Priority_bit_map_Remove bm info)" "priorities (Priority_bit_map_Remove bm info) = priorities bm - {p}"
proof -
  note I = information_ok [OF assms(2), folded info_def]
  have l: "length (bit_map bm) = 16" "p div 16 < 16" using assms(1,2) by (auto simp: bit_map_inv_def)
  have e: "i = p div 16" if "i < 16" "15 - i = 15 - p div 16" for i using that l(2) by simp
  have nz: "bit_map bm ! (p div 16) \<noteq> 0" if "bit_map bm ! (p div 16) AND NOT (ready_minor info) \<noteq> 0"
    using that by auto
  show "bit_map_inv (Priority_bit_map_Remove bm info)"
    using assms(1) l e nz
    by (auto simp: bit_map_inv_def Priority_bit_map_Remove_def I(1,2,4,5) nth_list_update bit_and_iff bit_not_iff Let_def)
  show "priorities (Priority_bit_map_Remove bm info) = priorities bm - {p}"
  proof (intro set_eqI)
    fix q show "q \<in> priorities (Priority_bit_map_Remove bm info) \<longleftrightarrow> q \<in> priorities bm - {p}"
      using l same_slot [of p q] assms(2) masked_zero [of "bit_map bm ! (q div 16)" "ready_minor info" "15 - q mod 16"]
      by (auto simp: priorities_def Priority_bit_map_Remove_def I(1,3,5) nth_list_update bit_and_iff bit_not_iff Let_def)
  qed
qed

lemma bit_map_Is_empty_ok:
  assumes "bit_map_inv bm"
  shows "Priority_bit_map_Is_empty bm \<longleftrightarrow> priorities bm = {}"
proof
  assume "Priority_bit_map_Is_empty bm"
  then have "bit_map bm ! i = 0" if "i < 16" for i using assms that by (simp add: bit_map_inv_def Priority_bit_map_Is_empty_def)
  then show "priorities bm = {}" by (auto simp: priorities_def)
next
  assume e: "priorities bm = {}"
  show "Priority_bit_map_Is_empty bm"
  proof (rule ccontr)
    assume "\<not> ?thesis"
    then obtain k where k: "k < 16" "bit_map bm ! k \<noteq> 0"
      using first_bit_exists [of "major_bit_map bm"] assms
      by (auto simp: Priority_bit_map_Is_empty_def first_bit_def bit_map_inv_def)
    then obtain l where "first_bit (bit_map bm ! k) l" using first_bit_exists by blast
    then have "16 * k + l \<in> priorities bm" using k by (simp add: priorities_def first_bit_def)
    with e show False by simp
  qed
qed

lemma bit_map_Get_highest_ok:
  assumes "bit_map_inv bm" and "priorities bm \<noteq> {}"
  shows "Priority_bit_map_Get_highest bm = Some (of_nat (Min (priorities bm)))" (is ?h)
    and "Min (priorities bm) < 256"
proof -
  obtain k where k: "first_bit (major_bit_map bm) k"
    using first_bit_exists [of "major_bit_map bm"] bit_map_Is_empty_ok [OF assms(1)] assms(2)
    by (auto simp: Priority_bit_map_Is_empty_def)
  then have kk: "k < 16" "bit_map bm ! k \<noteq> 0" "\<And>i. i < k \<Longrightarrow> bit_map bm ! i = 0"
    using assms(1) by (auto simp: first_bit_def bit_map_inv_def)
  obtain l where l: "first_bit (bit_map bm ! k) l" using first_bit_exists kk(2) by blast
  have m: "16 * k + l \<in> priorities bm" using kk(1) l by (simp add: priorities_def first_bit_def)
  have le: "16 * k + l \<le> q" if q: "q \<in> priorities bm" for q
  proof -
    have "\<not> q div 16 < k" using kk(3) [of "q div 16"] q by (auto simp: priorities_def)
    moreover have "\<not> q mod 16 < l" if "q div 16 = k" using l q that by (auto simp: priorities_def first_bit_def)
    moreover have "q = 16 * (q div 16) + q mod 16" by simp
    moreover have "l < 16" using l by (simp add: first_bit_def)
    ultimately show ?thesis by (cases "q div 16 = k") linarith+
  qed
  have fin: "finite (priorities bm)" by (simp add: priorities_def)
  have M: "Min (priorities bm) = 16 * k + l" using m le fin by (intro Min_eqI) auto
  have "unat (of_nat k :: uint32) = k" using kk(1) by (simp add: unat32)
  then have "Priority_bit_map_Get_highest bm = Some (push_bit 4 (of_nat k) + of_nat l)"
    using Find_first_bit_ok [OF k] Find_first_bit_ok [OF l]
    by (simp add: Priority_bit_map_Get_highest_def Priority_Bits_index_def)
  then show ?h unfolding M by (simp add: push_bit_eq_mult)
  show "Min (priorities bm) < 256" using m M by (simp add: priorities_def)
qed

section \<open>Sequences of operations\<close>

datatype bit_map_operation = Add nat | Remove nat

fun operation_priority :: "bit_map_operation \<Rightarrow> nat" where
  "operation_priority (Add p) = p"
| "operation_priority (Remove p) = p"

fun bit_map_step :: "bit_map_operation \<Rightarrow> Priority_bit_map_Control \<Rightarrow> Priority_bit_map_Control" where
  "bit_map_step (Add p) bm = Priority_bit_map_Add bm (Priority_bit_map_Initialize_information (of_nat p))"
| "bit_map_step (Remove p) bm = Priority_bit_map_Remove bm (Priority_bit_map_Initialize_information (of_nat p))"

fun set_step :: "bit_map_operation \<Rightarrow> nat set \<Rightarrow> nat set" where
  "set_step (Add p) S = insert p S"
| "set_step (Remove p) S = S - {p}"

lemma bit_map_steps:
  assumes "bit_map_inv bm" and "list_all (\<lambda>f. operation_priority f < 256) fs"
  shows "bit_map_inv (fold bit_map_step fs bm) \<and> priorities (fold bit_map_step fs bm) = fold set_step fs (priorities bm)"
  using assms
proof (induction fs arbitrary: bm)
  case (Cons f fs)
  have "bit_map_inv (bit_map_step f bm) \<and> priorities (bit_map_step f bm) = set_step f (priorities bm)"
    using Cons.prems bit_map_Add_ok bit_map_Remove_ok by (cases f) auto
  then show ?case using Cons by auto
qed simp

text \<open>
  C15. The priority bit map is a set of priorities and its search is the minimum: after any
  sequence of additions and removals of priorities below 256 on an initialised map, the map is
  empty exactly if the set of the priorities added and not removed is empty, and otherwise
  \<open>_Priority_bit_map_Get_highest\<close> returns the least element of the set (the most important
  priority). The search with the count of leading zeros and the search with the table
  \<open>_Bitfield_Leading_zeros\<close> agree on every word in which they have to search.
\<close>

theorem Priority_bit_map_is_set:
  assumes "list_all (\<lambda>f. operation_priority f < 256) fs"
  shows "let bm = fold bit_map_step fs Priority_bit_map_Initialize; S = fold set_step fs {} in
     (Priority_bit_map_Is_empty bm \<longleftrightarrow> S = {})
     \<and> (S \<noteq> {} \<longrightarrow> Priority_bit_map_Get_highest bm = Some (of_nat (Min S)))
     \<and> (\<forall>w \<in> set (major_bit_map bm # bit_map bm).
          w \<noteq> 0 \<longrightarrow> Bitfield_Find_first_bit_table (ucast w) = Bitfield_Find_first_bit (ucast w))"
  using bit_map_steps [OF bit_map_Initialize_ok(1) assms] bit_map_Initialize_ok(2)
    bit_map_Is_empty_ok bit_map_Get_highest_ok(1) searches_equal
  by (simp add: Let_def)

theorem Priority_bit_map_is_set_witness:
  "Priority_bit_map_Get_highest (fold bit_map_step [Add 200, Add 17, Add 5, Remove 5] Priority_bit_map_Initialize) = Some 17"
proof -
  have "Min {17, 200 :: nat} = 17" by simp
  moreover have "insert 5 (insert 17 {200 :: nat}) - {5} = {17, 200}" by auto
  ultimately show ?thesis
    using Priority_bit_map_is_set [of "[Add 200, Add 17, Add 5, Remove 5]"] by (simp add: Let_def)
qed

end
