(* ===== verification/Scheduler.thy ===== *)
theory Scheduler
  imports Thread_Queue Priority_Bits
begin

text \<open>
  The uniprocessor schedulers: the common operations
  (\<^verbatim>\<open>cpukit/include/rtems/score/scheduleruniimpl.h\<close>), the deterministic priority scheduler
  (\<^verbatim>\<open>schedulerpriority*.c\<close>, \<^verbatim>\<open>schedulerpriorityimpl.h\<close>), the simple priority scheduler
  (\<^verbatim>\<open>schedulersimple*.c\<close>, \<^verbatim>\<open>schedulersimpleimpl.h\<close>), and what calls them: the changes of the
  state and of the priority of a thread, the start of a thread, the yield and the preemption
  mode. Threads are addresses; a thread has one scheduler node, and the chain node of a thread is
  at the address of the thread. \<open>None\<close> is undefined behaviour: the search of the first bit of 0.
  The tree of the priorities that contribute to a thread is its sequence in order.
\<close>

section \<open>Definitions\<close>

subsection \<open>Threads and the processor\<close>

type_synonym Priority_Control = ulong

record sched_thread =
  node_priority :: Priority_Control
  thread_priority :: Priority_Control
  contributors :: "(nat \<times> Priority_Control) list"
  is_preemptible :: bool
  Start_is_preemptible :: bool
  sched_state :: uint32
  cpu_time_used :: ulong

record processor =
  sched_threads :: "nat \<Rightarrow> sched_thread"
  Thread_Heir :: nat
  Thread_Dispatch_necessary :: bool
  cpu_usage_timestamp :: ulong
  uptime :: ulong

abbreviation upd_thread :: "nat \<Rightarrow> (sched_thread \<Rightarrow> sched_thread) \<Rightarrow> 'a processor_scheme \<Rightarrow> 'a processor_scheme" where
  "upd_thread t f s \<equiv> s\<lparr>sched_threads := (sched_threads s)(t := f (sched_threads s t))\<rparr>"

definition SCHEDULER_PRIORITY_MAP :: "Priority_Control \<Rightarrow> Priority_Control" where
  "SCHEDULER_PRIORITY_MAP p = push_bit 1 p"

definition SCHEDULER_PRIORITY_UNMAP :: "'w::len word \<Rightarrow> 'w word" where
  "SCHEDULER_PRIORITY_UNMAP p = drop_bit 1 p"

datatype Priority_Group_order = PRIORITY_GROUP_FIRST | PRIORITY_GROUP_LAST

fun group_order_bit :: "Priority_Group_order \<Rightarrow> 'w::len word" where
  "group_order_bit PRIORITY_GROUP_FIRST = 0"
| "group_order_bit PRIORITY_GROUP_LAST = 1"

definition SCHEDULER_PRIORITY_APPEND :: "uint32 \<Rightarrow> uint32" where
  "SCHEDULER_PRIORITY_APPEND p = p OR 1"

definition SCHEDULER_PRIORITY_IS_APPEND :: "uint32 \<Rightarrow> bool" where
  "SCHEDULER_PRIORITY_IS_APPEND p \<longleftrightarrow> p AND 1 \<noteq> 0"

definition Thread_Get_priority :: "nat \<Rightarrow> 'a processor_scheme \<Rightarrow> Priority_Control" where
  "Thread_Get_priority t s = thread_priority (sched_threads s t)"

definition Thread_Is_ready :: "nat \<Rightarrow> 'a processor_scheme \<Rightarrow> bool" where
  "Thread_Is_ready t s \<longleftrightarrow> sched_state (sched_threads s t) = 0"

definition Thread_Update_CPU_time_used :: "nat \<Rightarrow> 'a processor_scheme \<Rightarrow> 'a processor_scheme" where
  "Thread_Update_CPU_time_used t s =
     (let last = cpu_usage_timestamp s;
          s = s\<lparr>cpu_usage_timestamp := uptime s\<rparr>;
          ran = cpu_usage_timestamp s - last
      in upd_thread t (\<lambda>th. th\<lparr>cpu_time_used := cpu_time_used th + ran\<rparr>) s)"

subsection \<open>The common operations\<close>

definition Scheduler_uniprocessor_Update_heir :: "nat \<Rightarrow> nat \<Rightarrow> 'a processor_scheme \<Rightarrow> 'a processor_scheme" where
  "Scheduler_uniprocessor_Update_heir heir new_heir s =
     (let s = Thread_Update_CPU_time_used heir s
      in s\<lparr>Thread_Heir := new_heir, Thread_Dispatch_necessary := True\<rparr>)"

definition Scheduler_uniprocessor_Update_heir_if_necessary :: "nat \<Rightarrow> 'a processor_scheme \<Rightarrow> 'a processor_scheme" where
  "Scheduler_uniprocessor_Update_heir_if_necessary new_heir s =
     (let heir = Thread_Heir s
      in if heir \<noteq> new_heir then Scheduler_uniprocessor_Update_heir heir new_heir s else s)"

definition Scheduler_uniprocessor_Update_heir_if_preemptible ::
  "nat \<Rightarrow> nat \<Rightarrow> 'a processor_scheme \<Rightarrow> 'a processor_scheme" where
  "Scheduler_uniprocessor_Update_heir_if_preemptible heir new_heir s =
     (if heir \<noteq> new_heir \<and> is_preemptible (sched_threads s heir)
      then Scheduler_uniprocessor_Update_heir heir new_heir s else s)"

definition Scheduler_uniprocessor_Block ::
  "(nat \<Rightarrow> 'a processor_scheme \<Rightarrow> 'a processor_scheme) \<Rightarrow> ('a processor_scheme \<Rightarrow> nat option) \<Rightarrow> nat
    \<Rightarrow> 'a processor_scheme \<Rightarrow> 'a processor_scheme option" where
  "Scheduler_uniprocessor_Block extract_node get_highest_ready t s =
     (let s = extract_node t s
      in if t = Thread_Heir s
         then do {
           highest_ready \<leftarrow> get_highest_ready s;
           Some (Scheduler_uniprocessor_Update_heir (Thread_Heir s) highest_ready s)
         }
         else Some s)"

definition Scheduler_uniprocessor_Unblock ::
  "nat \<Rightarrow> Priority_Control \<Rightarrow> 'a processor_scheme \<Rightarrow> 'a processor_scheme" where
  "Scheduler_uniprocessor_Unblock t priority s =
     (let heir = Thread_Heir s
      in if priority < Thread_Get_priority heir s
         then Scheduler_uniprocessor_Update_heir_if_preemptible heir t s else s)"

definition Scheduler_uniprocessor_Schedule ::
  "('a processor_scheme \<Rightarrow> nat option) \<Rightarrow> 'a processor_scheme \<Rightarrow> 'a processor_scheme option" where
  "Scheduler_uniprocessor_Schedule get_highest_ready s = do {
     highest_ready \<leftarrow> get_highest_ready s;
     Some (Scheduler_uniprocessor_Update_heir_if_preemptible (Thread_Heir s) highest_ready s)
   }"

definition Scheduler_uniprocessor_Yield ::
  "('a processor_scheme \<Rightarrow> nat option) \<Rightarrow> 'a processor_scheme \<Rightarrow> 'a processor_scheme option" where
  "Scheduler_uniprocessor_Yield get_highest_ready s = do {
     highest_ready \<leftarrow> get_highest_ready s;
     Some (Scheduler_uniprocessor_Update_heir_if_necessary highest_ready s)
   }"

definition Scheduler_Node_do_initialize :: "nat \<Rightarrow> Priority_Control \<Rightarrow> 'a processor_scheme \<Rightarrow> 'a processor_scheme" where
  "Scheduler_Node_do_initialize t priority = upd_thread t (\<lambda>th. th\<lparr>node_priority := priority\<rparr>)"

definition Scheduler_Node_get_priority :: "nat \<Rightarrow> 'a processor_scheme \<Rightarrow> Priority_Control" where
  "Scheduler_Node_get_priority t s = node_priority (sched_threads s t)"

definition Scheduler_Node_set_priority ::
  "nat \<Rightarrow> Priority_Control \<Rightarrow> Priority_Group_order \<Rightarrow> 'a processor_scheme \<Rightarrow> 'a processor_scheme" where
  "Scheduler_Node_set_priority t new_priority group_order =
     upd_thread t (\<lambda>th. th\<lparr>node_priority := new_priority OR group_order_bit group_order\<rparr>)"

text \<open>The entry points of a scheduler.\<close>

record 's scheduler_operations =
  op_schedule :: "nat \<Rightarrow> 's \<Rightarrow> 's option"
  op_yield :: "nat \<Rightarrow> 's \<Rightarrow> 's option"
  op_block :: "nat \<Rightarrow> 's \<Rightarrow> 's option"
  op_unblock :: "nat \<Rightarrow> 's \<Rightarrow> 's option"
  op_update_priority :: "nat \<Rightarrow> 's \<Rightarrow> 's option"
  op_node_initialize :: "nat \<Rightarrow> Priority_Control \<Rightarrow> 's \<Rightarrow> 's"

subsection \<open>The deterministic priority scheduler\<close>

record Scheduler_priority_Ready_queue =
  current_priority :: uint32
  ready_chain :: nat
  Priority_map :: Priority_bit_map_Information

text \<open>\<open>Ready\<close> is the address of the array of the ready chains, of 24 bytes each.\<close>

record priority_context = processor +
  ready_links :: chain_mem
  Ready :: nat
  Bit_map :: Priority_bit_map_Control
  Ready_queue :: "nat \<Rightarrow> Scheduler_priority_Ready_queue"

definition Ready_at :: "nat \<Rightarrow> nat \<Rightarrow> nat" where "Ready_at ready_queues i = ready_queues + 24 * i"

definition Scheduler_priority_Ready_queue_initialize :: "nat \<Rightarrow> nat \<Rightarrow> chain_mem \<Rightarrow> chain_mem" where
  "Scheduler_priority_Ready_queue_initialize ready_queues maximum_priority =
     fold (\<lambda>i. Chain_Initialize_empty (Ready_at ready_queues i)) [0..<Suc maximum_priority]"

definition Scheduler_priority_Initialize :: "nat \<Rightarrow> priority_context \<Rightarrow> priority_context" where
  "Scheduler_priority_Initialize maximum_priority s =
     (let s = s\<lparr>Bit_map := Priority_bit_map_Initialize\<rparr>
      in s\<lparr>ready_links := Scheduler_priority_Ready_queue_initialize (Ready s) maximum_priority (ready_links s)\<rparr>)"

definition Scheduler_priority_Ready_queue_enqueue :: "nat \<Rightarrow> priority_context \<Rightarrow> priority_context" where
  "Scheduler_priority_Ready_queue_enqueue t s =
     (let ready_chain = ready_chain (Ready_queue s t);
          s = s\<lparr>ready_links := Chain_Append_unprotected ready_chain t (ready_links s)\<rparr>
      in s\<lparr>Bit_map := Priority_bit_map_Add (Bit_map s) (Priority_map (Ready_queue s t))\<rparr>)"

definition Scheduler_priority_Ready_queue_enqueue_first :: "nat \<Rightarrow> priority_context \<Rightarrow> priority_context" where
  "Scheduler_priority_Ready_queue_enqueue_first t s =
     (let ready_chain = ready_chain (Ready_queue s t);
          s = s\<lparr>ready_links := Chain_Prepend_unprotected ready_chain t (ready_links s)\<rparr>
      in s\<lparr>Bit_map := Priority_bit_map_Add (Bit_map s) (Priority_map (Ready_queue s t))\<rparr>)"

definition Scheduler_priority_Ready_queue_extract :: "nat \<Rightarrow> priority_context \<Rightarrow> priority_context" where
  "Scheduler_priority_Ready_queue_extract t s =
     (let ready_chain = ready_chain (Ready_queue s t)
      in if Chain_Has_only_one_node ready_chain (ready_links s)
         then (let s = s\<lparr>ready_links := Chain_Initialize_empty ready_chain (ready_links s)\<rparr>
               in s\<lparr>Bit_map := Priority_bit_map_Remove (Bit_map s) (Priority_map (Ready_queue s t))\<rparr>)
         else s\<lparr>ready_links := Chain_Extract_unprotected t (ready_links s)\<rparr>)"

definition Scheduler_priority_Get_highest_ready :: "priority_context \<Rightarrow> nat option" where
  "Scheduler_priority_Get_highest_ready s =
     map_option (\<lambda>index. Chain_First (Ready_at (Ready s) (unat index)) (ready_links s))
       (Priority_bit_map_Get_highest (Bit_map s))"

definition Scheduler_priority_Ready_queue_update :: "nat \<Rightarrow> uint32 \<Rightarrow> priority_context \<Rightarrow> priority_context" where
  "Scheduler_priority_Ready_queue_update t new_priority s =
     s\<lparr>Ready_queue := (Ready_queue s)(t := \<lparr>current_priority = new_priority,
        ready_chain = Ready_at (Ready s) (unat new_priority),
        Priority_map = Priority_bit_map_Initialize_information new_priority\<rparr>)\<rparr>"

definition Scheduler_priority_Node_initialize :: "nat \<Rightarrow> Priority_Control \<Rightarrow> priority_context \<Rightarrow> priority_context" where
  "Scheduler_priority_Node_initialize t priority s =
     (let s = Scheduler_Node_do_initialize t priority s
      in Scheduler_priority_Ready_queue_update t (ucast (SCHEDULER_PRIORITY_UNMAP priority)) s)"

definition Scheduler_priority_Block :: "nat \<Rightarrow> priority_context \<Rightarrow> priority_context option" where
  "Scheduler_priority_Block =
     Scheduler_uniprocessor_Block Scheduler_priority_Ready_queue_extract Scheduler_priority_Get_highest_ready"

definition Scheduler_priority_Update_priority :: "nat \<Rightarrow> priority_context \<Rightarrow> priority_context option" where
  "Scheduler_priority_Update_priority t s =
     (if \<not> Thread_Is_ready t s then Some s
      else let new_priority = ucast (Scheduler_Node_get_priority t s) :: uint32;
               unmapped_priority = SCHEDULER_PRIORITY_UNMAP new_priority
           in if unmapped_priority = current_priority (Ready_queue s t) then Some s
              else let s = Scheduler_priority_Ready_queue_extract t s;
                       s = Scheduler_priority_Ready_queue_update t unmapped_priority s;
                       s = (if SCHEDULER_PRIORITY_IS_APPEND new_priority
                            then Scheduler_priority_Ready_queue_enqueue t s
                            else Scheduler_priority_Ready_queue_enqueue_first t s)
                   in Scheduler_uniprocessor_Schedule Scheduler_priority_Get_highest_ready s)"

definition Scheduler_priority_Schedule :: "nat \<Rightarrow> priority_context \<Rightarrow> priority_context option" where
  "Scheduler_priority_Schedule t = Scheduler_uniprocessor_Schedule Scheduler_priority_Get_highest_ready"

definition Scheduler_priority_Unblock :: "nat \<Rightarrow> priority_context \<Rightarrow> priority_context option" where
  "Scheduler_priority_Unblock t s =
     (let priority = ucast (Scheduler_Node_get_priority t s) :: uint32;
          unmapped_priority = SCHEDULER_PRIORITY_UNMAP priority;
          s = (if unmapped_priority \<noteq> current_priority (Ready_queue s t)
               then Scheduler_priority_Ready_queue_update t unmapped_priority s else s);
          s = Scheduler_priority_Ready_queue_enqueue t s
      in Some (Scheduler_uniprocessor_Unblock t (ucast priority) s))"

definition Scheduler_priority_Yield :: "nat \<Rightarrow> priority_context \<Rightarrow> priority_context option" where
  "Scheduler_priority_Yield t s =
     (let ready_chain = ready_chain (Ready_queue s t);
          s = (if \<not> Chain_Has_only_one_node ready_chain (ready_links s)
               then s\<lparr>ready_links := Chain_Append_unprotected ready_chain t (Chain_Extract_unprotected t (ready_links s))\<rparr>
               else s)
      in Scheduler_uniprocessor_Yield Scheduler_priority_Get_highest_ready s)"

definition SCHEDULER_PRIORITY_ENTRY_POINTS :: "priority_context scheduler_operations" where
  "SCHEDULER_PRIORITY_ENTRY_POINTS =
     \<lparr>op_schedule = Scheduler_priority_Schedule, op_yield = Scheduler_priority_Yield,
      op_block = Scheduler_priority_Block, op_unblock = Scheduler_priority_Unblock,
      op_update_priority = Scheduler_priority_Update_priority,
      op_node_initialize = Scheduler_priority_Node_initialize\<rparr>"

subsection \<open>The simple priority scheduler\<close>

record simple_context = processor +
  simple_links :: chain_mem
  simple_Ready :: nat

definition Scheduler_simple_Initialize :: "simple_context \<Rightarrow> simple_context" where
  "Scheduler_simple_Initialize s = s\<lparr>simple_links := Chain_Initialize_empty (simple_Ready s) (simple_links s)\<rparr>"

definition Scheduler_simple_Priority_less_equal :: "simple_context \<Rightarrow> uint32 \<Rightarrow> nat \<Rightarrow> bool" where
  "Scheduler_simple_Priority_less_equal s priority_to_insert thread_next \<longleftrightarrow>
     ucast priority_to_insert \<le> Thread_Get_priority thread_next s"

definition Scheduler_simple_Insert :: "nat \<Rightarrow> uint32 \<Rightarrow> simple_context \<Rightarrow> simple_context option" where
  "Scheduler_simple_Insert to_insert insert_priority s =
     map_option (\<lambda>m. s\<lparr>simple_links := m\<rparr>)
       (Chain_Insert_ordered_unprotected (simple_Ready s) to_insert
         (Scheduler_simple_Priority_less_equal s insert_priority) (simple_links s))"

definition Scheduler_simple_Extract :: "nat \<Rightarrow> simple_context \<Rightarrow> simple_context" where
  "Scheduler_simple_Extract t s = s\<lparr>simple_links := Chain_Extract_unprotected t (simple_links s)\<rparr>"

definition Scheduler_simple_Get_highest_ready :: "simple_context \<Rightarrow> nat option" where
  "Scheduler_simple_Get_highest_ready s = Some (Chain_First (simple_Ready s) (simple_links s))"

definition Scheduler_simple_Block :: "nat \<Rightarrow> simple_context \<Rightarrow> simple_context option" where
  "Scheduler_simple_Block =
     Scheduler_uniprocessor_Block Scheduler_simple_Extract Scheduler_simple_Get_highest_ready"

definition Scheduler_simple_Update_priority :: "nat \<Rightarrow> simple_context \<Rightarrow> simple_context option" where
  "Scheduler_simple_Update_priority t s =
     (if \<not> Thread_Is_ready t s then Some s
      else do {
        let new_priority = ucast (Scheduler_Node_get_priority t s);
        let s = Scheduler_simple_Extract t s;
        s \<leftarrow> Scheduler_simple_Insert t new_priority s;
        Scheduler_uniprocessor_Schedule Scheduler_simple_Get_highest_ready s
      })"

definition Scheduler_simple_Schedule :: "nat \<Rightarrow> simple_context \<Rightarrow> simple_context option" where
  "Scheduler_simple_Schedule t = Scheduler_uniprocessor_Schedule Scheduler_simple_Get_highest_ready"

definition Scheduler_simple_Unblock :: "nat \<Rightarrow> simple_context \<Rightarrow> simple_context option" where
  "Scheduler_simple_Unblock t s = do {
     let priority = (ucast (Thread_Get_priority t s) :: uint32);
     let insert_priority = SCHEDULER_PRIORITY_APPEND priority;
     s \<leftarrow> Scheduler_simple_Insert t insert_priority s;
     Some (Scheduler_uniprocessor_Unblock t (ucast priority) s)
   }"

definition Scheduler_simple_Yield :: "nat \<Rightarrow> simple_context \<Rightarrow> simple_context option" where
  "Scheduler_simple_Yield t s = do {
     let s = s\<lparr>simple_links := Chain_Extract_unprotected t (simple_links s)\<rparr>;
     let insert_priority = ucast (Thread_Get_priority t s);
     let insert_priority = SCHEDULER_PRIORITY_APPEND insert_priority;
     s \<leftarrow> Scheduler_simple_Insert t insert_priority s;
     Scheduler_uniprocessor_Yield Scheduler_simple_Get_highest_ready s
   }"

definition SCHEDULER_SIMPLE_ENTRY_POINTS :: "simple_context scheduler_operations" where
  "SCHEDULER_SIMPLE_ENTRY_POINTS =
     \<lparr>op_schedule = Scheduler_simple_Schedule, op_yield = Scheduler_simple_Yield,
      op_block = Scheduler_simple_Block, op_unblock = Scheduler_simple_Unblock,
      op_update_priority = Scheduler_simple_Update_priority,
      op_node_initialize = Scheduler_Node_do_initialize\<rparr>"

subsection \<open>Priorities of a thread\<close>

text \<open>\<open>_Priority_Plain_insert\<close>: behind the nodes of at most this priority; the result tells whether the node is the first now.\<close>

definition Priority_Plain_insert :: "nat \<Rightarrow> Priority_Control \<Rightarrow> (nat \<times> Priority_Control) list \<Rightarrow> bool \<times> (nat \<times> Priority_Control) list" where
  "Priority_Plain_insert node priority ns =
     (let front = takeWhile (\<lambda>(n, p). \<not> priority < p) ns
      in (front = [], front @ (node, priority) # dropWhile (\<lambda>(n, p). \<not> priority < p) ns))"

definition Priority_Plain_extract :: "nat \<Rightarrow> (nat \<times> Priority_Control) list \<Rightarrow> (nat \<times> Priority_Control) list" where
  "Priority_Plain_extract node ns = filter (\<lambda>(n, p). n \<noteq> node) ns"

definition Thread_Set_scheduler_node_priority ::
  "nat \<Rightarrow> Priority_Group_order \<Rightarrow> 'a processor_scheme \<Rightarrow> 'a processor_scheme" where
  "Thread_Set_scheduler_node_priority t group_order s =
     Scheduler_Node_set_priority t (thread_priority (sched_threads s t)) group_order s"

text \<open>
  Each of the following returns whether the priority of the aggregation changed, that is, whether
  \<open>_Thread_Priority_action_change\<close> was called, together with the state.
\<close>

definition Priority_Non_empty_insert ::
  "nat \<Rightarrow> nat \<Rightarrow> Priority_Control \<Rightarrow> 'a processor_scheme \<Rightarrow> bool \<times> 'a processor_scheme" where
  "Priority_Non_empty_insert t node priority s =
     (let (is_new_minimum, ns) = Priority_Plain_insert node priority (contributors (sched_threads s t));
          s = upd_thread t (\<lambda>th. th\<lparr>contributors := ns\<rparr>) s
      in if is_new_minimum
         then (True, Thread_Set_scheduler_node_priority t PRIORITY_GROUP_LAST
                (upd_thread t (\<lambda>th. th\<lparr>thread_priority := priority\<rparr>) s))
         else (False, s))"

definition Priority_Extract_non_empty ::
  "nat \<Rightarrow> nat \<Rightarrow> Priority_Control \<Rightarrow> 'a processor_scheme \<Rightarrow> bool \<times> 'a processor_scheme" where
  "Priority_Extract_non_empty t node priority s =
     (let ns = Priority_Plain_extract node (contributors (sched_threads s t));
          s = upd_thread t (\<lambda>th. th\<lparr>contributors := ns\<rparr>) s;
          min_priority = snd (hd ns)
      in if priority < min_priority
         then (True, Thread_Set_scheduler_node_priority t PRIORITY_GROUP_FIRST
                (upd_thread t (\<lambda>th. th\<lparr>thread_priority := min_priority\<rparr>) s))
         else (False, s))"

definition Priority_Changed ::
  "nat \<Rightarrow> nat \<Rightarrow> Priority_Control \<Rightarrow> Priority_Group_order \<Rightarrow> 'a processor_scheme \<Rightarrow> bool \<times> 'a processor_scheme" where
  "Priority_Changed t node priority group_order s =
     (let ns = snd (Priority_Plain_insert node priority (Priority_Plain_extract node (contributors (sched_threads s t))));
          s = upd_thread t (\<lambda>th. th\<lparr>contributors := ns\<rparr>) s;
          min_priority = snd (hd ns)
      in if min_priority \<noteq> thread_priority (sched_threads s t)
         then (True, Thread_Set_scheduler_node_priority t group_order
                (upd_thread t (\<lambda>th. th\<lparr>thread_priority := min_priority\<rparr>) s))
         else (False, s))"

datatype Priority_Action_type = PRIORITY_ACTION_ADD | PRIORITY_ACTION_CHANGE | PRIORITY_ACTION_REMOVE

text \<open>
  \<open>_Thread_Priority_do_perform_actions\<close> of a uniprocessor, for a thread that does not wait on a
  queue whose operations pass priorities on; the thread is put on the list for the update if its
  priority changed.
\<close>

definition Thread_Priority_do_perform_actions ::
  "nat \<Rightarrow> nat \<Rightarrow> Priority_Control \<Rightarrow> Priority_Action_type \<Rightarrow> Priority_Group_order \<Rightarrow> 'a processor_scheme
    \<Rightarrow> nat list \<times> 'a processor_scheme" where
  "Thread_Priority_do_perform_actions t node priority action_type group_order s =
     (let (changed, s) =
            (case action_type of
               PRIORITY_ACTION_ADD \<Rightarrow> Priority_Non_empty_insert t node priority s
             | PRIORITY_ACTION_REMOVE \<Rightarrow> Priority_Extract_non_empty t node priority s
             | PRIORITY_ACTION_CHANGE \<Rightarrow> Priority_Changed t node priority group_order s)
      in (if changed then [t] else [], s))"

fun Thread_Priority_update ::
  "'a processor_scheme scheduler_operations \<Rightarrow> nat list \<Rightarrow> 'a processor_scheme \<Rightarrow> 'a processor_scheme option" where
  "Thread_Priority_update ops [] s = Some s"
| "Thread_Priority_update ops (t # ts) s = do {
     s \<leftarrow> op_update_priority ops t s;
     Thread_Priority_update ops ts s
   }"

subsection \<open>Threads\<close>

definition STATES_DORMANT :: uint32 where "STATES_DORMANT = 0x80000000"
definition STATES_ALL_SET :: uint32 where "STATES_ALL_SET = 0xffffffff"

text \<open>\<open>_Thread_Initialize_scheduler_and_wait_nodes\<close> and the initial state of \<open>_Thread_Try_initialize\<close>; the real priority of a thread is the contributor 0.\<close>

definition Thread_Initialize_scheduler_and_wait_nodes ::
  "'a processor_scheme scheduler_operations \<Rightarrow> nat \<Rightarrow> Priority_Control \<Rightarrow> 'a processor_scheme \<Rightarrow> 'a processor_scheme" where
  "Thread_Initialize_scheduler_and_wait_nodes ops t priority s =
     (let s = op_node_initialize ops t priority s
      in upd_thread t (\<lambda>th. th\<lparr>thread_priority := priority, contributors := [(0, priority)]\<rparr>) s)"

definition Thread_Try_initialize ::
  "'a processor_scheme scheduler_operations \<Rightarrow> nat \<Rightarrow> Priority_Control \<Rightarrow> bool \<Rightarrow> 'a processor_scheme \<Rightarrow> 'a processor_scheme" where
  "Thread_Try_initialize ops t priority preemptible s =
     (let s = upd_thread t (\<lambda>th. th\<lparr>is_preemptible := False, cpu_time_used := 0\<rparr>) s;
          s = upd_thread t (\<lambda>th. th\<lparr>Start_is_preemptible := preemptible\<rparr>) s;
          s = Thread_Initialize_scheduler_and_wait_nodes ops t priority s
      in upd_thread t (\<lambda>th. th\<lparr>sched_state := STATES_DORMANT\<rparr>) s)"

definition Thread_Load_environment :: "nat \<Rightarrow> 'a processor_scheme \<Rightarrow> 'a processor_scheme" where
  "Thread_Load_environment t = upd_thread t (\<lambda>th. th\<lparr>is_preemptible := Start_is_preemptible th\<rparr>)"

definition Thread_Set_state_locked ::
  "'a processor_scheme scheduler_operations \<Rightarrow> nat \<Rightarrow> uint32 \<Rightarrow> 'a processor_scheme \<Rightarrow> 'a processor_scheme option" where
  "Thread_Set_state_locked ops t state s =
     (let previous_state = sched_state (sched_threads s t);
          next_state = States_Set state previous_state;
          s = upd_thread t (\<lambda>th. th\<lparr>sched_state := next_state\<rparr>) s
      in if previous_state = 0 then op_block ops t s else Some s)"

definition Thread_Clear_state_locked ::
  "'a processor_scheme scheduler_operations \<Rightarrow> nat \<Rightarrow> uint32 \<Rightarrow> 'a processor_scheme \<Rightarrow> 'a processor_scheme option" where
  "Thread_Clear_state_locked ops t state s =
     (let previous_state = sched_state (sched_threads s t)
      in if previous_state AND state \<noteq> 0
         then (let next_state = States_Clear state previous_state;
                   s = upd_thread t (\<lambda>th. th\<lparr>sched_state := next_state\<rparr>) s
               in if next_state = 0 then op_unblock ops t s else Some s)
         else Some s)"

definition Thread_Start ::
  "'a processor_scheme scheduler_operations \<Rightarrow> nat \<Rightarrow> 'a processor_scheme \<Rightarrow> (Status_Control \<times> 'a processor_scheme) option" where
  "Thread_Start ops t s =
     (if sched_state (sched_threads s t) AND STATES_DORMANT = 0 then Some (STATUS_INCORRECT_STATE, s)
      else do {
        let s = Thread_Load_environment t s;
        s \<leftarrow> Thread_Clear_state_locked ops t STATES_ALL_SET s;
        Some (STATUS_SUCCESSFUL, s)
      })"

definition Thread_Yield ::
  "'a processor_scheme scheduler_operations \<Rightarrow> nat \<Rightarrow> 'a processor_scheme \<Rightarrow> 'a processor_scheme option" where
  "Thread_Yield ops t s = (if sched_state (sched_threads s t) = 0 then op_yield ops t s else Some s)"

text \<open>The preemption mode in \<open>rtems_task_mode\<close>.\<close>

definition task_mode_preempt ::
  "'a processor_scheme scheduler_operations \<Rightarrow> nat \<Rightarrow> bool \<Rightarrow> 'a processor_scheme \<Rightarrow> 'a processor_scheme option" where
  "task_mode_preempt ops t preempt s =
     (let previous_is_preemptible = is_preemptible (sched_threads s t);
          s = upd_thread t (\<lambda>th. th\<lparr>is_preemptible := preempt\<rparr>) s
      in if preempt \<and> \<not> previous_is_preemptible then op_schedule ops t s else Some s)"

definition Thread_Create_idle ::
  "'a processor_scheme scheduler_operations \<Rightarrow> nat \<Rightarrow> nat \<Rightarrow> 'a processor_scheme \<Rightarrow> 'a processor_scheme option" where
  "Thread_Create_idle ops maximum_priority idle s =
     (let s = Thread_Try_initialize ops idle (SCHEDULER_PRIORITY_MAP (of_nat maximum_priority)) True s;
          s = s\<lparr>Thread_Heir := idle\<rparr>;
          s = Thread_Load_environment idle s;
          s = upd_thread idle (\<lambda>th. th\<lparr>sched_state := 0\<rparr>) s
      in op_unblock ops idle s)"

end
