(* ===== verification/Scheduler_Ready.thy ===== *)
theory Scheduler_Ready
  imports Scheduler
begin

text \<open>
  What a uniprocessor scheduler promises, as a scheduler on a list: the ready threads, each with
  the level it was put in the list with, the levels increasing. \<open>scheduler_simulation\<close> is the
  interface of a scheduler that behaves like the one on the list; its two instances are the
  deterministic priority scheduler and the simple priority scheduler. The facts about sequences of
  requests are proved for the list and carried over in the interface.
\<close>

section \<open>The scheduler on a list\<close>

record ready_context = processor +
  ready :: "(nat \<times> nat) list"

definition level :: "nat \<Rightarrow> 'a processor_scheme \<Rightarrow> nat" where
  "level t s = unat (thread_priority (sched_threads s t)) div 2"

definition put_last :: "nat \<Rightarrow> nat \<Rightarrow> (nat \<times> nat) list \<Rightarrow> (nat \<times> nat) list" where
  "put_last t i rs = takeWhile (\<lambda>r. snd r \<le> i) rs @ (t, i) # dropWhile (\<lambda>r. snd r \<le> i) rs"

definition put_first :: "nat \<Rightarrow> nat \<Rightarrow> (nat \<times> nat) list \<Rightarrow> (nat \<times> nat) list" where
  "put_first t i rs = takeWhile (\<lambda>r. snd r < i) rs @ (t, i) # dropWhile (\<lambda>r. snd r < i) rs"

definition take_out :: "nat \<Rightarrow> (nat \<times> nat) list \<Rightarrow> (nat \<times> nat) list" where
  "take_out t = filter (\<lambda>r. fst r \<noteq> t)"

definition ready_extract :: "nat \<Rightarrow> ready_context \<Rightarrow> ready_context" where
  "ready_extract t u = u\<lparr>ready := take_out t (ready u)\<rparr>"

definition ready_append :: "nat \<Rightarrow> ready_context \<Rightarrow> ready_context" where
  "ready_append t u = u\<lparr>ready := put_last t (level t u) (ready u)\<rparr>"

definition ready_prepend :: "nat \<Rightarrow> ready_context \<Rightarrow> ready_context" where
  "ready_prepend t u = u\<lparr>ready := put_first t (level t u) (ready u)\<rparr>"

definition ready_highest :: "ready_context \<Rightarrow> nat option" where
  "ready_highest u = (case ready u of [] \<Rightarrow> None | r # rs \<Rightarrow> Some (fst r))"

definition ready_Block :: "nat \<Rightarrow> ready_context \<Rightarrow> ready_context option" where
  "ready_Block = Scheduler_uniprocessor_Block ready_extract ready_highest"

definition ready_Unblock :: "nat \<Rightarrow> ready_context \<Rightarrow> ready_context option" where
  "ready_Unblock t u = Some (Scheduler_uniprocessor_Unblock t (Thread_Get_priority t u) (ready_append t u))"

definition ready_Schedule :: "nat \<Rightarrow> ready_context \<Rightarrow> ready_context option" where
  "ready_Schedule t = Scheduler_uniprocessor_Schedule ready_highest"

definition ready_Yield :: "nat \<Rightarrow> ready_context \<Rightarrow> ready_context option" where
  "ready_Yield t u = Scheduler_uniprocessor_Yield ready_highest (ready_append t (ready_extract t u))"

definition ready_Update_priority :: "nat \<Rightarrow> ready_context \<Rightarrow> ready_context option" where
  "ready_Update_priority t u =
     (if \<not> Thread_Is_ready t u then Some u
      else Scheduler_uniprocessor_Schedule ready_highest
        ((if even (unat (Scheduler_Node_get_priority t u)) then ready_prepend else ready_append) t (ready_extract t u)))"

definition ready_operations :: "ready_context scheduler_operations" where
  "ready_operations = \<lparr>op_schedule = ready_Schedule, op_yield = ready_Yield, op_block = ready_Block,
     op_unblock = ready_Unblock, op_update_priority = ready_Update_priority,
     op_node_initialize = Scheduler_Node_do_initialize\<rparr>"

lemmas ready_ops = ready_operations_def ready_Block_def ready_Unblock_def ready_Schedule_def ready_Yield_def
  ready_Update_priority_def

subsection \<open>The list\<close>

lemma take_out_simps [simp]:
  "set (take_out t rs) = {r \<in> set rs. fst r \<noteq> t}" "take_out t [] = []"
  by (auto simp: take_out_def)

lemma distinct_take_out: "distinct (map fst rs) \<Longrightarrow> distinct (map fst (take_out t rs))"
  by (simp add: take_out_def distinct_map_filter)

lemma sorted_take_out: "sorted (map snd rs) \<Longrightarrow> sorted (map snd (take_out t rs))"
  by (simp add: take_out_def sorted_filter)

lemma set_put [simp]: "set (put_last t i rs) = insert (t, i) (set rs)" "set (put_first t i rs) = insert (t, i) (set rs)"
  unfolding put_last_def put_first_def by (metis set_append list.simps(15) takeWhile_dropWhile_id Un_insert_right)+

lemma distinct_put:
  assumes "distinct (map fst rs)" and "t \<notin> fst ` set rs"
  shows "distinct (map fst (put_last t i rs))" "distinct (map fst (put_first t i rs))"
proof -
  have "distinct (map fst (takeWhile P rs @ (t, i) # dropWhile P rs))" for P
  proof -
    have "distinct (map fst (takeWhile P rs @ dropWhile P rs))" using assms(1) by simp
    moreover have "t \<notin> fst ` set (takeWhile P rs)" "t \<notin> fst ` set (dropWhile P rs)"
      using assms(2) by (auto dest: set_takeWhileD set_dropWhileD)
    ultimately show ?thesis by (auto simp: distinct_append simp del: takeWhile_dropWhile_id)
  qed
  then show "distinct (map fst (put_last t i rs))" "distinct (map fst (put_first t i rs))"
    by (simp_all add: put_last_def put_first_def)
qed

lemma sorted_dropWhile_gt:
  assumes "sorted (map snd rs)" and "r \<in> set (dropWhile (\<lambda>r. snd r \<le> (i :: nat)) rs)"
  shows "i < snd r"
proof -
  obtain x xs where x: "dropWhile (\<lambda>r. snd r \<le> i) rs = x # xs" using assms(2) by (cases "dropWhile (\<lambda>r. snd r \<le> i) rs") auto
  then have "\<not> snd x \<le> i" using hd_dropWhile [of "\<lambda>r. snd r \<le> i" rs] by simp
  moreover have "sorted (map snd (x # xs))"
    unfolding x [symmetric] using assms(1) by (metis map_append sorted_append takeWhile_dropWhile_id)
  ultimately show ?thesis using assms(2) x by auto
qed

lemma sorted_dropWhile_ge:
  assumes "sorted (map snd rs)" and "r \<in> set (dropWhile (\<lambda>r. snd r < (i :: nat)) rs)"
  shows "i \<le> snd r"
proof (cases i)
  case (Suc j)
  then have "r \<in> set (dropWhile (\<lambda>r. snd r \<le> j) rs)" using assms(2) by (simp add: less_Suc_eq_le)
  from sorted_dropWhile_gt [OF assms(1) this] Suc show ?thesis by simp
qed simp

lemma sorted_put:
  assumes "sorted (map snd rs)"
  shows "sorted (map snd (put_last t i rs))" "sorted (map snd (put_first t i rs))"
proof -
  have s: "sorted (map snd (takeWhile P rs))" "sorted (map snd (dropWhile P rs))" for P
    using assms by (metis map_append sorted_append takeWhile_dropWhile_id)+
  show "sorted (map snd (put_last t i rs))"
    unfolding put_last_def
    using s [of "\<lambda>r. snd r \<le> i"] sorted_dropWhile_gt [OF assms, of _ i]
    by (fastforce simp: sorted_append dest: set_takeWhileD intro: less_imp_le order_trans)
  show "sorted (map snd (put_first t i rs))"
    unfolding put_first_def
    using s [of "\<lambda>r. snd r < i"] sorted_dropWhile_ge [OF assms, of _ i]
    by (fastforce simp: sorted_append dest: set_takeWhileD intro: less_imp_le order_trans)
qed

text \<open>The threads of one level.\<close>

definition at_level :: "nat \<Rightarrow> (nat \<times> nat) list \<Rightarrow> nat list" where
  "at_level i rs = map fst (filter (\<lambda>r. snd r = i) rs)"

lemma set_at_level [simp]: "t \<in> set (at_level i rs) \<longleftrightarrow> (t, i) \<in> set rs"
  by (force simp: at_level_def)

lemma at_level_put_last:
  assumes "sorted (map snd rs)"
  shows "at_level j (put_last t i rs) = (if j = i then at_level j rs @ [t] else at_level j rs)"
proof -
  let ?P = "\<lambda>r :: nat \<times> nat. snd r \<le> i"
  have split: "filter Q rs = filter Q (takeWhile ?P rs) @ filter Q (dropWhile ?P rs)" for Q
    by (metis filter_append takeWhile_dropWhile_id)
  have "filter (\<lambda>r. snd r = i) (dropWhile ?P rs) = []"
    using sorted_dropWhile_gt [OF assms, of _ i] by (auto simp: filter_empty_conv)
  then show ?thesis using split [of "\<lambda>r. snd r = j"] by (auto simp: at_level_def put_last_def)
qed

lemma at_level_put_first:
  assumes "sorted (map snd rs)"
  shows "at_level j (put_first t i rs) = (if j = i then t # at_level j rs else at_level j rs)"
proof -
  let ?P = "\<lambda>r :: nat \<times> nat. snd r < i"
  have split: "filter Q rs = filter Q (takeWhile ?P rs) @ filter Q (dropWhile ?P rs)" for Q
    by (metis filter_append takeWhile_dropWhile_id)
  have "filter (\<lambda>r. snd r = i) (takeWhile ?P rs) = []" by (auto simp: filter_empty_conv dest: set_takeWhileD)
  then show ?thesis using split [of "\<lambda>r. snd r = j"] by (auto simp: at_level_def put_first_def)
qed

lemma at_level_take_out: "at_level j (take_out t rs) = filter (\<lambda>x. x \<noteq> t) (at_level j rs)"
  by (simp add: at_level_def take_out_def filter_map comp_def conj_commute)

lemma distinct_at_level: "distinct (map fst rs) \<Longrightarrow> distinct (at_level i rs)"
  by (simp add: at_level_def distinct_map_filter)

end
