(* ===== verification/Scheduler_Sim.thy ===== *)
theory Scheduler_Sim
  imports Scheduler_Ready
begin

text \<open>
  The interface between the schedulers and their callers. \<open>processor_simulation\<close>: a relation
  between the state of a scheduler and the scheduler on a list that fixes the part of the state
  that all schedulers have, so that the common operations of the uniprocessor schedulers respect
  it. \<open>scheduler_simulation\<close>: the entry points of a scheduler respect it, under the conditions
  under which the callers use them. In it, every request of the callers is simulated.
\<close>

section \<open>The part of the state that all schedulers have\<close>

definition same_processor :: "'a processor_scheme \<Rightarrow> 'b processor_scheme \<Rightarrow> bool" where
  "same_processor s u \<longleftrightarrow> sched_threads s = sched_threads u \<and> Thread_Heir s = Thread_Heir u
     \<and> Thread_Dispatch_necessary s = Thread_Dispatch_necessary u \<and> cpu_usage_timestamp s = cpu_usage_timestamp u
     \<and> uptime s = uptime u"

locale processor_simulation =
  fixes R :: "'a processor_scheme \<Rightarrow> ready_context \<Rightarrow> bool"
  assumes sim_processor: "R s u \<Longrightarrow> same_processor s u"
    and sim_threads: "R s u \<Longrightarrow> R (s\<lparr>sched_threads := ts\<rparr>) (u\<lparr>sched_threads := ts\<rparr>)"
    and sim_heir: "R s u \<Longrightarrow> R (s\<lparr>Thread_Heir := h\<rparr>) (u\<lparr>Thread_Heir := h\<rparr>)"
    and sim_dispatch: "R s u \<Longrightarrow> R (s\<lparr>Thread_Dispatch_necessary := d\<rparr>) (u\<lparr>Thread_Dispatch_necessary := d\<rparr>)"
    and sim_timestamp: "R s u \<Longrightarrow> R (s\<lparr>cpu_usage_timestamp := c\<rparr>) (u\<lparr>cpu_usage_timestamp := c\<rparr>)"
    and sim_uptime: "R s u \<Longrightarrow> R (s\<lparr>uptime := n\<rparr>) (u\<lparr>uptime := n\<rparr>)"
begin

lemma sim_same:
  assumes "R s u"
  shows "sched_threads s = sched_threads u" "Thread_Heir s = Thread_Heir u"
    "Thread_Dispatch_necessary s = Thread_Dispatch_necessary u" "cpu_usage_timestamp s = cpu_usage_timestamp u"
    "uptime s = uptime u"
  using sim_processor [OF assms] by (simp_all add: same_processor_def)

lemmas sim_updates = sim_threads sim_heir sim_dispatch sim_timestamp sim_uptime

lemma sim_upd_thread:
  assumes "R s u"
  shows "R (upd_thread t f s) (upd_thread t f u)"
  unfolding sim_same(1) [OF assms] by (rule sim_threads [OF assms])

lemma sim_Update_heir:
  assumes "R s u"
  shows "R (Scheduler_uniprocessor_Update_heir a b s) (Scheduler_uniprocessor_Update_heir a b u)"
proof -
  have "R (Thread_Update_CPU_time_used a s) (Thread_Update_CPU_time_used a u)"
    unfolding Thread_Update_CPU_time_used_def Let_def using sim_same [OF assms] sim_timestamp [OF assms]
    by (simp add: sim_threads)
  then show ?thesis by (simp add: Scheduler_uniprocessor_Update_heir_def Let_def sim_updates)
qed

lemma sim_Unblock:
  assumes "R s u"
  shows "R (Scheduler_uniprocessor_Unblock t p s) (Scheduler_uniprocessor_Unblock t p u)"
  using assms sim_same [OF assms] sim_Update_heir [OF assms]
  by (simp add: Scheduler_uniprocessor_Unblock_def Scheduler_uniprocessor_Update_heir_if_preemptible_def Let_def Thread_Get_priority_def)

lemma sim_Schedule:
  assumes "R s u" and "highest s = ready_highest u" and "Scheduler_uniprocessor_Schedule ready_highest u = Some u'"
  shows "\<exists>s'. Scheduler_uniprocessor_Schedule highest s = Some s' \<and> R s' u'"
  using assms sim_same [OF assms(1)] sim_Update_heir [OF assms(1)]
  by (auto simp: Scheduler_uniprocessor_Schedule_def Scheduler_uniprocessor_Update_heir_if_preemptible_def
      split: bind_splits)

lemma sim_Yield:
  assumes "R s u" and "highest s = ready_highest u" and "Scheduler_uniprocessor_Yield ready_highest u = Some u'"
  shows "\<exists>s'. Scheduler_uniprocessor_Yield highest s = Some s' \<and> R s' u'"
  using assms sim_same [OF assms(1)] sim_Update_heir [OF assms(1)]
  by (auto simp: Scheduler_uniprocessor_Yield_def Scheduler_uniprocessor_Update_heir_if_necessary_def Let_def
      split: bind_splits)

lemma sim_Block:
  assumes "R s u" and "R (extract_node t s) (ready_extract t u)"
    and "ready (ready_extract t u) \<noteq> [] \<Longrightarrow> highest (extract_node t s) = ready_highest (ready_extract t u)"
    and "ready_Block t u = Some u'"
  shows "\<exists>s'. Scheduler_uniprocessor_Block extract_node highest t s = Some s' \<and> R s' u'"
  using assms(3,4) sim_same [OF assms(2)] sim_Update_heir [OF assms(2)] assms(2)
  by (auto simp: Scheduler_uniprocessor_Block_def ready_Block_def ready_highest_def Let_def
      split: bind_splits if_splits list.splits)

end

section \<open>Consistent lists\<close>

definition thread_ok :: "nat \<Rightarrow> sched_thread \<Rightarrow> bool" where
  "thread_ok M th \<longleftrightarrow> even (unat (thread_priority th)) \<and> unat (thread_priority th) div 2 \<le> M
     \<and> unat (node_priority th) div 2 = unat (thread_priority th) div 2"

definition queued :: "ready_context \<Rightarrow> nat set" where
  "queued u = fst ` set (ready u)"

text \<open>The list fits the priorities of the threads, except those of \<open>X\<close>.\<close>

definition in_order :: "nat \<Rightarrow> nat set \<Rightarrow> nat set \<Rightarrow> ready_context \<Rightarrow> bool" where
  "in_order M T X u \<longleftrightarrow> (\<forall>t \<in> T. thread_ok M (sched_threads u t)) \<and> queued u \<subseteq> T \<and> distinct (map fst (ready u))
     \<and> sorted (map snd (ready u)) \<and> (\<forall>r \<in> set (ready u). fst r \<notin> X \<longrightarrow> snd r = level (fst r) u)
     \<and> (\<forall>r \<in> set (ready u). snd r \<le> M)"

lemma in_orderD:
  assumes "in_order M T X u"
  shows "t \<in> T \<Longrightarrow> thread_ok M (sched_threads u t)" "queued u \<subseteq> T" "distinct (map fst (ready u))"
    "sorted (map snd (ready u))" "r \<in> set (ready u) \<Longrightarrow> fst r \<notin> X \<Longrightarrow> snd r = level (fst r) u"
    "r \<in> set (ready u) \<Longrightarrow> snd r \<le> M"
  using assms by (auto simp: in_order_def)

lemma level_le: "in_order M T X u \<Longrightarrow> t \<in> T \<Longrightarrow> level t u \<le> M"
  by (auto simp: in_order_def thread_ok_def level_def)

section \<open>Entry points that respect the relation\<close>

locale scheduler_simulation = processor_simulation R
  for R :: "'a processor_scheme \<Rightarrow> ready_context \<Rightarrow> bool" +
  fixes ops :: "'a processor_scheme scheduler_operations" and M :: nat and T :: "nat set"
  assumes sim_op_block: "R s u \<Longrightarrow> in_order M T {} u \<Longrightarrow> t \<in> queued u \<Longrightarrow> ready_Block t u = Some u' \<Longrightarrow>
      \<exists>s'. op_block ops t s = Some s' \<and> R s' u'"
    and sim_op_unblock: "R s u \<Longrightarrow> in_order M T {} u \<Longrightarrow> t \<in> T \<Longrightarrow> t \<notin> queued u \<Longrightarrow> Thread_Heir u \<in> T \<Longrightarrow>
      ready_Unblock t u = Some u' \<Longrightarrow>
      \<exists>s'. op_unblock ops t s = Some s' \<and> R s' u'"
    and sim_op_yield: "R s u \<Longrightarrow> in_order M T {} u \<Longrightarrow> t \<in> queued u \<Longrightarrow> ready_Yield t u = Some u' \<Longrightarrow>
      \<exists>s'. op_yield ops t s = Some s' \<and> R s' u'"
    and sim_op_schedule: "R s u \<Longrightarrow> in_order M T {} u \<Longrightarrow> ready u \<noteq> [] \<Longrightarrow> ready_Schedule t u = Some u' \<Longrightarrow>
      \<exists>s'. op_schedule ops t s = Some s' \<and> R s' u'"
    and sim_op_update_priority: "R s u \<Longrightarrow> in_order M T {t} u \<Longrightarrow> t \<in> T \<Longrightarrow> (Thread_Is_ready t u \<longleftrightarrow> t \<in> queued u) \<Longrightarrow>
      (\<And>i. (t, i) \<in> set (ready u) \<Longrightarrow> i \<noteq> level t u) \<Longrightarrow> ready_Update_priority t u = Some u' \<Longrightarrow>
      \<exists>s'. op_update_priority ops t s = Some s' \<and> R s' u'"

section \<open>Requests\<close>

datatype request =
    Set_state nat uint32
  | Clear_state nat uint32
  | Start nat
  | Yield nat
  | Preempt nat bool
  | Priority_add nat nat Priority_Control
  | Priority_remove nat nat
  | Priority_change nat nat Priority_Control Priority_Group_order
  | Time_passes ulong

definition priority_of :: "nat \<Rightarrow> nat \<Rightarrow> 'a processor_scheme \<Rightarrow> Priority_Control" where
  "priority_of t node s = the (map_of (contributors (sched_threads s t)) node)"

fun perform :: "'a processor_scheme scheduler_operations \<Rightarrow> request \<Rightarrow> 'a processor_scheme \<Rightarrow> 'a processor_scheme option" where
  "perform ops (Set_state t state) s = Thread_Set_state_locked ops t state s"
| "perform ops (Clear_state t state) s = Thread_Clear_state_locked ops t state s"
| "perform ops (Start t) s = map_option snd (Thread_Start ops t s)"
| "perform ops (Yield t) s = Thread_Yield ops t s"
| "perform ops (Preempt t preempt) s = task_mode_preempt ops t preempt s"
| "perform ops (Priority_add t node p) s =
     (let (ts, s) = Thread_Priority_do_perform_actions t node p PRIORITY_ACTION_ADD PRIORITY_GROUP_LAST s
      in Thread_Priority_update ops ts s)"
| "perform ops (Priority_remove t node) s =
     (let (ts, s) = Thread_Priority_do_perform_actions t node (priority_of t node s) PRIORITY_ACTION_REMOVE
        PRIORITY_GROUP_FIRST s
      in Thread_Priority_update ops ts s)"
| "perform ops (Priority_change t node p group_order) s =
     (let (ts, s) = Thread_Priority_do_perform_actions t node p PRIORITY_ACTION_CHANGE group_order s
      in Thread_Priority_update ops ts s)"
| "perform ops (Time_passes n) s = Some (s\<lparr>uptime := n\<rparr>)"

text \<open>
  What callers may ask for: the idle thread is never blocked, a state to set is not empty, a
  priority is one that \<open>_Scheduler_Map_priority\<close> returns for a priority up to \<open>M\<close>, a node is
  added once and the last contributor is never removed.
\<close>

definition mapped_priority :: "nat \<Rightarrow> Priority_Control \<Rightarrow> bool" where
  "mapped_priority M p \<longleftrightarrow> even (unat p) \<and> unat p div 2 \<le> M"

definition has_node :: "nat \<Rightarrow> nat \<Rightarrow> 'a processor_scheme \<Rightarrow> bool" where
  "has_node t node s \<longleftrightarrow> node \<in> fst ` set (contributors (sched_threads s t))"

fun allowed :: "nat \<Rightarrow> nat set \<Rightarrow> nat \<Rightarrow> request \<Rightarrow> 'a processor_scheme \<Rightarrow> bool" where
  "allowed M T idle (Set_state t state) s \<longleftrightarrow> t \<in> T \<and> t \<noteq> idle \<and> state \<noteq> 0"
| "allowed M T idle (Clear_state t state) s \<longleftrightarrow> t \<in> T"
| "allowed M T idle (Start t) s \<longleftrightarrow> t \<in> T"
| "allowed M T idle (Yield t) s \<longleftrightarrow> t \<in> T"
| "allowed M T idle (Preempt t preempt) s \<longleftrightarrow> t \<in> T"
| "allowed M T idle (Priority_add t node p) s \<longleftrightarrow> t \<in> T \<and> mapped_priority M p \<and> \<not> has_node t node s"
| "allowed M T idle (Priority_remove t node) s \<longleftrightarrow>
     t \<in> T \<and> has_node t node s \<and> length (contributors (sched_threads s t)) > 1"
| "allowed M T idle (Priority_change t node p group_order) s \<longleftrightarrow> t \<in> T \<and> mapped_priority M p \<and> has_node t node s"
| "allowed M T idle (Time_passes n) s \<longleftrightarrow> True"

fun perform_all ::
  "'a processor_scheme scheduler_operations \<Rightarrow> nat \<Rightarrow> nat set \<Rightarrow> nat \<Rightarrow> request list \<Rightarrow> 'a processor_scheme
    \<Rightarrow> 'a processor_scheme option" where
  "perform_all ops M T idle [] s = Some s"
| "perform_all ops M T idle (r # rs) s =
     (if allowed M T idle r s
      then do { s \<leftarrow> perform ops r s; perform_all ops M T idle rs s }
      else perform_all ops M T idle rs s)"

end
