(* ===== verification/Scheduler_Inv.thy ===== *)
theory Scheduler_Inv
  imports Scheduler_Sim
begin

text \<open>
  The invariant of the scheduler on a list: the list holds the ready threads in the order of
  their priorities, the heir is one of them, and the first one if it is preemptible; the priority
  of a thread is the least of its contributors. Every allowed request returns and keeps it, and
  the processor time is accounted for completely.
\<close>

section \<open>The invariant\<close>

definition contributors_ok :: "nat \<Rightarrow> sched_thread \<Rightarrow> bool" where
  "contributors_ok M th \<longleftrightarrow> contributors th \<noteq> [] \<and> distinct (map fst (contributors th)) \<and> sorted (map snd (contributors th))
     \<and> thread_priority th = snd (hd (contributors th)) \<and> (\<forall>c \<in> set (contributors th). mapped_priority M (snd c))"

definition heir_ok :: "ready_context \<Rightarrow> bool" where
  "heir_ok u \<longleftrightarrow> Thread_Heir u \<in> queued u
     \<and> (is_preemptible (sched_threads u (Thread_Heir u)) \<longrightarrow> Thread_Heir u = fst (hd (ready u)))"

definition ready_inv :: "nat \<Rightarrow> nat set \<Rightarrow> nat \<Rightarrow> ready_context \<Rightarrow> bool" where
  "ready_inv M T idle u \<longleftrightarrow> in_order M T {} u \<and> queued u = {t \<in> T. Thread_Is_ready t u} \<and> idle \<in> T
     \<and> Thread_Is_ready idle u \<and> heir_ok u \<and> (\<forall>t \<in> T. contributors_ok M (sched_threads u t))"

definition unaccounted :: "nat set \<Rightarrow> 'a processor_scheme \<Rightarrow> ulong" where
  "unaccounted T s = cpu_usage_timestamp s - (\<Sum>t \<in> T. cpu_time_used (sched_threads s t))"

subsection \<open>What a change of the heir changes\<close>

definition core :: "sched_thread \<Rightarrow> sched_thread" where "core th = th\<lparr>cpu_time_used := 0\<rparr>"

lemma core_fields:
  assumes "core a = core b"
  shows "node_priority a = node_priority b" "thread_priority a = thread_priority b" "contributors a = contributors b"
    "is_preemptible a = is_preemptible b" "Start_is_preemptible a = Start_is_preemptible b" "sched_state a = sched_state b"
  using assms by (cases a; cases b; simp add: core_def)+

text \<open>\<open>u'\<close> differs from \<open>u\<close> by a change of the heir only.\<close>

definition reheired :: "nat set \<Rightarrow> ready_context \<Rightarrow> ready_context \<Rightarrow> bool" where
  "reheired T u u' \<longleftrightarrow> ready u' = ready u \<and> (\<forall>t. core (sched_threads u' t) = core (sched_threads u t))
     \<and> (Thread_Heir u \<in> T \<longrightarrow> unaccounted T u' = unaccounted T u)"

lemma reheired_refl: "reheired T u u" by (simp add: reheired_def)

lemma Update_heir_reheired:
  assumes "finite T"
  shows "reheired T u (Scheduler_uniprocessor_Update_heir (Thread_Heir u) b u)"
    "Thread_Heir (Scheduler_uniprocessor_Update_heir a b u) = b"
proof -
  let ?u = "Scheduler_uniprocessor_Update_heir (Thread_Heir u) b u" and ?r = "uptime u - cpu_usage_timestamp u"
  have "unaccounted T ?u = unaccounted T u" if h: "Thread_Heir u \<in> T"
  proof -
    have "(\<Sum>t \<in> T. cpu_time_used (sched_threads ?u t)) = (\<Sum>t \<in> T. cpu_time_used (sched_threads u t)) + ?r"
      unfolding sum.remove [OF assms h]
      by (simp add: Scheduler_uniprocessor_Update_heir_def Thread_Update_CPU_time_used_def Let_def)
    then show ?thesis
      by (simp add: unaccounted_def Scheduler_uniprocessor_Update_heir_def Thread_Update_CPU_time_used_def Let_def)
  qed
  then show "reheired T u ?u"
    by (simp add: reheired_def Scheduler_uniprocessor_Update_heir_def Thread_Update_CPU_time_used_def core_def Let_def)
  show "Thread_Heir (Scheduler_uniprocessor_Update_heir a b u) = b"
    by (simp add: Scheduler_uniprocessor_Update_heir_def Let_def)
qed

lemma in_order_cong:
  assumes "ready u' = ready u" and "\<And>t. t \<in> T \<Longrightarrow> thread_priority (sched_threads u' t) = thread_priority (sched_threads u t)"
    and "\<And>t. t \<in> T \<Longrightarrow> node_priority (sched_threads u' t) = node_priority (sched_threads u t)"
  shows "in_order M T X u' \<longleftrightarrow> in_order M T X u"
proof (cases "queued u \<subseteq> T")
  case True
  have l: "level (fst r) u' = level (fst r) u" if "r \<in> set (ready u)" for r
    using that True assms(2) [of "fst r"] by (auto simp: level_def queued_def)
  have "(\<forall>t \<in> T. thread_ok M (sched_threads u' t)) = (\<forall>t \<in> T. thread_ok M (sched_threads u t))"
    using assms(2,3) by (intro ball_cong) (simp_all add: thread_ok_def)
  moreover have "(\<forall>r \<in> set (ready u). fst r \<notin> X \<longrightarrow> snd r = level (fst r) u')
      = (\<forall>r \<in> set (ready u). fst r \<notin> X \<longrightarrow> snd r = level (fst r) u)"
    using l by (intro ball_cong) simp_all
  ultimately show ?thesis unfolding in_order_def queued_def assms(1) by simp
next
  case False
  then show ?thesis using assms(1) by (auto simp: in_order_def queued_def)
qed

lemma reheired_keeps:
  assumes "reheired T u u'"
  shows "in_order M T X u' \<longleftrightarrow> in_order M T X u" "queued u' = queued u" "Thread_Is_ready t u' \<longleftrightarrow> Thread_Is_ready t u"
    "contributors_ok M (sched_threads u' t) \<longleftrightarrow> contributors_ok M (sched_threads u t)" "level t u' = level t u"
proof -
  have c: "core (sched_threads u' t) = core (sched_threads u t)" for t using assms by (simp add: reheired_def)
  note F = core_fields [OF c]
  show "in_order M T X u' \<longleftrightarrow> in_order M T X u" using assms F by (intro in_order_cong) (simp_all add: reheired_def)
  show "queued u' = queued u" using assms by (simp add: reheired_def queued_def)
  show "Thread_Is_ready t u' \<longleftrightarrow> Thread_Is_ready t u" using F by (simp add: Thread_Is_ready_def)
  show "contributors_ok M (sched_threads u' t) \<longleftrightarrow> contributors_ok M (sched_threads u t)" using F by (simp add: contributors_ok_def)
  show "level t u' = level t u" using F by (simp add: level_def)
qed

lemma in_order_absent:
  assumes "in_order M T {t} u" and "t \<notin> queued u"
  shows "in_order M T {} u"
proof -
  have "fst r \<noteq> t" if "r \<in> set (ready u)" for r using that assms(2) by (auto simp: queued_def)
  then show ?thesis using assms(1) unfolding in_order_def by blast
qed

section \<open>The entry points\<close>

lemma Schedule_ok:
  assumes "finite T" and "Thread_Heir u \<in> queued u"
  shows "\<exists>u'. Scheduler_uniprocessor_Schedule ready_highest u = Some u' \<and> reheired T u u' \<and> heir_ok u'"
proof -
  obtain r rs where r: "ready u = r # rs" using assms(2) by (cases "ready u") (auto simp: queued_def)
  let ?u = "Scheduler_uniprocessor_Update_heir (Thread_Heir u) (fst r) u"
  note U = Update_heir_reheired [OF assms(1), where u = u and b = "fst r"]
  have "ready ?u = ready u" using U(1) by (simp add: reheired_def)
  then have "heir_ok ?u" using r by (simp add: heir_ok_def U(2) queued_def)
  then show ?thesis
    using U(1) r assms reheired_refl [of T u]
    by (auto simp: Scheduler_uniprocessor_Schedule_def Scheduler_uniprocessor_Update_heir_if_preemptible_def
        ready_highest_def heir_ok_def)
qed

lemma Yield_ok:
  assumes "finite T" and "ready u \<noteq> []"
  shows "\<exists>u'. Scheduler_uniprocessor_Yield ready_highest u = Some u' \<and> reheired T u u' \<and> heir_ok u'"
proof -
  obtain r rs where r: "ready u = r # rs" using assms(2) by (cases "ready u") auto
  let ?u = "Scheduler_uniprocessor_Update_heir (Thread_Heir u) (fst r) u"
  note U = Update_heir_reheired [OF assms(1), where u = u and b = "fst r"]
  have "ready ?u = ready u" using U(1) by (simp add: reheired_def)
  then have "heir_ok ?u" using r by (simp add: heir_ok_def U(2) queued_def)
  then show ?thesis
    using U(1) r assms reheired_refl [of T u]
    by (auto simp: Scheduler_uniprocessor_Yield_def Scheduler_uniprocessor_Update_heir_if_necessary_def
        ready_highest_def heir_ok_def queued_def Let_def)
qed

lemma Block_ok:
  assumes "finite T" and "heir_ok u" and "idle \<in> queued u" and "t \<noteq> idle"
  shows "\<exists>u'. ready_Block t u = Some u' \<and> reheired T (ready_extract t u) u' \<and> heir_ok u'"
proof -
  let ?v = "ready_extract t u"
  have "ready ?v \<noteq> []" using assms(3,4) by (auto simp: ready_extract_def queued_def take_out_def filter_empty_conv)
  then obtain r rs where r: "ready ?v = r # rs" by (cases "ready ?v") auto
  show ?thesis
  proof (cases "t = Thread_Heir ?v")
    case True
    let ?u = "Scheduler_uniprocessor_Update_heir (Thread_Heir ?v) (fst r) ?v"
    note U = Update_heir_reheired [OF assms(1), where u = ?v and b = "fst r"]
    have "ready ?u = ready ?v" using U(1) by (simp add: reheired_def)
    then have "heir_ok ?u" using r by (simp add: heir_ok_def U(2) queued_def)
    then show ?thesis
      using U(1) True r by (auto simp: ready_Block_def Scheduler_uniprocessor_Block_def ready_highest_def Let_def)
  next
    case False
    then have h: "Thread_Heir u \<noteq> t" by (simp add: ready_extract_def)
    have "hd (take_out t (ready u)) = hd (ready u)" if "fst (hd (ready u)) \<noteq> t"
      using that by (cases "ready u") (simp_all add: take_out_def)
    then have "heir_ok ?v" using assms(2) h by (auto simp: heir_ok_def ready_extract_def queued_def)
    then show ?thesis
      using False reheired_refl by (auto simp: ready_Block_def Scheduler_uniprocessor_Block_def Let_def)
  qed
qed

lemma hd_put_last:
  assumes "rs \<noteq> []"
  shows "hd (put_last t i rs) = (if i < snd (hd rs) then (t, i) else hd rs)"
  using assms by (cases rs) (auto simp: put_last_def)

lemma priority_less_level:
  assumes "thread_ok M a" and "thread_ok M b"
  shows "thread_priority a < thread_priority b \<longleftrightarrow> unat (thread_priority a) div 2 < unat (thread_priority b) div 2"
proof -
  have "unat (thread_priority a) = 2 * (unat (thread_priority a) div 2)" "unat (thread_priority b) = 2 * (unat (thread_priority b) div 2)"
    using assms by (simp_all add: thread_ok_def)
  then show ?thesis unfolding word_less_nat_alt by linarith
qed

lemma Unblock_ok:
  assumes "finite T" and "in_order M T {} u" and "heir_ok u" and "t \<in> T" and "t \<notin> queued u"
  shows "\<exists>u'. ready_Unblock t u = Some u' \<and> reheired T (ready_append t u) u' \<and> heir_ok u'"
proof -
  let ?v = "ready_append t u" and ?h = "Thread_Heir u"
  note D = in_orderD [OF assms(2)]
  have h: "?h \<in> queued u" "?h \<in> T" using assms(3) D(2) by (auto simp: heir_ok_def)
  then have ne: "ready u \<noteq> []" "?h \<noteq> t" using assms(5) by (auto simp: queued_def)
  have less: "Thread_Get_priority t u < Thread_Get_priority ?h u \<longleftrightarrow> level t u < level ?h u"
    unfolding Thread_Get_priority_def level_def using priority_less_level D(1) assms(4) h(2) by blast
  have hd: "snd (hd (ready u)) = level ?h u" if "is_preemptible (sched_threads u ?h)"
    using D(5) [of "hd (ready u)"] ne(1) assms(3) that by (simp add: heir_ok_def)
  have q: "queued ?v = insert t (queued u)" by (simp add: ready_append_def queued_def)
  have b: "sched_threads ?v = sched_threads u" "Thread_Heir ?v = ?h" "ready ?v = put_last t (level t u) (ready u)"
    by (simp_all add: ready_append_def)
  show ?thesis
  proof (cases "level t u < level ?h u \<and> is_preemptible (sched_threads u ?h)")
    case True
    let ?u = "Scheduler_uniprocessor_Update_heir (Thread_Heir ?v) t ?v"
    note U = Update_heir_reheired [OF assms(1), where u = ?v and b = t]
    have "ready ?u = ready ?v" using U(1) by (simp add: reheired_def)
    moreover have "hd (ready ?v) = (t, level t u)" using hd True ne(1) by (simp add: b hd_put_last)
    ultimately have "heir_ok ?u" using q by (simp add: heir_ok_def U(2) queued_def)
    then show ?thesis
      using U(1) True less ne(2)
      by (simp add: ready_Unblock_def Scheduler_uniprocessor_Unblock_def Scheduler_uniprocessor_Update_heir_if_preemptible_def
          b Thread_Get_priority_def Let_def)
  next
    case False
    then have "hd (ready ?v) = hd (ready u)" if "is_preemptible (sched_threads u ?h)"
      using hd that ne(1) by (simp add: b hd_put_last)
    then have "heir_ok ?v" using assms(3) q h by (auto simp: heir_ok_def b)
    moreover have "Scheduler_uniprocessor_Unblock t (Thread_Get_priority t u) ?v = ?v"
      using False less
      by (auto simp: Scheduler_uniprocessor_Unblock_def Scheduler_uniprocessor_Update_heir_if_preemptible_def
          b Thread_Get_priority_def Let_def)
    ultimately show ?thesis using reheired_refl by (simp add: ready_Unblock_def)
  qed
qed

lemma extract_in_order:
  assumes "in_order M T X u" and "X \<subseteq> {t}"
  shows "in_order M T {} (ready_extract t u)" "queued (ready_extract t u) = queued u - {t}"
proof -
  have "level x (ready_extract t u) = level x u" for x by (simp add: level_def ready_extract_def)
  moreover have "snd r = level (fst r) u" if "r \<in> set (take_out t (ready u))" for r
    using that assms(2) in_orderD(5) [OF assms(1), of r] by auto
  moreover have "snd r \<le> M" if "r \<in> set (take_out t (ready u))" for r using that in_orderD(6) [OF assms(1)] by simp
  moreover have "queued (ready_extract t u) \<subseteq> T" using in_orderD(2) [OF assms(1)] by (auto simp: queued_def ready_extract_def)
  ultimately show "in_order M T {} (ready_extract t u)"
    unfolding in_order_def using in_orderD(1,3,4) [OF assms(1)] distinct_take_out sorted_take_out
    by (simp add: ready_extract_def)
  show "queued (ready_extract t u) = queued u - {t}" by (auto simp: queued_def ready_extract_def)
qed

lemma put_in_order:
  assumes "in_order M T {} u" and "t \<in> T" and "t \<notin> queued u"
  shows "in_order M T {} (ready_append t u)" "in_order M T {} (ready_prepend t u)"
    "queued (ready_append t u) = insert t (queued u)" "queued (ready_prepend t u) = insert t (queued u)"
proof -
  note D = in_orderD [OF assms(1)]
  have l: "level x (ready_append t u) = level x u" "level x (ready_prepend t u) = level x u" for x
    by (simp_all add: level_def ready_append_def ready_prepend_def)
  show q: "queued (ready_append t u) = insert t (queued u)" "queued (ready_prepend t u) = insert t (queued u)"
    by (simp_all add: queued_def ready_append_def ready_prepend_def)
  show "in_order M T {} (ready_append t u)" "in_order M T {} (ready_prepend t u)"
    unfolding in_order_def q l
    using assms(2) D level_le [OF assms(1,2)] distinct_put [OF D(3), of t "level t u"] sorted_put [OF D(4), of t "level t u"] assms(3)
    by (auto simp: ready_append_def ready_prepend_def queued_def)
qed

section \<open>Requests\<close>

lemma ready_invD:
  assumes "ready_inv M T idle u"
  shows "in_order M T {} u" "queued u = {t \<in> T. Thread_Is_ready t u}" "idle \<in> T" "Thread_Is_ready idle u" "heir_ok u"
    "t \<in> T \<Longrightarrow> contributors_ok M (sched_threads u t)" "idle \<in> queued u" "Thread_Heir u \<in> T"
  using assms by (auto simp: ready_inv_def heir_ok_def)

text \<open>A state that meets the invariant but for a change of the heir.\<close>

lemma ready_invI:
  assumes "reheired T v u" and "heir_ok u" and "in_order M T {} v" and "queued v = {t \<in> T. Thread_Is_ready t v}"
    and "idle \<in> T" and "Thread_Is_ready idle v" and "\<And>t. t \<in> T \<Longrightarrow> contributors_ok M (sched_threads v t)"
  shows "ready_inv M T idle u"
  using assms(2-) by (simp add: ready_inv_def reheired_keeps [OF assms(1)])

text \<open>Changes of the state and of the preemption mode of a thread.\<close>

lemma upd_state:
  fixes u :: ready_context and t :: nat and st :: uint32
  defines "v \<equiv> upd_thread t (\<lambda>th. th\<lparr>sched_state := st\<rparr>) u"
  shows "in_order M T X v \<longleftrightarrow> in_order M T X u" "heir_ok v \<longleftrightarrow> heir_ok u" "queued v = queued u" "unaccounted T v = unaccounted T u"
    "contributors_ok M (sched_threads v x) \<longleftrightarrow> contributors_ok M (sched_threads u x)" "Thread_Heir v = Thread_Heir u"
    "Thread_Is_ready x v \<longleftrightarrow> (if x = t then st = 0 else Thread_Is_ready x u)"
proof -
  show "in_order M T X v \<longleftrightarrow> in_order M T X u" unfolding v_def by (intro in_order_cong) simp_all
  have "(\<Sum>x \<in> T. cpu_time_used (sched_threads v x)) = (\<Sum>x \<in> T. cpu_time_used (sched_threads u x))"
    by (intro sum.cong) (simp_all add: v_def)
  then show "unaccounted T v = unaccounted T u" by (simp add: unaccounted_def v_def)
qed (simp_all add: v_def heir_ok_def queued_def contributors_ok_def Thread_Is_ready_def)

lemma upd_preempt:
  fixes u :: ready_context and t :: nat and f :: "sched_thread \<Rightarrow> bool"
  defines "v \<equiv> upd_thread t (\<lambda>th. th\<lparr>is_preemptible := f th\<rparr>) u"
  shows "in_order M T X v \<longleftrightarrow> in_order M T X u" "queued v = queued u" "unaccounted T v = unaccounted T u"
    "contributors_ok M (sched_threads v x) \<longleftrightarrow> contributors_ok M (sched_threads u x)" "Thread_Heir v = Thread_Heir u"
    "Thread_Is_ready x v \<longleftrightarrow> Thread_Is_ready x u" "t \<noteq> Thread_Heir u \<or> \<not> f (sched_threads u t)
      \<or> is_preemptible (sched_threads u t) \<Longrightarrow> heir_ok u \<Longrightarrow> heir_ok v"
proof -
  show "in_order M T X v \<longleftrightarrow> in_order M T X u" unfolding v_def by (intro in_order_cong) simp_all
  have "(\<Sum>x \<in> T. cpu_time_used (sched_threads v x)) = (\<Sum>x \<in> T. cpu_time_used (sched_threads u x))"
    by (intro sum.cong) (simp_all add: v_def)
  then show "unaccounted T v = unaccounted T u" by (simp add: unaccounted_def v_def)
  show "t \<noteq> Thread_Heir u \<or> \<not> f (sched_threads u t) \<or> is_preemptible (sched_threads u t) \<Longrightarrow> heir_ok u \<Longrightarrow> heir_ok v"
    by (auto simp: v_def heir_ok_def queued_def)
qed (simp_all add: v_def queued_def contributors_ok_def Thread_Is_ready_def)

lemma extract_fields [simp]:
  "sched_threads (ready_extract t u) = sched_threads u" "Thread_Heir (ready_extract t u) = Thread_Heir u"
  "Thread_Is_ready x (ready_extract t u) = Thread_Is_ready x u" "unaccounted T (ready_extract t u) = unaccounted T u"
  by (simp_all add: ready_extract_def Thread_Is_ready_def unaccounted_def)

lemma put_fields [simp]:
  "sched_threads (ready_append t u) = sched_threads u" "Thread_Heir (ready_append t u) = Thread_Heir u"
  "Thread_Is_ready x (ready_append t u) = Thread_Is_ready x u" "unaccounted T (ready_append t u) = unaccounted T u"
  "sched_threads (ready_prepend t u) = sched_threads u" "Thread_Heir (ready_prepend t u) = Thread_Heir u"
  "Thread_Is_ready x (ready_prepend t u) = Thread_Is_ready x u" "unaccounted T (ready_prepend t u) = unaccounted T u"
  by (simp_all add: ready_append_def ready_prepend_def Thread_Is_ready_def unaccounted_def)

definition kept :: "nat \<Rightarrow> nat set \<Rightarrow> nat \<Rightarrow> ready_context \<Rightarrow> ready_context option \<Rightarrow> bool" where
  "kept M T idle u r \<longleftrightarrow> (\<exists>u'. r = Some u' \<and> ready_inv M T idle u' \<and> unaccounted T u' = unaccounted T u)"

lemma keptI:
  assumes "\<exists>u'. r = Some u' \<and> reheired T v u' \<and> heir_ok u'" and "in_order M T {} v" and "queued v = {t \<in> T. Thread_Is_ready t v}"
    and "idle \<in> T" and "Thread_Is_ready idle v" and "\<And>t. t \<in> T \<Longrightarrow> contributors_ok M (sched_threads v t)"
    and "Thread_Heir v \<in> T" and "unaccounted T v = unaccounted T u"
  shows "kept M T idle u r"
proof -
  obtain u' where u': "r = Some u'" "reheired T v u'" "heir_ok u'" using assms(1) by blast
  have "ready_inv M T idle u'" using u'(2,3) assms(2-6) by (rule ready_invI)
  moreover have "unaccounted T u' = unaccounted T u" using u'(2) assms(7,8) by (simp add: reheired_def)
  ultimately show ?thesis using u'(1) by (auto simp: kept_def)
qed

lemma Set_state_ok:
  assumes "finite T" and "ready_inv M T idle u" and "t \<in> T" and "t \<noteq> idle" and "st \<noteq> 0"
  shows "kept M T idle u (Thread_Set_state_locked ready_operations t st u)"
proof -
  note D = ready_invD [OF assms(2)]
  let ?n = "States_Set st (sched_state (sched_threads u t))"
  define v where "v = upd_thread t (\<lambda>th. th\<lparr>sched_state := ?n\<rparr>) u"
  note V = upd_state [where t = t and st = ?n and u = u, folded v_def]
  have n: "?n \<noteq> 0" using assms(5) by (auto simp: States_Set_def bit_eq_iff bit_or_iff)
  have e: "Thread_Set_state_locked ready_operations t st u = (if Thread_Is_ready t u then ready_Block t v else Some v)"
    by (simp add: Thread_Set_state_locked_def Thread_Is_ready_def ready_operations_def v_def Let_def)
  show ?thesis
  proof (cases "Thread_Is_ready t u")
    case True
    have io: "in_order M T {} v" using D(1) V(1) by simp
    note X = extract_in_order [OF io, of t]
    have "\<exists>u'. ready_Block t v = Some u' \<and> reheired T (ready_extract t v) u' \<and> heir_ok u'"
      using assms(1,4) D(5,7) V(2,3) by (intro Block_ok) simp_all
    moreover have "queued (ready_extract t v) = {x \<in> T. Thread_Is_ready x (ready_extract t v)}"
      using X(2) V(3,7) D(2) n by auto
    ultimately show ?thesis
      unfolding e using True X(1) D V assms(4) by (intro keptI [of _ T "ready_extract t v"]) simp_all
  next
    case False
    have "queued v = {x \<in> T. Thread_Is_ready x v}" using V(3,7) D(2) n False by auto
    then show ?thesis
      unfolding e using False D V assms(4) reheired_refl by (intro keptI [of _ T v]) simp_all
  qed
qed

lemma Clear_state_ok:
  assumes "finite T" and "ready_inv M T idle u" and "t \<in> T"
  shows "kept M T idle u (Thread_Clear_state_locked ready_operations t st u)"
proof -
  note D = ready_invD [OF assms(2)]
  let ?p = "sched_state (sched_threads u t)" let ?n = "States_Clear st ?p"
  define v where "v = upd_thread t (\<lambda>th. th\<lparr>sched_state := ?n\<rparr>) u"
  note V = upd_state [where t = t and st = ?n and u = u, folded v_def]
  have e: "Thread_Clear_state_locked ready_operations t st u
      = (if ?p AND st \<noteq> 0 then if ?n = 0 then ready_Unblock t v else Some v else Some u)"
    by (simp add: Thread_Clear_state_locked_def ready_operations_def v_def Let_def)
  show ?thesis
  proof (cases "?p AND st \<noteq> 0")
    case True
    then have nr: "\<not> Thread_Is_ready t u" by (auto simp: Thread_Is_ready_def)
    then have tq: "t \<notin> queued v" using D(2) V(3) by simp
    have io: "in_order M T {} v" using D(1) V(1) by simp
    note P = put_in_order [OF io assms(3) tq]
    have idle: "idle \<noteq> t" using nr D(4) by auto
    show ?thesis
    proof (cases "?n = 0")
      case z: True
      have "\<exists>u'. ready_Unblock t v = Some u' \<and> reheired T (ready_append t v) u' \<and> heir_ok u'"
        using assms(1,3) io D(5) V(2) tq by (intro Unblock_ok) simp_all
      moreover have "queued (ready_append t v) = {x \<in> T. Thread_Is_ready x (ready_append t v)}"
        using P(3) V(3,7) D(2) z assms(3) by auto
      ultimately show ?thesis
        unfolding e using True z P(1) D V by (intro keptI [of _ T "ready_append t v"]) simp_all
    next
      case nz: False
      have "queued v = {x \<in> T. Thread_Is_ready x v}" using V(3,7) D(2) nz nr by auto
      then show ?thesis
        unfolding e using True nz D V idle reheired_refl by (intro keptI [of _ T v]) simp_all
    qed
  next
    case False
    then show ?thesis unfolding e using assms(2) by (simp add: kept_def)
  qed
qed

lemma Start_ok:
  assumes "finite T" and "ready_inv M T idle u" and "t \<in> T"
  shows "kept M T idle u (map_option snd (Thread_Start ready_operations t u))"
proof (cases "sched_state (sched_threads u t) AND STATES_DORMANT = 0")
  case True
  then show ?thesis using assms(2) by (simp add: Thread_Start_def kept_def)
next
  case False
  note D = ready_invD [OF assms(2)]
  define v where "v = Thread_Load_environment t u"
  have v: "v = upd_thread t (\<lambda>th. th\<lparr>is_preemptible := Start_is_preemptible th\<rparr>) u"
    by (simp add: v_def Thread_Load_environment_def)
  note V = upd_preempt [where t = t and f = Start_is_preemptible and u = u, folded v]
  have "\<not> Thread_Is_ready t u" using False by (auto simp: Thread_Is_ready_def)
  moreover have "Thread_Heir u \<in> queued u" using D(5) by (simp add: heir_ok_def)
  ultimately have "t \<noteq> Thread_Heir u" using D(2) by auto
  then have "heir_ok v" using V(7) D(5) by simp
  moreover have "queued v = {t \<in> T. Thread_Is_ready t v}" using V(2,6) D(2) by simp
  ultimately have "ready_inv M T idle v" using D(1,3,4,6) V(1,4,6) by (simp add: ready_inv_def)
  from Clear_state_ok [OF assms(1) this assms(3), of STATES_ALL_SET] V(3) show ?thesis
    using False by (auto simp: kept_def Thread_Start_def v_def)
qed

lemma Thread_Yield_ok:
  assumes "finite T" and "ready_inv M T idle u" and "t \<in> T"
  shows "kept M T idle u (Thread_Yield ready_operations t u)"
proof (cases "Thread_Is_ready t u")
  case True
  note D = ready_invD [OF assms(2)]
  note X = extract_in_order [OF D(1), of t, simplified]
  have tq: "t \<notin> queued (ready_extract t u)" using X(2) by simp
  define v where "v = ready_append t (ready_extract t u)"
  note P = put_in_order [OF X(1) assms(3) tq, folded v_def]
  have q: "queued v = queued u" using P(3) X(2) True D(2) assms(3) by auto
  then have "ready v \<noteq> []" using D(7) by (auto simp: queued_def)
  from Yield_ok [OF assms(1) this]
  have "\<exists>u'. ready_Yield t u = Some u' \<and> reheired T v u' \<and> heir_ok u'" by (simp add: ready_Yield_def v_def)
  moreover have "Thread_Yield ready_operations t u = ready_Yield t u"
    using True by (simp add: Thread_Yield_def ready_operations_def Thread_Is_ready_def)
  moreover have "queued v = {t \<in> T. Thread_Is_ready t v}" using q D(2) by (simp add: v_def)
  ultimately show ?thesis using P(1) D by (intro keptI [of _ T v]) (simp_all add: v_def)
next
  case False
  then show ?thesis using assms(2) by (simp add: Thread_Yield_def kept_def Thread_Is_ready_def)
qed

lemma Preempt_ok:
  assumes "finite T" and "ready_inv M T idle u" and "t \<in> T"
  shows "kept M T idle u (task_mode_preempt ready_operations t b u)"
proof -
  note D = ready_invD [OF assms(2)]
  define v where "v = upd_thread t (\<lambda>th. th\<lparr>is_preemptible := b\<rparr>) u"
  note V = upd_preempt [where t = t and f = "\<lambda>_. b" and u = u, folded v_def]
  have q: "queued v = {t \<in> T. Thread_Is_ready t v}" using V(2,6) D(2) by simp
  show ?thesis
  proof (cases "b \<and> \<not> is_preemptible (sched_threads u t)")
    case True
    have "Thread_Heir v \<in> queued v" using D(5) V(2,5) by (simp add: heir_ok_def)
    from Schedule_ok [OF assms(1) this]
    have "\<exists>u'. task_mode_preempt ready_operations t b u = Some u' \<and> reheired T v u' \<and> heir_ok u'"
      using True by (simp add: task_mode_preempt_def ready_operations_def ready_Schedule_def v_def Let_def)
    then show ?thesis using q D V by (intro keptI [of _ T v]) simp_all
  next
    case False
    then have "task_mode_preempt ready_operations t b u = Some v" by (auto simp: task_mode_preempt_def v_def Let_def)
    moreover have "heir_ok v" using False V(7) D(5) by auto
    ultimately show ?thesis using q D V reheired_refl by (intro keptI [of _ T v]) simp_all
  qed
qed

section \<open>Requests that change a priority\<close>

lemma or_order_bit: "unat (p OR group_order_bit g :: Priority_Control) div 2 = unat p div 2"
proof -
  have "drop_bit 1 (p OR group_order_bit g) = drop_bit 1 p" by (cases g) (simp_all add: drop_bit_or)
  then have "unat (drop_bit 1 (p OR group_order_bit g)) = unat (drop_bit 1 p)" by simp
  then show ?thesis by (simp add: drop_bit_eq_div unat_div)
qed

lemma sorted_insert_mid:
  "sorted (xs @ ys) \<Longrightarrow> (\<And>x. x \<in> set xs \<Longrightarrow> x \<le> p) \<Longrightarrow> (\<And>y. y \<in> set ys \<Longrightarrow> p < y) \<Longrightarrow> sorted (xs @ p # ys)"
  by (simp add: sorted_append less_imp_le)

lemma Plain_insert_ok:
  assumes "Priority_Plain_insert n p ns = (b, ns')" and "sorted (map snd ns)"
  shows "set ns' = insert (n, p) (set ns)" "sorted (map snd ns')"
    "distinct (map fst ns) \<Longrightarrow> n \<notin> fst ` set ns \<Longrightarrow> distinct (map fst ns')"
    "b \<longleftrightarrow> ns = [] \<or> p < snd (hd ns)" "hd ns' = (if b then (n, p) else hd ns)"
proof -
  let ?P = "\<lambda>c :: nat \<times> Priority_Control. \<not> p < snd c"
  have e: "b \<longleftrightarrow> takeWhile ?P ns = []" "ns' = takeWhile ?P ns @ (n, p) # dropWhile ?P ns"
    using assms(1) by (auto simp: Priority_Plain_insert_def case_prod_unfold Let_def)
  have split: "takeWhile ?P ns @ dropWhile ?P ns = ns" by simp
  have "set ns = set (takeWhile ?P ns) \<union> set (dropWhile ?P ns)" by (metis set_append split)
  then show s: "set ns' = insert (n, p) (set ns)" using e(2) by auto
  show "b \<longleftrightarrow> ns = [] \<or> p < snd (hd ns)" using e(1) by (cases ns) auto
  show "hd ns' = (if b then (n, p) else hd ns)" unfolding e by (cases ns) simp_all
  have sorted_split: "sorted (map snd (takeWhile ?P ns @ dropWhile ?P ns))" using assms(2) by simp
  then have srt: "sorted (map snd (takeWhile ?P ns))" "sorted (map snd (dropWhile ?P ns))"
    using sorted_split by (simp_all add: sorted_append del: takeWhile_dropWhile_id)
  have gt: "p < snd c" if c: "c \<in> set (dropWhile ?P ns)" for c
  proof -
    obtain x xs where x: "dropWhile ?P ns = x # xs" using list.set_cases [OF c] by blast
    then have "p < snd x" using hd_dropWhile [of ?P ns] by auto
    with srt(2) c x show ?thesis by auto
  qed
  have le: "snd c \<le> p" if "c \<in> set (takeWhile ?P ns)" for c using set_takeWhileD [OF that] by (simp add: not_less)
  have "sorted (map snd (takeWhile ?P ns) @ p # map snd (dropWhile ?P ns))"
  proof (rule sorted_insert_mid)
    show "sorted (map snd (takeWhile ?P ns) @ map snd (dropWhile ?P ns))" using sorted_split by (simp only: map_append)
    show "x \<le> p" if "x \<in> set (map snd (takeWhile ?P ns))" for x using that le unfolding set_map by blast
    show "p < x" if "x \<in> set (map snd (dropWhile ?P ns))" for x using that gt unfolding set_map by blast
  qed
  then show "sorted (map snd ns')" unfolding e(2) by simp
  assume "distinct (map fst ns)" and "n \<notin> fst ` set ns"
  moreover have "distinct (map fst (takeWhile ?P ns @ dropWhile ?P ns))" using \<open>distinct (map fst ns)\<close> split by simp
  moreover have "n \<notin> fst ` set (takeWhile ?P ns)" "n \<notin> fst ` set (dropWhile ?P ns)"
    using \<open>n \<notin> fst ` set ns\<close> by (auto dest: set_takeWhileD set_dropWhileD)
  ultimately show "distinct (map fst ns')" unfolding e(2) by (auto simp: distinct_append simp del: takeWhile_dropWhile_id)
qed

lemma Plain_extract_ok:
  assumes "distinct (map fst ns)" and "sorted (map snd ns)"
  shows "set (Priority_Plain_extract n ns) = {c \<in> set ns. fst c \<noteq> n}" "distinct (map fst (Priority_Plain_extract n ns))"
    "sorted (map snd (Priority_Plain_extract n ns))" "n \<notin> fst ` set (Priority_Plain_extract n ns)"
  using assms by (auto simp: Priority_Plain_extract_def distinct_map_filter sorted_filter case_prod_unfold)

text \<open>A thread with new contributors.\<close>

definition with_contributors ::
  "nat \<Rightarrow> (nat \<times> Priority_Control) list \<Rightarrow> Priority_Control \<Rightarrow> 'a processor_scheme \<Rightarrow> 'a processor_scheme" where
  "with_contributors t ns q = upd_thread t (\<lambda>th. th\<lparr>contributors := ns, thread_priority := snd (hd ns), node_priority := q\<rparr>)"

definition contributor_list :: "nat \<Rightarrow> (nat \<times> Priority_Control) list \<Rightarrow> bool" where
  "contributor_list M ns \<longleftrightarrow> ns \<noteq> [] \<and> distinct (map fst ns) \<and> sorted (map snd ns) \<and> (\<forall>c \<in> set ns. mapped_priority M (snd c))"

lemma contributors_ok_iff:
  "contributors_ok M th \<longleftrightarrow> contributor_list M (contributors th) \<and> thread_priority th = snd (hd (contributors th))"
  by (auto simp: contributors_ok_def contributor_list_def)

lemma with_contributors_ok:
  fixes u :: ready_context and q :: Priority_Control
  assumes "ready_inv M T idle u" and "t \<in> T" and "contributor_list M ns" and "unat q div 2 = unat (snd (hd ns)) div 2"
  defines "v \<equiv> with_contributors t ns q u"
  shows "in_order M T {t} v" "snd (hd ns) = thread_priority (sched_threads u t) \<Longrightarrow> in_order M T {} v"
    "queued v = queued u" "Thread_Heir v = Thread_Heir u" "Thread_Is_ready x v = Thread_Is_ready x u" "heir_ok v"
    "unaccounted T v = unaccounted T u" "x \<in> T \<Longrightarrow> contributors_ok M (sched_threads v x)"
proof -
  note D = ready_invD [OF assms(1)] and O = in_orderD [OF ready_invD(1) [OF assms(1)]]
  have m: "mapped_priority M (snd (hd ns))" using assms(3) by (simp add: contributor_list_def)
  have ok: "thread_ok M (sched_threads v x)" if "x \<in> T" for x
    using O(1) [OF that] m assms(4) by (simp add: v_def with_contributors_def thread_ok_def mapped_priority_def)
  have l: "level x v = level x u" if "x \<noteq> t \<or> snd (hd ns) = thread_priority (sched_threads u t)" for x
    using that by (auto simp: v_def with_contributors_def level_def)
  have r: "ready v = ready u" by (simp add: v_def with_contributors_def)
  show q: "queued v = queued u" by (simp add: r queued_def)
  show "in_order M T {t} v" "snd (hd ns) = thread_priority (sched_threads u t) \<Longrightarrow> in_order M T {} v"
    unfolding in_order_def q r using ok O l by auto
  show "Thread_Heir v = Thread_Heir u" by (simp add: v_def with_contributors_def)
  show "Thread_Is_ready x v = Thread_Is_ready x u" by (simp add: v_def with_contributors_def Thread_Is_ready_def)
  show "heir_ok v" using D(5) q r by (simp add: heir_ok_def) (simp add: v_def with_contributors_def)
  have "(\<Sum>x \<in> T. cpu_time_used (sched_threads v x)) = (\<Sum>x \<in> T. cpu_time_used (sched_threads u x))"
    by (intro sum.cong) (simp_all add: v_def with_contributors_def)
  then show "unaccounted T v = unaccounted T u" by (simp add: unaccounted_def v_def with_contributors_def)
  show "contributors_ok M (sched_threads v x)" if "x \<in> T"
    using D(6) [OF that] assms(3) by (simp add: v_def with_contributors_def contributors_ok_iff)
qed

lemma Update_priority_ok:
  assumes "finite T" and "ready_inv M T idle u" and "t \<in> T" and "contributor_list M ns" and "unat q div 2 = unat (snd (hd ns)) div 2"
  shows "kept M T idle u (ready_Update_priority t (with_contributors t ns q u))"
    "snd (hd ns) = thread_priority (sched_threads u t) \<Longrightarrow> kept M T idle u (Some (with_contributors t ns q u))"
proof -
  note D = ready_invD [OF assms(2)]
  define v where "v = with_contributors t ns q u"
  note V = with_contributors_ok [OF assms(2-5), folded v_def]
  show "kept M T idle u (Some (with_contributors t ns q u))" if "snd (hd ns) = thread_priority (sched_threads u t)"
    unfolding v_def [symmetric] using V that D reheired_refl by (intro keptI [of _ T v]) simp_all
  show "kept M T idle u (ready_Update_priority t (with_contributors t ns q u))"
    unfolding v_def [symmetric]
  proof (cases "Thread_Is_ready t v")
    case True
    note X = extract_in_order [OF V(1), of t, simplified]
    have tq: "t \<notin> queued (ready_extract t v)" using X(2) by simp
    define w where "w = (if even (unat (Scheduler_Node_get_priority t v)) then ready_prepend else ready_append) t (ready_extract t v)"
    note P = put_in_order [OF X(1) assms(3) tq]
    have w: "in_order M T {} w" "queued w = queued u" "Thread_Heir w = Thread_Heir u" "unaccounted T w = unaccounted T u"
      "sched_threads w = sched_threads v" "Thread_Is_ready x w = Thread_Is_ready x u" for x
      using P X(2) V(3,4,5,7) True D(2) assms(3) unfolding w_def by auto
    have "Thread_Heir w \<in> queued w" using D(5) w(2,3) by (simp add: heir_ok_def)
    from Schedule_ok [OF assms(1) this]
    have "\<exists>u'. ready_Update_priority t v = Some u' \<and> reheired T w u' \<and> heir_ok u'"
      using True by (simp add: ready_Update_priority_def w_def)
    then show "kept M T idle u (ready_Update_priority t v)"
      using w D V(8) by (intro keptI [of _ T w]) simp_all
  next
    case False
    then have nq: "t \<notin> queued u" using D(2) V(5) by simp
    have "in_order M T {} v" using V(1) nq unfolding V(3) [symmetric] by (rule in_order_absent)
    then show "kept M T idle u (ready_Update_priority t v)"
      using False D V reheired_refl unfolding ready_Update_priority_def by (intro keptI [of _ T v]) simp_all
  qed
qed

lemma update_one: "Thread_Priority_update ops [t] s = op_update_priority ops t s"
  by (cases "op_update_priority ops t s") simp_all

lemma with_contributors_same:
  assumes "thread_priority (sched_threads s t) = snd (hd ns)"
  shows "with_contributors t ns (node_priority (sched_threads s t)) s = upd_thread t (\<lambda>th. th\<lparr>contributors := ns\<rparr>) s"
proof -
  have "(sched_threads s t)\<lparr>contributors := ns, thread_priority := snd (hd ns), node_priority := node_priority (sched_threads s t)\<rparr>
      = (sched_threads s t)\<lparr>contributors := ns\<rparr>"
    using assms by (cases "sched_threads s t") simp
  then show ?thesis unfolding with_contributors_def by simp
qed

lemma action_ok:
  assumes "finite T" and "ready_inv M T idle u" and "t \<in> T" and "contributor_list M ns"
    and "snd (hd ns) \<noteq> thread_priority (sched_threads u t) \<Longrightarrow> changed"
  shows "kept M T idle u (Thread_Priority_update ready_operations (if changed then [t] else [])
    (if changed then with_contributors t ns (snd (hd ns) OR group_order_bit g) u
     else with_contributors t ns (node_priority (sched_threads u t)) u))"
proof (cases changed)
  case True
  then show ?thesis
    using Update_priority_ok(1) [OF assms(1-4) or_order_bit] by (simp add: update_one ready_operations_def del: Thread_Priority_update.simps)
next
  case False
  then have e: "snd (hd ns) = thread_priority (sched_threads u t)" using assms(5) by blast
  have "thread_ok M (sched_threads u t)" using in_orderD(1) [OF ready_invD(1) [OF assms(2)] assms(3)] .
  then have "unat (node_priority (sched_threads u t)) div 2 = unat (snd (hd ns)) div 2" using e by (simp add: thread_ok_def)
  from Update_priority_ok(2) [OF assms(1-4) this e] False show ?thesis by simp
qed

text \<open>What the three requests have in common: the new contributors, whether the priority changed, the order.\<close>

fun priority_request :: "request \<Rightarrow> nat option" where
  "priority_request (Priority_add t node p) = Some t"
| "priority_request (Priority_remove t node) = Some t"
| "priority_request (Priority_change t node p g) = Some t"
| "priority_request r = None"

fun action_result :: "request \<Rightarrow> sched_thread \<Rightarrow> (nat \<times> Priority_Control) list \<times> bool \<times> Priority_Group_order" where
  "action_result (Priority_add t node p) th =
     (snd (Priority_Plain_insert node p (contributors th)), fst (Priority_Plain_insert node p (contributors th)), PRIORITY_GROUP_LAST)"
| "action_result (Priority_remove t node) th =
     (let ns = Priority_Plain_extract node (contributors th)
      in (ns, the (map_of (contributors th) node) < snd (hd ns), PRIORITY_GROUP_FIRST))"
| "action_result (Priority_change t node p g) th =
     (let ns = snd (Priority_Plain_insert node p (Priority_Plain_extract node (contributors th)))
      in (ns, snd (hd ns) \<noteq> thread_priority th, g))"
| "action_result r th = (contributors th, False, PRIORITY_GROUP_LAST)"

definition after_action ::
  "nat \<Rightarrow> (nat \<times> Priority_Control) list \<Rightarrow> bool \<Rightarrow> Priority_Group_order \<Rightarrow> 'a processor_scheme \<Rightarrow> 'a processor_scheme" where
  "after_action t ns changed g s =
     (if changed then with_contributors t ns (snd (hd ns) OR group_order_bit g) s
      else upd_thread t (\<lambda>th. th\<lparr>contributors := ns\<rparr>) s)"

lemma perform_shape:
  assumes "priority_request r = Some t" and "action_result r (sched_threads s t) = (ns, c, g)"
  shows "perform ops r s = Thread_Priority_update ops (if c then [t] else []) (after_action t ns c g s)"
  using assms
proof (cases r)
  case (Priority_add t' node p)
  have "snd (hd (snd (Priority_Plain_insert node p xs))) = p" if "fst (Priority_Plain_insert node p xs)" for xs
    using that by (simp add: Priority_Plain_insert_def Let_def)
  then show ?thesis
    using assms Priority_add
    by (auto simp: Thread_Priority_do_perform_actions_def Priority_Non_empty_insert_def with_contributors_def after_action_def
        Thread_Set_scheduler_node_priority_def Scheduler_Node_set_priority_def case_prod_unfold)
qed (auto simp: Thread_Priority_do_perform_actions_def Priority_Extract_non_empty_def Priority_Changed_def priority_of_def
    with_contributors_def after_action_def Thread_Set_scheduler_node_priority_def Scheduler_Node_set_priority_def Let_def)

lemma add_facts:
  assumes "contributors_ok M th" and "mapped_priority M p" and "node \<notin> fst ` set (contributors th)"
    and "Priority_Plain_insert node p (contributors th) = (c, ns)"
  shows "contributor_list M ns" "c \<longleftrightarrow> snd (hd ns) \<noteq> thread_priority th"
proof -
  have C: "contributor_list M (contributors th)" "thread_priority th = snd (hd (contributors th))"
    using assms(1) by (simp_all add: contributors_ok_iff)
  have srt: "sorted (map snd (contributors th))" using C(1) by (simp add: contributor_list_def)
  note P = Plain_insert_ok [OF assms(4) srt]
  show "contributor_list M ns" using P C(1) assms(2,3) by (auto simp: contributor_list_def)
  show "c \<longleftrightarrow> snd (hd ns) \<noteq> thread_priority th" using P(4,5) C by (auto simp: contributor_list_def)
qed

lemma remove_facts:
  assumes "contributors_ok M th" and "node \<in> fst ` set (contributors th)" and "1 < length (contributors th)"
  defines "ns \<equiv> Priority_Plain_extract node (contributors th)" and "p \<equiv> the (map_of (contributors th) node)"
  shows "contributor_list M ns" "p < snd (hd ns) \<longleftrightarrow> snd (hd ns) \<noteq> thread_priority th"
proof -
  let ?ns = "contributors th"
  have C: "contributor_list M ?ns" "thread_priority th = snd (hd ?ns)" using assms(1) by (simp_all add: contributors_ok_iff)
  have srt: "distinct (map fst ?ns)" "sorted (map snd ?ns)" using C(1) by (simp_all add: contributor_list_def)
  note P = Plain_extract_ok [OF srt, of node, folded ns_def]
  obtain c cs where c: "?ns = c # cs" using assms(3) by (cases ?ns) auto
  have "map_of ?ns node \<noteq> None" using assms(2) by (simp add: map_of_eq_None_iff)
  then have p: "(node, p) \<in> set ?ns" unfolding p_def by (auto intro: map_of_SomeD)
  have ne: "ns \<noteq> []"
  proof
    assume "ns = []"
    then have n: "fst x = node" if "x \<in> set ?ns" for x using P(1) that by (cases x) auto
    obtain d ds where d: "cs = d # ds" using assms(3) c by (cases cs) auto
    have "fst c = node" "fst d = node" using n c d by auto
    then show False using srt(1) c d by simp
  qed
  then show "contributor_list M ns" using P C(1) by (auto simp: contributor_list_def)
  have hd: "hd ns \<in> set ?ns" using ne P(1) hd_in_set by blast
  have first: "snd c \<le> snd x" if "x \<in> set ?ns" for x using srt(2) c that by auto
  have same: "hd ns = c" if "fst c \<noteq> node" using that c by (simp add: ns_def Priority_Plain_extract_def case_prod_unfold)
  have "snd c = p" if "fst c = node"
    using that c p srt(1) by (metis eq_key_imp_eq_value list.set_intros(1) prod.collapse)
  then have same': "snd (hd ns) = thread_priority th" if "\<not> p < snd (hd ns)"
    using that same first [OF hd] C(2) c by (cases "fst c = node") (auto simp: not_less)
  moreover have "snd (hd ns) \<noteq> thread_priority th" if "p < snd (hd ns)" using that first [OF p] C(2) c by auto
  ultimately show "p < snd (hd ns) \<longleftrightarrow> snd (hd ns) \<noteq> thread_priority th" by blast
qed

lemma change_facts:
  assumes "contributors_ok M th" and "mapped_priority M p"
    and "Priority_Plain_insert node p (Priority_Plain_extract node (contributors th)) = (b, ns)"
  shows "contributor_list M ns"
proof -
  have C: "contributor_list M (contributors th)" using assms(1) by (simp add: contributors_ok_iff)
  then have srt: "distinct (map fst (contributors th))" "sorted (map snd (contributors th))" by (simp_all add: contributor_list_def)
  note X = Plain_extract_ok [OF srt, of node]
  show ?thesis using Plain_insert_ok [OF assms(3) X(3)] X C assms(2) by (auto simp: contributor_list_def)
qed

lemma action_facts:
  assumes "ready_inv M T idle u" and "priority_request r = Some t" and "allowed M T idle r u"
    and "action_result r (sched_threads u t) = (ns, c, g)"
  shows "t \<in> T" "contributor_list M ns" "c \<longleftrightarrow> snd (hd ns) \<noteq> thread_priority (sched_threads u t)"
proof -
  show t: "t \<in> T" using assms(2,3) by (cases r) auto
  note C = ready_invD(6) [OF assms(1) t]
  have "contributor_list M ns \<and> (c \<longleftrightarrow> snd (hd ns) \<noteq> thread_priority (sched_threads u t))"
  proof (cases r)
    case (Priority_add t' node p)
    then show ?thesis
      using assms(2-4) add_facts [OF C, of p node c ns] by (simp add: has_node_def prod_eq_iff)
  next
    case (Priority_remove t' node)
    then show ?thesis
      using assms(2-4) remove_facts [OF C, of node] by (simp add: has_node_def Let_def) blast
  next
    case (Priority_change t' node p g')
    then show ?thesis
      using assms(2-4) change_facts [OF C, of p node] by (simp add: has_node_def Let_def) (metis prod.collapse)
  qed (use assms(2) in simp_all)
  then show "contributor_list M ns" "c \<longleftrightarrow> snd (hd ns) \<noteq> thread_priority (sched_threads u t)" by simp_all
qed

lemma priority_request_ok:
  assumes "finite T" and "ready_inv M T idle u" and "priority_request r = Some t" and "allowed M T idle r u"
  shows "kept M T idle u (perform ready_operations r u)"
proof -
  obtain ns c g where a: "action_result r (sched_threads u t) = (ns, c, g)" by (metis prod_cases3)
  note F = action_facts [OF assms(2-4) a]
  have "after_action t ns c g u = (if c then with_contributors t ns (snd (hd ns) OR group_order_bit g) u
      else with_contributors t ns (node_priority (sched_threads u t)) u)"
    using with_contributors_same [of u t ns] F(3) by (simp add: after_action_def)
  with action_ok [OF assms(1,2) F(1,2), of c g] F(3) show ?thesis by (simp add: perform_shape [OF assms(3) a])
qed

lemma perform_ok:
  assumes "finite T" and "ready_inv M T idle u" and "allowed M T idle r u"
  shows "kept M T idle u (perform ready_operations r u)"
proof (cases r)
  case (Time_passes n)
  note D = ready_invD [OF assms(2)]
  have "reheired T u (u\<lparr>uptime := n\<rparr>)" "heir_ok (u\<lparr>uptime := n\<rparr>)"
    using D(5) by (simp_all add: reheired_def unaccounted_def heir_ok_def queued_def)
  then show ?thesis using Time_passes D by (intro keptI [of _ T u]) simp_all
next
  case (Priority_add t node p)
  then show ?thesis using priority_request_ok [of T M idle u r t] assms by simp
next
  case (Priority_remove t node)
  then show ?thesis using priority_request_ok [of T M idle u r t] assms by simp
next
  case (Priority_change t node p g)
  then show ?thesis using priority_request_ok [of T M idle u r t] assms by simp
qed (use assms Set_state_ok Clear_state_ok Start_ok Thread_Yield_ok Preempt_ok in simp_all)

lemma perform_all_ok:
  assumes "finite T" and "ready_inv M T idle u"
  shows "kept M T idle u (perform_all ready_operations M T idle rs u)"
  using assms(2)
proof (induction rs arbitrary: u)
  case Nil
  then show ?case by (simp add: kept_def)
next
  case (Cons r rs)
  show ?case
  proof (cases "allowed M T idle r u")
    case True
    from perform_ok [OF assms(1) Cons.prems True] obtain u' where
      u': "perform ready_operations r u = Some u'" "ready_inv M T idle u'" "unaccounted T u' = unaccounted T u"
      by (auto simp: kept_def)
    from Cons.IH [OF u'(2)] u' True show ?thesis by (simp add: kept_def)
  next
    case False
    then show ?thesis using Cons by simp
  qed
qed

end
