(* ===== verification/Scheduler_Requests.thy ===== *)
theory Scheduler_Requests
  imports Scheduler_Inv
begin

text \<open>
  In the interface of the schedulers, every request of the callers is simulated by the scheduler on
  the list, and so is every sequence of requests; as the invariant of the list is kept, the
  scheduler returns from all of them.
\<close>

section \<open>Requests are simulated\<close>

context scheduler_simulation
begin

definition simulated :: "'a processor_scheme option \<Rightarrow> ready_context option \<Rightarrow> bool" where
  "simulated a b \<longleftrightarrow> (\<forall>u. b = Some u \<longrightarrow> (\<exists>s. a = Some s \<and> R s u))"

lemma simulated_Some: "R s u \<Longrightarrow> simulated (Some s) (Some u)"
  by (simp add: simulated_def)

lemma simulatedI: "(\<And>u. b = Some u \<Longrightarrow> \<exists>s. a = Some s \<and> R s u) \<Longrightarrow> simulated a b"
  by (auto simp: simulated_def)

lemma sim_Set_state:
  assumes "R s u" and "ready_inv M T idle u" and "t \<in> T"
  shows "simulated (Thread_Set_state_locked ops t st s) (Thread_Set_state_locked ready_operations t st u)"
proof -
  note D = ready_invD [OF assms(2)]
  let ?f = "\<lambda>th. th\<lparr>sched_state := States_Set st (sched_state (sched_threads u t))\<rparr>"
  have r: "R (upd_thread t ?f s) (upd_thread t ?f u)" using assms(1) by (rule sim_upd_thread)
  note V = upd_state [where t = t and u = u and st = "States_Set st (sched_state (sched_threads u t))"]
  have "in_order M T {} (upd_thread t ?f u)" using D(1) V(1) by blast
  from sim_op_block [OF r this, of t] show ?thesis
    using V(3) D(2) r assms(1,3) sim_same(1) [OF assms(1)]
    by (auto simp: simulated_def Thread_Set_state_locked_def ready_operations_def Thread_Is_ready_def Let_def)
qed

lemma sim_Clear_state:
  assumes "R s u" and "in_order M T {} u" and "queued u = {t \<in> T. Thread_Is_ready t u}" and "t \<in> T" and "Thread_Heir u \<in> T"
  shows "simulated (Thread_Clear_state_locked ops t st s) (Thread_Clear_state_locked ready_operations t st u)"
proof -
  let ?f = "\<lambda>th. th\<lparr>sched_state := States_Clear st (sched_state (sched_threads u t))\<rparr>"
  have r: "R (upd_thread t ?f s) (upd_thread t ?f u)" using assms(1) by (rule sim_upd_thread)
  note V = upd_state [where t = t and u = u and st = "States_Clear st (sched_state (sched_threads u t))"]
  have "in_order M T {} (upd_thread t ?f u)" using assms(2) V(1) by blast
  note B = sim_op_unblock [OF r this assms(4)]
  have "simulated (op_unblock ops t (upd_thread t ?f s)) (ready_Unblock t (upd_thread t ?f u))"
    if "sched_state (sched_threads u t) AND st \<noteq> 0"
  proof -
    have "t \<notin> queued (upd_thread t ?f u)" using that V(3) assms(3) by (auto simp: Thread_Is_ready_def)
    with B assms(5) show ?thesis by (intro simulatedI) simp
  qed
  then show ?thesis
    using simulated_Some [OF r] simulated_Some [OF assms(1)] sim_same(1) [OF assms(1)]
    by (cases "States_Clear st (sched_state (sched_threads u t)) = 0")
      (simp_all add: Thread_Clear_state_locked_def ready_operations_def Let_def)
qed

lemma sim_Start:
  assumes "R s u" and "ready_inv M T idle u" and "t \<in> T"
  shows "simulated (map_option snd (Thread_Start ops t s)) (map_option snd (Thread_Start ready_operations t u))"
proof -
  note D = ready_invD [OF assms(2)]
  let ?u = "Thread_Load_environment t u"
  have r: "R (Thread_Load_environment t s) ?u"
    unfolding Thread_Load_environment_def using assms(1) by (rule sim_upd_thread)
  note V = upd_preempt [where t = t and f = Start_is_preemptible and u = u, folded Thread_Load_environment_def]
  have "?u = upd_thread t (\<lambda>th. th\<lparr>is_preemptible := Start_is_preemptible th\<rparr>) u" by (simp add: Thread_Load_environment_def)
  then have "in_order M T {} ?u" "queued ?u = {t \<in> T. Thread_Is_ready t ?u}" using D(1,2) V(1,2,6) by simp_all
  moreover have "Thread_Heir ?u \<in> T" using D(8) by (simp add: Thread_Load_environment_def)
  ultimately show ?thesis
    using sim_Clear_state [OF r _ _ assms(3), of STATES_ALL_SET]
      assms(1) sim_same(1) [OF assms(1)] by (auto simp: simulated_def Thread_Start_def split: bind_splits)
qed

lemma sim_Thread_Yield:
  assumes "R s u" and "ready_inv M T idle u" and "t \<in> T"
  shows "simulated (Thread_Yield ops t s) (Thread_Yield ready_operations t u)"
  using sim_op_yield [OF assms(1) ready_invD(1) [OF assms(2)], of t] ready_invD(2) [OF assms(2)] assms(1,3)
    sim_same(1) [OF assms(1)]
  by (auto simp: simulated_def Thread_Yield_def ready_operations_def Thread_Is_ready_def)

lemma sim_Preempt:
  assumes "R s u" and "ready_inv M T idle u" and "t \<in> T"
  shows "simulated (task_mode_preempt ops t b s) (task_mode_preempt ready_operations t b u)"
proof -
  note D = ready_invD [OF assms(2)]
  let ?f = "\<lambda>th. th\<lparr>is_preemptible := b\<rparr>"
  have r: "R (upd_thread t ?f s) (upd_thread t ?f u)" using assms(1) by (rule sim_upd_thread)
  note V = upd_preempt [where t = t and f = "\<lambda>_. b" and u = u]
  have "in_order M T {} (upd_thread t ?f u)" "ready (upd_thread t ?f u) \<noteq> []"
    using D(1,7) V(1) by (auto simp: queued_def)
  from sim_op_schedule [OF r this, of t] show ?thesis
    using r sim_same(1) [OF assms(1)]
    by (auto simp: simulated_def task_mode_preempt_def ready_operations_def Let_def)
qed

lemma sim_after_action:
  assumes "R s u"
  shows "R (after_action t ns c g s) (after_action t ns c g u)"
  unfolding after_action_def with_contributors_def using sim_upd_thread [OF assms] by (cases c) (simp_all only: if_True if_False)

lemma sim_priority_request:
  assumes "R s u" and "ready_inv M T idle u" and "priority_request r = Some t" and "allowed M T idle r u"
  shows "simulated (perform ops r s) (perform ready_operations r u)"
proof -
  obtain ns c g where a: "action_result r (sched_threads u t) = (ns, c, g)" by (metis prod_cases3)
  note F = action_facts [OF assms(2-4) a] and D = ready_invD [OF assms(2)]
  have e: "sched_threads s = sched_threads u" using sim_same(1) [OF assms(1)] .
  have as: "action_result r (sched_threads s t) = (ns, c, g)" using a e by simp
  let ?v = "after_action t ns c g u"
  have r: "R (after_action t ns c g s) ?v" using assms(1) by (rule sim_after_action)
  show ?thesis
  proof (cases c)
    case True
    then have v: "?v = with_contributors t ns (snd (hd ns) OR group_order_bit g) u" by (simp add: after_action_def)
    note V = with_contributors_ok [OF assms(2) F(1,2) or_order_bit [of _ g], folded v]
    have lev: "level t ?v \<noteq> level t u"
    proof -
      have "mapped_priority M (snd (hd ns))" using F(2) by (simp add: contributor_list_def)
      moreover have "thread_ok M (sched_threads u t)" using in_orderD(1) [OF D(1) F(1)] .
      moreover have "snd (hd ns) \<noteq> thread_priority (sched_threads u t)" using F(3) True by simp
      moreover have "level t ?v = unat (snd (hd ns)) div 2" by (simp add: v with_contributors_def level_def)
      ultimately show ?thesis
        unfolding level_def mapped_priority_def thread_ok_def word_unat_eq_iff by (metis dvd_div_eq_iff)
    qed
    have "Thread_Is_ready t ?v \<longleftrightarrow> t \<in> queued ?v" using V(3,5) D(2) F(1) by simp
    moreover have "i \<noteq> level t ?v" if "(t, i) \<in> set (ready ?v)" for i
      using that lev in_orderD(5) [OF D(1), of "(t, i)"] by (simp add: v with_contributors_def)
    ultimately have "simulated (op_update_priority ops t (after_action t ns c g s)) (ready_Update_priority t ?v)"
      using sim_op_update_priority [OF r V(1) F(1)] by (intro simulatedI) blast
    then show ?thesis
      unfolding perform_shape [OF assms(3) a] perform_shape [OF assms(3) as]
      using True by (simp add: update_one ready_operations_def del: Thread_Priority_update.simps)
  next
    case False
    then show ?thesis
      unfolding perform_shape [OF assms(3) a] perform_shape [OF assms(3) as] using r by (simp add: simulated_Some)
  qed
qed

lemma sim_perform:
  assumes "R s u" and "ready_inv M T idle u" and "allowed M T idle r u"
  shows "simulated (perform ops r s) (perform ready_operations r u)"
proof (cases "priority_request r")
  case (Some t)
  from sim_priority_request [OF assms(1,2) this assms(3)] show ?thesis .
next
  case None
  then show ?thesis
    using assms sim_Set_state [OF assms(1,2)] sim_Clear_state [OF assms(1) ready_invD(1,2) [OF assms(2)] _ ready_invD(8) [OF assms(2)]]
      sim_Start [OF assms(1,2)] sim_Thread_Yield [OF assms(1,2)] sim_Preempt [OF assms(1,2)] simulated_Some [OF sim_uptime [OF assms(1)]]
    by (cases r) simp_all
qed

lemma sim_allowed: "R s u \<Longrightarrow> allowed M T idle r s \<longleftrightarrow> allowed M T idle r u"
  using sim_same(1) [of s u] by (cases r) (simp_all add: has_node_def)

text \<open>Every sequence of requests: the scheduler returns, and its state is related to the one of the list.\<close>

lemma sim_perform_all:
  assumes "finite T" and "R s u" and "ready_inv M T idle u"
  shows "\<exists>s' u'. perform_all ops M T idle rs s = Some s' \<and> perform_all ready_operations M T idle rs u = Some u' \<and> R s' u'
    \<and> ready_inv M T idle u'"
  using assms(2,3)
proof (induction rs arbitrary: s u)
  case (Cons r rs)
  show ?case
  proof (cases "allowed M T idle r u")
    case True
    from perform_ok [OF assms(1) Cons.prems(2) True] obtain u1 where
      u1: "perform ready_operations r u = Some u1" "ready_inv M T idle u1" by (auto simp: kept_def)
    from sim_perform [OF Cons.prems True] u1(1) obtain s1 where s1: "perform ops r s = Some s1" "R s1 u1"
      by (auto simp: simulated_def)
    from Cons.IH [OF s1(2) u1(2)] show ?thesis using True s1(1) u1(1) sim_allowed [OF Cons.prems(1)] by simp
  next
    case False
    then show ?thesis using Cons sim_allowed [OF Cons.prems(1)] by simp
  qed
qed auto

end

end
