(* ===== verification/Scheduler_Priority.thy ===== *)
theory Scheduler_Priority
  imports Scheduler_Requests
begin

text \<open>
  The deterministic priority scheduler behaves like the scheduler on the list: the ready chain of
  a priority holds the threads of that level, the bit map the levels that occur, and every entry
  point respects that relation.
\<close>

section \<open>The deterministic priority scheduler\<close>

text \<open>The addresses of the ready chains.\<close>

definition controls :: "nat \<Rightarrow> nat \<Rightarrow> nat set" where
  "controls M base = (\<Union>i \<le> M. {Ready_at base i, Ready_at base i + 8})"

definition queue_ok :: "nat \<Rightarrow> nat \<Rightarrow> Scheduler_priority_Ready_queue \<Rightarrow> bool" where
  "queue_ok M base rq \<longleftrightarrow> unat (current_priority rq) \<le> M \<and> ready_chain rq = Ready_at base (unat (current_priority rq))
     \<and> Priority_map rq = Priority_bit_map_Initialize_information (current_priority rq)"

definition priority_rel :: "nat \<Rightarrow> nat \<Rightarrow> nat set \<Rightarrow> priority_context \<Rightarrow> ready_context \<Rightarrow> bool" where
  "priority_rel M base T s u \<longleftrightarrow> same_processor s u \<and> Ready s = base \<and> 0 < base \<and> M \<le> 255 \<and> 0 \<notin> T \<and> T \<inter> controls M base = {}
     \<and> (\<forall>t \<in> T. queue_ok M base (Ready_queue s t))
     \<and> (\<forall>r \<in> set (ready u). unat (current_priority (Ready_queue s (fst r))) = snd r)
     \<and> (\<forall>i \<le> M. chain (ready_links s) (Ready_at base i) (at_level i (ready u)))
     \<and> bit_map_inv (Bit_map s) \<and> priorities (Bit_map s) = snd ` set (ready u)"

lemma priority_relD:
  assumes "priority_rel M base T s u"
  shows "same_processor s u" "Ready s = base" "0 < base" "M \<le> 255" "0 \<notin> T" "T \<inter> controls M base = {}"
    "t \<in> T \<Longrightarrow> queue_ok M base (Ready_queue s t)"
    "(t, i) \<in> set (ready u) \<Longrightarrow> unat (current_priority (Ready_queue s t)) = i"
    "i \<le> M \<Longrightarrow> chain (ready_links s) (Ready_at base i) (at_level i (ready u))"
    "bit_map_inv (Bit_map s)" "priorities (Bit_map s) = snd ` set (ready u)"
  using assms by (auto simp: priority_rel_def)

lemma priority_relI:
  assumes "priority_rel M base T s u" and "same_processor s' u'" and "Ready s' = Ready s" and "Ready_queue s' = Ready_queue s"
    and "\<And>r. r \<in> set (ready u') \<Longrightarrow> unat (current_priority (Ready_queue s (fst r))) = snd r"
    and "\<And>i. i \<le> M \<Longrightarrow> chain (ready_links s') (Ready_at base i) (at_level i (ready u'))"
    and "bit_map_inv (Bit_map s')" and "priorities (Bit_map s') = snd ` set (ready u')"
  shows "priority_rel M base T s' u'"
  using assms by (auto simp: priority_rel_def)

lemma Ready_at_apart: "i \<noteq> j \<Longrightarrow> {Ready_at base i, Ready_at base i + 8} \<inter> {Ready_at base j, Ready_at base j + 8} = {}"
  by (auto simp: Ready_at_def)

lemma level_nodes_apart:
  assumes "distinct (map fst rs)" and "fst ` set rs \<subseteq> T" and "T \<inter> controls M base = {}" and "i \<le> M" and "j \<le> M" and "i \<noteq> j"
  shows "nodes (Ready_at base j) (at_level j rs) \<inter> nodes (Ready_at base i) (at_level i rs) = {}"
proof -
  have c: "{Ready_at base k, Ready_at base k + 8} \<subseteq> controls M base" if "k \<le> M" for k using that by (auto simp: controls_def)
  have "set (at_level k rs) \<subseteq> T" for k using assms(2) by force
  moreover have "set (at_level i rs) \<inter> set (at_level j rs) = {}"
    using assms(6) eq_key_imp_eq_value [OF assms(1)] by auto
  ultimately show ?thesis
    using c [OF assms(4)] c [OF assms(5)] assms(3) Ready_at_apart [OF assms(6), of base]
    unfolding nodes_def chain_addr by blast
qed

lemma thread_not_in_level:
  assumes "t \<in> T" and "t \<notin> fst ` set rs" and "T \<inter> controls M base = {}" and "i \<le> M"
  shows "t \<notin> nodes (Ready_at base i) (at_level i rs)"
  using assms by (force simp: nodes_def chain_addr controls_def)

lemma word_of_priority: "unat p = i \<Longrightarrow> (p :: uint32) = of_nat i"
  by auto

lemma same_processor_simps [simp]:
  "same_processor (s\<lparr>ready_links := m\<rparr>) u = same_processor s u" "same_processor (s\<lparr>Bit_map := b\<rparr>) u = same_processor s u"
  "same_processor (s\<lparr>Ready_queue := q\<rparr>) u = same_processor s u" "same_processor (x\<lparr>simple_links := m\<rparr>) u = same_processor x u"
  "same_processor s (v\<lparr>ready := rs\<rparr>) = same_processor s v" "same_processor x (v\<lparr>ready := rs\<rparr>) = same_processor x v"
  by (simp_all add: same_processor_def)

lemma same_level: "same_processor s u \<Longrightarrow> level t s = level t u"
  by (simp add: same_processor_def level_def)

text \<open>Appending or prepending a thread to its ready chain.\<close>

lemma priority_put:
  assumes "priority_rel M base T s u" and "in_order M T {} u" and "t \<in> T" and "t \<notin> queued u"
    and "unat (current_priority (Ready_queue s t)) = level t u"
  shows "priority_rel M base T (Scheduler_priority_Ready_queue_enqueue t s) (ready_append t u)"
    "priority_rel M base T (Scheduler_priority_Ready_queue_enqueue_first t s) (ready_prepend t u)"
proof -
  note R = priority_relD [OF assms(1)] and O = in_orderD [OF assms(2)]
  let ?i = "level t u"
  have i: "?i \<le> M" using level_le [OF assms(2,3)] .
  have q: "ready_chain (Ready_queue s t) = Ready_at base ?i"
    "Priority_map (Ready_queue s t) = Priority_bit_map_Initialize_information (of_nat ?i)"
    using R(7) [OF assms(3)] assms(5) word_of_priority [OF assms(5)] by (simp_all add: queue_ok_def)
  have t0: "t \<noteq> 0" "t \<notin> fst ` set (ready u)" using R(5) assms(3,4) by (auto simp: queued_def)
  have tn: "t \<notin> nodes (Ready_at base j) (at_level j (ready u))" if "j \<le> M" for j
    using assms(3) t0(2) R(6) that by (rule thread_not_in_level)
  have ap: "nodes (Ready_at base j) (at_level j (ready u)) \<inter> insert t (nodes (Ready_at base ?i) (at_level ?i (ready u))) = {}"
    if "j \<le> M" "j \<noteq> ?i" for j
    using level_nodes_apart [OF O(3) _ R(6) i that(1)] O(2) that tn [OF that(1)] by (auto simp: queued_def)
  have i256: "?i < 256" using i R(4) by simp
  note B = bit_map_Add_ok [OF R(10) i256]
  have cp: "unat (current_priority (Ready_queue s (fst r))) = snd r" if "r \<in> insert (t, ?i) (set (ready u))" for r
    using that R(8) assms(5) by (cases r) auto
  have "chain (Chain_Append_unprotected (Ready_at base ?i) t (ready_links s)) (Ready_at base j) (at_level j (put_last t ?i (ready u)))"
    if "j \<le> M" for j
    using chain_queue.append_ok [OF R(9) [OF i] tn [OF i] t0(1)] chain_queue.append_other [OF R(9) [OF i] R(9) [OF that] ap [OF that] tn [OF i]]
    by (simp add: at_level_put_last [OF O(4)])
  then show "priority_rel M base T (Scheduler_priority_Ready_queue_enqueue t s) (ready_append t u)"
    using R(1) cp B R(11) q
    by (intro priority_relI [OF assms(1)]) (simp_all add: Scheduler_priority_Ready_queue_enqueue_def ready_append_def Let_def)
  have "chain (Chain_Prepend_unprotected (Ready_at base ?i) t (ready_links s)) (Ready_at base j) (at_level j (put_first t ?i (ready u)))"
    if "j \<le> M" for j
    using chain_queue.prepend_ok [OF R(9) [OF i] tn [OF i] t0(1)] chain_queue.prepend_other [OF R(9) [OF i] R(9) [OF that] ap [OF that] tn [OF i]]
    by (simp add: at_level_put_first [OF O(4)])
  then show "priority_rel M base T (Scheduler_priority_Ready_queue_enqueue_first t s) (ready_prepend t u)"
    using R(1) cp B R(11) q
    by (intro priority_relI [OF assms(1)]) (simp_all add: Scheduler_priority_Ready_queue_enqueue_first_def ready_prepend_def Let_def)
qed

lemma Has_only_one_node_ok:
  assumes "chain m c xs" and "x \<in> set xs"
  shows "Chain_Has_only_one_node c m \<longleftrightarrow> xs = [x]"
proof -
  have d: "distinct xs" using chain_distinct [OF assms(1)] .
  have "xs \<noteq> []" using assms(2) by auto
  then have "Chain_Has_only_one_node c m \<longleftrightarrow> hd xs = last xs"
    using chain_ends(1,2) [OF assms(1)] by (simp add: Chain_Has_only_one_node_def)
  also have "\<dots> \<longleftrightarrow> xs = [x]"
    using d assms(2) by (cases xs) auto
  finally show ?thesis .
qed

lemma Initialize_empty_other:
  assumes "chain m d ys" and "nodes d ys \<inter> nodes c [] = {}"
  shows "chain (Chain_Initialize_empty c m) d ys"
  using assms(2) by (intro chain_frame [OF assms(1)]) (auto simp: Chain_Initialize_empty_def chain_updates nodes_def)

lemma priority_extract:
  assumes "priority_rel M base T s u" and "in_order M T X u" and "t \<in> queued u"
  shows "priority_rel M base T (Scheduler_priority_Ready_queue_extract t s) (ready_extract t u)"
proof -
  note R = priority_relD [OF assms(1)] and O = in_orderD [OF assms(2)]
  obtain i where ti: "(t, i) \<in> set (ready u)" using assms(3) by (auto simp: queued_def)
  have i: "i \<le> M" "i < 256" using O(6) [OF ti] R(4) by simp_all
  have T: "t \<in> T" "fst ` set (ready u) \<subseteq> T" using assms(3) O(2) by (auto simp: queued_def)
  have q: "ready_chain (Ready_queue s t) = Ready_at base i"
    "Priority_map (Ready_queue s t) = Priority_bit_map_Initialize_information (of_nat i)"
    using R(7) [OF T(1)] R(8) [OF ti] word_of_priority [OF R(8) [OF ti]] by (simp_all add: queue_ok_def)
  let ?xs = "at_level i (ready u)"
  have tx: "t \<in> set ?xs" using ti by simp
  note one = Has_only_one_node_ok [OF R(9) [OF i(1)] tx]
  note B = bit_map_Remove_ok [OF R(10) i(2)]
  have cp: "unat (current_priority (Ready_queue s (fst r))) = snd r" if "r \<in> set (take_out t (ready u))" for r
    using that R(8) [of "fst r" "snd r"] by simp
  have ap: "nodes (Ready_at base j) (at_level j (ready u)) \<inter> nodes (Ready_at base i) ?xs = {}" if "j \<le> M" "j \<noteq> i" for j
    using level_nodes_apart [OF O(3) T(2) R(6) i(1) that(1)] that(2) by auto
  have same: "at_level j (take_out t (ready u)) = at_level j (ready u)" if "j \<noteq> i" for j
    using that eq_key_imp_eq_value [OF O(3) ti] by (auto simp: at_level_take_out filter_id_conv)
  have d: "distinct ?xs" using O(3) by (rule distinct_at_level)
  show ?thesis
  proof (cases "?xs = [t]")
    case True
    have lv: "r = (t, i)" if "r \<in> set (ready u)" "snd r = i" for r
      using that True set_at_level [of "fst r" i "ready u"] by (cases r) auto
    have "at_level i (take_out t (ready u)) = []" using True by (simp add: at_level_take_out)
    moreover have "chain (Chain_Initialize_empty (Ready_at base i) (ready_links s)) (Ready_at base i) []"
      using R(3) by (intro Chain_Initialize_empty_ok) (simp add: Ready_at_def)
    moreover have "chain (Chain_Initialize_empty (Ready_at base i) (ready_links s)) (Ready_at base j) (at_level j (ready u))"
      if "j \<le> M" "j \<noteq> i" for j
      using ap [OF that] by (intro Initialize_empty_other R(9) that) (auto simp: nodes_def)
    ultimately have ch: "chain (Chain_Initialize_empty (Ready_at base i) (ready_links s)) (Ready_at base j) (at_level j (take_out t (ready u)))"
      if "j \<le> M" for j using that same [of j] by (cases "j = i") simp_all
    have pr: "snd ` set (ready u) - {i} = snd ` set (take_out t (ready u))"
    proof (intro set_eqI iffI)
      fix j assume "j \<in> snd ` set (ready u) - {i}"
      then obtain x where "(x, j) \<in> set (ready u)" "j \<noteq> i" by force
      moreover have "x \<noteq> t" using calculation eq_key_imp_eq_value [OF O(3) ti, of j] by auto
      ultimately show "j \<in> snd ` set (take_out t (ready u))" by force
    next
      fix j assume "j \<in> snd ` set (take_out t (ready u))"
      then obtain r where r: "r \<in> set (ready u)" "fst r \<noteq> t" "j = snd r" by auto
      have "j \<noteq> i" using lv [OF r(1)] r(2,3) by (metis fst_conv)
      then show "j \<in> snd ` set (ready u) - {i}" using r by simp
    qed
    show ?thesis
      using R(1) cp B R(11) q True one ch pr
      by (intro priority_relI [OF assms(1)]) (simp_all add: Scheduler_priority_Ready_queue_extract_def ready_extract_def Let_def)
  next
    case False
    obtain ys zs where xs: "?xs = ys @ t # zs" using tx by (meson split_list)
    have c: "chain (ready_links s) (Ready_at base i) (ys @ t # zs)" using R(9) [OF i(1)] xs by simp
    have "filter (\<lambda>x. x \<noteq> t) ys = ys" "filter (\<lambda>x. x \<noteq> t) zs = zs" using d xs by (auto simp: filter_id_conv)
    then have "at_level i (take_out t (ready u)) = ys @ zs" using xs by (simp add: at_level_take_out)
    moreover have "chain (Chain_Extract_unprotected t (ready_links s)) (Ready_at base j) (at_level j (ready u))"
      if "j \<le> M" "j \<noteq> i" for j
      using extract_keeps_other_chain [OF c R(9) [OF that(1)]] ap [OF that] xs by simp
    ultimately have ch: "chain (Chain_Extract_unprotected t (ready_links s)) (Ready_at base j) (at_level j (take_out t (ready u)))"
      if "j \<le> M" for j using that same [of j] Chain_Extract_ok(1) [OF c] by (cases "j = i") simp_all
    obtain x where "x \<in> set ?xs" "x \<noteq> t" using False d xs by (cases ys; cases zs) auto
    then have x: "(x, i) \<in> set (take_out t (ready u))" by simp
    have "snd ` set (ready u) = snd ` set (take_out t (ready u))"
    proof (intro set_eqI iffI)
      fix j assume "j \<in> snd ` set (ready u)"
      then obtain y where y: "(y, j) \<in> set (ready u)" by force
      show "j \<in> snd ` set (take_out t (ready u))"
      proof (cases "y = t")
        case True
        then have "j = i" using eq_key_imp_eq_value [OF O(3) ti] y by simp
        then show ?thesis using x by force
      next
        case False
        then show ?thesis using y by force
      qed
    qed auto
    then show ?thesis
      using R(1,10,11) cp q False one ch
      by (intro priority_relI [OF assms(1)]) (simp_all add: Scheduler_priority_Ready_queue_extract_def ready_extract_def Let_def)
  qed
qed

lemma priority_highest:
  assumes "priority_rel M base T s u" and "in_order M T X u" and "ready u \<noteq> []"
  shows "Scheduler_priority_Get_highest_ready s = ready_highest u"
proof -
  note R = priority_relD [OF assms(1)] and O = in_orderD [OF assms(2)]
  obtain t i rs where r: "ready u = (t, i) # rs" using assms(3) by (cases "ready u") auto
  have "Min (snd ` set (ready u)) = i" using O(4) r by (intro Min_eqI) auto
  then have g: "Priority_bit_map_Get_highest (Bit_map s) = Some (of_nat i)"
    using bit_map_Get_highest_ok(1) [OF R(10)] R(11) r by simp
  have i: "i \<le> M" using O(6) [of "(t, i)"] r by simp
  then have "unat (of_nat i :: uint32) = i" using R(4) by (simp add: unat32)
  moreover have "Chain_First (Ready_at base i) (ready_links s) = t"
    using chain_ends(1) [OF R(9) [OF i]] r by (simp add: at_level_def)
  ultimately show ?thesis using g R(2) r by (simp add: Scheduler_priority_Get_highest_ready_def ready_highest_def)
qed

lemma priority_update_queue:
  assumes "priority_rel M base T s u" and "t \<notin> queued u" and "unat p \<le> M"
  shows "priority_rel M base T (Scheduler_priority_Ready_queue_update t p s) u"
proof -
  note R = priority_relD [OF assms(1)]
  have "fst r \<noteq> t" if "r \<in> set (ready u)" for r using that assms(2) by (auto simp: queued_def)
  then show ?thesis
    using assms(1,3) by (auto simp: priority_rel_def Scheduler_priority_Ready_queue_update_def queue_ok_def)
qed

text \<open>The conversions of priorities.\<close>

lemma thread_ok_small:
  assumes "thread_ok M th" and "M \<le> 255"
  shows "unat (node_priority th) < 512" "unat (thread_priority th) < 512"
proof -
  have "unat (node_priority th) div 2 \<le> 255" "unat (thread_priority th) div 2 \<le> 255"
    using assms by (auto simp: thread_ok_def)
  then show "unat (node_priority th) < 512" "unat (thread_priority th) < 512" by linarith+
qed

lemma unat_narrow: "unat (p :: Priority_Control) < 512 \<Longrightarrow> unat (ucast p :: uint32) = unat p"
  by (simp add: unsigned_ucast_eq take_bit_nat_eq_self)

lemma widen_narrow: "unat (p :: Priority_Control) < 512 \<Longrightarrow> ucast (ucast p :: uint32) = p"
  using unat_narrow [of p] by (simp add: word_unat_eq_iff unsigned_ucast_eq unsigned_take_bit_eq take_bit_nat_eq_self)

lemma unat_unmap: "unat (SCHEDULER_PRIORITY_UNMAP p) = unat (p :: uint32) div 2"
  by (simp add: SCHEDULER_PRIORITY_UNMAP_def drop_bit_eq_div unat_div)

lemma unmapped_level:
  assumes "thread_ok M th" and "M \<le> 255"
  shows "unat (SCHEDULER_PRIORITY_UNMAP (ucast (node_priority th) :: uint32)) = unat (thread_priority th) div 2"
  using assms unat_narrow [OF thread_ok_small(1) [OF assms]] by (simp add: unat_unmap thread_ok_def)

lemma is_append_odd:
  assumes "unat (p :: Priority_Control) < 512"
  shows "SCHEDULER_PRIORITY_IS_APPEND (ucast p) \<longleftrightarrow> odd (unat p)"
proof -
  have "unat ((ucast p :: uint32) AND 1) = unat p mod 2" using unat_narrow [OF assms] by (simp add: and_one_eq unat_mod)
  then have "(ucast p :: uint32) AND 1 = 0 \<longleftrightarrow> unat p mod 2 = 0" by (metis unat_eq_zero)
  then show ?thesis by (auto simp: SCHEDULER_PRIORITY_IS_APPEND_def)
qed

lemma half_less: "(a :: nat) = 2 * x + m \<Longrightarrow> m < 2 \<Longrightarrow> b = 2 * y \<Longrightarrow> a < b \<longleftrightarrow> x < y"
  by presburger

lemma Unblock_node_priority:
  assumes "thread_ok M (sched_threads s t)" and "thread_ok M (sched_threads s (Thread_Heir s))"
  shows "Scheduler_uniprocessor_Unblock t (node_priority (sched_threads s t)) s
    = Scheduler_uniprocessor_Unblock t (thread_priority (sched_threads s t)) s"
proof -
  let ?n = "unat (node_priority (sched_threads s t))" and ?p = "unat (thread_priority (sched_threads s t))"
    and ?h = "unat (thread_priority (sched_threads s (Thread_Heir s)))"
  have e: "even ?p" "even ?h" "?n div 2 = ?p div 2" using assms by (simp_all add: thread_ok_def)
  have "?n < ?h \<longleftrightarrow> ?n div 2 < ?h div 2" using e(2) by (intro half_less [where m = "?n mod 2"]) simp_all
  moreover have "?p < ?h \<longleftrightarrow> ?p div 2 < ?h div 2" using e(1,2) by (intro half_less [where m = 0]) simp_all
  ultimately have "?n < ?h \<longleftrightarrow> ?p < ?h" using e(3) by simp
  then show ?thesis by (simp add: Scheduler_uniprocessor_Unblock_def Thread_Get_priority_def word_less_nat_alt Let_def)
qed

subsection \<open>The entry points\<close>

interpretation priority_processor: processor_simulation "priority_rel M base T" for M base T
proof (unfold_locales, goal_cases)
  case (1 s u)
  then show ?case by (rule priority_relD(1))
qed (auto simp: priority_rel_def same_processor_def)

lemma same_threads: "priority_rel M base T s u \<Longrightarrow> sched_threads s = sched_threads u"
  by (drule priority_relD(1)) (simp add: same_processor_def)

lemma priority_Unblock_sim:
  assumes "priority_rel M base T s u" and "in_order M T {} u" and "t \<in> T" and "t \<notin> queued u"
    and "Thread_Heir u \<in> T" and "ready_Unblock t u = Some u'"
  shows "\<exists>s'. Scheduler_priority_Unblock t s = Some s' \<and> priority_rel M base T s' u'"
proof -
  note R = priority_relD [OF assms(1)] and O = in_orderD [OF assms(2)]
  have ok: "thread_ok M (sched_threads s t)" "thread_ok M (sched_threads s (Thread_Heir s))"
    using O(1) [OF assms(3)] O(1) [OF assms(5)] R(1) by (simp_all add: same_processor_def)
  let ?p = "SCHEDULER_PRIORITY_UNMAP (ucast (node_priority (sched_threads s t)) :: uint32)"
  have lev: "unat ?p = level t u" using unmapped_level [OF ok(1) R(4)] same_threads [OF assms(1)] by (simp add: level_def)
  have le: "unat ?p \<le> M" using lev level_le [OF assms(2,3)] by simp
  define s1 where "s1 = (if ?p \<noteq> current_priority (Ready_queue s t) then Scheduler_priority_Ready_queue_update t ?p s else s)"
  have r1: "priority_rel M base T s1 u"
    using assms(1) priority_update_queue [OF assms(1,4) le] by (simp add: s1_def)
  have "unat (current_priority (Ready_queue s1 t)) = level t u"
    using lev by (auto simp: s1_def Scheduler_priority_Ready_queue_update_def)
  from priority_put(1) [OF r1 assms(2-4) this]
  have r2: "priority_rel M base T (Scheduler_priority_Ready_queue_enqueue t s1) (ready_append t u)" .
  let ?s2 = "Scheduler_priority_Ready_queue_enqueue t s1"
  have th: "sched_threads ?s2 = sched_threads s" "Thread_Heir ?s2 = Thread_Heir s"
    by (simp_all add: s1_def Scheduler_priority_Ready_queue_enqueue_def Scheduler_priority_Ready_queue_update_def Let_def)
  have "Scheduler_priority_Unblock t s = Some (Scheduler_uniprocessor_Unblock t (node_priority (sched_threads ?s2 t)) ?s2)"
    using widen_narrow [OF thread_ok_small(1) [OF ok(1) R(4)]] th
    by (simp add: Scheduler_priority_Unblock_def Scheduler_Node_get_priority_def Let_def s1_def)
  also have "\<dots> = Some (Scheduler_uniprocessor_Unblock t (thread_priority (sched_threads s t)) ?s2)"
    using Unblock_node_priority [of M ?s2 t] ok th by simp
  finally show ?thesis
    using priority_processor.sim_Unblock [OF r2, of t "thread_priority (sched_threads s t)"] assms(6) same_threads [OF assms(1)]
    by (simp add: ready_Unblock_def Thread_Get_priority_def)
qed

lemma priority_Block_sim:
  assumes "priority_rel M base T s u" and "in_order M T {} u" and "t \<in> queued u" and "ready_Block t u = Some u'"
  shows "\<exists>s'. Scheduler_priority_Block t s = Some s' \<and> priority_rel M base T s' u'"
  unfolding Scheduler_priority_Block_def
  using assms(1) priority_extract [OF assms(1-3)]
    priority_highest [OF priority_extract [OF assms(1-3)] extract_in_order(1) [OF assms(2), simplified]] assms(4)
  by (rule priority_processor.sim_Block)

lemma put_back:
  assumes "distinct (map fst rs)" and "sorted (map snd rs)" and "at_level i rs = [t]"
  shows "put_last t i (take_out t rs) = rs"
proof -
  have "(t, i) \<in> set rs" using assms(3) set_at_level [of t i rs] by simp
  then obtain xs ys where rs: "rs = xs @ (t, i) # ys" by (meson split_list)
  have "at_level i xs = []" "at_level i ys = []" using assms(3) unfolding rs by (auto simp: at_level_def append_eq_Cons_conv)
  then have ne: "snd r \<noteq> i" if "r \<in> set xs \<union> set ys" for r using that by (auto simp: at_level_def filter_empty_conv)
  have x: "snd r < i" if "r \<in> set xs" for r using assms(2) that ne [of r] unfolding rs by (fastforce simp: sorted_append)
  have y: "i < snd r" if "r \<in> set ys" for r using assms(2) that ne [of r] unfolding rs by (fastforce simp: sorted_append)
  have "take_out t xs = xs" "take_out t ys = ys" using assms(1) unfolding rs by (force simp: take_out_def filter_id_conv)+
  then have o: "take_out t rs = xs @ ys" unfolding rs by (simp add: take_out_def)
  have "takeWhile (\<lambda>r. snd r \<le> i) ys = []" "dropWhile (\<lambda>r. snd r \<le> i) ys = ys" using y by (cases ys; force)+
  then have "takeWhile (\<lambda>r. snd r \<le> i) (xs @ ys) = xs" "dropWhile (\<lambda>r. snd r \<le> i) (xs @ ys) = ys"
    using x by (simp_all add: takeWhile_append2 dropWhile_append2 less_imp_le)
  then show ?thesis unfolding put_last_def o by (simp add: rs)
qed

lemma priority_Yield_sim:
  assumes "priority_rel M base T s u" and "in_order M T {} u" and "t \<in> queued u" and "ready_Yield t u = Some u'"
  shows "\<exists>s'. Scheduler_priority_Yield t s = Some s' \<and> priority_rel M base T s' u'"
proof -
  note R = priority_relD [OF assms(1)] and O = in_orderD [OF assms(2)]
  note X = extract_in_order [OF assms(2), of t, simplified] and E = priority_extract [OF assms(1-3)]
  obtain i where ti: "(t, i) \<in> set (ready u)" using assms(3) by (auto simp: queued_def)
  have i: "i \<le> M" "i = level t u" using O(6) [OF ti] O(5) [OF ti] by simp_all
  have T: "t \<in> T" using assms(3) O(2) by auto
  have tq: "t \<notin> queued (ready_extract t u)" using X(2) by simp
  have ch: "ready_chain (Ready_queue s t) = Ready_at base i" using R(7) [OF T] R(8) [OF ti] by (simp add: queue_ok_def)
  note one = Has_only_one_node_ok [OF R(9) [OF i(1)], of t]
  let ?v = "ready_append t (ready_extract t u)"
  define s1 where "s1 = (if \<not> Chain_Has_only_one_node (Ready_at base i) (ready_links s)
    then s\<lparr>ready_links := Chain_Append_unprotected (Ready_at base i) t (Chain_Extract_unprotected t (ready_links s))\<rparr> else s)"
  have lev: "level t (ready_extract t u) = level t u" by (simp add: level_def)
  have "priority_rel M base T s1 ?v"
  proof (cases "at_level i (ready u) = [t]")
    case True
    have "?v = u" using put_back [OF O(3,4) True] lev i(2) by (simp add: ready_append_def ready_extract_def level_def)
    then show ?thesis using True one ti assms(1) by (simp add: s1_def)
  next
    case False
    let ?e = "Scheduler_priority_Ready_queue_extract t s"
    have e: "?e = s\<lparr>ready_links := Chain_Extract_unprotected t (ready_links s)\<rparr>"
      using False one ti ch by (simp add: Scheduler_priority_Ready_queue_extract_def)
    have cp: "unat (current_priority (Ready_queue ?e t)) = level t (ready_extract t u)"
      using R(8) [OF ti] i(2) lev by (simp add: e)
    note P = priority_relD [OF priority_put(1) [OF E X(1) T tq cp]]
    have rd: "set (ready ?v) = set (ready u)"
    proof -
      have "r = (t, i)" if "r \<in> set (ready u)" "fst r = t" for r
        using eq_key_imp_eq_value [OF O(3) ti, of "snd r"] that by (metis prod.collapse)
      then have e: "insert (t, i) {r \<in> set (ready u). fst r \<noteq> t} = set (ready u)" using ti by blast
      have "set (ready ?v) = insert (t, i) {r \<in> set (ready u). fst r \<noteq> t}"
        using i(2) by (simp add: ready_append_def ready_extract_def level_def)
      then show ?thesis unfolding e .
    qed
    have "chain (ready_links s1) (Ready_at base j) (at_level j (ready ?v))" if "j \<le> M" for j
      using P(9) [OF that] False one ti ch by (simp add: s1_def e Scheduler_priority_Ready_queue_enqueue_def Let_def)
    then show ?thesis
      using R(1,10,11) P(8) rd False one ti
      by (intro priority_relI [OF assms(1)]) (auto simp: s1_def ready_append_def ready_extract_def R(8))
  qed
  moreover have "ready ?v \<noteq> []" by (simp add: ready_append_def put_last_def)
  moreover have "in_order M T {} ?v" using put_in_order(1) [OF X(1) T tq] .
  ultimately have "\<exists>s'. Scheduler_uniprocessor_Yield Scheduler_priority_Get_highest_ready s1 = Some s' \<and> priority_rel M base T s' u'"
    using priority_highest assms(4) by (intro priority_processor.sim_Yield [of M base T s1 ?v]) (simp_all add: ready_Yield_def)
  then show ?thesis by (simp add: Scheduler_priority_Yield_def ch s1_def Let_def)
qed

lemma priority_Update_sim:
  assumes "priority_rel M base T s u" and "in_order M T {t} u" and "t \<in> T" and "Thread_Is_ready t u \<longleftrightarrow> t \<in> queued u"
    and "\<And>i. (t, i) \<in> set (ready u) \<Longrightarrow> i \<noteq> level t u" and "ready_Update_priority t u = Some u'"
  shows "\<exists>s'. Scheduler_priority_Update_priority t s = Some s' \<and> priority_rel M base T s' u'"
proof (cases "Thread_Is_ready t u")
  case True
  note R = priority_relD [OF assms(1)] and O = in_orderD [OF assms(2)]
  note th = same_threads [OF assms(1)]
  have tq: "t \<in> queued u" using True assms(4) by simp
  then obtain i where ti: "(t, i) \<in> set (ready u)" by (auto simp: queued_def)
  note X = extract_in_order [OF assms(2), of t, simplified] and E = priority_extract [OF assms(1,2) tq]
  have nq: "t \<notin> queued (ready_extract t u)" using X(2) by simp
  have ok: "thread_ok M (sched_threads s t)" using O(1) [OF assms(3)] th by simp
  let ?n = "node_priority (sched_threads s t)" let ?p = "SCHEDULER_PRIORITY_UNMAP (ucast ?n :: uint32)"
  have lev: "unat ?p = level t u" using unmapped_level [OF ok R(4)] th by (simp add: level_def)
  have le: "unat ?p \<le> M" using lev level_le [OF assms(2,3)] by simp
  have ne: "?p \<noteq> current_priority (Ready_queue s t)" using assms(5) [OF ti] R(8) [OF ti] lev by auto
  define s1 where "s1 = Scheduler_priority_Ready_queue_update t ?p (Scheduler_priority_Ready_queue_extract t s)"
  have r1: "priority_rel M base T s1 (ready_extract t u)" unfolding s1_def by (rule priority_update_queue [OF E nq le])
  have cp: "unat (current_priority (Ready_queue s1 t)) = level t (ready_extract t u)"
    using lev by (simp add: s1_def Scheduler_priority_Ready_queue_update_def level_def)
  note P = priority_put [OF r1 X(1) assms(3) nq cp] and I = put_in_order [OF X(1) assms(3) nq]
  define s2 where "s2 = (if SCHEDULER_PRIORITY_IS_APPEND (ucast ?n) then Scheduler_priority_Ready_queue_enqueue t s1
    else Scheduler_priority_Ready_queue_enqueue_first t s1)"
  define v where "v = (if even (unat (Scheduler_Node_get_priority t u)) then ready_prepend else ready_append) t (ready_extract t u)"
  have "SCHEDULER_PRIORITY_IS_APPEND (ucast ?n) \<longleftrightarrow> odd (unat (Scheduler_Node_get_priority t u))"
    using is_append_odd [OF thread_ok_small(1) [OF ok R(4)]] th by (simp add: Scheduler_Node_get_priority_def)
  then have r2: "priority_rel M base T s2 v" "in_order M T {} v" using P I unfolding s2_def v_def by auto
  have "queued v \<noteq> {}" using I(3,4) unfolding v_def by auto
  then have "Scheduler_priority_Get_highest_ready s2 = ready_highest v" using priority_highest [OF r2] by (auto simp: queued_def)
  moreover have "Scheduler_uniprocessor_Schedule ready_highest v = Some u'" using assms(6) True by (simp add: ready_Update_priority_def v_def)
  ultimately have "\<exists>s'. Scheduler_uniprocessor_Schedule Scheduler_priority_Get_highest_ready s2 = Some s' \<and> priority_rel M base T s' u'"
    using r2(1) by (intro priority_processor.sim_Schedule)
  moreover have "Thread_Is_ready t s" using True th by (simp add: Thread_Is_ready_def)
  then have "Scheduler_priority_Update_priority t s = Scheduler_uniprocessor_Schedule Scheduler_priority_Get_highest_ready s2"
    using ne by (simp add: Scheduler_priority_Update_priority_def Scheduler_Node_get_priority_def s1_def s2_def Let_def)
  ultimately show ?thesis by simp
next
  case False
  then show ?thesis
    using assms(1,6) same_threads [OF assms(1)]
    by (simp add: Scheduler_priority_Update_priority_def ready_Update_priority_def Thread_Is_ready_def)
qed

interpretation priority: scheduler_simulation "priority_rel M base T" SCHEDULER_PRIORITY_ENTRY_POINTS M T for M base T
proof (unfold_locales, goal_cases)
  case (1 s u t u')
  then show ?case using priority_Block_sim by (simp add: SCHEDULER_PRIORITY_ENTRY_POINTS_def)
next
  case (2 s u t u')
  then show ?case using priority_Unblock_sim by (simp add: SCHEDULER_PRIORITY_ENTRY_POINTS_def)
next
  case (3 s u t u')
  then show ?case using priority_Yield_sim by (simp add: SCHEDULER_PRIORITY_ENTRY_POINTS_def)
next
  case (4 s u t u')
  then show ?case
    using priority_processor.sim_Schedule priority_highest [OF 4(1,2,3)]
    by (simp add: SCHEDULER_PRIORITY_ENTRY_POINTS_def Scheduler_priority_Schedule_def ready_Schedule_def)
next
  case (5 s u t u')
  then show ?case using priority_Update_sim by (simp add: SCHEDULER_PRIORITY_ENTRY_POINTS_def)
qed

end
