(* ===== verification/Scheduler_Simple.thy ===== *)
theory Scheduler_Simple
  imports Scheduler_Priority
begin

text \<open>
  The simple priority scheduler behaves like the scheduler on the list: its one chain is the list.
\<close>

section \<open>The simple priority scheduler\<close>

definition simple_rel :: "nat \<Rightarrow> nat \<Rightarrow> nat set \<Rightarrow> simple_context \<Rightarrow> ready_context \<Rightarrow> bool" where
  "simple_rel M base T s u \<longleftrightarrow> same_processor s u \<and> simple_Ready s = base \<and> M \<le> 255 \<and> 0 \<notin> T \<and> T \<inter> {base, base + 8} = {}
     \<and> chain (simple_links s) base (map fst (ready u))"

lemma simple_relD:
  assumes "simple_rel M base T s u"
  shows "same_processor s u" "simple_Ready s = base" "M \<le> 255" "0 \<notin> T" "T \<inter> {base, base + 8} = {}"
    "chain (simple_links s) base (map fst (ready u))" "sched_threads s = sched_threads u"
  using assms by (auto simp: simple_rel_def same_processor_def)

lemma simple_relI:
  assumes "simple_rel M base T s u" and "same_processor s' u'" and "simple_Ready s' = simple_Ready s"
    and "chain (simple_links s') base (map fst (ready u'))"
  shows "simple_rel M base T s' u'"
  using assms by (auto simp: simple_rel_def)

interpretation simple_processor: processor_simulation "simple_rel M base T" for M base T
proof (unfold_locales, goal_cases)
  case (1 s u)
  then show ?case by (rule simple_relD(1))
qed (auto simp: simple_rel_def same_processor_def)

lemma simple_extract:
  assumes "simple_rel M base T s u" and "in_order M T X u" and "t \<in> queued u"
  shows "simple_rel M base T (Scheduler_simple_Extract t s) (ready_extract t u)"
proof -
  note R = simple_relD [OF assms(1)] and O = in_orderD [OF assms(2)]
  have "t \<in> set (map fst (ready u))" using assms(3) by (simp add: queued_def)
  then obtain xs ys where xs: "map fst (ready u) = xs @ t # ys" by (meson split_list)
  have "map fst (take_out t (ready u)) = filter (\<lambda>x. x \<noteq> t) (map fst (ready u))"
    by (simp add: take_out_def filter_map comp_def)
  moreover have "filter (\<lambda>x. x \<noteq> t) xs = xs" "filter (\<lambda>x. x \<noteq> t) ys = ys" using O(3) unfolding xs by (auto simp: filter_id_conv)
  ultimately have "map fst (take_out t (ready u)) = xs @ ys" unfolding xs by simp
  moreover have "chain (Chain_Extract_unprotected t (simple_links s)) base (xs @ ys)"
    using Chain_Extract_ok(1) [of _ base xs t ys] R(6) xs by simp
  ultimately show ?thesis
    using R(1) by (intro simple_relI [OF assms(1)]) (simp_all add: Scheduler_simple_Extract_def ready_extract_def)
qed

text \<open>Where a thread goes in the chain, by the words that are compared.\<close>

lemma insert_place:
  assumes "\<And>r. r \<in> set rs \<Longrightarrow> Q (fst r) \<longleftrightarrow> \<not> P r"
  shows "ordered_insert Q t (map fst rs) = map fst (takeWhile P rs @ (t, i) # dropWhile P rs)"
proof -
  have "takeWhile (\<lambda>y. \<not> Q y) (map fst rs) = map fst (takeWhile P rs)"
    "dropWhile (\<lambda>y. \<not> Q y) (map fst rs) = map fst (dropWhile P rs)"
    using assms by (simp_all add: takeWhile_map dropWhile_map comp_def cong: takeWhile_cong dropWhile_cong)
  then show ?thesis by (simp add: ordered_insert_def)
qed

lemma simple_Insert_sim:
  assumes "simple_rel M base T s u" and "in_order M T {} u" and "t \<in> T" and "t \<notin> queued u"
    and "unat p div 2 = level t u" and "unat p < 512"
  shows "\<exists>s'. Scheduler_simple_Insert t p s = Some s'
    \<and> simple_rel M base T s' ((if even (unat p) then ready_prepend else ready_append) t u)
    \<and> sched_threads s' = sched_threads s \<and> Thread_Heir s' = Thread_Heir s"
proof -
  note R = simple_relD [OF assms(1)] and O = in_orderD [OF assms(2)]
  have n: "t \<notin> nodes base (map fst (ready u))" using R(5) assms(3,4) by (auto simp: nodes_def chain_addr queued_def)
  have t0: "t \<noteq> 0" using R(4) assms(3) by metis
  let ?Q = "Scheduler_simple_Priority_less_equal s p"
  obtain m where m: "Chain_Insert_ordered_unprotected base t ?Q (simple_links s) = Some m"
    "chain m base (ordered_insert ?Q t (map fst (ready u)))"
    using Chain_Insert_ordered_ok [OF R(6) n t0] by blast
  have up: "unat (ucast p :: Priority_Control) = unat p" using assms(6) by (simp add: unsigned_ucast_eq take_bit_nat_eq_self)
  have Q: "?Q (fst r) \<longleftrightarrow> unat p \<le> 2 * snd r" if r: "r \<in> set (ready u)" for r
  proof -
    have "fst r \<in> T" using r O(2) by (auto simp: queued_def)
    then have "even (unat (thread_priority (sched_threads u (fst r))))" using O(1) by (simp add: thread_ok_def)
    then have "unat (thread_priority (sched_threads u (fst r))) = 2 * snd r" using O(5) [OF r] by (simp add: level_def)
    then show ?thesis
      using R(7) up by (simp add: Scheduler_simple_Priority_less_equal_def Thread_Get_priority_def word_le_nat_alt)
  qed
  have pp: "unat p = 2 * level t u + unat p mod 2" using assms(5) by (metis mult_div_mod_eq)
  have "chain m base (map fst (ready ((if even (unat p) then ready_prepend else ready_append) t u)))"
  proof (cases "even (unat p)")
    case True
    then have "?Q (fst r) \<longleftrightarrow> \<not> snd r < level t u" if "r \<in> set (ready u)" for r using Q [OF that] pp by auto
    from insert_place [of "ready u" ?Q, OF this] m(2) True show ?thesis by (simp add: ready_prepend_def put_first_def)
  next
    case False
    then have "unat p mod 2 = 1" by presburger
    then have "?Q (fst r) \<longleftrightarrow> \<not> snd r \<le> level t u" if "r \<in> set (ready u)" for r using Q [OF that] pp by linarith
    from insert_place [of "ready u" ?Q, OF this] m(2) False show ?thesis by (simp add: ready_append_def put_last_def)
  qed
  then have "simple_rel M base T (s\<lparr>simple_links := m\<rparr>) ((if even (unat p) then ready_prepend else ready_append) t u)"
    using R(1) by (intro simple_relI [OF assms(1)]) (simp_all add: ready_prepend_def ready_append_def)
  then show ?thesis using m(1) R(2) by (simp add: Scheduler_simple_Insert_def)
qed

lemma append_priority:
  assumes "thread_ok M th" and "M \<le> 255"
  defines "p \<equiv> SCHEDULER_PRIORITY_APPEND (ucast (thread_priority th))"
  shows "unat p div 2 = unat (thread_priority th) div 2" "odd (unat p)" "unat p < 512"
proof -
  let ?q = "ucast (thread_priority th) :: uint32"
  have q: "unat ?q = unat (thread_priority th)" using unat_narrow [OF thread_ok_small(2) [OF assms(1,2)]] .
  have "even (unat ?q)" using assms(1) q by (simp add: thread_ok_def)
  then have "?q AND 1 = 0" by (simp add: and_one_eq word_unat_eq_iff unat_mod)
  then have "p = ?q + 1" by (simp add: p_def SCHEDULER_PRIORITY_APPEND_def disjunctive_add_eq_or)
  moreover have "unat (?q + 1) = unat ?q + 1"
    using q thread_ok_small(2) [OF assms(1,2)] by (simp add: unat_word_ariths(1))
  ultimately have "unat p = unat (thread_priority th) + 1" using q by simp
  moreover have "even (unat (thread_priority th))" "unat (thread_priority th) div 2 \<le> 255" using assms(1,2) by (auto simp: thread_ok_def)
  ultimately show "unat p div 2 = unat (thread_priority th) div 2" "odd (unat p)" "unat p < 512" by (auto elim!: evenE)
qed

lemma simple_highest: "simple_rel M base T s u \<Longrightarrow> ready u \<noteq> [] \<Longrightarrow> Scheduler_simple_Get_highest_ready s = ready_highest u"
  using chain_ends(1) [OF simple_relD(6), of M base T s u] simple_relD(2) [of M base T s u]
  by (cases "ready u") (simp_all add: Scheduler_simple_Get_highest_ready_def ready_highest_def)

lemma simple_Append_sim:
  assumes "simple_rel M base T s u" and "in_order M T {} u" and "t \<in> T" and "t \<notin> queued u"
  shows "\<exists>s'. Scheduler_simple_Insert t (SCHEDULER_PRIORITY_APPEND (ucast (Thread_Get_priority t s))) s = Some s'
    \<and> simple_rel M base T s' (ready_append t u) \<and> sched_threads s' = sched_threads s \<and> Thread_Heir s' = Thread_Heir s"
proof -
  note R = simple_relD [OF assms(1)]
  have ok: "thread_ok M (sched_threads s t)" using in_orderD(1) [OF assms(2,3)] R(7) by simp
  note A = append_priority [OF ok R(3)]
  from simple_Insert_sim [OF assms _ A(3)] A(1,2) R(7) show ?thesis
    by (simp add: Thread_Get_priority_def level_def)
qed

lemma simple_Block_sim:
  assumes "simple_rel M base T s u" and "in_order M T {} u" and "t \<in> queued u" and "ready_Block t u = Some u'"
  shows "\<exists>s'. Scheduler_simple_Block t s = Some s' \<and> simple_rel M base T s' u'"
  unfolding Scheduler_simple_Block_def
  using assms(1) simple_extract [OF assms(1-3)] simple_highest [OF simple_extract [OF assms(1-3)]] assms(4)
  by (rule simple_processor.sim_Block)

lemma simple_Unblock_sim:
  assumes "simple_rel M base T s u" and "in_order M T {} u" and "t \<in> T" and "t \<notin> queued u" and "ready_Unblock t u = Some u'"
  shows "\<exists>s'. Scheduler_simple_Unblock t s = Some s' \<and> simple_rel M base T s' u'"
proof -
  note R = simple_relD [OF assms(1)]
  from simple_Append_sim [OF assms(1-4)] obtain s1 where
    s1: "Scheduler_simple_Insert t (SCHEDULER_PRIORITY_APPEND (ucast (Thread_Get_priority t s))) s = Some s1"
    "simple_rel M base T s1 (ready_append t u)" by blast
  have "thread_ok M (sched_threads s t)" using in_orderD(1) [OF assms(2,3)] R(7) by simp
  then have "ucast (ucast (Thread_Get_priority t s) :: uint32) = Thread_Get_priority t s"
    using widen_narrow [OF thread_ok_small(2)] R(3) by (simp add: Thread_Get_priority_def)
  then show ?thesis
    using s1 simple_processor.sim_Unblock [OF s1(2), of t "Thread_Get_priority t s"] assms(5) R(7)
    by (simp add: Scheduler_simple_Unblock_def ready_Unblock_def Thread_Get_priority_def)
qed

lemma simple_Yield_sim:
  assumes "simple_rel M base T s u" and "in_order M T {} u" and "t \<in> queued u" and "ready_Yield t u = Some u'"
  shows "\<exists>s'. Scheduler_simple_Yield t s = Some s' \<and> simple_rel M base T s' u'"
proof -
  note X = extract_in_order [OF assms(2), of t, simplified] and E = simple_extract [OF assms(1-3)]
  have T: "t \<in> T" "t \<notin> queued (ready_extract t u)" using assms(3) in_orderD(2) [OF assms(2)] X(2) by auto
  from simple_Append_sim [OF E X(1) T] obtain s1 where
    s1: "Scheduler_simple_Insert t (SCHEDULER_PRIORITY_APPEND (ucast (Thread_Get_priority t (Scheduler_simple_Extract t s))))
       (Scheduler_simple_Extract t s) = Some s1" "simple_rel M base T s1 (ready_append t (ready_extract t u))" by blast
  have "ready (ready_append t (ready_extract t u)) \<noteq> []" by (simp add: ready_append_def put_last_def)
  from simple_processor.sim_Yield [where highest = Scheduler_simple_Get_highest_ready, OF s1(2) simple_highest [OF s1(2) this], of u'] assms(4) s1(1) show ?thesis
    by (simp add: Scheduler_simple_Yield_def ready_Yield_def Scheduler_simple_Extract_def)
qed

lemma simple_Update_sim:
  assumes "simple_rel M base T s u" and "in_order M T {t} u" and "t \<in> T" and "Thread_Is_ready t u \<longleftrightarrow> t \<in> queued u"
    and "ready_Update_priority t u = Some u'"
  shows "\<exists>s'. Scheduler_simple_Update_priority t s = Some s' \<and> simple_rel M base T s' u'"
proof (cases "Thread_Is_ready t u")
  case True
  note R = simple_relD [OF assms(1)]
  have tq: "t \<in> queued u" using True assms(4) by simp
  note X = extract_in_order [OF assms(2), of t, simplified] and E = simple_extract [OF assms(1,2) tq]
  have nq: "t \<notin> queued (ready_extract t u)" using X(2) by simp
  have ok: "thread_ok M (sched_threads s t)" using in_orderD(1) [OF assms(2,3)] R(7) by simp
  note n = unat_narrow [OF thread_ok_small(1) [OF ok R(3)]]
  have p: "unat (ucast (node_priority (sched_threads s t)) :: uint32) div 2 = level t (ready_extract t u)"
    "unat (ucast (node_priority (sched_threads s t)) :: uint32) < 512"
    using n ok R(7) thread_ok_small(1) [OF ok R(3)] by (simp_all add: level_def thread_ok_def)
  define v where "v = (if even (unat (Scheduler_Node_get_priority t u)) then ready_prepend else ready_append) t (ready_extract t u)"
  from simple_Insert_sim [OF E X(1) assms(3) nq p] n R(7) obtain s1 where
    s1: "Scheduler_simple_Insert t (ucast (node_priority (sched_threads s t))) (Scheduler_simple_Extract t s) = Some s1"
    "simple_rel M base T s1 v" by (auto simp: v_def Scheduler_Node_get_priority_def)
  have "ready v \<noteq> []" by (simp add: v_def ready_append_def ready_prepend_def put_last_def put_first_def)
  from simple_processor.sim_Schedule [where highest = Scheduler_simple_Get_highest_ready, OF s1(2) simple_highest [OF s1(2) this], of u'] assms(5) s1(1) True R(7) show ?thesis
    by (simp add: Scheduler_simple_Update_priority_def ready_Update_priority_def v_def Thread_Is_ready_def Scheduler_Node_get_priority_def)
next
  case False
  then show ?thesis
    using assms(1,5) simple_relD(7) [OF assms(1)]
    by (simp add: Scheduler_simple_Update_priority_def ready_Update_priority_def Thread_Is_ready_def)
qed

interpretation simple: scheduler_simulation "simple_rel M base T" SCHEDULER_SIMPLE_ENTRY_POINTS M T for M base T
proof (unfold_locales, goal_cases)
  case (1 s u t u')
  then show ?case using simple_Block_sim by (simp add: SCHEDULER_SIMPLE_ENTRY_POINTS_def)
next
  case (2 s u t u')
  then show ?case using simple_Unblock_sim by (simp add: SCHEDULER_SIMPLE_ENTRY_POINTS_def)
next
  case (3 s u t u')
  then show ?case using simple_Yield_sim by (simp add: SCHEDULER_SIMPLE_ENTRY_POINTS_def)
next
  case (4 s u t u')
  then show ?case
    using simple_processor.sim_Schedule simple_highest [OF 4(1,3)]
    by (simp add: SCHEDULER_SIMPLE_ENTRY_POINTS_def Scheduler_simple_Schedule_def ready_Schedule_def)
next
  case (5 s u t u')
  then show ?case using simple_Update_sim by (simp add: SCHEDULER_SIMPLE_ENTRY_POINTS_def)
qed

end
