(* ===== verification/Scheduler_System.thy ===== *)
theory Scheduler_System
  imports Scheduler_Simple
begin

text \<open>
  The start of the system (the idle thread, then the other threads, all dormant) establishes the
  relations of the schedulers to the list, so that what is proved of the list holds for both
  schedulers after every sequence of requests.
\<close>

section \<open>The start of the system\<close>

fun create_threads ::
  "'a processor_scheme scheduler_operations \<Rightarrow> (nat \<times> Priority_Control \<times> bool) list \<Rightarrow> 'a processor_scheme \<Rightarrow> 'a processor_scheme" where
  "create_threads ops [] s = s"
| "create_threads ops ((t, p, preemptible) # cs) s = create_threads ops cs (Thread_Try_initialize ops t p preemptible s)"

definition system_start ::
  "'a processor_scheme scheduler_operations \<Rightarrow> nat \<Rightarrow> nat \<Rightarrow> (nat \<times> Priority_Control \<times> bool) list
    \<Rightarrow> 'a processor_scheme \<Rightarrow> 'a processor_scheme option" where
  "system_start ops M idle cs s = map_option (create_threads ops cs) (Thread_Create_idle ops M idle s)"

definition threads_of :: "nat \<Rightarrow> (nat \<times> Priority_Control \<times> bool) list \<Rightarrow> nat set" where
  "threads_of idle cs = insert idle (fst ` set cs)"

subsection \<open>On the list\<close>

lemma Try_initialize_list:
  fixes u :: ready_context and t :: nat and p :: Priority_Control and b :: bool
  defines "v \<equiv> Thread_Try_initialize ready_operations t p b u"
  shows "sched_threads v = (sched_threads u)(t := (sched_threads u t)\<lparr>is_preemptible := False, cpu_time_used := 0,
      Start_is_preemptible := b, node_priority := p, thread_priority := p, contributors := [(0, p)], sched_state := STATES_DORMANT\<rparr>)"
    "ready v = ready u" "Thread_Heir v = Thread_Heir u" "cpu_usage_timestamp v = cpu_usage_timestamp u" "uptime v = uptime u"
    "Thread_Dispatch_necessary v = Thread_Dispatch_necessary u"
  by (cases "sched_threads u t",
      simp_all add: v_def Thread_Try_initialize_def Thread_Initialize_scheduler_and_wait_nodes_def ready_operations_def
        Scheduler_Node_do_initialize_def Let_def)

lemma Try_initialize_inv:
  fixes b :: bool
  assumes "finite T" and "ready_inv M T idle u" and "t \<notin> T" and "mapped_priority M p"
  defines "v \<equiv> Thread_Try_initialize ready_operations t p b u"
  shows "ready_inv M (insert t T) idle v" "unaccounted (insert t T) v = unaccounted T u"
proof -
  note D = ready_invD [OF assms(2)] and O = in_orderD [OF ready_invD(1) [OF assms(2)]]
  note L = Try_initialize_list [where t = t and p = p and b = b and u = u, folded v_def]
  have tu: "sched_threads v x = sched_threads u x" if "x \<in> T" for x using that assms(3) L(1) by auto
  have "queued u \<subseteq> T" using O(2) .
  then have q: "queued v = queued u" "t \<notin> queued u" using assms(3) L(2) by (auto simp: queued_def)
  have "x \<in> T" if "x \<in> queued u" for x using that \<open>queued u \<subseteq> T\<close> by auto
  then have lv: "level x v = level x u" if "x \<in> queued u" for x using that tu by (simp add: level_def)
  have t_ok: "thread_ok M (sched_threads v t)" "contributors_ok M (sched_threads v t)" "\<not> Thread_Is_ready t v"
    using assms(4) L(1) by (simp_all add: thread_ok_def mapped_priority_def contributors_ok_def Thread_Is_ready_def STATES_DORMANT_def)
  have ok: "thread_ok M (sched_threads v x)" "contributors_ok M (sched_threads v x)" if "x \<in> insert t T" for x
    using that t_ok O(1) D(6) tu by auto
  have "in_order M (insert t T) {} v"
    unfolding in_order_def q(1) L(2) using O ok(1) lv by (auto simp: queued_def)
  moreover have "queued v = {x \<in> insert t T. Thread_Is_ready x v}"
    using q D(2) t_ok(3) tu by (auto simp: Thread_Is_ready_def)
  moreover have "Thread_Is_ready idle v" using D(3,4) tu by (simp add: Thread_Is_ready_def)
  moreover have "heir_ok v" using D(5,8) q(1) L(2,3) tu by (simp add: heir_ok_def)
  ultimately show "ready_inv M (insert t T) idle v" using D(3) ok(2) unfolding ready_inv_def by simp
  have "(\<Sum>x \<in> T. cpu_time_used (sched_threads v x)) = (\<Sum>x \<in> T. cpu_time_used (sched_threads u x))"
    using tu by (intro sum.cong) simp_all
  then show "unaccounted (insert t T) v = unaccounted T u" using assms(1,3) L(1,4) by (simp add: unaccounted_def)
qed

lemma Create_idle_list:
  fixes u :: ready_context
  assumes "ready u = []" and "M \<le> 255"
  shows "\<exists>v. Thread_Create_idle ready_operations M idle u = Some v \<and> ready_inv M {idle} idle v
    \<and> unaccounted {idle} v = cpu_usage_timestamp u"
proof -
  let ?p = "SCHEDULER_PRIORITY_MAP (of_nat M)"
  have "unat (of_nat M :: Priority_Control) = M" using assms(2) by (simp add: unsigned_of_nat take_bit_nat_eq_self)
  then have p: "unat ?p = 2 * M"
    using assms(2) by (simp add: SCHEDULER_PRIORITY_MAP_def push_bit_eq_mult unat_word_ariths(2))
  define u1 where "u1 = Thread_Try_initialize ready_operations idle ?p True u"
  note L = Try_initialize_list [where t = idle and p = ?p and b = True and u = u, folded u1_def]
  define u2 where "u2 = upd_thread idle (\<lambda>th. th\<lparr>sched_state := 0\<rparr>) (Thread_Load_environment idle (u1\<lparr>Thread_Heir := idle\<rparr>))"
  have th: "sched_threads u2 idle = (sched_threads u idle)\<lparr>is_preemptible := True, cpu_time_used := 0,
      Start_is_preemptible := True, node_priority := ?p, thread_priority := ?p, contributors := [(0, ?p)], sched_state := 0\<rparr>"
    using L(1) by (cases "sched_threads u idle") (simp add: u2_def Thread_Load_environment_def)
  have o: "ready u2 = []" "Thread_Heir u2 = idle" "cpu_usage_timestamp u2 = cpu_usage_timestamp u"
    using L assms(1) by (simp_all add: u2_def Thread_Load_environment_def)
  have "Thread_Create_idle ready_operations M idle u = ready_Unblock idle u2"
    by (simp add: Thread_Create_idle_def u2_def u1_def Let_def ready_operations_def)
  also have "\<dots> = Some (ready_append idle u2)"
    by (simp add: ready_Unblock_def Scheduler_uniprocessor_Unblock_def o Thread_Get_priority_def Let_def)
  finally have e: "Thread_Create_idle ready_operations M idle u = Some (ready_append idle u2)" .
  have r: "ready (ready_append idle u2) = [(idle, M)]"
    using p th o(1) by (simp add: ready_append_def put_last_def level_def)
  have "{idle} = {t \<in> {idle}. Thread_Is_ready t (ready_append idle u2)}" using th by (auto simp: Thread_Is_ready_def)
  then have "ready_inv M {idle} idle (ready_append idle u2)"
    using p th o r
    by (simp add: ready_inv_def in_order_def queued_def heir_ok_def contributors_ok_def mapped_priority_def thread_ok_def
        Thread_Is_ready_def level_def)
  moreover have "unaccounted {idle} (ready_append idle u2) = cpu_usage_timestamp u" using th o(3) by (simp add: ready_append_def unaccounted_def)
  ultimately show ?thesis using e by blast
qed

subsection \<open>On a scheduler\<close>

text \<open>
  A scheduler whose relation to the list can take in a new thread, at an address of \<open>place\<close>, when
  its node is initialised.
\<close>

locale scheduler_growth =
  fixes R :: "nat set \<Rightarrow> 'a processor_scheme \<Rightarrow> ready_context \<Rightarrow> bool" and ops :: "'a processor_scheme scheduler_operations"
    and M :: nat and place :: "nat set"
  assumes simulation: "scheduler_simulation (R T) ops M T"
    and bounded: "R T s u \<Longrightarrow> M \<le> 255"
    and grow: "R T s u \<Longrightarrow> t \<in> place \<Longrightarrow> t \<notin> queued u \<Longrightarrow> unat p div 2 \<le> M \<Longrightarrow>
      R (insert t T) (op_node_initialize ops t p s) (Scheduler_Node_do_initialize t p u)"
begin

lemmas processor = scheduler_simulation.axioms(1) [OF simulation]
lemmas upd = processor_simulation.sim_upd_thread [OF processor]

lemma sim_Try_initialize:
  assumes "R T s u" and "t \<in> place" and "t \<notin> queued u" and "unat p div 2 \<le> M"
  shows "R (insert t T) (Thread_Try_initialize ops t p b s) (Thread_Try_initialize ready_operations t p b u)"
proof -
  let ?f = "\<lambda>th. th\<lparr>is_preemptible := False, cpu_time_used := 0\<rparr>" and ?g = "\<lambda>th. th\<lparr>Start_is_preemptible := b\<rparr>"
  have "R T (upd_thread t ?g (upd_thread t ?f s)) (upd_thread t ?g (upd_thread t ?f u))"
    using assms(1) by (intro upd)
  moreover have "t \<notin> queued (upd_thread t ?g (upd_thread t ?f u))" using assms(3) by (simp add: queued_def)
  ultimately have "R (insert t T) (op_node_initialize ops t p (upd_thread t ?g (upd_thread t ?f s)))
      (Scheduler_Node_do_initialize t p (upd_thread t ?g (upd_thread t ?f u)))"
    using assms(2,4) by (intro grow)
  then show ?thesis
    unfolding Thread_Try_initialize_def Thread_Initialize_scheduler_and_wait_nodes_def Let_def
    by (intro upd) (simp add: ready_operations_def)
qed

lemma sim_create_threads:
  assumes "finite T" and "R T s u" and "ready_inv M T idle u" and "distinct (map fst cs)" and "fst ` set cs \<inter> T = {}"
    and "fst ` set cs \<subseteq> place" and "\<forall>c \<in> set cs. mapped_priority M (fst (snd c))"
  shows "\<exists>u'. R (T \<union> fst ` set cs) (create_threads ops cs s) u' \<and> ready_inv M (T \<union> fst ` set cs) idle u'
    \<and> u' = create_threads ready_operations cs u \<and> unaccounted (T \<union> fst ` set cs) u' = unaccounted T u"
  using assms
proof (induction cs arbitrary: T s u)
  case (Cons c cs)
  obtain t p b where c: "c = (t, p, b)" by (cases c)
  have t: "t \<notin> T" "t \<in> place" "mapped_priority M p" using Cons.prems c by auto
  have nq: "t \<notin> queued u" using in_orderD(2) [OF ready_invD(1) [OF Cons.prems(3)]] t(1) by auto
  have p: "unat p div 2 \<le> M" using t(3) by (simp add: mapped_priority_def)
  note r = sim_Try_initialize [OF Cons.prems(2) t(2) nq p, of b]
  note i = Try_initialize_inv [OF Cons.prems(1,3) t(1,3), of b]
  have "fst ` set cs \<inter> insert t T = {}" "insert t T \<union> fst ` set cs = T \<union> fst ` set (c # cs)"
    using Cons.prems(4,5) c by (auto simp: image_iff)
  with Cons.IH [OF _ r i(1)] Cons.prems c i(2) show ?case by simp
qed auto

lemma sim_Create_idle:
  assumes "R {} s u" and "ready u = []" and "idle \<in> place"
  shows "\<exists>s' u'. Thread_Create_idle ops M idle s = Some s' \<and> Thread_Create_idle ready_operations M idle u = Some u'
    \<and> R {idle} s' u' \<and> ready_inv M {idle} idle u' \<and> unaccounted {idle} u' = cpu_usage_timestamp u"
proof -
  have M: "M \<le> 255" using assms(1) by (rule bounded)
  obtain u' where u': "Thread_Create_idle ready_operations M idle u = Some u'" "ready_inv M {idle} idle u'"
    "unaccounted {idle} u' = cpu_usage_timestamp u"
    using Create_idle_list [OF assms(2) M] by blast
  let ?p = "SCHEDULER_PRIORITY_MAP (of_nat M)"
  have "unat (of_nat M :: Priority_Control) = M" using M by (simp add: unsigned_of_nat take_bit_nat_eq_self)
  then have p: "unat ?p = 2 * M" using M by (simp add: SCHEDULER_PRIORITY_MAP_def push_bit_eq_mult unat_word_ariths(2))
  have nq: "idle \<notin> queued u" using assms(2) by (simp add: queued_def)
  have "R {idle} (Thread_Try_initialize ops idle ?p True s) (Thread_Try_initialize ready_operations idle ?p True u)" (is "R _ ?s1 ?u1")
    using sim_Try_initialize [OF assms(1,3) nq, of ?p True] p by simp
  from processor_simulation.sim_heir [OF processor this, of idle]
  have "R {idle} (Thread_Load_environment idle (?s1\<lparr>Thread_Heir := idle\<rparr>)) (Thread_Load_environment idle (?u1\<lparr>Thread_Heir := idle\<rparr>))"
    unfolding Thread_Load_environment_def by (rule upd)
  then have r: "R {idle} (upd_thread idle (\<lambda>th. th\<lparr>sched_state := 0\<rparr>) (Thread_Load_environment idle (?s1\<lparr>Thread_Heir := idle\<rparr>)))
      (upd_thread idle (\<lambda>th. th\<lparr>sched_state := 0\<rparr>) (Thread_Load_environment idle (?u1\<lparr>Thread_Heir := idle\<rparr>)))" (is "R _ ?s2 ?u2")
    by (rule upd)
  have ready: "ready ?u2 = []" using assms(2) Try_initialize_list(2) by (simp add: Thread_Load_environment_def)
  have "thread_ok M (sched_threads ?u2 idle)"
    using p by (simp add: Thread_Load_environment_def Try_initialize_list(1) thread_ok_def)
  then have io: "in_order M {idle} {} ?u2" using ready by (simp add: in_order_def queued_def)
  have "ready_Unblock idle ?u2 = Some u'" using u'(1) by (simp add: Thread_Create_idle_def ready_operations_def Let_def)
  moreover have "idle \<notin> queued ?u2" "Thread_Heir ?u2 \<in> {idle}" using ready by (simp_all add: queued_def Thread_Load_environment_def)
  ultimately have "\<exists>s'. op_unblock ops idle ?s2 = Some s' \<and> R {idle} s' u'"
    using scheduler_simulation.sim_op_unblock [OF simulation r io] by blast
  then show ?thesis using u' by (simp add: Thread_Create_idle_def Let_def)
qed

text \<open>The system, started and asked to do the requests, returns; its state is related to the one of the list.\<close>

theorem system_run:
  assumes "R {} s u" and "ready u = []" and "idle \<in> place" and "fst ` set cs \<subseteq> place" and "distinct (idle # map fst cs)"
    and "\<forall>c \<in> set cs. mapped_priority M (fst (snd c))"
  defines "T \<equiv> threads_of idle cs"
  shows "\<exists>s' u'. system_start ops M idle cs s \<bind> perform_all ops M T idle rs = Some s'
    \<and> system_start ready_operations M idle cs u \<bind> perform_all ready_operations M T idle rs = Some u'
    \<and> R T s' u' \<and> ready_inv M T idle u' \<and> unaccounted T u' = cpu_usage_timestamp u"
proof -
  have fin: "finite T" by (simp add: T_def threads_of_def)
  from sim_Create_idle [OF assms(1-3)] obtain s1 u1 where
    c: "Thread_Create_idle ops M idle s = Some s1" "Thread_Create_idle ready_operations M idle u = Some u1"
    "R {idle} s1 u1" "ready_inv M {idle} idle u1" "unaccounted {idle} u1 = cpu_usage_timestamp u" by blast
  have T: "{idle} \<union> fst ` set cs = T" by (simp add: T_def threads_of_def)
  obtain u2 where u2: "R T (create_threads ops cs s1) u2" "ready_inv M T idle u2" "u2 = create_threads ready_operations cs u1"
    "unaccounted T u2 = cpu_usage_timestamp u"
    using sim_create_threads [OF _ c(3,4), of cs] assms(4-6) c(5) unfolding T by auto
  from scheduler_simulation.sim_perform_all [OF simulation fin u2(1,2), of rs] obtain s' u' where
    r: "perform_all ops M T idle rs (create_threads ops cs s1) = Some s'" "perform_all ready_operations M T idle rs u2 = Some u'"
    "R T s' u'" "ready_inv M T idle u'" by blast
  have "unaccounted T u' = cpu_usage_timestamp u"
    using perform_all_ok [OF fin u2(2), of rs] r(2) u2(4) by (auto simp: kept_def)
  then show ?thesis using r c u2(3) by (simp add: system_start_def)
qed

end

section \<open>The two schedulers\<close>

lemma priority_grow:
  assumes "priority_rel M base T s u" and "t \<notin> insert 0 (controls M base)" and "t \<notin> queued u" and "unat p div 2 \<le> M"
  shows "priority_rel M base (insert t T) (Scheduler_priority_Node_initialize t p s) (Scheduler_Node_do_initialize t p u)"
proof -
  note R = priority_relD [OF assms(1)]
  have "unat (SCHEDULER_PRIORITY_UNMAP p) = unat p div 2" by (simp add: SCHEDULER_PRIORITY_UNMAP_def drop_bit_eq_div unat_div)
  then have n: "unat (ucast (SCHEDULER_PRIORITY_UNMAP p) :: uint32) \<le> M"
    using assms(4) R(4) unat_narrow [of "SCHEDULER_PRIORITY_UNMAP p"] by simp
  have r: "fst r \<noteq> t" if "r \<in> set (ready u)" for r using that assms(3) by (auto simp: queued_def)
  have "same_processor (Scheduler_Node_do_initialize t p s) (Scheduler_Node_do_initialize t p u)"
    using R(1) by (simp add: same_processor_def Scheduler_Node_do_initialize_def)
  then show ?thesis
    using assms(1,2) n r
    by (auto simp: priority_rel_def Scheduler_priority_Node_initialize_def Scheduler_priority_Ready_queue_update_def
        Scheduler_Node_do_initialize_def queue_ok_def same_processor_def Let_def)
qed

interpretation priority_system: scheduler_growth "priority_rel M base" SCHEDULER_PRIORITY_ENTRY_POINTS M
  "- insert 0 (controls M base)" for M base
proof (unfold_locales, goal_cases)
  case (1 T s u)
  then show ?case by (rule priority_relD(4))
next
  case (2 T s u t p)
  then show ?case using priority_grow by (simp add: SCHEDULER_PRIORITY_ENTRY_POINTS_def)
qed

interpretation simple_system: scheduler_growth "simple_rel M base" SCHEDULER_SIMPLE_ENTRY_POINTS M "- {0, base, base + 8}" for M base
proof (unfold_locales, goal_cases)
  case (1 T s u)
  then show ?case by (rule simple_relD(3))
next
  case (2 T s u t p)
  then show ?case
    by (auto simp: SCHEDULER_SIMPLE_ENTRY_POINTS_def simple_rel_def same_processor_def Scheduler_Node_do_initialize_def)
qed

lemma Ready_queue_initialize_ok:
  assumes "0 < base"
  shows "\<forall>i \<le> M. chain (Scheduler_priority_Ready_queue_initialize base M m) (Ready_at base i) []"
proof -
  have "\<forall>i < n. chain (fold (\<lambda>i. Chain_Initialize_empty (Ready_at base i)) [0..<n] m) (Ready_at base i) []" for n
  proof (induction n)
    case (Suc n)
    let ?m = "fold (\<lambda>i. Chain_Initialize_empty (Ready_at base i)) [0..<n] m"
    have "chain (Chain_Initialize_empty (Ready_at base n) ?m) (Ready_at base n) []"
      using assms by (intro Chain_Initialize_empty_ok) (simp add: Ready_at_def)
    moreover have "chain (Chain_Initialize_empty (Ready_at base n) ?m) (Ready_at base i) []" if "i < n" for i
      using that Suc Ready_at_apart [of i n base] by (intro Initialize_empty_other) (auto simp: nodes_def chain_addr)
    ultimately show ?case by (auto simp: less_Suc_eq)
  qed simp
  from this [of "Suc M"] show ?thesis by (simp add: Scheduler_priority_Ready_queue_initialize_def less_Suc_eq_le)
qed

text \<open>The scheduler on a list in the state of the processor.\<close>

definition with_list :: "'a processor_scheme \<Rightarrow> ready_context" where
  "with_list s = \<lparr>sched_threads = sched_threads s, Thread_Heir = Thread_Heir s,
     Thread_Dispatch_necessary = Thread_Dispatch_necessary s, cpu_usage_timestamp = cpu_usage_timestamp s,
     uptime = uptime s, ready = []\<rparr>"

lemma priority_initial:
  assumes "0 < Ready s" and "M \<le> 255"
  shows "priority_rel M (Ready s) {} (Scheduler_priority_Initialize M s) (with_list s)"
  using assms Ready_queue_initialize_ok [OF assms(1), of M "ready_links s"] bit_map_Initialize_ok
  by (simp add: priority_rel_def with_list_def same_processor_def Scheduler_priority_Initialize_def at_level_def)

lemma simple_initial:
  assumes "0 < simple_Ready s" and "M \<le> 255"
  shows "simple_rel M (simple_Ready s) {} (Scheduler_simple_Initialize s) (with_list s)"
  using assms Chain_Initialize_empty_ok [OF assms(1)]
  by (simp add: simple_rel_def with_list_def same_processor_def Scheduler_simple_Initialize_def)

end
