(* ===== verification/Scheduler_Properties.thy ===== *)
theory Scheduler_Properties
  imports Scheduler_System
begin

text \<open>
  The properties of the schedulers: what a sequence of requests leaves as heir, as ready chains and
  as processor times, that both schedulers choose the same heirs, and that yielding gives every
  ready thread of the highest priority its turn.
\<close>

section \<open>What the invariant of the list says of a scheduler\<close>

definition priority_run ::
  "nat \<Rightarrow> nat \<Rightarrow> (nat \<times> Priority_Control \<times> bool) list \<Rightarrow> request list \<Rightarrow> priority_context \<Rightarrow> priority_context option" where
  "priority_run M idle cs rs s0 =
     system_start SCHEDULER_PRIORITY_ENTRY_POINTS M idle cs (Scheduler_priority_Initialize M s0)
       \<bind> perform_all SCHEDULER_PRIORITY_ENTRY_POINTS M (threads_of idle cs) idle rs"

definition simple_run ::
  "nat \<Rightarrow> nat \<Rightarrow> (nat \<times> Priority_Control \<times> bool) list \<Rightarrow> request list \<Rightarrow> simple_context \<Rightarrow> simple_context option" where
  "simple_run M idle cs rs s0 =
     system_start SCHEDULER_SIMPLE_ENTRY_POINTS M idle cs (Scheduler_simple_Initialize s0)
       \<bind> perform_all SCHEDULER_SIMPLE_ENTRY_POINTS M (threads_of idle cs) idle rs"

definition list_run ::
  "nat \<Rightarrow> nat \<Rightarrow> (nat \<times> Priority_Control \<times> bool) list \<Rightarrow> request list \<Rightarrow> 'a processor_scheme \<Rightarrow> ready_context option" where
  "list_run M idle cs rs s0 =
     system_start ready_operations M idle cs (with_list s0) \<bind> perform_all ready_operations M (threads_of idle cs) idle rs"

text \<open>A configuration: distinct threads outside of \<open>A\<close>, with priorities up to \<open>M\<close>.\<close>

definition configuration :: "nat \<Rightarrow> nat set \<Rightarrow> nat \<Rightarrow> (nat \<times> Priority_Control \<times> bool) list \<Rightarrow> bool" where
  "configuration M A idle cs \<longleftrightarrow> M \<le> 255 \<and> distinct (idle # map fst cs) \<and> set (idle # map fst cs) \<inter> insert 0 A = {}
     \<and> list_all (\<lambda>c. mapped_priority M (fst (snd c))) cs"

lemma configurationD:
  assumes "configuration M A idle cs"
  shows "M \<le> 255" "idle \<in> - insert 0 A" "fst ` set cs \<subseteq> - insert 0 A" "distinct (idle # map fst cs)"
    "\<forall>c \<in> set cs. mapped_priority M (fst (snd c))"
proof -
  have "set (idle # map fst cs) \<inter> insert 0 A = {}" using assms by (simp add: configuration_def)
  then show "idle \<in> - insert 0 A" "fst ` set cs \<subseteq> - insert 0 A" unfolding list.set set_map by blast+
qed (use assms in \<open>simp_all add: configuration_def list_all_iff\<close>)

lemma priority_run_ok:
  assumes "0 < Ready s0" and "configuration M (controls M (Ready s0)) idle cs"
  shows "\<exists>s u. priority_run M idle cs rs s0 = Some s \<and> list_run M idle cs rs s0 = Some u
    \<and> priority_rel M (Ready s0) (threads_of idle cs) s u \<and> ready_inv M (threads_of idle cs) idle u
    \<and> unaccounted (threads_of idle cs) u = cpu_usage_timestamp s0"
proof -
  note C = configurationD [OF assms(2)]
  note I = priority_initial [OF assms(1) C(1)]
  have "\<exists>s' u'. system_start SCHEDULER_PRIORITY_ENTRY_POINTS M idle cs (Scheduler_priority_Initialize M s0)
        \<bind> perform_all SCHEDULER_PRIORITY_ENTRY_POINTS M (threads_of idle cs) idle rs = Some s'
    \<and> system_start ready_operations M idle cs (with_list s0) \<bind> perform_all ready_operations M (threads_of idle cs) idle rs = Some u'
    \<and> priority_rel M (Ready s0) (threads_of idle cs) s' u' \<and> ready_inv M (threads_of idle cs) idle u'
    \<and> unaccounted (threads_of idle cs) u' = cpu_usage_timestamp (with_list s0)"
    using I _ C(2-5) by (rule priority_system.system_run) (simp add: with_list_def)
  then show ?thesis by (simp add: priority_run_def list_run_def with_list_def)
qed

lemma simple_run_ok:
  assumes "0 < simple_Ready s0" and "configuration M {simple_Ready s0, simple_Ready s0 + 8} idle cs"
  shows "\<exists>s u. simple_run M idle cs rs s0 = Some s \<and> list_run M idle cs rs s0 = Some u
    \<and> simple_rel M (simple_Ready s0) (threads_of idle cs) s u"
proof -
  note C = configurationD [OF assms(2)]
  note I = simple_initial [OF assms(1) C(1)]
  have "\<exists>s' u'. system_start SCHEDULER_SIMPLE_ENTRY_POINTS M idle cs (Scheduler_simple_Initialize s0)
        \<bind> perform_all SCHEDULER_SIMPLE_ENTRY_POINTS M (threads_of idle cs) idle rs = Some s'
    \<and> system_start ready_operations M idle cs (with_list s0) \<bind> perform_all ready_operations M (threads_of idle cs) idle rs = Some u'
    \<and> simple_rel M (simple_Ready s0) (threads_of idle cs) s' u' \<and> ready_inv M (threads_of idle cs) idle u'
    \<and> unaccounted (threads_of idle cs) u' = cpu_usage_timestamp (with_list s0)"
    using I _ C(2-5) by (rule simple_system.system_run) (simp add: with_list_def)
  then show ?thesis by (auto simp: simple_run_def list_run_def)
qed

lemma first_is_least:
  assumes "ready_inv M T idle u" and "t \<in> T" and "Thread_Is_ready t u"
    and "is_preemptible (sched_threads u (Thread_Heir u))"
  shows "thread_priority (sched_threads u (Thread_Heir u)) \<le> thread_priority (sched_threads u t)"
proof -
  note D = ready_invD [OF assms(1)] and O = in_orderD [OF ready_invD(1) [OF assms(1)]]
  have h: "Thread_Heir u = fst (hd (ready u))" using D(5) assms(4) by (simp add: heir_ok_def)
  have "t \<in> queued u" using D(2) assms(2,3) by simp
  then obtain r where r: "r \<in> set (ready u)" "fst r = t" by (auto simp: queued_def)
  then have ne: "ready u \<noteq> []" by auto
  have "snd (hd (ready u)) \<le> snd r" using O(4) r(1) by (cases "ready u") auto
  then have "level (Thread_Heir u) u \<le> level t u" using O(5) [of r] O(5) [of "hd (ready u)"] r ne h by simp
  moreover have "even (unat (thread_priority (sched_threads u t)))" "even (unat (thread_priority (sched_threads u (Thread_Heir u))))"
    using O(1) [OF assms(2)] O(1) [OF D(8)] by (simp_all add: thread_ok_def)
  ultimately show ?thesis
    unfolding level_def word_le_nat_alt by (metis dvd_div_mult_self mult_le_mono1)
qed

lemma contributors_Min:
  assumes "contributors_ok M th"
  shows "thread_priority th = Min (snd ` set (contributors th))"
proof -
  obtain c cs where c: "contributors th = c # cs" using assms by (cases "contributors th") (auto simp: contributors_ok_def)
  have "Min (snd ` set (c # cs)) = snd c" using assms c by (intro Min_eqI) (auto simp: contributors_ok_def)
  then show ?thesis using assms c by (simp add: contributors_ok_def)
qed

section \<open>The properties\<close>

text \<open>
  C11. The heir: from the start of the system, with the deterministic priority scheduler, every
  sequence of allowed requests (state changes, starts, yields, priority and mode changes) returns,
  and afterwards the heir is a ready thread, one of the highest priority among all ready threads
  if it is preemptible; the priority of every thread is the least of those contributed to it; and
  the processor times of the threads add up to the time accounted for since the start.
\<close>

theorem priority_scheduler_heir:
  assumes "0 < Ready s0" and "configuration M (controls M (Ready s0)) idle cs"
  shows "\<exists>s. priority_run M idle cs rs s0 = Some s
    \<and> Thread_Heir s \<in> threads_of idle cs \<and> Thread_Is_ready (Thread_Heir s) s
    \<and> (is_preemptible (sched_threads s (Thread_Heir s)) \<longrightarrow> (\<forall>t \<in> threads_of idle cs. Thread_Is_ready t s \<longrightarrow>
         thread_priority (sched_threads s (Thread_Heir s)) \<le> thread_priority (sched_threads s t)))
    \<and> (\<forall>t \<in> threads_of idle cs. thread_priority (sched_threads s t) = Min (snd ` set (contributors (sched_threads s t))))
    \<and> (\<Sum>t \<in> threads_of idle cs. cpu_time_used (sched_threads s t)) = cpu_usage_timestamp s - cpu_usage_timestamp s0"
proof -
  obtain s u where s: "priority_run M idle cs rs s0 = Some s" "priority_rel M (Ready s0) (threads_of idle cs) s u"
    "ready_inv M (threads_of idle cs) idle u" "unaccounted (threads_of idle cs) u = cpu_usage_timestamp s0"
    using priority_run_ok [OF assms] by blast
  note D = ready_invD [OF s(3)]
  have e: "sched_threads s = sched_threads u" "Thread_Heir s = Thread_Heir u" "cpu_usage_timestamp s = cpu_usage_timestamp u"
    using priority_relD(1) [OF s(2)] by (simp_all add: same_processor_def)
  then have r: "Thread_Is_ready t s \<longleftrightarrow> Thread_Is_ready t u" for t by (simp add: Thread_Is_ready_def)
  have "Thread_Heir u \<in> queued u" using D(5) by (simp add: heir_ok_def)
  then have "Thread_Heir u \<in> threads_of idle cs" "Thread_Is_ready (Thread_Heir u) u" using D(2) by auto
  moreover have "(\<Sum>t \<in> threads_of idle cs. cpu_time_used (sched_threads s t)) = cpu_usage_timestamp s - cpu_usage_timestamp s0"
    using s(4) e by (simp add: unaccounted_def algebra_simps)
  ultimately show ?thesis
    using s(1) e r first_is_least [OF s(3)] contributors_Min [OF D(6)] by (intro exI [of _ s]) simp
qed

text \<open>
  C12. The ready chains: the deterministic priority scheduler implements the scheduler on a list. After
  every sequence of requests, both agree on the threads, the heir and the processor times, the ready
  chain of every priority holds, in this order, the threads of that level of the list, and the bit map
  holds the levels that occur: threads of equal priority run first come, first served, except that a
  thread whose priority is lowered by the loss of a contributor goes to the front of its new group.
\<close>

theorem priority_scheduler_refines:
  assumes "0 < Ready s0" and "configuration M (controls M (Ready s0)) idle cs"
  shows "\<exists>s u. priority_run M idle cs rs s0 = Some s \<and> list_run M idle cs rs s0 = Some u \<and> same_processor s u
    \<and> (\<forall>i \<le> M. chain (ready_links s) (Ready_at (Ready s0) i) (at_level i (ready u)))
    \<and> priorities (Bit_map s) = snd ` set (ready u)"
  using priority_run_ok [OF assms, of rs] priority_relD(1,9,11) by blast

text \<open>
  C13. The deterministic priority scheduler and the simple priority scheduler are interchangeable: from
  the same state of the processor, every sequence of requests returns with both, and leaves the same
  heir, the same threads with the same states, priorities and processor times, and the same request
  for a dispatch.
\<close>

theorem schedulers_equivalent:
  assumes "0 < Ready s0" and "configuration M (controls M (Ready s0)) idle cs"
    and "0 < simple_Ready x0" and "configuration M {simple_Ready x0, simple_Ready x0 + 8} idle cs"
    and "same_processor s0 x0"
  shows "\<exists>s x. priority_run M idle cs rs s0 = Some s \<and> simple_run M idle cs rs x0 = Some x \<and> same_processor s x"
proof -
  have "with_list s0 = with_list x0" using assms(5) by (simp add: with_list_def same_processor_def)
  then have "list_run M idle cs rs s0 = list_run M idle cs rs x0" by (simp add: list_run_def)
  moreover obtain s u where s: "priority_run M idle cs rs s0 = Some s" "list_run M idle cs rs s0 = Some u" "same_processor s u"
    using priority_run_ok [OF assms(1,2), of rs] priority_relD(1) by blast
  moreover obtain x v where x: "simple_run M idle cs rs x0 = Some x" "list_run M idle cs rs x0 = Some v" "same_processor x v"
    using simple_run_ok [OF assms(3,4), of rs] simple_relD(1) by blast
  ultimately have "same_processor s x" by (simp add: same_processor_def)
  with s x show ?thesis by blast
qed

section \<open>Turns\<close>

text \<open>The heir yields, \<open>n\<close> times.\<close>

fun yields :: "'a processor_scheme scheduler_operations \<Rightarrow> nat \<Rightarrow> 'a processor_scheme \<Rightarrow> 'a processor_scheme option" where
  "yields ops 0 s = Some s"
| "yields ops (Suc n) s = Thread_Yield ops (Thread_Heir s) s \<bind> yields ops n"

lemma hd_at_level: "rs \<noteq> [] \<Longrightarrow> fst (hd rs) = hd (at_level (snd (hd rs)) rs)"
  by (cases rs) (simp_all add: at_level_def)

lemma yield_first:
  assumes "finite T" and "ready_inv M T idle u" and "Thread_Heir u = fst (hd (ready u))"
    and "at_level (snd (hd (ready u))) (ready u) = x # xs"
  shows "\<exists>u'. Thread_Yield ready_operations (Thread_Heir u) u = Some u' \<and> ready_inv M T idle u'
    \<and> Thread_Heir u' = fst (hd (ready u')) \<and> snd (hd (ready u')) = snd (hd (ready u))
    \<and> at_level (snd (hd (ready u))) (ready u') = xs @ [x]"
proof -
  note D = ready_invD [OF assms(2)] and O = in_orderD [OF ready_invD(1) [OF assms(2)]]
  let ?i = "snd (hd (ready u))"
  have ne: "ready u \<noteq> []" using D(7) by (auto simp: queued_def)
  have x: "x = Thread_Heir u" using hd_at_level [OF ne] assms(3,4) by simp
  have hd: "hd (ready u) = (x, ?i)" using x assms(3) by (simp add: prod_eq_iff)
  have i: "(x, ?i) \<in> set (ready u)" by (subst hd [symmetric]) (rule hd_in_set [OF ne])
  have il: "?i = level x u" using O(5) [OF hd_in_set [OF ne]] x assms(3) by simp
  have xT: "x \<in> T" "Thread_Is_ready x u" using D(2,5,8) x by (auto simp: heir_ok_def)
  obtain u' where u': "Thread_Yield ready_operations x u = Some u'" "ready_inv M T idle u'"
    using Thread_Yield_ok [OF assms(1,2) xT(1)] by (auto simp: kept_def)
  define v where "v = ready_append x (ready_extract x u)"
  have y: "Scheduler_uniprocessor_Yield ready_highest v = Some u'"
    using u'(1) xT(2) by (simp add: Thread_Yield_def ready_operations_def ready_Yield_def Thread_Is_ready_def v_def)
  have rv: "ready v = put_last x ?i (take_out x (ready u))" using il by (simp add: v_def ready_append_def ready_extract_def level_def)
  have ru: "ready u' = ready v" "Thread_Heir u' = fst (hd (ready v))"
    using y rv by (auto simp: Scheduler_uniprocessor_Yield_def Scheduler_uniprocessor_Update_heir_if_necessary_def ready_highest_def
        Scheduler_uniprocessor_Update_heir_def Thread_Update_CPU_time_used_def Let_def split: list.splits if_splits)
  have st: "sorted (map snd (take_out x (ready u)))" using O(4) by (rule sorted_take_out)
  have "distinct (at_level ?i (ready u))" using O(3) by (rule distinct_at_level)
  then have "at_level ?i (take_out x (ready u)) = xs" using assms(4) by (auto simp: at_level_take_out filter_id_conv)
  then have al: "at_level ?i (ready v) = xs @ [x]" unfolding rv by (simp add: at_level_put_last [OF st])
  have le: "?i \<le> snd r" if "r \<in> set (ready u)" for r using O(4) that ne by (cases "ready u") auto
  have sv: "sorted (map snd (ready v))" unfolding rv using st by (rule sorted_put(1))
  have nev: "ready v \<noteq> []" unfolding rv by (simp add: put_last_def)
  have "(x, ?i) \<in> set (ready v)" unfolding rv by simp
  then have "snd (hd (ready v)) \<le> ?i" using sv nev by (cases "ready v") auto
  moreover have "hd (ready v) \<in> insert (x, ?i) (set (ready u))" using hd_in_set [OF nev] unfolding rv by auto
  then have "?i \<le> snd (hd (ready v))" using le [of "hd (ready v)"] by (metis insertE order_refl snd_conv)
  ultimately show ?thesis using u' x ru al by auto
qed

lemma yields_list:
  assumes "finite T" and "ready_inv M T idle u" and "Thread_Heir u = fst (hd (ready u))"
    and "at_level (snd (hd (ready u))) (ready u) = xs @ t # ys"
  shows "\<exists>u'. yields ready_operations (length xs) u = Some u' \<and> ready_inv M T idle u' \<and> Thread_Heir u' = t"
  using assms(2-4)
proof (induction xs arbitrary: u ys)
  case Nil
  have "ready u \<noteq> []" using ready_invD(7) [OF Nil(1)] by (auto simp: queued_def)
  then show ?case using hd_at_level [of "ready u"] Nil by simp
next
  case (Cons x xs)
  from yield_first [OF assms(1) Cons.prems(1,2), of x "xs @ t # ys"] Cons.prems(3) obtain u' where
    u': "Thread_Yield ready_operations (Thread_Heir u) u = Some u'" "ready_inv M T idle u'"
    "Thread_Heir u' = fst (hd (ready u'))" "snd (hd (ready u')) = snd (hd (ready u))"
    "at_level (snd (hd (ready u))) (ready u') = xs @ t # ys @ [x]" by auto
  from Cons.IH [OF u'(2,3)] u'(1,4,5) show ?case by auto
qed

lemma level_member:
  assumes "ready_inv M T idle u" and "y \<in> T"
  shows "x \<in> set (at_level (level y u) (ready u)) \<longleftrightarrow> x \<in> T \<and> Thread_Is_ready x u
    \<and> thread_priority (sched_threads u x) = thread_priority (sched_threads u y)"
proof -
  note D = ready_invD [OF assms(1)] and O = in_orderD [OF ready_invD(1) [OF assms(1)]]
  have "x \<in> set (at_level (level y u) (ready u)) \<longleftrightarrow> x \<in> queued u \<and> level x u = level y u"
    using O(5) by (force simp: queued_def)
  moreover have "level x u = level y u \<longleftrightarrow> thread_priority (sched_threads u x) = thread_priority (sched_threads u y)" if "x \<in> T"
  proof -
    have "even (unat (thread_priority (sched_threads u x)))" "even (unat (thread_priority (sched_threads u y)))"
      using O(1) that assms(2) by (simp_all add: thread_ok_def)
    then show ?thesis unfolding level_def word_unat_eq_iff by (metis dvd_div_eq_iff)
  qed
  ultimately show ?thesis using D(2) by auto
qed

lemma yields_sim:
  assumes "priority_rel M base T s u" and "ready_inv M T idle u" and "finite T"
    and "yields ready_operations n u = Some u'"
  shows "\<exists>s'. yields SCHEDULER_PRIORITY_ENTRY_POINTS n s = Some s' \<and> priority_rel M base T s' u'"
  using assms(1,2,4)
proof (induction n arbitrary: s u)
  case (Suc n)
  have h: "Thread_Heir s = Thread_Heir u" using priority_relD(1) [OF Suc.prems(1)] by (simp add: same_processor_def)
  have T: "Thread_Heir u \<in> T" using ready_invD(8) [OF Suc.prems(2)] .
  obtain u1 where u1: "Thread_Yield ready_operations (Thread_Heir u) u = Some u1" "ready_inv M T idle u1"
    using Thread_Yield_ok [OF assms(3) Suc.prems(2) T] by (auto simp: kept_def)
  moreover obtain s1 where "Thread_Yield SCHEDULER_PRIORITY_ENTRY_POINTS (Thread_Heir u) s = Some s1" "priority_rel M base T s1 u1"
    using priority.sim_Thread_Yield [OF Suc.prems(1,2) T] u1(1) by (auto simp: priority.simulated_def)
  ultimately show ?case using Suc.IH [of s1 u1] Suc.prems(3) h by simp
qed auto

text \<open>
  C14. No starvation among equals: in every state that the system reaches with the deterministic priority
  scheduler, with a preemptible heir, a ready thread of the same priority as the heir becomes the heir
  after at most as many yields of the heir as there are other ready threads of that priority.
\<close>

theorem yield_reaches_equals:
  assumes "0 < Ready s0" and "configuration M (controls M (Ready s0)) idle cs" and "priority_run M idle cs rs s0 = Some s"
    and "is_preemptible (sched_threads s (Thread_Heir s))" and "t \<in> threads_of idle cs" and "Thread_Is_ready t s"
    and "thread_priority (sched_threads s t) = thread_priority (sched_threads s (Thread_Heir s))"
  shows "\<exists>n s'. n < card {x \<in> threads_of idle cs. Thread_Is_ready x s
        \<and> thread_priority (sched_threads s x) = thread_priority (sched_threads s t)}
    \<and> yields SCHEDULER_PRIORITY_ENTRY_POINTS n s = Some s' \<and> Thread_Heir s' = t"
proof -
  let ?T = "threads_of idle cs"
  obtain u where r: "priority_rel M (Ready s0) ?T s u" and i: "ready_inv M ?T idle u"
    using priority_run_ok [OF assms(1,2), of rs] assms(3) by auto
  note D = ready_invD [OF i] and O = in_orderD [OF ready_invD(1) [OF i]]
  have fin: "finite ?T" by (simp add: threads_of_def)
  have e: "sched_threads s = sched_threads u" "Thread_Heir s = Thread_Heir u"
    using priority_relD(1) [OF r] by (simp_all add: same_processor_def)
  have h: "Thread_Heir u = fst (hd (ready u))" using D(5) assms(4) e by (simp add: heir_ok_def)
  have ne: "ready u \<noteq> []" using D(7) by (auto simp: queued_def)
  let ?i = "snd (hd (ready u))"
  have li: "?i = level (Thread_Heir u) u" using O(5) [of "hd (ready u)"] ne h by simp
  have mem: "x \<in> set (at_level ?i (ready u)) \<longleftrightarrow> x \<in> ?T \<and> Thread_Is_ready x s
      \<and> thread_priority (sched_threads s x) = thread_priority (sched_threads s t)" for x
    using level_member [OF i, where x = x and y = "Thread_Heir u"] D(8) li e assms(7) by (auto simp: Thread_Is_ready_def)
  have "t \<in> set (at_level ?i (ready u))" using mem [of t] assms(5,6) by simp
  then obtain xs ys where xs: "at_level ?i (ready u) = xs @ t # ys" by (meson split_list)
  obtain u' where u': "yields ready_operations (length xs) u = Some u'" "Thread_Heir u' = t"
    using yields_list [OF fin i h xs] by blast
  obtain s' where s': "yields SCHEDULER_PRIORITY_ENTRY_POINTS (length xs) s = Some s'" "priority_rel M (Ready s0) ?T s' u'"
    using yields_sim [OF r i fin u'(1)] by blast
  have "card (set (at_level ?i (ready u))) = length (at_level ?i (ready u))" using distinct_at_level [OF O(3)] by (rule distinct_card)
  moreover have "set (at_level ?i (ready u)) = {x \<in> ?T. Thread_Is_ready x s
        \<and> thread_priority (sched_threads s x) = thread_priority (sched_threads s t)}" using mem by blast
  ultimately have "length xs < card {x \<in> ?T. Thread_Is_ready x s
        \<and> thread_priority (sched_threads s x) = thread_priority (sched_threads s t)}" using xs by simp
  moreover have "Thread_Heir s' = t" using priority_relD(1) [OF s'(2)] u'(2) by (simp add: same_processor_def)
  ultimately show ?thesis using s'(1) by blast
qed

section \<open>Witnesses\<close>

definition new_thread :: sched_thread where
  "new_thread = \<lparr>node_priority = 0, thread_priority = 0, contributors = [], is_preemptible = False,
     Start_is_preemptible = False, sched_state = 0, cpu_time_used = 0\<rparr>"

definition priority_example :: priority_context where
  "priority_example = \<lparr>sched_threads = \<lambda>_. new_thread, Thread_Heir = 0, Thread_Dispatch_necessary = False,
     cpu_usage_timestamp = 5, uptime = 5, ready_links = \<lparr>cnext = \<lambda>_. 0, cprev = \<lambda>_. 0\<rparr>, Ready = 4096,
     Bit_map = Priority_bit_map_Initialize,
     Ready_queue = \<lambda>_. \<lparr>current_priority = 0, ready_chain = 0, Priority_map = Priority_bit_map_Initialize_information 0\<rparr>\<rparr>"

definition simple_example :: simple_context where
  "simple_example = \<lparr>sched_threads = \<lambda>_. new_thread, Thread_Heir = 0, Thread_Dispatch_necessary = False,
     cpu_usage_timestamp = 5, uptime = 5, simple_links = \<lparr>cnext = \<lambda>_. 0, cprev = \<lambda>_. 0\<rparr>, simple_Ready = 4096\<rparr>"

lemma example_configuration:
  "configuration 255 (controls 255 (Ready priority_example)) 100 [(200, 20, True), (300, 20, True)]"
  "configuration 255 {simple_Ready simple_example, simple_Ready simple_example + 8} 100 [(200, 20, True), (300, 20, True)]"
  by (auto simp: configuration_def priority_example_def simple_example_def controls_def Ready_at_def mapped_priority_def)

theorem priority_scheduler_heir_witness:
  "\<exists>s. priority_run 255 100 [(200, 20, True), (300, 20, True)] [Start 200, Time_passes 9, Start 300, Yield 200] priority_example = Some s
    \<and> Thread_Heir s \<in> {100, 200, 300} \<and> Thread_Is_ready (Thread_Heir s) s"
  using priority_scheduler_heir [OF _ example_configuration(1), of "[Start 200, Time_passes 9, Start 300, Yield 200]"]
  by (auto simp: priority_example_def threads_of_def)

theorem priority_scheduler_refines_witness:
  "\<exists>s u. priority_run 255 100 [(200, 20, True), (300, 20, True)] [Start 200, Start 300] priority_example = Some s
    \<and> list_run 255 100 [(200, 20, True), (300, 20, True)] [Start 200, Start 300] priority_example = Some u
    \<and> chain (ready_links s) (Ready_at 4096 10) (at_level 10 (ready u))"
proof -
  have "Ready priority_example = 4096" by (simp add: priority_example_def)
  then show ?thesis
    using priority_scheduler_refines [OF _ example_configuration(1), of "[Start 200, Start 300]"] by auto
qed

theorem schedulers_equivalent_witness:
  "\<exists>s x. priority_run 255 100 [(200, 20, True), (300, 20, True)] [Start 300, Set_state 300 1] priority_example = Some s
    \<and> simple_run 255 100 [(200, 20, True), (300, 20, True)] [Start 300, Set_state 300 1] simple_example = Some x
    \<and> Thread_Heir s = Thread_Heir x"
proof -
  have "same_processor priority_example simple_example"
    by (simp add: same_processor_def priority_example_def simple_example_def)
  from schedulers_equivalent [OF _ example_configuration(1) _ example_configuration(2) this, of "[Start 300, Set_state 300 1]"]
  show ?thesis by (auto simp: same_processor_def priority_example_def simple_example_def)
qed

lemma example_list:
  "map_option (\<lambda>u. (Thread_Heir u, is_preemptible (sched_threads u 200), sched_state (sched_threads u 300),
       thread_priority (sched_threads u 300), thread_priority (sched_threads u 200)))
     (list_run 255 100 [(200, 20, True), (300, 20, True)] [Start 200, Start 300] priority_example)
   = Some (200, True, 0, 20, 20)"
  by code_simp

theorem yield_reaches_equals_witness:
  "\<exists>s n s'. priority_run 255 100 [(200, 20, True), (300, 20, True)] [Start 200, Start 300] priority_example = Some s
    \<and> Thread_Heir s = 200 \<and> yields SCHEDULER_PRIORITY_ENTRY_POINTS n s = Some s' \<and> Thread_Heir s' = 300"
proof -
  have r: "0 < Ready priority_example" by (simp add: priority_example_def)
  obtain s u where s: "priority_run 255 100 [(200, 20, True), (300, 20, True)] [Start 200, Start 300] priority_example = Some s"
    "list_run 255 100 [(200, 20, True), (300, 20, True)] [Start 200, Start 300] priority_example = Some u" "same_processor s u"
    using priority_run_ok [OF r example_configuration(1), of "[Start 200, Start 300]"] priority_relD(1) by blast
  have f: "Thread_Heir s = 200" "is_preemptible (sched_threads s 200)" "sched_state (sched_threads s 300) = 0"
    "thread_priority (sched_threads s 300) = thread_priority (sched_threads s 200)"
    using example_list s(2,3) by (simp_all add: same_processor_def)
  have "\<exists>n s'. n < card {x \<in> threads_of 100 [(200, 20, True), (300, 20, True)]. Thread_Is_ready x s
        \<and> thread_priority (sched_threads s x) = thread_priority (sched_threads s 300)}
    \<and> yields SCHEDULER_PRIORITY_ENTRY_POINTS n s = Some s' \<and> Thread_Heir s' = 300"
    by (rule yield_reaches_equals [OF r example_configuration(1) s(1)])
      (use f in \<open>simp_all add: threads_of_def Thread_Is_ready_def\<close>)
  then show ?thesis using s(1) f(1) by blast
qed

end
