(* ===== verification/Rb_Tree.thy ===== *)
theory Rb_Tree
  imports Prelude "HOL-Library.Monad_Syntax"
begin

text \<open>
  The red-black trees of the score (\<^verbatim>\<open>cpukit/include/rtems/score/rbtree.h\<close>,
  \<^verbatim>\<open>cpukit/score/src/rbtree*.c\<close>) with the macros they are generated from
  (\<^verbatim>\<open>cpukit/include/rtems/score/bsd-tree.h\<close>). Nodes and tree controls are addresses, 0 is
  \<open>NULL\<close>; the memory holds the fields of all nodes and the roots of all trees. \<open>None\<close> is the access
  to a field of \<open>NULL\<close> that a descent or a repair could make, or a loop without an end; nodes that the
  caller passes and the parent of a left child are not \<open>NULL\<close>. The variable \<open>tmp\<close> that a rotation macro sets is the
  child of \<open>elm\<close> before the rotation. This theory holds the operations; the theories
  \<^verbatim>\<open>Rb_Shape\<close>, \<^verbatim>\<open>Rb_Insert\<close> and \<^verbatim>\<open>Rb_Remove\<close> show that they keep a balanced tree and what they do to
  the sequence of its nodes.
\<close>

section \<open>Nodes\<close>

record rb_mem =
  rbe_left :: "nat \<Rightarrow> nat"
  rbe_right :: "nat \<Rightarrow> nat"
  rbe_parent :: "nat \<Rightarrow> nat"
  rbe_color :: "nat \<Rightarrow> int"
  rbh_root :: "nat \<Rightarrow> nat"

definition set_left :: "nat \<Rightarrow> nat \<Rightarrow> rb_mem \<Rightarrow> rb_mem" where
  "set_left a x m = m\<lparr>rbe_left := (rbe_left m)(a := x)\<rparr>"
definition set_right :: "nat \<Rightarrow> nat \<Rightarrow> rb_mem \<Rightarrow> rb_mem" where
  "set_right a x m = m\<lparr>rbe_right := (rbe_right m)(a := x)\<rparr>"
definition set_parent :: "nat \<Rightarrow> nat \<Rightarrow> rb_mem \<Rightarrow> rb_mem" where
  "set_parent a x m = m\<lparr>rbe_parent := (rbe_parent m)(a := x)\<rparr>"
definition set_color :: "nat \<Rightarrow> int \<Rightarrow> rb_mem \<Rightarrow> rb_mem" where
  "set_color a c m = m\<lparr>rbe_color := (rbe_color m)(a := c)\<rparr>"
definition set_root :: "nat \<Rightarrow> nat \<Rightarrow> rb_mem \<Rightarrow> rb_mem" where
  "set_root h x m = m\<lparr>rbh_root := (rbh_root m)(h := x)\<rparr>"

abbreviation RB_BLACK :: int where "RB_BLACK \<equiv> 0"
abbreviation RB_RED :: int where "RB_RED \<equiv> 1"

definition RB_ISRED :: "nat \<Rightarrow> rb_mem \<Rightarrow> bool" where
  "RB_ISRED elm m \<longleftrightarrow> elm \<noteq> 0 \<and> rbe_color m elm = RB_RED"

definition RB_SET :: "nat \<Rightarrow> nat \<Rightarrow> rb_mem \<Rightarrow> rb_mem" where
  "RB_SET elm parent m =
     (let m = set_parent elm parent m;
          m = set_right elm 0 m;
          m = set_left elm 0 m
      in set_color elm RB_RED m)"

definition RB_SET_BLACKRED :: "nat \<Rightarrow> nat \<Rightarrow> rb_mem \<Rightarrow> rb_mem" where
  "RB_SET_BLACKRED black red m = set_color red RB_RED (set_color black RB_BLACK m)"

section \<open>Rotations\<close>

definition RB_SWAP_CHILD :: "nat \<Rightarrow> nat \<Rightarrow> nat \<Rightarrow> rb_mem \<Rightarrow> rb_mem" where
  "RB_SWAP_CHILD head out_elm in_elm m =
     (if rbe_parent m out_elm = 0 then set_root head in_elm m
      else if out_elm = rbe_left m (rbe_parent m out_elm) then set_left (rbe_parent m out_elm) in_elm m
      else set_right (rbe_parent m out_elm) in_elm m)"

definition RB_ROTATE_LEFT :: "nat \<Rightarrow> nat \<Rightarrow> rb_mem \<Rightarrow> rb_mem option" where
  "RB_ROTATE_LEFT head elm m =
     (let tmp = rbe_right m elm in
      if elm = 0 \<or> tmp = 0 then None
      else let m = set_right elm (rbe_left m tmp) m;
               m = (if rbe_right m elm \<noteq> 0 then set_parent (rbe_right m elm) elm m else m);
               m = set_parent tmp (rbe_parent m elm) m;
               m = RB_SWAP_CHILD head elm tmp m;
               m = set_left tmp elm m
           in Some (set_parent elm tmp m))"

definition RB_ROTATE_RIGHT :: "nat \<Rightarrow> nat \<Rightarrow> rb_mem \<Rightarrow> rb_mem option" where
  "RB_ROTATE_RIGHT head elm m =
     (let tmp = rbe_left m elm in
      if elm = 0 \<or> tmp = 0 then None
      else let m = set_left elm (rbe_right m tmp) m;
               m = (if rbe_left m elm \<noteq> 0 then set_parent (rbe_left m elm) elm m else m);
               m = set_parent tmp (rbe_parent m elm) m;
               m = RB_SWAP_CHILD head elm tmp m;
               m = set_right tmp elm m
           in Some (set_parent elm tmp m))"

definition RB_PARENT_ROTATE_LEFT :: "nat \<Rightarrow> nat \<Rightarrow> rb_mem \<Rightarrow> rb_mem option" where
  "RB_PARENT_ROTATE_LEFT parent left m =
     (let tmp = rbe_right m left in
      if parent = 0 \<or> left = 0 \<or> tmp = 0 then None
      else let m = set_right left (rbe_left m tmp) m;
               m = (if rbe_right m left \<noteq> 0 then set_parent (rbe_right m left) left m else m);
               m = set_parent tmp parent m;
               m = set_left parent tmp m;
               m = set_left tmp left m
           in Some (set_parent left tmp m))"

definition RB_PARENT_ROTATE_RIGHT :: "nat \<Rightarrow> nat \<Rightarrow> rb_mem \<Rightarrow> rb_mem option" where
  "RB_PARENT_ROTATE_RIGHT parent right m =
     (let tmp = rbe_left m right in
      if parent = 0 \<or> right = 0 \<or> tmp = 0 then None
      else let m = set_left right (rbe_right m tmp) m;
               m = (if rbe_left m right \<noteq> 0 then set_parent (rbe_left m right) right m else m);
               m = set_parent tmp parent m;
               m = set_right parent tmp m;
               m = set_right tmp right m
           in Some (set_parent right tmp m))"

definition RB_RED_ROTATE_LEFT :: "nat \<Rightarrow> nat \<Rightarrow> rb_mem \<Rightarrow> rb_mem option" where
  "RB_RED_ROTATE_LEFT head elm m =
     (let tmp = rbe_right m elm in
      if elm = 0 \<or> tmp = 0 \<or> rbe_left m tmp = 0 then None
      else let m = set_right elm (rbe_left m tmp) m;
               m = set_parent (rbe_right m elm) elm m;
               m = set_parent tmp (rbe_parent m elm) m;
               m = RB_SWAP_CHILD head elm tmp m;
               m = set_left tmp elm m
           in Some (set_parent elm tmp m))"

definition RB_RED_ROTATE_RIGHT :: "nat \<Rightarrow> nat \<Rightarrow> rb_mem \<Rightarrow> rb_mem option" where
  "RB_RED_ROTATE_RIGHT head elm m =
     (let tmp = rbe_left m elm in
      if elm = 0 \<or> tmp = 0 \<or> rbe_right m tmp = 0 then None
      else let m = set_left elm (rbe_right m tmp) m;
               m = set_parent (rbe_left m elm) elm m;
               m = set_parent tmp (rbe_parent m elm) m;
               m = RB_SWAP_CHILD head elm tmp m;
               m = set_right tmp elm m
           in Some (set_parent elm tmp m))"

section \<open>Insertion\<close>

text \<open>
  One round of the loop of \<open>RB_INSERT_COLOR\<close>, for a parent that is the left child and for one that is
  the right child of the grandparent; the result is the next \<open>elm\<close>.
\<close>

definition insert_color_left :: "nat \<Rightarrow> nat \<Rightarrow> nat \<Rightarrow> nat \<Rightarrow> rb_mem \<Rightarrow> (nat \<times> rb_mem) option" where
  "insert_color_left head elm parent gparent m =
     (let tmp = rbe_right m gparent in
      if RB_ISRED tmp m
      then Some (gparent, RB_SET_BLACKRED parent gparent (set_color tmp RB_BLACK m))
      else if rbe_right m parent = elm
      then do {
        m \<leftarrow> RB_PARENT_ROTATE_LEFT gparent parent m;
        m \<leftarrow> RB_ROTATE_RIGHT head gparent (RB_SET_BLACKRED elm gparent m);
        Some (parent, m)
      }
      else do {
        m \<leftarrow> RB_ROTATE_RIGHT head gparent (RB_SET_BLACKRED parent gparent m);
        Some (elm, m)
      })"

definition insert_color_right :: "nat \<Rightarrow> nat \<Rightarrow> nat \<Rightarrow> nat \<Rightarrow> rb_mem \<Rightarrow> (nat \<times> rb_mem) option" where
  "insert_color_right head elm parent gparent m =
     (let tmp = rbe_left m gparent in
      if RB_ISRED tmp m
      then Some (gparent, RB_SET_BLACKRED parent gparent (set_color tmp RB_BLACK m))
      else if rbe_left m parent = elm
      then do {
        m \<leftarrow> RB_PARENT_ROTATE_RIGHT gparent parent m;
        m \<leftarrow> RB_ROTATE_LEFT head gparent (RB_SET_BLACKRED elm gparent m);
        Some (parent, m)
      }
      else do {
        m \<leftarrow> RB_ROTATE_LEFT head gparent (RB_SET_BLACKRED parent gparent m);
        Some (elm, m)
      })"

definition insert_color_round :: "nat \<Rightarrow> nat \<Rightarrow> nat \<Rightarrow> rb_mem \<Rightarrow> (nat \<times> rb_mem) option" where
  "insert_color_round head elm parent m =
     (let gparent = rbe_parent m parent in
      if gparent = 0 then None
      else if parent = rbe_left m gparent then insert_color_left head elm parent gparent m
      else insert_color_right head elm parent gparent m)"

partial_function (option) insert_color_loop :: "nat \<Rightarrow> nat \<Rightarrow> rb_mem \<Rightarrow> rb_mem option" where
  "insert_color_loop head elm m =
     (let parent = rbe_parent m elm in
      if RB_ISRED parent m
      then do {
        r \<leftarrow> insert_color_round head elm parent m;
        insert_color_loop head (fst r) (snd r)
      }
      else Some m)"

definition RB_INSERT_COLOR :: "nat \<Rightarrow> nat \<Rightarrow> rb_mem \<Rightarrow> rb_mem option" where
  "RB_INSERT_COLOR head elm m = do {
     m \<leftarrow> insert_color_loop head elm m;
     if rbh_root m head = 0 then None else Some (set_color (rbh_root m head) RB_BLACK m)
   }"

text \<open>A place of the pointer to a node: the root of a tree or a child of a node.\<close>

datatype rb_link = Root_reference nat | Left_reference nat | Right_reference nat

fun link_get :: "rb_link \<Rightarrow> rb_mem \<Rightarrow> nat" where
  "link_get (Root_reference h) m = rbh_root m h"
| "link_get (Left_reference a) m = rbe_left m a"
| "link_get (Right_reference a) m = rbe_right m a"

fun link_set :: "rb_link \<Rightarrow> nat \<Rightarrow> rb_mem \<Rightarrow> rb_mem" where
  "link_set (Root_reference h) x m = set_root h x m"
| "link_set (Left_reference a) x m = set_left a x m"
| "link_set (Right_reference a) x m = set_right a x m"

definition RBTree_Insert_color :: "nat \<Rightarrow> nat \<Rightarrow> rb_mem \<Rightarrow> rb_mem option" where
  "RBTree_Insert_color the_rbtree the_node = RB_INSERT_COLOR the_rbtree the_node"

definition RBTree_Add_child :: "nat \<Rightarrow> nat \<Rightarrow> rb_link \<Rightarrow> rb_mem \<Rightarrow> rb_mem" where
  "RBTree_Add_child child parent link m = link_set link child (RB_SET child parent m)"

definition RBTree_Insert_with_parent :: "nat \<Rightarrow> nat \<Rightarrow> nat \<Rightarrow> rb_link \<Rightarrow> rb_mem \<Rightarrow> rb_mem option" where
  "RBTree_Insert_with_parent the_rbtree the_node parent link m =
     RBTree_Insert_color the_rbtree the_node (RBTree_Add_child the_node parent link m)"

text \<open>
  The descent of \<open>_RBTree_Insert_inline\<close> and of \<open>_Watchdog_Insert\<close>: the link at its end, the parent and
  the value of a variable that is set to \<open>r\<close> when the descent goes to the right. \<open>_RBTree_Append\<close> and
  \<open>_RBTree_Prepend\<close> descend to one side and have no such variable.
\<close>

partial_function (option) descend :: "(nat \<Rightarrow> bool) \<Rightarrow> 'a \<Rightarrow> rb_link \<Rightarrow> nat \<Rightarrow> 'a \<Rightarrow> rb_mem \<Rightarrow> (rb_link \<times> nat \<times> 'a) option" where
  "descend lt r link parent v m =
     (if link_get link m = 0 then Some (link, parent, v)
      else let parent = link_get link m in
           if lt parent then descend lt r (Left_reference parent) parent v m
           else descend lt r (Right_reference parent) parent r m)"

definition RBTree_Insert_inline :: "nat \<Rightarrow> nat \<Rightarrow> (nat \<Rightarrow> bool) \<Rightarrow> rb_mem \<Rightarrow> (bool \<times> rb_mem) option" where
  "RBTree_Insert_inline the_rbtree the_node lt m = do {
     (link, parent, is_new_minimum) \<leftarrow> descend lt False (Root_reference the_rbtree) 0 True m;
     let m = RBTree_Add_child the_node parent link m;
     m \<leftarrow> RBTree_Insert_color the_rbtree the_node m;
     Some (is_new_minimum, m)
   }"

definition RBTree_Append :: "nat \<Rightarrow> nat \<Rightarrow> rb_mem \<Rightarrow> rb_mem option" where
  "RBTree_Append the_rbtree the_node m = do {
     (link, parent, _) \<leftarrow> descend (\<lambda>_. False) () (Root_reference the_rbtree) 0 () m;
     let m = RBTree_Add_child the_node parent link m;
     RBTree_Insert_color the_rbtree the_node m
   }"

definition RBTree_Prepend :: "nat \<Rightarrow> nat \<Rightarrow> rb_mem \<Rightarrow> rb_mem option" where
  "RBTree_Prepend the_rbtree the_node m = do {
     (link, parent, _) \<leftarrow> descend (\<lambda>_. True) () (Root_reference the_rbtree) 0 () m;
     let m = RBTree_Add_child the_node parent link m;
     RBTree_Insert_color the_rbtree the_node m
   }"

section \<open>Removal\<close>

text \<open>
  One round of the loop of \<open>RB_REMOVE_COLOR\<close>, for an \<open>elm\<close> that is the left child and for one that
  is the right child of \<open>parent\<close>. \<open>None\<close> in the second component: the round ended with \<open>continue\<close>,
  otherwise with \<open>break\<close> and this \<open>elm\<close>.
  \<open>black_sibling_right\<close> and \<open>black_sibling_left\<close> are the part after the first \<open>if\<close>, when the sibling
  \<open>tmp\<close> is black; the two statements after the inner \<open>if\<close> stand in both of its branches that reach them.
\<close>

definition black_sibling_right :: "nat \<Rightarrow> nat \<Rightarrow> nat \<Rightarrow> rb_mem \<Rightarrow> (rb_mem \<times> nat option) option" where
  "black_sibling_right head parent tmp m =
     (if tmp = 0 then None
      else if RB_ISRED (rbe_right m tmp) m
      then do {
        let m = set_color (rbe_right m tmp) RB_BLACK m;
        let m = set_color tmp (rbe_color m parent) m;
        m \<leftarrow> RB_ROTATE_LEFT head parent (set_color parent RB_BLACK m);
        Some (m, Some (rbh_root m head))
      }
      else if RB_ISRED (rbe_left m tmp) m
      then do {
        let oleft = rbe_left m tmp;
        m \<leftarrow> RB_PARENT_ROTATE_RIGHT parent tmp m;
        let m = set_color oleft RB_BLACK m;
        let tmp = oleft;
        let m = set_color tmp (rbe_color m parent) m;
        m \<leftarrow> RB_ROTATE_LEFT head parent (set_color parent RB_BLACK m);
        Some (m, Some (rbh_root m head))
      }
      else Some (set_color tmp RB_RED m, None))"

definition remove_color_left :: "nat \<Rightarrow> nat \<Rightarrow> rb_mem \<Rightarrow> (rb_mem \<times> nat option) option" where
  "remove_color_left head parent m =
     (let tmp = rbe_right m parent in
      if tmp = 0 then None
      else if rbe_color m tmp = RB_RED
      then do {
        m \<leftarrow> RB_RED_ROTATE_LEFT head parent (RB_SET_BLACKRED tmp parent m);
        black_sibling_right head parent (rbe_right m parent) m
      }
      else black_sibling_right head parent tmp m)"

definition black_sibling_left :: "nat \<Rightarrow> nat \<Rightarrow> nat \<Rightarrow> rb_mem \<Rightarrow> (rb_mem \<times> nat option) option" where
  "black_sibling_left head parent tmp m =
     (if tmp = 0 then None
      else if RB_ISRED (rbe_left m tmp) m
      then do {
        let m = set_color (rbe_left m tmp) RB_BLACK m;
        let m = set_color tmp (rbe_color m parent) m;
        m \<leftarrow> RB_ROTATE_RIGHT head parent (set_color parent RB_BLACK m);
        Some (m, Some (rbh_root m head))
      }
      else if RB_ISRED (rbe_right m tmp) m
      then do {
        let oright = rbe_right m tmp;
        m \<leftarrow> RB_PARENT_ROTATE_LEFT parent tmp m;
        let m = set_color oright RB_BLACK m;
        let tmp = oright;
        let m = set_color tmp (rbe_color m parent) m;
        m \<leftarrow> RB_ROTATE_RIGHT head parent (set_color parent RB_BLACK m);
        Some (m, Some (rbh_root m head))
      }
      else Some (set_color tmp RB_RED m, None))"

definition remove_color_right :: "nat \<Rightarrow> nat \<Rightarrow> rb_mem \<Rightarrow> (rb_mem \<times> nat option) option" where
  "remove_color_right head parent m =
     (let tmp = rbe_left m parent in
      if tmp = 0 then None
      else if rbe_color m tmp = RB_RED
      then do {
        m \<leftarrow> RB_RED_ROTATE_RIGHT head parent (RB_SET_BLACKRED tmp parent m);
        black_sibling_left head parent (rbe_left m parent) m
      }
      else black_sibling_left head parent tmp m)"

definition remove_color_round :: "nat \<Rightarrow> nat \<Rightarrow> nat \<Rightarrow> rb_mem \<Rightarrow> (rb_mem \<times> nat option) option" where
  "remove_color_round head elm parent m =
     (if parent = 0 then None
      else if rbe_left m parent = elm then remove_color_left head parent m
      else remove_color_right head parent m)"

text \<open>The loop; the result is the memory and the last \<open>elm\<close>.\<close>

partial_function (option) remove_color_loop :: "nat \<Rightarrow> nat \<Rightarrow> nat \<Rightarrow> rb_mem \<Rightarrow> (rb_mem \<times> nat) option" where
  "remove_color_loop head elm parent m = do {
     r \<leftarrow> remove_color_round head elm parent m;
     case snd r of
       Some elm \<Rightarrow> Some (fst r, elm)
     | None \<Rightarrow> (let m = fst r; elm = parent; parent = rbe_parent m elm in
         if rbe_color m elm = RB_BLACK \<and> parent \<noteq> 0 then remove_color_loop head elm parent m
         else Some (m, elm))
   }"

definition RB_REMOVE_COLOR :: "nat \<Rightarrow> nat \<Rightarrow> rb_mem \<Rightarrow> rb_mem option" where
  "RB_REMOVE_COLOR head parent m = do {
     (m, elm) \<leftarrow> remove_color_loop head 0 parent m;
     if elm = 0 then None else Some (set_color elm RB_BLACK m)
   }"

text \<open>The leftmost node below a node, and the loops of the same kind to the right.\<close>

partial_function (option) leftmost :: "nat \<Rightarrow> rb_mem \<Rightarrow> nat option" where
  "leftmost elm m = (if elm = 0 then None else if rbe_left m elm = 0 then Some elm else leftmost (rbe_left m elm) m)"

partial_function (option) rightmost :: "nat \<Rightarrow> rb_mem \<Rightarrow> nat option" where
  "rightmost elm m = (if elm = 0 then None else if rbe_right m elm = 0 then Some elm else rightmost (rbe_right m elm) m)"

text \<open>\<open>elm->field = old->field\<close>.\<close>

definition copy_fields :: "nat \<Rightarrow> nat \<Rightarrow> rb_mem \<Rightarrow> rb_mem" where
  "copy_fields elm old m =
     set_color elm (rbe_color m old) (set_parent elm (rbe_parent m old)
       (set_right elm (rbe_right m old) (set_left elm (rbe_left m old) m)))"

text \<open>The last part of \<open>RB_REMOVE\<close>, from the exchange of \<open>old\<close> with \<open>elm\<close> on.\<close>

definition remove_finish :: "nat \<Rightarrow> nat \<Rightarrow> nat \<Rightarrow> nat \<Rightarrow> nat \<Rightarrow> int \<Rightarrow> rb_mem \<Rightarrow> rb_mem option" where
  "remove_finish head old elm child parent color m =
     (let m = RB_SWAP_CHILD head old elm m in
      if child \<noteq> 0 then Some (set_color child RB_BLACK (set_parent child parent m))
      else if color \<noteq> RB_RED \<and> parent \<noteq> 0 then RB_REMOVE_COLOR head parent m
      else Some m)"

definition RB_REMOVE :: "nat \<Rightarrow> nat \<Rightarrow> rb_mem \<Rightarrow> rb_mem option" where
  "RB_REMOVE head elm m =
     (let old = elm;
          parent = rbe_parent m elm;
          right = rbe_right m elm;
          color = rbe_color m elm
      in if rbe_left m elm = 0 then remove_finish head old right right parent color m
         else if right = 0 then remove_finish head old (rbe_left m elm) (rbe_left m elm) parent color m
         else if rbe_left m right = 0
         then (let child = rbe_right m right;
                   m = set_right old child m;
                   elm = right;
                   m = set_parent (rbe_left m old) elm m;
                   color = rbe_color m elm
               in remove_finish head old elm child elm color (copy_fields elm old m))
         else do {
           elm \<leftarrow> leftmost (rbe_left m right) m;
           let child = rbe_right m elm;
           let parent = rbe_parent m elm;
           let m = set_left parent child m;
           let m = set_parent (rbe_right m old) elm m;
           let m = set_parent (rbe_left m old) elm m;
           let color = rbe_color m elm;
           remove_finish head old elm child parent color (copy_fields elm old m)
         })"

definition RBTree_Extract :: "nat \<Rightarrow> nat \<Rightarrow> rb_mem \<Rightarrow> rb_mem option" where
  "RBTree_Extract the_rbtree the_node = RB_REMOVE the_rbtree the_node"

section \<open>Other operations\<close>

definition RBTree_Initialize_empty :: "nat \<Rightarrow> rb_mem \<Rightarrow> rb_mem" where
  "RBTree_Initialize_empty the_rbtree = set_root the_rbtree 0"

definition RBTree_Initialize_one :: "nat \<Rightarrow> nat \<Rightarrow> rb_mem \<Rightarrow> rb_mem" where
  "RBTree_Initialize_one the_rbtree the_node m =
     set_color the_node RB_BLACK (set_right the_node 0 (set_left the_node 0
       (set_parent the_node 0 (set_root the_rbtree the_node m))))"

definition RBTree_Is_empty :: "nat \<Rightarrow> rb_mem \<Rightarrow> bool" where
  "RBTree_Is_empty the_rbtree m \<longleftrightarrow> rbh_root m the_rbtree = 0"

definition RBTree_Is_root :: "nat \<Rightarrow> rb_mem \<Rightarrow> bool" where
  "RBTree_Is_root the_node m \<longleftrightarrow> rbe_parent m the_node = 0"

definition RBTree_Set_off_tree :: "nat \<Rightarrow> rb_mem \<Rightarrow> rb_mem" where
  "RBTree_Set_off_tree the_node = set_color the_node (- 1)"

definition RBTree_Is_node_off_tree :: "nat \<Rightarrow> rb_mem \<Rightarrow> bool" where
  "RBTree_Is_node_off_tree the_node m \<longleftrightarrow> rbe_color m the_node = - 1"

definition RBTree_Minimum :: "nat \<Rightarrow> rb_mem \<Rightarrow> nat option" where
  "RBTree_Minimum the_rbtree m =
     (if rbh_root m the_rbtree = 0 then Some 0 else leftmost (rbh_root m the_rbtree) m)"

definition RBTree_Maximum :: "nat \<Rightarrow> rb_mem \<Rightarrow> nat option" where
  "RBTree_Maximum the_rbtree m =
     (if rbh_root m the_rbtree = 0 then Some 0 else rightmost (rbh_root m the_rbtree) m)"

text \<open>The climb of \<open>RB_NEXT\<close>: up while \<open>elm\<close> is the right child, then to the parent.\<close>

partial_function (option) climb_right :: "nat \<Rightarrow> rb_mem \<Rightarrow> nat option" where
  "climb_right elm m =
     (if rbe_parent m elm \<noteq> 0 \<and> elm = rbe_right m (rbe_parent m elm) then climb_right (rbe_parent m elm) m
      else Some (rbe_parent m elm))"

partial_function (option) climb_left :: "nat \<Rightarrow> rb_mem \<Rightarrow> nat option" where
  "climb_left elm m =
     (if rbe_parent m elm \<noteq> 0 \<and> elm = rbe_left m (rbe_parent m elm) then climb_left (rbe_parent m elm) m
      else Some (rbe_parent m elm))"

definition RB_NEXT :: "nat \<Rightarrow> rb_mem \<Rightarrow> nat option" where
  "RB_NEXT elm m =
     (if elm = 0 then None
      else if rbe_right m elm \<noteq> 0 then leftmost (rbe_right m elm) m
      else if rbe_parent m elm \<noteq> 0 \<and> elm = rbe_left m (rbe_parent m elm) then Some (rbe_parent m elm)
      else climb_right elm m)"

definition RB_PREV :: "nat \<Rightarrow> rb_mem \<Rightarrow> nat option" where
  "RB_PREV elm m =
     (if elm = 0 then None
      else if rbe_left m elm \<noteq> 0 then rightmost (rbe_left m elm) m
      else if rbe_parent m elm \<noteq> 0 \<and> elm = rbe_right m (rbe_parent m elm) then Some (rbe_parent m elm)
      else climb_left elm m)"

definition RBTree_Successor :: "nat \<Rightarrow> rb_mem \<Rightarrow> nat option" where "RBTree_Successor = RB_NEXT"
definition RBTree_Predecessor :: "nat \<Rightarrow> rb_mem \<Rightarrow> nat option" where "RBTree_Predecessor = RB_PREV"

text \<open>The visitor returns whether to stop, and a new argument.\<close>

partial_function (option) iterate :: "(nat \<Rightarrow> 'a \<Rightarrow> bool \<times> 'a) \<Rightarrow> nat \<Rightarrow> 'a \<Rightarrow> rb_mem \<Rightarrow> 'a option" where
  "iterate visitor current arg m =
     (if current = 0 then Some arg
      else let r = visitor current arg in
           RBTree_Successor current m \<bind> (\<lambda>current.
             if fst r then Some (snd r) else iterate visitor current (snd r) m))"

definition RBTree_Iterate :: "nat \<Rightarrow> (nat \<Rightarrow> 'a \<Rightarrow> bool \<times> 'a) \<Rightarrow> 'a \<Rightarrow> rb_mem \<Rightarrow> 'a option" where
  "RBTree_Iterate rbtree visitor arg m = RBTree_Minimum rbtree m \<bind> (\<lambda>current. iterate visitor current arg m)"

text \<open>\<open>_RBTree_Find_inline\<close>, with the key in \<open>eq\<close> and \<open>lt\<close>; 0 if there is no such node.\<close>

partial_function (option) find_loop :: "(nat \<Rightarrow> bool) \<Rightarrow> (nat \<Rightarrow> bool) \<Rightarrow> nat \<Rightarrow> rb_mem \<Rightarrow> nat option" where
  "find_loop eq lt node m =
     (if node = 0 then Some 0
      else if eq node then Some node
      else if lt node then find_loop eq lt (rbe_left m node) m
      else find_loop eq lt (rbe_right m node) m)"

definition RBTree_Find_inline :: "nat \<Rightarrow> (nat \<Rightarrow> bool) \<Rightarrow> (nat \<Rightarrow> bool) \<Rightarrow> rb_mem \<Rightarrow> nat option" where
  "RBTree_Find_inline the_rbtree eq lt m = find_loop eq lt (rbh_root m the_rbtree) m"

definition RBTree_Replace_node :: "nat \<Rightarrow> nat \<Rightarrow> nat \<Rightarrow> rb_mem \<Rightarrow> rb_mem" where
  "RBTree_Replace_node the_rbtree victim replacement m =
     (let parent = rbe_parent m victim;
          link = (if parent \<noteq> 0
                  then if victim = rbe_left m parent then Left_reference parent else Right_reference parent
                  else Root_reference the_rbtree);
          m = link_set link replacement m;
          child = rbe_left m victim;
          m = (if child \<noteq> 0 then set_parent child replacement m else m);
          child = rbe_right m victim;
          m = (if child \<noteq> 0 then set_parent child replacement m else m)
      in copy_fields replacement victim m)"

partial_function (option) dive_left :: "nat \<Rightarrow> rb_mem \<Rightarrow> nat option" where
  "dive_left the_node m =
     (if rbe_left m the_node \<noteq> 0 then dive_left (rbe_left m the_node) m
      else if rbe_right m the_node \<noteq> 0 then dive_left (rbe_right m the_node) m
      else Some the_node)"

text \<open>The results of the postorder functions without the subtraction of the offset of the node.\<close>

definition RBTree_Postorder_next :: "nat \<Rightarrow> rb_mem \<Rightarrow> nat option" where
  "RBTree_Postorder_next the_node m =
     (let parent = rbe_parent m the_node in
      if parent = 0 then Some 0
      else if the_node = rbe_left m parent \<and> rbe_right m parent \<noteq> 0 then dive_left (rbe_right m parent) m
      else Some parent)"

definition RBTree_Postorder_first :: "nat \<Rightarrow> rb_mem \<Rightarrow> nat option" where
  "RBTree_Postorder_first the_rbtree m =
     (if rbh_root m the_rbtree = 0 then Some 0 else dive_left (rbh_root m the_rbtree) m)"

end
