(* ===== verification/Rb_Shape.thy ===== *)
theory Rb_Shape
  imports Rb_Tree
begin

text \<open>
  Red-black trees as data and their places in memory. A tree is looked at from one of its subtrees,
  the focus: the path from the focus to the root is a list of frames, each a node with the side on
  which the path goes on and the subtree on the other side. The left and the right variants of the
  operations are instances of definitions with a direction, so that each fact is proved once.
\<close>

section \<open>Directions\<close>

definition kid :: "bool \<Rightarrow> rb_mem \<Rightarrow> nat \<Rightarrow> nat" where
  "kid d m a = (if d then rbe_left m a else rbe_right m a)"

definition set_kid :: "bool \<Rightarrow> nat \<Rightarrow> nat \<Rightarrow> rb_mem \<Rightarrow> rb_mem" where
  "set_kid d a x m = (if d then set_left a x m else set_right a x m)"

lemmas rb_setters = set_left_def set_right_def set_parent_def set_color_def set_root_def

lemma setter_simps [simp]:
  "kid d (set_kid e a x m) b = (if d = e \<and> b = a then x else kid d m b)"
  "kid d (set_parent a x m) = kid d m" "kid d (set_color a c m) = kid d m" "kid d (set_root h x m) = kid d m"
  "rbe_parent (set_kid d a x m) = rbe_parent m" "rbe_parent (set_parent a x m) = (rbe_parent m)(a := x)"
  "rbe_parent (set_color a c m) = rbe_parent m" "rbe_parent (set_root h x m) = rbe_parent m"
  "rbe_color (set_kid d a x m) = rbe_color m" "rbe_color (set_parent a x m) = rbe_color m"
  "rbe_color (set_color a c m) = (rbe_color m)(a := c)" "rbe_color (set_root h x m) = rbe_color m"
  "rbh_root (set_kid d a x m) = rbh_root m" "rbh_root (set_parent a x m) = rbh_root m"
  "rbh_root (set_color a c m) = rbh_root m" "rbh_root (set_root h x m) = (rbh_root m)(h := x)"
  by (auto simp: kid_def set_kid_def rb_setters)

lemma to_kid:
  "rbe_left m a = kid True m a" "rbe_right m a = kid False m a"
  "set_left a x m = set_kid True a x m" "set_right a x m = set_kid False a x m"
  by (simp_all add: kid_def set_kid_def)

definition turn :: "bool \<Rightarrow> nat \<Rightarrow> nat \<Rightarrow> rb_mem \<Rightarrow> rb_mem option" where
  "turn d head elm m =
     (let tmp = kid (\<not> d) m elm in
      if elm = 0 \<or> tmp = 0 then None
      else let m = set_kid (\<not> d) elm (kid d m tmp) m;
               m = (if kid (\<not> d) m elm \<noteq> 0 then set_parent (kid (\<not> d) m elm) elm m else m);
               m = set_parent tmp (rbe_parent m elm) m;
               m = RB_SWAP_CHILD head elm tmp m;
               m = set_kid d tmp elm m
           in Some (set_parent elm tmp m))"

lemma turn_instances:
  "RB_ROTATE_LEFT = turn True" "RB_ROTATE_RIGHT = turn False"
  by (intro ext, simp add: RB_ROTATE_LEFT_def RB_ROTATE_RIGHT_def turn_def kid_def set_kid_def Let_def)+

section \<open>Trees\<close>

datatype rb = Leaf | Node int rb nat rb

text \<open>The node with the subtree on the side \<open>d\<close> first.\<close>

definition nd :: "bool \<Rightarrow> int \<Rightarrow> rb \<Rightarrow> nat \<Rightarrow> rb \<Rightarrow> rb" where
  "nd d c s a t = (if d then Node c s a t else Node c t a s)"

lemma nd_not [simp]: "nd (\<not> d) c s a t = nd d c t a s"
  by (simp add: nd_def)

lemma nd_inject [simp]: "nd d c s a t = nd d c' s' a' t' \<longleftrightarrow> c = c' \<and> s = s' \<and> a = a' \<and> t = t'"
  "nd d c s a t \<noteq> Leaf" "Leaf \<noteq> nd d c s a t"
  by (auto simp: nd_def)

lemma nd_cases: "t = Leaf \<or> (\<exists>c s a u. t = nd d c s a u)"
  by (cases t; cases d) (auto simp: nd_def)

fun seq :: "rb \<Rightarrow> nat list" where
  "seq Leaf = []"
| "seq (Node c l a r) = seq l @ a # seq r"

lemma set_seq_nd [simp]: "set (seq (nd d c s a t)) = insert a (set (seq s) \<union> set (seq t))"
  by (auto simp: nd_def)

lemma distinct_seq_nd [simp]:
  "distinct (seq (nd d c s a t)) \<longleftrightarrow> distinct (seq s) \<and> distinct (seq t) \<and> a \<notin> set (seq s) \<and> a \<notin> set (seq t)
     \<and> set (seq s) \<inter> set (seq t) = {}"
  by (auto simp: nd_def)

lemma seq_turn: "seq (nd d c2 (nd d c s a s2) b t2) = seq (nd d c s a (nd d c2 s2 b t2))"
  by (simp add: nd_def)

lemma seq_nd_cong: "seq s = seq s' \<Longrightarrow> seq t = seq t' \<Longrightarrow> seq (nd d c s a t) = seq (nd d c' s' a t')"
  by (simp add: nd_def)

fun tree_at :: "rb_mem \<Rightarrow> nat \<Rightarrow> nat \<Rightarrow> rb \<Rightarrow> bool" where
  "tree_at m par p Leaf \<longleftrightarrow> p = 0"
| "tree_at m par p (Node c l a r) \<longleftrightarrow> p = a \<and> a \<noteq> 0 \<and> rbe_parent m a = par \<and> rbe_color m a = c
     \<and> tree_at m a (rbe_left m a) l \<and> tree_at m a (rbe_right m a) r"

lemma tree_at_nd [simp]:
  "tree_at m par p (nd d c s a t) \<longleftrightarrow> p = a \<and> a \<noteq> 0 \<and> rbe_parent m a = par \<and> rbe_color m a = c
     \<and> tree_at m a (kid d m a) s \<and> tree_at m a (kid (\<not> d) m a) t"
  by (auto simp: nd_def kid_def)

lemma tree_at_0 [simp]: "tree_at m par 0 t \<longleftrightarrow> t = Leaf"
  by (cases t) auto

lemma tree_at_nonzero: "tree_at m par p t \<Longrightarrow> p \<noteq> 0 \<Longrightarrow> \<exists>c s u. t = nd d c s p u"
  by (cases t; cases d) (auto simp: nd_def)

lemma tree_at_in: "tree_at m par p t \<Longrightarrow> p \<noteq> 0 \<Longrightarrow> p \<in> set (seq t)"
  by (cases t) auto

lemma tree_at_unique: "tree_at m par p t \<Longrightarrow> tree_at m' par' p' t \<Longrightarrow> p' = p"
  by (cases t) auto

lemma tree_at_parent: "tree_at m par p t \<Longrightarrow> p \<noteq> 0 \<Longrightarrow> rbe_parent m p = par"
  by (cases t) auto

lemma tree_at_cong:
  assumes "\<And>a. a \<in> set (seq t) \<Longrightarrow> rbe_left m' a = rbe_left m a \<and> rbe_right m' a = rbe_right m a
    \<and> rbe_parent m' a = rbe_parent m a \<and> rbe_color m' a = rbe_color m a"
  shows "tree_at m' par p t = tree_at m par p t"
  using assms by (induction t arbitrary: par p) auto

lemma tree_at_update [simp]:
  "a \<notin> set (seq t) \<Longrightarrow> tree_at (set_kid d a x m) par p t = tree_at m par p t"
  "a \<notin> set (seq t) \<Longrightarrow> tree_at (set_parent a x m) par p t = tree_at m par p t"
  "a \<notin> set (seq t) \<Longrightarrow> tree_at (set_color a c m) par p t = tree_at m par p t"
  "tree_at (set_root h x m) par p t = tree_at m par p t"
  by (auto simp: set_kid_def rb_setters intro!: tree_at_cong)

text \<open>The root of a subtree gets another parent.\<close>

lemma tree_at_reparent:
  assumes "tree_at m par p t" and "distinct (seq t)"
  shows "tree_at (if p \<noteq> 0 then set_parent p q m else m) q p t"
proof (cases "p = 0")
  case False
  then obtain c s u where t: "t = nd True c s p u" using tree_at_nonzero [OF assms(1)] by blast
  with assms show ?thesis by simp
qed (use assms in simp)

section \<open>Paths\<close>

datatype frame = Frame bool int nat rb

fun path_nodes :: "frame list \<Rightarrow> nat list" where
  "path_nodes [] = []"
| "path_nodes (Frame d c a s # fs) = a # seq s @ path_nodes fs"

fun plug :: "frame list \<Rightarrow> rb \<Rightarrow> rb" where
  "plug [] t = t"
| "plug (Frame d c a s # fs) t = plug fs (nd d c t a s)"

fun fore :: "frame list \<Rightarrow> nat list" where
  "fore [] = []"
| "fore (Frame d c a s # fs) = fore fs @ (if d then [] else seq s @ [a])"

fun aft :: "frame list \<Rightarrow> nat list" where
  "aft [] = []"
| "aft (Frame d c a s # fs) = (if d then a # seq s else []) @ aft fs"

lemma seq_plug: "seq (plug fs t) = fore fs @ seq t @ aft fs"
  by (induction fs t rule: plug.induct) (auto simp: nd_def)

lemma set_path_nodes: "set (path_nodes fs) = set (fore fs) \<union> set (aft fs)"
  by (induction fs rule: path_nodes.induct) auto

lemma set_seq_plug: "set (seq (plug fs t)) = set (path_nodes fs) \<union> set (seq t)"
  by (auto simp: seq_plug set_path_nodes)

lemma distinct_path_nodes: "distinct (path_nodes fs @ seq t) \<longleftrightarrow> distinct (seq (plug fs t))"
  unfolding seq_plug
  by (induction fs arbitrary: t rule: path_nodes.induct) (auto simp: set_path_nodes)

fun path_at :: "rb_mem \<Rightarrow> nat \<Rightarrow> frame list \<Rightarrow> nat \<Rightarrow> nat \<Rightarrow> bool" where
  "path_at m h [] par p \<longleftrightarrow> par = 0 \<and> rbh_root m h = p"
| "path_at m h (Frame d c a s # fs) par p \<longleftrightarrow> par = a \<and> a \<noteq> 0 \<and> rbe_color m a = c \<and> kid d m a = p
     \<and> tree_at m a (kid (\<not> d) m a) s \<and> path_at m h fs (rbe_parent m a) a"

lemma path_at_update [simp]:
  "a \<notin> set (path_nodes fs) \<Longrightarrow> path_at (set_kid d a x m) h fs par p = path_at m h fs par p"
  "a \<notin> set (path_nodes fs) \<Longrightarrow> path_at (set_parent a x m) h fs par p = path_at m h fs par p"
  "a \<notin> set (path_nodes fs) \<Longrightarrow> path_at (set_color a c m) h fs par p = path_at m h fs par p"
  by (induction fs arbitrary: par p rule: path_nodes.induct) auto

definition focus :: "rb_mem \<Rightarrow> nat \<Rightarrow> frame list \<Rightarrow> nat \<Rightarrow> nat \<Rightarrow> rb \<Rightarrow> bool" where
  "focus m h fs par p t \<longleftrightarrow> path_at m h fs par p \<and> tree_at m par p t \<and> distinct (path_nodes fs @ seq t)"

lemma focusD:
  assumes "focus m h fs par p t"
  shows "path_at m h fs par p" "tree_at m par p t" "distinct (path_nodes fs)" "distinct (seq t)"
    "set (path_nodes fs) \<inter> set (seq t) = {}"
  using assms by (auto simp: focus_def)

lemma focus_Frame: "focus m h (Frame d c a s # fs) par p t \<longleftrightarrow>
  par = a \<and> kid d m a = p \<and> focus m h fs (rbe_parent m a) a (nd d c t a s)"
  unfolding focus_def path_at.simps tree_at_nd path_nodes.simps by auto

lemma focus_down: "focus m h fs par p (nd d c t a s) \<Longrightarrow> p = a \<and> focus m h (Frame d c a s # fs) a (kid d m a) t"
  by (auto simp: focus_def)

definition is_tree :: "rb_mem \<Rightarrow> nat \<Rightarrow> rb \<Rightarrow> bool" where
  "is_tree m h t \<longleftrightarrow> tree_at m 0 (rbh_root m h) t \<and> distinct (seq t)"

lemma focus_is_tree: "focus m h fs par p t \<Longrightarrow> is_tree m h (plug fs t)"
  by (induction fs t arbitrary: par p rule: plug.induct) (auto simp: focus_Frame, auto simp: focus_def is_tree_def)

lemma is_tree_focus:
  assumes "is_tree m h (plug fs t)"
  shows "\<exists>par p. focus m h fs par p t"
  using assms
proof (induction fs t rule: plug.induct)
  case (2 d c a s fs t)
  then obtain par p where "focus m h fs par p (nd d c t a s)" by auto
  then show ?case using focus_down by blast
qed (auto simp: is_tree_def focus_def)

lemma is_tree_root: "is_tree m h t \<longleftrightarrow> focus m h [] 0 (rbh_root m h) t"
  by (auto simp: is_tree_def focus_def)

lemma in_tree_focus:
  assumes "is_tree m h t" and "a \<in> set (seq t)"
  shows "\<exists>fs par c l r. focus m h fs par a (Node c l a r) \<and> plug fs (Node c l a r) = t"
proof -
  have "\<exists>fs c l r. plug fs (Node c l a r) = t" if "a \<in> set (seq t)" for t
    using that
  proof (induction t)
    case (Node c l b r)
    consider "a = b" | "a \<in> set (seq l)" | "a \<in> set (seq r)" using Node.prems by auto
    then show ?case
    proof cases
      case 1 then show ?thesis by (metis plug.simps(1))
    next
      case 2
      then obtain fs c' l' r' where e: "plug fs (Node c' l' a r') = l" using Node.IH(1) by blast
      have "plug (fs @ [Frame True c b r]) u = Node c (plug fs u) b r" for u
        by (induction fs u rule: plug.induct) (auto simp: nd_def)
      with e show ?thesis by metis
    next
      case 3
      then obtain fs c' l' r' where e: "plug fs (Node c' l' a r') = r" using Node.IH(2) by blast
      have "plug (fs @ [Frame False c b l]) u = Node c l b (plug fs u)" for u
        by (induction fs u rule: plug.induct) (auto simp: nd_def)
      with e show ?thesis by metis
    qed
  qed simp
  then obtain fs c l r where e: "plug fs (Node c l a r) = t" using assms(2) by blast
  then obtain par p where f: "focus m h fs par p (Node c l a r)" using is_tree_focus assms(1) by blast
  then have "p = a" using focusD(2) [OF f] by simp
  with e f show ?thesis by blast
qed

section \<open>What an operation leaves alone\<close>

definition same_but :: "nat set \<Rightarrow> nat \<Rightarrow> rb_mem \<Rightarrow> rb_mem \<Rightarrow> bool" where
  "same_but A h m m' \<longleftrightarrow> (\<forall>a. a \<notin> A \<longrightarrow> rbe_left m' a = rbe_left m a \<and> rbe_right m' a = rbe_right m a
     \<and> rbe_parent m' a = rbe_parent m a \<and> rbe_color m' a = rbe_color m a) \<and> (\<forall>k. k \<noteq> h \<longrightarrow> rbh_root m' k = rbh_root m k)"

lemma same_but_refl [simp]: "same_but A h m m"
  by (simp add: same_but_def)

lemma same_but_trans [trans]: "same_but A h m m' \<Longrightarrow> same_but A h m' m'' \<Longrightarrow> same_but A h m m''"
  by (simp add: same_but_def)

lemma same_but_mono: "same_but A h m m' \<Longrightarrow> A \<subseteq> B \<Longrightarrow> same_but B h m m'"
  by (auto simp: same_but_def)

lemma same_but_update [simp]:
  "a \<in> A \<Longrightarrow> same_but A h m (set_kid d a x m') \<longleftrightarrow> same_but A h m m'"
  "a \<in> A \<Longrightarrow> same_but A h m (set_parent a x m') \<longleftrightarrow> same_but A h m m'"
  "a \<in> A \<Longrightarrow> same_but A h m (set_color a c m') \<longleftrightarrow> same_but A h m m'"
  "same_but A h m (set_root h x m') \<longleftrightarrow> same_but A h m m'"
  by (auto simp: same_but_def set_kid_def rb_setters)

lemma same_but_tree:
  assumes "same_but A h m m'" and "A \<inter> set (seq t) = {}"
  shows "tree_at m' par p t = tree_at m par p t"
  by (rule tree_at_cong) (use assms in \<open>auto simp: same_but_def\<close>)

lemma same_but_other_tree:
  "same_but A h m m' \<Longrightarrow> A \<inter> set (seq t) = {} \<Longrightarrow> k \<noteq> h \<Longrightarrow> is_tree m' k t = is_tree m k t"
  using same_but_tree [of A h m m' t] by (simp add: is_tree_def same_but_def)

section \<open>Rotations\<close>

definition graft :: "nat \<Rightarrow> frame list \<Rightarrow> nat \<Rightarrow> rb_mem \<Rightarrow> rb_mem" where
  "graft h fs q m = (case fs of [] \<Rightarrow> set_root h q m | Frame d c a s # _ \<Rightarrow> set_kid d a q m)"

lemma swap_child_graft:
  assumes "path_at m h fs (rbe_parent m p) p" and "p \<noteq> 0" and "p \<notin> set (path_nodes fs)"
  shows "RB_SWAP_CHILD h p q m = graft h fs q m"
proof (cases fs)
  case (Cons f gs)
  obtain d c a s where f: "f = Frame d c a s" by (cases f)
  have a: "rbe_parent m p = a" "a \<noteq> 0" "kid d m a = p" "tree_at m a (kid (\<not> d) m a) s" "p \<notin> set (seq s)"
    using assms(1,3) Cons f by auto
  have "kid (\<not> d) m a \<noteq> p" using a(4,5) assms(2) tree_at_in by metis
  with a show ?thesis
    by (cases d) (auto simp: RB_SWAP_CHILD_def graft_def Cons f set_kid_def kid_def)
qed (use assms in \<open>simp add: RB_SWAP_CHILD_def graft_def\<close>)

lemma graft_fields [simp]:
  "rbe_parent (graft h fs q m) = rbe_parent m" "rbe_color (graft h fs q m) = rbe_color m"
  "b \<notin> set (path_nodes fs) \<Longrightarrow> kid d (graft h fs q m) b = kid d m b"
  "set (seq t) \<inter> set (path_nodes fs) = {} \<Longrightarrow> tree_at (graft h fs q m) par p t = tree_at m par p t"
  by (auto simp: graft_def split: list.splits frame.splits)

lemma same_but_graft [simp]:
  "set (path_nodes fs) \<subseteq> A \<Longrightarrow> same_but A h m (graft h fs q m') \<longleftrightarrow> same_but A h m m'"
  by (auto simp: graft_def split: list.splits frame.splits)

lemma path_at_graft:
  assumes "path_at m h fs par p" and "distinct (path_nodes fs)"
  shows "path_at (graft h fs q m) h fs par q"
  using assms by (cases fs; cases "hd fs") (auto simp: graft_def)

definition turned :: "bool \<Rightarrow> nat \<Rightarrow> frame list \<Rightarrow> nat \<Rightarrow> nat \<Rightarrow> rb_mem \<Rightarrow> rb_mem" where
  "turned d h fs elm tmp m =
     (let x = kid d m tmp;
          m1 = set_kid (\<not> d) elm x m;
          m2 = (if x \<noteq> 0 then set_parent x elm m1 else m1);
          m3 = set_parent tmp (rbe_parent m elm) m2
      in set_parent elm tmp (set_kid d tmp elm (graft h fs tmp m3)))"

text \<open>What the focus on two nodes that are rotated says.\<close>

lemma focus_two:
  assumes "focus m h fs par elm (nd d c s elm (nd d c2 s2 tmp t2))"
  shows "elm \<noteq> 0" "tmp \<noteq> 0" "kid (\<not> d) m elm = tmp" "rbe_parent m elm = par" "rbe_color m elm = c" "rbe_color m tmp = c2"
    "tree_at m tmp (kid d m tmp) s2" "tree_at m elm (kid d m elm) s" "tree_at m tmp (kid (\<not> d) m tmp) t2"
    "elm \<notin> set (path_nodes fs)" "tmp \<notin> set (path_nodes fs)" "elm \<noteq> tmp" "tmp \<noteq> elm"
    "elm \<notin> set (seq s)" "elm \<notin> set (seq s2)" "elm \<notin> set (seq t2)" "tmp \<notin> set (seq s)" "tmp \<notin> set (seq s2)" "tmp \<notin> set (seq t2)"
    "set (seq s) \<inter> set (path_nodes fs) = {}" "set (seq s2) \<inter> set (path_nodes fs) = {}" "set (seq t2) \<inter> set (path_nodes fs) = {}"
    "distinct (seq s2)" "set (seq s) \<inter> set (seq s2) = {}" "set (seq s2) \<inter> set (seq t2) = {}"
  using focusD(2,4,5) [OF assms] by auto

lemma turn_turned:
  assumes "focus m h fs par elm (nd d c s elm (nd d c2 s2 tmp t2))"
  shows "turn d h elm m = Some (turned d h fs elm tmp m)"
proof -
  note t = focus_two [OF assms]
  define x where "x = kid d m tmp"
  have x: "x \<notin> set (path_nodes fs)" "x \<noteq> elm" if "x \<noteq> 0"
    using tree_at_in [OF t(7)] that t(15,21) by (auto simp: x_def)
  define m2 where "m2 = (if x \<noteq> 0 then set_parent x elm (set_kid (\<not> d) elm x m) else set_kid (\<not> d) elm x m)"
  have p: "rbe_parent m2 elm = par" using x(2) t by (cases "x = 0") (simp_all add: m2_def)
  have "path_at m2 h fs par elm" using focusD(1) [OF assms] x(1) t by (cases "x = 0") (simp_all add: m2_def)
  then have "path_at (set_parent tmp par m2) h fs par elm" using t by simp
  then have "RB_SWAP_CHILD h elm tmp (set_parent tmp par m2) = graft h fs tmp (set_parent tmp par m2)"
    by (intro swap_child_graft) (use p t in auto)
  then show ?thesis
    using t x(2) by (cases "x = 0") (simp_all add: turn_def turned_def Let_def x_def [symmetric] m2_def)
qed

lemma turned_ok:
  assumes "focus m h fs par elm (nd d c s elm (nd d c2 s2 tmp t2))"
  shows "focus (turned d h fs elm tmp m) h fs par tmp (nd d c2 (nd d c s elm s2) tmp t2)"
    and "same_but (set (seq (plug fs (nd d c s elm (nd d c2 s2 tmp t2))))) h m (turned d h fs elm tmp m)"
proof -
  note t = focus_two [OF assms]
  define x where "x = kid d m tmp"
  have x: "x \<in> set (seq s2)" "x \<notin> set (path_nodes fs)" "x \<noteq> elm" "x \<noteq> tmp" "x \<notin> set (seq s)" "x \<notin> set (seq t2)" if "x \<noteq> 0"
    using tree_at_in [OF t(7)] that t(15,18,21,24,25) by (auto simp: x_def)
  define m1 where "m1 = set_kid (\<not> d) elm x m"
  define m2 where "m2 = (if x \<noteq> 0 then set_parent x elm m1 else m1)"
  define m3 where "m3 = set_parent tmp par m2"
  define m5 where "m5 = set_parent elm tmp (set_kid d tmp elm (graft h fs tmp m3))"
  have m5: "turned d h fs elm tmp m = m5"
    by (simp add: turned_def Let_def x_def [symmetric] m5_def m3_def m2_def m1_def t)
  have "path_at m3 h fs par elm"
    using focusD(1) [OF assms] x(2) t by (cases "x = 0") (simp_all add: m3_def m2_def m1_def)
  then have "path_at m5 h fs par tmp" using path_at_graft focusD(3) [OF assms] t by (simp add: m5_def)
  moreover have "tree_at m5 elm x s2"
    using tree_at_reparent [of m1 tmp x s2 elm] t by (simp add: x_def m5_def m3_def m2_def m1_def)
  moreover have "kid d m5 tmp = elm" "rbe_parent m5 tmp = par" "rbe_parent m5 elm = tmp" "rbe_color m5 tmp = c2"
    "rbe_color m5 elm = c" "kid (\<not> d) m5 elm = x" "tree_at m5 elm (kid d m5 elm) s" "tree_at m5 tmp (kid (\<not> d) m5 tmp) t2"
    using t x by (simp_all add: m5_def m3_def m2_def m1_def)
  moreover have "distinct (path_nodes fs @ seq (nd d c2 (nd d c s elm s2) tmp t2))"
    using assms by (simp add: focus_def seq_turn)
  ultimately show "focus (turned d h fs elm tmp m) h fs par tmp (nd d c2 (nd d c s elm s2) tmp t2)"
    using t by (simp add: focus_def m5)
  define A where "A = set (seq (plug fs (nd d c s elm (nd d c2 s2 tmp t2))))"
  have "set (path_nodes fs) \<subseteq> A" "elm \<in> A" "tmp \<in> A" "x \<noteq> 0 \<Longrightarrow> x \<in> A" using x(1) by (auto simp: A_def set_seq_plug)
  then show "same_but (set (seq (plug fs (nd d c s elm (nd d c2 s2 tmp t2))))) h m (turned d h fs elm tmp m)"
    unfolding A_def [symmetric] m5 by (simp add: m5_def m3_def m2_def m1_def)
qed

text \<open>The special rotations are the general one.\<close>

definition parent_rotate :: "bool \<Rightarrow> nat \<Rightarrow> nat \<Rightarrow> rb_mem \<Rightarrow> rb_mem option" where
  "parent_rotate d = (if d then RB_PARENT_ROTATE_LEFT else RB_PARENT_ROTATE_RIGHT)"

definition red_rotate :: "bool \<Rightarrow> nat \<Rightarrow> nat \<Rightarrow> rb_mem \<Rightarrow> rb_mem option" where
  "red_rotate d = (if d then RB_RED_ROTATE_LEFT else RB_RED_ROTATE_RIGHT)"

lemma parent_rotate_turned:
  assumes "focus m h (Frame d c' parent u # fs) par elm (nd d c s elm (nd d c2 s2 tmp t2))"
  shows "parent_rotate d parent elm m = Some (turned d h (Frame d c' parent u # fs) elm tmp m)"
proof -
  have "rbe_parent m elm = parent" "parent \<noteq> 0" using focusD(1,2) [OF assms] by auto
  then show ?thesis
    using focus_two(1-3) [OF assms]
    by (cases d) (simp_all add: parent_rotate_def RB_PARENT_ROTATE_LEFT_def RB_PARENT_ROTATE_RIGHT_def turned_def
        graft_def Let_def kid_def set_kid_def rb_setters)
qed

lemma red_rotate_turned:
  assumes "focus m h fs par elm (nd d c s elm (nd d c2 s2 tmp t2))" and "s2 \<noteq> Leaf"
  shows "red_rotate d h elm m = Some (turned d h fs elm tmp m)"
proof -
  have "kid d m tmp \<noteq> 0" using focus_two(7) [OF assms(1)] assms(2) by (cases "kid d m tmp = 0") auto
  then have "red_rotate d h elm m = turn d h elm m"
    using focus_two(1-3) [OF assms(1)]
    by (cases d) (simp_all add: red_rotate_def RB_RED_ROTATE_LEFT_def RB_RED_ROTATE_RIGHT_def turn_def
        Let_def kid_def set_kid_def rb_setters)
  with turn_turned [OF assms(1)] show ?thesis by simp
qed

section \<open>Colours\<close>

fun red :: "rb \<Rightarrow> bool" where
  "red Leaf = False"
| "red (Node c l a r) = (c = RB_RED)"

fun bh :: "rb \<Rightarrow> nat" where
  "bh Leaf = 0"
| "bh (Node c l a r) = bh l + (if c = RB_BLACK then 1 else 0)"

fun rb_ok :: "rb \<Rightarrow> bool" where
  "rb_ok Leaf = True"
| "rb_ok (Node c l a r) = ((c = RB_BLACK \<or> c = RB_RED \<and> \<not> red l \<and> \<not> red r) \<and> bh l = bh r \<and> rb_ok l \<and> rb_ok r)"

definition red_black :: "rb \<Rightarrow> bool" where
  "red_black t \<longleftrightarrow> rb_ok t \<and> \<not> red t"

lemma colour_nd [simp]:
  "red (nd d c s a t) = (c = RB_RED)"
  "rb_ok (nd d c s a t) = ((c = RB_BLACK \<or> c = RB_RED \<and> \<not> red s \<and> \<not> red t) \<and> bh s = bh t \<and> rb_ok s \<and> rb_ok t)"
  by (auto simp: nd_def)

lemma bh_nd: "bh s = bh t \<Longrightarrow> bh (nd d c s a t) = bh s + (if c = RB_BLACK then 1 else 0)"
  by (simp add: nd_def)

fun red_path :: "frame list \<Rightarrow> bool" where
  "red_path [] = False"
| "red_path (Frame d c a s # fs) = (c = RB_RED)"

text \<open>The path around a subtree of the black height \<open>n\<close>.\<close>

fun path_ok :: "frame list \<Rightarrow> nat \<Rightarrow> bool" where
  "path_ok [] n = True"
| "path_ok (Frame d c a s # fs) n \<longleftrightarrow> rb_ok s \<and> bh s = n \<and> (c = RB_BLACK \<or> c = RB_RED \<and> \<not> red s \<and> fs \<noteq> [] \<and> \<not> red_path fs)
     \<and> path_ok fs (n + (if c = RB_BLACK then 1 else 0))"

lemma red_black_plug:
  "red_black (plug fs t) \<longleftrightarrow> rb_ok t \<and> path_ok fs (bh t) \<and> (red t \<longrightarrow> fs \<noteq> [] \<and> \<not> red_path fs)"
proof (induction fs t rule: plug.induct)
  case (2 d c a s fs t)
  then show ?case by (cases "bh s = bh t") (auto simp: bh_nd)
qed (auto simp: red_black_def)

lemma RB_ISRED_iff: "tree_at m par p t \<Longrightarrow> RB_ISRED p m \<longleftrightarrow> red t"
  by (cases t) (auto simp: RB_ISRED_def)

lemma root_black: "red_black t \<Longrightarrow> tree_at m par p t \<Longrightarrow> p \<noteq> 0 \<Longrightarrow> rbe_color m p = RB_BLACK"
  by (cases t) (auto simp: red_black_def)

end
