(* ===== verification/Rb_Insert.thy ===== *)
theory Rb_Insert
  imports Rb_Shape
begin

text \<open>
  Insertion into red-black trees: the descent finds the place, the loop of \<open>RB_INSERT_COLOR\<close> ends and
  gives a red-black tree with the same sequence of nodes.
\<close>

section \<open>Changes of colours\<close>

fun recolor :: "nat \<Rightarrow> int \<Rightarrow> rb \<Rightarrow> rb" where
  "recolor x c Leaf = Leaf"
| "recolor x c (Node c' l a r) = Node (if a = x then c else c') (recolor x c l) a (recolor x c r)"

lemma recolor_simps [simp]:
  "recolor x c (nd d c' s a t) = nd d (if a = x then c else c') (recolor x c s) a (recolor x c t)"
  "seq (recolor x c t) = seq t" "x \<notin> set (seq t) \<Longrightarrow> recolor x c t = t"
  by (auto simp: nd_def) (induction t; auto)+

lemma tree_at_recolor: "tree_at m par p t \<Longrightarrow> tree_at (set_color x c m) par p (recolor x c t)"
  by (induction t arbitrary: par p) (auto simp: rb_setters)

lemma focus_recolor:
  "focus m h fs par p t \<Longrightarrow> x \<notin> set (path_nodes fs) \<Longrightarrow> focus (set_color x c m) h fs par p (recolor x c t)"
  by (auto simp: focus_def tree_at_recolor)

fun blacken :: "rb \<Rightarrow> rb" where
  "blacken Leaf = Leaf"
| "blacken (Node c l a r) = Node RB_BLACK l a r"

lemma blacken_simps [simp]:
  "blacken (nd d c s a t) = nd d RB_BLACK s a t" "seq (blacken t) = seq t" "\<not> red (blacken t)"
  "rb_ok t \<Longrightarrow> rb_ok (blacken t)"
  by (simp add: nd_def) (cases t; auto)+

lemma bh_blacken: "rb_ok t \<Longrightarrow> red t \<Longrightarrow> bh (blacken t) = Suc (bh t)"
  by (cases t) auto

lemma recolor_root: "tree_at m par p t \<Longrightarrow> distinct (seq t) \<Longrightarrow> recolor p RB_BLACK t = blacken t"
  by (cases t) auto

lemma blacken_black: "rb_ok t \<Longrightarrow> \<not> red t \<Longrightarrow> blacken t = t"
  by (cases t) auto

lemma same_but_blackred [simp]:
  "a \<in> A \<Longrightarrow> b \<in> A \<Longrightarrow> same_but A h m (RB_SET_BLACKRED a b m') = same_but A h m m'"
  by (simp add: RB_SET_BLACKRED_def)

section \<open>One round\<close>

definition insert_round :: "bool \<Rightarrow> nat \<Rightarrow> nat \<Rightarrow> nat \<Rightarrow> nat \<Rightarrow> rb_mem \<Rightarrow> (nat \<times> rb_mem) option" where
  "insert_round d head elm parent gparent m =
     (let tmp = kid (\<not> d) m gparent in
      if RB_ISRED tmp m
      then Some (gparent, RB_SET_BLACKRED parent gparent (set_color tmp RB_BLACK m))
      else if kid (\<not> d) m parent = elm
      then do {
        m \<leftarrow> parent_rotate d gparent parent m;
        m \<leftarrow> turn (\<not> d) head gparent (RB_SET_BLACKRED elm gparent m);
        Some (parent, m)
      }
      else do {
        m \<leftarrow> turn (\<not> d) head gparent (RB_SET_BLACKRED parent gparent m);
        Some (elm, m)
      })"

lemma insert_round_instances:
  "insert_color_left = insert_round True" "insert_color_right = insert_round False"
  by (intro ext, simp add: insert_color_left_def insert_color_right_def insert_round_def parent_rotate_def
      turn_instances kid_def Let_def)+

text \<open>The state in the loop: \<open>elm\<close> is red, and so is its parent.\<close>

definition red_red :: "rb_mem \<Rightarrow> nat \<Rightarrow> bool \<Rightarrow> nat \<Rightarrow> rb \<Rightarrow> bool \<Rightarrow> nat \<Rightarrow> rb \<Rightarrow> frame list \<Rightarrow> nat \<Rightarrow> rb \<Rightarrow> bool" where
  "red_red m h d1 parent s d2 gparent u fs elm t \<longleftrightarrow>
     focus m h (Frame d1 RB_RED parent s # Frame d2 RB_BLACK gparent u # fs) parent elm t
     \<and> rb_ok t \<and> red t \<and> path_ok (Frame d1 RB_RED parent s # Frame d2 RB_BLACK gparent u # fs) (bh t)"

lemma red_redD:
  assumes "red_red m h d1 parent s d2 gparent u fs elm t"
  shows "\<exists>gpar. focus m h fs gpar gparent (nd d2 RB_BLACK (nd d1 RB_RED t parent s) gparent u)"
    and "kid d1 m parent = elm" "rbe_parent m elm = parent" "rbe_parent m parent = gparent" "kid d2 m gparent = parent"
    "rbe_color m parent = RB_RED" "parent \<noteq> 0" "gparent \<noteq> 0" "elm \<noteq> 0" "elm \<in> set (seq t)"
    "tree_at m gparent (kid (\<not> d2) m gparent) u" "tree_at m parent (kid (\<not> d1) m parent) s" "tree_at m parent elm t"
    and "elm \<noteq> parent" "elm \<noteq> gparent" "parent \<noteq> gparent" "elm \<notin> set (seq s)" "elm \<notin> set (seq u)"
    "parent \<notin> set (seq s)" "parent \<notin> set (seq u)" "parent \<notin> set (seq t)" "gparent \<notin> set (seq s)" "gparent \<notin> set (seq u)"
    "gparent \<notin> set (seq t)" "parent \<notin> set (path_nodes fs)" "gparent \<notin> set (path_nodes fs)" "elm \<notin> set (path_nodes fs)"
    "set (seq u) \<inter> set (path_nodes fs) = {}" "set (seq u) \<inter> set (seq s) = {}" "set (seq u) \<inter> set (seq t) = {}"
    and "rb_ok t" "red t" "rb_ok s" "bh s = bh t" "\<not> red s" "rb_ok u" "bh u = bh t" "path_ok fs (Suc (bh t))"
proof -
  have F: "focus m h (Frame d1 RB_RED parent s # Frame d2 RB_BLACK gparent u # fs) parent elm t"
    using assms by (simp add: red_red_def)
  then show "\<exists>gpar. focus m h fs gpar gparent (nd d2 RB_BLACK (nd d1 RB_RED t parent s) gparent u)"
    by (auto simp: focus_Frame)
  have t: "t \<noteq> Leaf" using assms by (auto simp: red_red_def)
  note D = focusD [OF F]
  show e: "elm \<noteq> 0" using t D(2) by (cases "elm = 0") auto
  show i: "elm \<in> set (seq t)" using tree_at_in [OF D(2) e] .
  show "rbe_parent m elm = parent" using D(2) t by (cases t) auto
  show "kid d1 m parent = elm" "rbe_parent m parent = gparent" "kid d2 m gparent = parent"
    "rbe_color m parent = RB_RED" "parent \<noteq> 0" "gparent \<noteq> 0"
    "tree_at m gparent (kid (\<not> d2) m gparent) u" "tree_at m parent (kid (\<not> d1) m parent) s" "tree_at m parent elm t"
    using D(1,2) by auto
  show "elm \<noteq> parent" "elm \<noteq> gparent" "parent \<noteq> gparent" "elm \<notin> set (seq s)" "elm \<notin> set (seq u)"
    "parent \<notin> set (seq s)" "parent \<notin> set (seq u)" "parent \<notin> set (seq t)" "gparent \<notin> set (seq s)" "gparent \<notin> set (seq u)"
    "gparent \<notin> set (seq t)" "parent \<notin> set (path_nodes fs)" "gparent \<notin> set (path_nodes fs)" "elm \<notin> set (path_nodes fs)"
    "set (seq u) \<inter> set (path_nodes fs) = {}" "set (seq u) \<inter> set (seq s) = {}" "set (seq u) \<inter> set (seq t) = {}"
    using D(3,5) i by auto
qed (use assms in \<open>auto simp: red_red_def\<close>)

lemma insert_color_round_side:
  assumes "red_red m h d1 parent s d2 gparent u fs elm t"
  shows "insert_color_round h elm parent m = insert_round d2 h elm parent gparent m"
proof -
  note D = red_redD [OF assms]
  have "kid (\<not> d2) m gparent \<noteq> parent" using D(11,20) D(7) tree_at_in by metis
  then show ?thesis
    using D(4,5,8) by (cases d2) (auto simp: insert_color_round_def insert_round_instances kid_def)
qed

text \<open>The uncle is red: the colours change and the loop goes on two nodes higher.\<close>

lemma round_red_uncle:
  assumes "red_red m h d1 parent s d2 gparent u fs elm t" and "red u"
  shows "\<exists>m' par t'. insert_color_round h elm parent m = Some (gparent, m') \<and> focus m' h fs par gparent t'
    \<and> rb_ok t' \<and> red t' \<and> path_ok fs (bh t') \<and> seq (plug fs t') = seq (plug fs (nd d2 RB_BLACK (nd d1 RB_RED t parent s) gparent u))
    \<and> same_but (set (seq (plug fs t'))) h m m'"
proof -
  note D = red_redD [OF assms(1)]
  define tmp where "tmp = kid (\<not> d2) m gparent"
  obtain gpar where F: "focus m h fs gpar gparent (nd d2 RB_BLACK (nd d1 RB_RED t parent s) gparent u)" using D(1) by blast
  have u: "tree_at m gparent tmp u" "distinct (seq u)" using D(11) focusD(4) [OF F] by (simp_all add: tmp_def)
  have r: "RB_ISRED tmp m" using RB_ISRED_iff [OF u(1)] assms(2) by simp
  have i: "tmp \<in> set (seq u)" using tree_at_in [OF u(1)] r by (simp add: RB_ISRED_def)
  have n: "tmp \<noteq> parent" "tmp \<noteq> gparent" "tmp \<notin> set (path_nodes fs)" "tmp \<notin> set (seq t)" "tmp \<notin> set (seq s)"
    using i D(20,23,28,29,30) by auto
  define m' where "m' = RB_SET_BLACKRED parent gparent (set_color tmp RB_BLACK m)"
  define t' where "t' = nd d2 RB_RED (nd d1 RB_BLACK t parent s) gparent (blacken u)"
  have "focus m' h fs gpar gparent t'"
    using focus_recolor [OF focus_recolor [OF focus_recolor [OF F n(3), of RB_BLACK] D(25), of RB_BLACK] D(26), of RB_RED] n D(14-27) i
    by (simp add: m'_def t'_def RB_SET_BLACKRED_def recolor_root [OF u] neq_commute)
  moreover have "insert_color_round h elm parent m = Some (gparent, m')"
    using r by (simp add: insert_color_round_side [OF assms(1)] insert_round_def tmp_def m'_def)
  moreover have "bh t' = Suc (bh t)" using D(31-37) by (simp add: t'_def bh_nd bh_blacken assms(2))
  moreover have "rb_ok t'" "red t'" using D(31-37) assms(2) by (simp_all add: t'_def bh_nd bh_blacken)
  moreover have e: "seq (plug fs t') = seq (plug fs (nd d2 RB_BLACK (nd d1 RB_RED t parent s) gparent u))"
    unfolding seq_plug t'_def by (simp add: nd_def)
  moreover have "same_but (set (seq (plug fs t'))) h m m'"
    unfolding e set_seq_plug m'_def RB_SET_BLACKRED_def using i by simp
  ultimately show ?thesis using D(38) by metis
qed

text \<open>The uncle is black: one or two rotations, and the next parent is black.\<close>

text \<open>What a round with a black uncle does: one rotation or two, after which the parent of the next node is not red.\<close>

definition round_ends :: "rb_mem \<Rightarrow> nat \<Rightarrow> frame list \<Rightarrow> nat \<Rightarrow> nat \<Rightarrow> rb \<Rightarrow> bool" where
  "round_ends m h fs elm parent s \<longleftrightarrow> (\<exists>m' elm' par p t'. insert_color_round h elm parent m = Some (elm', m') \<and> focus m' h fs par p t'
    \<and> rb_ok t' \<and> \<not> red t' \<and> path_ok fs (bh t') \<and> \<not> RB_ISRED (rbe_parent m' elm') m'
    \<and> seq (plug fs t') = seq (plug fs s) \<and> same_but (set (seq (plug fs t'))) h m m')"

lemma round_outer:
  assumes "red_red m h d1 parent s d2 gparent u fs elm t" and "\<not> red u" and True: "d1 = d2"
  shows "round_ends m h fs elm parent (nd d2 RB_BLACK (nd d1 RB_RED t parent s) gparent u)"
proof -
  note D = red_redD [OF assms(1)]
  obtain gpar where F: "focus m h fs gpar gparent (nd d2 RB_BLACK (nd d1 RB_RED t parent s) gparent u)" using D(1) by blast
  have r: "\<not> RB_ISRED (kid (\<not> d2) m gparent) m" using RB_ISRED_iff [OF D(11)] assms(2) by simp
  have k: "kid (\<not> d2) m parent \<noteq> elm" using tree_at_in [OF D(12)] D(9,17) True by auto
  define m1 where "m1 = RB_SET_BLACKRED parent gparent m"
  have F1: "focus m1 h fs gpar gparent (nd (\<not> d2) RB_RED u gparent (nd (\<not> d2) RB_BLACK s parent t))"
    using focus_recolor [OF focus_recolor [OF F D(25), of RB_BLACK] D(26), of RB_RED] D(14-27) True
    by (simp add: m1_def RB_SET_BLACKRED_def neq_commute)
  define m2 where "m2 = turned (\<not> d2) h fs gparent parent m1"
  define t' where "t' = nd (\<not> d2) RB_BLACK (nd (\<not> d2) RB_RED u gparent s) parent t"
  have F2: "focus m2 h fs gpar parent t'" unfolding m2_def t'_def by (rule turned_ok(1) [OF F1])
  have "insert_color_round h elm parent m = Some (elm, m2)"
    using r k turn_turned [OF F1]
    by (simp add: insert_color_round_side [OF assms(1)] insert_round_def m1_def [symmetric] m2_def)
  moreover have "\<not> RB_ISRED (rbe_parent m2 elm) m2"
  proof -
    have "tree_at m2 parent (kid d2 m2 parent) t" "rbe_color m2 parent = RB_BLACK" using focusD(2) [OF F2] by (auto simp: t'_def)
    then show ?thesis using tree_at_unique [OF D(13)] tree_at_parent D(9) by (metis RB_ISRED_def zero_neq_one)
  qed
  moreover have "rb_ok t'" "\<not> red t'" "bh t' = Suc (bh t)" using D(31-37) assms(2) by (simp_all add: t'_def bh_nd)
  moreover have e: "seq (plug fs t') = seq (plug fs (nd d2 RB_BLACK (nd d1 RB_RED t parent s) gparent u))"
    using True unfolding seq_plug t'_def by (simp add: nd_def)
  moreover have "same_but (set (seq (plug fs t'))) h m m2"
  proof (rule same_but_trans)
    show "same_but (set (seq (plug fs t'))) h m m1" by (simp add: m1_def t'_def set_seq_plug)
    show "same_but (set (seq (plug fs t'))) h m1 m2"
      unfolding m2_def t'_def by (rule same_but_mono [OF turned_ok(2) [OF F1]]) (auto simp: set_seq_plug)
  qed
  ultimately show ?thesis unfolding round_ends_def using F2 D(38) by metis
qed

lemma round_inner:
  assumes "red_red m h d1 parent s d2 gparent u fs elm t" and "\<not> red u" and d1: "d1 = (\<not> d2)"
  shows "round_ends m h fs elm parent (nd d2 RB_BLACK (nd d1 RB_RED t parent s) gparent u)"
proof -
  note D = red_redD [OF assms(1)]
  have r: "\<not> RB_ISRED (kid (\<not> d2) m gparent) m" using RB_ISRED_iff [OF D(11)] assms(2) by simp
  obtain c t1 t2 where t: "t = nd d2 c t1 elm t2" using tree_at_nonzero [OF D(13,9)] by blast
  then have c: "c = RB_RED" using D(32) by simp
  have k: "kid (\<not> d2) m parent = elm" using D(2) d1 by simp
  let ?f = "Frame d2 RB_BLACK gparent u"
  have F1: "focus m h (?f # fs) gparent parent (nd d2 RB_RED s parent (nd d2 RB_RED t1 elm t2))"
    using assms(1) D(4) by (simp add: red_red_def focus_Frame d1 t c)
  define m1 where "m1 = turned d2 h (?f # fs) parent elm m"
  have F2: "focus m1 h (?f # fs) gparent elm (nd d2 RB_RED (nd d2 RB_RED s parent t1) elm t2)"
    unfolding m1_def by (rule turned_ok(1) [OF F1])
  define m2 where "m2 = RB_SET_BLACKRED elm gparent m1"
  obtain gpar' where F2': "focus m1 h fs gpar' gparent (nd d2 RB_BLACK (nd d2 RB_RED (nd d2 RB_RED s parent t1) elm t2) gparent u)"
    using F2 by (auto simp: focus_Frame)
  have n: "elm \<notin> set (seq s)" "elm \<notin> set (seq t1)" "elm \<notin> set (seq t2)" "elm \<notin> set (seq u)" "gparent \<notin> set (seq s)"
      "gparent \<notin> set (seq t1)" "gparent \<notin> set (seq t2)" "gparent \<notin> set (seq u)" "elm \<notin> set (path_nodes fs)"
      "gparent \<notin> set (path_nodes fs)" "elm \<noteq> parent" "elm \<noteq> gparent" "gparent \<noteq> parent"
    using focusD(4,5) [OF F2'] by auto
  have F3: "focus m2 h fs gpar' gparent (nd (\<not> d2) RB_RED u gparent (nd (\<not> d2) RB_BLACK t2 elm (nd d2 RB_RED s parent t1)))"
    using focus_recolor [OF focus_recolor [OF F2' n(9), of RB_BLACK] n(10), of RB_RED] n
    by (simp add: m2_def RB_SET_BLACKRED_def neq_commute)
  define m3 where "m3 = turned (\<not> d2) h fs gparent elm m2"
  define t' where "t' = nd (\<not> d2) RB_BLACK (nd (\<not> d2) RB_RED u gparent t2) elm (nd d2 RB_RED s parent t1)"
  have F4: "focus m3 h fs gpar' elm t'" unfolding m3_def t'_def by (rule turned_ok(1) [OF F3])
  have "insert_color_round h elm parent m = Some (parent, m3)"
    using r k parent_rotate_turned [OF F1] turn_turned [OF F3]
    by (simp add: insert_color_round_side [OF assms(1)] insert_round_def m1_def [symmetric] m2_def [symmetric] m3_def)
  moreover have "\<not> RB_ISRED (rbe_parent m3 parent) m3"
    using focusD(2) [OF F4] by (auto simp: t'_def RB_ISRED_def)
  moreover have "rb_ok t'" "\<not> red t'" "bh t' = Suc (bh t)" using D(31-37) assms(2) by (simp_all add: t'_def t c bh_nd)
  moreover have e: "seq (plug fs t') = seq (plug fs (nd d2 RB_BLACK (nd d1 RB_RED t parent s) gparent u))"
    unfolding seq_plug t'_def t d1 by (simp add: nd_def)
  moreover have "same_but (set (seq (plug fs t'))) h m m3"
  proof (rule same_but_trans [OF same_but_trans])
    show "same_but (set (seq (plug fs t'))) h m m1"
      unfolding m1_def t'_def by (rule same_but_mono [OF turned_ok(2) [OF F1]]) (auto simp: set_seq_plug)
    show "same_but (set (seq (plug fs t'))) h m1 m2" by (simp add: m2_def t'_def set_seq_plug)
    show "same_but (set (seq (plug fs t'))) h m2 m3"
      unfolding m3_def t'_def by (rule same_but_mono [OF turned_ok(2) [OF F3]]) (auto simp: set_seq_plug)
  qed
  ultimately show ?thesis unfolding round_ends_def using F4 D(38) by metis
qed

lemma round_black_uncle:
  assumes "red_red m h d1 parent s d2 gparent u fs elm t" and "\<not> red u"
  shows "\<exists>m' elm' par p t'. insert_color_round h elm parent m = Some (elm', m') \<and> focus m' h fs par p t'
    \<and> rb_ok t' \<and> \<not> red t' \<and> path_ok fs (bh t') \<and> \<not> RB_ISRED (rbe_parent m' elm') m'
    \<and> seq (plug fs t') = seq (plug fs (nd d2 RB_BLACK (nd d1 RB_RED t parent s) gparent u))
    \<and> same_but (set (seq (plug fs t'))) h m m'"
  using round_outer [OF assms] round_inner [OF assms] unfolding round_ends_def by (cases "d1 = d2") auto

section \<open>The loop\<close>

lemma loop_stops: "\<not> RB_ISRED (rbe_parent m elm) m \<Longrightarrow> insert_color_loop h elm m = Some m"
  by (subst insert_color_loop.simps) simp

lemma insert_color_loop_ok:
  assumes "focus m h fs par elm t" and "rb_ok t" and "red t" and "path_ok fs (bh t)"
  shows "\<exists>m' u. insert_color_loop h elm m = Some m' \<and> is_tree m' h u \<and> red_black (blacken u)
    \<and> seq u = seq (plug fs t) \<and> same_but (set (seq (plug fs t))) h m m'"
  using assms
proof (induction fs arbitrary: m par elm t rule: length_induct)
  case (1 fs)
  have par: "rbe_parent m elm = par" using focusD(2) [OF 1(2)] 1(4) by (cases t) auto
  show ?case
  proof (cases "red_path fs")
    case False
    have "\<not> RB_ISRED par m"
      using False focusD(1) [OF 1(2)] by (cases fs rule: red_path.cases) (auto simp: RB_ISRED_def)
    then have "insert_color_loop h elm m = Some m" using par loop_stops by metis
    moreover have "red_black (blacken (plug fs t))"
    proof (cases "fs = []")
      case False
      with \<open>\<not> red_path fs\<close> 1(3,5) have "red_black (plug fs t)" by (simp add: red_black_plug)
      then show ?thesis by (simp add: red_black_def blacken_black)
    qed (use 1(3) in \<open>simp add: red_black_def\<close>)
    ultimately show ?thesis using focus_is_tree [OF 1(2)] by auto
  next
    case True
    obtain d1 parent s gs where f1: "fs = Frame d1 RB_RED parent s # gs" using True by (cases fs rule: red_path.cases) auto
    then obtain d2 gparent u fs' where f2: "gs = Frame d2 RB_BLACK gparent u # fs'"
      using 1(5) by (cases gs rule: red_path.cases) auto
    have p: "par = parent" using focusD(1) [OF 1(2)] f1 by simp
    have R: "red_red m h d1 parent s d2 gparent u fs' elm t" using 1(2-5) f1 f2 p by (simp add: red_red_def)
    have loop: "insert_color_loop h elm m = insert_color_loop h elm' m'"
      if "insert_color_round h elm parent m = Some (elm', m')" for elm' m'
      using that par p red_redD(6,7) [OF R] by (subst insert_color_loop.simps) (simp add: RB_ISRED_def)
    have e: "plug fs t = plug fs' (nd d2 RB_BLACK (nd d1 RB_RED t parent s) gparent u)" by (simp add: f1 f2)
    show ?thesis
    proof (cases "red u")
      case True
      obtain m' par' t' where N: "insert_color_round h elm parent m = Some (gparent, m')" "focus m' h fs' par' gparent t'"
        "rb_ok t'" "red t'" "path_ok fs' (bh t')" "seq (plug fs' t') = seq (plug fs t)" "same_but (set (seq (plug fs t))) h m m'"
        using round_red_uncle [OF R True] e by metis
      have "length fs' < length fs" by (simp add: f1 f2)
      then obtain m'' v where "insert_color_loop h gparent m' = Some m''" "is_tree m'' h v" "red_black (blacken v)"
          "seq v = seq (plug fs' t')" "same_but (set (seq (plug fs' t'))) h m' m''"
        using 1(1) N(2-5) by meson
      then show ?thesis using loop [OF N(1)] N(6,7) same_but_trans by metis
    next
      case False
      obtain m' elm' par' p' t' where N: "insert_color_round h elm parent m = Some (elm', m')" "focus m' h fs' par' p' t'"
        "rb_ok t'" "\<not> red t'" "path_ok fs' (bh t')" "\<not> RB_ISRED (rbe_parent m' elm') m'"
        "seq (plug fs' t') = seq (plug fs t)" "same_but (set (seq (plug fs t))) h m m'"
        using round_black_uncle [OF R False] e by metis
      have "red_black (plug fs' t')" using N(3-5) by (simp add: red_black_plug)
      then have "red_black (blacken (plug fs' t'))" by (simp add: red_black_def blacken_black)
      then show ?thesis
        using loop [OF N(1)] loop_stops [OF N(6)] focus_is_tree [OF N(2)] N(7,8) by auto
    qed
  qed
qed

lemma RB_INSERT_COLOR_ok:
  assumes "focus m h fs par elm (Node RB_RED Leaf elm Leaf)" and "path_ok fs 0"
  shows "\<exists>m' u. RB_INSERT_COLOR h elm m = Some m' \<and> is_tree m' h u \<and> red_black u
    \<and> seq u = fore fs @ elm # aft fs \<and> same_but (set (seq u)) h m m'"
proof -
  obtain m' u where N: "insert_color_loop h elm m = Some m'" "is_tree m' h u" "red_black (blacken u)"
    "seq u = fore fs @ elm # aft fs" "same_but (set (seq u)) h m m'"
    using insert_color_loop_ok [OF assms(1)] assms(2) by (auto simp: seq_plug)
  have r: "rbh_root m' h \<noteq> 0" using N(2,4) by (cases u) (auto simp: is_tree_def)
  then have "rbh_root m' h \<in> set (seq u)" using N(2) tree_at_in by (auto simp: is_tree_def)
  moreover have "is_tree (set_color (rbh_root m' h) RB_BLACK m') h (blacken u)"
    using focus_recolor [of m' h "[]" 0 "rbh_root m' h" u "rbh_root m' h" RB_BLACK] N(2) recolor_root
    by (auto simp: is_tree_root) (auto simp: focus_def)
  ultimately show ?thesis
    using N r by (intro exI [of _ "set_color (rbh_root m' h) RB_BLACK m'"] exI [of _ "blacken u"])
      (simp add: RB_INSERT_COLOR_def)
qed

section \<open>The descent\<close>

definition link_of :: "nat \<Rightarrow> frame list \<Rightarrow> rb_link" where
  "link_of h fs = (case fs of [] \<Rightarrow> Root_reference h
     | Frame d c a s # _ \<Rightarrow> if d then Left_reference a else Right_reference a)"

lemma link_of_simps [simp]:
  "link_of h [] = Root_reference h"
  "link_of h (Frame d c a s # fs) = (if d then Left_reference a else Right_reference a)"
  by (simp_all add: link_of_def)

lemma link_set_graft: "link_set (link_of h fs) x m = graft h fs x m"
  by (auto simp: link_of_def graft_def set_kid_def split: list.splits frame.splits)

lemma link_get_focus: "focus m h fs par p t \<Longrightarrow> link_get (link_of h fs) m = p"
  by (cases fs rule: path_nodes.cases) (auto simp: link_of_def focus_def kid_def)

text \<open>The nodes are in the order of \<open>lt\<close>: those that are not less come first.\<close>

definition cuts :: "(nat \<Rightarrow> bool) \<Rightarrow> nat list \<Rightarrow> bool" where
  "cuts lt xs \<longleftrightarrow> sorted_wrt (\<lambda>x y. lt x \<longrightarrow> lt y) xs"

lemma descend_ok:
  assumes "focus m h fs par p t" and "cuts lt (seq t)"
  shows "\<exists>fs' par'. descend lt r (link_of h fs) par v m = Some (link_of h fs', par', if list_all lt (seq t) then v else r)
    \<and> focus m h fs' par' 0 Leaf \<and> plug fs' Leaf = plug fs t
    \<and> fore fs' = fore fs @ filter (\<lambda>x. \<not> lt x) (seq t) \<and> aft fs' = filter lt (seq t) @ aft fs"
  using assms
proof (induction t arbitrary: fs par p v)
  case Leaf
  then have "p = 0" using focusD(2) by fastforce
  with Leaf show ?case using link_get_focus by (subst descend.simps) auto
next
  case (Node c l a u)
  have p: "p = a" "a \<noteq> 0" using focusD(2) [OF Node.prems(1)] by auto
  have g: "link_get (link_of h fs) m = a" using link_get_focus [OF Node.prems(1)] p by simp
  show ?case
  proof (cases "lt a")
    case True
    have u: "list_all lt (seq u)" "cuts lt (seq l)" using Node.prems(2) True by (auto simp: cuts_def sorted_wrt_append list_all_iff)
    then have e: "filter lt (seq u) = seq u" "filter (\<lambda>x. \<not> lt x) (seq u) = []" by (auto simp: list_all_iff filter_empty_conv)
    let ?fs = "Frame True c a u # fs"
    have "focus m h ?fs a (rbe_left m a) l"
      using focus_down [of m h fs par p True c l a u] Node.prems(1) by (simp add: nd_def kid_def)
    from Node.IH(1) [OF this u(2), of v] obtain fs' par' where I:
      "descend lt r (link_of h ?fs) a v m = Some (link_of h fs', par', if list_all lt (seq l) then v else r)"
      "focus m h fs' par' 0 Leaf" "plug fs' Leaf = plug ?fs l"
      "fore fs' = fore ?fs @ filter (\<lambda>x. \<not> lt x) (seq l)" "aft fs' = filter lt (seq l) @ aft ?fs" by blast
    then show ?thesis
      using g p True u e by (subst descend.simps) (intro exI [of _ fs'], simp add: nd_def)
  next
    case False
    have u: "list_all (\<lambda>x. \<not> lt x) (seq l)" "cuts lt (seq u)" using Node.prems(2) False by (auto simp: cuts_def sorted_wrt_append list_all_iff)
    then have e: "filter lt (seq l) = []" "filter (\<lambda>x. \<not> lt x) (seq l) = seq l" by (auto simp: list_all_iff filter_empty_conv)
    let ?fs = "Frame False c a l # fs"
    have "focus m h ?fs a (rbe_right m a) u"
      using focus_down [of m h fs par p False c u a l] Node.prems(1) by (simp add: nd_def kid_def)
    from Node.IH(2) [OF this u(2), of r] obtain fs' par' where I:
      "descend lt r (link_of h ?fs) a r m = Some (link_of h fs', par', if list_all lt (seq u) then r else r)"
      "focus m h fs' par' 0 Leaf" "plug fs' Leaf = plug ?fs u"
      "fore fs' = fore ?fs @ filter (\<lambda>x. \<not> lt x) (seq u)" "aft fs' = filter lt (seq u) @ aft ?fs" by blast
    then show ?thesis
      using g p False u e by (subst descend.simps) (intro exI [of _ fs'], simp add: nd_def)
  qed
qed

lemma Add_child_ok:
  assumes "focus m h fs par 0 Leaf" and "x \<notin> set (path_nodes fs)" and "x \<noteq> 0"
  shows "focus (RBTree_Add_child x par (link_of h fs) m) h fs par x (Node RB_RED Leaf x Leaf)"
    and "set (path_nodes fs) \<subseteq> A \<Longrightarrow> x \<in> A \<Longrightarrow> same_but A h m (RBTree_Add_child x par (link_of h fs) m)"
proof -
  have s: "RB_SET x par m = set_color x RB_RED (set_kid True x 0 (set_kid False x 0 (set_parent x par m)))"
    by (simp add: RB_SET_def Let_def set_kid_def)
  have "path_at (RB_SET x par m) h fs par 0" using focusD(1) [OF assms(1)] assms(2) by (simp add: s)
  then have "path_at (graft h fs x (RB_SET x par m)) h fs par x" using path_at_graft focusD(3) [OF assms(1)] by blast
  moreover have "tree_at (graft h fs x (RB_SET x par m)) par x (nd True RB_RED Leaf x Leaf)"
    using assms(2,3) by (simp add: s)
  ultimately show "focus (RBTree_Add_child x par (link_of h fs) m) h fs par x (Node RB_RED Leaf x Leaf)"
    using assms(2) focusD(3) [OF assms(1)] unfolding RBTree_Add_child_def link_set_graft focus_def by (simp add: nd_def)
  show "same_but A h m (RBTree_Add_child x par (link_of h fs) m)" if "set (path_nodes fs) \<subseteq> A" "x \<in> A"
    using that unfolding RBTree_Add_child_def link_set_graft s by simp
qed

text \<open>The descent, the new node and the colours: the whole insertion.\<close>

lemma insert_ok:
  assumes "is_tree m h t" and "red_black t" and "x \<notin> set (seq t)" and "x \<noteq> 0" and "cuts lt (seq t)"
  shows "\<exists>link par m' u. descend lt r (Root_reference h) 0 v m = Some (link, par, if list_all lt (seq t) then v else r)
    \<and> RBTree_Insert_color h x (RBTree_Add_child x par link m) = Some m' \<and> is_tree m' h u \<and> red_black u
    \<and> seq u = filter (\<lambda>y. \<not> lt y) (seq t) @ x # filter lt (seq t) \<and> same_but (insert x (set (seq t))) h m m'"
proof -
  have F: "focus m h [] 0 (rbh_root m h) t" using assms(1) by (simp add: is_tree_root)
  obtain fs par where I: "descend lt r (link_of h []) 0 v m = Some (link_of h fs, par, if list_all lt (seq t) then v else r)"
    "focus m h fs par 0 Leaf" "plug fs Leaf = t" "fore fs = filter (\<lambda>x. \<not> lt x) (seq t)" "aft fs = filter lt (seq t)"
    using descend_ok [OF F assms(5), of r v] by auto
  have n: "set (path_nodes fs) = set (seq t)" using set_seq_plug [of fs Leaf] I(3) by simp
  let ?m = "RBTree_Add_child x par (link_of h fs) m"
  have "path_ok fs 0" using assms(2) red_black_plug [of fs Leaf] I(3) by simp
  then obtain m' u where N: "RB_INSERT_COLOR h x ?m = Some m'" "is_tree m' h u" "red_black u" "seq u = fore fs @ x # aft fs"
      "same_but (set (seq u)) h ?m m'"
    using RB_INSERT_COLOR_ok Add_child_ok(1) [OF I(2)] n assms(3,4) by metis
  have "same_but (insert x (set (seq t))) h m ?m" by (rule Add_child_ok(2) [OF I(2)]) (use n assms(3,4) in auto)
  moreover have "set (seq u) = insert x (set (seq t))" using N(4) I(4,5) by auto
  ultimately have "same_but (insert x (set (seq t))) h m m'" using N(5) same_but_trans by metis
  then show ?thesis using I(1,4,5) N(1-4) unfolding RBTree_Insert_color_def link_of_simps by metis
qed

end
