(* ===== verification/Rb_Remove.thy ===== *)
theory Rb_Remove
  imports Rb_Insert
begin

text \<open>
  Removal from red-black trees: the node is replaced by its successor where it has two children, the
  loop of \<open>RB_REMOVE_COLOR\<close> ends and gives a red-black tree without the node.
\<close>

section \<open>One round\<close>

definition black_sibling :: "bool \<Rightarrow> nat \<Rightarrow> nat \<Rightarrow> nat \<Rightarrow> rb_mem \<Rightarrow> (rb_mem \<times> nat option) option" where
  "black_sibling d head parent tmp m =
     (if tmp = 0 then None
      else if RB_ISRED (kid (\<not> d) m tmp) m
      then do {
        let m = set_color (kid (\<not> d) m tmp) RB_BLACK m;
        let m = set_color tmp (rbe_color m parent) m;
        m \<leftarrow> turn d head parent (set_color parent RB_BLACK m);
        Some (m, Some (rbh_root m head))
      }
      else if RB_ISRED (kid d m tmp) m
      then do {
        let nephew = kid d m tmp;
        m \<leftarrow> parent_rotate (\<not> d) parent tmp m;
        let m = set_color nephew RB_BLACK m;
        let tmp = nephew;
        let m = set_color tmp (rbe_color m parent) m;
        m \<leftarrow> turn d head parent (set_color parent RB_BLACK m);
        Some (m, Some (rbh_root m head))
      }
      else Some (set_color tmp RB_RED m, None))"

definition remove_round :: "bool \<Rightarrow> nat \<Rightarrow> nat \<Rightarrow> rb_mem \<Rightarrow> (rb_mem \<times> nat option) option" where
  "remove_round d head parent m =
     (let tmp = kid (\<not> d) m parent in
      if tmp = 0 then None
      else if rbe_color m tmp = RB_RED
      then do {
        m \<leftarrow> red_rotate d head parent (RB_SET_BLACKRED tmp parent m);
        black_sibling d head parent (kid (\<not> d) m parent) m
      }
      else black_sibling d head parent tmp m)"

lemma black_sibling_instances:
  "black_sibling_right = black_sibling True" "black_sibling_left = black_sibling False"
  by (intro ext, simp add: black_sibling_right_def black_sibling_left_def black_sibling_def parent_rotate_def
      turn_instances kid_def Let_def)+

lemma remove_round_instances:
  "remove_color_left = remove_round True" "remove_color_right = remove_round False"
  by (intro ext, simp add: remove_color_left_def remove_color_right_def remove_round_def red_rotate_def
      black_sibling_instances kid_def Let_def)+

text \<open>The state in the loop: the subtree at \<open>elm\<close> is one black node shorter than its sibling \<open>u\<close>.\<close>

definition short :: "rb_mem \<Rightarrow> nat \<Rightarrow> bool \<Rightarrow> int \<Rightarrow> nat \<Rightarrow> rb \<Rightarrow> frame list \<Rightarrow> nat \<Rightarrow> rb \<Rightarrow> bool" where
  "short m h d c parent u fs elm t \<longleftrightarrow> focus m h (Frame d c parent u # fs) parent elm t
     \<and> rb_ok t \<and> \<not> red t \<and> path_ok (Frame d c parent u # fs) (Suc (bh t))"

lemma shortD:
  assumes "short m h d c parent u fs elm t"
  shows "focus m h fs (rbe_parent m parent) parent (nd d c t parent u)" "kid d m parent = elm" "parent \<noteq> 0"
    "rbe_color m parent = c" "tree_at m parent (kid (\<not> d) m parent) u" "tree_at m parent elm t"
    "rb_ok t" "\<not> red t" "rb_ok u" "bh u = Suc (bh t)" "u \<noteq> Leaf"
    "c = RB_BLACK \<or> c = RB_RED \<and> \<not> red u \<and> fs \<noteq> [] \<and> \<not> red_path fs"
    "path_ok fs (Suc (bh t) + (if c = RB_BLACK then 1 else 0))"
  using assms by (auto simp: short_def focus_Frame) (auto simp: focus_def)

text \<open>A round that ends the loop, with the focus on the subtree that was repaired.\<close>

definition repaired :: "rb_mem \<Rightarrow> nat \<Rightarrow> frame list \<Rightarrow> rb \<Rightarrow> rb_mem \<Rightarrow> bool" where
  "repaired m h fs t m' \<longleftrightarrow> (\<exists>par p t'. focus m' h fs par p t' \<and> rb_ok t' \<and> path_ok fs (bh t')
     \<and> (red t' \<longrightarrow> fs \<noteq> [] \<and> \<not> red_path fs) \<and> t' \<noteq> Leaf \<and> seq (plug fs t') = seq (plug fs t)
     \<and> same_but (set (seq (plug fs t))) h m m')"

lemma far_nephew_red:
  assumes "short m h d c parent (nd d RB_BLACK v tmp w) fs elm t" and "red w"
  shows "\<exists>m'. black_sibling d h parent tmp m = Some (m', Some (rbh_root m' h))
    \<and> repaired m h fs (nd d c t parent (nd d RB_BLACK v tmp w)) m'"
proof -
  note D = shortD [OF assms(1)]
  define x where "x = kid (\<not> d) m tmp"
  have w: "tree_at m tmp x w" "tmp \<noteq> 0" using D(5) by (auto simp: x_def)
  have r: "RB_ISRED x m" using RB_ISRED_iff [OF w(1)] assms(2) by simp
  have xw: "x \<in> set (seq w)" using tree_at_in [OF w(1)] r by (simp add: RB_ISRED_def)
  have n: "x \<notin> set (path_nodes fs)" "parent \<notin> set (path_nodes fs)" "tmp \<notin> set (path_nodes fs)" "x \<noteq> parent" "x \<noteq> tmp"
    "parent \<noteq> tmp" "x \<notin> set (seq t)" "x \<notin> set (seq v)" "tmp \<notin> set (seq t)" "tmp \<notin> set (seq v)" "tmp \<notin> set (seq w)"
    "parent \<notin> set (seq t)" "parent \<notin> set (seq v)" "parent \<notin> set (seq w)" "distinct (seq w)"
    using focusD(4,5) [OF D(1)] xw by auto
  define m1 where "m1 = set_color parent RB_BLACK (set_color tmp c (set_color x RB_BLACK m))"
  have F1: "focus m1 h fs (rbe_parent m parent) parent (nd d RB_BLACK t parent (nd d c v tmp (blacken w)))"
    using focus_recolor [OF focus_recolor [OF focus_recolor [OF D(1) n(1), of RB_BLACK] n(3), of c] n(2), of RB_BLACK] n
    by (simp add: m1_def recolor_root [OF w(1)] neq_commute)
  define m2 where "m2 = turned d h fs parent tmp m1"
  define t' where "t' = nd d c (nd d RB_BLACK t parent v) tmp (blacken w)"
  have F2: "focus m2 h fs (rbe_parent m parent) tmp t'" unfolding m2_def t'_def by (rule turned_ok(1) [OF F1])
  have "black_sibling d h parent tmp m = Some (m2, Some (rbh_root m2 h))"
    using r w(2) D(4) n turn_turned [OF F1] by (simp add: black_sibling_def x_def [symmetric] m1_def [symmetric] m2_def)
  moreover have "rb_ok t'" "bh t' = Suc (bh t) + (if c = RB_BLACK then 1 else 0)" "red t' = (c = RB_RED)" "t' \<noteq> Leaf"
    using D(7-10,12) assms(2) by (auto simp: t'_def bh_nd bh_blacken)
  moreover have "seq (plug fs t') = seq (plug fs (nd d c t parent (nd d RB_BLACK v tmp w)))"
    unfolding seq_plug t'_def by (simp add: nd_def)
  moreover have "same_but (set (seq (plug fs (nd d c t parent (nd d RB_BLACK v tmp w))))) h m m2"
  proof (rule same_but_trans)
    show "same_but (set (seq (plug fs (nd d c t parent (nd d RB_BLACK v tmp w))))) h m m1"
      using xw by (simp add: m1_def set_seq_plug)
    show "same_but (set (seq (plug fs (nd d c t parent (nd d RB_BLACK v tmp w))))) h m1 m2"
      unfolding m2_def by (rule same_but_mono [OF turned_ok(2) [OF F1]]) (auto simp: set_seq_plug)
  qed
  moreover have "red t' \<longrightarrow> fs \<noteq> [] \<and> \<not> red_path fs" using D(12) by (auto simp: t'_def)
  ultimately show ?thesis using F2 D(13) unfolding repaired_def by metis
qed

lemma near_nephew_red:
  assumes "short m h d c parent (nd d RB_BLACK v tmp w) fs elm t" and "\<not> red w" and "red v"
  shows "\<exists>m'. black_sibling d h parent tmp m = Some (m', Some (rbh_root m' h))
    \<and> repaired m h fs (nd d c t parent (nd d RB_BLACK v tmp w)) m'"
proof -
  note D = shortD [OF assms(1)]
  define x where "x = kid d m tmp"
  have w: "tree_at m tmp (kid (\<not> d) m tmp) w" "tree_at m tmp x v" "tmp \<noteq> 0" using D(5) by (auto simp: x_def)
  have r: "\<not> RB_ISRED (kid (\<not> d) m tmp) m" "RB_ISRED x m" using RB_ISRED_iff [OF w(1)] RB_ISRED_iff [OF w(2)] assms(2,3) by auto
  then obtain c' v1 v2 where v: "v = nd d c' v1 x v2" using tree_at_nonzero [OF w(2), of d] unfolding RB_ISRED_def by blast
  then have c': "c' = RB_RED" using assms(3) by simp
  let ?f = "Frame (\<not> d) c parent t"
  let ?whole = "nd d c t parent (nd d RB_BLACK v tmp w)"
  have F1: "focus m h (?f # fs) parent tmp (nd (\<not> d) RB_BLACK w tmp (nd (\<not> d) RB_RED v2 x v1))"
    using D(1,5) by (simp add: focus_Frame v c')
  define m1 where "m1 = turned (\<not> d) h (?f # fs) tmp x m"
  have "focus m1 h (?f # fs) parent x (nd (\<not> d) RB_RED (nd (\<not> d) RB_BLACK w tmp v2) x v1)"
    unfolding m1_def by (rule turned_ok(1) [OF F1])
  then obtain par where F2: "focus m1 h fs par parent (nd d c t parent (nd d RB_RED v1 x (nd d RB_BLACK v2 tmp w)))"
    by (auto simp: focus_Frame)
  have n: "x \<notin> set (path_nodes fs)" "parent \<notin> set (path_nodes fs)" "x \<noteq> parent" "x \<noteq> tmp" "parent \<noteq> tmp" "x \<notin> set (seq t)"
    "x \<notin> set (seq v1)" "x \<notin> set (seq v2)" "x \<notin> set (seq w)"
    "parent \<notin> set (seq t)" "parent \<notin> set (seq v1)" "parent \<notin> set (seq v2)" "parent \<notin> set (seq w)" "rbe_color m1 parent = c"
    using focusD(2,4,5) [OF F2] by auto
  define m2 where "m2 = set_color parent RB_BLACK (set_color x c (set_color x RB_BLACK m1))"
  have F3: "focus m2 h fs par parent (nd d RB_BLACK t parent (nd d c v1 x (nd d RB_BLACK v2 tmp w)))"
    using focus_recolor [OF focus_recolor [OF focus_recolor [OF F2 n(1), of RB_BLACK] n(1), of c] n(2), of RB_BLACK] n
    by (simp add: m2_def neq_commute)
  define m3 where "m3 = turned d h fs parent x m2"
  define t' where "t' = nd d c (nd d RB_BLACK t parent v1) x (nd d RB_BLACK v2 tmp w)"
  have F4: "focus m3 h fs par x t'" unfolding m3_def t'_def by (rule turned_ok(1) [OF F3])
  have "black_sibling d h parent tmp m = Some (m3, Some (rbh_root m3 h))"
    using r w(3) n parent_rotate_turned [OF F1] turn_turned [OF F3]
    by (simp add: black_sibling_def x_def [symmetric] m1_def [symmetric] m2_def [symmetric] m3_def)
  moreover have "rb_ok t'" "bh t' = Suc (bh t) + (if c = RB_BLACK then 1 else 0)" "red t' = (c = RB_RED)" "t' \<noteq> Leaf"
    using D(7-10,12) assms(2) by (auto simp: t'_def v c' bh_nd)
  moreover have "seq (plug fs t') = seq (plug fs ?whole)"
    unfolding seq_plug t'_def v by (simp add: nd_def)
  moreover have "same_but (set (seq (plug fs ?whole))) h m m3"
  proof (rule same_but_trans [OF same_but_trans])
    show "same_but (set (seq (plug fs ?whole))) h m m1"
      unfolding m1_def v by (rule same_but_mono [OF turned_ok(2) [OF F1]]) (auto simp: set_seq_plug)
    show "same_but (set (seq (plug fs ?whole))) h m1 m2" unfolding v by (simp add: m2_def set_seq_plug)
    show "same_but (set (seq (plug fs ?whole))) h m2 m3"
      unfolding m3_def v by (rule same_but_mono [OF turned_ok(2) [OF F3]]) (auto simp: set_seq_plug)
  qed
  moreover have "red t' \<longrightarrow> fs \<noteq> [] \<and> \<not> red_path fs" using D(12) by (auto simp: t'_def)
  ultimately show ?thesis using F4 D(13) unfolding repaired_def by metis
qed

lemma no_nephew_red:
  assumes "short m h d c parent (nd d RB_BLACK v tmp w) fs elm t" and "\<not> red w" and "\<not> red v"
  shows "black_sibling d h parent tmp m = Some (set_color tmp RB_RED m, None)"
    and "focus (set_color tmp RB_RED m) h fs (rbe_parent m parent) parent (nd d c t parent (nd d RB_RED v tmp w))"
proof -
  note D = shortD [OF assms(1)]
  have w: "tree_at m tmp (kid (\<not> d) m tmp) w" "tree_at m tmp (kid d m tmp) v" "tmp \<noteq> 0" using D(5) by auto
  show "black_sibling d h parent tmp m = Some (set_color tmp RB_RED m, None)"
    using RB_ISRED_iff [OF w(1)] RB_ISRED_iff [OF w(2)] assms(2,3) w(3) by (simp add: black_sibling_def)
  have n: "tmp \<notin> set (path_nodes fs)" "parent \<noteq> tmp" "tmp \<notin> set (seq t)" "tmp \<notin> set (seq v)" "tmp \<notin> set (seq w)"
    using focusD(4,5) [OF D(1)] by auto
  then show "focus (set_color tmp RB_RED m) h fs (rbe_parent m parent) parent (nd d c t parent (nd d RB_RED v tmp w))"
    using focus_recolor [OF D(1) n(1), of RB_RED] by (simp add: neq_commute)
qed

text \<open>What a round with a black sibling leads to.\<close>

lemma black_sibling_ok:
  assumes "short m h d c parent u fs elm t" and "\<not> red u"
  defines "s \<equiv> nd d c t parent u"
  shows "(\<exists>m'. black_sibling d h parent (kid (\<not> d) m parent) m = Some (m', Some (rbh_root m' h)) \<and> repaired m h fs s m')
    \<or> (\<exists>m' u'. black_sibling d h parent (kid (\<not> d) m parent) m = Some (m', None)
        \<and> focus m' h fs (rbe_parent m parent) parent (nd d c t parent u') \<and> rb_ok u' \<and> bh u' = bh t \<and> seq u' = seq u
        \<and> same_but (set (seq (plug fs s))) h m m')"
proof -
  note D = shortD [OF assms(1)]
  have k: "kid (\<not> d) m parent \<noteq> 0" using D(5,11) by (cases "kid (\<not> d) m parent = 0") auto
  obtain c' v w where u: "u = nd d c' v (kid (\<not> d) m parent) w" using tree_at_nonzero [OF D(5) k] by blast
  have c': "c' = RB_BLACK" using D(9) assms(2) u by (auto simp: nd_def split: if_splits)
  let ?tmp = "kid (\<not> d) m parent"
  have S: "short m h d c parent (nd d RB_BLACK v ?tmp w) fs elm t" using assms(1) u c' by metis
  have s: "s = nd d c t parent (nd d RB_BLACK v ?tmp w)" unfolding s_def using u c' by metis
  consider "red w" | "\<not> red w" "red v" | "\<not> red w" "\<not> red v" by blast
  then show ?thesis
  proof cases
    case 1 then show ?thesis using far_nephew_red [OF S] unfolding s by blast
  next
    case 2 then show ?thesis using near_nephew_red [OF S] unfolding s by blast
  next
    case 3
    note N = no_nephew_red [OF S 3]
    have uo: "rb_ok v" "rb_ok w" "bh v = bh w" "bh v = bh t" using shortD(9,10) [OF S] by (auto simp: bh_nd)
    then have "rb_ok (nd d RB_RED v ?tmp w)" "bh (nd d RB_RED v ?tmp w) = bh t" using 3 by (simp_all add: bh_nd)
    moreover have "seq (nd d RB_RED v ?tmp w) = seq u" by (subst u) (rule seq_nd_cong; rule refl)
    moreover have "same_but (set (seq (plug fs s))) h m (set_color ?tmp RB_RED m)"
      unfolding s by (simp add: set_seq_plug)
    ultimately show ?thesis using N by blast
  qed
qed

text \<open>A red sibling is rotated away; its child is the next sibling, and black.\<close>

lemma red_sibling_ok:
  assumes "short m h d c parent u fs elm t" and "red u"
  shows "\<exists>m' v tmp w. red_rotate d h parent (RB_SET_BLACKRED (kid (\<not> d) m parent) parent m) = Some m'
    \<and> short m' h d RB_RED parent v (Frame d RB_BLACK tmp w # fs) elm t \<and> \<not> red v \<and> c = RB_BLACK
    \<and> seq (nd d RB_BLACK (nd d RB_RED t parent v) tmp w) = seq (nd d c t parent u)
    \<and> same_but (set (seq (plug fs (nd d c t parent u)))) h m m'"
proof -
  note D = shortD [OF assms(1)]
  define tmp where "tmp = kid (\<not> d) m parent"
  have k: "tmp \<noteq> 0" using D(5,11) by (cases "tmp = 0") (auto simp: tmp_def)
  obtain c' v w where u: "u = nd d c' v tmp w" using tree_at_nonzero [OF D(5)] k by (metis tmp_def)
  have c': "c' = RB_RED" using assms(2) u by simp
  have c: "c = RB_BLACK" using D(12) assms(2) by simp
  have vw: "rb_ok v" "rb_ok w" "bh v = Suc (bh t)" "bh w = Suc (bh t)" "\<not> red v" "\<not> red w" using D(9,10) by (auto simp: u c' bh_nd)
  have n: "tmp \<notin> set (path_nodes fs)" "parent \<notin> set (path_nodes fs)" "parent \<noteq> tmp" "tmp \<notin> set (seq t)" "tmp \<notin> set (seq v)"
    "tmp \<notin> set (seq w)" "parent \<notin> set (seq t)" "parent \<notin> set (seq v)" "parent \<notin> set (seq w)"
    using focusD(4,5) [OF D(1)] by (auto simp: u)
  define m1 where "m1 = RB_SET_BLACKRED tmp parent m"
  have F1: "focus m1 h fs (rbe_parent m parent) parent (nd d RB_RED t parent (nd d RB_BLACK v tmp w))"
    using focus_recolor [OF focus_recolor [OF D(1) n(1), of RB_BLACK] n(2), of RB_RED] n
    by (simp add: m1_def RB_SET_BLACKRED_def u neq_commute)
  define m2 where "m2 = turned d h fs parent tmp m1"
  have F2: "focus m2 h fs (rbe_parent m parent) tmp (nd d RB_BLACK (nd d RB_RED t parent v) tmp w)"
    unfolding m2_def by (rule turned_ok(1) [OF F1])
  have "focus m2 h (Frame d RB_RED parent v # Frame d RB_BLACK tmp w # fs) parent elm t"
  proof -
    have "tree_at m2 parent (kid d m2 parent) t" using focusD(2) [OF F2] by auto
    then have "kid d m2 parent = elm" using tree_at_unique [OF D(6)] by blast
    then show ?thesis using F2 focusD(2) [OF F2] by (auto simp: focus_Frame)
  qed
  then have S: "short m2 h d RB_RED parent v (Frame d RB_BLACK tmp w # fs) elm t"
    using D(7,8,13) vw by (simp add: short_def c)
  have "v \<noteq> Leaf" using vw(3) by auto
  then have "red_rotate d h parent m1 = Some m2" unfolding m2_def by (rule red_rotate_turned [OF F1])
  moreover have "same_but (set (seq (plug fs (nd d c t parent u)))) h m m2"
  proof (rule same_but_trans)
    show "same_but (set (seq (plug fs (nd d c t parent u)))) h m m1" by (simp add: m1_def u set_seq_plug)
    show "same_but (set (seq (plug fs (nd d c t parent u)))) h m1 m2"
      unfolding m2_def u by (rule same_but_mono [OF turned_ok(2) [OF F1]]) (auto simp: set_seq_plug)
  qed
  moreover have "seq (nd d RB_BLACK (nd d RB_RED t parent v) tmp w) = seq (nd d c t parent u)"
    by (simp add: u nd_def)
  ultimately show ?thesis using S vw(5) c unfolding m1_def tmp_def by blast
qed

lemma remove_color_round_side:
  assumes "short m h d c parent u fs elm t"
  shows "remove_color_round h elm parent m = remove_round d h parent m"
proof -
  note D = shortD [OF assms]
  have k: "kid (\<not> d) m parent \<noteq> 0" using D(5,11) by (cases "kid (\<not> d) m parent = 0") auto
  then have "kid (\<not> d) m parent \<in> set (seq u)" using tree_at_in D(5) by blast
  moreover have "elm \<in> set (seq t)" if "elm \<noteq> 0" using tree_at_in [OF D(6) that] .
  moreover have "set (seq t) \<inter> set (seq u) = {}" using focusD(4) [OF D(1)] by auto
  ultimately have "kid (\<not> d) m parent \<noteq> elm" using k by (cases "elm = 0") auto
  then show ?thesis
    using D(2,3) by (cases d) (auto simp: remove_color_round_def remove_round_instances kid_def)
qed

section \<open>The loop\<close>

text \<open>The end of \<open>RB_REMOVE_COLOR\<close>: a tree with the same sequence.\<close>

definition removal_done :: "nat \<Rightarrow> nat list \<Rightarrow> rb_mem \<Rightarrow> rb_mem \<Rightarrow> bool" where
  "removal_done h xs m m' \<longleftrightarrow> (\<exists>u. is_tree m' h u \<and> red_black u \<and> seq u = xs \<and> same_but (set xs) h m m')"

lemma repaired_done:
  assumes "repaired m h fs t m'"
  shows "rbh_root m' h \<noteq> 0" and "removal_done h (seq (plug fs t)) m (set_color (rbh_root m' h) RB_BLACK m')"
proof -
  obtain par p t' where R: "focus m' h fs par p t'" "rb_ok t'" "path_ok fs (bh t')" "red t' \<longrightarrow> fs \<noteq> [] \<and> \<not> red_path fs"
    "t' \<noteq> Leaf" "seq (plug fs t') = seq (plug fs t)" "same_but (set (seq (plug fs t))) h m m'"
    using assms unfolding repaired_def by blast
  have rb: "red_black (plug fs t')" using R(2-4) by (simp add: red_black_plug)
  have T: "is_tree m' h (plug fs t')" using focus_is_tree [OF R(1)] .
  have "seq (plug fs t') \<noteq> []" using R(5) by (cases t') (auto simp: seq_plug)
  then show r: "rbh_root m' h \<noteq> 0" using T by (cases "plug fs t'") (auto simp: is_tree_def)
  then have i: "rbh_root m' h \<in> set (seq (plug fs t'))" using T tree_at_in by (auto simp: is_tree_def)
  have "is_tree (set_color (rbh_root m' h) RB_BLACK m') h (recolor (rbh_root m' h) RB_BLACK (plug fs t'))"
    using focus_recolor [of m' h "[]" 0 "rbh_root m' h" "plug fs t'" "rbh_root m' h" RB_BLACK] T by (simp add: is_tree_root)
  moreover have "recolor (rbh_root m' h) RB_BLACK (plug fs t') = plug fs t'"
    using T rb recolor_root blacken_black by (metis is_tree_def red_black_def)
  ultimately show "removal_done h (seq (plug fs t)) m (set_color (rbh_root m' h) RB_BLACK m')"
    unfolding removal_done_def using rb R(6,7) i by (intro exI [of _ "plug fs t'"]) simp
qed

text \<open>The loop is left at a node that becomes black.\<close>

lemma exit_done:
  assumes "focus m' h fs par parent (nd d c t parent u')" and "rb_ok t" and "rb_ok u'" and "bh u' = bh t"
    and "path_ok fs (Suc (bh t))" and "seq u' = seq u" and "same_but (set (seq (plug fs (nd d c t parent u)))) h m m'"
  shows "parent \<noteq> 0" and "removal_done h (seq (plug fs (nd d c t parent u))) m (set_color parent RB_BLACK m')"
proof -
  have n: "parent \<notin> set (path_nodes fs)" "parent \<notin> set (seq t)" "parent \<notin> set (seq u')" using focusD(4,5) [OF assms(1)] by auto
  show "parent \<noteq> 0" using focusD(2) [OF assms(1)] by simp
  have "focus (set_color parent RB_BLACK m') h fs par parent (nd d RB_BLACK t parent u')"
    using focus_recolor [OF assms(1) n(1), of RB_BLACK] n by simp
  moreover have "red_black (plug fs (nd d RB_BLACK t parent u'))"
    using assms(2-5) by (simp add: red_black_plug bh_nd)
  moreover have "seq (plug fs (nd d RB_BLACK t parent u')) = seq (plug fs (nd d c t parent u))"
    unfolding seq_plug using assms(6) by (simp add: nd_def)
  moreover have "same_but (set (seq (plug fs (nd d c t parent u)))) h m (set_color parent RB_BLACK m')"
    using assms(7) by (simp add: set_seq_plug)
  ultimately show "removal_done h (seq (plug fs (nd d c t parent u))) m (set_color parent RB_BLACK m')"
    unfolding removal_done_def using focus_is_tree by metis
qed

lemma removal_done_trans:
  "same_but (set xs) h m m' \<Longrightarrow> removal_done h xs m' m'' \<Longrightarrow> removal_done h xs m m''"
  unfolding removal_done_def using same_but_trans by metis

lemma loop_break:
  "remove_color_round h elm parent m = Some (m', Some e) \<Longrightarrow> remove_color_loop h elm parent m = Some (m', e)"
  by (subst remove_color_loop.simps) simp

lemma loop_continue:
  "remove_color_round h elm parent m = Some (m', None) \<Longrightarrow> remove_color_loop h elm parent m =
     (if rbe_color m' parent = RB_BLACK \<and> rbe_parent m' parent \<noteq> 0 then remove_color_loop h parent (rbe_parent m' parent) m'
      else Some (m', parent))"
  by (subst remove_color_loop.simps) (simp add: Let_def)

lemma focus_no_parent: "focus m h fs 0 p t \<Longrightarrow> fs = []"
  by (cases fs rule: path_nodes.cases) (auto simp: focus_def)

text \<open>A red sibling: after the rotation the sibling is black and the parent is red, so this round is the last one.\<close>

lemma loop_red_sibling:
  assumes "short m h d c parent u fs elm t" and "red u"
  shows "\<exists>m' e. remove_color_loop h elm parent m = Some (m', e) \<and> e \<noteq> 0
    \<and> removal_done h (seq (plug fs (nd d c t parent u))) m (set_color e RB_BLACK m')"
proof -
  note D = shortD [OF assms(1)] and side = remove_color_round_side [OF assms(1)]
  let ?s = "nd d c t parent u"
  have col: "rbe_color m (kid (\<not> d) m parent) = RB_RED \<longleftrightarrow> red u" "kid (\<not> d) m parent \<noteq> 0"
    using D(5,11) by (cases u; auto)+
  obtain m1 v tmp w where R: "red_rotate d h parent (RB_SET_BLACKRED (kid (\<not> d) m parent) parent m) = Some m1"
    "short m1 h d RB_RED parent v (Frame d RB_BLACK tmp w # fs) elm t" "\<not> red v" "c = RB_BLACK"
    "seq (nd d RB_BLACK (nd d RB_RED t parent v) tmp w) = seq ?s" "same_but (set (seq (plug fs ?s))) h m m1"
    using red_sibling_ok [OF assms(1,2)] by blast
  let ?fs = "Frame d RB_BLACK tmp w # fs"
  have e: "seq (plug ?fs (nd d RB_RED t parent v)) = seq (plug fs ?s)" using R(5) by (simp add: seq_plug)
  have round: "remove_color_round h elm parent m = black_sibling d h parent (kid (\<not> d) m1 parent) m1"
    using col assms(2) R(1) by (simp add: side remove_round_def)
  from black_sibling_ok [OF R(2,3)] show ?thesis
  proof (elim disjE exE conjE)
    fix m' assume b: "black_sibling d h parent (kid (\<not> d) m1 parent) m1 = Some (m', Some (rbh_root m' h))"
      and r: "repaired m1 h ?fs (nd d RB_RED t parent v) m'"
    show ?thesis
      using loop_break b round repaired_done [OF r] removal_done_trans R(6) unfolding e by metis
  next
    fix m' u' assume b: "black_sibling d h parent (kid (\<not> d) m1 parent) m1 = Some (m', None)"
      and f: "focus m' h ?fs (rbe_parent m1 parent) parent (nd d RB_RED t parent u')" "rb_ok u'" "bh u' = bh t" "seq u' = seq v"
      and s: "same_but (set (seq (plug ?fs (nd d RB_RED t parent v)))) h m1 m'"
    have "path_ok ?fs (Suc (bh t))" using shortD(13) [OF R(2)] by simp
    from exit_done [OF f(1) D(7) f(2,3) this f(4) s]
    have x: "parent \<noteq> 0" "removal_done h (seq (plug fs ?s)) m1 (set_color parent RB_BLACK m')" unfolding e .
    have "rbe_color m' parent = RB_RED" using focusD(2) [OF f(1)] by simp
    then have "remove_color_loop h elm parent m = Some (m', parent)" using loop_continue b round by simp
    then show ?thesis using x removal_done_trans [OF R(6)] by blast
  qed
qed

lemma remove_color_loop_ok:
  assumes "short m h d c parent u fs elm t"
  shows "\<exists>m' e. remove_color_loop h elm parent m = Some (m', e) \<and> e \<noteq> 0
    \<and> removal_done h (seq (plug fs (nd d c t parent u))) m (set_color e RB_BLACK m')"
  using assms
proof (induction fs arbitrary: m d c parent u elm t rule: length_induct)
  case (1 fs)
  note D = shortD [OF 1(2)] and side = remove_color_round_side [OF 1(2)]
  let ?s = "nd d c t parent u"
  have col: "rbe_color m (kid (\<not> d) m parent) = RB_RED \<longleftrightarrow> red u" "kid (\<not> d) m parent \<noteq> 0"
    using D(5,11) by (cases u; auto)+
  show ?case
  proof (cases "red u")
    case True
    show ?thesis by (rule loop_red_sibling [OF 1(2) True])
  next
    case False
    have round: "remove_color_round h elm parent m = black_sibling d h parent (kid (\<not> d) m parent) m"
      using col False by (simp add: side remove_round_def)
    from black_sibling_ok [OF 1(2) False] show ?thesis
    proof (elim disjE exE conjE)
      fix m' assume b: "black_sibling d h parent (kid (\<not> d) m parent) m = Some (m', Some (rbh_root m' h))"
        and r: "repaired m h fs ?s m'"
      show ?thesis using loop_break b round repaired_done [OF r] by metis
    next
      fix m' u' assume b: "black_sibling d h parent (kid (\<not> d) m parent) m = Some (m', None)"
        and f: "focus m' h fs (rbe_parent m parent) parent (nd d c t parent u')" "rb_ok u'" "bh u' = bh t" "seq u' = seq u"
        and s: "same_but (set (seq (plug fs ?s))) h m m'"
      have p: "rbe_color m' parent = c" "rbe_parent m' parent = rbe_parent m parent" using focusD(2) [OF f(1)] by auto
      note L = loop_continue [OF b [folded round]]
      show ?thesis
      proof (cases "c = RB_BLACK \<and> rbe_parent m parent \<noteq> 0")
        case True
        then obtain d2 c2 a2 u2 fs2 where fs: "fs = Frame d2 c2 a2 u2 # fs2"
          using focusD(1) [OF f(1)] by (cases fs rule: path_nodes.cases) auto
        have a2: "rbe_parent m parent = a2" using focusD(1) [OF f(1)] fs by simp
        let ?t = "nd d RB_BLACK t parent u'"
        have bt: "bh ?t = Suc (bh t)" using f(3) by (simp add: bh_nd)
        have "short m' h d2 c2 a2 u2 fs2 parent ?t"
          unfolding short_def using f True D(7,13) a2 by (simp add: fs bt)
        moreover have "length fs2 < length fs" by (simp add: fs)
        ultimately obtain m'' e where I: "remove_color_loop h parent a2 m' = Some (m'', e)" "e \<noteq> 0"
          "removal_done h (seq (plug fs2 (nd d2 c2 ?t a2 u2))) m' (set_color e RB_BLACK m'')" using 1(1) by blast
        moreover have "seq (plug fs2 (nd d2 c2 ?t a2 u2)) = seq (plug fs ?s)"
          unfolding fs seq_plug using f(4) True by (simp add: nd_def)
        ultimately show ?thesis using L p True a2 removal_done_trans [OF s] by auto
      next
        case False
        have "path_ok fs (Suc (bh t))"
        proof (cases "c = RB_BLACK")
          case True
          with False have "rbe_parent m parent = 0" by simp
          then show ?thesis using f(1) focus_no_parent by (metis path_ok.simps(1))
        qed (use D(13) in simp)
        from exit_done [OF f(1) D(7) f(2,3) this f(4) s] show ?thesis using L p False by auto
      qed
    qed
  qed
qed

lemma RB_REMOVE_COLOR_ok:
  assumes "short m h d c parent u fs 0 Leaf"
  shows "\<exists>m'. RB_REMOVE_COLOR h parent m = Some m' \<and> removal_done h (seq (plug fs (nd d c Leaf parent u))) m m'"
  using remove_color_loop_ok [OF assms] by (auto simp: RB_REMOVE_COLOR_def)

end
