(* ===== verification/Rb_Extract.thy ===== *)
theory Rb_Extract
  imports Rb_Remove
begin

text \<open>
  The removal of a node of a red-black tree as a whole: the node or its successor is taken out of
  the tree, and the colours are repaired.
\<close>

section \<open>The repair after a node has been taken out\<close>

definition repair :: "nat \<Rightarrow> nat \<Rightarrow> nat \<Rightarrow> int \<Rightarrow> rb_mem \<Rightarrow> rb_mem option" where
  "repair h child parent color m =
     (if child \<noteq> 0 then Some (set_color child RB_BLACK (set_parent child parent m))
      else if color \<noteq> RB_RED \<and> parent \<noteq> 0 then RB_REMOVE_COLOR h parent m
      else Some m)"

lemma remove_finish_repair:
  "remove_finish h old elm child parent color m = repair h child parent color (RB_SWAP_CHILD h old elm m)"
  by (simp add: remove_finish_def repair_def Let_def)

text \<open>The subtree \<open>s\<close> takes the place of a node of colour \<open>col\<close> whose other subtree was empty.\<close>

definition fits_colour :: "rb \<Rightarrow> int \<Rightarrow> bool" where
  "fits_colour s col \<longleftrightarrow> col = RB_RED \<and> s = Leaf \<or> col = RB_BLACK \<and> (s = Leaf \<or> red s \<and> rb_ok s \<and> bh s = 0)"

lemma fits_colour_nd:
  assumes "rb_ok (nd d col Leaf x s)"
  shows "fits_colour s col" "bh (nd d col Leaf x s) = (if col = RB_RED then 0 else 1)"
proof -
  have s: "bh s = 0" "rb_ok s" "col = RB_BLACK \<or> col = RB_RED \<and> \<not> red s" using assms by auto
  then have "s = Leaf \<or> red s" by (cases s) auto
  with s show "fits_colour s col" "bh (nd d col Leaf x s) = (if col = RB_RED then 0 else 1)"
    by (auto simp: fits_colour_def bh_nd)
qed

lemma repair_ok:
  assumes "path_at m h fs par child" and "tree_at m q child s" and "distinct (path_nodes fs @ seq s)"
    and "fits_colour s col" and "path_ok fs (if col = RB_RED then 0 else 1)"
  shows "\<exists>m'. repair h child par col m = Some m' \<and> removal_done h (fore fs @ seq s @ aft fs) m m'"
proof (cases "child = 0")
  case False
  define m1 where "m1 = set_parent child par m"
  have i: "child \<in> set (seq s)" using tree_at_in [OF assms(2) False] .
  then have n: "child \<notin> set (path_nodes fs)" using assms(3) by auto
  have s: "s \<noteq> Leaf" using i by auto
  have "focus m1 h fs par child s"
    using assms(1,3) n tree_at_reparent [OF assms(2), of par] False by (simp add: focus_def m1_def)
  moreover have "recolor child RB_BLACK s = blacken s" using recolor_root [OF assms(2)] assms(3) by simp
  ultimately have F: "focus (set_color child RB_BLACK m1) h fs par child (blacken s)"
    using focus_recolor [of m1 h fs par child s child RB_BLACK] n by simp
  have "red_black (plug fs (blacken s))" using assms(4,5) s by (auto simp: fits_colour_def red_black_plug bh_blacken)
  then have "removal_done h (fore fs @ seq s @ aft fs) m (set_color child RB_BLACK m1)"
    unfolding removal_done_def using focus_is_tree [OF F] i
    by (intro exI [of _ "plug fs (blacken s)"]) (simp add: seq_plug m1_def)
  then show ?thesis using False by (simp add: repair_def m1_def)
next
  case True
  then have s: "s = Leaf" using assms(2) by simp
  have F: "focus m h fs par 0 Leaf" using assms(1,3) True s by (simp add: focus_def)
  show ?thesis
  proof (cases "col \<noteq> RB_RED \<and> par \<noteq> 0")
    case c: True
    then obtain d k a u gs where fs: "fs = Frame d k a u # gs"
      using focusD(1) [OF F] by (cases fs rule: path_nodes.cases) auto
    have "par = a" using focusD(1) [OF F] fs by simp
    then have "short m h d k par u gs 0 Leaf" unfolding short_def using F assms(5) c fs by simp
    from RB_REMOVE_COLOR_ok [OF this] show ?thesis
      using c True \<open>par = a\<close> seq_plug [of fs Leaf] by (simp add: repair_def s fs)
  next
    case False
    have "path_ok fs 0" using False assms(5) F focus_no_parent by (metis path_ok.simps(1))
    then have "red_black (plug fs Leaf)" by (simp add: red_black_plug)
    then have "removal_done h (fore fs @ seq s @ aft fs) m m"
      unfolding removal_done_def using focus_is_tree [OF F] s by (intro exI [of _ "plug fs Leaf"]) (simp add: seq_plug)
    then show ?thesis using False True by (auto simp: repair_def)
  qed
qed

section \<open>A node with at most one child\<close>

lemma remove_single:
  assumes "focus m h fs par elm (nd d c Leaf elm s)" and "rb_ok (nd d c Leaf elm s)" and "path_ok fs (bh (nd d c Leaf elm s))"
  shows "\<exists>m'. remove_finish h elm (kid (\<not> d) m elm) (kid (\<not> d) m elm) par c m = Some m'
    \<and> (\<exists>u. is_tree m' h u \<and> red_black u \<and> seq u = fore fs @ seq s @ aft fs \<and> same_but (insert elm (set (seq u))) h m m')"
proof -
  note F = focusD [OF assms(1)]
  let ?child = "kid (\<not> d) m elm"
  have t: "elm \<noteq> 0" "rbe_parent m elm = par" "tree_at m elm ?child s" "elm \<notin> set (path_nodes fs)"
    "set (seq s) \<inter> set (path_nodes fs) = {}" "elm \<notin> set (seq s)" "distinct (seq s)"
    using F(2,4,5) by auto
  have sw: "RB_SWAP_CHILD h elm ?child m = graft h fs ?child m"
    by (rule swap_child_graft) (use F(1) t in auto)
  have "distinct (path_nodes fs @ seq s)" using F(3) t by auto
  with path_at_graft [OF F(1,3)] t(3,5) fits_colour_nd [OF assms(2)] assms(3)
  obtain m' where m': "repair h ?child par c (graft h fs ?child m) = Some m'"
    "removal_done h (fore fs @ seq s @ aft fs) (graft h fs ?child m) m'"
    using repair_ok [of "graft h fs ?child m" h fs par ?child elm s c] by auto
  then obtain u where u: "is_tree m' h u" "red_black u" "seq u = fore fs @ seq s @ aft fs"
    "same_but (set (seq u)) h (graft h fs ?child m) m'" unfolding removal_done_def by auto
  have "set (path_nodes fs) \<subseteq> insert elm (set (seq u))" using u(3) by (auto simp: set_path_nodes)
  then have "same_but (insert elm (set (seq u))) h m (graft h fs ?child m)" by simp
  then have "same_but (insert elm (set (seq u))) h m m'"
    using same_but_trans same_but_mono [OF u(4), of "insert elm (set (seq u))"] by blast
  then show ?thesis using m'(1) sw u(1-3) by (auto simp: remove_finish_repair)
qed

section \<open>The outermost node\<close>

definition edge :: "bool \<Rightarrow> nat \<Rightarrow> rb_mem \<Rightarrow> nat option" where
  "edge d = (if d then leftmost else rightmost)"

lemma edge_simps: "edge d p m = (if p = 0 then None else if kid d m p = 0 then Some p else edge d (kid d m p) m)"
  by (cases d) (simp_all add: edge_def kid_def leftmost.simps [of p] rightmost.simps [of p])

fun side :: "frame \<Rightarrow> bool" where
  "side (Frame d c a s) = d"

lemma plug_append: "plug (gs @ fs) t = plug fs (plug gs t)"
  by (induction gs t rule: plug.induct) auto

lemma fore_append: "fore (gs @ fs) = fore fs @ fore gs" "aft (gs @ fs) = aft gs @ aft fs"
  by (induction gs rule: fore.induct) auto

lemma fore_side: "\<forall>f \<in> set gs. side f = True \<Longrightarrow> fore gs = []" "\<forall>f \<in> set gs. side f = False \<Longrightarrow> aft gs = []"
  by (induction gs rule: fore.induct) auto

lemma edge_ok:
  assumes "focus m h fs par p t" and "t \<noteq> Leaf"
  shows "\<exists>gs px c x r. edge d p m = Some x \<and> focus m h (gs @ fs) px x (nd d c Leaf x r)
    \<and> (\<forall>f \<in> set gs. side f = d) \<and> plug gs (nd d c Leaf x r) = t \<and> (gs = [] \<longrightarrow> x = p)"
  using assms
proof (induction t arbitrary: fs par p rule: measure_induct_rule [of "\<lambda>t. length (seq t)"])
  case (less t)
  obtain c l a r where t: "t = nd d c l a r" using nd_cases [of t d] less.prems(2) by blast
  have a: "p = a" "a \<noteq> 0" "tree_at m a (kid d m a) l" using focusD(2) [OF less.prems(1)] by (auto simp: t)
  show ?case
  proof (cases "l = Leaf")
    case True
    then have "edge d p m = Some p" using a by (subst edge_simps) simp
    then show ?thesis using less.prems(1) t True a by (intro exI [of _ "[]"]) auto
  next
    case False
    then have k: "kid d m a \<noteq> 0" using a(3) by (cases "kid d m a = 0") auto
    have "length (seq l) < length (seq t)" by (cases d) (auto simp: t nd_def)
    moreover have "focus m h (Frame d c a r # fs) a (kid d m a) l" using focus_down less.prems(1) t by blast
    ultimately obtain gs px c' x r' where I: "edge d (kid d m a) m = Some x" "focus m h (gs @ Frame d c a r # fs) px x (nd d c' Leaf x r')"
      "\<forall>f \<in> set gs. side f = d" "plug gs (nd d c' Leaf x r') = l" using less.IH False by meson
    have "edge d p m = Some x" using a k I(1) by (subst edge_simps) simp
    moreover have "plug (gs @ [Frame d c a r]) (nd d c' Leaf x r') = t" by (simp add: plug_append I(4) t)
    ultimately show ?thesis using I(2,3) by (intro exI [of _ "gs @ [Frame d c a r]"]) auto
  qed
qed

section \<open>A node with two children\<close>

fun addr :: "frame \<Rightarrow> nat" where
  "addr (Frame d c a s) = a"

lemma path_top:
  "path_at m h (gs @ Frame d c a s # fs) par p \<Longrightarrow> gs \<noteq> [] \<Longrightarrow> kid d m a = addr (last gs)"
proof (induction gs arbitrary: par p)
  case (Cons f gs)
  then show ?case by (cases f; cases gs) auto
qed simp

lemma addr_last: "gs \<noteq> [] \<Longrightarrow> addr (last gs) \<in> set (path_nodes gs)"
  by (induction gs rule: path_nodes.induct) auto

text \<open>A node of a path is replaced by another one, which takes over its place and its subtree.\<close>

lemma path_swap:
  assumes "path_at m h (gs @ Frame d c a s # fs) par p" and "gs \<noteq> []" and "distinct (path_nodes gs)"
    and "\<And>y e. y \<in> set (path_nodes gs) \<Longrightarrow> kid e m' y = kid e m y \<and> rbe_color m' y = rbe_color m y
      \<and> (y \<noteq> addr (last gs) \<longrightarrow> rbe_parent m' y = rbe_parent m y)"
    and "rbe_parent m' (addr (last gs)) = x" and "path_at m' h (Frame d c x s # fs) x (addr (last gs))"
  shows "path_at m' h (gs @ Frame d c x s # fs) par p"
  using assms
proof (induction gs arbitrary: par p)
  case (Cons f gs)
  obtain e k b u where f: "f = Frame e k b u" by (cases f)
  have b: "par = b" "b \<noteq> 0" "rbe_color m b = k" "kid e m b = p" "tree_at m b (kid (\<not> e) m b) u"
    "path_at m h (gs @ Frame d c a s # fs) (rbe_parent m b) b" using Cons.prems(1) by (auto simp: f)
  have same: "kid e' m' y = kid e' m y" "rbe_color m' y = rbe_color m y" "y \<noteq> addr (last (f # gs)) \<Longrightarrow> rbe_parent m' y = rbe_parent m y"
    if "y \<in> set (path_nodes (f # gs))" for y e' using Cons.prems(4) [OF that] by auto
  have nu: "addr (last (f # gs)) \<notin> set (seq u)"
    using Cons.prems(3) addr_last [of gs] by (cases "gs = []") (auto simp: f)
  have "tree_at m' b (kid (\<not> e) m b) u = tree_at m b (kid (\<not> e) m b) u"
  proof (rule tree_at_cong)
    fix y assume y: "y \<in> set (seq u)"
    then have "y \<in> set (path_nodes (f # gs))" "y \<noteq> addr (last (f # gs))" using nu by (auto simp: f)
    then show "rbe_left m' y = rbe_left m y \<and> rbe_right m' y = rbe_right m y \<and> rbe_parent m' y = rbe_parent m y \<and> rbe_color m' y = rbe_color m y"
      using same(1) [of y True] same(1) [of y False] same(2,3) by (simp add: kid_def)
  qed
  moreover have "path_at m' h (gs @ Frame d c x s # fs) (rbe_parent m' b) b"
  proof (cases "gs = []")
    case True then show ?thesis using Cons.prems(5,6) by (simp add: f)
  next
    case False
    then have "b \<noteq> addr (last (f # gs))" using Cons.prems(3) addr_last [of gs] by (auto simp: f)
    then have "rbe_parent m' b = rbe_parent m b" using same(3) [of b] by (simp add: f)
    moreover have "path_at m' h (gs @ Frame d c x s # fs) (rbe_parent m b) b"
      using Cons.IH [OF b(6) False] Cons.prems(3-6) False by (auto simp: f)
    ultimately show ?thesis by simp
  qed
  ultimately show ?case using b(1-5) same(1,2) [of b] by (simp add: f)
qed simp

lemma path_ok_addr: "path_ok (gs @ Frame d c a s # fs) n = path_ok (gs @ Frame d c b s # fs) n"
proof (induction gs arbitrary: n)
  case (Cons f gs)
  then show ?case by (cases f; cases gs; cases "hd gs") auto
qed simp

lemma path_nodes_append: "path_nodes (gs @ fs) = path_nodes gs @ path_nodes fs"
  by (induction gs rule: path_nodes.induct) auto

lemma copy_fields_kids:
  "copy_fields x old m = set_color x (rbe_color m old) (set_parent x (rbe_parent m old)
     (set_kid False x (kid False m old) (set_kid True x (kid True m old) m)))"
  by (simp add: copy_fields_def set_kid_def kid_def)

lemma copy_fields_simps [simp]:
  "kid d (copy_fields x old m) y = (if y = x then kid d m old else kid d m y)"
  "rbe_parent (copy_fields x old m) y = (if y = x then rbe_parent m old else rbe_parent m y)"
  "rbe_color (copy_fields x old m) y = (if y = x then rbe_color m old else rbe_color m y)"
  "x \<notin> set (seq t) \<Longrightarrow> tree_at (copy_fields x old m) par p t = tree_at m par p t"
  "x \<notin> set (path_nodes fs) \<Longrightarrow> path_at (copy_fields x old m) h fs par p = path_at m h fs par p"
  "x \<in> A \<Longrightarrow> same_but A h m' (copy_fields x old m) = same_but A h m' m"
  by (cases d; simp add: copy_fields_kids)+

text \<open>The successor \<open>x\<close> is the right child.\<close>

lemma successor_child:
  assumes "focus m h (Frame False c old l # fs) old x (nd True cx Leaf x rx)" and "l \<noteq> Leaf"
  defines "child \<equiv> kid False m x"
  shows "\<exists>m'. RB_REMOVE h old m = repair h child x cx m' \<and> path_at m' h (Frame False c x l # fs) x child
    \<and> tree_at m' x child rx \<and> same_but (set (seq (plug (Frame False c old l # fs) (nd True cx Leaf x rx)))) h m m'"
proof -
  note F = focusD [OF assms(1)]
  define lp where "lp = kid True m old"
  define par where "par = rbe_parent m old"
  have t: "old \<noteq> 0" "x \<noteq> 0" "rbe_color m old = c" "kid False m old = x" "tree_at m old lp l" "path_at m h fs par old"
    "rbe_parent m x = old" "rbe_color m x = cx" "kid True m x = 0" "tree_at m x child rx"
    using F(1,2) by (auto simp: lp_def par_def child_def)
  have lp: "lp \<noteq> 0" using t(5) assms(2) by (cases "lp = 0") auto
  have li: "lp \<in> set (seq l)" using tree_at_in [OF t(5) lp] .
  have n: "old \<noteq> x" "x \<noteq> old" "lp \<noteq> x" "lp \<noteq> old" "old \<noteq> lp" "old \<notin> set (path_nodes fs)" "x \<notin> set (path_nodes fs)" "lp \<notin> set (path_nodes fs)"
    "old \<notin> set (seq l)" "x \<notin> set (seq l)" "old \<notin> set (seq rx)" "x \<notin> set (seq rx)" "lp \<notin> set (seq rx)"
    "set (seq l) \<inter> set (path_nodes fs) = {}" "set (seq rx) \<inter> set (path_nodes fs) = {}" "distinct (seq l)" "distinct (path_nodes fs)"
    using F(3,4,5) li by auto
  define m2 where "m2 = set_parent lp x (set_kid False old child m)"
  define m3 where "m3 = copy_fields x old m2"
  define m4 where "m4 = graft h fs x m3"
  have m3: "rbe_parent m3 old = par" "path_at m3 h fs par old"
    using t(6) n by (simp_all add: m3_def m2_def par_def)
  then have "RB_SWAP_CHILD h old x m3 = m4" unfolding m4_def by (intro swap_child_graft) (use t n in auto)
  then have "RB_REMOVE h old m = repair h child x cx m4"
    using t lp n by (simp add: RB_REMOVE_def Let_def remove_finish_repair to_kid lp_def [symmetric] child_def [symmetric] m2_def m3_def)
  moreover have "path_at m4 h fs par x" unfolding m4_def by (rule path_at_graft [OF m3(2) n(17)])
  moreover have "tree_at m4 x lp l"
    using tree_at_reparent [of "set_kid False old child m" old lp l x] t(5) lp n by (simp add: m4_def m3_def m2_def)
  moreover have "kid True m4 x = lp" "kid False m4 x = child" "rbe_color m4 x = c" "rbe_parent m4 x = par" "tree_at m4 x child rx"
    using t n by (simp_all add: m4_def m3_def m2_def lp_def par_def)
  moreover have "same_but (set (seq (plug (Frame False c old l # fs) (nd True cx Leaf x rx)))) h m m4"
  proof -
    define A where "A = set (seq (plug (Frame False c old l # fs) (nd True cx Leaf x rx)))"
    have "set (path_nodes fs) \<subseteq> A" "old \<in> A" "x \<in> A" "lp \<in> A" using li by (auto simp: A_def set_seq_plug)
    then show ?thesis unfolding A_def [symmetric] by (simp add: m4_def m3_def m2_def)
  qed
  ultimately show ?thesis using t(2) by (intro exI [of _ m4]) simp
qed

lemma path_at_suffix: "path_at m h (gs @ fs) par p \<Longrightarrow> \<exists>par' p'. path_at m h fs par' p'"
  by (induction gs arbitrary: par p rule: path_nodes.induct) auto

text \<open>The successor \<open>x\<close> is further down.\<close>

lemma successor_below:
  assumes "focus m h (gs @ Frame False c old l # fs) px x (nd True cx Leaf x rx)" and "l \<noteq> Leaf" and "gs \<noteq> []"
    and "\<forall>f \<in> set gs. side f = True" and "leftmost (kid False m old) m = Some x"
  defines "child \<equiv> kid False m x"
  shows "\<exists>m'. RB_REMOVE h old m = repair h child px cx m' \<and> path_at m' h (gs @ Frame False c x l # fs) px child
    \<and> tree_at m' x child rx \<and> same_but (set (seq (plug (gs @ Frame False c old l # fs) (nd True cx Leaf x rx)))) h m m'"
proof -
  let ?P = "gs @ Frame False c old l # fs"
  note F = focusD [OF assms(1)]
  define lp where "lp = kid True m old"
  define rp where "rp = kid False m old"
  define par where "par = rbe_parent m old"
  have rp: "rp = addr (last gs)" using path_top [OF F(1) assms(3)] by (simp add: rp_def)
  have ri: "rp \<in> set (path_nodes gs)" using addr_last [OF assms(3)] rp by simp
  obtain ax sx gs' where gs: "gs = Frame True ax px sx # gs'"
    using assms(3,4) F(1) by (cases gs rule: path_nodes.cases) auto
  have px: "px \<in> set (path_nodes gs)" "rbe_parent m x = px" using F(2) by (auto simp: gs)
  obtain q b where "path_at m h (Frame False c old l # fs) q b" using path_at_suffix [OF F(1)] by blast
  then have t: "old \<noteq> 0" "rbe_color m old = c" "tree_at m old lp l" "path_at m h fs par old"
    by (auto simp: lp_def par_def)
  have tx: "x \<noteq> 0" "rbe_color m x = cx" "tree_at m x child rx" using F(2) by (auto simp: child_def)
  have lp: "lp \<noteq> 0" using t(3) assms(2) by (cases "lp = 0") auto
  have li: "lp \<in> set (seq l)" using tree_at_in [OF t(3) lp] .
  have D: "distinct (path_nodes gs)" "distinct (path_nodes fs)" "distinct (seq l)" "old \<notin> set (path_nodes gs)" "old \<notin> set (seq l)"
    "old \<notin> set (path_nodes fs)" "set (path_nodes gs) \<inter> set (seq l) = {}" "set (path_nodes gs) \<inter> set (path_nodes fs) = {}"
    "set (seq l) \<inter> set (path_nodes fs) = {}"
    using F(3) by (auto simp: path_nodes_append)
  have X: "x \<notin> set (path_nodes gs)" "x \<noteq> old" "x \<notin> set (seq l)" "x \<notin> set (path_nodes fs)" "x \<notin> set (seq rx)" "old \<notin> set (seq rx)"
    "set (path_nodes gs) \<inter> set (seq rx) = {}" "set (seq l) \<inter> set (seq rx) = {}" "set (seq rx) \<inter> set (path_nodes fs) = {}"
    using F(4,5) by (auto simp: path_nodes_append)
  have ng: "y \<noteq> x" "y \<noteq> lp" "y \<noteq> old" "y \<notin> set (path_nodes fs)" "y \<notin> set (seq l)" "y \<notin> set (seq rx)"
    if "y \<in> set (path_nodes gs)" for y using D(4,7,8) X(1,7) li that by auto
  have nl: "lp \<noteq> x" "lp \<noteq> old" "lp \<notin> set (path_nodes fs)" "lp \<notin> set (seq rx)" using D(5,9) X(3,8) li by auto
  note n = D X nl ng [OF ri] ng [OF px(1)]
  define m1 where "m1 = set_kid True px child m"
  define m3 where "m3 = set_parent lp x (set_parent rp x m1)"
  define m4 where "m4 = copy_fields x old m3"
  define m5 where "m5 = graft h fs x m4"
  have m4: "rbe_parent m4 old = par" "path_at m4 h fs par old"
    using t(4) n by (simp_all add: m4_def m3_def m1_def par_def)
  then have "RB_SWAP_CHILD h old x m4 = m5" unfolding m5_def by (intro swap_child_graft) (use t n in auto)
  have rp0: "rp \<noteq> 0" using assms(5) by (subst (asm) leftmost.simps) (auto simp: rp_def split: if_splits)
  have down: "kid True m rp \<noteq> 0" "leftmost (kid True m rp) m = Some x"
    using assms(5) ng(1) [OF ri] rp0 edge_simps [of True rp m] by (auto simp: edge_def rp_def split: if_splits)
  have "RB_REMOVE h old m = repair h child px cx m5"
    using \<open>RB_SWAP_CHILD h old x m4 = m5\<close> t tx lp n px(2) rp0 down
    by (simp add: RB_REMOVE_def Let_def remove_finish_repair to_kid lp_def [symmetric] rp_def [symmetric] child_def [symmetric] m1_def m3_def m4_def)
  moreover have "path_at m5 h (gs @ Frame False c x l # fs) px child"
  proof (rule path_swap)
    have "graft h ?P child m = m1" by (simp add: graft_def gs m1_def)
    then show "path_at m1 h ?P px child" using path_at_graft [OF F(1,3), of child] by simp
    show "rbe_parent m5 (addr (last gs)) = x" using n by (simp add: rp [symmetric] m5_def m4_def m3_def)
    show "path_at m5 h (Frame False c x l # fs) x (addr (last gs))"
    proof -
      have "path_at m5 h fs par x" unfolding m5_def by (rule path_at_graft [OF m4(2) D(2)])
      moreover have "tree_at m5 x lp l"
        using tree_at_reparent [of "set_parent rp x m1" old lp l x] t(3) lp n by (simp add: m5_def m4_def m3_def m1_def)
      moreover have "kid True m5 x = lp" "kid False m5 x = rp" "rbe_color m5 x = c" "rbe_parent m5 x = par"
        using t n by (simp_all add: m5_def m4_def m3_def m1_def lp_def rp_def par_def)
      ultimately show ?thesis using tx(1) rp by simp
    qed
    show "kid e m5 y = kid e m1 y \<and> rbe_color m5 y = rbe_color m1 y \<and> (y \<noteq> addr (last gs) \<longrightarrow> rbe_parent m5 y = rbe_parent m1 y)"
      if "y \<in> set (path_nodes gs)" for y e
      using ng [OF that] by (simp add: rp [symmetric] m5_def m4_def m3_def)
  qed (use assms(3) n in auto)
  moreover have "tree_at m5 x child rx" using tx(3) n by (simp add: m5_def m4_def m3_def m1_def)
  moreover have "same_but (set (seq (plug ?P (nd True cx Leaf x rx)))) h m m5"
  proof -
    define A where "A = set (seq (plug ?P (nd True cx Leaf x rx)))"
    have "set (path_nodes fs) \<subseteq> A" "old \<in> A" "x \<in> A" "lp \<in> A" "rp \<in> A" "px \<in> A"
      using li ri px(1) by (auto simp: A_def set_seq_plug path_nodes_append)
    then show ?thesis unfolding A_def [symmetric] by (simp add: m5_def m4_def m3_def m1_def)
  qed
  ultimately show ?thesis by blast
qed

section \<open>The removal\<close>

lemma remove_two:
  assumes "focus m h fs par old (Node c l old r)" and "red_black (plug fs (Node c l old r))" and "l \<noteq> Leaf" and "r \<noteq> Leaf"
  shows "\<exists>m' u. RB_REMOVE h old m = Some m' \<and> is_tree m' h u \<and> red_black u \<and> seq u = fore fs @ seq l @ seq r @ aft fs
    \<and> same_but (set (seq (plug fs (Node c l old r)))) h m m'"
proof -
  let ?f = "Frame False c old l"
  have "focus m h (?f # fs) old (kid False m old) r"
    using focus_down [of m h fs par old False c r old l] assms(1) by (simp add: nd_def)
  from edge_ok [OF this assms(4), of True] obtain gs px cx x rx where E:
    "leftmost (kid False m old) m = Some x" "focus m h (gs @ ?f # fs) px x (nd True cx Leaf x rx)" "\<forall>f \<in> set gs. side f = True"
    "plug gs (nd True cx Leaf x rx) = r" "gs = [] \<longrightarrow> x = kid False m old" by (auto simp: edge_def)
  let ?P = "gs @ ?f # fs" and ?P' = "gs @ Frame False c x l # fs" and ?t = "nd True cx Leaf x rx"
  define child where "child = kid False m x"
  define par' where "par' = (if gs = [] then x else px)"
  have whole: "plug ?P ?t = plug fs (Node c l old r)" using E(4) by (simp add: plug_append nd_def)
  have S: "\<exists>m1. RB_REMOVE h old m = repair h child par' cx m1 \<and> path_at m1 h ?P' par' child
    \<and> tree_at m1 x child rx \<and> same_but (set (seq (plug ?P ?t))) h m m1"
  proof (cases "gs = []")
    case True
    then have "px = old" using focusD(1) [OF E(2)] by simp
    then show ?thesis using successor_child [of m h c old l fs x cx rx] E(2) assms(3) True by (simp add: par'_def child_def)
  next
    case False
    then show ?thesis using successor_below [OF E(2) assms(3) False E(3,1)] by (simp add: par'_def child_def)
  qed
  then obtain m1 where m1: "RB_REMOVE h old m = repair h child par' cx m1" "path_at m1 h ?P' par' child"
    "tree_at m1 x child rx" "same_but (set (seq (plug ?P ?t))) h m m1" by blast
  have rb: "rb_ok ?t" "path_ok ?P (bh ?t)" using assms(2) unfolding whole [symmetric] by (simp_all only: red_black_plug)
  have fits_colour: "fits_colour rx cx" "path_ok ?P' (if cx = RB_RED then 0 else 1)"
    using fits_colour_nd [OF rb(1)] rb(2) path_ok_addr [of gs False c old l fs _ x] by auto
  have d: "distinct (path_nodes ?P' @ seq rx)"
    using focusD(3-5) [OF E(2)] by (simp add: path_nodes_append) blast
  obtain m' where m': "repair h child par' cx m1 = Some m'" "removal_done h (fore ?P' @ seq rx @ aft ?P') m1 m'"
    using repair_ok [OF m1(2,3) d fits_colour] by blast
  have r: "seq r = x # seq rx @ aft gs"
    unfolding E(4) [symmetric] seq_plug fore_side(1) [OF E(3)] by (simp add: nd_def)
  have e: "fore ?P' @ seq rx @ aft ?P' = fore fs @ seq l @ seq r @ aft fs"
    unfolding fore_append r fore_side(1) [OF E(3)] by simp
  obtain u where u: "is_tree m' h u" "red_black u" "seq u = fore fs @ seq l @ seq r @ aft fs"
    "same_but (set (fore fs @ seq l @ seq r @ aft fs)) h m1 m'"
    using m'(2) [unfolded e removal_done_def] by (elim exE conjE) (rule that)
  have "set (fore fs @ seq l @ seq r @ aft fs) \<subseteq> set (seq (plug fs (Node c l old r)))" by (auto simp: seq_plug)
  then have "same_but (set (seq (plug fs (Node c l old r)))) h m1 m'" by (rule same_but_mono [OF u(4)])
  with m1(4) have "same_but (set (seq (plug fs (Node c l old r)))) h m m'" unfolding whole by (rule same_but_trans)
  then show ?thesis using m1(1) m'(1) u(1-3) by (intro exI [of _ m'] exI [of _ u]) simp
qed

lemma RB_REMOVE_ok:
  assumes "is_tree m h t" and "red_black t" and "x \<in> set (seq t)"
  shows "\<exists>m' u. RB_REMOVE h x m = Some m' \<and> is_tree m' h u \<and> red_black u \<and> seq u = remove1 x (seq t)
    \<and> same_but (set (seq t)) h m m'"
proof -
  obtain fs par c l r where F: "focus m h fs par x (Node c l x r)" "plug fs (Node c l x r) = t"
    using in_tree_focus [OF assms(1,3)] by blast
  have rb: "rb_ok (Node c l x r)" "path_ok fs (bh (Node c l x r))" using assms(2) F(2) red_black_plug by metis+
  have x: "rbe_parent m x = par" "rbe_color m x = c" "tree_at m x (kid True m x) l" "tree_at m x (kid False m x) r"
    using focusD(2) [OF F(1)] by (auto simp: kid_def)
  have "x \<notin> set (fore fs)" "x \<notin> set (seq l)" "set (seq t) = insert x (set (fore fs @ seq l @ seq r @ aft fs))"
    using focusD(4,5) [OF F(1)] F(2) by (auto simp: set_path_nodes seq_plug)
  then have e: "remove1 x (seq t) = fore fs @ seq l @ seq r @ aft fs"
      "set (seq t) = insert x (set (remove1 x (seq t)))"
    unfolding F(2) [symmetric] by (auto simp: seq_plug remove1_append)
  show ?thesis
  proof (cases "l = Leaf \<or> r = Leaf")
    case True
    define d where "d = (l = Leaf)"
    define s where "s = (if d then r else l)"
    have n: "Node c l x r = nd d c Leaf x s" using True by (auto simp: nd_def d_def s_def)
    have s: "seq l @ seq r = seq s" using True by (auto simp: s_def d_def)
    have "RB_REMOVE h x m = remove_finish h x (kid (\<not> d) m x) (kid (\<not> d) m x) par c m"
    proof (cases "l = Leaf")
      case True then show ?thesis using x by (simp add: RB_REMOVE_def Let_def to_kid d_def)
    next
      case False
      then have "kid True m x \<noteq> 0" "kid False m x = 0" using x(3,4) True by (cases "kid True m x = 0"; auto)+
      then show ?thesis using x False by (simp add: RB_REMOVE_def Let_def to_kid d_def)
    qed
    with remove_single [of m h fs par x d c s] F(1) rb show ?thesis
      unfolding n e(1) using s e by (metis append.assoc)
  next
    case False
    then show ?thesis using remove_two [OF F(1)] assms(2) unfolding F(2) e(1) by blast
  qed
qed

end
