(* ===== verification/Rb_Order.thy ===== *)
theory Rb_Order
  imports Rb_Extract
begin

text \<open>
  Walking through a red-black tree: the first and the last node, the neighbours of a node, the
  iteration and the search follow the sequence of the nodes.
\<close>

section \<open>First and last node\<close>

definition first_of :: "nat list \<Rightarrow> nat" where
  "first_of xs = (case xs of [] \<Rightarrow> 0 | x # _ \<Rightarrow> x)"

lemma first_of_simps [simp]: "first_of [] = 0" "first_of (x # xs) = x"
  by (simp_all add: first_of_def)

lemma first_of_nonzero: "0 \<notin> set xs \<Longrightarrow> first_of xs = 0 \<longleftrightarrow> xs = []"
  by (cases xs) auto

definition last_of :: "nat list \<Rightarrow> nat" where
  "last_of xs = (if xs = [] then 0 else last xs)"

lemma first_of_append: "first_of (xs @ ys) = (if xs = [] then first_of ys else first_of xs)"
  by (cases xs) auto

lemma last_of_append: "last_of (xs @ ys) = (if ys = [] then last_of xs else last_of ys)"
  by (simp add: last_of_def)

lemma seq_Nil [simp]: "seq t = [] \<longleftrightarrow> t = Leaf" "[] = seq t \<longleftrightarrow> t = Leaf"
  by (cases t; auto)+

definition ends :: "bool \<Rightarrow> nat list \<Rightarrow> nat" where
  "ends d xs = (if d then first_of xs else last_of xs)"

lemma tree_nonzero: "tree_at m par p t \<Longrightarrow> 0 \<notin> set (seq t)"
  by (induction t arbitrary: par p) auto

lemma edge_seq:
  assumes "focus m h fs par p t" and "t \<noteq> Leaf"
  shows "edge d p m = Some (ends d (seq t))"
proof -
  obtain gs c x r where E: "edge d p m = Some x" "\<forall>f \<in> set gs. side f = d" "plug gs (nd d c Leaf x r) = t"
    using edge_ok [OF assms] by blast
  show ?thesis
  proof (cases d)
    case True
    then have "seq t = x # seq r @ aft gs" unfolding E(3) [symmetric] seq_plug using fore_side(1) E(2) by (simp add: nd_def)
    then show ?thesis using E(1) True by (simp add: ends_def)
  next
    case False
    then have "seq t = fore gs @ seq r @ [x]" unfolding E(3) [symmetric] seq_plug using fore_side(2) E(2) by (simp add: nd_def)
    then show ?thesis using E(1) False by (simp add: ends_def last_of_def)
  qed
qed

lemma RBTree_Minimum_ok:
  assumes "is_tree m h t"
  shows "RBTree_Minimum h m = Some (first_of (seq t))" and "RBTree_Maximum h m = Some (last_of (seq t))"
proof -
  have r: "rbh_root m h = 0 \<longleftrightarrow> t = Leaf" using assms by (cases t) (auto simp: is_tree_def)
  have e: "edge d (rbh_root m h) m = Some (ends d (seq t))" if "t \<noteq> Leaf" for d
    using edge_seq assms that by (auto simp: is_tree_root)
  show "RBTree_Minimum h m = Some (first_of (seq t))" using e [of True] r
    by (cases "t = Leaf") (simp_all add: RBTree_Minimum_def edge_def ends_def)
  show "RBTree_Maximum h m = Some (last_of (seq t))" using e [of False] r
    by (cases "t = Leaf") (simp_all add: RBTree_Maximum_def edge_def ends_def last_of_def)
qed

section \<open>Neighbours\<close>

definition climb :: "bool \<Rightarrow> nat \<Rightarrow> rb_mem \<Rightarrow> nat option" where
  "climb d = (if d then climb_right else climb_left)"

lemma climb_simps: "climb d elm m =
  (if rbe_parent m elm \<noteq> 0 \<and> elm = kid (\<not> d) m (rbe_parent m elm) then climb d (rbe_parent m elm) m else Some (rbe_parent m elm))"
  by (cases d) (simp_all add: climb_def kid_def climb_right.simps [of elm] climb_left.simps [of elm])

text \<open>The nearest node outside of the subtree on the side \<open>d\<close>.\<close>

fun nearest :: "bool \<Rightarrow> frame list \<Rightarrow> nat" where
  "nearest d [] = 0"
| "nearest d (Frame e c a s # fs) = (if e = d then a else nearest d fs)"

lemma nearest_seq: "nearest True fs = first_of (aft fs)" "nearest False fs = last_of (fore fs)"
  by (induction fs rule: fore.induct) (auto simp: last_of_def)

lemma kid_side:
  assumes "focus m h (Frame e c a s # fs) a p t" and "p \<noteq> 0"
  shows "kid e m a = p" and "kid (\<not> e) m a \<noteq> p"
proof -
  show "kid e m a = p" using focusD(1) [OF assms(1)] by simp
  have "tree_at m a (kid (\<not> e) m a) s" using focusD(1) [OF assms(1)] by simp
  moreover have "p \<in> set (seq t)" using tree_at_in [OF focusD(2) [OF assms(1)] assms(2)] .
  then have "p \<notin> set (seq s)" using focusD(5) [OF assms(1)] by auto
  ultimately show "kid (\<not> e) m a \<noteq> p" using tree_at_in assms(2) by metis
qed

lemma climb_ok:
  assumes "focus m h fs par p t" and "p \<noteq> 0"
  shows "climb d p m = Some (nearest d fs)"
  using assms
proof (induction fs arbitrary: par p t rule: path_nodes.induct)
  case 1
  then have "rbe_parent m p = 0" using tree_at_parent focusD(2) by (fastforce simp: focus_def)
  then show ?case by (subst climb_simps) simp
next
  case (2 e c a s fs)
  have a: "par = a" "a \<noteq> 0" using focusD(1) [OF 2(2)] by auto
  have p: "rbe_parent m p = a" using tree_at_parent [OF focusD(2) [OF 2(2)] 2(3)] a by simp
  note K = kid_side [OF 2(2) [unfolded a(1)] 2(3)]
  show ?case
  proof (cases "e = d")
    case True
    then show ?thesis using K p by (subst climb_simps) auto
  next
    case False
    then have "kid (\<not> d) m a = p" using K(1) by (cases d; cases e) auto
    moreover have "climb d a m = Some (nearest d fs)" using 2(1) [of "rbe_parent m a" a "nd e c t a s"] 2(2) a by (simp add: focus_Frame)
    ultimately show ?thesis using p a False by (subst climb_simps) auto
  qed
qed

definition neighbour :: "bool \<Rightarrow> nat \<Rightarrow> rb_mem \<Rightarrow> nat option" where
  "neighbour d = (if d then RB_NEXT else RB_PREV)"

lemma neighbour_simps: "neighbour d elm m =
  (if elm = 0 then None
   else if kid (\<not> d) m elm \<noteq> 0 then edge d (kid (\<not> d) m elm) m
   else if rbe_parent m elm \<noteq> 0 \<and> elm = kid d m (rbe_parent m elm) then Some (rbe_parent m elm)
   else climb d elm m)"
  by (cases d) (simp_all add: neighbour_def RB_NEXT_def RB_PREV_def edge_def climb_def kid_def)

lemma neighbour_ok:
  assumes "focus m h fs par x (nd (\<not> d) c s x u)"
  shows "neighbour d x m = Some (if s = Leaf then nearest d fs else ends d (seq s))"
proof -
  have t: "x \<noteq> 0" "tree_at m x (kid (\<not> d) m x) s" "rbe_parent m x = par" using focusD(2) [OF assms] by auto
  show ?thesis
  proof (cases "s = Leaf")
    case False
    then have "kid (\<not> d) m x \<noteq> 0" using t(2) by (cases "kid (\<not> d) m x = 0") auto
    moreover have "focus m h (Frame (\<not> d) c x u # fs) x (kid (\<not> d) m x) s" using focus_down assms by blast
    ultimately show ?thesis using edge_seq False t(1) by (subst neighbour_simps) auto
  next
    case True
    then have k: "kid (\<not> d) m x = 0" using t(2) by simp
    have "par = nearest d fs" if "par \<noteq> 0" "x = kid d m par"
    proof (cases fs rule: path_nodes.cases)
      case 1 then show ?thesis using that focusD(1) [OF assms] by simp
    next
      case (2 e c' a s' gs)
      then have "par = a" using focusD(1) [OF assms] by simp
      then show ?thesis using kid_side [of m h e c' a s' gs x] assms that t(1) 2 by (cases e; cases d) auto
    qed
    then show ?thesis using k True t(1,3) climb_ok [OF assms t(1)] by (subst neighbour_simps) auto
  qed
qed

lemma RBTree_Successor_ok:
  assumes "is_tree m h t" and "seq t = xs @ x # ys"
  shows "RBTree_Successor x m = Some (first_of ys)" and "RBTree_Predecessor x m = Some (last_of xs)"
proof -
  have "x \<in> set (seq t)" using assms(2) by simp
  then obtain fs par c l r where F: "focus m h fs par x (Node c l x r)" "plug fs (Node c l x r) = t"
    using in_tree_focus [OF assms(1)] by blast
  have d: "distinct (xs @ x # ys)" using assms by (simp add: is_tree_def)
  have "(fore fs @ seq l) @ x # (seq r @ aft fs) = xs @ x # ys" using F(2) assms(2) by (auto simp: seq_plug)
  then have e: "xs = fore fs @ seq l" "ys = seq r @ aft fs" using d
    by (metis append_Cons_eq_iff distinct_append not_distinct_conv_prefix distinct.simps(2) Int_iff empty_iff list.set_intros(1))+
  have N: "neighbour True x m = Some (if r = Leaf then nearest True fs else ends True (seq r))"
      "neighbour False x m = Some (if l = Leaf then nearest False fs else ends False (seq l))"
    using neighbour_ok [of m h fs par x True c r l] neighbour_ok [of m h fs par x False c l r] F(1) by (simp_all add: nd_def)
  show "RBTree_Successor x m = Some (first_of ys)"
    using N(1) by (simp add: neighbour_def RBTree_Successor_def nearest_seq ends_def e first_of_append split: if_splits)
  show "RBTree_Predecessor x m = Some (last_of xs)"
    using N(2) by (simp add: neighbour_def RBTree_Predecessor_def nearest_seq ends_def e last_of_append split: if_splits)
qed

section \<open>Iteration and search\<close>

text \<open>The visitor is called for the nodes of a sequence until it asks to stop.\<close>

fun visit_nodes :: "(nat \<Rightarrow> 'a \<Rightarrow> bool \<times> 'a) \<Rightarrow> nat list \<Rightarrow> 'a \<Rightarrow> 'a" where
  "visit_nodes v [] a = a"
| "visit_nodes v (x # xs) a = (if fst (v x a) then snd (v x a) else visit_nodes v xs (snd (v x a)))"

lemma iterate_ok:
  assumes "is_tree m h t" and "seq t = xs @ ys"
  shows "iterate v (first_of ys) a m = Some (visit_nodes v ys a)"
  using assms(2)
proof (induction ys arbitrary: xs a)
  case Nil
  then show ?case by (subst iterate.simps) simp
next
  case (Cons y ys)
  have "y \<noteq> 0" using tree_nonzero assms(1) Cons.prems by (fastforce simp: is_tree_def)
  moreover have "RBTree_Successor y m = Some (first_of ys)" using RBTree_Successor_ok(1) [OF assms(1) Cons.prems] .
  moreover have "iterate v (first_of ys) a m = Some (visit_nodes v ys a)" for a using Cons.IH [of "xs @ [y]"] Cons.prems by simp
  ultimately show ?case by (subst iterate.simps) (simp add: Let_def)
qed

lemma RBTree_Iterate_ok: "is_tree m h t \<Longrightarrow> RBTree_Iterate h v a m = Some (visit_nodes v (seq t) a)"
  using iterate_ok [of m h t "[]" "seq t"] RBTree_Minimum_ok(1) by (simp add: RBTree_Iterate_def)

text \<open>The order that a search relies on: behind a node that is greater than the key no node is equal
  to it, and behind an equal one all are equal or greater.\<close>

definition searchable :: "(nat \<Rightarrow> bool) \<Rightarrow> (nat \<Rightarrow> bool) \<Rightarrow> nat list \<Rightarrow> bool" where
  "searchable eq lt xs \<longleftrightarrow> sorted_wrt (\<lambda>y z. (lt y \<longrightarrow> \<not> eq z) \<and> (eq y \<longrightarrow> eq z \<or> lt z)) xs"

lemma find_loop_ok:
  assumes "tree_at m par p t" and "searchable eq lt (seq t)"
  shows "\<exists>z. find_loop eq lt p m = Some z \<and> (if \<exists>y \<in> set (seq t). eq y then z \<in> set (seq t) \<and> eq z else z = 0)"
  using assms
proof (induction t arbitrary: par p)
  case Leaf
  then show ?case by (subst find_loop.simps) simp
next
  case (Node c l a r)
  have t: "p = a" "a \<noteq> 0" "tree_at m a (rbe_left m a) l" "tree_at m a (rbe_right m a) r" using Node.prems(1) by auto
  have s: "searchable eq lt (seq l)" "searchable eq lt (seq r)" "lt a \<Longrightarrow> \<forall>z \<in> set (seq r). \<not> eq z"
    "\<forall>y \<in> set (seq l). eq y \<longrightarrow> eq a \<or> lt a" using Node.prems(2) by (auto simp: searchable_def sorted_wrt_append)
  show ?case
  proof (cases "eq a")
    case True then show ?thesis using t by (subst find_loop.simps) auto
  next
    case False
    show ?thesis
    proof (cases "lt a")
      case True
      obtain z where z: "find_loop eq lt (rbe_left m a) m = Some z"
        "if \<exists>y \<in> set (seq l). eq y then z \<in> set (seq l) \<and> eq z else z = 0" using Node.IH(1) [OF t(3) s(1)] by blast
      have "find_loop eq lt p m = Some z" using z(1) t(1,2) False True by (subst find_loop.simps) simp
      then show ?thesis using z(2) False s(3) True by (intro exI [of _ z]) (auto split: if_splits)
    next
      case l: False
      obtain z where z: "find_loop eq lt (rbe_right m a) m = Some z"
        "if \<exists>y \<in> set (seq r). eq y then z \<in> set (seq r) \<and> eq z else z = 0" using Node.IH(2) [OF t(4) s(2)] by blast
      have "find_loop eq lt p m = Some z" using z(1) t(1,2) False l by (subst find_loop.simps) simp
      then show ?thesis using z(2) False s(4) l by (intro exI [of _ z]) (auto split: if_splits)
    qed
  qed
qed

section \<open>Replacement of a node\<close>

lemma Replace_node_graft:
  assumes "path_at m h fs (rbe_parent m v) v" and "v \<noteq> 0" and "v \<notin> set (path_nodes fs)"
  shows "RBTree_Replace_node h v x m =
    (let m = graft h fs x m;
         m = (if kid True m v \<noteq> 0 then set_parent (kid True m v) x m else m);
         m = (if kid False m v \<noteq> 0 then set_parent (kid False m v) x m else m)
     in copy_fields x v m)"
proof -
  have "RBTree_Replace_node h v x m =
    (let m = RB_SWAP_CHILD h v x m;
         m = (if kid True m v \<noteq> 0 then set_parent (kid True m v) x m else m);
         m = (if kid False m v \<noteq> 0 then set_parent (kid False m v) x m else m)
     in copy_fields x v m)"
    by (simp add: RBTree_Replace_node_def RB_SWAP_CHILD_def kid_def Let_def)
  then show ?thesis unfolding swap_child_graft [OF assms] .
qed

lemma RBTree_Replace_node_ok:
  assumes "is_tree m h t" and "red_black t" and "v \<in> set (seq t)" and "x \<notin> set (seq t)" and "x \<noteq> 0"
  shows "\<exists>u. is_tree (RBTree_Replace_node h v x m) h u \<and> red_black u \<and> seq u = map (\<lambda>y. if y = v then x else y) (seq t)"
proof -
  obtain fs par c l r where F: "focus m h fs par v (Node c l v r)" "plug fs (Node c l v r) = t"
    using in_tree_focus [OF assms(1,3)] by blast
  have v: "v \<noteq> 0" "rbe_parent m v = par" "rbe_color m v = c" "tree_at m v (kid True m v) l" "tree_at m v (kid False m v) r"
    using focusD(2) [OF F(1)] by (auto simp: kid_def)
  have D: "distinct (fore fs @ seq l @ v # seq r @ aft fs)"
    using assms(1) unfolding is_tree_def F(2) [symmetric] seq_plug by simp
  have p: "set (path_nodes fs) = set (fore fs) \<union> set (aft fs)" by (rule set_path_nodes)
  have vp: "v \<notin> set (path_nodes fs)" using D p by auto
  have xp: "x \<notin> set (path_nodes fs)" "x \<notin> set (seq l)" "x \<notin> set (seq r)" "x \<noteq> v"
    using assms(3,4) unfolding F(2) [symmetric] set_seq_plug by auto
  define m1 where "m1 = graft h fs x m"
  define m2 where "m2 = (if kid True m v \<noteq> 0 then set_parent (kid True m v) x m1 else m1)"
  define m3 where "m3 = (if kid False m v \<noteq> 0 then set_parent (kid False m v) x m2 else m2)"
  have k: "kid d m1 v = kid d m v" "kid d m2 v = kid d m v" "kid d m3 v = kid d m v" for d
    using vp by (simp_all add: m1_def m2_def m3_def)
  have e: "RBTree_Replace_node h v x m = copy_fields x v m3"
    using Replace_node_graft [of m h fs v x] focusD(1) [OF F(1)] v vp k by (simp add: m1_def m2_def m3_def Let_def)
  have in_l: "kid True m v \<noteq> 0 \<Longrightarrow> kid True m v \<in> set (seq l)" and in_r: "kid False m v \<noteq> 0 \<Longrightarrow> kid False m v \<in> set (seq r)"
    using tree_at_in v by blast+
  have d: "set (seq l) \<inter> set (path_nodes fs) = {}" "set (seq r) \<inter> set (path_nodes fs) = {}" "set (seq l) \<inter> set (seq r) = {}"
    "distinct (seq l)" "distinct (seq r)" "v \<notin> set (seq l)" "v \<notin> set (seq r)" using D p by auto
  have out: "kid True m v \<noteq> 0 \<Longrightarrow> kid True m v \<notin> set (seq r) \<and> kid True m v \<notin> set (path_nodes fs) \<and> kid True m v \<noteq> v"
    "kid False m v \<noteq> 0 \<Longrightarrow> kid False m v \<notin> set (seq l) \<and> kid False m v \<notin> set (path_nodes fs) \<and> kid False m v \<noteq> v"
    using in_l in_r d by (metis IntI empty_iff)+
  have vk: "v \<noteq> kid True m v" "v \<noteq> kid False m v" using out v(1) by metis+
  have L: "tree_at m2 x (kid True m v) l"
    unfolding m2_def by (rule tree_at_reparent) (use v d in \<open>simp_all add: m1_def\<close>)
  have r2: "tree_at m2 v (kid False m v) r" using v(5) d(2) out(1) by (simp add: m2_def m1_def)
  have R: "tree_at m3 x (kid False m v) r" unfolding m3_def by (rule tree_at_reparent) (use r2 d in simp_all)
  have L3: "tree_at m3 x (kid True m v) l" using L out by (simp add: m3_def)
  have "path_at m1 h fs par x" unfolding m1_def using path_at_graft focusD(1,3) [OF F(1)] by blast
  then have P: "path_at m3 h fs par x" using out by (simp add: m3_def m2_def)
  have f: "rbe_parent m3 v = par" "rbe_color m3 v = c" using v(2,3) vk by (simp_all add: m3_def m2_def m1_def)
  have "tree_at (copy_fields x v m3) par x (nd True c l x r)"
    using L3 R f assms(5) xp k by simp
  moreover have "path_at (copy_fields x v m3) h fs par x" using P xp by simp
  moreover have "distinct (path_nodes fs @ seq (Node c l x r))" using focusD(3) [OF F(1)] D p xp d by auto
  ultimately have "focus (RBTree_Replace_node h v x m) h fs par x (Node c l x r)" unfolding focus_def e by (simp add: nd_def)
  then have "is_tree (RBTree_Replace_node h v x m) h (plug fs (Node c l x r))" by (rule focus_is_tree)
  moreover have "red_black (plug fs (Node c l x r))" using assms(2) F(2) red_black_plug by fastforce
  moreover have "seq (plug fs (Node c l x r)) = map (\<lambda>y. if y = v then x else y) (seq t)"
    unfolding F(2) [symmetric] seq_plug using D by (auto simp: map_idI intro!: map_idI [symmetric])
  ultimately show ?thesis by blast
qed

section \<open>Postorder\<close>

fun post :: "rb \<Rightarrow> nat list" where
  "post Leaf = []"
| "post (Node c l a r) = post l @ post r @ [a]"

fun post_after :: "frame list \<Rightarrow> nat list" where
  "post_after [] = []"
| "post_after (Frame d c a s # fs) = (if d then post s else []) @ a # post_after fs"

lemma post_Nil [simp]: "post t = [] \<longleftrightarrow> t = Leaf"
  by (cases t) auto

lemma post_plug: "\<exists>xs. post (plug fs t) = xs @ post t @ post_after fs"
proof (induction fs t rule: plug.induct)
  case (2 d c a s fs t)
  then obtain xs where "post (plug fs (nd d c t a s)) = xs @ post (nd d c t a s) @ post_after fs" by blast
  then show ?case by (cases d) (auto simp: nd_def intro: exI [of _ "xs"] exI [of _ "xs @ post s"])
qed simp

lemma dive_left_ok: "tree_at m par p t \<Longrightarrow> t \<noteq> Leaf \<Longrightarrow> dive_left p m = Some (first_of (post t))"
proof (induction t arbitrary: par p)
  case (Node c l a r)
  have t: "p = a" "tree_at m a (rbe_left m a) l" "tree_at m a (rbe_right m a) r" using Node.prems(1) by auto
  have z: "rbe_left m a = 0 \<longleftrightarrow> l = Leaf" "rbe_right m a = 0 \<longleftrightarrow> r = Leaf" using t(2,3) by (metis tree_at_0 tree_at.simps(1))+
  show ?case using Node.IH(1) [OF t(2)] Node.IH(2) [OF t(3)] z
    by (subst dive_left.simps) (auto simp: t(1) first_of_append)
qed simp

lemma Postorder_next_focus:
  assumes "focus m h fs par x t" and "x \<noteq> 0"
  shows "RBTree_Postorder_next x m = Some (first_of (post_after fs))"
proof (cases fs)
  case Nil
  then have "par = 0" using focusD(1) [OF assms(1)] by simp
  then show ?thesis using tree_at_parent [OF focusD(2) [OF assms(1)] assms(2)] Nil by (simp add: RBTree_Postorder_next_def)
next
  case (Cons f gs)
  obtain d c a s where f: "f = Frame d c a s" by (cases f)
  have a: "par = a" "a \<noteq> 0" "tree_at m a (kid (\<not> d) m a) s" using focusD(1) [OF assms(1)] by (auto simp: Cons f)
  have p: "rbe_parent m x = a" using tree_at_parent [OF focusD(2) [OF assms(1)] assms(2)] a(1) by simp
  have K: "kid d m a = x" "kid (\<not> d) m a \<noteq> x" using kid_side [of m h d c a s gs x t] assms by (simp_all add: Cons f a(1))
  have z: "kid (\<not> d) m a = 0 \<longleftrightarrow> s = Leaf" using a(3) by (metis tree_at_0 tree_at.simps(1))
  show ?thesis using p a(2) K z dive_left_ok [OF a(3)]
    by (cases d) (auto simp: RBTree_Postorder_next_def Let_def Cons f kid_def first_of_append)
qed

lemma RBTree_Postorder_ok:
  assumes "is_tree m h t"
  shows "RBTree_Postorder_first h m = Some (first_of (post t))"
    and "post t = xs @ x # ys \<Longrightarrow> RBTree_Postorder_next x m = Some (first_of ys)"
proof -
  have r: "tree_at m 0 (rbh_root m h) t" using assms by (simp add: is_tree_def)
  show "RBTree_Postorder_first h m = Some (first_of (post t))"
    using dive_left_ok [OF r] r by (cases t) (auto simp: RBTree_Postorder_first_def)
  have m: "set (post t) = set (seq t)" "distinct (post t) \<longleftrightarrow> distinct (seq t)" for t
  proof -
    show n: "set (post t) = set (seq t)" for t by (induction t) auto
    show "distinct (post t) \<longleftrightarrow> distinct (seq t)" by (induction t) (auto simp: n)
  qed
  assume e: "post t = xs @ x # ys"
  then have "x \<in> set (seq t)" using m(1) [of t] by auto
  then obtain fs par c l r where F: "focus m h fs par x (Node c l x r)" "plug fs (Node c l x r) = t"
    using in_tree_focus [OF assms] by blast
  obtain zs where z: "post t = (zs @ post l @ post r) @ x # post_after fs" using post_plug [of fs "Node c l x r"] F(2) by auto
  have "distinct (post t)" using m(2) [of t] assms by (simp add: is_tree_def)
  then have "x \<notin> set xs" "x \<notin> set ys" using e by auto
  then have "ys = post_after fs" using z e append_Cons_eq_iff [of x xs ys] by metis
  moreover have "x \<noteq> 0" using focusD(2) [OF F(1)] by simp
  ultimately show "RBTree_Postorder_next x m = Some (first_of ys)" using Postorder_next_focus [OF F(1)] by simp
qed

section \<open>Initialisation\<close>

lemma RBTree_Initialize_ok:
  "is_tree (RBTree_Initialize_empty h m) h Leaf"
  "x \<noteq> 0 \<Longrightarrow> is_tree (RBTree_Initialize_one h x m) h (Node RB_BLACK Leaf x Leaf)"
  by (simp_all add: is_tree_def RBTree_Initialize_empty_def RBTree_Initialize_one_def rb_setters)

section \<open>Height\<close>

fun height :: "rb \<Rightarrow> nat" where
  "height Leaf = 0"
| "height (Node c l a r) = Suc (max (height l) (height r))"

lemma height_bound:
  "rb_ok t \<Longrightarrow> height t \<le> 2 * bh t + (if red t then 1 else 0)" "rb_ok t \<Longrightarrow> 2 ^ bh t \<le> Suc (length (seq t))"
proof -
  show "height t \<le> 2 * bh t + (if red t then 1 else 0)" if "rb_ok t" using that
    by (induction t) (auto split: if_splits)
  show "2 ^ bh t \<le> Suc (length (seq t))" if "rb_ok t" using that
    by (induction t) auto
qed

lemma red_black_height:
  assumes "red_black t"
  shows "2 ^ (height t div 2) \<le> Suc (length (seq t))"
proof -
  have "height t div 2 \<le> bh t" using height_bound(1) [of t] assms by (simp add: red_black_def)
  then have "(2 :: nat) ^ (height t div 2) \<le> 2 ^ bh t" by simp
  also have "\<dots> \<le> Suc (length (seq t))" using height_bound(2) assms by (simp add: red_black_def)
  finally show ?thesis .
qed

end
