(* ===== verification/Rb_Client.thy ===== *)
theory Rb_Client
  imports Rb_Order
begin

text \<open>
  The contract of the red-black trees for their clients. A keyed collection is a list of keys and nodes
  in the order of the keys, nodes with equal keys in the order of their arrival; the locale
  \<open>keyed_collection\<close> states what insertion and removal do to this list and shows it for every sequence
  of requests. It is interpreted here for \<^verbatim>\<open>_RBTree_Insert_inline\<close> and \<^verbatim>\<open>_RBTree_Extract\<close>, and
  in the theory \<^verbatim>\<open>Watchdog\<close> for the watchdogs of a header.
\<close>

section \<open>Keyed collections\<close>

type_synonym 'k keyed = "('k \<times> nat) list"

datatype 'k keyed_request = Add 'k nat | Del nat

definition place :: "'k::linorder \<Rightarrow> nat \<Rightarrow> 'k keyed \<Rightarrow> 'k keyed" where
  "place k x xs = filter (\<lambda>p. fst p \<le> k) xs @ (k, x) # filter (\<lambda>p. k < fst p) xs"

definition displace :: "nat \<Rightarrow> 'k keyed \<Rightarrow> 'k keyed" where
  "displace x xs = filter (\<lambda>p. snd p \<noteq> x) xs"

lemma place_props [simp]:
  "set (place k x xs) = insert (k, x) (set xs)" "length (place k x xs) = Suc (length xs)"
  "sorted (map fst xs) \<Longrightarrow> sorted (map fst (place k x xs))"
  "distinct (map snd xs) \<Longrightarrow> x \<notin> snd ` set xs \<Longrightarrow> distinct (map snd (place k x xs))"
proof -
  show "set (place k x xs) = insert (k, x) (set xs)" by (auto simp: place_def)
  show "length (place k x xs) = Suc (length xs)"
    by (simp add: place_def sum_length_filter_compl [of "\<lambda>p. fst p \<le> k" xs, simplified not_le])
  show "sorted (map fst (place k x xs))" if "sorted (map fst xs)"
    using that by (auto simp: place_def sorted_append sorted_wrt_map sorted_wrt_filter)
  show "distinct (map snd (place k x xs))" if "distinct (map snd xs)" "x \<notin> snd ` set xs"
    using that by (auto simp: place_def distinct_map distinct_filter inj_on_def) (metis leD prod.inject snd_conv)
qed

lemma displace_props [simp]:
  "set (displace x xs) = {p \<in> set xs. snd p \<noteq> x}"
  "sorted (map fst xs) \<Longrightarrow> sorted (map fst (displace x xs))"
  "distinct (map snd xs) \<Longrightarrow> distinct (map snd (displace x xs))"
  by (auto simp: displace_def sorted_wrt_map sorted_wrt_filter distinct_map_filter)

fun serve :: "('k \<Rightarrow> nat \<Rightarrow> 'm \<Rightarrow> 'm option) \<Rightarrow> (nat \<Rightarrow> 'm \<Rightarrow> 'm option) \<Rightarrow> 'k keyed_request \<Rightarrow> 'm \<Rightarrow> 'm option" where
  "serve add del (Add k x) m = add k x m"
| "serve add del (Del x) m = del x m"

fun run_requests :: "('k \<Rightarrow> nat \<Rightarrow> 'm \<Rightarrow> 'm option) \<Rightarrow> (nat \<Rightarrow> 'm \<Rightarrow> 'm option) \<Rightarrow> 'k keyed_request list \<Rightarrow> 'm \<Rightarrow> 'm option" where
  "run_requests add del [] m = Some m"
| "run_requests add del (r # rs) m = serve add del r m \<bind> run_requests add del rs"

text \<open>The lists after the requests; \<open>None\<close> if a client inserts a node twice or removes one that is
  not there.\<close>

fun keyed_step :: "('k::linorder \<Rightarrow> nat \<Rightarrow> bool) \<Rightarrow> 'k keyed_request \<Rightarrow> 'k keyed \<Rightarrow> 'k keyed option" where
  "keyed_step fit (Add k x) xs = (if fit k x \<and> x \<noteq> 0 \<and> x \<notin> snd ` set xs then Some (place k x xs) else None)"
| "keyed_step fit (Del x) xs = (if x \<in> snd ` set xs then Some (displace x xs) else None)"

fun keyed_run :: "('k::linorder \<Rightarrow> nat \<Rightarrow> bool) \<Rightarrow> 'k keyed_request list \<Rightarrow> 'k keyed \<Rightarrow> 'k keyed option" where
  "keyed_run fit [] xs = Some xs"
| "keyed_run fit (r # rs) xs = keyed_step fit r xs \<bind> keyed_run fit rs"

locale keyed_collection =
  fixes holds :: "'m \<Rightarrow> ('k::linorder) keyed \<Rightarrow> bool"
    and add :: "'k \<Rightarrow> nat \<Rightarrow> 'm \<Rightarrow> 'm option"
    and del :: "nat \<Rightarrow> 'm \<Rightarrow> 'm option"
    and fit :: "'k \<Rightarrow> nat \<Rightarrow> bool"
    and first :: "'m \<Rightarrow> nat option"
  assumes holds_order: "holds m xs \<Longrightarrow> sorted (map fst xs) \<and> distinct (map snd xs)"
    and holds_first: "holds m xs \<Longrightarrow> first m = Some (first_of (map snd xs))"
    and add_places: "holds m xs \<Longrightarrow> fit k x \<Longrightarrow> x \<noteq> 0 \<Longrightarrow> x \<notin> snd ` set xs \<Longrightarrow> \<exists>m'. add k x m = Some m' \<and> holds m' (place k x xs)"
    and del_displaces: "holds m xs \<Longrightarrow> x \<in> snd ` set xs \<Longrightarrow> \<exists>m'. del x m = Some m' \<and> holds m' (displace x xs)"
begin

lemma serve_refines:
  assumes "holds m xs" and "keyed_step fit r xs = Some ys"
  shows "\<exists>m'. serve add del r m = Some m' \<and> holds m' ys"
  using assms by (cases r) (auto split: if_splits intro: add_places del_displaces)

lemma run_refines:
  assumes "holds m xs" and "keyed_run fit rs xs = Some ys"
  shows "\<exists>m'. run_requests add del rs m = Some m' \<and> holds m' ys"
  using assms
proof (induction rs arbitrary: m xs)
  case (Cons r rs)
  then obtain zs where z: "keyed_step fit r xs = Some zs" "keyed_run fit rs zs = Some ys" by (auto simp: bind_eq_Some_conv)
  then obtain m' where "serve add del r m = Some m'" "holds m' zs" using serve_refines Cons.prems(1) by blast
  then show ?case using Cons.IH z(2) by simp
qed simp

lemma first_is_minimal:
  assumes "holds m xs" and "xs \<noteq> []"
  shows "\<exists>x. first m = Some x \<and> (\<exists>k. (k, x) \<in> set xs \<and> (\<forall>p \<in> set xs. k \<le> fst p))"
proof -
  obtain k x ys where "xs = (k, x) # ys" using assms(2) by (cases xs) auto
  then show ?thesis using holds_order [OF assms(1)] holds_first [OF assms(1)] by auto
qed

end

section \<open>Red-black trees as keyed collections\<close>

definition rb_list :: "nat \<Rightarrow> rb_mem \<Rightarrow> nat list \<Rightarrow> bool" where
  "rb_list h m xs \<longleftrightarrow> (\<exists>t. is_tree m h t \<and> red_black t \<and> seq t = xs)"

lemma rb_list_distinct: "rb_list h m xs \<Longrightarrow> distinct xs \<and> 0 \<notin> set xs"
  using tree_nonzero by (auto simp: rb_list_def is_tree_def)

lemma rb_list_insert:
  assumes "rb_list h m xs" and "x \<notin> set xs" and "x \<noteq> 0" and "cuts lt xs"
  shows "\<exists>link par m'. descend lt r (Root_reference h) 0 v m = Some (link, par, if list_all lt xs then v else r)
    \<and> RBTree_Insert_color h x (RBTree_Add_child x par link m) = Some m'
    \<and> rb_list h m' (filter (\<lambda>y. \<not> lt y) xs @ x # filter lt xs) \<and> same_but (insert x (set xs)) h m m'"
proof -
  obtain t where t: "is_tree m h t" "red_black t" "seq t = xs" using assms(1) by (auto simp: rb_list_def)
  show ?thesis using insert_ok [OF t(1,2), of x lt r v] assms(2-) t(3) unfolding rb_list_def by metis
qed

lemma rb_list_extract:
  assumes "rb_list h m xs" and "x \<in> set xs"
  shows "\<exists>m'. RBTree_Extract h x m = Some m' \<and> rb_list h m' (remove1 x xs) \<and> same_but (set xs) h m m'"
proof -
  obtain t where t: "is_tree m h t" "red_black t" "seq t = xs" using assms(1) by (auto simp: rb_list_def)
  show ?thesis using RB_REMOVE_ok [OF t(1,2), of x] assms(2) t(3) unfolding rb_list_def RBTree_Extract_def by metis
qed

definition keyed_tree :: "(nat \<Rightarrow> 'k::linorder) \<Rightarrow> nat \<Rightarrow> rb_mem \<Rightarrow> 'k keyed \<Rightarrow> bool" where
  "keyed_tree key h m xs \<longleftrightarrow> rb_list h m (map snd xs) \<and> sorted (map fst xs) \<and> (\<forall>p \<in> set xs. fst p = key (snd p))"

text \<open>Insertion with the order of the keys: behind all nodes with an equal key.\<close>

definition insert_keyed :: "(nat \<Rightarrow> 'k::linorder) \<Rightarrow> nat \<Rightarrow> 'k \<Rightarrow> nat \<Rightarrow> rb_mem \<Rightarrow> rb_mem option" where
  "insert_keyed key h k x m = map_option snd (RBTree_Insert_inline h x (\<lambda>y. k < key y) m)"

lemma keyed_cuts:
  assumes "sorted (map fst xs)" and "\<forall>p \<in> set xs. fst p = key (snd p)"
  shows "cuts (\<lambda>y. k < key y) (map snd xs)"
    and "filter (\<lambda>y. \<not> k < key y) (map snd xs) = map snd (filter (\<lambda>p. fst p \<le> k) xs)"
    and "filter (\<lambda>y. k < key y) (map snd xs) = map snd (filter (\<lambda>p. k < fst p) xs)"
proof -
  show "cuts (\<lambda>y. k < key y) (map snd xs)" using assms
    by (induction xs) (auto simp: cuts_def intro: less_le_trans)
  show "filter (\<lambda>y. \<not> k < key y) (map snd xs) = map snd (filter (\<lambda>p. fst p \<le> k) xs)"
    "filter (\<lambda>y. k < key y) (map snd xs) = map snd (filter (\<lambda>p. k < fst p) xs)"
    using assms(2) by (induction xs) auto
qed

lemma displace_remove1: "distinct (map snd xs) \<Longrightarrow> map snd (displace x xs) = remove1 x (map snd xs)"
  by (simp add: displace_def distinct_remove1_removeAll removeAll_filter_not_eq filter_map comp_def) (metis)

lemma keyed_tree_add:
  assumes "keyed_tree key h m xs" and "key x = k" and "x \<noteq> 0" and "x \<notin> snd ` set xs"
  shows "\<exists>m'. insert_keyed key h k x m = Some m' \<and> keyed_tree key h m' (place k x xs)"
proof -
  have s: "sorted (map fst xs)" "\<forall>p \<in> set xs. fst p = key (snd p)" using assms(1) by (auto simp: keyed_tree_def)
  have "rb_list h m (map snd xs)" "x \<notin> set (map snd xs)" using assms(1,4) by (auto simp: keyed_tree_def)
  from rb_list_insert [OF this assms(3) keyed_cuts(1) [OF s, of k], of False True]
  obtain link par m' where d: "descend (\<lambda>y. k < key y) False (Root_reference h) 0 True m
      = Some (link, par, if list_all (\<lambda>y. k < key y) (map snd xs) then True else False)"
    "RBTree_Insert_color h x (RBTree_Add_child x par link m) = Some m'"
    "rb_list h m' (filter (\<lambda>y. \<not> k < key y) (map snd xs) @ x # filter (\<lambda>y. k < key y) (map snd xs))" by blast
  have "insert_keyed key h k x m = Some m'" using d(1,2) by (simp add: insert_keyed_def RBTree_Insert_inline_def)
  moreover have "rb_list h m' (map snd (place k x xs))" using d(3) unfolding keyed_cuts(2,3) [OF s] by (simp add: place_def)
  ultimately show ?thesis using s assms(2) by (simp add: keyed_tree_def)
qed

interpretation rbt: keyed_collection "keyed_tree key h" "insert_keyed key h" "RBTree_Extract h" "\<lambda>k x. key x = k" "RBTree_Minimum h"
proof
  fix m and xs :: "'a keyed" and k x
  assume H: "keyed_tree key h m xs"
  show "sorted (map fst xs) \<and> distinct (map snd xs)" using H rb_list_distinct by (auto simp: keyed_tree_def)
  show "RBTree_Minimum h m = Some (first_of (map snd xs))" using H RBTree_Minimum_ok(1) by (auto simp: keyed_tree_def rb_list_def)
  show "\<exists>m'. insert_keyed key h k x m = Some m' \<and> keyed_tree key h m' (place k x xs)"
    if "key x = k" "x \<noteq> 0" "x \<notin> snd ` set xs" using keyed_tree_add H that by blast
  show "\<exists>m'. RBTree_Extract h x m = Some m' \<and> keyed_tree key h m' (displace x xs)" if x: "x \<in> snd ` set xs"
  proof -
    have r: "rb_list h m (map snd xs)" "x \<in> set (map snd xs)" using H x by (auto simp: keyed_tree_def)
    then obtain m' where "RBTree_Extract h x m = Some m'" "rb_list h m' (remove1 x (map snd xs))" using rb_list_extract by blast
    then show ?thesis using H displace_remove1 [of xs x] rb_list_distinct [OF r(1)] by (auto simp: keyed_tree_def)
  qed
qed

section \<open>Appending and prepending\<close>

lemma RBTree_Append_ok:
  assumes "rb_list h m xs" and "x \<notin> set xs" and "x \<noteq> 0"
  shows "\<exists>m'. RBTree_Append h x m = Some m' \<and> rb_list h m' (xs @ [x])"
    and "\<exists>m'. RBTree_Prepend h x m = Some m' \<and> rb_list h m' (x # xs)"
proof -
  have c: "cuts (\<lambda>_. b) xs" for b by (simp add: cuts_def)
  show "\<exists>m'. RBTree_Append h x m = Some m' \<and> rb_list h m' (xs @ [x])"
    using rb_list_insert [OF assms c [of False], of "()" "()"] by (auto simp: RBTree_Append_def)
  show "\<exists>m'. RBTree_Prepend h x m = Some m' \<and> rb_list h m' (x # xs)"
    using rb_list_insert [OF assms c [of True], of "()" "()"] by (auto simp: RBTree_Prepend_def)
qed

section \<open>Properties of the trees\<close>

lemma keyed_tree_empty: "keyed_tree key h (RBTree_Initialize_empty h m) []"
  using RBTree_Initialize_ok(1) by (auto simp: keyed_tree_def rb_list_def red_black_def intro!: exI [of _ Leaf])

lemma keyed_searchable:
  assumes "sorted (map fst xs)" and "\<forall>p \<in> set xs. fst p = key (snd p)"
  shows "searchable (\<lambda>y. key y = k) (\<lambda>y. k < key y) (map snd xs)"
  using assms by (induction xs) (auto simp: searchable_def intro: order.not_eq_order_implies_strict)

text \<open>C16. Red-black trees refine sorted lists: from the initialisation on, every sequence of insertions by
  key and extractions of nodes returns; the nodes form a red-black tree whose sequence is the list of the
  specification, nodes with equal keys in the order of their insertion; the minimum is its first node; and
  the height is at most about twice the logarithm of the number of nodes.\<close>

theorem rbtree_refines_sorted_list:
  assumes "keyed_run (\<lambda>k x. key x = k) rs [] = Some xs"
  shows "\<exists>m' t. run_requests (insert_keyed key h) (RBTree_Extract h) rs (RBTree_Initialize_empty h m) = Some m'
    \<and> is_tree m' h t \<and> red_black t \<and> seq t = map snd xs \<and> sorted (map fst xs)
    \<and> RBTree_Minimum h m' = Some (first_of (map snd xs)) \<and> 2 ^ (height t div 2) \<le> Suc (length xs)"
proof -
  obtain m' where m': "run_requests (insert_keyed key h) (RBTree_Extract h) rs (RBTree_Initialize_empty h m) = Some m'"
    "keyed_tree key h m' xs" using rbt.run_refines [OF keyed_tree_empty assms] by blast
  then obtain t where t: "is_tree m' h t" "red_black t" "seq t = map snd xs" by (auto simp: keyed_tree_def rb_list_def)
  then show ?thesis using m' rbt.holds_first [OF m'(2)] rbt.holds_order [OF m'(2)] red_black_height [OF t(2)] by auto
qed

abbreviation no_nodes :: rb_mem where
  "no_nodes \<equiv> \<lparr>rbe_left = \<lambda>_. 0, rbe_right = \<lambda>_. 0, rbe_parent = \<lambda>_. 0, rbe_color = \<lambda>_. 0, rbh_root = \<lambda>_. 0\<rparr>"

theorem rbtree_refines_sorted_list_witness:
  "\<exists>m' t. run_requests (insert_keyed (\<lambda>x. x mod 4) 1) (RBTree_Extract 1)
        [Add 3 7, Add 1 5, Add 2 6, Add 1 9, Add 0 8, Del 6, Add 1 13] (RBTree_Initialize_empty 1 no_nodes) = Some m'
    \<and> is_tree m' 1 t \<and> red_black t \<and> seq t = [8, 5, 9, 13, 7]"
proof -
  have r: "keyed_run (\<lambda>k x. x mod 4 = k) [Add 3 7, Add 1 5, Add 2 6, Add 1 9, Add 0 8, Del 6, Add 1 13] []
    = Some [(0 :: nat, 8), (1, 5), (1, 9), (1, 13), (3, 7)]" by (simp add: place_def displace_def)
  show ?thesis using rbtree_refines_sorted_list [OF r, of 1 no_nodes] unfolding list.map snd_conv
    by (elim exE conjE) (intro exI conjI; assumption)
qed

text \<open>C17. Walking through a tree that was built by insertions and extractions: the iteration visits the nodes in
  the order of the list and stops where the visitor says; a search finds a node with the key exactly if
  there is one; the neighbours of a node are its neighbours in the list.\<close>

theorem rbtree_walks:
  assumes "keyed_run (\<lambda>k x. key x = k) rs [] = Some xs"
  shows "\<exists>m'. run_requests (insert_keyed key h) (RBTree_Extract h) rs (RBTree_Initialize_empty h m) = Some m'
    \<and> (\<forall>v (a :: 'a). RBTree_Iterate h v a m' = Some (visit_nodes v (map snd xs) a))
    \<and> (\<forall>k. \<exists>z. RBTree_Find_inline h (\<lambda>y. key y = k) (\<lambda>y. k < key y) m' = Some z
         \<and> (if k \<in> fst ` set xs then (k, z) \<in> set xs else z = 0))
    \<and> (\<forall>ys x zs. map snd xs = ys @ x # zs \<longrightarrow>
         RBTree_Successor x m' = Some (first_of zs) \<and> RBTree_Predecessor x m' = Some (last_of ys))"
proof -
  obtain m' where m': "run_requests (insert_keyed key h) (RBTree_Extract h) rs (RBTree_Initialize_empty h m) = Some m'"
    "keyed_tree key h m' xs" using rbt.run_refines [OF keyed_tree_empty assms] by blast
  then obtain t where t: "is_tree m' h t" "red_black t" "seq t = map snd xs" by (auto simp: keyed_tree_def rb_list_def)
  have s: "sorted (map fst xs)" "\<forall>p \<in> set xs. fst p = key (snd p)" using m'(2) by (auto simp: keyed_tree_def)
  have F: "\<exists>z. RBTree_Find_inline h (\<lambda>y. key y = k) (\<lambda>y. k < key y) m' = Some z
      \<and> (if k \<in> fst ` set xs then (k, z) \<in> set xs else z = 0)" for k
  proof -
    have "tree_at m' 0 (rbh_root m' h) t" using t(1) by (simp add: is_tree_def)
    moreover have "set (seq t) = snd ` set xs" using t(3) by simp
    ultimately obtain z where z: "RBTree_Find_inline h (\<lambda>y. key y = k) (\<lambda>y. k < key y) m' = Some z"
      "if \<exists>y \<in> snd ` set xs. key y = k then z \<in> snd ` set xs \<and> key z = k else z = 0"
      using find_loop_ok [of m' 0 "rbh_root m' h" t "\<lambda>y. key y = k" "\<lambda>y. k < key y"] keyed_searchable [OF s, of k] t(3)
      unfolding RBTree_Find_inline_def by metis
    then show ?thesis using s(2) by (intro exI [of _ z]) (auto split: if_splits)
  qed
  have I: "RBTree_Iterate h v a m' = Some (visit_nodes v (map snd xs) a)" for v and a :: 'a using RBTree_Iterate_ok [OF t(1)] t(3) by simp
  show ?thesis using m'(1) I F RBTree_Successor_ok [OF t(1)] t(3) by (intro exI [of _ m']) simp
qed

theorem rbtree_walks_witness:
  "\<exists>m'. run_requests (insert_keyed (\<lambda>x. x mod 4) 1) (RBTree_Extract 1) [Add 3 7, Add 1 5, Add 1 9]
        (RBTree_Initialize_empty 1 no_nodes) = Some m'
    \<and> RBTree_Iterate 1 (\<lambda>x a. (False, a @ [x])) [] m' = Some [5, 9, 7]
    \<and> RBTree_Find_inline 1 (\<lambda>y. y mod 4 = 3) (\<lambda>y. 3 < y mod 4) m' = Some 7
    \<and> RBTree_Successor 9 m' = Some 7"
proof -
  have r: "keyed_run (\<lambda>k x. x mod 4 = k) [Add 3 7, Add 1 5, Add 1 9] [] = Some [(1 :: nat, 5), (1, 9), (3, 7)]"
    by (simp add: place_def)
  have "\<exists>m'. run_requests (insert_keyed (\<lambda>x. x mod 4) 1) (RBTree_Extract 1) [Add 3 7, Add 1 5, Add 1 9]
        (RBTree_Initialize_empty 1 no_nodes) = Some m'
    \<and> (\<forall>v (a :: nat list). RBTree_Iterate 1 v a m' = Some (visit_nodes v [5, 9, 7] a))
    \<and> (\<forall>k. \<exists>z. RBTree_Find_inline 1 (\<lambda>y. y mod 4 = k) (\<lambda>y. k < y mod 4) m' = Some z
         \<and> (if k \<in> fst ` set [(1 :: nat, 5 :: nat), (1, 9), (3, 7)] then (k, z) \<in> set [(1, 5), (1, 9), (3, 7)] else z = 0))
    \<and> (\<forall>ys x zs. [5, 9, 7] = ys @ x # zs \<longrightarrow>
         RBTree_Successor x m' = Some (first_of zs) \<and> RBTree_Predecessor x m' = Some (last_of ys))"
    using rbtree_walks [where ?'a = "nat list", OF r, of 1 no_nodes] unfolding list.map snd_conv .
  then obtain m' where "run_requests (insert_keyed (\<lambda>x. x mod 4) 1) (RBTree_Extract 1) [Add 3 7, Add 1 5, Add 1 9]
        (RBTree_Initialize_empty 1 no_nodes) = Some m'"
    and I: "\<forall>v (a :: nat list). RBTree_Iterate 1 v a m' = Some (visit_nodes v [5, 9, 7] a)"
    and F: "\<forall>k. \<exists>z. RBTree_Find_inline 1 (\<lambda>y. y mod 4 = k) (\<lambda>y. k < y mod 4) m' = Some z
         \<and> (if k \<in> fst ` set [(1 :: nat, 5 :: nat), (1, 9), (3, 7)] then (k, z) \<in> set [(1, 5), (1, 9), (3, 7)] else z = 0)"
    and S: "\<forall>ys x zs. [5, 9, 7] = ys @ x # zs \<longrightarrow>
         RBTree_Successor x m' = Some (first_of zs) \<and> RBTree_Predecessor x m' = Some (last_of ys)"
    by (elim exE conjE) (rule that)
  moreover have "RBTree_Iterate 1 (\<lambda>x a. (False, a @ [x])) [] m' = Some [5, 9, 7]" using I by simp
  moreover have "RBTree_Find_inline 1 (\<lambda>y. y mod 4 = 3) (\<lambda>y. 3 < y mod 4) m' = Some 7"
    using spec [OF F, of 3] by auto
  moreover have "RBTree_Successor 9 m' = Some 7" using S [rule_format, of "[5]" 9 "[7]"] by simp
  ultimately show ?thesis by blast
qed

end
