(* ===== verification/Watchdog.thy ===== *)
theory Watchdog
  imports Rb_Client Timespec
begin

text \<open>
  The watchdogs of the score (\<^verbatim>\<open>cpukit/score/src/watchdoginsert.c\<close>, \<^verbatim>\<open>watchdogremove.c\<close>,
  \<^verbatim>\<open>watchdogtick.c\<close>, \<^verbatim>\<open>cpukit/include/rtems/score/watchdogimpl.h\<close>) on a system with one processor.
  The watchdogs of a header are a red-black tree in the order of their expiration times; the header
  also holds the first of them. The colour of a node is the state of the watchdog. Headers are named by
  their index in the array of the processor. The service routine of a watchdog is called through the
  parameter \<open>call\<close>, which stands for all that happens between the release and the acquisition of the
  lock; the state \<open>'e\<close> is what it works on beside the watchdogs. The assertions of the debug
  configuration are not modelled.
\<close>

section \<open>State\<close>

record watchdogs =
  nodes :: rb_mem
  wd_first :: "nat \<Rightarrow> nat"
  wd_expire :: "nat \<Rightarrow> 64 word"
  wd_routine :: "nat \<Rightarrow> nat"
  cpu_ticks :: "64 word"
  ticks_since_boot :: "32 word"

abbreviation (input) PER_CPU_WATCHDOG_TICKS :: nat where "PER_CPU_WATCHDOG_TICKS \<equiv> 0"
abbreviation (input) PER_CPU_WATCHDOG_REALTIME :: nat where "PER_CPU_WATCHDOG_REALTIME \<equiv> 1"
abbreviation (input) PER_CPU_WATCHDOG_MONOTONIC :: nat where "PER_CPU_WATCHDOG_MONOTONIC \<equiv> 2"

abbreviation (input) WATCHDOG_INACTIVE :: int where "WATCHDOG_INACTIVE \<equiv> 2"
abbreviation (input) WATCHDOG_PENDING :: int where "WATCHDOG_PENDING \<equiv> 3"

section \<open>Operations on one watchdog or header\<close>

definition Watchdog_Header_initialize :: "nat \<Rightarrow> watchdogs \<Rightarrow> watchdogs" where
  "Watchdog_Header_initialize header w =
     w\<lparr>nodes := RBTree_Initialize_empty header (nodes w), wd_first := (wd_first w)(header := 0)\<rparr>"

definition Watchdog_Header_first :: "nat \<Rightarrow> watchdogs \<Rightarrow> nat" where
  "Watchdog_Header_first header w = wd_first w header"

definition Watchdog_Get_state :: "nat \<Rightarrow> watchdogs \<Rightarrow> int" where
  "Watchdog_Get_state the_watchdog w = rbe_color (nodes w) the_watchdog"

definition Watchdog_Set_state :: "nat \<Rightarrow> int \<Rightarrow> watchdogs \<Rightarrow> watchdogs" where
  "Watchdog_Set_state the_watchdog st w = w\<lparr>nodes := set_color the_watchdog st (nodes w)\<rparr>"

definition Watchdog_Preinitialize :: "nat \<Rightarrow> watchdogs \<Rightarrow> watchdogs" where
  "Watchdog_Preinitialize the_watchdog = Watchdog_Set_state the_watchdog WATCHDOG_INACTIVE"

definition Watchdog_Initialize :: "nat \<Rightarrow> nat \<Rightarrow> watchdogs \<Rightarrow> watchdogs" where
  "Watchdog_Initialize the_watchdog routine w = w\<lparr>wd_routine := (wd_routine w)(the_watchdog := routine)\<rparr>"

text \<open>The state is an unsigned enumeration, a colour below 0 would be a large value.\<close>

definition Watchdog_Is_scheduled :: "nat \<Rightarrow> watchdogs \<Rightarrow> bool" where
  "Watchdog_Is_scheduled the_watchdog w \<longleftrightarrow>
     0 \<le> Watchdog_Get_state the_watchdog w \<and> Watchdog_Get_state the_watchdog w < WATCHDOG_INACTIVE"

definition Watchdog_Next_first :: "nat \<Rightarrow> nat \<Rightarrow> watchdogs \<Rightarrow> watchdogs" where
  "Watchdog_Next_first header first w =
     (let right = rbe_right (nodes w) first in
      if right \<noteq> 0 then w\<lparr>wd_first := (wd_first w)(header := right)\<rparr>
      else w\<lparr>wd_first := (wd_first w)(header := rbe_parent (nodes w) first)\<rparr>)"

section \<open>Insertion and removal\<close>

definition Watchdog_Insert :: "nat \<Rightarrow> nat \<Rightarrow> 64 word \<Rightarrow> watchdogs \<Rightarrow> watchdogs option" where
  "Watchdog_Insert header the_watchdog expire w = do {
     let old_first = wd_first w header;
     let w = w\<lparr>wd_expire := (wd_expire w)(the_watchdog := expire)\<rparr>;
     (link, parent, new_first) \<leftarrow>
       descend (\<lambda>parent_watchdog. expire < wd_expire w parent_watchdog) old_first (Root_reference header) 0 the_watchdog (nodes w);
     let w = w\<lparr>wd_first := (wd_first w)(header := new_first)\<rparr>;
     m \<leftarrow> RBTree_Insert_color header the_watchdog (RBTree_Add_child the_watchdog parent link (nodes w));
     Some (w\<lparr>nodes := m\<rparr>)
   }"

definition Watchdog_Remove :: "nat \<Rightarrow> nat \<Rightarrow> watchdogs \<Rightarrow> watchdogs option" where
  "Watchdog_Remove header the_watchdog w =
     (if Watchdog_Is_scheduled the_watchdog w
      then do {
        let w = (if wd_first w header = the_watchdog then Watchdog_Next_first header the_watchdog w else w);
        m \<leftarrow> RBTree_Extract header the_watchdog (nodes w);
        Some (Watchdog_Set_state the_watchdog WATCHDOG_INACTIVE (w\<lparr>nodes := m\<rparr>))
      }
      else Some w)"

definition Watchdog_Cancel :: "nat \<Rightarrow> nat \<Rightarrow> 64 word \<Rightarrow> watchdogs \<Rightarrow> (64 word \<times> watchdogs) option" where
  "Watchdog_Cancel header the_watchdog now w =
     (let expire = wd_expire w the_watchdog;
          remaining = (if now < expire then expire - now else 0)
      in Watchdog_Remove header the_watchdog w \<bind> (\<lambda>w. Some (remaining, w)))"

definition Watchdog_Per_CPU_insert_ticks :: "nat \<Rightarrow> 32 word \<Rightarrow> watchdogs \<Rightarrow> (64 word \<times> watchdogs) option" where
  "Watchdog_Per_CPU_insert_ticks the_watchdog ticks w =
     (let expire = ucast ticks + cpu_ticks w
      in Watchdog_Insert PER_CPU_WATCHDOG_TICKS the_watchdog expire w \<bind> (\<lambda>w. Some (expire, w)))"

definition Watchdog_Per_CPU_insert :: "nat \<Rightarrow> nat \<Rightarrow> 64 word \<Rightarrow> watchdogs \<Rightarrow> (64 word \<times> watchdogs) option" where
  "Watchdog_Per_CPU_insert the_watchdog header expire w =
     Watchdog_Insert header the_watchdog expire w \<bind> (\<lambda>w. Some (expire, w))"

definition Watchdog_Per_CPU_remove :: "nat \<Rightarrow> nat \<Rightarrow> watchdogs \<Rightarrow> watchdogs option" where
  "Watchdog_Per_CPU_remove the_watchdog header = Watchdog_Remove header the_watchdog"

definition Watchdog_Per_CPU_remove_ticks :: "nat \<Rightarrow> watchdogs \<Rightarrow> watchdogs option" where
  "Watchdog_Per_CPU_remove_ticks the_watchdog = Watchdog_Per_CPU_remove the_watchdog PER_CPU_WATCHDOG_TICKS"

section \<open>The clock tick\<close>

partial_function (option) Watchdog_Do_tickle ::
    "(nat \<Rightarrow> nat \<Rightarrow> watchdogs \<times> 'e \<Rightarrow> (watchdogs \<times> 'e) option) \<Rightarrow> nat \<Rightarrow> nat \<Rightarrow> 64 word \<Rightarrow> watchdogs \<times> 'e \<Rightarrow> (watchdogs \<times> 'e) option"
  where
  "Watchdog_Do_tickle call header first now s =
     (if wd_expire (fst s) first \<le> now
      then do {
        let w = Watchdog_Next_first header first (fst s);
        m \<leftarrow> RBTree_Extract header first (nodes w);
        let w = Watchdog_Set_state first WATCHDOG_INACTIVE (w\<lparr>nodes := m\<rparr>);
        s \<leftarrow> call (wd_routine w first) first (w, snd s);
        let first = Watchdog_Header_first header (fst s);
        if first \<noteq> 0 then Watchdog_Do_tickle call header first now s else Some s
      }
      else Some s)"

text \<open>The part of \<^verbatim>\<open>_Watchdog_Tick\<close> for one header; the time is read only if there is a watchdog.\<close>

definition tick_header ::
    "(nat \<Rightarrow> nat \<Rightarrow> watchdogs \<times> 'e \<Rightarrow> (watchdogs \<times> 'e) option) \<Rightarrow> nat \<Rightarrow> (watchdogs \<times> 'e \<Rightarrow> 64 word) \<Rightarrow> watchdogs \<times> 'e \<Rightarrow> (watchdogs \<times> 'e) option"
  where
  "tick_header call header now s =
     (let first = Watchdog_Header_first header (fst s) in
      if first \<noteq> 0 then Watchdog_Do_tickle call header first (now s) s else Some s)"

text \<open>The times of the timecounter and the operation \<open>at_tick\<close> of the budget of the executing thread, if
  it has one, are parameters.\<close>

definition Watchdog_Tick ::
    "(nat \<Rightarrow> nat \<Rightarrow> watchdogs \<times> 'e \<Rightarrow> (watchdogs \<times> 'e) option) \<Rightarrow> ('e \<Rightarrow> timespec) \<Rightarrow> ('e \<Rightarrow> timespec)
      \<Rightarrow> ('e \<Rightarrow> (watchdogs \<times> 'e \<Rightarrow> (watchdogs \<times> 'e) option) option) \<Rightarrow> watchdogs \<times> 'e \<Rightarrow> (watchdogs \<times> 'e) option"
  where
  "Watchdog_Tick call getnanouptime getnanotime at_tick s = do {
     let w = (fst s)\<lparr>ticks_since_boot := ticks_since_boot (fst s) + 1\<rparr>;
     let ticks = cpu_ticks w + 1;
     let w = w\<lparr>cpu_ticks := ticks\<rparr>;
     s \<leftarrow> tick_header call PER_CPU_WATCHDOG_TICKS (\<lambda>_. ticks) (w, snd s);
     s \<leftarrow> tick_header call PER_CPU_WATCHDOG_MONOTONIC (\<lambda>s. Watchdog_Ticks_from_timespec (getnanouptime (snd s))) s;
     s \<leftarrow> tick_header call PER_CPU_WATCHDOG_REALTIME (\<lambda>s. Watchdog_Ticks_from_timespec (getnanotime (snd s))) s;
     case at_tick (snd s) of None \<Rightarrow> Some s | Some budget_operation \<Rightarrow> budget_operation s
   }"

section \<open>The first watchdog\<close>

lemma rb_list_color:
  assumes "rb_list h m xs" and "x \<in> set xs"
  shows "rbe_color m x = RB_BLACK \<or> rbe_color m x = RB_RED"
proof -
  have "rbe_color m x = RB_BLACK \<or> rbe_color m x = RB_RED" if "tree_at m par p t" "rb_ok t" "x \<in> set (seq t)" for t par p
    using that by (induction t arbitrary: par p) auto
  then show ?thesis using assms by (auto simp: rb_list_def is_tree_def red_black_def)
qed

text \<open>The first node has no left child, so its right child is a red leaf or missing.\<close>

lemma first_right_small: "rb_ok (nd True c Leaf x r) \<Longrightarrow> r = Leaf \<or> (\<exists>y. r = Node RB_RED Leaf y Leaf)"
proof -
  have "t = Leaf" if "rb_ok t" "bh t = 0" "\<not> red t" for t using that by (cases t) (auto split: if_splits)
  then show "rb_ok (nd True c Leaf x r) \<Longrightarrow> ?thesis" by (cases r) (auto simp: nd_def split: if_splits)
qed

lemma next_of_first:
  assumes "rb_list h m (x # ys)"
  shows "(if rbe_right m x \<noteq> 0 then rbe_right m x else rbe_parent m x) = first_of ys"
proof -
  obtain t where t: "is_tree m h t" "red_black t" "seq t = x # ys" using assms by (auto simp: rb_list_def)
  have F: "focus m h [] 0 (rbh_root m h) t" "t \<noteq> Leaf" using t(1,3) by (auto simp: is_tree_root)
  obtain gs px c z r where E: "focus m h gs px z (nd True c Leaf z r)" "\<forall>f \<in> set gs. side f = True" "plug gs (nd True c Leaf z r) = t"
    using edge_ok [OF F, of True] by (elim exE conjE) (rule that, simp_all)
  have "seq t = z # seq r @ aft gs" unfolding E(3) [symmetric] seq_plug using fore_side(1) [OF E(2)] by (simp add: nd_def)
  then have z: "z = x" "ys = seq r @ aft gs" using t(3) by auto
  have "rb_ok (nd True c Leaf z r)" using t(2) E(3) red_black_plug by metis
  then have r: "r = Leaf \<or> (\<exists>y. r = Node RB_RED Leaf y Leaf)" by (rule first_right_small)
  have T: "tree_at m x (rbe_right m x) r" using focusD(2) [OF E(1)] z(1) by (simp add: kid_def)
  have "rbe_parent m x = px" using focusD(2) [OF E(1)] z(1) by simp
  then have "rbe_parent m x = first_of (aft gs)"
    using focusD(1) [OF E(1)] E(2) z(1) by (cases gs rule: fore.cases) auto
  then show ?thesis using r T z(2) by auto
qed

section \<open>The watchdogs of a header\<close>

definition wd_holds :: "nat \<Rightarrow> watchdogs \<Rightarrow> 64 word keyed \<Rightarrow> bool" where
  "wd_holds h w xs \<longleftrightarrow> keyed_tree (wd_expire w) h (nodes w) xs \<and> wd_first w h = first_of (map snd xs)"

definition wd_frame :: "nat set \<Rightarrow> nat \<Rightarrow> watchdogs \<Rightarrow> watchdogs \<Rightarrow> bool" where
  "wd_frame A h w w' \<longleftrightarrow> same_but A h (nodes w) (nodes w') \<and> (\<forall>y. y \<notin> A \<longrightarrow> wd_expire w' y = wd_expire w y)
     \<and> (\<forall>k. k \<noteq> h \<longrightarrow> wd_first w' k = wd_first w k) \<and> wd_routine w' = wd_routine w
     \<and> cpu_ticks w' = cpu_ticks w \<and> ticks_since_boot w' = ticks_since_boot w"

lemma wd_holdsD:
  assumes "wd_holds h w xs"
  shows "rb_list h (nodes w) (map snd xs)" "sorted (map fst xs)" "\<forall>p \<in> set xs. fst p = wd_expire w (snd p)"
    "wd_first w h = first_of (map snd xs)" "distinct (map snd xs)" "0 \<notin> snd ` set xs"
  using assms rb_list_distinct [of h "nodes w" "map snd xs"] by (auto simp: wd_holds_def keyed_tree_def)

lemma wd_holds_frame:
  assumes "wd_holds k w ys" and "wd_frame A h w w'" and "k \<noteq> h" and "A \<inter> snd ` set ys = {}"
  shows "wd_holds k w' ys"
proof -
  obtain t where t: "is_tree (nodes w) k t" "red_black t" "seq t = map snd ys" using wd_holdsD(1) [OF assms(1)] by (auto simp: rb_list_def)
  have "is_tree (nodes w') k t" using same_but_other_tree [of A h "nodes w" "nodes w'" t k] t assms(2-4) by (auto simp: wd_frame_def)
  then have "rb_list k (nodes w') (map snd ys)" using t by (auto simp: rb_list_def)
  moreover have "\<forall>p \<in> set ys. fst p = wd_expire w' (snd p)" using wd_holdsD(3) [OF assms(1)] assms(2,4) by (fastforce simp: wd_frame_def)
  ultimately show ?thesis using wd_holdsD(2,4) [OF assms(1)] assms(2,3) by (simp add: wd_holds_def keyed_tree_def wd_frame_def)
qed

lemma wd_holds_scheduled: "wd_holds h w xs \<Longrightarrow> x \<in> snd ` set xs \<Longrightarrow> Watchdog_Is_scheduled x w"
  using rb_list_color [OF wd_holdsD(1), of h w xs x] by (auto simp: Watchdog_Is_scheduled_def Watchdog_Get_state_def)

lemma first_of_place:
  "sorted (map fst xs) \<Longrightarrow>
     first_of (map snd (place e x xs)) = (if list_all (\<lambda>p. e < fst p) xs then x else first_of (map snd xs))"
proof -
  assume s: "sorted (map fst xs)"
  show ?thesis
  proof (cases "list_all (\<lambda>p. e < fst p) xs")
    case True
    then have "filter (\<lambda>p. fst p \<le> e) xs = []" by (auto simp: filter_empty_conv list_all_iff leD)
    then show ?thesis using True by (simp add: place_def)
  next
    case False
    then show ?thesis using s by (cases xs) (auto simp: place_def list_all_iff not_less intro: order_trans)
  qed
qed

lemma Watchdog_Insert_ok:
  assumes "wd_holds h w xs" and "x \<notin> snd ` set xs" and "x \<noteq> 0"
  shows "\<exists>w'. Watchdog_Insert h x e w = Some w' \<and> wd_holds h w' (place e x xs) \<and> wd_frame (insert x (snd ` set xs)) h w w'"
proof -
  note H = wd_holdsD [OF assms(1)]
  define key where "key = (wd_expire w)(x := e)"
  have k: "\<forall>p \<in> set xs. fst p = key (snd p)" using H(3) assms(2) by (force simp: key_def)
  note C = keyed_cuts [OF H(2) k, of e]
  have "x \<notin> set (map snd xs)" using assms(2) by simp
  from rb_list_insert [OF H(1) this assms(3) C(1), of "wd_first w h" x]
  obtain link par m' where d: "descend (\<lambda>y. e < key y) (wd_first w h) (Root_reference h) 0 x (nodes w)
      = Some (link, par, if list_all (\<lambda>y. e < key y) (map snd xs) then x else wd_first w h)"
    "RBTree_Insert_color h x (RBTree_Add_child x par link (nodes w)) = Some m'"
    "rb_list h m' (map snd (place e x xs))" "same_but (insert x (snd ` set xs)) h (nodes w) m'"
    unfolding C(2,3) by (auto simp: place_def)
  define w' where "w' = w\<lparr>wd_expire := key, wd_first := (wd_first w)(h := if list_all (\<lambda>y. e < key y) (map snd xs) then x else wd_first w h), nodes := m'\<rparr>"
  have "list_all (\<lambda>y. e < key y) (map snd xs) = list_all (\<lambda>p. e < fst p) xs" using k by (auto simp: list_all_iff)
  then have f: "wd_first w' h = first_of (map snd (place e x xs))" using first_of_place [OF H(2)] H(4) by (simp add: w'_def)
  have "Watchdog_Insert h x e w = Some w'" using d(1,2) by (simp add: Watchdog_Insert_def w'_def key_def)
  moreover have "wd_holds h w' (place e x xs)"
    unfolding wd_holds_def keyed_tree_def using f d(3) H(2) k by (simp add: w'_def) (simp add: key_def)
  moreover have "wd_frame (insert x (snd ` set xs)) h w w'" using d(4) by (simp add: wd_frame_def w'_def key_def)
  ultimately show ?thesis by blast
qed

lemma rb_list_set_color: "rb_list h m xs \<Longrightarrow> x \<notin> set xs \<Longrightarrow> rb_list h (set_color x c m) xs"
proof -
  assume a: "rb_list h m xs" "x \<notin> set xs"
  then obtain t where "tree_at m 0 (rbh_root m h) t" "distinct (seq t)" "red_black t" "seq t = xs" by (auto simp: rb_list_def is_tree_def)
  then show ?thesis using a(2) unfolding rb_list_def is_tree_def by (intro exI [of _ t]) simp
qed

text \<open>The next first watchdog, the extraction and the new state, as \<^verbatim>\<open>_Watchdog_Remove\<close> and
  \<^verbatim>\<open>_Watchdog_Do_tickle\<close> do them.\<close>

lemma extract_ok:
  assumes "wd_holds h w xs" and "x \<in> snd ` set xs"
  defines "w1 \<equiv> if wd_first w h = x then Watchdog_Next_first h x w else w"
  shows "\<exists>m. RBTree_Extract h x (nodes w1) = Some m
    \<and> wd_holds h (Watchdog_Set_state x WATCHDOG_INACTIVE (w1\<lparr>nodes := m\<rparr>)) (displace x xs)
    \<and> wd_frame (snd ` set xs) h w (Watchdog_Set_state x WATCHDOG_INACTIVE (w1\<lparr>nodes := m\<rparr>))"
proof -
  note H = wd_holdsD [OF assms(1)]
  have n: "nodes w1 = nodes w" "wd_expire w1 = wd_expire w" by (simp_all add: w1_def Watchdog_Next_first_def Let_def)
  have "x \<in> set (map snd xs)" using assms(2) by simp
  from rb_list_extract [OF H(1) this] obtain m where m: "RBTree_Extract h x (nodes w) = Some m"
    "rb_list h m (remove1 x (map snd xs))" "same_but (snd ` set xs) h (nodes w) m" by auto
  have d: "map snd (displace x xs) = remove1 x (map snd xs)" using displace_remove1 H(5) by blast
  have "rb_list h (set_color x WATCHDOG_INACTIVE m) (map snd (displace x xs))" using m(2) rb_list_set_color H(5) unfolding d by simp
  moreover have "wd_first w1 h = first_of (map snd (displace x xs))"
  proof (cases xs)
    case (Cons p ps)
    show ?thesis
    proof (cases "snd p = x")
      case True
      have "rb_list h (nodes w) (x # map snd ps)" using H(1) Cons True by simp
      then show ?thesis unfolding d using next_of_first [of h "nodes w" x "map snd ps"] H(4) Cons True
        by (simp add: w1_def Watchdog_Next_first_def Let_def split: if_splits)
    next
      case False
      then show ?thesis unfolding d using H(4) Cons by (simp add: w1_def)
    qed
  qed (use assms(2) in simp)
  ultimately have "wd_holds h (Watchdog_Set_state x WATCHDOG_INACTIVE (w1\<lparr>nodes := m\<rparr>)) (displace x xs)"
    using H(2,3) n by (simp add: wd_holds_def keyed_tree_def Watchdog_Set_state_def)
  moreover have "wd_frame (snd ` set xs) h w (Watchdog_Set_state x WATCHDOG_INACTIVE (w1\<lparr>nodes := m\<rparr>))"
    using m(3) n assms(2) by (auto simp: wd_frame_def Watchdog_Set_state_def w1_def Watchdog_Next_first_def Let_def)
  ultimately show ?thesis using m(1) n(1) by auto
qed

lemma Watchdog_Remove_ok:
  assumes "wd_holds h w xs" and "x \<in> snd ` set xs"
  shows "\<exists>w'. Watchdog_Remove h x w = Some w' \<and> wd_holds h w' (displace x xs) \<and> wd_frame (snd ` set xs) h w w'
    \<and> \<not> Watchdog_Is_scheduled x w'"
proof -
  obtain m where "RBTree_Extract h x (nodes (if wd_first w h = x then Watchdog_Next_first h x w else w)) = Some m"
    "wd_holds h (Watchdog_Set_state x WATCHDOG_INACTIVE ((if wd_first w h = x then Watchdog_Next_first h x w else w)\<lparr>nodes := m\<rparr>)) (displace x xs)"
    "wd_frame (snd ` set xs) h w (Watchdog_Set_state x WATCHDOG_INACTIVE ((if wd_first w h = x then Watchdog_Next_first h x w else w)\<lparr>nodes := m\<rparr>))"
    using extract_ok [OF assms] by blast
  then show ?thesis using wd_holds_scheduled [OF assms]
    unfolding Watchdog_Remove_def by (simp add: Let_def Watchdog_Is_scheduled_def Watchdog_Get_state_def Watchdog_Set_state_def)
qed

interpretation wd: keyed_collection "wd_holds h" "\<lambda>e x. Watchdog_Insert h x e" "Watchdog_Remove h" "\<lambda>_ _. True"
  "\<lambda>w. Some (Watchdog_Header_first h w)"
proof
  fix w xs e x
  assume H: "wd_holds h w xs"
  show "sorted (map fst xs) \<and> distinct (map snd xs)" using wd_holdsD(2,5) [OF H] by simp
  show "Some (Watchdog_Header_first h w) = Some (first_of (map snd xs))" using wd_holdsD(4) [OF H] by (simp add: Watchdog_Header_first_def)
  show "\<exists>w'. Watchdog_Insert h x e w = Some w' \<and> wd_holds h w' (place e x xs)" if "x \<noteq> 0" "x \<notin> snd ` set xs"
    using Watchdog_Insert_ok [OF H that(2,1)] by blast
  show "\<exists>w'. Watchdog_Remove h x w = Some w' \<and> wd_holds h w' (displace x xs)" if "x \<in> snd ` set xs"
    using Watchdog_Remove_ok [OF H that] by blast
qed

section \<open>Properties\<close>

text \<open>C18. The watchdogs of a header refine a list sorted by expiration time: after the initialisation of the header
  every sequence of insertions and removals returns; the header always knows the first watchdog without a search,
  watchdogs with equal times stay in the order of their insertion, and all of them are scheduled with their times.\<close>

theorem watchdog_header_refines:
  assumes "keyed_run (\<lambda>_ _. True) rs [] = Some xs"
  shows "\<exists>w'. run_requests (\<lambda>e x. Watchdog_Insert h x e) (Watchdog_Remove h) rs (Watchdog_Header_initialize h w) = Some w'
    \<and> Watchdog_Header_first h w' = first_of (map snd xs) \<and> RBTree_Minimum h (nodes w') = Some (first_of (map snd xs)) \<and> sorted (map fst xs)
    \<and> (\<forall>e x. (e, x) \<in> set xs \<longrightarrow> wd_expire w' x = e \<and> Watchdog_Is_scheduled x w')"
proof -
  have "wd_holds h (Watchdog_Header_initialize h w) []"
    using keyed_tree_empty [of "wd_expire w" h "nodes w"] by (simp add: wd_holds_def Watchdog_Header_initialize_def)
  from wd.run_refines [OF this assms] obtain w' where
    w': "run_requests (\<lambda>e x. Watchdog_Insert h x e) (Watchdog_Remove h) rs (Watchdog_Header_initialize h w) = Some w'" "wd_holds h w' xs" by blast
  note H = wd_holdsD [OF w'(2)]
  have "RBTree_Minimum h (nodes w') = Some (first_of (map snd xs))" using H(1) RBTree_Minimum_ok(1) by (auto simp: rb_list_def)
  moreover have "wd_expire w' x = e \<and> Watchdog_Is_scheduled x w'" if "(e, x) \<in> set xs" for e x
    using H(3) that wd_holds_scheduled [OF w'(2), of x] by force
  ultimately show ?thesis using w'(1) H(2,4) by (auto simp: Watchdog_Header_first_def)
qed

abbreviation no_watchdogs :: watchdogs where
  "no_watchdogs \<equiv> \<lparr>nodes = no_nodes, wd_first = \<lambda>_. 0, wd_expire = \<lambda>_. 0, wd_routine = \<lambda>_. 0, cpu_ticks = 0, ticks_since_boot = 0\<rparr>"

theorem watchdog_header_refines_witness:
  "\<exists>w'. run_requests (\<lambda>e x. Watchdog_Insert 0 x e) (Watchdog_Remove 0) [Add 30 5, Add 10 6, Add 20 7, Add 10 8, Del 6]
      (Watchdog_Header_initialize 0 no_watchdogs) = Some w' \<and> Watchdog_Header_first 0 w' = 8 \<and> wd_expire w' 7 = 20"
proof -
  have r: "keyed_run (\<lambda>_ _. True) [Add 30 5, Add 10 6, Add 20 7, Add 10 8, Del 6] [] = Some [(10 :: 64 word, 8), (20, 7), (30, 5)]"
    by (simp add: place_def displace_def)
  from watchdog_header_refines [OF r, of 0 no_watchdogs] show ?thesis by (elim exE conjE) (intro exI conjI, assumption, simp_all)
qed

end
