(* ===== verification/Watchdog_System.thy ===== *)
theory Watchdog_System
  imports Watchdog
begin

text \<open>
  The watchdogs of all headers of the processor. \<open>wd_sys W w f\<close> says that the headers hold the lists
  \<open>f\<close>, that no watchdog is on two of them, and that of the preinitialised watchdogs \<open>W\<close> exactly
  those on a list are scheduled. The locale \<open>service_routines\<close> is the interface between the clock
  tick and the service routines: what a routine may do to the watchdogs, and what the tick does then.
\<close>

section \<open>All headers\<close>

definition wd_sys :: "nat set \<Rightarrow> watchdogs \<Rightarrow> (nat \<Rightarrow> 64 word keyed) \<Rightarrow> bool" where
  "wd_sys W w f \<longleftrightarrow> 0 \<notin> W \<and> (\<forall>h < 3. wd_holds h w (f h) \<and> snd ` set (f h) \<subseteq> W)
     \<and> (\<forall>h < 3. \<forall>k < 3. h \<noteq> k \<longrightarrow> snd ` set (f h) \<inter> snd ` set (f k) = {})
     \<and> (\<forall>x \<in> W. Watchdog_Is_scheduled x w \<longleftrightarrow> (\<exists>h < 3. x \<in> snd ` set (f h)))"

definition unscheduled :: "nat \<Rightarrow> (nat \<Rightarrow> 64 word keyed) \<Rightarrow> bool" where
  "unscheduled x f \<longleftrightarrow> (\<forall>h < 3. x \<notin> snd ` set (f h))"

definition due :: "64 word \<Rightarrow> 64 word keyed \<Rightarrow> 64 word keyed" where
  "due now xs = filter (\<lambda>p. fst p \<le> now) xs"

definition same_pending :: "nat set \<Rightarrow> watchdogs \<Rightarrow> watchdogs \<Rightarrow> bool" where
  "same_pending W w w' \<longleftrightarrow> (\<forall>x \<in> W. Watchdog_Get_state x w' = WATCHDOG_PENDING \<longleftrightarrow> Watchdog_Get_state x w = WATCHDOG_PENDING)"

lemma same_pending_trans [trans]: "same_pending W w w' \<Longrightarrow> same_pending W w' w'' \<Longrightarrow> same_pending W w w''"
  by (simp add: same_pending_def)

lemma wd_sysD:
  assumes "wd_sys W w f" and "h < 3"
  shows "wd_holds h w (f h)" "snd ` set (f h) \<subseteq> W" "0 \<notin> W"
    "k < 3 \<Longrightarrow> h \<noteq> k \<Longrightarrow> snd ` set (f h) \<inter> snd ` set (f k) = {}"
  using assms by (auto simp: wd_sys_def)

lemma wd_sys_scheduled: "wd_sys W w f \<Longrightarrow> x \<in> W \<Longrightarrow> Watchdog_Is_scheduled x w \<longleftrightarrow> \<not> unscheduled x f"
  by (auto simp: wd_sys_def unscheduled_def)

lemma not_due:
  assumes "wd_sys W w f" and "h < 3" and "(a, y) \<in> set (f h)" and "\<not> a \<le> t"
  shows "y \<notin> snd ` set (due t (f h))"
proof
  assume "y \<in> snd ` set (due t (f h))"
  then obtain b where "(b, y) \<in> set (f h)" "b \<le> t" by (auto simp: due_def)
  moreover have "b = a" using wd_holdsD(3) [OF wd_sysD(1) [OF assms(1,2)]] calculation(1) assms(3) by (metis fst_conv snd_conv)
  ultimately show False using assms(4) by simp
qed

lemma frame_state: "wd_frame A h w w' \<Longrightarrow> y \<notin> A \<Longrightarrow> Watchdog_Get_state y w' = Watchdog_Get_state y w"
  by (simp add: wd_frame_def same_but_def Watchdog_Get_state_def)

lemma scheduled_not_pending: "Watchdog_Is_scheduled x w \<Longrightarrow> Watchdog_Get_state x w \<noteq> WATCHDOG_PENDING"
  by (simp add: Watchdog_Is_scheduled_def)

text \<open>An operation on one header that changes its list keeps the whole system.\<close>

lemma wd_sys_update:
  assumes "wd_sys W w f" and "h < 3" and "wd_holds h w' ys" and "wd_frame A h w w'" and "A \<subseteq> W"
    and "\<And>k. k < 3 \<Longrightarrow> k \<noteq> h \<Longrightarrow> A \<inter> snd ` set (f k) = {}" and "snd ` set ys \<subseteq> A"
    and "\<And>x. x \<in> A - snd ` set ys \<Longrightarrow> \<not> Watchdog_Is_scheduled x w'"
    and "snd ` set (f h) \<subseteq> A"
  shows "wd_sys W w' (f(h := ys))"
proof -
  have other: "wd_holds k w' (f k)" if "k < 3" "k \<noteq> h" for k
    using wd_holds_frame [OF wd_sysD(1) [OF assms(1) that(1)] assms(4) that(2) assms(6) [OF that]] .
  have sched: "Watchdog_Is_scheduled x w' \<longleftrightarrow> (\<exists>k < 3. x \<in> snd ` set ((f(h := ys)) k))" if "x \<in> W" for x
  proof (cases "x \<in> A")
    case True
    then have "\<not> (\<exists>k < 3. k \<noteq> h \<and> x \<in> snd ` set (f k))" using assms(6) by blast
    then have "(\<exists>k < 3. x \<in> snd ` set ((f(h := ys)) k)) \<longleftrightarrow> x \<in> snd ` set ys" using assms(2) by auto
    then show ?thesis using wd_holds_scheduled [OF assms(3)] assms(8) True by blast
  next
    case False
    then have "x \<notin> snd ` set ys" "x \<notin> snd ` set (f h)" using assms(7,9) by auto
    then have "(\<exists>k < 3. x \<in> snd ` set ((f(h := ys)) k)) \<longleftrightarrow> (\<exists>k < 3. x \<in> snd ` set (f k))" by auto
    then show ?thesis using frame_state [OF assms(4) False] assms(1) that by (auto simp: wd_sys_def Watchdog_Is_scheduled_def)
  qed
  have "snd ` set ys \<inter> snd ` set (f k) = {}" if "k < 3" "k \<noteq> h" for k using assms(6,7) that by blast
  then have "\<forall>a < 3. \<forall>b < 3. a \<noteq> b \<longrightarrow> snd ` set ((f(h := ys)) a) \<inter> snd ` set ((f(h := ys)) b) = {}"
    using wd_sysD(4) [OF assms(1)] by (simp add: Int_commute)
  moreover have "\<forall>k < 3. wd_holds k w' ((f(h := ys)) k) \<and> snd ` set ((f(h := ys)) k) \<subseteq> W"
    using other assms(3,5,7) wd_sysD(2) [OF assms(1)] by auto
  ultimately show ?thesis using sched wd_sysD(3) [OF assms(1,2)] by (simp add: wd_sys_def)
qed

lemma wd_sys_insert:
  assumes "wd_sys W w f" and "h < 3" and "x \<in> W" and "unscheduled x f"
  shows "\<exists>w'. Watchdog_Insert h x e w = Some w' \<and> wd_sys W w' (f(h := place e x (f h))) \<and> wd_routine w' = wd_routine w
    \<and> cpu_ticks w' = cpu_ticks w \<and> (Watchdog_Get_state x w \<noteq> WATCHDOG_PENDING \<longrightarrow> same_pending W w w')"
proof -
  have x: "x \<notin> snd ` set (f h)" "x \<noteq> 0" using assms(2-4) wd_sysD(3) [OF assms(1,2)] by (auto simp: unscheduled_def intro!: gr0I)
  obtain w' where w': "Watchdog_Insert h x e w = Some w'" "wd_holds h w' (place e x (f h))" "wd_frame (insert x (snd ` set (f h))) h w w'"
    using Watchdog_Insert_ok [OF wd_sysD(1) [OF assms(1,2)] x] by blast
  have p: "snd ` set (place e x (f h)) = insert x (snd ` set (f h))" by force
  have "wd_sys W w' (f(h := place e x (f h)))"
  proof (rule wd_sys_update [OF assms(1,2) w'(2,3)])
    show "insert x (snd ` set (f h)) \<subseteq> W" using wd_sysD(2) [OF assms(1,2)] assms(3) by simp
    show "insert x (snd ` set (f h)) \<inter> snd ` set (f k) = {}" if "k < 3" "k \<noteq> h" for k
      using wd_sysD(4) [OF assms(1,2) that(1)] that assms(4) by (auto simp: unscheduled_def)
  qed (use p in auto)
  moreover have "same_pending W w w'" if "Watchdog_Get_state x w \<noteq> WATCHDOG_PENDING"
    unfolding same_pending_def
  proof
    fix y assume "y \<in> W"
    show "Watchdog_Get_state y w' = WATCHDOG_PENDING \<longleftrightarrow> Watchdog_Get_state y w = WATCHDOG_PENDING"
    proof (cases "y \<in> insert x (snd ` set (f h))")
      case True
      then have "Watchdog_Get_state y w' \<noteq> WATCHDOG_PENDING"
        using wd_holds_scheduled [OF w'(2)] scheduled_not_pending p by metis
      moreover have "Watchdog_Get_state y w \<noteq> WATCHDOG_PENDING"
        using True that wd_holds_scheduled [OF wd_sysD(1) [OF assms(1,2)]] scheduled_not_pending by blast
      ultimately show ?thesis by simp
    qed (use frame_state [OF w'(3)] in simp)
  qed
  ultimately show ?thesis using w' by (auto simp: wd_frame_def)
qed

lemma extract_sys:
  assumes "wd_sys W w f" and "h < 3" and "x \<in> snd ` set (f h)"
  defines "w1 \<equiv> if wd_first w h = x then Watchdog_Next_first h x w else w"
  shows "\<exists>m. RBTree_Extract h x (nodes w1) = Some m
    \<and> wd_sys W (Watchdog_Set_state x WATCHDOG_INACTIVE (w1\<lparr>nodes := m\<rparr>)) (f(h := displace x (f h)))
    \<and> same_pending W w (Watchdog_Set_state x WATCHDOG_INACTIVE (w1\<lparr>nodes := m\<rparr>))"
proof -
  obtain m where m: "RBTree_Extract h x (nodes w1) = Some m"
    "wd_holds h (Watchdog_Set_state x WATCHDOG_INACTIVE (w1\<lparr>nodes := m\<rparr>)) (displace x (f h))"
    "wd_frame (snd ` set (f h)) h w (Watchdog_Set_state x WATCHDOG_INACTIVE (w1\<lparr>nodes := m\<rparr>))"
    using extract_ok [OF wd_sysD(1) [OF assms(1,2)] assms(3)] unfolding w1_def by blast
  define w' where "w' = Watchdog_Set_state x WATCHDOG_INACTIVE (w1\<lparr>nodes := m\<rparr>)"
  have s: "Watchdog_Get_state x w' = WATCHDOG_INACTIVE" by (simp add: w'_def Watchdog_Get_state_def Watchdog_Set_state_def)
  have d: "snd ` set (displace x (f h)) = snd ` set (f h) - {x}" by auto
  have "wd_sys W w' (f(h := displace x (f h)))"
  proof (rule wd_sys_update [OF assms(1,2)])
    show "wd_holds h w' (displace x (f h))" "wd_frame (snd ` set (f h)) h w w'" using m(2,3) by (simp_all add: w'_def)
    show "\<not> Watchdog_Is_scheduled y w'" if "y \<in> snd ` set (f h) - snd ` set (displace x (f h))" for y
      using that s unfolding d by (auto simp: Watchdog_Is_scheduled_def)
  qed (use wd_sysD(2,4) [OF assms(1,2)] d in auto)
  moreover have "same_pending W w w'"
    unfolding same_pending_def
  proof
    fix y assume "y \<in> W"
    show "Watchdog_Get_state y w' = WATCHDOG_PENDING \<longleftrightarrow> Watchdog_Get_state y w = WATCHDOG_PENDING"
    proof (cases "y \<in> snd ` set (f h)")
      case True
      then have "Watchdog_Get_state y w \<noteq> WATCHDOG_PENDING"
        using wd_holds_scheduled [OF wd_sysD(1) [OF assms(1,2)]] scheduled_not_pending by metis
      moreover have "Watchdog_Get_state y w' \<noteq> WATCHDOG_PENDING"
        using True s d wd_holds_scheduled [OF m(2)] scheduled_not_pending unfolding w'_def by (cases "y = x") auto
      ultimately show ?thesis by simp
    qed (use frame_state [OF m(3)] in \<open>simp add: w'_def\<close>)
  qed
  ultimately show ?thesis using m(1) by (auto simp: w'_def)
qed

lemma wd_extract_fields [simp]:
  "wd_routine (Watchdog_Next_first h x w) = wd_routine w" "cpu_ticks (Watchdog_Next_first h x w) = cpu_ticks w"
  "nodes (Watchdog_Next_first h x w) = nodes w"
  "wd_routine (Watchdog_Set_state x st w) = wd_routine w" "cpu_ticks (Watchdog_Set_state x st w) = cpu_ticks w"
  by (simp_all add: Watchdog_Next_first_def Watchdog_Set_state_def Let_def)

lemma wd_sys_remove:
  assumes "wd_sys W w f" and "h < 3" and "x \<in> snd ` set (f h)"
  shows "\<exists>w'. Watchdog_Remove h x w = Some w' \<and> wd_sys W w' (f(h := displace x (f h))) \<and> same_pending W w w'
    \<and> wd_routine w' = wd_routine w \<and> cpu_ticks w' = cpu_ticks w"
proof -
  have "Watchdog_Is_scheduled x w" using wd_holds_scheduled [OF wd_sysD(1) [OF assms(1,2)] assms(3)] .
  then show ?thesis using extract_sys [OF assms] by (auto simp: Watchdog_Remove_def Let_def)
qed

lemma wd_sys_remove_inactive:
  "wd_sys W w f \<Longrightarrow> x \<in> W \<Longrightarrow> unscheduled x f \<Longrightarrow> Watchdog_Remove h x w = Some w"
  using wd_sys_scheduled by (simp add: Watchdog_Remove_def)

section \<open>Clock ticks in a row\<close>

primrec run_ticks :: "('s \<Rightarrow> 's option) \<Rightarrow> nat \<Rightarrow> 's \<Rightarrow> 's option" where
  "run_ticks tick 0 s = Some s"
| "run_ticks tick (Suc n) s = tick s \<bind> run_ticks tick n"

lemma tick_unat: "unat (t :: 64 word) + n < 2 ^ 64 \<Longrightarrow> unat (t + of_nat n) = unat t + n"
  by (simp add: unat_word_ariths unat_of_nat)

lemma tick_mono: "m \<le> n \<Longrightarrow> unat (t :: 64 word) + n < 2 ^ 64 \<Longrightarrow> t + of_nat m \<le> t + of_nat n"
  using tick_unat [of t n] tick_unat [of t m] by (simp add: word_le_nat_alt)

section \<open>What a service routine may do\<close>

text \<open>The time of a header: the ticks, the realtime or the uptime.\<close>

definition now_of :: "('e \<Rightarrow> timespec) \<Rightarrow> ('e \<Rightarrow> timespec) \<Rightarrow> nat \<Rightarrow> watchdogs \<times> 'e \<Rightarrow> 64 word" where
  "now_of up rt h s =
     (if h = PER_CPU_WATCHDOG_TICKS then cpu_ticks (fst s)
      else Watchdog_Ticks_from_timespec (if h = PER_CPU_WATCHDOG_REALTIME then rt (snd s) else up (snd s)))"

text \<open>The ticks stay, the times do not go back, the due watchdogs of every header stay: what the routine
  inserts expires later, and it removes none that is due. The watchdogs in \<open>K\<close> but not in \<open>A\<close> are not
  touched at all.\<close>

definition effect :: "('e \<Rightarrow> timespec) \<Rightarrow> ('e \<Rightarrow> timespec) \<Rightarrow> nat set \<Rightarrow> nat set \<Rightarrow> watchdogs \<times> 'e \<Rightarrow> (nat \<Rightarrow> 64 word keyed)
    \<Rightarrow> watchdogs \<times> 'e \<Rightarrow> (nat \<Rightarrow> 64 word keyed) \<Rightarrow> bool" where
  "effect up rt K A s f s' f' \<longleftrightarrow> cpu_ticks (fst s') = cpu_ticks (fst s)
     \<and> (\<forall>h < 3. now_of up rt h s \<le> now_of up rt h s' \<and> (\<forall>l \<le> now_of up rt h s. due l (f' h) = due l (f h)))
     \<and> (\<forall>y \<in> K - A. \<forall>h < 3. \<forall>e. (e, y) \<in> set (f' h) \<longleftrightarrow> (e, y) \<in> set (f h))"

text \<open>What the tickling of header \<open>h\<close> for the time \<open>now\<close> does, with the routines it calls: \<open>log\<close> are the watchdogs
  whose routines were called.\<close>

definition tickled :: "('e \<Rightarrow> timespec) \<Rightarrow> ('e \<Rightarrow> timespec) \<Rightarrow> nat set \<Rightarrow> ('e \<Rightarrow> nat list) \<Rightarrow> nat \<Rightarrow> 64 word \<Rightarrow> watchdogs \<times> 'e
    \<Rightarrow> (nat \<Rightarrow> 64 word keyed) \<Rightarrow> watchdogs \<times> 'e \<Rightarrow> (nat \<Rightarrow> 64 word keyed) \<Rightarrow> bool" where
  "tickled up rt K log h now s f s' f' \<longleftrightarrow> cpu_ticks (fst s') = cpu_ticks (fst s)
     \<and> log (snd s') = log (snd s) @ map snd (due now (f h)) \<and> due now (f' h) = []
     \<and> (\<forall>k < 3. now_of up rt k s \<le> now_of up rt k s' \<and> (k \<noteq> h \<longrightarrow> (\<forall>l \<le> now_of up rt k s. due l (f' k) = due l (f k))))
     \<and> (\<forall>y \<in> K. \<forall>k < 3. \<forall>e. y \<notin> snd ` set (due now (f h)) \<longrightarrow> ((e, y) \<in> set (f' k) \<longleftrightarrow> (e, y) \<in> set (f k)))"

lemma tickle_compose:
  assumes "log e1 = log e @ [x]" and "effect up rt K {x} (w, e) (f(h := rest)) (w1, e1) f1"
    and "tickled up rt K log h now (w1, e1) f1 s2 f2"
    and "due now (f h) = (t, x) # due now rest" and "due now (f1 h) = due now rest" and "f h = (t, x) # rest"
  shows "tickled up rt K log h now (w, e) f s2 f2"
proof -
  have E: "cpu_ticks w1 = cpu_ticks w" "\<And>k. k < 3 \<Longrightarrow> now_of up rt k (w, e) \<le> now_of up rt k (w1, e1)"
    "\<And>k l. k < 3 \<Longrightarrow> k \<noteq> h \<Longrightarrow> l \<le> now_of up rt k (w, e) \<Longrightarrow> due l (f1 k) = due l (f k)"
    "\<And>y k a. y \<in> K \<Longrightarrow> y \<noteq> x \<Longrightarrow> k < 3 \<Longrightarrow> (a, y) \<in> set (f1 k) \<longleftrightarrow> (a, y) \<in> set ((f(h := rest)) k)"
    using assms(2) by (simp_all add: effect_def)
  have T: "cpu_ticks (fst s2) = cpu_ticks w1" "log (snd s2) = log e1 @ map snd (due now (f1 h))" "due now (f2 h) = []"
    "\<And>k. k < 3 \<Longrightarrow> now_of up rt k (w1, e1) \<le> now_of up rt k s2"
    "\<And>k l. k < 3 \<Longrightarrow> k \<noteq> h \<Longrightarrow> l \<le> now_of up rt k (w1, e1) \<Longrightarrow> due l (f2 k) = due l (f1 k)"
    "\<And>y k a. y \<in> K \<Longrightarrow> k < 3 \<Longrightarrow> y \<notin> snd ` set (due now (f1 h)) \<Longrightarrow> (a, y) \<in> set (f2 k) \<longleftrightarrow> (a, y) \<in> set (f1 k)"
    using assms(3) unfolding tickled_def fst_conv snd_conv by blast+
  have "now_of up rt k (w, e) \<le> now_of up rt k s2" if "k < 3" for k using order_trans [OF E(2) [OF that] T(4) [OF that]] .
  moreover have "due l (f2 k) = due l (f k)" if "k < 3" "k \<noteq> h" "l \<le> now_of up rt k (w, e)" for k l
    using E(3) [OF that] T(5) [OF that(1,2) order_trans [OF that(3) E(2) [OF that(1)]]] by simp
  moreover have "(a, y) \<in> set (f2 k) \<longleftrightarrow> (a, y) \<in> set (f k)"
    if "y \<in> K" "k < 3" "y \<notin> snd ` set (due now (f h))" for y k a
  proof -
    have y: "y \<noteq> x" "y \<notin> snd ` set (due now (f1 h))" using that(3) assms(4,5) by auto
    then have "(a, y) \<in> set (f2 k) \<longleftrightarrow> (a, y) \<in> set ((f(h := rest)) k)" using T(6) E(4) that(1,2) by simp
    then show ?thesis using y(1) assms(6) by simp
  qed
  moreover have "log (snd s2) = log e @ map snd (due now (f h))" using T(2) assms(1,4,5) by simp
  ultimately show ?thesis using E(1) T(1,3) by (simp add: tickled_def)
qed

text \<open>The watchdog \<open>x\<close> was taken from header \<open>h\<close>.\<close>

definition wd_taken :: "nat set \<Rightarrow> nat \<Rightarrow> nat \<Rightarrow> watchdogs \<Rightarrow> (nat \<Rightarrow> 64 word keyed) \<Rightarrow> watchdogs \<Rightarrow> bool" where
  "wd_taken W h x w f w' \<longleftrightarrow> h < 3 \<and> x \<in> snd ` set (f h) \<and> wd_sys W w' (f(h := displace x (f h))) \<and> same_pending W w w'
     \<and> wd_routine w' = wd_routine w \<and> cpu_ticks w' = cpu_ticks w \<and> Watchdog_Get_state x w' = WATCHDOG_INACTIVE"

text \<open>The laws are for ticks up to a horizon below the overflow of the tick counter.\<close>

locale service_routines =
  fixes W K :: "nat set"
    and horizon :: nat
    and ok :: "watchdogs \<Rightarrow> (nat \<Rightarrow> 64 word keyed) \<Rightarrow> 'e \<Rightarrow> bool"
    and log :: "'e \<Rightarrow> nat list"
    and up rt :: "'e \<Rightarrow> timespec"
    and call :: "nat \<Rightarrow> nat \<Rightarrow> watchdogs \<times> 'e \<Rightarrow> (watchdogs \<times> 'e) option"
    and at_tick :: "'e \<Rightarrow> (watchdogs \<times> 'e \<Rightarrow> (watchdogs \<times> 'e) option) option"
  assumes horizon_bound: "horizon < 2 ^ 64"
    and ok_tick: "ok w f e \<Longrightarrow> ok (w\<lparr>ticks_since_boot := a, cpu_ticks := b\<rparr>) f e"
    and call_effect: "wd_sys W w f \<Longrightarrow> ok w f e \<Longrightarrow> unat (cpu_ticks w) \<le> horizon \<Longrightarrow> wd_taken W h x w f w1 \<Longrightarrow>
      \<exists>w' e' f'. call (wd_routine w1 x) x (w1, e) = Some (w', e') \<and> wd_sys W w' f' \<and> ok w' f' e' \<and> log e' = log e @ [x]
        \<and> effect up rt K {x} (w1, e) (f(h := displace x (f h))) (w', e') f'"
    and budget_effect: "wd_sys W w f \<Longrightarrow> ok w f e \<Longrightarrow> unat (cpu_ticks w) \<le> horizon \<Longrightarrow> at_tick e = Some budget \<Longrightarrow>
      \<exists>w' e' f'. budget (w, e) = Some (w', e') \<and> wd_sys W w' f' \<and> ok w' f' e' \<and> log e' = log e
        \<and> effect up rt K {} (w, e) f (w', e') f'"
begin

lemma tickle_head:
  assumes "wd_sys W w f" and "ok w f e" and "h < 3" and "f h = (t, x) # rest" and "t \<le> now" and "now \<le> now_of up rt h (w, e)"
    and "unat (cpu_ticks w) \<le> horizon"
  shows "\<exists>w' e' f'. Watchdog_Do_tickle call h x now (w, e) = tick_header call h (\<lambda>_. now) (w', e')
    \<and> wd_sys W w' f' \<and> ok w' f' e' \<and> log e' = log e @ [x] \<and> effect up rt K {x} (w, e) (f(h := rest)) (w', e') f'"
proof -
  note H = wd_holdsD [OF wd_sysD(1) [OF assms(1,3)]]
  have x: "wd_first w h = x" "x \<in> snd ` set (f h)" "wd_expire w x = t" "displace x (f h) = rest"
    using H(3,4,5) assms(4) by (auto simp: displace_def image_iff intro!: filter_True)
  obtain m where m: "RBTree_Extract h x (nodes w) = Some m"
    and W: "wd_sys W (Watchdog_Set_state x WATCHDOG_INACTIVE ((Watchdog_Next_first h x w)\<lparr>nodes := m\<rparr>)) (f(h := rest))"
    "same_pending W w (Watchdog_Set_state x WATCHDOG_INACTIVE ((Watchdog_Next_first h x w)\<lparr>nodes := m\<rparr>))"
    using extract_sys [OF assms(1,3) x(2)] unfolding x(1,4) by auto
  define w1 where "w1 = Watchdog_Set_state x WATCHDOG_INACTIVE ((Watchdog_Next_first h x w)\<lparr>nodes := m\<rparr>)"
  have r: "wd_routine w1 = wd_routine w" "cpu_ticks w1 = cpu_ticks w" by (simp_all add: w1_def)
  have "Watchdog_Get_state x w1 = WATCHDOG_INACTIVE" by (simp add: w1_def Watchdog_Get_state_def Watchdog_Set_state_def)
  then have T: "wd_taken W h x w f w1" using assms(3) x(2,4) W r by (simp add: wd_taken_def w1_def)
  obtain w' e' f' where C: "call (wd_routine w1 x) x (w1, e) = Some (w', e')" "wd_sys W w' f'" "ok w' f' e'" "log e' = log e @ [x]"
    "effect up rt K {x} (w1, e) (f(h := rest)) (w', e') f'" using call_effect [OF assms(1,2,7) T] unfolding x(4) by blast
  have nw: "now_of up rt k (w1, e) = now_of up rt k (w, e)" for k by (simp add: now_of_def r)
  have "effect up rt K {x} (w, e) (f(h := rest)) (w', e') f'" using C(5) unfolding effect_def nw fst_conv r(2) .
  moreover have "Watchdog_Do_tickle call h x now (w, e) = tick_header call h (\<lambda>_. now) (w', e')"
    using C(1) m x(3) assms(5) unfolding w1_def by (subst Watchdog_Do_tickle.simps) (simp add: tick_header_def Let_def)
  ultimately show ?thesis using C(2-4) by blast
qed

lemma tickle_ok:
  assumes "wd_sys W w f" and "ok w f e" and "h < 3" and "now \<le> now_of up rt h (w, e)" and "unat (cpu_ticks w) \<le> horizon"
  shows "\<exists>w' e' f'. tick_header call h (\<lambda>_. now) (w, e) = Some (w', e') \<and> wd_sys W w' f' \<and> ok w' f' e'
    \<and> tickled up rt K log h now (w, e) f (w', e') f'"
  using assms
proof (induction "length (due now (f h))" arbitrary: w e f rule: less_induct)
  case less
  note H = wd_holdsD [OF wd_sysD(1) [OF less.prems(1,3)]]
  have refl: "tickled up rt K log h now (w, e) f (w, e) f" if "due now (f h) = []" using that by (simp add: tickled_def)
  show ?case
  proof (cases "f h")
    case Nil
    then have "tick_header call h (\<lambda>_. now) (w, e) = Some (w, e)" using H(4) by (simp add: tick_header_def Watchdog_Header_first_def)
    then show ?thesis using less.prems refl Nil by (auto simp: due_def)
  next
    case (Cons p rest)
    obtain t x where p: "p = (t, x)" by (cases p)
    have x: "wd_first w h = x" "wd_expire w x = t" "x \<noteq> 0" using H(3,4,6) Cons p by auto
    then have T: "tick_header call h (\<lambda>_. now) (w, e) = Watchdog_Do_tickle call h x now (w, e)"
      by (simp add: tick_header_def Watchdog_Header_first_def)
    show ?thesis
    proof (cases "t \<le> now")
      case False
      then have "due now (f h) = []" using H(2) Cons p by (auto simp: due_def filter_empty_conv)
      moreover have "Watchdog_Do_tickle call h x now (w, e) = Some (w, e)" using x False by (subst Watchdog_Do_tickle.simps) simp
      ultimately show ?thesis using less.prems refl T by auto
    next
      case True
      obtain w1 e1 f1 where 1: "Watchdog_Do_tickle call h x now (w, e) = tick_header call h (\<lambda>_. now) (w1, e1)"
        "wd_sys W w1 f1" "ok w1 f1 e1" "log e1 = log e @ [x]" "effect up rt K {x} (w, e) (f(h := rest)) (w1, e1) f1"
        using tickle_head [OF less.prems(1-3) Cons [unfolded p] True less.prems(4,5)] by blast
      have d: "due now (f h) = (t, x) # due now rest" using Cons p True by (simp add: due_def)
      have d1: "due now (f1 h) = due now rest" using 1(5) less.prems(3,4) by (simp add: effect_def)
      have n: "now \<le> now_of up rt h (w1, e1)" using 1(5) less.prems(3,4) unfolding effect_def by (meson order_trans)
      have l: "length (due now (f1 h)) < length (due now (f h))" using d d1 by simp
      obtain w2 e2 f2 where 2: "tick_header call h (\<lambda>_. now) (w1, e1) = Some (w2, e2)" "wd_sys W w2 f2" "ok w2 f2 e2"
        "tickled up rt K log h now (w1, e1) f1 (w2, e2) f2" using less.hyps [OF l 1(2,3) less.prems(3) n] 1(5) less.prems(5)
        by (auto simp: effect_def)
      have "tickled up rt K log h now (w, e) f (w2, e2) f2"
        by (rule tickle_compose [OF 1(4,5) 2(4) d d1 Cons [unfolded p]])
      then show ?thesis using T 1(1) 2 by auto
    qed
  qed
qed

lemma tick_header_step:
  assumes "wd_sys W w f" and "ok w f e" and "h < 3" and "unat (cpu_ticks w) \<le> horizon"
  shows "\<exists>w' e' f'. tick_header call h (now_of up rt h) (w, e) = Some (w', e') \<and> wd_sys W w' f' \<and> ok w' f' e'
    \<and> tickled up rt K log h (now_of up rt h (w, e)) (w, e) f (w', e') f'"
proof -
  have "tick_header call h (now_of up rt h) (w, e) = tick_header call h (\<lambda>_. now_of up rt h (w, e)) (w, e)" by (simp add: tick_header_def Let_def)
  then show ?thesis using tickle_ok [OF assms(1-3) order_refl assms(4)] by simp
qed

text \<open>A watchdog of \<open>K\<close> on the first header survives the tickling of another header.\<close>

lemma bystander:
  assumes "wd_sys W w f" and "tickled up rt K log h now (w, e) f (w', e') f'" and "h < 3" and "h \<noteq> PER_CPU_WATCHDOG_TICKS"
    and "y \<in> K" and "(a, y) \<in> set (f PER_CPU_WATCHDOG_TICKS)"
  shows "(a, y) \<in> set (f' PER_CPU_WATCHDOG_TICKS) \<and> y \<notin> set (map snd (due now (f h)))"
proof -
  have "y \<in> snd ` set (f 0)" using assms(6) by force
  then have "y \<notin> snd ` set (f h)" using wd_sysD(4) [OF assms(1,3), of 0] assms(4) by auto
  then have n: "y \<notin> snd ` set (due now (f h))" by (auto simp: due_def)
  then show ?thesis using assms(2,5,6) by (simp add: tickled_def)
qed

lemma nothing_overdue:
  assumes "tickled up rt K log h now (w, e) f (w', e') f'" and "h \<noteq> PER_CPU_WATCHDOG_TICKS" and "due (cpu_ticks w) (f PER_CPU_WATCHDOG_TICKS) = []"
  shows "due (cpu_ticks w') (f' PER_CPU_WATCHDOG_TICKS) = []" and "cpu_ticks w' = cpu_ticks w"
proof -
  have T: "cpu_ticks w' = cpu_ticks w" "\<forall>l \<le> now_of up rt 0 (w, e). due l (f' 0) = due l (f 0)"
    using assms(1,2) unfolding tickled_def fst_conv by force+
  have "due (cpu_ticks w) (f' 0) = due (cpu_ticks w) (f 0)" using T(2) by (simp add: now_of_def)
  then show "due (cpu_ticks w') (f' PER_CPU_WATCHDOG_TICKS) = []" and "cpu_ticks w' = cpu_ticks w" using T(1) assms(3) by simp_all
qed

lemma tick_ok:
  assumes "wd_sys W w f" and "ok w f e" and "unat (cpu_ticks w) < horizon"
  shows "\<exists>w' e' f' new. Watchdog_Tick call up rt at_tick (w, e) = Some (w', e') \<and> wd_sys W w' f' \<and> ok w' f' e'
    \<and> cpu_ticks w' = cpu_ticks w + 1 \<and> due (cpu_ticks w') (f' PER_CPU_WATCHDOG_TICKS) = []
    \<and> log e' = log e @ map snd (due (cpu_ticks w + 1) (f PER_CPU_WATCHDOG_TICKS)) @ new
    \<and> (\<forall>y \<in> K. \<forall>a. (a, y) \<in> set (f PER_CPU_WATCHDOG_TICKS) \<longrightarrow> \<not> a \<le> cpu_ticks w + 1 \<longrightarrow>
         (a, y) \<in> set (f' PER_CPU_WATCHDOG_TICKS) \<and> y \<notin> set new)"
proof -
  define t where "t = cpu_ticks w + 1"
  define w0 where "w0 = w\<lparr>ticks_since_boot := ticks_since_boot w + 1, cpu_ticks := t\<rparr>"
  have u: "unat t \<le> horizon" using assms(3) horizon_bound tick_unat [of "cpu_ticks w" 1] by (simp add: t_def)
  have 0: "wd_sys W w0 f" "ok w0 f e" "now_of up rt 0 (w0, e) = t" "cpu_ticks w0 = t"
    using assms ok_tick [of w f e]
    by (simp_all add: w0_def wd_sys_def wd_holds_def Watchdog_Is_scheduled_def Watchdog_Get_state_def same_pending_def now_of_def)
  obtain w1 e1 f1 where 1: "tick_header call 0 (\<lambda>_. t) (w0, e) = Some (w1, e1)" "wd_sys W w1 f1" "ok w1 f1 e1"
    "tickled up rt K log 0 t (w0, e) f (w1, e1) f1" using tickle_ok [OF 0(1,2), of 0 t] 0(3,4) u by auto
  have d1: "cpu_ticks w1 = t" "due t (f1 0) = []" using 1(4) 0(4) by (simp_all add: tickled_def)
  obtain w2 e2 f2 where 2: "tick_header call 2 (now_of up rt 2) (w1, e1) = Some (w2, e2)" "wd_sys W w2 f2" "ok w2 f2 e2"
    "tickled up rt K log 2 (now_of up rt 2 (w1, e1)) (w1, e1) f1 (w2, e2) f2" using tick_header_step [OF 1(2,3), of 2] d1 u by auto
  have d2: "cpu_ticks w2 = t" "due t (f2 0) = []" using nothing_overdue [OF 2(4)] d1 by simp_all
  obtain w3 e3 f3 where 3: "tick_header call 1 (now_of up rt 1) (w2, e2) = Some (w3, e3)" "wd_sys W w3 f3" "ok w3 f3 e3"
    "tickled up rt K log 1 (now_of up rt 1 (w2, e2)) (w2, e2) f2 (w3, e3) f3" using tick_header_step [OF 2(2,3), of 1] d2 u by auto
  have d3: "cpu_ticks w3 = t" "due t (f3 0) = []" using nothing_overdue [OF 3(4)] d2 by simp_all
  have "\<exists>w4 e4 f4. (case at_tick e3 of None \<Rightarrow> Some (w3, e3) | Some b \<Rightarrow> b (w3, e3)) = Some (w4, e4) \<and> wd_sys W w4 f4 \<and> ok w4 f4 e4
      \<and> log e4 = log e3 \<and> effect up rt K {} (w3, e3) f3 (w4, e4) f4"
    using budget_effect [OF 3(2,3)] 3(2,3) d3 u by (cases "at_tick e3") (auto simp: effect_def)
  then obtain w4 e4 f4 where 4: "(case at_tick e3 of None \<Rightarrow> Some (w3, e3) | Some b \<Rightarrow> b (w3, e3)) = Some (w4, e4)" "wd_sys W w4 f4"
    "ok w4 f4 e4" "log e4 = log e3" "effect up rt K {} (w3, e3) f3 (w4, e4) f4" by blast
  define new where "new = map snd (due (now_of up rt 2 (w1, e1)) (f1 2)) @ map snd (due (now_of up rt 1 (w2, e2)) (f2 1))"
  have d4: "cpu_ticks w4 = t" "due t (f4 0) = []" using 4(5) d3 by (simp_all add: effect_def now_of_def)
  have L: "log e4 = log e @ map snd (due t (f 0)) @ new" using 1(4) 2(4) 3(4) 4(4) by (simp add: tickled_def new_def)
  have B: "(a, y) \<in> set (f4 0) \<and> y \<notin> set new" if "y \<in> K" "(a, y) \<in> set (f 0)" "\<not> a \<le> t" for y a
  proof -
    have "y \<notin> snd ` set (due t (f 0))" using not_due [OF assms(1), of 0] that(2,3) by simp
    then have k1: "(a, y) \<in> set (f1 0)" using 1(4) that by (simp add: tickled_def)
    have k2: "(a, y) \<in> set (f2 0) \<and> y \<notin> set (map snd (due (now_of up rt 2 (w1, e1)) (f1 2)))"
      using bystander [OF 1(2) 2(4) _ _ that(1) k1] by simp
    have k3: "(a, y) \<in> set (f3 0) \<and> y \<notin> set (map snd (due (now_of up rt 1 (w2, e2)) (f2 1)))"
      using bystander [OF 2(2) 3(4) _ _ that(1), of a] k2 by simp
    then show ?thesis using k2 k3 4(5) that(1) by (simp add: new_def effect_def)
  qed
  have now2: "now_of up rt 2 = (\<lambda>s. Watchdog_Ticks_from_timespec (up (snd s)))" "now_of up rt 1 = (\<lambda>s. Watchdog_Ticks_from_timespec (rt (snd s)))"
    by (simp_all add: now_of_def fun_eq_iff)
  have "Watchdog_Tick call up rt at_tick (w, e) = Some (w4, e4)"
    using 1(1) 2(1) 3(1) 4(1) unfolding now2 by (simp add: Watchdog_Tick_def w0_def t_def Let_def)
  moreover have "due (cpu_ticks w4) (f4 0) = []" using d4 by simp
  ultimately show ?thesis using 4(2,3) d4(1) L B unfolding t_def by blast
qed

text \<open>Ticks in a row.\<close>

lemma ticks_ok:
  assumes "wd_sys W w f" and "ok w f e" and "unat (cpu_ticks w) + n \<le> horizon"
  shows "\<exists>w' e' f' new. run_ticks (Watchdog_Tick call up rt at_tick) n (w, e) = Some (w', e') \<and> wd_sys W w' f' \<and> ok w' f' e'
    \<and> cpu_ticks w' = cpu_ticks w + of_nat n \<and> log e' = log e @ new
    \<and> (\<forall>y \<in> K. \<forall>a. (a, y) \<in> set (f PER_CPU_WATCHDOG_TICKS) \<longrightarrow> cpu_ticks w < a \<longrightarrow>
         (if a \<le> cpu_ticks w + of_nat n then y \<in> set new else (a, y) \<in> set (f' PER_CPU_WATCHDOG_TICKS) \<and> y \<notin> set new))"
  using assms
proof (induction n arbitrary: w e f)
  case 0
  then show ?case by (intro exI [of _ w] exI [of _ e] exI [of _ f] exI [of _ "[]"]) auto
next
  case (Suc n)
  obtain w1 e1 f1 n1 where 1: "Watchdog_Tick call up rt at_tick (w, e) = Some (w1, e1)" "wd_sys W w1 f1" "ok w1 f1 e1" "cpu_ticks w1 = cpu_ticks w + 1"
    "log e1 = log e @ map snd (due (cpu_ticks w + 1) (f 0)) @ n1"
    "\<forall>y \<in> K. \<forall>a. (a, y) \<in> set (f 0) \<longrightarrow> \<not> a \<le> cpu_ticks w + 1 \<longrightarrow> (a, y) \<in> set (f1 0) \<and> y \<notin> set n1"
    using tick_ok [OF Suc.prems(1,2)] Suc.prems(3) by auto
  have u: "unat (cpu_ticks w) + Suc n < 2 ^ 64" "unat (cpu_ticks w1) + n \<le> horizon"
    using Suc.prems(3) horizon_bound tick_unat [of "cpu_ticks w" 1] by (simp_all add: 1(4))
  obtain w2 e2 f2 n2 where 2: "run_ticks (Watchdog_Tick call up rt at_tick) n (w1, e1) = Some (w2, e2)" "wd_sys W w2 f2" "ok w2 f2 e2"
    "cpu_ticks w2 = cpu_ticks w1 + of_nat n" "log e2 = log e1 @ n2"
    "\<forall>y \<in> K. \<forall>a. (a, y) \<in> set (f1 0) \<longrightarrow> cpu_ticks w1 < a \<longrightarrow>
         (if a \<le> cpu_ticks w1 + of_nat n then y \<in> set n2 else (a, y) \<in> set (f2 0) \<and> y \<notin> set n2)"
    using Suc.IH [OF 1(2,3) u(2)] by blast
  define new where "new = map snd (due (cpu_ticks w + 1) (f 0)) @ n1 @ n2"
  have "if a \<le> cpu_ticks w + of_nat (Suc n) then y \<in> set new else (a, y) \<in> set (f2 0) \<and> y \<notin> set new"
    if "y \<in> K" "(a, y) \<in> set (f 0)" "cpu_ticks w < a" for y a
  proof (cases "a \<le> cpu_ticks w + 1")
    case True
    then have "y \<in> set new" using that(2) by (force simp: new_def due_def)
    moreover have "a \<le> cpu_ticks w + of_nat (Suc n)" using True tick_mono [of 1 "Suc n" "cpu_ticks w"] u(1) by simp
    ultimately show ?thesis by simp
  next
    case False
    have nd: "y \<notin> snd ` set (due (cpu_ticks w + 1) (f 0))" using not_due [OF Suc.prems(1), of 0] that(2) False by simp
    have k: "(a, y) \<in> set (f1 0)" "y \<notin> set n1" using 1(6) that(1,2) False by auto
    have "cpu_ticks w1 < a" using False by (simp add: 1(4))
    then have "if a \<le> cpu_ticks w1 + of_nat n then y \<in> set n2 else (a, y) \<in> set (f2 0) \<and> y \<notin> set n2" using 2(6) that(1) k(1) by blast
    then show ?thesis using nd k(2) by (auto simp: new_def 1(4) add.assoc split: if_splits)
  qed
  moreover have "log e2 = log e @ new" using 1(5) 2(5) by (simp add: new_def)
  moreover have "cpu_ticks w2 = cpu_ticks w + of_nat (Suc n)" using 1(4) 2(4) by (simp add: add.assoc)
  moreover have "run_ticks (Watchdog_Tick call up rt at_tick) (Suc n) (w, e) = Some (w2, e2)" using 1(1) 2(1) by simp
  ultimately show ?case using 2(2,3) by blast
qed

end

section \<open>Inactive and new watchdogs\<close>

text \<open>The state of a watchdog that is not scheduled may become inactive or pending.\<close>

lemma wd_sys_set_state:
  assumes "wd_sys W w f" and "unscheduled x f" and "st = WATCHDOG_INACTIVE \<or> st = WATCHDOG_PENDING"
  shows "wd_sys W (Watchdog_Set_state x st w) f"
proof -
  have "wd_holds h (Watchdog_Set_state x st w) (f h)" if "h < 3" for h
  proof -
    have "x \<notin> set (map snd (f h))" using assms(2) that by (simp add: unscheduled_def)
    then show ?thesis using wd_sysD(1) [OF assms(1) that] rb_list_set_color [of h "nodes w" "map snd (f h)" x st]
      by (simp add: wd_holds_def keyed_tree_def Watchdog_Set_state_def)
  qed
  moreover have "Watchdog_Is_scheduled y (Watchdog_Set_state x st w) \<longleftrightarrow> (\<exists>h < 3. y \<in> snd ` set (f h))" if "y \<in> W" for y
  proof (cases "y = x")
    case True
    then show ?thesis using assms(2,3) by (auto simp: Watchdog_Is_scheduled_def Watchdog_Get_state_def Watchdog_Set_state_def unscheduled_def)
  next
    case False
    then have "Watchdog_Is_scheduled y (Watchdog_Set_state x st w) = Watchdog_Is_scheduled y w"
      by (simp add: Watchdog_Is_scheduled_def Watchdog_Get_state_def Watchdog_Set_state_def)
    then show ?thesis using assms(1) that by (simp add: wd_sys_def)
  qed
  ultimately show ?thesis using assms(1) by (simp add: wd_sys_def)
qed

lemma wd_sys_insert_timer:
  assumes "wd_sys W w f" and "x \<notin> W" and "x \<noteq> 0" and "\<forall>h < 3. snd ` set (f h) \<subseteq> W"
  shows "wd_sys (insert x W) (Watchdog_Preinitialize x w) f"
proof -
  have u: "unscheduled x f" using assms(2,4) by (auto simp: unscheduled_def)
  have "wd_sys W (Watchdog_Preinitialize x w) f" unfolding Watchdog_Preinitialize_def by (rule wd_sys_set_state [OF assms(1) u]) simp
  moreover have "\<not> Watchdog_Is_scheduled x (Watchdog_Preinitialize x w)"
    by (simp add: Watchdog_Preinitialize_def Watchdog_Is_scheduled_def Watchdog_Get_state_def Watchdog_Set_state_def)
  ultimately show ?thesis using u assms(3) unfolding wd_sys_def unscheduled_def by blast
qed

text \<open>The initialised headers.\<close>

definition wd_start :: "watchdogs \<Rightarrow> watchdogs" where
  "wd_start w = Watchdog_Header_initialize 2 (Watchdog_Header_initialize 1 (Watchdog_Header_initialize 0 w))"

lemma wd_start_ok: "wd_sys {} (wd_start w) (\<lambda>_. [])"
proof -
  have "rb_list h (nodes (wd_start w)) []" if "h < 3" for h
  proof -
    have "rbh_root (nodes (wd_start w)) h = 0"
      using that by (auto simp: wd_start_def Watchdog_Header_initialize_def RBTree_Initialize_empty_def less_Suc_eq numeral_3_eq_3)
    then show ?thesis by (auto simp: rb_list_def is_tree_def red_black_def intro!: exI [of _ Leaf])
  qed
  moreover have "wd_first (wd_start w) h = 0" if "h < 3" for h
    using that by (auto simp: wd_start_def Watchdog_Header_initialize_def less_Suc_eq numeral_3_eq_3)
  ultimately show ?thesis by (simp add: wd_sys_def wd_holds_def keyed_tree_def)
qed

section \<open>Properties\<close>

text \<open>C19. The tickling of a header calls the routines of exactly the watchdogs that expired, in the order of their
  expiration times, and ends: for routines that keep the contract of the locale (they return, insert only watchdogs that expire
  later and remove no due one) no watchdog that is due is left, and the headers stay consistent.\<close>

theorem watchdog_tickle_in_order:
  assumes "service_routines W K horizon ok log up rt call at_tick" and "wd_sys W w f" and "ok w f e" and "h < 3"
    and "now \<le> now_of up rt h (w, e)" and "unat (cpu_ticks w) \<le> horizon" and "f h \<noteq> []"
  shows "\<exists>w' e' f'. Watchdog_Do_tickle call h (Watchdog_Header_first h w) now (w, e) = Some (w', e')
    \<and> log e' = log e @ map snd (filter (\<lambda>p. fst p \<le> now) (f h)) \<and> wd_sys W w' f' \<and> (\<forall>p \<in> set (f' h). now < fst p)
    \<and> sorted (map fst (f h))"
proof -
  obtain w' e' f' where T: "tick_header call h (\<lambda>_. now) (w, e) = Some (w', e')" "wd_sys W w' f'"
    "tickled up rt K log h now (w, e) f (w', e') f'"
    using service_routines.tickle_ok [OF assms(1-6)] by blast
  note H = wd_holdsD [OF wd_sysD(1) [OF assms(2,4)]]
  have "first_of (map snd (f h)) \<noteq> 0" using H(6) assms(7) by (cases "f h") auto
  then have "Watchdog_Do_tickle call h (Watchdog_Header_first h w) now (w, e) = Some (w', e')"
    using T(1) H(4) by (simp add: tick_header_def Watchdog_Header_first_def)
  moreover have "log e' = log e @ map snd (filter (\<lambda>p. fst p \<le> now) (f h))" "due now (f' h) = []" using T(3) by (simp_all add: tickled_def due_def)
  moreover have "\<forall>p \<in> set (f' h). now < fst p" using calculation(3) by (simp add: due_def filter_empty_conv not_le)
  ultimately show ?thesis using T(2) H(2) by blast
qed

text \<open>Routines that only record their watchdog.\<close>

definition record_call :: "nat \<Rightarrow> nat \<Rightarrow> watchdogs \<times> nat list \<Rightarrow> (watchdogs \<times> nat list) option" where
  "record_call routine x s = Some (fst s, snd s @ [x])"

interpretation rc: service_routines W W "2 ^ 64 - 1" "\<lambda>_ _ _. True" "\<lambda>e. e" "\<lambda>_. \<lparr>tv_sec = 0, tv_nsec = 0\<rparr>" "\<lambda>_. \<lparr>tv_sec = 0, tv_nsec = 0\<rparr>"
  record_call "\<lambda>_. None"
  by standard (auto simp: record_call_def effect_def now_of_def wd_taken_def)

theorem watchdog_tickle_in_order_witness:
  "\<exists>w1 w2 w'. Watchdog_Insert 0 5 2 (Watchdog_Preinitialize 6 (Watchdog_Preinitialize 5 (wd_start (no_watchdogs\<lparr>cpu_ticks := 3\<rparr>)))) = Some w1
    \<and> Watchdog_Insert 0 6 1 w1 = Some w2 \<and> Watchdog_Do_tickle record_call 0 (Watchdog_Header_first 0 w2) 3 (w2, []) = Some (w', [6, 5])"
proof -
  define w0 where "w0 = Watchdog_Preinitialize 6 (Watchdog_Preinitialize 5 (wd_start (no_watchdogs\<lparr>cpu_ticks := 3\<rparr>)))"
  have "wd_sys {5} (Watchdog_Preinitialize 5 (wd_start (no_watchdogs\<lparr>cpu_ticks := 3\<rparr>))) (\<lambda>_. [])"
    using wd_sys_insert_timer [OF wd_start_ok, of 5] by simp
  from wd_sys_insert_timer [OF this, of 6] have 0: "wd_sys {6, 5} w0 (\<lambda>_. [])" by (simp add: w0_def)
  obtain w1 where 1: "Watchdog_Insert 0 5 2 w0 = Some w1" "wd_sys {6, 5} w1 ((\<lambda>_. [])(0 := [(2, 5)]))" "cpu_ticks w1 = cpu_ticks w0"
    using wd_sys_insert [OF 0, of 0 5 2] by (auto simp: unscheduled_def place_def)
  obtain w2 where 2: "Watchdog_Insert 0 6 1 w1 = Some w2" "wd_sys {6, 5} w2 ((\<lambda>_. [])(0 := [(1, 6), (2, 5)]))" "cpu_ticks w2 = cpu_ticks w1"
  proof -
    have u: "unscheduled 6 ((\<lambda>_. [])(0 := [(2, 5)]))" by (auto simp: unscheduled_def)
    have p: "place 1 6 [(2 :: 64 word, 5)] = [(1, 6), (2, 5)]" by (simp add: place_def word_le_nat_alt)
    show thesis using wd_sys_insert [OF 1(2) _ _ u, of 0 1] that unfolding fun_upd_same p fun_upd_upd by auto
  qed
  have c: "cpu_ticks w2 = 3" using 1(3) 2(3) by (simp add: w0_def Watchdog_Preinitialize_def wd_start_def Watchdog_Header_initialize_def)
  define f2 :: "nat \<Rightarrow> 64 word keyed" where "f2 = (\<lambda>_. [])(0 := [(1, 6), (2, 5)])"
  have n: "3 \<le> now_of (\<lambda>_. \<lparr>tv_sec = 0, tv_nsec = 0\<rparr>) (\<lambda>_. \<lparr>tv_sec = 0, tv_nsec = 0\<rparr>) 0 (w2, [] :: nat list)" by (simp add: now_of_def c)
  have "\<exists>w' e'. Watchdog_Do_tickle record_call 0 (Watchdog_Header_first 0 w2) 3 (w2, []) = Some (w', e')
      \<and> e' = [] @ map snd (filter (\<lambda>p. fst p \<le> 3) (f2 0))"
    using watchdog_tickle_in_order [OF rc.service_routines_axioms 2(2) [folded f2_def] TrueI _ n] by (fastforce simp: c f2_def)
  then have "\<exists>w'. Watchdog_Do_tickle record_call 0 (Watchdog_Header_first 0 w2) 3 (w2, []) = Some (w', [6, 5])" by (simp add: f2_def word_le_nat_alt)
  then show ?thesis using 1(1) 2(1) unfolding w0_def by blast
qed

end
