(* ===== verification/Objects.thy ===== *)
theory Objects
  imports Prelude "HOL-Library.Monad_Syntax"
begin

text \<open>
  The objects of the score (\<^verbatim>\<open>cpukit/include/rtems/score/object.h\<close>, \<^verbatim>\<open>objectimpl.h\<close>,
  \<^verbatim>\<open>cpukit/score/src/object*.c\<close>) for a class with a fixed number of objects and 32-bit names, without
  multiprocessing. Objects are addresses, 0 is \<open>NULL\<close>; the table of the open objects is a list, an
  access outside of it is \<open>None\<close>; the chain of inactive objects is the list of its nodes; the memory of
  the objects has the size the configuration gives it, so writes to objects are no faults. The locks and the
  registration of the class in the global table of classes are not modelled; the pointer to the class and the
  pointer for the next identifier are not \<open>NULL\<close>.
\<close>

section \<open>Identifiers\<close>

unbundle bit_operations_syntax

type_synonym uint16 = "16 word"

definition Objects_Get_API :: "uint32 \<Rightarrow> uint32" where
  "Objects_Get_API i = drop_bit 24 i AND 0x7"

definition Objects_Get_class :: "uint32 \<Rightarrow> uint32" where
  "Objects_Get_class i = drop_bit 27 i AND 0x1f"

definition Objects_Get_node :: "uint32 \<Rightarrow> uint32" where
  "Objects_Get_node i = drop_bit 16 i AND 0xff"

definition Objects_Get_index :: "uint32 \<Rightarrow> uint16" where
  "Objects_Get_index i = ucast (drop_bit 0 i AND 0xffff)"

definition Objects_Build_id :: "uint32 \<Rightarrow> uint32 \<Rightarrow> uint32 \<Rightarrow> uint32 \<Rightarrow> uint32" where
  "Objects_Build_id the_api the_class node index =
     push_bit 24 the_api OR push_bit 27 the_class OR push_bit 16 node OR push_bit 0 index"

definition Objects_Get_minimum_id :: "uint32 \<Rightarrow> uint32" where
  "Objects_Get_minimum_id i = (i AND NOT 0xffff) + push_bit 0 1"

section \<open>The information on a class\<close>

record objects =
  maximum_id :: uint32
  local_table :: "nat list"
  Inactive :: "nat list"
  initial_objects :: nat
  object_size :: nat
  obj_id :: "nat \<Rightarrow> uint32"
  obj_name :: "nat \<Rightarrow> uint32"

definition Objects_Get_maximum_index :: "objects \<Rightarrow> uint16" where
  "Objects_Get_maximum_index info = Objects_Get_index (maximum_id info)"

text \<open>The loop over the objects: \<open>next\<close> is appended to the chain and gets its identifier. The index is a
  16-bit number.\<close>

partial_function (option) initialize_loop :: "uint32 \<Rightarrow> uint16 \<Rightarrow> uint16 \<Rightarrow> nat \<Rightarrow> objects \<Rightarrow> objects option" where
  "initialize_loop api_class_and_node maximum index nxt info =
     (if index \<le> maximum
      then initialize_loop api_class_and_node maximum (index + 1) (nxt + object_size info)
             (info\<lparr>Inactive := Inactive info @ [nxt],
                   obj_id := (obj_id info)(nxt := api_class_and_node OR push_bit 0 (ucast index))\<rparr>)
      else Some info)"

definition Objects_Initialize_information :: "objects \<Rightarrow> objects option" where
  "Objects_Initialize_information info =
     (let maximum = Objects_Get_index (maximum_id info);
          api_class_and_node = maximum_id info AND NOT 0xffff
      in initialize_loop api_class_and_node maximum 1 (initial_objects info) (info\<lparr>Inactive := []\<rparr>))"

definition Objects_Get_inactive :: "objects \<Rightarrow> nat \<times> objects" where
  "Objects_Get_inactive info =
     (case Inactive info of [] \<Rightarrow> (0, info) | x # xs \<Rightarrow> (x, info\<lparr>Inactive := xs\<rparr>))"

definition Objects_Allocate_static :: "objects \<Rightarrow> nat \<times> objects" where
  "Objects_Allocate_static = Objects_Get_inactive"

definition Objects_Free_static :: "nat \<Rightarrow> objects \<Rightarrow> objects" where
  "Objects_Free_static the_object info = info\<lparr>Inactive := Inactive info @ [the_object]\<rparr>"

definition Objects_Set_local_object :: "uint16 \<Rightarrow> nat \<Rightarrow> objects \<Rightarrow> objects option" where
  "Objects_Set_local_object index the_object info =
     (if 1 \<le> unat index \<and> unat index - 1 < length (local_table info)
      then Some (info\<lparr>local_table := (local_table info)[unat index - 1 := the_object]\<rparr>)
      else None)"

definition Objects_Open_u32 :: "nat \<Rightarrow> uint32 \<Rightarrow> objects \<Rightarrow> (uint32 \<times> objects) option" where
  "Objects_Open_u32 the_object name info = do {
     info \<leftarrow> Objects_Set_local_object (Objects_Get_index (obj_id info the_object)) the_object
       (info\<lparr>obj_name := (obj_name info)(the_object := name)\<rparr>);
     Some (obj_id info the_object, info)
   }"

definition Objects_Invalidate_Id :: "nat \<Rightarrow> objects \<Rightarrow> objects option" where
  "Objects_Invalidate_Id the_object info =
     Objects_Set_local_object (Objects_Get_index (obj_id info the_object)) 0 info"

definition Objects_Namespace_remove_u32 :: "nat \<Rightarrow> objects \<Rightarrow> objects" where
  "Objects_Namespace_remove_u32 the_object info = info\<lparr>obj_name := (obj_name info)(the_object := 0)\<rparr>"

definition Objects_Close :: "nat \<Rightarrow> objects \<Rightarrow> objects option" where
  "Objects_Close the_object info = do {
     info \<leftarrow> Objects_Invalidate_Id the_object info;
     Some (Objects_Namespace_remove_u32 the_object info)
   }"

section \<open>Lookup\<close>

definition table_read :: "nat \<Rightarrow> objects \<Rightarrow> nat option" where
  "table_read i info = (if i < length (local_table info) then Some (local_table info ! i) else None)"

definition Objects_Get :: "uint32 \<Rightarrow> objects \<Rightarrow> nat option" where
  "Objects_Get i info =
     (let delta = maximum_id info - i;
          end = ucast (Objects_Get_index (maximum_id info)) :: uint32
      in if delta < end
         then table_read (unat (end - 1 - delta)) info \<bind> (\<lambda>the_object. if the_object \<noteq> 0 then Some the_object else Some 0)
         else Some 0)"

definition Objects_Get_no_protection :: "uint32 \<Rightarrow> objects \<Rightarrow> nat option" where
  "Objects_Get_no_protection i info =
     (let delta = maximum_id info - i;
          end = ucast (Objects_Get_index (maximum_id info)) :: uint32
      in if delta < end then table_read (unat (end - 1 - delta)) info else Some 0)"

text \<open>The object and the identifier to continue with.\<close>

partial_function (option) get_next_loop :: "uint32 \<Rightarrow> objects \<Rightarrow> (nat \<times> uint32) option" where
  "get_next_loop next_id info =
     (if Objects_Get_index next_id > Objects_Get_maximum_index info then Some (0, - 1)
      else do {
        the_object \<leftarrow> Objects_Get_no_protection next_id info;
        if the_object = 0 then get_next_loop (next_id + 1) info else Some (the_object, next_id + 1)
      })"

definition Objects_Get_next :: "uint32 \<Rightarrow> objects \<Rightarrow> (nat \<times> uint32) option" where
  "Objects_Get_next i info =
     get_next_loop (if Objects_Get_index i = 0 then Objects_Get_minimum_id (maximum_id info) else i) info"

text \<open>The loops over the indices below the maximum.\<close>

fun count_from :: "nat \<Rightarrow> nat \<Rightarrow> objects \<Rightarrow> nat option" where
  "count_from 0 index info = Some 0"
| "count_from (Suc n) index info = do {
     the_object \<leftarrow> table_read index info;
     active \<leftarrow> count_from n (Suc index) info;
     Some (if the_object \<noteq> 0 then Suc active else active)
   }"

definition Objects_Active_count :: "objects \<Rightarrow> nat option" where
  "Objects_Active_count info = count_from (unat (Objects_Get_maximum_index info)) 0 info"

fun search_from :: "nat \<Rightarrow> nat \<Rightarrow> uint32 \<Rightarrow> objects \<Rightarrow> uint32 option option" where
  "search_from 0 index name info = Some None"
| "search_from (Suc n) index name info = do {
     the_object \<leftarrow> table_read index info;
     if the_object \<noteq> 0 \<and> name = obj_name info the_object then Some (Some (obj_id info the_object))
     else search_from n (Suc index) name info
   }"

text \<open>\<open>Inl\<close> is the status of the failure: \<open>True\<close> for \<open>STATUS_INVALID_ADDRESS\<close>, \<open>False\<close> for
  \<open>STATUS_INVALID_NAME\<close>; the node is one of the constants for all nodes (0) and the local node, or a number
  (the local node has the number 1).\<close>

definition Objects_Name_to_id_u32 :: "uint32 \<Rightarrow> uint32 \<Rightarrow> bool \<Rightarrow> objects \<Rightarrow> (bool + uint32) option" where
  "Objects_Name_to_id_u32 name node id_is_null info =
     (if id_is_null then Some (Inl True)
      else if node = 0 \<or> node = 0x7FFFFFFF \<or> node = 1
      then search_from (unat (Objects_Get_maximum_index info)) 0 name info \<bind>
             (\<lambda>r. Some (case r of Some i \<Rightarrow> Inr i | None \<Rightarrow> Inl False))
      else Some (Inl False))"

section \<open>Arithmetic of identifiers\<close>

lemma nat_low_bits: "k < 2 ^ 16 \<Longrightarrow> bit (k :: nat) i \<Longrightarrow> i < 16"
proof (rule ccontr)
  assume "k < 2 ^ 16" "bit k i" "\<not> i < 16"
  then have "k < 2 ^ i" using power_increasing [of 16 i "2 :: nat"] by simp
  then show False using \<open>bit k i\<close> by (simp add: bit_iff_odd)
qed

lemma index_mask: "(0xffff :: uint32) = mask 16"
  by (simp add: mask_eq_exp_minus_1)

lemma or_index: "k < 2 ^ 16 \<Longrightarrow> (x AND NOT 0xffff) OR of_nat k = (x AND NOT 0xffff :: uint32) + of_nat k"
proof -
  assume k: "k < 2 ^ 16"
  have "(x AND NOT 0xffff) AND of_nat k = (0 :: uint32)" unfolding index_mask
    by (rule bit_eqI) (auto simp: bit_simps dest: nat_low_bits [OF k])
  then show ?thesis by (simp add: disjunctive_add_eq_or)
qed

lemma index_of_id:
  assumes "k < 2 ^ 16"
  shows "Objects_Get_index ((x AND NOT 0xffff) + of_nat k) = of_nat k"
    and "((x AND NOT 0xffff) + of_nat k) AND NOT 0xffff = x AND NOT (0xffff :: uint32)"
proof -
  have "((x AND NOT (mask 16)) OR of_nat k) AND mask 16 = (of_nat k :: uint32)"
    by (rule bit_eqI) (auto simp: bit_simps dest: nat_low_bits [OF assms])
  moreover have "ucast (of_nat k :: uint32) = (of_nat k :: uint16)" using assms by (simp add: unsigned_of_nat take_bit_nat_eq_self)
  ultimately show "Objects_Get_index ((x AND NOT 0xffff) + of_nat k) = of_nat k"
    using or_index [OF assms] unfolding index_mask by (simp add: Objects_Get_index_def index_mask)
  have "((x AND NOT (mask 16)) OR of_nat k) AND NOT (mask 16) = x AND NOT (mask 16 :: uint32)"
    by (rule bit_eqI) (auto simp: bit_simps dest: nat_low_bits [OF assms])
  then show "((x AND NOT 0xffff) + of_nat k) AND NOT 0xffff = x AND NOT (0xffff :: uint32)" using or_index [OF assms] unfolding index_mask by simp
qed

lemma id_decompose: "x = (x AND NOT 0xffff) + of_nat (unat (Objects_Get_index x))"
proof -
  have "ucast (ucast (x AND mask 16) :: uint16) = x AND mask 16"
    by (rule bit_eqI) (auto simp: bit_simps)
  then have "of_nat (unat (Objects_Get_index x)) = x AND mask 16" by (simp add: Objects_Get_index_def index_mask)
  moreover have "x = (x AND NOT (mask 16)) OR (x AND mask 16)" by (rule bit_eqI) (auto simp: bit_simps)
  moreover have "(x AND NOT (mask 16)) AND (x AND mask 16) = 0" by (rule bit_eqI) (auto simp: bit_simps)
  ultimately show ?thesis unfolding index_mask by (simp add: disjunctive_add_eq_or)
qed

section \<open>Initialisation\<close>

text \<open>The number of objects, the address and the identifier of an object.\<close>

definition obj_count :: "objects \<Rightarrow> nat" where
  "obj_count info = unat (Objects_Get_index (maximum_id info))"

definition obj_addr :: "objects \<Rightarrow> nat \<Rightarrow> nat" where
  "obj_addr info i = initial_objects info + i * object_size info"

definition id_at :: "objects \<Rightarrow> nat \<Rightarrow> uint32" where
  "id_at info i = (maximum_id info AND NOT 0xffff) + of_nat (Suc i)"

lemma initialize_loop_ok:
  assumes "unat m < 65535" and "0 < object_size info" and "unat i + d = Suc (unat m)"
  shows "\<exists>ids. initialize_loop (x AND NOT 0xffff) m i nxt info =
      Some (info\<lparr>Inactive := Inactive info @ map (\<lambda>j. nxt + j * object_size info) [0..<d], obj_id := ids\<rparr>)
    \<and> (\<forall>j < d. ids (nxt + j * object_size info) = (x AND NOT 0xffff) + of_nat (unat i + j))
    \<and> (\<forall>a. a < nxt \<longrightarrow> ids a = obj_id info a)"
  using assms
proof (induction d arbitrary: i nxt info)
  case 0
  then have "\<not> i \<le> m" by (simp add: word_le_nat_alt)
  then show ?case by (subst initialize_loop.simps) (auto intro!: exI [of _ "obj_id info"])
next
  case (Suc d)
  have le: "i \<le> m" using Suc.prems by (simp add: word_le_nat_alt)
  have u: "unat (i + 1) = Suc (unat i)" using Suc.prems by (simp add: unat_word_ariths)
  define info1 where "info1 = info\<lparr>Inactive := Inactive info @ [nxt],
    obj_id := (obj_id info)(nxt := (x AND NOT 0xffff) OR push_bit 0 (ucast i))\<rparr>"
  have s: "object_size info1 = object_size info" by (simp add: info1_def)
  obtain ids where I: "initialize_loop (x AND NOT 0xffff) m (i + 1) (nxt + object_size info) info1 =
      Some (info1\<lparr>Inactive := Inactive info1 @ map (\<lambda>j. nxt + object_size info + j * object_size info) [0..<d], obj_id := ids\<rparr>)"
    "\<forall>j < d. ids (nxt + object_size info + j * object_size info) = (x AND NOT 0xffff) + of_nat (unat (i + 1) + j)"
    "\<forall>a. a < nxt + object_size info \<longrightarrow> ids a = obj_id info1 a"
    using Suc.IH [of info1 "i + 1" "nxt + object_size info"] Suc.prems u s by auto
  have m: "map (\<lambda>j. nxt + j * object_size info) [0..<Suc d] = nxt # map (\<lambda>j. nxt + object_size info + j * object_size info) [0..<d]"
  proof -
    have "[0..<Suc d] = 0 # map Suc [0..<d]" by (simp add: map_Suc_upt upt_conv_Cons del: upt_Suc)
    then show ?thesis by (simp add: comp_def add.assoc del: upt_Suc)
  qed
  have "initialize_loop (x AND NOT 0xffff) m i nxt info =
      Some (info\<lparr>Inactive := Inactive info @ map (\<lambda>j. nxt + j * object_size info) [0..<Suc d], obj_id := ids\<rparr>)"
    using I(1) le unfolding m by (subst initialize_loop.simps) (simp add: info1_def)
  moreover have "ids (nxt + j * object_size info) = (x AND NOT 0xffff) + of_nat (unat i + j)" if "j < Suc d" for j
  proof (cases j)
    case 0
    have "unat i < 2 ^ 16" using unsigned_less [where ?'a = nat, of i] by simp
    then have "(x AND NOT 0xffff) OR of_nat (unat i) = (x AND NOT 0xffff) + of_nat (unat i)" by (rule or_index)
    then show ?thesis using I(3) Suc.prems(2) 0 by (simp add: info1_def)
  next
    case (Suc j')
    then show ?thesis using I(2) [unfolded u] that by (simp add: algebra_simps)
  qed
  moreover have "ids a = obj_id info a" if "a < nxt" for a using I(3) that by (simp add: info1_def)
  ultimately show ?case by blast
qed

section \<open>The state of the objects of a class\<close>

definition objects_ok :: "objects \<Rightarrow> bool" where
  "objects_ok info \<longleftrightarrow> length (local_table info) = obj_count info \<and> 0 < initial_objects info \<and> 0 < object_size info
     \<and> (\<forall>i < obj_count info. obj_id info (obj_addr info i) = id_at info i
          \<and> (local_table info ! i = 0 \<or> local_table info ! i = obj_addr info i \<and> obj_addr info i \<notin> set (Inactive info)))
     \<and> distinct (Inactive info) \<and> set (Inactive info) \<subseteq> obj_addr info ` {..<obj_count info}"

definition is_open :: "objects \<Rightarrow> nat \<Rightarrow> bool" where
  "is_open info i \<longleftrightarrow> i < obj_count info \<and> local_table info ! i \<noteq> 0"

lemma obj_count_bound: "obj_count info < 2 ^ 16"
  using unsigned_less [where ?'a = nat, of "Objects_Get_index (maximum_id info)"] by (simp add: obj_count_def)

lemma obj_addr_inj: "0 < object_size info \<Longrightarrow> obj_addr info i = obj_addr info j \<longleftrightarrow> i = j"
  by (simp add: obj_addr_def)

lemma Objects_Initialize_ok:
  assumes "obj_count info < 65535" and "0 < object_size info" and "0 < initial_objects info"
    and "local_table info = replicate (obj_count info) 0"
  shows "\<exists>info'. Objects_Initialize_information info = Some info' \<and> objects_ok info' \<and> obj_count info' = obj_count info
    \<and> Inactive info' = map (obj_addr info) [0..<obj_count info] \<and> (\<forall>i. \<not> is_open info' i)
    \<and> initial_objects info' = initial_objects info \<and> object_size info' = object_size info \<and> maximum_id info' = maximum_id info"
proof -
  let ?m = "Objects_Get_index (maximum_id info)"
  have e: "obj_addr info = (\<lambda>j. initial_objects info + j * object_size info)" by (simp add: fun_eq_iff obj_addr_def)
  have "unat (1 :: uint16) + obj_count info = Suc (unat ?m)" by (simp add: obj_count_def)
  from initialize_loop_ok [of ?m "info\<lparr>Inactive := []\<rparr>" 1 "obj_count info" "maximum_id info" "initial_objects info", OF _ _ this]
  obtain ids where I: "Objects_Initialize_information info =
      Some (info\<lparr>Inactive := map (obj_addr info) [0..<obj_count info], obj_id := ids\<rparr>)"
    "\<forall>j < obj_count info. ids (obj_addr info j) = id_at info j"
    using assms(1,2) by (auto simp: Objects_Initialize_information_def obj_count_def e id_at_def)
  define info' where "info' = info\<lparr>Inactive := map (obj_addr info) [0..<obj_count info], obj_id := ids\<rparr>"
  have c: "obj_count info' = obj_count info" "obj_addr info' = obj_addr info" "id_at info' = id_at info"
    by (simp_all add: info'_def obj_count_def fun_eq_iff obj_addr_def id_at_def)
  have "inj_on (obj_addr info) A" for A using obj_addr_inj assms(2) by (auto simp: inj_on_def)
  then have "objects_ok info'" unfolding objects_ok_def c using assms I(2)
    by (auto simp: info'_def distinct_map)
  moreover have "\<forall>i. \<not> is_open info' i" using assms(4) unfolding is_open_def c by (simp add: info'_def)
  ultimately show ?thesis using I(1) c(1) by (intro exI [of _ info']) (simp add: info'_def)
qed

section \<open>Opening, closing and looking up\<close>

lemma objects_okD:
  assumes "objects_ok info"
  shows "length (local_table info) = obj_count info" "0 < initial_objects info" "0 < object_size info"
    "\<And>i. i < obj_count info \<Longrightarrow> obj_id info (obj_addr info i) = id_at info i"
    "\<And>i. i < obj_count info \<Longrightarrow> local_table info ! i \<noteq> 0 \<Longrightarrow> local_table info ! i = obj_addr info i \<and> obj_addr info i \<notin> set (Inactive info)"
    "distinct (Inactive info)" "set (Inactive info) \<subseteq> obj_addr info ` {..<obj_count info}"
  using assms by (auto simp: objects_ok_def)

lemma obj_addr_nonzero: "objects_ok info \<Longrightarrow> obj_addr info i \<noteq> 0"
  using objects_okD(2) by (fastforce simp: obj_addr_def)

lemma maximum_id_at: "maximum_id info = (maximum_id info AND NOT 0xffff) + of_nat (obj_count info)"
  using id_decompose [of "maximum_id info"] by (simp only: obj_count_def)

lemma index_at: "i < obj_count info \<Longrightarrow> Objects_Get_index (id_at info i) = of_nat (Suc i)"
  using index_of_id(1) [of "Suc i" "maximum_id info"] obj_count_bound [of info] unfolding id_at_def by simp

lemma unat_small: "k < 2 ^ 16 \<Longrightarrow> unat (of_nat k :: uint32) = k" "k < 2 ^ 16 \<Longrightarrow> unat (of_nat k :: uint16) = k"
  by (simp_all add: unat_of_nat)

text \<open>An identifier passes the check of the range exactly if it is the identifier of an object.\<close>

lemma lookup_range:
  assumes "d = maximum_id info - i" and "e = (ucast (Objects_Get_index (maximum_id info)) :: uint32)"
  shows "d < e \<longleftrightarrow> (\<exists>k < obj_count info. i = id_at info k)"
    and "k < obj_count info \<Longrightarrow> i = id_at info k \<Longrightarrow> unat (e - 1 - d) = k"
proof -
  let ?n = "obj_count info"
  have n: "?n < 2 ^ 16" by (rule obj_count_bound)
  have e: "e = of_nat ?n" by (simp add: assms(2) obj_count_def)
  then have ue: "unat e = ?n" using unat_small(1) [OF n] by simp
  define hi where "hi = maximum_id info AND NOT 0xffff"
  have M: "maximum_id info = hi + of_nat ?n" "\<And>k. id_at info k = hi + of_nat (Suc k)"
    using maximum_id_at [of info] by (simp_all only: hi_def id_at_def)
  have at: "d = of_nat (?n - Suc k)" if "k < ?n" "i = id_at info k" for k
    using that unfolding assms(1) M by (simp add: of_nat_diff)
  show "unat (e - 1 - d) = k" if "k < ?n" "i = id_at info k"
  proof -
    have "e - 1 - d = of_nat k" using at [OF that] that(1) e by (simp add: of_nat_diff)
    then show ?thesis using unat_small(1) [of k] that(1) n by simp
  qed
  show "d < e \<longleftrightarrow> (\<exists>k < ?n. i = id_at info k)"
  proof
    assume "d < e"
    then have u: "unat d < ?n" using ue by (simp add: word_less_nat_alt)
    have "i = maximum_id info - d" by (simp add: assms(1))
    also have "\<dots> = id_at info (?n - Suc (unat d))" unfolding M using u
      by (simp add: of_nat_diff Suc_diff_Suc algebra_simps)
    finally show "\<exists>k < ?n. i = id_at info k" using u by (intro exI [of _ "?n - Suc (unat d)"]) simp
  next
    assume "\<exists>k < ?n. i = id_at info k"
    then obtain k where k: "k < ?n" "i = id_at info k" by blast
    have "unat d = ?n - Suc k" using at [OF k] unat_small(1) [of "?n - Suc k"] n by simp
    then show "d < e" using ue k(1) by (simp add: word_less_nat_alt)
  qed
qed

lemma Objects_Get_ok:
  assumes "objects_ok info"
  shows "k < obj_count info \<Longrightarrow> Objects_Get (id_at info k) info = Some (local_table info ! k)"
    and "\<not> (\<exists>k < obj_count info. i = id_at info k) \<Longrightarrow> Objects_Get i info = Some 0"
    and "Objects_Get_no_protection i info = Objects_Get i info"
proof -
  note R = lookup_range [OF refl refl, where info = info]
  show "Objects_Get (id_at info k) info = Some (local_table info ! k)" if "k < obj_count info"
    using that R(1) [where i = "id_at info k"] R(2) [where i = "id_at info k"] objects_okD(1) [OF assms]
    unfolding Objects_Get_def Let_def table_read_def by auto
  show "Objects_Get i info = Some 0" if "\<not> (\<exists>k < obj_count info. i = id_at info k)"
    using that R(1) [where i = i] unfolding Objects_Get_def Let_def by auto
  show "Objects_Get_no_protection i info = Objects_Get i info"
    unfolding Objects_Get_def Objects_Get_no_protection_def Let_def by (auto simp: table_read_def)
qed

lemma obj_simps [simp]:
  "obj_count (info\<lparr>local_table := t\<rparr>) = obj_count info" "obj_addr (info\<lparr>local_table := t\<rparr>) = obj_addr info" "id_at (info\<lparr>local_table := t\<rparr>) = id_at info"
  "obj_count (info\<lparr>Inactive := c\<rparr>) = obj_count info" "obj_addr (info\<lparr>Inactive := c\<rparr>) = obj_addr info" "id_at (info\<lparr>Inactive := c\<rparr>) = id_at info"
  "obj_count (info\<lparr>obj_name := g\<rparr>) = obj_count info" "obj_addr (info\<lparr>obj_name := g\<rparr>) = obj_addr info" "id_at (info\<lparr>obj_name := g\<rparr>) = id_at info"
  by (simp_all add: obj_count_def obj_addr_def id_at_def fun_eq_iff)

lemma Objects_Open_ok:
  assumes "objects_ok info" and "i < obj_count info" and "obj_addr info i \<notin> set (Inactive info)"
  shows "\<exists>info'. Objects_Open_u32 (obj_addr info i) name info = Some (id_at info i, info')
    \<and> info' = info\<lparr>obj_name := (obj_name info)(obj_addr info i := name), local_table := (local_table info)[i := obj_addr info i]\<rparr>
    \<and> objects_ok info'"
proof -
  note O = objects_okD [OF assms(1)]
  have x: "Objects_Get_index (obj_id info (obj_addr info i)) = of_nat (Suc i)" using O(4) index_at assms(2) by simp
  have u: "unat (of_nat (Suc i) :: uint16) = Suc i" using unat_small(2) [of "Suc i"] obj_count_bound [of info] assms(2) by simp
  define info' where "info' = info\<lparr>obj_name := (obj_name info)(obj_addr info i := name), local_table := (local_table info)[i := obj_addr info i]\<rparr>"
  have "Objects_Open_u32 (obj_addr info i) name info = Some (id_at info i, info')"
    unfolding Objects_Open_u32_def x Objects_Set_local_object_def u info'_def using O(1,4) assms(2) by simp
  moreover have "objects_ok info'" unfolding objects_ok_def info'_def using O assms(2,3) by (auto simp: nth_list_update)
  ultimately show ?thesis unfolding info'_def by blast
qed

lemma Objects_Close_ok:
  assumes "objects_ok info" and "i < obj_count info"
  shows "\<exists>info'. Objects_Close (obj_addr info i) info = Some info'
    \<and> info' = info\<lparr>local_table := (local_table info)[i := 0], obj_name := (obj_name info)(obj_addr info i := 0)\<rparr> \<and> objects_ok info'"
proof -
  note O = objects_okD [OF assms(1)]
  have x: "Objects_Get_index (obj_id info (obj_addr info i)) = of_nat (Suc i)" using O(4) index_at assms(2) by simp
  have u: "unat (of_nat (Suc i) :: uint16) = Suc i" using unat_small(2) [of "Suc i"] obj_count_bound [of info] assms(2) by simp
  define info' where "info' = info\<lparr>local_table := (local_table info)[i := 0], obj_name := (obj_name info)(obj_addr info i := 0)\<rparr>"
  have "Objects_Close (obj_addr info i) info = Some info'"
    unfolding Objects_Close_def Objects_Invalidate_Id_def x Objects_Set_local_object_def u info'_def Objects_Namespace_remove_u32_def
    using O(1) assms(2) by simp
  moreover have "objects_ok info'" unfolding objects_ok_def info'_def using O assms(2) by (auto simp: nth_list_update split: if_splits)
  ultimately show ?thesis unfolding info'_def by blast
qed

lemma count_from_ok:
  "i + n \<le> length (local_table info) \<Longrightarrow> count_from n i info = Some (length (filter (\<lambda>j. local_table info ! j \<noteq> 0) [i..<i + n]))"
proof (induction n arbitrary: i)
  case (Suc n)
  have "[i..<i + Suc n] = i # [Suc i..<Suc i + n]" by (simp add: upt_conv_Cons)
  then show ?case using Suc by (simp add: table_read_def)
qed simp

lemma search_from_ok:
  "i + n \<le> length (local_table info) \<Longrightarrow> search_from n i name info =
     Some (map_option (\<lambda>j. obj_id info (local_table info ! j))
       (find (\<lambda>j. local_table info ! j \<noteq> 0 \<and> name = obj_name info (local_table info ! j)) [i..<i + n]))"
proof (induction n arbitrary: i)
  case (Suc n)
  have "[i..<i + Suc n] = i # [Suc i..<Suc i + n]" by (simp add: upt_conv_Cons)
  then show ?case using Suc by (simp add: table_read_def)
qed simp

end
