(* ===== verification/Objects_Client.thy ===== *)
theory Objects_Client
  imports Objects
begin

text \<open>
  What the objects of a class promise: identifiers are handles into a table of open objects. The requests
  compose the operations as the directives of the Classic API do (allocate and open, look up and close and
  free, search a name); they refine a table of names and a queue of free indices.
\<close>

section \<open>The class of an identifier\<close>

lemma field_bits:
  "Objects_Get_API x = drop_bit 24 (take_bit 27 x)" "Objects_Get_class x = drop_bit 27 x"
  "Objects_Get_node x = drop_bit 16 (take_bit 24 x)"
proof -
  have m: "(0x7 :: uint32) = mask 3" "(0x1f :: uint32) = mask 5" "(0xff :: uint32) = mask 8" by (simp_all add: mask_eq_exp_minus_1)
  show "Objects_Get_API x = drop_bit 24 (take_bit 27 x)" "Objects_Get_class x = drop_bit 27 x"
    "Objects_Get_node x = drop_bit 16 (take_bit 24 x)"
    unfolding Objects_Get_API_def Objects_Get_class_def Objects_Get_node_def m
    by (rule bit_eqI, auto simp: bit_simps dest: bit_imp_le_length)+
qed

lemma same_class:
  "x AND NOT 0xffff = y AND NOT (0xffff :: uint32) \<longleftrightarrow>
     Objects_Get_API x = Objects_Get_API y \<and> Objects_Get_class x = Objects_Get_class y \<and> Objects_Get_node x = Objects_Get_node y"
proof
  assume "x AND NOT 0xffff = y AND NOT (0xffff :: uint32)"
  then have b: "bit x i = bit y i" if "16 \<le> i" for i
    using that bit_eq_iff [of "x AND NOT (mask 16)" "y AND NOT (mask 16)"] unfolding index_mask
    by (cases "i < 32") (auto simp: bit_simps dest: bit_imp_le_length)
  show "Objects_Get_API x = Objects_Get_API y \<and> Objects_Get_class x = Objects_Get_class y \<and> Objects_Get_node x = Objects_Get_node y"
    unfolding field_bits by (intro conjI; rule bit_eqI) (auto simp: bit_simps b)
next
  assume a: "Objects_Get_API x = Objects_Get_API y \<and> Objects_Get_class x = Objects_Get_class y \<and> Objects_Get_node x = Objects_Get_node y"
  then have "bit (drop_bit 24 (take_bit 27 x)) (i - 24) = bit (drop_bit 24 (take_bit 27 y)) (i - 24)"
    "bit (drop_bit 27 x) (i - 27) = bit (drop_bit 27 y) (i - 27)"
    "bit (drop_bit 16 (take_bit 24 x)) (i - 16) = bit (drop_bit 16 (take_bit 24 y)) (i - 16)" for i
    unfolding field_bits by simp_all
  note e = this
  have "bit x i = bit y i" if "16 \<le> i" "i < 32" for i
    using that e(1) [of i] e(2) [of i] e(3) [of i] by (cases "i < 24"; cases "i < 27") (auto simp: bit_simps)
  then show "x AND NOT 0xffff = y AND NOT (0xffff :: uint32)" unfolding index_mask by (intro bit_eqI) (auto simp: bit_simps)
qed

text \<open>The index that an identifier stands for in a class.\<close>

definition decode :: "objects \<Rightarrow> uint32 \<Rightarrow> nat option" where
  "decode info i =
     (if Objects_Get_API i = Objects_Get_API (maximum_id info) \<and> Objects_Get_class i = Objects_Get_class (maximum_id info)
         \<and> Objects_Get_node i = Objects_Get_node (maximum_id info)
         \<and> 1 \<le> unat (Objects_Get_index i) \<and> unat (Objects_Get_index i) \<le> obj_count info
      then Some (unat (Objects_Get_index i) - 1) else None)"

lemma decode_iff: "decode info i = Some k \<longleftrightarrow> k < obj_count info \<and> i = id_at info k"
proof
  assume "decode info i = Some k"
  then have d: "Objects_Get_API i = Objects_Get_API (maximum_id info) \<and> Objects_Get_class i = Objects_Get_class (maximum_id info)
      \<and> Objects_Get_node i = Objects_Get_node (maximum_id info)" "unat (Objects_Get_index i) = Suc k" "k < obj_count info"
    by (auto simp: decode_def split: if_splits)
  have "i AND NOT 0xffff = maximum_id info AND NOT 0xffff" using d(1) same_class by blast
  then show "k < obj_count info \<and> i = id_at info k" using id_decompose [of i] d(2,3) unfolding id_at_def by metis
next
  assume k: "k < obj_count info \<and> i = id_at info k"
  have b: "Suc k < 2 ^ 16" using k obj_count_bound [of info] by simp
  have "i AND NOT 0xffff = maximum_id info AND NOT 0xffff" using index_of_id(2) [OF b] k unfolding id_at_def by blast
  moreover have "unat (Objects_Get_index i) = Suc k" using index_at k unat_small(2) [OF b] by simp
  ultimately show "decode info i = Some k" using k same_class by (auto simp: decode_def)
qed

lemma Objects_Get_decode:
  assumes "objects_ok info"
  shows "Objects_Get i info = Some (case decode info i of None \<Rightarrow> 0 | Some k \<Rightarrow> local_table info ! k)"
proof (cases "decode info i")
  case None
  then have "\<not> (\<exists>k < obj_count info. i = id_at info k)" using decode_iff by (metis option.distinct(1))
  then show ?thesis using Objects_Get_ok(2) [OF assms] None by simp
next
  case (Some k)
  then show ?thesis using Objects_Get_ok(1) [OF assms, of k] decode_iff [of info i k] by simp
qed

section \<open>Requests\<close>

datatype obj_request = Create uint32 | Delete uint32 | Ident uint32 | Lookup uint32
datatype obj_result = Id uint32 | Too_many | Invalid_name | Invalid_id | Done | Object nat

fun obj_step :: "obj_request \<Rightarrow> objects \<Rightarrow> (obj_result \<times> objects) option" where
  "obj_step (Create name) info =
     (let (the_object, info) = Objects_Allocate_static info in
      if the_object = 0 then Some (Too_many, info)
      else Objects_Open_u32 the_object name info \<bind> (\<lambda>(i, info). Some (Id i, info)))"
| "obj_step (Delete i) info = do {
     the_object \<leftarrow> Objects_Get i info;
     if the_object = 0 then Some (Invalid_id, info)
     else Objects_Close the_object info \<bind> (\<lambda>info. Some (Done, Objects_Free_static the_object info))
   }"
| "obj_step (Ident name) info =
     Objects_Name_to_id_u32 name 0 False info \<bind> (\<lambda>r. Some (case r of Inl _ \<Rightarrow> Invalid_name | Inr i \<Rightarrow> Id i, info))"
| "obj_step (Lookup i) info = Objects_Get i info \<bind> (\<lambda>the_object. Some (if the_object = 0 then Invalid_id else Object the_object, info))"

fun obj_run :: "obj_request list \<Rightarrow> objects \<Rightarrow> (obj_result list \<times> objects) option" where
  "obj_run [] info = Some ([], info)"
| "obj_run (r # rs) info = do {
     (a, info) \<leftarrow> obj_step r info;
     (as, info) \<leftarrow> obj_run rs info;
     Some (a # as, info)
   }"

text \<open>The specification: the names of the open objects by index, and the free indices in the order in which
  they will be used.\<close>

record handles =
  names :: "nat \<Rightarrow> uint32 option"
  free :: "nat list"

fun handle_step :: "objects \<Rightarrow> obj_request \<Rightarrow> handles \<Rightarrow> obj_result \<times> handles" where
  "handle_step info (Create name) h =
     (case free h of [] \<Rightarrow> (Too_many, h) | i # is \<Rightarrow> (Id (id_at info i), \<lparr>names = (names h)(i \<mapsto> name), free = is\<rparr>))"
| "handle_step info (Delete x) h =
     (case decode info x of
        Some i \<Rightarrow> if names h i = None then (Invalid_id, h) else (Done, \<lparr>names = (names h)(i := None), free = free h @ [i]\<rparr>)
      | None \<Rightarrow> (Invalid_id, h))"
| "handle_step info (Ident name) h =
     (case find (\<lambda>i. names h i = Some name) [0..<obj_count info] of Some i \<Rightarrow> (Id (id_at info i), h) | None \<Rightarrow> (Invalid_name, h))"
| "handle_step info (Lookup x) h =
     (case decode info x of
        Some i \<Rightarrow> if names h i = None then (Invalid_id, h) else (Object (obj_addr info i), h)
      | None \<Rightarrow> (Invalid_id, h))"

fun handle_run :: "objects \<Rightarrow> obj_request list \<Rightarrow> handles \<Rightarrow> obj_result list \<times> handles" where
  "handle_run info [] h = ([], h)"
| "handle_run info (r # rs) h =
     (let (a, h) = handle_step info r h; (as, h) = handle_run info rs h in (a # as, h))"

text \<open>The two states: no index is both open and free.\<close>

definition obj_represents :: "objects \<Rightarrow> objects \<Rightarrow> handles \<Rightarrow> bool" where
  "obj_represents info0 info h \<longleftrightarrow> objects_ok info \<and> maximum_id info = maximum_id info0
     \<and> initial_objects info = initial_objects info0 \<and> object_size info = object_size info0
     \<and> Inactive info = map (obj_addr info0) (free h) \<and> set (free h) \<subseteq> {..<obj_count info0}
     \<and> (\<forall>i < obj_count info0. names h i = (if local_table info ! i = 0 then None else Some (obj_name info (obj_addr info0 i))))"

lemma obj_representsD:
  assumes "obj_represents info0 info h"
  shows "objects_ok info" "obj_count info = obj_count info0" "obj_addr info = obj_addr info0" "id_at info = id_at info0" "decode info = decode info0"
    "Inactive info = map (obj_addr info0) (free h)" "set (free h) \<subseteq> {..<obj_count info0}"
    "\<And>i. i < obj_count info0 \<Longrightarrow> names h i = (if local_table info ! i = 0 then None else Some (obj_name info (obj_addr info0 i)))"
    "\<And>i. i < obj_count info0 \<Longrightarrow> local_table info ! i \<noteq> 0 \<Longrightarrow> local_table info ! i = obj_addr info0 i"
    "0 < object_size info0" "\<And>i. obj_addr info0 i \<noteq> 0"
proof -
  show ok: "objects_ok info" using assms by (simp add: obj_represents_def)
  show c: "obj_count info = obj_count info0" "obj_addr info = obj_addr info0" "id_at info = id_at info0"
    using assms by (simp_all add: obj_represents_def obj_count_def obj_addr_def id_at_def fun_eq_iff)
  show "decode info = decode info0" using assms c by (simp add: obj_represents_def decode_def fun_eq_iff)
  show "Inactive info = map (obj_addr info0) (free h)" "set (free h) \<subseteq> {..<obj_count info0}" "0 < object_size info0"
    using assms objects_okD(3) [OF ok] by (simp_all add: obj_represents_def)
  show "names h i = (if local_table info ! i = 0 then None else Some (obj_name info (obj_addr info0 i)))" if "i < obj_count info0" for i
    using assms that by (simp add: obj_represents_def)
  show "local_table info ! i = obj_addr info0 i" if "i < obj_count info0" "local_table info ! i \<noteq> 0" for i
    using objects_okD(5) [OF ok] that c by simp
  show "obj_addr info0 i \<noteq> 0" for i using obj_addr_nonzero [OF ok] c by simp
qed

lemma create_refines:
  assumes "obj_represents info0 info h"
  shows "\<exists>info'. obj_step (Create name) info = Some (fst (handle_step info0 (Create name) h), info')
    \<and> obj_represents info0 info' (snd (handle_step info0 (Create name) h))"
proof (cases "free h")
  case Nil
  then show ?thesis using assms obj_representsD(6) [OF assms]
    by (intro exI [of _ info]) (simp add: Objects_Allocate_static_def Objects_Get_inactive_def)
next
  case (Cons i js)
  note R = obj_representsD [OF assms]
  define info1 where "info1 = info\<lparr>Inactive := map (obj_addr info0) js\<rparr>"
  have i: "i < obj_count info0" "Inactive info = obj_addr info0 i # map (obj_addr info0) js" using R(6,7) Cons by auto
  have D: "distinct (obj_addr info0 i # map (obj_addr info0) js)" using objects_okD(6) [OF R(1)] i(2) by simp
  have ok1: "objects_ok info1" using R(1) D i(2) unfolding objects_ok_def info1_def by auto
  have c: "obj_count info1 = obj_count info0" "obj_addr info1 = obj_addr info0" "id_at info1 = id_at info0"
    using R(2-4) by (simp_all add: info1_def)
  obtain info' where O: "Objects_Open_u32 (obj_addr info0 i) name info1 = Some (id_at info0 i, info')"
    "info' = info1\<lparr>obj_name := (obj_name info1)(obj_addr info0 i := name), local_table := (local_table info1)[i := obj_addr info0 i]\<rparr>"
    "objects_ok info'"
  proof -
    have "obj_addr info0 i \<notin> set (Inactive info1)" using D by (simp add: info1_def)
    then show thesis using Objects_Open_ok [OF ok1, of i name] i(1) that unfolding c by blast
  qed
  have n: "length (local_table info) = obj_count info0" using objects_okD(1) [OF R(1)] R(2) by simp
  have "obj_step (Create name) info = Some (Id (id_at info0 i), info')"
    using O(1) i(2) R(11) [of i] by (simp add: Objects_Allocate_static_def Objects_Get_inactive_def info1_def)
  moreover have "obj_represents info0 info' \<lparr>names = (names h)(i \<mapsto> name), free = js\<rparr>"
    unfolding obj_represents_def using O(3) assms R(7,8) Cons i(1) n obj_addr_inj [OF R(10)] R(11)
    by (auto simp: O(2) info1_def obj_represents_def nth_list_update)
  ultimately show ?thesis using Cons by (intro exI [of _ info']) simp
qed

lemma delete_refines:
  assumes "obj_represents info0 info h"
  shows "\<exists>info'. obj_step (Delete x) info = Some (fst (handle_step info0 (Delete x) h), info')
    \<and> obj_represents info0 info' (snd (handle_step info0 (Delete x) h))"
proof (cases "\<exists>i. decode info0 x = Some i \<and> names h i \<noteq> None")
  case False
  note R = obj_representsD [OF assms]
  have "Objects_Get x info = Some 0"
    using False R(8) decode_iff [of info0 x] unfolding Objects_Get_decode [OF R(1)] R(5) by (auto split: option.splits if_splits)
  then show ?thesis using assms False by (intro exI [of _ info]) (auto split: option.splits)
next
  case True
  note R = obj_representsD [OF assms]
  obtain i where i: "decode info0 x = Some i" "names h i \<noteq> None" using True by blast
  have ic: "i < obj_count info0" using i(1) decode_iff by blast
  have t: "local_table info ! i \<noteq> 0" using R(8) [OF ic] i(2) by (metis)
  have a: "local_table info ! i = obj_addr info0 i" using R(9) [OF ic t] .
  have g: "Objects_Get x info = Some (obj_addr info0 i)" unfolding Objects_Get_decode [OF R(1)] R(5) using i(1) a by simp
  obtain info1 where C: "Objects_Close (obj_addr info0 i) info = Some info1"
    "info1 = info\<lparr>local_table := (local_table info)[i := 0], obj_name := (obj_name info)(obj_addr info0 i := 0)\<rparr>" "objects_ok info1"
    using Objects_Close_ok [OF R(1), of i] ic unfolding R(2,3) by auto
  define info' where "info' = Objects_Free_static (obj_addr info0 i) info1"
  have n: "length (local_table info) = obj_count info0" using objects_okD(1) [OF R(1)] R(2) by simp
  have ni: "obj_addr info0 i \<notin> set (Inactive info)" using objects_okD(5) [OF R(1), of i] ic t unfolding R(2,3) by simp
  have "obj_step (Delete x) info = Some (Done, info')" using g C(1) R(11) by (simp add: info'_def)
  moreover have "objects_ok info'"
    using C(3) ni ic n R(2,3) obj_addr_inj [OF R(10)] unfolding objects_ok_def info'_def Objects_Free_static_def C(2)
    by (auto simp: nth_list_update split: if_splits)
  then have "obj_represents info0 info' \<lparr>names = (names h)(i := None), free = free h @ [i]\<rparr>"
    unfolding obj_represents_def using assms R(6-8) ic n obj_addr_inj [OF R(10)]
    by (auto simp: info'_def Objects_Free_static_def C(2) obj_represents_def nth_list_update)
  ultimately show ?thesis using i by (intro exI [of _ info']) simp
qed

lemma ident_refines:
  assumes "obj_represents info0 info h"
  shows "obj_step (Ident name) info = Some (fst (handle_step info0 (Ident name) h), info)"
proof -
  note R = obj_representsD [OF assms]
  have n: "length (local_table info) = obj_count info0" using objects_okD(1) [OF R(1)] R(2) by simp
  have m: "unat (Objects_Get_maximum_index info) = obj_count info0" using R(2) by (simp add: Objects_Get_maximum_index_def obj_count_def)
  have eq: "find (\<lambda>j. local_table info ! j \<noteq> 0 \<and> name = obj_name info (local_table info ! j)) [0..<obj_count info0]
      = find (\<lambda>i. names h i = Some name) [0..<obj_count info0]"
    using R(8,9) by (intro find_cong) auto
  have e: "Objects_Name_to_id_u32 name 0 False info = Some (case find (\<lambda>i. names h i = Some name) [0..<obj_count info0] of
      Some j \<Rightarrow> Inr (obj_id info (local_table info ! j)) | None \<Rightarrow> Inl False)"
  proof -
    have "search_from (obj_count info0) 0 name info = Some (map_option (\<lambda>j. obj_id info (local_table info ! j))
        (find (\<lambda>i. names h i = Some name) [0..<obj_count info0]))"
      using search_from_ok [of 0 "obj_count info0" info name] n unfolding add_0 eq by simp
    then show ?thesis unfolding Objects_Name_to_id_u32_def m by (simp split: option.split)
  qed
  show ?thesis
  proof (cases "find (\<lambda>i. names h i = Some name) [0..<obj_count info0]")
    case (Some j)
    then have j: "j < obj_count info0" "names h j = Some name" by (auto simp: find_Some_iff)
    then have "local_table info ! j = obj_addr info0 j" using R(8,9) by (metis option.distinct(1))
    then have "obj_id info (local_table info ! j) = id_at info0 j" using objects_okD(4) [OF R(1), of j] j(1) unfolding R(2-4) by simp
    then show ?thesis using e Some by simp
  qed (use e in simp)
qed

lemma lookup_refines:
  assumes "obj_represents info0 info h"
  shows "obj_step (Lookup x) info = Some (fst (handle_step info0 (Lookup x) h), info)"
proof -
  note R = obj_representsD [OF assms]
  show ?thesis
  proof (cases "decode info0 x")
    case (Some i)
    then have "i < obj_count info0" using decode_iff by blast
    then show ?thesis using R(8,9,11) Some by (simp add: Objects_Get_decode [OF R(1)] R(5))
  qed (simp add: Objects_Get_decode [OF R(1)] R(5))
qed

lemma step_refines:
  assumes "obj_represents info0 info h"
  shows "\<exists>info'. obj_step r info = Some (fst (handle_step info0 r h), info') \<and> obj_represents info0 info' (snd (handle_step info0 r h))"
proof (cases r)
  case (Create name) then show ?thesis using create_refines [OF assms] by simp
next
  case (Delete x) then show ?thesis using delete_refines [OF assms] by simp
next
  case (Ident name)
  then show ?thesis using ident_refines [OF assms] assms by (auto split: option.splits)
next
  case (Lookup x)
  then show ?thesis using lookup_refines [OF assms] assms by (auto split: option.splits)
qed

lemma obj_run_refines:
  assumes "obj_represents info0 info h"
  shows "\<exists>info'. obj_run rs info = Some (fst (handle_run info0 rs h), info') \<and> obj_represents info0 info' (snd (handle_run info0 rs h))"
  using assms
proof (induction rs arbitrary: info h)
  case (Cons r rs)
  obtain info1 where 1: "obj_step r info = Some (fst (handle_step info0 r h), info1)" "obj_represents info0 info1 (snd (handle_step info0 r h))"
    using step_refines [OF Cons.prems] by blast
  obtain info2 where 2: "obj_run rs info1 = Some (fst (handle_run info0 rs (snd (handle_step info0 r h))), info2)"
    "obj_represents info0 info2 (snd (handle_run info0 rs (snd (handle_step info0 r h))))" using Cons.IH [OF 1(2)] by blast
  show ?case using 1(1) 2 by (intro exI [of _ info2]) (simp add: case_prod_beta Let_def)
qed simp

lemma initially_represents:
  assumes "obj_count info < 65535" and "0 < object_size info" and "0 < initial_objects info"
    and "local_table info = replicate (obj_count info) 0"
  shows "\<exists>info'. Objects_Initialize_information info = Some info' \<and> obj_represents info info' \<lparr>names = \<lambda>_. None, free = [0..<obj_count info]\<rparr>"
proof -
  obtain info' where I: "Objects_Initialize_information info = Some info'" "objects_ok info'" "obj_count info' = obj_count info"
    "Inactive info' = map (obj_addr info) [0..<obj_count info]" "\<forall>i. \<not> is_open info' i"
    "initial_objects info' = initial_objects info" "object_size info' = object_size info" "maximum_id info' = maximum_id info"
    using Objects_Initialize_ok [OF assms] by blast
  have "obj_represents info info' \<lparr>names = \<lambda>_. None, free = [0..<obj_count info]\<rparr>"
    using I(2-8) unfolding obj_represents_def is_open_def by auto
  then show ?thesis using I(1) by blast
qed

lemma reached_represents:
  assumes "obj_count info < 65535" and "0 < object_size info" and "0 < initial_objects info"
    and "local_table info = replicate (obj_count info) 0"
    and "Objects_Initialize_information info = Some info0" and "obj_run rs info0 = Some (as, info')"
  shows "\<exists>h. obj_represents info info' h"
proof -
  have "obj_represents info info0 \<lparr>names = \<lambda>_. None, free = [0..<obj_count info]\<rparr>"
    using initially_represents [OF assms(1-4)] assms(5) by auto
  then show ?thesis using obj_run_refines [of info info0 _ rs] assms(6) by auto
qed

text \<open>The iteration over the open objects, from an index or from the start.\<close>

lemma get_next_loop_ok:
  assumes "objects_ok info" and "obj_count info < 65535" and "i \<le> obj_count info"
  shows "get_next_loop (id_at info i) info =
    Some (case find (\<lambda>j. local_table info ! j \<noteq> 0) [i..<obj_count info] of
      None \<Rightarrow> (0, - 1) | Some j \<Rightarrow> (local_table info ! j, id_at info (Suc j)))"
  using assms(3)
proof (induction "obj_count info - i" arbitrary: i)
  case 0
  have "Objects_Get_index (id_at info i) = of_nat (Suc i)" using index_of_id(1) [of "Suc i" "maximum_id info"] 0 assms(2) unfolding id_at_def by simp
  then have "unat (Objects_Get_index (id_at info i)) = Suc (obj_count info)" using 0 unat_small(2) [of "Suc i"] assms(2) by simp
  then have "Objects_Get_index (id_at info i) > Objects_Get_maximum_index info"
    by (simp add: word_less_nat_alt Objects_Get_maximum_index_def obj_count_def)
  then show ?case using 0 by (subst get_next_loop.simps) simp
next
  case (Suc d)
  then have i: "i < obj_count info" by simp
  have "unat (Objects_Get_index (id_at info i)) = Suc i" using index_at [OF i] unat_small(2) [of "Suc i"] i assms(2) by simp
  then have le: "\<not> Objects_Get_index (id_at info i) > Objects_Get_maximum_index info"
    using i by (simp add: word_less_nat_alt Objects_Get_maximum_index_def obj_count_def)
  have g: "Objects_Get_no_protection (id_at info i) info = Some (local_table info ! i)" using Objects_Get_ok(1,3) [OF assms(1)] i by simp
  have s: "id_at info i + 1 = id_at info (Suc i)" by (simp add: id_at_def)
  have u: "[i..<obj_count info] = i # [Suc i..<obj_count info]" using i by (simp add: upt_conv_Cons)
  show ?case using Suc(1) [of "Suc i"] Suc(2) i le g unfolding u by (subst get_next_loop.simps) (simp add: s)
qed

section \<open>Properties\<close>

text \<open>C22. Object identifiers are handles: after the initialisation of a class with fewer than 65535 objects
  every sequence of creations, deletions, name searches and lookups gives the results of a table of names
  with a queue of free indices. In particular an identifier leads to an object only while that object is
  open, a creation fails only if no index is free, and a deleted object is not found any more.\<close>

theorem objects_refine_handles:
  assumes "obj_count info < 65535" and "0 < object_size info" and "0 < initial_objects info"
    and "local_table info = replicate (obj_count info) 0"
  shows "\<exists>info' info''. Objects_Initialize_information info = Some info'
    \<and> obj_run rs info' = Some (fst (handle_run info rs \<lparr>names = \<lambda>_. None, free = [0..<obj_count info]\<rparr>), info'')
    \<and> obj_represents info info'' (snd (handle_run info rs \<lparr>names = \<lambda>_. None, free = [0..<obj_count info]\<rparr>))"
  using initially_represents [OF assms] obj_run_refines [of info _ _ rs] by blast

theorem objects_refine_handles_witness:
  "\<exists>info' info''. Objects_Initialize_information
      \<lparr>maximum_id = 0x2a010002, local_table = [0, 0], Inactive = [], initial_objects = 100, object_size = 10, obj_id = \<lambda>_. 0, obj_name = \<lambda>_. 0\<rparr> = Some info'
    \<and> obj_run [Create 7, Create 8, Create 9, Delete 0x2a010001, Lookup 0x2a010001, Ident 8, Create 5] info'
      = Some ([Id 0x2a010001, Id 0x2a010002, Too_many, Done, Invalid_id, Id 0x2a010002, Id 0x2a010001], info'')"
proof -
  define info :: objects where "info = \<lparr>maximum_id = 0x2a010002, local_table = [0, 0], Inactive = [], initial_objects = 100,
    object_size = 10, obj_id = \<lambda>_. 0, obj_name = \<lambda>_. 0\<rparr>"
  let ?rs = "[Create 7, Create 8, Create 9, Delete 0x2a010001, Lookup 0x2a010001, Ident 8, Create 5]"
  have n: "obj_count info = 2" unfolding info_def obj_count_def Objects_Get_index_def by code_simp
  have i: "id_at info 0 = 0x2a010001" "id_at info 1 = 0x2a010002" unfolding info_def id_at_def by code_simp+
  have d: "decode info 0x2a010001 = Some 0" using i(1) n decode_iff by simp
  have "fst (handle_run info ?rs \<lparr>names = \<lambda>_. None, free = [0..<obj_count info]\<rparr>)
      = [Id 0x2a010001, Id 0x2a010002, Too_many, Done, Invalid_id, Id 0x2a010002, Id 0x2a010001]"
    using d i by (simp add: n upt_rec)
  moreover have "\<exists>info' info''. Objects_Initialize_information info = Some info'
    \<and> obj_run ?rs info' = Some (fst (handle_run info ?rs \<lparr>names = \<lambda>_. None, free = [0..<obj_count info]\<rparr>), info'')
    \<and> obj_represents info info'' (snd (handle_run info ?rs \<lparr>names = \<lambda>_. None, free = [0..<obj_count info]\<rparr>))"
    by (rule objects_refine_handles) (simp_all add: n, simp_all add: info_def numeral_2_eq_2)
  ultimately show ?thesis unfolding info_def by (elim exE conjE) (intro exI conjI, assumption, simp)
qed

text \<open>C23. Identifiers are typed: what a lookup returns in any state that is reached by requests is \<open>NULL\<close> or an object of this
  class whose identifier is the one looked up; then the API, the class and the node of the identifier are those of the
  class and its index is in range. No identifier leads to an access outside of the table.\<close>

theorem objects_typed:
  assumes "obj_count info < 65535" and "0 < object_size info" and "0 < initial_objects info"
    and "local_table info = replicate (obj_count info) 0"
    and "Objects_Initialize_information info = Some info0" and "obj_run rs info0 = Some (as, info')"
  shows "\<exists>x. Objects_Get i info' = Some x \<and> (x = 0
    \<or> x = obj_addr info (unat (Objects_Get_index i) - 1) \<and> obj_id info' x = i
      \<and> Objects_Get_API i = Objects_Get_API (maximum_id info) \<and> Objects_Get_class i = Objects_Get_class (maximum_id info)
      \<and> Objects_Get_node i = Objects_Get_node (maximum_id info)
      \<and> 1 \<le> unat (Objects_Get_index i) \<and> unat (Objects_Get_index i) \<le> obj_count info)"
proof -
  obtain h where "obj_represents info info' h" using reached_represents [OF assms] by blast
  note R = obj_representsD [OF this]
  show ?thesis
  proof (cases "decode info i")
    case None
    then show ?thesis unfolding Objects_Get_decode [OF R(1)] R(5) by simp
  next
    case (Some k)
    then have k: "k < obj_count info" "i = id_at info k" using decode_iff by auto
    have c: "Objects_Get_API i = Objects_Get_API (maximum_id info) \<and> Objects_Get_class i = Objects_Get_class (maximum_id info)
      \<and> Objects_Get_node i = Objects_Get_node (maximum_id info)
      \<and> 1 \<le> unat (Objects_Get_index i) \<and> unat (Objects_Get_index i) \<le> obj_count info" "k = unat (Objects_Get_index i) - 1"
      using Some by (auto simp: decode_def split: if_splits)
    have "obj_id info' (obj_addr info k) = i" using objects_okD(4) [OF R(1), of k] k unfolding R(2-4) by simp
    then show ?thesis unfolding Objects_Get_decode [OF R(1)] R(5) using Some c R(9) [OF k(1)] by auto
  qed
qed

theorem objects_typed_witness:
  "\<exists>info0 info' x. Objects_Initialize_information
      \<lparr>maximum_id = 0x2a010002, local_table = [0, 0], Inactive = [], initial_objects = 100, object_size = 10, obj_id = \<lambda>_. 0, obj_name = \<lambda>_. 0\<rparr> = Some info0
    \<and> obj_run [Create 7] info0 = Some ([Id 0x2a010001], info') \<and> Objects_Get 0x2a010001 info' = Some x \<and> (x = 0 \<or> x = 100)"
proof -
  define info :: objects where "info = \<lparr>maximum_id = 0x2a010002, local_table = [0, 0], Inactive = [], initial_objects = 100,
    object_size = 10, obj_id = \<lambda>_. 0, obj_name = \<lambda>_. 0\<rparr>"
  have n: "obj_count info = 2" unfolding info_def obj_count_def Objects_Get_index_def by code_simp
  have i: "id_at info 0 = 0x2a010001" unfolding info_def id_at_def by code_simp
  have a: "0 < object_size info" "0 < initial_objects info" "local_table info = replicate (obj_count info) 0" "obj_count info < 65535"
    by (simp_all add: n) (simp_all add: info_def numeral_2_eq_2)
  obtain info0 h where I: "Objects_Initialize_information info = Some info0" "obj_represents info info0 \<lparr>names = \<lambda>_. None, free = [0..<obj_count info]\<rparr>"
    using initially_represents [OF a(4,1-3)] by blast
  obtain info' where O: "obj_run [Create 7] info0 = Some ([Id 0x2a010001], info')"
    using obj_run_refines [OF I(2), of "[Create 7]"] i by (auto simp: n upt_rec simp del: obj_run.simps)
  have x: "unat (Objects_Get_index 0x2a010001) = 1" "obj_addr info 0 = 100" unfolding info_def obj_addr_def Objects_Get_index_def by code_simp+
  obtain x where "Objects_Get 0x2a010001 info' = Some x" "x = 0 \<or> x = obj_addr info (unat (Objects_Get_index 0x2a010001) - 1)"
    using objects_typed [OF a(4,1-3) I(1) O, of "0x2a010001"] by blast
  then show ?thesis using I(1) O x unfolding info_def by auto
qed

text \<open>C40. With 65535 objects, the greatest number that the configuration allows, the initialisation of a class
  does not return: the 16-bit index of its loop is never greater than the maximum.\<close>

theorem objects_initialize_hangs:
  assumes "obj_count info = 65535"
  shows "Objects_Initialize_information info = None"
proof -
  have "unat (Objects_Get_index (maximum_id info)) = unat (- 1 :: uint16)"
    using assms by (simp add: obj_count_def unat_word_ariths unsigned_minus_1_eq_mask mask_eq_exp_minus_1)
  then have m: "Objects_Get_index (maximum_id info) = - 1" by (rule word_unat_eq_iff [THEN iffD2])
  have "m \<noteq> - 1" if "initialize_loop a m i nxt inf = Some r" for a m i nxt inf r
    by (rule initialize_loop.raw_induct [OF _ that, where P = "\<lambda>a m i nxt inf r. m \<noteq> - 1"]) (auto split: if_splits)
  then have "initialize_loop a (- 1) i nxt inf = None" for a i nxt inf by (metis not_None_eq)
  then show ?thesis by (simp add: Objects_Initialize_information_def m)
qed

theorem objects_initialize_hangs_witness:
  "Objects_Initialize_information
     \<lparr>maximum_id = 0x2a01ffff, local_table = [], Inactive = [], initial_objects = 100, object_size = 10, obj_id = \<lambda>_. 0, obj_name = \<lambda>_. 0\<rparr> = None"
proof -
  have m: "(0xffff :: uint16) = of_nat 65535" by simp
  have "drop_bit 0 (0x2a01ffff :: uint32) AND 0xffff = 0xffff" by simp
  then have "Objects_Get_index 0x2a01ffff = 0xffff" unfolding Objects_Get_index_def by simp
  then have "unat (Objects_Get_index 0x2a01ffff) = 65535" by simp
  then show ?thesis by (intro objects_initialize_hangs) (simp add: obj_count_def)
qed

end
