(* ===== verification/Timer.thy ===== *)
theory Timer
  imports Watchdog_System Objects_Client Calendar
begin

text \<open>
  The timers of the Classic API (\<^verbatim>\<open>cpukit/rtems/src/timer*.c\<close>,
  \<^verbatim>\<open>cpukit/include/rtems/rtems/timerimpl.h\<close>). A timer, its object and its watchdog are named by the
  same address. The state of the timers goes along with the watchdogs; the chain of pending timers of
  the timer server is the list of its nodes (its links share memory with the links of the tree node, which a
  watchdog that is not scheduled does not use). The routines of the application are a parameter \<open>user\<close>: a
  routine gets the identifier and the data of its timer, changes the state \<open>'u\<close> of the application, and tells
  whether it restarts its own timer with \<^verbatim>\<open>rtems_timer_reset\<close>, as periodic timers do. The clocks are
  fields that the routines do not change. \<open>None\<close> is an access outside of a table or a loop without an end.
  The creation of the task of the timer server is not modelled.
\<close>

section \<open>State\<close>

record 'u timers =
  timer_objs :: objects
  the_class :: "nat \<Rightarrow> nat"
  tm_routine :: "nat \<Rightarrow> nat"
  user_data :: "nat \<Rightarrow> nat"
  tm_initial :: "nat \<Rightarrow> uint32"
  start_time :: "nat \<Rightarrow> uint32"
  stop_time :: "nat \<Rightarrow> uint32"
  timer_server :: bool
  Pending :: "nat list"
  server_event :: bool
  tod_is_set :: bool
  uptime :: timespec
  realtime :: timespec
  tps :: int
  world :: 'u

type_synonym 'u timer_state = "watchdogs \<times> 'u timers"

abbreviation (input) TIMER_DORMANT :: nat where "TIMER_DORMANT \<equiv> 0"
abbreviation (input) TIMER_INTERVAL :: nat where "TIMER_INTERVAL \<equiv> 4"
abbreviation (input) TIMER_INTERVAL_ON_TASK :: nat where "TIMER_INTERVAL_ON_TASK \<equiv> 6"
abbreviation (input) TIMER_TIME_OF_DAY :: nat where "TIMER_TIME_OF_DAY \<equiv> 5"
abbreviation (input) TIMER_TIME_OF_DAY_ON_TASK :: nat where "TIMER_TIME_OF_DAY_ON_TASK \<equiv> 7"

text \<open>The two service routines of the watchdogs of timers.\<close>

abbreviation (input) ROUTINE_ADAPTOR :: nat where "ROUTINE_ADAPTOR \<equiv> 1"
abbreviation (input) SERVER_ROUTINE_ADAPTOR :: nat where "SERVER_ROUTINE_ADAPTOR \<equiv> 2"

definition Timer_Is_interval_class :: "nat \<Rightarrow> bool" where
  "Timer_Is_interval_class c \<longleftrightarrow> c AND (4 OR 1) = 4"

definition Timer_Is_on_task_class :: "nat \<Rightarrow> bool" where
  "Timer_Is_on_task_class c \<longleftrightarrow> c AND (4 OR 2) = 4 OR 2"

definition Timer_Watchdog_header_index :: "nat \<Rightarrow> nat" where
  "Timer_Watchdog_header_index c = c AND 1"

definition Timer_Get_CPU_ticks :: "watchdogs \<Rightarrow> uint32" where
  "Timer_Get_CPU_ticks w = ucast (cpu_ticks w)"

definition Timer_Get :: "uint32 \<Rightarrow> 'u timer_state \<Rightarrow> nat option" where
  "Timer_Get i s = Objects_Get i (timer_objs (snd s))"

section \<open>Cancel, fire and reset\<close>

definition Timer_Cancel :: "nat \<Rightarrow> 'u timer_state \<Rightarrow> 'u timer_state option" where
  "Timer_Cancel the_timer s =
     (let (w, t) = s; c = the_class t the_timer in
      if Watchdog_Is_scheduled the_timer w
      then do {
        let t = t\<lparr>stop_time := (stop_time t)(the_timer := Timer_Get_CPU_ticks w)\<rparr>;
        w \<leftarrow> Watchdog_Remove (Timer_Watchdog_header_index c) the_timer w;
        Some (w, t)
      }
      else if Timer_Is_on_task_class c \<and> Watchdog_Get_state the_timer w = WATCHDOG_PENDING
      then Some (Watchdog_Set_state the_timer WATCHDOG_INACTIVE w, t\<lparr>Pending := remove1 the_timer (Pending t)\<rparr>)
      else Some (w, t))"

definition Timer_Fire :: "uint32 \<Rightarrow> uint32 \<Rightarrow> nat \<Rightarrow> nat \<Rightarrow> nat \<Rightarrow> nat \<Rightarrow> 'u timer_state \<Rightarrow> (rtems_status_code \<times> 'u timer_state) option" where
  "Timer_Fire i interval routine data c adaptor s = do {
     the_timer \<leftarrow> Timer_Get i s;
     if the_timer \<noteq> 0
     then do {
       (w, t) \<leftarrow> Timer_Cancel the_timer s;
       let w = Watchdog_Initialize the_timer adaptor w;
       let t = t\<lparr>the_class := (the_class t)(the_timer := c), tm_routine := (tm_routine t)(the_timer := routine),
                 user_data := (user_data t)(the_timer := data), tm_initial := (tm_initial t)(the_timer := interval),
                 start_time := (start_time t)(the_timer := Timer_Get_CPU_ticks w)\<rparr>;
       w \<leftarrow> (if Timer_Is_interval_class c
             then Watchdog_Insert PER_CPU_WATCHDOG_TICKS the_timer (cpu_ticks w + ucast interval) w
             else Watchdog_Insert PER_CPU_WATCHDOG_REALTIME the_timer (Watchdog_Ticks_from_seconds interval) w);
       Some (RTEMS_SUCCESSFUL, (w, t))
     }
     else Some (RTEMS_INVALID_ID, s)
   }"

definition Timer_Fire_after :: "uint32 \<Rightarrow> uint32 \<Rightarrow> nat \<Rightarrow> nat \<Rightarrow> nat \<Rightarrow> nat \<Rightarrow> 'u timer_state \<Rightarrow> (rtems_status_code \<times> 'u timer_state) option" where
  "Timer_Fire_after i interval routine data c adaptor s =
     (if interval = 0 then Some (RTEMS_INVALID_NUMBER, s)
      else if routine = 0 then Some (RTEMS_INVALID_ADDRESS, s)
      else Timer_Fire i interval routine data c adaptor s)"

definition Timer_Fire_when :: "uint32 \<Rightarrow> rtems_time_of_day option \<Rightarrow> nat \<Rightarrow> nat \<Rightarrow> nat \<Rightarrow> nat \<Rightarrow> 'u timer_state \<Rightarrow> (rtems_status_code \<times> 'u timer_state) option" where
  "Timer_Fire_when i wall_time routine data c adaptor s =
     (if \<not> tod_is_set (snd s) then Some (RTEMS_NOT_DEFINED, s)
      else if routine = 0 then Some (RTEMS_INVALID_ADDRESS, s)
      else let status = TOD_Validate (tps (snd s)) wall_time True in
           if status \<noteq> RTEMS_SUCCESSFUL then Some (status, s)
           else let seconds = TOD_To_seconds (the wall_time) in
                if seconds \<le> u32 (tv_sec (realtime (snd s))) then Some (RTEMS_INVALID_CLOCK, s)
                else Timer_Fire i (word_of_int seconds) routine data c adaptor s)"

definition rtems_timer_fire_after :: "uint32 \<Rightarrow> uint32 \<Rightarrow> nat \<Rightarrow> nat \<Rightarrow> 'u timer_state \<Rightarrow> (rtems_status_code \<times> 'u timer_state) option" where
  "rtems_timer_fire_after i interval routine data = Timer_Fire_after i interval routine data TIMER_INTERVAL ROUTINE_ADAPTOR"

definition rtems_timer_fire_when :: "uint32 \<Rightarrow> rtems_time_of_day option \<Rightarrow> nat \<Rightarrow> nat \<Rightarrow> 'u timer_state \<Rightarrow> (rtems_status_code \<times> 'u timer_state) option" where
  "rtems_timer_fire_when i wall_time routine data = Timer_Fire_when i wall_time routine data TIMER_TIME_OF_DAY ROUTINE_ADAPTOR"

definition rtems_timer_server_fire_after :: "uint32 \<Rightarrow> uint32 \<Rightarrow> nat \<Rightarrow> nat \<Rightarrow> 'u timer_state \<Rightarrow> (rtems_status_code \<times> 'u timer_state) option" where
  "rtems_timer_server_fire_after i interval routine data s =
     (if \<not> timer_server (snd s) then Some (RTEMS_INCORRECT_STATE, s)
      else Timer_Fire_after i interval routine data TIMER_INTERVAL_ON_TASK SERVER_ROUTINE_ADAPTOR s)"

definition rtems_timer_server_fire_when :: "uint32 \<Rightarrow> rtems_time_of_day option \<Rightarrow> nat \<Rightarrow> nat \<Rightarrow> 'u timer_state \<Rightarrow> (rtems_status_code \<times> 'u timer_state) option" where
  "rtems_timer_server_fire_when i wall_time routine data s =
     (if \<not> timer_server (snd s) then Some (RTEMS_INCORRECT_STATE, s)
      else Timer_Fire_when i wall_time routine data TIMER_TIME_OF_DAY_ON_TASK SERVER_ROUTINE_ADAPTOR s)"

definition rtems_timer_cancel :: "uint32 \<Rightarrow> 'u timer_state \<Rightarrow> (rtems_status_code \<times> 'u timer_state) option" where
  "rtems_timer_cancel i s = do {
     the_timer \<leftarrow> Timer_Get i s;
     if the_timer \<noteq> 0 then Timer_Cancel the_timer s \<bind> (\<lambda>s. Some (RTEMS_SUCCESSFUL, s))
     else Some (RTEMS_INVALID_ID, s)
   }"

definition rtems_timer_reset :: "uint32 \<Rightarrow> 'u timer_state \<Rightarrow> (rtems_status_code \<times> 'u timer_state) option" where
  "rtems_timer_reset i s = do {
     the_timer \<leftarrow> Timer_Get i s;
     if the_timer \<noteq> 0
     then if Timer_Is_interval_class (the_class (snd s) the_timer)
          then do {
            (w, t) \<leftarrow> Timer_Cancel the_timer s;
            w \<leftarrow> Watchdog_Insert PER_CPU_WATCHDOG_TICKS the_timer (cpu_ticks w + ucast (tm_initial t the_timer)) w;
            Some (RTEMS_SUCCESSFUL, (w, t))
          }
          else Some (RTEMS_NOT_DEFINED, s)
     else Some (RTEMS_INVALID_ID, s)
   }"

section \<open>Create, delete and information\<close>

text \<open>The result carries the identifier.\<close>

definition rtems_timer_create :: "uint32 \<Rightarrow> bool \<Rightarrow> 'u timer_state \<Rightarrow> (rtems_status_code \<times> uint32 option \<times> 'u timer_state) option" where
  "rtems_timer_create name id_is_null s =
     (if name = 0 then Some (RTEMS_INVALID_NAME, None, s)
      else if id_is_null then Some (RTEMS_INVALID_ADDRESS, None, s)
      else let (w, t) = s;
               (the_timer, objs) = Objects_Allocate_static (timer_objs t);
               t = t\<lparr>timer_objs := objs\<rparr>
           in if the_timer = 0 then Some (RTEMS_TOO_MANY, None, (w, t))
              else do {
                let t = t\<lparr>the_class := (the_class t)(the_timer := TIMER_DORMANT)\<rparr>;
                let w = Watchdog_Preinitialize the_timer w;
                (i, objs) \<leftarrow> Objects_Open_u32 the_timer name (timer_objs t);
                Some (RTEMS_SUCCESSFUL, Some i, (w, t\<lparr>timer_objs := objs\<rparr>))
              })"

definition rtems_timer_delete :: "uint32 \<Rightarrow> 'u timer_state \<Rightarrow> (rtems_status_code \<times> 'u timer_state) option" where
  "rtems_timer_delete i s = do {
     the_timer \<leftarrow> Timer_Get i s;
     if the_timer \<noteq> 0
     then do {
       objs \<leftarrow> Objects_Close the_timer (timer_objs (snd s));
       (w, t) \<leftarrow> Timer_Cancel the_timer (fst s, (snd s)\<lparr>timer_objs := objs\<rparr>);
       Some (RTEMS_SUCCESSFUL, (w, t\<lparr>timer_objs := Objects_Free_static the_timer (timer_objs t)\<rparr>))
     }
     else Some (RTEMS_INVALID_ID, s)
   }"

record timer_information =
  info_class :: nat
  info_initial :: uint32
  info_start_time :: uint32
  info_stop_time :: uint32

definition rtems_timer_get_information :: "uint32 \<Rightarrow> bool \<Rightarrow> 'u timer_state \<Rightarrow> (rtems_status_code \<times> timer_information option) option" where
  "rtems_timer_get_information i info_is_null s =
     (if info_is_null then Some (RTEMS_INVALID_ADDRESS, None)
      else do {
        the_timer \<leftarrow> Timer_Get i s;
        if the_timer \<noteq> 0
        then Some (RTEMS_SUCCESSFUL, Some \<lparr>info_class = the_class (snd s) the_timer, info_initial = tm_initial (snd s) the_timer,
          info_start_time = start_time (snd s) the_timer, info_stop_time = stop_time (snd s) the_timer\<rparr>)
        else Some (RTEMS_INVALID_ID, None)
      })"

section \<open>The service routines\<close>

text \<open>The routine of the application, and the reset of its timer if it asks for it.\<close>

definition run_user :: "(nat \<Rightarrow> uint32 \<Rightarrow> nat \<Rightarrow> 'u \<Rightarrow> bool \<times> 'u) \<Rightarrow> nat \<Rightarrow> uint32 \<Rightarrow> nat \<Rightarrow> 'u timer_state \<Rightarrow> 'u timer_state option" where
  "run_user user routine i data s =
     (let (rearm, u) = user routine i data (world (snd s));
          s = (fst s, (snd s)\<lparr>world := u\<rparr>)
      in if rearm then rtems_timer_reset i s \<bind> (\<lambda>(_, s). Some s) else Some s)"

definition Timer_Routine_adaptor :: "(nat \<Rightarrow> uint32 \<Rightarrow> nat \<Rightarrow> 'u \<Rightarrow> bool \<times> 'u) \<Rightarrow> nat \<Rightarrow> 'u timer_state \<Rightarrow> 'u timer_state option" where
  "Timer_Routine_adaptor user the_timer s =
     (let (w, t) = s;
          t = t\<lparr>stop_time := (stop_time t)(the_timer := Timer_Get_CPU_ticks w)\<rparr>
      in run_user user (tm_routine t the_timer) (obj_id (timer_objs t) the_timer) (user_data t the_timer) (w, t))"

text \<open>The event for the server is sent when the chain was empty.\<close>

definition Timer_server_Routine_adaptor :: "nat \<Rightarrow> 'u timer_state \<Rightarrow> 'u timer_state option" where
  "Timer_server_Routine_adaptor the_timer s =
     (let (w, t) = s;
          w = Watchdog_Set_state the_timer WATCHDOG_PENDING w;
          t = t\<lparr>stop_time := (stop_time t)(the_timer := Timer_Get_CPU_ticks w)\<rparr>;
          wakeup = (Pending t = []);
          t = t\<lparr>Pending := Pending t @ [the_timer]\<rparr>
      in Some (w, if wakeup then t\<lparr>server_event := True\<rparr> else t))"

text \<open>The inner loop of \<^verbatim>\<open>_Timer_server_Body\<close>.\<close>

partial_function (option) Timer_server_Body :: "(nat \<Rightarrow> uint32 \<Rightarrow> nat \<Rightarrow> 'u \<Rightarrow> bool \<times> 'u) \<Rightarrow> 'u timer_state \<Rightarrow> 'u timer_state option" where
  "Timer_server_Body user s =
     (case Pending (snd s) of
        [] \<Rightarrow> Some s
      | the_timer # rest \<Rightarrow> do {
          let t = (snd s)\<lparr>Pending := rest\<rparr>;
          let w = Watchdog_Set_state the_timer WATCHDOG_INACTIVE (fst s);
          s \<leftarrow> run_user user (tm_routine t the_timer) (obj_id (timer_objs t) the_timer) (user_data t the_timer) (w, t);
          Timer_server_Body user s
        })"

text \<open>The service routine of a watchdog; the second component is the history of the timers whose watchdogs
  were called, which the code does not have.\<close>

definition timer_call :: "(nat \<Rightarrow> uint32 \<Rightarrow> nat \<Rightarrow> 'u \<Rightarrow> bool \<times> 'u) \<Rightarrow> nat \<Rightarrow> nat \<Rightarrow> watchdogs \<times> 'u timers \<times> nat list \<Rightarrow> (watchdogs \<times> 'u timers \<times> nat list) option" where
  "timer_call user routine the_timer s = do {
     (w, t) \<leftarrow> (if routine = ROUTINE_ADAPTOR then Timer_Routine_adaptor user the_timer (fst s, fst (snd s))
               else if routine = SERVER_ROUTINE_ADAPTOR then Timer_server_Routine_adaptor the_timer (fst s, fst (snd s))
               else None);
     Some (w, t, snd (snd s) @ [the_timer])
   }"

definition timer_tick :: "(nat \<Rightarrow> uint32 \<Rightarrow> nat \<Rightarrow> 'u \<Rightarrow> bool \<times> 'u) \<Rightarrow> watchdogs \<times> 'u timers \<times> nat list \<Rightarrow> (watchdogs \<times> 'u timers \<times> nat list) option" where
  "timer_tick user = Watchdog_Tick (timer_call user) (\<lambda>e. uptime (fst e)) (\<lambda>e. realtime (fst e)) (\<lambda>_. None)"

end
