(* ===== verification/Timer_Inv.thy ===== *)
theory Timer_Inv
  imports Timer
begin

text \<open>
  The invariant of the timers and what the operations do to it. \<open>W\<close> are the timers that were created at
  least once, their watchdogs are initialised.
\<close>

section \<open>The invariant\<close>

definition tm_ok :: "nat set \<Rightarrow> watchdogs \<Rightarrow> (nat \<Rightarrow> 64 word keyed) \<Rightarrow> 'u timers \<Rightarrow> bool" where
  "tm_ok W w f t \<longleftrightarrow> objects_ok (timer_objs t) \<and> W \<subseteq> obj_addr (timer_objs t) ` {..<obj_count (timer_objs t)} - set (Inactive (timer_objs t))
     \<and> (\<forall>i. is_open (timer_objs t) i \<longrightarrow> obj_addr (timer_objs t) i \<in> W)
     \<and> (\<forall>x \<in> W. Timer_Is_interval_class (the_class t x) \<longrightarrow> tm_initial t x \<noteq> 0
          \<and> wd_routine w x = (if Timer_Is_on_task_class (the_class t x) then SERVER_ROUTINE_ADAPTOR else ROUTINE_ADAPTOR))
     \<and> distinct (Pending t) \<and> set (Pending t) = {x \<in> W. Watchdog_Get_state x w = WATCHDOG_PENDING}
     \<and> (\<forall>x \<in> set (Pending t). Timer_Is_on_task_class (the_class t x))
     \<and> (\<forall>h < 3. \<forall>x \<in> snd ` set (f h). Timer_Watchdog_header_index (the_class t x) = h
          \<and> wd_routine w x = (if Timer_Is_on_task_class (the_class t x) then SERVER_ROUTINE_ADAPTOR else ROUTINE_ADAPTOR))"

lemma tm_okD:
  assumes "tm_ok W w f t"
  shows "objects_ok (timer_objs t)" "W \<subseteq> obj_addr (timer_objs t) ` {..<obj_count (timer_objs t)} - set (Inactive (timer_objs t))"
    "\<And>i. is_open (timer_objs t) i \<Longrightarrow> obj_addr (timer_objs t) i \<in> W"
    "\<And>x. x \<in> W \<Longrightarrow> Timer_Is_interval_class (the_class t x) \<Longrightarrow> tm_initial t x \<noteq> 0"
    "distinct (Pending t)" "set (Pending t) = {x \<in> W. Watchdog_Get_state x w = WATCHDOG_PENDING}"
    "\<And>x. x \<in> set (Pending t) \<Longrightarrow> Timer_Is_on_task_class (the_class t x)"
    "\<And>h x. h < 3 \<Longrightarrow> x \<in> snd ` set (f h) \<Longrightarrow> Timer_Watchdog_header_index (the_class t x) = h"
    "\<And>h x. h < 3 \<Longrightarrow> x \<in> snd ` set (f h) \<Longrightarrow> wd_routine w x = (if Timer_Is_on_task_class (the_class t x) then SERVER_ROUTINE_ADAPTOR else ROUTINE_ADAPTOR)"
    "\<And>x. x \<in> W \<Longrightarrow> Timer_Is_interval_class (the_class t x) \<Longrightarrow>
       wd_routine w x = (if Timer_Is_on_task_class (the_class t x) then SERVER_ROUTINE_ADAPTOR else ROUTINE_ADAPTOR)"
  using assms unfolding tm_ok_def by blast+

lemma timer_classes:
  "Timer_Is_interval_class TIMER_INTERVAL" "Timer_Is_interval_class TIMER_INTERVAL_ON_TASK"
  "\<not> Timer_Is_interval_class TIMER_TIME_OF_DAY" "\<not> Timer_Is_interval_class TIMER_TIME_OF_DAY_ON_TASK" "\<not> Timer_Is_interval_class TIMER_DORMANT"
  "\<not> Timer_Is_on_task_class TIMER_INTERVAL" "Timer_Is_on_task_class TIMER_INTERVAL_ON_TASK"
  "\<not> Timer_Is_on_task_class TIMER_TIME_OF_DAY" "Timer_Is_on_task_class TIMER_TIME_OF_DAY_ON_TASK"
  "Timer_Watchdog_header_index TIMER_INTERVAL = PER_CPU_WATCHDOG_TICKS" "Timer_Watchdog_header_index TIMER_INTERVAL_ON_TASK = PER_CPU_WATCHDOG_TICKS"
  "Timer_Watchdog_header_index TIMER_TIME_OF_DAY = PER_CPU_WATCHDOG_REALTIME" "Timer_Watchdog_header_index TIMER_TIME_OF_DAY_ON_TASK = PER_CPU_WATCHDOG_REALTIME"
  by (simp_all add: Timer_Is_interval_class_def Timer_Is_on_task_class_def Timer_Watchdog_header_index_def)

lemma displace_absent: "x \<notin> snd ` set xs \<Longrightarrow> displace x xs = xs"
  unfolding displace_def by (rule filter_True) force

text \<open>What the operations on one timer keep.\<close>

definition same_timers :: "'u timers \<Rightarrow> 'u timers \<Rightarrow> bool" where
  "same_timers t t' \<longleftrightarrow> timer_objs t' = timer_objs t \<and> the_class t' = the_class t \<and> tm_routine t' = tm_routine t \<and> user_data t' = user_data t
     \<and> tm_initial t' = tm_initial t \<and> start_time t' = start_time t \<and> timer_server t' = timer_server t \<and> server_event t' = server_event t
     \<and> tod_is_set t' = tod_is_set t \<and> uptime t' = uptime t \<and> realtime t' = realtime t \<and> tps t' = tps t \<and> world t' = world t"

lemma tm_ok_keep:
  assumes "tm_ok W w f t" and "\<And>k. k < 3 \<Longrightarrow> snd ` set (f' k) \<subseteq> snd ` set (f k)" and "same_pending W w w'"
    and "wd_routine w' = wd_routine w" and "same_timers t t'" and "Pending t' = Pending t"
  shows "tm_ok W w' f' t'"
proof -
  note T = tm_okD [OF assms(1)]
  have t: "timer_objs t' = timer_objs t" "the_class t' = the_class t" "tm_initial t' = tm_initial t" using assms(5) by (simp_all add: same_timers_def)
  have "set (Pending t) = {y \<in> W. Watchdog_Get_state y w' = WATCHDOG_PENDING}" using T(6) assms(3) by (auto simp: same_pending_def)
  moreover have "Timer_Watchdog_header_index (the_class t x) = h \<and> wd_routine w x = (if Timer_Is_on_task_class (the_class t x) then 2 else 1)"
    if "h < 3" "x \<in> snd ` set (f' h)" for h x
    using T(8) [OF that(1) subsetD [OF assms(2) [OF that(1)] that(2)]] T(9) [OF that(1) subsetD [OF assms(2) [OF that(1)] that(2)]] by simp
  ultimately show ?thesis unfolding tm_ok_def t assms(4,6) using T(1-5,7,10) by blast
qed

lemma Timer_Cancel_ok:
  assumes "wd_sys W w f" and "tm_ok W w f t" and "x \<in> W"
  shows "\<exists>w' t' f'. Timer_Cancel x (w, t) = Some (w', t') \<and> wd_sys W w' f' \<and> tm_ok W w' f' t' \<and> (\<forall>k < 3. f' k = displace x (f k))
    \<and> unscheduled x f' \<and> Watchdog_Get_state x w' \<noteq> WATCHDOG_PENDING \<and> cpu_ticks w' = cpu_ticks w \<and> wd_routine w' = wd_routine w
    \<and> same_timers t t' \<and> Pending t' = remove1 x (Pending t)"
proof -
  note T = tm_okD [OF assms(2)]
  consider h where "h < 3" "x \<in> snd ` set (f h)" | "unscheduled x f" by (auto simp: unscheduled_def)
  then show ?thesis
  proof cases
    case 1
    have sch: "Watchdog_Is_scheduled x w" using wd_holds_scheduled [OF wd_sysD(1) [OF assms(1) 1(1)] 1(2)] .
    obtain w' where R: "Watchdog_Remove h x w = Some w'" "wd_sys W w' (f(h := displace x (f h)))" "same_pending W w w'"
      "wd_routine w' = wd_routine w" "cpu_ticks w' = cpu_ticks w" using wd_sys_remove [OF assms(1) 1] by blast
    define t' where "t' = t\<lparr>stop_time := (stop_time t)(x := Timer_Get_CPU_ticks w)\<rparr>"
    have np: "x \<notin> set (Pending t)" using T(6) scheduled_not_pending [OF sch] by simp
    have d: "(f(h := displace x (f h))) k = displace x (f k)" if "k < 3" for k
    proof (cases "k = h")
      case False
      then have "x \<notin> snd ` set (f k)" using wd_sysD(4) [OF assms(1) 1(1) that] 1(2) by auto
      then show ?thesis using False by (simp add: displace_absent)
    qed simp
    have "Timer_Cancel x (w, t) = Some (w', t')"
      using sch R(1) T(8) [OF 1] by (simp add: Timer_Cancel_def t'_def Let_def)
    moreover have "unscheduled x (f(h := displace x (f h)))" unfolding unscheduled_def using d by auto
    moreover have "tm_ok W w' (f(h := displace x (f h))) t'"
      by (rule tm_ok_keep [OF assms(2) _ R(3,4)]) (use d in \<open>auto simp: same_timers_def t'_def\<close>)
    moreover have "Watchdog_Get_state x w' \<noteq> WATCHDOG_PENDING" using R(3) assms(3) scheduled_not_pending [OF sch] by (simp add: same_pending_def)
    moreover have "same_timers t t' \<and> Pending t' = remove1 x (Pending t)" using np by (simp add: same_timers_def t'_def remove1_idem)
    ultimately show ?thesis using R d by blast
  next
    case 2
    have sch: "\<not> Watchdog_Is_scheduled x w" using wd_sys_scheduled [OF assms(1,3)] 2 by simp
    have d: "f k = displace x (f k)" if "k < 3" for k using 2 that by (simp add: unscheduled_def displace_absent)
    show ?thesis
    proof (cases "Watchdog_Get_state x w = WATCHDOG_PENDING")
      case False
      then have "Timer_Cancel x (w, t) = Some (w, t)" "x \<notin> set (Pending t)" using sch T(6) by (simp_all add: Timer_Cancel_def Let_def)
      then show ?thesis using assms 2 d False by (intro exI [of _ w] exI [of _ t] exI [of _ f]) (simp add: same_timers_def remove1_idem)
    next
      case True
      then have p: "x \<in> set (Pending t)" using T(6) assms(3) by simp
      define w' where "w' = Watchdog_Set_state x WATCHDOG_INACTIVE w"
      define t' where "t' = t\<lparr>Pending := remove1 x (Pending t)\<rparr>"
      have st: "Watchdog_Get_state y w' = (if y = x then WATCHDOG_INACTIVE else Watchdog_Get_state y w)" for y
        by (simp add: w'_def Watchdog_Get_state_def Watchdog_Set_state_def)
      have "Timer_Cancel x (w, t) = Some (w', t')" using sch True T(7) [OF p] by (simp add: Timer_Cancel_def Let_def w'_def t'_def)
      moreover have "tm_ok W w' f t'"
        using T st unfolding tm_ok_def t'_def by (simp add: set_remove1_eq) (auto simp: w'_def)
      moreover have "wd_sys W w' f" using wd_sys_set_state [OF assms(1) 2] by (simp add: w'_def)
      ultimately show ?thesis using d 2 st by (intro exI [of _ w'] exI [of _ t'] exI [of _ f]) (simp add: w'_def t'_def same_timers_def)
    qed
  qed
qed

section \<open>Lookup and arming\<close>

lemma Timer_Get_ok:
  assumes "tm_ok W w f t"
  shows "\<exists>y. Timer_Get i (w', t) = Some y \<and> (y = 0 \<or> y \<in> W)"
    and "x \<in> W \<Longrightarrow> Timer_Get (obj_id (timer_objs t) x) (w', t) = Some 0 \<or> Timer_Get (obj_id (timer_objs t) x) (w', t) = Some x"
proof -
  note T = tm_okD [OF assms]
  show "\<exists>y. Timer_Get i (w', t) = Some y \<and> (y = 0 \<or> y \<in> W)"
  proof (cases "decode (timer_objs t) i")
    case None
    then show ?thesis by (simp add: Timer_Get_def Objects_Get_decode [OF T(1)])
  next
    case (Some k)
    then have k: "k < obj_count (timer_objs t)" using decode_iff by blast
    show ?thesis
    proof (cases "local_table (timer_objs t) ! k = 0")
      case False
      then have "local_table (timer_objs t) ! k = obj_addr (timer_objs t) k" using objects_okD(5) [OF T(1) k] by blast
      then show ?thesis using Some k False T(3) [of k] by (simp add: Timer_Get_def Objects_Get_decode [OF T(1)] is_open_def)
    qed (use Some in \<open>simp add: Timer_Get_def Objects_Get_decode [OF T(1)]\<close>)
  qed
  show "Timer_Get (obj_id (timer_objs t) x) (w', t) = Some 0 \<or> Timer_Get (obj_id (timer_objs t) x) (w', t) = Some x" if "x \<in> W"
  proof -
    obtain k where k: "k < obj_count (timer_objs t)" "x = obj_addr (timer_objs t) k" using subsetD [OF T(2) \<open>x \<in> W\<close>] by auto
    then have "obj_id (timer_objs t) x = id_at (timer_objs t) k" using objects_okD(4) [OF T(1)] by simp
    then have "Timer_Get (obj_id (timer_objs t) x) (w', t) = Some (local_table (timer_objs t) ! k)"
      using Objects_Get_ok(1) [OF T(1) k(1)] by (simp add: Timer_Get_def)
    then show ?thesis using objects_okD(5) [OF T(1) k(1)] k(2) by auto
  qed
qed

lemma arm_ok:
  assumes "wd_sys W w f" and "tm_ok W w f t" and "x \<in> W" and "unscheduled x f" and "Watchdog_Get_state x w \<noteq> WATCHDOG_PENDING"
    and "h < 3" and "Timer_Watchdog_header_index (the_class t x) = h"
    and "wd_routine w x = (if Timer_Is_on_task_class (the_class t x) then SERVER_ROUTINE_ADAPTOR else ROUTINE_ADAPTOR)"
  shows "\<exists>w'. Watchdog_Insert h x e w = Some w' \<and> wd_sys W w' (f(h := place e x (f h))) \<and> tm_ok W w' (f(h := place e x (f h))) t
    \<and> cpu_ticks w' = cpu_ticks w \<and> wd_routine w' = wd_routine w"
proof -
  obtain w' where I: "Watchdog_Insert h x e w = Some w'" "wd_sys W w' (f(h := place e x (f h)))" "wd_routine w' = wd_routine w"
    "cpu_ticks w' = cpu_ticks w" "same_pending W w w'" using wd_sys_insert [OF assms(1,6,3,4)] assms(5) by blast
  note T = tm_okD [OF assms(2)]
  have "set (Pending t) = {y \<in> W. Watchdog_Get_state y w' = WATCHDOG_PENDING}" using T(6) I(5) by (auto simp: same_pending_def)
  moreover have "Timer_Watchdog_header_index (the_class t y) = k \<and> wd_routine w y = (if Timer_Is_on_task_class (the_class t y) then 2 else 1)"
    if "k < 3" "y \<in> snd ` set ((f(h := place e x (f h))) k)" for k y
  proof (cases "y = x \<and> k = h")
    case False
    then have "y \<in> snd ` set (f k)" using that(2) by (cases "k = h") auto
    then show ?thesis using T(8,9) that(1) by simp
  qed (use assms(7,8) in simp)
  ultimately have "tm_ok W w' (f(h := place e x (f h))) t" unfolding tm_ok_def I(3) using T(1-5,7,10) by blast
  then show ?thesis using I by blast
qed

lemma due_place: "l < e \<Longrightarrow> due l (place e x xs) = due l xs"
proof -
  assume l: "l < e"
  have "filter (\<lambda>p. fst p \<le> l) (filter (\<lambda>p. fst p \<le> e) xs) = filter (\<lambda>p. fst p \<le> l) xs"
    unfolding filter_filter using l by (intro filter_cong) auto
  moreover have "filter (\<lambda>p. fst p \<le> l) (filter (\<lambda>p. e < fst p) xs) = []" using l by (auto simp: filter_empty_conv)
  ultimately show ?thesis using l by (simp add: due_def place_def)
qed

text \<open>No overflow of the ticks before the horizon.\<close>

abbreviation tick_horizon :: nat where "tick_horizon \<equiv> 2 ^ 64 - 2 ^ 32"

lemma expires_later:
  fixes t :: "64 word" and n :: uint32
  assumes "unat t \<le> tick_horizon" and "n \<noteq> 0"
  shows "t < t + ucast n" and "unat (t + ucast n) = unat t + unat n"
proof -
  have n: "unat n < 2 ^ 32" using unsigned_less [where ?'a = nat, of n] by simp
  have u: "unat (ucast n :: 64 word) = unat n" by (simp add: unsigned_ucast_eq take_bit_nat_eq_self n order.strict_trans [OF n])
  have "unat t + unat n < 2 ^ 64" using assms(1) n by simp
  then show s: "unat (t + ucast n) = unat t + unat n" using u by (simp add: unat_word_ariths)
  have "0 < unat n" using assms(2) by (simp add: unat_gt_0)
  then show "t < t + ucast n" using s by (simp add: word_less_nat_alt)
qed

section \<open>The routines of the application\<close>

lemma interval_header: "Timer_Is_interval_class c \<Longrightarrow> Timer_Watchdog_header_index c = PER_CPU_WATCHDOG_TICKS"
proof -
  assume c: "Timer_Is_interval_class c"
  have "c AND 1 = (c AND (4 OR 1)) AND (1 :: nat)" unfolding and.assoc by simp
  also have "\<dots> = 0" using c by (simp add: Timer_Is_interval_class_def)
  finally show ?thesis by (simp add: Timer_Watchdog_header_index_def)
qed

lemma effect_refl: "effect up rt K A s f s f"
  by (simp add: effect_def)

lemma effect_rearm:
  assumes "unat (cpu_ticks w) \<le> tick_horizon" and "n \<noteq> (0 :: uint32)" and "cpu_ticks w' = cpu_ticks w"
    and "up t' = up t" and "rt t' = rt t"
  shows "effect up rt K {x} (w, t) f (w', t') (f(0 := place (cpu_ticks w + ucast n) x (f 0)))"
proof -
  have "cpu_ticks w < cpu_ticks w + ucast n" using expires_later(1) [OF assms(1,2)] .
  then have "\<forall>l \<le> cpu_ticks w. due l (place (cpu_ticks w + ucast n) x (f 0)) = due l (f 0)" using due_place by (meson le_less_trans)
  then show ?thesis using assms(3-5) by (auto simp: effect_def now_of_def)
qed

lemma run_user_ok:
  assumes "wd_sys W w f" and "tm_ok W w f t" and "x \<in> W" and "unscheduled x f" and "Watchdog_Get_state x w = WATCHDOG_INACTIVE"
    and "unat (cpu_ticks w) \<le> tick_horizon"
    and "wd_routine w x = (if Timer_Is_on_task_class (the_class t x) then SERVER_ROUTINE_ADAPTOR else ROUTINE_ADAPTOR)"
  shows "\<exists>w' t' f'. run_user user r (obj_id (timer_objs t) x) data (w, t) = Some (w', t') \<and> wd_sys W w' f' \<and> tm_ok W w' f' t'
    \<and> cpu_ticks w' = cpu_ticks w \<and> Pending t' = Pending t \<and> wd_routine w' = wd_routine w
    \<and> (\<exists>u. same_timers (t\<lparr>world := u\<rparr>) t')
    \<and> (f' = f \<or> (\<exists>n. n \<noteq> (0 :: uint32) \<and> f' = f(0 := place (cpu_ticks w + ucast n) x (f 0))))"
proof -
  obtain rearm u where u: "user r (obj_id (timer_objs t) x) data (world t) = (rearm, u)" by fastforce
  define t1 where "t1 = t\<lparr>world := u\<rparr>"
  have ok1: "tm_ok W w f t1" using assms(2) by (simp add: tm_ok_def t1_def)
  have s1: "same_timers (t\<lparr>world := u\<rparr>) t1" by (simp add: same_timers_def t1_def)
  have f1: "timer_objs t1 = timer_objs t" "the_class t1 = the_class t" "Pending t1 = Pending t" by (simp_all add: t1_def)
  define i where "i = obj_id (timer_objs t) x"
  have R: "run_user user r i data (w, t) = (if rearm then rtems_timer_reset i (w, t1) \<bind> (\<lambda>(_, s). Some s) else Some (w, t1))"
    using u by (simp add: run_user_def t1_def i_def Let_def)
  have idle: ?thesis if "run_user user r i data (w, t) = Some (w, t1)"
    using that assms(1) ok1 s1 f1(3) unfolding i_def by blast
  show ?thesis
  proof (cases "rearm \<and> Timer_Get i (w, t1) = Some x \<and> Timer_Is_interval_class (the_class t x)")
    case False
    have "Timer_Get i (w, t1) = Some 0 \<or> Timer_Get i (w, t1) = Some x" using Timer_Get_ok(2) [OF ok1 assms(3), of w] f1(1) by (simp add: i_def)
    then have "run_user user r i data (w, t) = Some (w, t1)" unfolding R using False f1(2) by (auto simp: rtems_timer_reset_def)
    then show ?thesis by (rule idle)
  next
    case True
    have x0: "x \<noteq> 0" using assms(3) wd_sysD(3) [OF assms(1), of 0] by (auto intro!: gr0I)
    have ns: "\<not> Watchdog_Is_scheduled x w" using wd_sys_scheduled [OF assms(1,3)] assms(4) by simp
    have c: "Timer_Cancel x (w, t1) = Some (w, t1)" using ns assms(5) by (simp add: Timer_Cancel_def Let_def)
    have n: "tm_initial t1 x \<noteq> 0" using tm_okD(4) [OF ok1 assms(3)] True f1(2) by simp
    obtain w' where I: "Watchdog_Insert 0 x (cpu_ticks w + ucast (tm_initial t1 x)) w = Some w'"
      "wd_sys W w' (f(0 := place (cpu_ticks w + ucast (tm_initial t1 x)) x (f 0)))"
      "tm_ok W w' (f(0 := place (cpu_ticks w + ucast (tm_initial t1 x)) x (f 0))) t1" "cpu_ticks w' = cpu_ticks w" "wd_routine w' = wd_routine w"
      using arm_ok [OF assms(1) ok1 assms(3,4), of 0] assms(5,7) interval_header True f1(2) by auto
    have "run_user user r i data (w, t) = Some (w', t1)" unfolding R using True c I(1) x0 f1(2) by (simp add: rtems_timer_reset_def)
    then show ?thesis using I n s1 f1(3) unfolding i_def by blast
  qed
qed

section \<open>The adaptors\<close>

lemma effect_same:
  "cpu_ticks w' = cpu_ticks w \<Longrightarrow> up e' = up e \<Longrightarrow> rt e' = rt e \<Longrightarrow> effect up rt K A (w, e) f (w', e') f"
  by (simp add: effect_def now_of_def)

lemma taken_timer:
  assumes "tm_ok W w f t" and "wd_taken W h x w f w1" and "x \<in> W"
  shows "tm_ok W w1 (f(h := displace x (f h))) t" "unscheduled x (f(h := displace x (f h)))"
    "wd_routine w1 x = (if Timer_Is_on_task_class (the_class t x) then SERVER_ROUTINE_ADAPTOR else ROUTINE_ADAPTOR)"
    "Watchdog_Get_state x w1 = WATCHDOG_INACTIVE" "cpu_ticks w1 = cpu_ticks w" "wd_sys W w1 (f(h := displace x (f h)))"
proof -
  have k: "h < 3" "x \<in> snd ` set (f h)" "wd_sys W w1 (f(h := displace x (f h)))" "same_pending W w w1" "wd_routine w1 = wd_routine w"
    "cpu_ticks w1 = cpu_ticks w" "Watchdog_Get_state x w1 = WATCHDOG_INACTIVE" using assms(2) by (simp_all add: wd_taken_def)
  show "tm_ok W w1 (f(h := displace x (f h))) t"
    by (rule tm_ok_keep [OF assms(1) _ k(4,5)]) (auto simp: same_timers_def)
  show "wd_routine w1 x = (if Timer_Is_on_task_class (the_class t x) then SERVER_ROUTINE_ADAPTOR else ROUTINE_ADAPTOR)"
    using tm_okD(9) [OF assms(1) k(1,2)] k(5) by simp
  have "\<not> Watchdog_Is_scheduled x w1 \<longleftrightarrow> unscheduled x (f(h := displace x (f h)))" using wd_sys_scheduled [OF k(3) assms(3)] by simp
  then show "unscheduled x (f(h := displace x (f h)))" using k(7) by (simp add: Watchdog_Is_scheduled_def)
qed (use assms(2) in \<open>simp_all add: wd_taken_def\<close>)

lemma Timer_Routine_adaptor_ok:
  assumes "wd_sys W w f" and "tm_ok W w f t" and "x \<in> W" and "unscheduled x f" and "Watchdog_Get_state x w = WATCHDOG_INACTIVE"
    and "unat (cpu_ticks w) \<le> tick_horizon" and "wd_routine w x = ROUTINE_ADAPTOR" and "\<not> Timer_Is_on_task_class (the_class t x)"
  shows "\<exists>w' t' f'. Timer_Routine_adaptor user x (w, t) = Some (w', t') \<and> wd_sys W w' f' \<and> tm_ok W w' f' t'
    \<and> effect (\<lambda>e. uptime (fst e)) (\<lambda>e. realtime (fst e)) W {x} (w, t, hist) f (w', t', hist') f'"
proof -
  define t1 where "t1 = t\<lparr>stop_time := (stop_time t)(x := Timer_Get_CPU_ticks w)\<rparr>"
  have ok1: "tm_ok W w f t1" using assms(2) by (simp add: tm_ok_def t1_def)
  have c: "the_class t1 = the_class t" "uptime t1 = uptime t" "realtime t1 = realtime t" by (simp_all add: t1_def)
  obtain w' t' f' u where R: "run_user user (tm_routine t1 x) (obj_id (timer_objs t1) x) (user_data t1 x) (w, t1) = Some (w', t')"
    "wd_sys W w' f'" "tm_ok W w' f' t'" "cpu_ticks w' = cpu_ticks w" "same_timers (t1\<lparr>world := u\<rparr>) t'"
    "f' = f \<or> (\<exists>n. n \<noteq> (0 :: uint32) \<and> f' = f(0 := place (cpu_ticks w + ucast n) x (f 0)))"
  proof -
    have "wd_routine w x = (if Timer_Is_on_task_class (the_class t1 x) then SERVER_ROUTINE_ADAPTOR else ROUTINE_ADAPTOR)" using assms(7,8) c by simp
    from run_user_ok [OF assms(1) ok1 assms(3-6) this] show thesis using that by blast
  qed
  have tt: "uptime t' = uptime t" "realtime t' = realtime t" using R(5) c(2,3) by (simp_all add: same_timers_def)
  have "effect (\<lambda>e. uptime (fst e)) (\<lambda>e. realtime (fst e)) W {x} (w, t, hist) f (w', t', hist') f'"
    using R(6)
  proof
    assume "f' = f"
    then show ?thesis using R(4) tt by (simp add: effect_same)
  next
    assume "\<exists>n. n \<noteq> (0 :: uint32) \<and> f' = f(0 := place (cpu_ticks w + ucast n) x (f 0))"
    then obtain n where "n \<noteq> (0 :: uint32)" "f' = f(0 := place (cpu_ticks w + ucast n) x (f 0))" by blast
    then show ?thesis using R(4) tt assms(6) by (simp add: effect_rearm)
  qed
  moreover have "Timer_Routine_adaptor user x (w, t) = Some (w', t')" using R(1) by (simp add: Timer_Routine_adaptor_def t1_def Let_def)
  ultimately show ?thesis using R(2,3) by blast
qed

lemma Timer_server_Routine_adaptor_ok:
  assumes "wd_sys W w f" and "tm_ok W w f t" and "x \<in> W" and "unscheduled x f" and "Watchdog_Get_state x w = WATCHDOG_INACTIVE"
    and "Timer_Is_on_task_class (the_class t x)"
  shows "\<exists>w' t'. Timer_server_Routine_adaptor x (w, t) = Some (w', t') \<and> wd_sys W w' f \<and> tm_ok W w' f t' \<and> Pending t' = Pending t @ [x]
    \<and> (Pending t = [] \<longrightarrow> server_event t') \<and> effect (\<lambda>e. uptime (fst e)) (\<lambda>e. realtime (fst e)) W {x} (w, t, hist) f (w', t', hist') f"
proof -
  define w' where "w' = Watchdog_Set_state x WATCHDOG_PENDING w"
  define t1 where "t1 = t\<lparr>stop_time := (stop_time t)(x := Timer_Get_CPU_ticks w'), Pending := Pending t @ [x]\<rparr>"
  define t' where "t' = (if Pending t = [] then t1\<lparr>server_event := True\<rparr> else t1)"
  note T = tm_okD [OF assms(2)]
  have e: "Timer_server_Routine_adaptor x (w, t) = Some (w', t')" by (simp add: Timer_server_Routine_adaptor_def w'_def t1_def t'_def Let_def)
  have f: "timer_objs t' = timer_objs t" "the_class t' = the_class t" "tm_initial t' = tm_initial t" "Pending t' = Pending t @ [x]"
    "uptime t' = uptime t" "realtime t' = realtime t" by (simp_all add: t'_def t1_def)
  have w: "wd_routine w' = wd_routine w" "cpu_ticks w' = cpu_ticks w" "\<And>y. Watchdog_Get_state y w' = (if y = x then WATCHDOG_PENDING else Watchdog_Get_state y w)"
    by (simp_all add: w'_def Watchdog_Get_state_def Watchdog_Set_state_def)
  have "x \<notin> set (Pending t)" using T(6) assms(5) by simp
  then have "distinct (Pending t')" using T(5) by (simp add: f)
  moreover have "set (Pending t') = {y \<in> W. Watchdog_Get_state y w' = WATCHDOG_PENDING}" unfolding f w(3) using T(6) assms(3) by auto
  moreover have "\<And>y. y \<in> set (Pending t') \<Longrightarrow> Timer_Is_on_task_class (the_class t y)" using T(7) assms(6) by (auto simp: f)
  ultimately have "tm_ok W w' f t'" unfolding tm_ok_def f(1-3) w(1) using T(1-4,8-10) by blast
  moreover have "wd_sys W w' f" using wd_sys_set_state [OF assms(1,4)] by (simp add: w'_def)
  moreover have "effect (\<lambda>e. uptime (fst e)) (\<lambda>e. realtime (fst e)) W {x} (w, t, hist) f (w', t', hist') f" using w(2) f(5,6) by (simp add: effect_same)
  ultimately show ?thesis using e f(4) by (auto simp: t'_def)
qed

lemma timer_call_ok:
  assumes "tm_ok W w f t" and "wd_sys W w f" and "unat (cpu_ticks w) \<le> tick_horizon" and "wd_taken W h x w f w1"
  shows "\<exists>w' t' f'. timer_call user (wd_routine w1 x) x (w1, t, hist) = Some (w', t', hist @ [x]) \<and> wd_sys W w' f' \<and> tm_ok W w' f' t'
    \<and> effect (\<lambda>e. uptime (fst e)) (\<lambda>e. realtime (fst e)) W {x} (w1, t, hist) (f(h := displace x (f h))) (w', t', hist @ [x]) f'"
proof -
  have x: "x \<in> W" using assms(2,4) wd_sysD(2) [OF assms(2), of h] by (auto simp: wd_taken_def)
  note K = taken_timer [OF assms(1,4) x]
  show ?thesis
  proof (cases "Timer_Is_on_task_class (the_class t x)")
    case True
    then have r: "wd_routine w1 x = SERVER_ROUTINE_ADAPTOR" using K(3) by simp
    show ?thesis using Timer_server_Routine_adaptor_ok [OF K(6,1) x K(2,4) True, of hist "hist @ [x]"]
      unfolding r by (auto simp: timer_call_def)
  next
    case False
    then have r: "wd_routine w1 x = ROUTINE_ADAPTOR" using K(3) by simp
    have u: "unat (cpu_ticks w1) \<le> tick_horizon" using assms(3) K(5) by simp
    show ?thesis using Timer_Routine_adaptor_ok [OF K(6,1) x K(2,4) u r False, of user hist "hist @ [x]"]
      unfolding r by (auto simp: timer_call_def)
  qed
qed

text \<open>The timers keep the contract of the service routines, each touching no watchdog but its own.\<close>

interpretation tm: service_routines W W tick_horizon "\<lambda>w f e. tm_ok W w f (fst e)" snd "\<lambda>e. uptime (fst e)" "\<lambda>e. realtime (fst e)"
  "timer_call user" "\<lambda>_. None"
proof
  show "tick_horizon < 2 ^ 64" by simp
  show "tm_ok W (w\<lparr>ticks_since_boot := a, cpu_ticks := b\<rparr>) f (fst e)" if "tm_ok W w f (fst e)" for w f a b and e :: "'a timers \<times> nat list"
    using that by (simp add: tm_ok_def Watchdog_Get_state_def)
  fix w f h x w1 and e :: "'a timers \<times> nat list"
  assume "wd_sys W w f" "tm_ok W w f (fst e)" "unat (cpu_ticks w) \<le> tick_horizon" "wd_taken W h x w f w1"
  then show "\<exists>w' e' f'. timer_call user (wd_routine w1 x) x (w1, e) = Some (w', e') \<and> wd_sys W w' f' \<and> tm_ok W w' f' (fst e') \<and> snd e' = snd e @ [x]
      \<and> effect (\<lambda>e. uptime (fst e)) (\<lambda>e. realtime (fst e)) W {x} (w1, e) (f(h := displace x (f h))) (w', e') f'"
    using timer_call_ok [of W w f "fst e" h x w1 user "snd e"] by (cases e) fastforce
qed simp

end
