(* ===== verification/Timer_Properties.thy ===== *)
theory Timer_Properties
  imports Timer_Inv
begin

text \<open>
  What the timers promise: from the initialisation on, whatever directives, clock ticks and runs of the timer
  server follow, nothing gets stuck and the invariant holds; and an armed timer fires at its tick.
\<close>

section \<open>The directives\<close>

definition tm_inv :: "'u timer_state \<Rightarrow> bool" where
  "tm_inv s \<longleftrightarrow> (\<exists>W f. wd_sys W (fst s) f \<and> tm_ok W (fst s) f (snd s))"

lemma Timer_Cancel_inv:
  assumes "tm_inv (w, t)" and "Timer_Get i (w, t) = Some x" and "x \<noteq> 0"
  shows "\<exists>s'. Timer_Cancel x (w, t) = Some s' \<and> tm_inv s' \<and> cpu_ticks (fst s') = cpu_ticks w"
proof -
  obtain W f where H: "wd_sys W w f" "tm_ok W w f t" using assms(1) by (auto simp: tm_inv_def)
  have "x \<in> W" using Timer_Get_ok(1) [OF H(2), of i w] assms(2,3) by auto
  then show ?thesis using Timer_Cancel_ok [OF H] unfolding tm_inv_def by fastforce
qed

lemma Timer_Get_total: "tm_inv (w, t) \<Longrightarrow> \<exists>y. Timer_Get i (w, t) = Some y"
  using Timer_Get_ok(1) unfolding tm_inv_def by fastforce

text \<open>A timer that is neither scheduled nor pending may get another class and routine.\<close>

lemma retype_ok:
  assumes "tm_ok W w f t" and "unscheduled x f" and "x \<notin> set (Pending t)" and "Timer_Is_interval_class c \<Longrightarrow> n \<noteq> 0"
    and "a = (if Timer_Is_on_task_class c then SERVER_ROUTINE_ADAPTOR else ROUTINE_ADAPTOR)"
  shows "tm_ok W (Watchdog_Initialize x a w) f (t\<lparr>the_class := (the_class t)(x := c), tm_routine := r,
    user_data := d, tm_initial := (tm_initial t)(x := n), start_time := g\<rparr>)"
proof -
  note T = tm_okD [OF assms(1)]
  have s: "Watchdog_Get_state y (Watchdog_Initialize x a w) = Watchdog_Get_state y w" for y by (simp add: Watchdog_Initialize_def Watchdog_Get_state_def)
  have r: "wd_routine (Watchdog_Initialize x a w) y = wd_routine w y" if "y \<noteq> x" for y using that by (simp add: Watchdog_Initialize_def)
  have x: "y \<noteq> x" if "h < 3" "y \<in> snd ` set (f h)" for h y using assms(2) that by (auto simp: unscheduled_def)
  have "Timer_Is_on_task_class (((the_class t)(x := c)) y)" if "y \<in> set (Pending t)" for y using T(7) that assms(3) by auto
  moreover have "Timer_Watchdog_header_index (((the_class t)(x := c)) y) = h \<and> wd_routine (Watchdog_Initialize x a w) y =
      (if Timer_Is_on_task_class (((the_class t)(x := c)) y) then 2 else 1)" if "h < 3" "y \<in> snd ` set (f h)" for h y
    using x [OF that] r T(8) [OF that] T(9) [OF that] by simp
  moreover have "((tm_initial t)(x := n)) y \<noteq> 0 \<and> wd_routine (Watchdog_Initialize x a w) y =
      (if Timer_Is_on_task_class (((the_class t)(x := c)) y) then 2 else 1)"
    if "y \<in> W" "Timer_Is_interval_class (((the_class t)(x := c)) y)" for y
    using T(4,10) assms(4,5) that by (cases "y = x") (auto simp: Watchdog_Initialize_def)
  ultimately show ?thesis unfolding tm_ok_def s using T(1-3,5,6) by simp
qed

lemma wd_sys_initialize: "wd_sys W w f \<Longrightarrow> wd_sys W (Watchdog_Initialize x a w) f"
  by (simp add: wd_sys_def wd_holds_def Watchdog_Initialize_def Watchdog_Is_scheduled_def Watchdog_Get_state_def)

definition fire_expire :: "nat \<Rightarrow> uint32 \<Rightarrow> watchdogs \<Rightarrow> 64 word" where
  "fire_expire c n w = (if Timer_Is_interval_class c then cpu_ticks w + ucast n else Watchdog_Ticks_from_seconds n)"

lemma Timer_Fire_ok:
  assumes "wd_sys W w f" and "tm_ok W w f t" and "Timer_Get i (w, t) = Some x" and "x \<noteq> 0"
    and "c = TIMER_INTERVAL \<or> c = TIMER_INTERVAL_ON_TASK \<or> c = TIMER_TIME_OF_DAY \<or> c = TIMER_TIME_OF_DAY_ON_TASK"
    and "Timer_Is_interval_class c \<Longrightarrow> n \<noteq> 0" and "a = (if Timer_Is_on_task_class c then SERVER_ROUTINE_ADAPTOR else ROUTINE_ADAPTOR)"
  shows "\<exists>w' t' f'. Timer_Fire i n r d c a (w, t) = Some (RTEMS_SUCCESSFUL, (w', t')) \<and> wd_sys W w' f' \<and> tm_ok W w' f' t'
    \<and> cpu_ticks w' = cpu_ticks w \<and> x \<in> W \<and> (fire_expire c n w, x) \<in> set (f' (Timer_Watchdog_header_index c))"
proof -
  have x: "x \<in> W" using Timer_Get_ok(1) [OF assms(2), of i w] assms(3,4) by auto
  obtain w1 t1 f1 where C: "Timer_Cancel x (w, t) = Some (w1, t1)" "wd_sys W w1 f1" "tm_ok W w1 f1 t1" "unscheduled x f1"
    "Watchdog_Get_state x w1 \<noteq> WATCHDOG_PENDING" "cpu_ticks w1 = cpu_ticks w" using Timer_Cancel_ok [OF assms(1,2) x] by blast
  define w2 where "w2 = Watchdog_Initialize x a w1"
  define t2 where "t2 = t1\<lparr>the_class := (the_class t1)(x := c), tm_routine := (tm_routine t1)(x := r),
    user_data := (user_data t1)(x := d), tm_initial := (tm_initial t1)(x := n), start_time := (start_time t1)(x := Timer_Get_CPU_ticks w2)\<rparr>"
  have np: "x \<notin> set (Pending t1)" using tm_okD(6) [OF C(3)] C(5) by simp
  have ok2: "wd_sys W w2 f1" "tm_ok W w2 f1 t2"
    using wd_sys_initialize [OF C(2)] retype_ok [OF C(3,4) np assms(6,7)] by (simp_all add: w2_def t2_def)
  have s: "Watchdog_Get_state x w2 \<noteq> WATCHDOG_PENDING" "cpu_ticks w2 = cpu_ticks w" "wd_routine w2 x = a"
    using C(5,6) by (simp_all add: w2_def Watchdog_Initialize_def Watchdog_Get_state_def)
  have c2: "the_class t2 x = c" by (simp add: t2_def)
  define h where "h = Timer_Watchdog_header_index c"
  have h: "h < 3" "h = (if Timer_Is_interval_class c then 0 else 1)" using assms(5) timer_classes by (auto simp: h_def)
  obtain w' where A: "Watchdog_Insert h x (fire_expire c n w) w2 = Some w'" "wd_sys W w' (f1(h := place (fire_expire c n w) x (f1 h)))"
    "tm_ok W w' (f1(h := place (fire_expire c n w) x (f1 h))) t2" "cpu_ticks w' = cpu_ticks w2"
    using arm_ok [OF ok2 x C(4) s(1) h(1)] s(3) assms(7) unfolding c2 h_def by blast
  have "Timer_Fire i n r d c a (w, t) = Some (RTEMS_SUCCESSFUL, (w', t2))"
    using A(1) assms(3,4) C(1) s(2) unfolding h(2) Timer_Fire_def fire_expire_def w2_def t2_def by (simp add: Let_def split: if_splits)
  moreover have "(fire_expire c n w, x) \<in> set ((f1(h := place (fire_expire c n w) x (f1 h))) h)" by simp
  ultimately show ?thesis using A(2-4) s(2) x unfolding h_def by metis
qed

text \<open>A directive returns a status, keeps the invariant and does not change the ticks.\<close>

definition returns :: "(rtems_status_code \<times> 'u timer_state) option \<Rightarrow> 'u timer_state \<Rightarrow> bool" where
  "returns r s \<longleftrightarrow> (\<exists>st s'. r = Some (st, s') \<and> tm_inv s' \<and> cpu_ticks (fst s') = cpu_ticks (fst s))"

lemma returns_Some [simp]: "returns (Some (st, s')) s \<longleftrightarrow> tm_inv s' \<and> cpu_ticks (fst s') = cpu_ticks (fst s)"
  by (auto simp: returns_def)

lemma Timer_Fire_returns:
  assumes "tm_inv s" and "c = TIMER_INTERVAL \<or> c = TIMER_INTERVAL_ON_TASK \<or> c = TIMER_TIME_OF_DAY \<or> c = TIMER_TIME_OF_DAY_ON_TASK"
    and "Timer_Is_interval_class c \<Longrightarrow> n \<noteq> 0" and "a = (if Timer_Is_on_task_class c then SERVER_ROUTINE_ADAPTOR else ROUTINE_ADAPTOR)"
  shows "returns (Timer_Fire i n r d c a s) s"
proof -
  obtain w t where s: "s = (w, t)" by (cases s)
  obtain W f where H: "wd_sys W w f" "tm_ok W w f t" using assms(1) by (auto simp: tm_inv_def s)
  obtain x where G: "Timer_Get i (w, t) = Some x" using Timer_Get_total assms(1) s by blast
  show ?thesis
  proof (cases "x = 0")
    case True
    then show ?thesis using G assms(1) by (simp add: Timer_Fire_def s)
  next
    case False
    then show ?thesis using Timer_Fire_ok [OF H G False assms(2-4), of r d] unfolding tm_inv_def s returns_def by fastforce
  qed
qed

lemma fire_directives_return:
  assumes "tm_inv s"
  shows "returns (rtems_timer_fire_after i n r d s) s" and "returns (rtems_timer_fire_when i tod r d s) s"
    and "returns (rtems_timer_server_fire_after i n r d s) s" and "returns (rtems_timer_server_fire_when i tod r d s) s"
proof -
  have A: "returns (Timer_Fire_after i n r d c a s) s"
    if "c = TIMER_INTERVAL \<and> a = ROUTINE_ADAPTOR \<or> c = TIMER_INTERVAL_ON_TASK \<and> a = SERVER_ROUTINE_ADAPTOR" for c a
    using Timer_Fire_returns [OF assms, of c n a i r d] that assms timer_classes by (auto simp: Timer_Fire_after_def)
  have B: "returns (Timer_Fire_when i tod r d c a s) s"
    if "c = TIMER_TIME_OF_DAY \<and> a = ROUTINE_ADAPTOR \<or> c = TIMER_TIME_OF_DAY_ON_TASK \<and> a = SERVER_ROUTINE_ADAPTOR" for c a
    using Timer_Fire_returns [OF assms, of c _ a i r d] that assms timer_classes by (auto simp: Timer_Fire_when_def Let_def)
  show "returns (rtems_timer_fire_after i n r d s) s" "returns (rtems_timer_fire_when i tod r d s) s"
    unfolding rtems_timer_fire_after_def rtems_timer_fire_when_def using A B by simp_all
  show "returns (rtems_timer_server_fire_after i n r d s) s" "returns (rtems_timer_server_fire_when i tod r d s) s"
    unfolding rtems_timer_server_fire_after_def rtems_timer_server_fire_when_def using A B assms by simp_all
qed

lemma rtems_timer_cancel_returns:
  assumes "tm_inv s"
  shows "returns (rtems_timer_cancel i s) s"
proof -
  obtain w t where s: "s = (w, t)" by (cases s)
  obtain x where G: "Timer_Get i (w, t) = Some x" using Timer_Get_total assms s by blast
  show ?thesis using G assms Timer_Cancel_inv [of w t i x] by (auto simp: rtems_timer_cancel_def s)
qed

lemma rtems_timer_reset_returns:
  assumes "tm_inv s"
  shows "returns (rtems_timer_reset i s) s"
proof -
  obtain w t where s: "s = (w, t)" by (cases s)
  obtain W f where H: "wd_sys W w f" "tm_ok W w f t" using assms by (auto simp: tm_inv_def s)
  obtain x where G: "Timer_Get i (w, t) = Some x" using Timer_Get_total assms s by blast
  show ?thesis
  proof (cases "x \<noteq> 0 \<and> Timer_Is_interval_class (the_class t x)")
    case False
    then show ?thesis using G assms by (auto simp: rtems_timer_reset_def s)
  next
    case True
    have x: "x \<in> W" using Timer_Get_ok(1) [OF H(2), of i w] G True by auto
    obtain w1 t1 f1 where C: "Timer_Cancel x (w, t) = Some (w1, t1)" "wd_sys W w1 f1" "tm_ok W w1 f1 t1" "unscheduled x f1"
      "Watchdog_Get_state x w1 \<noteq> WATCHDOG_PENDING" "cpu_ticks w1 = cpu_ticks w" "wd_routine w1 = wd_routine w" "same_timers t t1"
      using Timer_Cancel_ok [OF H x] by blast
    have c: "the_class t1 = the_class t" "tm_initial t1 = tm_initial t" using C(8) by (simp_all add: same_timers_def)
    have r: "wd_routine w1 x = (if Timer_Is_on_task_class (the_class t1 x) then SERVER_ROUTINE_ADAPTOR else ROUTINE_ADAPTOR)"
      using tm_okD(10) [OF C(3) x] True c by simp
    obtain w' where "Watchdog_Insert 0 x (cpu_ticks w1 + ucast (tm_initial t1 x)) w1 = Some w'"
      "wd_sys W w' (f1(0 := place (cpu_ticks w1 + ucast (tm_initial t1 x)) x (f1 0)))"
      "tm_ok W w' (f1(0 := place (cpu_ticks w1 + ucast (tm_initial t1 x)) x (f1 0))) t1" "cpu_ticks w' = cpu_ticks w1"
      using arm_ok [OF C(2,3) x C(4,5), of 0] r interval_header True c by auto
    then show ?thesis using G True C(1,6) unfolding tm_inv_def s returns_def rtems_timer_reset_def by fastforce
  qed
qed

text \<open>Creation and deletion change the set of timers.\<close>

lemma wd_sys_remove_timer: "wd_sys W w f \<Longrightarrow> unscheduled x f \<Longrightarrow> wd_sys (W - {x}) w f"
  unfolding wd_sys_def unscheduled_def by blast

text \<open>An inactive object that is opened becomes a timer of the system.\<close>

lemma tm_ok_create:
  assumes H: "wd_sys W w f" "tm_ok W w f t" and I: "Inactive (timer_objs t) = x # rest"
    and k: "k < obj_count (timer_objs t)" "x = obj_addr (timer_objs t) k"
    and P: "objs2 = timer_objs t\<lparr>Inactive := rest, obj_name := nm, local_table := (local_table (timer_objs t))[k := x]\<rparr>" "objects_ok objs2"
  shows "tm_ok (insert x W) (Watchdog_Preinitialize x w) f (t\<lparr>the_class := (the_class t)(x := TIMER_DORMANT), timer_objs := objs2\<rparr>)"
proof -
  note T = tm_okD [OF H(2)]
  define objs where "objs = timer_objs t"
  define w' where "w' = Watchdog_Preinitialize x w"
  define t' where "t' = t\<lparr>the_class := (the_class t)(x := TIMER_DORMANT), timer_objs := objs2\<rparr>"
  have O: "objects_ok objs" and I: "Inactive objs = x # rest" and k: "k < obj_count objs" "x = obj_addr objs k"
    and P: "objs2 = objs\<lparr>Inactive := rest, obj_name := nm, local_table := (local_table objs)[k := x]\<rparr>" "objects_ok objs2"
    using T(1) I k P by (simp_all add: objs_def)
  have d: "distinct (x # rest)" using objects_okD(6) [OF O] I by simp
  have x: "x \<notin> W" using T(2) I by (auto simp: objs_def)
  have a2: "obj_addr objs2 = obj_addr objs" "obj_count objs2 = obj_count objs" "Inactive objs2 = rest" using P(1) by simp_all
  have W: "insert x W \<subseteq> obj_addr objs2 ` {..<obj_count objs2} - set (Inactive objs2)" using T(2) k d I unfolding a2 objs_def [symmetric] by auto
  have n: "length (local_table objs) = obj_count objs" using objects_okD(1) [OF O] .
  have op: "obj_addr objs2 j \<in> insert x W" if "is_open objs2 j" for j
    using that T(3) [of j] n k unfolding is_open_def a2 objs_def [symmetric] by (cases "j = k") (auto simp: P(1))
  have st: "Watchdog_Get_state y w' = (if y = x then WATCHDOG_INACTIVE else Watchdog_Get_state y w)" "wd_routine w' = wd_routine w" for y
    by (simp_all add: w'_def Watchdog_Preinitialize_def Watchdog_Get_state_def Watchdog_Set_state_def)
  have xp: "x \<notin> set (Pending t)" "\<And>h. h < 3 \<Longrightarrow> x \<notin> snd ` set (f h)" using T(6) x wd_sysD(2) [OF H(1)] by auto
  have cl: "the_class t' y = (if y = x then TIMER_DORMANT else the_class t y)" for y by (simp add: t'_def)
  have pe: "set (Pending t) = {y \<in> insert x W. Watchdog_Get_state y w' = WATCHDOG_PENDING}" unfolding st using T(6) x by auto
  have t': "timer_objs t' = objs2" "Pending t' = Pending t" "tm_initial t' = tm_initial t" by (simp_all add: t'_def)
  have i4: "\<forall>y \<in> insert x W. Timer_Is_interval_class (the_class t' y) \<longrightarrow> tm_initial t' y \<noteq> 0
      \<and> wd_routine w' y = (if Timer_Is_on_task_class (the_class t' y) then 2 else 1)"
    using T(4,10) timer_classes(5) unfolding cl st(2) t'(3) by simp
  have i7: "\<forall>y \<in> set (Pending t'). Timer_Is_on_task_class (the_class t' y)" unfolding t'(2) using T(7) xp(1) cl by metis
  have i8: "\<forall>h < 3. \<forall>y \<in> snd ` set (f h). Timer_Watchdog_header_index (the_class t' y) = h
      \<and> wd_routine w' y = (if Timer_Is_on_task_class (the_class t' y) then 2 else 1)"
  proof (intro allI impI ballI)
    fix h y assume y: "h < 3" "y \<in> snd ` set (f h)"
    then have "the_class t' y = the_class t y" using xp(2) cl by metis
    then show "Timer_Watchdog_header_index (the_class t' y) = h \<and> wd_routine w' y = (if Timer_Is_on_task_class (the_class t' y) then 2 else 1)"
      using T(8,9) y unfolding st(2) by simp
  qed
  show ?thesis unfolding t'_def [symmetric] w'_def [symmetric] tm_ok_def using P(2) W op T(5) pe i4 i7 i8 unfolding t' by blast
qed

lemma rtems_timer_create_returns:
  assumes "tm_inv s"
  shows "\<exists>st i s'. rtems_timer_create name b s = Some (st, i, s') \<and> tm_inv s' \<and> cpu_ticks (fst s') = cpu_ticks (fst s)"
proof -
  obtain w t where s: "s = (w, t)" by (cases s)
  obtain W f where H: "wd_sys W w f" "tm_ok W w f t" using assms by (auto simp: tm_inv_def s)
  note T = tm_okD [OF H(2)]
  define objs where "objs = timer_objs t"
  have O: "objects_ok objs" using T(1) by (simp add: objs_def)
  show ?thesis
  proof (cases "name = 0 \<or> b \<or> Inactive objs = []")
    case True
    then show ?thesis using assms H unfolding s
      by (auto simp: rtems_timer_create_def Objects_Allocate_static_def Objects_Get_inactive_def objs_def)
  next
    case False
    then obtain x rest where I: "Inactive objs = x # rest" by (cases "Inactive objs") auto
    obtain k where k: "k < obj_count objs" "x = obj_addr objs k" using objects_okD(7) [OF O] I by auto
    have d: "distinct (x # rest)" using objects_okD(6) [OF O] I by simp
    define objs1 where "objs1 = objs\<lparr>Inactive := rest\<rparr>"
    have O1: "objects_ok objs1" using O I d unfolding objects_ok_def objs1_def by auto
    have c1: "obj_count objs1 = obj_count objs" "obj_addr objs1 = obj_addr objs" by (simp_all add: objs1_def)
    obtain objs2 where P: "Objects_Open_u32 x name objs1 = Some (id_at objs1 k, objs2)"
      "objs2 = objs1\<lparr>obj_name := (obj_name objs1)(x := name), local_table := (local_table objs1)[k := x]\<rparr>" "objects_ok objs2"
      using Objects_Open_ok [OF O1, of k name] k d unfolding c1 by (auto simp: objs1_def)
    define w' where "w' = Watchdog_Preinitialize x w"
    define t' where "t' = t\<lparr>the_class := (the_class t)(x := TIMER_DORMANT), timer_objs := objs2\<rparr>"
    have x: "x \<notin> W" "x \<noteq> 0" using T(2) I obj_addr_nonzero [OF O] k(2) by (auto simp: objs_def)
    have "rtems_timer_create name b s = Some (RTEMS_SUCCESSFUL, Some (id_at objs1 k), (w', t'))"
      using False I P(1) x(2) by (simp add: s rtems_timer_create_def Objects_Allocate_static_def Objects_Get_inactive_def objs_def [symmetric]
        objs1_def w'_def t'_def)
    moreover have "wd_sys (insert x W) w' f" using wd_sys_insert_timer [OF H(1) x] H(1) by (simp add: wd_sys_def w'_def)
    moreover have "tm_ok (insert x W) w' f t'" unfolding w'_def t'_def
      by (rule tm_ok_create [OF H I [unfolded objs_def] k [unfolded objs_def] _ P(3)]) (simp add: P(2) objs1_def objs_def)
    moreover have "cpu_ticks w' = cpu_ticks w" by (simp add: w'_def Watchdog_Preinitialize_def)
    ultimately show ?thesis unfolding tm_inv_def s by auto
  qed
qed

lemma Timer_Cancel_objs:
  "Timer_Cancel x (w, t\<lparr>timer_objs := objs\<rparr>) = map_option (\<lambda>(w, t). (w, t\<lparr>timer_objs := objs\<rparr>)) (Timer_Cancel x (w, t))"
  by (auto simp: Timer_Cancel_def Let_def split: Option.bind_split)

lemma rtems_timer_delete_returns:
  assumes "tm_inv s"
  shows "returns (rtems_timer_delete i s) s"
proof -
  obtain w t where s: "s = (w, t)" by (cases s)
  obtain W f where H: "wd_sys W w f" "tm_ok W w f t" using assms by (auto simp: tm_inv_def s)
  obtain x where G: "Timer_Get i (w, t) = Some x" using Timer_Get_total assms s by blast
  show ?thesis
  proof (cases "x = 0")
    case True
    then show ?thesis using G assms by (simp add: rtems_timer_delete_def s)
  next
    case False
    have x: "x \<in> W" using Timer_Get_ok(1) [OF H(2), of i w] G False by auto
    obtain w1 t1 f1 where C: "Timer_Cancel x (w, t) = Some (w1, t1)" "wd_sys W w1 f1" "tm_ok W w1 f1 t1" "unscheduled x f1"
      "Watchdog_Get_state x w1 \<noteq> WATCHDOG_PENDING" "cpu_ticks w1 = cpu_ticks w" "same_timers t t1"
      using Timer_Cancel_ok [OF H x] by blast
    note T = tm_okD [OF C(3)]
    define objs where "objs = timer_objs t1"
    have o: "timer_objs t = objs" using C(7) by (simp add: objs_def same_timers_def)
    have O: "objects_ok objs" using T(1) by (simp add: objs_def)
    obtain k where k: "k < obj_count objs" "x = obj_addr objs k" "x \<notin> set (Inactive objs)" using subsetD [OF T(2) x] by (auto simp: objs_def)
    obtain objs1 where P: "Objects_Close x objs = Some objs1"
      "objs1 = objs\<lparr>local_table := (local_table objs)[k := 0], obj_name := (obj_name objs)(x := 0)\<rparr>" "objects_ok objs1"
      using Objects_Close_ok [OF O k(1)] k(2) by auto
    define objs2 where "objs2 = Objects_Free_static x objs1"
    have a2: "obj_addr objs2 = obj_addr objs" "obj_count objs2 = obj_count objs" "Inactive objs2 = Inactive objs @ [x]"
      "local_table objs2 = (local_table objs)[k := 0]" "obj_id objs2 = obj_id objs" "id_at objs2 = id_at objs"
      by (simp_all add: objs2_def Objects_Free_static_def P(2))
    have n: "length (local_table objs) = obj_count objs" using objects_okD(1) [OF O] .
    have O2: "objects_ok objs2" using P(3) k n obj_addr_inj [OF objects_okD(3) [OF O]]
      unfolding objects_ok_def objs2_def Objects_Free_static_def P(2) by (auto simp: nth_list_update split: if_splits)
    have "rtems_timer_delete i s = Some (RTEMS_SUCCESSFUL, (w1, t1\<lparr>timer_objs := objs2\<rparr>))"
      using G False P(1) C(1) by (simp add: rtems_timer_delete_def s o Timer_Cancel_objs objs2_def)
    moreover have "wd_sys (W - {x}) w1 f1" using wd_sys_remove_timer [OF C(2,4)] .
    moreover have "tm_ok (W - {x}) w1 f1 (t1\<lparr>timer_objs := objs2\<rparr>)"
    proof -
      have "W - {x} \<subseteq> obj_addr objs2 ` {..<obj_count objs2} - set (Inactive objs2)" using T(2) unfolding a2 objs_def [symmetric] by auto
      moreover have "obj_addr objs2 j \<in> W - {x}" if "is_open objs2 j" for j
        using that T(3) [of j] n k(1,2) obj_addr_inj [OF objects_okD(3) [OF O]] unfolding is_open_def a2 objs_def [symmetric]
        by (cases "j = k") auto
      moreover have "set (Pending t1) = {y \<in> W - {x}. Watchdog_Get_state y w1 = WATCHDOG_PENDING}" using T(6) C(5) by auto
      ultimately show ?thesis unfolding tm_ok_def using O2 T(4,5,7-10) by simp
    qed
    ultimately show ?thesis using C(6) unfolding tm_inv_def s returns_def by fastforce
  qed
qed

section \<open>The timer server and the clock tick\<close>

lemma serve_one:
  assumes "wd_sys W w f" and "tm_ok W w f t" and "Pending t = x # rest" and "unat (cpu_ticks w) \<le> tick_horizon"
  shows "\<exists>w' t' f'. run_user user (tm_routine t x) (obj_id (timer_objs t) x) (user_data t x)
      (Watchdog_Set_state x WATCHDOG_INACTIVE w, t\<lparr>Pending := rest\<rparr>) = Some (w', t')
    \<and> wd_sys W w' f' \<and> tm_ok W w' f' t' \<and> Pending t' = rest \<and> cpu_ticks w' = cpu_ticks w"
proof -
  note T = tm_okD [OF assms(2)]
  have x: "x \<in> W" "Watchdog_Get_state x w = WATCHDOG_PENDING" "x \<notin> set rest" using T(5,6) assms(3) by auto
  have u: "unscheduled x f" using wd_sys_scheduled [OF assms(1) x(1)] x(2) by (simp add: Watchdog_Is_scheduled_def)
  define w1 where "w1 = Watchdog_Set_state x WATCHDOG_INACTIVE w"
  define t1 where "t1 = t\<lparr>Pending := rest\<rparr>"
  have st: "Watchdog_Get_state y w1 = (if y = x then WATCHDOG_INACTIVE else Watchdog_Get_state y w)" "wd_routine w1 = wd_routine w"
    "cpu_ticks w1 = cpu_ticks w" for y by (simp_all add: w1_def Watchdog_Get_state_def Watchdog_Set_state_def)
  have s1: "wd_sys W w1 f" using wd_sys_set_state [OF assms(1) u] by (simp add: w1_def)
  have p: "set rest = {y \<in> W. Watchdog_Get_state y w1 = WATCHDOG_PENDING}" unfolding st using T(6) x(3) assms(3) by auto
  have t1: "timer_objs t1 = timer_objs t" "the_class t1 = the_class t" "tm_initial t1 = tm_initial t" "Pending t1 = rest"
    "tm_routine t1 = tm_routine t" "user_data t1 = user_data t" by (simp_all add: t1_def)
  have ok1: "tm_ok W w1 f t1" unfolding tm_ok_def t1(1-4) st(2) using T(1-5,7-10) p assms(3) by auto
  have c: "Timer_Is_on_task_class (the_class t x)" using T(7) assms(3) by simp
  show ?thesis
  proof (cases "Timer_Is_interval_class (the_class t x)")
    case True
    then have "wd_routine w1 x = (if Timer_Is_on_task_class (the_class t1 x) then SERVER_ROUTINE_ADAPTOR else ROUTINE_ADAPTOR)"
      using T(10) [OF x(1)] st(2) t1(2) by simp
    then have "\<exists>w' t' f'. run_user user (tm_routine t x) (obj_id (timer_objs t1) x) (user_data t x) (w1, t1) = Some (w', t')
        \<and> wd_sys W w' f' \<and> tm_ok W w' f' t' \<and> cpu_ticks w' = cpu_ticks w1 \<and> Pending t' = Pending t1"
      using run_user_ok [OF s1 ok1 x(1) u] st assms(4) by (metis (no_types, lifting))
    then show ?thesis using st(3) t1 unfolding w1_def t1_def by auto
  next
    case False
    obtain rearm v where v: "user (tm_routine t x) (obj_id (timer_objs t) x) (user_data t x) (world t) = (rearm, v)" by fastforce
    define t2 where "t2 = t1\<lparr>world := v\<rparr>"
    have "tm_ok W w1 f t2" using ok1 by (simp add: tm_ok_def t2_def)
    moreover have "Timer_Get (obj_id (timer_objs t) x) (w1, t2) = Some 0 \<or> Timer_Get (obj_id (timer_objs t) x) (w1, t2) = Some x"
      using Timer_Get_ok(2) [OF ok1 x(1), of w1] t1(1) by (simp add: Timer_Get_def t2_def)
    then have "run_user user (tm_routine t x) (obj_id (timer_objs t) x) (user_data t x) (w1, t1) = Some (w1, t2)"
      using v False t1(2) by (auto simp: run_user_def t2_def t1_def rtems_timer_reset_def Let_def)
    ultimately show ?thesis using s1 st(3) t1(4) unfolding w1_def t1_def t2_def by auto
  qed
qed

lemma Timer_server_Body_ok:
  assumes "tm_inv s" and "unat (cpu_ticks (fst s)) \<le> tick_horizon"
  shows "\<exists>s'. Timer_server_Body user s = Some s' \<and> tm_inv s' \<and> Pending (snd s') = [] \<and> cpu_ticks (fst s') = cpu_ticks (fst s)"
  using assms
proof (induction "Pending (snd s)" arbitrary: s)
  case Nil
  then show ?case by (subst Timer_server_Body.simps) (simp split: list.split)
next
  case (Cons x rest)
  obtain w t where s: "s = (w, t)" by (cases s)
  obtain W f where H: "wd_sys W w f" "tm_ok W w f t" using Cons.prems(1) by (auto simp: tm_inv_def s)
  have p: "Pending t = x # rest" using Cons.hyps(2) s by simp
  obtain w' t' f' where R: "run_user user (tm_routine t x) (obj_id (timer_objs t) x) (user_data t x)
      (Watchdog_Set_state x WATCHDOG_INACTIVE w, t\<lparr>Pending := rest\<rparr>) = Some (w', t')"
    "wd_sys W w' f'" "tm_ok W w' f' t'" "Pending t' = rest" "cpu_ticks w' = cpu_ticks w"
    using serve_one [OF H p, of user] Cons.prems(2) s by auto
  have "\<exists>s'. Timer_server_Body user (w', t') = Some s' \<and> tm_inv s' \<and> Pending (snd s') = [] \<and> cpu_ticks (fst s') = cpu_ticks w'"
    using Cons.hyps(1) [of "(w', t')"] R Cons.prems(2) s by (auto simp: tm_inv_def)
  then show ?case using R(1,5) p s by (subst Timer_server_Body.simps) simp
qed

lemma timer_tick_ok:
  assumes "tm_inv (w, t)" and "unat (cpu_ticks w) < tick_horizon"
  shows "\<exists>w' t' hist'. timer_tick user (w, t, hist) = Some (w', t', hist') \<and> tm_inv (w', t') \<and> cpu_ticks w' = cpu_ticks w + 1"
proof -
  obtain W f where H: "wd_sys W w f" "tm_ok W w f t" using assms(1) by (auto simp: tm_inv_def)
  obtain w' e' f' where "timer_tick user (w, t, hist) = Some (w', e')" "wd_sys W w' f'" "tm_ok W w' f' (fst e')" "cpu_ticks w' = cpu_ticks w + 1"
    using tm.tick_ok [of W w f "(t, hist)" user] H assms(2) unfolding timer_tick_def by auto
  then show ?thesis by (cases e') (auto simp: tm_inv_def)
qed

section \<open>Systems of timers\<close>

datatype timer_request =
    Timer_create uint32 bool | Timer_delete uint32
  | Timer_fire_after uint32 uint32 nat nat | Timer_fire_when uint32 "rtems_time_of_day option" nat nat
  | Server_fire_after uint32 uint32 nat nat | Server_fire_when uint32 "rtems_time_of_day option" nat nat
  | Timer_cancel uint32 | Timer_reset uint32 | Tick | Serve | Clocks timespec timespec

definition directive :: "(rtems_status_code \<times> 'u timer_state) option \<Rightarrow> nat list \<Rightarrow> (watchdogs \<times> 'u timers \<times> nat list) option" where
  "directive r hist = map_option (\<lambda>(st, w, t). (w, t, hist)) r"

fun timer_step :: "(nat \<Rightarrow> uint32 \<Rightarrow> nat \<Rightarrow> 'u \<Rightarrow> bool \<times> 'u) \<Rightarrow> timer_request \<Rightarrow> watchdogs \<times> 'u timers \<times> nat list \<Rightarrow> (watchdogs \<times> 'u timers \<times> nat list) option" where
  "timer_step user (Timer_create name b) (w, t, hist) = map_option (\<lambda>(st, i, w, t). (w, t, hist)) (rtems_timer_create name b (w, t))"
| "timer_step user (Timer_delete i) (w, t, hist) = directive (rtems_timer_delete i (w, t)) hist"
| "timer_step user (Timer_fire_after i n r d) (w, t, hist) = directive (rtems_timer_fire_after i n r d (w, t)) hist"
| "timer_step user (Timer_fire_when i tod r d) (w, t, hist) = directive (rtems_timer_fire_when i tod r d (w, t)) hist"
| "timer_step user (Server_fire_after i n r d) (w, t, hist) = directive (rtems_timer_server_fire_after i n r d (w, t)) hist"
| "timer_step user (Server_fire_when i tod r d) (w, t, hist) = directive (rtems_timer_server_fire_when i tod r d (w, t)) hist"
| "timer_step user (Timer_cancel i) (w, t, hist) = directive (rtems_timer_cancel i (w, t)) hist"
| "timer_step user (Timer_reset i) (w, t, hist) = directive (rtems_timer_reset i (w, t)) hist"
| "timer_step user Tick s = timer_tick user s"
| "timer_step user Serve (w, t, hist) = map_option (\<lambda>(w, t). (w, t, hist)) (Timer_server_Body user (w, t))"
| "timer_step user (Clocks up rt) (w, t, hist) = Some (w, t\<lparr>uptime := up, realtime := rt\<rparr>, hist)"

fun timer_run :: "(nat \<Rightarrow> uint32 \<Rightarrow> nat \<Rightarrow> 'u \<Rightarrow> bool \<times> 'u) \<Rightarrow> timer_request list \<Rightarrow> watchdogs \<times> 'u timers \<times> nat list \<Rightarrow> (watchdogs \<times> 'u timers \<times> nat list) option" where
  "timer_run user [] s = Some s"
| "timer_run user (r # rs) s = timer_step user r s \<bind> timer_run user rs"

lemma directive_ok:
  "returns r (w, t) \<Longrightarrow> \<exists>w' t' hist'. directive r hist = Some (w', t', hist') \<and> tm_inv (w', t') \<and> cpu_ticks w' = cpu_ticks w"
  by (auto simp: returns_def directive_def)

lemma timer_step_ok:
  assumes "tm_inv (w, t)" and "unat (cpu_ticks w) < tick_horizon"
  shows "\<exists>w' t' hist'. timer_step user r (w, t, hist) = Some (w', t', hist') \<and> tm_inv (w', t')
    \<and> cpu_ticks w' = cpu_ticks w + (if r = Tick then 1 else 0)"
proof (cases r)
  case (Timer_create name b)
  obtain st i s' where "rtems_timer_create name b (w, t) = Some (st, i, s')" "tm_inv s'" "cpu_ticks (fst s') = cpu_ticks w"
    using rtems_timer_create_returns [OF assms(1)] by fastforce
  then show ?thesis using Timer_create by (cases s') simp
next
  case Tick
  then show ?thesis using timer_tick_ok [OF assms] by simp
next
  case Serve
  obtain s' where "Timer_server_Body user (w, t) = Some s'" "tm_inv s'" "cpu_ticks (fst s') = cpu_ticks w"
    using Timer_server_Body_ok [OF assms(1)] assms(2) by fastforce
  then show ?thesis using Serve by (cases s') simp
next
  case (Clocks up rt)
  then show ?thesis using assms(1) by (simp add: tm_inv_def tm_ok_def)
qed (use directive_ok [OF fire_directives_return(1) [OF assms(1)]] directive_ok [OF fire_directives_return(2) [OF assms(1)]]
  directive_ok [OF fire_directives_return(3) [OF assms(1)]] directive_ok [OF fire_directives_return(4) [OF assms(1)]]
  directive_ok [OF rtems_timer_cancel_returns [OF assms(1)]] directive_ok [OF rtems_timer_reset_returns [OF assms(1)]]
  directive_ok [OF rtems_timer_delete_returns [OF assms(1)]] in simp_all)

lemma timer_run_ok:
  assumes "tm_inv (w, t)" and "unat (cpu_ticks w) + length (filter (\<lambda>r. r = Tick) rs) < tick_horizon"
  shows "\<exists>w' t' hist'. timer_run user rs (w, t, hist) = Some (w', t', hist') \<and> tm_inv (w', t')
    \<and> cpu_ticks w' = cpu_ticks w + of_nat (length (filter (\<lambda>r. r = Tick) rs))"
  using assms
proof (induction rs arbitrary: w t hist)
  case (Cons r rs)
  obtain w1 t1 hist1 where 1: "timer_step user r (w, t, hist) = Some (w1, t1, hist1)" "tm_inv (w1, t1)"
    "cpu_ticks w1 = cpu_ticks w + (if r = Tick then 1 else 0)" using timer_step_ok [OF Cons.prems(1)] Cons.prems(2) by fastforce
  have "unat (cpu_ticks w1) = unat (cpu_ticks w) + (if r = Tick then 1 else 0)"
    using tick_unat [of "cpu_ticks w" 1] Cons.prems(2) 1(3) by (auto split: if_splits)
  then obtain w2 t2 hist2 where 2: "timer_run user rs (w1, t1, hist1) = Some (w2, t2, hist2)" "tm_inv (w2, t2)"
    "cpu_ticks w2 = cpu_ticks w1 + of_nat (length (filter (\<lambda>r. r = Tick) rs))" using Cons.IH [OF 1(2)] Cons.prems(2) by (auto split: if_splits)
  then show ?case using 1 by auto
qed simp

text \<open>The timers before the initialisation of their objects.\<close>

definition tm_start :: "'u timers \<Rightarrow> bool" where
  "tm_start t \<longleftrightarrow> obj_count (timer_objs t) < 65535 \<and> 0 < object_size (timer_objs t) \<and> 0 < initial_objects (timer_objs t)
     \<and> local_table (timer_objs t) = replicate (obj_count (timer_objs t)) 0 \<and> Pending t = []"

lemma tm_start_inv:
  assumes "tm_start t" and "Objects_Initialize_information (timer_objs t) = Some objs"
  shows "tm_inv (wd_start w, t\<lparr>timer_objs := objs\<rparr>)"
proof -
  have "objects_ok objs" "\<forall>i. \<not> is_open objs i" using Objects_Initialize_ok [of "timer_objs t"] assms by (auto simp: tm_start_def)
  then have "tm_ok {} (wd_start w) (\<lambda>_. []) (t\<lparr>timer_objs := objs\<rparr>)" using assms(1) by (simp add: tm_ok_def tm_start_def)
  then show ?thesis using wd_start_ok unfolding tm_inv_def by fastforce
qed

declare initialize_loop.simps [code]

abbreviation two_timers :: "nat timers" where
  "two_timers \<equiv> \<lparr>timer_objs = \<lparr>maximum_id = 0x2a010002, local_table = [0, 0], Inactive = [], initial_objects = 100, object_size = 10,
       obj_id = \<lambda>_. 0, obj_name = \<lambda>_. 0\<rparr>,
     the_class = \<lambda>_. 0, tm_routine = \<lambda>_. 0, user_data = \<lambda>_. 0, tm_initial = \<lambda>_. 0, start_time = \<lambda>_. 0, stop_time = \<lambda>_. 0,
     timer_server = False, Pending = [], server_event = False, tod_is_set = False, uptime = \<lparr>tv_sec = 0, tv_nsec = 0\<rparr>,
     realtime = \<lparr>tv_sec = 0, tv_nsec = 0\<rparr>, tps = 100, world = 0\<rparr>"

lemma two_timers_start: "tm_start two_timers"
proof -
  have "unat (Objects_Get_index 0x2a010002) = 2" unfolding Objects_Get_index_def by code_simp
  then have "obj_count (timer_objs two_timers) = 2" by (simp add: obj_count_def)
  then show ?thesis by (simp add: tm_start_def numeral_2_eq_2)
qed

lemma two_timers_create:
  "\<exists>objs w t hist. Objects_Initialize_information (timer_objs two_timers) = Some objs
    \<and> timer_run (\<lambda>r i d u. (False, u)) [Timer_create 7 False] (wd_start no_watchdogs, two_timers\<lparr>timer_objs := objs\<rparr>, []) = Some (w, t, hist)
    \<and> Timer_Get 0x2a010001 (w, t) = Some 100"
proof -
  have "case Objects_Initialize_information (timer_objs two_timers) of None \<Rightarrow> False | Some objs \<Rightarrow>
     (case timer_run (\<lambda>r i d u. (False, u)) [Timer_create 7 False] (wd_start no_watchdogs, two_timers\<lparr>timer_objs := objs\<rparr>, []) of
        None \<Rightarrow> False | Some (w, t, hist) \<Rightarrow> Timer_Get 0x2a010001 (w, t) = Some 100)"
    by code_simp
  then show ?thesis unfolding option.case_eq_if by (auto split: if_splits option.splits prod.splits)
qed

section \<open>Properties\<close>

text \<open>C20. The timers of the Classic API never get stuck: after the initialisation every sequence of
  directives on timers, clock ticks and runs of the timer server returns, as long as the 64-bit tick counter
  does not come near its end: no red-black tree is corrupted, no table is left, and neither the loop of the clock tick
  nor that of the server runs forever, although the routines may restart their timers. The ticks count the clock
  ticks.\<close>

theorem timers_never_stuck:
  assumes "tm_start t" and "unat (cpu_ticks w) + length (filter (\<lambda>r. r = Tick) rs) < tick_horizon"
  shows "\<exists>objs w' t' hist. Objects_Initialize_information (timer_objs t) = Some objs
    \<and> timer_run user rs (wd_start w, t\<lparr>timer_objs := objs\<rparr>, []) = Some (w', t', hist) \<and> tm_inv (w', t')
    \<and> cpu_ticks w' = cpu_ticks w + of_nat (length (filter (\<lambda>r. r = Tick) rs))"
proof -
  obtain objs where O: "Objects_Initialize_information (timer_objs t) = Some objs"
    using Objects_Initialize_ok [of "timer_objs t"] assms(1) by (auto simp: tm_start_def)
  have "cpu_ticks (wd_start w) = cpu_ticks w" by (simp add: wd_start_def Watchdog_Header_initialize_def)
  then show ?thesis using timer_run_ok [OF tm_start_inv [OF assms(1) O], of w rs user "[]"] O assms(2) by auto
qed

theorem timers_never_stuck_witness:
  "\<exists>objs w' t' hist. Objects_Initialize_information (timer_objs two_timers) = Some objs
    \<and> timer_run (\<lambda>r i d u. (True, Suc u)) [Timer_create 7 False, Timer_fire_after 0x2a010001 2 1 0, Tick, Tick, Timer_cancel 0x2a010001, Serve]
        (wd_start no_watchdogs, two_timers\<lparr>timer_objs := objs\<rparr>, []) = Some (w', t', hist) \<and> cpu_ticks w' = 2"
proof -
  have "unat (cpu_ticks no_watchdogs) + length (filter (\<lambda>r. r = Tick)
      [Timer_create 7 False, Timer_fire_after 0x2a010001 2 1 0, Tick, Tick, Timer_cancel 0x2a010001, Serve]) < tick_horizon" by simp
  from timers_never_stuck [OF two_timers_start this, of "\<lambda>r i d u. (True, Suc u)"] show ?thesis
    by (elim exE conjE) (intro exI conjI, assumption, assumption, simp)
qed

text \<open>C21. An armed interval timer fires in time: in every state that is reached from the initialisation,
  \<^verbatim>\<open>rtems_timer_fire_after\<close> with an interval and a routine that are not 0 succeeds for an open timer, and as long
  as the ticks stay below the horizon, after fewer clock ticks than its interval the service routine of
  the timer's watchdog, the adaptor that calls the routine of the user, was not called, after as many it was.\<close>

theorem timer_fires_in_time:
  assumes "tm_start t0" and "Objects_Initialize_information (timer_objs t0) = Some objs"
    and "timer_run user rs (wd_start w0, t0\<lparr>timer_objs := objs\<rparr>, []) = Some (w, t, hist)"
    and "unat (cpu_ticks w0) + length (filter (\<lambda>r. r = Tick) rs) + unat n < tick_horizon"
    and "Timer_Get i (w, t) = Some x" and "x \<noteq> 0" and "n \<noteq> 0" and "routine \<noteq> 0"
  shows "\<exists>w1 t1. rtems_timer_fire_after i n routine data (w, t) = Some (RTEMS_SUCCESSFUL, (w1, t1))
    \<and> (\<forall>k \<le> unat n. \<exists>w' t' new. run_ticks (timer_tick user) k (w1, t1, []) = Some (w', t', new) \<and> (x \<in> set new \<longleftrightarrow> k = unat n))"
proof -
  have c0: "cpu_ticks (wd_start w0) = cpu_ticks w0" by (simp add: wd_start_def Watchdog_Header_initialize_def)
  have "tm_inv (w, t)" "cpu_ticks w = cpu_ticks w0 + of_nat (length (filter (\<lambda>r. r = Tick) rs))"
    using timer_run_ok [OF tm_start_inv [OF assms(1,2)], of w0 rs user "[]"] assms(3,4) c0 by auto
  then obtain W f where H: "wd_sys W w f" "tm_ok W w f t" and u: "unat (cpu_ticks w) + unat n < tick_horizon"
    using assms(4) tick_unat [of "cpu_ticks w0" "length (filter (\<lambda>r. r = Tick) rs)"] by (auto simp: tm_inv_def)
  obtain w1 t1 f1 where F: "rtems_timer_fire_after i n routine data (w, t) = Some (RTEMS_SUCCESSFUL, (w1, t1))" "wd_sys W w1 f1" "tm_ok W w1 f1 t1"
    "cpu_ticks w1 = cpu_ticks w" "x \<in> W" "(cpu_ticks w + ucast n, x) \<in> set (f1 0)"
    using Timer_Fire_ok [OF H assms(5,6), of TIMER_INTERVAL n ROUTINE_ADAPTOR routine data] assms(7,8) timer_classes
    by (auto simp: rtems_timer_fire_after_def Timer_Fire_after_def fire_expire_def)
  have e: "cpu_ticks w < cpu_ticks w + ucast n" "unat (cpu_ticks w + ucast n) = unat (cpu_ticks w) + unat n"
    using expires_later [of "cpu_ticks w" n] u assms(7) by auto
  have "\<exists>w' t' new. run_ticks (timer_tick user) k (w1, t1, []) = Some (w', t', new) \<and> (x \<in> set new \<longleftrightarrow> k = unat n)" if k: "k \<le> unat n" for k
  proof -
    have le: "unat (cpu_ticks w1) + k \<le> tick_horizon" using u k F(4) by simp
    obtain w' e' f' new where R: "run_ticks (timer_tick user) k (w1, t1, []) = Some (w', e')" "snd e' = new"
      "\<forall>y \<in> W. \<forall>a. (a, y) \<in> set (f1 0) \<longrightarrow> cpu_ticks w1 < a \<longrightarrow>
         (if a \<le> cpu_ticks w1 + of_nat k then y \<in> set new else (a, y) \<in> set (f' 0) \<and> y \<notin> set new)"
    proof -
      have "tm_ok W w1 f1 (fst (t1, []))" using F(3) by simp
      from tm.ticks_ok [OF F(2) this le, of user] show thesis
        unfolding timer_tick_def [symmetric] snd_conv append_Nil by (elim exE conjE) (rule that)
    qed
    have "x \<in> set new \<longleftrightarrow> cpu_ticks w + ucast n \<le> cpu_ticks w + of_nat k" using R(3) F(4-6) e(1) by (auto split: if_splits)
    also have "\<dots> \<longleftrightarrow> k = unat n" using e(2) tick_unat [of "cpu_ticks w" k] u k by (auto simp: word_le_nat_alt)
    finally show ?thesis using R(1,2) by (cases e') auto
  qed
  then show ?thesis using F(1) by blast
qed

theorem timer_fires_in_time_witness:
  "\<exists>w t w1 t1 w' t' new. Timer_Get 0x2a010001 (w, t :: nat timers) = Some 100
    \<and> rtems_timer_fire_after 0x2a010001 2 1 0 (w, t) = Some (RTEMS_SUCCESSFUL, (w1, t1))
    \<and> run_ticks (timer_tick (\<lambda>r i d u. (False, u))) 2 (w1, t1, []) = Some (w', t', new) \<and> 100 \<in> set new"
proof -
  obtain objs w t hist where C: "Objects_Initialize_information (timer_objs two_timers) = Some objs"
    "timer_run (\<lambda>r i d u. (False, u)) [Timer_create 7 False] (wd_start no_watchdogs, two_timers\<lparr>timer_objs := objs\<rparr>, []) = Some (w, t, hist)"
    "Timer_Get 0x2a010001 (w, t) = Some 100" using two_timers_create by blast
  have u: "unat (2 :: uint32) = 2" by simp
  have l: "unat (cpu_ticks no_watchdogs) + length (filter (\<lambda>r. r = Tick) [Timer_create 7 False]) + unat (2 :: uint32) < tick_horizon" by simp
  have z: "100 \<noteq> (0 :: nat)" "(2 :: uint32) \<noteq> 0" "1 \<noteq> (0 :: nat)" by simp_all
  obtain w1 t1 where F: "rtems_timer_fire_after 0x2a010001 2 1 0 (w, t) = Some (RTEMS_SUCCESSFUL, (w1, t1))"
    "\<forall>k \<le> unat (2 :: uint32). \<exists>w' t' new. run_ticks (timer_tick (\<lambda>r i d u. (False, u))) k (w1, t1, []) = Some (w', t', new)
      \<and> (100 \<in> set new \<longleftrightarrow> k = unat (2 :: uint32))"
    using timer_fires_in_time [OF two_timers_start C(1,2) l C(3) z, of 0] by blast
  then show ?thesis using C(3) spec [OF F(2), of 2] unfolding u by blast
qed

end
