(* ===== verification/Spec2Isabelle.thy ===== *)
theory Spec2Isabelle
  imports Histogram Timespec Calendar Cyclic_Options Heap_Writes Heap_Overlap Message_Client Scheduler_Properties Timer_Properties
begin

text \<open>
  \<^bold>\<open>Verification of RTEMS and of the latency benchmark cyclictest\<close>

  The repository holds the real-time operating system RTEMS (\<^verbatim>\<open>rtems-6.1\<close>) together with the
  benchmark cyclictest of rt-tests (\<^verbatim>\<open>rt-tests-2.10\<close>), which is run on it to measure how late threads
  are woken. The development models the parts that such a measurement rests on: the handlers of the
  kernel core (the super core, \<^verbatim>\<open>cpukit/score\<close>, in its uniprocessor configuration), some managers of
  the Classic API on top of them (\<^verbatim>\<open>cpukit/rtems\<close>), and the benchmark with its histograms.

  \<^bold>\<open>Conventions.\<close> Definitions have the names of the C functions without the leading underscore.
  Machine integers are words of their width or integers with the wrap-around written out; addresses
  are natural numbers with 0 for \<open>NULL\<close>; memory is a function from addresses to fields, so that
  aliasing is part of the model. \<open>None\<close> (or \<open>Inl\<close> of a fault) is undefined behaviour of C or a loop
  without an end; no value stands for "does not happen", and the theorems prove that it does not
  occur. Loops that need an argument to end are \<open>partial_function (option)\<close> or functions with a
  termination proof, without fuel. Interrupt and processor locks are
  not state: the operations between them are atomic, and where the code opens its critical sections
  in the middle of an operation the model has separate steps. System calls, the timecounter and
  callbacks of users are arguments or inputs.

  \<^bold>\<open>Library.\<close> \<open>Prelude\<close> has the integer types, results with faults, and the locales for components with
  an invariant; \<open>Linked_List\<close> doubly linked lists in memory (chains, free lists); \<open>Ieee_Double\<close> the use
  of \<open>double\<close> that the reports make; \<open>Status\<close> the status codes.

  \<^bold>\<open>Heap handler\<close> (\<^verbatim>\<open>score/src/heap*.c\<close>). \<open>Heap\<close>: the control block and the memory with block headers
  as one record, every function from initialisation to resizing. \<open>Heap_Layout\<close>: the invariant, a list
  of blocks and a ring of free ones. \<open>Heap_Alloc\<close>, \<open>Heap_Search\<close>, \<open>Heap_Release\<close>, \<open>Heap_Init\<close>,
  \<open>Heap_Resize\<close>, \<open>Heap_Info\<close>: one group of operations each, its effect on the list of blocks, and that
  its loops end. \<open>Heap_Client\<close>: the contract as a locale of allocators, interpreted on the model; areas
  never overlap, whatever clients allocate and free, as long as the alignments they ask for are multiples of
  the page size. \<open>Heap_Writes\<close>: clients that also write what they like into their areas, including the link and
  size fields that lie there. \<open>Heap_Overlap\<close>: what happens to an area that does not begin on a page, the
  reason for the condition on the alignments.

  \<^bold>\<open>Chains, thread queues, message queues\<close> (\<^verbatim>\<open>score/src/chain*.c\<close>, \<^verbatim>\<open>threadq*.c\<close>, \<^verbatim>\<open>coremsg*.c\<close>).
  \<open>Chain\<close> refines chains by lists. \<open>Thread_Queue\<close> has the operations on thread queues and the exchange
  of their heads, \<open>Thread_Wait\<close> the state invariant with the graph of waiting threads (acyclic, and the
  deadlock detection of \<open>_Thread_queue_Path_acquire\<close> is exact), \<open>Thread_Steps\<close> the steps in which enqueues are
  interrupted by surrenders, timeouts and flushes, with their reachable states. \<open>Message_Queue\<close> and
  \<open>Message_Client\<close> build on both: every branch of submit and seize, and the refinement of a bounded
  queue of messages.

  \<^bold>\<open>Red-black trees\<close> (\<^verbatim>\<open>score/src/rbtree*.c\<close>, \<^verbatim>\<open>rbtree.h\<close>, \<^verbatim>\<open>bsd-tree.h\<close>). \<open>Rb_Tree\<close>: all operations, on nodes in memory,
  with the macros they are made of. \<open>Rb_Shape\<close>: the tree that the memory holds, seen from a node on the
  path to it, and the invariant of colours and black heights. \<open>Rb_Insert\<close>, \<open>Rb_Remove\<close> and \<open>Rb_Extract\<close>: the
  repairs end and restore the invariant, the sequence of nodes changes as it should. \<open>Rb_Order\<close>: minimum,
  neighbours, iteration, search, replacement and the postorder walk. \<open>Rb_Client\<close>: the interface
  \<open>keyed_collection\<close> of collections that refine a list sorted by key, interpreted on the trees.

  \<^bold>\<open>Schedulers\<close> (\<^verbatim>\<open>score/src/scheduler{priority,simple}*.c\<close>, \<^verbatim>\<open>thread*.c\<close>). \<open>Priority_Bits\<close>: the bit map
  is a set with a minimum. \<open>Scheduler\<close>: the operations of the two uniprocessor schedulers and of the
  threads that call them. \<open>Scheduler_Ready\<close> and \<open>Scheduler_Inv\<close>: a scheduler on one list, the
  specification, and its invariant. \<open>Scheduler_Sim\<close>, \<open>Scheduler_Requests\<close>: the interface
  \<open>scheduler_simulation\<close> and what holds in it for sequences of requests. \<open>Scheduler_Priority\<close> and
  \<open>Scheduler_Simple\<close> interpret it on the two schedulers, \<open>Scheduler_System\<close> from the start of the
  system on. \<open>Scheduler_Properties\<close>: the heir is always right, both schedulers agree, and yielding
  reaches every thread of the highest priority.

  \<^bold>\<open>Time\<close>. \<open>Timespec\<close>: the timespec handler, the coding of times as watchdog ticks and the time helpers
  of rt-tests. \<open>Calendar\<close>: the time of day of the Classic API, the inverse of its own reading.

  \<^bold>\<open>Watchdogs, objects, timers\<close> (\<^verbatim>\<open>score/src/watchdog*.c\<close>, \<^verbatim>\<open>object*.c\<close>, \<^verbatim>\<open>rtems/src/timer*.c\<close>). \<open>Watchdog\<close>: the headers of
  scheduled watchdogs and the clock tick; a header is again a \<open>keyed_collection\<close>, whose first watchdog is
  known without a search. \<open>Watchdog_System\<close>: the three headers together and the interface \<open>service_routines\<close>,
  the contract under which a tick ends and calls exactly the watchdogs that are due, in order. \<open>Objects\<close> and
  \<open>Objects_Client\<close>: identifiers and the table of a class, a refinement of a table of names with free
  indices; lookups are typed and stay inside of the table. \<open>Timer\<close>: the timers of the Classic API, which are
  objects with a watchdog, served in the clock tick or by the timer server. \<open>Timer_Inv\<close> shows that their
  routines keep the contract of \<open>service_routines\<close>, though they may restart timers. \<open>Timer_Properties\<close>: no sequence of
  directives, ticks and runs of the server gets stuck, and a timer fires at exactly the tick it was
  armed for. The bound on the 64-bit tick counter in these properties, \<open>2 ^ 64 - 2 ^ 32\<close> ticks, keeps the
  sum of ticks and a 32-bit interval from wrapping around.

  \<^bold>\<open>cyclictest\<close> (\<^verbatim>\<open>src/cyclictest/cyclictest.c\<close>, \<^verbatim>\<open>src/lib\<close>). \<open>Histogram\<close>: sampling conserves events. \<open>Cyclic_Loop\<close>:
  the measuring threads with all modes, spike lists and the search of the next deadline.
  \<open>Cyclic_Stats\<close>: the statistics printed are functions of the latencies measured. \<open>Rt_Utils\<close> and
  \<open>Cyclic_Options\<close>: numbers, policies, processors, options and the parameters of the threads.

  \<^bold>\<open>Interaction.\<close> cyclictest's threads are released by the watchdogs of the kernel and ordered by its
  scheduler; the scheduler keeps its ready threads on chains; waiting threads are on thread queues and
  become ready by surrender or by a watchdog; message queues combine chains and thread queues. Timers
  combine objects and watchdogs, and watchdogs are kept in red-black trees. The
  theories import each other in this order, and each states what the next one uses as lemmas on its
  abstract state or as a locale.

  \<^bold>\<open>Abstractions.\<close> The memory of the heap and of message queues is split by field: every header field and
  every byte of content is a function of its address. Writes of the owner of a heap area that hit a header field
  are the steps of \<open>Heap_Writes\<close>; a client that writes outside of its areas is not modelled. In \<open>Thread_Queue\<close> the
  chains and red-black trees of waiting threads are lists (the trees ordered by \<open>ordered_insert\<close>), the
  priority of a waiting thread does not change, the deadlock callout is the status \<open>STATUS_DEADLOCK\<close>, and the filter
  of a flush sets the status. In \<open>Scheduler\<close> the tree of contributed priorities is a sorted list. In \<open>Objects\<close>
  the chain of inactive objects is a list. \<open>Timer\<close> keeps a history of the calls of service routines that the code
  does not have, to state when they happen. Differences of times (\<open>calcdiff\<close>) and the carries of timespecs are
  computed without a bound: their signed overflow is undefined in C and is not modelled as a fault.

  \<^bold>\<open>Findings.\<close> Where the code does not do what it means to, the property that shows it is stated as it
  is (the overflow flag of \<open>hist_sample\<close>, the clock option that reads past an array, negative
  latencies, the endless loop with interval 0, overlapping heap areas, the endless initialisation of a
  class with 65535 objects).

  \<^bold>\<open>Not modelled.\<close> Board support and processor ports (hardware), SMP and the schedulers for it (locks
  between processors), EDF and CBS scheduling, priority inheritance, the multiprocessing interface,
  timecounters, POSIX and the C library, file systems, the loader, debugger and tracing, device
  frameworks, the shell, network servers, vendored libraries and the other programs of rt-tests. They
  are hardware access, third-party code, or services beside the real-time core. Of the objects, classes that grow,
  string names and remote objects are missing; of the timers, the creation of the server task; routines of
  applications call no other directive than the reset of their own timer. Of the heap, extension and the consistency walk
  are missing; of cyclictest, its main loop, shared memory and JSON output.
\<close>

end
